(* ===== verification/Prelude.thy ===== *)
theory Prelude
  imports Complex_Main "HOL-Library.Word" "HOL-Library.Monad_Syntax"
begin

text \<open>
  Shared by every theory of the development: how the C program's effects are represented, the
  machine constants of the LP64 ABI it is built for, and generic facts on lists and on results.

  A C operation that can abort the process (\<open>UU_PANIC\<close>, which calls \<open>abort\<close>), leave the bounds
  of an object or fail to return is a function into \<open>'a option\<close>: \<open>None\<close> is "no result". Total
  correctness is stated with \<open>yields m P\<close>: \<open>m\<close> returns, and what it returns satisfies \<open>P\<close>.
\<close>

section \<open>Results of operations that may not return\<close>

definition yields :: "'a option \<Rightarrow> ('a \<Rightarrow> bool) \<Rightarrow> bool" where
  "yields m P \<longleftrightarrow> (case m of None \<Rightarrow> False | Some r \<Rightarrow> P r)"

named_theorems yields_simps \<open>weakest preconditions of the result combinators\<close>

lemma yields_Some [simp, yields_simps]: "yields (Some r) P \<longleftrightarrow> P r"
  by (simp add: yields_def)

lemma yields_None [simp, yields_simps]: "\<not> yields None P"
  by (simp add: yields_def)

lemma yields_bind [simp, yields_simps]:
  "yields (Option.bind m f) P \<longleftrightarrow> yields m (\<lambda>x. yields (f x) P)"
  by (cases m) (simp_all add: yields_def)

lemma yields_map [simp, yields_simps]: "yields (map_option f m) P \<longleftrightarrow> yields m (\<lambda>x. P (f x))"
  by (cases m) (simp_all add: yields_def)

lemma yields_if [yields_simps]:
  "yields (if b then m else n) P \<longleftrightarrow> (b \<longrightarrow> yields m P) \<and> (\<not> b \<longrightarrow> yields n P)"
  by simp

lemma yields_conseq: "yields m P \<Longrightarrow> (\<And>r. P r \<Longrightarrow> Q r) \<Longrightarrow> yields m Q"
  by (cases m) (simp_all add: yields_def)

lemma yields_conj: "yields m P \<Longrightarrow> yields m Q \<Longrightarrow> yields m (\<lambda>r. P r \<and> Q r)"
  by (cases m) (simp_all add: yields_def)

lemma yields_iff_ex: "yields m P \<longleftrightarrow> (\<exists>r. m = Some r \<and> P r)"
  by (cases m) (simp_all add: yields_def)

lemma yieldsE:
  assumes "yields m P"
  obtains r where "m = Some r" and "P r"
  using assms by (cases m) (simp_all add: yields_def)

lemma yields_bindI:
  "yields m Q \<Longrightarrow> (\<And>x. Q x \<Longrightarrow> yields (f x) P) \<Longrightarrow> yields (Option.bind m f) P"
  by (cases m) (simp_all add: yields_def)

section \<open>Machine constants\<close>

text \<open>
  \<open>size_t\<close> has 64 bits and \<open>uint32_t\<close> 32. Sizes, counts and indices are \<open>nat\<close>; every place
  where the C code checks for overflow, saturates or wraps has the bound written out.
\<close>

definition SIZE_MAX :: nat where
  "SIZE_MAX = 2 ^ 64 - 1"

definition UINT32_MAX :: nat where
  "UINT32_MAX = 2 ^ 32 - 1"

lemma SIZE_MAX_pos [simp]: "0 < SIZE_MAX"
  by (simp add: SIZE_MAX_def)

lemma Suc_SIZE_MAX: "Suc SIZE_MAX = 2 ^ 64"
  by (simp add: SIZE_MAX_def)

lemma UINT32_MAX_pos [simp]: "0 < UINT32_MAX"
  by (simp add: UINT32_MAX_def)

lemma UINT32_MAX_less_SIZE_MAX: "UINT32_MAX < SIZE_MAX"
  by (simp add: UINT32_MAX_def SIZE_MAX_def)

section \<open>Generic facts on lists\<close>

named_theorems list_slices \<open>taking lists apart at an index and putting them together again\<close>

lemma take_drop_append_id [list_slices]: "take n xs @ drop n xs = xs"
  by simp

lemma take_append_length [list_slices]: "n \<le> length xs \<Longrightarrow> take n (take n xs @ ys) = take n xs"
  by (simp add: min_def)

lemma drop_append_length [list_slices]: "n \<le> length xs \<Longrightarrow> drop n (take n xs @ ys) = ys"
  by simp

lemma set_take_drop: "set xs = set (take n xs) \<union> set (drop n xs)"
  by (metis append_take_drop_id set_append)

text \<open>Updating one field of one element leaves the other fields of every element alone.\<close>

lemma nth_update_field:
  assumes "\<And>x. f (g x) = f x"
  shows "f (xs[i := g (xs ! i)] ! j) = f (xs ! j)"
  by (cases "i < length xs")
    (auto simp: nth_list_update list_update_beyond assms not_less)

end
