(* ===== verification/Common.thy ===== *)
theory Common
  imports Prelude
begin

text \<open>
  The utilities of \<open>common.h\<close>, \<open>common.c\<close>, \<open>compare.h\<close> and \<open>hash.h\<close>: saturating arithmetic on
  \<open>size_t\<close>, the growth of dynamic arrays, the three-way comparison codes and the FNV-1a hash of
  byte strings.

  The allocator is taken to succeed on every request whose size in bytes is a \<open>size_t\<close>; the checks
  that abort on a size computation that overflows are branches of the definitions.
\<close>

unbundle bit_operations_syntax

section \<open>Saturating arithmetic and array growth\<close>

definition uu_add_zu_or_saturate :: "nat \<Rightarrow> nat \<Rightarrow> nat" where
  "uu_add_zu_or_saturate a b = (let r = a + b in if r > SIZE_MAX then SIZE_MAX else r)"

definition uu_mul_zu_or_saturate :: "nat \<Rightarrow> nat \<Rightarrow> nat" where
  "uu_mul_zu_or_saturate a b = (let r = a * b in if r > SIZE_MAX then SIZE_MAX else r)"

text \<open>
  \<open>uu_xrealloc(p, n, m)\<close>: the size in bytes of the new object, or an abort. \<open>uu_x2realloc\<close> also
  returns the new capacity \<open>*n\<close>; the object holds \<open>*n\<close> elements of \<open>m\<close> bytes.
\<close>

definition uu_xrealloc :: "nat \<Rightarrow> nat \<Rightarrow> nat option" where
  "uu_xrealloc n m = (let sz = n * m in if sz > SIZE_MAX then None else Some sz)"

definition uu_x2realloc :: "nat \<Rightarrow> nat \<Rightarrow> nat option" where
  "uu_x2realloc n m =
     do {
       n' \<leftarrow> (if n \<noteq> 0 then (if n * 2 > SIZE_MAX then None else Some (n * 2)) else Some 1);
       _ \<leftarrow> uu_xrealloc n' m;
       Some n'
     }"

lemma uu_add_zu_or_saturate_eq: "uu_add_zu_or_saturate a b = min (a + b) SIZE_MAX"
  by (simp add: uu_add_zu_or_saturate_def Let_def min_def)

lemma uu_mul_zu_or_saturate_eq: "uu_mul_zu_or_saturate a b = min (a * b) SIZE_MAX"
  by (simp add: uu_mul_zu_or_saturate_def Let_def min_def)

lemma uu_add_mul_saturate:
  "uu_add_zu_or_saturate a (uu_mul_zu_or_saturate b c) = min (a + b * c) SIZE_MAX"
  by (simp add: uu_add_zu_or_saturate_eq uu_mul_zu_or_saturate_eq min_def)

lemma uu_add_zu_exact [simp]:
  "uu_add_zu_or_saturate a b < SIZE_MAX \<Longrightarrow> uu_add_zu_or_saturate a b = a + b"
  by (simp add: uu_add_zu_or_saturate_eq)

lemma yields_uu_x2realloc:
  assumes "m * max 1 (2 * n) \<le> SIZE_MAX" and "0 < m"
  shows "yields (uu_x2realloc n m) (\<lambda>n'. n' = max 1 (2 * n))"
proof (cases "n = 0")
  case True
  with assms show ?thesis
    by (simp add: uu_x2realloc_def uu_xrealloc_def Let_def)
next
  case False
  with assms have "m * (n * 2) \<le> SIZE_MAX"
    by (simp add: max_def mult.commute split: if_splits)
  moreover have "n * 2 \<le> m * (n * 2)"
    using mult_le_mono1 [of 1 m "n * 2"] assms(2) by simp
  ultimately have "m * (n * 2) \<le> SIZE_MAX" "n * 2 \<le> SIZE_MAX"
    by (blast intro: order_trans)+
  then show ?thesis
    using False by (simp add: uu_x2realloc_def uu_xrealloc_def Let_def mult.commute)
qed

section \<open>Comparison codes\<close>

definition COMPARE_LESS :: nat where "COMPARE_LESS = 1"
definition COMPARE_EQ :: nat where "COMPARE_EQ = 2"
definition COMPARE_GREATER :: nat where "COMPARE_GREATER = 4"

lemmas compare_codes = COMPARE_LESS_def COMPARE_EQ_def COMPARE_GREATER_def

lemma compare_codes_distinct [simp]:
  "COMPARE_LESS \<noteq> COMPARE_EQ" "COMPARE_EQ \<noteq> COMPARE_LESS"
  "COMPARE_LESS \<noteq> COMPARE_GREATER" "COMPARE_GREATER \<noteq> COMPARE_LESS"
  "COMPARE_EQ \<noteq> COMPARE_GREATER" "COMPARE_GREATER \<noteq> COMPARE_EQ"
  by (simp_all add: compare_codes)

text \<open>The code of the order of two elements, the specification of every three-way comparison.\<close>

definition compare_code :: "'a::linorder \<Rightarrow> 'a \<Rightarrow> nat" where
  "compare_code x y =
     (if x < y then COMPARE_LESS else if x = y then COMPARE_EQ else COMPARE_GREATER)"

lemma compare_code_mask:
  "compare_code x y AND COMPARE_LESS \<noteq> 0 \<longleftrightarrow> x < y"
  "compare_code x y AND (COMPARE_LESS OR COMPARE_EQ) \<noteq> 0 \<longleftrightarrow> x \<le> y"
  "compare_code x y AND COMPARE_GREATER \<noteq> 0 \<longleftrightarrow> x > y"
  "compare_code x y AND (COMPARE_GREATER OR COMPARE_EQ) \<noteq> 0 \<longleftrightarrow> x \<ge> y"
  by (auto simp: compare_code_def compare_codes)

section \<open>The hash of a byte string\<close>

text \<open>
  A C \<open>char\<close> array is a \<open>string\<close>: HOL's \<open>char\<close> is a byte. The \<open>uint32_t\<close> hash is a 32-bit word;
  the multiplication wraps.
\<close>

fun hash_str_concat :: "32 word \<Rightarrow> string \<Rightarrow> 32 word" where
  "hash_str_concat old [] = old"
| "hash_str_concat old (c # s) = hash_str_concat ((old XOR of_char c) * 16777619) s"

definition hash_str :: "string \<Rightarrow> 32 word" where
  "hash_str s = hash_str_concat 2166136261 s"

lemma hash_str_concat_append [simp]:
  "hash_str_concat h (s @ t) = hash_str_concat (hash_str_concat h s) t"
  by (induction s arbitrary: h) auto

lemma hash_str_append: "hash_str_concat (hash_str s) t = hash_str (s @ t)"
  by (simp add: hash_str_def)

end
