(* ===== verification/Strings.thy ===== *)
theory Strings
  imports Common "HOL-Library.Char_ord" "HOL-Library.List_Lexorder"
begin

text \<open>
  The immutable byte strings of \<open>str.h\<close> and \<open>str.c\<close>, with the append protocol that avoids copies:
  \<open>string_hot_append_begin\<close> makes room, the caller writes through \<open>string_hot_append_buf\<close>, and
  \<open>string_hot_append_end\<close> accounts for what was written.

  A \<open>String\<close> is the record below; \<open>s_data\<close> is the part of the flexible array that is in use, so
  \<open>size\<close> is its length. Writing past \<open>capacity\<close> has no result.
\<close>

unbundle bit_operations_syntax

record cstring =
  s_nrefs :: nat
  s_capacity :: nat
  s_hash :: "32 word"
  s_data :: string

abbreviation s_size :: "cstring \<Rightarrow> nat" where
  "s_size s \<equiv> length (s_data s)"

text \<open>\<open>sizeof(String)\<close>: the header, \<open>size\<close>, \<open>capacity\<close> and \<open>hash\<close>, padded.\<close>

definition SIZEOF_STRING :: nat where
  "SIZEOF_STRING = 40"

definition str_unsafe_reallocate :: "cstring \<Rightarrow> nat \<Rightarrow> cstring option" where
  "str_unsafe_reallocate s new_capacity =
     (if new_capacity + SIZEOF_STRING > SIZE_MAX then None
      else Some (s\<lparr>s_capacity := new_capacity\<rparr>))"

definition string_new_with_capacity :: "string \<Rightarrow> nat \<Rightarrow> cstring option" where
  "string_new_with_capacity x capacity =
     do {
       s \<leftarrow> str_unsafe_reallocate \<lparr>s_nrefs = 1, s_capacity = 0, s_hash = 0, s_data = []\<rparr> capacity;
       if length x > s_capacity s then None
       else Some (s\<lparr>s_nrefs := 1, s_hash := hash_str x, s_data := x\<rparr>)
     }"

definition string_new :: "string \<Rightarrow> cstring option" where
  "string_new x = string_new_with_capacity x (length x)"

text \<open>The loop \<open>while (c < req_capacity) c *= 2\<close>, in \<open>size_t\<close>.\<close>

partial_function (option) grow_capacity :: "nat \<Rightarrow> nat \<Rightarrow> nat option" where
  "grow_capacity c req_capacity =
     (if c < req_capacity then grow_capacity (c * 2 mod 2 ^ 64) req_capacity else Some c)"

definition string_hot_append_begin :: "cstring \<Rightarrow> nat \<Rightarrow> cstring option" where
  "string_hot_append_begin s n =
     (let req_capacity = s_size s + n in
      if req_capacity > SIZE_MAX then None
      else if req_capacity > SIZE_MAX div 2 then None
      else do {
        c \<leftarrow> grow_capacity (if s_capacity s = 0 then 1 else s_capacity s) req_capacity;
        if s_nrefs s = 1 then
          (if c > s_capacity s then str_unsafe_reallocate s c else Some s)
        else string_new_with_capacity (s_data s) c
      })"

text \<open>
  The caller's writes through \<open>string_hot_append_buf(s)\<close> and \<open>string_hot_append_end(s, n)\<close>
  together: the bytes \<open>x\<close> are stored from \<open>data + size\<close> on, then the hash is extended over them
  and \<open>size\<close> moves past them.
\<close>

definition string_hot_append_end :: "cstring \<Rightarrow> string \<Rightarrow> cstring option" where
  "string_hot_append_end s x =
     (if s_size s + length x > s_capacity s then None
      else Some (s\<lparr>s_hash := hash_str_concat (s_hash s) x, s_data := s_data s @ x\<rparr>))"

definition string_append :: "cstring \<Rightarrow> string \<Rightarrow> cstring option" where
  "string_append s x =
     do {
       s \<leftarrow> string_hot_append_begin s (length x);
       string_hot_append_end s x
     }"

text \<open>\<open>memcmp\<close> on two byte arrays of the same length: the sign of the first difference.\<close>

fun memcmp :: "string \<Rightarrow> string \<Rightarrow> int" where
  "memcmp (a # s) (b # t) =
     (if a = b then memcmp s t
      else if (of_char a :: nat) < of_char b then -1 else 1)"
| "memcmp _ _ = 0"

definition string_compare :: "cstring \<Rightarrow> cstring \<Rightarrow> nat" where
  "string_compare s t =
     (let ns = s_size s; nt = s_size t;
          nmin = (if ns < nt then ns else nt);
          r = (if nmin \<noteq> 0 then memcmp (take nmin (s_data s)) (take nmin (s_data t)) else 0) in
      if r \<noteq> 0 then (if r < 0 then COMPARE_LESS else COMPARE_GREATER)
      else if ns < nt then COMPARE_LESS
      else if ns = nt then COMPARE_EQ
      else COMPARE_GREATER)"

definition string_equal :: "cstring \<Rightarrow> cstring \<Rightarrow> bool" where
  "string_equal s t =
     (if s_size s \<noteq> s_size t then False
      else if s_hash s \<noteq> s_hash t then False
      else s_size s = 0 \<or> memcmp (s_data s) (s_data t) = 0)"

section \<open>Well-formedness and the capacity loop\<close>

definition str_ok :: "cstring \<Rightarrow> bool" where
  "str_ok s \<longleftrightarrow> s_size s \<le> s_capacity s \<and> s_hash s = hash_str (s_data s)"

lemma grow_capacity_yields:
  assumes "0 < c" and "req \<le> SIZE_MAX div 2"
  shows "yields (grow_capacity c req)
           (\<lambda>c'. req \<le> c' \<and> c \<le> c' \<and> (c < req \<longrightarrow> c' < 2 * req) \<and> (req \<le> c \<longrightarrow> c' = c))"
  using assms(1)
proof (induction "req - c" arbitrary: c rule: less_induct)
  case less
  show ?case
  proof (cases "c < req")
    case False
    then show ?thesis by (simp add: grow_capacity.simps [of c])
  next
    case True
    with assms(2) have nowrap: "c * 2 mod 2 ^ 64 = c * 2"
      by (simp add: SIZE_MAX_def)
    from True less.prems
    have "yields (grow_capacity (c * 2) req)
      (\<lambda>c'. req \<le> c' \<and> c * 2 \<le> c' \<and> (c * 2 < req \<longrightarrow> c' < 2 * req) \<and> (req \<le> c * 2 \<longrightarrow> c' = c * 2))"
      by (intro less.hyps) auto
    then have "yields (grow_capacity (c * 2) req)
      (\<lambda>c'. req \<le> c' \<and> c \<le> c' \<and> (c < req \<longrightarrow> c' < 2 * req) \<and> (req \<le> c \<longrightarrow> c' = c))"
      by (rule yields_conseq) (use True in auto)
    with True nowrap show ?thesis
      by (subst grow_capacity.simps) simp
  qed
qed

lemma string_new_with_capacity_yields:
  assumes "length x \<le> cap" and "cap + SIZEOF_STRING \<le> SIZE_MAX"
  shows "yields (string_new_with_capacity x cap)
           (\<lambda>s. str_ok s \<and> s_data s = x \<and> s_capacity s = cap \<and> s_nrefs s = 1)"
  using assms
  by (simp add: string_new_with_capacity_def str_unsafe_reallocate_def str_ok_def)

lemma string_new_yields:
  "length x + SIZEOF_STRING \<le> SIZE_MAX \<Longrightarrow>
   yields (string_new x) (\<lambda>s. str_ok s \<and> s_data s = x \<and> s_nrefs s = 1)"
  unfolding string_new_def
  by (rule yields_conseq [OF string_new_with_capacity_yields]) auto

section \<open>Appending\<close>

lemma string_hot_append_begin_yields:
  assumes "str_ok s"
    and room: "2 * (s_size s + n) + SIZEOF_STRING \<le> SIZE_MAX"
    and cap: "s_capacity s + SIZEOF_STRING \<le> SIZE_MAX"
  shows "yields (string_hot_append_begin s n)
           (\<lambda>t. str_ok t \<and> s_data t = s_data s \<and> s_size s + n \<le> s_capacity t \<and>
                s_capacity s \<le> s_capacity t \<and> s_capacity t + SIZEOF_STRING \<le> SIZE_MAX \<and>
                s_nrefs t = 1)"
proof -
  let ?c = "if s_capacity s = 0 then 1 else s_capacity s" and ?req = "s_size s + n"
  have req: "?req \<le> SIZE_MAX div 2"
    using room by simp
  have grow: "yields (grow_capacity ?c ?req)
     (\<lambda>c'. ?req \<le> c' \<and> ?c \<le> c' \<and> (?c < ?req \<longrightarrow> c' < 2 * ?req) \<and> (?req \<le> ?c \<longrightarrow> c' = ?c))"
    by (rule grow_capacity_yields) (use req in auto)
  have bound: "c' + SIZEOF_STRING \<le> SIZE_MAX" if "?c < ?req \<longrightarrow> c' < 2 * ?req"
    "?req \<le> ?c \<longrightarrow> c' = ?c" for c'
    using that room cap by (cases "?c < ?req") (auto simp: SIZEOF_STRING_def SIZE_MAX_def)
  have "yields (if s_nrefs s = 1
      then if c' > s_capacity s then str_unsafe_reallocate s c' else Some s
      else string_new_with_capacity (s_data s) c')
    (\<lambda>t. str_ok t \<and> s_data t = s_data s \<and> ?req \<le> s_capacity t \<and>
         s_capacity s \<le> s_capacity t \<and> s_capacity t + SIZEOF_STRING \<le> SIZE_MAX \<and> s_nrefs t = 1)"
    if c': "?req \<le> c' \<and> ?c \<le> c' \<and> (?c < ?req \<longrightarrow> c' < 2 * ?req) \<and> (?req \<le> ?c \<longrightarrow> c' = ?c)" for c'
  proof (cases "s_nrefs s = 1")
    case True
    with c' assms(1) cap bound [of c'] show ?thesis
      by (auto simp: str_unsafe_reallocate_def str_ok_def split: if_splits)
  next
    case False
    then show ?thesis
      using c' bound [of c'] yields_conseq [OF string_new_with_capacity_yields [of "s_data s" c']]
      by (auto split: if_splits)
  qed
  then have "yields (grow_capacity ?c ?req \<bind> (\<lambda>c'. if s_nrefs s = 1
      then if c' > s_capacity s then str_unsafe_reallocate s c' else Some s
      else string_new_with_capacity (s_data s) c'))
    (\<lambda>t. str_ok t \<and> s_data t = s_data s \<and> ?req \<le> s_capacity t \<and>
         s_capacity s \<le> s_capacity t \<and> s_capacity t + SIZEOF_STRING \<le> SIZE_MAX \<and> s_nrefs t = 1)"
    by (rule yields_bindI [OF grow])
  moreover have "\<not> ?req > SIZE_MAX" "\<not> ?req > SIZE_MAX div 2"
    using req by simp_all
  ultimately show ?thesis
    unfolding string_hot_append_begin_def Let_def by (simp only: if_False)
qed

lemma string_append_yields:
  assumes "str_ok s" and "2 * (s_size s + length x) + SIZEOF_STRING \<le> SIZE_MAX"
    and "s_capacity s + SIZEOF_STRING \<le> SIZE_MAX"
  shows "yields (string_append s x)
           (\<lambda>t. str_ok t \<and> s_data t = s_data s @ x \<and> s_capacity t + SIZEOF_STRING \<le> SIZE_MAX \<and>
                s_nrefs t = 1)"
  unfolding string_append_def
  by (rule yields_bindI [OF string_hot_append_begin_yields [OF assms]])
    (auto simp: string_hot_append_end_def str_ok_def hash_str_append)

section \<open>Comparison\<close>

lemma memcmp_0_iff: "length s = length t \<Longrightarrow> memcmp s t = 0 \<longleftrightarrow> s = t"
  by (induction s t rule: memcmp.induct) auto

lemma string_equal_iff:
  "str_ok s \<Longrightarrow> str_ok t \<Longrightarrow> string_equal s t \<longleftrightarrow> s_data s = s_data t"
  by (auto simp: string_equal_def str_ok_def memcmp_0_iff)

text \<open>
  \<open>memcmp\<close> on the common length, then the lengths: the lexicographic order of the library on
  lists of bytes.
\<close>

fun lex_compare :: "string \<Rightarrow> string \<Rightarrow> nat" where
  "lex_compare [] [] = COMPARE_EQ"
| "lex_compare [] (_ # _) = COMPARE_LESS"
| "lex_compare (_ # _) [] = COMPARE_GREATER"
| "lex_compare (a # s) (b # t) =
     (if a = b then lex_compare s t
      else if (of_char a :: nat) < of_char b then COMPARE_LESS else COMPARE_GREATER)"

lemma lex_compare_code: "lex_compare s t = compare_code s t"
  by (induction s t rule: lex_compare.induct)
    (auto simp: compare_code_def less_char_def)

lemma memcmp_take_left [simp]: "memcmp s (take (length s) t) = memcmp s t"
  by (induction s t rule: memcmp.induct) auto

lemma memcmp_take_right [simp]: "memcmp (take (length t) s) t = memcmp s t"
  by (induction s t rule: memcmp.induct) auto

lemma memcmp_then_lengths:
  "lex_compare s t =
     (if memcmp s t \<noteq> 0 then (if memcmp s t < 0 then COMPARE_LESS else COMPARE_GREATER)
      else if length s < length t then COMPARE_LESS
      else if length s = length t then COMPARE_EQ else COMPARE_GREATER)"
  by (induction s t rule: lex_compare.induct) simp_all

lemma string_compare_lex: "string_compare s t = lex_compare (s_data s) (s_data t)"
proof -
  let ?n = "if s_size s < s_size t then s_size s else s_size t"
  have "(if ?n \<noteq> 0 then memcmp (take ?n (s_data s)) (take ?n (s_data t)) else 0)
      = memcmp (s_data s) (s_data t)"
    by auto
  then show ?thesis
    unfolding string_compare_def Let_def memcmp_then_lengths by (simp only:)
qed

lemma string_compare_eq: "string_compare s t = compare_code (s_data s) (s_data t)"
  by (simp add: string_compare_lex lex_compare_code)

section \<open>Properties\<close>

text \<open>The loop of \<open>printf\<close>-style building: appending several pieces one after the other.\<close>

fun string_append_all :: "cstring \<Rightarrow> string list \<Rightarrow> cstring option" where
  "string_append_all s [] = Some s"
| "string_append_all s (x # xs) = do { s \<leftarrow> string_append s x; string_append_all s xs }"

lemma string_append_all_yields:
  assumes "str_ok s" and "s_capacity s + SIZEOF_STRING \<le> SIZE_MAX"
    and "2 * (s_size s + length (concat xs)) + SIZEOF_STRING \<le> SIZE_MAX"
  shows "yields (string_append_all s xs)
    (\<lambda>t. str_ok t \<and> s_data t = s_data s @ concat xs \<and> (xs \<noteq> [] \<longrightarrow> s_nrefs t = 1))"
  using assms
proof (induction xs arbitrary: s)
  case (Cons x xs)
  have "yields (string_append s x)
     (\<lambda>t. str_ok t \<and> s_data t = s_data s @ x \<and> s_capacity t + SIZEOF_STRING \<le> SIZE_MAX \<and> s_nrefs t = 1)"
    by (rule string_append_yields) (use Cons.prems in auto)
  then show ?case
    unfolding string_append_all.simps
  proof (rule yields_bindI)
    fix t
    assume t: "str_ok t \<and> s_data t = s_data s @ x \<and> s_capacity t + SIZEOF_STRING \<le> SIZE_MAX \<and> s_nrefs t = 1"
    show "yields (string_append_all t xs)
        (\<lambda>t. str_ok t \<and> s_data t = s_data s @ concat (x # xs) \<and> (x # xs \<noteq> [] \<longrightarrow> s_nrefs t = 1))"
    proof (cases "xs = []")
      case False
      have "yields (string_append_all t xs)
          (\<lambda>u. str_ok u \<and> s_data u = s_data t @ concat xs \<and> (xs \<noteq> [] \<longrightarrow> s_nrefs u = 1))"
        by (rule Cons.IH) (use t Cons.prems in auto)
      then show ?thesis
        by (rule yields_conseq) (use t False in auto)
    qed (use t in simp)
  qed
qed simp

text \<open>
  C26: A string built from a fresh empty one by any number of appends holds the concatenation of the
  pieces, and the hash that was extended piece by piece is the FNV-1a hash of the whole, so that it
  agrees with the hash of the same bytes made in one go; no append overflows its buffer.
\<close>

theorem string_build:
  assumes "2 * length (concat xs) + SIZEOF_STRING \<le> SIZE_MAX"
  shows "yields (do { s \<leftarrow> string_new []; string_append_all s xs })
    (\<lambda>t. s_data t = concat xs \<and> s_hash t = hash_str (concat xs) \<and> s_size t \<le> s_capacity t)"
  unfolding string_new_def
proof (rule yields_bindI [OF string_new_with_capacity_yields])
  fix s
  assume s: "str_ok s \<and> s_data s = [] \<and> s_capacity s = length ([] :: string) \<and> s_nrefs s = 1"
  then have "yields (string_append_all s xs) (\<lambda>t. str_ok t \<and> s_data t = s_data s @ concat xs \<and> (xs \<noteq> [] \<longrightarrow> s_nrefs t = 1))"
    by (intro string_append_all_yields) (use assms in \<open>auto simp: SIZEOF_STRING_def SIZE_MAX_def\<close>)
  then show "yields (string_append_all s xs)
      (\<lambda>t. s_data t = concat xs \<and> s_hash t = hash_str (concat xs) \<and> s_size t \<le> s_capacity t)"
    by (rule yields_conseq) (use s in \<open>auto simp: str_ok_def\<close>)
qed (simp_all add: SIZEOF_STRING_def SIZE_MAX_def)

theorem string_build_witness:
  "yields (do { s \<leftarrow> string_new []; string_append_all s [''ab'', [], ''c''] })
    (\<lambda>t. s_data t = ''abc'' \<and> s_hash t = hash_str ''abc'' \<and> s_size t \<le> s_capacity t)"
  using string_build [of "[''ab'', [], ''c'']"] by (simp add: SIZEOF_STRING_def SIZE_MAX_def)

text \<open>
  Comparison of strings is the lexicographic order of their bytes with the shorter prefix
  first (the code of the three-way comparison being \<open>LESS\<close>, \<open>EQ\<close> or \<open>GREATER\<close>), and equality,
  which first compares lengths and hashes, is equality of the contents.
\<close>

theorem string_order:
  assumes "str_ok s" and "str_ok t"
  shows "string_compare s t = compare_code (s_data s) (s_data t) \<and>
    (string_equal s t \<longleftrightarrow> s_data s = s_data t) \<and>
    (string_equal s t \<longleftrightarrow> string_compare s t = COMPARE_EQ)"
  using assms string_equal_iff [OF assms] by (auto simp: string_compare_eq compare_code_def COMPARE_LESS_def COMPARE_EQ_def COMPARE_GREATER_def)

theorem string_order_witness:
  "let s = \<lparr>s_nrefs = 1, s_capacity = 2, s_hash = hash_str ''ab'', s_data = ''ab''\<rparr>;
       t = \<lparr>s_nrefs = 1, s_capacity = 8, s_hash = hash_str ''abc'', s_data = ''abc''\<rparr> in
   string_compare s t = COMPARE_LESS \<and> \<not> string_equal s t"
  using string_order [of "\<lparr>s_nrefs = 1, s_capacity = 2, s_hash = hash_str ''ab'', s_data = ''ab''\<rparr>"
      "\<lparr>s_nrefs = 1, s_capacity = 8, s_hash = hash_str ''abc'', s_data = ''abc''\<rparr>"]
  by (simp add: str_ok_def compare_code_def Let_def)

end
