(* ===== verification/Table.thy ===== *)
theory Table
  imports Prelude
begin

text \<open>
  The contract between the hash table and its clients (dictionaries, the globals of the
  interpreter, the scopes of the parser, the keywords of the lexer): a table stands for a finite
  map from byte strings, and \<open>put\<close> returns a pointer to the value of an entry, through which the
  client reads and writes.
\<close>

locale byte_table =
  fixes inv :: "'t \<Rightarrow> bool"
    and contents :: "'t \<Rightarrow> string \<Rightarrow> 'v option"
    and room :: "'t \<Rightarrow> bool"
    and points :: "'t \<Rightarrow> 'p \<Rightarrow> string \<Rightarrow> bool"
    and get :: "'t \<Rightarrow> string \<Rightarrow> 'v \<Rightarrow> 'v option"
    and put :: "'t \<Rightarrow> string \<Rightarrow> 'v \<Rightarrow> ('t \<times> 'p) option"
    and load :: "'t \<Rightarrow> 'p \<Rightarrow> 'v option"
    and store :: "'t \<Rightarrow> 'p \<Rightarrow> 'v \<Rightarrow> 't option"
    and remove :: "'t \<Rightarrow> string \<Rightarrow> 'v \<Rightarrow> ('t \<times> 'v) option"
  assumes get_law: "inv t \<Longrightarrow> get t k d = Some (case contents t k of None \<Rightarrow> d | Some v \<Rightarrow> v)"
    and put_law: "inv t \<Longrightarrow> (contents t k = None \<Longrightarrow> room t) \<Longrightarrow>
      yields (put t k v) (\<lambda>(t', p). inv t' \<and> points t' p k \<and>
        contents t' = (contents t)(k \<mapsto> (case contents t k of None \<Rightarrow> v | Some w \<Rightarrow> w)))"
    and load_law: "inv t \<Longrightarrow> points t p k \<Longrightarrow> load t p = contents t k"
    and store_law: "inv t \<Longrightarrow> points t p k \<Longrightarrow>
      yields (store t p v) (\<lambda>t'. inv t' \<and> points t' p k \<and> contents t' = (contents t)(k \<mapsto> v))"
    and remove_law: "inv t \<Longrightarrow>
      yields (remove t k d) (\<lambda>(t', v). inv t' \<and> contents t' = (contents t)(k := None) \<and>
        v = (case contents t k of None \<Rightarrow> d | Some w \<Rightarrow> w))"
begin

text \<open>
  Find or create the entry, then assign through the pointer: a map update, whatever was there and
  whatever the placeholder.
\<close>

lemma put_store:
  assumes "inv t" and "contents t k = None \<Longrightarrow> room t"
  shows "yields (do { (t', p) \<leftarrow> put t k d; store t' p v })
           (\<lambda>t'. inv t' \<and> contents t' = (contents t)(k \<mapsto> v))"
proof (rule yields_bindI [OF put_law [OF assms]])
  fix x
  assume x: "case x of (t', p) \<Rightarrow> inv t' \<and> points t' p k \<and>
    contents t' = (contents t)(k \<mapsto> (case contents t k of None \<Rightarrow> d | Some w \<Rightarrow> w))"
  obtain t' p where tp: "x = (t', p)" by (cases x)
  with x have "inv t'" "points t' p k"
    and c: "contents t' = (contents t)(k \<mapsto> (case contents t k of None \<Rightarrow> d | Some w \<Rightarrow> w))"
    by auto
  then have "yields (store t' p v) (\<lambda>t''. inv t'' \<and> points t'' p k \<and> contents t'' = (contents t')(k \<mapsto> v))"
    by (intro store_law)
  then show "yields (case x of (t', p) \<Rightarrow> store t' p v)
      (\<lambda>t'. inv t' \<and> contents t' = (contents t)(k \<mapsto> v))"
    unfolding tp by (auto simp: c elim: yields_conseq)
qed

text \<open>The pointer \<open>put\<close> returns reads the value the map has for the key, or the one inserted.\<close>

lemma put_load:
  assumes "inv t" and "contents t k = None \<Longrightarrow> room t"
  shows "yields (do { (t', p) \<leftarrow> put t k v; w \<leftarrow> load t' p; Some (t', p, w) })
           (\<lambda>(t', p, w). inv t' \<and> points t' p k \<and> contents t' = (contents t)(k \<mapsto> w) \<and>
              w = (case contents t k of None \<Rightarrow> v | Some w \<Rightarrow> w))"
  by (rule yields_bindI [OF put_law [OF assms]])
    (auto simp: load_law split: prod.splits)

lemma get_after_put_store:
  assumes "inv t" and "contents t k = None \<Longrightarrow> room t"
  shows "yields (do { (t', p) \<leftarrow> put t k d; t' \<leftarrow> store t' p v; get t' k' d' })
           (\<lambda>w. w = (if k' = k then v else case contents t k' of None \<Rightarrow> d' | Some w \<Rightarrow> w))"
proof -
  have "yields (do { (t', p) \<leftarrow> put t k d; store t' p v })
     (\<lambda>t'. yields (get t' k' d') (\<lambda>w. w = (if k' = k then v else case contents t k' of None \<Rightarrow> d' | Some w \<Rightarrow> w)))"
    by (rule yields_conseq [OF put_store [OF assms]]) (auto simp: get_law)
  then show ?thesis
    by (simp add: case_prod_beta)
qed

end

end
