(* ===== verification/Xht.thy ===== *)
theory Xht
  imports Strings Table "HOL-Library.Multiset"
begin

text \<open>
  The hash table of \<open>xht.h\<close> and \<open>xht.c\<close>: an array of items in insertion order and an array of
  buckets, each the head of a chain of items linked by index. Dictionaries, the table of global
  variables, the scopes of the parser and the keyword table of the lexer are all such tables.

  \<open>items\<close> is the part of the items array in use (\<open>items_size\<close> is its length), \<open>buckets\<close> the whole
  bucket array (\<open>nbuckets\<close> is its length). Indices are natural numbers; the index
  \<open>(uint32_t) -1\<close>, which ends a chain, is \<open>NO_IDX\<close>. A read of an item that does not exist has no
  result.
\<close>

unbundle bit_operations_syntax

section \<open>The table and its operations\<close>

record 'v xitem =
  it_key :: string
  it_value :: 'v
  it_next :: nat
  it_hash :: "32 word"

record 'v xht =
  items :: "'v xitem list"
  items_capacity :: nat
  buckets :: "nat list"

abbreviation items_size :: "'v xht \<Rightarrow> nat" where
  "items_size ht \<equiv> length (items ht)"

abbreviation nbuckets :: "'v xht \<Rightarrow> nat" where
  "nbuckets ht \<equiv> length (buckets ht)"

definition NO_IDX :: nat where
  "NO_IDX = UINT32_MAX"

definition SIZEOF_ITEM :: nat where
  "SIZEOF_ITEM = 32"

definition xht_new :: "nat \<Rightarrow> 'v xht option" where
  "xht_new rank =
     (let n = 2 ^ rank mod 2 ^ 32 in
      do {
        _ \<leftarrow> uu_xrealloc n 4;
        Some \<lparr>items = [], items_capacity = 0, buckets = replicate n NO_IDX\<rparr>
      })"

definition xht_size :: "'v xht \<Rightarrow> nat" where
  "xht_size ht = items_size ht"

text \<open>The bucket of a hash, \<open>hash & (nbuckets - 1)\<close>.\<close>

definition bucket_ix :: "nat \<Rightarrow> 32 word \<Rightarrow> nat" where
  "bucket_ix nb hash = unat (hash AND (of_nat nb - 1))"

text \<open>\<open>item.nkey == nkey && (nkey == 0 || memcmp(key, item.key, nkey) == 0)\<close>\<close>

definition key_matches :: "string \<Rightarrow> 'v xitem \<Rightarrow> bool" where
  "key_matches key it \<longleftrightarrow>
     length (it_key it) = length key \<and> (length key = 0 \<or> memcmp key (it_key it) = 0)"

text \<open>The loop of \<open>xht_get\<close>, \<open>xht_put\<close> and \<open>xht_indexed_next\<close>: the item with the key, or \<open>NO_IDX\<close>.\<close>

partial_function (option) chain_find :: "'v xitem list \<Rightarrow> string \<Rightarrow> nat \<Rightarrow> nat option" where
  "chain_find its key i =
     (if i = NO_IDX then Some NO_IDX
      else if i \<ge> length its then None
      else if key_matches key (its ! i) then Some i
      else chain_find its key (it_next (its ! i)))"

definition xht_get :: "'v xht \<Rightarrow> string \<Rightarrow> 32 word \<Rightarrow> 'v \<Rightarrow> 'v option" where
  "xht_get ht key hash if_absent =
     do {
       i \<leftarrow> chain_find (items ht) key (buckets ht ! bucket_ix (nbuckets ht) hash);
       Some (if i = NO_IDX then if_absent else it_value (items ht ! i))
     }"

definition grow_items :: "'v xht \<Rightarrow> 'v xht option" where
  "grow_items ht =
     (let capacity = items_capacity ht in
      if capacity = UINT32_MAX then None
      else do {
        let capacity' = (if capacity = 0 then 1
                         else if capacity * 2 > UINT32_MAX then UINT32_MAX else capacity * 2);
        _ \<leftarrow> uu_xrealloc SIZEOF_ITEM capacity';
        Some (ht\<lparr>items_capacity := capacity'\<rparr>)
      })"

text \<open>The loop of \<open>grow_buckets\<close> that links every item into its new bucket.\<close>

fun link_items :: "nat \<Rightarrow> nat list \<Rightarrow> nat list \<Rightarrow> 'v xitem list \<Rightarrow> nat list \<times> 'v xitem list" where
  "link_items nb [] bs its = (bs, its)"
| "link_items nb (i # is) bs its =
     (let b = bucket_ix nb (it_hash (its ! i)) in
      link_items nb is (bs[b := i]) (its[i := (its ! i)\<lparr>it_next := bs ! b\<rparr>]))"

definition grow_buckets :: "'v xht \<Rightarrow> 'v xht option" where
  "grow_buckets ht =
     (if nbuckets ht * 2 > UINT32_MAX then None
      else do {
        let nb = nbuckets ht * 2;
        _ \<leftarrow> uu_xrealloc 4 nb;
        let (bs, its) = link_items nb [0..<items_size ht] (replicate nb NO_IDX) (items ht);
        Some (ht\<lparr>items := its, buckets := bs\<rparr>)
      })"

text \<open>
  Returns the table and the index of the new item: the C function returns the address of its
  \<open>value\<close> field.
\<close>

definition xht_insert_new_unchecked ::
    "'v xht \<Rightarrow> string \<Rightarrow> 32 word \<Rightarrow> 'v \<Rightarrow> ('v xht \<times> nat) option" where
  "xht_insert_new_unchecked ht key hash value =
     (let idx = items_size ht in
      do {
        ht \<leftarrow> (if idx = items_capacity ht then grow_items ht else Some ht);
        let bucket = bucket_ix (nbuckets ht) hash;
        let item = \<lparr>it_key = key, it_value = value, it_next = buckets ht ! bucket, it_hash = hash\<rparr>;
        let ht = ht\<lparr>items := items ht @ [item], buckets := (buckets ht)[bucket := idx]\<rparr>;
        ht \<leftarrow> (if items_size ht * 4 > nbuckets ht * 3 then grow_buckets ht else Some ht);
        Some (ht, idx)
      })"

definition xht_put :: "'v xht \<Rightarrow> string \<Rightarrow> 32 word \<Rightarrow> 'v \<Rightarrow> ('v xht \<times> nat) option" where
  "xht_put ht key hash value =
     do {
       i \<leftarrow> chain_find (items ht) key (buckets ht ! bucket_ix (nbuckets ht) hash);
       if i = NO_IDX then xht_insert_new_unchecked ht key hash value else Some (ht, i)
     }"

text \<open>Reading and writing through the pointer that \<open>xht_put\<close> returns.\<close>

definition xht_load :: "'v xht \<Rightarrow> nat \<Rightarrow> 'v option" where
  "xht_load ht i = (if i < items_size ht then Some (it_value (items ht ! i)) else None)"

definition xht_store :: "'v xht \<Rightarrow> nat \<Rightarrow> 'v \<Rightarrow> 'v xht option" where
  "xht_store ht i v =
     (if i < items_size ht then Some (ht\<lparr>items := (items ht)[i := (items ht ! i)\<lparr>it_value := v\<rparr>]\<rparr>)
      else None)"

text \<open>
  A pointer to a link, \<open>uint32_t *pi\<close>: to the head of a bucket or to the \<open>next\<close> field of an item.
\<close>

datatype link = Bucket nat | Next nat

definition read_link :: "'v xht \<Rightarrow> link \<Rightarrow> nat" where
  "read_link ht lk = (case lk of Bucket b \<Rightarrow> buckets ht ! b | Next i \<Rightarrow> it_next (items ht ! i))"

definition write_link :: "'v xht \<Rightarrow> link \<Rightarrow> nat \<Rightarrow> 'v xht" where
  "write_link ht lk x =
     (case lk of
        Bucket b \<Rightarrow> ht\<lparr>buckets := (buckets ht)[b := x]\<rparr>
      | Next i \<Rightarrow> ht\<lparr>items := (items ht)[i := (items ht ! i)\<lparr>it_next := x\<rparr>]\<rparr>)"

text \<open>
  The loops of \<open>xht_remove\<close> and \<open>pop_item_at_index\<close>: the link that points to the first item of the
  chain with the property, or \<open>None\<close> at the end of the chain.
\<close>

partial_function (option) walk_links ::
    "'v xht \<Rightarrow> (nat \<Rightarrow> bool) \<Rightarrow> link \<Rightarrow> link option option" where
  "walk_links ht P lk =
     (let i = read_link ht lk in
      if i = NO_IDX then Some None
      else if i \<ge> items_size ht then None
      else if P i then Some (Some lk)
      else walk_links ht P (Next i))"

definition pop_item_at_index :: "'v xht \<Rightarrow> nat \<Rightarrow> 'v xht option" where
  "pop_item_at_index ht idx =
     (let idx_last = items_size ht - 1 in
      do {
        ht \<leftarrow> (if idx \<noteq> idx_last then do {
                 let bucket = bucket_ix (nbuckets ht) (it_hash (items ht ! idx_last));
                 r \<leftarrow> walk_links ht (\<lambda>i. i = idx_last) (Bucket bucket);
                 lk \<leftarrow> r;
                 let ht = write_link ht lk idx;
                 Some (ht\<lparr>items := (items ht)[idx := items ht ! idx_last]\<rparr>)
               } else Some ht);
        Some (ht\<lparr>items := take idx_last (items ht)\<rparr>)
      })"

definition xht_remove :: "'v xht \<Rightarrow> string \<Rightarrow> 32 word \<Rightarrow> 'v \<Rightarrow> ('v xht \<times> 'v) option" where
  "xht_remove ht key hash if_absent =
     do {
       r \<leftarrow> walk_links ht (\<lambda>i. key_matches key (items ht ! i))
              (Bucket (bucket_ix (nbuckets ht) hash));
       (case r of
          None \<Rightarrow> Some (ht, if_absent)
        | Some lk \<Rightarrow> do {
            let i = read_link ht lk;
            let value = it_value (items ht ! i);
            let ht = write_link ht lk (it_next (items ht ! i));
            ht \<leftarrow> pop_item_at_index ht i;
            Some (ht, value)
          })
     }"

partial_function (option) xht_indexed_first :: "'v xht \<Rightarrow> nat \<Rightarrow> nat option" where
  "xht_indexed_first ht b =
     (if b = nbuckets ht then Some NO_IDX
      else if b > nbuckets ht then None
      else if buckets ht ! b \<noteq> NO_IDX then Some (buckets ht ! b)
      else xht_indexed_first ht (b + 1))"

definition xht_indexed_next :: "'v xht \<Rightarrow> string \<Rightarrow> 32 word \<Rightarrow> nat option" where
  "xht_indexed_next ht key hash =
     do {
       let bucket = bucket_ix (nbuckets ht) hash;
       i \<leftarrow> chain_find (items ht) key (buckets ht ! bucket);
       if i = NO_IDX then Some NO_IDX
       else if it_next (items ht ! i) \<noteq> NO_IDX then Some (it_next (items ht ! i))
       else xht_indexed_first ht (bucket + 1)
     }"

definition xht_indexed_key :: "'v xht \<Rightarrow> nat \<Rightarrow> string option" where
  "xht_indexed_key ht idx = (if idx < items_size ht then Some (it_key (items ht ! idx)) else None)"

section \<open>Chains\<close>

text \<open>
  \<open>path its i cs j\<close>: following \<open>next\<close> from index \<open>i\<close> visits exactly the items \<open>cs\<close> and arrives at
  \<open>j\<close>. A chain is a path to \<open>NO_IDX\<close>.
\<close>

fun path :: "'v xitem list \<Rightarrow> nat \<Rightarrow> nat list \<Rightarrow> nat \<Rightarrow> bool" where
  "path its i [] j \<longleftrightarrow> i = j"
| "path its i (c # cs) j \<longleftrightarrow> i = c \<and> c < length its \<and> path its (it_next (its ! c)) cs j"

abbreviation chain :: "'v xitem list \<Rightarrow> nat \<Rightarrow> nat list \<Rightarrow> bool" where
  "chain its i cs \<equiv> path its i cs NO_IDX"

lemma path_append [simp]: "path its i (ps @ qs) j \<longleftrightarrow> (\<exists>k. path its i ps k \<and> path its k qs j)"
  by (induction ps arbitrary: i) auto

lemma path_bound: "path its i cs j \<Longrightarrow> c \<in> set cs \<Longrightarrow> c < length its"
  by (induction cs arbitrary: i) auto

lemma path_cong:
  "length its \<le> length its' \<Longrightarrow> (\<And>c. c \<in> set cs \<Longrightarrow> it_next (its' ! c) = it_next (its ! c)) \<Longrightarrow>
   path its i cs j \<Longrightarrow> path its' i cs j"
  by (induction cs arbitrary: i) auto

lemma path_take:
  "path its i cs j \<Longrightarrow> (\<And>c. c \<in> set cs \<Longrightarrow> c < m) \<Longrightarrow> path (take m its) i cs j"
  by (induction cs arbitrary: i) auto

lemma path_update: "c \<notin> set cs \<Longrightarrow> path its i cs j \<Longrightarrow> path (its[c := x]) i cs j"
  by (rule path_cong [of its]) (simp, metis nth_list_update_neq, simp)

lemma path_snoc_item: "path its i cs j \<Longrightarrow> path (its @ [x]) i cs j"
  by (rule path_cong [of its]) (auto simp: nth_append dest: path_bound)

text \<open>The bucket an item belongs to, and the tables whose buckets hold exactly the items of a set.\<close>

abbreviation bucket_of :: "nat \<Rightarrow> 'v xitem \<Rightarrow> nat" where
  "bucket_of nb it \<equiv> bucket_ix nb (it_hash it)"

definition linked :: "nat list \<Rightarrow> 'v xitem list \<Rightarrow> nat set \<Rightarrow> bool" where
  "linked bs its S \<longleftrightarrow>
     S \<subseteq> {..<length its} \<and>
     (\<forall>b<length bs. \<exists>cs. chain its (bs ! b) cs \<and> distinct cs \<and>
        set cs = {i \<in> S. bucket_of (length bs) (its ! i) = b})"

lemma linkedE:
  assumes "linked bs its S" and "b < length bs"
  obtains cs where "chain its (bs ! b) cs" and "distinct cs"
    and "set cs = {i \<in> S. bucket_of (length bs) (its ! i) = b}"
  using assms by (auto simp: linked_def)

lemma linked_cong:
  assumes "linked bs its S" and "length its \<le> length its'"
    and same: "\<And>i. i \<in> S \<Longrightarrow> it_next (its' ! i) = it_next (its ! i) \<and> it_hash (its' ! i) = it_hash (its ! i)"
  shows "linked bs its' S"
  unfolding linked_def
proof (intro conjI allI impI)
  show "S \<subseteq> {..<length its'}"
    using assms(1,2) by (auto simp: linked_def)
  fix b assume "b < length bs"
  with assms(1) obtain cs where cs: "chain its (bs ! b) cs" "distinct cs"
    "set cs = {i \<in> S. bucket_of (length bs) (its ! i) = b}"
    by (rule linkedE)
  have "chain its' (bs ! b) cs"
    by (rule path_cong [OF assms(2) _ cs(1)]) (use cs(3) same in auto)
  moreover have "set cs = {i \<in> S. bucket_of (length bs) (its' ! i) = b}"
    using cs(3) same by auto
  ultimately show "\<exists>cs. chain its' (bs ! b) cs \<and> distinct cs \<and>
      set cs = {i \<in> S. bucket_of (length bs) (its' ! i) = b}"
    using cs(2) by blast
qed

lemma linked_next_irrelevant:
  assumes "linked bs its S" and "i \<notin> S"
  shows "linked bs (its[i := (its ! i)\<lparr>it_next := x\<rparr>]) S"
  by (rule linked_cong [OF assms(1)]) (simp, metis assms(2) nth_list_update_neq)

lemma linked_snoc_item:
  assumes "linked bs its S"
  shows "linked bs (its @ [x]) S"
  by (rule linked_cong [OF assms]) (use assms in \<open>auto simp: linked_def nth_append\<close>)

text \<open>Pushing an item onto the front of its bucket.\<close>

lemma linked_push:
  assumes "linked bs its S" and "i \<notin> S" and "i < length its"
    and b: "b = bucket_of (length bs) (its ! i)" "b < length bs"
    and nxt: "it_next (its ! i) = bs ! b"
  shows "linked (bs[b := i]) its (insert i S)"
  unfolding linked_def
proof (intro conjI allI impI)
  show "insert i S \<subseteq> {..<length its}"
    using assms(1,3) by (auto simp: linked_def)
  fix b' assume "b' < length (bs[b := i])"
  then have "b' < length bs" by simp
  with assms(1) obtain cs where cs: "chain its (bs ! b') cs" "distinct cs"
    "set cs = {i \<in> S. bucket_of (length bs) (its ! i) = b'}"
    by (rule linkedE)
  show "\<exists>cs. chain its (bs[b := i] ! b') cs \<and> distinct cs \<and>
      set cs = {j \<in> insert i S. bucket_of (length (bs[b := i])) (its ! j) = b'}"
  proof (cases "b' = b")
    case True
    with cs assms have "chain its (bs[b := i] ! b') (i # cs)" "distinct (i # cs)"
      "set (i # cs) = {j \<in> insert i S. bucket_of (length (bs[b := i])) (its ! j) = b'}"
      by auto
    then show ?thesis by blast
  next
    case False
    with cs assms have "chain its (bs[b := i] ! b') cs" "distinct cs"
      "set cs = {j \<in> insert i S. bucket_of (length (bs[b := i])) (its ! j) = b'}"
      by auto
    then show ?thesis by blast
  qed
qed

section \<open>The loops over chains\<close>

lemma key_matches_iff [simp]: "key_matches key it \<longleftrightarrow> it_key it = key"
  by (auto simp: key_matches_def memcmp_0_iff)

lemma chain_find_hit:
  "path its i ps j \<Longrightarrow> j < length its \<Longrightarrow> length its \<le> UINT32_MAX \<Longrightarrow>
   (\<forall>p\<in>set ps. it_key (its ! p) \<noteq> key) \<Longrightarrow> it_key (its ! j) = key \<Longrightarrow>
   chain_find its key i = Some j"
  by (induction ps arbitrary: i) (subst chain_find.simps, auto simp: NO_IDX_def)+

lemma chain_find_miss:
  "chain its i cs \<Longrightarrow> length its \<le> UINT32_MAX \<Longrightarrow>
   (\<forall>p\<in>set cs. it_key (its ! p) \<noteq> key) \<Longrightarrow> chain_find its key i = Some NO_IDX"
  by (induction cs arbitrary: i) (subst chain_find.simps, auto simp: NO_IDX_def)+

text \<open>The link that ends a path which starts behind a given link.\<close>

fun link_at :: "link \<Rightarrow> nat list \<Rightarrow> link" where
  "link_at lk [] = lk"
| "link_at lk (p # ps) = link_at (Next p) ps"

lemma link_at_snoc [simp]: "link_at lk (ps @ [p]) = Next p"
  by (induction ps arbitrary: lk) auto

lemma read_link_simps [simp]:
  "read_link ht (Bucket b) = buckets ht ! b"
  "read_link ht (Next i) = it_next (items ht ! i)"
  by (simp_all add: read_link_def)

lemma walk_links_hit:
  "path (items ht) (read_link ht lk) ps t \<Longrightarrow> t < items_size ht \<Longrightarrow> items_size ht \<le> UINT32_MAX \<Longrightarrow>
   (\<forall>p\<in>set ps. \<not> P p) \<Longrightarrow> P t \<Longrightarrow> walk_links ht P lk = Some (Some (link_at lk ps))"
proof (induction ps arbitrary: lk)
  case Nil
  then show ?case
    by (subst walk_links.simps) (auto simp: NO_IDX_def)
next
  case (Cons p ps)
  from Cons.prems have "walk_links ht P (Next p) = Some (Some (link_at (Next p) ps))"
    by (intro Cons.IH) auto
  with Cons.prems show ?case
    by (subst walk_links.simps) (auto simp: NO_IDX_def)
qed

lemma walk_links_miss:
  "chain (items ht) (read_link ht lk) cs \<Longrightarrow> items_size ht \<le> UINT32_MAX \<Longrightarrow>
   (\<forall>p\<in>set cs. \<not> P p) \<Longrightarrow> walk_links ht P lk = Some None"
proof (induction cs arbitrary: lk)
  case Nil
  then show ?case
    by (subst walk_links.simps) (auto simp: NO_IDX_def)
next
  case (Cons p cs)
  from Cons.prems have "walk_links ht P (Next p) = Some None"
    by (intro Cons.IH) auto
  with Cons.prems show ?case
    by (subst walk_links.simps) (auto simp: NO_IDX_def)
qed

lemma read_link_at:
  "path (items ht) (read_link ht lk) ps t \<Longrightarrow> read_link ht (link_at lk ps) = t"
  by (induction ps arbitrary: lk) auto

lemma write_link_simps [simp]:
  "items_size (write_link ht lk x) = items_size ht"
  "nbuckets (write_link ht lk x) = nbuckets ht"
  "items_capacity (write_link ht lk x) = items_capacity ht"
  "it_key (items (write_link ht lk x) ! i) = it_key (items ht ! i)"
  "it_value (items (write_link ht lk x) ! i) = it_value (items ht ! i)"
  "it_hash (items (write_link ht lk x) ! i) = it_hash (items ht ! i)"
  by (simp_all add: write_link_def nth_update_field split: link.split)

lemma write_link_other_bucket:
  "b' \<noteq> b \<Longrightarrow> buckets (write_link ht (link_at (Bucket b) ps) x) ! b' = buckets ht ! b'"
  by (cases ps rule: rev_cases) (auto simp: write_link_def)

lemma write_link_other_next:
  "i \<notin> set ps \<Longrightarrow> it_next (items (write_link ht (link_at (Bucket b) ps) x) ! i) = it_next (items ht ! i)"
  by (cases ps rule: rev_cases) (auto simp: write_link_def nth_list_update)

text \<open>Writing \<open>x\<close> to the link behind the prefix \<open>ps\<close> of a bucket makes the prefix end in \<open>x\<close>.\<close>

lemma write_link_path:
  assumes "path (items ht) (buckets ht ! b) ps t" and "distinct ps" and "b < nbuckets ht"
  shows "path (items (write_link ht (link_at (Bucket b) ps) x))
           (buckets (write_link ht (link_at (Bucket b) ps) x) ! b) ps x"
proof (cases ps rule: rev_cases)
  case Nil
  with assms(3) show ?thesis by (simp add: write_link_def)
next
  case (snoc qs p)
  with assms have "path (items ht) (buckets ht ! b) qs p" "p \<notin> set qs" "p < items_size ht"
    by auto
  then show ?thesis
    using snoc by (auto simp: write_link_def intro!: path_update)
qed

lemma write_link_path_rest:
  assumes "path (items ht) i qs j" and "set qs \<inter> set ps = {}"
  shows "path (items (write_link ht (link_at (Bucket b) ps) x)) i qs j"
  by (rule path_cong [OF _ _ assms(1)]) (use assms(2) in \<open>auto intro!: write_link_other_next\<close>)

section \<open>The invariant and the map a table stands for\<close>

definition xht_inv :: "'v xht \<Rightarrow> bool" where
  "xht_inv ht \<longleftrightarrow>
     (\<exists>r\<le>31. nbuckets ht = 2 ^ r) \<and>
     items_size ht \<le> items_capacity ht \<and> items_capacity ht \<le> UINT32_MAX \<and>
     4 * items_size ht \<le> 3 * nbuckets ht \<and>
     distinct (map it_key (items ht)) \<and>
     (\<forall>it\<in>set (items ht). it_hash it = hash_str (it_key it)) \<and>
     linked (buckets ht) (items ht) {..<items_size ht}"

definition xht_map :: "'v xht \<Rightarrow> string \<Rightarrow> 'v option" where
  "xht_map ht = map_of (map (\<lambda>it. (it_key it, it_value it)) (items ht))"

text \<open>There is room for one more key: no counter of the table overflows when it is inserted.\<close>

definition xht_room :: "'v xht \<Rightarrow> bool" where
  "xht_room ht \<longleftrightarrow> items_size ht < 3 * 2 ^ 29"

lemma bucket_ix_less:
  assumes "r \<le> 31"
  shows "bucket_ix (2 ^ r) h < 2 ^ r"
proof -
  have "bucket_ix (2 ^ r) h = unat (take_bit r h)"
    by (simp add: bucket_ix_def take_bit_eq_mask mask_eq_exp_minus_1)
  then show ?thesis
    by (simp add: unsigned_take_bit_eq take_bit_nat_less_exp)
qed

lemma xht_inv_bucket: "xht_inv ht \<Longrightarrow> bucket_ix (nbuckets ht) h < nbuckets ht"
  by (auto simp: xht_inv_def bucket_ix_less)

lemma xht_inv_size: "xht_inv ht \<Longrightarrow> items_size ht \<le> UINT32_MAX"
  by (simp add: xht_inv_def)

lemma xht_inv_linked: "xht_inv ht \<Longrightarrow> linked (buckets ht) (items ht) {..<items_size ht}"
  by (simp add: xht_inv_def)

lemma xht_inv_hash: "xht_inv ht \<Longrightarrow> i < items_size ht \<Longrightarrow> it_hash (items ht ! i) = hash_str (it_key (items ht ! i))"
  by (simp add: xht_inv_def)

lemma xht_inv_key_inj:
  "xht_inv ht \<Longrightarrow> i < items_size ht \<Longrightarrow> j < items_size ht \<Longrightarrow>
   it_key (items ht ! i) = it_key (items ht ! j) \<longleftrightarrow> i = j"
  by (auto simp: xht_inv_def distinct_conv_nth)

lemma xht_map_nth:
  "xht_inv ht \<Longrightarrow> i < items_size ht \<Longrightarrow> xht_map ht (it_key (items ht ! i)) = Some (it_value (items ht ! i))"
  unfolding xht_map_def
  by (rule map_of_is_SomeI) (auto simp: xht_inv_def comp_def)

lemma xht_map_None_iff:
  "xht_map ht key = None \<longleftrightarrow> (\<forall>i<items_size ht. it_key (items ht ! i) \<noteq> key)"
proof -
  have "xht_map ht key = None \<longleftrightarrow> (\<forall>it\<in>set (items ht). it_key it \<noteq> key)"
    by (force simp: xht_map_def map_of_eq_None_iff)
  then show ?thesis
    by (simp add: all_set_conv_all_nth)
qed

lemma xht_map_SomeE:
  assumes "xht_inv ht" and "xht_map ht key = Some v"
  obtains i where "i < items_size ht" and "it_key (items ht ! i) = key" and "it_value (items ht ! i) = v"
proof -
  from assms(2) obtain i where i: "i < items_size ht" "it_key (items ht ! i) = key"
    using xht_map_None_iff [of ht key] by auto
  with assms xht_map_nth [OF assms(1) i(1)] show ?thesis
    using that by simp
qed

text \<open>The chain a lookup of a key walks, split at the item with the key.\<close>

lemma bucket_chain_hit:
  assumes "xht_inv ht" and "i < items_size ht"
  obtains ps qs where
    "chain (items ht) (buckets ht ! bucket_of (nbuckets ht) (items ht ! i)) (ps @ i # qs)"
    and "distinct (ps @ i # qs)"
    and "set (ps @ i # qs) =
      {j. j < items_size ht \<and> bucket_of (nbuckets ht) (items ht ! j) = bucket_of (nbuckets ht) (items ht ! i)}"
proof -
  from xht_inv_linked [OF assms(1)] xht_inv_bucket [OF assms(1)] obtain cs where cs:
    "chain (items ht) (buckets ht ! bucket_of (nbuckets ht) (items ht ! i)) cs" "distinct cs"
    "set cs = {j \<in> {..<items_size ht}.
       bucket_of (nbuckets ht) (items ht ! j) = bucket_of (nbuckets ht) (items ht ! i)}"
    by (rule linkedE)
  with assms(2) have "i \<in> set cs" by simp
  then obtain ps qs where "cs = ps @ i # qs" by (auto simp: in_set_conv_decomp)
  with cs that show ?thesis by auto
qed

lemma chain_find_present:
  assumes "xht_inv ht" and "i < items_size ht" and "it_key (items ht ! i) = key"
  shows "chain_find (items ht) key (buckets ht ! bucket_ix (nbuckets ht) (hash_str key)) = Some i"
proof -
  obtain ps qs where
    chain: "chain (items ht) (buckets ht ! bucket_of (nbuckets ht) (items ht ! i)) (ps @ i # qs)"
    and "distinct (ps @ i # qs)"
    and elems: "set (ps @ i # qs) =
      {j. j < items_size ht \<and> bucket_of (nbuckets ht) (items ht ! j) = bucket_of (nbuckets ht) (items ht ! i)}"
    by (rule bucket_chain_hit [OF assms(1,2)])
  then have path: "path (items ht) (buckets ht ! bucket_of (nbuckets ht) (items ht ! i)) ps i"
    and "i \<notin> set ps"
    unfolding path_append by (simp_all only: path.simps, blast, simp)
  have "it_key (items ht ! p) \<noteq> key" if "p \<in> set ps" for p
  proof -
    have "p < items_size ht"
      using path_bound [OF chain, of p] that by simp
    then show ?thesis
      using xht_inv_key_inj [OF assms(1) _ assms(2), of p] that \<open>i \<notin> set ps\<close> assms(3) by auto
  qed
  moreover have "bucket_of (nbuckets ht) (items ht ! i) = bucket_ix (nbuckets ht) (hash_str key)"
    using xht_inv_hash [OF assms(1,2)] assms(3) by simp
  ultimately show ?thesis
    using chain_find_hit [OF _ assms(2) xht_inv_size [OF assms(1)] _ assms(3)] path by simp
qed

lemma chain_find_absent:
  assumes "xht_inv ht" and "xht_map ht key = None"
  shows "chain_find (items ht) key (buckets ht ! bucket_ix (nbuckets ht) h) = Some NO_IDX"
proof -
  from xht_inv_linked [OF assms(1)] xht_inv_bucket [OF assms(1)] obtain cs where cs:
    "chain (items ht) (buckets ht ! bucket_ix (nbuckets ht) h) cs"
    "set cs = {j \<in> {..<items_size ht}. bucket_of (nbuckets ht) (items ht ! j) = bucket_ix (nbuckets ht) h}"
    by (rule linkedE)
  with assms xht_inv_size show ?thesis
    by (intro chain_find_miss) (auto simp: xht_map_None_iff)
qed

section \<open>Lookup\<close>

lemma xht_get_eq:
  assumes "xht_inv ht"
  shows "xht_get ht key (hash_str key) d = Some (case xht_map ht key of None \<Rightarrow> d | Some v \<Rightarrow> v)"
proof (cases "xht_map ht key")
  case None
  with chain_find_absent [OF assms None] show ?thesis
    by (simp add: xht_get_def)
next
  case (Some v)
  then obtain i where i: "i < items_size ht" "it_key (items ht ! i) = key" "it_value (items ht ! i) = v"
    using xht_map_SomeE [OF assms] by blast
  then have "i \<noteq> NO_IDX"
    using xht_inv_size [OF assms] by (simp add: NO_IDX_def)
  with Some i show ?thesis
    by (simp add: xht_get_def chain_find_present [OF assms i(1,2)])
qed

section \<open>Insertion and growth\<close>

text \<open>What the rehash keeps: keys, values and hashes in their order; only the links change.\<close>

definition content :: "'v xitem \<Rightarrow> string \<times> 'v \<times> 32 word" where
  "content it = (it_key it, it_value it, it_hash it)"

lemma content_determines:
  assumes "map content its' = map content its"
  shows "map it_key its' = map it_key its"
    and "map (\<lambda>it. (it_key it, it_value it)) its' = map (\<lambda>it. (it_key it, it_value it)) its"
    and "(\<forall>it\<in>set its'. it_hash it = hash_str (it_key it)) \<longleftrightarrow> (\<forall>it\<in>set its. it_hash it = hash_str (it_key it))"
    and "length its' = length its"
proof -
  have *: "map (f \<circ> content) its' = map (f \<circ> content) its" for f :: "string \<times> 'a \<times> 32 word \<Rightarrow> 'c"
    using arg_cong [OF assms, of "map f"] by simp
  show "map it_key its' = map it_key its"
    using * [of fst] by (simp add: content_def comp_def)
  show "map (\<lambda>it. (it_key it, it_value it)) its' = map (\<lambda>it. (it_key it, it_value it)) its"
    using * [of "\<lambda>(k, v, h). (k, v)"] by (simp add: content_def comp_def)
  have "set (map (\<lambda>it. it_hash it = hash_str (it_key it)) its') =
        set (map (\<lambda>it. it_hash it = hash_str (it_key it)) its)"
    using * [of "\<lambda>(k, v, h). h = hash_str k"] by (simp add: content_def comp_def)
  then show "(\<forall>it\<in>set its'. it_hash it = hash_str (it_key it)) \<longleftrightarrow> (\<forall>it\<in>set its. it_hash it = hash_str (it_key it))"
    by (auto simp: set_eq_iff image_iff)
  show "length its' = length its"
    using assms by (rule map_eq_imp_length_eq)
qed

lemma content_next_irrelevant: "map content (its[i := (its ! i)\<lparr>it_next := x\<rparr>]) = map content its"
  by (rule nth_equalityI) (simp_all add: content_def nth_update_field)

lemma link_items_linked:
  assumes "r \<le> 31"
  shows "length bs = 2 ^ r \<Longrightarrow> linked bs its {..<m} \<Longrightarrow> m + k = length its \<Longrightarrow>
    link_items (2 ^ r) [m..<m + k] bs its = (bs', its') \<Longrightarrow>
    length bs' = 2 ^ r \<and> map content its' = map content its \<and> linked bs' its' {..<m + k}"
proof (induction k arbitrary: m bs its)
  case 0
  then show ?case by simp
next
  case (Suc k)
  let ?b = "bucket_of (2 ^ r) (its ! m)"
  let ?its = "its[m := (its ! m)\<lparr>it_next := bs ! ?b\<rparr>]"
  have m: "m < length its"
    using Suc.prems(3) by simp
  have "linked (bs[?b := m]) ?its (insert m {..<m})"
    by (rule linked_push)
      (use m Suc.prems(1) bucket_ix_less [OF assms]
         linked_next_irrelevant [OF Suc.prems(2), of m "bs ! ?b"] in auto)
  then have "linked (bs[?b := m]) ?its {..<Suc m}"
    by (simp add: lessThan_Suc)
  moreover have "link_items (2 ^ r) [Suc m..<Suc m + k] (bs[?b := m]) ?its = (bs', its')"
    using Suc.prems(4) by (simp add: upt_conv_Cons Let_def del: upt_Suc)
  ultimately have "length bs' = 2 ^ r \<and> map content its' = map content ?its \<and> linked bs' its' {..<Suc m + k}"
    using Suc.prems(1,3) by (intro Suc.IH) (simp_all del: upt_Suc)
  then show ?case
    by (simp add: content_next_irrelevant)
qed

lemma linked_empty: "linked (replicate nb NO_IDX) its {}"
  by (auto simp: linked_def intro: exI [of _ "[]"])

lemma grow_buckets_yields:
  assumes nb: "nbuckets ht = 2 ^ r" and "r < 31"
  shows "yields (grow_buckets ht)
    (\<lambda>ht'. nbuckets ht' = 2 ^ Suc r \<and> items_capacity ht' = items_capacity ht \<and>
       map content (items ht') = map content (items ht) \<and>
       linked (buckets ht') (items ht') {..<items_size ht})"
proof -
  have "(2 :: nat) ^ Suc r \<le> 2 ^ 31"
    using assms(2) by (intro power_increasing) auto
  then have small: "\<not> nbuckets ht * 2 > UINT32_MAX" "\<not> 4 * (nbuckets ht * 2) > SIZE_MAX"
    by (simp_all add: nb UINT32_MAX_def SIZE_MAX_def)
  obtain bs its where li:
    "link_items (2 ^ Suc r) [0..<0 + items_size ht] (replicate (2 ^ Suc r) NO_IDX) (items ht) = (bs, its)"
    by fastforce
  have "length bs = 2 ^ Suc r \<and> map content its = map content (items ht) \<and>
      linked bs its {..<0 + items_size ht}"
    by (rule link_items_linked [OF _ _ _ _ li]) (use assms(2) in \<open>auto simp: linked_empty\<close>)
  with li small show ?thesis
    by (simp add: grow_buckets_def uu_xrealloc_def Let_def nb mult.commute)
qed

lemma xht_inv_contentI:
  assumes "nbuckets ht = 2 ^ r" and "r \<le> 31"
    and "items_size ht \<le> items_capacity ht" and "items_capacity ht \<le> UINT32_MAX"
    and "4 * items_size ht \<le> 3 * nbuckets ht"
    and "map content (items ht) = map content its"
    and "distinct (map it_key its)" and "\<forall>it\<in>set its. it_hash it = hash_str (it_key it)"
    and "linked (buckets ht) (items ht) {..<items_size ht}"
  shows "xht_inv ht"
  using assms content_determines [OF assms(6)] unfolding xht_inv_def by auto

lemma xht_map_content:
  "map content (items ht) = map content its \<Longrightarrow>
   xht_map ht = map_of (map (\<lambda>it. (it_key it, it_value it)) its)"
  unfolding xht_map_def by (drule content_determines(2)) (rule arg_cong)

lemma map_of_append_fresh:
  "k \<notin> fst ` set xs \<Longrightarrow> map_of (xs @ [(k, v)]) = (map_of xs)(k \<mapsto> v)"
  by (induction xs) (auto simp: fun_upd_twist)

text \<open>The table with the item appended and linked, before the load is checked.\<close>

definition with_item :: "'v xht \<Rightarrow> string \<Rightarrow> 'v \<Rightarrow> nat \<Rightarrow> 'v xht" where
  "with_item ht key v cap =
     (let bucket = bucket_ix (nbuckets ht) (hash_str key) in
      ht\<lparr>items_capacity := cap,
         items := items ht @
           [\<lparr>it_key = key, it_value = v, it_next = buckets ht ! bucket, it_hash = hash_str key\<rparr>],
         buckets := (buckets ht)[bucket := items_size ht]\<rparr>)"

lemma with_item_simps [simp]:
  "items_size (with_item ht key v cap) = Suc (items_size ht)"
  "nbuckets (with_item ht key v cap) = nbuckets ht"
  "items_capacity (with_item ht key v cap) = cap"
  "map content (items (with_item ht key v cap)) = map content (items ht) @ [(key, v, hash_str key)]"
  by (simp_all add: with_item_def Let_def content_def)

lemma with_item_linked:
  assumes "xht_inv ht"
  shows "linked (buckets (with_item ht key v cap)) (items (with_item ht key v cap)) {..<Suc (items_size ht)}"
proof -
  let ?bucket = "bucket_ix (nbuckets ht) (hash_str key)"
  let ?its = "items (with_item ht key v cap)"
  have "linked (buckets ht) ?its {..<items_size ht}"
    using linked_snoc_item [OF xht_inv_linked [OF assms]] by (simp add: with_item_def Let_def)
  then have "linked ((buckets ht)[?bucket := items_size ht]) ?its (insert (items_size ht) {..<items_size ht})"
    by (rule linked_push) (use xht_inv_bucket [OF assms] in \<open>auto simp: with_item_def Let_def\<close>)
  then show ?thesis
    by (simp add: with_item_def Let_def lessThan_Suc)
qed

lemma with_item_keys:
  assumes "xht_inv ht" and "xht_map ht key = None"
  shows "distinct (map it_key (items (with_item ht key v cap)))"
    and "\<forall>it\<in>set (items (with_item ht key v cap)). it_hash it = hash_str (it_key it)"
    and "xht_map (with_item ht key v cap) = (xht_map ht)(key \<mapsto> v)"
proof -
  have fresh: "key \<notin> it_key ` set (items ht)"
    using assms(2) by (force simp: xht_map_def map_of_eq_None_iff)
  then show "distinct (map it_key (items (with_item ht key v cap)))"
    using assms(1) by (simp add: with_item_def Let_def xht_inv_def)
  show "\<forall>it\<in>set (items (with_item ht key v cap)). it_hash it = hash_str (it_key it)"
    using assms(1) by (auto simp: with_item_def Let_def xht_inv_def)
  show "xht_map (with_item ht key v cap) = (xht_map ht)(key \<mapsto> v)"
    using map_of_append_fresh [of key "map (\<lambda>it. (it_key it, it_value it)) (items ht)" v] fresh
    by (simp add: image_image xht_map_def with_item_def Let_def)
qed

lemma grow_items_yields:
  assumes "items_capacity ht = items_size ht" and "xht_room ht"
  shows "yields (grow_items ht) (\<lambda>ht'. \<exists>cap. ht' = ht\<lparr>items_capacity := cap\<rparr> \<and>
           items_size ht < cap \<and> cap \<le> UINT32_MAX)"
  using assms
  by (auto simp: grow_items_def Let_def uu_xrealloc_def xht_room_def UINT32_MAX_def
      SIZE_MAX_def SIZEOF_ITEM_def intro!: exI)

lemma xht_insert_new_unchecked_unfold:
  assumes "xht_inv ht" and "xht_room ht"
  shows "\<exists>cap. items_size ht < cap \<and> cap \<le> UINT32_MAX \<and>
    xht_insert_new_unchecked ht key (hash_str key) v =
      (let ht' = with_item ht key v cap in
       do {
         ht' \<leftarrow> (if items_size ht' * 4 > nbuckets ht' * 3 then grow_buckets ht' else Some ht');
         Some (ht', items_size ht)
       })"
proof (cases "items_size ht = items_capacity ht")
  case True
  then obtain cap where cap: "grow_items ht = Some (ht\<lparr>items_capacity := cap\<rparr>)"
    "items_size ht < cap" "cap \<le> UINT32_MAX"
    using grow_items_yields [of ht] assms(2) by (auto simp: yields_iff_ex)
  then show ?thesis
    using True by (intro exI [of _ cap]) (simp add: xht_insert_new_unchecked_def with_item_def Let_def)
next
  case False
  then show ?thesis
    using assms(1)
    by (intro exI [of _ "items_capacity ht"], cases ht)
      (simp add: xht_insert_new_unchecked_def with_item_def Let_def xht_inv_def)
qed

lemma xht_insert_new_unchecked_yields:
  assumes inv: "xht_inv ht" and "xht_room ht" and fresh: "xht_map ht key = None"
  shows "yields (xht_insert_new_unchecked ht key (hash_str key) v)
    (\<lambda>(ht', i). xht_inv ht' \<and> i = items_size ht \<and> items_size ht' = Suc (items_size ht) \<and>
       map content (items ht') = map content (items ht) @ [(key, v, hash_str key)] \<and>
       xht_map ht' = (xht_map ht)(key \<mapsto> v))"
proof -
  obtain cap where cap: "items_size ht < cap" "cap \<le> UINT32_MAX" and
    unf: "xht_insert_new_unchecked ht key (hash_str key) v =
      (let ht' = with_item ht key v cap in
       do {
         ht' \<leftarrow> (if items_size ht' * 4 > nbuckets ht' * 3 then grow_buckets ht' else Some ht');
         Some (ht', items_size ht)
       })"
    using xht_insert_new_unchecked_unfold [OF inv assms(2)] by blast
  let ?w = "with_item ht key v cap"
  obtain r where r: "r \<le> 31" "nbuckets ht = 2 ^ r" and load: "4 * items_size ht \<le> 3 * nbuckets ht"
    using inv by (auto simp: xht_inv_def)
  note w = with_item_keys [OF inv fresh, of v cap] with_item_linked [OF inv, of key v cap]
  show ?thesis
  proof (cases "items_size ?w * 4 > nbuckets ?w * 3")
    case False
    have "xht_inv ?w"
      by (rule xht_inv_contentI [of _ r "items ?w"]) (use r cap w False in auto)
    with False w(3) show ?thesis
      by (simp add: unf Let_def)
  next
    case True
    have "r < 31"
    proof (rule ccontr)
      assume "\<not> r < 31"
      with r have "nbuckets ht = 2 ^ 31" by (simp add: not_less)
      with True assms(2) show False by (simp add: xht_room_def)
    qed
    with r(2) have "yields (grow_buckets ?w)
      (\<lambda>ht'. nbuckets ht' = 2 ^ Suc r \<and> items_capacity ht' = cap \<and>
         map content (items ht') = map content (items ?w) \<and>
         linked (buckets ht') (items ht') {..<Suc (items_size ht)})"
      using grow_buckets_yields [of ?w r] by simp
    then obtain ht' where ht': "grow_buckets ?w = Some ht'"
      "nbuckets ht' = 2 ^ Suc r" "items_capacity ht' = cap"
      "map content (items ht') = map content (items ?w)"
      "linked (buckets ht') (items ht') {..<Suc (items_size ht)}"
      by (auto simp: yields_iff_ex)
    have size: "items_size ht' = Suc (items_size ht)"
      using content_determines(4) [OF ht'(4)] by simp
    have "4 * Suc (items_size ht) \<le> 3 * 2 ^ Suc r"
    proof (cases r)
      case 0
      with load r(2) show ?thesis by simp
    next
      case (Suc q)
      have "4 * Suc n \<le> 12 * z" if "2 * n \<le> 3 * z" "1 \<le> z" for n z :: nat
        using that by arith
      from this [of "items_size ht" "2 ^ q"] Suc load r(2) show ?thesis
        by (simp del: mult_Suc_right)
    qed
    then have "xht_inv ht'"
      by (intro xht_inv_contentI [of _ "Suc r" "items ?w"]) (use ht' size cap w \<open>r < 31\<close> in auto)
    moreover have "xht_map ht' = (xht_map ht)(key \<mapsto> v)"
      using xht_map_content [OF ht'(4)] w(3) by (simp add: xht_map_def)
    ultimately show ?thesis
      using ht'(1,4) True size by (simp add: unf Let_def)
  qed
qed

section \<open>Finding or creating an entry, and storing through its pointer\<close>

text \<open>The pointer \<open>i\<close> is to the value of the entry with the key.\<close>

definition points_to :: "'v xht \<Rightarrow> nat \<Rightarrow> string \<Rightarrow> bool" where
  "points_to ht i key \<longleftrightarrow> i < items_size ht \<and> it_key (items ht ! i) = key"

lemma xht_put_yields:
  assumes "xht_inv ht" and room: "xht_map ht key = None \<Longrightarrow> xht_room ht"
  shows "yields (xht_put ht key (hash_str key) v)
    (\<lambda>(ht', i). xht_inv ht' \<and> points_to ht' i key \<and>
       xht_map ht' = (xht_map ht)(key \<mapsto> (case xht_map ht key of None \<Rightarrow> v | Some w \<Rightarrow> w)) \<and>
       (\<forall>w. xht_map ht key = Some w \<longrightarrow> ht' = ht) \<and>
       (xht_map ht key = None \<longrightarrow> i = items_size ht \<and> items_size ht' = Suc (items_size ht)))"
proof (cases "xht_map ht key")
  case None
  have *: "content (items ht' ! items_size ht) = (key, v, hash_str key)"
    if "items_size ht' = Suc (items_size ht)"
      "map content (items ht') = map content (items ht) @ [(key, v, hash_str key)]" for ht'
    using arg_cong [OF that(2), of "\<lambda>xs. xs ! items_size ht"] that(1) by (simp add: nth_append)
  have "yields (xht_insert_new_unchecked ht key (hash_str key) v)
    (\<lambda>(ht', i). xht_inv ht' \<and> points_to ht' i key \<and> xht_map ht' = (xht_map ht)(key \<mapsto> v) \<and>
       i = items_size ht \<and> items_size ht' = Suc (items_size ht))"
    by (rule yields_conseq [OF xht_insert_new_unchecked_yields])
      (use assms None in \<open>auto simp: points_to_def content_def dest: *\<close>)
  then show ?thesis
    using None chain_find_absent [OF assms(1) None] by (simp add: xht_put_def)
next
  case (Some w)
  then obtain i where i: "i < items_size ht" "it_key (items ht ! i) = key"
    using xht_map_SomeE [OF assms(1)] by blast
  then have "i \<noteq> NO_IDX"
    using xht_inv_size [OF assms(1)] by (simp add: NO_IDX_def)
  with Some i assms(1) show ?thesis
    by (auto simp: xht_put_def chain_find_present points_to_def fun_upd_idem)
qed

lemma xht_load_eq:
  "xht_inv ht \<Longrightarrow> points_to ht i key \<Longrightarrow> xht_load ht i = xht_map ht key"
  by (auto simp: points_to_def xht_load_def xht_map_nth)

lemma map_of_update_nth:
  "distinct (map fst xs) \<Longrightarrow> i < length xs \<Longrightarrow>
   map_of (xs[i := (fst (xs ! i), v)]) = (map_of xs)(fst (xs ! i) \<mapsto> v)"
proof (induction xs arbitrary: i)
  case Nil
  then show ?case by simp
next
  case (Cons x xs)
  show ?case
  proof (cases i)
    case 0
    then show ?thesis by (cases x) (simp add: fun_eq_iff)
  next
    case (Suc j)
    then have "fst (xs ! j) \<in> fst ` set xs"
      using Cons.prems by simp
    then have "fst (xs ! j) \<noteq> fst x"
      using Cons.prems(1) by (simp, metis image_eqI)
    with Suc Cons show ?thesis
      by (cases x) (auto simp: fun_eq_iff)
  qed
qed

lemma xht_store_yields:
  assumes "xht_inv ht" and "points_to ht i key"
  shows "yields (xht_store ht i v)
    (\<lambda>ht'. xht_inv ht' \<and> points_to ht' i key \<and> xht_map ht' = (xht_map ht)(key \<mapsto> v) \<and>
       items_size ht' = items_size ht)"
proof -
  let ?its = "(items ht)[i := (items ht ! i)\<lparr>it_value := v\<rparr>]"
  let ?ht = "ht\<lparr>items := ?its\<rparr>"
  have i: "i < items_size ht" "it_key (items ht ! i) = key"
    using assms(2) by (simp_all add: points_to_def)
  have keys: "map it_key ?its = map it_key (items ht)"
    by (rule nth_equalityI) (simp_all add: nth_update_field)
  have "linked (buckets ht) ?its {..<items_size ht}"
    by (rule linked_cong [OF xht_inv_linked [OF assms(1)]]) (simp_all add: nth_update_field)
  moreover have "\<forall>it\<in>set ?its. it_hash it = hash_str (it_key it)"
    using assms(1) i by (auto simp: xht_inv_def dest: subsetD [OF set_update_subset_insert])
  ultimately have "xht_inv ?ht"
    using assms(1) keys by (simp add: xht_inv_def)
  moreover have "map (\<lambda>it. (it_key it, it_value it)) ?its =
      (map (\<lambda>it. (it_key it, it_value it)) (items ht))[i := (key, v)]"
    using i by (simp add: map_update)
  then have "xht_map ?ht = (xht_map ht)(key \<mapsto> v)"
    using map_of_update_nth [of "map (\<lambda>it. (it_key it, it_value it)) (items ht)" i v] i assms(1)
    by (simp add: xht_map_def xht_inv_def comp_def)
  ultimately show ?thesis
    using i by (simp add: xht_store_def points_to_def)
qed

section \<open>Removal\<close>

lemma write_link_linked:
  assumes lnk: "linked (buckets ht) (items ht) S" and b: "b < nbuckets ht"
    and chain: "path (items ht) (buckets ht ! b) ps t" "chain (items ht) x qs"
    and dist: "distinct (ps @ qs)"
    and elems: "set (ps @ qs) = {j \<in> T. bucket_of (nbuckets ht) (items ht ! j) = b}"
    and T: "T \<subseteq> {..<items_size ht}"
      "\<And>j. bucket_of (nbuckets ht) (items ht ! j) \<noteq> b \<Longrightarrow> j \<in> T \<longleftrightarrow> j \<in> S"
  shows "linked (buckets (write_link ht (link_at (Bucket b) ps) x))
           (items (write_link ht (link_at (Bucket b) ps) x)) T"
  unfolding linked_def
proof (intro conjI allI impI)
  let ?ht = "write_link ht (link_at (Bucket b) ps) x"
  show "T \<subseteq> {..<items_size ?ht}"
    using T(1) by simp
  fix b' assume "b' < nbuckets ?ht"
  then have b': "b' < nbuckets ht" by simp
  show "\<exists>cs. chain (items ?ht) (buckets ?ht ! b') cs \<and> distinct cs \<and>
      set cs = {j \<in> T. bucket_of (nbuckets ?ht) (items ?ht ! j) = b'}"
  proof (cases "b' = b")
    case True
    have "path (items ?ht) (buckets ?ht ! b) ps x"
      by (rule write_link_path [OF chain(1)]) (use dist b in auto)
    moreover have "chain (items ?ht) x qs"
      by (rule write_link_path_rest [OF chain(2)]) (use dist in auto)
    ultimately have "chain (items ?ht) (buckets ?ht ! b) (ps @ qs)"
      by auto
    with True dist elems show ?thesis
      by (intro exI [of _ "ps @ qs"]) auto
  next
    case False
    from lnk b' obtain cs where cs: "chain (items ht) (buckets ht ! b') cs" "distinct cs"
      "set cs = {j \<in> S. bucket_of (nbuckets ht) (items ht ! j) = b'}"
      by (rule linkedE)
    have "set cs \<inter> set ps = {}"
    proof -
      have "bucket_of (nbuckets ht) (items ht ! j) = b" if "j \<in> set ps" for j
      proof -
        have "j \<in> set (ps @ qs)" using that by simp
        then show ?thesis unfolding elems by simp
      qed
      with cs(3) False show ?thesis by auto
    qed
    then have "chain (items ?ht) (buckets ht ! b') cs"
      by (rule write_link_path_rest [OF cs(1)])
    then have "chain (items ?ht) (buckets ?ht ! b') cs"
      using False by (simp add: write_link_other_bucket)
    moreover have "set cs = {j \<in> T. bucket_of (nbuckets ?ht) (items ?ht ! j) = b'}"
      using cs(3) T(2) False by auto
    ultimately show ?thesis
      using cs(2) by blast
  qed
qed

text \<open>Removing an element of an array by moving the last one into its place.\<close>

definition swap_remove :: "nat \<Rightarrow> 'a list \<Rightarrow> 'a list" where
  "swap_remove i xs = take (length xs - 1) (xs[i := xs ! (length xs - 1)])"

lemma map_swap_remove: "i < length xs \<Longrightarrow> map f (swap_remove i xs) = swap_remove i (map f xs)"
  by (simp add: swap_remove_def map_update flip: take_map)

lemma mset_swap_remove:
  assumes "i < length xs"
  shows "mset (swap_remove i xs) = mset xs - {#xs ! i#}"
proof -
  let ?ys = "xs[i := last xs]"
  have ne: "xs \<noteq> []" using assms by auto
  have "mset (swap_remove i xs) = mset (butlast ?ys)"
    using ne by (simp add: swap_remove_def butlast_conv_take last_conv_nth)
  also have "\<dots> = mset ?ys - {#last ?ys#}"
    using assms append_butlast_last_id [of ?ys]
    by (metis add_diff_cancel_right' length_greater_0_conv length_list_update less_nat_zero_code
        list.size(3) mset.simps(1) mset.simps(2) mset_append)
  also have "last ?ys = last xs"
    using ne by (cases "i = length xs - 1") (auto simp: last_conv_nth)
  also have "mset ?ys - {#last xs#} = mset xs - {#xs ! i#}"
    using assms by (simp add: mset_update)
  finally show ?thesis .
qed

lemma swap_remove_distinct:
  assumes "distinct xs" and "i < length xs"
  shows "distinct (swap_remove i xs)" and "set (swap_remove i xs) = set xs - {xs ! i}"
proof -
  have "mset (swap_remove i xs) = mset (remove1 (xs ! i) xs)"
    by (simp add: mset_swap_remove [OF assms(2)])
  then show "distinct (swap_remove i xs)" "set (swap_remove i xs) = set xs - {xs ! i}"
    using assms(1) mset_eq_imp_distinct_iff mset_eq_setD
    by (metis distinct_remove1, metis set_remove1_eq)
qed

lemma map_of_swap_remove:
  assumes "distinct (map fst xs)" and "i < length xs"
  shows "map_of (swap_remove i xs) = (map_of xs)(fst (xs ! i) := None)"
proof
  fix k
  have d: "distinct xs" "distinct (map fst (swap_remove i xs))"
    using assms distinct_map swap_remove_distinct(1) [of "map fst xs" i]
    by (auto simp: map_swap_remove)
  have "(k, v) \<in> set (swap_remove i xs) \<longleftrightarrow> (k, v) \<in> set xs \<and> k \<noteq> fst (xs ! i)" for v
  proof -
    have "(k, v) = xs ! i" if "(k, v) \<in> set xs" "k = fst (xs ! i)"
    proof -
      have "(k, snd (xs ! i)) \<in> set xs"
        using that(2) nth_mem [OF assms(2)] by simp
      with that assms(1) have "v = snd (xs ! i)"
        by (blast intro: eq_key_imp_eq_value)
      with that(2) show ?thesis by simp
    qed
    then show ?thesis
      unfolding swap_remove_distinct(2) [OF d(1) assms(2)]
      by (metis Diff_iff empty_iff fst_conv insert_iff)
  qed
  then have "map_of (swap_remove i xs) k = Some v \<longleftrightarrow> ((map_of xs)(fst (xs ! i) := None)) k = Some v" for v
    by (simp add: map_of_eq_Some_iff [OF d(2)] map_of_eq_Some_iff [OF assms(1)])
  then show "map_of (swap_remove i xs) k = ((map_of xs)(fst (xs ! i) := None)) k"
    by (metis option.exhaust)
qed

lemma linked_take:
  assumes "linked bs its {..<m}" and "m \<le> length its"
  shows "linked bs (take m its) {..<m}"
  unfolding linked_def
proof (intro conjI allI impI)
  show "{..<m} \<subseteq> {..<length (take m its)}"
    using assms(2) by simp
  fix b assume "b < length bs"
  with assms(1) obtain cs where cs: "chain its (bs ! b) cs" "distinct cs"
    "set cs = {i \<in> {..<m}. bucket_of (length bs) (its ! i) = b}"
    by (rule linkedE)
  have "chain (take m its) (bs ! b) cs"
    by (rule path_take [OF cs(1)]) (simp add: cs(3))
  moreover have "set cs = {i \<in> {..<m}. bucket_of (length bs) (take m its ! i) = b}"
    unfolding cs(3) by auto
  ultimately show "\<exists>cs. chain (take m its) (bs ! b) cs \<and> distinct cs \<and>
      set cs = {i \<in> {..<m}. bucket_of (length bs) (take m its ! i) = b}"
    using cs(2) by blast
qed

lemma write_link_copy_commute:
  assumes "i \<notin> set ps" and "l \<notin> set ps"
  shows "(items (write_link ht (link_at (Bucket b) ps) x))[i := items (write_link ht (link_at (Bucket b) ps) x) ! l]
       = items (write_link (ht\<lparr>items := (items ht)[i := items ht ! l]\<rparr>) (link_at (Bucket b) ps) x)"
proof (cases ps rule: rev_cases)
  case Nil
  then show ?thesis by (simp add: write_link_def)
next
  case (snoc qs p)
  with assms show ?thesis
    by (auto simp: write_link_def list_update_swap [of p i])
qed

text \<open>
  The last item moves into the free slot \<open>idx\<close>: the chain of its bucket then runs through \<open>idx\<close>.
\<close>

lemma move_last_linked:
  assumes lnk: "linked (buckets ht) (items ht) ({..<items_size ht} - {idx})"
    and l: "l = items_size ht - 1" "idx < l"
    and b: "b = bucket_of (nbuckets ht) (items ht ! l)" "b < nbuckets ht"
    and cs: "chain (items ht) (buckets ht ! b) (ps @ l # qs)" "distinct (ps @ l # qs)"
      "set (ps @ l # qs) = {j \<in> {..<items_size ht} - {idx}. bucket_of (nbuckets ht) (items ht ! j) = b}"
    and w: "w = write_link ht (link_at (Bucket b) ps) idx"
  shows "linked (buckets w) (take l ((items w)[idx := items w ! l])) {..<l}"
proof -
  let ?ht = "ht\<lparr>items := (items ht)[idx := items ht ! l]\<rparr>"
  have in_cs: "j \<in> set (ps @ l # qs) \<longleftrightarrow>
      j < items_size ht \<and> j \<noteq> idx \<and> bucket_of (nbuckets ht) (items ht ! j) = b" for j
    unfolding cs(3) by simp
  have ni: "idx \<notin> set ps" "idx \<notin> set qs" "l \<notin> set ps" "l \<notin> set qs"
    using in_cs [of idx] cs(2) by auto
  have "linked (buckets ht) (items ?ht) ({..<items_size ht} - {idx})"
    by (rule linked_cong [OF lnk]) auto
  moreover have "path (items ?ht) (buckets ?ht ! b) ps l"
    using cs(1) ni by (auto intro!: path_update)
  moreover have "chain (items ?ht) idx (idx # qs)"
    using cs(1) ni l by (auto intro!: path_update)
  moreover have "distinct (ps @ idx # qs)"
    using cs(2) ni by auto
  moreover have "set (ps @ idx # qs) = {j \<in> {..<l}. bucket_of (nbuckets ?ht) (items ?ht ! j) = b}"
  proof -
    have "j \<in> set ps \<union> set qs \<longleftrightarrow> j < l \<and> j \<noteq> idx \<and> bucket_of (nbuckets ht) (items ht ! j) = b" for j
      using in_cs [of j] ni l by (cases "j = l") auto
    then show ?thesis
      using l b(1) by (auto simp: nth_list_update)
  qed
  moreover have "j \<in> {..<l} \<longleftrightarrow> j \<in> {..<items_size ht} - {idx}"
    if "bucket_of (nbuckets ?ht) (items ?ht ! j) \<noteq> b" for j
  proof -
    have "j \<noteq> idx"
      using that b(1) l by auto
    moreover from this have "j \<noteq> l"
      using that b(1) by auto
    ultimately show ?thesis using l by auto
  qed
  ultimately have "linked (buckets (write_link ?ht (link_at (Bucket b) ps) idx))
      (items (write_link ?ht (link_at (Bucket b) ps) idx)) {..<l}"
    by (intro write_link_linked [where S = "{..<items_size ht} - {idx}" and t = l and qs = "idx # qs"])
      (use b(2) l in simp_all)
  moreover have "buckets (write_link ?ht (link_at (Bucket b) ps) idx) = buckets w"
    by (cases ps rule: rev_cases) (auto simp: w write_link_def)
  ultimately have "linked (buckets w) ((items w)[idx := items w ! l]) {..<l}"
    using write_link_copy_commute [OF ni(1,3), of ht b idx] w by simp
  then show ?thesis
    by (rule linked_take) (use l w in simp)
qed

lemma pop_item_at_index_yields:
  assumes lnk: "linked (buckets ht) (items ht) ({..<items_size ht} - {idx})"
    and idx: "idx < items_size ht" and "items_size ht \<le> UINT32_MAX"
    and nb: "\<And>h. bucket_ix (nbuckets ht) h < nbuckets ht"
  shows "yields (pop_item_at_index ht idx)
    (\<lambda>ht'. nbuckets ht' = nbuckets ht \<and> items_capacity ht' = items_capacity ht \<and>
       map content (items ht') = swap_remove idx (map content (items ht)) \<and>
       linked (buckets ht') (items ht') {..<items_size ht - 1})"
proof (cases "idx = items_size ht - 1")
  case True
  then have "{..<items_size ht} - {idx} = {..<idx}"
    using idx by auto
  with lnk have "linked (buckets ht) (take idx (items ht)) {..<idx}"
    by (intro linked_take) (use idx in auto)
  moreover have "map content (take idx (items ht)) = swap_remove idx (map content (items ht))"
    using True idx by (simp add: swap_remove_def take_map)
  ultimately show ?thesis
    using True by (simp add: pop_item_at_index_def)
next
  case False
  let ?l = "items_size ht - 1"
  let ?b = "bucket_of (nbuckets ht) (items ht ! ?l)"
  have l: "?l < items_size ht" "idx < ?l" using idx False by auto
  from lnk nb obtain cs where cs: "chain (items ht) (buckets ht ! ?b) cs" "distinct cs"
    "set cs = {i \<in> {..<items_size ht} - {idx}. bucket_of (nbuckets ht) (items ht ! i) = ?b}"
    by (rule linkedE)
  with l have "?l \<in> set cs" by simp
  then obtain ps qs where pq: "cs = ps @ ?l # qs"
    by (auto simp: in_set_conv_decomp)
  let ?w = "write_link ht (link_at (Bucket ?b) ps) idx"
  have "path (items ht) (read_link ht (Bucket ?b)) ps ?l" "\<forall>p\<in>set ps. p \<noteq> ?l"
    using cs(1,2) unfolding pq by auto
  then have walk: "walk_links ht (\<lambda>i. i = ?l) (Bucket ?b) = Some (Some (link_at (Bucket ?b) ps))"
    using l(1) assms(3) by (intro walk_links_hit) auto
  have pop: "pop_item_at_index ht idx = Some (?w\<lparr>items := take ?l ((items ?w)[idx := items ?w ! ?l])\<rparr>)"
    using walk False by (simp add: pop_item_at_index_def Let_def)
  have "map content (items ?w) = map content (items ht)"
    by (rule nth_equalityI) (simp_all add: content_def)
  then have "map content (take ?l ((items ?w)[idx := items ?w ! ?l])) = swap_remove idx (map content (items ht))"
    using l by (simp add: swap_remove_def map_update content_def flip: take_map)
  moreover have "linked (buckets ?w) (take ?l ((items ?w)[idx := items ?w ! ?l])) {..<?l}"
    by (rule move_last_linked [OF lnk refl l(2) refl nb _ _ _ refl]) (use cs pq in auto)
  ultimately show ?thesis
    by (simp add: pop)
qed

lemma xht_new_yields:
  assumes "rank \<le> 31"
  shows "yields (xht_new rank) (\<lambda>ht. xht_inv ht \<and> xht_map ht = Map.empty \<and> items_size ht = 0)"
proof -
  have "(2 :: nat) ^ rank \<le> 2 ^ 31"
    using assms by (intro power_increasing) auto
  then have "(2 :: nat) ^ rank mod 2 ^ 32 = 2 ^ rank" and "\<not> 2 ^ rank * 4 > SIZE_MAX"
    by (simp_all add: SIZE_MAX_def)
  then show ?thesis
    using assms
    by (auto simp: xht_new_def uu_xrealloc_def Let_def xht_inv_def xht_map_def lessThan_0 linked_empty)
qed

lemma xht_remove_absent:
  assumes "xht_inv ht" and "xht_map ht key = None"
  shows "xht_remove ht key (hash_str key) d = Some (ht, d)"
proof -
  let ?b = "bucket_ix (nbuckets ht) (hash_str key)"
  from xht_inv_linked [OF assms(1)] xht_inv_bucket [OF assms(1)] obtain cs where cs:
    "chain (items ht) (buckets ht ! ?b) cs"
    "set cs = {j \<in> {..<items_size ht}. bucket_of (nbuckets ht) (items ht ! j) = ?b}"
    by (rule linkedE)
  have "walk_links ht (\<lambda>i. key_matches key (items ht ! i)) (Bucket ?b) = Some None"
    by (rule walk_links_miss [of _ _ cs])
      (use cs assms xht_inv_size [OF assms(1)] in \<open>auto simp: xht_map_None_iff\<close>)
  then show ?thesis
    by (simp add: xht_remove_def)
qed

lemma xht_remove_present:
  assumes inv: "xht_inv ht" and i: "i < items_size ht" and key: "it_key (items ht ! i) = key"
  shows "yields (xht_remove ht key (hash_str key) d)
    (\<lambda>(ht', v). v = it_value (items ht ! i) \<and> nbuckets ht' = nbuckets ht \<and>
       items_capacity ht' = items_capacity ht \<and>
       map content (items ht') = swap_remove i (map content (items ht)) \<and>
       linked (buckets ht') (items ht') {..<items_size ht - 1})"
proof -
  let ?b = "bucket_of (nbuckets ht) (items ht ! i)"
  have b: "?b = bucket_ix (nbuckets ht) (hash_str key)"
    using xht_inv_hash [OF inv i] key by simp
  obtain ps qs where chain: "chain (items ht) (buckets ht ! ?b) (ps @ i # qs)"
    and dist: "distinct (ps @ i # qs)"
    and elems: "set (ps @ i # qs) = {j. j < items_size ht \<and> bucket_of (nbuckets ht) (items ht ! j) = ?b}"
    by (rule bucket_chain_hit [OF inv i])
  let ?lk = "link_at (Bucket ?b) ps"
  let ?w = "write_link ht ?lk (it_next (items ht ! i))"
  have path: "path (items ht) (buckets ht ! ?b) ps i" "chain (items ht) (it_next (items ht ! i)) qs"
    using chain by auto
  have "\<not> key_matches key (items ht ! p)" if "p \<in> set ps" for p
    using xht_inv_key_inj [OF inv _ i, of p] path_bound [OF path(1) that] that dist key by auto
  then have walk: "walk_links ht (\<lambda>j. key_matches key (items ht ! j)) (Bucket ?b) = Some (Some ?lk)"
    by (intro walk_links_hit [of _ _ _ i]) (use path(1) i key xht_inv_size [OF inv] in auto)
  have read: "read_link ht ?lk = i"
    by (rule read_link_at) (use path(1) in simp)
  have elems': "set (ps @ qs) = {j \<in> {..<items_size ht} - {i}. bucket_of (nbuckets ht) (items ht ! j) = ?b}"
  proof -
    have "set (ps @ qs) = set (ps @ i # qs) - {i}"
      using dist by auto
    then show ?thesis unfolding elems by auto
  qed
  have "linked (buckets ?w) (items ?w) ({..<items_size ht} - {i})"
    by (rule write_link_linked [OF xht_inv_linked [OF inv] xht_inv_bucket [OF inv] path _ elems'])
      (use dist in auto)
  then have "yields (pop_item_at_index ?w i)
    (\<lambda>ht'. nbuckets ht' = nbuckets ?w \<and> items_capacity ht' = items_capacity ?w \<and>
       map content (items ht') = swap_remove i (map content (items ?w)) \<and>
       linked (buckets ht') (items ht') {..<items_size ?w - 1})"
    by (intro pop_item_at_index_yields) (use i xht_inv_size [OF inv] xht_inv_bucket [OF inv] in simp_all)
  moreover have "map content (items ?w) = map content (items ht)"
    by (rule nth_equalityI) (simp_all add: content_def)
  ultimately show ?thesis
    using walk read by (auto simp: xht_remove_def Let_def b elim: yields_conseq)
qed

lemma xht_remove_yields:
  assumes inv: "xht_inv ht"
  shows "yields (xht_remove ht key (hash_str key) d)
    (\<lambda>(ht', v). xht_inv ht' \<and> v = (case xht_map ht key of None \<Rightarrow> d | Some w \<Rightarrow> w) \<and>
       xht_map ht' = (xht_map ht)(key := None) \<and>
       items_size ht' = items_size ht - (if xht_map ht key = None then 0 else 1))"
proof (cases "xht_map ht key")
  case None
  with inv show ?thesis
    by (simp add: xht_remove_absent fun_upd_idem)
next
  case (Some w)
  then obtain i where i: "i < items_size ht" "it_key (items ht ! i) = key" "it_value (items ht ! i) = w"
    using xht_map_SomeE [OF inv] by blast
  obtain r where r: "r \<le> 31" "nbuckets ht = 2 ^ r"
    using inv by (auto simp: xht_inv_def)
  have good: "xht_inv ht' \<and> xht_map ht' = (xht_map ht)(key := None) \<and> items_size ht' = items_size ht - 1"
    if ht': "nbuckets ht' = nbuckets ht" "items_capacity ht' = items_capacity ht"
      "map content (items ht') = swap_remove i (map content (items ht))"
      "linked (buckets ht') (items ht') {..<items_size ht - 1}" for ht'
  proof -
    let ?its = "swap_remove i (items ht)"
    have cont: "map content (items ht') = map content ?its"
      using ht'(3) i(1) by (simp add: map_swap_remove)
    have len: "items_size ht' = items_size ht - 1"
      using content_determines(4) [OF cont] by (simp add: swap_remove_def)
    have "distinct (map it_key ?its)"
      using inv i(1) swap_remove_distinct(1) [of "map it_key (items ht)" i]
      by (simp add: map_swap_remove xht_inv_def)
    moreover have "set ?its \<subseteq> set (items ht)"
      using mset_swap_remove [OF i(1)] by (metis diff_subset_eq_self set_mset_mono set_mset_mset)
    ultimately have "xht_inv ht'"
      by (intro xht_inv_contentI [OF _ r(1) _ _ _ cont])
        (use inv ht' len r in \<open>auto simp: xht_inv_def\<close>)
    moreover have "xht_map ht' = (xht_map ht)(key := None)"
      unfolding xht_map_content [OF cont] map_swap_remove [OF i(1)]
      using map_of_swap_remove [of "map (\<lambda>it. (it_key it, it_value it)) (items ht)" i] inv i
      by (simp add: xht_map_def xht_inv_def comp_def)
    ultimately show ?thesis using len by simp
  qed
  show ?thesis
    by (rule yields_conseq [OF xht_remove_present [OF inv i(1,2)]]) (use good Some i(3) in auto)
qed

section \<open>Iteration\<close>

text \<open>The head of a list of indices as the iteration reports it.\<close>

definition head_idx :: "nat list \<Rightarrow> nat" where
  "head_idx xs = (case xs of [] \<Rightarrow> NO_IDX | x # _ \<Rightarrow> x)"

lemma head_idx_simps [simp]:
  "head_idx [] = NO_IDX" "head_idx (x # xs) = x"
  by (simp_all add: head_idx_def)

lemma chain_head: "chain its i cs \<Longrightarrow> i = head_idx cs"
  by (cases cs) auto

lemma xht_indexed_first_chains:
  assumes chains: "\<And>b. b < nbuckets ht \<Longrightarrow> chain (items ht) (buckets ht ! b) (cf b)"
    and size: "items_size ht \<le> UINT32_MAX" and "b \<le> nbuckets ht"
  shows "xht_indexed_first ht b = Some (head_idx (concat (map cf [b..<nbuckets ht])))"
  using assms(3)
proof (induction rule: inc_induct)
  case base
  show ?case by (simp add: xht_indexed_first.simps)
next
  case (step b)
  have head: "buckets ht ! b = head_idx (cf b)"
    by (rule chain_head [OF chains]) (use step in simp)
  have upt: "[b..<nbuckets ht] = b # [Suc b..<nbuckets ht]"
    using step by (simp add: upt_conv_Cons)
  show ?case
  proof (cases "cf b")
    case Nil
    with head step upt show ?thesis
      by (subst xht_indexed_first.simps) simp
  next
    case (Cons c cs)
    with chains [of b] step have "c < items_size ht" by auto
    with Cons head step upt size show ?thesis
      by (subst xht_indexed_first.simps) (simp add: NO_IDX_def)
  qed
qed

lemma xht_iteration_order:
  assumes inv: "xht_inv ht"
  obtains ord where "distinct ord" and "set ord = {..<items_size ht}"
    and "xht_indexed_first ht 0 = Some (head_idx ord)"
    and "\<And>xs i ys. ord = xs @ i # ys \<Longrightarrow>
           xht_indexed_next ht (it_key (items ht ! i)) (it_hash (items ht ! i)) = Some (head_idx ys)"
proof -
  let ?nb = "nbuckets ht"
  have "\<forall>b\<in>{..<?nb}. \<exists>cs. chain (items ht) (buckets ht ! b) cs \<and> distinct cs \<and>
      set cs = {i \<in> {..<items_size ht}. bucket_of ?nb (items ht ! i) = b}"
    using xht_inv_linked [OF inv] by (simp add: linked_def)
  then obtain cf where cf: "\<And>b. b < ?nb \<Longrightarrow> chain (items ht) (buckets ht ! b) (cf b)"
    "\<And>b. b < ?nb \<Longrightarrow> distinct (cf b)"
    "\<And>b. b < ?nb \<Longrightarrow> set (cf b) = {i \<in> {..<items_size ht}. bucket_of ?nb (items ht ! i) = b}"
    by (auto dest!: bchoice)
  note size = xht_inv_size [OF inv] and first = xht_indexed_first_chains [of ht cf, OF cf(1) xht_inv_size [OF inv]]
  let ?ord = "concat (map cf [0..<?nb])"
  have dist: "distinct (concat (map cf bs))" if "distinct bs" "set bs \<subseteq> {..<?nb}" for bs
    using that
  proof (induction bs)
    case (Cons b bs)
    then have "set (cf b) \<inter> set (concat (map cf bs)) = {}"
      using cf(3) by fastforce
    with Cons cf(2) show ?case by auto
  qed simp
  have nxt: "xht_indexed_next ht (it_key (items ht ! i)) (it_hash (items ht ! i)) = Some (head_idx ys)"
    if ord: "?ord = xs @ i # ys" for xs i ys
  proof -
    have "i \<in> set ?ord" unfolding ord by simp
    then obtain b where b: "b < ?nb" "i \<in> set (cf b)" by auto
    then obtain ps qs where pq: "cf b = ps @ i # qs" by (auto simp: in_set_conv_decomp)
    have i: "i < items_size ht" "bucket_of ?nb (items ht ! i) = b"
      using b cf(3) by auto
    have "[0..<?nb] = [0..<b] @ b # [Suc b..<?nb]"
      using upt_add_eq_append [of 0 b "?nb - b"] b(1) by (simp add: upt_conv_Cons)
    then have "xs @ i # ys = (concat (map cf [0..<b]) @ ps) @ i # (qs @ concat (map cf [Suc b..<?nb]))"
      using ord pq by simp
    moreover have "i \<notin> set xs" "i \<notin> set ys"
      using dist [of "[0..<?nb]"] unfolding ord by (auto simp: atLeast0LessThan)
    ultimately have ys: "ys = qs @ concat (map cf [Suc b..<?nb])"
      by (metis append_Cons_eq_iff)
    have next_i: "it_next (items ht ! i) = head_idx qs"
      using cf(1) [OF b(1)] unfolding pq by (auto intro: chain_head)
    have find: "chain_find (items ht) (it_key (items ht ! i)) (buckets ht ! b) = Some i"
      using chain_find_present [OF inv i(1) refl] xht_inv_hash [OF inv i(1)] i(2) by simp
    show ?thesis
    proof (cases qs)
      case Nil
      with find next_i i size first [of "Suc b"] b(1) ys show ?thesis
        by (simp add: xht_indexed_next_def Let_def NO_IDX_def)
    next
      case (Cons q qs')
      then have "q \<in> set (cf b)" using pq by simp
      then have "q < items_size ht" using cf(3) [OF b(1)] by auto
      with Cons find next_i i size ys show ?thesis
        by (simp add: xht_indexed_next_def Let_def NO_IDX_def)
    qed
  qed
  have "set ?ord = {..<items_size ht}"
    using cf(3) xht_inv_bucket [OF inv] by fastforce
  then show ?thesis
    using that [of ?ord] dist [of "[0..<?nb]"] first [of 0] nxt by (auto simp: atLeast0LessThan)
qed

section \<open>The table meets the contract of its clients\<close>

interpretation xt: byte_table xht_inv xht_map xht_room points_to
  "\<lambda>ht k. xht_get ht k (hash_str k)" "\<lambda>ht k. xht_put ht k (hash_str k)"
  xht_load xht_store "\<lambda>ht k. xht_remove ht k (hash_str k)"
proof unfold_locales
  fix ht :: "'a xht" and k :: string and d v :: 'a and p
  show "xht_inv ht \<Longrightarrow> xht_get ht k (hash_str k) d = Some (case xht_map ht k of None \<Rightarrow> d | Some v \<Rightarrow> v)"
    by (rule xht_get_eq)
  show "xht_inv ht \<Longrightarrow> (xht_map ht k = None \<Longrightarrow> xht_room ht) \<Longrightarrow>
    yields (xht_put ht k (hash_str k) v) (\<lambda>(t', p). xht_inv t' \<and> points_to t' p k \<and>
      xht_map t' = (xht_map ht)(k \<mapsto> (case xht_map ht k of None \<Rightarrow> v | Some w \<Rightarrow> w)))"
    by (rule yields_conseq [OF xht_put_yields]) auto
  show "xht_inv ht \<Longrightarrow> points_to ht p k \<Longrightarrow> xht_load ht p = xht_map ht k"
    by (rule xht_load_eq)
  show "xht_inv ht \<Longrightarrow> points_to ht p k \<Longrightarrow>
    yields (xht_store ht p v) (\<lambda>t'. xht_inv t' \<and> points_to t' p k \<and> xht_map t' = (xht_map ht)(k \<mapsto> v))"
    by (rule yields_conseq [OF xht_store_yields]) auto
  show "xht_inv ht \<Longrightarrow>
    yields (xht_remove ht k (hash_str k) d) (\<lambda>(t', v). xht_inv t' \<and> xht_map t' = (xht_map ht)(k := None) \<and>
      v = (case xht_map ht k of None \<Rightarrow> d | Some w \<Rightarrow> w))"
    by (rule yields_conseq [OF xht_remove_yields]) auto
qed

end
