(* ===== verification/Xht_Sequences.thy ===== *)
theory Xht_Sequences
  imports Xht
begin

text \<open>
  The hash table against its specification, a finite map: what a client observes of any sequence of
  lookups, assignments and removals on a new table is what it would observe of the map.
\<close>

section \<open>Sequences of operations\<close>

datatype 'v table_op = Lookup string 'v | Assign string 'v | Delete string 'v

text \<open>One operation as the clients of the table perform it, with the value they get back.\<close>

fun xht_step :: "'v table_op \<Rightarrow> 'v xht \<Rightarrow> ('v xht \<times> 'v) option" where
  "xht_step (Lookup k d) ht = do { v \<leftarrow> xht_get ht k (hash_str k) d; Some (ht, v) }"
| "xht_step (Assign k v) ht =
     do { (ht, p) \<leftarrow> xht_put ht k (hash_str k) v; ht \<leftarrow> xht_store ht p v; Some (ht, v) }"
| "xht_step (Delete k d) ht = xht_remove ht k (hash_str k) d"

fun xht_run :: "'v table_op list \<Rightarrow> 'v xht \<Rightarrow> ('v xht \<times> 'v list) option" where
  "xht_run [] ht = Some (ht, [])"
| "xht_run (c # cs) ht =
     do { (ht, v) \<leftarrow> xht_step c ht; (ht, vs) \<leftarrow> xht_run cs ht; Some (ht, v # vs) }"

text \<open>The same on maps.\<close>

definition map_lookup :: "(string \<Rightarrow> 'v option) \<Rightarrow> string \<Rightarrow> 'v \<Rightarrow> 'v" where
  "map_lookup m k d = (case m k of None \<Rightarrow> d | Some v \<Rightarrow> v)"

fun map_step :: "'v table_op \<Rightarrow> (string \<Rightarrow> 'v option) \<Rightarrow> (string \<Rightarrow> 'v option) \<times> 'v" where
  "map_step (Lookup k d) m = (m, map_lookup m k d)"
| "map_step (Assign k v) m = (m(k \<mapsto> v), v)"
| "map_step (Delete k d) m = (m(k := None), map_lookup m k d)"

fun map_run :: "'v table_op list \<Rightarrow> (string \<Rightarrow> 'v option) \<Rightarrow> (string \<Rightarrow> 'v option) \<times> 'v list" where
  "map_run [] m = (m, [])"
| "map_run (c # cs) m = (let (m, v) = map_step c m; (m, vs) = map_run cs m in (m, v # vs))"

section \<open>Refinement\<close>

lemma xht_store_size: "xht_store ht p v = Some ht' \<Longrightarrow> items_size ht' = items_size ht"
  by (auto simp: xht_store_def split: if_splits)

lemma xht_put_size:
  assumes "xht_inv ht" and "xht_room ht"
  shows "yields (xht_put ht k (hash_str k) v) (\<lambda>(ht', p). items_size ht' \<le> Suc (items_size ht))"
  by (rule yields_conseq [OF xht_put_yields]) (use assms in auto)

lemma xht_step_yields:
  assumes inv: "xht_inv ht" and room: "xht_room ht"
  shows "yields (xht_step c ht) (\<lambda>(ht', v). xht_inv ht' \<and> items_size ht' \<le> Suc (items_size ht) \<and>
     (xht_map ht', v) = map_step c (xht_map ht))"
proof (cases c)
  case (Lookup k d)
  then show ?thesis
    using inv by (simp add: xt.get_law map_lookup_def)
next
  case (Delete k d)
  then show ?thesis
    using inv by (auto simp: map_lookup_def intro!: yields_conseq [OF xht_remove_yields])
next
  case (Assign k v)
  obtain ht' p where put: "xht_put ht k (hash_str k) v = Some (ht', p)"
    and size: "items_size ht' \<le> Suc (items_size ht)"
    using xht_put_size [OF inv room, of k v] by (auto simp: yields_iff_ex)
  have "yields (do { (ht', p) \<leftarrow> xht_put ht k (hash_str k) v; xht_store ht' p v })
     (\<lambda>ht'. xht_inv ht' \<and> xht_map ht' = (xht_map ht)(k \<mapsto> v))"
    by (rule xt.put_store [OF inv room])
  then obtain ht'' where "xht_store ht' p v = Some ht''" "xht_inv ht''"
    "xht_map ht'' = (xht_map ht)(k \<mapsto> v)"
    by (auto simp: put yields_iff_ex)
  with size xht_store_size [of ht' p v ht''] show ?thesis
    by (simp add: Assign put)
qed

lemma xht_run_yields:
  assumes "xht_inv ht" and "items_size ht + length cs \<le> 3 * 2 ^ 29"
  shows "yields (xht_run cs ht) (\<lambda>(ht', vs). xht_inv ht' \<and> (xht_map ht', vs) = map_run cs (xht_map ht))"
  using assms
proof (induction cs arbitrary: ht)
  case (Cons c cs)
  then have "xht_room ht"
    by (simp add: xht_room_def)
  then obtain ht' v where step: "xht_step c ht = Some (ht', v)" "xht_inv ht'"
    "items_size ht' \<le> Suc (items_size ht)" "map_step c (xht_map ht) = (xht_map ht', v)"
    using xht_step_yields [OF Cons.prems(1), of c] by (auto simp: yields_iff_ex)
  with Cons.prems have "yields (xht_run cs ht')
      (\<lambda>(ht'', vs). xht_inv ht'' \<and> (xht_map ht'', vs) = map_run cs (xht_map ht'))"
    by (intro Cons.IH) auto
  then show ?case
    using step by (auto elim!: yields_conseq split: prod.splits)
qed simp

text \<open>
  C10: The hash table refines finite maps. Whatever sequence of at most \<open>3 * 2 ^ 29\<close> lookups, assignments through the
  pointer of \<open>xht_put\<close> and removals is run on a new table (of any rank up to 31), the table never aborts nor
  leaves its arrays, every operation returns what the same operation on a finite map returns, and
  at the end the well-formedness of the table holds: chains, hashes, load factor and capacities.
\<close>

theorem xht_refines_map:
  assumes "rank \<le> 31" and "length cs \<le> 3 * 2 ^ 29"
  shows "yields (do { ht \<leftarrow> xht_new rank; xht_run cs ht })
           (\<lambda>(ht, vs). xht_inv ht \<and> (xht_map ht, vs) = map_run cs Map.empty)"
proof (rule yields_bindI [OF xht_new_yields [OF assms(1)]])
  fix ht :: "'a xht"
  assume "xht_inv ht \<and> xht_map ht = Map.empty \<and> items_size ht = 0"
  with assms(2) show "yields (xht_run cs ht)
      (\<lambda>(ht, vs). xht_inv ht \<and> (xht_map ht, vs) = map_run cs Map.empty)"
    using xht_run_yields [of ht cs] by simp
qed

theorem xht_refines_map_witness:
  "yields (do { ht \<leftarrow> xht_new 0; xht_run [Assign ''k'' (7 :: nat), Lookup ''k'' 0, Delete ''k'' 0, Lookup ''k'' 1] ht })
     (\<lambda>(ht, vs). xht_inv ht \<and> (xht_map ht, vs) =
        map_run [Assign ''k'' (7 :: nat), Lookup ''k'' 0, Delete ''k'' 0, Lookup ''k'' 1] Map.empty)"
  by (rule xht_refines_map) simp_all

end
