(* ===== verification/Dict.thy ===== *)
theory Dict
  imports Xht
begin

text \<open>
  Dictionaries (\<open>dict.h\<close>, \<open>dict.c\<close>): a hash table from byte strings to values, with a reference
  count on every value. A \<open>MaybeValue\<close> is an option, its \<open>NULL\<close> the value \<open>None\<close>; a dictionary is
  never left with a \<open>NULL\<close> in it. Keys are string objects, whose hash the string maintains. The
  reference counts of the values and the list of weak references are not part of this component.
\<close>

section \<open>Operations\<close>

type_synonym 'v dict = "'v option xht"

text \<open>The loop of \<open>dict_new_steal\<close> over the pairs of the argument vector.\<close>

fun dict_fill :: "'v dict \<Rightarrow> (cstring \<times> 'v) list \<Rightarrow> 'v dict option" where
  "dict_fill ht [] = Some ht"
| "dict_fill ht ((key, v) # kvs) =
     do {
       (ht, p) \<leftarrow> xht_put ht (s_data key) (s_hash key) None;
       ht \<leftarrow> xht_store ht p (Some v);
       dict_fill ht kvs
     }"

definition dict_new_steal :: "(cstring \<times> 'v) list \<Rightarrow> 'v dict option" where
  "dict_new_steal kvs = do { ht \<leftarrow> xht_new 0; dict_fill ht kvs }"

definition dict_get :: "'v dict \<Rightarrow> cstring \<Rightarrow> 'v option option" where
  "dict_get d key = xht_get d (s_data key) (s_hash key) None"

text \<open>\<open>nil\<close> is the value that \<open>mk_nil\<close> makes.\<close>

definition dict_get_ptr :: "'v \<Rightarrow> 'v dict \<Rightarrow> cstring \<Rightarrow> ('v dict \<times> nat) option" where
  "dict_get_ptr nil d key =
     do {
       (d, r) \<leftarrow> xht_put d (s_data key) (s_hash key) None;
       v \<leftarrow> xht_load d r;
       d \<leftarrow> (if v = None then xht_store d r (Some nil) else Some d);
       Some (d, r)
     }"

definition dict_remove :: "'v dict \<Rightarrow> cstring \<Rightarrow> ('v dict \<times> bool) option" where
  "dict_remove d key =
     do {
       (d, r) \<leftarrow> xht_remove d (s_data key) (s_hash key) None;
       Some (d, r \<noteq> None)
     }"

text \<open>
  The iteration of the native \<open>NextKey\<close> of \<open>main.c\<close>: \<open>None\<close> in place of a key asks for the first
  one, and \<open>None\<close> as the result is \<open>nil\<close>, the end.
\<close>

definition X_NextKey :: "'v dict \<Rightarrow> cstring option \<Rightarrow> cstring option option" where
  "X_NextKey d s =
     do {
       key_idx \<leftarrow> (case s of
                     None \<Rightarrow> xht_indexed_first d 0
                   | Some s \<Rightarrow> xht_indexed_next d (s_data s) (s_hash s));
       if key_idx = NO_IDX then Some None
       else do {
         k \<leftarrow> xht_indexed_key d key_idx;
         r \<leftarrow> string_new k;
         Some (Some r)
       }
     }"

section \<open>What a dictionary stands for\<close>

text \<open>No entry holds \<open>NULL\<close>, and every key fits in a string object.\<close>

definition dict_ok :: "'v dict \<Rightarrow> bool" where
  "dict_ok d \<longleftrightarrow> xht_inv d \<and>
     (\<forall>k v. xht_map d k = Some v \<longrightarrow> v \<noteq> None \<and> length k + SIZEOF_STRING \<le> SIZE_MAX)"

definition dict_map :: "'v dict \<Rightarrow> string \<Rightarrow> 'v option" where
  "dict_map d k = (case xht_map d k of None \<Rightarrow> None | Some v \<Rightarrow> v)"

definition key_ok :: "cstring \<Rightarrow> bool" where
  "key_ok s \<longleftrightarrow> str_ok s \<and> s_size s + SIZEOF_STRING \<le> SIZE_MAX"

abbreviation dict_room :: "nat \<Rightarrow> 'v dict \<Rightarrow> bool" where
  "dict_room n d \<equiv> items_size d + n \<le> 3 * 2 ^ 29"

lemma key_ok_hash: "key_ok s \<Longrightarrow> s_hash s = hash_str (s_data s)"
  by (simp add: key_ok_def str_ok_def)

lemma dict_okD: "dict_ok d \<Longrightarrow> xht_inv d"
  by (simp add: dict_ok_def)

lemma dict_map_None_iff: "dict_ok d \<Longrightarrow> dict_map d k = None \<longleftrightarrow> xht_map d k = None"
  by (force simp: dict_ok_def dict_map_def split: option.splits)

lemma dom_dict_map: "dict_ok d \<Longrightarrow> dom (dict_map d) = dom (xht_map d)"
  by (auto simp: dom_def dict_map_None_iff)

lemma xht_map_dict_map: "dict_ok d \<Longrightarrow> xht_map d k = (case dict_map d k of None \<Rightarrow> None | Some v \<Rightarrow> Some (Some v))"
  by (force simp: dict_ok_def dict_map_def split: option.splits)

lemma dict_ok_store:
  assumes "dict_ok d" and "xht_inv d'" and "xht_map d' = (xht_map d)(k \<mapsto> Some v)"
    and "length k + SIZEOF_STRING \<le> SIZE_MAX"
  shows "dict_ok d'" and "dict_map d' = (dict_map d)(k \<mapsto> v)"
  using assms(1,2,4) unfolding dict_ok_def dict_map_def assms(3) by auto

lemma dict_room_xht: "dict_room (Suc n) d \<Longrightarrow> xht_room d"
  by (simp add: xht_room_def)

section \<open>Lemmas on the operations\<close>

lemma dict_get_eq:
  assumes "dict_ok d" and "key_ok key"
  shows "dict_get d key = Some (dict_map d (s_data key))"
  using xt.get_law [OF dict_okD [OF assms(1)], of "s_data key" None] key_ok_hash [OF assms(2)]
  by (simp add: dict_get_def dict_map_def)

lemma dict_set_yields:
  assumes d: "dict_ok d" and key: "key_ok key" and room: "xht_room d"
  shows "yields (do { (d, p) \<leftarrow> xht_put d (s_data key) (s_hash key) None; xht_store d p (Some v) })
    (\<lambda>d'. dict_ok d' \<and> dict_map d' = (dict_map d)(s_data key \<mapsto> v))"
  unfolding key_ok_hash [OF key]
proof (rule yields_conseq)
  show "yields (do { (d, p) \<leftarrow> xht_put d (s_data key) (hash_str (s_data key)) None; xht_store d p (Some v) })
      (\<lambda>d'. xht_inv d' \<and> xht_map d' = (xht_map d)(s_data key \<mapsto> Some v))"
    by (rule xt.put_store) (use d room in \<open>auto simp: dict_ok_def\<close>)
qed (use dict_ok_store [OF d] key in \<open>auto simp: key_ok_def\<close>)

lemma dict_get_ptr_yields:
  assumes d: "dict_ok d" and key: "key_ok key"
    and room: "dict_map d (s_data key) = None \<Longrightarrow> xht_room d"
  shows "yields (dict_get_ptr nil d key) (\<lambda>(d', p). dict_ok d' \<and> points_to d' p (s_data key) \<and>
    dict_map d' = (dict_map d)(s_data key \<mapsto> (case dict_map d (s_data key) of None \<Rightarrow> nil | Some v \<Rightarrow> v)))"
proof -
  let ?k = "s_data key"
  have "yields (do { (d', p) \<leftarrow> xht_put d ?k (hash_str ?k) None; w \<leftarrow> xht_load d' p; Some (d', p, w) })
     (\<lambda>(d', p, w). xht_inv d' \<and> points_to d' p ?k \<and> xht_map d' = (xht_map d)(?k \<mapsto> w) \<and>
        w = (case xht_map d ?k of None \<Rightarrow> None | Some w \<Rightarrow> w))"
    by (rule xt.put_load) (use d room in \<open>auto simp: dict_ok_def dict_map_def\<close>)
  then obtain d' p w where put: "xht_put d ?k (hash_str ?k) None = Some (d', p)" "xht_load d' p = Some w"
    and d': "xht_inv d'" "points_to d' p ?k" "xht_map d' = (xht_map d)(?k \<mapsto> w)"
      "w = (case xht_map d ?k of None \<Rightarrow> None | Some w \<Rightarrow> w)"
    by (auto simp: yields_iff_ex bind_eq_Some_conv)
  have k: "length ?k + SIZEOF_STRING \<le> SIZE_MAX"
    using key by (simp add: key_ok_def)
  have w: "w = dict_map d ?k"
    using d' by (simp add: dict_map_def)
  show ?thesis
  proof (cases w)
    case None
    have "yields (xht_store d' p (Some nil)) (\<lambda>d''. xht_inv d'' \<and> points_to d'' p ?k \<and>
        xht_map d'' = (xht_map d')(?k \<mapsto> Some nil))"
      by (rule xt.store_law [OF d'(1,2)])
    then show ?thesis
      using None w put d' dict_ok_store [OF d _ _ k, of _ nil]
      by (auto simp: dict_get_ptr_def key_ok_hash [OF key] elim!: yields_conseq)
  next
    case (Some v)
    then show ?thesis
      using w put d' dict_ok_store [OF d d'(1) _ k, of v]
      by (simp add: dict_get_ptr_def key_ok_hash [OF key])
  qed
qed

lemma dict_remove_yields:
  assumes d: "dict_ok d" and key: "key_ok key"
  shows "yields (dict_remove d key) (\<lambda>(d', found). dict_ok d' \<and>
    dict_map d' = (dict_map d)(s_data key := None) \<and> (found \<longleftrightarrow> dict_map d (s_data key) \<noteq> None))"
proof -
  have "yields (xht_remove d (s_data key) (hash_str (s_data key)) None)
    (\<lambda>(d', v). xht_inv d' \<and> xht_map d' = (xht_map d)(s_data key := None) \<and>
       v = (case xht_map d (s_data key) of None \<Rightarrow> None | Some w \<Rightarrow> w))"
    by (rule xt.remove_law [OF dict_okD [OF d]])
  then show ?thesis
    unfolding dict_remove_def key_ok_hash [OF key]
    unfolding yields_bind
  proof (rule yields_conseq)
    fix r
    assume "case r of (d', v) \<Rightarrow> xht_inv d' \<and> xht_map d' = (xht_map d)(s_data key := None) \<and>
       v = (case xht_map d (s_data key) of None \<Rightarrow> None | Some w \<Rightarrow> w)"
    then obtain d' where r: "r = (d', dict_map d (s_data key))" "xht_inv d'"
      and m: "xht_map d' = (xht_map d)(s_data key := None)"
      by (cases r) (auto simp: dict_map_def)
    have "dict_ok d'"
      using d r(2) unfolding dict_ok_def m by auto
    moreover have "dict_map d' = (dict_map d)(s_data key := None)"
      unfolding dict_map_def m by auto
    ultimately show "yields (case r of (d, r) \<Rightarrow> Some (d, r \<noteq> None)) (\<lambda>(d', found). dict_ok d' \<and>
      dict_map d' = (dict_map d)(s_data key := None) \<and> (found \<longleftrightarrow> dict_map d (s_data key) \<noteq> None))"
      unfolding r(1) by simp
  qed
qed

text \<open>
  Room for \<open>n\<close> more keys is room after each of the insertions: the size grows by one at most.
\<close>

lemma dict_set_size:
  assumes "xht_inv d" and "xht_room d" and "key_ok key"
  shows "yields (do { (d, p) \<leftarrow> xht_put d (s_data key) (s_hash key) None; xht_store d p (Some v) })
    (\<lambda>d'. items_size d' \<le> Suc (items_size d))"
proof -
  have "yields (xht_put d (s_data key) (hash_str (s_data key)) None)
     (\<lambda>(d', p). xht_inv d' \<and> points_to d' p (s_data key) \<and> items_size d' \<le> Suc (items_size d))"
    by (rule yields_conseq [OF xht_put_yields]) (use assms in \<open>auto split: if_splits\<close>)
  then show ?thesis
    unfolding key_ok_hash [OF assms(3)]
    by (auto elim!: yields_conseq simp: xht_store_def points_to_def split: if_splits)
qed

lemma dict_fill_yields:
  assumes "dict_ok d" and "\<forall>(key, v)\<in>set kvs. key_ok key" and "dict_room (length kvs) d"
  shows "yields (dict_fill d kvs) (\<lambda>d'. dict_ok d' \<and>
    dict_map d' = dict_map d ++ map_of (rev (map (\<lambda>kv. (s_data (fst kv), snd kv)) kvs)))"
  using assms
proof (induction kvs arbitrary: d)
  case (Cons kv kvs)
  obtain key v where kv: "kv = (key, v)" by (cases kv)
  from Cons.prems kv have key: "key_ok key" and room: "xht_room d"
    by (auto simp: dict_room_xht)
  from yields_conj [OF dict_set_yields [OF Cons.prems(1) key room, of v]
      dict_set_size [OF dict_okD [OF Cons.prems(1)] room key, of v]]
  have "yields (do { (d, p) \<leftarrow> xht_put d (s_data key) (s_hash key) None; xht_store d p (Some v) })
    (\<lambda>d'. yields (dict_fill d' kvs) (\<lambda>d''. dict_ok d'' \<and>
      dict_map d'' = dict_map d ++ map_of (rev (map (\<lambda>kv. (s_data (fst kv), snd kv)) (kv # kvs)))))"
  proof (rule yields_conseq)
    fix d'
    assume d': "(dict_ok d' \<and> dict_map d' = (dict_map d)(s_data key \<mapsto> v)) \<and> items_size d' \<le> Suc (items_size d)"
    then show "yields (dict_fill d' kvs) (\<lambda>d''. dict_ok d'' \<and>
      dict_map d'' = dict_map d ++ map_of (rev (map (\<lambda>kv. (s_data (fst kv), snd kv)) (kv # kvs))))"
      using Cons.prems unfolding kv
      by (intro yields_conseq [OF Cons.IH [of d']]) (auto simp: map_add_upd_left simp del: fun_upd_apply)
  qed
  then show ?case
    unfolding kv by (simp only: dict_fill.simps yields_bind case_prod_beta prod.sel)
qed simp

lemma dict_new_steal_yields:
  assumes "\<forall>(key, v)\<in>set kvs. key_ok key" and "length kvs \<le> 3 * 2 ^ 29"
  shows "yields (dict_new_steal kvs) (\<lambda>d. dict_ok d \<and>
    dict_map d = map_of (rev (map (\<lambda>kv. (s_data (fst kv), snd kv)) kvs)))"
proof -
  have "yields (xht_new 0) (\<lambda>d :: 'a dict. dict_ok d \<and> dict_map d = Map.empty \<and> items_size d = 0)"
    by (rule yields_conseq [OF xht_new_yields]) (auto simp: dict_ok_def dict_map_def [abs_def])
  then show ?thesis
    unfolding dict_new_steal_def
    by (rule yields_bindI) (use assms in \<open>auto intro!: yields_conseq [OF dict_fill_yields]\<close>)
qed

section \<open>Iteration by key\<close>

lemma X_NextKey_idx:
  assumes d: "dict_ok d" and i: "i < items_size d"
  shows "yields (do { k \<leftarrow> xht_indexed_key d i; r \<leftarrow> string_new k; Some (Some r) })
     (\<lambda>r. \<exists>s. r = Some s \<and> s_data s = it_key (items d ! i) \<and> key_ok s)"
proof -
  have "it_key (items d ! i) \<in> dom (xht_map d)"
    using xht_map_nth [OF dict_okD [OF d] i] by auto
  with d have len: "length (it_key (items d ! i)) + SIZEOF_STRING \<le> SIZE_MAX"
    unfolding dict_ok_def by blast
  with i show ?thesis
    by (auto simp: xht_indexed_key_def key_ok_def intro: yields_conseq [OF string_new_yields])
qed

lemma X_NextKey_yields:
  assumes d: "dict_ok d"
  obtains ks where "distinct ks" and "set ks = dom (dict_map d)"
    and "yields (X_NextKey d None)
           (\<lambda>r. map_option s_data r = (if ks = [] then None else Some (hd ks)) \<and> (\<forall>s. r = Some s \<longrightarrow> key_ok s))"
    and "\<And>i s. i < length ks \<Longrightarrow> key_ok s \<Longrightarrow> s_data s = ks ! i \<Longrightarrow>
           yields (X_NextKey d (Some s))
             (\<lambda>r. map_option s_data r = (if Suc i < length ks then Some (ks ! Suc i) else None) \<and>
                  (\<forall>s. r = Some s \<longrightarrow> key_ok s))"
proof -
  note inv = dict_okD [OF d]
  obtain ord where ord: "distinct ord" "set ord = {..<items_size d}"
    "xht_indexed_first d 0 = Some (head_idx ord)"
    and nxt: "\<And>xs i ys. ord = xs @ i # ys \<Longrightarrow>
      xht_indexed_next d (it_key (items d ! i)) (it_hash (items d ! i)) = Some (head_idx ys)"
    by (rule xht_iteration_order [OF inv]) blast
  let ?key = "\<lambda>i. it_key (items d ! i)"
  let ?ks = "map ?key ord"
  have idx: "i \<noteq> NO_IDX" if "i < items_size d" for i
    using that xht_inv_size [OF inv] by (simp add: NO_IDX_def)
  have step: "yields (if head_idx is = NO_IDX then Some None
        else do { k \<leftarrow> xht_indexed_key d (head_idx is); r \<leftarrow> string_new k; Some (Some r) })
      (\<lambda>r. map_option s_data r = (if is = [] then None else Some (?key (hd is))) \<and>
           (\<forall>s. r = Some s \<longrightarrow> key_ok s))"
    if "set is \<subseteq> {..<items_size d}" for "is"
  proof (cases "is")
    case (Cons i is')
    with that have "i < items_size d" by simp
    with Cons idx show ?thesis
      by (auto intro!: yields_conseq [OF X_NextKey_idx [OF d, of i]] simp del: yields_bind)
  qed simp
  show ?thesis
  proof (rule that [of ?ks])
    have "inj_on ?key (set ord)"
      unfolding ord(2) by (rule inj_onI) (auto simp: xht_inv_key_inj [OF inv])
    with ord(1) show "distinct ?ks"
      by (simp add: distinct_map)
    show "set ?ks = dom (dict_map d)"
      unfolding dom_dict_map [OF d] set_map ord(2)
      by (auto simp: dom_def xht_map_nth [OF inv] elim!: xht_map_SomeE [OF inv])
    show "yields (X_NextKey d None)
           (\<lambda>r. map_option s_data r = (if ?ks = [] then None else Some (hd ?ks)) \<and> (\<forall>s. r = Some s \<longrightarrow> key_ok s))"
      using step [of ord] ord(2,3) by (simp add: X_NextKey_def hd_map split: if_splits)
    fix i s
    assume i: "i < length ?ks" and s: "key_ok s" "s_data s = ?ks ! i"
    then have ix: "ord ! i < items_size d" "i < length ord"
      using ord(2) nth_mem [of i ord] by auto
    have "ord = take i ord @ ord ! i # drop (Suc i) ord"
      using ix(2) by (simp add: id_take_nth_drop)
    from nxt [OF this] have "xht_indexed_next d (s_data s) (s_hash s) = Some (head_idx (drop (Suc i) ord))"
      using s i ix xht_inv_hash [OF inv ix(1)] by (simp add: key_ok_hash)
    then show "yields (X_NextKey d (Some s))
             (\<lambda>r. map_option s_data r = (if Suc i < length ?ks then Some (?ks ! Suc i) else None) \<and>
                  (\<forall>s. r = Some s \<longrightarrow> key_ok s))"
      using step [of "drop (Suc i) ord"] set_drop_subset [of "Suc i" ord] ord(2) ix(2)
      by (simp add: X_NextKey_def hd_drop_conv_nth split: if_splits)
  qed
qed

section \<open>Properties\<close>

text \<open>
  Making a dictionary from a vector of keys and values keeps, for every key, the last value
  given for it; lookups of any key on the result agree.
\<close>

theorem dict_literal:
  assumes "\<forall>(key, v)\<in>set kvs. key_ok key" and "length kvs \<le> 3 * 2 ^ 29" and "key_ok key"
  shows "yields (do { d \<leftarrow> dict_new_steal kvs; r \<leftarrow> dict_get d key; Some (d, r) })
    (\<lambda>(d, r). dict_ok d \<and> dict_map d = map_of (rev (map (\<lambda>kv. (s_data (fst kv), snd kv)) kvs)) \<and>
       r = map_of (rev (map (\<lambda>kv. (s_data (fst kv), snd kv)) kvs)) (s_data key))"
  by (rule yields_bindI [OF dict_new_steal_yields [OF assms(1,2)]])
    (use assms(3) in \<open>auto simp: dict_get_eq\<close>)

theorem dict_literal_witness:
  "let k = \<lparr>s_nrefs = 1, s_capacity = 1, s_hash = hash_str ''k'', s_data = ''k''\<rparr> in
   yields (do { d \<leftarrow> dict_new_steal [(k, 1 :: nat), (k, 2)]; r \<leftarrow> dict_get d k; Some (d, r) })
    (\<lambda>(d, r). dict_ok d \<and> dict_map d = [''k'' \<mapsto> 2] \<and> r = Some 2)"
  using dict_literal [of "let k = \<lparr>s_nrefs = 1, s_capacity = 1, s_hash = hash_str ''k'', s_data = ''k''\<rparr> in [(k, 1 :: nat), (k, 2)]"
      "\<lparr>s_nrefs = 1, s_capacity = 1, s_hash = hash_str ''k'', s_data = ''k''\<rparr>"]
  by (simp add: Let_def key_ok_def str_ok_def SIZEOF_STRING_def SIZE_MAX_def cong: rev_conj_cong)

text \<open>
  C27: Removing and finding-or-creating entries. \<open>dict_get_ptr\<close> yields a place that reads the value
  of the key, \<open>nil\<close> being inserted when there is none; \<open>dict_remove\<close> removes exactly that key and
  reports whether it was there. Other keys keep their values and the dictionary stays well-formed.
\<close>

theorem dict_ptr_remove:
  assumes d: "dict_ok d" and key: "key_ok key" and room: "dict_map d (s_data key) = None \<Longrightarrow> xht_room d"
  shows "yields (do { (d1, p) \<leftarrow> dict_get_ptr nil d key; v \<leftarrow> xht_load d1 p; (d2, b) \<leftarrow> dict_remove d1 key;
                      (d3, b') \<leftarrow> dict_remove d2 key; Some (d1, v, d2, b, d3, b') })
    (\<lambda>(d1, v, d2, b, d3, b'). dict_ok d1 \<and> dict_ok d2 \<and> dict_ok d3 \<and>
       v = Some (case dict_map d (s_data key) of None \<Rightarrow> nil | Some v \<Rightarrow> v) \<and>
       dict_map d1 = (dict_map d)(s_data key := v) \<and>
       dict_map d2 = (dict_map d)(s_data key := None) \<and> b \<and> dict_map d3 = dict_map d2 \<and> \<not> b')"
proof -
  let ?v = "case dict_map d (s_data key) of None \<Rightarrow> nil | Some v \<Rightarrow> v"
  obtain d1 p where d1: "dict_get_ptr nil d key = Some (d1, p)" "dict_ok d1" "points_to d1 p (s_data key)"
    "dict_map d1 = (dict_map d)(s_data key \<mapsto> ?v)"
    using dict_get_ptr_yields [OF d key room, of nil] by (auto simp: yields_iff_ex)
  have "xht_load d1 p = Some (Some ?v)"
    using xht_load_eq [OF dict_okD [OF d1(2)] d1(3)] xht_map_dict_map [OF d1(2)] d1(4) by simp
  moreover obtain d2 b where d2: "dict_remove d1 key = Some (d2, b)" "dict_ok d2"
    "dict_map d2 = (dict_map d1)(s_data key := None)" "b \<longleftrightarrow> dict_map d1 (s_data key) \<noteq> None"
    using dict_remove_yields [OF d1(2) key] by (auto simp: yields_iff_ex)
  moreover obtain d3 b' where d3: "dict_remove d2 key = Some (d3, b')" "dict_ok d3"
    "dict_map d3 = (dict_map d2)(s_data key := None)" "b' \<longleftrightarrow> dict_map d2 (s_data key) \<noteq> None"
    using dict_remove_yields [OF d2(2) key] by (auto simp: yields_iff_ex)
  ultimately show ?thesis
    using d1 by auto
qed

lemma dict_ok_empty: "dict_ok (\<lparr>items = [], items_capacity = 0, buckets = [NO_IDX]\<rparr> :: 'a dict)"
proof -
  have "xht_new 0 = Some (\<lparr>items = [], items_capacity = 0, buckets = [NO_IDX]\<rparr> :: 'a dict)"
    by (simp add: xht_new_def uu_xrealloc_def Let_def SIZE_MAX_def)
  with xht_new_yields [of 0, where 'a = "'a option"] show ?thesis
    by (auto simp: dict_ok_def)
qed

theorem dict_ptr_remove_witness:
  "let d = \<lparr>items = [], items_capacity = 0, buckets = [NO_IDX]\<rparr> :: nat dict;
       key = \<lparr>s_nrefs = 1, s_capacity = 1, s_hash = hash_str ''k'', s_data = ''k''\<rparr> in
   yields (do { (d1, p) \<leftarrow> dict_get_ptr 5 d key; v \<leftarrow> xht_load d1 p; (d2, b) \<leftarrow> dict_remove d1 key;
                (d3, b') \<leftarrow> dict_remove d2 key; Some (d1, v, d2, b, d3, b') })
    (\<lambda>(d1, v, d2, b, d3, b'). v = Some 5 \<and> b \<and> \<not> b')"
  unfolding Let_def
  by (rule yields_conseq, rule dict_ptr_remove)
    (auto simp: dict_ok_empty key_ok_def str_ok_def SIZEOF_STRING_def SIZE_MAX_def xht_room_def
      dict_map_def xht_map_def)

text \<open>
  C28: Iterating over a dictionary with \<open>NextKey\<close>, starting from \<open>nil\<close> and passing each returned key
  back, visits every key exactly once and then returns \<open>nil\<close>.
\<close>

theorem NextKey_enumerates:
  assumes "dict_ok d"
  shows "\<exists>ks. distinct ks \<and> set ks = dom (dict_map d) \<and>
     yields (X_NextKey d None) (\<lambda>r. map_option s_data r = (if ks = [] then None else Some (hd ks)) \<and>
        (\<forall>s. r = Some s \<longrightarrow> key_ok s)) \<and>
     (\<forall>i s. i < length ks \<and> key_ok s \<and> s_data s = ks ! i \<longrightarrow>
        yields (X_NextKey d (Some s))
          (\<lambda>r. map_option s_data r = (if Suc i < length ks then Some (ks ! Suc i) else None) \<and>
               (\<forall>s. r = Some s \<longrightarrow> key_ok s)))"
  by (rule X_NextKey_yields [OF assms]) blast

theorem NextKey_enumerates_witness:
  "\<exists>d :: nat dict. dict_map d = [''k'' \<mapsto> 5] \<and> (\<exists>ks. distinct ks \<and> set ks = {''k''} \<and>
     yields (X_NextKey d None) (\<lambda>r. map_option s_data r = (if ks = [] then None else Some (hd ks))))"
proof -
  let ?k = "\<lparr>s_nrefs = 1, s_capacity = 1, s_hash = hash_str ''k'', s_data = ''k''\<rparr>"
  have "yields (dict_new_steal [(?k, 5 :: nat)]) (\<lambda>d. dict_ok d \<and> dict_map d = [''k'' \<mapsto> 5])"
    by (rule yields_conseq, rule dict_new_steal_yields)
      (simp_all add: key_ok_def str_ok_def SIZEOF_STRING_def SIZE_MAX_def)
  then obtain d :: "nat dict" where "dict_ok d" "dict_map d = [''k'' \<mapsto> 5]"
    by (auto simp: yields_iff_ex)
  moreover from this(1) obtain ks where "distinct ks" "set ks = dom (dict_map d)"
    "yields (X_NextKey d None) (\<lambda>r. map_option s_data r = (if ks = [] then None else Some (hd ks)) \<and>
        (\<forall>s. r = Some s \<longrightarrow> key_ok s))"
    using NextKey_enumerates [of d] by blast
  moreover from this(3) have
    "yields (X_NextKey d None) (\<lambda>r. map_option s_data r = (if ks = [] then None else Some (hd ks)))"
    by (rule yields_conseq) blast
  moreover have "dom (dict_map d) = {''k''}"
    using calculation(2) by simp
  ultimately show ?thesis
    by (intro exI [of _ d] conjI exI [of _ ks]) (simp only:)+
qed

end
