(* ===== verification/Globals.thy ===== *)
theory Globals
  imports Xht
begin

text \<open>
  The global variables of the interpreter (\<open>vm.c\<close>): \<open>globals_table\<close> interns names as numbers, in
  the order in which they are first seen, and \<open>globals\<close> is a dynamic array of their values, a
  variable that was never assigned being \<open>NULL\<close> (here \<open>None\<close>). The instructions of compiled code
  address variables by number.
\<close>

section \<open>Operations\<close>

record 'v globals =
  g_table :: "nat xht"
  g_data :: "'v option list"
  g_capacity :: nat

definition globals_new :: "'v globals option" where
  "globals_new = do { t \<leftarrow> xht_new 0; Some \<lparr>g_table = t, g_data = [], g_capacity = 0\<rparr> }"

definition state_intern_global :: "'v globals \<Rightarrow> string \<Rightarrow> ('v globals \<times> nat) option" where
  "state_intern_global state name =
     (let old_size = length (g_data state) mod 2 ^ 32 in
      do {
        (table, p) \<leftarrow> xht_put (g_table state) name (hash_str name) old_size;
        idx \<leftarrow> xht_load table p;
        let state = state\<lparr>g_table := table\<rparr>;
        state \<leftarrow> (if idx = old_size then do {
                    state \<leftarrow> (if length (g_data state) = g_capacity state then do {
                                cap \<leftarrow> uu_x2realloc (g_capacity state) 8;
                                Some (state\<lparr>g_capacity := cap\<rparr>)
                              } else Some state);
                    Some (state\<lparr>g_data := g_data state @ [None]\<rparr>)
                  } else Some state);
        Some (state, idx)
      })"

text \<open>\<open>checked_store(&state->globals.data[idx], value)\<close>, and the read of \<open>OP_LOAD_GLOBAL\<close>.\<close>

definition global_store :: "'v globals \<Rightarrow> nat \<Rightarrow> 'v \<Rightarrow> 'v globals option" where
  "global_store state idx value =
     (if idx < length (g_data state) then Some (state\<lparr>g_data := (g_data state)[idx := Some value]\<rparr>)
      else None)"

definition global_load :: "'v globals \<Rightarrow> nat \<Rightarrow> 'v option option" where
  "global_load state idx = (if idx < length (g_data state) then Some (g_data state ! idx) else None)"

definition state_steal_global :: "'v globals \<Rightarrow> string \<Rightarrow> 'v \<Rightarrow> 'v globals option" where
  "state_steal_global state name value =
     do {
       (state, idx) \<leftarrow> state_intern_global state name;
       global_store state idx value
     }"

text \<open>
  The message that reading an unassigned variable throws. \<open>%.*s\<close> prints at most the given number
  of bytes and stops at a zero byte.
\<close>

definition missing_global :: "'v globals \<Rightarrow> nat \<Rightarrow> string option" where
  "missing_global state idx =
     do {
       name \<leftarrow> xht_indexed_key (g_table state) idx;
       let nname = (if length name > 8192 then 8192 else length name);
       Some (''undefined global '' @ [CHR 0x27] @
             takeWhile (\<lambda>c. c \<noteq> CHR 0x00) (take nname name) @ [CHR 0x27])
     }"

section \<open>Invariant\<close>

definition globals_ok :: "'v globals \<Rightarrow> bool" where
  "globals_ok g \<longleftrightarrow> xht_inv (g_table g) \<and>
     map it_value (items (g_table g)) = [0..<items_size (g_table g)] \<and>
     length (g_data g) = items_size (g_table g) \<and>
     length (g_data g) \<le> g_capacity g \<and> g_capacity g \<le> 2 * length (g_data g)"

text \<open>The number of a name, and the value of a variable.\<close>

abbreviation slot :: "'v globals \<Rightarrow> string \<Rightarrow> nat option" where
  "slot g name \<equiv> xht_map (g_table g) name"

definition genv :: "'v globals \<Rightarrow> string \<Rightarrow> 'v option" where
  "genv g name = (case slot g name of None \<Rightarrow> None | Some i \<Rightarrow> g_data g ! i)"

lemma globals_ok_inv: "globals_ok g \<Longrightarrow> xht_inv (g_table g)"
  by (simp add: globals_ok_def)

lemma globals_slot_nth:
  assumes "globals_ok g" and "i < items_size (g_table g)"
  shows "it_value (items (g_table g) ! i) = i"
proof -
  have "map it_value (items (g_table g)) ! i = i"
    using assms by (simp add: globals_ok_def)
  with assms(2) show ?thesis by simp
qed

lemma slot_iff:
  assumes "globals_ok g"
  shows "slot g name = Some i \<longleftrightarrow> i < length (g_data g) \<and> it_key (items (g_table g) ! i) = name"
proof
  assume "slot g name = Some i"
  then obtain j where j: "j < items_size (g_table g)" "it_key (items (g_table g) ! j) = name"
    "it_value (items (g_table g) ! j) = i"
    by (auto elim: xht_map_SomeE [OF globals_ok_inv [OF assms]])
  with globals_slot_nth [OF assms j(1)] assms
  show "i < length (g_data g) \<and> it_key (items (g_table g) ! i) = name"
    by (simp add: globals_ok_def)
next
  assume "i < length (g_data g) \<and> it_key (items (g_table g) ! i) = name"
  then show "slot g name = Some i"
    using xht_map_nth [OF globals_ok_inv [OF assms], of i] globals_slot_nth [OF assms, of i] assms
    by (auto simp: globals_ok_def)
qed

lemma slot_bound: "globals_ok g \<Longrightarrow> slot g a = Some i \<Longrightarrow> i < length (g_data g)"
  by (simp add: slot_iff)

lemma slot_inj: "globals_ok g \<Longrightarrow> slot g a = Some i \<Longrightarrow> slot g b = Some i \<Longrightarrow> a = b"
  by (simp add: slot_iff)

lemma globals_new_yields:
  "yields globals_new (\<lambda>g. globals_ok g \<and> genv g = Map.empty \<and> g_data g = [])"
  unfolding globals_new_def
  by (rule yields_bindI [OF xht_new_yields [of 0]]) (auto simp: globals_ok_def genv_def [abs_def])

section \<open>Interning\<close>

lemma xht_put_fresh:
  assumes "xht_inv ht" and "xht_room ht" and "xht_map ht key = None"
  shows "yields (xht_put ht key (hash_str key) v)
    (\<lambda>(ht', i). xht_inv ht' \<and> xht_load ht' i = Some v \<and> items_size ht' = Suc (items_size ht) \<and>
       map it_value (items ht') = map it_value (items ht) @ [v] \<and>
       xht_map ht' = (xht_map ht)(key \<mapsto> v))"
proof -
  have vals: "map it_value (items ht') = map it_value (items ht) @ [v]"
    if "map content (items ht') = map content (items ht) @ [(key, v, hash_str key)]" for ht' :: "'a xht"
    using arg_cong [OF that, of "map (\<lambda>(k, v, h). v)"] by (simp add: content_def comp_def)
  have "yields (xht_insert_new_unchecked ht key (hash_str key) v)
    (\<lambda>(ht', i). xht_inv ht' \<and> xht_load ht' i = Some v \<and> items_size ht' = Suc (items_size ht) \<and>
       map it_value (items ht') = map it_value (items ht) @ [v] \<and> xht_map ht' = (xht_map ht)(key \<mapsto> v))"
  proof (rule yields_conseq [OF xht_insert_new_unchecked_yields [OF assms]], clarsimp)
    fix ht' :: "'a xht"
    assume c: "map content (items ht') = map content (items ht) @ [(key, v, hash_str key)]"
      and len: "items_size ht' = Suc (items_size ht)"
    have "it_value (items ht' ! items_size ht) = map it_value (items ht') ! items_size ht"
      using len by simp
    then show "xht_load ht' (items_size ht) = Some v \<and> map it_value (items ht') = map it_value (items ht) @ [v]"
      using len by (simp add: vals [OF c] xht_load_def nth_append)
  qed
  then show ?thesis
    using chain_find_absent [OF assms(1,3)] by (simp add: xht_put_def)
qed

lemma xht_put_known:
  assumes "xht_inv ht" and "xht_map ht key = Some w"
  shows "yields (xht_put ht key (hash_str key) v) (\<lambda>(ht', i). ht' = ht \<and> xht_load ht i = Some w)"
  by (rule yields_conseq [OF xht_put_yields [OF assms(1)]])
    (use assms in \<open>auto simp: xht_load_eq\<close>)

lemma room_capacity:
  assumes "xht_inv (t :: 'v xht)" and "n = items_size t"
  shows "n mod 2 ^ 32 = n" and "8 * max 1 (2 * n) \<le> SIZE_MAX"
  using xht_inv_size [OF assms(1)] assms(2) by (simp_all add: UINT32_MAX_def SIZE_MAX_def max_def)

lemma state_intern_global_yields:
  assumes g: "globals_ok g" and room: "slot g name = None \<Longrightarrow> xht_room (g_table g)"
  shows "yields (state_intern_global g name)
    (\<lambda>(g', idx). globals_ok g' \<and> idx < length (g_data g') \<and> slot g' = (slot g)(name \<mapsto> idx) \<and>
       genv g' = genv g \<and> (\<forall>i. slot g name = Some i \<longrightarrow> g' = g) \<and>
       (slot g name = None \<longrightarrow> idx = length (g_data g) \<and> g_data g' = g_data g @ [None]))"
proof (cases "slot g name")
  case (Some i)
  then have "i < length (g_data g)"
    using slot_iff [OF g] by blast
  with Some room_capacity(1) [OF globals_ok_inv [OF g], of "length (g_data g)"] g
    xht_put_known [OF globals_ok_inv [OF g] Some, of "length (g_data g)"]
  show ?thesis
    by (auto simp: state_intern_global_def Let_def globals_ok_def fun_upd_idem elim!: yields_conseq)
next
  case None
  note inv = globals_ok_inv [OF g]
  let ?n = "length (g_data g)"
  have n: "?n = items_size (g_table g)" "?n \<le> g_capacity g" "g_capacity g \<le> 2 * ?n"
    and vals: "map it_value (items (g_table g)) = [0..<?n]"
    using g by (simp_all add: globals_ok_def)
  obtain t p where put: "xht_put (g_table g) name (hash_str name) ?n = Some (t, p)"
    "xht_load t p = Some ?n"
    and t: "xht_inv t" "items_size t = Suc ?n" "map it_value (items t) = [0..<Suc ?n]"
      "xht_map t = (slot g)(name \<mapsto> ?n)"
    using xht_put_fresh [OF inv room [OF None] None, of ?n] n vals by (auto simp: yields_iff_ex)
  obtain cap where cap: "Suc ?n \<le> cap" "cap \<le> 2 * Suc ?n"
    and run: "state_intern_global g name =
      Some (g\<lparr>g_table := t, g_capacity := cap, g_data := g_data g @ [None]\<rparr>, ?n)"
  proof (cases "?n = g_capacity g")
    case True
    then have "uu_x2realloc (g_capacity g) 8 = Some (max 1 (2 * ?n))"
      using yields_uu_x2realloc [of 8 ?n] room_capacity(2) [OF inv n(1)] by (auto simp: yields_iff_ex)
    with True have "state_intern_global g name =
        Some (g\<lparr>g_table := t, g_capacity := max 1 (2 * ?n), g_data := g_data g @ [None]\<rparr>, ?n)"
      unfolding state_intern_global_def Let_def room_capacity(1) [OF inv n(1)] put(1)
      by (simp add: put(2))
    then show ?thesis
      by (rule that [rotated 2]) simp_all
  next
    case False
    then have "state_intern_global g name =
        Some (g\<lparr>g_table := t, g_capacity := g_capacity g, g_data := g_data g @ [None]\<rparr>, ?n)"
      unfolding state_intern_global_def Let_def room_capacity(1) [OF inv n(1)] put(1)
      by (simp add: put(2))
    then show ?thesis
      by (rule that [rotated 2]) (use False n in simp_all)
  qed
  let ?g' = "g\<lparr>g_table := t, g_capacity := cap, g_data := g_data g @ [None]\<rparr>"
  have "globals_ok ?g'"
    using t cap by (simp add: globals_ok_def)
  moreover have "genv ?g' = genv g"
  proof
    fix a
    show "genv ?g' a = genv g a"
      using slot_bound [OF g, of a] None
      by (cases "slot g a") (auto simp: genv_def t(4) nth_append)
  qed
  ultimately show ?thesis
    using run None t(4) by simp
qed

lemma state_intern_global_known:
  assumes g: "globals_ok g" and i: "slot g name = Some i"
  shows "state_intern_global g name = Some (g, i)"
proof -
  obtain g' idx where r: "state_intern_global g name = Some (g', idx)"
    "slot g' = (slot g)(name \<mapsto> idx)" "\<forall>i. slot g name = Some i \<longrightarrow> g' = g"
    using state_intern_global_yields [OF g, of name] i by (auto simp: yields_iff_ex)
  then have "g' = g" using i by blast
  with fun_cong [OF r(2), of name] i r(1) show ?thesis by simp
qed

lemma global_store_yields:
  assumes g: "globals_ok g" and idx: "slot g name = Some idx"
  shows "yields (global_store g idx v) (\<lambda>g'. globals_ok g' \<and> slot g' = slot g \<and> genv g' = (genv g)(name \<mapsto> v))"
proof -
  let ?g' = "g\<lparr>g_data := (g_data g)[idx := Some v]\<rparr>"
  have len: "idx < length (g_data g)"
    using idx slot_iff [OF g] by blast
  have "genv ?g' a = ((genv g)(name \<mapsto> v)) a" for a
  proof (cases "slot g a")
    case None
    with idx show ?thesis by (auto simp: genv_def)
  next
    case (Some i)
    then have "i < length (g_data g)" "i = idx \<longleftrightarrow> a = name"
      using slot_bound [OF g] idx slot_inj [OF g, of a i name] by auto
    with Some idx show ?thesis
      by (auto simp: genv_def)
  qed
  moreover have "globals_ok ?g'"
    using g by (simp add: globals_ok_def)
  ultimately show ?thesis
    using len by (auto simp: global_store_def)
qed

lemma global_load_eq:
  "globals_ok g \<Longrightarrow> slot g name = Some idx \<Longrightarrow> global_load g idx = Some (genv g name)"
  using slot_iff [of g name idx] by (simp add: global_load_def genv_def)

lemma state_steal_global_yields:
  assumes g: "globals_ok g" and room: "slot g name = None \<Longrightarrow> xht_room (g_table g)"
  shows "yields (state_steal_global g name v)
    (\<lambda>g'. globals_ok g' \<and> genv g' = (genv g)(name \<mapsto> v) \<and> (\<forall>i a. slot g a = Some i \<longrightarrow> slot g' a = Some i))"
  unfolding state_steal_global_def
proof (rule yields_bindI [OF state_intern_global_yields [OF assms]])
  fix x
  assume x: "case x of (g', idx) \<Rightarrow> globals_ok g' \<and> idx < length (g_data g') \<and>
       slot g' = (slot g)(name \<mapsto> idx) \<and> genv g' = genv g \<and> (\<forall>i. slot g name = Some i \<longrightarrow> g' = g) \<and>
       (slot g name = None \<longrightarrow> idx = length (g_data g) \<and> g_data g' = g_data g @ [None])"
  obtain g' idx where p: "x = (g', idx)" by (cases x)
  with x have g': "globals_ok g'" "slot g' = (slot g)(name \<mapsto> idx)" "genv g' = genv g"
    and old: "\<And>i. slot g name = Some i \<Longrightarrow> g' = g"
    by blast+
  have "slot g' name = Some idx"
    unfolding g'(2) by simp
  have "slot g' a = Some i" if "slot g a = Some i" for a i
  proof (cases "a = name")
    case True
    from that True old have "g' = g" by blast
    with that show ?thesis by simp
  qed (simp add: g'(2) that)
  then show "yields (case x of (g', idx) \<Rightarrow> global_store g' idx v) (\<lambda>g''. globals_ok g'' \<and>
      genv g'' = (genv g)(name \<mapsto> v) \<and> (\<forall>i a. slot g a = Some i \<longrightarrow> slot g'' a = Some i))"
    using \<open>slot g' name = Some idx\<close> g'(3)
    by (simp add: p) (rule yields_conseq [OF global_store_yields [OF g'(1)]], auto)
qed

lemma missing_global_name:
  assumes "globals_ok g" and "slot g name = Some idx"
    and "length name \<le> 8192" and "CHR 0x00 \<notin> set name"
  shows "missing_global g idx = Some (''undefined global '' @ [CHR 0x27] @ name @ [CHR 0x27])"
proof -
  have "takeWhile (\<lambda>c. c \<noteq> CHR 0x00) name = name"
    using assms(4) by (intro takeWhile_eq_all_conv [THEN iffD2]) blast
  with assms show ?thesis
    by (simp add: missing_global_def xht_indexed_key_def slot_iff globals_ok_def)
qed

section \<open>Properties\<close>

text \<open>
  C29: Assigning a global variable by name, as the host does when it injects its natives: the
  environment is updated at that name and nowhere else, every number given out earlier still names
  the same variable (compiled code stays valid), and reading through the number yields the value.
\<close>

theorem steal_global:
  assumes g: "globals_ok g" and room: "slot g name = None \<Longrightarrow> xht_room (g_table g)"
  shows "yields (do { g1 \<leftarrow> state_steal_global g name v; (g2, idx) \<leftarrow> state_intern_global g1 name;
                      w \<leftarrow> global_load g2 idx; Some (g1, g2, w) })
    (\<lambda>(g1, g2, w). globals_ok g1 \<and> genv g1 = (genv g)(name \<mapsto> v) \<and>
       (\<forall>i a. slot g a = Some i \<longrightarrow> slot g1 a = Some i) \<and> g2 = g1 \<and> w = Some v)"
proof -
  obtain g1 where g1: "state_steal_global g name v = Some g1" "globals_ok g1"
    "genv g1 = (genv g)(name \<mapsto> v)" "\<forall>i a. slot g a = Some i \<longrightarrow> slot g1 a = Some i"
    using state_steal_global_yields [OF g, of name v] room by (auto simp: yields_iff_ex)
  have "genv g1 name = Some v"
    unfolding g1(3) by simp
  then obtain i where i: "slot g1 name = Some i"
    by (auto simp: genv_def split: option.splits)
  show ?thesis
    using g1 \<open>genv g1 name = Some v\<close> state_intern_global_known [OF g1(2) i]
      global_load_eq [OF g1(2) i] by simp
qed

lemma globals_ok_empty:
  "globals_ok (\<lparr>g_table = \<lparr>items = [], items_capacity = 0, buckets = [NO_IDX]\<rparr>, g_data = [], g_capacity = 0\<rparr> :: 'v globals)"
proof -
  have eq: "globals_new = Some (\<lparr>g_table = \<lparr>items = [], items_capacity = 0, buckets = [NO_IDX]\<rparr>, g_data = [], g_capacity = 0\<rparr> :: 'v globals)"
    by (simp add: globals_new_def xht_new_def uu_xrealloc_def Let_def SIZE_MAX_def)
  have "yields (globals_new :: 'v globals option) (\<lambda>g. globals_ok g \<and> genv g = Map.empty \<and> g_data g = [])"
    by (rule globals_new_yields)
  then show ?thesis
    unfolding eq yields_Some by blast
qed

theorem steal_global_witness:
  "let g = \<lparr>g_table = \<lparr>items = [], items_capacity = 0, buckets = [NO_IDX]\<rparr>, g_data = [], g_capacity = 0\<rparr> :: nat globals in
   yields (do { g1 \<leftarrow> state_steal_global g ''x'' 3; (g2, idx) \<leftarrow> state_intern_global g1 ''x'';
                w \<leftarrow> global_load g2 idx; Some (g1, g2, w) })
     (\<lambda>(g1, g2, w). globals_ok g1 \<and> g2 = g1 \<and> w = Some 3)"
  unfolding Let_def
  by (rule yields_conseq, rule steal_global) (auto simp: globals_ok_empty xht_room_def)

text \<open>
  The message for a variable that was never assigned names the variable: interning a name and
  reading its number gives \<open>NULL\<close> exactly when the environment has no value for it, and then the
  message is \<open>undefined global 'name'\<close>.
\<close>

theorem undefined_global_message:
  assumes g: "globals_ok g" and room: "slot g name = None \<Longrightarrow> xht_room (g_table g)"
    and "length name \<le> 8192" and "CHR 0x00 \<notin> set name"
  shows "yields (do { (g1, idx) \<leftarrow> state_intern_global g name; w \<leftarrow> global_load g1 idx;
                      msg \<leftarrow> missing_global g1 idx; Some (w, msg) })
    (\<lambda>(w, msg). w = genv g name \<and> msg = ''undefined global '' @ [CHR 0x27] @ name @ [CHR 0x27])"
proof (rule yields_bindI [OF state_intern_global_yields [OF g room]])
  fix x
  assume x: "case x of (g', idx) \<Rightarrow> globals_ok g' \<and> idx < length (g_data g') \<and>
       slot g' = (slot g)(name \<mapsto> idx) \<and> genv g' = genv g \<and> (\<forall>i. slot g name = Some i \<longrightarrow> g' = g) \<and>
       (slot g name = None \<longrightarrow> idx = length (g_data g) \<and> g_data g' = g_data g @ [None])"
  obtain g' idx where p: "x = (g', idx)" by (cases x)
  with x have g': "globals_ok g'" "slot g' = (slot g)(name \<mapsto> idx)" "genv g' = genv g"
    by blast+
  then have "slot g' name = Some idx" by simp
  from global_load_eq [OF g'(1) this] missing_global_name [OF g'(1) this assms(3,4)] g'(3)
  show "yields (case x of (g1, idx) \<Rightarrow> global_load g1 idx \<bind> (\<lambda>w. missing_global g1 idx \<bind> (\<lambda>msg. Some (w, msg))))
    (\<lambda>(w, msg). w = genv g name \<and> msg = ''undefined global '' @ [CHR 0x27] @ name @ [CHR 0x27])"
    by (simp add: p)
qed

theorem undefined_global_message_witness:
  "let g = \<lparr>g_table = \<lparr>items = [], items_capacity = 0, buckets = [NO_IDX]\<rparr>, g_data = [], g_capacity = 0\<rparr> :: nat globals in
   yields (do { (g1, idx) \<leftarrow> state_intern_global g ''x''; w \<leftarrow> global_load g1 idx;
                msg \<leftarrow> missing_global g1 idx; Some (w, msg) })
    (\<lambda>(w, msg). w = genv g ''x'' \<and> msg = ''undefined global '' @ [CHR 0x27] @ ''x'' @ [CHR 0x27])"
  unfolding Let_def
  by (rule undefined_global_message) (auto simp: globals_ok_empty xht_room_def)

end
