(* ===== verification/Deci.thy ===== *)
theory Deci
  imports Prelude
begin

text \<open>
  Spans of decimal words and the library that calculates on them.

  A span is a list of words, least significant first, each below \<open>B = 10 ^ DECI_BASE_LOG\<close>;
  \<open>wval B ws\<close> is the number it stands for. The arithmetic on spans is done by libdeci and its
  companions libdeci-kara, libdeci-ntt and libdeci-newt, which are git submodules of the repository
  and not part of its source. They are the fields of the record \<open>deci\<close>, an argument of every
  definition that calls them, and \<open>deci_ok\<close> collects what the code relies on: the documented
  contract of each function, over \<open>wval\<close>.

  The C functions work in place; here each returns the new contents of the span it writes.
\<close>

section \<open>The value of a span\<close>

primrec wval :: "nat \<Rightarrow> nat list \<Rightarrow> nat" where
  "wval B [] = 0"
| "wval B (w # ws) = w + B * wval B ws"

definition words_ok :: "nat \<Rightarrow> nat list \<Rightarrow> bool" where
  "words_ok B ws \<longleftrightarrow> (\<forall>w\<in>set ws. w < B)"

text \<open>A span with no zero at its most significant end.\<close>

definition normalized :: "nat list \<Rightarrow> bool" where
  "normalized ws \<longleftrightarrow> ws = [] \<or> last ws \<noteq> 0"

named_theorems span_simps \<open>values and digits of composed spans\<close>

lemma wval_append [span_simps]: "wval B (xs @ ys) = wval B xs + B ^ length xs * wval B ys"
  by (induction xs) (simp_all add: algebra_simps)

lemma wval_replicate_0 [simp, span_simps]: "wval B (replicate n 0) = 0"
  by (induction n) simp_all

lemma wval_zeros: "(\<forall>w\<in>set ws. w = 0) \<Longrightarrow> wval B ws = 0"
  by (induction ws) simp_all

lemma wval_take_drop: "wval B ws = wval B (take n ws) + B ^ min (length ws) n * wval B (drop n ws)"
  using wval_append [of B "take n ws" "drop n ws"] by simp

lemma words_ok_simps [simp, span_simps]:
  "words_ok B []"
  "words_ok B (w # ws) \<longleftrightarrow> w < B \<and> words_ok B ws"
  "words_ok B (xs @ ys) \<longleftrightarrow> words_ok B xs \<and> words_ok B ys"
  "words_ok B (rev xs) \<longleftrightarrow> words_ok B xs"
  "words_ok B (replicate n w) \<longleftrightarrow> n = 0 \<or> w < B"
  by (auto simp: words_ok_def)

lemma words_ok_take [intro]: "words_ok B ws \<Longrightarrow> words_ok B (take n ws)"
  by (auto simp: words_ok_def dest: in_set_takeD)

lemma words_ok_drop [intro]: "words_ok B ws \<Longrightarrow> words_ok B (drop n ws)"
  by (auto simp: words_ok_def dest: in_set_dropD)

lemma words_ok_nth: "words_ok B ws \<Longrightarrow> i < length ws \<Longrightarrow> ws ! i < B"
  by (simp add: words_ok_def)

lemma words_ok_update: "words_ok B ws \<Longrightarrow> w < B \<Longrightarrow> words_ok B (ws[i := w])"
  by (auto simp: words_ok_def dest!: set_update_subset_insert [THEN subsetD])

lemma wval_less:
  assumes "words_ok B ws"
  shows "wval B ws < B ^ length ws"
  using assms
proof (induction ws)
  case (Cons w ws)
  then have "w < B" and "Suc (wval B ws) \<le> B ^ length ws"
    by simp_all
  from this(2) have "B * Suc (wval B ws) \<le> B * B ^ length ws"
    by (rule mult_le_mono2)
  with \<open>w < B\<close> show ?case by simp
qed simp

lemma wval_inj:
  assumes "words_ok B xs" and "words_ok B ys" and "length xs = length ys" and "wval B xs = wval B ys"
  shows "xs = ys"
  using assms(3,1,2,4)
proof (induction xs ys rule: list_induct2)
  case (Cons x xs y ys)
  then have "x < B" "y < B" and eq: "x + B * wval B xs = y + B * wval B ys"
    by simp_all
  from arg_cong [OF eq, of "\<lambda>n. n mod B"] this(1,2) have "x = y"
    by simp
  with eq \<open>x < B\<close> have "wval B xs = wval B ys"
    by simp
  with Cons \<open>x = y\<close> show ?case by simp
qed simp

lemma wval_0_iff: "0 < B \<Longrightarrow> wval B ws = 0 \<longleftrightarrow> (\<forall>w\<in>set ws. w = 0)"
  by (induction ws) auto

lemma wval_drop:
  assumes "words_ok B ws" and "n \<le> length ws" and "0 < B"
  shows "wval B (drop n ws) = wval B ws div B ^ n" and "wval B (take n ws) = wval B ws mod B ^ n"
proof -
  have lt: "wval B (take n ws) < B ^ n"
    using wval_less [OF words_ok_take [OF assms(1)], of n] assms(2) by (simp add: min_absorb2)
  have eq: "wval B ws = wval B (take n ws) + B ^ n * wval B (drop n ws)"
    using wval_take_drop [of B ws n] assms(2) by (simp add: min_def)
  show "wval B (drop n ws) = wval B ws div B ^ n"
    unfolding eq using lt assms(3) by simp
  show "wval B (take n ws) = wval B ws mod B ^ n"
    unfolding eq using lt by simp
qed

lemma wval_nth_digit:
  assumes "words_ok B ws" and "i < length ws" and "0 < B"
  shows "ws ! i = wval B ws div B ^ i mod B"
proof -
  have "drop i ws = ws ! i # drop (Suc i) ws"
    using assms(2) by (simp add: Cons_nth_drop_Suc)
  then have "wval B ws div B ^ i = ws ! i + B * wval B (drop (Suc i) ws)"
    using wval_drop(1) [OF assms(1) _ assms(3), of i] assms(2) by simp
  moreover have "ws ! i < B"
    by (rule words_ok_nth [OF assms(1,2)])
  ultimately show ?thesis by simp
qed

lemma normalized_simps [simp]:
  "normalized []"
  "ys \<noteq> [] \<Longrightarrow> normalized (xs @ ys) \<longleftrightarrow> last ys \<noteq> 0"
  "normalized (xs @ [w]) \<longleftrightarrow> w \<noteq> 0"
  by (simp_all add: normalized_def)

lemma normalized_ge:
  assumes "normalized ws" and "ws \<noteq> []"
  shows "B ^ (length ws - 1) \<le> wval B ws"
proof -
  obtain xs w where ws: "ws = xs @ [w]"
    using assms(2) by (cases ws rule: rev_cases) auto
  with assms have "1 \<le> w" by (simp add: normalized_def)
  then have "B ^ length xs * 1 \<le> B ^ length xs * w"
    by (rule mult_le_mono2)
  then show ?thesis
    by (simp add: ws wval_append trans_le_add2 del: mult_le_cancel1)
qed

lemma normalized_0_iff: "normalized ws \<Longrightarrow> 0 < B \<Longrightarrow> wval B ws = 0 \<longleftrightarrow> ws = []"
  by (cases "ws = []") (auto simp: normalized_def wval_0_iff)

text \<open>Normalised spans of different lengths are ordered by their lengths.\<close>

lemma normalized_less:
  assumes "words_ok B xs" and "normalized ys" and "length xs < length ys" and "0 < B"
  shows "wval B xs < wval B ys"
proof -
  have "wval B xs < B ^ length xs"
    by (rule wval_less [OF assms(1)])
  also have "\<dots> \<le> B ^ (length ys - 1)"
    using assms(3,4) by (intro power_increasing) auto
  also have "\<dots> \<le> wval B ys"
    by (rule normalized_ge) (use assms in auto)
  finally show ?thesis .
qed

section \<open>The library\<close>

text \<open>
  Besides the functions: \<open>uninit i\<close> is what the allocator leaves in the \<open>i\<close>-th word of fresh
  memory; nothing is known about it.

  \<open>deci_skip0\<close> and \<open>deci_normalize\<close> return the number of words skipped and kept. \<open>deci_add\<close> and
  \<open>deci_sub_raw\<close> return the carry and the borrow, \<open>deci_mul_uword\<close> the high word,
  \<open>deci_divmod_uword\<close> the remainder, \<open>deci_div\<close> and \<open>deci_mod\<close> the number of words of the result,
  which is at the beginning of the first span. \<open>decinewt_div\<close> gets the function that multiplies
  (given whether its two factors are the same span, and whether the result is to overwrite one of
  them) and returns its code and the scratch area.
\<close>

datatype out_alias = Out_is_a | Out_is_b | Out_fresh

type_synonym mul_fn = "bool \<Rightarrow> out_alias \<Rightarrow> nat list \<Rightarrow> nat list \<Rightarrow> nat list"

record deci =
  DECI_BASE_LOG :: nat
  SIZEOF_UWORD :: nat
  DECINEWT_MIN :: nat
  uninit :: "nat \<Rightarrow> nat"
  deci_is_zero_n :: "nat list \<Rightarrow> bool"
  deci_skip0 :: "nat list \<Rightarrow> nat"
  deci_normalize :: "nat list \<Rightarrow> nat"
  deci_memcpy :: "nat list \<Rightarrow> nat list"
  deci_memmove :: "nat list \<Rightarrow> nat list"
  deci_zero_out_n :: "nat \<Rightarrow> nat list"
  deci_add :: "nat list \<Rightarrow> nat list \<Rightarrow> nat list \<times> bool"
  deci_sub_raw :: "nat list \<Rightarrow> nat list \<Rightarrow> nat list \<times> bool"
  deci_uncomplement :: "nat list \<Rightarrow> nat list"
  deci_mul_uword :: "nat list \<Rightarrow> nat \<Rightarrow> nat list \<times> nat"
  deci_divmod_uword :: "nat list \<Rightarrow> nat \<Rightarrow> nat list \<times> nat"
  deci_mul :: "nat list \<Rightarrow> nat list \<Rightarrow> nat list \<Rightarrow> nat list"
  deci_div :: "nat list \<Rightarrow> nat list \<Rightarrow> nat list \<times> nat"
  deci_mod :: "nat list \<Rightarrow> nat list \<Rightarrow> nat list \<times> nat"
  decikara_mul :: "nat list \<Rightarrow> nat list \<Rightarrow> nat \<Rightarrow> nat list"
  decintt_mul :: "nat list \<Rightarrow> nat list \<Rightarrow> nat list"
  decintt_sqr :: "nat list \<Rightarrow> nat list"
  decinewt_div :: "nat list \<Rightarrow> nat list \<Rightarrow> mul_fn \<Rightarrow> int \<times> nat list"

definition DECI_BASE :: "deci \<Rightarrow> nat" where
  "DECI_BASE D = 10 ^ DECI_BASE_LOG D"

text \<open>The constants of the configuration: a word holds \<open>DECI_BASE_LOG\<close> digits, in at most 64 bits.\<close>

definition deci_config_ok :: "deci \<Rightarrow> bool" where
  "deci_config_ok D \<longleftrightarrow> 3 \<le> DECI_BASE_LOG D \<and> DECI_BASE_LOG D \<le> 19 \<and> 0 < SIZEOF_UWORD D \<and> SIZEOF_UWORD D \<le> 8"

definition deci_spans_ok :: "deci \<Rightarrow> bool" where
  "deci_spans_ok D \<longleftrightarrow>
     (\<forall>ws. deci_is_zero_n D ws \<longleftrightarrow> (\<forall>w\<in>set ws. w = 0)) \<and>
     (\<forall>ws. deci_skip0 D ws \<le> length ws \<and> (\<forall>w\<in>set (take (deci_skip0 D ws) ws). w = 0) \<and>
        (deci_skip0 D ws < length ws \<longrightarrow> ws ! deci_skip0 D ws \<noteq> 0)) \<and>
     (\<forall>ws. deci_normalize D ws \<le> length ws \<and> (\<forall>w\<in>set (drop (deci_normalize D ws) ws). w = 0) \<and>
        normalized (take (deci_normalize D ws) ws)) \<and>
     (\<forall>ws. deci_memcpy D ws = ws) \<and> (\<forall>ws. deci_memmove D ws = ws) \<and>
     (\<forall>n. deci_zero_out_n D n = replicate n 0)"

text \<open>Addition and subtraction of a span to the low end of one that is no shorter.\<close>

definition deci_add_ok :: "deci \<Rightarrow> bool" where
  "deci_add_ok D \<longleftrightarrow> (\<forall>wa wb r c. words_ok (DECI_BASE D) wa \<longrightarrow> words_ok (DECI_BASE D) wb \<longrightarrow>
     length wb \<le> length wa \<longrightarrow> deci_add D wa wb = (r, c) \<longrightarrow>
     words_ok (DECI_BASE D) r \<and> length r = length wa \<and>
     wval (DECI_BASE D) r + (if c then DECI_BASE D ^ length wa else 0) =
       wval (DECI_BASE D) wa + wval (DECI_BASE D) wb)"

definition deci_sub_ok :: "deci \<Rightarrow> bool" where
  "deci_sub_ok D \<longleftrightarrow> (\<forall>wa wb r c. words_ok (DECI_BASE D) wa \<longrightarrow> words_ok (DECI_BASE D) wb \<longrightarrow>
     length wb \<le> length wa \<longrightarrow> deci_sub_raw D wa wb = (r, c) \<longrightarrow>
     words_ok (DECI_BASE D) r \<and> length r = length wa \<and>
     wval (DECI_BASE D) r + wval (DECI_BASE D) wb =
       wval (DECI_BASE D) wa + (if c then DECI_BASE D ^ length wa else 0)) \<and>
   (\<forall>wa. words_ok (DECI_BASE D) wa \<longrightarrow> wval (DECI_BASE D) wa \<noteq> 0 \<longrightarrow>
     words_ok (DECI_BASE D) (deci_uncomplement D wa) \<and> length (deci_uncomplement D wa) = length wa \<and>
     wval (DECI_BASE D) (deci_uncomplement D wa) + wval (DECI_BASE D) wa = DECI_BASE D ^ length wa)"

definition deci_uword_ok :: "deci \<Rightarrow> bool" where
  "deci_uword_ok D \<longleftrightarrow>
     (\<forall>wa b r h. words_ok (DECI_BASE D) wa \<longrightarrow> b < DECI_BASE D \<longrightarrow> deci_mul_uword D wa b = (r, h) \<longrightarrow>
        words_ok (DECI_BASE D) r \<and> length r = length wa \<and> h < DECI_BASE D \<and>
        wval (DECI_BASE D) r + DECI_BASE D ^ length wa * h = wval (DECI_BASE D) wa * b) \<and>
     (\<forall>wa b r m. words_ok (DECI_BASE D) wa \<longrightarrow> 0 < b \<longrightarrow> b < DECI_BASE D \<longrightarrow>
        deci_divmod_uword D wa b = (r, m) \<longrightarrow>
        words_ok (DECI_BASE D) r \<and> length r = length wa \<and>
        wval (DECI_BASE D) r = wval (DECI_BASE D) wa div b \<and> m = wval (DECI_BASE D) wa mod b)"

text \<open>A product of spans: all of its words, as many as the two factors have together.\<close>

definition product_of :: "nat \<Rightarrow> nat list \<Rightarrow> nat list \<Rightarrow> nat list \<Rightarrow> bool" where
  "product_of B wa wb r \<longleftrightarrow>
     words_ok B r \<and> length r = length wa + length wb \<and> wval B r = wval B wa * wval B wb"

text \<open>
  The basecase accumulates into a span that must be zero, the Karatsuba and transform products
  write all of it.
\<close>

definition deci_mul_ok :: "deci \<Rightarrow> bool" where
  "deci_mul_ok D \<longleftrightarrow> (\<forall>wa wb. words_ok (DECI_BASE D) wa \<longrightarrow> words_ok (DECI_BASE D) wb \<longrightarrow>
     product_of (DECI_BASE D) wa wb (deci_mul D wa wb (replicate (length wa + length wb) 0)) \<and>
     (\<forall>cutoff. wa \<noteq> [] \<longrightarrow> wb \<noteq> [] \<longrightarrow> product_of (DECI_BASE D) wa wb (decikara_mul D wa wb cutoff)) \<and>
     (wa \<noteq> [] \<longrightarrow> wb \<noteq> [] \<longrightarrow> product_of (DECI_BASE D) wa wb (decintt_mul D wa wb)) \<and>
     (wa \<noteq> [] \<longrightarrow> product_of (DECI_BASE D) wa wa (decintt_sqr D wa)))"

definition mul_fn_ok :: "nat \<Rightarrow> mul_fn \<Rightarrow> bool" where
  "mul_fn_ok B mul \<longleftrightarrow> (\<forall>same alias wa wb. words_ok B wa \<longrightarrow> words_ok B wb \<longrightarrow> (same \<longrightarrow> wa = wb) \<longrightarrow>
     product_of B wa wb (mul same alias wa wb))"

text \<open>
  Division of spans by a normalised non-empty one. \<open>decinewt_div\<close> leaves the largest multiple of the
  divisor in the first words of the scratch area, and after one more word the quotient.
\<close>

definition deci_div_ok :: "deci \<Rightarrow> bool" where
  "deci_div_ok D \<longleftrightarrow> (\<forall>wa wb. words_ok (DECI_BASE D) wa \<longrightarrow> words_ok (DECI_BASE D) wb \<longrightarrow>
     normalized wb \<longrightarrow> wb \<noteq> [] \<longrightarrow>
     (\<forall>r n. deci_div D wa wb = (r, n) \<longrightarrow> length r = length wa \<and> n \<le> length wa \<and>
        words_ok (DECI_BASE D) (take n r) \<and>
        wval (DECI_BASE D) (take n r) = wval (DECI_BASE D) wa div wval (DECI_BASE D) wb) \<and>
     (\<forall>r n. deci_mod D wa wb = (r, n) \<longrightarrow> length r = length wa \<and> n \<le> length wa \<and>
        words_ok (DECI_BASE D) (take n r) \<and>
        wval (DECI_BASE D) (take n r) = wval (DECI_BASE D) wa mod wval (DECI_BASE D) wb) \<and>
     (\<forall>mul c s. mul_fn_ok (DECI_BASE D) mul \<longrightarrow> DECINEWT_MIN D \<le> length wb \<longrightarrow>
        length wb \<le> length wa \<longrightarrow> normalized wa \<longrightarrow> decinewt_div D wa wb mul = (c, s) \<longrightarrow>
        0 \<le> c \<and> words_ok (DECI_BASE D) (take (length wa) s) \<and>
        words_ok (DECI_BASE D) (drop (length wa + 1) s) \<and>
        length wa + 1 + (length wa - length wb + 1) \<le> length s \<and>
        wval (DECI_BASE D) (take (length wa) s) =
          wval (DECI_BASE D) wa div wval (DECI_BASE D) wb * wval (DECI_BASE D) wb \<and>
        wval (DECI_BASE D) (take (length wa - length wb + 1) (drop (length wa + 1) s)) =
          wval (DECI_BASE D) wa div wval (DECI_BASE D) wb))"

definition deci_ok :: "deci \<Rightarrow> bool" where
  "deci_ok D \<longleftrightarrow> deci_config_ok D \<and> deci_spans_ok D \<and> deci_add_ok D \<and> deci_sub_ok D \<and>
     deci_uword_ok D \<and> deci_mul_ok D \<and> deci_div_ok D"

subsection \<open>The laws, one by one\<close>

lemma deci_ok_config:
  assumes "deci_ok D"
  shows "3 \<le> DECI_BASE_LOG D" and "DECI_BASE_LOG D \<le> 19" and "0 < SIZEOF_UWORD D" and "SIZEOF_UWORD D \<le> 8"
  using assms by (simp_all add: deci_ok_def deci_config_ok_def)

lemma DECI_BASE_ge:
  assumes "deci_ok D"
  shows "1000 \<le> DECI_BASE D"
proof -
  have "(10 :: nat) ^ 3 \<le> 10 ^ DECI_BASE_LOG D"
    by (rule power_increasing) (use deci_ok_config(1) [OF assms] in auto)
  then show ?thesis by (simp add: DECI_BASE_def)
qed

lemma DECI_BASE_pos [simp]: "0 < DECI_BASE D"
  by (simp add: DECI_BASE_def)

lemma DECI_BASE_neq_0 [simp]: "DECI_BASE D \<noteq> 0"
  using DECI_BASE_pos [of D] by linarith

lemma DECI_BASE_gt_1: "deci_ok D \<Longrightarrow> 1 < DECI_BASE D"
  using DECI_BASE_ge [of D] by simp

lemma DECI_BASE_less_zu:
  assumes "deci_ok D"
  shows "DECI_BASE D \<le> SIZE_MAX"
proof -
  have "(10 :: nat) ^ DECI_BASE_LOG D \<le> 10 ^ 19"
    by (rule power_increasing) (use deci_ok_config(2) [OF assms] in auto)
  then show ?thesis by (simp add: DECI_BASE_def SIZE_MAX_def)
qed

lemmas deci_ok_parts = deci_ok_def deci_spans_ok_def deci_add_ok_def deci_sub_ok_def deci_uword_ok_def
  deci_mul_ok_def deci_div_ok_def

lemma deci_spans_simps:
  assumes "deci_ok D"
  shows "deci_is_zero_n D ws \<longleftrightarrow> (\<forall>w\<in>set ws. w = 0)"
    and "deci_memcpy D ws = ws" and "deci_memmove D ws = ws" and "deci_zero_out_n D n = replicate n 0"
  using assms by (simp_all add: deci_ok_def deci_spans_ok_def)

lemma deci_is_zero_n_iff:
  assumes "deci_ok D"
  shows "deci_is_zero_n D ws \<longleftrightarrow> wval (DECI_BASE D) ws = 0"
  using assms by (simp add: deci_spans_simps wval_0_iff)

lemma deci_skip0_law:
  assumes "deci_ok D"
  shows "deci_skip0 D ws \<le> length ws" and "\<forall>w\<in>set (take (deci_skip0 D ws) ws). w = 0"
    and "deci_skip0 D ws < length ws \<Longrightarrow> ws ! deci_skip0 D ws \<noteq> 0"
  using assms by (auto simp: deci_ok_def deci_spans_ok_def)

lemma deci_skip0_split:
  assumes "deci_ok D"
  obtains rest where "ws = replicate (deci_skip0 D ws) 0 @ rest" and "drop (deci_skip0 D ws) ws = rest"
    and "rest = [] \<or> hd rest \<noteq> 0"
proof
  let ?n = "deci_skip0 D ws"
  have "take ?n ws = replicate ?n 0"
    using deci_skip0_law(1,2) [OF assms, of ws]
    by (intro replicate_eqI) (auto simp: min_def)
  then show "ws = replicate ?n 0 @ drop ?n ws"
    by (metis append_take_drop_id)
  show "drop ?n ws = [] \<or> hd (drop ?n ws) \<noteq> 0"
    using deci_skip0_law(3) [OF assms, of ws]
    by (cases "deci_skip0 D ws < length ws") (simp_all add: hd_drop_conv_nth)
qed simp

lemma deci_normalize_law:
  assumes "deci_ok D"
  shows "deci_normalize D ws \<le> length ws" and "\<forall>w\<in>set (drop (deci_normalize D ws) ws). w = 0"
    and "normalized (take (deci_normalize D ws) ws)"
  using assms by (auto simp: deci_ok_def deci_spans_ok_def)

lemma deci_normalize_val:
  assumes "deci_ok D"
  shows "wval (DECI_BASE D) (take (deci_normalize D ws) ws) = wval (DECI_BASE D) ws"
  using wval_take_drop [of "DECI_BASE D" ws "deci_normalize D ws"]
    wval_zeros [OF deci_normalize_law(2) [OF assms], of "DECI_BASE D" ws] by simp

lemma deci_normalize_id:
  assumes "deci_ok D" and "normalized ws"
  shows "deci_normalize D ws = length ws"
proof (rule ccontr)
  assume "deci_normalize D ws \<noteq> length ws"
  then have "drop (deci_normalize D ws) ws \<noteq> []"
    using deci_normalize_law(1) [OF assms(1), of ws] by simp
  then have "last ws \<in> set (drop (deci_normalize D ws) ws)"
    by (metis last_drop last_in_set drop_eq_Nil not_le)
  then have "last ws = 0"
    using deci_normalize_law(2) [OF assms(1)] by blast
  with assms(2) \<open>drop _ ws \<noteq> []\<close> show False
    by (auto simp: normalized_def)
qed

lemma deci_add_law:
  assumes "deci_ok D" and "words_ok (DECI_BASE D) wa" and "words_ok (DECI_BASE D) wb"
    and "length wb \<le> length wa"
  obtains r c where "deci_add D wa wb = (r, c)" and "words_ok (DECI_BASE D) r" and "length r = length wa"
    and "wval (DECI_BASE D) r + (if c then DECI_BASE D ^ length wa else 0) =
           wval (DECI_BASE D) wa + wval (DECI_BASE D) wb"
  using assms unfolding deci_ok_def deci_add_ok_def by (metis surj_pair)

lemma deci_sub_raw_law:
  assumes "deci_ok D" and "words_ok (DECI_BASE D) wa" and "words_ok (DECI_BASE D) wb"
    and "length wb \<le> length wa"
  obtains r c where "deci_sub_raw D wa wb = (r, c)" and "words_ok (DECI_BASE D) r" and "length r = length wa"
    and "wval (DECI_BASE D) r + wval (DECI_BASE D) wb =
           wval (DECI_BASE D) wa + (if c then DECI_BASE D ^ length wa else 0)"
  using assms unfolding deci_ok_def deci_sub_ok_def by (metis surj_pair)

lemma deci_uncomplement_law:
  assumes "deci_ok D" and "words_ok (DECI_BASE D) wa" and "wval (DECI_BASE D) wa \<noteq> 0"
  shows "words_ok (DECI_BASE D) (deci_uncomplement D wa)"
    and "length (deci_uncomplement D wa) = length wa"
    and "wval (DECI_BASE D) (deci_uncomplement D wa) + wval (DECI_BASE D) wa = DECI_BASE D ^ length wa"
  using assms unfolding deci_ok_def deci_sub_ok_def by blast+

lemma deci_mul_uword_law:
  assumes "deci_ok D" and "words_ok (DECI_BASE D) wa" and "b < DECI_BASE D"
  obtains r h where "deci_mul_uword D wa b = (r, h)" and "words_ok (DECI_BASE D) r"
    and "length r = length wa" and "h < DECI_BASE D"
    and "wval (DECI_BASE D) r + DECI_BASE D ^ length wa * h = wval (DECI_BASE D) wa * b"
  using assms unfolding deci_ok_def deci_uword_ok_def by (metis surj_pair)

lemma deci_divmod_uword_law:
  assumes "deci_ok D" and "words_ok (DECI_BASE D) wa" and "0 < b" and "b < DECI_BASE D"
  obtains r where "deci_divmod_uword D wa b = (r, wval (DECI_BASE D) wa mod b)"
    and "words_ok (DECI_BASE D) r" and "length r = length wa"
    and "wval (DECI_BASE D) r = wval (DECI_BASE D) wa div b"
  using assms unfolding deci_ok_def deci_uword_ok_def by (metis surj_pair)

lemma deci_products:
  assumes "deci_ok D" and "words_ok (DECI_BASE D) wa" and "words_ok (DECI_BASE D) wb"
  shows "product_of (DECI_BASE D) wa wb (deci_mul D wa wb (replicate (length wa + length wb) 0))"
    and "wa \<noteq> [] \<Longrightarrow> wb \<noteq> [] \<Longrightarrow> product_of (DECI_BASE D) wa wb (decikara_mul D wa wb cutoff)"
    and "wa \<noteq> [] \<Longrightarrow> wb \<noteq> [] \<Longrightarrow> product_of (DECI_BASE D) wa wb (decintt_mul D wa wb)"
    and "wa \<noteq> [] \<Longrightarrow> product_of (DECI_BASE D) wa wa (decintt_sqr D wa)"
  using assms unfolding deci_ok_def deci_mul_ok_def by blast+

text \<open>The quotient or the remainder at the beginning of the span that was divided.\<close>

definition result_at :: "nat \<Rightarrow> nat list \<Rightarrow> nat \<Rightarrow> nat list \<times> nat \<Rightarrow> bool" where
  "result_at B wa v res \<longleftrightarrow> (case res of (r, n) \<Rightarrow>
     length r = length wa \<and> n \<le> length wa \<and> words_ok B (take n r) \<and> wval B (take n r) = v)"

lemma deci_division:
  assumes "deci_ok D" and "words_ok (DECI_BASE D) wa" and "words_ok (DECI_BASE D) wb"
    and "normalized wb" and "wb \<noteq> []"
  shows "result_at (DECI_BASE D) wa (wval (DECI_BASE D) wa div wval (DECI_BASE D) wb) (deci_div D wa wb)"
    and "result_at (DECI_BASE D) wa (wval (DECI_BASE D) wa mod wval (DECI_BASE D) wb) (deci_mod D wa wb)"
  using assms unfolding deci_ok_def deci_div_ok_def result_at_def by (auto split: prod.splits)

lemma decinewt_div_law:
  assumes "deci_ok D" and "words_ok (DECI_BASE D) wa" and "words_ok (DECI_BASE D) wb"
    and "normalized wa" and "normalized wb" and "wb \<noteq> []" and "mul_fn_ok (DECI_BASE D) mul"
    and "DECINEWT_MIN D \<le> length wb" and "length wb \<le> length wa"
  obtains c s where "decinewt_div D wa wb mul = (c, s)" and "0 \<le> c"
    and "words_ok (DECI_BASE D) (take (length wa) s)"
    and "words_ok (DECI_BASE D) (drop (length wa + 1) s)"
    and "length wa + 1 + (length wa - length wb + 1) \<le> length s"
    and "wval (DECI_BASE D) (take (length wa) s) =
           wval (DECI_BASE D) wa div wval (DECI_BASE D) wb * wval (DECI_BASE D) wb"
    and "wval (DECI_BASE D) (take (length wa - length wb + 1) (drop (length wa + 1) s)) =
           wval (DECI_BASE D) wa div wval (DECI_BASE D) wb"
proof -
  obtain c s where r: "decinewt_div D wa wb mul = (c, s)"
    by (cases "decinewt_div D wa wb mul")
  have "deci_div_ok D"
    using assms(1) by (simp add: deci_ok_def)
  from this [unfolded deci_div_ok_def, rule_format, OF assms(2,3,5,6)] assms(4,7,8,9) r
  show ?thesis
    by (intro that [of c s]) blast+
qed

end
