(* ===== verification/Deci_Reference.thy ===== *)
theory Deci_Reference
  imports Deci
begin

text \<open>
  An instance of the record \<open>deci\<close> that meets \<open>deci_ok\<close>: each function reads the number its spans
  stand for, calculates with natural numbers and writes the digits of the result. It shows that the
  contracts can hold together, and it is what the examples of the development run on.
\<close>

section \<open>Digits of a number\<close>

primrec to_words :: "nat \<Rightarrow> nat \<Rightarrow> nat \<Rightarrow> nat list" where
  "to_words B 0 v = []"
| "to_words B (Suc n) v = v mod B # to_words B n (v div B)"

lemma length_to_words [simp]: "length (to_words B n v) = n"
  by (induction n arbitrary: v) simp_all

lemma words_ok_to_words: "0 < B \<Longrightarrow> words_ok B (to_words B n v)"
  by (induction n arbitrary: v) simp_all

lemma wval_to_words: "0 < B \<Longrightarrow> wval B (to_words B n v) = v mod B ^ n"
  by (induction n arbitrary: v) (simp_all add: mod_mult2_eq)

section \<open>The instance\<close>

definition ref_base :: nat where
  "ref_base = 1000"

lemma ref_base_pos [simp]: "0 < ref_base"
  by (simp add: ref_base_def)

definition ref_skip0 :: "nat list \<Rightarrow> nat" where
  "ref_skip0 ws = length (takeWhile (\<lambda>w. w = 0) ws)"

definition ref_normalize :: "nat list \<Rightarrow> nat" where
  "ref_normalize ws = length ws - length (takeWhile (\<lambda>w. w = 0) (rev ws))"

definition ref_product :: "nat list \<Rightarrow> nat list \<Rightarrow> nat list" where
  "ref_product wa wb = to_words ref_base (length wa + length wb) (wval ref_base wa * wval ref_base wb)"

definition deci_ref :: deci where
  "deci_ref = \<lparr>
     DECI_BASE_LOG = 3, SIZEOF_UWORD = 2, DECINEWT_MIN = 2,
     uninit = (\<lambda>i. 1717 + i),
     deci_is_zero_n = list_all (\<lambda>w. w = 0),
     deci_skip0 = ref_skip0,
     deci_normalize = ref_normalize,
     deci_memcpy = (\<lambda>ws. ws), deci_memmove = (\<lambda>ws. ws),
     deci_zero_out_n = (\<lambda>n. replicate n 0),
     deci_add = (\<lambda>wa wb. let v = wval ref_base wa + wval ref_base wb in
       (to_words ref_base (length wa) v, v \<ge> ref_base ^ length wa)),
     deci_sub_raw = (\<lambda>wa wb. let a = wval ref_base wa; b = wval ref_base wb in
       (to_words ref_base (length wa) (if a < b then a + ref_base ^ length wa - b else a - b), a < b)),
     deci_uncomplement = (\<lambda>wa. to_words ref_base (length wa) (ref_base ^ length wa - wval ref_base wa)),
     deci_mul_uword = (\<lambda>wa b. let v = wval ref_base wa * b in
       (to_words ref_base (length wa) v, v div ref_base ^ length wa)),
     deci_divmod_uword = (\<lambda>wa b. (to_words ref_base (length wa) (wval ref_base wa div b), wval ref_base wa mod b)),
     deci_mul = (\<lambda>wa wb out. to_words ref_base (length out)
       (wval ref_base out + wval ref_base wa * wval ref_base wb)),
     deci_div = (\<lambda>wa wb. (to_words ref_base (length wa) (wval ref_base wa div wval ref_base wb), length wa)),
     deci_mod = (\<lambda>wa wb. (to_words ref_base (length wa) (wval ref_base wa mod wval ref_base wb), length wa)),
     decikara_mul = (\<lambda>wa wb cutoff. ref_product wa wb),
     decintt_mul = ref_product,
     decintt_sqr = (\<lambda>wa. ref_product wa wa),
     decinewt_div = (\<lambda>wa wb mul. let q = wval ref_base wa div wval ref_base wb in
       (0, to_words ref_base (length wa) (q * wval ref_base wb) @ [0] @
           to_words ref_base (length wa - length wb + 1) q)) \<rparr>"

lemma deci_ref_simps [simp]:
  "DECI_BASE_LOG deci_ref = 3" "SIZEOF_UWORD deci_ref = 2" "DECINEWT_MIN deci_ref = 2"
  "DECI_BASE deci_ref = ref_base"
  by (simp_all add: deci_ref_def DECI_BASE_def ref_base_def)

lemma deci_ref_funs:
  "deci_is_zero_n deci_ref = list_all (\<lambda>w. w = 0)" "deci_skip0 deci_ref = ref_skip0"
  "deci_normalize deci_ref = ref_normalize" "deci_memcpy deci_ref ws = ws" "deci_memmove deci_ref ws = ws"
  "deci_zero_out_n deci_ref n = replicate n 0"
  "deci_add deci_ref wa wb = (to_words ref_base (length wa) (wval ref_base wa + wval ref_base wb),
     wval ref_base wa + wval ref_base wb \<ge> ref_base ^ length wa)"
  "deci_sub_raw deci_ref wa wb =
     (to_words ref_base (length wa) (if wval ref_base wa < wval ref_base wb
        then wval ref_base wa + ref_base ^ length wa - wval ref_base wb
        else wval ref_base wa - wval ref_base wb), wval ref_base wa < wval ref_base wb)"
  "deci_uncomplement deci_ref wa = to_words ref_base (length wa) (ref_base ^ length wa - wval ref_base wa)"
  "deci_mul_uword deci_ref wa b = (to_words ref_base (length wa) (wval ref_base wa * b),
     wval ref_base wa * b div ref_base ^ length wa)"
  "deci_divmod_uword deci_ref wa b = (to_words ref_base (length wa) (wval ref_base wa div b), wval ref_base wa mod b)"
  "deci_mul deci_ref wa wb out = to_words ref_base (length out) (wval ref_base out + wval ref_base wa * wval ref_base wb)"
  "deci_div deci_ref wa wb = (to_words ref_base (length wa) (wval ref_base wa div wval ref_base wb), length wa)"
  "deci_mod deci_ref wa wb = (to_words ref_base (length wa) (wval ref_base wa mod wval ref_base wb), length wa)"
  "decikara_mul deci_ref wa wb cutoff = ref_product wa wb" "decintt_mul deci_ref wa wb = ref_product wa wb"
  "decintt_sqr deci_ref wa = ref_product wa wa"
  "decinewt_div deci_ref wa wb mul = (0, to_words ref_base (length wa)
     (wval ref_base wa div wval ref_base wb * wval ref_base wb) @ [0] @
     to_words ref_base (length wa - length wb + 1) (wval ref_base wa div wval ref_base wb))"
  by (simp_all add: deci_ref_def Let_def)

lemma ref_normalize_split:
  obtains n where "ws = take (ref_normalize ws) ws @ replicate n 0" and "normalized (take (ref_normalize ws) ws)"
proof -
  let ?z = "takeWhile (\<lambda>w. w = 0) (rev ws)" and ?r = "dropWhile (\<lambda>w. w = 0) (rev ws)"
  have ws: "ws = rev ?r @ rev ?z"
    by (metis rev_append rev_rev_ident takeWhile_dropWhile_id)
  have len: "ref_normalize ws = length (rev ?r)"
    using arg_cong [OF ws, of length] by (simp add: ref_normalize_def)
  have z: "rev ?z = replicate (length ?z) 0"
    by (rule replicate_eqI) (auto dest: set_takeWhileD)
  have "take (ref_normalize ws) ws = rev ?r"
    unfolding len by (subst ws) simp
  moreover have "normalized (rev ?r)"
    using hd_dropWhile [of "\<lambda>w. w = 0" "rev ws"]
    by (cases "dropWhile (\<lambda>w. w = 0) (rev ws) = []") (simp_all add: normalized_def last_rev)
  ultimately show ?thesis
    using that [of "length ?z"] ws z by metis
qed

lemma ref_spans_ok: "deci_spans_ok deci_ref"
proof -
  have norm: "ref_normalize ws \<le> length ws \<and> (\<forall>w\<in>set (drop (ref_normalize ws) ws). w = 0) \<and>
        normalized (take (ref_normalize ws) ws)" for ws
  proof -
    obtain n where n: "ws = take (ref_normalize ws) ws @ replicate n 0"
      and "normalized (take (ref_normalize ws) ws)"
      by (rule ref_normalize_split)
    moreover have "ref_normalize ws \<le> length ws"
      by (simp add: ref_normalize_def)
    moreover have "drop (ref_normalize ws) ws = replicate n 0"
      using n append_take_drop_id [of "ref_normalize ws" ws] by (metis same_append_eq)
    ultimately show ?thesis by simp
  qed
  have skip: "ref_skip0 ws \<le> length ws \<and> (\<forall>w\<in>set (take (ref_skip0 ws) ws). w = 0) \<and>
        (ref_skip0 ws < length ws \<longrightarrow> ws ! ref_skip0 ws \<noteq> 0)" for ws
    using nth_length_takeWhile [of "\<lambda>w. w = 0" ws]
    by (auto simp: ref_skip0_def length_takeWhile_le takeWhile_eq_take [symmetric] dest: set_takeWhileD)
  show ?thesis
    using norm skip by (simp add: deci_spans_ok_def deci_ref_funs list_all_iff)
qed

lemma ref_add_ok: "deci_add_ok deci_ref"
  unfolding deci_add_ok_def
proof (intro allI impI)
  fix wa wb r c
  assume ok: "words_ok (DECI_BASE deci_ref) wa" "words_ok (DECI_BASE deci_ref) wb" and len: "length wb \<le> length wa"
    and r: "deci_add deci_ref wa wb = (r, c)"
  let ?B = "ref_base" and ?v = "wval ref_base wa + wval ref_base wb"
  have "wval ?B wa < ?B ^ length wa" "wval ?B wb < ?B ^ length wa"
    using wval_less [OF ok(1)] wval_less [OF ok(2)] power_increasing [OF len, of ?B]
    by (simp_all add: Suc_le_eq)
  then have "?v mod ?B ^ length wa + (if ?B ^ length wa \<le> ?v then ?B ^ length wa else 0) = ?v"
    using mod_less [of "?v - ?B ^ length wa" "?B ^ length wa"]
    by (auto simp: le_mod_geq)
  with r show "words_ok (DECI_BASE deci_ref) r \<and> length r = length wa \<and>
     wval (DECI_BASE deci_ref) r + (if c then DECI_BASE deci_ref ^ length wa else 0) =
       wval (DECI_BASE deci_ref) wa + wval (DECI_BASE deci_ref) wb"
    by (auto simp: deci_ref_funs words_ok_to_words wval_to_words)
qed

lemma ref_sub_ok: "deci_sub_ok deci_ref"
  unfolding deci_sub_ok_def
proof (intro allI impI conjI)
  fix wa wb r c
  assume ok: "words_ok (DECI_BASE deci_ref) wa" "words_ok (DECI_BASE deci_ref) wb" and len: "length wb \<le> length wa"
    and r: "deci_sub_raw deci_ref wa wb = (r, c)"
  let ?B = "ref_base"
  have lt: "wval ?B wa < ?B ^ length wa" "wval ?B wb < ?B ^ length wa"
    using wval_less [OF ok(1)] wval_less [OF ok(2)] power_increasing [OF len, of ?B]
    by (simp_all add: Suc_le_eq)
  show "words_ok (DECI_BASE deci_ref) r" "length r = length wa"
    using r by (auto simp: deci_ref_funs words_ok_to_words)
  show "wval (DECI_BASE deci_ref) r + wval (DECI_BASE deci_ref) wb =
       wval (DECI_BASE deci_ref) wa + (if c then DECI_BASE deci_ref ^ length wa else 0)"
    using r lt by (auto simp: deci_ref_funs wval_to_words)
next
  fix wa
  assume ok: "words_ok (DECI_BASE deci_ref) wa" and nz: "wval (DECI_BASE deci_ref) wa \<noteq> 0"
  show "words_ok (DECI_BASE deci_ref) (deci_uncomplement deci_ref wa)"
    "length (deci_uncomplement deci_ref wa) = length wa"
    by (simp_all add: deci_ref_funs words_ok_to_words)
  show "wval (DECI_BASE deci_ref) (deci_uncomplement deci_ref wa) + wval (DECI_BASE deci_ref) wa =
      DECI_BASE deci_ref ^ length wa"
    using wval_less [OF ok] nz by (simp add: deci_ref_funs wval_to_words)
qed

lemma ref_uword_ok: "deci_uword_ok deci_ref"
  unfolding deci_uword_ok_def
proof (intro allI impI conjI)
  fix wa b r h
  assume ok: "words_ok (DECI_BASE deci_ref) wa" and b: "b < DECI_BASE deci_ref"
    and r: "deci_mul_uword deci_ref wa b = (r, h)"
  let ?B = "ref_base"
  have "h = wval ?B wa * b div ?B ^ length wa"
    using r by (simp add: deci_ref_funs)
  moreover have "wval ?B wa * b < ?B ^ length wa * ?B"
    using wval_less [OF ok] b by (intro mult_strict_mono) simp_all
  ultimately show "h < DECI_BASE deci_ref"
    by (simp add: less_mult_imp_div_less mult.commute)
  show "words_ok (DECI_BASE deci_ref) r" "length r = length wa"
    "wval (DECI_BASE deci_ref) r + DECI_BASE deci_ref ^ length wa * h = wval (DECI_BASE deci_ref) wa * b"
    using r by (auto simp: deci_ref_funs words_ok_to_words wval_to_words)
next
  fix wa b r m
  assume ok: "words_ok (DECI_BASE deci_ref) wa" and b: "0 < b" "b < DECI_BASE deci_ref"
    and r: "deci_divmod_uword deci_ref wa b = (r, m)"
  have "wval ref_base wa div b < ref_base ^ length wa"
    using wval_less [OF ok] by (simp add: le_less_trans [OF div_le_dividend])
  with r show "words_ok (DECI_BASE deci_ref) r" "length r = length wa"
    "wval (DECI_BASE deci_ref) r = wval (DECI_BASE deci_ref) wa div b"
    "m = wval (DECI_BASE deci_ref) wa mod b"
    by (auto simp: deci_ref_funs words_ok_to_words wval_to_words)
qed

lemma ref_product_of:
  assumes "words_ok ref_base wa" and "words_ok ref_base wb" and "n = length wa + length wb"
  shows "product_of ref_base wa wb (to_words ref_base n (wval ref_base wa * wval ref_base wb))"
proof -
  have "wval ref_base wa * wval ref_base wb < ref_base ^ length wa * ref_base ^ length wb"
    using wval_less [OF assms(1)] wval_less [OF assms(2)] by (intro mult_strict_mono) simp_all
  then show ?thesis
    by (simp add: product_of_def words_ok_to_words wval_to_words assms(3) power_add)
qed

lemma ref_mul_ok: "deci_mul_ok deci_ref"
  unfolding deci_mul_ok_def deci_ref_simps deci_ref_funs ref_product_def
  by (auto intro: ref_product_of)

lemma ref_div_ok: "deci_div_ok deci_ref"
  unfolding deci_div_ok_def deci_ref_simps
proof (intro allI impI)
  fix wa wb
  let ?B = "ref_base"
  let ?a = "wval ref_base wa" and ?b = "wval ref_base wb"
  assume wa: "words_ok ?B wa" and wb: "words_ok ?B wb" and norm: "normalized wb" and ne: "wb \<noteq> []"
  have bpos: "0 < ?b"
    using normalized_0_iff [OF norm, of ?B] ne by simp
  have a: "?a < ?B ^ length wa"
    by (rule wval_less [OF wa])
  have div_lt: "?a div ?b < ?B ^ length wa" and mod_lt: "?a mod ?b < ?B ^ length wa"
    and mul_lt: "?a div ?b * ?b < ?B ^ length wa"
    using a by (meson div_le_dividend mod_less_eq_dividend div_times_less_eq_dividend le_less_trans)+
  have q_lt: "?a div ?b < ?B ^ (length wa - length wb + 1)" if len: "length wb \<le> length wa"
  proof -
    have "?B ^ length wa = ?B ^ (length wa - length wb + 1) * ?B ^ (length wb - 1)"
      using len ne by (cases wb; cases "length wa") (simp_all flip: power_add power_Suc)
    also have "\<dots> \<le> ?B ^ (length wa - length wb + 1) * ?b"
      using normalized_ge [OF norm ne, of ?B] by (rule mult_le_mono2)
    finally show ?thesis
      using a by (intro less_mult_imp_div_less) simp
  qed
  show "(\<forall>r n. deci_div deci_ref wa wb = (r, n) \<longrightarrow> length r = length wa \<and> n \<le> length wa \<and>
          words_ok ?B (take n r) \<and> wval ?B (take n r) = ?a div ?b) \<and>
     (\<forall>r n. deci_mod deci_ref wa wb = (r, n) \<longrightarrow> length r = length wa \<and> n \<le> length wa \<and>
          words_ok ?B (take n r) \<and> wval ?B (take n r) = ?a mod ?b) \<and>
     (\<forall>mul c s. mul_fn_ok ?B mul \<longrightarrow> 2 \<le> length wb \<longrightarrow> length wb \<le> length wa \<longrightarrow>
        normalized wa \<longrightarrow> decinewt_div deci_ref wa wb mul = (c, s) \<longrightarrow>
        0 \<le> c \<and> words_ok ?B (take (length wa) s) \<and> words_ok ?B (drop (length wa + 1) s) \<and>
        length wa + 1 + (length wa - length wb + 1) \<le> length s \<and>
        wval ?B (take (length wa) s) = ?a div ?b * ?b \<and>
        wval ?B (take (length wa - length wb + 1) (drop (length wa + 1) s)) = ?a div ?b)"
    using div_lt mod_lt mul_lt q_lt
    by (auto simp: deci_ref_funs words_ok_to_words wval_to_words simp del: to_words.simps power_Suc)
qed

lemma deci_ref_ok: "deci_ok deci_ref"
  by (simp add: deci_ok_def ref_spans_ok ref_add_ok ref_sub_ok ref_uword_ok ref_mul_ok ref_div_ok
      deci_config_ok_def)

end
