(* ===== verification/Ntp.thy ===== *)
theory Ntp
  imports Deci Deci_Reference
begin

text \<open>
  \<open>ntp.c\<close>: the precision of division in decimal digits as a number of words and a power of ten that
  the last word is to be a multiple of.
\<close>

record ntp =
  ntp_scale :: nat
  submod :: nat

primrec word_from_pow10 :: "nat \<Rightarrow> nat" where
  "word_from_pow10 0 = 1"
| "word_from_pow10 (Suc p) = word_from_pow10 p * 10"

text \<open>\<open>__builtin_ctz\<close>, for which zero is not an argument.\<close>

partial_function (option) word_ctz :: "nat \<Rightarrow> nat option" where
  "word_ctz x = (if x = 0 then None else if odd x then Some 0 else do { n \<leftarrow> word_ctz (x div 2); Some (Suc n) })"

definition ntp_from_prec :: "deci \<Rightarrow> nat \<Rightarrow> ntp" where
  "ntp_from_prec D prec =
     (let q = prec div DECI_BASE_LOG D; r = prec mod DECI_BASE_LOG D in
      if r = 0 then \<lparr>ntp_scale = q, submod = 1\<rparr>
      else \<lparr>ntp_scale = q + 1, submod = word_from_pow10 (DECI_BASE_LOG D - r)\<rparr>)"

text \<open>
  In C the product can wrap for precisions close to \<open>SIZE_MAX\<close>; the subtraction then wraps back, so the difference is that
  of natural numbers.
\<close>

definition ntp_to_prec :: "deci \<Rightarrow> ntp \<Rightarrow> nat option" where
  "ntp_to_prec D p = do { z \<leftarrow> word_ctz (submod p); Some (ntp_scale p * DECI_BASE_LOG D - z) }"

lemma word_from_pow10_eq [simp]: "word_from_pow10 p = 10 ^ p"
  by (induction p) simp_all

lemma word_ctz_pow10: "word_ctz (10 ^ k) = Some k"
proof -
  have "word_ctz (2 ^ k * m) = Some k" if "odd m" for m :: nat
    using that
  proof (induction k)
    case 0
    then show ?case by (subst word_ctz.simps) (auto simp: odd_pos)
  next
    case (Suc k)
    then show ?case by (subst word_ctz.simps) (auto simp: odd_pos)
  qed
  from this [of "5 ^ k"] show ?thesis
    by (simp add: power_mult_distrib [symmetric])
qed

text \<open>The truncation parameters stand for a precision.\<close>

definition ntp_ok :: "deci \<Rightarrow> ntp \<Rightarrow> nat \<Rightarrow> bool" where
  "ntp_ok D p prec \<longleftrightarrow> submod p * 10 ^ prec = DECI_BASE D ^ ntp_scale p \<and> 0 < submod p \<and> submod p < DECI_BASE D \<and>
     submod p dvd DECI_BASE D"

lemma ntp_from_prec_ok:
  assumes "deci_ok D"
  shows "ntp_ok D (ntp_from_prec D prec) prec"
proof -
  let ?L = "DECI_BASE_LOG D" and ?q = "prec div DECI_BASE_LOG D" and ?r = "prec mod DECI_BASE_LOG D"
  have L: "0 < ?L" using deci_ok_config(1) [OF assms] by simp
  have prec: "prec = ?L * ?q + ?r" by simp
  show ?thesis
  proof (cases "?r = 0")
    case True
    then have "(10 :: nat) ^ prec = DECI_BASE D ^ ?q"
      unfolding DECI_BASE_def power_mult [symmetric] using prec by simp
    then show ?thesis
      using True DECI_BASE_gt_1 [OF assms] by (simp add: ntp_ok_def ntp_from_prec_def)
  next
    case False
    have "?r < ?L" using L by simp
    have "?L - ?r + prec = ?L * (?q + 1)"
      using \<open>?r < ?L\<close> prec by (simp only: distrib_left mult_1_right)
    then have "(10 :: nat) ^ (?L - ?r) * 10 ^ prec = DECI_BASE D ^ (?q + 1)"
      unfolding DECI_BASE_def power_mult [symmetric] power_add [symmetric] by simp
    moreover have "(10 :: nat) ^ (?L - ?r) < DECI_BASE D"
      unfolding DECI_BASE_def using \<open>?r < ?L\<close> False by (intro power_strict_increasing) auto
    moreover have "(10 :: nat) ^ (?L - ?r) dvd DECI_BASE D"
      unfolding DECI_BASE_def by (rule le_imp_power_dvd) simp
    ultimately show ?thesis
      using False by (simp add: ntp_ok_def ntp_from_prec_def)
  qed
qed

text \<open>
  C25: Setting a precision and reading it back gives the same number of digits, for every precision;
  the power of ten that the last word is truncated to is the right one: \<open>submod / B ^ scale\<close> is one
  unit of the last digit kept.
\<close>

theorem ntp_roundtrip:
  assumes "deci_ok D"
  shows "ntp_to_prec D (ntp_from_prec D prec) = Some prec \<and>
    submod (ntp_from_prec D prec) * 10 ^ prec = DECI_BASE D ^ ntp_scale (ntp_from_prec D prec) \<and>
    submod (ntp_from_prec D prec) < DECI_BASE D"
proof -
  have "word_ctz 1 = Some 0"
    using word_ctz_pow10 [of 0] by simp
  moreover have "0 < DECI_BASE_LOG D"
    using deci_ok_config(1) [OF assms] by simp
  ultimately have "ntp_to_prec D (ntp_from_prec D prec) = Some prec"
    using mult_div_mod_eq [of "DECI_BASE_LOG D" prec] mod_less_divisor [of "DECI_BASE_LOG D" prec]
    by (auto simp: ntp_to_prec_def ntp_from_prec_def Let_def word_ctz_pow10 algebra_simps)
  then show ?thesis
    using ntp_from_prec_ok [OF assms, of prec] by (simp add: ntp_ok_def)
qed

theorem ntp_roundtrip_witness:
  "ntp_to_prec deci_ref (ntp_from_prec deci_ref 20) = Some 20 \<and> submod (ntp_from_prec deci_ref 20) < ref_base"
  using ntp_roundtrip [OF deci_ref_ok, of 20] by simp

end
