(* ===== verification/Number.thy ===== *)
theory Number
  imports Common Deci Deci_Reference Ntp
begin

text \<open>
  The decimal numbers of \<open>number.h\<close> and \<open>number.c\<close>: their representation, the functions that
  allocate, copy, widen and trim it, and conversions from and to machine integers.

  A \<open>Number\<close> is a sign and an array of words of which the first \<open>scale\<close> are the fractional part.
  Operations consume their arguments and work in place when the argument is not shared; here they
  return the new number, and \<open>nrefs\<close> decides which path is taken. The memory of the numbers that
  an operation releases is not modelled. Allocation fails (no result) when the size in bytes does
  not fit in a \<open>size_t\<close>; fresh words hold what the allocator left there, \<open>uninit\<close>.
\<close>

section \<open>Representation and allocation\<close>

record number =
  nrefs :: nat
  sign :: bool
  scale :: nat
  words :: "nat list"

abbreviation nwords :: "number \<Rightarrow> nat" where
  "nwords a \<equiv> length (words a)"

definition SIZEOF_NUMBER :: nat where
  "SIZEOF_NUMBER = 40"

definition unsafe_reallocate :: "deci \<Rightarrow> number \<Rightarrow> nat \<Rightarrow> number option" where
  "unsafe_reallocate D a n =
     (if n * SIZEOF_UWORD D > SIZE_MAX then None
      else if n * SIZEOF_UWORD D + SIZEOF_NUMBER > SIZE_MAX then None
      else Some (a\<lparr>words := take n (words a) @ map (uninit D) [nwords a..<n]\<rparr>))"

definition allocate :: "deci \<Rightarrow> bool \<Rightarrow> nat \<Rightarrow> nat \<Rightarrow> number option" where
  "allocate D neg n sc =
     do {
       a \<leftarrow> unsafe_reallocate D \<lparr>nrefs = 0, sign = False, scale = 0, words = []\<rparr> n;
       Some (a\<lparr>nrefs := 1, sign := neg, scale := sc\<rparr>)
     }"

definition unsafe_push_word :: "deci \<Rightarrow> number \<Rightarrow> nat \<Rightarrow> number option" where
  "unsafe_push_word D a w =
     (let nwa = nwords a in
      do {
        a \<leftarrow> unsafe_reallocate D a (nwa + 1);
        Some (a\<lparr>words := (words a)[nwa := w]\<rparr>)
      })"

definition number_is_zero :: "deci \<Rightarrow> number \<Rightarrow> bool" where
  "number_is_zero D a \<longleftrightarrow> scale a = nwords a \<and> deci_is_zero_n D (take (scale a) (words a))"

definition number_is_izero :: "number \<Rightarrow> bool" where
  "number_is_izero a \<longleftrightarrow> nwords a = scale a"

definition number_is_fzero :: "deci \<Rightarrow> number \<Rightarrow> bool" where
  "number_is_fzero D a \<longleftrightarrow> deci_is_zero_n D (take (scale a) (words a))"

section \<open>Conversions from and to machine integers\<close>

definition NBUF :: nat where
  "NBUF = 4"

text \<open>
  The loop of \<open>number_new_from_zu\<close> that fills the buffer; the result \<open>Some None\<close> is the jump to
  \<open>slow_way\<close>.
\<close>

partial_function (option) fill_buf :: "deci \<Rightarrow> nat \<Rightarrow> nat list \<Rightarrow> nat list option option" where
  "fill_buf D y buf =
     (if y = 0 then Some (Some buf)
      else if length buf = NBUF then Some None
      else if y < DECI_BASE D then Some (Some (buf @ [y]))
      else fill_buf D (y div DECI_BASE D) (buf @ [y mod DECI_BASE D]))"

partial_function (option) push_words :: "deci \<Rightarrow> nat \<Rightarrow> number \<Rightarrow> number option" where
  "push_words D x a =
     (if x = 0 then Some a
      else do {
        a \<leftarrow> unsafe_push_word D a (x mod DECI_BASE D);
        push_words D (x div DECI_BASE D) a
      })"

definition number_new_from_zu :: "deci \<Rightarrow> nat \<Rightarrow> number option" where
  "number_new_from_zu D x =
     do {
       buf \<leftarrow> fill_buf D x [];
       (case buf of
          Some buf \<Rightarrow> do {
            a \<leftarrow> allocate D False (length buf) 0;
            Some (a\<lparr>words := deci_memcpy D buf\<rparr>)
          }
        | None \<Rightarrow> do {
            a \<leftarrow> allocate D False 0 0;
            push_words D x a
          })
     }"

text \<open>The loop of \<open>number_to_zu\<close>, from the most significant word down; \<open>SIZE_MAX\<close> is overflow.\<close>

fun zu_of_words :: "deci \<Rightarrow> nat list \<Rightarrow> nat \<Rightarrow> nat" where
  "zu_of_words D [] r = r"
| "zu_of_words D (w # ws) r =
     (if r * DECI_BASE D > SIZE_MAX then SIZE_MAX
      else if r * DECI_BASE D + w > SIZE_MAX then SIZE_MAX
      else zu_of_words D ws (r * DECI_BASE D + w))"

definition number_to_zu :: "deci \<Rightarrow> number \<Rightarrow> nat" where
  "number_to_zu D a =
     (if sign a then (if number_is_zero D a then 0 else SIZE_MAX)
      else zu_of_words D (rev (drop (scale a) (words a))) 0)"

fun u32_of_words :: "deci \<Rightarrow> nat list \<Rightarrow> 32 word \<Rightarrow> 32 word" where
  "u32_of_words D [] r = r"
| "u32_of_words D (w # ws) r = u32_of_words D ws (r * of_nat (DECI_BASE D) + of_nat w)"

definition number_to_u32 :: "deci \<Rightarrow> number \<Rightarrow> 32 word" where
  "number_to_u32 D a =
     (let r = u32_of_words D (rev (drop (scale a) (words a))) 0 in
      if sign a then - r else r)"

section \<open>Trimming\<close>

definition unsafe_strip :: "deci \<Rightarrow> number \<Rightarrow> nat \<Rightarrow> nat \<Rightarrow> number option" where
  "unsafe_strip D a nwr sr =
     (if nwords a = nwr \<and> scale a = sr then Some a
      else
        let ds = scale a - sr;
            a = (if ds \<noteq> 0 then
                   a\<lparr>words := deci_memmove D (take nwr (drop ds (words a))) @ drop nwr (words a),
                     scale := sr\<rparr>
                 else a) in
        unsafe_reallocate D a nwr)"

definition unsafe_normalize_full :: "deci \<Rightarrow> number \<Rightarrow> number option" where
  "unsafe_normalize_full D a =
     (let ds = deci_skip0 D (take (scale a) (words a));
          new_nintpart = deci_normalize D (drop (scale a) (words a));
          new_scale = scale a - ds in
      unsafe_strip D a (new_scale + new_nintpart) new_scale)"

definition unsafe_normalize_after_div :: "deci \<Rightarrow> number \<Rightarrow> nat \<Rightarrow> ntp \<Rightarrow> number option" where
  "unsafe_normalize_after_div D a nwr p =
     (let sa = scale a;
          (a, new_nwa) =
            (if nwr > sa then (a, sa + deci_normalize D (drop sa (take nwr (words a))))
             else (a\<lparr>words := take nwr (words a) @ deci_zero_out_n D (sa - nwr) @ drop sa (words a)\<rparr>, sa)) in
      if sa \<ge> ntp_scale p then do {
        a \<leftarrow> unsafe_strip D a (new_nwa - sa + ntp_scale p) (ntp_scale p);
        Some (if ntp_scale p \<noteq> 0
              then a\<lparr>words := (words a)[0 := words a ! 0 - words a ! 0 mod submod p]\<rparr>
              else a)
      } else unsafe_strip D a new_nwa sa)"

definition unsafe_normalize_after_idiv :: "deci \<Rightarrow> number \<Rightarrow> nat \<Rightarrow> number option" where
  "unsafe_normalize_after_idiv D a nwr =
     (let new_nwa = deci_normalize D (take nwr (words a)) in
      unsafe_strip D a new_nwa 0)"

section \<open>Unshared copies\<close>

definition mkuniq :: "deci \<Rightarrow> number \<Rightarrow> number option" where
  "mkuniq D a =
     (if nrefs a = 1 then Some a
      else do {
        r \<leftarrow> allocate D (sign a) (nwords a) (scale a);
        Some (r\<lparr>words := deci_memcpy D (words a)\<rparr>)
      })"

definition mkuniq_scale_down :: "deci \<Rightarrow> number \<Rightarrow> nat \<Rightarrow> number option" where
  "mkuniq_scale_down D a sr =
     (if nrefs a = 1 \<and> scale a = sr then Some a
      else
        let nintpart = nwords a - scale a; nwr = nintpart + sr in
        do {
          r \<leftarrow> allocate D (sign a) nwr sr;
          Some (r\<lparr>words := deci_memcpy D (take nwr (drop (nwords a - nwr) (words a)))\<rparr>)
        })"

definition mkuniq_scale_up :: "deci \<Rightarrow> number \<Rightarrow> nat \<Rightarrow> number option" where
  "mkuniq_scale_up D a sr =
     (if nrefs a = 1 \<and> scale a = sr then Some a
      else
        let nintpart = nwords a - scale a; nwr = uu_add_zu_or_saturate nintpart sr in
        do {
          r \<leftarrow> allocate D (sign a) nwr sr;
          let d = sr - scale a;
          Some (r\<lparr>words := deci_zero_out_n D d @ deci_memcpy D (words a)\<rparr>)
        })"

definition mkuniq_extend :: "deci \<Rightarrow> number \<Rightarrow> nat \<Rightarrow> number option" where
  "mkuniq_extend D a new_nwords =
     (let nwa = nwords a in
      if nrefs a = 1 then
        (if nwa \<noteq> new_nwords then do {
           a \<leftarrow> unsafe_reallocate D a new_nwords;
           Some (a\<lparr>words := take nwa (words a) @ deci_zero_out_n D (new_nwords - nwa)\<rparr>)
         } else Some a)
      else do {
        r \<leftarrow> allocate D (sign a) new_nwords (scale a);
        Some (r\<lparr>words := deci_memcpy D (words a) @ deci_zero_out_n D (new_nwords - nwa)\<rparr>)
      })"

section \<open>Well-formed numbers and what they stand for\<close>

definition fits :: "deci \<Rightarrow> nat \<Rightarrow> bool" where
  "fits D n \<longleftrightarrow> n * SIZEOF_UWORD D + SIZEOF_NUMBER \<le> SIZE_MAX"

text \<open>The invariant stated in \<open>number.h\<close>, and that the words are words and are in memory.\<close>

definition num_ok :: "deci \<Rightarrow> number \<Rightarrow> bool" where
  "num_ok D a \<longleftrightarrow> words_ok (DECI_BASE D) (words a) \<and> scale a \<le> nwords a \<and>
     normalized (drop (scale a) (words a)) \<and> fits D (nwords a)"

definition num_abs :: "deci \<Rightarrow> number \<Rightarrow> rat" where
  "num_abs D a = of_nat (wval (DECI_BASE D) (words a)) / of_nat (DECI_BASE D) ^ scale a"

definition num_val :: "deci \<Rightarrow> number \<Rightarrow> rat" where
  "num_val D a = (if sign a then - num_abs D a else num_abs D a)"

lemma fits_mono: "fits D n \<Longrightarrow> m \<le> n \<Longrightarrow> fits D m"
  unfolding fits_def by (meson add_le_mono1 le_trans mult_le_mono1)

lemma fits_less_zu:
  assumes "deci_ok D" and "fits D n"
  shows "n < SIZE_MAX"
proof -
  have "n * 1 \<le> n * SIZEOF_UWORD D"
    by (rule mult_le_mono2) (use deci_ok_config(3) [OF assms(1)] in simp)
  with assms(2) show ?thesis
    unfolding fits_def SIZEOF_NUMBER_def by linarith
qed

lemma num_okD:
  assumes "num_ok D a"
  shows "words_ok (DECI_BASE D) (words a)" and "scale a \<le> nwords a"
    and "normalized (drop (scale a) (words a))" and "fits D (nwords a)"
  using assms by (simp_all add: num_ok_def)

lemma num_abs_nonneg [simp]: "0 \<le> num_abs D a"
  by (simp add: num_abs_def)

lemma num_abs_not_neg [simp]: "\<not> num_abs D a < 0"
  by (simp add: not_less)

lemma num_abs_eq_0: "num_abs D a = 0 \<longleftrightarrow> wval (DECI_BASE D) (words a) = 0"
  by (simp add: num_abs_def)

lemma num_val_eq_0: "num_val D a = 0 \<longleftrightarrow> num_abs D a = 0"
  by (simp add: num_val_def)

lemma abs_num_val: "\<bar>num_val D a\<bar> = num_abs D a"
  by (simp add: num_val_def)

lemma num_abs_cong: "words a = words b \<Longrightarrow> scale a = scale b \<Longrightarrow> num_abs D a = num_abs D b"
  by (simp add: num_abs_def)

lemma num_abs_update [simp]:
  "num_abs D (a\<lparr>sign := s\<rparr>) = num_abs D a" "num_abs D (a\<lparr>nrefs := n\<rparr>) = num_abs D a"
  by (simp_all add: num_abs_def)

lemma num_ok_update [simp]:
  "num_ok D (a\<lparr>sign := s\<rparr>) = num_ok D a" "num_ok D (a\<lparr>nrefs := n\<rparr>) = num_ok D a"
  by (simp_all add: num_ok_def)

lemma num_val_update [simp]:
  "num_val D (a\<lparr>nrefs := n\<rparr>) = num_val D a"
  "num_val D (a\<lparr>sign := s\<rparr>) = (if s then - num_abs D a else num_abs D a)"
  by (simp_all add: num_val_def)

text \<open>Zero words below change the scale and not the value; scaling both sides of a comparison.\<close>

lemma num_abs_pad:
  "num_abs D (a\<lparr>words := replicate d 0 @ words a, scale := d + scale a\<rparr>) = num_abs D a"
  by (simp add: num_abs_def wval_append power_add)

lemma num_abs_words_zeros: "num_abs D (a\<lparr>words := words a @ replicate d 0\<rparr>) = num_abs D a"
  by (simp add: num_abs_def wval_append)

section \<open>What the helpers do\<close>

lemma unsafe_reallocate_eq:
  "fits D n \<Longrightarrow> unsafe_reallocate D a n = Some (a\<lparr>words := take n (words a) @ map (uninit D) [nwords a..<n]\<rparr>)"
  by (simp add: unsafe_reallocate_def fits_def)

lemma unsafe_reallocate_shrink:
  "fits D n \<Longrightarrow> n \<le> nwords a \<Longrightarrow> unsafe_reallocate D a n = Some (a\<lparr>words := take n (words a)\<rparr>)"
  by (simp add: unsafe_reallocate_eq)

lemma allocate_eq:
  "fits D n \<Longrightarrow> allocate D neg n sc =
     Some \<lparr>nrefs = 1, sign = neg, scale = sc, words = map (uninit D) [0..<n]\<rparr>"
  by (simp add: allocate_def unsafe_reallocate_eq)

lemma allocate_SIZE_MAX: "deci_ok D \<Longrightarrow> allocate D neg SIZE_MAX sc = None"
  using deci_ok_config(3) [of D]
  by (cases "SIZEOF_UWORD D") (auto simp: allocate_def unsafe_reallocate_def SIZEOF_NUMBER_def)

lemma unsafe_push_word_eq:
  "fits D (Suc (nwords a)) \<Longrightarrow> unsafe_push_word D a w = Some (a\<lparr>words := words a @ [w]\<rparr>)"
  by (simp add: unsafe_push_word_def unsafe_reallocate_eq list_update_append)

lemma unsafe_strip_eq:
  assumes "deci_ok D" and "fits D (nwords a)" and "sr \<le> scale a" and "nwr + (scale a - sr) \<le> nwords a"
  shows "unsafe_strip D a nwr sr =
    Some (a\<lparr>words := take nwr (drop (scale a - sr) (words a)), scale := sr\<rparr>)"
proof -
  have fits: "fits D nwr"
    by (rule fits_mono [OF assms(2)]) (use assms(4) in simp)
  show ?thesis
  proof (cases "scale a = sr")
    case True
    with assms(4) fits show ?thesis
      by (cases "nwords a = nwr") (simp_all add: unsafe_strip_def unsafe_reallocate_shrink)
  next
    case False
    then have "0 < scale a - sr"
      using assms(3) by simp
    let ?b = "a\<lparr>words := take nwr (drop (scale a - sr) (words a)) @ drop nwr (words a), scale := sr\<rparr>"
    have "nwr \<le> nwords ?b"
      using assms(4) by simp
    with fits have "unsafe_reallocate D ?b nwr = Some (?b\<lparr>words := take nwr (words ?b)\<rparr>)"
      by (rule unsafe_reallocate_shrink)
    with False \<open>0 < scale a - sr\<close> assms(4) show ?thesis
      by (simp add: unsafe_strip_def deci_spans_simps [OF assms(1)] min_def)
  qed
qed

lemma unsafe_normalize_full_yields:
  assumes D: "deci_ok D" and a: "words_ok (DECI_BASE D) (words a)" "scale a \<le> nwords a" "fits D (nwords a)"
  shows "yields (unsafe_normalize_full D a)
    (\<lambda>r. num_ok D r \<and> num_abs D r = num_abs D a \<and> sign r = sign a \<and> nrefs r = nrefs a \<and>
       scale r \<le> scale a \<and> nwords r \<le> nwords a)"
proof -
  let ?B = "DECI_BASE D"
  let ?lo = "take (scale a) (words a)" and ?hi = "drop (scale a) (words a)"
  let ?ds = "deci_skip0 D ?lo" and ?n = "deci_normalize D ?hi"
  have ds: "?ds \<le> scale a"
    using deci_skip0_law(1) [OF D, of ?lo] a(2) by simp
  have n: "?n \<le> length ?hi"
    by (rule deci_normalize_law(1) [OF D])
  obtain rest where lo: "?lo = replicate ?ds 0 @ rest" and rest: "drop ?ds ?lo = rest"
    by (rule deci_skip0_split [OF D])
  let ?r = "a\<lparr>words := take (scale a - ?ds + ?n) (drop ?ds (words a)), scale := scale a - ?ds\<rparr>"
  have len: "length rest = scale a - ?ds"
    using rest a(2) by auto
  have "drop ?ds (words a) = rest @ ?hi"
    using rest a(2) ds append_take_drop_id [of "scale a" "words a"]
    by (metis drop_append diff_is_0_eq drop_0 length_take min_absorb2)
  then have words: "words ?r = rest @ take ?n ?hi"
    using len by simp
  have run: "unsafe_normalize_full D a = Some ?r"
    unfolding unsafe_normalize_full_def Let_def
    by (subst unsafe_strip_eq [OF D a(3)]) (use ds n a(2) in \<open>auto simp: Suc_le_eq\<close>)
  have okr: "words_ok ?B (words ?r)"
    using words_ok_take [OF words_ok_drop [OF a(1)]] by simp
  have "wval ?B (words a) = wval ?B ?lo + ?B ^ scale a * wval ?B ?hi"
    using wval_append [of ?B ?lo ?hi] a(2) by (simp add: min_def)
  also have "\<dots> = ?B ^ ?ds * wval ?B (rest @ take ?n ?hi)"
    using deci_normalize_val [OF D, of ?hi] ds arg_cong [OF lo, of "wval ?B"]
    by (simp add: wval_append len distrib_left power_add [symmetric] mult.assoc [symmetric])
  finally have val: "wval ?B (words a) = ?B ^ ?ds * wval ?B (words ?r)"
    unfolding words .
  have "(of_nat ?B :: rat) ^ scale a = of_nat ?B ^ ?ds * of_nat ?B ^ (scale a - ?ds)"
    using ds by (simp add: power_add [symmetric])
  then have abs: "num_abs D ?r = num_abs D a"
    unfolding num_abs_def val by simp
  have "normalized (drop (scale ?r) (words ?r))"
    using deci_normalize_law(3) [OF D, of ?hi] len words by simp
  moreover have "nwords ?r \<le> nwords a"
    by simp
  ultimately have "num_ok D ?r"
    using okr words len fits_mono [OF a(3)] by (auto simp: num_ok_def)
  then show ?thesis
    using run abs by simp
qed

lemma mkuniq_eq:
  "deci_ok D \<Longrightarrow> fits D (nwords a) \<Longrightarrow> mkuniq D a = Some (a\<lparr>nrefs := 1\<rparr>)"
  by (simp add: mkuniq_def allocate_eq deci_spans_simps)

lemma mkuniq_scale_up_eq:
  assumes "deci_ok D" and "scale a \<le> nwords a" and "scale a \<le> sr" and "fits D (nwords a - scale a + sr)"
  shows "mkuniq_scale_up D a sr =
    Some (a\<lparr>nrefs := 1, words := replicate (sr - scale a) 0 @ words a, scale := sr\<rparr>)"
proof -
  have "nwords a - scale a + sr < SIZE_MAX"
    by (rule fits_less_zu [OF assms(1,4)])
  then have "uu_add_zu_or_saturate (nwords a - scale a) sr = nwords a - scale a + sr"
    by (simp add: uu_add_zu_or_saturate_eq)
  with assms show ?thesis
    by (simp add: mkuniq_scale_up_def allocate_eq deci_spans_simps)
qed

lemma mkuniq_scale_down_eq:
  assumes "deci_ok D" and "scale a \<le> nwords a" and "sr \<le> scale a" and "fits D (nwords a)"
  shows "mkuniq_scale_down D a sr =
    Some (a\<lparr>nrefs := 1, words := drop (scale a - sr) (words a), scale := sr\<rparr>)"
proof -
  have "fits D (nwords a - scale a + sr)"
    using assms by (auto intro: fits_mono)
  moreover have "nwords a - (nwords a - scale a + sr) = scale a - sr"
    using assms by simp
  ultimately show ?thesis
    using assms by (simp add: mkuniq_scale_down_def allocate_eq deci_spans_simps)
qed

lemma mkuniq_extend_eq:
  assumes "deci_ok D" and "nwords a \<le> n" and "fits D n"
  shows "mkuniq_extend D a n = Some (a\<lparr>nrefs := 1, words := words a @ replicate (n - nwords a) 0\<rparr>)"
  using assms by (auto simp: mkuniq_extend_def Let_def unsafe_reallocate_eq allocate_eq deci_spans_simps)

section \<open>Conversions\<close>

definition num_int :: "deci \<Rightarrow> number \<Rightarrow> nat" where
  "num_int D a = wval (DECI_BASE D) (drop (scale a) (words a))"

lemma num_abs_split:
  assumes "num_ok D a"
  shows "num_abs D a = of_nat (num_int D a) +
    of_nat (wval (DECI_BASE D) (take (scale a) (words a))) / of_nat (DECI_BASE D) ^ scale a"
proof -
  have "wval (DECI_BASE D) (words a) =
      wval (DECI_BASE D) (take (scale a) (words a)) + DECI_BASE D ^ scale a * num_int D a"
    using wval_take_drop [of "DECI_BASE D" "words a" "scale a"] num_okD(2) [OF assms]
    by (simp add: num_int_def min_def)
  then show ?thesis
    by (simp add: num_abs_def add_divide_distrib)
qed

lemma frac_part_less_1:
  assumes "num_ok D a"
  shows "(of_nat (wval (DECI_BASE D) (take (scale a) (words a))) / of_nat (DECI_BASE D) ^ scale a :: rat) < 1"
proof -
  have "wval (DECI_BASE D) (take (scale a) (words a)) < DECI_BASE D ^ scale a"
    using wval_less [OF words_ok_take [OF num_okD(1) [OF assms]], of "scale a"] num_okD(2) [OF assms]
    by (simp add: min_absorb2)
  then have "(of_nat (wval (DECI_BASE D) (take (scale a) (words a))) :: rat) < of_nat (DECI_BASE D ^ scale a)"
    by (simp only: of_nat_less_iff)
  then show ?thesis by simp
qed

lemma floor_num_abs: "num_ok D a \<Longrightarrow> \<lfloor>num_abs D a\<rfloor> = int (num_int D a)"
  using frac_part_less_1 [of D a] by (intro floor_unique) (auto simp: num_abs_split)

text \<open>\<open>ws\<close> are the digits of \<open>x\<close>, with no leading zero.\<close>

definition digits_of :: "nat \<Rightarrow> nat \<Rightarrow> nat list \<Rightarrow> bool" where
  "digits_of B x ws \<longleftrightarrow> words_ok B ws \<and> normalized ws \<and> wval B ws = x"

lemma digits_of_Cons:
  "1 < B \<Longrightarrow> 0 < x \<Longrightarrow> digits_of B (x div B) ds \<Longrightarrow> digits_of B x (x mod B # ds)"
  by (cases "x div B = 0"; cases ds rule: rev_cases) (auto simp: digits_of_def normalized_def div_eq_0_iff)

lemma digits_of_length:
  assumes "digits_of B x ws" and "x < B ^ k" and "1 < B"
  shows "length ws \<le> k"
proof (cases "ws = []")
  case False
  have "B ^ (length ws - 1) \<le> x"
    using normalized_ge [of ws B] assms(1) False by (simp add: digits_of_def)
  also note assms(2)
  finally have "length ws - 1 < k"
    using assms(3) by (simp add: power_strict_increasing_iff)
  then show ?thesis by simp
qed simp

lemma fill_buf_yields:
  assumes B: "1 < DECI_BASE D" and "length buf \<le> NBUF"
  shows "yields (fill_buf D y buf)
    (\<lambda>r. \<forall>ws. r = Some ws \<longrightarrow> (\<exists>ds. ws = buf @ ds \<and> digits_of (DECI_BASE D) y ds))"
  using assms(2)
proof (induction y arbitrary: buf rule: less_induct)
  case (less y)
  show ?case
  proof (cases "y = 0 \<or> length buf = NBUF \<or> y < DECI_BASE D")
    case True
    then show ?thesis
      by (subst fill_buf.simps) (auto simp: digits_of_def normalized_def)
  next
    case False
    then have "yields (fill_buf D (y div DECI_BASE D) (buf @ [y mod DECI_BASE D]))
      (\<lambda>r. \<forall>ws. r = Some ws \<longrightarrow> (\<exists>ds. ws = (buf @ [y mod DECI_BASE D]) @ ds \<and> digits_of (DECI_BASE D) (y div DECI_BASE D) ds))"
      using B less.prems by (intro less.IH) auto
    then have "yields (fill_buf D (y div DECI_BASE D) (buf @ [y mod DECI_BASE D]))
      (\<lambda>r. \<forall>ws. r = Some ws \<longrightarrow> (\<exists>ds. ws = buf @ ds \<and> digits_of (DECI_BASE D) y ds))"
      by (rule yields_conseq) (use digits_of_Cons [OF B, of y] False in fastforce)
    with False show ?thesis
      by (subst fill_buf.simps) simp
  qed
qed

lemma push_words_yields:
  assumes B: "1 < DECI_BASE D" and "x < DECI_BASE D ^ k" and "fits D (nwords a + k)"
  shows "yields (push_words D x a)
    (\<lambda>r. \<exists>ds. r = a\<lparr>words := words a @ ds\<rparr> \<and> digits_of (DECI_BASE D) x ds)"
  using assms(2,3)
proof (induction k arbitrary: x a)
  case 0
  then show ?case
    by (subst push_words.simps) (auto simp: digits_of_def intro: exI [of _ "[]"])
next
  case (Suc k)
  show ?case
  proof (cases "x = 0")
    case True
    then show ?thesis
      by (subst push_words.simps) (auto simp: digits_of_def intro: exI [of _ "[]"])
  next
    case False
    let ?a = "a\<lparr>words := words a @ [x mod DECI_BASE D]\<rparr>"
    have fits: "fits D (Suc (nwords a))"
      by (rule fits_mono [OF Suc.prems(2)]) simp
    have "yields (push_words D (x div DECI_BASE D) ?a)
      (\<lambda>r. \<exists>ds. r = ?a\<lparr>words := words ?a @ ds\<rparr> \<and> digits_of (DECI_BASE D) (x div DECI_BASE D) ds)"
      using Suc.prems by (intro Suc.IH) (auto simp: less_mult_imp_div_less mult.commute)
    then have "yields (push_words D (x div DECI_BASE D) ?a)
      (\<lambda>r. \<exists>ds. r = a\<lparr>words := words a @ ds\<rparr> \<and> digits_of (DECI_BASE D) x ds)"
      by (rule yields_conseq) (use digits_of_Cons [OF B, of x] False in force)
    with False fits show ?thesis
      by (subst push_words.simps) (simp add: unsafe_push_word_eq)
  qed
qed

text \<open>Seven words of any width hold a \<open>size_t\<close>, and seven words are in memory.\<close>

lemma zu_words:
  assumes "deci_ok D" and "x \<le> SIZE_MAX"
  shows "x < DECI_BASE D ^ 7" and "fits D 7"
proof -
  have "(1000 :: nat) ^ 7 \<le> DECI_BASE D ^ 7"
    by (rule power_mono) (use DECI_BASE_ge [OF assms(1)] in auto)
  with assms(2) show "x < DECI_BASE D ^ 7"
    by (simp add: SIZE_MAX_def)
  show "fits D 7"
    using deci_ok_config(4) [OF assms(1)] by (simp add: fits_def SIZEOF_NUMBER_def SIZE_MAX_def)
qed

lemma number_new_from_zu_yields:
  assumes D: "deci_ok D" and x: "x \<le> SIZE_MAX"
  shows "yields (number_new_from_zu D x)
    (\<lambda>r. num_ok D r \<and> num_val D r = of_nat x \<and> nrefs r = 1 \<and> \<not> sign r \<and> scale r = 0 \<and>
       digits_of (DECI_BASE D) x (words r))"
proof -
  note B = DECI_BASE_gt_1 [OF D]
  have good: "num_ok D r \<and> num_val D r = of_nat x \<and> nrefs r = 1 \<and> \<not> sign r \<and> scale r = 0 \<and>
       digits_of (DECI_BASE D) x (words r)"
    if "r = \<lparr>nrefs = 1, sign = False, scale = 0, words = ds\<rparr>" "digits_of (DECI_BASE D) x ds" for r ds
  proof -
    have "fits D (length ds)"
      using digits_of_length [OF that(2) zu_words(1) [OF D x] B] by (rule fits_mono [OF zu_words(2) [OF D x]])
    with that show ?thesis
      by (simp add: num_ok_def num_val_def num_abs_def digits_of_def)
  qed
  show ?thesis
    unfolding number_new_from_zu_def
  proof (rule yields_bindI [OF fill_buf_yields [OF B, of "[]" x]])
    fix buf
    assume buf: "\<forall>ws. buf = Some ws \<longrightarrow> (\<exists>ds. ws = [] @ ds \<and> digits_of (DECI_BASE D) x ds)"
    let ?P = "\<lambda>r. num_ok D r \<and> num_val D r = of_nat x \<and> nrefs r = 1 \<and> \<not> sign r \<and> scale r = 0 \<and>
       digits_of (DECI_BASE D) x (words r)"
    show "yields (case buf of
          Some buf \<Rightarrow> do { a \<leftarrow> allocate D False (length buf) 0; Some (a\<lparr>words := deci_memcpy D buf\<rparr>) }
        | None \<Rightarrow> do { a \<leftarrow> allocate D False 0 0; push_words D x a }) ?P"
    proof (cases buf)
      case None
      let ?a = "\<lparr>nrefs = 1, sign = False, scale = 0, words = []\<rparr>"
      have "yields (push_words D x ?a) (\<lambda>r. \<exists>ds. r = ?a\<lparr>words := words ?a @ ds\<rparr> \<and> digits_of (DECI_BASE D) x ds)"
        by (rule push_words_yields [OF B zu_words(1) [OF D x]]) (use zu_words(2) [OF D x] in simp)
      then have "yields (push_words D x ?a) ?P"
        by (rule yields_conseq) (use good in auto)
      with None show ?thesis
        using fits_mono [OF zu_words(2) [OF D x], of 0] by (simp add: allocate_eq)
    next
      case (Some ds)
      with buf have ds: "digits_of (DECI_BASE D) x ds" by simp
      then have "fits D (length ds)"
        using digits_of_length [OF ds zu_words(1) [OF D x] B] by (intro fits_mono [OF zu_words(2) [OF D x]])
      with Some ds good [of _ ds] show ?thesis
        by (simp add: allocate_eq deci_spans_simps [OF D])
    qed
  qed simp
qed

lemma zu_of_words_eq:
  "words_ok (DECI_BASE D) ws \<Longrightarrow> r \<le> SIZE_MAX \<Longrightarrow>
   zu_of_words D (rev ws) r = min SIZE_MAX (wval (DECI_BASE D) ws + r * DECI_BASE D ^ length ws)"
proof (induction ws arbitrary: r rule: rev_induct)
  case (snoc w ws)
  let ?B = "DECI_BASE D"
  let ?s = "r * ?B + w"
  have pow: "1 \<le> ?B ^ length ws" by (simp add: Suc_le_eq)
  have total: "wval ?B (ws @ [w]) + r * ?B ^ length (ws @ [w]) = wval ?B ws + ?s * ?B ^ length ws"
    by (simp add: wval_append algebra_simps)
  show ?case
  proof (cases "?s \<le> SIZE_MAX")
    case True
    then have "r * ?B \<le> SIZE_MAX" by simp
    with True snoc show ?thesis
      unfolding total by simp
  next
    case False
    have "?s * 1 \<le> ?s * ?B ^ length ws"
      using pow by (rule mult_le_mono2)
    then have "?s \<le> ?s * ?B ^ length ws"
      by (simp only: mult_1_right)
    with False have "SIZE_MAX \<le> wval ?B ws + ?s * ?B ^ length ws"
      by (meson le_trans nat_le_linear trans_le_add2)
    with False show ?thesis
      unfolding total by simp
  qed
qed simp

lemma number_is_zero_iff:
  assumes D: "deci_ok D" and a: "num_ok D a"
  shows "number_is_zero D a \<longleftrightarrow> num_val D a = 0"
proof -
  have "wval (DECI_BASE D) (words a) = 0 \<longleftrightarrow> scale a = nwords a \<and> wval (DECI_BASE D) (take (scale a) (words a)) = 0"
    using wval_take_drop [of "DECI_BASE D" "words a" "scale a"] num_okD(2,3) [OF a]
      normalized_0_iff [OF num_okD(3) [OF a], of "DECI_BASE D"]
    by (auto simp: min_def)
  then show ?thesis
    by (simp add: number_is_zero_def deci_is_zero_n_iff [OF D] num_val_eq_0 num_abs_eq_0)
qed

lemma number_is_fzero_iff:
  assumes D: "deci_ok D" and a: "num_ok D a"
  shows "number_is_fzero D a \<longleftrightarrow> num_abs D a = of_nat (num_int D a)"
  by (simp add: number_is_fzero_def deci_is_zero_n_iff [OF D] num_abs_split [OF a])

lemma number_to_zu_eq:
  assumes D: "deci_ok D" and a: "num_ok D a"
  shows "number_to_zu D a =
    (if sign a then (if num_val D a = 0 then 0 else SIZE_MAX) else min SIZE_MAX (num_int D a))"
  using zu_of_words_eq [OF words_ok_drop [OF num_okD(1) [OF a]], of 0 "scale a"]
  by (simp add: number_to_zu_def number_is_zero_iff [OF D a] num_int_def)

lemma u32_of_words_eq:
  "u32_of_words D (rev ws) r = of_nat (wval (DECI_BASE D) ws) + r * of_nat (DECI_BASE D) ^ length ws"
  by (induction ws arbitrary: r rule: rev_induct) (simp_all add: wval_append algebra_simps)

lemma number_to_u32_eq:
  "number_to_u32 D a = (if sign a then - of_nat (num_int D a) else of_nat (num_int D a))"
  using u32_of_words_eq [of D "drop (scale a) (words a)" 0]
  by (simp add: number_to_u32_def num_int_def)

end
