(* ===== verification/Fancy.thy ===== *)
theory Fancy
  imports Deci Deci_Reference
begin

text \<open>
  \<open>fancy.c\<close>: products and divisions of spans, dispatched by size to the schoolbook algorithms of
  libdeci or to the asymptotically fast ones of its companions, and the callback through which the
  fast division multiplies.

  Scratch areas, whose sizes the companions compute, are not modelled. Whether two factors are the
  same span in memory is an argument, because it selects the squaring.
\<close>

definition MUL_BASECASE_CUTOFF :: nat where
  "MUL_BASECASE_CUTOFF = 30"

definition MUL_KARATSUBA_CUTOFF :: nat where
  "MUL_KARATSUBA_CUTOFF = 75"

definition DIV_BASECASE_CUTOFF :: nat where
  "DIV_BASECASE_CUTOFF = 75"

text \<open>\<open>same\<close> is \<open>wa == wb\<close>. The result is what \<open>out\<close> holds, all \<open>nwa + nwb\<close> words of it.\<close>

definition fancy_mul :: "deci \<Rightarrow> bool \<Rightarrow> nat list \<Rightarrow> nat list \<Rightarrow> nat list" where
  "fancy_mul D same wa wb =
     (let nwa = length wa; nwb = length wb;
          min_n = (if nwa < nwb then nwa else nwb) in
      if min_n < MUL_BASECASE_CUTOFF then
        (let out = deci_zero_out_n D (nwa + nwb) in deci_mul D wa wb out)
      else if min_n < MUL_KARATSUBA_CUTOFF then
        decikara_mul D wa wb MUL_BASECASE_CUTOFF
      else
        if same \<and> nwa = nwb then decintt_sqr D wa else decintt_mul D wa wb)"

text \<open>When the output is to overwrite a factor, the factor is copied first, and is no longer the other one.\<close>

definition mul_callback :: "deci \<Rightarrow> mul_fn" where
  "mul_callback D same alias wa wb =
     (case alias of
        Out_is_a \<Rightarrow> (let wa_copy = wa in fancy_mul D False wa_copy wb)
      | Out_is_b \<Rightarrow> (let wb_copy = wb in fancy_mul D False wa wb_copy)
      | Out_fresh \<Rightarrow> fancy_mul D same wa wb)"

text \<open>The new contents of \<open>wa\<close> and the number of words of the result at its beginning.\<close>

definition quotient_or_remainder :: "deci \<Rightarrow> nat list \<Rightarrow> nat list \<Rightarrow> bool \<Rightarrow> (nat list \<times> nat) option" where
  "quotient_or_remainder D wa wb quot =
     (let nwa = deci_normalize D wa;
          nwb = deci_normalize D wb;
          wa_rest = drop nwa wa;
          wa = take nwa wa;
          wb = take nwb wb;
          basecase = (let (r, n) = (if quot then deci_div D wa wb else deci_mod D wa wb) in
                      (r @ wa_rest, n)) in
      if nwa < nwb then Some basecase
      else
        let ndelta = nwa - nwb + 1;
            min_n = (if ndelta < nwb then ndelta else nwb) in
        if min_n < DIV_BASECASE_CUTOFF then Some basecase
        else if nwb < DECINEWT_MIN D then Some basecase
        else
          let (r, scratch) = decinewt_div D wa wb (mul_callback D) in
          if r < 0 then None
          else if quot then
            Some (deci_memcpy D (take ndelta (drop (nwa + 1) scratch)) @ drop ndelta wa @ wa_rest, ndelta)
          else
            let (wa, _) = deci_sub_raw D wa (take nwa scratch) in
            Some (wa @ wa_rest, nwa))"

definition fancy_div :: "deci \<Rightarrow> nat list \<Rightarrow> nat list \<Rightarrow> (nat list \<times> nat) option" where
  "fancy_div D wa wb = quotient_or_remainder D wa wb True"

definition fancy_mod :: "deci \<Rightarrow> nat list \<Rightarrow> nat list \<Rightarrow> (nat list \<times> nat) option" where
  "fancy_mod D wa wb = quotient_or_remainder D wa wb False"

section \<open>Products\<close>

lemma fancy_mul_product:
  assumes "deci_ok D" and "words_ok (DECI_BASE D) wa" and "words_ok (DECI_BASE D) wb" and "same \<Longrightarrow> wa = wb"
  shows "product_of (DECI_BASE D) wa wb (fancy_mul D same wa wb)"
proof -
  let ?n = "if length wa < length wb then length wa else length wb"
  have ne: "wa \<noteq> [] \<and> wb \<noteq> []" if "\<not> ?n < MUL_BASECASE_CUTOFF"
    using that by (cases wa; cases wb) (simp_all add: MUL_BASECASE_CUTOFF_def)
  note prod = deci_products [OF assms(1-3)]
  show ?thesis
  proof (cases "?n < MUL_BASECASE_CUTOFF")
    case True
    then show ?thesis
      using prod(1) by (simp add: fancy_mul_def Let_def deci_spans_simps [OF assms(1)])
  next
    case False
    with ne prod(2) [where cutoff = MUL_BASECASE_CUTOFF] prod(3,4) assms(4) show ?thesis
      by (simp add: fancy_mul_def Let_def del: if_split) (auto split: if_split)
  qed
qed

lemma mul_callback_ok: "deci_ok D \<Longrightarrow> mul_fn_ok (DECI_BASE D) (mul_callback D)"
  by (auto simp: mul_fn_ok_def mul_callback_def Let_def fancy_mul_product split: out_alias.splits)

section \<open>Quotients and remainders\<close>

text \<open>Padding the divided span with what was above its normalised part changes nothing.\<close>

lemma result_at_append:
  assumes "result_at B (take k wa) v (r, n)" and "k \<le> length wa"
  shows "result_at B wa v (r @ drop k wa, n)"
  using assms by (auto simp: result_at_def min_def)

lemma quotient_words:
  assumes "words_ok B s" and "length s = n" and "n \<le> length wa" and "wval B s = v"
  shows "result_at B wa v (s @ drop n wa, n)"
  using assms by (simp add: result_at_def)

definition division_result :: "bool \<Rightarrow> nat \<Rightarrow> nat \<Rightarrow> nat" where
  "division_result quot a b = (if quot then a div b else a mod b)"

lemma newton_branch:
  assumes ok: "deci_ok D" and wa: "words_ok (DECI_BASE D) wa" and wb: "words_ok (DECI_BASE D) wb"
    and norm: "normalized wa" "normalized wb" and ne: "wb \<noteq> []"
    and len: "DECINEWT_MIN D \<le> length wb" "length wb \<le> length wa"
  shows "yields (let (r, scratch) = decinewt_div D wa wb (mul_callback D) in
      if r < 0 then None
      else if quot then
        Some (deci_memcpy D (take (length wa - length wb + 1) (drop (length wa + 1) scratch)) @
              drop (length wa - length wb + 1) wa, length wa - length wb + 1)
      else let (w, _) = deci_sub_raw D wa (take (length wa) scratch) in Some (w, length wa))
    (result_at (DECI_BASE D) wa
       (division_result quot (wval (DECI_BASE D) wa) (wval (DECI_BASE D) wb)))"
proof -
  let ?B = "DECI_BASE D" and ?d = "length wa - length wb + 1"
  let ?a = "wval ?B wa" and ?b = "wval ?B wb"
  obtain c s where newt: "decinewt_div D wa wb (mul_callback D) = (c, s)" "0 \<le> c"
    and s: "words_ok ?B (take (length wa) s)" "words_ok ?B (drop (length wa + 1) s)"
      "length wa + 1 + ?d \<le> length s"
      "wval ?B (take (length wa) s) = ?a div ?b * ?b"
      "wval ?B (take ?d (drop (length wa + 1) s)) = ?a div ?b"
    by (rule decinewt_div_law [OF ok wa wb norm ne mul_callback_ok [OF ok] len])
  show ?thesis
  proof (cases quot)
    case True
    have "?d \<le> length wa"
      using ne len by (cases wb) auto
    moreover have "words_ok ?B (take ?d (drop (length wa + 1) s))"
      by (rule words_ok_take [OF s(2)])
    ultimately have "result_at ?B wa (?a div ?b) (take ?d (drop (length wa + 1) s) @ drop ?d wa, ?d)"
      using s(3,5) by (intro quotient_words) simp_all
    with newt True show ?thesis
      by (simp add: deci_spans_simps [OF ok] division_result_def)
  next
    case False
    obtain r e where sub: "deci_sub_raw D wa (take (length wa) s) = (r, e)" "words_ok ?B r" "length r = length wa"
      "wval ?B r + wval ?B (take (length wa) s) = ?a + (if e then ?B ^ length wa else 0)"
      by (rule deci_sub_raw_law [OF ok wa s(1)]) simp
    have lt: "?a < ?B ^ length wa" "wval ?B r < ?B ^ length wa"
      using wval_less [OF wa] wval_less [OF sub(2)] sub(3) by simp_all
    have le: "?a div ?b * ?b \<le> ?a"
      by (rule div_times_less_eq_dividend)
    have "wval ?B r = ?a - ?a div ?b * ?b"
    proof (cases e)
      case True
      with sub(4) s(4) le lt(2) show ?thesis
        by (simp only: if_True)
    next
      case False
      with sub(4) s(4) show ?thesis by simp
    qed
    then have "wval ?B r = ?a mod ?b"
      by (simp add: minus_div_mult_eq_mod)
    with newt False sub show ?thesis
      by (simp add: result_at_def division_result_def)
  qed
qed

lemma quotient_or_remainder_yields:
  assumes ok: "deci_ok D" and wa: "words_ok (DECI_BASE D) wa" and wb: "words_ok (DECI_BASE D) wb"
    and nz: "wval (DECI_BASE D) wb \<noteq> 0"
  shows "yields (quotient_or_remainder D wa wb quot)
    (result_at (DECI_BASE D) wa
       (division_result quot (wval (DECI_BASE D) wa) (wval (DECI_BASE D) wb)))"
proof -
  let ?B = "DECI_BASE D" and ?na = "deci_normalize D wa" and ?nb = "deci_normalize D wb"
  let ?a = "take ?na wa" and ?b = "take ?nb wb"
  have a: "words_ok ?B ?a" "normalized ?a" "wval ?B ?a = wval ?B wa" "?na \<le> length wa"
    and b: "words_ok ?B ?b" "normalized ?b" "wval ?B ?b = wval ?B wb" "?nb \<le> length wb"
    using wa wb deci_normalize_law [OF ok] deci_normalize_val [OF ok] by (auto intro: words_ok_take)
  have ne: "?b \<noteq> []"
    using nz b(3) by (metis wval.simps(1))
  let ?v = "division_result quot (wval ?B wa) (wval ?B wb)"
  have base: "result_at ?B wa ?v (let (r, n) = (if quot then deci_div D ?a ?b else deci_mod D ?a ?b)
      in (r @ drop ?na wa, n))"
    using deci_division [OF ok a(1) b(1,2) ne] a(3,4) b(3)
    by (auto simp: division_result_def split: prod.splits intro: result_at_append)
  let ?newt = "let (r, scratch) = decinewt_div D ?a ?b (mul_callback D) in
      if r < 0 then None
      else if quot then
        Some (deci_memcpy D (take (?na - ?nb + 1) (drop (?na + 1) scratch)) @
              drop (?na - ?nb + 1) ?a @ drop ?na wa, ?na - ?nb + 1)
      else let (w, _) = deci_sub_raw D ?a (take ?na scratch) in Some (w @ drop ?na wa, ?na)"
  have newt: "yields ?newt (result_at ?B wa ?v)" if "\<not> ?na < ?nb" "\<not> ?nb < DECINEWT_MIN D"
  proof -
    have len: "length ?a = ?na" "length ?b = ?nb"
      using a(4) b(4) by simp_all
    have "DECINEWT_MIN D \<le> length ?b" "length ?b \<le> length ?a"
      unfolding len using that by simp_all
    from newton_branch [OF ok a(1) b(1) a(2) b(2) ne this, of quot]
    have "yields (map_option (\<lambda>(r, n). (r @ drop ?na wa, n)) (let (r, scratch) = decinewt_div D ?a ?b (mul_callback D) in
      if r < 0 then None
      else if quot then
        Some (deci_memcpy D (take (?na - ?nb + 1) (drop (?na + 1) scratch)) @ drop (?na - ?nb + 1) ?a, ?na - ?nb + 1)
      else let (w, _) = deci_sub_raw D ?a (take ?na scratch) in Some (w, ?na))) (result_at ?B wa ?v)"
      unfolding len a(3) b(3) yields_map
      by (rule yields_conseq) (auto intro: result_at_append [OF _ a(4)])
    also have "map_option (\<lambda>(r, n). (r @ drop ?na wa, n)) (let (r, scratch) = decinewt_div D ?a ?b (mul_callback D) in
      if r < 0 then None
      else if quot then
        Some (deci_memcpy D (take (?na - ?nb + 1) (drop (?na + 1) scratch)) @ drop (?na - ?nb + 1) ?a, ?na - ?nb + 1)
      else let (w, _) = deci_sub_raw D ?a (take ?na scratch) in Some (w, ?na)) = ?newt"
      by (simp add: Let_def split: prod.splits)
    finally show ?thesis .
  qed
  have "quotient_or_remainder D wa wb quot =
    (let basecase = (let (r, n) = (if quot then deci_div D ?a ?b else deci_mod D ?a ?b) in (r @ drop ?na wa, n)) in
     if ?na < ?nb then Some basecase
     else if (if ?na - ?nb + 1 < ?nb then ?na - ?nb + 1 else ?nb) < DIV_BASECASE_CUTOFF then Some basecase
     else if ?nb < DECINEWT_MIN D then Some basecase
     else ?newt)"
    unfolding quotient_or_remainder_def Let_def ..
  then show ?thesis
    using base newt unfolding Let_def by (simp only: yields_if yields_Some) blast
qed

lemma fancy_div_yields:
  assumes "deci_ok D" and "words_ok (DECI_BASE D) wa" and "words_ok (DECI_BASE D) wb" and "wval (DECI_BASE D) wb \<noteq> 0"
  shows "yields (fancy_div D wa wb) (result_at (DECI_BASE D) wa (wval (DECI_BASE D) wa div wval (DECI_BASE D) wb))"
  using quotient_or_remainder_yields [OF assms, of True] by (simp add: fancy_div_def division_result_def)

lemma fancy_mod_yields:
  assumes "deci_ok D" and "words_ok (DECI_BASE D) wa" and "words_ok (DECI_BASE D) wb" and "wval (DECI_BASE D) wb \<noteq> 0"
  shows "yields (fancy_mod D wa wb) (result_at (DECI_BASE D) wa (wval (DECI_BASE D) wa mod wval (DECI_BASE D) wb))"
  using quotient_or_remainder_yields [OF assms, of False] by (simp add: fancy_mod_def division_result_def)

section \<open>Properties\<close>

text \<open>
  Whatever algorithm the sizes select (schoolbook, Karatsuba, transform, or the squaring when
  both factors are one span), \<open>fancy_mul\<close> writes all the words of the product and nothing else.
\<close>

theorem fancy_mul_exact:
  assumes "deci_ok D" and "words_ok (DECI_BASE D) wa" and "words_ok (DECI_BASE D) wb" and "same \<longrightarrow> wa = wb"
  shows "wval (DECI_BASE D) (fancy_mul D same wa wb) = wval (DECI_BASE D) wa * wval (DECI_BASE D) wb \<and>
    length (fancy_mul D same wa wb) = length wa + length wb \<and>
    words_ok (DECI_BASE D) (fancy_mul D same wa wb)"
  using fancy_mul_product [OF assms(1-3), of same] assms(4) by (simp add: product_of_def)

theorem fancy_mul_exact_witness:
  "wval ref_base (fancy_mul deci_ref True [5, 999] [5, 999]) = 999005 * 999005"
  using fancy_mul_exact [OF deci_ref_ok, of "[5, 999]" "[5, 999]" True] by (simp add: ref_base_def)

text \<open>
  Division with remainder. For a non-zero divisor, with or without leading zero words,
  \<open>fancy_div\<close> and \<open>fancy_mod\<close> return and leave in the words they report the quotient and the
  remainder of Euclidean division, by either the schoolbook or the Newton branch.
\<close>

theorem fancy_division:
  assumes "deci_ok D" and "words_ok (DECI_BASE D) wa" and "words_ok (DECI_BASE D) wb"
    and "wval (DECI_BASE D) wb \<noteq> 0"
  shows "yields (do { (q, nq) \<leftarrow> fancy_div D wa wb; (r, nr) \<leftarrow> fancy_mod D wa wb; Some (q, nq, r, nr) })
    (\<lambda>(q, nq, r, nr). length q = length wa \<and> nq \<le> length wa \<and> length r = length wa \<and> nr \<le> length wa \<and>
       words_ok (DECI_BASE D) (take nq q) \<and> words_ok (DECI_BASE D) (take nr r) \<and>
       wval (DECI_BASE D) (take nr r) < wval (DECI_BASE D) wb \<and>
       wval (DECI_BASE D) wa =
         wval (DECI_BASE D) (take nq q) * wval (DECI_BASE D) wb + wval (DECI_BASE D) (take nr r))"
proof -
  obtain q nq r nr where "fancy_div D wa wb = Some (q, nq)" "fancy_mod D wa wb = Some (r, nr)"
    "result_at (DECI_BASE D) wa (wval (DECI_BASE D) wa div wval (DECI_BASE D) wb) (q, nq)"
    "result_at (DECI_BASE D) wa (wval (DECI_BASE D) wa mod wval (DECI_BASE D) wb) (r, nr)"
    using fancy_div_yields [OF assms] fancy_mod_yields [OF assms] by (auto simp: yields_iff_ex)
  with assms(4) show ?thesis
    by (simp add: result_at_def div_mult_mod_eq)
qed

theorem fancy_division_witness:
  "yields (do { (q, nq) \<leftarrow> fancy_div deci_ref [7, 0, 1] [10, 0]; (r, nr) \<leftarrow> fancy_mod deci_ref [7, 0, 1] [10, 0];
                Some (q, nq, r, nr) })
    (\<lambda>(q, nq, r, nr). wval ref_base (take nr r) < 10 \<and>
       1000007 = wval ref_base (take nq q) * 10 + wval ref_base (take nr r))"
  by (rule yields_conseq, rule fancy_division [OF deci_ref_ok]) (auto simp: ref_base_def)

end
