(* ===== verification/Number_Arith.thy ===== *)
theory Number_Arith
  imports Number Fancy
begin

text \<open>
  Addition, subtraction, multiplication and powers of the numbers of \<open>number.c\<close>.
\<close>

section \<open>Addition and subtraction\<close>

text \<open>
  The first half of \<open>do_add_or_sub\<close>, after the exchange of the operands: \<open>a\<close>, which has no fewer
  words than \<open>b\<close>, is made unshared and widened so that it covers the words of \<open>b\<close> on both sides. The
  C function updates its local copies of \<open>nwa\<close> and \<open>sa\<close> along with it.
\<close>

definition add_sub_align :: "deci \<Rightarrow> number \<Rightarrow> number \<Rightarrow> number option" where
  "add_sub_align D a b =
     (let sa = scale a; sb = scale b; ninta = nwords a - sa; nintb = nwords b - sb in
      if ninta < nintb then mkuniq_extend D a (sa + nintb)
      else if sa < sb then mkuniq_scale_up D a sb
      else mkuniq D a)"

text \<open>The second half: the words of \<open>b\<close> are added to, or subtracted from, those of \<open>a\<close> at their offset.\<close>

definition add_sub_words :: "deci \<Rightarrow> number \<Rightarrow> number \<Rightarrow> bool \<Rightarrow> bool \<Rightarrow> number option" where
  "add_sub_words D a b add negate_result =
     (let nwa = nwords a; sa = scale a; off = sa - scale b;
          lo = take off (words a); hi = drop off (words a) in
      do {
        (a, negate_result) \<leftarrow>
          (if (sign a \<noteq> sign b) \<noteq> add then
             (let (r, carry) = deci_add D hi (words b); a = a\<lparr>words := lo @ r\<rparr> in
              do {
                a \<leftarrow> (if carry then unsafe_push_word D a 1 else Some a);
                Some (a, negate_result)
              })
           else
             (let (r, borrow) = deci_sub_raw D hi (words b);
                  (ws, negate_result) = (if borrow then (deci_uncomplement D (lo @ r), \<not> negate_result)
                                         else (lo @ r, negate_result));
                  a = a\<lparr>words := ws\<rparr> in
              do {
                a \<leftarrow> (if nwa \<noteq> sa \<and> ws ! (nwa - 1) = 0
                     then unsafe_reallocate D a (sa + deci_normalize D (drop sa ws)) else Some a);
                Some (a, negate_result)
              }));
        Some (a\<lparr>sign := (sign a \<noteq> negate_result)\<rparr>)
      })"

definition do_add_or_sub :: "deci \<Rightarrow> number \<Rightarrow> number \<Rightarrow> bool \<Rightarrow> number option" where
  "do_add_or_sub D a b add =
     (let (a, b, negate_result) =
            (if nwords a < nwords b \<or> (nwords a = nwords b \<and> nrefs b = 1) then (b, a, \<not> add)
             else (a, b, False)) in
      do {
        a \<leftarrow> add_sub_align D a b;
        add_sub_words D a b add negate_result
      })"

definition number_add :: "deci \<Rightarrow> number \<Rightarrow> number \<Rightarrow> number option" where
  "number_add D a b = do_add_or_sub D a b True"

definition number_sub :: "deci \<Rightarrow> number \<Rightarrow> number \<Rightarrow> number option" where
  "number_sub D a b = do_add_or_sub D a b False"

text \<open>The words a sum may need: the larger of both parts and a carry.\<close>

definition sum_words :: "number \<Rightarrow> number \<Rightarrow> nat" where
  "sum_words a b = max (scale a) (scale b) + max (nwords a - scale a) (nwords b - scale b) + 1"

lemma sum_words_commute: "sum_words a b = sum_words b a"
  by (simp add: sum_words_def max.commute)

text \<open>What alignment establishes.\<close>

definition aligned :: "deci \<Rightarrow> number \<Rightarrow> number \<Rightarrow> bool" where
  "aligned D a b \<longleftrightarrow> words_ok (DECI_BASE D) (words a) \<and> scale b \<le> scale a \<and> scale a \<le> nwords a \<and>
     nwords b - scale b \<le> nwords a - scale a \<and>
     (normalized (drop (scale a) (words a)) \<or> nwords b - scale b = nwords a - scale a)"

lemma add_sub_align_yields:
  assumes D: "deci_ok D" and a: "num_ok D a" and b: "num_ok D b" and len: "nwords b \<le> nwords a"
    and fits: "fits D (sum_words a b)"
  shows "yields (add_sub_align D a b) (\<lambda>r. aligned D r b \<and> num_abs D r = num_abs D a \<and>
     sign r = sign a \<and> nrefs r = 1 \<and> nwords r < sum_words a b)"
proof -
  note a' = num_okD [OF a] and b' = num_okD [OF b]
  let ?ia = "nwords a - scale a" and ?ib = "nwords b - scale b"
  consider "?ia < ?ib" | "?ib \<le> ?ia" "scale a < scale b" | "?ib \<le> ?ia" "scale b \<le> scale a"
    by linarith
  then show ?thesis
  proof cases
    case 1
    have "nwords a \<le> scale a + ?ib" and sum: "scale a + ?ib < sum_words a b"
      using 1 by (auto simp: sum_words_def)
    then have "mkuniq_extend D a (scale a + ?ib) =
        Some (a\<lparr>nrefs := 1, words := words a @ replicate (scale a + ?ib - nwords a) 0\<rparr>)"
      using fits by (intro mkuniq_extend_eq [OF D]) (auto intro: fits_mono)
    then show ?thesis
      using 1 a' b' len sum num_abs_words_zeros [where D = D and a = a]
      by (auto simp: add_sub_align_def Let_def aligned_def num_abs_def)
  next
    case 2
    have sum: "?ia + scale b < sum_words a b"
      using 2 by (auto simp: sum_words_def)
    then have "mkuniq_scale_up D a (scale b) =
        Some (a\<lparr>nrefs := 1, words := replicate (scale b - scale a) 0 @ words a, scale := scale b\<rparr>)"
      using 2 a' fits by (intro mkuniq_scale_up_eq [OF D]) (auto intro: fits_mono)
    then show ?thesis
      using 2 a' b' len sum num_abs_pad [where D = D and a = a and d = "scale b - scale a"]
      by (auto simp: add_sub_align_def Let_def aligned_def num_abs_def)
  next
    case 3
    have "nwords a < sum_words a b"
      using 3 a'(2) by (auto simp: sum_words_def)
    then show ?thesis
      using 3 a' mkuniq_eq [OF D a'(4)]
      by (simp add: add_sub_align_def Let_def aligned_def)
  qed
qed

text \<open>A span is normalised when its value is at least that of its leading place.\<close>

lemma normalizedI:
  assumes "words_ok B ws" and "B ^ (length ws - 1) \<le> wval B ws" and "0 < B"
  shows "normalized ws"
proof (cases ws rule: rev_cases)
  case (snoc xs w)
  with assms wval_less [of B xs] show ?thesis
    by (cases "w = 0") (auto simp: wval_append)
qed simp

lemma normalized_drop_mono:
  assumes "words_ok B ws" and "sc \<le> length ws" and "0 < B" and "normalized ys"
    and "length ys = length ws - sc" and "wval B ys * B ^ sc \<le> wval B ws"
  shows "normalized (drop sc ws)"
proof (cases "ys = []")
  case False
  have "B ^ (length (drop sc ws) - 1) \<le> wval B ys"
    using normalized_ge [OF assms(4) False, of B] assms(5) by simp
  also have "wval B ys \<le> wval B ws div B ^ sc"
    using assms(3,6) by (simp add: less_eq_div_iff_mult_less_eq)
  finally show ?thesis
    using assms by (intro normalizedI [of B]) (auto simp: wval_drop(1) words_ok_drop)
qed (use assms in auto)

text \<open>The magnitude of \<open>b\<close> in units of the last place of a longer fraction.\<close>

lemma num_abs_at_scale:
  "scale b \<le> s \<Longrightarrow> num_abs D b = of_nat (DECI_BASE D ^ (s - scale b) * wval (DECI_BASE D) (words b)) / of_nat (DECI_BASE D) ^ s"
  by (simp add: num_abs_def power_add [symmetric] field_simps)

text \<open>The two spans that a step of \<open>add_sub_words\<close> works on.\<close>

lemma aligned_spans:
  assumes "aligned D a b" and b: "num_ok D b"
  defines "off \<equiv> scale a - scale b"
  shows "words_ok (DECI_BASE D) (take off (words a))" and "words_ok (DECI_BASE D) (drop off (words a))"
    and "length (take off (words a)) = off" and "nwords b \<le> length (drop off (words a))"
    and "wval (DECI_BASE D) (words a) = wval (DECI_BASE D) (take off (words a)) +
           DECI_BASE D ^ off * wval (DECI_BASE D) (drop off (words a))"
    and "off + length (drop off (words a)) = nwords a"
proof -
  have a: "words_ok (DECI_BASE D) (words a)" "scale b \<le> scale a" "scale a \<le> nwords a"
    "nwords b - scale b \<le> nwords a - scale a"
    using assms(1) by (simp_all add: aligned_def)
  have "off \<le> nwords a" using a by (simp add: off_def)
  then show "length (take off (words a)) = off" "off + length (drop off (words a)) = nwords a"
    by simp_all
  show "words_ok (DECI_BASE D) (take off (words a))" "words_ok (DECI_BASE D) (drop off (words a))"
    using a(1) by (auto intro: words_ok_take words_ok_drop)
  show "nwords b \<le> length (drop off (words a))"
    using a num_okD(2) [OF b] by (simp add: off_def)
  show "wval (DECI_BASE D) (words a) = wval (DECI_BASE D) (take off (words a)) +
      DECI_BASE D ^ off * wval (DECI_BASE D) (drop off (words a))"
    using wval_take_drop [of "DECI_BASE D" "words a" off] \<open>off \<le> nwords a\<close> by (simp add: min_absorb2)
qed

text \<open>The sum of an aligned \<open>a\<close> and \<open>b\<close> has a normalised integer part.\<close>

lemma sum_normalized:
  assumes al: "aligned D a b" and b: "num_ok D b"
    and ws: "words_ok (DECI_BASE D) ws" "length ws = nwords a"
    and val: "wval (DECI_BASE D) ws =
      wval (DECI_BASE D) (words a) + DECI_BASE D ^ (scale a - scale b) * wval (DECI_BASE D) (words b)"
  shows "normalized (drop (scale a) ws)"
proof (cases "normalized (drop (scale a) (words a))")
  case True
  have "wval (DECI_BASE D) (drop (scale a) (words a)) * DECI_BASE D ^ scale a \<le> wval (DECI_BASE D) ws"
    using wval_take_drop [of "DECI_BASE D" "words a" "scale a"] al
    by (simp add: val aligned_def min_absorb2 mult.commute)
  with al ws show ?thesis
    by (intro normalized_drop_mono [of "DECI_BASE D" ws "scale a", OF _ _ _ True]) (auto simp: aligned_def)
next
  case False
  let ?B = "DECI_BASE D" and ?ys = "drop (scale b) (words b)"
  have len: "length ?ys = length ws - scale a" and sc: "scale b \<le> scale a" "scale a \<le> length ws"
    using al False ws(2) by (auto simp: aligned_def)
  have "wval ?B ?ys * ?B ^ scale b \<le> wval ?B (words b)"
    using wval_take_drop [of ?B "words b" "scale b"] num_okD(2) [OF b] by (simp add: min_absorb2 mult.commute)
  then have "?B ^ (scale a - scale b) * (wval ?B ?ys * ?B ^ scale b) \<le> ?B ^ (scale a - scale b) * wval ?B (words b)"
    by (rule mult_le_mono2)
  then have "wval ?B ?ys * ?B ^ scale a \<le> wval ?B ws"
    using sc(1) by (simp add: val mult.left_commute flip: power_add)
  with len sc ws(1) show ?thesis
    by (intro normalized_drop_mono [of ?B ws "scale a", OF _ _ _ num_okD(3) [OF b]]) auto
qed

lemma sum_words_yields:
  assumes D: "deci_ok D" and al: "aligned D a b" and b: "num_ok D b" and fits: "fits D (Suc (nwords a))"
    and branch: "(sign a \<noteq> sign b) \<noteq> add"
  shows "yields (add_sub_words D a b add neg)
    (\<lambda>r. num_ok D r \<and> num_abs D r = num_abs D a + num_abs D b \<and> sign r = (sign a \<noteq> neg) \<and>
       nrefs r = nrefs a \<and> scale r = scale a \<and> nwords r \<le> Suc (nwords a))"
proof -
  let ?B = "DECI_BASE D" and ?off = "scale a - scale b"
  let ?lo = "take ?off (words a)" and ?hi = "drop ?off (words a)"
  note sp = aligned_spans [OF al b] and sc = al [unfolded aligned_def]
  obtain r c where add: "deci_add D ?hi (words b) = (r, c)" and r: "words_ok ?B r" "length r = length ?hi"
    and val: "wval ?B r + (if c then ?B ^ length ?hi else 0) = wval ?B ?hi + wval ?B (words b)"
    by (rule deci_add_law [OF D sp(2) num_okD(1) [OF b] sp(4)])
  let ?ws = "?lo @ r @ (if c then [1] else [])"
  have "wval ?B ?ws = wval ?B ?lo + ?B ^ ?off * (wval ?B r + (if c then ?B ^ length ?hi else 0))"
    using sp(3) r(2) by (simp add: wval_append)
  also have "\<dots> = wval ?B (words a) + ?B ^ ?off * wval ?B (words b)"
    unfolding val sp(5) by (simp add: distrib_left)
  finally have ws: "wval ?B ?ws = wval ?B (words a) + ?B ^ ?off * wval ?B (words b)" .
  have okw: "words_ok ?B ?ws"
    using sp(1) r(1) DECI_BASE_gt_1 [OF D] by simp
  have len: "length ?ws = nwords a + (if c then 1 else 0)"
    using sp(3,6) r(2) by simp
  have norm: "normalized (drop (scale a) ?ws)"
  proof (cases c)
    case True
    have "length (?lo @ r) = nwords a"
      unfolding length_append sp(3) r(2) by (rule sp(6))
    then have "scale a \<le> length (?lo @ r)"
      using sc by simp
    then have "drop (scale a) ?ws = drop (scale a) (?lo @ r) @ [1]"
      using True by simp
    then show ?thesis by simp
  next
    case False
    with okw len ws show ?thesis
      by (intro sum_normalized [OF al b]) simp_all
  qed
  let ?r = "a\<lparr>words := ?ws, sign := (sign a \<noteq> neg)\<rparr>"
  have "add_sub_words D a b add neg = Some ?r"
    using branch fits add len by (auto simp: add_sub_words_def Let_def unsafe_push_word_eq)
  moreover have "num_abs D ?r = num_abs D a + num_abs D b"
    using num_abs_at_scale [of b "scale a" D] sc ws
    by (simp add: num_abs_def add_divide_distrib)
  moreover have "num_ok D ?r"
    using okw norm len fits sc by (auto simp: num_ok_def intro: fits_mono)
  ultimately show ?thesis
    using len by simp
qed

lemma abs_diff_scaled:
  fixes x y :: nat and k :: rat
  assumes "0 < k"
  shows "of_nat (if x < y then y - x else x - y) / k = \<bar>of_nat x / k - of_nat y / k\<bar>"
proof -
  have "of_nat (if x < y then y - x else x - y) = \<bar>of_nat x - of_nat y :: rat\<bar>"
    by (auto simp: of_nat_diff)
  then show ?thesis
    using assms by (simp add: diff_divide_distrib [symmetric] abs_divide)
qed

lemma less_scaled:
  fixes k :: rat
  assumes "0 < k"
  shows "of_nat x / k < of_nat y / k \<longleftrightarrow> x < y"
  using assms by (simp add: divide_less_cancel)

lemma diff_words_yields:
  assumes D: "deci_ok D" and al: "aligned D a b" and b: "num_ok D b" and fits: "fits D (nwords a)"
    and branch: "\<not> ((sign a \<noteq> sign b) \<noteq> add)"
  shows "yields (add_sub_words D a b add neg)
    (\<lambda>r. num_ok D r \<and> num_abs D r = \<bar>num_abs D a - num_abs D b\<bar> \<and>
       sign r = (sign a \<noteq> (neg \<noteq> (num_abs D a < num_abs D b))) \<and>
       nrefs r = nrefs a \<and> scale r = scale a \<and> nwords r \<le> nwords a)"
proof -
  let ?B = "DECI_BASE D" and ?off = "scale a - scale b"
  let ?lo = "take ?off (words a)" and ?hi = "drop ?off (words a)"
  note sp = aligned_spans [OF al b] and sc = al [unfolded aligned_def]
  obtain r c where sub: "deci_sub_raw D ?hi (words b) = (r, c)" and r: "words_ok ?B r" "length r = length ?hi"
    and val: "wval ?B r + wval ?B (words b) = wval ?B ?hi + (if c then ?B ^ length ?hi else 0)"
    by (rule deci_sub_raw_law [OF D sp(2) num_okD(1) [OF b] sp(4)])
  let ?ws = "if c then deci_uncomplement D (?lo @ r) else ?lo @ r"
  let ?va = "wval ?B (words a)" and ?vb = "?B ^ ?off * wval ?B (words b)"
  have "wval ?B (?lo @ r) + ?vb = wval ?B ?lo + ?B ^ ?off * (wval ?B r + wval ?B (words b))"
    using sp(3) by (simp add: wval_append distrib_left)
  also have "\<dots> = ?va + (if c then ?B ^ nwords a else 0)"
    unfolding val sp(5) sp(6) [symmetric] power_add by (simp add: distrib_left)
  finally have raw: "wval ?B (?lo @ r) + ?vb = ?va + (if c then ?B ^ nwords a else 0)" .
  have okr: "words_ok ?B (?lo @ r)" and lenr: "length (?lo @ r) = nwords a"
    using sp(1,3,6) r by simp_all
  have lt: "wval ?B (?lo @ r) < ?B ^ nwords a"
    using wval_less [OF okr] lenr by simp
  have vb: "?vb < ?B ^ nwords a"
  proof -
    have "wval ?B (words b) < ?B ^ length ?hi"
      using wval_less [OF num_okD(1) [OF b]] power_increasing [OF sp(4), of ?B] by (simp add: Suc_le_eq)
    then show ?thesis
      unfolding sp(6) [symmetric] power_add by simp
  qed
  have c_iff: "c \<longleftrightarrow> ?va < ?vb"
    using raw lt by (cases c) auto
  have ws: "words_ok ?B ?ws" "length ?ws = nwords a" "wval ?B ?ws = (if c then ?vb - ?va else ?va - ?vb)"
  proof (atomize (full), cases c)
    case True
    have "wval ?B (?lo @ r) \<noteq> 0"
      using raw True vb by auto
    note unc = deci_uncomplement_law [OF D okr this, unfolded lenr]
    have "wval ?B (deci_uncomplement D (?lo @ r)) = ?vb - ?va"
      using raw [unfolded if_P [OF True]] unc(3) by linarith
    with unc True show "words_ok ?B ?ws \<and> length ?ws = nwords a \<and>
        wval ?B ?ws = (if c then ?vb - ?va else ?va - ?vb)"
      by simp
  next
    case False
    then show "words_ok ?B ?ws \<and> length ?ws = nwords a \<and> wval ?B ?ws = (if c then ?vb - ?va else ?va - ?vb)"
      using raw okr lenr by auto
  qed
  have sa: "scale a \<le> nwords a"
    using sc by blast
  define w where "w = ?ws"
  note w = ws [folded w_def]
  let ?n = "scale a + deci_normalize D (drop (scale a) w)"
  let ?trim = "nwords a \<noteq> scale a \<and> w ! (nwords a - 1) = 0"
  let ?fs = "if ?trim then take ?n w else w"
  have n: "?n \<le> nwords a"
    using deci_normalize_law(1) [OF D, of "drop (scale a) w"] w(2) sa by simp
  have fs: "words_ok ?B ?fs" "wval ?B ?fs = wval ?B w" "scale a \<le> length ?fs" "length ?fs \<le> nwords a"
    "normalized (drop (scale a) ?fs)"
  proof -
    show "words_ok ?B ?fs" using w(1) by (simp add: words_ok_take)
    show "scale a \<le> length ?fs" "length ?fs \<le> nwords a" using n w(2) sc by auto
    have split: "take ?n w = take (scale a) w @ take (deci_normalize D (drop (scale a) w)) (drop (scale a) w)"
      by (rule take_add)
    show "wval ?B ?fs = wval ?B w"
    proof (cases ?trim)
      case True
      have "wval ?B (take ?n w) = wval ?B (take (scale a) w @ drop (scale a) w)"
        unfolding split wval_append deci_normalize_val [OF D] ..
      with True show ?thesis by simp
    next
      case False
      then show ?thesis by (simp only: if_False)
    qed
    show "normalized (drop (scale a) ?fs)"
    proof (cases ?trim)
      case True
      have "drop (scale a) (take ?n w) = take (deci_normalize D (drop (scale a) w)) (drop (scale a) w)"
        unfolding split using w(2) sc by simp
      with True deci_normalize_law(3) [OF D, of "drop (scale a) w"] show ?thesis
        by simp
    next
      case False
      then show ?thesis
        using w(2) sc by (cases "nwords a = scale a") (auto simp: normalized_def last_conv_nth)
    qed
  qed
  define f where "f = ?fs"
  note g = fs [folded f_def]
  let ?r = "a\<lparr>words := f, sign := (sign a \<noteq> (neg \<noteq> c))\<rparr>"
  have borrow: "(if c then (deci_uncomplement D (?lo @ r), \<not> neg) else (?lo @ r, neg)) = (w, neg \<noteq> c)"
    by (simp add: w_def)
  have "add_sub_words D a b add neg = Some ?r"
    using branch fits_mono [OF fits n] w(2) n
    unfolding add_sub_words_def Let_def sub prod.case borrow by (auto simp: unsafe_reallocate_shrink f_def)
  moreover have abs: "num_abs D a = of_nat ?va / of_nat ?B ^ scale a" "num_abs D b = of_nat ?vb / of_nat ?B ^ scale a"
    using num_abs_at_scale [of b "scale a" D] sc by (simp_all add: num_abs_def)
  moreover have "num_abs D ?r = \<bar>num_abs D a - num_abs D b\<bar>"
    unfolding abs by (subst abs_diff_scaled [symmetric]) (simp_all add: num_abs_def g(2) w(3) c_iff)
  moreover have "c \<longleftrightarrow> num_abs D a < num_abs D b"
    unfolding c_iff abs by (rule less_scaled [symmetric]) simp
  moreover have "num_ok D ?r"
    using g fits_mono [OF fits] by (simp add: num_ok_def)
  ultimately show ?thesis
    using g(4) by simp
qed

text \<open>Both branches, as one statement about signed values.\<close>

lemma add_sub_words_value:
  assumes D: "deci_ok D" and al: "aligned D a b" and b: "num_ok D b" and fits: "fits D (Suc (nwords a))"
  shows "yields (add_sub_words D a b add neg)
    (\<lambda>r. num_ok D r \<and> nrefs r = nrefs a \<and> scale r = scale a \<and> nwords r \<le> Suc (nwords a) \<and>
       num_val D r = (if neg then -1 else 1) * (num_val D a + (if add then 1 else -1) * num_val D b))"
proof (cases "(sign a \<noteq> sign b) \<noteq> add")
  case True
  show ?thesis
    by (rule yields_conseq [OF sum_words_yields [OF D al b fits True, of neg]])
      (use True in \<open>auto simp: num_val_def\<close>)
next
  case False
  have "fits D (nwords a)"
    by (rule fits_mono [OF fits]) simp
  from diff_words_yields [OF D al b this False, of neg] show ?thesis
    by (rule yields_conseq) (use False in \<open>auto simp: num_val_def abs_if\<close>)
qed

lemma do_add_or_sub_yields:
  assumes D: "deci_ok D" and a: "num_ok D a" and b: "num_ok D b" and fits: "fits D (sum_words a b)"
  shows "yields (do_add_or_sub D a b add)
    (\<lambda>r. num_ok D r \<and> nrefs r = 1 \<and> nwords r \<le> sum_words a b \<and>
       num_val D r = num_val D a + (if add then 1 else -1) * num_val D b)"
proof -
  have step: "yields (do { r \<leftarrow> add_sub_align D x y; add_sub_words D r y add neg })
      (\<lambda>r. num_ok D r \<and> nrefs r = 1 \<and> nwords r \<le> sum_words x y \<and>
         num_val D r = (if neg then -1 else 1) * (num_val D x + (if add then 1 else -1) * num_val D y))"
    if x: "num_ok D x" and y: "num_ok D y" and len: "nwords y \<le> nwords x" and f: "fits D (sum_words x y)" for x y neg
  proof (rule yields_bindI [OF add_sub_align_yields [OF D x y len f]])
    fix r
    assume r: "aligned D r y \<and> num_abs D r = num_abs D x \<and> sign r = sign x \<and> nrefs r = 1 \<and> nwords r < sum_words x y"
    then have "fits D (Suc (nwords r))"
      by (intro fits_mono [OF f]) simp
    moreover have "num_val D r = num_val D x"
      using r by (simp add: num_val_def)
    ultimately show "yields (add_sub_words D r y add neg) (\<lambda>r. num_ok D r \<and> nrefs r = 1 \<and> nwords r \<le> sum_words x y \<and>
         num_val D r = (if neg then -1 else 1) * (num_val D x + (if add then 1 else -1) * num_val D y))"
      using r by (intro yields_conseq [OF add_sub_words_value [OF D _ y, of r add neg]]) auto
  qed
  show ?thesis
  proof (cases "nwords a < nwords b \<or> (nwords a = nwords b \<and> nrefs b = 1)")
    case True
    then have "nwords a \<le> nwords b" by auto
    from step [OF b a this, of "\<not> add"] fits True show ?thesis
      unfolding do_add_or_sub_def sum_words_commute [of b a]
      by (auto elim!: yields_conseq)
  next
    case False
    then have "nwords b \<le> nwords a" by auto
    from step [OF a b this fits, of False] False show ?thesis
      by (auto simp: do_add_or_sub_def elim!: yields_conseq)
  qed
qed

section \<open>Small addends\<close>

definition number_abs_add_uword :: "deci \<Rightarrow> number \<Rightarrow> nat \<Rightarrow> number option" where
  "number_abs_add_uword D a b =
     (if b = 0 then Some a
      else do {
        a \<leftarrow> mkuniq D a;
        let sa = scale a;
        if sa = nwords a then unsafe_push_word D a b
        else
          (let (r, push1) = deci_add D (drop sa (words a)) [b];
               a = a\<lparr>words := take sa (words a) @ r\<rparr> in
           if push1 then unsafe_push_word D a 1 else Some a)
      })"

lemma number_abs_add_uword_carry:
  assumes D: "deci_ok D" and a: "num_ok D a" and b: "b < DECI_BASE D" and fits: "fits D (Suc (nwords a))"
    and False: "\<not> (b = 0 \<or> scale a = nwords a)"
  shows "yields (number_abs_add_uword D a b)
    (\<lambda>r. num_ok D r \<and> num_abs D r = num_abs D a + of_nat b \<and> sign r = sign a \<and> scale r = scale a \<and>
       take (scale a) (words r) = take (scale a) (words a) \<and> nwords r \<le> Suc (nwords a) \<and>
       (nrefs a = 1 \<longrightarrow> nrefs r = 1))"
proof -
  note a' = num_okD [OF a]
  let ?B = "DECI_BASE D"
  let ?lo = "take (scale a) (words a)" and ?hi = "drop (scale a) (words a)"
  have hi: "words_ok ?B ?hi" "length [b] \<le> length ?hi"
    using a' False by (auto intro: words_ok_drop)
  obtain r c where add: "deci_add D ?hi [b] = (r, c)" and r: "words_ok ?B r" "length r = length ?hi"
    and val: "wval ?B r + (if c then ?B ^ length ?hi else 0) = wval ?B ?hi + wval ?B [b]"
    by (rule deci_add_law [OF D hi(1) _ hi(2)]) (use b in simp)
  let ?rr = "r @ (if c then [1] else [])"
  have rr: "wval ?B ?rr = wval ?B ?hi + b" "words_ok ?B ?rr"
    using val r DECI_BASE_gt_1 [OF D] by (auto simp: wval_append)
  have "normalized ?rr"
  proof (cases c)
    case False
    with rr r have "?B ^ (length ?rr - 1) \<le> wval ?B ?rr"
      using normalized_ge [OF a'(3), of ?B] hi(2) by (cases "?hi = []") simp_all
    with rr(2) show ?thesis
      by (intro normalizedI [of ?B]) auto
  qed simp
  moreover have lo: "length ?lo = scale a" "words_ok ?B ?lo"
    using a' by (auto intro: words_ok_take)
  moreover have "length (?lo @ ?rr) \<le> Suc (nwords a)"
    using r(2) a'(2) by simp
  ultimately have ok: "num_ok D (a\<lparr>nrefs := 1, words := ?lo @ ?rr\<rparr>)"
    using rr(2) fits_mono [OF fits] by (simp add: num_ok_def)
  have "wval ?B (words a) = wval ?B ?lo + ?B ^ scale a * wval ?B ?hi"
    using wval_take_drop [of ?B "words a" "scale a"] a'(2) by (simp add: min_absorb2)
  then have "wval ?B (?lo @ ?rr) = wval ?B (words a) + ?B ^ scale a * b"
    using lo(1) by (simp only: wval_append [of _ ?lo] rr(1)) (simp add: distrib_left)
  then have abs: "num_abs D (a\<lparr>nrefs := 1, words := ?lo @ ?rr\<rparr>) = num_abs D a + of_nat b"
    by (simp add: num_abs_def add_divide_distrib del: append_assoc if_split)
  have run: "number_abs_add_uword D a b = Some (a\<lparr>nrefs := 1, words := ?lo @ ?rr\<rparr>)"
    using False fits r a' mkuniq_eq [OF D a'(4)]
    by (auto simp: number_abs_add_uword_def add unsafe_push_word_eq)
  show ?thesis
    using ok abs lo r(2) a'(2) by (simp add: run)
qed

text \<open>The magnitude grows by \<open>b\<close>, the sign stays.\<close>

lemma number_abs_add_uword_yields:
  assumes D: "deci_ok D" and a: "num_ok D a" and b: "b < DECI_BASE D" and fits: "fits D (Suc (nwords a))"
  shows "yields (number_abs_add_uword D a b)
    (\<lambda>r. num_ok D r \<and> num_abs D r = num_abs D a + of_nat b \<and> sign r = sign a \<and> scale r = scale a \<and>
       take (scale a) (words r) = take (scale a) (words a) \<and> nwords r \<le> Suc (nwords a) \<and>
       (nrefs a = 1 \<longrightarrow> nrefs r = 1))"
proof -
  consider "b = 0" | "b \<noteq> 0" "scale a = nwords a" | "b \<noteq> 0" "scale a \<noteq> nwords a"
    by blast
  then show ?thesis
  proof cases
    case 1
    with a show ?thesis by (simp add: number_abs_add_uword_def)
  next
    case 2
    let ?r = "a\<lparr>nrefs := 1, words := words a @ [b]\<rparr>"
    have "number_abs_add_uword D a b = Some ?r"
      using 2 fits mkuniq_eq [OF D num_okD(4) [OF a]] by (simp add: number_abs_add_uword_def unsafe_push_word_eq)
    moreover have "num_ok D ?r"
      using 2 a b fits by (simp add: num_ok_def normalized_def)
    moreover have "num_abs D ?r = num_abs D a + of_nat b"
      using 2(2) by (simp add: num_abs_def wval_append add_divide_distrib)
    ultimately show ?thesis
      using 2(2) by simp
  next
    case 3
    then have nz: "\<not> (b = 0 \<or> scale a = nwords a)" by simp
    show ?thesis
      by (rule number_abs_add_uword_carry [OF D a b fits nz])
  qed
qed

text \<open>
  C6: Addition and subtraction are exact: for well-formed operands of any scales and signs, shared
  or not, the result is well-formed and its value is the sum, or the difference, of the values.
\<close>

theorem number_add_sub_exact:
  assumes "deci_ok D" and "num_ok D a" and "num_ok D b" and "fits D (sum_words a b)"
  shows "yields (number_add D a b) (\<lambda>r. num_ok D r \<and> num_val D r = num_val D a + num_val D b) \<and>
    yields (number_sub D a b) (\<lambda>r. num_ok D r \<and> num_val D r = num_val D a - num_val D b)"
  using do_add_or_sub_yields [OF assms, of True] do_add_or_sub_yields [OF assms, of False]
  by (auto simp: number_add_def number_sub_def elim!: yields_conseq)

theorem number_add_sub_exact_witness:
  "let a = \<lparr>nrefs = 2, sign = False, scale = 1, words = [500, 1]\<rparr>;
       b = \<lparr>nrefs = 1, sign = True, scale = 2, words = [1, 750, 3]\<rparr> in
   yields (number_add deci_ref a b) (\<lambda>r. num_val deci_ref r = 3/2 - 3750001/1000000)"
proof -
  let ?a = "\<lparr>nrefs = 2, sign = False, scale = 1, words = [500, 1]\<rparr>"
  let ?b = "\<lparr>nrefs = 1, sign = True, scale = 2, words = [1, 750, 3]\<rparr>"
  have "num_ok deci_ref ?a" "num_ok deci_ref ?b" "fits deci_ref (sum_words ?a ?b)"
    by (simp_all add: num_ok_def ref_base_def normalized_def fits_def SIZEOF_NUMBER_def SIZE_MAX_def sum_words_def)
  from number_add_sub_exact [OF deci_ref_ok this] show ?thesis
    by (auto simp: num_val_def num_abs_def ref_base_def elim!: yields_conseq)
qed

end
