(* ===== verification/Powers.thy ===== *)
theory Powers
  imports Prelude
begin

text \<open>
  The square-and-multiply loop of \<open>number_pow_zu\<close>, over any multiplication that may run out of
  memory. What it needs of the multiplication is the locale \<open>bounded_mul\<close>: products are exact as
  long as the sizes of the operands fit, and sizes add up.
\<close>

unbundle bit_operations_syntax

text \<open>\<open>for (size_t tmp = e >> 1; tmp; tmp >>= 1) h <<= 1;\<close>\<close>

fun highest_bit :: "nat \<Rightarrow> nat \<Rightarrow> nat" where
  "highest_bit tmp h = (if tmp = 0 then h else highest_bit (tmp div 2) (h * 2))"

declare highest_bit.simps [simp del]

text \<open>
  \<open>while (h > 1) { h >>= 1; s = s * s; if (e & h) s = s * b; }\<close>; the first argument of \<open>mul\<close> says
  whether both factors are the same object.
\<close>

function (sequential) pow_loop :: "(bool \<Rightarrow> 'n \<Rightarrow> 'n \<Rightarrow> 'n option) \<Rightarrow> nat \<Rightarrow> 'n \<Rightarrow> nat \<Rightarrow> 'n \<Rightarrow> 'n option" where
  "pow_loop mul e b h s =
     (if h > 1 then do {
        let h = h div 2;
        s \<leftarrow> mul True s s;
        s \<leftarrow> (if e AND h \<noteq> 0 then mul False s b else Some s);
        pow_loop mul e b h s
      } else Some s)"
  by pat_completeness auto
termination by (relation "measure (\<lambda>(mul, e, b, h, s). h)") auto

declare pow_loop.simps [simp del]

lemma highest_bit_eq:
  assumes "0 < e"
  obtains k where "highest_bit (e div 2) 1 = 2 ^ k" and "e div 2 ^ k = 1"
proof -
  have "\<exists>k. highest_bit (e div 2) h = h * 2 ^ k \<and> e div 2 ^ k = 1" for h
    using assms
  proof (induction e arbitrary: h rule: less_induct)
    case (less e)
    show ?case
    proof (cases "e div 2 = 0")
      case True
      with less.prems have "e = 1" by (simp add: div_eq_0_iff)
      then show ?thesis
        by (subst highest_bit.simps) (auto intro: exI [of _ 0])
    next
      case False
      then obtain k where k: "highest_bit (e div 2 div 2) (h * 2) = h * 2 * 2 ^ k" "e div 2 div 2 ^ k = 1"
        using less.IH [of "e div 2" "h * 2"] less.prems by auto
      from False have "highest_bit (e div 2) h = highest_bit (e div 2 div 2) (h * 2)"
        by (subst highest_bit.simps) simp
      with k show ?thesis
        by (intro exI [of _ "Suc k"]) (simp add: div_mult2_eq)
    qed
  qed
  from this [of 1] show ?thesis
    using that by auto
qed

lemma AND_exp_iff: "(e AND 2 ^ i \<noteq> (0 :: nat)) \<longleftrightarrow> odd (e div 2 ^ i)"
  by (simp add: and_exp_eq_0_iff_not_bit bit_iff_odd)

locale bounded_mul =
  fixes ok :: "'n \<Rightarrow> bool"
    and val :: "'n \<Rightarrow> 'q::comm_monoid_mult"
    and size :: "'n \<Rightarrow> nat"
    and room :: "nat \<Rightarrow> bool"
    and mul :: "bool \<Rightarrow> 'n \<Rightarrow> 'n \<Rightarrow> 'n option"
  assumes room_mono: "room n \<Longrightarrow> m \<le> n \<Longrightarrow> room m"
    and mul_law: "ok x \<Longrightarrow> ok y \<Longrightarrow> (same \<longrightarrow> x = y) \<Longrightarrow> room (size x + size y) \<Longrightarrow>
      yields (mul same x y) (\<lambda>r. ok r \<and> val r = val x * val y \<and> size r \<le> size x + size y)"
begin

lemma pow_loop_yields:
  assumes "ok b" and "room (size b * e)" and "0 < e"
    and "ok s" and "val s = val b ^ (e div 2 ^ i)" and "size s \<le> size b * (e div 2 ^ i)"
  shows "yields (pow_loop mul e b (2 ^ i) s) (\<lambda>r. ok r \<and> val r = val b ^ e \<and> size r \<le> size b * e)"
  using assms(4-6)
proof (induction i arbitrary: s)
  case 0
  then show ?case
    by (subst pow_loop.simps) simp
next
  case (Suc i)
  let ?q = "e div 2 ^ Suc i" and ?q' = "e div 2 ^ i"
  have q: "?q = ?q' div 2"
    by (simp only: power_Suc2 div_mult2_eq)
  have le: "size b * ?q' \<le> size b * e"
    by (intro mult_le_mono2 div_le_dividend)
  have sq: "size s + size s \<le> size b * (2 * ?q)"
    using Suc.prems(3) by simp
  also have "\<dots> \<le> size b * ?q'"
    unfolding q by (intro mult_le_mono2) simp
  finally have "room (size s + size s)"
    by (intro room_mono [OF assms(2)] le_trans [OF _ le])
  then have "yields (mul True s s) (\<lambda>r. ok r \<and> val r = val s * val s \<and> size r \<le> size s + size s)"
    by (intro mul_law Suc.prems(1)) simp
  then obtain t where t: "mul True s s = Some t" "ok t" "val t = val b ^ (2 * ?q)" "size t \<le> size b * (2 * ?q)"
    using sq Suc.prems(2) by (auto simp: yields_iff_ex mult_2 power_add)
  have "yields (if e AND 2 ^ i \<noteq> 0 then mul False t b else Some t)
      (\<lambda>u. ok u \<and> val u = val b ^ ?q' \<and> size u \<le> size b * ?q')"
  proof (cases "odd ?q'")
    case True
    then have q': "?q' = 2 * ?q + 1"
      unfolding q by simp
    have "size t + size b \<le> size b * ?q'"
      using t(4) unfolding q' by simp
    moreover from this have "room (size t + size b)"
      by (intro room_mono [OF assms(2)] le_trans [OF _ le])
    ultimately have "yields (mul False t b) (\<lambda>u. ok u \<and> val u = val b ^ ?q' \<and> size u \<le> size b * ?q')"
      unfolding q' using t assms(1)
      by (intro yields_conseq [OF mul_law [of t b False]]) (auto simp: mult.commute)
    moreover have "e AND 2 ^ i \<noteq> 0"
      using True AND_exp_iff by blast
    ultimately show ?thesis by simp
  next
    case False
    then have "?q' = 2 * ?q"
      unfolding q by simp
    moreover have "e AND 2 ^ i = 0"
      using False AND_exp_iff by blast
    ultimately show ?thesis
      using t by simp
  qed
  moreover have "pow_loop mul e b (2 ^ Suc i) s = do { u \<leftarrow> (if e AND 2 ^ i \<noteq> 0 then mul False t b else Some t);
      pow_loop mul e b (2 ^ i) u }"
    using t(1) one_less_power [of "2 :: nat" "Suc i"] by (subst pow_loop.simps) (simp add: Let_def)
  ultimately show ?case
    by (auto intro!: yields_bindI simp del: yields_bind dest: Suc.IH)
qed

lemma power_yields:
  assumes "ok b" and "room (size b * e)" and "0 < e"
  shows "yields (pow_loop mul e b (highest_bit (e div 2) 1) b) (\<lambda>r. ok r \<and> val r = val b ^ e \<and> size r \<le> size b * e)"
proof -
  obtain k where "highest_bit (e div 2) 1 = 2 ^ k" and "e div 2 ^ k = 1"
    by (rule highest_bit_eq [OF assms(3)])
  with assms show ?thesis
    by (simp add: pow_loop_yields)
qed

end

end
