(* ===== verification/Number_Mul.thy ===== *)
theory Number_Mul
  imports Number_Arith Powers
begin

text \<open>
  Products, powers, sign changes and the bitwise operations of \<open>number.c\<close>.
\<close>

section \<open>Products\<close>

text \<open>\<open>same\<close> says whether \<open>a\<close> and \<open>b\<close> are the same object.\<close>

definition number_mul :: "deci \<Rightarrow> bool \<Rightarrow> number \<Rightarrow> number \<Rightarrow> number option" where
  "number_mul D same a b =
     (let nwr = uu_add_zu_or_saturate (nwords a) (nwords b);
          sr = scale a + scale b in
      do {
        r \<leftarrow> allocate D (sign a \<noteq> sign b) nwr sr;
        unsafe_normalize_full D (r\<lparr>words := fancy_mul D same (words a) (words b)\<rparr>)
      })"

definition number_mul_uword :: "deci \<Rightarrow> number \<Rightarrow> nat \<Rightarrow> number option" where
  "number_mul_uword D a b =
     (if b = 0 then number_new_from_zu D 0
      else do {
        a \<leftarrow> mkuniq D a;
        let (r, hi) = deci_mul_uword D (words a) b;
        let a = a\<lparr>words := r\<rparr>;
        (if hi \<noteq> 0 then unsafe_push_word D a hi else Some a)
      })"

lemma number_mul_yields:
  assumes D: "deci_ok D" and a: "num_ok D a" and b: "num_ok D b" and same: "same \<Longrightarrow> a = b"
    and fits: "fits D (nwords a + nwords b)"
  shows "yields (number_mul D same a b)
    (\<lambda>r. num_ok D r \<and> num_val D r = num_val D a * num_val D b \<and> nwords r \<le> nwords a + nwords b \<and>
       nrefs r = 1 \<and> sign r = (sign a \<noteq> sign b) \<and> scale r \<le> scale a + scale b)"
proof -
  note a' = num_okD [OF a] and b' = num_okD [OF b]
  have sat: "uu_add_zu_or_saturate (nwords a) (nwords b) = nwords a + nwords b"
    using fits_less_zu [OF D fits] by (simp add: uu_add_zu_or_saturate_eq)
  let ?w = "fancy_mul D same (words a) (words b)"
  have w: "words_ok (DECI_BASE D) ?w" "length ?w = nwords a + nwords b"
    "wval (DECI_BASE D) ?w = wval (DECI_BASE D) (words a) * wval (DECI_BASE D) (words b)"
    using fancy_mul_product [OF D a'(1) b'(1), of same] same by (auto simp: product_of_def)
  let ?r = "\<lparr>nrefs = 1, sign = (sign a \<noteq> sign b), scale = scale a + scale b, words = ?w\<rparr>"
  have abs: "num_abs D \<lparr>nrefs = 1, sign = s, scale = scale a + scale b, words = ?w\<rparr> = num_abs D a * num_abs D b" for s
    by (simp add: num_abs_def w(3) power_add)
  have "yields (unsafe_normalize_full D ?r)
    (\<lambda>r. num_ok D r \<and> num_abs D r = num_abs D ?r \<and> sign r = sign ?r \<and> nrefs r = nrefs ?r \<and>
       scale r \<le> scale ?r \<and> nwords r \<le> nwords ?r)"
    by (rule unsafe_normalize_full_yields [OF D]) (use w a'(2) b'(2) fits in auto)
  then have "yields (unsafe_normalize_full D ?r)
    (\<lambda>r. num_ok D r \<and> num_val D r = num_val D a * num_val D b \<and> nwords r \<le> nwords a + nwords b \<and>
       nrefs r = 1 \<and> sign r = (sign a \<noteq> sign b) \<and> scale r \<le> scale a + scale b)"
    by (rule yields_conseq) (use w(2) abs in \<open>auto simp: num_val_def\<close>)
  then show ?thesis
    by (simp add: number_mul_def sat allocate_eq [OF fits])
qed

lemma number_mul_uword_yields:
  assumes D: "deci_ok D" and a: "num_ok D a" and b: "b < DECI_BASE D" and fits: "fits D (Suc (nwords a))"
  shows "yields (number_mul_uword D a b)
    (\<lambda>r. num_ok D r \<and> num_abs D r = num_abs D a * of_nat b \<and> (b \<noteq> 0 \<longrightarrow> sign r = sign a \<and> scale r = scale a) \<and>
       (b = 0 \<longrightarrow> \<not> sign r \<and> scale r = 0) \<and> nwords r \<le> Suc (nwords a) \<and> nrefs r = 1)"
proof (cases "b = 0")
  case True
  then show ?thesis
    using number_new_from_zu_yields [OF D, of 0]
    by (auto simp: number_mul_uword_def num_val_eq_0 digits_of_def normalized_0_iff elim!: yields_conseq)
next
  case False
  note a' = num_okD [OF a]
  let ?B = "DECI_BASE D"
  obtain r h where mul: "deci_mul_uword D (words a) b = (r, h)" and r: "words_ok ?B r" "length r = nwords a" "h < ?B"
    and val: "wval ?B r + ?B ^ nwords a * h = wval ?B (words a) * b"
    by (rule deci_mul_uword_law [OF D a'(1) b])
  let ?ws = "r @ (if h \<noteq> 0 then [h] else [])"
  let ?r = "a\<lparr>nrefs := 1, words := ?ws\<rparr>"
  have ws: "wval ?B ?ws = wval ?B (words a) * b" "words_ok ?B ?ws"
    using val r by (auto simp: wval_append)
  have run: "number_mul_uword D a b = Some ?r"
    using False mul r fits mkuniq_eq [OF D a'(4)] by (auto simp: number_mul_uword_def unsafe_push_word_eq)
  have "normalized (drop (scale a) ?ws)"
  proof (cases "h = 0")
    case False
    then show ?thesis
      using r(2) a'(2) by (simp add: normalized_def)
  next
    case True
    have "wval ?B (drop (scale a) (words a)) * ?B ^ scale a \<le> wval ?B (words a) * 1"
      using wval_take_drop [of ?B "words a" "scale a"] a'(2) by (simp add: min_absorb2 mult.commute)
    also have "\<dots> \<le> wval ?B (words a) * b"
      using False by (intro mult_le_mono2) simp
    also have "\<dots> = wval ?B ?ws"
      by (rule ws(1) [symmetric])
    finally show ?thesis
      using a'(2) r(2) ws(2) True by (intro normalized_drop_mono [of ?B ?ws "scale a", OF _ _ _ a'(3)]) auto
  qed
  then have "num_ok D ?r"
    using ws(2) r(2) a'(2) fits fits_mono [OF fits] by (auto simp: num_ok_def)
  moreover have "num_abs D ?r = num_abs D a * of_nat b"
    using ws(1) by (cases "h = 0") (simp_all add: num_abs_def)
  ultimately show ?thesis
    using False r(2) by (simp add: run)
qed

section \<open>Powers\<close>

definition number_pow_zu :: "deci \<Rightarrow> number \<Rightarrow> nat \<Rightarrow> number option" where
  "number_pow_zu D b e =
     (if e = 0 then number_new_from_zu D 1
      else do {
        let h = highest_bit (e div 2) 1;
        b \<leftarrow> mkuniq D b;
        b \<leftarrow> unsafe_normalize_full D b;
        pow_loop (number_mul D) e b h b
      })"

definition number_abs_eq_uword :: "deci \<Rightarrow> number \<Rightarrow> nat \<Rightarrow> bool" where
  "number_abs_eq_uword D a w =
     (if w = 0 then number_is_zero D a
      else if \<not> number_is_fzero D a then False
      else nwords a - scale a = 1 \<and> words a ! scale a = w)"

definition number_pow :: "deci \<Rightarrow> number \<Rightarrow> number \<Rightarrow> number option" where
  "number_pow D b e =
     (let x = number_to_zu D e in
      if x = SIZE_MAX then
        (if number_is_zero D b then Some b
         else if number_abs_eq_uword D b 1 then
           (if sign b \<and> number_to_u32 D e AND 1 \<noteq> 0 then Some b else number_new_from_zu D 1)
         else None)
      else number_pow_zu D b x)"

definition number_negate :: "deci \<Rightarrow> number \<Rightarrow> number option" where
  "number_negate D a = do { a \<leftarrow> mkuniq D a; Some (a\<lparr>sign := \<not> sign a\<rparr>) }"

text \<open>\<open>number_mul\<close> is a multiplication as the loop needs it, with the words as the size.\<close>

interpretation nm: bounded_mul "\<lambda>a. deci_ok D \<and> num_ok D a" "num_val D" nwords "fits D" "number_mul D"
proof unfold_locales
  show "fits D n \<Longrightarrow> m \<le> n \<Longrightarrow> fits D m" for n m
    by (rule fits_mono)
  show "deci_ok D \<and> num_ok D x \<Longrightarrow> deci_ok D \<and> num_ok D y \<Longrightarrow> same \<longrightarrow> x = y \<Longrightarrow> fits D (nwords x + nwords y) \<Longrightarrow>
      yields (number_mul D same x y)
        (\<lambda>r. (deci_ok D \<and> num_ok D r) \<and> num_val D r = num_val D x * num_val D y \<and> nwords r \<le> nwords x + nwords y)"
    for x y same
    by (rule yields_conseq [OF number_mul_yields]) auto
qed

lemma number_pow_zu_yields:
  assumes D: "deci_ok D" and b: "num_ok D b" and fits: "fits D (nwords b * e)" and "fits D (nwords b)"
  shows "yields (number_pow_zu D b e)
    (\<lambda>r. num_ok D r \<and> num_val D r = num_val D b ^ e \<and> nwords r \<le> max 1 (nwords b * e))"
proof (cases "e = 0")
  case True
  have len: "length ws \<le> 1" if "digits_of (DECI_BASE D) 1 ws" for ws
    using digits_of_length [OF that, of 1] DECI_BASE_gt_1 [OF D] by simp
  show ?thesis
    using True number_new_from_zu_yields [OF D, of 1] len
    by (auto simp: number_pow_zu_def SIZE_MAX_def elim!: yields_conseq)
next
  case False
  note b' = num_okD [OF b]
  let ?b = "b\<lparr>nrefs := 1\<rparr>"
  have "yields (unsafe_normalize_full D ?b)
    (\<lambda>r. num_ok D r \<and> num_abs D r = num_abs D ?b \<and> sign r = sign ?b \<and> nrefs r = nrefs ?b \<and>
       scale r \<le> scale ?b \<and> nwords r \<le> nwords ?b)"
    by (rule unsafe_normalize_full_yields [OF D]) (use b' in auto)
  then have "yields (unsafe_normalize_full D ?b) (\<lambda>r. yields (pow_loop (number_mul D) e r (highest_bit (e div 2) 1) r)
    (\<lambda>r. num_ok D r \<and> num_val D r = num_val D b ^ e \<and> nwords r \<le> max 1 (nwords b * e)))"
  proof (rule yields_conseq)
    fix r
    assume r: "num_ok D r \<and> num_abs D r = num_abs D ?b \<and> sign r = sign ?b \<and> nrefs r = nrefs ?b \<and>
       scale r \<le> scale ?b \<and> nwords r \<le> nwords ?b"
    then have le: "nwords r * e \<le> nwords b * e" and val: "num_val D r = num_val D b"
      by (auto simp: num_val_def)
    have "yields (pow_loop (number_mul D) e r (highest_bit (e div 2) 1) r)
       (\<lambda>s. (deci_ok D \<and> num_ok D s) \<and> num_val D s = num_val D r ^ e \<and> nwords s \<le> nwords r * e)"
      by (rule nm.power_yields) (use D r False fits_mono [OF fits le] in auto)
    then show "yields (pow_loop (number_mul D) e r (highest_bit (e div 2) 1) r)
      (\<lambda>r. num_ok D r \<and> num_val D r = num_val D b ^ e \<and> nwords r \<le> max 1 (nwords b * e))"
      by (rule yields_conseq) (use le val in \<open>simp add: le_max_iff_disj, metis le_trans\<close>)
  qed
  then show ?thesis
    using False mkuniq_eq [OF D b'(4)] by (simp add: number_pow_zu_def)
qed

lemma number_abs_eq_uword_iff:
  assumes D: "deci_ok D" and a: "num_ok D a" and w: "w < DECI_BASE D"
  shows "number_abs_eq_uword D a w \<longleftrightarrow> num_abs D a = of_nat w"
proof (cases "w = 0")
  case True
  then show ?thesis
    by (simp add: number_abs_eq_uword_def number_is_zero_iff [OF D a] num_val_eq_0)
next
  case False
  note a' = num_okD [OF a]
  let ?hi = "drop (scale a) (words a)"
  have "num_int D a = w \<longleftrightarrow> ?hi = [w]"
  proof
    assume int: "num_int D a = w"
    have "digits_of (DECI_BASE D) w ?hi" "digits_of (DECI_BASE D) w [w]"
      using int a' w False by (auto simp: digits_of_def num_int_def normalized_def intro: words_ok_drop)
    moreover from this have "length ?hi = length [w]"
      using digits_of_length [of "DECI_BASE D" w ?hi 1] w DECI_BASE_gt_1 [OF D] int False
      by (cases "?hi") (auto simp: num_int_def)
    ultimately show "?hi = [w]"
      by (intro wval_inj [of "DECI_BASE D"]) (simp_all add: digits_of_def)
  qed (simp add: num_int_def)
  moreover have "?hi = [w] \<longleftrightarrow> nwords a - scale a = 1 \<and> words a ! scale a = w"
    unfolding length_drop [symmetric] by (cases ?hi) (auto simp: nth_via_drop)
  moreover have "num_abs D a = of_nat w \<longleftrightarrow> num_abs D a = of_nat (num_int D a) \<and> num_int D a = w"
    using floor_num_abs [OF a] by (auto simp: floor_of_nat)
  ultimately show ?thesis
    using False by (simp add: number_abs_eq_uword_def number_is_fzero_iff [OF D a])
qed

lemma number_negate_yields:
  assumes "deci_ok D" and "num_ok D a"
  shows "yields (number_negate D a) (\<lambda>r. num_ok D r \<and> num_val D r = - num_val D a \<and> nrefs r = 1)"
  using assms mkuniq_eq [OF assms(1) num_okD(4) [OF assms(2)]]
  by (simp add: number_negate_def num_val_def)

text \<open>
  C7: Multiplication is exact, of shared or unshared, distinct or identical operands, and the
  result is trimmed: well-formed, with no more fractional words than both operands have together.
\<close>

theorem number_mul_exact:
  assumes "deci_ok D" and "num_ok D a" and "num_ok D b" and "same \<longrightarrow> a = b" and "fits D (nwords a + nwords b)"
  shows "yields (number_mul D same a b)
    (\<lambda>r. num_ok D r \<and> num_val D r = num_val D a * num_val D b \<and> scale r \<le> scale a + scale b)"
  by (rule yields_conseq [OF number_mul_yields]) (use assms in auto)

lemma sample_ok:
  "num_ok deci_ref \<lparr>nrefs = n, sign = s, scale = 1, words = [500, 1]\<rparr>"
  "num_ok deci_ref \<lparr>nrefs = n, sign = s, scale = 0, words = [3]\<rparr>"
  "num_ok deci_ref \<lparr>nrefs = n, sign = s, scale = 2, words = [1, 750, 3]\<rparr>"
  "fits deci_ref k \<longleftrightarrow> k * 2 + 40 \<le> SIZE_MAX"
  by (simp_all add: num_ok_def ref_base_def normalized_def fits_def SIZEOF_NUMBER_def SIZE_MAX_def)

lemma sample_val:
  "num_val deci_ref \<lparr>nrefs = n, sign = s, scale = 1, words = [500, 1]\<rparr> = (if s then -3/2 else 3/2)"
  "num_val deci_ref \<lparr>nrefs = n, sign = s, scale = 0, words = [3]\<rparr> = (if s then -3 else 3)"
  "num_val deci_ref \<lparr>nrefs = n, sign = s, scale = 2, words = [1, 750, 3]\<rparr> =
     (if s then -3750001/1000000 else 3750001/1000000)"
  by (simp_all add: num_val_def num_abs_def ref_base_def)

theorem number_mul_exact_witness:
  "let a = \<lparr>nrefs = 2, sign = True, scale = 1, words = [500, 1]\<rparr> in
   yields (number_mul deci_ref True a a) (\<lambda>r. num_val deci_ref r = 9/4)"
proof -
  let ?a = "\<lparr>nrefs = 2, sign = True, scale = 1, words = [500, 1]\<rparr>"
  have "fits deci_ref (nwords ?a + nwords ?a)"
    by (simp add: sample_ok SIZE_MAX_def)
  from number_mul_exact [OF deci_ref_ok sample_ok(1) sample_ok(1) _ this, of True] show ?thesis
    unfolding Let_def sample_val by (simp, elim yields_conseq) simp
qed

section \<open>The power operator\<close>

text \<open>
  \<open>do_pow\<close> of \<open>vm.c\<close>: the errors it reports are the left of the sum; aborting because the exponent is
  too large is having no result.
\<close>

definition do_pow :: "deci \<Rightarrow> number \<Rightarrow> number \<Rightarrow> (string + number) option" where
  "do_pow D b e =
     (if sign e \<and> \<not> number_is_zero D e then Some (Inl ''exponent is negative'')
      else if \<not> number_is_fzero D e then Some (Inl ''fraction part of exponent is non-zero'')
      else map_option Inr (number_pow D b e))"

lemma odd_of_nat_word: "odd (of_nat n :: 32 word) \<longleftrightarrow> odd n"
  by (simp flip: bit_0 add: bit_simps)

lemma number_to_u32_odd: "number_to_u32 D e AND 1 \<noteq> 0 \<longleftrightarrow> odd (num_int D e)"
  unfolding number_to_u32_eq by (simp add: and_one_eq odd_of_nat_word flip: odd_iff_mod_2_eq_one)

text \<open>Powers of the numbers of magnitude 0 and 1 do not depend on the size of the exponent.\<close>

lemma sign_power: "\<bar>x\<bar> = (1 :: rat) \<Longrightarrow> x ^ n = (if x < 0 \<and> odd n then -1 else 1)"
proof -
  assume "\<bar>x\<bar> = 1"
  then have "x = 1 \<or> x = -1"
    by (simp add: abs_if minus_equation_iff split: if_splits)
  then show ?thesis
    by (auto simp: minus_one_power_iff)
qed

lemma number_pow_yields:
  assumes D: "deci_ok D" and b: "num_ok D b" and e: "num_ok D e" and nonneg: "0 \<le> num_val D e"
    and small: "num_int D e < SIZE_MAX \<longrightarrow> fits D (nwords b * num_int D e)"
    and large: "SIZE_MAX \<le> num_int D e \<longrightarrow> num_val D b = 0 \<or> \<bar>num_val D b\<bar> = 1"
  shows "yields (number_pow D b e) (\<lambda>r. num_ok D r \<and> num_val D r = num_val D b ^ num_int D e)"
proof -
  have zu: "number_to_zu D e = min SIZE_MAX (num_int D e)"
  proof (cases "sign e")
    case True
    with nonneg have "num_val D e = 0"
      using num_abs_nonneg [of D e] by (simp add: num_val_def)
    moreover from this have "num_int D e = 0"
      using floor_num_abs [OF e] by (simp add: num_val_eq_0)
    ultimately show ?thesis
      using True by (simp add: number_to_zu_eq [OF D e])
  qed (simp add: number_to_zu_eq [OF D e])
  show ?thesis
  proof (cases "num_int D e < SIZE_MAX")
    case True
    then show ?thesis
      using zu small number_pow_zu_yields [OF D b _ num_okD(4) [OF b], of "num_int D e"]
      by (auto simp: number_pow_def Let_def elim!: yields_conseq)
  next
    case False
    then have sat: "number_to_zu D e = SIZE_MAX" and pos: "0 < num_int D e"
      using zu less_le_trans [OF SIZE_MAX_pos] by (simp_all add: not_less min_absorb1)
    show ?thesis
    proof (cases "num_val D b = 0")
      case True
      then show ?thesis
        using sat pos b by (simp add: number_pow_def number_is_zero_iff [OF D b] zero_power)
    next
      case nz: False
      with large False have one: "\<bar>num_val D b\<bar> = 1" by simp
      then have abs1: "number_abs_eq_uword D b 1"
        using DECI_BASE_gt_1 [OF D] by (simp add: number_abs_eq_uword_iff [OF D b] abs_num_val)
      have neg: "num_val D b < 0 \<longleftrightarrow> sign b"
        using nz num_abs_nonneg [of D b]
        by (auto simp: num_val_def num_val_eq_0 order_less_le simp del: num_abs_nonneg)
      have run: "number_pow D b e =
          (if sign b \<and> number_to_u32 D e AND 1 \<noteq> 0 then Some b else number_new_from_zu D 1)"
        using sat abs1 nz by (simp add: number_pow_def number_is_zero_iff [OF D b])
      have "num_val D b = -1" if "sign b"
        using one neg that by (simp add: abs_if)
      then show ?thesis
        unfolding run number_to_u32_odd sign_power [OF one] neg
        using b number_new_from_zu_yields [OF D, of 1]
        by (auto simp: SIZE_MAX_def elim!: yields_conseq)
    qed
  qed
qed

lemma do_pow_yields:
  assumes D: "deci_ok D" and b: "num_ok D b" and e: "num_ok D e"
    and small: "num_int D e < SIZE_MAX \<longrightarrow> fits D (nwords b * num_int D e)"
    and large: "SIZE_MAX \<le> num_int D e \<longrightarrow> num_val D b = 0 \<or> \<bar>num_val D b\<bar> = 1"
  shows "yields (do_pow D b e) (\<lambda>r.
    if num_val D e < 0 then r = Inl ''exponent is negative''
    else if num_val D e \<notin> \<int> then r = Inl ''fraction part of exponent is non-zero''
    else \<exists>p. r = Inr p \<and> num_ok D p \<and> num_val D p = num_val D b ^ nat \<lfloor>num_val D e\<rfloor>)"
proof -
  have neg: "sign e \<and> \<not> number_is_zero D e \<longleftrightarrow> num_val D e < 0"
    using num_abs_nonneg [of D e] number_is_zero_iff [OF D e] num_val_eq_0 [of D e]
    by (auto simp: num_val_def order_less_le simp del: num_abs_nonneg)
  show ?thesis
  proof (cases "num_val D e < 0")
    case True
    with neg show ?thesis by (simp add: do_pow_def)
  next
    case False
    then have abs: "num_val D e = num_abs D e"
      using abs_num_val [of D e] by simp
    then have fl: "nat \<lfloor>num_val D e\<rfloor> = num_int D e"
      by (simp add: floor_num_abs [OF e])
    have int: "number_is_fzero D e \<longleftrightarrow> num_val D e \<in> \<int>"
      unfolding number_is_fzero_iff [OF D e] abs
      using floor_num_abs [OF e] by (metis Ints_cases Ints_of_nat floor_of_int of_int_of_nat_eq)
    show ?thesis
      using False neg int number_pow_yields [OF D b e _ small large]
      by (auto simp: do_pow_def fl elim!: yields_conseq)
  qed
qed

text \<open>
  C12: The power operator. A negative exponent and an exponent with a fractional part are reported as
  errors and nothing else is; otherwise the result is well-formed and is exactly the power, also
  when the exponent does not fit in a machine word and the base is 0, 1 or -1.
\<close>

theorem do_pow_exact:
  assumes D: "deci_ok D" and b: "num_ok D b" and e: "num_ok D e"
    and small: "num_int D e < SIZE_MAX \<longrightarrow> fits D (nwords b * num_int D e)"
    and large: "SIZE_MAX \<le> num_int D e \<longrightarrow> num_val D b = 0 \<or> \<bar>num_val D b\<bar> = 1"
  shows "yields (do_pow D b e) (\<lambda>r.
    if num_val D e < 0 then r = Inl ''exponent is negative''
    else if num_val D e \<notin> \<int> then r = Inl ''fraction part of exponent is non-zero''
    else \<exists>p. r = Inr p \<and> num_ok D p \<and> num_val D p = num_val D b ^ nat \<lfloor>num_val D e\<rfloor>)"
  by (rule do_pow_yields [OF assms])

theorem do_pow_exact_witness:
  "let b = \<lparr>nrefs = 1, sign = True, scale = 1, words = [500, 1]\<rparr>;
       e = \<lparr>nrefs = 1, sign = False, scale = 0, words = [3]\<rparr> in
   yields (do_pow deci_ref b e) (\<lambda>r. \<exists>p. r = Inr p \<and> num_val deci_ref p = -27/8)"
proof -
  let ?b = "\<lparr>nrefs = 1, sign = True, scale = 1, words = [500, 1]\<rparr>"
  let ?e = "\<lparr>nrefs = 1, sign = False, scale = 0, words = [3]\<rparr>"
  have "num_int deci_ref ?e = 3"
    by (simp add: num_int_def)
  then have "num_int deci_ref ?e < SIZE_MAX \<longrightarrow> fits deci_ref (nwords ?b * num_int deci_ref ?e)"
    and "SIZE_MAX \<le> num_int deci_ref ?e \<longrightarrow> num_val deci_ref ?b = 0 \<or> \<bar>num_val deci_ref ?b\<bar> = 1"
    by (simp_all add: sample_ok SIZE_MAX_def)
  from do_pow_exact [OF deci_ref_ok sample_ok(1) sample_ok(2) this] show ?thesis
    unfolding Let_def sample_val by (rule yields_conseq) (auto simp: power3_eq_cube)
qed

end
