(* ===== verification/Number_Div.thy ===== *)
theory Number_Div
  imports Number_Mul
begin

text \<open>
  Division with a precision, integer quotient and remainder, rounding to integers, and scaling by
  powers of ten of the numbers of \<open>number.c\<close>.
\<close>

section \<open>Operations\<close>

definition div_prepare :: "deci \<Rightarrow> number \<Rightarrow> nat \<Rightarrow> nat \<Rightarrow> number option" where
  "div_prepare D a mul_base_pow min_scale =
     (let sa = scale a; sr = (if min_scale > sa then min_scale else sa) in
      do {
        a \<leftarrow> mkuniq_scale_up D a (uu_add_zu_or_saturate sr mul_base_pow);
        Some (a\<lparr>scale := sr\<rparr>)
      })"

definition number_div :: "deci \<Rightarrow> number \<Rightarrow> number \<Rightarrow> ntp \<Rightarrow> number option" where
  "number_div D a b p =
     do {
       a \<leftarrow> div_prepare D a (scale b) (ntp_scale p);
       let a = a\<lparr>sign := (sign a \<noteq> sign b)\<rparr>;
       (wa, nwr) \<leftarrow> fancy_div D (words a) (words b);
       unsafe_normalize_after_div D (a\<lparr>words := wa\<rparr>) nwr p
     }"

definition number_imod :: "deci \<Rightarrow> number \<Rightarrow> number \<Rightarrow> number option" where
  "number_imod D a b =
     do {
       a \<leftarrow> mkuniq_scale_down D a 0;
       (wa, nwr) \<leftarrow> fancy_mod D (words a) (drop (scale b) (words b));
       unsafe_normalize_after_idiv D (a\<lparr>words := wa\<rparr>) nwr
     }"

definition number_idiv :: "deci \<Rightarrow> number \<Rightarrow> number \<Rightarrow> number option" where
  "number_idiv D a b =
     do {
       a \<leftarrow> mkuniq_scale_down D a 0;
       let a = a\<lparr>sign := (sign a \<noteq> sign b)\<rparr>;
       (wa, nwr) \<leftarrow> fancy_div D (words a) (drop (scale b) (words b));
       unsafe_normalize_after_idiv D (a\<lparr>words := wa\<rparr>) nwr
     }"

definition number_trunc :: "deci \<Rightarrow> number \<Rightarrow> number option" where
  "number_trunc D a = mkuniq_scale_down D a 0"

definition number_floor :: "deci \<Rightarrow> number \<Rightarrow> number option" where
  "number_floor D a =
     do {
       a \<leftarrow> (if sign a \<and> \<not> number_is_fzero D a then number_abs_add_uword D a 1 else Some a);
       mkuniq_scale_down D a 0
     }"

definition number_ceil :: "deci \<Rightarrow> number \<Rightarrow> number option" where
  "number_ceil D a =
     do {
       a \<leftarrow> (if \<not> sign a \<and> \<not> number_is_fzero D a then number_abs_add_uword D a 1 else Some a);
       mkuniq_scale_down D a 0
     }"

definition number_round :: "deci \<Rightarrow> number \<Rightarrow> number option" where
  "number_round D a =
     do {
       a \<leftarrow> (if scale a \<noteq> 0 \<and> words a ! (scale a - 1) \<ge> DECI_BASE D div 2
             then number_abs_add_uword D a 1 else Some a);
       mkuniq_scale_down D a 0
     }"

definition number_frac :: "deci \<Rightarrow> number \<Rightarrow> number option" where
  "number_frac D a =
     do {
       a \<leftarrow> mkuniq D a;
       unsafe_strip D a (scale a) (scale a)
     }"

text \<open>The branch of \<open>number_scale_down\<close> that divides by a power of ten below the base, with one more
  word for the remainder.\<close>

definition divide_words :: "deci \<Rightarrow> number \<Rightarrow> nat \<Rightarrow> number option" where
  "divide_words D a r =
     (if r \<noteq> 0 then
        (let f = word_from_pow10 r;
             (ws, m) = deci_divmod_uword D (words a) f;
             a = a\<lparr>words := ws\<rparr> in
         if m \<noteq> 0 then do {
           a \<leftarrow> mkuniq_scale_up D a (scale a + 1);
           let m = m * word_from_pow10 (DECI_BASE_LOG D - r);
           Some (a\<lparr>words := (words a)[0 := m]\<rparr>)
         } else Some a)
      else Some a)"

definition number_scale_down :: "deci \<Rightarrow> number \<Rightarrow> nat \<Rightarrow> number option" where
  "number_scale_down D a n =
     (let q = n div DECI_BASE_LOG D; r = n mod DECI_BASE_LOG D;
          s = uu_add_zu_or_saturate (scale a) q in
      do {
        a \<leftarrow> mkuniq_extend D a (if nwords a > s then nwords a else s);
        let a = a\<lparr>scale := scale a + q\<rparr>;
        a \<leftarrow> divide_words D a r;
        unsafe_normalize_full D a
      })"

definition number_scale_up :: "deci \<Rightarrow> number \<Rightarrow> nat \<Rightarrow> number option" where
  "number_scale_up D a n =
     (let q = n div DECI_BASE_LOG D; r = n mod DECI_BASE_LOG D in
      do {
        a \<leftarrow> mkuniq_scale_up D a (if scale a > q then scale a else q);
        let a = a\<lparr>scale := scale a - q\<rparr>;
        a \<leftarrow> unsafe_normalize_full D a;
        (if r \<noteq> 0 then number_mul_uword D a (word_from_pow10 r) else Some a)
      })"

section \<open>Division with a precision\<close>

text \<open>The number cut off after \<open>n\<close> decimal places.\<close>

definition trunc_to :: "nat \<Rightarrow> rat \<Rightarrow> rat" where
  "trunc_to n x = (if x < 0 then - (of_int \<lfloor>- x * 10 ^ n\<rfloor> / 10 ^ n) else of_int \<lfloor>x * 10 ^ n\<rfloor> / 10 ^ n)"

lemma trunc_to_signed:
  assumes "0 \<le> m" and "x = (if s then - m else m)"
  shows "trunc_to n x = (if s then - (of_int \<lfloor>m * 10 ^ n\<rfloor> / 10 ^ n) else of_int \<lfloor>m * 10 ^ n\<rfloor> / 10 ^ n)"
  using assms by (cases "m = 0") (auto simp: trunc_to_def)

text \<open>
  The trimming after a division: the first \<open>nwr\<close> words hold the quotient, the others are left over
  from the dividend.
\<close>

lemma clear_low_word:
  assumes ws: "words_ok (DECI_BASE D) ws" "ws \<noteq> []" and m: "0 < m" "m dvd DECI_BASE D"
  shows "wval (DECI_BASE D) (ws[0 := ws ! 0 - ws ! 0 mod m]) = m * (wval (DECI_BASE D) ws div m)"
proof -
  obtain w vs where [simp]: "ws = w # vs"
    using ws(2) by (cases ws) auto
  obtain k where k: "DECI_BASE D = m * k"
    using m(2) by (rule dvdE)
  have "(w + DECI_BASE D * wval (DECI_BASE D) vs) div m = w div m + k * wval (DECI_BASE D) vs"
    using m(1) by (simp add: k mult.assoc)
  then show ?thesis
    by (simp add: distrib_left minus_mod_eq_mult_div) (simp add: k mult.assoc)
qed

lemma unsafe_normalize_after_div_yields:
  assumes D: "deci_ok D" and p: "ntp_ok D p prec"
    and a: "scale a \<le> nwords a" "fits D (nwords a)" and n: "n \<le> nwords a"
    and q: "words_ok (DECI_BASE D) (take n (words a))" "ntp_scale p \<le> scale a"
  shows "yields (unsafe_normalize_after_div D a n p)
    (\<lambda>r. num_ok D r \<and> sign r = sign a \<and> nrefs r = nrefs a \<and> scale r = ntp_scale p \<and> nwords r \<le> nwords a \<and>
       wval (DECI_BASE D) (words r) = submod p *
         (wval (DECI_BASE D) (take n (words a)) div DECI_BASE D ^ (scale a - ntp_scale p) div submod p))"
proof -
  let ?B = "DECI_BASE D" and ?sa = "scale a" and ?ps = "ntp_scale p"
  have p': "submod p * 10 ^ prec = ?B ^ ?ps" "0 < submod p" "submod p < ?B" "submod p dvd ?B"
    using p by (simp_all add: ntp_ok_def)
  obtain ws m where prep: "(if n > ?sa then (a, ?sa + deci_normalize D (drop ?sa (take n (words a))))
      else (a\<lparr>words := take n (words a) @ deci_zero_out_n D (?sa - n) @ drop ?sa (words a)\<rparr>, ?sa)) =
      (a\<lparr>words := ws\<rparr>, m)" "length ws = nwords a" "?sa \<le> m" "m \<le> nwords a"
    "words_ok ?B (take m ws)" "normalized (drop ?sa (take m ws))"
    "wval ?B (take m ws) = wval ?B (take n (words a))"
  proof (cases "n > ?sa")
    case True
    let ?hi = "drop ?sa (take n (words a))"
    let ?m = "?sa + deci_normalize D ?hi"
    have m: "?m \<le> n"
      using deci_normalize_law(1) [OF D, of ?hi] True n by simp
    have tk: "take ?m (words a) = take ?sa (words a) @ take (deci_normalize D ?hi) ?hi"
      using m by (simp add: take_add drop_take)
    have "take n (words a) = take ?sa (words a) @ ?hi"
      using True by (metis append_take_drop_id less_imp_le_nat min_absorb1 take_take)
    then have "wval ?B (take n (words a)) = wval ?B (take ?m (words a))"
      unfolding tk by (metis deci_normalize_val [OF D] wval_append)
    moreover have "words_ok ?B (take ?m (words a))"
      using words_ok_take [OF q(1), of ?m] m by (simp add: min_absorb1)
    moreover have "drop ?sa (take ?m (words a)) = take (deci_normalize D ?hi) ?hi"
      unfolding tk using a(1) by simp
    ultimately show ?thesis
      using True m n deci_normalize_law(3) [OF D, of ?hi]
      by (intro that [of "words a" ?m]) auto
  next
    case False
    let ?ws = "take n (words a) @ replicate (?sa - n) 0 @ drop ?sa (words a)"
    have "take ?sa ?ws = take n (words a) @ replicate (?sa - n) 0"
      using False n by simp
    then show ?thesis
      using False n a(1) q(1)
      by (intro that [of ?ws ?sa]) (auto simp: deci_spans_simps [OF D] wval_append)
  qed
  let ?a = "a\<lparr>words := ws\<rparr>"
  let ?ds = "?sa - ?ps"
  let ?vs = "take (m - ?sa + ?ps) (drop ?ds ws)"
  have vs: "?vs = drop ?ds (take m ws)"
    using prep(3) q(2) by (simp add: drop_take)
  have strip: "unsafe_strip D ?a (m - ?sa + ?ps) ?ps = Some (?a\<lparr>words := ?vs, scale := ?ps\<rparr>)"
    by (subst unsafe_strip_eq [OF D]) (use a prep q(2) in auto)
  have len: "length ?vs = m - ?sa + ?ps"
    using prep q(2) by simp
  have okv: "words_ok ?B ?vs"
    unfolding vs by (rule words_ok_drop [OF prep(5)])
  have valv: "wval ?B ?vs = wval ?B (take n (words a)) div ?B ^ ?ds"
    unfolding vs using wval_drop(1) [OF prep(5), of ?ds] prep by simp
  have norm: "normalized (drop ?ps ?vs)"
    using prep(6) q(2) unfolding vs by (simp add: drop_drop)
  let ?us = "if ?ps \<noteq> 0 then ?vs[0 := ?vs ! 0 - ?vs ! 0 mod submod p] else ?vs"
  have run: "unsafe_normalize_after_div D a n p = Some (a\<lparr>words := ?us, scale := ?ps\<rparr>)"
    unfolding unsafe_normalize_after_div_def Let_def prep(1) prod.case strip
    using q(2) by simp
  have us: "wval ?B ?us = submod p * (wval ?B ?vs div submod p) \<and> words_ok ?B ?us \<and> normalized (drop ?ps ?us)
      \<and> length ?us = length ?vs"
  proof (cases "?ps = 0")
    case True
    with p'(1) show ?thesis
      using okv norm by simp
  next
    case False
    then have ne: "?vs \<noteq> []"
      using len by (metis add_is_0 list.size(3))
    have "?vs ! 0 < ?B"
      by (rule words_ok_nth [OF okv]) (use ne in blast)
    then have "words_ok ?B ?us"
      using False okv by (auto intro!: words_ok_update)
    moreover have "drop ?ps (?vs[0 := x]) = drop ?ps ?vs" for x
      using False by (simp add: drop_update_cancel)
    ultimately show ?thesis
      using False norm clear_low_word [OF okv ne p'(2,4)] by simp
  qed
  define u where "u = ?us"
  have len': "length ?vs \<le> nwords a" "?ps \<le> length ?vs"
    using len prep(3,4) q(2) by simp_all
  note u = us [folded u_def]
  have "num_ok D (a\<lparr>words := u, scale := ?ps\<rparr>)"
    using u len' fits_mono [OF a(2), of "length ?vs"] by (simp only: num_ok_def number.simps) simp
  then show ?thesis
    using u len'(1) unfolding run u_def [symmetric] valv by simp
qed

lemma div_prepare_yields:
  assumes D: "deci_ok D" and a: "num_ok D a"
    and fits: "fits D (nwords a - scale a + max (scale a) ms + mb)"
  shows "div_prepare D a mb ms = Some (a\<lparr>nrefs := 1,
    words := replicate (max (scale a) ms + mb - scale a) 0 @ words a, scale := max (scale a) ms\<rparr>)"
proof -
  note a' = num_okD [OF a]
  let ?sr = "max (scale a) ms"
  have "nwords a - scale a + ?sr + mb < SIZE_MAX"
    by (rule fits_less_zu [OF D fits])
  then have sat: "uu_add_zu_or_saturate ?sr mb = ?sr + mb"
    by (simp add: uu_add_zu_or_saturate_eq)
  have "mkuniq_scale_up D a (?sr + mb) =
    Some (a\<lparr>nrefs := 1, words := replicate (?sr + mb - scale a) 0 @ words a, scale := ?sr + mb\<rparr>)"
    by (rule mkuniq_scale_up_eq [OF D a'(2)]) (use fits in \<open>simp_all add: add.assoc\<close>)
  moreover have "(if ms > scale a then ms else scale a) = ?sr"
    by simp
  ultimately show ?thesis
    unfolding div_prepare_def Let_def by (simp add: sat)
qed

text \<open>The words a division works on.\<close>

definition div_words :: "number \<Rightarrow> number \<Rightarrow> ntp \<Rightarrow> nat" where
  "div_words a b p = nwords a - scale a + max (scale a) (ntp_scale p) + scale b"

lemma floor_nat_quotient: "\<lfloor>of_nat x / of_nat y :: rat\<rfloor> = int (x div y)"
  using floor_divide_of_nat_eq [of x y, where 'a = rat] by simp

text \<open>The quotient of the widened words, in places of the precision.\<close>

lemma div_value:
  fixes wa wb B :: nat
  assumes p: "m * 10 ^ prec = B ^ ps" "0 < m" and "ps \<le> sr" and "sa \<le> sr + sb" and "0 < B" and "0 < wb"
  shows "int (B ^ (sr + sb - sa) * wa div wb div B ^ (sr - ps) div m) =
    \<lfloor>(of_nat wa / of_nat B ^ sa) / (of_nat wb / of_nat B ^ sb) * 10 ^ prec :: rat\<rfloor>"
proof -
  let ?N = "B ^ (sr + sb - sa) * wa" and ?M = "wb * B ^ (sr - ps) * m"
  have m: "of_nat m * 10 ^ prec = (of_nat B ^ ps :: rat)"
    using arg_cong [OF p(1), of "of_nat :: nat \<Rightarrow> rat"] by simp
  have B: "(of_nat B :: rat) \<noteq> 0" "(of_nat m :: rat) \<noteq> 0" "(of_nat wb :: rat) \<noteq> 0"
    using assms by simp_all
  have e1: "(of_nat B :: rat) ^ (sr + sb - sa) * of_nat B ^ sa = of_nat B ^ sr * of_nat B ^ sb"
    using assms(4) by (simp flip: power_add)
  have e2: "(of_nat B :: rat) ^ (sr - ps) * of_nat B ^ ps = of_nat B ^ sr"
    using assms(3) by (simp flip: power_add)
  have "of_nat ?N * (of_nat B ^ sa * of_nat wb) = (of_nat wa * of_nat B ^ sb * (10 ^ prec * of_nat ?M) :: rat)"
  proof -
    have "of_nat ?N * (of_nat B ^ sa * of_nat wb) =
        of_nat wa * of_nat wb * (of_nat B ^ (sr + sb - sa) * of_nat B ^ sa :: rat)"
      by (simp add: mult_ac)
    also have "\<dots> = of_nat wa * of_nat wb * (of_nat B ^ (sr - ps) * of_nat B ^ ps * of_nat B ^ sb)"
      unfolding e1 e2 ..
    also have "\<dots> = of_nat wa * of_nat wb * (of_nat B ^ (sr - ps) * (of_nat m * 10 ^ prec) * of_nat B ^ sb)"
      unfolding m ..
    finally show ?thesis by (simp add: mult_ac)
  qed
  then have "(of_nat wa / of_nat B ^ sa) / (of_nat wb / of_nat B ^ sb) * 10 ^ prec = (of_nat ?N / of_nat ?M :: rat)"
    using B by (auto simp: frac_eq_eq mult_ac)
  then show ?thesis
    by (simp only: floor_nat_quotient div_mult2_eq mult.assoc)
qed

lemma number_div_yields:
  assumes D: "deci_ok D" and a: "num_ok D a" and b: "num_ok D b" and nz: "num_val D b \<noteq> 0"
    and p: "ntp_ok D p prec" and fits: "fits D (div_words a b p)"
  shows "yields (number_div D a b p)
    (\<lambda>r. num_ok D r \<and> num_val D r = trunc_to prec (num_val D a / num_val D b) \<and>
       scale r = ntp_scale p \<and> nwords r \<le> div_words a b p \<and> nrefs r = 1 \<and>
       sign r = (sign a \<noteq> sign b))"
proof -
  note a' = num_okD [OF a] and b' = num_okD [OF b]
  let ?B = "DECI_BASE D" and ?sr = "max (scale a) (ntp_scale p)"
  let ?ws = "replicate (?sr + scale b - scale a) 0 @ words a"
  let ?a = "\<lparr>nrefs = 1, sign = (sign a \<noteq> sign b), scale = ?sr, words = ?ws\<rparr>"
  have wb: "0 < wval ?B (words b)"
    using nz by (simp add: num_val_eq_0 num_abs_eq_0)
  have okw: "words_ok ?B ?ws" and lenw: "length ?ws = div_words a b p"
    using a'(1,2) by (simp_all add: div_words_def)
  obtain w n where div: "fancy_div D ?ws (words b) = Some (w, n)" "length w = length ?ws" "n \<le> length ?ws"
    "words_ok ?B (take n w)" "wval ?B (take n w) = wval ?B ?ws div wval ?B (words b)"
    using fancy_div_yields [OF D okw b'(1)] wb by (auto simp: yields_iff_ex result_at_def)
  have lens: "length w = div_words a b p" "n \<le> div_words a b p"
    using div(2,3) unfolding lenw .
  have sr: "?sr \<le> div_words a b p"
    unfolding div_words_def by linarith
  have "yields (unsafe_normalize_after_div D (?a\<lparr>words := w\<rparr>) n p)
    (\<lambda>r. num_ok D r \<and> sign r = sign (?a\<lparr>words := w\<rparr>) \<and> nrefs r = nrefs (?a\<lparr>words := w\<rparr>) \<and>
       scale r = ntp_scale p \<and> nwords r \<le> nwords (?a\<lparr>words := w\<rparr>) \<and>
       wval ?B (words r) = submod p *
         (wval ?B (take n (words (?a\<lparr>words := w\<rparr>))) div ?B ^ (scale (?a\<lparr>words := w\<rparr>) - ntp_scale p) div submod p))"
    by (rule unsafe_normalize_after_div_yields [OF D p]) (use lens sr div(4) fits in simp_all)
  then have "yields (unsafe_normalize_after_div D (?a\<lparr>words := w\<rparr>) n p)
    (\<lambda>r. num_ok D r \<and> num_val D r = trunc_to prec (num_val D a / num_val D b) \<and>
       scale r = ntp_scale p \<and> nwords r \<le> div_words a b p \<and> nrefs r = 1 \<and> sign r = (sign a \<noteq> sign b))"
  proof (rule yields_conseq)
    fix r
    let ?q = "wval ?B ?ws div wval ?B (words b) div ?B ^ (?sr - ntp_scale p) div submod p"
    assume r: "num_ok D r \<and> sign r = sign (?a\<lparr>words := w\<rparr>) \<and> nrefs r = nrefs (?a\<lparr>words := w\<rparr>) \<and>
       scale r = ntp_scale p \<and> nwords r \<le> nwords (?a\<lparr>words := w\<rparr>) \<and>
       wval ?B (words r) = submod p *
         (wval ?B (take n (words (?a\<lparr>words := w\<rparr>))) div ?B ^ (scale (?a\<lparr>words := w\<rparr>) - ntp_scale p) div submod p)"
    then have val: "wval ?B (words r) = submod p * ?q"
      using div(5) by simp
    have p': "submod p * 10 ^ prec = ?B ^ ntp_scale p" "0 < submod p"
      using p by (simp_all add: ntp_ok_def)
    have m: "of_nat (submod p) * 10 ^ prec = (of_nat ?B ^ ntp_scale p :: rat)"
      using arg_cong [OF p'(1), of "of_nat :: nat \<Rightarrow> rat"] by simp
    have "wval ?B ?ws = ?B ^ (?sr + scale b - scale a) * wval ?B (words a)"
      by (simp add: wval_append)
    then have fl: "int ?q = \<lfloor>num_abs D a / num_abs D b * 10 ^ prec\<rfloor>"
      unfolding num_abs_def
      using div_value [OF p', of ?sr "scale a" "scale b" "wval ?B (words b)" "wval ?B (words a)"] wb by simp
    have "num_abs D r = of_nat (submod p) * of_nat ?q / of_nat ?B ^ ntp_scale p"
      using r val by (simp add: num_abs_def)
    also have "\<dots> = of_nat ?q / 10 ^ prec"
      using p'(2) by (simp flip: m)
    also have "(of_nat ?q :: rat) = of_int \<lfloor>num_abs D a / num_abs D b * 10 ^ prec\<rfloor>"
      unfolding fl [symmetric] by simp
    finally have abs: "num_abs D r = of_int \<lfloor>num_abs D a / num_abs D b * 10 ^ prec\<rfloor> / 10 ^ prec" .
    have "num_val D a / num_val D b =
        (if sign a \<noteq> sign b then - (num_abs D a / num_abs D b) else num_abs D a / num_abs D b)"
      by (simp add: num_val_def)
    then have "trunc_to prec (num_val D a / num_val D b) = (if sign a \<noteq> sign b then - num_abs D r else num_abs D r)"
      unfolding abs by (intro trunc_to_signed) simp_all
    with r show "num_ok D r \<and> num_val D r = trunc_to prec (num_val D a / num_val D b) \<and>
       scale r = ntp_scale p \<and> nwords r \<le> div_words a b p \<and> nrefs r = 1 \<and> sign r = (sign a \<noteq> sign b)"
      using div(2) lenw by (simp add: num_val_def)
  qed
  moreover have "div_prepare D a (scale b) (ntp_scale p) = Some (a\<lparr>nrefs := 1, words := ?ws, scale := ?sr\<rparr>)"
    by (rule div_prepare_yields [OF D a]) (use fits in \<open>simp add: div_words_def\<close>)
  ultimately show ?thesis
    using div(1) by (cases a) (simp add: number_div_def)
qed

text \<open>
  C8: Division. For a non-zero divisor and any precision of \<open>prec\<close> decimal digits, \<open>number_div\<close> returns
  a well-formed number whose value is the exact quotient cut off after \<open>prec\<close> decimal places, toward
  zero, with the sign that the operands' signs give.
\<close>

theorem number_div_truncates:
  assumes "deci_ok D" and "num_ok D a" and "num_ok D b" and "num_val D b \<noteq> 0"
    and "fits D (div_words a b (ntp_from_prec D prec))"
  shows "yields (number_div D a b (ntp_from_prec D prec))
    (\<lambda>r. num_ok D r \<and> num_val D r = trunc_to prec (num_val D a / num_val D b) \<and>
       scale r = ntp_scale (ntp_from_prec D prec))"
  by (rule yields_conseq [OF number_div_yields [OF assms(1-4) ntp_from_prec_ok [OF assms(1)] assms(5)]]) simp

theorem number_div_truncates_witness:
  "let a = \<lparr>nrefs = 1, sign = True, scale = 1, words = [500, 1]\<rparr>;
       b = \<lparr>nrefs = 1, sign = False, scale = 0, words = [3]\<rparr> in
   yields (number_div deci_ref a b (ntp_from_prec deci_ref 4)) (\<lambda>r. num_val deci_ref r = trunc_to 4 (-1/2))"
proof -
  let ?a = "\<lparr>nrefs = 1, sign = True, scale = 1, words = [500, 1]\<rparr>"
  let ?b = "\<lparr>nrefs = 1, sign = False, scale = 0, words = [3]\<rparr>"
  have "num_val deci_ref ?b \<noteq> 0" "fits deci_ref (div_words ?a ?b (ntp_from_prec deci_ref 4))"
    by (simp_all add: sample_val sample_ok SIZE_MAX_def div_words_def ntp_from_prec_def)
  from number_div_truncates [OF deci_ref_ok sample_ok(1) sample_ok(2) this] show ?thesis
    unfolding Let_def sample_val by (rule yields_conseq) simp
qed

section \<open>Integer quotient and remainder\<close>

definition trunc_int :: "deci \<Rightarrow> number \<Rightarrow> int" where
  "trunc_int D a = (if sign a then - int (num_int D a) else int (num_int D a))"

lemma trunc_int_eq: "num_ok D a \<Longrightarrow> trunc_int D a = (if num_val D a < 0 then \<lceil>num_val D a\<rceil> else \<lfloor>num_val D a\<rfloor>)"
  using floor_num_abs [of D a] num_abs_nonneg [of D a]
  by (cases "num_abs D a = 0") (auto simp: trunc_int_def num_val_def ceiling_minus order_less_le simp del: num_abs_nonneg)

lemma unsafe_normalize_after_idiv_yields:
  assumes D: "deci_ok D" and n: "n \<le> nwords a" and okw: "words_ok (DECI_BASE D) (take n (words a))"
    and sc: "scale a = 0" and fits: "fits D (nwords a)"
  shows "yields (unsafe_normalize_after_idiv D a n)
    (\<lambda>r. num_ok D r \<and> scale r = 0 \<and> sign r = sign a \<and> nrefs r = nrefs a \<and>
       num_abs D r = of_nat (wval (DECI_BASE D) (take n (words a))))"
proof -
  let ?m = "deci_normalize D (take n (words a))"
  have m: "?m \<le> n"
    using deci_normalize_law(1) [OF D, of "take n (words a)"] n by simp
  have "unsafe_strip D a ?m 0 = Some (a\<lparr>words := take ?m (words a), scale := 0\<rparr>)"
    using unsafe_strip_eq [OF D fits, of 0 ?m] m n sc by simp
  moreover have "take ?m (words a) = take ?m (take n (words a))"
    using m by (simp add: min_absorb1)
  ultimately have run: "unsafe_normalize_after_idiv D a n =
      Some (a\<lparr>words := take ?m (take n (words a)), scale := 0\<rparr>)"
    by (simp only: unsafe_normalize_after_idiv_def Let_def)
  define vs where "vs = take ?m (take n (words a))"
  have "fits D (length vs)"
    by (rule fits_mono [OF fits]) (simp add: vs_def)
  moreover have "normalized vs" "words_ok (DECI_BASE D) vs"
    "wval (DECI_BASE D) vs = wval (DECI_BASE D) (take n (words a))"
    unfolding vs_def by (rule deci_normalize_law(3) [OF D] words_ok_take [OF okw] deci_normalize_val [OF D])+
  ultimately show ?thesis
    using sc unfolding run [folded vs_def] by (simp add: num_ok_def num_abs_def)
qed

lemma idiv_imod_yields:
  assumes D: "deci_ok D" and a: "num_ok D a" and b: "num_ok D b" and nz: "num_int D b \<noteq> 0"
  shows "yields (number_idiv D a b) (\<lambda>r. num_ok D r \<and> scale r = 0 \<and> sign r = (sign a \<noteq> sign b) \<and>
      num_abs D r = of_nat (num_int D a div num_int D b))"
    and "yields (number_imod D a b) (\<lambda>r. num_ok D r \<and> scale r = 0 \<and> sign r = sign a \<and>
      num_abs D r = of_nat (num_int D a mod num_int D b))"
proof -
  note a' = num_okD [OF a] and b' = num_okD [OF b]
  let ?B = "DECI_BASE D"
  let ?wa = "drop (scale a) (words a)" and ?wb = "drop (scale b) (words b)"
  have down: "mkuniq_scale_down D a 0 = Some (a\<lparr>nrefs := 1, words := ?wa, scale := 0\<rparr>)"
    using mkuniq_scale_down_eq [OF D a'(2) _ a'(4), of 0] by simp
  have ok: "words_ok ?B ?wa" "words_ok ?B ?wb" "wval ?B ?wb \<noteq> 0" "fits D (length ?wa)"
    using a' b' nz by (auto simp: num_int_def intro: words_ok_drop fits_mono)
  show "yields (number_idiv D a b) (\<lambda>r. num_ok D r \<and> scale r = 0 \<and> sign r = (sign a \<noteq> sign b) \<and>
      num_abs D r = of_nat (num_int D a div num_int D b))"
  proof -
    obtain w n where div: "fancy_div D ?wa ?wb = Some (w, n)" "length w = length ?wa" "n \<le> length ?wa"
      "words_ok ?B (take n w)" "wval ?B (take n w) = wval ?B ?wa div wval ?B ?wb"
      using fancy_div_yields [OF D ok(1-3)] by (auto simp: yields_iff_ex result_at_def)
    let ?a = "a\<lparr>nrefs := 1, scale := 0, sign := (sign a \<noteq> sign b), words := w\<rparr>"
    have "yields (unsafe_normalize_after_idiv D ?a n)
      (\<lambda>r. num_ok D r \<and> scale r = 0 \<and> sign r = sign ?a \<and> nrefs r = nrefs ?a \<and>
         num_abs D r = of_nat (wval ?B (take n (words ?a))))"
      by (rule unsafe_normalize_after_idiv_yields [OF D]) (use div ok(4) in simp_all)
    then show ?thesis
      using div(1,5) by (auto simp: number_idiv_def down num_int_def elim!: yields_conseq)
  qed
  show "yields (number_imod D a b) (\<lambda>r. num_ok D r \<and> scale r = 0 \<and> sign r = sign a \<and>
      num_abs D r = of_nat (num_int D a mod num_int D b))"
  proof -
    obtain w n where md: "fancy_mod D ?wa ?wb = Some (w, n)" "length w = length ?wa" "n \<le> length ?wa"
      "words_ok ?B (take n w)" "wval ?B (take n w) = wval ?B ?wa mod wval ?B ?wb"
      using fancy_mod_yields [OF D ok(1-3)] by (auto simp: yields_iff_ex result_at_def)
    let ?a = "a\<lparr>nrefs := 1, scale := 0, words := w\<rparr>"
    have "yields (unsafe_normalize_after_idiv D ?a n)
      (\<lambda>r. num_ok D r \<and> scale r = 0 \<and> sign r = sign ?a \<and> nrefs r = nrefs ?a \<and>
         num_abs D r = of_nat (wval ?B (take n (words ?a))))"
      by (rule unsafe_normalize_after_idiv_yields [OF D]) (use md ok(4) in simp_all)
    then show ?thesis
      using md(1,5) by (auto simp: number_imod_def down num_int_def elim!: yields_conseq)
  qed
qed

text \<open>
  C11: Integer division works on the integer parts \<open>A\<close> and \<open>B\<close> of its operands (cut off toward zero)
  and rounds toward zero: the integers \<open>q\<close> and \<open>m\<close> that \<open>number_idiv\<close> and \<open>number_imod\<close> return satisfy
  \<open>A = q * B + m\<close>, \<open>|m| < |B|\<close>, and \<open>m\<close> is zero or has the sign of \<open>A\<close>.
\<close>

theorem idiv_imod_exact:
  assumes D: "deci_ok D" and a: "num_ok D a" and b: "num_ok D b" and nz: "trunc_int D b \<noteq> 0"
  shows "yields (do { q \<leftarrow> number_idiv D a b; m \<leftarrow> number_imod D a b; Some (q, m) })
    (\<lambda>(q, m). num_ok D q \<and> num_ok D m \<and> scale q = 0 \<and> scale m = 0 \<and>
       num_val D q * of_int (trunc_int D b) + num_val D m = of_int (trunc_int D a) \<and>
       \<bar>num_val D m\<bar> < of_int \<bar>trunc_int D b\<bar> \<and> 0 \<le> num_val D m * of_int (trunc_int D a))"
proof -
  have nz': "num_int D b \<noteq> 0"
    using nz by (simp add: trunc_int_def split: if_splits)
  obtain q m where run: "number_idiv D a b = Some q" "number_imod D a b = Some m"
    and q: "num_ok D q" "scale q = 0" "sign q = (sign a \<noteq> sign b)" "num_abs D q = of_nat (num_int D a div num_int D b)"
    and m: "num_ok D m" "scale m = 0" "sign m = sign a" "num_abs D m = of_nat (num_int D a mod num_int D b)"
    using idiv_imod_yields [OF D a b nz'] by (auto simp: yields_iff_ex)
  have "(of_nat (num_int D a) :: rat) =
      of_nat (num_int D a div num_int D b) * of_nat (num_int D b) + of_nat (num_int D a mod num_int D b)"
    by (simp only: of_nat_mult [symmetric] of_nat_add [symmetric] div_mult_mod_eq)
  moreover have "(of_nat (num_int D a mod num_int D b) :: rat) < of_nat (num_int D b)"
    using nz' by simp
  moreover have "num_val D m * of_int (trunc_int D a) =
      of_nat (num_int D a mod num_int D b) * of_nat (num_int D a)"
    using m by (simp add: num_val_def trunc_int_def)
  then have "0 \<le> num_val D m * of_int (trunc_int D a)"
    by simp
  ultimately show ?thesis
    using q m unfolding run bind.simps yields_Some prod.case
    by (intro conjI) (simp_all add: num_val_def trunc_int_def)
qed

theorem idiv_imod_exact_witness:
  "let a = \<lparr>nrefs = 1, sign = True, scale = 2, words = [1, 750, 3]\<rparr>;
       b = \<lparr>nrefs = 1, sign = False, scale = 1, words = [500, 1]\<rparr> in
   yields (do { q \<leftarrow> number_idiv deci_ref a b; m \<leftarrow> number_imod deci_ref a b; Some (q, m) })
    (\<lambda>(q, m). num_val deci_ref q * 1 + num_val deci_ref m = -3 \<and> \<bar>num_val deci_ref m\<bar> < 1)"
proof -
  let ?a = "\<lparr>nrefs = 1, sign = True, scale = 2, words = [1, 750, 3]\<rparr>"
  let ?b = "\<lparr>nrefs = 1, sign = False, scale = 1, words = [500, 1]\<rparr>"
  have t: "trunc_int deci_ref ?a = -3" "trunc_int deci_ref ?b = 1"
    by (simp_all add: trunc_int_def num_int_def)
  then have nz: "trunc_int deci_ref ?b \<noteq> 0" by simp
  from idiv_imod_exact [OF deci_ref_ok sample_ok(3) sample_ok(1) nz, of 1 True] show ?thesis
    unfolding Let_def t by (rule yields_conseq) auto
qed

end
