(* ===== verification/Number_Round.thy ===== *)
theory Number_Round
  imports Number_Div
begin

text \<open>
  Rounding to integers and scaling by powers of ten: what the operations of \<open>Number_Div\<close> compute.
\<close>

section \<open>Rounding\<close>

text \<open>The integer part with the sign kept.\<close>

lemma int_part_yields:
  assumes D: "deci_ok D" and a: "num_ok D a"
  shows "yields (mkuniq_scale_down D a 0)
    (\<lambda>r. num_ok D r \<and> scale r = 0 \<and> sign r = sign a \<and> nrefs r = 1 \<and> num_abs D r = of_nat (num_int D a))"
proof -
  note a' = num_okD [OF a]
  have "fits D (nwords a - scale a)"
    by (rule fits_mono [OF a'(4)]) simp
  then show ?thesis
    using a' mkuniq_scale_down_eq [OF D a'(2) _ a'(4), of 0]
    by (auto simp: num_ok_def num_abs_def num_int_def intro: words_ok_drop)
qed

text \<open>The magnitude plus one when a condition holds, then the integer part: the shape of all roundings.\<close>

lemma bump_int_part_yields:
  assumes D: "deci_ok D" and a: "num_ok D a" and fits: "fits D (Suc (nwords a))"
  shows "yields (do { a \<leftarrow> (if c then number_abs_add_uword D a 1 else Some a); mkuniq_scale_down D a 0 })
    (\<lambda>r. num_ok D r \<and> scale r = 0 \<and> sign r = sign a \<and>
       num_abs D r = of_nat (num_int D a + (if c then 1 else 0)))"
proof (cases c)
  case False
  then show ?thesis
    using int_part_yields [OF D a] by (auto elim!: yields_conseq)
next
  case True
  have int: "yields (mkuniq_scale_down D b 0) (\<lambda>r. num_ok D r \<and> scale r = 0 \<and> sign r = sign a \<and>
       num_abs D r = of_nat (num_int D a + (if c then 1 else 0)))"
    if b: "num_ok D b \<and> num_abs D b = num_abs D a + of_nat 1 \<and> sign b = sign a" for b
  proof -
    have "num_int D b = num_int D a + 1"
      using floor_num_abs [of D b] floor_num_abs [OF a] b by simp
    with b True show ?thesis
      by (intro yields_conseq [OF int_part_yields [OF D]]) auto
  qed
  have "yields (number_abs_add_uword D a 1) (\<lambda>b. num_ok D b \<and> num_abs D b = num_abs D a + of_nat 1 \<and> sign b = sign a)"
    by (rule yields_conseq [OF number_abs_add_uword_yields [OF D a DECI_BASE_gt_1 [OF D] fits]]) simp
  then show ?thesis
    unfolding if_P [OF True] yields_bind
    by (rule yields_conseq) (use int True in simp)
qed

definition round_half_away :: "rat \<Rightarrow> int" where
  "round_half_away x = (if x < 0 then - \<lfloor>- x + 1 / 2\<rfloor> else \<lfloor>x + 1 / 2\<rfloor>)"

lemma floor_half: "\<lfloor>1 / 2 :: rat\<rfloor> = 0"
  by (simp add: floor_eq_iff)

text \<open>The first fractional word decides whether the fraction is at least one half.\<close>

lemma half_digit:
  assumes D: "deci_ok D" and a: "num_ok D a"
  shows "scale a \<noteq> 0 \<and> words a ! (scale a - 1) \<ge> DECI_BASE D div 2 \<longleftrightarrow>
    num_abs D a - of_nat (num_int D a) \<ge> 1 / 2"
proof (cases "scale a")
  case 0
  then show ?thesis
    using num_abs_split [OF a] by simp
next
  case (Suc s)
  note a' = num_okD [OF a]
  let ?B = "DECI_BASE D"
  let ?F = "wval ?B (take (scale a) (words a))" and ?t = "words a ! s"
  obtain h where h: "?B = 2 * h"
    using deci_ok_config(1) [OF D] by (cases "DECI_BASE_LOG D") (auto simp: DECI_BASE_def)
  have "take (scale a) (words a) = take s (words a) @ [?t]"
    using Suc a'(2) by (simp add: take_Suc_conv_app_nth)
  then have F: "?F = wval ?B (take s (words a)) + ?B ^ s * ?t"
    using Suc a'(2) by (simp add: wval_append min_absorb2)
  have "wval ?B (take s (words a)) < ?B ^ s"
    using wval_less [OF words_ok_take [OF a'(1)], of s] Suc a'(2) by (simp add: min_absorb2)
  then have low: "?F < ?B ^ s * Suc ?t" "?B ^ s * ?t \<le> ?F"
    unfolding F by simp_all
  have "h \<le> ?t \<longleftrightarrow> h * ?B ^ s \<le> ?F"
  proof
    assume "h \<le> ?t"
    then have "?B ^ s * h \<le> ?B ^ s * ?t" by (rule mult_le_mono2)
    with low(2) show "h * ?B ^ s \<le> ?F" by (metis le_trans mult.commute)
  next
    assume le: "h * ?B ^ s \<le> ?F"
    show "h \<le> ?t"
    proof (rule ccontr)
      assume "\<not> h \<le> ?t"
      then have "?B ^ s * Suc ?t \<le> ?B ^ s * h" by (intro mult_le_mono2) simp
      with low(1) le show False by (simp add: mult.commute)
    qed
  qed
  also have "\<dots> \<longleftrightarrow> ?B ^ scale a \<le> 2 * ?F"
    using h Suc by simp
  also have "\<dots> \<longleftrightarrow> (of_nat ?B ^ scale a :: rat) \<le> 2 * of_nat ?F"
    using of_nat_le_iff [where 'a = rat, of "?B ^ scale a" "2 * ?F"] by simp
  also have "\<dots> \<longleftrightarrow> (of_nat ?F / of_nat ?B ^ scale a :: rat) \<ge> 1 / 2"
    by (simp add: field_simps)
  finally show ?thesis
    using Suc h num_abs_split [OF a] by simp
qed

lemma rounding_yields:
  assumes D: "deci_ok D" and a: "num_ok D a" and fits: "fits D (Suc (nwords a))"
  shows "yields (number_floor D a) (\<lambda>r. num_ok D r \<and> scale r = 0 \<and> num_val D r = of_int \<lfloor>num_val D a\<rfloor>) \<and>
    yields (number_ceil D a) (\<lambda>r. num_ok D r \<and> scale r = 0 \<and> num_val D r = of_int \<lceil>num_val D a\<rceil>) \<and>
    yields (number_trunc D a) (\<lambda>r. num_ok D r \<and> scale r = 0 \<and> num_val D r = trunc_to 0 (num_val D a)) \<and>
    yields (number_round D a) (\<lambda>r. num_ok D r \<and> scale r = 0 \<and>
      num_val D r = of_int (round_half_away (num_val D a)))"
proof -
  let ?n = "num_int D a" and ?x = "num_abs D a"
  note fl = floor_num_abs [OF a] and fz = number_is_fzero_iff [OF D a]
  have ceil: "\<lceil>?x\<rceil> = int ?n + (if ?x = of_nat ?n then 0 else 1)"
    using fl by (auto simp: ceiling_altdef)
  have rnd: "\<lfloor>?x + 1 / 2\<rfloor> = int ?n + (if ?x - of_nat ?n \<ge> 1 / 2 then 1 else 0)"
    using fl by (intro floor_unique) (auto simp: floor_eq_iff)
  note bump = bump_int_part_yields [OF D a fits]
  have "yields (number_floor D a) (\<lambda>r. num_ok D r \<and> scale r = 0 \<and> num_val D r = of_int \<lfloor>num_val D a\<rfloor>)"
    unfolding number_floor_def
    by (rule yields_conseq [OF bump]) (auto simp: num_val_def fz floor_minus ceil fl)
  moreover have "yields (number_ceil D a) (\<lambda>r. num_ok D r \<and> scale r = 0 \<and> num_val D r = of_int \<lceil>num_val D a\<rceil>)"
    unfolding number_ceil_def
    by (rule yields_conseq [OF bump]) (auto simp: num_val_def fz ceiling_minus ceil fl)
  moreover have "yields (number_trunc D a) (\<lambda>r. num_ok D r \<and> scale r = 0 \<and> num_val D r = trunc_to 0 (num_val D a))"
    unfolding number_trunc_def trunc_to_signed [OF num_abs_nonneg num_val_def]
    by (rule yields_conseq [OF int_part_yields [OF D a]]) (auto simp: num_val_def fl)
  moreover have "round_half_away (num_val D a) = (if sign a then - \<lfloor>?x + 1 / 2\<rfloor> else \<lfloor>?x + 1 / 2\<rfloor>)"
    using num_abs_nonneg [of D a]
    by (cases "?x = 0") (auto simp: round_half_away_def num_val_def floor_half order_less_le simp del: num_abs_nonneg)
  then have "yields (number_round D a) (\<lambda>r. num_ok D r \<and> scale r = 0 \<and>
      num_val D r = of_int (round_half_away (num_val D a)))"
    unfolding number_round_def half_digit [OF D a]
    by (intro yields_conseq [OF bump]) (auto simp: num_val_def rnd)
  ultimately show ?thesis by blast
qed

text \<open>
  C23: Rounding to integers: \<open>number_floor\<close> rounds toward minus infinity, \<open>number_trunc\<close> toward zero,
  \<open>number_round\<close> to the nearest integer with halves away from zero; all three results are well-formed
  integers without fractional words, and none of the operations aborts.
\<close>

theorem rounding_exact:
  assumes D: "deci_ok D" and a: "num_ok D a" and fits: "fits D (Suc (nwords a))"
  shows "yields (number_floor D a) (\<lambda>r. num_ok D r \<and> scale r = 0 \<and> num_val D r = of_int \<lfloor>num_val D a\<rfloor>) \<and>
    yields (number_trunc D a) (\<lambda>r. num_ok D r \<and> scale r = 0 \<and> num_val D r = trunc_to 0 (num_val D a)) \<and>
    yields (number_round D a) (\<lambda>r. num_ok D r \<and> scale r = 0 \<and>
      num_val D r = of_int (round_half_away (num_val D a)))"
  using rounding_yields [OF assms] by blast

theorem rounding_exact_witness:
  "let a = \<lparr>nrefs = 2, sign = True, scale = 1, words = [500, 1]\<rparr> in
   yields (number_floor deci_ref a) (\<lambda>r. num_val deci_ref r = -2) \<and>
   yields (number_round deci_ref a) (\<lambda>r. num_val deci_ref r = -2)"
proof -
  let ?a = "\<lparr>nrefs = 2, sign = True, scale = 1, words = [500, 1]\<rparr>"
  have "fits deci_ref (Suc (nwords ?a))"
    by (simp add: sample_ok SIZE_MAX_def)
  note r = rounding_exact [OF deci_ref_ok sample_ok(1) this]
  have fl: "\<lfloor>- (3 / 2) :: rat\<rfloor> = -2" and rd: "round_half_away (- (3 / 2)) = -2"
    by (simp_all add: floor_eq_iff round_half_away_def)
  show ?thesis
    using r unfolding Let_def sample_val by (auto simp: fl rd elim!: yields_conseq)
qed

text \<open>
  \<open>number_ceil\<close> rounds toward plus infinity, for negative numbers too, where the README says that it rounds away
  from zero.
\<close>

lemma number_ceil_toward_plus_infinity:
  assumes "deci_ok D" and "num_ok D a" and "fits D (Suc (nwords a))"
  shows "yields (number_ceil D a) (\<lambda>r. num_ok D r \<and> scale r = 0 \<and> num_val D r = of_int \<lceil>num_val D a\<rceil>)"
  using rounding_yields [OF assms] by blast

lemma number_frac_yields:
  assumes D: "deci_ok D" and a: "num_ok D a"
  shows "yields (number_frac D a) (\<lambda>r. num_ok D r \<and> sign r = sign a \<and> num_abs D r = num_abs D a - of_nat (num_int D a))"
proof -
  note a' = num_okD [OF a]
  let ?a = "a\<lparr>nrefs := 1\<rparr>"
  have "unsafe_strip D ?a (scale a) (scale a) = Some (?a\<lparr>words := take (scale a) (words a), scale := scale a\<rparr>)"
    by (subst unsafe_strip_eq [OF D]) (use a' in auto)
  moreover have "fits D (min (nwords a) (scale a))"
    by (rule fits_mono [OF a'(4)]) simp
  ultimately show ?thesis
    using a' num_abs_split [OF a] mkuniq_eq [OF D a'(4)]
    by (auto simp: number_frac_def num_ok_def num_abs_def min_absorb2 intro: words_ok_take)
qed

lemma trunc_to_0: "num_ok D a \<Longrightarrow> trunc_to 0 (num_val D a) = (if sign a then - of_nat (num_int D a) else of_nat (num_int D a))"
  using trunc_to_signed [OF num_abs_nonneg num_val_def, of 0 D a] floor_num_abs [of D a] by simp

text \<open>
  \<open>number_frac\<close> is the fractional part with the sign of the number: the value minus its truncation
  (for negative numbers too), of magnitude below one.
\<close>

theorem frac_exact:
  assumes "deci_ok D" and "num_ok D a"
  shows "yields (number_frac D a) (\<lambda>r. num_ok D r \<and>
    num_val D r = num_val D a - trunc_to 0 (num_val D a) \<and> \<bar>num_val D r\<bar> < 1)"
proof (rule yields_conseq [OF number_frac_yields [OF assms]])
  fix r
  assume r: "num_ok D r \<and> sign r = sign a \<and> num_abs D r = num_abs D a - of_nat (num_int D a)"
  have "num_abs D a - of_nat (num_int D a) < 1"
    using frac_part_less_1 [OF assms(2)] num_abs_split [OF assms(2)] by linarith
  with r show "num_ok D r \<and> num_val D r = num_val D a - trunc_to 0 (num_val D a) \<and> \<bar>num_val D r\<bar> < 1"
    unfolding abs_num_val trunc_to_0 [OF assms(2)] by (simp add: num_val_def)
qed

theorem frac_exact_witness:
  "yields (number_frac deci_ref \<lparr>nrefs = 2, sign = True, scale = 1, words = [500, 1]\<rparr>)
    (\<lambda>r. num_val deci_ref r = - 3 / 2 - trunc_to 0 (- 3 / 2))"
  by (rule yields_conseq [OF frac_exact [OF deci_ref_ok sample_ok(1)], unfolded sample_val]) simp

section \<open>Powers of ten\<close>

lemma pow10_split:
  "(10 :: rat) ^ n = of_nat (DECI_BASE D) ^ (n div DECI_BASE_LOG D) * 10 ^ (n mod DECI_BASE_LOG D)"
proof -
  have "(10 :: rat) ^ n = 10 ^ (DECI_BASE_LOG D * (n div DECI_BASE_LOG D) + n mod DECI_BASE_LOG D)"
    by simp
  then show ?thesis
    by (simp only: DECI_BASE_def power_add power_mult of_nat_power of_nat_numeral)
qed

lemma pow10_part:
  assumes "deci_ok D" and "r = n mod DECI_BASE_LOG D"
  shows "r < DECI_BASE_LOG D" and "10 ^ r < DECI_BASE D" and "10 ^ (DECI_BASE_LOG D - r) * 10 ^ r = DECI_BASE D"
proof -
  show "r < DECI_BASE_LOG D"
    using assms(2) deci_ok_config(1) [OF assms(1)] by simp
  then show "10 ^ r < DECI_BASE D" "10 ^ (DECI_BASE_LOG D - r) * 10 ^ r = DECI_BASE D"
    by (simp_all add: DECI_BASE_def power_strict_increasing flip: power_add)
qed

lemma divide_words_yields:
  assumes D: "deci_ok D" and a: "words_ok (DECI_BASE D) (words a)" "scale a \<le> nwords a"
    and fits: "fits D (Suc (nwords a))" and r: "r = n mod DECI_BASE_LOG D"
  shows "yields (divide_words D a r)
    (\<lambda>b. words_ok (DECI_BASE D) (words b) \<and> scale b \<le> nwords b \<and> nwords b \<le> Suc (nwords a) \<and>
       sign b = sign a \<and> num_abs D b = num_abs D a / 10 ^ r)"
proof (cases "r = 0")
  case True
  then show ?thesis
    using a by (simp add: divide_words_def)
next
  case False
  let ?B = "DECI_BASE D" and ?f = "10 ^ r :: nat"
  note p = pow10_part [OF D r]
  let ?W = "wval ?B (words a)"
  obtain ws where dm: "deci_divmod_uword D (words a) ?f = (ws, ?W mod ?f)"
    and ws: "words_ok ?B ws" "length ws = nwords a" "wval ?B ws = ?W div ?f"
    using deci_divmod_uword_law [OF D a(1) _ p(2)] by auto
  have W: "(of_nat ?W :: rat) = of_nat (?W div ?f) * 10 ^ r + of_nat (?W mod ?f)"
  proof -
    have "(of_nat ?W :: rat) = of_nat (?W div ?f * ?f + ?W mod ?f)"
      by (simp only: div_mult_mod_eq)
    then show ?thesis by simp
  qed
  show ?thesis
  proof (cases "?W mod ?f = 0")
    case True
    then have "of_nat ?W = (of_nat (?W div ?f) * 10 ^ r :: rat)"
      using W by simp
    then show ?thesis
      using False True dm ws a(2) by (simp add: divide_words_def num_abs_def)
  next
    case nz: False
    let ?m = "?W mod ?f * 10 ^ (DECI_BASE_LOG D - r)"
    have "mkuniq_scale_up D (a\<lparr>words := ws\<rparr>) (scale a + 1) =
        Some (a\<lparr>nrefs := 1, words := 0 # ws, scale := scale a + 1\<rparr>)"
      by (subst mkuniq_scale_up_eq [OF D]) (use ws(2) a(2) fits in \<open>auto intro: fits_mono\<close>)
    then have run: "divide_words D a r = Some (a\<lparr>nrefs := 1, scale := scale a + 1, words := ?m # ws\<rparr>)"
      using False nz dm by (simp add: divide_words_def Let_def)
    have "?W mod ?f < ?f" by simp
    then have "?m < ?f * 10 ^ (DECI_BASE_LOG D - r)"
      by (intro mult_strict_right_mono) simp_all
    then have m: "?m < ?B"
      unfolding mult.commute [of ?f] p(3) .
    have B: "(of_nat ?B :: rat) = 10 ^ (DECI_BASE_LOG D - r) * 10 ^ r"
      using arg_cong [OF p(3), of "of_nat :: nat \<Rightarrow> rat"] by simp
    have "of_nat (?m + ?B * (?W div ?f)) * 10 ^ r = (of_nat ?W * of_nat ?B :: rat)"
      unfolding W by (simp add: B algebra_simps)
    then have "num_abs D (a\<lparr>nrefs := 1, scale := scale a + 1, words := ?m # ws\<rparr>) = num_abs D a / 10 ^ r"
      by (simp add: num_abs_def ws(3) frac_eq_eq mult_ac)
    then show ?thesis
      using m ws a(2) by (simp add: run)
  qed
qed

lemma number_scale_down_yields:
  assumes D: "deci_ok D" and a: "num_ok D a"
    and fits: "fits D (Suc (max (nwords a) (scale a + n div DECI_BASE_LOG D)))"
  shows "yields (number_scale_down D a n) (\<lambda>r. num_ok D r \<and> sign r = sign a \<and> num_abs D r = num_abs D a / 10 ^ n)"
proof -
  note a' = num_okD [OF a]
  let ?q = "n div DECI_BASE_LOG D" and ?r = "n mod DECI_BASE_LOG D"
  let ?n = "max (nwords a) (scale a + ?q)"
  have "?n < SIZE_MAX"
    using fits_less_zu [OF D fits] by linarith
  then have "uu_add_zu_or_saturate (scale a) ?q = scale a + ?q"
    by (simp add: uu_add_zu_or_saturate_eq)
  then have size: "(if nwords a > uu_add_zu_or_saturate (scale a) ?q then nwords a
      else uu_add_zu_or_saturate (scale a) ?q) = ?n"
    by simp
  let ?a = "a\<lparr>nrefs := 1, words := words a @ replicate (?n - nwords a) 0, scale := scale a + ?q\<rparr>"
  have "mkuniq_extend D a ?n = Some (a\<lparr>nrefs := 1, words := words a @ replicate (?n - nwords a) 0\<rparr>)"
    by (rule mkuniq_extend_eq [OF D _ fits_mono [OF fits]]) linarith+
  then have run: "number_scale_down D a n = do { b \<leftarrow> divide_words D ?a ?r; unsafe_normalize_full D b }"
    unfolding number_scale_down_def Let_def size by simp
  have abs: "num_abs D ?a = num_abs D a / of_nat (DECI_BASE D) ^ ?q"
    by (simp add: num_abs_def wval_append power_add)
  have len: "nwords ?a = ?n" by simp
  have "yields (divide_words D ?a ?r)
    (\<lambda>b. words_ok (DECI_BASE D) (words b) \<and> scale b \<le> nwords b \<and> nwords b \<le> Suc (nwords ?a) \<and>
       sign b = sign ?a \<and> num_abs D b = num_abs D ?a / 10 ^ ?r)"
    by (rule divide_words_yields [OF D]) (use a'(1) fits in \<open>auto simp: len\<close>)
  then show ?thesis
    unfolding run
  proof (rule yields_bindI)
    fix b
    assume b: "words_ok (DECI_BASE D) (words b) \<and> scale b \<le> nwords b \<and> nwords b \<le> Suc (nwords ?a) \<and>
       sign b = sign ?a \<and> num_abs D b = num_abs D ?a / 10 ^ ?r"
    then have "fits D (nwords b)"
      unfolding len by (blast intro: fits_mono [OF fits])
    moreover from b have val: "num_abs D b = num_abs D a / 10 ^ n" and sgn: "sign b = sign a"
      unfolding abs pow10_split [of n D] by (simp_all del: of_nat_power)
    ultimately show "yields (unsafe_normalize_full D b)
        (\<lambda>r. num_ok D r \<and> sign r = sign a \<and> num_abs D r = num_abs D a / 10 ^ n)"
      using b by (intro yields_conseq [OF unsafe_normalize_full_yields [OF D]])
        (simp_all only: val sgn simp_thms)
  qed
qed

lemma number_scale_up_yields:
  assumes D: "deci_ok D" and a: "num_ok D a"
    and fits: "fits D (Suc (nwords a - scale a + max (scale a) (n div DECI_BASE_LOG D)))"
  shows "yields (number_scale_up D a n) (\<lambda>r. num_ok D r \<and> sign r = sign a \<and> num_abs D r = num_abs D a * 10 ^ n)"
proof -
  note a' = num_okD [OF a]
  let ?q = "n div DECI_BASE_LOG D" and ?r = "n mod DECI_BASE_LOG D" and ?B = "DECI_BASE D"
  let ?s = "max (scale a) ?q"
  let ?a = "a\<lparr>nrefs := 1, words := replicate (?s - scale a) 0 @ words a, scale := ?s - ?q\<rparr>"
  have size: "(if scale a > ?q then scale a else ?q) = ?s" by simp
  have fits': "fits D (nwords a - scale a + ?s)"
    by (rule fits_mono [OF fits]) linarith
  have up: "mkuniq_scale_up D a ?s = Some (a\<lparr>nrefs := 1, words := replicate (?s - scale a) 0 @ words a, scale := ?s\<rparr>)"
    by (rule mkuniq_scale_up_eq [OF D a'(2) _ fits']) simp
  have run: "number_scale_up D a n = do { b \<leftarrow> unsafe_normalize_full D ?a;
      if ?r \<noteq> 0 then number_mul_uword D b (word_from_pow10 ?r) else Some b }"
    unfolding number_scale_up_def Let_def size up by simp
  have abs: "num_abs D ?a = num_abs D a * of_nat ?B ^ ?q"
  proof -
    have "(of_nat ?B :: rat) ^ (?s - scale a) * (of_nat ?B ^ scale a) = of_nat ?B ^ (?s - ?q) * of_nat ?B ^ ?q"
      by (simp flip: power_add)
    then show ?thesis
      by (simp add: num_abs_def wval_append frac_eq_eq mult_ac)
  qed
  have len: "nwords ?a = nwords a - scale a + ?s"
    using a'(2) by simp
  have "yields (unsafe_normalize_full D ?a)
    (\<lambda>b. num_ok D b \<and> num_abs D b = num_abs D ?a \<and> sign b = sign ?a \<and> nrefs b = nrefs ?a \<and>
       scale b \<le> scale ?a \<and> nwords b \<le> nwords ?a)"
    by (rule unsafe_normalize_full_yields [OF D]) (use a'(1,2) fits' len in auto)
  then show ?thesis
    unfolding run
  proof (rule yields_bindI)
    fix b
    assume b: "num_ok D b \<and> num_abs D b = num_abs D ?a \<and> sign b = sign ?a \<and> nrefs b = nrefs ?a \<and>
       scale b \<le> scale ?a \<and> nwords b \<le> nwords ?a"
    then have f: "fits D (Suc (nwords b))"
      unfolding len by (intro fits_mono [OF fits]) simp
    have "10 ^ ?r < ?B"
      by (rule pow10_part [OF D refl])
    from b have "num_ok D b" and val: "num_abs D b = num_abs D a * of_nat ?B ^ ?q" and sgn: "sign b = sign a"
      unfolding abs by simp_all
    from number_mul_uword_yields [OF D this(1) \<open>10 ^ ?r < ?B\<close> f]
    have mul: "yields (number_mul_uword D b (10 ^ ?r))
        (\<lambda>r. num_ok D r \<and> sign r = sign a \<and> num_abs D r = num_abs D a * 10 ^ n)"
      by (rule yields_conseq) (simp add: val sgn pow10_split [of n D])
    show "yields (if ?r \<noteq> 0 then number_mul_uword D b (word_from_pow10 ?r) else Some b)
        (\<lambda>r. num_ok D r \<and> sign r = sign a \<and> num_abs D r = num_abs D a * 10 ^ n)"
    proof (cases "?r = 0")
      case True
      then show ?thesis
        using \<open>num_ok D b\<close> val sgn by (simp add: pow10_split [of n D])
    qed (use mul in simp)
  qed
qed

text \<open>
  Scaling by a power of ten is exact in both directions and for every exponent, whether or not it
  is a multiple of the digits in a word: no digit is lost by \<open>number_scale_down\<close>.
\<close>

theorem scale_exact:
  assumes "deci_ok D" and "num_ok D a"
    and "fits D (Suc (nwords a + n div DECI_BASE_LOG D))"
  shows "yields (number_scale_down D a n) (\<lambda>r. num_ok D r \<and> num_val D r = num_val D a / 10 ^ n) \<and>
    yields (number_scale_up D a n) (\<lambda>r. num_ok D r \<and> num_val D r = num_val D a * 10 ^ n)"
proof -
  note le = num_okD(2) [OF assms(2)]
  have "fits D (Suc (max (nwords a) (scale a + n div DECI_BASE_LOG D)))"
    "fits D (Suc (nwords a - scale a + max (scale a) (n div DECI_BASE_LOG D)))"
    by (rule fits_mono [OF assms(3)]; use le in auto)+
  from number_scale_down_yields [OF assms(1,2) this(1)] number_scale_up_yields [OF assms(1,2) this(2)]
  show ?thesis
    by (auto simp: num_val_def elim!: yields_conseq)
qed

theorem scale_exact_witness:
  "let a = \<lparr>nrefs = 1, sign = False, scale = 2, words = [1, 750, 3]\<rparr> in
   yields (number_scale_down deci_ref a 4) (\<lambda>r. num_val deci_ref r = 3750001 / 10 ^ 10)"
proof -
  let ?a = "\<lparr>nrefs = 1, sign = False, scale = 2, words = [1, 750, 3]\<rparr>"
  have "fits deci_ref (Suc (nwords ?a + 4 div DECI_BASE_LOG deci_ref))"
    by (simp add: sample_ok SIZE_MAX_def)
  from scale_exact [OF deci_ref_ok sample_ok(3) this] show ?thesis
    unfolding Let_def sample_val by (auto elim!: yields_conseq)
qed

end
