(* ===== verification/Lexemes.thy ===== *)
theory Lexemes
  imports Xht
begin

text \<open>
  The tokens of \<open>lexer.h\<close>: their kinds, with the numbers that the C enumeration gives them, and the
  table of keywords of \<open>lexer.c\<close>. Only the code generator's part of the datatype package is used for
  the kinds, of which there are 68.
\<close>

unbundle bit_operations_syntax

section \<open>Kinds\<close>

datatype (plugins only: code) lexeme_kind =
  LK_AND | LK_AND_AND | LK_AND_AND_EQ | LK_AND_EQ | LK_AT | LK_BANG | LK_BANG_EQ | LK_BREAK
  | LK_COMMA | LK_CONTINUE | LK_DOT | LK_ELIF | LK_ELSE | LK_EOF | LK_COLON | LK_COLON_EQ | LK_EQ
  | LK_EQ_EQ | LK_ERROR | LK_FALSE | LK_FOR | LK_FUN | LK_GREATER | LK_GREATER_EQ
  | LK_GREATER_GREATER | LK_GREATER_GREATER_EQ | LK_HAT | LK_HAT_EQ | LK_IDENT | LK_IF | LK_LBRACE
  | LK_LBRACKET | LK_LESS | LK_LESS_EQ | LK_LESS_LESS | LK_LESS_LESS_EQ | LK_LPAREN | LK_MINUS
  | LK_MINUS_EQ | LK_MINUS_GREATER | LK_NIL | LK_NUMBER | LK_OR | LK_OR_EQ | LK_OR_OR | LK_OR_OR_EQ
  | LK_PERCENT | LK_PERCENT_EQ | LK_PLUS | LK_PLUS_EQ | LK_RBRACE | LK_RBRACKET | LK_RETURN
  | LK_RPAREN | LK_SEMICOLON | LK_SLASH | LK_SLASH_EQ | LK_SLASH_SLASH | LK_SLASH_SLASH_EQ
  | LK_STAR | LK_STAR_EQ | LK_STAR_STAR | LK_STAR_STAR_EQ | LK_STRING | LK_TILDE | LK_TILDE_EQ
  | LK_TRUE | LK_WHILE

text \<open>The enumeration in its order; \<open>LK__LAST\<close> is its length.\<close>

definition all_kinds :: "lexeme_kind list" where
  "all_kinds =
    [
     LK_AND, LK_AND_AND, LK_AND_AND_EQ, LK_AND_EQ, LK_AT, LK_BANG, LK_BANG_EQ, LK_BREAK, LK_COMMA,
     LK_CONTINUE, LK_DOT, LK_ELIF, LK_ELSE, LK_EOF, LK_COLON, LK_COLON_EQ, LK_EQ, LK_EQ_EQ,
     LK_ERROR, LK_FALSE, LK_FOR, LK_FUN, LK_GREATER, LK_GREATER_EQ, LK_GREATER_GREATER,
     LK_GREATER_GREATER_EQ, LK_HAT, LK_HAT_EQ, LK_IDENT, LK_IF, LK_LBRACE, LK_LBRACKET, LK_LESS,
     LK_LESS_EQ, LK_LESS_LESS, LK_LESS_LESS_EQ, LK_LPAREN, LK_MINUS, LK_MINUS_EQ, LK_MINUS_GREATER,
     LK_NIL, LK_NUMBER, LK_OR, LK_OR_EQ, LK_OR_OR, LK_OR_OR_EQ, LK_PERCENT, LK_PERCENT_EQ, LK_PLUS,
     LK_PLUS_EQ, LK_RBRACE, LK_RBRACKET, LK_RETURN, LK_RPAREN, LK_SEMICOLON, LK_SLASH, LK_SLASH_EQ,
     LK_SLASH_SLASH, LK_SLASH_SLASH_EQ, LK_STAR, LK_STAR_EQ, LK_STAR_STAR, LK_STAR_STAR_EQ,
     LK_STRING, LK_TILDE, LK_TILDE_EQ, LK_TRUE, LK_WHILE]"

definition LK__LAST :: nat where
  "LK__LAST = 68"

definition kind_code :: "lexeme_kind \<Rightarrow> nat" where
  "kind_code k =
    (case k of
     LK_AND \<Rightarrow> 0 | LK_AND_AND \<Rightarrow> 1 | LK_AND_AND_EQ \<Rightarrow> 2
     | LK_AND_EQ \<Rightarrow> 3 | LK_AT \<Rightarrow> 4 | LK_BANG \<Rightarrow> 5
     | LK_BANG_EQ \<Rightarrow> 6 | LK_BREAK \<Rightarrow> 7 | LK_COMMA \<Rightarrow> 8
     | LK_CONTINUE \<Rightarrow> 9 | LK_DOT \<Rightarrow> 10 | LK_ELIF \<Rightarrow> 11
     | LK_ELSE \<Rightarrow> 12 | LK_EOF \<Rightarrow> 13 | LK_COLON \<Rightarrow> 14
     | LK_COLON_EQ \<Rightarrow> 15 | LK_EQ \<Rightarrow> 16 | LK_EQ_EQ \<Rightarrow> 17
     | LK_ERROR \<Rightarrow> 18 | LK_FALSE \<Rightarrow> 19 | LK_FOR \<Rightarrow> 20
     | LK_FUN \<Rightarrow> 21 | LK_GREATER \<Rightarrow> 22 | LK_GREATER_EQ \<Rightarrow> 23
     | LK_GREATER_GREATER \<Rightarrow> 24 | LK_GREATER_GREATER_EQ \<Rightarrow> 25
     | LK_HAT \<Rightarrow> 26 | LK_HAT_EQ \<Rightarrow> 27 | LK_IDENT \<Rightarrow> 28
     | LK_IF \<Rightarrow> 29 | LK_LBRACE \<Rightarrow> 30 | LK_LBRACKET \<Rightarrow> 31
     | LK_LESS \<Rightarrow> 32 | LK_LESS_EQ \<Rightarrow> 33 | LK_LESS_LESS \<Rightarrow> 34
     | LK_LESS_LESS_EQ \<Rightarrow> 35 | LK_LPAREN \<Rightarrow> 36 | LK_MINUS \<Rightarrow> 37
     | LK_MINUS_EQ \<Rightarrow> 38 | LK_MINUS_GREATER \<Rightarrow> 39 | LK_NIL \<Rightarrow> 40
     | LK_NUMBER \<Rightarrow> 41 | LK_OR \<Rightarrow> 42 | LK_OR_EQ \<Rightarrow> 43
     | LK_OR_OR \<Rightarrow> 44 | LK_OR_OR_EQ \<Rightarrow> 45 | LK_PERCENT \<Rightarrow> 46
     | LK_PERCENT_EQ \<Rightarrow> 47 | LK_PLUS \<Rightarrow> 48 | LK_PLUS_EQ \<Rightarrow> 49
     | LK_RBRACE \<Rightarrow> 50 | LK_RBRACKET \<Rightarrow> 51 | LK_RETURN \<Rightarrow> 52
     | LK_RPAREN \<Rightarrow> 53 | LK_SEMICOLON \<Rightarrow> 54 | LK_SLASH \<Rightarrow> 55
     | LK_SLASH_EQ \<Rightarrow> 56 | LK_SLASH_SLASH \<Rightarrow> 57
     | LK_SLASH_SLASH_EQ \<Rightarrow> 58 | LK_STAR \<Rightarrow> 59 | LK_STAR_EQ \<Rightarrow> 60
     | LK_STAR_STAR \<Rightarrow> 61 | LK_STAR_STAR_EQ \<Rightarrow> 62
     | LK_STRING \<Rightarrow> 63 | LK_TILDE \<Rightarrow> 64 | LK_TILDE_EQ \<Rightarrow> 65
     | LK_TRUE \<Rightarrow> 66 | LK_WHILE \<Rightarrow> 67)"

definition kind_of_code :: "nat \<Rightarrow> lexeme_kind option" where
  "kind_of_code n = (if n < LK__LAST then Some (all_kinds ! n) else None)"

lemma kind_of_code_inverse [simp]: "kind_of_code (kind_code k) = Some k"
  by (cases k) (simp_all add: kind_code_def kind_of_code_def all_kinds_def LK__LAST_def)

lemma kind_code_less: "kind_code k < LK__LAST"
  by (cases k) (simp_all add: kind_code_def LK__LAST_def)

lemma kind_code_inj [simp]: "kind_code k = kind_code k' \<longleftrightarrow> k = k'"
  by (metis kind_of_code_inverse option.inject)

section \<open>Lexemes\<close>

record position =
  line :: nat
  column :: nat

text \<open>The text of a lexeme is the part of the source of \<open>lk_size\<close> characters from index \<open>lk_start\<close>.\<close>

record lexeme =
  lk_kind :: lexeme_kind
  lk_start :: nat
  lk_size :: nat
  lk_pos :: position

section \<open>Keywords\<close>

definition BLOCKY_BIT :: nat where
  "BLOCKY_BIT = push_bit 10 1"

definition keyword_list :: "(string \<times> lexeme_kind \<times> bool) list" where
  "keyword_list =
    [(''fun'', LK_FUN, True), (''if'', LK_IF, True), (''else'', LK_ELSE, True), (''elif'', LK_ELIF, True),
     (''for'', LK_FOR, True), (''while'', LK_WHILE, True), (''break'', LK_BREAK, False),
     (''continue'', LK_CONTINUE, False), (''return'', LK_RETURN, False), (''true'', LK_TRUE, False),
     (''false'', LK_FALSE, False), (''nil'', LK_NIL, False)]"

fun insert_keywords :: "(string \<times> lexeme_kind \<times> bool) list \<Rightarrow> nat xht \<Rightarrow> nat xht option" where
  "insert_keywords [] ht = Some ht"
| "insert_keywords ((spelling, kind, is_blocky) # ks) ht =
     do {
       let value = kind_code kind OR (if is_blocky then BLOCKY_BIT else 0);
       (ht, _) \<leftarrow> xht_insert_new_unchecked ht spelling (hash_str spelling) value;
       insert_keywords ks ht
     }"

definition make_keywords_ht :: "nat xht option" where
  "make_keywords_ht = do { ht \<leftarrow> xht_new 1; insert_keywords keyword_list ht }"

section \<open>The keyword table holds the keywords\<close>

definition keyword_value :: "lexeme_kind \<times> bool \<Rightarrow> nat" where
  "keyword_value kb = kind_code (fst kb) OR (if snd kb then BLOCKY_BIT else 0)"

definition keywords_ok :: "nat xht \<Rightarrow> bool" where
  "keywords_ok ht \<longleftrightarrow> xht_inv ht \<and> (\<forall>w. xht_map ht w = map_option keyword_value (map_of keyword_list w))"

lemma insert_keywords_yields:
  assumes "xht_inv ht" and "distinct (map fst ks)" and "\<forall>w\<in>set (map fst ks). xht_map ht w = None"
    and "items_size ht + length ks \<le> 3 * 2 ^ 29"
  shows "yields (insert_keywords ks ht) (\<lambda>ht'. xht_inv ht' \<and>
    (\<forall>w. xht_map ht' w = (case map_of ks w of Some kb \<Rightarrow> Some (keyword_value kb) | None \<Rightarrow> xht_map ht w)))"
  using assms
proof (induction ks arbitrary: ht)
  case (Cons x ks)
  obtain s k b where x: "x = (s, k, b)" by (cases x)
  have "xht_map ht s = None" "xht_room ht" using Cons.prems x by (simp_all add: xht_room_def)
  from xht_insert_new_unchecked_yields [OF Cons.prems(1) this(2,1), of "keyword_value (k, b)"]
  obtain ht' i where ht': "xht_insert_new_unchecked ht s (hash_str s) (keyword_value (k, b)) = Some (ht', i)"
    "xht_inv ht'" "items_size ht' = Suc (items_size ht)" "xht_map ht' = (xht_map ht)(s \<mapsto> keyword_value (k, b))"
    by (auto simp: yields_iff_ex)
  have "yields (insert_keywords ks ht') (\<lambda>ht''. xht_inv ht'' \<and>
      (\<forall>w. xht_map ht'' w = (case map_of ks w of Some kb \<Rightarrow> Some (keyword_value kb) | None \<Rightarrow> xht_map ht' w)))"
    using Cons.prems x ht'(2-4) by (intro Cons.IH) auto
  then have "yields (insert_keywords ks ht') (\<lambda>ht''. xht_inv ht'' \<and>
    (\<forall>w. xht_map ht'' w = (case map_of (x # ks) w of Some kb \<Rightarrow> Some (keyword_value kb) | None \<Rightarrow> xht_map ht w)))"
  proof (rule yields_conseq)
    fix ht''
    assume *: "xht_inv ht'' \<and>
      (\<forall>w. xht_map ht'' w = (case map_of ks w of Some kb \<Rightarrow> Some (keyword_value kb) | None \<Rightarrow> xht_map ht' w))"
    have "map_of ks s = None" using Cons.prems(2) x by (simp add: map_of_eq_None_iff)
    with * ht'(4) show "xht_inv ht'' \<and>
      (\<forall>w. xht_map ht'' w = (case map_of (x # ks) w of Some kb \<Rightarrow> Some (keyword_value kb) | None \<Rightarrow> xht_map ht w))"
      by (auto simp: x split: option.splits)
  qed
  then show ?case
    using ht'(1) by (simp add: x keyword_value_def Let_def)
qed simp

lemma make_keywords_ht_yields: "yields make_keywords_ht keywords_ok"
  unfolding make_keywords_ht_def
proof (rule yields_bindI [OF xht_new_yields])
  fix ht :: "nat xht"
  assume ht: "xht_inv ht \<and> xht_map ht = Map.empty \<and> items_size ht = 0"
  then have "yields (insert_keywords keyword_list ht) (\<lambda>ht'. xht_inv ht' \<and>
    (\<forall>w. xht_map ht' w = (case map_of keyword_list w of Some kb \<Rightarrow> Some (keyword_value kb) | None \<Rightarrow> xht_map ht w)))"
    by (intro insert_keywords_yields) (simp_all add: keyword_list_def)
  then show "yields (insert_keywords keyword_list ht) keywords_ok"
    by (rule yields_conseq) (use ht in \<open>auto simp: keywords_ok_def split: option.splits\<close>)
qed simp

text \<open>What the lexer reads back from a value: the kind, and whether a block may follow.\<close>

lemma bit_BLOCKY: "bit BLOCKY_BIT n \<longleftrightarrow> n = 10"
  unfolding BLOCKY_BIT_def by (subst bit_push_bit_iff) (auto simp: bit_Suc_0_iff)

lemma keyword_value_parts:
  "kind_of_code (unset_bit 10 (keyword_value (k, b))) = Some k"
  "keyword_value (k, b) AND BLOCKY_BIT \<noteq> 0 \<longleftrightarrow> b"
proof -
  have "\<not> bit (kind_code k) n" if "7 \<le> n" for n
  proof -
    have "kind_code k < 2 ^ 7" using kind_code_less [of k] by (simp add: LK__LAST_def)
    also have "\<dots> \<le> 2 ^ n" using that by (intro power_increasing) auto
    finally show ?thesis by (simp add: bit_iff_odd)
  qed
  then have b10: "\<not> bit (kind_code k) 10" by simp
  have "unset_bit 10 (keyword_value (k, b)) = kind_code k"
    using b10 by (intro bit_eqI) (auto simp: keyword_value_def bit_BLOCKY bit_simps)
  then show "kind_of_code (unset_bit 10 (keyword_value (k, b))) = Some k" by simp
  have "keyword_value (k, b) AND BLOCKY_BIT \<noteq> 0 \<longleftrightarrow> bit (keyword_value (k, b)) 10"
    using and_exp_eq_0_iff_not_bit [of "keyword_value (k, b)" 10] by (simp add: BLOCKY_BIT_def)
  then show "keyword_value (k, b) AND BLOCKY_BIT \<noteq> 0 \<longleftrightarrow> b"
    using b10 by (auto simp: keyword_value_def bit_BLOCKY bit_simps)
qed

end
