(* ===== verification/Number_Print.thy ===== *)
theory Number_Print
  imports Number_Mul
begin

text \<open>
  Numbers as text: \<open>number_tostring\<close>, \<open>number_write\<close> and \<open>number_tostring_base\<close> of \<open>number.c\<close>.

  The result buffer of \<open>number_tostring\<close> is the string of the characters written so far, \<open>p\<close> pointing
  to its end, in a buffer of \<open>cap\<close> bytes: writing past the end has no result, and neither has reading
  before the beginning. The writer of \<open>number_write\<close> is a function on the user's state.
\<close>

section \<open>Digits\<close>

definition digit_char :: "nat \<Rightarrow> char" where
  "digit_char x = char_of (48 + x)"

definition decode :: "char \<Rightarrow> nat" where
  "decode c =
     (let n = of_char c in
      if 48 \<le> n \<and> n \<le> 57 then n - 48
      else if 97 \<le> n \<and> n \<le> 122 then n - 97 + 10
      else if 65 \<le> n \<and> n \<le> 90 then n - 65 + 10
      else 255)"

definition CHARS :: string where
  "CHARS = ''0123456789ABCDEFGHIJKLMNOPQRSTUVWXYZ''"

section \<open>The buffer\<close>

definition put :: "nat \<Rightarrow> char \<Rightarrow> string \<Rightarrow> string option" where
  "put cap c p = (if length p < cap then Some (p @ [c]) else None)"

text \<open>\<open>while (p[-1] == '0') --p;\<close>\<close>

function (sequential) chop_zeros :: "string \<Rightarrow> string option" where
  "chop_zeros p =
     (if p = [] then None
      else if last p = CHR ''0'' then chop_zeros (butlast p)
      else Some p)"
  by pat_completeness auto
termination by (relation "measure size") auto

declare chop_zeros.simps [simp del]

definition chop_dot :: "string \<Rightarrow> string option" where
  "chop_dot p = (if p = [] then None else if last p = CHR ''.'' then Some (butlast p) else Some p)"

text \<open>The swaps of \<open>span_reverse\<close>: \<open>s\<close> and \<open>s_end\<close> are indices, \<open>n\<close> the number of swaps left.\<close>

fun reverse_loop :: "nat \<Rightarrow> nat \<Rightarrow> nat \<Rightarrow> 'a list \<Rightarrow> 'a list" where
  "reverse_loop 0 i j xs = xs"
| "reverse_loop (Suc n) i j xs =
     (let j = j - 1 in reverse_loop n (i + 1) j (xs[i := xs ! j, j := xs ! i]))"

definition span_reverse :: "'a list \<Rightarrow> 'a list" where
  "span_reverse xs = reverse_loop (length xs div 2) 0 (length xs) xs"

definition finalize_tostring :: "string \<Rightarrow> string" where
  "finalize_tostring s =
     (let n = length s in
      if n = 2 \<and> s = ''-0'' then take 1 (s[0 := CHR ''0'']) else s)"

section \<open>Decimal text\<close>

definition number_tostring_size :: "deci \<Rightarrow> number \<Rightarrow> nat" where
  "number_tostring_size D a =
     uu_add_zu_or_saturate 3 (uu_mul_zu_or_saturate (nwords a) (DECI_BASE_LOG D))"

fun put_digits :: "nat \<Rightarrow> nat \<Rightarrow> nat \<Rightarrow> string \<Rightarrow> string option" where
  "put_digits cap 0 x p = Some p"
| "put_digits cap (Suc j) x p =
     do {
       p \<leftarrow> put cap (digit_char (x mod 10)) p;
       put_digits cap j (x div 10) p
     }"

text \<open>All the significant digits, least significant first, and the point before word number \<open>sa\<close>.\<close>

fun put_words :: "deci \<Rightarrow> nat \<Rightarrow> nat \<Rightarrow> nat \<Rightarrow> nat list \<Rightarrow> string \<Rightarrow> string option" where
  "put_words D cap sa i [] p = Some p"
| "put_words D cap sa i (x # ws) p =
     do {
       p \<leftarrow> (if i = sa then put cap CHR ''.'' p else Some p);
       p \<leftarrow> put_digits cap (DECI_BASE_LOG D) x p;
       put_words D cap sa (i + 1) ws p
     }"

definition number_tostring :: "deci \<Rightarrow> number \<Rightarrow> nat \<Rightarrow> string option" where
  "number_tostring D a cap =
     do {
       p \<leftarrow> put_words D cap (scale a) 0 (words a) [];
       p \<leftarrow> (if nwords a = scale a
            then do { p \<leftarrow> put cap CHR ''.'' p; put cap CHR ''0'' p }
            else chop_zeros p);
       p \<leftarrow> (if sign a then put cap CHR ''-'' p else Some p);
       p \<leftarrow> chop_zeros (span_reverse p);
       p \<leftarrow> chop_dot p;
       Some (finalize_tostring p)
     }"

section \<open>Writing through a callback\<close>

text \<open>The buffer \<open>r\<close> is filled from its end; \<open>fresh_buf\<close> is what the stack holds before.\<close>

definition fresh_buf :: "deci \<Rightarrow> string" where
  "fresh_buf D = map (\<lambda>i. char_of (uninit D i)) [0..<DECI_BASE_LOG D]"

fun word2str_loop :: "nat \<Rightarrow> nat \<Rightarrow> string \<Rightarrow> string" where
  "word2str_loop 0 x r = r"
| "word2str_loop (Suc i) x r = word2str_loop i (x div 10) (r[i := digit_char (x mod 10)])"

definition word2str :: "deci \<Rightarrow> nat \<Rightarrow> string \<Rightarrow> string" where
  "word2str D x r = word2str_loop (DECI_BASE_LOG D) x r"

definition write_leading :: "deci \<Rightarrow> nat \<Rightarrow> 'u \<Rightarrow> ('u \<Rightarrow> string \<Rightarrow> 'u) \<Rightarrow> 'u" where
  "write_leading D x userdata writer =
     (let buf = word2str D x (fresh_buf D);
          i = length (takeWhile (\<lambda>c. c = CHR ''0'') buf) in
      writer userdata (drop i buf))"

definition write_trailing :: "deci \<Rightarrow> nat \<Rightarrow> 'u \<Rightarrow> ('u \<Rightarrow> string \<Rightarrow> 'u) \<Rightarrow> 'u" where
  "write_trailing D x userdata writer =
     (let buf = word2str D x (fresh_buf D);
          n = length buf - length (takeWhile (\<lambda>c. c = CHR ''0'') (rev buf)) in
      writer userdata (take n buf))"

text \<open>The words from the most significant one down; the buffer is reused.\<close>

fun write_seq_loop :: "deci \<Rightarrow> string \<Rightarrow> nat list \<Rightarrow> 'u \<Rightarrow> ('u \<Rightarrow> string \<Rightarrow> 'u) \<Rightarrow> 'u" where
  "write_seq_loop D buf [] userdata writer = userdata"
| "write_seq_loop D buf (w # ws) userdata writer =
     (let buf = word2str D w buf in write_seq_loop D buf ws (writer userdata buf) writer)"

definition write_seq :: "deci \<Rightarrow> nat list \<Rightarrow> 'u \<Rightarrow> ('u \<Rightarrow> string \<Rightarrow> 'u) \<Rightarrow> 'u" where
  "write_seq D ws userdata writer = write_seq_loop D (fresh_buf D) (rev ws) userdata writer"

definition number_write :: "deci \<Rightarrow> number \<Rightarrow> 'u \<Rightarrow> ('u \<Rightarrow> string \<Rightarrow> 'u) \<Rightarrow> 'u" where
  "number_write D a userdata writer =
     (let frac = take (scale a) (words a); int = drop (scale a) (words a);
          u = (if sign a \<and> \<not> number_is_zero D a then writer userdata ''-'' else userdata);
          u = (if int = [] then writer u ''0''
               else write_seq D (butlast int) (write_leading D (last int) u writer) writer);
          wa = deci_skip0 D frac in
      if wa \<noteq> length frac then
        let u = writer u ''.'';
            u = write_seq D (drop (wa + 1) frac) u writer in
        write_trailing D (frac ! wa) u writer
      else u)"

section \<open>Text in any base\<close>

text \<open>\<open>for (x = 1; x < DECI_BASE; x *= base) ++dpw;\<close>, which does not end for base 0 or 1.\<close>

partial_function (option) digits_per_word :: "deci \<Rightarrow> nat \<Rightarrow> nat \<Rightarrow> nat \<Rightarrow> nat option" where
  "digits_per_word D base x dpw =
     (if x < DECI_BASE D then digits_per_word D base (x * base) (dpw + 1) else Some dpw)"

definition number_tostring_base_size :: "deci \<Rightarrow> number \<Rightarrow> nat \<Rightarrow> nat \<Rightarrow> nat option" where
  "number_tostring_base_size D a base nfrac =
     do {
       dpw \<leftarrow> digits_per_word D base 1 0;
       Some (uu_add_zu_or_saturate 3 (uu_add_zu_or_saturate nfrac (uu_mul_zu_or_saturate (nwords a) dpw)))
     }"

definition CHARS_at :: "nat \<Rightarrow> char option" where
  "CHARS_at digit = (if digit < length CHARS then Some (CHARS ! digit) else None)"

partial_function (option) put_int :: "deci \<Rightarrow> nat \<Rightarrow> nat \<Rightarrow> nat list \<Rightarrow> string \<Rightarrow> string option" where
  "put_int D cap base wx p =
     (if wx = [] then Some p
      else
        let (wx, digit) = deci_divmod_uword D wx base in
        do {
          c \<leftarrow> CHARS_at digit;
          p \<leftarrow> put cap c p;
          put_int D cap base (take (deci_normalize D wx) wx) p
        })"

fun put_frac :: "deci \<Rightarrow> nat \<Rightarrow> nat \<Rightarrow> nat \<Rightarrow> nat list \<Rightarrow> string \<Rightarrow> string option" where
  "put_frac D cap base 0 wx p = Some p"
| "put_frac D cap base (Suc n) wx p =
     (let (wx, digit) = deci_mul_uword D wx base in
      do {
        c \<leftarrow> CHARS_at digit;
        p \<leftarrow> put cap c p;
        put_frac D cap base n wx p
      })"

definition number_tostring_base :: "deci \<Rightarrow> number \<Rightarrow> nat \<Rightarrow> nat \<Rightarrow> nat \<Rightarrow> string option" where
  "number_tostring_base D a base nfrac cap =
     do {
       p \<leftarrow> put_int D cap base (drop (scale a) (words a)) [];
       p \<leftarrow> (if p = [] then put cap CHR ''0'' p else Some p);
       p \<leftarrow> (if sign a then put cap CHR ''-'' p else Some p);
       p \<leftarrow> put cap CHR ''.'' (span_reverse p);
       p \<leftarrow> put_frac D cap base nfrac (take (scale a) (words a)) p;
       p \<leftarrow> chop_zeros p;
       p \<leftarrow> chop_dot p;
       Some (finalize_tostring p)
     }"

section \<open>Digit strings and their values\<close>

text \<open>A digit string, least significant digit first; \<open>low n x\<close> are the \<open>n\<close> lowest digits of \<open>x\<close>.\<close>

primrec lsd_val :: "nat \<Rightarrow> string \<Rightarrow> nat" where
  "lsd_val b [] = 0"
| "lsd_val b (c # cs) = decode c + b * lsd_val b cs"

definition digit_text :: "nat \<Rightarrow> string \<Rightarrow> bool" where
  "digit_text b cs \<longleftrightarrow> set cs \<subseteq> set (take b CHARS)"

fun low :: "nat \<Rightarrow> nat \<Rightarrow> string" where
  "low 0 x = []"
| "low (Suc n) x = digit_char (x mod 10) # low n (x div 10)"

definition ldigits :: "nat \<Rightarrow> nat list \<Rightarrow> string" where
  "ldigits n ws = concat (map (low n) ws)"

lemma length_CHARS [simp]: "length CHARS = 36"
  by (simp add: CHARS_def)

lemma decode_CHARS: "d < 36 \<Longrightarrow> decode (CHARS ! d) = d"
proof -
  have "map decode CHARS = [0..<36]"
    by (simp add: CHARS_def decode_def upt_rec)
  then show "d < 36 \<Longrightarrow> decode (CHARS ! d) = d"
    by (metis add_0 length_CHARS nth_map nth_upt)
qed

lemma set_CHARS: "c \<in> set (take b CHARS) \<longleftrightarrow> (\<exists>d < min b 36. c = CHARS ! d)"
  by (auto simp: in_set_conv_nth)

lemma CHARS_not_special: "c \<in> set CHARS \<Longrightarrow> c \<noteq> CHR ''.'' \<and> c \<noteq> CHR ''-'' \<and> c \<noteq> CHR 0x27"
  by (auto simp: CHARS_def)

lemma digit_charD:
  assumes "c \<in> set (take b CHARS)"
  shows "decode c < b" and "decode c = 0 \<longleftrightarrow> c = CHR ''0''" and "c \<noteq> CHR ''.''" and "c \<noteq> CHR ''-''"
    and "c \<noteq> CHR 0x27"
proof -
  obtain d where d: "d < b" "d < 36" "c = CHARS ! d"
    using assms by (auto simp: set_CHARS)
  then show "decode c < b" by (simp add: decode_CHARS)
  have "CHARS ! 0 = CHR ''0''" by (simp add: CHARS_def)
  then show "decode c = 0 \<longleftrightarrow> c = CHR ''0''"
    using d decode_CHARS [of d] decode_CHARS [of 0] by (metis zero_less_numeral)
  have "c \<in> set CHARS" using assms by (rule in_set_takeD)
  then show "c \<noteq> CHR ''.''" "c \<noteq> CHR ''-''" "c \<noteq> CHR 0x27"
    using CHARS_not_special by blast+
qed

lemma digit_char_CHARS: "x < 10 \<Longrightarrow> digit_char x = CHARS ! x"
proof -
  have "map digit_char [0..<10] = take 10 CHARS"
    by code_simp
  then show "x < 10 \<Longrightarrow> digit_char x = CHARS ! x"
    by (metis add_0 length_map length_upt minus_nat.diff_0 nth_map nth_take nth_upt)
qed

lemma digit_text_simps [simp]:
  "digit_text b []" "digit_text b (xs @ ys) \<longleftrightarrow> digit_text b xs \<and> digit_text b ys"
  "digit_text b (rev xs) \<longleftrightarrow> digit_text b xs"
  "digit_text b (c # xs) \<longleftrightarrow> c \<in> set (take b CHARS) \<and> digit_text b xs"
  by (auto simp: digit_text_def)

lemma digit_text_dropWhile: "digit_text b xs \<Longrightarrow> digit_text b (dropWhile P xs)"
  unfolding digit_text_def by (meson set_dropWhileD subset_iff)

lemma length_low [simp]: "length (low n x) = n"
  by (induction n x rule: low.induct) simp_all

lemma length_ldigits [simp]: "length (ldigits n ws) = n * length ws"
  by (induction ws) (simp_all add: ldigits_def)

lemma ldigits_simps [simp]:
  "ldigits n [] = []" "ldigits n (w # ws) = low n w @ ldigits n ws"
  "ldigits n (ws @ us) = ldigits n ws @ ldigits n us"
  by (simp_all add: ldigits_def)

lemma digit_char_in: "digit_char (x mod 10) \<in> set (take 10 CHARS)"
  by (auto simp: set_CHARS digit_char_CHARS intro!: exI [of _ "x mod 10"])

lemma digit_text_low [simp]: "digit_text 10 (low n x)"
  by (induction n x rule: low.induct) (simp_all add: digit_char_in)

lemma digit_text_ldigits [simp]: "digit_text 10 (ldigits n ws)"
  by (induction ws) simp_all

lemma lsd_val_append: "lsd_val b (xs @ ys) = lsd_val b xs + b ^ length xs * lsd_val b ys"
  by (induction xs) (simp_all add: algebra_simps)

lemma lsd_val_zeros: "lsd_val b (replicate k CHR ''0'') = 0"
  by (induction k) (simp_all add: decode_def)

lemma lsd_val_low: "x < 10 ^ n \<Longrightarrow> lsd_val 10 (low n x) = x"
proof (induction n x rule: low.induct)
  case (2 n x)
  then have "lsd_val 10 (low n (x div 10)) = x div 10" by simp
  then show ?case
    by (simp add: digit_char_CHARS decode_CHARS)
qed simp

lemma lsd_val_ldigits: "words_ok (10 ^ n) ws \<Longrightarrow> lsd_val 10 (ldigits n ws) = wval (10 ^ n) ws"
  by (induction ws) (simp_all add: lsd_val_append lsd_val_low)

lemma lsd_val_less:
  assumes "digit_text b cs"
  shows "lsd_val b cs < b ^ length cs"
  using assms
proof (induction cs)
  case (Cons c cs)
  then have "decode c < b" "Suc (lsd_val b cs) \<le> b ^ length cs"
    by (simp_all add: digit_charD)
  from this(2) have "b * Suc (lsd_val b cs) \<le> b * b ^ length cs" by (rule mult_le_mono2)
  with \<open>decode c < b\<close> show ?case by simp
qed simp

lemma lsd_val_0_iff:
  "digit_text b cs \<Longrightarrow> lsd_val b cs = 0 \<longleftrightarrow> (\<forall>c\<in>set cs. c = CHR ''0'')"
proof (induction cs)
  case (Cons c cs)
  then have c: "c \<in> set (take b CHARS)" by simp
  from digit_charD(1,2) [OF this] Cons show ?case by simp
qed simp

section \<open>The canonical text of a value\<close>

text \<open>
  The specification: an optional minus sign, an integer part with no superfluous zero, and, when
  there is a fractional part, a point and digits that do not end in zero. Every value that has a
  finite expansion in base \<open>b\<close> has exactly one such text.
\<close>

definition canonical :: "nat \<Rightarrow> string \<Rightarrow> rat \<Rightarrow> bool" where
  "canonical b s v \<longleftrightarrow> (\<exists>ip fp.
     s = (if v < 0 then ''-'' else '''') @ ip @ (if fp = [] then [] else CHR ''.'' # fp) \<and>
     digit_text b ip \<and> digit_text b fp \<and> ip \<noteq> [] \<and> (hd ip = CHR ''0'' \<longrightarrow> ip = ''0'') \<and>
     (fp \<noteq> [] \<longrightarrow> last fp \<noteq> CHR ''0'') \<and>
     \<bar>v\<bar> = of_nat (lsd_val b (rev ip)) + of_nat (lsd_val b (rev fp)) / of_nat b ^ length fp)"

abbreviation is0 :: "char \<Rightarrow> bool" where
  "is0 c \<equiv> c = CHR ''0''"

text \<open>The text made of the digits of the integer part and of the fraction, least significant first.\<close>

definition int_text :: "string \<Rightarrow> string" where
  "int_text I = (let s = dropWhile is0 (rev I) in if s = [] then ''0'' else s)"

definition frac_text :: "string \<Rightarrow> string" where
  "frac_text F = (let s = rev (dropWhile is0 F) in if s = [] then [] else CHR ''.'' # s)"

lemma strip_low: "F = replicate (length (takeWhile is0 F)) CHR ''0'' @ dropWhile is0 F"
proof -
  have "takeWhile is0 F = replicate (length (takeWhile is0 F)) CHR ''0''"
    by (intro replicate_eqI) (auto dest: set_takeWhileD)
  then show ?thesis by (metis takeWhile_dropWhile_id)
qed

lemma lsd_val_strip_low:
  "lsd_val b F = b ^ length (takeWhile is0 F) * lsd_val b (dropWhile is0 F)"
  by (induction F) (simp_all add: decode_def)

lemma lsd_val_strip_high: "lsd_val b (rev (dropWhile is0 (rev I))) = lsd_val b I"
  by (induction I rule: rev_induct) (simp_all add: lsd_val_append decode_def)

lemma strip_high:
  "I = rev (dropWhile is0 (rev I)) @ replicate (length (takeWhile is0 (rev I))) CHR ''0''"
  using arg_cong [OF strip_low [of "rev I"], of rev] by simp

lemma canonical_text:
  assumes "digit_text b I" and "digit_text b F" and b: "0 < b"
    and v: "v = of_nat (lsd_val b I) + of_nat (lsd_val b F) / of_nat b ^ length F" and "neg \<Longrightarrow> v \<noteq> 0"
  shows "canonical b ((if neg then ''-'' else '''') @ int_text I @ frac_text F) (if neg then - v else v)"
proof -
  let ?I = "dropWhile is0 (rev I)" and ?F = "dropWhile is0 F"
  let ?k = "length (takeWhile is0 F)"
  let ?ip = "int_text I" and ?fp = "rev ?F"
  have "lsd_val b ''0'' = 0" by (simp add: decode_def)
  then have ip: "lsd_val b (rev ?ip) = lsd_val b I"
    using lsd_val_strip_high [of b I] by (cases "?I = []") (simp_all add: int_text_def del: dropWhile_eq_Nil_conv lsd_val.simps(2))
  have "lsd_val b F = b ^ ?k * lsd_val b ?F" "length F = ?k + length ?F"
    by (rule lsd_val_strip_low) (metis length_append takeWhile_dropWhile_id)
  then have "(of_nat (lsd_val b F) / of_nat b ^ length F :: rat) = of_nat (lsd_val b ?F) / of_nat b ^ length ?F"
    using b by (simp add: power_add)
  then have val: "v = of_nat (lsd_val b (rev ?ip)) + of_nat (lsd_val b (rev ?fp)) / of_nat b ^ length ?fp"
    using v ip by simp
  then have pos: "0 \<le> v" by simp
  have dt: "digit_text b ?I" "digit_text b ?F"
    using assms(1,2) by (simp_all add: digit_text_dropWhile)
  have z: "CHR ''0'' \<in> set (take b CHARS)"
    using b by (cases b) (simp_all add: CHARS_def)
  have hd_ne: "xs \<noteq> [] \<Longrightarrow> \<not> is0 (hd xs)" if "xs = dropWhile is0 ys" for xs ys
    using hd_dropWhile [of is0 ys] that by auto
  show ?thesis
    unfolding canonical_def
  proof (rule exI [of _ ?ip], rule exI [of _ ?fp], intro conjI)
    show "(if neg then ''-'' else '''') @ int_text I @ frac_text F =
        (if (if neg then - v else v) < 0 then ''-'' else '''') @ ?ip @ (if ?fp = [] then [] else CHR ''.'' # ?fp)"
      using assms(5) pos by (auto simp: frac_text_def Let_def)
    show "digit_text b ?ip" using dt z by (auto simp: int_text_def Let_def)
    show "digit_text b ?fp" using dt by simp
    show "?ip \<noteq> []" by (simp add: int_text_def Let_def)
    show "hd ?ip = CHR ''0'' \<longrightarrow> ?ip = ''0''" using hd_ne by (auto simp: int_text_def Let_def)
    show "?fp \<noteq> [] \<longrightarrow> last ?fp \<noteq> CHR ''0''" using hd_ne by (auto simp: last_rev)
    show "\<bar>if neg then - v else v\<bar> = of_nat (lsd_val b (rev ?ip)) + of_nat (lsd_val b (rev ?fp)) / of_nat b ^ length ?fp"
      using val pos by (simp only: abs_minus_cancel abs_of_nonneg if_cancel split: if_splits) simp
  qed
qed

section \<open>What the loops write\<close>

lemma put_eq: "length p < cap \<Longrightarrow> put cap c p = Some (p @ [c])"
  by (simp add: put_def)

lemma put_digits_eq: "length p + n \<le> cap \<Longrightarrow> put_digits cap n x p = Some (p @ low n x)"
  by (induction n arbitrary: x p) (simp_all add: put_eq)

lemma put_words_append:
  "put_words D cap sa i (xs @ ys) p =
     do { p \<leftarrow> put_words D cap sa i xs p; put_words D cap sa (i + length xs) ys p }"
  by (induction xs arbitrary: i p)
    (simp_all, auto simp: fun_eq_iff intro!: arg_cong2 [where f = Option.bind])

text \<open>Words that do not meet the point: all below it, or all above.\<close>

lemma put_words_eq:
  assumes "i + length ws \<le> sa \<or> sa < i" and "length p + DECI_BASE_LOG D * length ws \<le> cap"
  shows "put_words D cap sa i ws p = Some (p @ ldigits (DECI_BASE_LOG D) ws)"
  using assms
proof (induction ws arbitrary: i p)
  case (Cons w ws)
  have "put_words D cap sa (i + 1) ws (p @ low (DECI_BASE_LOG D) w) =
      Some ((p @ low (DECI_BASE_LOG D) w) @ ldigits (DECI_BASE_LOG D) ws)"
    using Cons.prems by (intro Cons.IH) auto
  moreover have "i \<noteq> sa" using Cons.prems(1) by auto
  ultimately show ?case
    using Cons.prems(2) by (simp add: put_digits_eq)
qed simp

lemma put_words_point:
  assumes "length xs = sa" and "ys \<noteq> []" and "1 + DECI_BASE_LOG D * (length xs + length ys) \<le> cap"
  shows "put_words D cap sa 0 (xs @ ys) [] =
    Some (ldigits (DECI_BASE_LOG D) xs @ ''.'' @ ldigits (DECI_BASE_LOG D) ys)"
proof -
  let ?L = "DECI_BASE_LOG D"
  obtain y ys' where y: "ys = y # ys'" using assms(2) by (cases ys) auto
  have cap: "1 + ?L * length xs + ?L + ?L * length ys' \<le> cap"
    using assms(3) y by (simp add: algebra_simps)
  have "put_words D cap sa (Suc sa) ys' (ldigits ?L xs @ ''.'' @ low ?L y) =
      Some ((ldigits ?L xs @ ''.'' @ low ?L y) @ ldigits ?L ys')"
    using cap by (intro put_words_eq) auto
  then show ?thesis
    using cap assms(1) put_words_eq [of 0 xs sa "[]" D cap]
    by (simp add: put_words_append y put_eq put_digits_eq)
qed

lemma chop_zeros_append: "chop_zeros (p @ replicate k CHR ''0'') = chop_zeros p"
proof (induction k)
  case (Suc k)
  have eq: "p @ replicate (Suc k) CHR ''0'' = (p @ replicate k CHR ''0'') @ ''0''"
    by (simp add: replicate_append_same)
  have "chop_zeros ((p @ replicate k CHR ''0'') @ ''0'') = chop_zeros (p @ replicate k CHR ''0'')"
    by (subst chop_zeros.simps) (simp only: snoc_eq_iff_butlast last_snoc butlast_snoc, simp)
  with Suc show ?case by (simp only: eq)
qed simp

lemma chop_zeros_id: "p \<noteq> [] \<Longrightarrow> last p \<noteq> CHR ''0'' \<Longrightarrow> chop_zeros p = Some p"
  by (subst chop_zeros.simps) simp

text \<open>The zeros at the end of \<open>q\<close> go, and nothing below \<open>q\<close>.\<close>

lemma chop_zeros_above:
  assumes "p \<noteq> []" and "last p \<noteq> CHR ''0''"
  shows "chop_zeros (p @ rev q) = Some (p @ rev (dropWhile is0 q))"
proof -
  let ?k = "length (takeWhile is0 q)"
  have rq: "rev q = rev (dropWhile is0 q) @ replicate ?k CHR ''0''"
    by (metis rev_append rev_replicate strip_low)
  have "chop_zeros (p @ rev (dropWhile is0 q)) = Some (p @ rev (dropWhile is0 q))"
  proof (rule chop_zeros_id)
    show "last (p @ rev (dropWhile is0 q)) \<noteq> CHR ''0''"
      using assms hd_dropWhile [of is0 q] by (simp add: last_append last_rev del: dropWhile_eq_Nil_conv)
  qed (use assms in simp)
  then show ?thesis
    unfolding rq by (metis append.assoc chop_zeros_append)
qed

lemma reverse_loop_eq:
  "reverse_loop n (length p) (length p + length m) (p @ m @ q) = p @ rev m @ q" if "n = length m div 2"
  using that
proof (induction n arbitrary: p m q)
  case 0
  then have "length m \<le> 1" by simp
  then show ?case by (cases m) simp_all
next
  case (Suc n)
  then obtain x r where m: "m = x # r" by (cases m) auto
  then have "r \<noteq> []" using Suc.prems by auto
  then obtain m' y where r: "r = m' @ [y]" by (cases r rule: rev_cases) auto
  have n: "n = length m' div 2" using Suc.prems m r by simp
  have upd: "(p @ m @ q)[length p := (p @ m @ q) ! (length p + length m - 1), length p + length m - 1 := (p @ m @ q) ! length p]
      = (p @ [y]) @ m' @ (x # q)"
    using m r by (simp add: nth_append list_update_append)
  have "reverse_loop n (length (p @ [y])) (length (p @ [y]) + length m') ((p @ [y]) @ m' @ (x # q)) = (p @ [y]) @ rev m' @ (x # q)"
    by (rule Suc.IH [OF n])
  then show ?case
    using upd m r by (simp add: Let_def)
qed

lemma span_reverse_eq: "span_reverse xs = rev xs"
  using reverse_loop_eq [of "length xs div 2" xs "[]" "[]"] by (simp add: span_reverse_def)

lemma finalize_tostring_eq: "finalize_tostring s = (if s = ''-0'' then ''0'' else s)"
  by (simp add: finalize_tostring_def Let_def)

text \<open>The end of both printers: the sign and the text, from which \<open>-0\<close> is made \<open>0\<close>.\<close>

lemma chop_dot_text:
  assumes "digit_text b F"
  shows "chop_dot (p @ ''.'' @ rev (dropWhile is0 F)) = Some (p @ frac_text F)"
proof (cases "dropWhile is0 F = []")
  case True
  then show ?thesis by (simp add: chop_dot_def frac_text_def del: dropWhile_eq_Nil_conv)
next
  case False
  then have "hd (dropWhile is0 F) \<in> set (take b CHARS)"
    using assms by (metis digit_text_def hd_in_set set_dropWhileD subsetD)
  then have "hd (dropWhile is0 F) \<noteq> CHR ''.''" by (rule digit_charD(3))
  with False show ?thesis
    by (simp add: chop_dot_def frac_text_def Let_def last_rev del: dropWhile_eq_Nil_conv)
qed

lemma finalize_text:
  assumes "digit_text b I" and "digit_text b F" and "0 < b"
    and v: "v = of_nat (lsd_val b I) + of_nat (lsd_val b F) / of_nat b ^ length F"
  shows "canonical b (finalize_tostring ((if neg then ''-'' else '''') @ int_text I @ frac_text F)) (if neg then - v else v)"
proof (cases "neg \<and> v = 0")
  case True
  have "of_nat (lsd_val b I) = (0 :: rat)" "of_nat (lsd_val b F) / of_nat b ^ length F = (0 :: rat)"
    using v True by (simp_all add: add_nonneg_eq_0_iff)
  then have "\<forall>c\<in>set I. is0 c" "\<forall>c\<in>set F. is0 c"
    using lsd_val_0_iff [OF assms(1)] lsd_val_0_iff [OF assms(2)] assms(3) by simp_all
  then have "int_text I = ''0''" "frac_text F = []"
    by (simp_all add: int_text_def frac_text_def Let_def)
  with True canonical_text [OF assms(1-3) v, of False] show ?thesis
    by (simp add: finalize_tostring_eq)
next
  case False
  then have c: "canonical b ((if neg then ''-'' else '''') @ int_text I @ frac_text F) (if neg then - v else v)"
    by (intro canonical_text [OF assms(1-3) v]) auto
  have "\<not> canonical b ''-0'' (if neg then - v else v)"
    using False v digit_charD(4) [of "CHR ''-''" b]
    by (auto simp: canonical_def Cons_eq_append_conv decode_def split: if_splits)
  with c have "(if neg then ''-'' else '''') @ int_text I @ frac_text F \<noteq> ''-0''"
    by metis
  with c show ?thesis by (simp add: finalize_tostring_eq)
qed

section \<open>Decimal text is canonical\<close>

abbreviation int_digits :: "deci \<Rightarrow> number \<Rightarrow> string" where
  "int_digits D a \<equiv> ldigits (DECI_BASE_LOG D) (drop (scale a) (words a))"

abbreviation frac_digits :: "deci \<Rightarrow> number \<Rightarrow> string" where
  "frac_digits D a \<equiv> ldigits (DECI_BASE_LOG D) (take (scale a) (words a))"

lemma lsd_val_words:
  "words_ok (DECI_BASE D) ws \<Longrightarrow> lsd_val 10 (ldigits (DECI_BASE_LOG D) ws) = wval (DECI_BASE D) ws"
  by (simp add: DECI_BASE_def lsd_val_ldigits)

lemma num_abs_digits:
  assumes a: "num_ok D a"
  shows "num_abs D a =
    of_nat (lsd_val 10 (int_digits D a)) + of_nat (lsd_val 10 (frac_digits D a)) / of_nat 10 ^ length (frac_digits D a)"
proof -
  have "words_ok (DECI_BASE D) (take (scale a) (words a))" "words_ok (DECI_BASE D) (drop (scale a) (words a))"
    using num_okD(1) [OF a] by auto
  then show ?thesis
    using num_okD(2) [OF a]
    by (simp add: num_abs_split [OF a] num_int_def lsd_val_words DECI_BASE_def power_mult min_absorb2)
qed

lemma int_digits_empty:
  assumes a: "num_ok D a"
  shows "dropWhile is0 (rev (int_digits D a)) = [] \<longleftrightarrow> nwords a = scale a"
proof -
  have ok: "words_ok (DECI_BASE D) (drop (scale a) (words a))"
    using num_okD(1) [OF a] by auto
  have "dropWhile is0 (rev (int_digits D a)) = [] \<longleftrightarrow> lsd_val 10 (int_digits D a) = 0"
    by (simp add: lsd_val_0_iff)
  also have "\<dots> \<longleftrightarrow> nwords a = scale a"
    using normalized_0_iff [OF num_okD(3) [OF a], of "DECI_BASE D"] num_okD(2) [OF a]
    by (auto simp: lsd_val_words [OF ok])
  finally show ?thesis .
qed

lemma number_tostring_eq:
  assumes a: "num_ok D a" and cap: "DECI_BASE_LOG D * nwords a + 3 \<le> cap"
  shows "number_tostring D a cap =
    Some (finalize_tostring ((if sign a then ''-'' else '''') @ int_text (int_digits D a) @ frac_text (frac_digits D a)))"
proof -
  let ?L = "DECI_BASE_LOG D" and ?I = "int_digits D a" and ?F = "frac_digits D a"
  let ?sg = "if sign a then ''-'' else ''''"
  note sc = num_okD(2) [OF a]
  have len: "length ?F + length ?I = ?L * nwords a"
    using sc by (simp add: distrib_left [symmetric])
  have finish: "do { p \<leftarrow> chop_zeros (span_reverse q); p \<leftarrow> chop_dot p; Some (finalize_tostring p) } =
      Some (finalize_tostring (?sg @ int_text ?I @ frac_text ?F))"
    if "q = ?F @ ''.'' @ rev (int_text ?I) @ ?sg" for q
  proof -
    have q: "span_reverse q = (?sg @ int_text ?I @ ''.'') @ rev ?F"
      using that by (simp add: span_reverse_eq)
    have "chop_zeros ((?sg @ int_text ?I @ ''.'') @ rev ?F) = Some ((?sg @ int_text ?I @ ''.'') @ rev (dropWhile is0 ?F))"
      by (rule chop_zeros_above) simp_all
    then have "chop_zeros (span_reverse q) = Some ((?sg @ int_text ?I) @ ''.'' @ rev (dropWhile is0 ?F))"
      unfolding q by (simp only: append_assoc)
    then show ?thesis
      using chop_dot_text [OF digit_text_ldigits [of ?L "take (scale a) (words a)"], of "?sg @ int_text ?I"]
      by simp
  qed
  show ?thesis
  proof (cases "nwords a = scale a")
    case True
    then have I: "?I = []" by simp
    then have "rev (int_text ?I) = ''0''" by (simp add: int_text_def)
    moreover have "put_words D cap (scale a) 0 (words a) [] = Some ?F"
      using put_words_eq [of 0 "words a" "scale a" "[]" D cap] True cap by simp
    ultimately show ?thesis
      using True I len cap finish [of "?F @ ''.0'' @ ?sg"]
      by (cases "sign a") (simp_all add: number_tostring_def put_eq)
  next
    case False
    let ?J = "dropWhile is0 (rev ?I)"
    have "?J \<noteq> []" using int_digits_empty [OF a] False by simp
    then have J: "int_text ?I = ?J" by (simp only: int_text_def Let_def if_False)
    have "put_words D cap (scale a) 0 (take (scale a) (words a) @ drop (scale a) (words a)) [] =
        Some (?F @ ''.'' @ ?I)"
      using False sc cap by (intro put_words_point) (simp_all add: min_absorb2)
    then have "put_words D cap (scale a) 0 (words a) [] = Some (?F @ ''.'' @ ?I)" by simp
    moreover have "chop_zeros (?F @ ''.'' @ ?I) = Some (?F @ ''.'' @ rev ?J)"
      using chop_zeros_above [of "?F @ ''.''" "rev ?I"] by simp
    moreover have "length ?J \<le> length ?I"
      by (metis length_dropWhile_le length_rev)
    ultimately show ?thesis
      using False len cap finish [of "?F @ ''.'' @ rev ?J @ ?sg"] J
      by (cases "sign a") (simp_all add: number_tostring_def put_eq)
  qed
qed

text \<open>The buffer of the size that \<open>number_tostring_size\<close> gives is enough.\<close>

lemma number_tostring_yields:
  assumes a: "num_ok D a" and cap: "DECI_BASE_LOG D * nwords a + 3 \<le> SIZE_MAX"
  shows "number_tostring_size D a = DECI_BASE_LOG D * nwords a + 3"
    and "yields (number_tostring D a (number_tostring_size D a))
      (\<lambda>s. canonical 10 s (num_val D a) \<and> length s \<le> number_tostring_size D a)"
proof -
  show size: "number_tostring_size D a = DECI_BASE_LOG D * nwords a + 3"
    using cap by (simp add: number_tostring_size_def uu_add_mul_saturate mult.commute)
  let ?s = "finalize_tostring ((if sign a then ''-'' else '''') @ int_text (int_digits D a) @ frac_text (frac_digits D a))"
  have run: "number_tostring D a (number_tostring_size D a) = Some ?s"
    using number_tostring_eq [OF a, of "number_tostring_size D a"] size by simp
  have c: "canonical 10 ?s (num_val D a)"
    using finalize_text [OF digit_text_ldigits digit_text_ldigits _ num_abs_digits [OF a], of "sign a"]
    by (simp add: num_val_def)
  have i: "length (int_text (int_digits D a)) \<le> length (int_digits D a) + 1"
    using length_dropWhile_le [of is0 "rev (int_digits D a)"] by (auto simp: int_text_def Let_def)
  have f: "length (frac_text (frac_digits D a)) \<le> length (frac_digits D a) + 1"
    using length_dropWhile_le [of is0 "frac_digits D a"] by (auto simp: frac_text_def Let_def)
  have "length (int_digits D a) + length (frac_digits D a) = DECI_BASE_LOG D * nwords a"
    using num_okD(2) [OF a] by (simp add: distrib_left [symmetric])
  then have "length (int_text (int_digits D a)) + length (frac_text (frac_digits D a)) \<le> DECI_BASE_LOG D * nwords a + 2"
    using i f by linarith
  then have "length ?s \<le> number_tostring_size D a" by (auto simp: finalize_tostring_eq size)
  with run c show "yields (number_tostring D a (number_tostring_size D a))
      (\<lambda>s. canonical 10 s (num_val D a) \<and> length s \<le> number_tostring_size D a)" by simp
qed

text \<open>
  C13: \<open>number_tostring\<close> writes the canonical decimal text of the value, whatever zero words and
  negative zero the representation has, into a buffer of \<open>number_tostring_size\<close> bytes.
\<close>

theorem number_tostring_canonical:
  assumes "num_ok D a" and "DECI_BASE_LOG D * nwords a + 3 \<le> SIZE_MAX"
  shows "yields (number_tostring D a (number_tostring_size D a)) (\<lambda>s. canonical 10 s (num_val D a))"
  by (rule yields_conseq [OF number_tostring_yields(2) [OF assms]]) simp

theorem number_tostring_canonical_witness:
  "yields (number_tostring deci_ref \<lparr>nrefs = 1, sign = True, scale = 1, words = [500, 1]\<rparr> 9) (\<lambda>s. canonical 10 s (-3/2))"
proof -
  have "number_tostring_size deci_ref \<lparr>nrefs = 1, sign = True, scale = 1, words = [500, 1]\<rparr> = 9"
    by (simp add: number_tostring_size_def uu_add_mul_saturate SIZE_MAX_def)
  with number_tostring_canonical [OF sample_ok(1) [of 1 True]] show ?thesis
    unfolding sample_val by (simp add: SIZE_MAX_def)
qed

section \<open>The callback gets the same text in pieces\<close>

definition word_text :: "deci \<Rightarrow> nat \<Rightarrow> string" where
  "word_text D x = rev (low (DECI_BASE_LOG D) x)"

definition pieces :: "deci \<Rightarrow> number \<Rightarrow> string list" where
  "pieces D a =
     (let frac = take (scale a) (words a); int = drop (scale a) (words a); wa = deci_skip0 D frac in
      (if sign a \<and> \<not> number_is_zero D a then [''-''] else []) @
      (if int = [] then [''0'']
       else dropWhile is0 (word_text D (last int)) # map (word_text D) (rev (butlast int))) @
      (if wa \<noteq> length frac
       then ''.'' # map (word_text D) (rev (drop (wa + 1) frac)) @ [rev (dropWhile is0 (rev (word_text D (frac ! wa))))]
       else []))"

lemma word2str_loop_eq:
  "n \<le> length r \<Longrightarrow> word2str_loop n x r = rev (low n x) @ drop n r"
proof (induction n arbitrary: x r)
  case (Suc n)
  then have "drop n (r[n := digit_char (x mod 10)]) = digit_char (x mod 10) # drop (Suc n) r"
    by (metis Cons_nth_drop_Suc Suc_le_eq drop_update_cancel length_list_update lessI nth_list_update_eq)
  with Suc show ?case by simp
qed simp

lemma word2str_eq: "length r = DECI_BASE_LOG D \<Longrightarrow> word2str D x r = word_text D x"
  by (simp add: word2str_def word2str_loop_eq word_text_def)

lemma length_word_text [simp]: "length (word_text D x) = DECI_BASE_LOG D"
  by (simp add: word_text_def)

lemma write_seq_eq: "write_seq D ws u writer = foldl writer u (map (word_text D) (rev ws))"
proof -
  have "length buf = DECI_BASE_LOG D \<Longrightarrow> write_seq_loop D buf ws u writer = foldl writer u (map (word_text D) ws)" for buf ws
    by (induction ws arbitrary: buf u) (simp_all add: word2str_eq)
  then show ?thesis by (simp add: write_seq_def fresh_buf_def)
qed

lemma write_leading_eq: "write_leading D x u writer = writer u (dropWhile is0 (word_text D x))"
  by (simp add: write_leading_def fresh_buf_def word2str_eq dropWhile_eq_drop Let_def)

lemma write_trailing_eq:
  "write_trailing D x u writer = writer u (rev (dropWhile is0 (rev (word_text D x))))"
proof -
  let ?t = "word_text D x"
  let ?n = "length ?t - length (takeWhile is0 (rev ?t))"
  have "write_trailing D x u writer = writer u (take ?n ?t)"
    by (simp add: write_trailing_def fresh_buf_def word2str_eq Let_def)
  moreover have "rev (dropWhile is0 (rev ?t)) = take ?n ?t"
    unfolding dropWhile_eq_drop by (simp add: rev_drop)
  ultimately show ?thesis by simp
qed

lemma number_write_pieces: "number_write D a u writer = foldl writer u (pieces D a)"
  by (simp add: number_write_def pieces_def Let_def write_seq_eq write_leading_eq write_trailing_eq)

lemma concat_word_text: "concat (map (word_text D) (rev ws)) = rev (ldigits (DECI_BASE_LOG D) ws)"
  by (induction ws) (simp_all add: word_text_def)

lemma low_not_zeros:
  assumes "x < 10 ^ n" and "x \<noteq> 0"
  shows "\<exists>c\<in>set (low n x). \<not> is0 c"
  using lsd_val_0_iff [OF digit_text_low, of n x] lsd_val_low [OF assms(1)] assms(2) by metis

lemma low_0: "low n 0 = replicate n CHR ''0''"
  by (induction n) (simp_all add: digit_char_CHARS, simp add: CHARS_def)

lemma ldigits_zeros: "ldigits n (replicate k 0) = replicate (n * k) CHR ''0''"
  by (induction k) (simp_all add: low_0 replicate_add [symmetric])

lemma dropWhile_zeros: "dropWhile is0 (replicate k CHR ''0'' @ xs) = dropWhile is0 xs"
  by (induction k) simp_all

lemma dropWhile_append_ex:
  "\<exists>c\<in>set xs. \<not> P c \<Longrightarrow> dropWhile P (xs @ ys) = dropWhile P xs @ ys"
  by (induction xs) auto

lemma concat_pieces:
  assumes D: "deci_ok D" and a: "num_ok D a"
  shows "concat (pieces D a) =
    (if sign a \<and> num_val D a \<noteq> 0 then ''-'' else '''') @ int_text (int_digits D a) @ frac_text (frac_digits D a)"
proof -
  let ?L = "DECI_BASE_LOG D"
  let ?f = "take (scale a) (words a)" and ?int = "drop (scale a) (words a)"
  let ?wa = "deci_skip0 D ?f"
  have ok: "words_ok (10 ^ ?L) ?f" "words_ok (10 ^ ?L) ?int"
    using num_okD(1) [OF a] by (auto simp: DECI_BASE_def)
  have int: "concat (if ?int = [] then [''0'']
       else dropWhile is0 (word_text D (last ?int)) # map (word_text D) (rev (butlast ?int))) = int_text (int_digits D a)"
  proof (cases "?int = []")
    case True
    then show ?thesis by (simp add: int_text_def)
  next
    case False
    then obtain us w where us: "?int = us @ [w]" by (cases ?int rule: rev_cases) auto
    then have "w \<noteq> 0" "w < 10 ^ ?L" using num_okD(3) [OF a] ok(2) by simp_all
    then have ex: "\<exists>c\<in>set (rev (low ?L w)). \<not> is0 c" using low_not_zeros [of w ?L] by simp
    then have drop: "dropWhile is0 (rev (low ?L w) @ rev (ldigits ?L us)) = dropWhile is0 (rev (low ?L w)) @ rev (ldigits ?L us)"
      by (rule dropWhile_append_ex)
    have ne: "dropWhile is0 (rev (low ?L w)) @ rev (ldigits ?L us) \<noteq> []" using ex by simp
    have rev: "rev (int_digits D a) = rev (low ?L w) @ rev (ldigits ?L us)"
      unfolding us by simp
    have "int_text (int_digits D a) = dropWhile is0 (rev (low ?L w)) @ rev (ldigits ?L us)"
      unfolding int_text_def Let_def rev drop using ne by (simp only: if_False)
    also have "\<dots> = dropWhile is0 (word_text D w) @ concat (map (word_text D) (rev us))"
      by (simp only: concat_word_text word_text_def)
    finally show ?thesis
      unfolding us by simp
  qed
  have frac: "concat (if ?wa \<noteq> length ?f
       then ''.'' # map (word_text D) (rev (drop (?wa + 1) ?f)) @ [rev (dropWhile is0 (rev (word_text D (?f ! ?wa))))]
       else []) = frac_text (frac_digits D a)"
  proof -
    obtain rest where f: "?f = replicate ?wa 0 @ rest" and rest: "drop ?wa ?f = rest" "rest = [] \<or> hd rest \<noteq> 0"
      by (rule deci_skip0_split [OF D])
    show ?thesis
    proof (cases "?wa = length ?f")
      case True
      then have "rest = []" using rest(1) by simp
      then have "frac_digits D a = replicate (?L * ?wa) CHR ''0''"
        using f by (metis append_Nil2 ldigits_zeros)
      with True show ?thesis by (simp add: frac_text_def)
    next
      case False
      then have "0 < length ?f - ?wa"
        using deci_skip0_law(1) [OF D, of ?f] by linarith
      then have "rest \<noteq> []"
        using arg_cong [OF rest(1), of length] by (metis length_drop list.size(3) less_not_refl)
      then obtain x tl where r: "rest = x # tl" "x \<noteq> 0" using rest(2) by (cases rest) auto
      have x: "?f ! ?wa = x" using f r(1) by (metis length_replicate nth_append_length)
      have tl: "drop (?wa + 1) ?f = tl" using rest(1) r(1) by (metis Suc_eq_plus1 drop_Suc list.sel(3) tl_drop)
      have "x \<in> set ?f" using f r(1) by (metis in_set_conv_decomp)
      then have "x < 10 ^ ?L" using ok(1) by (simp add: words_ok_def)
      with r(2) have ex: "\<exists>c\<in>set (low ?L x). \<not> is0 c" by (intro low_not_zeros)
      have "frac_digits D a = replicate (?L * ?wa) CHR ''0'' @ low ?L x @ ldigits ?L tl"
        using arg_cong [OF f, of "ldigits ?L"] r(1) by (simp add: ldigits_zeros)
      then have "dropWhile is0 (frac_digits D a) = dropWhile is0 (low ?L x @ ldigits ?L tl)"
        by (simp only: dropWhile_zeros)
      also have "\<dots> = dropWhile is0 (low ?L x) @ ldigits ?L tl"
        using ex by (rule dropWhile_append_ex)
      finally have d: "dropWhile is0 (frac_digits D a) = dropWhile is0 (low ?L x) @ ldigits ?L tl" .
      have "dropWhile is0 (low ?L x) \<noteq> []" using ex by simp
      with False show ?thesis
        unfolding frac_text_def d x tl using concat_word_text [of D tl]
        by (simp add: word_text_def Let_def del: dropWhile_eq_Nil_conv)
    qed
  qed
  show ?thesis
    unfolding pieces_def Let_def concat_append int frac
    by (simp add: number_is_zero_iff [OF D a])
qed

text \<open>
  C14: \<open>number_write\<close> gives its callback, piece by piece, the text that \<open>number_tostring\<close> writes: it is the
  fold of the writer over pieces that do not depend on it and whose concatenation is that text.
\<close>

theorem number_write_same_text:
  assumes D: "deci_ok D" and a: "num_ok D a" and cap: "DECI_BASE_LOG D * nwords a + 3 \<le> cap"
  defines "ps \<equiv> number_write D a [] (\<lambda>ps s. ps @ [s])"
  shows "number_write D a u writer = foldl writer u ps \<and> number_tostring D a cap = Some (concat ps)"
proof -
  have "foldl (\<lambda>ps s. ps @ [s]) xs ys = xs @ ys" for xs ys :: "string list"
    by (induction ys arbitrary: xs) simp_all
  then have ps: "ps = pieces D a"
    by (simp add: ps_def number_write_pieces)
  have "finalize_tostring ((if sign a then ''-'' else '''') @ int_text (int_digits D a) @ frac_text (frac_digits D a)) =
      concat (pieces D a)"
  proof (cases "num_val D a = 0")
    case True
    then have "of_nat (lsd_val 10 (int_digits D a)) = (0 :: rat)"
      "of_nat (lsd_val 10 (frac_digits D a)) / of_nat 10 ^ length (frac_digits D a) = (0 :: rat)"
      using num_abs_digits [OF a] by (simp_all add: num_val_eq_0 add_nonneg_eq_0_iff)
    then have "\<forall>c\<in>set (int_digits D a). is0 c" "\<forall>c\<in>set (frac_digits D a). is0 c"
      by (simp_all add: lsd_val_0_iff)
    then have "int_text (int_digits D a) = ''0''" "frac_text (frac_digits D a) = []"
      by (simp_all add: int_text_def frac_text_def)
    with True show ?thesis
      unfolding concat_pieces [OF D a] by (simp add: finalize_tostring_eq)
  next
    case False
    have "\<not> canonical 10 ''-0'' (num_val D a)"
      using False digit_charD(4) [of "CHR ''-''" 10]
      by (auto simp: canonical_def Cons_eq_append_conv decode_def split: if_splits)
    moreover have "num_val D a = (if sign a then - num_abs D a else num_abs D a)" "num_abs D a \<noteq> 0"
      using False by (auto simp: num_val_def split: if_splits)
    moreover have "canonical 10 ((if sign a then ''-'' else '''') @ int_text (int_digits D a) @ frac_text (frac_digits D a))
        (if sign a then - num_abs D a else num_abs D a)"
      by (rule canonical_text [OF digit_text_ldigits digit_text_ldigits _ num_abs_digits [OF a]])
        (use \<open>num_abs D a \<noteq> 0\<close> in simp_all)
    ultimately have "(if sign a then ''-'' else '''') @ int_text (int_digits D a) @ frac_text (frac_digits D a) \<noteq> ''-0''"
      by metis
    with False show ?thesis
      unfolding concat_pieces [OF D a] by (simp add: finalize_tostring_eq)
  qed
  then show ?thesis
    unfolding number_tostring_eq [OF a cap] ps by (simp add: number_write_pieces)
qed

theorem number_write_same_text_witness:
  "number_tostring deci_ref \<lparr>nrefs = 1, sign = True, scale = 1, words = [500, 1]\<rparr> 9 =
     Some (concat (number_write deci_ref \<lparr>nrefs = 1, sign = True, scale = 1, words = [500, 1]\<rparr> [] (\<lambda>ps s. ps @ [s])))"
proof -
  have "DECI_BASE_LOG deci_ref * nwords \<lparr>nrefs = 1, sign = True, scale = 1, words = [500, 1]\<rparr> + 3 \<le> 9" by simp
  from number_write_same_text [OF deci_ref_ok sample_ok(1) this, of "()" "\<lambda>u s. ()"] show ?thesis
    by (rule conjunct2)
qed

section \<open>Text in any base\<close>

text \<open>The least number of base-\<open>base\<close> digits that hold any word.\<close>

lemma digits_per_word_yields:
  assumes "2 \<le> base"
  shows "0 < x \<Longrightarrow> yields (digits_per_word D base x n) (\<lambda>d. n \<le> d \<and> DECI_BASE D \<le> x * base ^ (d - n))"
proof (induction "DECI_BASE D - x" arbitrary: x n rule: less_induct)
  case less
  show ?case
  proof (cases "x < DECI_BASE D")
    case True
    have "x * 2 \<le> x * base" using assms by simp
    then have "DECI_BASE D - x * base < DECI_BASE D - x" using True less.prems by linarith
    then have "yields (digits_per_word D base (x * base) (Suc n))
        (\<lambda>d. Suc n \<le> d \<and> DECI_BASE D \<le> x * base * base ^ (d - Suc n))"
      by (rule less.hyps) (use less.prems assms in simp)
    then have "yields (digits_per_word D base (x * base) (Suc n))
        (\<lambda>d. n \<le> d \<and> DECI_BASE D \<le> x * base ^ (d - n))"
    proof (rule yields_conseq)
      fix d
      assume d: "Suc n \<le> d \<and> DECI_BASE D \<le> x * base * base ^ (d - Suc n)"
      then have "base ^ (d - n) = base * base ^ (d - Suc n)"
        by (metis Suc_diff_Suc Suc_le_eq power_Suc)
      with d show "n \<le> d \<and> DECI_BASE D \<le> x * base ^ (d - n)"
        by (simp add: mult.assoc)
    qed
    with True show ?thesis
      by (subst digits_per_word.simps) simp
  next
    case False
    then show ?thesis
      by (subst digits_per_word.simps) simp
  qed
qed

lemma CHARS_at_eq: "d < 36 \<Longrightarrow> CHARS_at d = Some (CHARS ! d)"
  by (simp add: CHARS_at_def)

lemma CHARS_in: "d < b \<Longrightarrow> b \<le> 36 \<Longrightarrow> CHARS ! d \<in> set (take b CHARS)"
  by (auto simp: set_CHARS)

text \<open>\<open>I\<close> are the digits of \<open>x\<close>, least significant first, with no leading zero.\<close>

definition base_digits :: "nat \<Rightarrow> nat \<Rightarrow> string \<Rightarrow> bool" where
  "base_digits b x I \<longleftrightarrow> digit_text b I \<and> lsd_val b I = x \<and> (I \<noteq> [] \<longrightarrow> last I \<noteq> CHR ''0'')"

lemma base_digits_Cons:
  assumes "2 \<le> b" and "b \<le> 36" and "0 < x" and "base_digits b (x div b) I"
  shows "base_digits b x (CHARS ! (x mod b) # I)"
proof -
  have d: "x mod b < b" using assms(1) by simp
  then have dec: "decode (CHARS ! (x mod b)) = x mod b" using assms(2) by (intro decode_CHARS) simp
  have "I = [] \<Longrightarrow> CHARS ! (x mod b) \<noteq> CHR ''0''"
  proof -
    assume "I = []"
    then have "x div b = 0" using assms(4) by (simp add: base_digits_def)
    then have "x mod b \<noteq> 0" using assms(1,3) by (simp add: div_eq_0_iff)
    then show ?thesis using dec digit_charD(2) [OF CHARS_in [OF d assms(2)]] by simp
  qed
  then show ?thesis
    using assms(4) dec CHARS_in [OF d assms(2)] by (simp add: base_digits_def)
qed

lemma base_digits_length:
  assumes "base_digits b x I" and "x < b ^ k" and "2 \<le> b"
  shows "length I \<le> k"
proof (cases I rule: rev_cases)
  case (snoc J c)
  then have c: "c \<in> set (take b CHARS)" "c \<noteq> CHR ''0''"
    using assms(1) by (simp_all add: base_digits_def)
  then have "0 < decode c" using digit_charD(2) by blast
  then have "b ^ length J * 1 \<le> b ^ length J * decode c" by (intro mult_le_mono2) simp
  also have "\<dots> \<le> x" using assms(1) snoc by (auto simp: base_digits_def lsd_val_append)
  finally have "b ^ length J < b ^ k" using assms(2) by simp
  then have "length J < k" by (rule power_less_imp_less_exp [rotated]) (use assms(3) in simp)
  then show ?thesis using snoc by simp
qed simp

lemma put_int_yields:
  assumes D: "deci_ok D" and b: "2 \<le> base" "base \<le> 36"
  shows "words_ok (DECI_BASE D) ws \<Longrightarrow> normalized ws \<Longrightarrow> wval (DECI_BASE D) ws < base ^ k \<Longrightarrow> length p + k \<le> cap \<Longrightarrow>
    yields (put_int D cap base ws p) (\<lambda>r. \<exists>I. r = p @ I \<and> base_digits base (wval (DECI_BASE D) ws) I)"
proof (induction k arbitrary: ws p)
  case 0
  then have "ws = []" using normalized_0_iff [OF 0(2), of "DECI_BASE D"] by simp
  then show ?case by (subst put_int.simps) (simp add: base_digits_def)
next
  case (Suc k)
  let ?B = "DECI_BASE D" and ?x = "wval (DECI_BASE D) ws"
  show ?case
  proof (cases "ws = []")
    case True
    then show ?thesis by (subst put_int.simps) (simp add: base_digits_def)
  next
    case False
    then have x: "0 < ?x" using normalized_0_iff [OF Suc.prems(2), of ?B] by simp
    have bB: "base < ?B" using DECI_BASE_ge [OF D] b(2) by simp
    obtain r where r: "deci_divmod_uword D ws base = (r, ?x mod base)" "words_ok ?B r" "length r = length ws"
      "wval ?B r = ?x div base"
      by (rule deci_divmod_uword_law [OF D Suc.prems(1) _ bB]) (use b in auto)
    let ?r = "take (deci_normalize D r) r" and ?c = "CHARS ! (?x mod base)"
    have val: "wval ?B ?r = ?x div base"
      using deci_normalize_val [OF D, of r] r(4) by simp
    have lt: "?x mod base < base" using b by simp
    have "?x div base < base ^ k"
      using Suc.prems(3) by (simp add: less_mult_imp_div_less mult.commute)
    then have "yields (put_int D cap base ?r (p @ [?c])) (\<lambda>q. \<exists>I. q = (p @ [?c]) @ I \<and> base_digits base (wval ?B ?r) I)"
      using Suc.prems(4) by (intro Suc.IH words_ok_take r(2) deci_normalize_law(3) [OF D]) (simp_all add: val)
    then have "yields (put_int D cap base ?r (p @ [?c])) (\<lambda>q. \<exists>I. q = p @ I \<and> base_digits base ?x I)"
      by (rule yields_conseq) (use base_digits_Cons [OF b x] val in auto)
    moreover have "CHARS_at (?x mod base) = Some ?c"
      using lt b by (intro CHARS_at_eq) linarith
    ultimately show ?thesis
      using False r(1) Suc.prems(4) by (subst put_int.simps) (simp add: put_eq)
  qed
qed

text \<open>The fraction: the \<open>n\<close> digits of its product with \<open>base ^ n\<close>, rounded down.\<close>

lemma put_frac_yields:
  assumes D: "deci_ok D" and b: "2 \<le> base" "base \<le> 36"
  shows "words_ok (DECI_BASE D) ws \<Longrightarrow> length p + n \<le> cap \<Longrightarrow>
    yields (put_frac D cap base n ws p) (\<lambda>r. \<exists>F. r = p @ rev F \<and> digit_text base F \<and> length F = n \<and>
      lsd_val base F = wval (DECI_BASE D) ws * base ^ n div DECI_BASE D ^ length ws)"
proof (induction n arbitrary: ws p)
  case 0
  then show ?case using wval_less [OF 0(1)] by simp
next
  case (Suc n)
  let ?B = "DECI_BASE D" and ?m = "DECI_BASE D ^ length ws" and ?x = "wval (DECI_BASE D) ws"
  have bB: "base < ?B" using DECI_BASE_ge [OF D] b(2) by simp
  obtain r h where r: "deci_mul_uword D ws base = (r, h)" "words_ok ?B r" "length r = length ws"
    "wval ?B r + ?m * h = ?x * base"
    by (rule deci_mul_uword_law [OF D Suc.prems(1) bB])
  have "?m * h < ?m * base"
  proof -
    have "?m * h \<le> ?x * base" using r(4) by linarith
    also have "\<dots> < ?m * base" using wval_less [OF Suc.prems(1)] b(1) by simp
    finally show ?thesis .
  qed
  then have h: "h < base" by simp
  let ?p = "p @ [CHARS ! h]"
  have "yields (put_frac D cap base n r ?p) (\<lambda>q. \<exists>F. q = ?p @ rev F \<and> digit_text base F \<and> length F = n \<and>
      lsd_val base F = wval ?B r * base ^ n div ?B ^ length r)"
    using Suc.prems(2) by (intro Suc.IH r(2)) simp
  then have "yields (put_frac D cap base n r ?p) (\<lambda>q. \<exists>F. q = p @ rev F \<and> digit_text base F \<and> length F = Suc n \<and>
      lsd_val base F = ?x * base ^ Suc n div ?m)"
  proof (rule yields_conseq, elim exE conjE)
    fix q F
    assume F: "q = ?p @ rev F" "digit_text base F" "length F = n" "lsd_val base F = wval ?B r * base ^ n div ?B ^ length r"
    have "?x * base ^ Suc n = (wval ?B r + ?m * h) * base ^ n" by (simp add: r(4))
    also have "\<dots> = wval ?B r * base ^ n + h * base ^ n * ?m" by (simp add: distrib_right)
    finally have "?x * base ^ Suc n div ?m = wval ?B r * base ^ n div ?m + h * base ^ n" by simp
    then have "lsd_val base (F @ [CHARS ! h]) = ?x * base ^ Suc n div ?m"
      using F(3,4) r(3) h b by (simp add: lsd_val_append decode_CHARS mult.commute)
    with F(1-3) CHARS_in [OF h b(2)] show "\<exists>F. q = p @ rev F \<and> digit_text base F \<and> length F = Suc n \<and>
      lsd_val base F = ?x * base ^ Suc n div ?m"
      by (intro exI [of _ "F @ [CHARS ! h]"]) simp
  qed
  with r(1) h b Suc.prems(2) show ?case
    by (simp add: CHARS_at_eq put_eq)
qed

text \<open>A value cut to \<open>n\<close> digits after the point in base \<open>b\<close>.\<close>

definition trunc_base :: "nat \<Rightarrow> nat \<Rightarrow> rat \<Rightarrow> rat" where
  "trunc_base b n v = (if v < 0 then - (of_int \<lfloor>- v * of_nat b ^ n\<rfloor> / of_nat b ^ n) else of_int \<lfloor>v * of_nat b ^ n\<rfloor> / of_nat b ^ n)"

lemma trunc_base_num:
  assumes a: "num_ok D a" and b: "0 < b"
  shows "of_int \<lfloor>num_abs D a * of_nat b ^ n\<rfloor> / of_nat b ^ n =
    (of_nat (num_int D a) + of_nat (wval (DECI_BASE D) (take (scale a) (words a)) * b ^ n div DECI_BASE D ^ scale a) / of_nat b ^ n :: rat)"
proof -
  let ?F = "wval (DECI_BASE D) (take (scale a) (words a))" and ?m = "DECI_BASE D ^ scale a"
  have "num_abs D a * of_nat b ^ n = of_nat (?F * b ^ n) / of_nat ?m + of_int (int (num_int D a * b ^ n))"
    by (simp add: num_abs_split [OF a] distrib_right)
  then have "\<lfloor>num_abs D a * of_nat b ^ n\<rfloor> = \<lfloor>of_nat (?F * b ^ n) / (of_nat ?m :: rat)\<rfloor> + int (num_int D a * b ^ n)"
    by (simp only: floor_add_int [symmetric])
  also have "\<lfloor>of_nat (?F * b ^ n) / (of_nat ?m :: rat)\<rfloor> = int (?F * b ^ n div ?m)"
    by (rule floor_divide_of_nat_eq)
  finally show ?thesis using b by (simp add: add_divide_distrib)
qed

lemma base_digits_int_text:
  assumes "base_digits b x I"
  shows "int_text I = (if I = [] then ''0'' else rev I)"
proof (cases I rule: rev_cases)
  case (snoc J c)
  then show ?thesis using assms by (simp add: base_digits_def int_text_def)
qed (simp add: int_text_def)

lemma number_tostring_base_yields:
  assumes D: "deci_ok D" and a: "num_ok D a" and b: "2 \<le> base" "base \<le> 36"
  shows "yields (number_tostring_base_size D a base nfrac) (\<lambda>cap. cap < SIZE_MAX \<longrightarrow>
    yields (number_tostring_base D a base nfrac cap) (\<lambda>s. canonical base s (trunc_base base nfrac (num_val D a))))"
proof -
  let ?B = "DECI_BASE D"
  let ?int = "drop (scale a) (words a)" and ?frac = "take (scale a) (words a)"
  note a' = num_okD [OF a]
  have "yields (digits_per_word D base 1 0) (\<lambda>d. 0 \<le> d \<and> ?B \<le> 1 * base ^ (d - 0))"
    by (rule digits_per_word_yields [OF b(1)]) simp
  then obtain dpw where dpw: "digits_per_word D base 1 0 = Some dpw" "?B \<le> base ^ dpw"
    by (auto elim: yieldsE)
  define cap where "cap = min (3 + min (nfrac + min (nwords a * dpw) SIZE_MAX) SIZE_MAX) SIZE_MAX"
  have size: "number_tostring_base_size D a base nfrac = Some cap"
    by (simp add: number_tostring_base_size_def dpw(1) [simplified] uu_add_zu_or_saturate_eq uu_mul_zu_or_saturate_eq cap_def)
  have "yields (number_tostring_base D a base nfrac cap) (\<lambda>s. canonical base s (trunc_base base nfrac (num_val D a)))"
    if "cap < SIZE_MAX"
  proof -
    from that have cap: "cap = 3 + nfrac + nwords a * dpw"
      by (simp add: cap_def min_def split: if_splits)
    let ?k = "length ?int * dpw"
    have k: "3 + nfrac + ?k \<le> cap" unfolding cap by simp
    have oki: "words_ok ?B ?int" and okf: "words_ok ?B ?frac" using a'(1) by auto
    have "wval ?B ?int < ?B ^ length ?int" by (rule wval_less [OF oki])
    also have "\<dots> \<le> (base ^ dpw) ^ length ?int" by (rule power_mono [OF dpw(2)]) simp
    finally have int: "wval ?B ?int < base ^ ?k" by (simp add: power_mult [symmetric] mult.commute)
    have "yields (put_int D cap base ?int []) (\<lambda>r. \<exists>I. r = [] @ I \<and> base_digits base (wval ?B ?int) I)"
      by (rule put_int_yields [OF D b oki a'(3) int]) (use k in simp)
    then obtain I where I: "put_int D cap base ?int [] = Some I" "base_digits base (wval ?B ?int) I"
      by (auto elim: yieldsE)
    have lenI: "length I \<le> ?k" by (rule base_digits_length [OF I(2) int b(1)])

    have kpos: "0 < ?k" if "I \<noteq> []"
    proof -
      have "0 < length I" using that by simp
      also note lenI
      finally show ?thesis .
    qed
    let ?sg = "if sign a then ''-'' else ''''"
    let ?q = "?sg @ int_text I @ ''.''"
    have int_text: "int_text I = (if I = [] then ''0'' else rev I)" by (rule base_digits_int_text [OF I(2)])
    have "length (int_text I) \<le> length I + 1" "I \<noteq> [] \<Longrightarrow> length (int_text I) = length I"
      using int_text by simp_all
    then have "length (int_text I) \<le> ?k + 1" using lenI by linarith
    then have len: "length ?q + nfrac \<le> cap" using k by simp
    have "yields (put_frac D cap base nfrac ?frac ?q) (\<lambda>r. \<exists>F. r = ?q @ rev F \<and> digit_text base F \<and> length F = nfrac \<and>
      lsd_val base F = wval ?B ?frac * base ^ nfrac div ?B ^ length ?frac)"
      by (rule put_frac_yields [OF D b okf len])
    then obtain F where F: "put_frac D cap base nfrac ?frac ?q = Some (?q @ rev F)" "digit_text base F" "length F = nfrac"
      "lsd_val base F = wval ?B ?frac * base ^ nfrac div ?B ^ scale a"
      using a'(2) by (auto elim!: yieldsE simp: min_absorb2)
    have run: "number_tostring_base D a base nfrac cap = Some (finalize_tostring (?sg @ int_text I @ frac_text F))"
    proof -
      have chop: "chop_zeros (?q @ rev F) = Some (?q @ rev (dropWhile is0 F))"
        by (rule chop_zeros_above) simp_all
      have dot: "chop_dot (?q @ rev (dropWhile is0 F)) = Some (?sg @ int_text I @ frac_text F)"
        using chop_dot_text [OF F(2), of "?sg @ int_text I"] by simp
      have head: "do { p \<leftarrow> put_int D cap base ?int []; p \<leftarrow> (if p = [] then put cap CHR ''0'' p else Some p);
          p \<leftarrow> (if sign a then put cap CHR ''-'' p else Some p); put cap CHR ''.'' (span_reverse p) } = Some ?q"
      proof (cases "I = []")
        case True
        with I(1) k show ?thesis
          by (cases "sign a") (simp_all add: put_eq span_reverse_eq int_text_def)
      next
        case False
        then have "int_text I = rev I" using int_text by simp
        with False I(1) k lenI kpos show ?thesis
          by (cases "sign a") (simp_all add: put_eq span_reverse_eq)
      qed
      have "number_tostring_base D a base nfrac cap = do { p \<leftarrow>
          do { p \<leftarrow> put_int D cap base ?int []; p \<leftarrow> (if p = [] then put cap CHR ''0'' p else Some p);
            p \<leftarrow> (if sign a then put cap CHR ''-'' p else Some p); put cap CHR ''.'' (span_reverse p) };
          p \<leftarrow> put_frac D cap base nfrac ?frac p; p \<leftarrow> chop_zeros p; p \<leftarrow> chop_dot p; Some (finalize_tostring p) }"
        unfolding number_tostring_base_def by simp
      then show ?thesis
        unfolding head using F(1) chop dot by simp
    qed
    have b0: "0 < base" using b(1) by simp
    have v: "of_int \<lfloor>num_abs D a * of_nat base ^ nfrac\<rfloor> / of_nat base ^ nfrac =
        (of_nat (lsd_val base I) + of_nat (lsd_val base F) / of_nat base ^ length F :: rat)"
      using trunc_base_num [OF a b0, of nfrac] I(2) F(3,4) by (simp add: base_digits_def num_int_def)
    have "trunc_base base nfrac (num_val D a) = (if sign a then - (of_int \<lfloor>num_abs D a * of_nat base ^ nfrac\<rfloor> / of_nat base ^ nfrac)
        else of_int \<lfloor>num_abs D a * of_nat base ^ nfrac\<rfloor> / of_nat base ^ nfrac)"
      using num_abs_nonneg [of D a]
      by (cases "num_abs D a = 0") (auto simp: trunc_base_def num_val_def order_less_le simp del: num_abs_nonneg)
    then show ?thesis
      using finalize_text [OF _ F(2) b0 v, of "sign a"] I(2) run by (simp add: base_digits_def)
  qed
  with size show ?thesis by simp
qed

lemma digits_per_word_turn:
  "x < DECI_BASE D \<Longrightarrow> digits_per_word D base x n = digits_per_word D base (x * base) (n + 1)"
  "\<not> x < DECI_BASE D \<Longrightarrow> digits_per_word D base x n = Some n"
  by (subst digits_per_word.simps; simp)+

text \<open>
  C15: \<open>number_tostring_base\<close>, in a buffer of the size that \<open>number_tostring_base_size\<close> computes, writes the
  canonical text, in any base from 2 to 36, of the value cut to \<open>nfrac\<close> digits after the point.
\<close>

theorem number_tostring_base_canonical:
  assumes D: "deci_ok D" and a: "num_ok D a" and b: "2 \<le> base" "base \<le> 36"
  shows "yields (number_tostring_base_size D a base nfrac) (\<lambda>cap. cap < SIZE_MAX \<longrightarrow>
    yields (number_tostring_base D a base nfrac cap) (\<lambda>s. canonical base s (trunc_base base nfrac (num_val D a))))"
  by (rule number_tostring_base_yields [OF assms])

theorem number_tostring_base_canonical_witness:
  "number_tostring_base_size deci_ref \<lparr>nrefs = 1, sign = True, scale = 1, words = [500, 1]\<rparr> 2 3 = Some 26 \<and>
   yields (number_tostring_base deci_ref \<lparr>nrefs = 1, sign = True, scale = 1, words = [500, 1]\<rparr> 2 3 26)
     (\<lambda>s. canonical 2 s (trunc_base 2 3 (-3/2)))"
proof -
  have size: "number_tostring_base_size deci_ref \<lparr>nrefs = 1, sign = True, scale = 1, words = [500, 1]\<rparr> 2 3 = Some 26"
    by (simp add: number_tostring_base_size_def digits_per_word_turn ref_base_def uu_add_zu_or_saturate_eq uu_mul_zu_or_saturate_eq SIZE_MAX_def)
  then show ?thesis
    using number_tostring_base_canonical [OF deci_ref_ok sample_ok(1) [of 1 True], of 2 3] unfolding sample_val by (simp add: SIZE_MAX_def)
qed

end
