(* ===== verification/Number_Compare.thy ===== *)
theory Number_Compare
  imports Number_Mul
begin

text \<open>
  Comparison, digit counts and the bitwise operations of \<open>number.c\<close>.
\<close>

unbundle bit_operations_syntax

section \<open>Comparison\<close>

text \<open>
  The two loops of \<open>compare_abs\<close>, on the words from the most significant one down; reading before the
  beginning of the longer span has no result.
\<close>

fun compare_loop :: "nat list \<Rightarrow> nat list \<Rightarrow> nat option" where
  "compare_loop (x # xs) (y # ys) =
     (if x < y then Some COMPARE_LESS
      else if x > y then Some COMPARE_GREATER
      else compare_loop xs ys)"
| "compare_loop (x # xs) [] = (if x \<noteq> 0 then Some COMPARE_GREATER else compare_loop xs [])"
| "compare_loop [] [] = Some COMPARE_EQ"
| "compare_loop [] (y # ys) = None"

definition compare_abs :: "number \<Rightarrow> number \<Rightarrow> nat option" where
  "compare_abs a b =
     (let ninta = nwords a - scale a; nintb = nwords b - scale b in
      if ninta \<noteq> nintb then Some (if ninta < nintb then COMPARE_LESS else COMPARE_GREATER)
      else
        let (xor_result_with, w1, w2) =
              (if scale a < scale b then (COMPARE_LESS OR COMPARE_GREATER, words b, words a)
               else (0, words a, words b)) in
        do {
          r \<leftarrow> compare_loop (rev w1) (rev w2);
          Some (if r = COMPARE_EQ then COMPARE_EQ else xor_result_with XOR r)
        })"

definition number_compare :: "deci \<Rightarrow> number \<Rightarrow> number \<Rightarrow> nat option" where
  "number_compare D a b =
     (if sign a = sign b then
        (if sign a then compare_abs b a else compare_abs a b)
      else if number_is_zero D a \<and> number_is_zero D b then Some COMPARE_EQ
      else Some (if sign a then COMPARE_LESS else COMPARE_GREATER))"

section \<open>Digit counts\<close>

fun count_digits :: "nat \<Rightarrow> nat" where
  "count_digits hi = (if hi = 0 then 0 else Suc (count_digits (hi div 10)))"

declare count_digits.simps [simp del]

definition number_nintdigits :: "deci \<Rightarrow> number \<Rightarrow> nat" where
  "number_nintdigits D a =
     (let n = nwords a - scale a in
      if n = 0 then 0
      else uu_add_zu_or_saturate (count_digits (words a ! (nwords a - 1)))
             (uu_mul_zu_or_saturate (n - 1) (DECI_BASE_LOG D)))"

text \<open>\<open>for (lo = *wa; lo % 10 == 0; lo /= 10) --summand;\<close>, which does not end for zero.\<close>

partial_function (option) strip_zeros :: "nat \<Rightarrow> nat \<Rightarrow> nat option" where
  "strip_zeros lo summand =
     (if lo mod 10 = 0 then strip_zeros (lo div 10) (summand - 1) else Some summand)"

definition number_nfracdigits :: "deci \<Rightarrow> number \<Rightarrow> nat option" where
  "number_nfracdigits D a =
     (let frac = take (scale a) (words a);
          wa = deci_skip0 D frac in
      if wa = scale a then Some 0
      else do {
        summand \<leftarrow> strip_zeros (frac ! wa) (DECI_BASE_LOG D);
        let n = scale a - (wa + 1);
        Some (uu_add_zu_or_saturate summand (uu_mul_zu_or_saturate n (DECI_BASE_LOG D)))
      })"

section \<open>Bitwise operations\<close>

definition number_bit_and :: "deci \<Rightarrow> number \<Rightarrow> number \<Rightarrow> number option" where
  "number_bit_and D a b =
     (let x = number_to_u32 D a; y = number_to_u32 D b; z = x AND y in
      number_new_from_zu D (unat z))"

definition number_bit_or :: "deci \<Rightarrow> number \<Rightarrow> number \<Rightarrow> number option" where
  "number_bit_or D a b =
     (let x = number_to_u32 D a; y = number_to_u32 D b; z = x OR y in
      number_new_from_zu D (unat z))"

definition number_bit_xor :: "deci \<Rightarrow> number \<Rightarrow> number \<Rightarrow> number option" where
  "number_bit_xor D a b =
     (let x = number_to_u32 D a; y = number_to_u32 D b; z = x XOR y in
      number_new_from_zu D (unat z))"

definition number_bit_shl :: "deci \<Rightarrow> number \<Rightarrow> number \<Rightarrow> number option" where
  "number_bit_shl D a b =
     (let x = number_to_u32 D a; y = number_to_u32 D b;
          z = (if y < 32 then push_bit (unat y) x else 0) in
      number_new_from_zu D (unat z))"

definition number_bit_lshr :: "deci \<Rightarrow> number \<Rightarrow> number \<Rightarrow> number option" where
  "number_bit_lshr D a b =
     (let x = number_to_u32 D a; y = number_to_u32 D b;
          z = (if y < 32 then drop_bit (unat y) x else 0) in
      number_new_from_zu D (unat z))"

section \<open>Comparison is the order of the values\<close>

lemma compare_loop_eq:
  assumes "length ys \<le> length xs" and "words_ok B xs" and "words_ok B ys" and "0 < B"
  shows "compare_loop xs ys =
    Some (compare_code (wval B (rev xs)) (B ^ (length xs - length ys) * wval B (rev ys)))"
  using assms
proof (induction xs ys rule: compare_loop.induct)
  case (1 x xs y ys)
  let ?p = "B ^ length xs" and ?q = "B ^ (length xs - length ys)"
  let ?X = "wval B (rev xs)" and ?Y = "?q * wval B (rev ys)"
  have lx: "wval B (rev (x # xs)) = ?X + ?p * x"
    by (simp add: wval_append)
  have "?q * B ^ length ys = ?p"
    using 1(2) by (simp flip: power_add)
  then have ly: "B ^ (length (x # xs) - length (y # ys)) * wval B (rev (y # ys)) = ?Y + ?p * y"
    by (simp add: wval_append distrib_left mult.assoc [symmetric])
  have X: "?X < ?p"
    using wval_less [of B "rev xs"] 1(3) by simp
  have "wval B (rev ys) < B ^ length ys"
    using wval_less [of B "rev ys"] 1(4) by simp
  then have Y: "?Y < ?p"
    using \<open>?q * B ^ length ys = ?p\<close> 1(5) by (metis mult_less_mono2 zero_less_power)
  have mono: "u + ?p * i < v + ?p * j" if "u < ?p" "i < j" for u v i j
  proof -
    have "u + ?p * i < ?p * Suc i" using that(1) by simp
    also have "\<dots> \<le> ?p * j" using that(2) by (intro mult_le_mono2) simp
    finally show ?thesis by simp
  qed
  consider "x < y" | "x = y" | "y < x"
    by (rule linorder_cases)
  then show ?case
  proof cases
    case 1
    with mono [OF X this, of ?Y] show ?thesis
      unfolding lx ly by (simp add: compare_code_def)
  next
    case 2
    with 1 show ?thesis
      unfolding lx ly by (simp add: compare_code_def)
  next
    case 3
    with mono [OF Y this, of ?X] show ?thesis
      unfolding lx ly by (auto simp: compare_code_def)
  qed
next
  case (2 x xs)
  then show ?case
    by (auto simp: wval_append compare_code_def)
qed (simp_all add: compare_code_def)

lemma compare_code_scaled:
  fixes k :: rat
  assumes "0 < k"
  shows "compare_code (of_nat x / k) (of_nat y / k) = compare_code x y"
  using assms less_scaled [OF assms, of x y] by (auto simp: compare_code_def)

lemma compare_code_swap:
  "(if compare_code x y = COMPARE_EQ then COMPARE_EQ
    else (COMPARE_LESS OR COMPARE_GREATER) XOR compare_code x y) = compare_code y x"
  by (auto simp: compare_code_def COMPARE_LESS_def COMPARE_EQ_def COMPARE_GREATER_def)

lemma compare_abs_eq:
  assumes D: "deci_ok D" and a: "num_ok D a" and b: "num_ok D b"
  shows "compare_abs a b = Some (compare_code (num_abs D a) (num_abs D b))"
proof -
  note a' = num_okD [OF a] and b' = num_okD [OF b]
  let ?B = "DECI_BASE D"
  consider (lengths) "nwords a - scale a \<noteq> nwords b - scale b"
    | (same) "nwords a - scale a = nwords b - scale b"
    by blast
  then show ?thesis
  proof cases
    case lengths
    have less: "num_abs D x < num_abs D y" if "num_ok D x" "num_ok D y" "nwords x - scale x < nwords y - scale y" for x y
    proof -
      have "num_int D x < num_int D y"
        unfolding num_int_def
        by (rule normalized_less) (use that num_okD [of D x] num_okD [of D y] in \<open>auto intro: words_ok_drop\<close>)
      then have "\<lfloor>num_abs D x\<rfloor> < \<lfloor>num_abs D y\<rfloor>"
        using that by (simp add: floor_num_abs)
      then show ?thesis by (simp add: floor_less_cancel)
    qed
    show ?thesis
      using lengths less [OF a b] less [OF b a] by (auto simp: compare_abs_def compare_code_def)
  next
    case same
    have loop: "compare_loop (rev (words x)) (rev (words y)) = Some (compare_code (num_abs D x) (num_abs D y))"
      if x: "num_ok D x" and y: "num_ok D y" and sc: "scale y \<le> scale x"
        and len: "nwords x - scale x = nwords y - scale y" for x y
    proof -
      have "nwords x - nwords y = scale x - scale y" "nwords y \<le> nwords x"
        using sc len num_okD(2) [OF x] num_okD(2) [OF y] by linarith+
      then have "compare_loop (rev (words x)) (rev (words y)) =
          Some (compare_code (wval ?B (words x)) (?B ^ (scale x - scale y) * wval ?B (words y)))"
        using compare_loop_eq [of "rev (words y)" "rev (words x)" ?B] num_okD(1) [OF x] num_okD(1) [OF y] by simp
      then show ?thesis
        using num_abs_at_scale [OF sc, of D]
        by (simp add: compare_code_scaled [symmetric, of "of_nat ?B ^ scale x"] num_abs_def)
    qed
    show ?thesis
    proof (cases "scale a < scale b")
      case True
      then have "compare_loop (rev (words b)) (rev (words a)) = Some (compare_code (num_abs D b) (num_abs D a))"
        using same by (intro loop [OF b a]) simp_all
      then show ?thesis
        using True same unfolding compare_abs_def Let_def by (simp add: compare_code_swap)
    next
      case False
      then have "compare_loop (rev (words a)) (rev (words b)) = Some (compare_code (num_abs D a) (num_abs D b))"
        using same by (intro loop [OF a b]) simp_all
      then show ?thesis
        using False same unfolding compare_abs_def Let_def by simp
    qed
  qed
qed

lemma number_compare_eq:
  assumes D: "deci_ok D" and a: "num_ok D a" and b: "num_ok D b"
  shows "number_compare D a b = Some (compare_code (num_val D a) (num_val D b))"
proof (cases "sign a = sign b")
  case True
  then show ?thesis
    using compare_abs_eq [OF D a b] compare_abs_eq [OF D b a]
    by (auto simp: number_compare_def num_val_def compare_code_def)
next
  case False
  have "num_val D a = 0 \<longleftrightarrow> num_abs D a = 0" "num_val D b = 0 \<longleftrightarrow> num_abs D b = 0"
    by (rule num_val_eq_0)+
  with False show ?thesis
    using num_abs_nonneg [of D a] num_abs_nonneg [of D b]
    by (auto simp: number_compare_def number_is_zero_iff [OF D a] number_is_zero_iff [OF D b]
        num_val_def compare_code_def order_le_less simp del: num_abs_nonneg)
qed

text \<open>
  C9: Comparison of well-formed numbers is the order of their values, whatever their scales and signs,
  trailing zero words and negative zeros included.
\<close>

theorem number_compare_exact:
  assumes D: "deci_ok D" and a: "num_ok D a" and b: "num_ok D b"
  shows "number_compare D a b = Some (compare_code (num_val D a) (num_val D b))"
  by (rule number_compare_eq [OF assms])

theorem number_compare_exact_witness:
  "number_compare deci_ref \<lparr>nrefs = 1, sign = True, scale = 1, words = [500, 1]\<rparr>
     \<lparr>nrefs = 1, sign = False, scale = 2, words = [1, 750, 3]\<rparr> = Some COMPARE_LESS"
  unfolding number_compare_exact [OF deci_ref_ok sample_ok(1) sample_ok(3)] sample_val
  by (simp add: compare_code_def)

section \<open>Conversions and bitwise operations\<close>

lemma u32_le_SIZE_MAX: "unat (w :: 32 word) \<le> SIZE_MAX"
  using unsigned_less [of w, where 'a = nat] by (simp add: SIZE_MAX_def)

lemma shift_by_small: "y < (32 :: 32 word) \<longleftrightarrow> unat y < 32"
  by (simp add: word_less_nat_alt)

lemma number_to_zu_val:
  assumes D: "deci_ok D" and a: "num_ok D a"
  shows "number_to_zu D a = (if num_val D a < 0 \<or> of_nat SIZE_MAX \<le> num_val D a then SIZE_MAX
                        else nat \<lfloor>num_val D a\<rfloor>)"
proof -
  have fl: "\<lfloor>num_abs D a\<rfloor> = int (num_int D a)"
    by (rule floor_num_abs [OF a])
  have big: "of_nat SIZE_MAX \<le> num_abs D a \<longleftrightarrow> SIZE_MAX \<le> num_int D a"
    using le_floor_iff [of "int SIZE_MAX" "num_abs D a"] fl by simp
  show ?thesis
  proof (cases "sign a")
    case True
    then have v: "num_val D a = - num_abs D a" by (simp add: num_val_def)
    have S: "(0 :: rat) < of_nat SIZE_MAX" by (simp add: SIZE_MAX_def)
    show ?thesis
    proof (cases "num_abs D a = 0")
      case True
      with \<open>sign a\<close> S show ?thesis
        unfolding number_to_zu_eq [OF D a] v by simp
    next
      case False
      then have "0 < num_abs D a" using num_abs_nonneg [of D a] by linarith
      with \<open>sign a\<close> show ?thesis
        unfolding number_to_zu_eq [OF D a] v by simp
    qed
  next
    case False
    then show ?thesis
      using big fl by (simp add: number_to_zu_eq [OF D a] num_val_def min_def)
  qed
qed

text \<open>
  Conversions to and from machine integers. A \<open>size_t\<close> becomes a number of exactly that value;
  \<open>number_to_zu\<close> gives back the integer part, with \<open>SIZE_MAX\<close> for negative values and for those that
  are not below it; \<open>number_to_u32\<close> gives the integer part modulo \<open>2 ^ 32\<close>, in two's complement.
\<close>

theorem machine_integers:
  assumes D: "deci_ok D" and a: "num_ok D a" and x: "x \<le> SIZE_MAX"
  shows "yields (number_new_from_zu D x) (\<lambda>r. num_ok D r \<and> num_val D r = of_nat x \<and>
      number_to_zu D r = x \<and> number_to_u32 D r = of_nat x) \<and>
    number_to_zu D a = (if num_val D a < 0 \<or> of_nat SIZE_MAX \<le> num_val D a then SIZE_MAX
                        else nat \<lfloor>num_val D a\<rfloor>) \<and>
    number_to_u32 D a = of_int (if num_val D a < 0 then \<lceil>num_val D a\<rceil> else \<lfloor>num_val D a\<rfloor>)"
proof (intro conjI)
  show "yields (number_new_from_zu D x) (\<lambda>r. num_ok D r \<and> num_val D r = of_nat x \<and>
      number_to_zu D r = x \<and> number_to_u32 D r = of_nat x)"
  proof (rule yields_conseq [OF number_new_from_zu_yields [OF D x]])
    fix r
    assume r: "num_ok D r \<and> num_val D r = of_nat x \<and> nrefs r = 1 \<and> \<not> sign r \<and> scale r = 0 \<and>
       digits_of (DECI_BASE D) x (words r)"
    then have int: "num_int D r = x"
      by (simp add: num_int_def digits_of_def)
    have "number_to_zu D r = x"
      using number_to_zu_eq [OF D, of r] r x int by simp
    moreover have "number_to_u32 D r = of_nat x"
      unfolding number_to_u32_eq using r int by simp
    ultimately show "num_ok D r \<and> num_val D r = of_nat x \<and> number_to_zu D r = x \<and> number_to_u32 D r = of_nat x"
      using r by blast
  qed
  have fl: "\<lfloor>num_abs D a\<rfloor> = int (num_int D a)"
    by (rule floor_num_abs [OF a])
  show "number_to_zu D a = (if num_val D a < 0 \<or> of_nat SIZE_MAX \<le> num_val D a then SIZE_MAX
                        else nat \<lfloor>num_val D a\<rfloor>)"
    by (rule number_to_zu_val [OF D a])
  show "number_to_u32 D a = of_int (if num_val D a < 0 then \<lceil>num_val D a\<rceil> else \<lfloor>num_val D a\<rfloor>)"
    using num_abs_nonneg [of D a] fl
    by (cases "num_abs D a = 0")
      (auto simp: number_to_u32_eq num_val_def ceiling_minus order_less_le simp del: num_abs_nonneg)
qed

theorem machine_integers_witness:
  "yields (number_new_from_zu deci_ref 4294967299) (\<lambda>r. num_val deci_ref r = 4294967299 \<and> number_to_u32 deci_ref r = 3) \<and>
   number_to_zu deci_ref \<lparr>nrefs = 1, sign = True, scale = 0, words = [3]\<rparr> = SIZE_MAX"
proof -
  note m = machine_integers [OF deci_ref_ok sample_ok(2), of 4294967299 1 True, unfolded sample_val]
  have "(4294967299 :: 32 word) = 3" by simp
  with m show ?thesis
    by (auto simp: SIZE_MAX_def elim!: yields_conseq)
qed

lemma bit_operations_yield:
  assumes D: "deci_ok D"
  defines "u \<equiv> number_to_u32 D"
  shows "yields (number_bit_and D a b) (\<lambda>r. num_ok D r \<and> num_val D r = of_nat (unat (u a AND u b))) \<and>
    yields (number_bit_or D a b) (\<lambda>r. num_ok D r \<and> num_val D r = of_nat (unat (u a OR u b))) \<and>
    yields (number_bit_xor D a b) (\<lambda>r. num_ok D r \<and> num_val D r = of_nat (unat (u a XOR u b))) \<and>
    yields (number_bit_shl D a b) (\<lambda>r. num_ok D r \<and> num_val D r = of_nat (unat (u a) * 2 ^ unat (u b) mod 2 ^ 32)) \<and>
    yields (number_bit_lshr D a b) (\<lambda>r. num_ok D r \<and> num_val D r = of_nat (unat (u a) div 2 ^ unat (u b)))"
proof -
  have new: "yields (number_new_from_zu D (unat w)) (\<lambda>r. num_ok D r \<and> num_val D r = of_nat (unat w))" for w :: "32 word"
    by (rule yields_conseq [OF number_new_from_zu_yields [OF D u32_le_SIZE_MAX]]) simp
  let ?x = "u a" and ?n = "unat (u b)"
  have shl: "unat (if u b < 32 then push_bit ?n ?x else 0) = unat ?x * 2 ^ ?n mod 2 ^ 32"
  proof (cases "u b < 32")
    case True
    have "unat (push_bit ?n ?x) = take_bit 32 (push_bit ?n (unat ?x))"
      by (subst unsigned_push_bit_eq) simp
    with True show ?thesis
      by (simp only: if_True) (simp add: take_bit_eq_mod push_bit_eq_mult)
  next
    case False
    then have "32 \<le> ?n" by (simp add: shift_by_small)
    then have "(2 :: nat) ^ 32 dvd 2 ^ ?n" by (rule le_imp_power_dvd)
    then have "unat ?x * 2 ^ ?n mod 2 ^ 32 = 0" by simp
    with False show ?thesis by simp
  qed
  have lshr: "unat (if u b < 32 then drop_bit ?n ?x else 0) = unat ?x div 2 ^ ?n"
  proof (cases "u b < 32")
    case True
    have "unat (drop_bit ?n ?x) = drop_bit ?n (take_bit 32 (unat ?x))"
      by (subst unsigned_drop_bit_eq) simp
    also have "take_bit 32 (unat ?x) = unat ?x"
      using unsigned_less [of ?x, where 'a = nat] by (simp add: take_bit_eq_mod)
    finally show ?thesis
      using True by (simp only: if_True) (simp add: drop_bit_eq_div)
  next
    case False
    then have "32 \<le> ?n" by (simp add: shift_by_small)
    then have "(2 :: nat) ^ 32 \<le> 2 ^ ?n" by (intro power_increasing) auto
    then have "unat ?x < 2 ^ ?n"
      using unsigned_less [of ?x, where 'a = nat] by simp
    with False show ?thesis by simp
  qed
  show ?thesis
    using new [of "u a AND u b"] new [of "u a OR u b"] new [of "u a XOR u b"]
      new [of "if u b < 32 then push_bit ?n ?x else 0"] new [of "if u b < 32 then drop_bit ?n ?x else 0"]
    unfolding shl lshr number_bit_and_def number_bit_or_def number_bit_xor_def number_bit_shl_def
      number_bit_lshr_def Let_def u_def [symmetric] by blast
qed

text \<open>
  The bitwise operators act on the operands' integer parts modulo \<open>2 ^ 32\<close> and return the result
  as a non-negative integer; shifts by 32 or more give zero.
\<close>

theorem bit_operations:
  assumes D: "deci_ok D"
  defines "u \<equiv> number_to_u32 D"
  shows "yields (number_bit_and D a b) (\<lambda>r. num_ok D r \<and> num_val D r = of_nat (unat (u a AND u b))) \<and>
    yields (number_bit_or D a b) (\<lambda>r. num_ok D r \<and> num_val D r = of_nat (unat (u a OR u b))) \<and>
    yields (number_bit_xor D a b) (\<lambda>r. num_ok D r \<and> num_val D r = of_nat (unat (u a XOR u b))) \<and>
    yields (number_bit_shl D a b) (\<lambda>r. num_ok D r \<and> num_val D r = of_nat (unat (u a) * 2 ^ unat (u b) mod 2 ^ 32)) \<and>
    yields (number_bit_lshr D a b) (\<lambda>r. num_ok D r \<and> num_val D r = of_nat (unat (u a) div 2 ^ unat (u b)))"
  unfolding u_def by (rule bit_operations_yield [OF D])

theorem bit_operations_witness:
  "yields (number_bit_and deci_ref \<lparr>nrefs = 1, sign = True, scale = 0, words = [3]\<rparr>
     \<lparr>nrefs = 1, sign = False, scale = 0, words = [3]\<rparr>) (\<lambda>r. num_val deci_ref r = 1)"
proof -
  have "number_to_u32 deci_ref \<lparr>nrefs = 1, sign = True, scale = 0, words = [3]\<rparr> = -3"
    "number_to_u32 deci_ref \<lparr>nrefs = 1, sign = False, scale = 0, words = [3]\<rparr> = 3"
    by (simp_all add: number_to_u32_eq num_int_def)
  moreover have "unat ((-3 :: 32 word) AND 3) = 1"
    by simp
  ultimately show ?thesis
    using bit_operations [OF deci_ref_ok, of "\<lparr>nrefs = 1, sign = True, scale = 0, words = [3]\<rparr>"
        "\<lparr>nrefs = 1, sign = False, scale = 0, words = [3]\<rparr>"]
    by (auto elim!: yields_conseq)
qed

section \<open>Digit counts\<close>

lemma count_digits_bounds:
  "x < 10 ^ count_digits x \<and> (0 < x \<longrightarrow> 0 < count_digits x \<and> 10 ^ (count_digits x - 1) \<le> x)"
proof (induction x rule: count_digits.induct)
  case (1 hi)
  show ?case
  proof (cases "hi = 0")
    case True
    then have "count_digits hi = 0" by (subst count_digits.simps) simp
    with True show ?thesis by simp
  next
    case False
    let ?n = "count_digits (hi div 10)"
    have unfold: "count_digits hi = Suc ?n"
      using False by (subst count_digits.simps) simp
    have "hi div 10 < 10 ^ ?n" using 1 False by blast
    then have up: "hi < 10 ^ Suc ?n" by simp
    have "10 ^ ?n \<le> hi"
    proof (cases "hi div 10 = 0")
      case True
      then have "?n = 0" by (subst count_digits.simps) simp
      with False show ?thesis by simp
    next
      case nz: False
      then have "0 < ?n" "10 ^ (?n - 1) \<le> hi div 10" using 1 False by simp_all
      then have "10 * 10 ^ (?n - 1) \<le> hi" by linarith
      moreover have "(10 :: nat) ^ ?n = 10 * 10 ^ (?n - 1)"
        using \<open>0 < ?n\<close> by (metis power_eq_if not_gr_zero)
      ultimately show ?thesis by simp
    qed
    with up unfold show ?thesis by simp
  qed
qed

lemma strip_zeros_eq:
  "0 < x \<Longrightarrow> \<exists>z m. strip_zeros x s = Some (s - z) \<and> x = 10 ^ z * m \<and> \<not> 10 dvd m"
proof (induction x arbitrary: s rule: less_induct)
  case (less x)
  show ?case
  proof (cases "x mod 10 = 0")
    case True
    with less.prems have x: "x = 10 * (x div 10)" "0 < x div 10" "x div 10 < x" by auto
    from less.IH [OF x(3) x(2), of "s - 1"] obtain z m
      where "strip_zeros (x div 10) (s - 1) = Some (s - 1 - z)" "x div 10 = 10 ^ z * m" "\<not> 10 dvd m" by blast
    with True x(1) have "strip_zeros x s = Some (s - Suc z) \<and> x = 10 ^ Suc z * m \<and> \<not> 10 dvd m"
      by (subst strip_zeros.simps) simp
    then show ?thesis by blast
  next
    case False
    then have "strip_zeros x s = Some (s - 0) \<and> x = 10 ^ 0 * x \<and> \<not> 10 dvd x"
      by (subst strip_zeros.simps) (simp add: mod_eq_0_iff_dvd)
    then show ?thesis by blast
  qed
qed

text \<open>\<open>10 ^ n\<close> divides \<open>10 ^ z * m * 10 ^ j\<close>, for \<open>m\<close> with no factor 10, when enough powers are there.\<close>

lemma pow10_dvd_iff:
  assumes "\<not> 10 dvd (m :: nat)"
  shows "10 ^ n dvd 10 ^ z * m * 10 ^ j \<longleftrightarrow> n \<le> z + j"
proof
  assume dvd: "10 ^ n dvd 10 ^ z * m * 10 ^ j"
  show "n \<le> z + j"
  proof (rule ccontr)
    assume "\<not> n \<le> z + j"
    then have "10 ^ (z + j) * 10 dvd (10 :: nat) ^ n"
      using le_imp_power_dvd [of "Suc (z + j)" n "10 :: nat"] by (simp add: mult.commute)
    also note dvd
    finally have "10 ^ (z + j) * 10 dvd 10 ^ (z + j) * m" by (simp add: power_add mult_ac)
    with assms show False by (simp add: dvd_mult_cancel1)
  qed
next
  assume "n \<le> z + j"
  then have "(10 :: nat) ^ n dvd 10 ^ (z + j)" by (rule le_imp_power_dvd)
  then show "10 ^ n dvd 10 ^ z * m * 10 ^ j"
    by (metis dvd_mult2 mult.assoc mult.commute power_add)
qed

lemma Ints_of_nat_divide:
  assumes "0 < q"
  shows "(of_nat p / of_nat q :: rat) \<in> \<int> \<longleftrightarrow> q dvd p"
proof
  assume "q dvd p"
  then obtain k where "p = q * k" ..
  with assms have "(of_nat p / of_nat q :: rat) = of_nat k" by simp
  then show "(of_nat p / of_nat q :: rat) \<in> \<int>" by simp
next
  assume "(of_nat p / of_nat q :: rat) \<in> \<int>"
  then obtain i where "of_nat p / of_nat q = (of_int i :: rat)" by (auto elim: Ints_cases)
  with assms have "(of_int (int p) :: rat) = of_int (i * int q)" by (simp add: field_simps)
  then have "int p = i * int q" by (simp only: of_int_eq_iff)
  then have "int q dvd int p" by simp
  then show "q dvd p" by simp
qed

lemma pow10_words: "DECI_BASE D ^ n = 10 ^ (DECI_BASE_LOG D * n)"
  by (simp add: DECI_BASE_def power_mult)

lemma number_nintdigits_eq:
  assumes D: "deci_ok D" and a: "num_ok D a"
  obtains k where "number_nintdigits D a = min k SIZE_MAX" and "num_int D a < 10 ^ k"
    and "0 < num_int D a \<longrightarrow> 0 < k \<and> 10 ^ (k - 1) \<le> num_int D a" and "num_int D a = 0 \<longrightarrow> k = 0"
proof (cases "nwords a = scale a")
  case True
  then have "num_int D a = 0" "number_nintdigits D a = 0"
    by (simp_all add: num_int_def number_nintdigits_def)
  then show ?thesis by (intro that [of 0]) simp_all
next
  case False
  let ?B = "DECI_BASE D"
  let ?ws = "drop (scale a) (words a)"
  have ne: "?ws \<noteq> []" using False num_okD(2) [OF a] by simp
  then obtain xs hi where ws: "?ws = xs @ [hi]" by (cases ?ws rule: rev_cases) auto
  have n: "nwords a - scale a = Suc (length xs)"
    using arg_cong [OF ws, of length] by simp
  have hi: "hi = words a ! (nwords a - 1)"
    using arg_cong [OF ws, of last] ne by (simp add: last_conv_nth)
  have "0 < hi" using num_okD(3) [OF a] ws by simp
  then have c: "hi < 10 ^ count_digits hi" "0 < count_digits hi" "10 ^ (count_digits hi - 1) \<le> hi"
    using count_digits_bounds [of hi] by simp_all
  let ?p = "10 ^ (DECI_BASE_LOG D * length xs) :: nat"
  let ?k = "count_digits hi + DECI_BASE_LOG D * length xs"
  have int: "num_int D a = wval ?B xs + ?p * hi"
    unfolding num_int_def ws by (simp add: wval_append pow10_words)
  have "words_ok ?B ?ws" by (rule words_ok_drop [OF num_okD(1) [OF a]])
  then have "wval ?B xs < ?p"
    using wval_less [of ?B xs] ws by (simp add: pow10_words)
  then have "num_int D a < ?p * Suc hi" using int by simp
  also have "\<dots> \<le> ?p * 10 ^ count_digits hi" using c(1) by (intro mult_le_mono2) simp
  finally have up: "num_int D a < 10 ^ ?k" by (simp add: power_add mult.commute)
  have "10 ^ (?k - 1) = ?p * 10 ^ (count_digits hi - 1)"
    using c(2) by (simp add: power_add [symmetric] add.commute)
  also have "\<dots> \<le> num_int D a" unfolding int by (rule trans_le_add2 [OF mult_le_mono2 [OF c(3)]])
  finally have lo: "10 ^ (?k - 1) \<le> num_int D a" .
  have res: "number_nintdigits D a = min ?k SIZE_MAX"
    using n hi by (simp add: number_nintdigits_def uu_add_mul_saturate mult.commute)
  have "num_int D a \<noteq> 0" using lo by (metis le_zero_eq power_not_zero zero_neq_numeral)
  with res up lo c(2) show ?thesis by (intro that [of ?k]) simp_all
qed

lemma num_abs_Ints_iff:
  assumes a: "num_ok D a"
  shows "num_abs D a * 10 ^ j \<in> \<int> \<longleftrightarrow>
    DECI_BASE D ^ scale a dvd wval (DECI_BASE D) (take (scale a) (words a)) * 10 ^ j"
proof -
  let ?B = "DECI_BASE D" and ?F = "wval (DECI_BASE D) (take (scale a) (words a))"
  have eq: "num_abs D a * 10 ^ j = of_nat (num_int D a * 10 ^ j) + of_nat (?F * 10 ^ j) / of_nat (?B ^ scale a)"
    by (simp add: num_abs_split [OF a] field_simps)
  have "num_abs D a * 10 ^ j \<in> \<int> \<longleftrightarrow> (of_nat (?F * 10 ^ j) / of_nat (?B ^ scale a) :: rat) \<in> \<int>"
    unfolding eq by (metis Ints_add Ints_diff Ints_of_nat add_diff_cancel_left')
  also have "\<dots> \<longleftrightarrow> ?B ^ scale a dvd ?F * 10 ^ j"
    by (rule Ints_of_nat_divide) simp
  finally show ?thesis .
qed

lemma number_nfracdigits_eq:
  assumes D: "deci_ok D" and a: "num_ok D a"
  obtains k where "number_nfracdigits D a = Some (min k SIZE_MAX)"
    and "\<And>j. num_abs D a * 10 ^ j \<in> \<int> \<longleftrightarrow> k \<le> j"
proof -
  let ?B = "DECI_BASE D" and ?L = "DECI_BASE_LOG D"
  let ?f = "take (scale a) (words a)"
  let ?s = "deci_skip0 D ?f"
  have len: "length ?f = scale a" using num_okD(2) [OF a] by simp
  obtain rest where f: "?f = replicate ?s 0 @ rest" and rest: "drop ?s ?f = rest" "rest = [] \<or> hd rest \<noteq> 0"
    by (rule deci_skip0_split [OF D])
  show ?thesis
  proof (cases "?s = scale a")
    case True
    then have "rest = []" using rest(1) len by simp
    then have "wval ?B ?f = 0" using f by (metis append_Nil2 wval_replicate_0)
    with True num_abs_Ints_iff [OF a] show ?thesis
      by (intro that [of 0]) (simp_all add: number_nfracdigits_def)
  next
    case False
    then have s: "?s < scale a" using deci_skip0_law(1) [OF D, of ?f] len by simp
    then obtain w tl where r: "rest = w # tl" "w \<noteq> 0"
      using rest len by (cases rest) auto
    have w: "?f ! ?s = w" using f r(1) by (metis length_replicate nth_append_length)
    have wB: "w < 10 ^ ?L"
      using num_okD(1) [OF a] words_ok_take [of ?B "words a" "scale a"] words_ok_nth [of ?B ?f ?s] w s len
      by (simp add: DECI_BASE_def)
    obtain z m where z: "strip_zeros w ?L = Some (?L - z)" "w = 10 ^ z * m" "\<not> 10 dvd m"
      using strip_zeros_eq [of w ?L] r(2) by auto
    have "0 < m" using r(2) z(2) by simp
    then have "10 ^ z * 1 \<le> w" unfolding z(2) by (intro mult_le_mono2) simp
    then have "(10 :: nat) ^ z < 10 ^ ?L" using wB by linarith
    then have zL: "z < ?L" by (rule power_less_imp_less_exp [rotated]) simp
    let ?m = "m + 10 ^ (?L - z) * wval ?B tl"
    have "10 dvd (10 :: nat) ^ (?L - z) * wval ?B tl" using zL by (intro dvd_mult2 dvd_power) simp
    with z(3) have m: "\<not> 10 dvd ?m" by (simp add: dvd_add_left_iff)
    have "(10 :: nat) ^ ?L = 10 ^ z * 10 ^ (?L - z)" using zL by (simp flip: power_add)
    then have "w + ?B * wval ?B tl = 10 ^ z * ?m"
      unfolding z(2) DECI_BASE_def by (simp add: distrib_left)
    then have F: "wval ?B ?f = 10 ^ (?L * ?s + z) * ?m"
      using f r(1) by (metis wval.simps(2) wval_append wval_replicate_0 add_0 length_replicate pow10_words
          mult.assoc power_add)
    let ?k = "?L - z + ?L * (scale a - (?s + 1))"
    have "scale a = ?s + 1 + (scale a - (?s + 1))" using s by simp
    then have "?L * scale a = ?L * (?s + 1 + (scale a - (?s + 1)))" by (rule arg_cong)
    also have "\<dots> = ?L * ?s + ?L + ?L * (scale a - (?s + 1))" by (simp add: distrib_left)
    finally have k: "?L * scale a \<le> ?L * ?s + z + j \<longleftrightarrow> ?k \<le> j" for j using zL by linarith
    have "number_nfracdigits D a = Some (min ?k SIZE_MAX)"
      using False w z(1) by (simp add: number_nfracdigits_def Let_def uu_add_mul_saturate mult.commute)
    moreover have "num_abs D a * 10 ^ j \<in> \<int> \<longleftrightarrow> ?k \<le> j" for j
      unfolding num_abs_Ints_iff [OF a] F pow10_words pow10_dvd_iff [OF m] by (rule k)
    ultimately show ?thesis by (rule that)
  qed
qed

lemma digit_counts_yields:
  assumes D: "deci_ok D" and a: "num_ok D a"
  shows "\<exists>i f. number_nintdigits D a = min i SIZE_MAX \<and>
      (if \<lfloor>\<bar>num_val D a\<bar>\<rfloor> = 0 then i = 0 else 0 < i \<and> 10 ^ (i - 1) \<le> \<lfloor>\<bar>num_val D a\<bar>\<rfloor> \<and> \<lfloor>\<bar>num_val D a\<bar>\<rfloor> < 10 ^ i) \<and>
    number_nfracdigits D a = Some (min f SIZE_MAX) \<and>
      (\<forall>j. num_val D a * 10 ^ j \<in> \<int> \<longleftrightarrow> f \<le> j)"
proof -
  obtain i where i: "number_nintdigits D a = min i SIZE_MAX" "num_int D a < 10 ^ i"
    "0 < num_int D a \<longrightarrow> 0 < i \<and> 10 ^ (i - 1) \<le> num_int D a" "num_int D a = 0 \<longrightarrow> i = 0"
    by (rule number_nintdigits_eq [OF D a])
  obtain f where f: "number_nfracdigits D a = Some (min f SIZE_MAX)"
    "\<And>j. num_abs D a * 10 ^ j \<in> \<int> \<longleftrightarrow> f \<le> j"
    by (rule number_nfracdigits_eq [OF D a]) blast
  have fl: "\<lfloor>\<bar>num_val D a\<bar>\<rfloor> = int (num_int D a)"
    by (simp add: abs_num_val floor_num_abs [OF a])
  have pw: "int (num_int D a) < 10 ^ n \<longleftrightarrow> num_int D a < 10 ^ n" "10 ^ n \<le> int (num_int D a) \<longleftrightarrow> 10 ^ n \<le> num_int D a" for n
    using of_nat_less_iff [of "num_int D a" "10 ^ n", where 'a = int]
      of_nat_le_iff [of "10 ^ n" "num_int D a", where 'a = int] by simp_all
  have "if \<lfloor>\<bar>num_val D a\<bar>\<rfloor> = 0 then i = 0 else 0 < i \<and> 10 ^ (i - 1) \<le> \<lfloor>\<bar>num_val D a\<bar>\<rfloor> \<and> \<lfloor>\<bar>num_val D a\<bar>\<rfloor> < 10 ^ i"
    using i(2-4) unfolding fl pw by simp
  moreover have "num_val D a * 10 ^ j \<in> \<int> \<longleftrightarrow> f \<le> j" for j
    using f(2) [of j] by (simp add: num_val_def)
  ultimately show ?thesis
    using i(1) f(1) by blast
qed

text \<open>
  C24: The digit counts. \<open>number_nintdigits\<close> is the number of decimal digits of the integer part, 0
  for zero; \<open>number_nfracdigits\<close> returns, and is the least power of ten that makes the value whole;
  both saturate at \<open>SIZE_MAX\<close>.
\<close>

theorem digit_counts:
  assumes D: "deci_ok D" and a: "num_ok D a"
  shows "\<exists>i f. number_nintdigits D a = min i SIZE_MAX \<and>
      (if \<lfloor>\<bar>num_val D a\<bar>\<rfloor> = 0 then i = 0 else 0 < i \<and> 10 ^ (i - 1) \<le> \<lfloor>\<bar>num_val D a\<bar>\<rfloor> \<and> \<lfloor>\<bar>num_val D a\<bar>\<rfloor> < 10 ^ i) \<and>
    number_nfracdigits D a = Some (min f SIZE_MAX) \<and>
      (\<forall>j. num_val D a * 10 ^ j \<in> \<int> \<longleftrightarrow> f \<le> j)"
  by (rule digit_counts_yields [OF assms])

theorem digit_counts_witness:
  "\<exists>f. number_nfracdigits deci_ref \<lparr>nrefs = 1, sign = True, scale = 1, words = [500, 1]\<rparr> = Some (min f SIZE_MAX) \<and>
     (\<forall>j. (-3/2 :: rat) * 10 ^ j \<in> \<int> \<longleftrightarrow> f \<le> j)"
  using digit_counts [OF deci_ref_ok sample_ok(1) [of 1 True]] unfolding sample_val by auto

end
