(* ===== verification/Number_Parse.thy ===== *)
theory Number_Parse
  imports Number_Print Number_Div Number_Compare
begin

text \<open>
  Text as numbers: the validation of \<open>number_parse_base_validate\<close>, the word-wise decimal parser
  \<open>number_parse\<close> and \<open>number_parse_base\<close> of \<open>number.c\<close>.

  A span of characters is a string. Reading outside of it has no result; neither has decoding a
  character that is not a decimal digit in \<open>parse_word\<close>, which is not asked of it.
\<close>

section \<open>Spans of characters\<close>

text \<open>\<open>span_memchr\<close>: the index of the first occurrence.\<close>

fun span_memchr :: "string \<Rightarrow> char \<Rightarrow> nat option" where
  "span_memchr [] c = None"
| "span_memchr (x # s) c = (if x = c then Some 0 else map_option Suc (span_memchr s c))"

lemma span_memchr_Some:
  "span_memchr s c = Some k \<Longrightarrow> k < length s \<and> s = take k s @ c # drop (Suc k) s \<and> c \<notin> set (take k s)"
  by (induction s arbitrary: k) (auto split: if_splits)

lemma span_memchr_None: "span_memchr s c = None \<longleftrightarrow> c \<notin> set s"
  by (induction s) auto

lemma span_memchr_append: "c \<notin> set p \<Longrightarrow> span_memchr (p @ c # q) c = Some (length p)"
  by (induction p) auto

text \<open>\<open>r\<close> is what has been copied.\<close>

function (sequential) copy_remove_sq :: "string \<Rightarrow> string \<Rightarrow> string" where
  "copy_remove_sq s r =
     (case span_memchr s CHR 0x27 of
        Some nsegment \<Rightarrow> copy_remove_sq (drop (nsegment + 1) s) (r @ take nsegment s)
      | None \<Rightarrow> (if s \<noteq> [] then r @ s else r))"
  by pat_completeness auto
termination by (relation "measure (\<lambda>(s, r). length s)") (auto dest: span_memchr_Some)

declare copy_remove_sq.simps [simp del]

section \<open>Validation\<close>

fun validate_loop :: "nat \<Rightarrow> string \<Rightarrow> bool \<Rightarrow> bool \<Rightarrow> bool" where
  "validate_loop base [] seen_dot seen_digit = seen_digit"
| "validate_loop base (c # s) seen_dot seen_digit =
     (if c = CHR ''.'' then (if seen_dot then False else validate_loop base s True seen_digit)
      else if c = CHR 0x27 then validate_loop base s seen_dot seen_digit
      else if decode c \<ge> base then False
      else validate_loop base s seen_dot True)"

definition number_parse_base_validate :: "string \<Rightarrow> nat \<Rightarrow> bool" where
  "number_parse_base_validate s base =
     validate_loop base (if s \<noteq> [] \<and> hd s = CHR ''-'' then tl s else s) False False"

section \<open>Decimal text\<close>

fun parse_word_loop :: "string \<Rightarrow> nat \<Rightarrow> nat option" where
  "parse_word_loop [] r = Some r"
| "parse_word_loop (c # s) r =
     (if 48 \<le> (of_char c :: nat) \<and> of_char c \<le> (57 :: nat)
      then parse_word_loop s (r * 10 + (of_char c - 48)) else None)"

definition parse_word :: "string \<Rightarrow> nat option" where
  "parse_word s = parse_word_loop s 0"

definition parse_word_pad :: "deci \<Rightarrow> string \<Rightarrow> nat option" where
  "parse_word_pad D s =
     do {
       r \<leftarrow> parse_word_loop s 0;
       Some (((\<lambda>r. r * 10) ^^ (DECI_BASE_LOG D - length s)) r)
     }"

definition parse_nchars_to_nwords :: "deci \<Rightarrow> nat \<Rightarrow> nat" where
  "parse_nchars_to_nwords D n = n div DECI_BASE_LOG D + (if n mod DECI_BASE_LOG D \<noteq> 0 then 1 else 0)"

text \<open>The words of an integer part, least significant first; \<open>k\<close> more follow the one written.\<close>

fun parse_int_words :: "deci \<Rightarrow> string \<Rightarrow> nat \<Rightarrow> nat list option" where
  "parse_int_words D s 0 = do { w \<leftarrow> parse_word s; Some [w] }"
| "parse_int_words D s (Suc k) =
     (if length s < DECI_BASE_LOG D then None
      else
        let p = length s - DECI_BASE_LOG D in
        do {
          w \<leftarrow> parse_word (drop p s);
          ws \<leftarrow> parse_int_words D (take p s) k;
          Some (w # ws)
        })"

definition parse_int_part :: "deci \<Rightarrow> string \<Rightarrow> nat \<Rightarrow> nat list option" where
  "parse_int_part D s n = (if n = 0 then Some [] else parse_int_words D s (n - 1))"

text \<open>The words of a fraction, from the most significant one down.\<close>

fun parse_frac_words :: "deci \<Rightarrow> string \<Rightarrow> nat \<Rightarrow> nat list option" where
  "parse_frac_words D s 0 = do { w \<leftarrow> parse_word_pad D s; Some [w] }"
| "parse_frac_words D s (Suc k) =
     (if length s < DECI_BASE_LOG D then None
      else do {
        w \<leftarrow> parse_word (take (DECI_BASE_LOG D) s);
        ws \<leftarrow> parse_frac_words D (drop (DECI_BASE_LOG D) s) k;
        Some (ws @ [w])
      })"

definition parse_frac_part :: "deci \<Rightarrow> string \<Rightarrow> nat \<Rightarrow> nat list option" where
  "parse_frac_part D s n = (if n = 0 then Some [] else parse_frac_words D s (n - 1))"

definition parse_no_sq :: "deci \<Rightarrow> string \<Rightarrow> number option" where
  "parse_no_sq D s =
     (if s = [] then None
      else
        let (neg, s) = (if hd s = CHR ''-'' then (True, tl s) else (False, s));
            s = dropWhile (\<lambda>c. c = CHR ''0'') s in
        (case span_memchr s CHR ''.'' of
           Some period \<Rightarrow> do {
             s' \<leftarrow> chop_zeros s;
             let int_nchars = period;
             let frac_nchars = length s' - (period + 1);
             let int_nwords = parse_nchars_to_nwords D int_nchars;
             let frac_nwords = parse_nchars_to_nwords D frac_nchars;
             let n = int_nwords + frac_nwords;
             a \<leftarrow> allocate D neg n frac_nwords;
             frac \<leftarrow> parse_frac_part D (drop (period + 1) s') frac_nwords;
             int \<leftarrow> parse_int_part D (take period s) int_nwords;
             Some (a\<lparr>words := frac @ int\<rparr>)
           }
         | None \<Rightarrow> do {
             let n = parse_nchars_to_nwords D (length s);
             a \<leftarrow> allocate D neg n 0;
             int \<leftarrow> parse_int_part D s n;
             Some (a\<lparr>words := int\<rparr>)
           }))"

definition number_parse :: "deci \<Rightarrow> string \<Rightarrow> number option" where
  "number_parse D s =
     (if span_memchr s CHR 0x27 \<noteq> None then parse_no_sq D (copy_remove_sq s [])
      else parse_no_sq D s)"

section \<open>Text in any base\<close>

fun parse_base_loop :: "deci \<Rightarrow> nat \<Rightarrow> string \<Rightarrow> number \<Rightarrow> nat \<Rightarrow> bool \<Rightarrow> (number \<times> nat) option" where
  "parse_base_loop D base [] a base_scale seen_dot = Some (a, base_scale)"
| "parse_base_loop D base (c # s) a base_scale seen_dot =
     (if c = CHR ''.'' then parse_base_loop D base s a base_scale True
      else if c = CHR 0x27 then parse_base_loop D base s a base_scale seen_dot
      else do {
        let base_scale = (if seen_dot then base_scale + 1 else base_scale);
        a \<leftarrow> number_mul_uword D a base;
        a \<leftarrow> number_abs_add_uword D a (decode c);
        parse_base_loop D base s a base_scale seen_dot
      })"

definition number_parse_base :: "deci \<Rightarrow> string \<Rightarrow> nat \<Rightarrow> ntp \<Rightarrow> number option" where
  "number_parse_base D s base p =
     do {
       a \<leftarrow> number_new_from_zu D 0;
       (negate, s) \<leftarrow> (if s = [] then None
                      else if hd s = CHR ''-'' then Some (True, tl s) else Some (False, s));
       (a, base_scale) \<leftarrow> parse_base_loop D base s a 0 False;
       a \<leftarrow> (if base_scale \<noteq> 0 then do {
              b \<leftarrow> number_new_from_zu D base;
              divisor \<leftarrow> number_pow_zu D b base_scale;
              number_div D a divisor p
            } else Some a);
       (if negate then number_negate D a else Some a)
     }"

section \<open>The value of a text\<close>

text \<open>
  The specification: the digits without quotes, before and after the point, read in base \<open>b\<close>.
\<close>

definition text_val :: "nat \<Rightarrow> string \<Rightarrow> rat" where
  "text_val b s =
     (let neg = (s \<noteq> [] \<and> hd s = CHR ''-'');
          u = filter (\<lambda>c. c \<noteq> CHR 0x27) (if neg then tl s else s);
          ip = takeWhile (\<lambda>c. c \<noteq> CHR ''.'') u;
          fp = drop 1 (dropWhile (\<lambda>c. c \<noteq> CHR ''.'') u);
          v = of_nat (lsd_val b (rev ip)) + of_nat (lsd_val b (rev fp)) / of_nat b ^ length fp in
      if neg then - v else v)"

section \<open>Quotes and validation\<close>

abbreviation not_sq :: "char \<Rightarrow> bool" where
  "not_sq c \<equiv> c \<noteq> CHR 0x27"

lemma copy_remove_sq_eq: "copy_remove_sq s r = r @ filter not_sq s"
proof (induction s r rule: copy_remove_sq.induct)
  case (1 s r)
  show ?case
  proof (cases "span_memchr s CHR 0x27")
    case None
    then have "filter not_sq s = s"
      by (auto simp: span_memchr_None filter_id_conv)
    with None show ?thesis by (subst copy_remove_sq.simps) simp
  next
    case (Some k)
    then have s: "s = take k s @ CHR 0x27 # drop (Suc k) s" and k: "CHR 0x27 \<notin> set (take k s)"
      by (auto dest: span_memchr_Some)
    have "filter not_sq (take k s) = take k s"
      using k by (auto simp: filter_id_conv)
    then have "filter not_sq s = take k s @ filter not_sq (drop (Suc k) s)"
      using arg_cong [OF s, of "filter not_sq"] by simp
    with Some 1 show ?thesis by (subst copy_remove_sq.simps) simp
  qed
qed

lemma number_parse_eq: "number_parse D s = parse_no_sq D (filter not_sq s)"
proof (cases "span_memchr s CHR 0x27")
  case None
  then have "filter not_sq s = s"
    by (auto simp: span_memchr_None filter_id_conv)
  with None show ?thesis by (simp add: number_parse_def)
qed (simp add: number_parse_def copy_remove_sq_eq)

text \<open>The characters of a digit string in base \<open>b\<close>, letters of both cases.\<close>

definition digits :: "nat \<Rightarrow> string \<Rightarrow> bool" where
  "digits b s \<longleftrightarrow> (\<forall>c\<in>set s. c \<noteq> CHR ''.'' \<and> c \<noteq> CHR 0x27 \<and> decode c < b)"

lemma digits_simps [simp]:
  "digits b []" "digits b (xs @ ys) \<longleftrightarrow> digits b xs \<and> digits b ys" "digits b (rev xs) \<longleftrightarrow> digits b xs"
  "digits b (c # xs) \<longleftrightarrow> c \<noteq> CHR ''.'' \<and> c \<noteq> CHR 0x27 \<and> decode c < b \<and> digits b xs"
  by (auto simp: digits_def)

lemma digits_sub: "digits b xs \<Longrightarrow> set ys \<subseteq> set xs \<Longrightarrow> digits b ys"
  by (auto simp: digits_def)

lemma digits_take [intro]: "digits b xs \<Longrightarrow> digits b (take n xs)"
  by (erule digits_sub) (rule set_take_subset)

lemma digits_drop [intro]: "digits b xs \<Longrightarrow> digits b (drop n xs)"
  by (erule digits_sub) (rule set_drop_subset)

lemma digits_dropWhile [intro]: "digits b xs \<Longrightarrow> digits b (dropWhile P xs)"
  by (erule digits_sub) (meson set_dropWhileD subsetI)

lemma digit_text_digits: "digit_text b s \<Longrightarrow> digits b s"
  by (auto simp: digit_text_def digits_def dest: digit_charD)

text \<open>What the validation accepts: digits with at most one point between them, at least one digit.\<close>

definition plain :: "nat \<Rightarrow> string \<Rightarrow> string \<Rightarrow> string \<Rightarrow> bool" where
  "plain b u ip fp \<longleftrightarrow> digits b ip \<and> digits b fp \<and> (u = ip \<and> fp = [] \<or> u = ip @ CHR ''.'' # fp) \<and> ip @ fp \<noteq> []"

lemma validate_loop_sq: "validate_loop b s d g = validate_loop b (filter not_sq s) d g"
  by (induction s arbitrary: d g) auto

lemma validate_loop_after:
  "CHR 0x27 \<notin> set s \<Longrightarrow> validate_loop b s True g \<longleftrightarrow> digits b s \<and> (g \<or> s \<noteq> [])"
  by (induction s arbitrary: g) (auto simp: not_le)

lemma validate_loop_before:
  "CHR 0x27 \<notin> set s \<Longrightarrow> validate_loop b s False g \<longleftrightarrow>
     (\<exists>ip fp. digits b ip \<and> digits b fp \<and> (s = ip \<and> fp = [] \<or> s = ip @ CHR ''.'' # fp) \<and> (g \<or> ip @ fp \<noteq> []))"
proof (induction s arbitrary: g)
  case (Cons c s)
  show ?case
  proof (cases "c = CHR ''.''")
    case True
    have "validate_loop b (c # s) False g \<longleftrightarrow> digits b s \<and> (g \<or> s \<noteq> [])"
      using True Cons.prems validate_loop_after [of s b g] by simp
    then show ?thesis
      using True by (auto simp: Cons_eq_append_conv intro: exI [of _ "[]"])
  next
    case False
    have "(\<exists>ip fp. digits b ip \<and> digits b fp \<and> (c # s = ip \<and> fp = [] \<or> c # s = ip @ CHR ''.'' # fp) \<and> (g \<or> ip @ fp \<noteq> [])) \<longleftrightarrow>
        decode c < b \<and> (\<exists>ip fp. digits b ip \<and> digits b fp \<and> (s = ip \<and> fp = [] \<or> s = ip @ CHR ''.'' # fp))"
      (is "?L \<longleftrightarrow> ?R")
    proof
      assume ?L
      then obtain ip fp where *: "digits b ip" "digits b fp" "c # s = ip \<and> fp = [] \<or> c # s = ip @ CHR ''.'' # fp" by blast
      with False obtain ip' where "ip = c # ip'" by (auto simp: Cons_eq_append_conv)
      with * show ?R by auto
    next
      assume ?R
      then obtain ip fp where "decode c < b" "digits b ip" "digits b fp" "s = ip \<and> fp = [] \<or> s = ip @ CHR ''.'' # fp" by blast
      with False Cons.prems show ?L by (intro exI [of _ "c # ip"] exI [of _ fp]) auto
    qed
    with False Cons show ?thesis by (auto simp: not_le)
  qed
qed auto

lemma validate_iff:
  "number_parse_base_validate s b \<longleftrightarrow>
    (\<exists>ip fp. plain b (filter not_sq (if s \<noteq> [] \<and> hd s = CHR ''-'' then tl s else s)) ip fp)"
  unfolding number_parse_base_validate_def plain_def
  by (subst validate_loop_sq) (simp add: validate_loop_before)

lemma text_val_plain:
  assumes "plain b (filter not_sq (if s \<noteq> [] \<and> hd s = CHR ''-'' then tl s else s)) ip fp"
  shows "text_val b s = (if s \<noteq> [] \<and> hd s = CHR ''-'' then -1 else 1) *
    (of_nat (lsd_val b (rev ip)) + of_nat (lsd_val b (rev fp)) / of_nat b ^ length fp)"
proof -
  let ?u = "filter not_sq (if s \<noteq> [] \<and> hd s = CHR ''-'' then tl s else s)"
  have *: "\<forall>c\<in>set ip. c \<noteq> CHR ''.''" using assms by (auto simp: plain_def digits_def)
  consider "?u = ip" "fp = []" | "?u = ip @ CHR ''.'' # fp"
    using assms by (auto simp only: plain_def)
  then have "takeWhile (\<lambda>c. c \<noteq> CHR ''.'') ?u = ip \<and> drop 1 (dropWhile (\<lambda>c. c \<noteq> CHR ''.'') ?u) = fp"
  proof cases
    case 1
    then show ?thesis using * by (simp only: takeWhile_eq_all_conv [THEN iffD2] dropWhile_eq_Nil_conv [THEN iffD2] drop_Nil simp_thms)
  next
    case 2
    then show ?thesis using * by (simp only: takeWhile_append2 dropWhile_append2) simp
  qed
  then have parts: "takeWhile (\<lambda>c. c \<noteq> CHR ''.'') ?u = ip" "drop 1 (dropWhile (\<lambda>c. c \<noteq> CHR ''.'') ?u) = fp"
    by blast+
  show ?thesis unfolding text_val_def Let_def parts by simp
qed

section \<open>Words of decimal text\<close>

lemma decode_decimal:
  assumes "decode c < 10"
  shows "48 \<le> (of_char c :: nat)" and "(of_char c :: nat) \<le> 57" and "(of_char c :: nat) - 48 = decode c"
  using assms by (auto simp: decode_def Let_def split: if_splits)

lemma parse_word_loop_eq:
  "digits 10 s \<Longrightarrow> parse_word_loop s r = Some (lsd_val 10 (rev s) + r * 10 ^ length s)"
  by (induction s arbitrary: r) (simp_all add: decode_decimal lsd_val_append algebra_simps)

lemma parse_word_eq: "digits 10 s \<Longrightarrow> parse_word s = Some (lsd_val 10 (rev s))"
  by (simp add: parse_word_def parse_word_loop_eq)

lemma funpow_mult_10: "((\<lambda>r. r * 10) ^^ n) r = r * 10 ^ n" for r :: nat
  by (induction n) simp_all

lemma parse_word_pad_eq:
  "digits 10 s \<Longrightarrow> parse_word_pad D s = Some (lsd_val 10 (rev s) * 10 ^ (DECI_BASE_LOG D - length s))"
  by (simp add: parse_word_pad_def parse_word_loop_eq funpow_mult_10)

lemma digits_lsd_val_less:
  assumes "digits b cs"
  shows "lsd_val b cs < b ^ length cs"
  using assms
proof (induction cs)
  case (Cons c cs)
  then have "decode c < b" "Suc (lsd_val b cs) \<le> b ^ length cs" by simp_all
  from this(2) have "b * Suc (lsd_val b cs) \<le> b * b ^ length cs" by (rule mult_le_mono2)
  with \<open>decode c < b\<close> show ?case by simp
qed simp

lemma parse_int_words_yields:
  assumes "digits 10 s" and "length s \<le> DECI_BASE_LOG D * Suc k" and "DECI_BASE_LOG D * k \<le> length s"
  shows "yields (parse_int_words D s k) (\<lambda>ws. length ws = Suc k \<and> words_ok (DECI_BASE D) ws \<and>
     wval (DECI_BASE D) ws = lsd_val 10 (rev s))"
  using assms
proof (induction k arbitrary: s)
  case 0
  have "lsd_val 10 (rev s) < 10 ^ length s"
    using digits_lsd_val_less [of 10 "rev s"] 0 by simp
  also have "\<dots> \<le> DECI_BASE D"
    unfolding DECI_BASE_def by (rule power_increasing) (use 0 in auto)
  finally show ?case using 0 by (simp add: parse_word_eq)
next
  case (Suc k)
  let ?L = "DECI_BASE_LOG D"
  let ?p = "length s - ?L"
  have L: "?L \<le> length s" using Suc.prems(3) by simp
  have lo: "digits 10 (drop ?p s)" "length (drop ?p s) = ?L" using Suc.prems(1) L by auto
  have hi: "digits 10 (take ?p s)" "length (take ?p s) = ?p" using Suc.prems(1) by auto
  have "yields (parse_int_words D (take ?p s) k) (\<lambda>ws. length ws = Suc k \<and> words_ok (DECI_BASE D) ws \<and>
     wval (DECI_BASE D) ws = lsd_val 10 (rev (take ?p s)))"
    by (rule Suc.IH [OF hi(1)]) (use Suc.prems(2,3) hi(2) in auto)
  moreover have "lsd_val 10 (rev (drop ?p s)) < DECI_BASE D"
    using digits_lsd_val_less [of 10 "rev (drop ?p s)"] lo by (simp add: DECI_BASE_def)
  moreover have "lsd_val 10 (rev s) = lsd_val 10 (rev (drop ?p s)) + DECI_BASE D * lsd_val 10 (rev (take ?p s))"
    using lsd_val_append [of 10 "rev (drop ?p s)" "rev (take ?p s)"] lo(2)
    by (metis DECI_BASE_def append_take_drop_id length_rev rev_append)
  ultimately show ?case
    using L lo(1) by (auto simp: parse_word_eq Let_def elim!: yields_conseq)
qed

lemma parse_frac_words_yields:
  assumes "digits 10 s" and "length s \<le> DECI_BASE_LOG D * Suc k" and "DECI_BASE_LOG D * k \<le> length s"
  shows "yields (parse_frac_words D s k) (\<lambda>ws. length ws = Suc k \<and> words_ok (DECI_BASE D) ws \<and>
     wval (DECI_BASE D) ws = lsd_val 10 (rev s) * 10 ^ (DECI_BASE_LOG D * Suc k - length s))"
  using assms
proof (induction k arbitrary: s)
  case 0
  have "lsd_val 10 (rev s) * 10 ^ (DECI_BASE_LOG D - length s) < 10 ^ length s * 10 ^ (DECI_BASE_LOG D - length s)"
    using digits_lsd_val_less [of 10 "rev s"] 0 by simp
  also have "\<dots> = DECI_BASE D"
    using 0 by (simp add: DECI_BASE_def power_add [symmetric])
  finally show ?case using 0 by (simp add: parse_word_pad_eq)
next
  case (Suc k)
  let ?L = "DECI_BASE_LOG D"
  have L: "?L \<le> length s" using Suc.prems(3) by simp
  have hi: "digits 10 (take ?L s)" "length (take ?L s) = ?L" using Suc.prems(1) L by auto
  have lo: "digits 10 (drop ?L s)" using Suc.prems(1) by auto
  let ?e = "?L * Suc k - (length s - ?L)"
  have "yields (parse_frac_words D (drop ?L s) k) (\<lambda>ws. length ws = Suc k \<and> words_ok (DECI_BASE D) ws \<and>
     wval (DECI_BASE D) ws = lsd_val 10 (rev (drop ?L s)) * 10 ^ (?L * Suc k - length (drop ?L s)))"
    by (rule Suc.IH [OF lo]) (use Suc.prems(2,3) in auto)
  moreover have "lsd_val 10 (rev (take ?L s)) < DECI_BASE D"
    using digits_lsd_val_less [of 10 "rev (take ?L s)"] hi by (simp add: DECI_BASE_def)
  moreover have "lsd_val 10 (rev s) * 10 ^ (?L * Suc (Suc k) - length s) =
      lsd_val 10 (rev (drop ?L s)) * 10 ^ ?e + DECI_BASE D ^ Suc k * lsd_val 10 (rev (take ?L s))"
  proof -
    have e: "?L * Suc (Suc k) - length s = ?e" using L by simp
    have "(length s - ?L) + ?e = ?L * Suc k" using Suc.prems(2) L by simp
    then have pq: "(10 :: nat) ^ (length s - ?L) * 10 ^ ?e = DECI_BASE D ^ Suc k"
      by (simp only: DECI_BASE_def power_add [symmetric] power_mult [symmetric])
    have val: "lsd_val 10 (rev s) = lsd_val 10 (rev (drop ?L s)) + 10 ^ (length s - ?L) * lsd_val 10 (rev (take ?L s))"
      using lsd_val_append [of 10 "rev (drop ?L s)" "rev (take ?L s)"]
      by (metis append_take_drop_id length_drop length_rev rev_append)
    show ?thesis
      unfolding e val distrib_right pq [symmetric] by (simp only: mult_ac)
  qed
  ultimately show ?case
    using L hi(1) by (auto simp: parse_word_eq wval_append elim!: yields_conseq)
qed

lemma parse_nchars_to_nwords_bounds:
  fixes n :: nat
  assumes "0 < DECI_BASE_LOG D"
  defines "m \<equiv> parse_nchars_to_nwords D n"
  shows "n \<le> DECI_BASE_LOG D * m" and "0 < m \<Longrightarrow> DECI_BASE_LOG D * (m - 1) < n" and "m \<le> n" and "m = 0 \<longleftrightarrow> n = 0"
proof -
  let ?L = "DECI_BASE_LOG D"
  have n: "n = ?L * (n div ?L) + n mod ?L" by simp
  have r: "n mod ?L < ?L" using assms(1) by simp
  have m: "m = n div ?L + (if n mod ?L \<noteq> 0 then 1 else 0)" by (simp add: m_def parse_nchars_to_nwords_def)
  have "n \<le> ?L * (n div ?L) + ?L" using n r by linarith
  then show "n \<le> ?L * m" using n unfolding m by (cases "n mod ?L = 0") (simp_all add: add.commute)
  show pred: "?L * (m - 1) < n" if "0 < m"
  proof (cases "n mod ?L = 0")
    case True
    with that m have "0 < n div ?L" by simp
    then have "?L * (n div ?L - 1) < ?L * (n div ?L)" using assms(1) by simp
    with True n m show ?thesis by simp
  next
    case False
    then have "m - 1 = n div ?L" using m by simp
    moreover have "?L * (n div ?L) < n" using False n by linarith
    ultimately show ?thesis by simp
  qed
  show "m = 0 \<longleftrightarrow> n = 0"
  proof
    assume "m = 0"
    then show "n = 0" using \<open>n \<le> ?L * m\<close> by simp
  qed (simp add: m_def parse_nchars_to_nwords_def)
  show "m \<le> n"
  proof (cases m)
    case (Suc k)
    then have "?L * k < n" using pred by simp
    moreover have "1 * k \<le> ?L * k" using assms(1) by (intro mult_le_mono1) simp
    ultimately show ?thesis using Suc by linarith
  qed simp
qed

lemma parse_int_part_yields:
  assumes D: "deci_ok D" and s: "digits 10 s" and hd: "s \<noteq> [] \<Longrightarrow> hd s \<noteq> CHR ''0''"
  shows "yields (parse_int_part D s (parse_nchars_to_nwords D (length s)))
    (\<lambda>ws. length ws = parse_nchars_to_nwords D (length s) \<and> words_ok (DECI_BASE D) ws \<and> normalized ws \<and>
       wval (DECI_BASE D) ws = lsd_val 10 (rev s))"
proof -
  let ?L = "DECI_BASE_LOG D" and ?m = "parse_nchars_to_nwords D (length s)"
  have L: "0 < ?L" using deci_ok_config(1) [OF D] by simp
  note m = parse_nchars_to_nwords_bounds [OF L, of "length s"]
  show ?thesis
  proof (cases "?m = 0")
    case True
    with m(4) show ?thesis by (simp add: parse_int_part_def)
  next
    case False
    then have ne: "s \<noteq> []" and lo: "?L * (?m - 1) < length s" using m by auto
    then obtain c t where ct: "s = c # t" by (cases s) auto
    have c: "decode c < 10" "0 < decode c"
    proof -
      show "decode c < 10" using s ct by simp
      have "c \<noteq> CHR ''0''" using hd ct by simp
      moreover have "decode c = 0 \<Longrightarrow> c = CHR ''0''"
        using decode_decimal [OF \<open>decode c < 10\<close>] of_char_eq_iff [of c "CHR ''0''", where 'a = nat] by simp
      ultimately show "0 < decode c" by blast
    qed
    have "10 ^ length t * 1 \<le> 10 ^ length t * decode c" using c(2) by (intro mult_le_mono2) simp
    also have "\<dots> \<le> lsd_val 10 (rev s)" by (simp add: ct lsd_val_append)
    finally have big: "10 ^ length t \<le> lsd_val 10 (rev s)" by simp
    have "DECI_BASE D ^ (?m - 1) \<le> 10 ^ length t"
      unfolding pow10_words using lo ct by (intro power_increasing) auto
    also note big
    finally have low: "DECI_BASE D ^ (?m - 1) \<le> lsd_val 10 (rev s)" .
    have "yields (parse_int_words D s (?m - 1)) (\<lambda>ws. length ws = Suc (?m - 1) \<and> words_ok (DECI_BASE D) ws \<and>
       wval (DECI_BASE D) ws = lsd_val 10 (rev s))"
      by (rule parse_int_words_yields [OF s]) (use m(1) False lo in auto)
    then have "yields (parse_int_words D s (?m - 1)) (\<lambda>ws. length ws = ?m \<and> words_ok (DECI_BASE D) ws \<and> normalized ws \<and>
       wval (DECI_BASE D) ws = lsd_val 10 (rev s))"
      by (rule yields_conseq) (use False low in \<open>auto intro!: normalizedI [of "DECI_BASE D"]\<close>)
    with False show ?thesis by (simp add: parse_int_part_def)
  qed
qed

lemma parse_frac_part_yields:
  assumes D: "deci_ok D" and s: "digits 10 s"
  shows "yields (parse_frac_part D s (parse_nchars_to_nwords D (length s)))
    (\<lambda>ws. length ws = parse_nchars_to_nwords D (length s) \<and> words_ok (DECI_BASE D) ws \<and>
       (of_nat (wval (DECI_BASE D) ws) / of_nat (DECI_BASE D) ^ length ws :: rat) = of_nat (lsd_val 10 (rev s)) / 10 ^ length s)"
proof -
  let ?L = "DECI_BASE_LOG D" and ?m = "parse_nchars_to_nwords D (length s)"
  have L: "0 < ?L" using deci_ok_config(1) [OF D] by simp
  note m = parse_nchars_to_nwords_bounds [OF L, of "length s"]
  show ?thesis
  proof (cases "?m = 0")
    case True
    with m(4) show ?thesis by (simp add: parse_frac_part_def)
  next
    case False
    have "yields (parse_frac_words D s (?m - 1)) (\<lambda>ws. length ws = Suc (?m - 1) \<and> words_ok (DECI_BASE D) ws \<and>
       wval (DECI_BASE D) ws = lsd_val 10 (rev s) * 10 ^ (?L * Suc (?m - 1) - length s))"
      by (rule parse_frac_words_yields [OF s]) (use m(1,2) False in auto)
    moreover have "(of_nat (lsd_val 10 (rev s) * 10 ^ (?L * ?m - length s)) / of_nat (DECI_BASE D) ^ ?m :: rat) =
        of_nat (lsd_val 10 (rev s)) / 10 ^ length s"
    proof -
      have "(of_nat (DECI_BASE D) ^ ?m :: rat) = 10 ^ (?L * ?m)"
        using arg_cong [OF pow10_words [of D ?m], of "of_nat :: nat \<Rightarrow> rat"] by simp
      also have "\<dots> = 10 ^ length s * 10 ^ (?L * ?m - length s)"
        using m(1) by (simp add: power_add [symmetric])
      finally show ?thesis by simp
    qed
    ultimately show ?thesis
      using False by (auto simp: parse_frac_part_def elim!: yields_conseq)
  qed
qed

section \<open>Decimal text is parsed exactly\<close>

lemma dropWhile_0_plain: "dropWhile is0 (ip @ CHR ''.'' # fp) = dropWhile is0 ip @ CHR ''.'' # fp"
  by (induction ip) simp_all

lemma lsd_val_dropWhile: "lsd_val b (rev (dropWhile is0 s)) = lsd_val b (rev s)"
  using lsd_val_strip_high [of b "rev s"] by simp

lemma parse_no_sq_yields:
  assumes D: "deci_ok D" and pl: "plain 10 u ip fp" and fits: "fits D (length (ip @ fp))"
  shows "yields (parse_no_sq D ((if neg then ''-'' else '''') @ u))
    (\<lambda>r. num_ok D r \<and> num_val D r = (if neg then -1 else 1) *
       (of_nat (lsd_val 10 (rev ip)) + of_nat (lsd_val 10 (rev fp)) / 10 ^ length fp))"
proof -
  have ip: "digits 10 ip" and fp: "digits 10 fp" using pl by (simp_all add: plain_def)
  have L: "0 < DECI_BASE_LOG D" using deci_ok_config(1) [OF D] by simp
  let ?I = "dropWhile is0 ip" and ?n = "parse_nchars_to_nwords D"
  have I: "digits 10 ?I" using ip by auto
  have hdI: "?I \<noteq> [] \<Longrightarrow> hd ?I \<noteq> CHR ''0''" using hd_dropWhile [of is0 ip] by simp
  have lenI: "length ?I \<le> length ip" by (rule length_dropWhile_le)
  have split: "(if hd ((if neg then ''-'' else '''') @ u) = CHR ''-'' then (True, tl ((if neg then ''-'' else '''') @ u))
      else (False, (if neg then ''-'' else '''') @ u)) = (neg, u)" "(if neg then ''-'' else '''') @ u \<noteq> []"
  proof -
    have "u \<noteq> []" using pl by (auto simp: plain_def)
    moreover have "hd u \<noteq> CHR ''-''"
    proof -
      have "hd u = CHR ''.'' \<or> decode (hd u) < 10"
        using pl \<open>u \<noteq> []\<close> by (cases ip) (auto simp: plain_def)
      moreover have "decode CHR ''-'' = 255" by (simp add: decode_def)
      ultimately show ?thesis by force
    qed
    ultimately show "(if hd ((if neg then ''-'' else '''') @ u) = CHR ''-'' then (True, tl ((if neg then ''-'' else '''') @ u))
      else (False, (if neg then ''-'' else '''') @ u)) = (neg, u)" "(if neg then ''-'' else '''') @ u \<noteq> []"
      by simp_all
  qed
  have IP: "yields (parse_int_part D ?I (?n (length ?I))) (\<lambda>ws. length ws = ?n (length ?I) \<and>
      words_ok (DECI_BASE D) ws \<and> normalized ws \<and> wval (DECI_BASE D) ws = lsd_val 10 (rev ?I))"
    using hdI by (rule parse_int_part_yields [OF D I])
  consider (int) "u = ip" "fp = []" | (frac) "u = ip @ CHR ''.'' # fp"
    using pl by (auto simp: plain_def)
  then show ?thesis
  proof cases
    case int
    have "CHR ''.'' \<notin> set ?I" using I by (auto simp: digits_def)
    then have none: "span_memchr (dropWhile is0 u) CHR ''.'' = None" using int by (simp add: span_memchr_None)
    have "fits D (?n (length ?I))"
      using parse_nchars_to_nwords_bounds(3) [OF L, of "length ?I"] lenI by (intro fits_mono [OF fits]) simp
    then have run: "parse_no_sq D ((if neg then ''-'' else '''') @ u) =
        do { ws \<leftarrow> parse_int_part D ?I (?n (length ?I));
          Some (\<lparr>nrefs = 1, sign = neg, scale = 0, words = ws\<rparr>) }"
      using int split(2) none unfolding parse_no_sq_def split by (simp add: allocate_eq Let_def)
    show ?thesis
      unfolding run
    proof (rule yields_bindI [OF IP], elim conjE)
      fix ws
      assume ws: "length ws = ?n (length ?I)" "words_ok (DECI_BASE D) ws" "normalized ws" "wval (DECI_BASE D) ws = lsd_val 10 (rev ?I)"
      show "yields (Some \<lparr>nrefs = 1, sign = neg, scale = 0, words = ws\<rparr>) (\<lambda>r. num_ok D r \<and> num_val D r = (if neg then -1 else 1) *
       (of_nat (lsd_val 10 (rev ip)) + of_nat (lsd_val 10 (rev fp)) / 10 ^ length fp))"
        using ws \<open>fits D (?n (length ?I))\<close> int by (simp add: num_ok_def num_val_def num_abs_def lsd_val_dropWhile)
    qed
  next
    case frac
    let ?F = "rev (dropWhile is0 (rev fp))"
    have u: "dropWhile is0 u = ?I @ CHR ''.'' # fp" using frac by (simp add: dropWhile_0_plain)
    have "CHR ''.'' \<notin> set ?I" using I by (auto simp: digits_def)
    then have some: "span_memchr (dropWhile is0 u) CHR ''.'' = Some (length ?I)"
      unfolding u by (rule span_memchr_append)
    have chop: "chop_zeros (dropWhile is0 u) = Some (?I @ CHR ''.'' # ?F)"
      unfolding u using chop_zeros_above [of "?I @ ''.''" "rev fp"] by simp
    have F: "digits 10 ?F" using fp by (simp add: digits_dropWhile)
    have lenF: "length ?F \<le> length fp" by (metis length_dropWhile_le length_rev)
    let ?m = "?n (length ?F)"
    have "fits D (?n (length ?I) + ?m)"
      using parse_nchars_to_nwords_bounds(3) [OF L, of "length ?I"] parse_nchars_to_nwords_bounds(3) [OF L, of "length ?F"]
        lenI lenF by (intro fits_mono [OF fits]) simp
    then have run: "parse_no_sq D ((if neg then ''-'' else '''') @ u) =
        do { fs \<leftarrow> parse_frac_part D ?F ?m; ws \<leftarrow> parse_int_part D ?I (?n (length ?I));
          Some (\<lparr>nrefs = 1, sign = neg, scale = ?m, words = fs @ ws\<rparr>) }"
      using split(2) some chop unfolding parse_no_sq_def split by (simp add: allocate_eq u Let_def)
    have valF: "(of_nat (lsd_val 10 (rev ?F)) / 10 ^ length ?F :: rat) = of_nat (lsd_val 10 (rev fp)) / 10 ^ length fp"
    proof -
      let ?k = "length (takeWhile is0 (rev fp))"
      have v: "lsd_val 10 (rev fp) = 10 ^ ?k * lsd_val 10 (rev ?F)"
        using lsd_val_strip_low [of 10 "rev fp"] by simp
      have l: "length fp = ?k + length ?F"
        by (metis length_append length_rev takeWhile_dropWhile_id)
      have "(10 :: rat) ^ length fp = 10 ^ ?k * 10 ^ length ?F"
        using l by (metis power_add)
      then show ?thesis unfolding v by simp
    qed
    show ?thesis
      unfolding run
    proof (rule yields_bindI [OF parse_frac_part_yields [OF D F]], elim conjE, rule yields_bindI [OF IP], elim conjE)
      fix fs ws
      assume fs: "length fs = ?m" "words_ok (DECI_BASE D) fs"
        "(of_nat (wval (DECI_BASE D) fs) / of_nat (DECI_BASE D) ^ length fs :: rat) = of_nat (lsd_val 10 (rev ?F)) / 10 ^ length ?F"
      assume ws: "length ws = ?n (length ?I)" "words_ok (DECI_BASE D) ws" "normalized ws" "wval (DECI_BASE D) ws = lsd_val 10 (rev ?I)"
      let ?r = "\<lparr>nrefs = 1, sign = neg, scale = ?m, words = fs @ ws\<rparr>"
      have ok: "num_ok D ?r"
        using fs(1,2) ws(1-3) \<open>fits D (?n (length ?I) + ?m)\<close> by (simp add: num_ok_def add.commute)
      have "num_abs D ?r = of_nat (wval (DECI_BASE D) ws) + of_nat (wval (DECI_BASE D) fs) / of_nat (DECI_BASE D) ^ length fs"
        using num_abs_split [OF ok] fs(1) by (simp add: num_int_def)
      also have "\<dots> = of_nat (lsd_val 10 (rev ip)) + of_nat (lsd_val 10 (rev fp)) / 10 ^ length fp"
        unfolding fs(3) ws(4) valF by (simp only: lsd_val_dropWhile)
      finally show "yields (Some ?r) (\<lambda>r. num_ok D r \<and> num_val D r = (if neg then -1 else 1) *
       (of_nat (lsd_val 10 (rev ip)) + of_nat (lsd_val 10 (rev fp)) / 10 ^ length fp))"
        using ok by (cases neg) (simp_all add: num_val_def)
    qed
  qed
qed

text \<open>The text with its quotes removed: a sign and the rest.\<close>

lemma filter_sign:
  "filter not_sq s = (if s \<noteq> [] \<and> hd s = CHR ''-'' then ''-'' else '''') @
     filter not_sq (if s \<noteq> [] \<and> hd s = CHR ''-'' then tl s else s)"
  by (cases s) auto

lemma plain_length:
  assumes "plain b (filter not_sq t) ip fp"
  shows "length (ip @ fp) \<le> length t"
proof -
  have "length (ip @ fp) \<le> length (filter not_sq t)" using assms by (auto simp: plain_def)
  also have "\<dots> \<le> length t" by simp
  finally show ?thesis .
qed

lemma number_parse_yields:
  assumes D: "deci_ok D" and ok: "number_parse_base_validate s 10" and fits: "fits D (length s)"
  shows "yields (number_parse D s) (\<lambda>r. num_ok D r \<and> num_val D r = text_val 10 s)"
proof -
  let ?neg = "s \<noteq> [] \<and> hd s = CHR ''-''"
  let ?t = "if ?neg then tl s else s"
  obtain ip fp where pl: "plain 10 (filter not_sq ?t) ip fp"
    using ok validate_iff by blast
  have "length ?t \<le> length s" by simp
  then have "fits D (length (ip @ fp))"
    using plain_length [OF pl] by (intro fits_mono [OF fits]) linarith
  from parse_no_sq_yields [OF D pl this, of ?neg] show ?thesis
    unfolding number_parse_eq filter_sign [of s] text_val_plain [OF pl] by simp
qed

text \<open>
  C16: Every text that the validation accepts in base 10, with a sign, quotes between digits, a missing
  integer or fractional part and superfluous zeros, is parsed to a well-formed number of exactly its value.
\<close>

theorem number_parse_exact:
  assumes "deci_ok D" and "number_parse_base_validate s 10" and "fits D (length s)"
  shows "yields (number_parse D s) (\<lambda>r. num_ok D r \<and> num_val D r = text_val 10 s)"
  by (rule number_parse_yields [OF assms])

theorem number_parse_exact_witness:
  "yields (number_parse deci_ref ''-1'00.250'') (\<lambda>r. num_val deci_ref r = -401/4)"
proof -
  have "number_parse_base_validate ''-1'00.250'' 10" by code_simp
  moreover have "fits deci_ref (length ''-1'00.250'')"
    by (simp add: fits_def SIZEOF_NUMBER_def SIZE_MAX_def)
  moreover have "text_val 10 ''-1'00.250'' = -401/4"
    by (simp add: text_val_def decode_def)
  ultimately show ?thesis
    using number_parse_exact [OF deci_ref_ok, of "''-1'00.250''"] by (auto elim: yields_conseq)
qed

section \<open>Printing and parsing\<close>

lemma canonical_validates:
  assumes c: "canonical b s v" and b: "0 < b"
  shows "number_parse_base_validate s b" and "text_val b s = v"
proof -
  obtain ip fp where s: "s = (if v < 0 then ''-'' else '''') @ ip @ (if fp = [] then [] else CHR ''.'' # fp)"
    and d: "digit_text b ip" "digit_text b fp" "ip \<noteq> []"
    and v: "\<bar>v\<bar> = of_nat (lsd_val b (rev ip)) + of_nat (lsd_val b (rev fp)) / of_nat b ^ length fp"
    using c unfolding canonical_def by blast
  have "hd ip \<noteq> CHR ''-''"
    using d(1,3) digit_charD(4) by (cases ip) auto
  then have neg: "s \<noteq> [] \<and> hd s = CHR ''-'' \<longleftrightarrow> v < 0" and tl: "v < 0 \<Longrightarrow> tl s = ip @ (if fp = [] then [] else CHR ''.'' # fp)"
    using s d(3) by simp_all
  have dg: "digits b ip" "digits b fp" using d by (simp_all add: digit_text_digits)
  then have nq: "filter not_sq ip = ip" "filter not_sq fp = fp" by (auto simp: digits_def filter_id_conv)
  have t: "(if s \<noteq> [] \<and> hd s = CHR ''-'' then tl s else s) = ip @ (if fp = [] then [] else CHR ''.'' # fp)"
    using neg tl s by (cases "v < 0") auto
  have pl: "plain b (filter not_sq (if s \<noteq> [] \<and> hd s = CHR ''-'' then tl s else s)) ip fp"
    unfolding t using dg nq d(3) by (auto simp: plain_def)
  then show "number_parse_base_validate s b" using validate_iff by blast
  show "text_val b s = v"
    unfolding text_val_plain [OF pl] neg v [symmetric] by simp
qed

text \<open>
  C17: What \<open>number_tostring\<close> prints is a valid text whose value is that of the number, and parsing it gives
  a number of that value. In every base from 2 to 36, what \<open>number_tostring_base\<close> prints in a buffer of the size that
  \<open>number_tostring_base_size\<close> computes is a valid text of that base, whose value is the number cut to \<open>nfrac\<close> digits.
\<close>

theorem print_parse_roundtrip:
  assumes D: "deci_ok D" and a: "num_ok D a" and cap: "DECI_BASE_LOG D * nwords a + 3 \<le> SIZE_MAX"
    and fits: "fits D (DECI_BASE_LOG D * nwords a + 3)"
  shows "yields (number_tostring D a (number_tostring_size D a)) (\<lambda>s. number_parse_base_validate s 10 \<and>
      yields (number_parse D s) (\<lambda>r. num_ok D r \<and> num_val D r = num_val D a)) \<and>
    (\<forall>base \<in> {2..36}. \<forall>nfrac. yields (number_tostring_base_size D a base nfrac) (\<lambda>cap. cap < SIZE_MAX \<longrightarrow>
      yields (number_tostring_base D a base nfrac cap) (\<lambda>s. number_parse_base_validate s base \<and>
        text_val base s = trunc_base base nfrac (num_val D a))))"
proof (rule conjI, rule yields_conseq [OF number_tostring_yields(2) [OF a cap]], elim conjE, intro conjI)
  fix s
  assume c: "canonical 10 s (num_val D a)" and len: "length s \<le> number_tostring_size D a"
  show "number_parse_base_validate s 10" by (rule canonical_validates(1) [OF c]) simp_all
  have "fits D (length s)" using fits_mono [OF fits] len number_tostring_yields(1) [OF a cap] by simp
  then show "yields (number_parse D s) (\<lambda>r. num_ok D r \<and> num_val D r = num_val D a)"
    using number_parse_yields [OF D canonical_validates(1) [OF c]] canonical_validates(2) [OF c] by simp
next
  show "\<forall>base \<in> {2..36}. \<forall>nfrac. yields (number_tostring_base_size D a base nfrac) (\<lambda>cap. cap < SIZE_MAX \<longrightarrow>
      yields (number_tostring_base D a base nfrac cap) (\<lambda>s. number_parse_base_validate s base \<and>
        text_val base s = trunc_base base nfrac (num_val D a)))"
  proof (intro ballI allI)
    fix base nfrac :: nat
    assume "base \<in> {2..36}"
    then have b: "2 \<le> base" "base \<le> 36" "0 < base" by simp_all
    show "yields (number_tostring_base_size D a base nfrac) (\<lambda>cap. cap < SIZE_MAX \<longrightarrow>
        yields (number_tostring_base D a base nfrac cap) (\<lambda>s. number_parse_base_validate s base \<and>
          text_val base s = trunc_base base nfrac (num_val D a)))"
      by (rule yields_conseq [OF number_tostring_base_yields [OF D a b(1,2)]])
        (use canonical_validates [OF _ b(3)] in \<open>blast intro: yields_conseq\<close>)
  qed
qed

theorem print_parse_roundtrip_witness:
  "yields (number_tostring deci_ref \<lparr>nrefs = 1, sign = True, scale = 1, words = [500, 1]\<rparr> 9)
     (\<lambda>s. yields (number_parse deci_ref s) (\<lambda>r. num_val deci_ref r = -3/2)) \<and>
   yields (number_tostring_base_size deci_ref \<lparr>nrefs = 1, sign = True, scale = 1, words = [500, 1]\<rparr> 16 3) (\<lambda>cap. cap < SIZE_MAX \<longrightarrow>
     yields (number_tostring_base deci_ref \<lparr>nrefs = 1, sign = True, scale = 1, words = [500, 1]\<rparr> 16 3 cap)
       (\<lambda>s. number_parse_base_validate s 16))"
proof -
  let ?a = "\<lparr>nrefs = 1, sign = True, scale = 1, words = [500, 1]\<rparr>"
  have "number_tostring_size deci_ref \<lparr>nrefs = 1, sign = True, scale = 1, words = [500, 1]\<rparr> = 9"
    by (simp add: number_tostring_size_def uu_add_mul_saturate SIZE_MAX_def)
  moreover have "fits deci_ref 9"
    by (simp add: fits_def SIZEOF_NUMBER_def SIZE_MAX_def)
  ultimately have r: "yields (number_tostring deci_ref ?a 9) (\<lambda>s. number_parse_base_validate s 10 \<and>
      yields (number_parse deci_ref s) (\<lambda>r. num_ok deci_ref r \<and> num_val deci_ref r = -3/2)) \<and>
    (\<forall>base \<in> {2..36}. \<forall>nfrac. yields (number_tostring_base_size deci_ref ?a base nfrac) (\<lambda>cap. cap < SIZE_MAX \<longrightarrow>
      yields (number_tostring_base deci_ref ?a base nfrac cap) (\<lambda>s. number_parse_base_validate s base \<and>
        text_val base s = trunc_base base nfrac (-3/2))))"
    using print_parse_roundtrip [OF deci_ref_ok sample_ok(1) [of 1 True]] unfolding sample_val by (simp add: SIZE_MAX_def)
  have "yields (number_tostring deci_ref ?a 9) (\<lambda>s. yields (number_parse deci_ref s) (\<lambda>r. num_val deci_ref r = -3/2))"
    using conjunct1 [OF r] by (auto elim!: yields_conseq)
  moreover have "yields (number_tostring_base_size deci_ref ?a 16 3) (\<lambda>cap. cap < SIZE_MAX \<longrightarrow>
     yields (number_tostring_base deci_ref ?a 16 3 cap) (\<lambda>s. number_parse_base_validate s 16))"
    by (rule yields_conseq [OF spec [OF bspec [OF conjunct2 [OF r]]]]) (auto elim!: yields_conseq)
  ultimately show ?thesis ..
qed

section \<open>Text in any base is parsed exactly\<close>

lemma trunc_to_minus: "trunc_to n (- x) = - trunc_to n x"
  by (cases "x = 0") (auto simp: trunc_to_def)

lemma parse_base_loop_sq:
  "parse_base_loop D base s a n d = parse_base_loop D base (filter not_sq s) a n d"
  by (induction s arbitrary: a n d) (auto intro!: arg_cong2 [where f = Option.bind])

text \<open>
  The accumulator after \<open>k\<close> digits: a whole number below \<open>base ^ k\<close>.
\<close>

definition acc_ok :: "deci \<Rightarrow> nat \<Rightarrow> nat \<Rightarrow> nat \<Rightarrow> number \<Rightarrow> bool" where
  "acc_ok D base k v a \<longleftrightarrow> num_ok D a \<and> \<not> sign a \<and> scale a = 0 \<and> num_abs D a = of_nat v \<and> v < base ^ k"

lemma acc_ok_nwords:
  assumes D: "deci_ok D" and "acc_ok D base k v a" and b: "2 \<le> base" "base \<le> 36"
  shows "nwords a \<le> k"
proof -
  have a: "num_ok D a" "scale a = 0" "num_abs D a = of_nat v" "v < base ^ k"
    using assms(2) by (simp_all add: acc_ok_def)
  have "base ^ k \<le> DECI_BASE D ^ k"
    by (rule power_mono) (use DECI_BASE_ge [OF D] b in auto)
  with a(4) have "v < DECI_BASE D ^ k" by simp
  moreover have "digits_of (DECI_BASE D) v (words a)"
    using num_okD [OF a(1)] a(2,3) by (simp add: digits_of_def num_abs_def)
  ultimately show ?thesis
    using digits_of_length DECI_BASE_gt_1 [OF D] by blast
qed

lemma acc_step:
  assumes D: "deci_ok D" and b: "2 \<le> base" "base \<le> 36" and a: "acc_ok D base k v a" and c: "decode c < base"
    and fits: "fits D (k + 2)"
  shows "yields (do { a \<leftarrow> number_mul_uword D a base; number_abs_add_uword D a (decode c) })
    (acc_ok D base (Suc k) (v * base + decode c))"
proof -
  have B: "base < DECI_BASE D" "decode c < DECI_BASE D" using DECI_BASE_ge [OF D] b c by auto
  note nw = acc_ok_nwords [OF D a b]
  have a': "num_ok D a" "\<not> sign a" "scale a = 0" "num_abs D a = of_nat v" "v < base ^ k"
    using a by (simp_all add: acc_ok_def)
  have "fits D (Suc (nwords a))" using nw by (intro fits_mono [OF fits]) simp
  note mul = number_mul_uword_yields [OF D a'(1) B(1) this]
  show ?thesis
  proof (rule yields_bindI [OF mul])
    fix m
    assume m: "num_ok D m \<and> num_abs D m = num_abs D a * of_nat base \<and> (base \<noteq> 0 \<longrightarrow> sign m = sign a \<and> scale m = scale a) \<and>
       (base = 0 \<longrightarrow> \<not> sign m \<and> scale m = 0) \<and> nwords m \<le> Suc (nwords a) \<and> nrefs m = 1"
    have "fits D (Suc (nwords m))" using m nw by (intro fits_mono [OF fits]) simp
    then have "yields (number_abs_add_uword D m (decode c))
      (\<lambda>r. num_ok D r \<and> num_abs D r = num_abs D m + of_nat (decode c) \<and> sign r = sign m \<and> scale r = scale m \<and>
         take (scale m) (words r) = take (scale m) (words m) \<and> nwords r \<le> Suc (nwords m) \<and> (nrefs m = 1 \<longrightarrow> nrefs r = 1))"
      using m by (intro number_abs_add_uword_yields [OF D _ B(2)]) simp_all
    moreover have "v * base + decode c < base ^ Suc k"
    proof -
      have "v * base + decode c < Suc v * base" using c by simp
      also have "\<dots> \<le> base ^ k * base" using a'(5) by (intro mult_le_mono1) simp
      finally show ?thesis by (simp add: mult.commute)
    qed
    ultimately show "yields (number_abs_add_uword D m (decode c)) (acc_ok D base (Suc k) (v * base + decode c))"
      using m a' b by (elim yields_conseq) (simp add: acc_ok_def)
  qed
qed

lemma parse_base_loop_digits:
  assumes D: "deci_ok D" and b: "2 \<le> base" "base \<le> 36"
  shows "digits base s \<Longrightarrow> acc_ok D base k v a \<Longrightarrow> fits D (k + length s + 1) \<Longrightarrow>
    \<exists>a'. (\<forall>t. parse_base_loop D base (s @ t) a n d = parse_base_loop D base t a' (if d then n + length s else n) d) \<and>
      acc_ok D base (k + length s) (v * base ^ length s + lsd_val base (rev s)) a'"
proof (induction s arbitrary: k v a n)
  case Nil
  then show ?case by (intro exI [of _ a]) simp
next
  case (Cons c s)
  have c: "c \<noteq> CHR ''.''" "c \<noteq> CHR 0x27" "decode c < base" "digits base s" using Cons.prems(1) by simp_all
  have "fits D (k + 2)" by (rule fits_mono [OF Cons.prems(3)]) simp
  from acc_step [OF D b Cons.prems(2) c(3) this] obtain m r where m: "number_mul_uword D a base = Some m"
    and r: "number_abs_add_uword D m (decode c) = Some r" and ok: "acc_ok D base (Suc k) (v * base + decode c) r"
    by (auto simp: yields_iff_ex bind_eq_Some_conv)
  have "fits D (Suc k + length s + 1)" using Cons.prems(3) by simp
  from Cons.IH [OF c(4) ok this, of "if d then n + 1 else n"] obtain a' where
    a': "\<And>t. parse_base_loop D base (s @ t) r (if d then n + 1 else n) d =
        parse_base_loop D base t a' (if d then (if d then n + 1 else n) + length s else (if d then n + 1 else n)) d"
      "acc_ok D base (Suc k + length s) ((v * base + decode c) * base ^ length s + lsd_val base (rev s)) a'"
    by blast
  have "parse_base_loop D base ((c # s) @ t) a n d = parse_base_loop D base t a' (if d then n + length (c # s) else n) d" for t
    using c m r a'(1) [of t] by (cases d) (simp_all add: Let_def)
  moreover have "(v * base + decode c) * base ^ length s + lsd_val base (rev s) =
      v * base ^ length (c # s) + lsd_val base (rev (c # s))"
    by (simp add: lsd_val_append algebra_simps)
  ultimately show ?case using a'(2) by (intro exI [of _ a']) simp
qed

lemma parse_base_loop_plain:
  assumes D: "deci_ok D" and b: "2 \<le> base" "base \<le> 36" and pl: "plain base u ip fp"
    and fits: "fits D (length (ip @ fp) + 1)" and a: "acc_ok D base 0 0 a"
  shows "yields (parse_base_loop D base u a 0 False) (\<lambda>(r, n). n = length fp \<and>
    acc_ok D base (length (ip @ fp)) (lsd_val base (rev ip) * base ^ length fp + lsd_val base (rev fp)) r)"
proof -
  have dg: "digits base ip" "digits base fp" using pl by (simp_all add: plain_def)
  have "fits D (0 + length ip + 1)" by (rule fits_mono [OF fits]) simp
  from parse_base_loop_digits [OF D b dg(1) a this, of 0 False] obtain r where
    r: "\<And>t. parse_base_loop D base (ip @ t) a 0 False = parse_base_loop D base t r 0 False"
      "acc_ok D base (length ip) (lsd_val base (rev ip)) r" by auto
  have "fits D (length ip + length fp + 1)" using fits by simp
  from parse_base_loop_digits [OF D b dg(2) r(2) this, of 0 True] obtain q where
    q: "\<And>t. parse_base_loop D base (fp @ t) r 0 True = parse_base_loop D base t q (length fp) True"
      "acc_ok D base (length ip + length fp) (lsd_val base (rev ip) * base ^ length fp + lsd_val base (rev fp)) q" by auto
  consider "u = ip" "fp = []" | "u = ip @ CHR ''.'' # fp" using pl by (auto simp: plain_def)
  then show ?thesis
  proof cases
    case 1
    then show ?thesis using r(1) [of "[]"] r(2) by simp
  next
    case 2
    then show ?thesis using r(1) [of "CHR ''.'' # fp"] q(1) [of "[]"] q(2) by simp
  qed
qed

lemma number_parse_base_yields:
  assumes D: "deci_ok D" and b: "2 \<le> base" "base \<le> 36" and ok: "number_parse_base_validate s base"
    and fits: "fits D (2 * length s + ntp_scale (ntp_from_prec D prec) + 2)"
  shows "yields (number_parse_base D s base (ntp_from_prec D prec)) (\<lambda>r. num_ok D r \<and>
    num_val D r = trunc_to prec (text_val base s))"
proof -
  let ?neg = "s \<noteq> [] \<and> hd s = CHR ''-''"
  let ?t = "if ?neg then tl s else s" and ?p = "ntp_from_prec D prec"
  obtain ip fp where pl: "plain base (filter not_sq ?t) ip fp"
    using ok validate_iff by blast
  have lt: "length ?t \<le> length s" by simp
  have len: "length ip + length fp \<le> length s"
    using plain_length [OF pl] lt by simp
  let ?v = "lsd_val base (rev ip) * base ^ length fp + lsd_val base (rev fp)"
  let ?q = "of_nat (lsd_val base (rev ip)) + of_nat (lsd_val base (rev fp)) / of_nat base ^ length fp :: rat"
  have base0: "(of_nat base :: rat) \<noteq> 0" using b by simp
  have vq: "of_nat ?v / of_nat base ^ length fp = ?q"
    using base0 by (simp add: add_divide_distrib)
  have tv: "text_val base s = (if ?neg then -1 else 1) * ?q" by (rule text_val_plain [OF pl])
  have ne: "s \<noteq> []" using pl by (auto simp: plain_def)
  have "yields (number_new_from_zu D 0) (acc_ok D base 0 0)"
    by (rule yields_conseq [OF number_new_from_zu_yields [OF D le0]]) (auto simp: acc_ok_def num_val_def)
  then obtain z where z: "number_new_from_zu D 0 = Some z" "acc_ok D base 0 0 z" by (rule yieldsE)
  have "fits D (length (ip @ fp) + 1)" by (rule fits_mono [OF fits]) (use len in simp)
  from parse_base_loop_plain [OF D b pl this z(2)] obtain r where
    r: "parse_base_loop D base ?t z 0 False = Some (r, length fp)" "acc_ok D base (length (ip @ fp)) ?v r"
    by (subst (asm) parse_base_loop_sq [symmetric]) (auto elim!: yieldsE)
  have r': "num_ok D r" "scale r = 0" "num_val D r = of_nat ?v" "nwords r \<le> length ip + length fp"
    using r(2) acc_ok_nwords [OF D r(2) b] by (simp_all add: acc_ok_def num_val_def)
  let ?div = "if length fp \<noteq> 0 then do {
              d \<leftarrow> number_new_from_zu D base;
              divisor \<leftarrow> number_pow_zu D d (length fp);
              number_div D r divisor ?p
            } else Some r"
  let ?w = "if fp = [] then ?q else trunc_to prec ?q"
  have div: "yields ?div (\<lambda>a. num_ok D a \<and> num_val D a = ?w)"
  proof (cases "fp = []")
    case True
    then show ?thesis using r' by simp
  next
    case False
    have "base \<le> SIZE_MAX" using b by (simp add: SIZE_MAX_def)
    then have "yields (number_new_from_zu D base) (\<lambda>d. num_ok D d \<and> num_val D d = of_nat base \<and> nrefs d = 1 \<and> \<not> sign d \<and>
        scale d = 0 \<and> digits_of (DECI_BASE D) base (words d))"
      by (rule number_new_from_zu_yields [OF D])
    then obtain d where d: "number_new_from_zu D base = Some d" "num_ok D d" "num_val D d = of_nat base"
      "digits_of (DECI_BASE D) base (words d)"
      by (auto elim: yieldsE)
    have "nwords d \<le> 1"
      using digits_of_length [OF d(4), of 1] DECI_BASE_ge [OF D] b(2) by simp
    then have le: "nwords d * length fp \<le> length fp" using mult_le_mono1 [of "nwords d" 1 "length fp"] by simp
    have "fits D (nwords d * length fp)" by (rule fits_mono [OF fits]) (use le len in linarith)
    then have "yields (number_pow_zu D d (length fp)) (\<lambda>e. num_ok D e \<and> num_val D e = num_val D d ^ length fp \<and>
        nwords e \<le> max 1 (nwords d * length fp))"
      by (rule number_pow_zu_yields [OF D d(2) _ num_okD(4) [OF d(2)]])
    then obtain e where e: "number_pow_zu D d (length fp) = Some e" "num_ok D e" "num_val D e = of_nat base ^ length fp"
      "nwords e \<le> max 1 (nwords d * length fp)"
      using d(3) by (auto elim: yieldsE)
    have "max 1 (nwords d * length fp) \<le> max 1 (length fp)" by (rule max.mono [OF order_refl le])
    then have sc: "scale e \<le> max 1 (length fp)" using num_okD(2) [OF e(2)] e(4) by linarith
    have "div_words r e ?p \<le> length ip + length fp + ntp_scale ?p + max 1 (length fp)"
      using r'(2,4) sc by (simp add: div_words_def)
    also have "\<dots> \<le> 2 * length s + ntp_scale ?p + 2" using len by simp
    finally have "fits D (div_words r e ?p)" by (rule fits_mono [OF fits])
    moreover have "num_val D e \<noteq> 0" using e(3) base0 by simp
    ultimately have "yields (number_div D r e ?p) (\<lambda>a. num_ok D a \<and> num_val D a = trunc_to prec (num_val D r / num_val D e) \<and>
       scale a = ntp_scale ?p \<and> nwords a \<le> div_words r e ?p \<and> nrefs a = 1 \<and> sign a = (sign r \<noteq> sign e))"
      by (intro number_div_yields [OF D r'(1) e(2) _ ntp_from_prec_ok [OF D]])
    then have "yields (number_div D r e ?p) (\<lambda>a. num_ok D a \<and> num_val D a = trunc_to prec ?q)"
      by (rule yields_conseq) (use r'(3) e(3) vq in auto)
    with False d(1) e(1) show ?thesis by simp
  qed
  have run: "number_parse_base D s base ?p = do { a \<leftarrow> ?div; if ?neg then number_negate D a else Some a }"
    using z(1) ne r(1) by (cases "hd s = CHR ''-''") (simp_all add: number_parse_base_def)
  note trunc = trunc_to_minus [of prec ?q]
  have val: "trunc_to prec (text_val base s) = (if ?neg then -1 else 1) * ?w"
  proof (cases "fp = []")
    case True
    then have q: "?q = of_nat (lsd_val base (rev ip))" by simp
    have "trunc_to prec (of_nat n) = of_nat n" for n
    proof -
      have "(of_nat n :: rat) * 10 ^ prec = of_int (int (n * 10 ^ prec))" by simp
      then have "\<lfloor>(of_nat n :: rat) * 10 ^ prec\<rfloor> = int (n * 10 ^ prec)" by (simp only: floor_of_int)
      then show ?thesis by (simp add: trunc_to_def)
    qed
    then have "trunc_to prec (text_val base s) = text_val base s"
      using trunc unfolding tv q by (cases ?neg) simp_all
    then show ?thesis using True unfolding tv by simp
  next
    case False
    then show ?thesis using trunc unfolding tv by simp
  qed
  show ?thesis
    unfolding run val
  proof (rule yields_bindI [OF div], elim conjE)
    fix a
    assume "num_ok D a" "num_val D a = ?w"
    then show "yields (if ?neg then number_negate D a else Some a)
        (\<lambda>r. num_ok D r \<and> num_val D r = (if ?neg then -1 else 1) * ?w)"
      using number_negate_yields [OF D, of a] by (cases ?neg) (auto elim!: yields_conseq)
  qed
qed

text \<open>
  C18: In bases 2 to 36, \<open>number_parse_base\<close> turns every text that the validation accepts into a well-formed
  number of its value truncated to the requested precision, which is the value itself when it is whole.
\<close>

theorem number_parse_base_exact:
  assumes D: "deci_ok D" and b: "2 \<le> base" "base \<le> 36" and ok: "number_parse_base_validate s base"
    and fits: "fits D (2 * length s + ntp_scale (ntp_from_prec D prec) + 2)"
  shows "yields (number_parse_base D s base (ntp_from_prec D prec)) (\<lambda>r. num_ok D r \<and>
    num_val D r = trunc_to prec (text_val base s))"
  by (rule number_parse_base_yields [OF assms])

theorem number_parse_base_exact_witness:
  "yields (number_parse_base deci_ref ''-ff'8'' 16 (ntp_from_prec deci_ref 5)) (\<lambda>r. num_val deci_ref r = -4088)"
proof -
  have "number_parse_base_validate ''-ff'8'' 16" by code_simp
  moreover have "fits deci_ref (2 * length ''-ff'8'' + ntp_scale (ntp_from_prec deci_ref 5) + 2)"
    by (simp add: fits_def SIZEOF_NUMBER_def SIZE_MAX_def ntp_from_prec_def)
  moreover have "trunc_to 5 (text_val 16 ''-ff'8'') = -4088"
    by (simp add: text_val_def decode_def trunc_to_def)
  ultimately show ?thesis
    using number_parse_base_exact [OF deci_ref_ok, of 16 "''-ff'8''" 5] by (auto elim: yields_conseq)
qed

end
