(* ===== verification/Lexer.thy ===== *)
theory Lexer
  imports Lexemes Number_Parse "HOL-Library.Sublist"
begin

text \<open>
  The lexer of \<open>lexer.c\<close>. The source is a string and the pointers into it (\<open>cur\<close>, \<open>line_start\<close>, the
  start of a lexeme) are indices; \<open>end\<close> is the length of the source. Reading at or after the end
  has no result.
\<close>

section \<open>The stack of brackets\<close>

datatype level = LEVEL_EXPR | LEVEL_STMT

text \<open>The innermost bracket is the last element of \<open>ls_data\<close>; \<open>(size_t) -1\<close> is \<open>SIZE_MAX\<close>.\<close>

record level_stack =
  ls_data :: "level list"
  ls_capacity :: nat
  ls_blocky_level :: nat
  ls_is_expr_context :: bool

definition level_stack_new :: level_stack where
  "level_stack_new = \<lparr>ls_data = [], ls_capacity = 0, ls_blocky_level = SIZE_MAX, ls_is_expr_context = False\<rparr>"

definition level_stack_push :: "level_stack \<Rightarrow> level \<Rightarrow> level_stack option" where
  "level_stack_push s l =
     do {
       s \<leftarrow> (if length (ls_data s) = ls_capacity s then do {
              c \<leftarrow> uu_x2realloc (ls_capacity s) 1;
              Some (s\<lparr>ls_capacity := c\<rparr>)
            } else Some s);
       Some (s\<lparr>ls_data := ls_data s @ [l], ls_is_expr_context := (l = LEVEL_EXPR)\<rparr>)
     }"

definition level_stack_set_blocky :: "level_stack \<Rightarrow> level_stack" where
  "level_stack_set_blocky s = s\<lparr>ls_blocky_level := length (ls_data s)\<rparr>"

definition level_stack_push_blocky :: "level_stack \<Rightarrow> level_stack option" where
  "level_stack_push_blocky s =
     (let (s, l) = (if ls_blocky_level s = length (ls_data s)
                    then (s\<lparr>ls_blocky_level := SIZE_MAX\<rparr>, LEVEL_STMT) else (s, LEVEL_EXPR)) in
      level_stack_push s l)"

definition level_stack_pop :: "level_stack \<Rightarrow> level_stack" where
  "level_stack_pop s =
     (if ls_data s = [] then s
      else
        let data = butlast (ls_data s) in
        s\<lparr>ls_data := data, ls_is_expr_context := (data \<noteq> [] \<and> last data = LEVEL_EXPR)\<rparr>)"

section \<open>The lexer\<close>

record lexer =
  src :: string
  cur :: nat
  line_num :: nat
  line_start :: nat
  level_stack :: level_stack
  inserted_semicolon_flag :: bool
  keywords_ht :: "nat xht"
  err_msg :: "string option"

abbreviation lex_end :: "lexer \<Rightarrow> nat" where
  "lex_end x \<equiv> length (src x)"

definition lexer_new :: "string \<Rightarrow> lexer option" where
  "lexer_new source =
     do {
       ht \<leftarrow> make_keywords_ht;
       Some \<lparr>src = source, cur = 0, line_num = 1, line_start = 0, level_stack = level_stack_new,
         inserted_semicolon_flag = False, keywords_ht = ht, err_msg = None\<rparr>
     }"

definition char_at :: "lexer \<Rightarrow> nat \<Rightarrow> char option" where
  "char_at x i = (if i < lex_end x then Some (src x ! i) else None)"

definition make_lexeme :: "lexer \<Rightarrow> lexeme_kind \<Rightarrow> nat \<Rightarrow> lexeme" where
  "make_lexeme x kind start =
     \<lparr>lk_kind = kind, lk_start = start, lk_size = cur x - start,
      lk_pos = \<lparr>line = line_num x, column = start - line_start x + 1\<rparr>\<rparr>"

definition make_lexeme_advance :: "lexer \<Rightarrow> lexeme_kind \<Rightarrow> nat \<Rightarrow> lexeme \<times> lexer" where
  "make_lexeme_advance x kind n =
     (let start = cur x; x = x\<lparr>cur := cur x + n\<rparr> in (make_lexeme x kind start, x))"

definition make_error_advance :: "lexer \<Rightarrow> string \<Rightarrow> nat \<Rightarrow> lexeme \<times> lexer" where
  "make_error_advance x msg n = make_lexeme_advance (x\<lparr>err_msg := Some msg\<rparr>) LK_ERROR n"

text \<open>The character \<open>'\0'\<close> stands for an alternative that is not there.\<close>

definition choice1223 ::
    "lexer \<Rightarrow> lexeme_kind \<Rightarrow> char \<Rightarrow> lexeme_kind \<Rightarrow> char \<Rightarrow> lexeme_kind \<Rightarrow> char \<Rightarrow> lexeme_kind \<Rightarrow> (lexeme \<times> lexer) option" where
  "choice1223 x if_a b if_ab c if_ac d if_acd =
     (if cur x + 1 \<noteq> lex_end x then do {
        c1 \<leftarrow> char_at x (cur x + 1);
        if c1 = b then Some (make_lexeme_advance x if_ab 2)
        else if c \<noteq> CHR 0x00 \<and> c1 = c then
          (if d \<noteq> CHR 0x00 \<and> cur x + 2 \<noteq> lex_end x then do {
             c2 \<leftarrow> char_at x (cur x + 2);
             if c2 = d then Some (make_lexeme_advance x if_acd 3)
             else Some (make_lexeme_advance x if_ac 2)
           } else Some (make_lexeme_advance x if_ac 2))
        else Some (make_lexeme_advance x if_a 1)
      } else Some (make_lexeme_advance x if_a 1))"

section \<open>Numbers, strings and identifiers\<close>

definition is_digit :: "char \<Rightarrow> bool" where
  "is_digit c \<longleftrightarrow> 48 \<le> (of_char c :: nat) \<and> of_char c \<le> (57 :: nat)"

definition is_ident_start :: "char \<Rightarrow> bool" where
  "is_ident_start c \<longleftrightarrow> 97 \<le> (of_char c :: nat) \<and> of_char c \<le> (122 :: nat) \<or>
     65 \<le> (of_char c :: nat) \<and> of_char c \<le> (90 :: nat) \<or> c = CHR ''_''"

text \<open>The loops advance before they look; each returns the new value of \<open>cur\<close>.\<close>

function scan_number :: "string \<Rightarrow> nat \<Rightarrow> bool \<Rightarrow> nat option" where
  "scan_number s i seen_dot =
     (if length s \<le> i then None
      else
        let i = i + 1 in
        if i = length s then Some i
        else
          let c = s ! i in
          if is_digit c \<or> c = CHR 0x27 then scan_number s i seen_dot
          else if c = CHR ''.'' then (if seen_dot then Some i else scan_number s i True)
          else Some i)"
  by pat_completeness auto
termination by (relation "measure (\<lambda>(s, i, d). length s - i)") auto

function scan_identifier :: "string \<Rightarrow> nat \<Rightarrow> nat option" where
  "scan_identifier s i =
     (if length s \<le> i then None
      else
        let i = i + 1 in
        if i = length s then Some i
        else if is_digit (s ! i) \<or> is_ident_start (s ! i) then scan_identifier s i
        else Some i)"
  by pat_completeness auto
termination by (relation "measure (\<lambda>(s, i). length s - i)") auto

text \<open>The error message, or none, and the new value of \<open>cur\<close>.\<close>

function scan_string :: "string \<Rightarrow> nat \<Rightarrow> (string option \<times> nat) option" where
  "scan_string s i =
     (if length s \<le> i then None
      else
        let i = i + 1 in
        if i = length s then Some (Some ''unterminated string (EOF reached)'', i)
        else
          let c = s ! i in
          if c = CHR 0x22 then Some (None, i + 1)
          else if c = CHR 0x5C then
            (if i + 1 = length s then Some (Some ''unterminated string (EOF reached)'', i + 1)
             else scan_string s (i + 1))
          else if c = CHR 0x0A then Some (Some ''unterminated string (EOL reached)'', i)
          else scan_string s i)"
  by pat_completeness auto
termination by (relation "measure (\<lambda>(s, i). length s - i)") auto

declare scan_number.simps [simp del] scan_identifier.simps [simp del] scan_string.simps [simp del]

definition lex_number :: "lexer \<Rightarrow> (lexeme \<times> lexer) option" where
  "lex_number x =
     do {
       let start = cur x;
       i \<leftarrow> scan_number (src x) (cur x) False;
       let x = x\<lparr>cur := i\<rparr>;
       Some (make_lexeme x LK_NUMBER start, x)
     }"

definition lex_string :: "lexer \<Rightarrow> (lexeme \<times> lexer) option" where
  "lex_string x =
     do {
       let start = cur x;
       (err, i) \<leftarrow> scan_string (src x) (cur x);
       let x = x\<lparr>cur := i\<rparr>;
       Some (case err of
               Some msg \<Rightarrow> make_error_advance x msg 0
             | None \<Rightarrow> (make_lexeme x LK_STRING start, x))
     }"

definition lex_identifier :: "lexer \<Rightarrow> (lexeme \<times> lexer) option" where
  "lex_identifier x =
     do {
       let start = cur x;
       i \<leftarrow> scan_identifier (src x) (cur x);
       let x = x\<lparr>cur := i\<rparr>;
       let word = take (i - start) (drop start (src x));
       value \<leftarrow> xht_get (keywords_ht x) word (hash_str word) (kind_code LK_IDENT);
       let (x, value) =
         (if value AND BLOCKY_BIT \<noteq> 0
          then (x\<lparr>level_stack := level_stack_set_blocky (level_stack x)\<rparr>, unset_bit 10 value)
          else (x, value));
       kind \<leftarrow> kind_of_code value;
       Some (make_lexeme x kind start, x)
     }"

section \<open>Tokens\<close>

definition fake_semicolon :: "lexer \<Rightarrow> lexeme \<times> lexer" where
  "fake_semicolon x = make_lexeme_advance x LK_SEMICOLON 0"

definition insert_semicolon :: "lexer \<Rightarrow> bool \<times> lexer" where
  "insert_semicolon x =
     (if ls_is_expr_context (level_stack x) then (False, x)
      else if inserted_semicolon_flag x then (False, x\<lparr>inserted_semicolon_flag := False\<rparr>)
      else (True, x\<lparr>inserted_semicolon_flag := True\<rparr>))"

abbreviation NUL :: char where
  "NUL \<equiv> CHR 0x00"

abbreviation EQ :: char where
  "EQ \<equiv> CHR ''=''"

definition lex_open :: "lexer \<Rightarrow> level_stack option \<Rightarrow> lexeme_kind \<Rightarrow> (lexeme \<times> lexer) option" where
  "lex_open x push kind =
     do { s \<leftarrow> push; Some (make_lexeme_advance (x\<lparr>level_stack := s\<rparr>) kind 1) }"

definition lex_close :: "lexer \<Rightarrow> lexeme_kind \<Rightarrow> lexeme \<times> lexer" where
  "lex_close x kind =
     make_lexeme_advance (x\<lparr>level_stack := level_stack_pop (level_stack x)\<rparr>) kind 1"

definition token :: "lexer \<Rightarrow> (lexeme \<times> lexer) option" where
  "token x =
     do {
       c \<leftarrow> char_at x (cur x);
       if is_digit c then lex_number x
       else if is_ident_start c then lex_identifier x
       else if c = CHR 0x22 then lex_string x
       else if c = CHR ''!'' then choice1223 x LK_BANG EQ LK_BANG_EQ NUL LK_AND NUL LK_AND
       else if c = CHR ''%'' then choice1223 x LK_PERCENT EQ LK_PERCENT_EQ NUL LK_AND NUL LK_AND
       else if c = CHR ''&'' then choice1223 x LK_AND EQ LK_AND_EQ CHR ''&'' LK_AND_AND EQ LK_AND_AND_EQ
       else if c = CHR ''|'' then choice1223 x LK_OR EQ LK_OR_EQ CHR ''|'' LK_OR_OR EQ LK_OR_OR_EQ
       else if c = CHR ''('' then lex_open x (level_stack_push (level_stack x) LEVEL_EXPR) LK_LPAREN
       else if c = CHR '')'' then Some (lex_close x LK_RPAREN)
       else if c = CHR ''*'' then choice1223 x LK_STAR EQ LK_STAR_EQ CHR ''*'' LK_STAR_STAR EQ LK_STAR_STAR_EQ
       else if c = CHR ''+'' then choice1223 x LK_PLUS EQ LK_PLUS_EQ NUL LK_AND NUL LK_AND
       else if c = CHR ''-'' then choice1223 x LK_MINUS EQ LK_MINUS_EQ CHR ''>'' LK_MINUS_GREATER NUL LK_AND
       else if c = CHR '','' then Some (make_lexeme_advance x LK_COMMA 1)
       else if c = CHR ''.'' then Some (make_lexeme_advance x LK_DOT 1)
       else if c = CHR ''@'' then Some (make_lexeme_advance x LK_AT 1)
       else if c = CHR ''/'' then choice1223 x LK_SLASH EQ LK_SLASH_EQ CHR ''/'' LK_SLASH_SLASH EQ LK_SLASH_SLASH_EQ
       else if c = CHR '':'' then choice1223 x LK_COLON EQ LK_COLON_EQ NUL LK_AND NUL LK_AND
       else if c = CHR '';'' then Some (make_lexeme_advance x LK_SEMICOLON 1)
       else if c = CHR ''<'' then choice1223 x LK_LESS EQ LK_LESS_EQ CHR ''<'' LK_LESS_LESS EQ LK_LESS_LESS_EQ
       else if c = CHR ''='' then choice1223 x LK_EQ EQ LK_EQ_EQ NUL LK_AND NUL LK_AND
       else if c = CHR ''>'' then choice1223 x LK_GREATER EQ LK_GREATER_EQ CHR ''>'' LK_GREATER_GREATER EQ LK_GREATER_GREATER_EQ
       else if c = CHR ''['' then lex_open x (level_stack_push (level_stack x) LEVEL_EXPR) LK_LBRACKET
       else if c = CHR '']'' then Some (lex_close x LK_RBRACKET)
       else if c = CHR ''^'' then choice1223 x LK_HAT EQ LK_HAT_EQ NUL LK_AND NUL LK_AND
       else if c = CHR ''{'' then lex_open x (level_stack_push_blocky (level_stack x)) LK_LBRACE
       else if c = CHR ''~'' then choice1223 x LK_TILDE EQ LK_TILDE_EQ NUL LK_AND NUL LK_AND
       else if c = CHR ''}'' then
         (let (ins, x) = insert_semicolon x in
          if ins then Some (fake_semicolon x) else Some (lex_close x LK_RBRACE))
       else Some (make_error_advance x ''unexpected symbol'' 1)
     }"

text \<open>\<open>do ++cur; while (cur != end && *cur != '\n');\<close>\<close>

function skip_comment :: "string \<Rightarrow> nat \<Rightarrow> nat option" where
  "skip_comment s i =
     (if length s \<le> i then None
      else
        let i = i + 1 in
        if i \<noteq> length s \<and> s ! i \<noteq> CHR 0x0A then skip_comment s i else Some i)"
  by pat_completeness auto
termination by (relation "measure (\<lambda>(s, i). length s - i)") auto

declare skip_comment.simps [simp del]

text \<open>The loop of \<open>lexer_next\<close>; an iteration that does not return advances \<open>cur\<close>.\<close>

partial_function (option) lexer_next :: "lexer \<Rightarrow> (lexeme \<times> lexer) option" where
  "lexer_next x =
     (if cur x = lex_end x then
        (let (ins, x) = insert_semicolon x in
         if ins then Some (fake_semicolon x) else Some (make_lexeme_advance x LK_EOF 0))
      else do {
        c \<leftarrow> char_at x (cur x);
        if c = CHR '' '' \<or> c = CHR 0x09 then lexer_next (x\<lparr>cur := cur x + 1\<rparr>)
        else if c = CHR 0x0A then
          (let (ins, x) = insert_semicolon x in
           if ins then Some (fake_semicolon x)
           else
             let x = x\<lparr>cur := cur x + 1\<rparr>; x = x\<lparr>line_num := line_num x + 1\<rparr>; x = x\<lparr>line_start := cur x\<rparr> in
             lexer_next x)
        else if c = CHR ''#'' then do {
          i \<leftarrow> skip_comment (src x) (cur x);
          lexer_next (x\<lparr>cur := i\<rparr>)
        }
        else token x
      })"

definition lexer_error_msg :: "lexer \<Rightarrow> string option" where
  "lexer_error_msg x = err_msg x"

section \<open>The scanning loops as prefixes of the rest of the source\<close>

abbreviation nl :: char where
  "nl \<equiv> CHR 0x0A"

definition ident_char :: "char \<Rightarrow> bool" where
  "ident_char c \<longleftrightarrow> is_digit c \<or> is_ident_start c"

text \<open>The longest continuation of a number, given whether it has a point already.\<close>

fun number_tail :: "bool \<Rightarrow> string \<Rightarrow> string" where
  "number_tail d [] = []"
| "number_tail d (c # s) =
     (if is_digit c \<or> c = CHR 0x27 then c # number_tail d s
      else if c = CHR ''.'' \<and> \<not> d then c # number_tail True s
      else [])"

text \<open>The end of a string after its opening quote: the error, if any, and the characters passed.\<close>

fun string_tail :: "string \<Rightarrow> string option \<times> nat" where
  "string_tail [] = (Some ''unterminated string (EOF reached)'', 0)"
| "string_tail (c # s) =
     (if c = CHR 0x22 then (None, 1)
      else if c = CHR 0x5C then
        (case s of
           [] \<Rightarrow> (Some ''unterminated string (EOF reached)'', 1)
         | _ # t \<Rightarrow> (let (m, n) = string_tail t in (m, n + 2)))
      else if c = nl then (Some ''unterminated string (EOL reached)'', 0)
      else (let (m, n) = string_tail s in (m, n + 1)))"

lemma scan_identifier_eq:
  "i < length s \<Longrightarrow> scan_identifier s i = Some (i + 1 + length (takeWhile ident_char (drop (i + 1) s)))"
proof (induction s i rule: scan_identifier.induct)
  case (1 s i)
  show ?case
  proof (cases "i + 1 = length s")
    case True
    then show ?thesis by (subst scan_identifier.simps) simp
  next
    case False
    with 1(2) have "i + 1 < length s" by simp
    then have d: "drop (Suc i) s = s ! Suc i # drop (Suc (Suc i)) s"
      by (simp add: Cons_nth_drop_Suc)
    show ?thesis
      using 1 False \<open>i + 1 < length s\<close> by (subst scan_identifier.simps) (simp add: d ident_char_def [abs_def] Let_def)
  qed
qed

lemma scan_number_eq:
  "i < length s \<Longrightarrow> scan_number s i d = Some (i + 1 + length (number_tail d (drop (i + 1) s)))"
proof (induction s i d rule: scan_number.induct)
  case (1 s i d)
  show ?case
  proof (cases "i + 1 = length s")
    case True
    then show ?thesis by (subst scan_number.simps) simp
  next
    case False
    with 1(3) have "i + 1 < length s" by simp
    then have d: "drop (Suc i) s = s ! Suc i # drop (Suc (Suc i)) s"
      by (simp add: Cons_nth_drop_Suc)
    show ?thesis
      using 1 False \<open>i + 1 < length s\<close> by (subst scan_number.simps) (simp add: d Let_def)
  qed
qed

lemma scan_string_eq:
  "i < length s \<Longrightarrow> scan_string s i =
     Some (fst (string_tail (drop (i + 1) s)), i + 1 + snd (string_tail (drop (i + 1) s)))"
proof (induction s i rule: scan_string.induct)
  case (1 s i)
  show ?case
  proof (cases "i + 1 = length s")
    case True
    then show ?thesis by (subst scan_string.simps) simp
  next
    case False
    with 1(3) have i1: "i + 1 < length s" by simp
    then have d: "drop (Suc i) s = s ! Suc i # drop (Suc (Suc i)) s"
      by (simp add: Cons_nth_drop_Suc)
    show ?thesis
    proof (cases "i + 2 = length s")
      case True
      with 1 False i1 show ?thesis
        by (subst scan_string.simps) (simp add: d Let_def split_beta)
    next
      case i2: False
      with i1 have "i + 2 < length s" by simp
      then have d2: "drop (Suc (Suc i)) s = s ! Suc (Suc i) # drop (Suc (Suc (Suc i))) s"
        by (simp add: Cons_nth_drop_Suc)
      show ?thesis
        using 1 False i1 i2 \<open>i + 2 < length s\<close>
        by (subst scan_string.simps) (simp add: d d2 Let_def split_beta)
    qed
  qed
qed

lemma skip_comment_eq:
  "i < length s \<Longrightarrow> skip_comment s i = Some (i + 1 + length (takeWhile (\<lambda>c. c \<noteq> nl) (drop (i + 1) s)))"
proof (induction s i rule: skip_comment.induct)
  case (1 s i)
  show ?case
  proof (cases "i + 1 = length s")
    case True
    then show ?thesis by (subst skip_comment.simps) simp
  next
    case False
    with 1(2) have "i + 1 < length s" by simp
    then have d: "drop (Suc i) s = s ! Suc i # drop (Suc (Suc i)) s"
      by (simp add: Cons_nth_drop_Suc)
    show ?thesis
      using 1 False \<open>i + 1 < length s\<close> by (subst skip_comment.simps) (simp add: d Let_def)
  qed
qed

lemma string_tail_le: "snd (string_tail s) \<le> length s"
proof (induction s rule: string_tail.induct)
  case (2 c s)
  then show ?case by (cases s) (simp_all add: split_beta)
qed simp

lemma number_tail_prefix: "\<exists>t. s = number_tail d s @ t"
  by (induction d s rule: number_tail.induct) auto

lemma number_tail_le: "length (number_tail d s) \<le> length s"
  using number_tail_prefix [of s d] by (metis length_append le_add1)

section \<open>What a lexeme must be\<close>

text \<open>The operators and punctuation of the language with their spellings.\<close>

definition op_spellings :: "(lexeme_kind \<times> string) list" where
  "op_spellings =
    [
     (LK_AND, ''&''), (LK_AND_AND, ''&&''), (LK_AND_AND_EQ, ''&&=''), (LK_AND_EQ, ''&=''),
     (LK_AT, ''@''), (LK_BANG, ''!''), (LK_BANG_EQ, ''!=''), (LK_COMMA, '',''), (LK_DOT, ''.''),
     (LK_COLON, '':''), (LK_COLON_EQ, '':=''), (LK_EQ, ''=''), (LK_EQ_EQ, ''==''),
     (LK_GREATER, ''>''), (LK_GREATER_EQ, ''>=''), (LK_GREATER_GREATER, ''>>''),
     (LK_GREATER_GREATER_EQ, ''>>=''), (LK_HAT, ''^''), (LK_HAT_EQ, ''^=''), (LK_LBRACE, ''{''),
     (LK_LBRACKET, ''[''), (LK_LESS, ''<''), (LK_LESS_EQ, ''<=''), (LK_LESS_LESS, ''<<''),
     (LK_LESS_LESS_EQ, ''<<=''), (LK_LPAREN, ''(''), (LK_MINUS, ''-''), (LK_MINUS_EQ, ''-=''),
     (LK_MINUS_GREATER, ''->''), (LK_OR, ''|''), (LK_OR_EQ, ''|=''), (LK_OR_OR, ''||''),
     (LK_OR_OR_EQ, ''||=''), (LK_PERCENT, ''%''), (LK_PERCENT_EQ, ''%=''), (LK_PLUS, ''+''),
     (LK_PLUS_EQ, ''+=''), (LK_RBRACE, ''}''), (LK_RBRACKET, '']''), (LK_RPAREN, '')''),
     (LK_SEMICOLON, '';''), (LK_SLASH, ''/''), (LK_SLASH_EQ, ''/=''), (LK_SLASH_SLASH, ''//''),
     (LK_SLASH_SLASH_EQ, ''//=''), (LK_STAR, ''*''), (LK_STAR_EQ, ''*=''),
     (LK_STAR_STAR, ''**''), (LK_STAR_STAR_EQ, ''**=''), (LK_TILDE, ''~''), (LK_TILDE_EQ, ''~='')]"

text \<open>\<open>k\<close>, of \<open>n\<close> characters, is the longest operator at the beginning of \<open>t\<close>.\<close>

definition longest_op :: "string \<Rightarrow> lexeme_kind \<Rightarrow> nat \<Rightarrow> bool" where
  "longest_op t k n \<longleftrightarrow> (k, take n t) \<in> set op_spellings \<and>
     (\<forall>(k', w) \<in> set op_spellings. prefix w t \<longrightarrow> length w \<le> n)"

text \<open>The characters between the quotes: a backslash takes the next character with it.\<close>

fun string_body :: "string \<Rightarrow> bool" where
  "string_body [] = True"
| "string_body (c # s) =
     (if c = CHR 0x5C then (case s of [] \<Rightarrow> False | _ # t \<Rightarrow> string_body t)
      else c \<noteq> CHR 0x22 \<and> c \<noteq> nl \<and> string_body s)"

definition number_ok :: "string \<Rightarrow> string \<Rightarrow> bool" where
  "number_ok t r \<longleftrightarrow> number_parse_base_validate t 10 \<and>
     (r = [] \<or> \<not> is_digit (hd r) \<and> hd r \<noteq> CHR 0x27 \<and> (hd r = CHR ''.'' \<longrightarrow> CHR ''.'' \<in> set t))"

definition word_ok :: "lexeme_kind \<Rightarrow> string \<Rightarrow> string \<Rightarrow> bool" where
  "word_ok k t r \<longleftrightarrow> is_ident_start (hd t) \<and> (\<forall>c\<in>set t. ident_char c) \<and> (r = [] \<or> \<not> ident_char (hd r)) \<and>
     k = (case map_of keyword_list t of Some (k, _) \<Rightarrow> k | None \<Rightarrow> LK_IDENT)"

text \<open>
  The lexeme against the source: \<open>t\<close> is its text and \<open>r\<close> the rest. The empty semicolons are those the
  lexer inserts, before a newline, a closing brace or the end.
\<close>

definition lexeme_ok :: "string \<Rightarrow> lexeme \<Rightarrow> bool" where
  "lexeme_ok s l \<longleftrightarrow>
     (let k = lk_kind l; t = take (lk_size l) (drop (lk_start l) s); r = drop (lk_start l + lk_size l) s in
      if k = LK_ERROR then True
      else if k = LK_EOF then t = [] \<and> r = []
      else if t = [] then k = LK_SEMICOLON \<and> (r = [] \<or> hd r = nl \<or> hd r = CHR ''}'')
      else if k = LK_NUMBER then is_digit (hd t) \<and> number_ok t r
      else if k = LK_STRING then (\<exists>body. t = CHR 0x22 # body @ [CHR 0x22] \<and> string_body body)
      else if is_ident_start (hd t) then word_ok k t r
      else longest_op (t @ r) k (length t))"

section \<open>The choice between operators\<close>

text \<open>What \<open>choice1223\<close> chooses, given the characters after the first.\<close>

fun choice_of :: "lexeme_kind \<Rightarrow> char \<Rightarrow> lexeme_kind \<Rightarrow> char \<Rightarrow> lexeme_kind \<Rightarrow> char \<Rightarrow> lexeme_kind \<Rightarrow> string \<Rightarrow> lexeme_kind \<times> nat" where
  "choice_of a b ab c ac d acd [] = (a, 1)"
| "choice_of a b ab c ac d acd (c1 # r) =
     (if c1 = b then (ab, 2)
      else if c \<noteq> NUL \<and> c1 = c then (if d \<noteq> NUL \<and> r \<noteq> [] \<and> hd r = d then (acd, 3) else (ac, 2))
      else (a, 1))"

lemma choice1223_eq:
  assumes "drop (cur x) (src x) = c0 # rest"
  shows "choice1223 x a b ab c ac d acd =
    Some (case choice_of a b ab c ac d acd rest of (k, n) \<Rightarrow> make_lexeme_advance x k n)"
proof -
  have len: "lex_end x = cur x + 1 + length rest"
    using arg_cong [OF assms, of length] unfolding length_drop length_Cons by linarith
  have nth: "src x ! (cur x + i) = (c0 # rest) ! i" if "i \<le> length rest" for i
    using that nth_drop [of "cur x" "src x" i] len by (simp add: assms)
  show ?thesis
  proof (cases rest)
    case Nil
    with len show ?thesis by (simp add: choice1223_def)
  next
    case (Cons c1 r)
    have 1: "char_at x (cur x + 1) = Some c1" using nth [of 1] Cons len by (simp add: char_at_def)
    show ?thesis
    proof (cases r)
      case Nil
      with 1 Cons len show ?thesis by (simp add: choice1223_def)
    next
      case r: (Cons c2 r')
      have "char_at x (cur x + 2) = Some c2" using nth [of 2] Cons r len by (simp add: char_at_def)
      with 1 Cons r len show ?thesis by (auto simp: choice1223_def)
    qed
  qed
qed

lemma choice_of_bounds:
  "1 \<le> snd (choice_of a b ab c ac d acd rest)" "snd (choice_of a b ab c ac d acd rest) \<le> Suc (length rest)"
  by (cases rest; cases "tl rest"; simp)+

text \<open>Only the operators that begin with the character at hand matter.\<close>

definition ops_from :: "char \<Rightarrow> (lexeme_kind \<times> string) list" where
  "ops_from c = filter (\<lambda>(k, w). hd w = c) op_spellings"

lemma longest_op_from:
  assumes "1 \<le> n"
  shows "longest_op (c # t) k n \<longleftrightarrow>
    (k, take n (c # t)) \<in> set (ops_from c) \<and> (\<forall>(k', w) \<in> set (ops_from c). prefix w (c # t) \<longrightarrow> length w \<le> n)"
proof -
  have ne: "\<forall>p \<in> set op_spellings. snd p \<noteq> []" by (simp add: op_spellings_def)
  have hd: "hd (snd p) = c" if "p \<in> set op_spellings" "prefix (snd p) (c # t)" for p
    using that ne by (cases "snd p") auto
  have from_c: "p \<in> set (ops_from c) \<longleftrightarrow> p \<in> set op_spellings \<and> hd (snd p) = c" for p
    by (cases p) (simp add: ops_from_def)
  have hn: "hd (take n (c # t)) = c" using assms by (cases n) simp_all
  have "(k, take n (c # t)) \<in> set (ops_from c) \<longleftrightarrow> (k, take n (c # t)) \<in> set op_spellings"
    using from_c [of "(k, take n (c # t))"] hn by simp
  moreover have "(\<forall>p \<in> set (ops_from c). prefix (snd p) (c # t) \<longrightarrow> length (snd p) \<le> n) \<longleftrightarrow>
      (\<forall>p \<in> set op_spellings. prefix (snd p) (c # t) \<longrightarrow> length (snd p) \<le> n)"
    using from_c hd by blast
  ultimately show ?thesis
    unfolding longest_op_def split_beta by blast
qed

lemma ops_from_simps [simp]:
  "ops_from CHR ''!'' = [(LK_BANG, ''!''), (LK_BANG_EQ, ''!='')]"
  "ops_from CHR ''%'' = [(LK_PERCENT, ''%''), (LK_PERCENT_EQ, ''%='')]"
  "ops_from CHR ''&'' = [(LK_AND, ''&''), (LK_AND_AND, ''&&''), (LK_AND_AND_EQ, ''&&=''), (LK_AND_EQ, ''&='')]"
  "ops_from CHR ''|'' = [(LK_OR, ''|''), (LK_OR_EQ, ''|=''), (LK_OR_OR, ''||''), (LK_OR_OR_EQ, ''||='')]"
  "ops_from CHR ''*'' = [(LK_STAR, ''*''), (LK_STAR_EQ, ''*=''), (LK_STAR_STAR, ''**''), (LK_STAR_STAR_EQ, ''**='')]"
  "ops_from CHR ''+'' = [(LK_PLUS, ''+''), (LK_PLUS_EQ, ''+='')]"
  "ops_from CHR ''-'' = [(LK_MINUS, ''-''), (LK_MINUS_EQ, ''-=''), (LK_MINUS_GREATER, ''->'')]"
  "ops_from CHR ''/'' = [(LK_SLASH, ''/''), (LK_SLASH_EQ, ''/=''), (LK_SLASH_SLASH, ''//''), (LK_SLASH_SLASH_EQ, ''//='')]"
  "ops_from CHR '':'' = [(LK_COLON, '':''), (LK_COLON_EQ, '':='')]"
  "ops_from CHR ''<'' = [(LK_LESS, ''<''), (LK_LESS_EQ, ''<=''), (LK_LESS_LESS, ''<<''), (LK_LESS_LESS_EQ, ''<<='')]"
  "ops_from CHR ''='' = [(LK_EQ, ''=''), (LK_EQ_EQ, ''=='')]"
  "ops_from CHR ''>'' = [(LK_GREATER, ''>''), (LK_GREATER_EQ, ''>=''), (LK_GREATER_GREATER, ''>>''), (LK_GREATER_GREATER_EQ, ''>>='')]"
  "ops_from CHR ''^'' = [(LK_HAT, ''^''), (LK_HAT_EQ, ''^='')]"
  "ops_from CHR ''~'' = [(LK_TILDE, ''~''), (LK_TILDE_EQ, ''~='')]"
  "ops_from CHR ''('' = [(LK_LPAREN, ''('')]"
  "ops_from CHR '')'' = [(LK_RPAREN, '')'')]"
  "ops_from CHR '','' = [(LK_COMMA, '','')]"
  "ops_from CHR ''.'' = [(LK_DOT, ''.'')]"
  "ops_from CHR ''@'' = [(LK_AT, ''@'')]"
  "ops_from CHR '';'' = [(LK_SEMICOLON, '';'')]"
  "ops_from CHR ''['' = [(LK_LBRACKET, ''['')]"
  "ops_from CHR '']'' = [(LK_RBRACKET, '']'')]"
  "ops_from CHR ''{'' = [(LK_LBRACE, ''{'')]"
  "ops_from CHR ''}'' = [(LK_RBRACE, ''}'')]"
  by (simp_all add: ops_from_def op_spellings_def)

lemma longest_op_choice:
  "case_prod (longest_op (CHR ''!'' # r)) (choice_of LK_BANG EQ LK_BANG_EQ NUL LK_AND NUL LK_AND r)"
  "case_prod (longest_op (CHR ''%'' # r)) (choice_of LK_PERCENT EQ LK_PERCENT_EQ NUL LK_AND NUL LK_AND r)"
  "case_prod (longest_op (CHR ''&'' # r)) (choice_of LK_AND EQ LK_AND_EQ CHR ''&'' LK_AND_AND EQ LK_AND_AND_EQ r)"
  "case_prod (longest_op (CHR ''|'' # r)) (choice_of LK_OR EQ LK_OR_EQ CHR ''|'' LK_OR_OR EQ LK_OR_OR_EQ r)"
  "case_prod (longest_op (CHR ''*'' # r)) (choice_of LK_STAR EQ LK_STAR_EQ CHR ''*'' LK_STAR_STAR EQ LK_STAR_STAR_EQ r)"
  "case_prod (longest_op (CHR ''+'' # r)) (choice_of LK_PLUS EQ LK_PLUS_EQ NUL LK_AND NUL LK_AND r)"
  "case_prod (longest_op (CHR ''-'' # r)) (choice_of LK_MINUS EQ LK_MINUS_EQ CHR ''>'' LK_MINUS_GREATER NUL LK_AND r)"
  "case_prod (longest_op (CHR ''/'' # r)) (choice_of LK_SLASH EQ LK_SLASH_EQ CHR ''/'' LK_SLASH_SLASH EQ LK_SLASH_SLASH_EQ r)"
  "case_prod (longest_op (CHR '':'' # r)) (choice_of LK_COLON EQ LK_COLON_EQ NUL LK_AND NUL LK_AND r)"
  "case_prod (longest_op (CHR ''<'' # r)) (choice_of LK_LESS EQ LK_LESS_EQ CHR ''<'' LK_LESS_LESS EQ LK_LESS_LESS_EQ r)"
  "case_prod (longest_op (CHR ''='' # r)) (choice_of LK_EQ EQ LK_EQ_EQ NUL LK_AND NUL LK_AND r)"
  "case_prod (longest_op (CHR ''>'' # r)) (choice_of LK_GREATER EQ LK_GREATER_EQ CHR ''>'' LK_GREATER_GREATER EQ LK_GREATER_GREATER_EQ r)"
  "case_prod (longest_op (CHR ''^'' # r)) (choice_of LK_HAT EQ LK_HAT_EQ NUL LK_AND NUL LK_AND r)"
  "case_prod (longest_op (CHR ''~'' # r)) (choice_of LK_TILDE EQ LK_TILDE_EQ NUL LK_AND NUL LK_AND r)"
  by (cases r; cases "tl r"; simp add: longest_op_from)+

lemma longest_op_single:
  "longest_op (CHR ''('' # r) LK_LPAREN 1"
  "longest_op (CHR '')'' # r) LK_RPAREN 1"
  "longest_op (CHR '','' # r) LK_COMMA 1"
  "longest_op (CHR ''.'' # r) LK_DOT 1"
  "longest_op (CHR ''@'' # r) LK_AT 1"
  "longest_op (CHR '';'' # r) LK_SEMICOLON 1"
  "longest_op (CHR ''['' # r) LK_LBRACKET 1"
  "longest_op (CHR '']'' # r) LK_RBRACKET 1"
  "longest_op (CHR ''{'' # r) LK_LBRACE 1"
  "longest_op (CHR ''}'' # r) LK_RBRACE 1"
  by (simp_all add: longest_op_from)

section \<open>Lines and the invariant\<close>

definition lineno :: "string \<Rightarrow> nat \<Rightarrow> nat" where
  "lineno s i = 1 + count_list (take i s) nl"

definition linestart :: "string \<Rightarrow> nat \<Rightarrow> nat" where
  "linestart s i = i - length (takeWhile (\<lambda>c. c \<noteq> nl) (rev (take i s)))"

text \<open>A source with a backslash right before the end of a line.\<close>

definition bs_nl :: "string \<Rightarrow> bool" where
  "bs_nl s \<longleftrightarrow> (\<exists>p q. s = p @ CHR 0x5C # nl # q)"

definition stack_ok :: "lexer \<Rightarrow> bool" where
  "stack_ok x \<longleftrightarrow> (let s = level_stack x in
     length (ls_data s) \<le> ls_capacity s \<and> length (ls_data s) \<le> cur x \<and>
     (ls_is_expr_context s \<longleftrightarrow> ls_data s \<noteq> [] \<and> last (ls_data s) = LEVEL_EXPR))"

definition lines_ok :: "lexer \<Rightarrow> bool" where
  "lines_ok x \<longleftrightarrow> (\<not> bs_nl (src x) \<longrightarrow>
     line_num x = lineno (src x) (cur x) \<and> line_start x = linestart (src x) (cur x))"

definition lex_inv :: "lexer \<Rightarrow> bool" where
  "lex_inv x \<longleftrightarrow> cur x \<le> lex_end x \<and> 2 * lex_end x \<le> SIZE_MAX \<and> keywords_ok (keywords_ht x) \<and> stack_ok x \<and> lines_ok x"

definition pos_ok :: "string \<Rightarrow> lexeme \<Rightarrow> bool" where
  "pos_ok s l \<longleftrightarrow> (\<not> bs_nl s \<longrightarrow>
     lk_pos l = \<lparr>line = lineno s (lk_start l), column = lk_start l - linestart s (lk_start l) + 1\<rparr>)"

definition step_ok :: "lexer \<Rightarrow> lexeme \<Rightarrow> lexer \<Rightarrow> bool" where
  "step_ok x l x' \<longleftrightarrow> lex_inv x' \<and> src x' = src x \<and> cur x \<le> lk_start l \<and> lk_start l + lk_size l = cur x' \<and>
     lexeme_ok (src x) l \<and> pos_ok (src x) l"

text \<open>Every call but the one at the end gets nearer to it, or inserts a semicolon.\<close>

definition lex_measure :: "lexer \<Rightarrow> nat" where
  "lex_measure x = 2 * (lex_end x - cur x) + (if inserted_semicolon_flag x then 0 else 1)"

text \<open>
  Where a lexeme comes from: it starts at \<open>k\<close>, except that an error stands for a character that begins
  no lexeme or, at the end of what was read, for a string that is not closed on its line.
\<close>

definition starts_lexeme :: "char \<Rightarrow> bool" where
  "starts_lexeme c \<longleftrightarrow> is_digit c \<or> is_ident_start c \<or> c = CHR 0x22 \<or> (\<exists>(k, w) \<in> set op_spellings. hd w = c)"

definition unclosed :: "string \<Rightarrow> bool" where
  "unclosed s \<longleftrightarrow> \<not> (\<exists>body r. s = body @ CHR 0x22 # r \<and> string_body body)"

definition error_ok :: "string \<Rightarrow> nat \<Rightarrow> lexeme \<Rightarrow> bool" where
  "error_ok s k l \<longleftrightarrow> (case drop k s of
     [] \<Rightarrow> False
   | c # rest \<Rightarrow>
       if c = CHR 0x22 then unclosed rest \<and> lk_size l = 0 \<and>
         (drop (lk_start l) s = [] \<or> hd (drop (lk_start l) s) = nl)
       else \<not> starts_lexeme c \<and> lk_start l = k \<and> lk_size l = 1)"

definition comes_from :: "string \<Rightarrow> nat \<Rightarrow> lexeme \<Rightarrow> bool" where
  "comes_from s k l \<longleftrightarrow> (if lk_kind l = LK_ERROR then error_ok s k l else lk_start l = k)"

abbreviation good_token :: "lexer \<Rightarrow> lexeme \<times> lexer \<Rightarrow> bool" where
  "good_token x \<equiv> (\<lambda>(l, x'). step_ok x l x' \<and> lex_measure x' < lex_measure x \<and> lk_kind l \<noteq> LK_EOF \<and>
     comes_from (src x) (cur x) l \<and> (lk_kind l = LK_ERROR \<longrightarrow> err_msg x' \<noteq> None))"

lemma lines_advance:
  assumes "nl \<notin> set (take n (drop i s))" and "i + n \<le> length s"
  shows "lineno s (i + n) = lineno s i" and "linestart s (i + n) = linestart s i"
proof -
  let ?t = "take n (drop i s)"
  have t: "take (i + n) s = take i s @ ?t" by (rule take_add)
  have c: "count_list ?t nl = 0" using assms(1) by (simp add: count_list_0_iff)
  show "lineno s (i + n) = lineno s i" by (simp add: lineno_def t c)
  have all: "\<forall>c\<in>set (rev ?t). c \<noteq> nl" using assms(1) by auto
  have "takeWhile (\<lambda>c. c \<noteq> nl) (rev (take (i + n) s)) = rev ?t @ takeWhile (\<lambda>c. c \<noteq> nl) (rev (take i s))"
    unfolding t rev_append by (rule takeWhile_append2) (use all in blast)
  moreover have "length (rev ?t) = n" using assms(2) by simp
  ultimately show "linestart s (i + n) = linestart s i" unfolding linestart_def by simp
qed

lemma lines_newline:
  assumes "i < length s" and "s ! i = nl"
  shows "lineno s (i + 1) = lineno s i + 1" and "linestart s (i + 1) = i + 1"
  using assms by (simp_all add: lineno_def linestart_def take_Suc_conv_app_nth)

text \<open>A token: a non-empty piece of one line, with the lexeme made after \<open>cur\<close> has advanced over it.\<close>

lemma step_okI:
  assumes inv: "lex_inv x" and t: "drop (cur x) (src x) = t @ r" "t \<noteq> []" "\<not> bs_nl (src x) \<Longrightarrow> nl \<notin> set t"
    and x': "src x' = src x" "cur x' = cur x + length t" "line_num x' = line_num x" "line_start x' = line_start x"
      "keywords_ht x' = keywords_ht x" "stack_ok x'"
    and l: "l = make_lexeme x' k st" "st = cur x \<or> st = cur x'"
    and ok: "lexeme_ok (src x) \<lparr>lk_kind = k, lk_start = st, lk_size = cur x' - st, lk_pos = lk_pos l\<rparr>"
  shows "step_ok x l x' \<and> lex_measure x' < lex_measure x"
proof -
  have len: "cur x + length t \<le> lex_end x"
    using arg_cong [OF t(1), of length] inv unfolding length_drop length_append lex_inv_def by linarith
  have tt: "t = take (length t) (drop (cur x) (src x))" by (simp add: t(1))
  have lines: "lines_ok x'"
  proof -
    have "lineno (src x) (cur x + length t) = lineno (src x) (cur x)"
      "linestart (src x) (cur x + length t) = linestart (src x) (cur x)" if "\<not> bs_nl (src x)"
      using lines_advance [of "length t" "cur x" "src x"] t(3) [OF that] tt len by simp_all
    then show ?thesis using inv x' by (simp add: lex_inv_def lines_ok_def)
  qed
  have "lex_inv x'"
    using inv x' len lines by (simp add: lex_inv_def)
  moreover have "pos_ok (src x) l"
  proof -
    have "lineno (src x) st = line_num x" "linestart (src x) st = line_start x" if "\<not> bs_nl (src x)"
      using inv lines l(2) x' that by (auto simp: lex_inv_def lines_ok_def)
    then show ?thesis by (simp add: pos_ok_def l(1) make_lexeme_def x')
  qed
  moreover have "lex_measure x' < lex_measure x"
  proof -
    have "0 < length t" using t(2) by simp
    moreover have "(if inserted_semicolon_flag x' then 0 else 1) \<le> (1 :: nat)" by simp
    ultimately show ?thesis using len unfolding lex_measure_def x' by linarith
  qed
  moreover have "l = \<lparr>lk_kind = k, lk_start = st, lk_size = cur x' - st, lk_pos = lk_pos l\<rparr>"
    by (simp add: l(1) make_lexeme_def)
  then have "lexeme_ok (src x) l" using ok by metis
  moreover have "cur x \<le> lk_start l" "lk_start l + lk_size l = cur x'"
    using l x'(2) by (auto simp: make_lexeme_def)
  ultimately show ?thesis using x'(1) by (simp add: step_ok_def)
qed

lemma op_spellings_facts:
  assumes "(k, w) \<in> set op_spellings"
  shows "w \<noteq> []" and "\<not> is_ident_start (hd w)" and "nl \<notin> set w"
    and "k \<noteq> LK_ERROR" and "k \<noteq> LK_EOF" and "k \<noteq> LK_NUMBER" and "k \<noteq> LK_STRING"
proof -
  have "\<forall>(k, w) \<in> set op_spellings. w \<noteq> [] \<and> \<not> is_ident_start (hd w) \<and> nl \<notin> set w \<and>
      k \<noteq> LK_ERROR \<and> k \<noteq> LK_EOF \<and> k \<noteq> LK_NUMBER \<and> k \<noteq> LK_STRING"
    by (simp add: op_spellings_def is_ident_start_def)
  then show "w \<noteq> []" "\<not> is_ident_start (hd w)" "nl \<notin> set w" "k \<noteq> LK_ERROR" "k \<noteq> LK_EOF" "k \<noteq> LK_NUMBER" "k \<noteq> LK_STRING"
    using assms by blast+
qed

lemma step_ok_op:
  assumes inv: "lex_inv x" and d: "drop (cur x) (src x) = c # rest"
    and op: "longest_op (c # rest) k n" "1 \<le> n" "n \<le> Suc (length rest)"
    and x': "x' = x\<lparr>inserted_semicolon_flag := f, level_stack := s, cur := cur x + n\<rparr>" and st: "stack_ok x'"
  shows "step_ok x (make_lexeme x' k (cur x)) x' \<and> lex_measure x' < lex_measure x"
proof -
  let ?t = "take n (c # rest)" and ?r = "drop n (c # rest)"
  have t: "(k, ?t) \<in> set op_spellings" using op(1) by (simp add: longest_op_def)
  note facts = op_spellings_facts [OF t]
  have len: "length ?t = n" using op(3) by simp
  have dn: "take n (drop (cur x) (src x)) = ?t" "drop (cur x + n) (src x) = ?r"
    using d by (simp_all add: add.commute flip: drop_drop)
  show ?thesis
  proof (rule step_okI [OF inv, of ?t ?r])
    show "drop (cur x) (src x) = ?t @ ?r" using d by simp
    show "cur x' = cur x + length ?t" using len x' by simp
    show "lexeme_ok (src x) \<lparr>lk_kind = k, lk_start = cur x, lk_size = cur x' - cur x, lk_pos = lk_pos (make_lexeme x' k (cur x))\<rparr>"
      using facts op len dn by (simp add: lexeme_ok_def x' Let_def longest_op_def)
  qed (use facts x' st in simp_all)
qed

section \<open>Numbers, strings and words\<close>

lemma is_digit_facts:
  assumes "is_digit c"
  shows "decode c < 10" and "c \<noteq> CHR ''.''" and "c \<noteq> CHR 0x27" and "c \<noteq> CHR ''-''" and "c \<noteq> nl" and "\<not> is_ident_start c"
  using assms by (auto simp: is_digit_def decode_def Let_def is_ident_start_def)

lemma number_tail_valid: "validate_loop 10 (number_tail d s) d True"
proof (induction d s rule: number_tail.induct)
  case (2 d c s)
  then show ?case using is_digit_facts [of c] by auto
qed simp

lemma number_tail_chars: "nl \<notin> set (number_tail d s)"
proof (induction d s rule: number_tail.induct)
  case (2 d c s)
  then show ?case using is_digit_facts(5) [of c] by auto
qed simp

lemma drop_split:
  assumes "drop i s = t @ r"
  shows "take (length t) (drop i s) = t" and "drop (i + length t) s = r"
proof -
  show "take (length t) (drop i s) = t" by (simp add: assms)
  have "drop (i + length t) s = drop (length t) (drop i s)" by (simp add: add.commute)
  then show "drop (i + length t) s = r" by (simp add: assms)
qed

lemma number_tail_rest:
  "s = number_tail d s @ r \<Longrightarrow>
   r = [] \<or> \<not> is_digit (hd r) \<and> hd r \<noteq> CHR 0x27 \<and> (hd r = CHR ''.'' \<longrightarrow> d \<or> CHR ''.'' \<in> set (number_tail d s))"
  by (induction d s rule: number_tail.induct) (auto split: if_splits)

lemma lex_number_yields:
  assumes inv: "lex_inv x" and d: "drop (cur x) (src x) = c # rest" and c: "is_digit c"
  shows "yields (lex_number x) (good_token x)"
proof -
  let ?t = "c # number_tail False rest"
  obtain r where r: "rest = number_tail False rest @ r" using number_tail_prefix by blast
  have i: "cur x < lex_end x" using d by (metis drop_all list.distinct(1) not_le)
  have d1: "drop (cur x + 1) (src x) = rest" using d by (metis Suc_eq_plus1 drop_Suc list.sel(3) tl_drop)
  let ?x = "x\<lparr>cur := cur x + length ?t\<rparr>"
  have run: "lex_number x = Some (make_lexeme ?x LK_NUMBER (cur x), ?x)"
    using scan_number_eq [OF i, of False] by (simp add: lex_number_def d1 [unfolded Suc_eq_plus1 [symmetric]] Let_def)
  have tr: "drop (cur x) (src x) = ?t @ r" using d r by simp
  note tr' = drop_split [OF tr]
  note f = is_digit_facts [OF c]
  have "number_ok ?t r"
    using f number_tail_valid [of False rest] number_tail_rest [OF r]
    by (auto simp: number_ok_def number_parse_base_validate_def)
  then have ok: "lexeme_ok (src x) \<lparr>lk_kind = LK_NUMBER, lk_start = cur x, lk_size = cur ?x - cur x, lk_pos = p\<rparr>" for p
    using c tr' by (simp add: lexeme_ok_def Let_def)
  have "step_ok x (make_lexeme ?x LK_NUMBER (cur x)) ?x \<and> lex_measure ?x < lex_measure x"
    by (rule step_okI [OF inv tr _ _ _ _ _ _ _ _ refl _ ok])
      (use f inv number_tail_chars [of False rest] in \<open>auto simp: lex_inv_def stack_ok_def Let_def\<close>)
  then show ?thesis by (simp add: run make_lexeme_def comes_from_def)
qed

lemma string_tail_newline:
  "nl \<in> set (take (snd (string_tail s)) s) \<Longrightarrow> \<exists>p q. s = p @ CHR 0x5C # nl # q"
proof (induction s rule: string_tail.induct)
  case (2 c s)
  show ?case
  proof (cases "c = CHR 0x5C")
    case True
    show ?thesis
    proof (cases s)
      case (Cons e t)
      show ?thesis
      proof (cases "e = nl")
        case True
        with Cons \<open>c = _\<close> show ?thesis by (intro exI [of _ "[]"] exI [of _ t]) simp
      next
        case False
        with 2 True Cons obtain p q where "t = p @ CHR 0x5C # nl # q"
          by (auto simp: split_beta)
        with Cons True show ?thesis by (intro exI [of _ "c # e # p"] exI [of _ q]) simp
      qed
    qed (use 2 True in simp)
  next
    case False
    with 2 have "nl \<in> set (take (snd (string_tail s)) s)" "c \<noteq> CHR 0x22" "c \<noteq> nl"
      by (auto simp: split_beta split: if_splits)
    with 2 False obtain p q where "s = p @ CHR 0x5C # nl # q" by blast
    then show ?thesis by (intro exI [of _ "c # p"] exI [of _ q]) simp
  qed
qed simp

lemma string_tail_body:
  "fst (string_tail s) = None \<Longrightarrow> \<exists>body. take (snd (string_tail s)) s = body @ [CHR 0x22] \<and> string_body body"
proof (induction s rule: string_tail.induct)
  case (2 c s)
  show ?case
  proof (cases "c = CHR 0x5C")
    case True
    with 2(3) obtain e t where s: "s = e # t" by (cases s) auto
    with 2 True obtain body where "take (snd (string_tail t)) t = body @ [CHR 0x22]" "string_body body"
      by (auto simp: split_beta)
    with s True show ?thesis by (intro exI [of _ "c # e # body"]) (simp add: split_beta)
  next
    case False
    show ?thesis
    proof (cases "c = CHR 0x22")
      case True
      then show ?thesis by (intro exI [of _ "[]"]) simp
    next
      case q: False
      with 2 False obtain body where "take (snd (string_tail s)) s = body @ [CHR 0x22]" "string_body body" "c \<noteq> nl"
        by (auto simp: split_beta split: if_splits)
      with False q show ?thesis by (intro exI [of _ "c # body"]) (simp add: split_beta)
    qed
  qed
qed simp

lemma string_tail_unclosed:
  "fst (string_tail s) \<noteq> None \<Longrightarrow>
   unclosed s \<and> (drop (snd (string_tail s)) s = [] \<or> hd (drop (snd (string_tail s)) s) = nl)"
proof (induction s rule: string_tail.induct)
  case (2 c s)
  show ?case
  proof (cases "c = CHR 0x5C")
    case True
    show ?thesis
    proof (cases s)
      case Nil
      with True show ?thesis by (auto simp: unclosed_def Cons_eq_append_conv)
    next
      case (Cons e t)
      with 2 True have "unclosed t" "drop (snd (string_tail t)) t = [] \<or> hd (drop (snd (string_tail t)) t) = nl"
        by (auto simp: split_beta)
      with Cons True show ?thesis
        by (auto simp: unclosed_def Cons_eq_append_conv split_beta)
    qed
  next
    case False
    with 2 show ?thesis
      by (auto simp: unclosed_def Cons_eq_append_conv split_beta split: if_splits)
  qed
qed (simp add: unclosed_def)

lemma lex_string_yields:
  assumes inv: "lex_inv x" and d: "drop (cur x) (src x) = CHR 0x22 # rest"
  shows "yields (lex_string x) (good_token x)"
proof -
  let ?n = "snd (string_tail rest)"
  let ?t = "CHR 0x22 # take ?n rest" and ?r = "drop ?n rest"
  have i: "cur x < lex_end x" using d by (metis drop_all list.distinct(1) not_le)
  have d1: "drop (Suc (cur x)) (src x) = rest" using d by (metis drop_Suc list.sel(3) tl_drop)
  have len: "length ?t = Suc ?n" using string_tail_le [of rest] by simp
  have tr: "drop (cur x) (src x) = ?t @ ?r" using d by simp
  note tr' = drop_split [OF tr]
  have nl: "nl \<notin> set ?t" if "\<not> bs_nl (src x)"
  proof
    assume "nl \<in> set ?t"
    then have "nl \<in> set (take ?n rest)" by simp
    then obtain p q where "rest = p @ CHR 0x5C # nl # q" using string_tail_newline by blast
    then have "src x = (take (cur x) (src x) @ CHR 0x22 # p) @ CHR 0x5C # nl # q"
      using d append_take_drop_id [of "cur x" "src x"] by simp
    with that show False unfolding bs_nl_def by blast
  qed
  show ?thesis
  proof (cases "fst (string_tail rest)")
    case None
    let ?x = "x\<lparr>cur := cur x + length ?t\<rparr>"
    have run: "lex_string x = Some (make_lexeme ?x LK_STRING (cur x), ?x)"
      using scan_string_eq [OF i] None len by (simp add: lex_string_def d1 Let_def)
    obtain body where b: "take ?n rest = body @ [CHR 0x22]" "string_body body" using string_tail_body [OF None] by blast
    have ok: "lexeme_ok (src x) \<lparr>lk_kind = LK_STRING, lk_start = cur x, lk_size = cur ?x - cur x, lk_pos = p\<rparr>" for p
      using tr' len b by (simp add: lexeme_ok_def Let_def)
    have "step_ok x (make_lexeme ?x LK_STRING (cur x)) ?x \<and> lex_measure ?x < lex_measure x"
      by (rule step_okI [OF inv tr _ nl _ _ _ _ _ _ refl _ ok]) (use inv in \<open>auto simp: lex_inv_def stack_ok_def Let_def\<close>)
    then show ?thesis by (simp add: run make_lexeme_def comes_from_def)
  next
    case (Some m)
    let ?x = "x\<lparr>err_msg := Some m, cur := cur x + length ?t\<rparr>"
    have run: "lex_string x = Some (make_lexeme ?x LK_ERROR (cur ?x), ?x)"
      using scan_string_eq [OF i] Some len
      by (simp add: lex_string_def d1 Let_def make_error_advance_def make_lexeme_advance_def)
    have ok: "lexeme_ok (src x) \<lparr>lk_kind = LK_ERROR, lk_start = cur ?x, lk_size = cur ?x - cur ?x, lk_pos = p\<rparr>" for p
      by (simp add: lexeme_ok_def)
    have "step_ok x (make_lexeme ?x LK_ERROR (cur ?x)) ?x \<and> lex_measure ?x < lex_measure x"
      by (rule step_okI [OF inv tr _ nl _ _ _ _ _ _ refl _ ok]) (use inv in \<open>auto simp: lex_inv_def stack_ok_def Let_def\<close>)
    moreover have "error_ok (src x) (cur x) (make_lexeme ?x LK_ERROR (cur ?x))"
      using string_tail_unclosed [of rest] Some d tr'(2) by (simp add: error_ok_def make_lexeme_def)
    ultimately show ?thesis by (simp add: run make_lexeme_def comes_from_def)
  qed
qed

lemma ident_char_facts:
  assumes "ident_char c"
  shows "c \<noteq> nl"
  using assms by (auto simp: ident_char_def is_digit_def is_ident_start_def)

lemma lex_identifier_yields:
  assumes inv: "lex_inv x" and d: "drop (cur x) (src x) = c # rest" and c: "is_ident_start c"
  shows "yields (lex_identifier x) (good_token x)"
proof -
  let ?t = "c # takeWhile ident_char rest" and ?r = "dropWhile ident_char rest"
  have i: "cur x < lex_end x" using d by (metis drop_all list.distinct(1) not_le)
  have d1: "drop (Suc (cur x)) (src x) = rest" using d by (metis drop_Suc list.sel(3) tl_drop)
  have tr: "drop (cur x) (src x) = ?t @ ?r" using d by simp
  note tr' = drop_split [OF tr]
  obtain k b where kb: "(case map_of keyword_list ?t of Some kb \<Rightarrow> kb | None \<Rightarrow> (LK_IDENT, False)) = (k, b)"
    by (cases "case map_of keyword_list ?t of Some kb \<Rightarrow> kb | None \<Rightarrow> (LK_IDENT, False)")
  have kok: "xht_inv (keywords_ht x)" "xht_map (keywords_ht x) ?t = map_option keyword_value (map_of keyword_list ?t)"
    using inv by (simp_all add: lex_inv_def keywords_ok_def)
  have get: "xht_get (keywords_ht x) ?t (hash_str ?t) (kind_code LK_IDENT) = Some (keyword_value (k, b))"
    using xht_get_eq [OF kok(1), of ?t] kok(2) kb by (auto simp: keyword_value_def split: option.splits)
  let ?s = "if b then level_stack_set_blocky (level_stack x) else level_stack x"
  let ?x = "x\<lparr>cur := cur x + length ?t, level_stack := ?s\<rparr>"
  have run: "lex_identifier x = Some (make_lexeme ?x k (cur x), ?x)"
    using scan_identifier_eq [OF i] get keyword_value_parts [of k b] tr'(1)
    by (cases b) (simp_all add: lex_identifier_def d1 Let_def, (simp add: keyword_value_def)?)
  have kind: "k = (case map_of keyword_list ?t of Some (k, _) \<Rightarrow> k | None \<Rightarrow> LK_IDENT)"
    using kb by (auto split: option.splits)
  have k: "k \<noteq> LK_ERROR \<and> k \<noteq> LK_EOF \<and> k \<noteq> LK_NUMBER \<and> k \<noteq> LK_STRING"
  proof -
    have "map_of keyword_list ?t = Some (k, b) \<or> k = LK_IDENT" using kb by (auto split: option.splits)
    then have "(?t, k, b) \<in> set keyword_list \<or> k = LK_IDENT" by (auto dest: map_of_SomeD)
    then show ?thesis by (auto simp: keyword_list_def)
  qed
  have "word_ok k ?t ?r"
    using c kind hd_dropWhile [of ident_char rest]
    by (auto simp: word_ok_def ident_char_def dest: set_takeWhileD simp del: map_of.simps)
  then have ok: "lexeme_ok (src x) \<lparr>lk_kind = k, lk_start = cur x, lk_size = cur ?x - cur x, lk_pos = p\<rparr>" for p
    using c tr' k by (simp add: lexeme_ok_def Let_def)
  have "c \<noteq> nl" using c by (auto simp: is_ident_start_def)
  then have nl: "nl \<notin> set ?t"
    using ident_char_facts by (auto dest: set_takeWhileD)
  have "step_ok x (make_lexeme ?x k (cur x)) ?x \<and> lex_measure ?x < lex_measure x"
    by (rule step_okI [OF inv tr _ nl _ _ _ _ _ _ refl _ ok])
      (use inv in \<open>auto simp: lex_inv_def stack_ok_def Let_def level_stack_set_blocky_def\<close>)
  then show ?thesis using k by (simp add: run make_lexeme_def comes_from_def)
qed

section \<open>Operators and brackets\<close>

lemma stack_ok_flag [simp]: "stack_ok (x\<lparr>inserted_semicolon_flag := f\<rparr>) = stack_ok x"
  by (simp add: stack_ok_def)

lemma insert_semicolon_cases:
  "insert_semicolon x = (True, x\<lparr>inserted_semicolon_flag := True\<rparr>) \<and> \<not> inserted_semicolon_flag x \<or>
   (\<exists>f. insert_semicolon x = (False, x\<lparr>inserted_semicolon_flag := f\<rparr>))"
  by (cases x) (auto simp: insert_semicolon_def)

lemma good_tokenI:
  assumes "step_ok x (make_lexeme x' k (cur x)) x' \<and> lex_measure x' < lex_measure x" and "k \<noteq> LK_ERROR" and "k \<noteq> LK_EOF"
  shows "good_token x (make_lexeme x' k (cur x), x')"
  using assms by (simp add: make_lexeme_def comes_from_def)

lemma op_good:
  assumes inv: "lex_inv x" and d: "drop (cur x) (src x) = c # rest"
    and op: "longest_op (c # rest) k n" "1 \<le> n" "n \<le> Suc (length rest)"
    and y: "y = x\<lparr>inserted_semicolon_flag := f, level_stack := s\<rparr>" and st: "stack_ok (y\<lparr>cur := cur x + n\<rparr>)"
  shows "good_token x (make_lexeme_advance y k n)"
proof -
  let ?x = "y\<lparr>cur := cur x + n\<rparr>"
  have "(k, take n (c # rest)) \<in> set op_spellings" using op(1) by (simp add: longest_op_def)
  note k = op_spellings_facts(4,5) [OF this]
  have "make_lexeme_advance y k n = (make_lexeme ?x k (cur x), ?x)"
    by (simp add: make_lexeme_advance_def Let_def y)
  moreover have "?x = x\<lparr>inserted_semicolon_flag := f, level_stack := s, cur := cur x + n\<rparr>" by (simp add: y)
  ultimately show ?thesis
    using good_tokenI [OF step_ok_op [OF inv d op _ st] k] by simp
qed

lemma lexer_unchanged: "x = x\<lparr>inserted_semicolon_flag := inserted_semicolon_flag x, level_stack := level_stack x\<rparr>"
  by simp

lemma stack_ok_advance: "stack_ok x \<Longrightarrow> stack_ok (x\<lparr>cur := cur x + n\<rparr>)"
  by (auto simp: stack_ok_def Let_def)

lemma single_good:
  assumes inv: "lex_inv x" and d: "drop (cur x) (src x) = c # rest" and c: "c = c0" and op: "longest_op (c0 # rest) k 1"
  shows "good_token x (make_lexeme_advance x k 1)"
  using op c inv stack_ok_advance [of x 1]
  by (intro op_good [OF inv d _ _ _ lexer_unchanged]) (simp_all add: lex_inv_def)

lemma choice_good:
  assumes inv: "lex_inv x" and d: "drop (cur x) (src x) = c # rest" and c: "c = c0"
    and op: "case_prod (longest_op (c0 # rest)) (choice_of a b ab c' ac d' acd rest)"
  shows "yields (choice1223 x a b ab c' ac d' acd) (good_token x)"
proof -
  obtain k n where kn: "choice_of a b ab c' ac d' acd rest = (k, n)" by fastforce
  have "1 \<le> n" "n \<le> Suc (length rest)"
    using choice_of_bounds [where a = a and b = b and ab = ab and c = c' and ac = ac and d = d' and acd = acd and rest = rest]
    by (simp_all add: kn)
  then have "good_token x (make_lexeme_advance x k n)"
    using op c inv stack_ok_advance [of x n]
    by (intro op_good [OF inv d _ _ _ lexer_unchanged]) (simp_all add: kn lex_inv_def)
  then show ?thesis unfolding choice1223_eq [OF d] by (simp add: kn)
qed

lemma level_stack_push_yields:
  assumes "length (ls_data s) \<le> ls_capacity s" and "2 * length (ls_data s) + 1 \<le> SIZE_MAX"
  shows "yields (level_stack_push s l) (\<lambda>s'. ls_data s' = ls_data s @ [l] \<and> length (ls_data s') \<le> ls_capacity s' \<and>
    ls_is_expr_context s' = (l = LEVEL_EXPR))"
proof -
  have "yields (if length (ls_data s) = ls_capacity s
            then do { c \<leftarrow> uu_x2realloc (ls_capacity s) 1; Some (s\<lparr>ls_capacity := c\<rparr>) } else Some s)
      (\<lambda>s'. ls_data s' = ls_data s \<and> length (ls_data s) < ls_capacity s')"
  proof (cases "length (ls_data s) = ls_capacity s")
    case True
    have "yields (uu_x2realloc (ls_capacity s) 1) (\<lambda>n'. n' = max 1 (2 * ls_capacity s))"
      by (rule yields_uu_x2realloc) (use assms(2) True in \<open>auto simp: SIZE_MAX_def\<close>)
    then have "uu_x2realloc (ls_capacity s) 1 = Some (max 1 (2 * ls_capacity s))" by (auto simp: yields_iff_ex)
    then show ?thesis using True by (simp add: max_def)
  qed (use assms(1) in simp)
  then show ?thesis
    unfolding level_stack_push_def by (rule yields_bindI) simp
qed

lemma open_good:
  assumes inv: "lex_inv x" and d: "drop (cur x) (src x) = c # rest" and c: "c = c0" and op: "longest_op (c0 # rest) k 1"
    and push: "push = level_stack_push s l" "ls_data s = ls_data (level_stack x)" "ls_capacity s = ls_capacity (level_stack x)"
  shows "yields (lex_open x push k) (good_token x)"
proof -
  have "cur x < lex_end x" using d by (metis drop_all list.distinct(1) not_le)
  then have "length (ls_data s) \<le> ls_capacity s" "2 * length (ls_data s) + 1 \<le> SIZE_MAX" "length (ls_data s) \<le> cur x"
    using inv push by (auto simp: lex_inv_def stack_ok_def Let_def)
  note le = this
  show ?thesis
    unfolding lex_open_def
  proof (rule yields_bindI [OF level_stack_push_yields [OF le(1,2), of l, folded push(1)]])
    fix s' :: level_stack
    assume s': "ls_data s' = ls_data s @ [l] \<and> length (ls_data s') \<le> ls_capacity s' \<and> ls_is_expr_context s' = (l = LEVEL_EXPR)"
    have st: "stack_ok (x\<lparr>level_stack := s', cur := cur x + 1\<rparr>)"
      using s' le(3) by (auto simp: stack_ok_def Let_def)
    have "good_token x (make_lexeme_advance (x\<lparr>level_stack := s'\<rparr>) k 1)"
      by (rule op_good [OF inv d _ _ _ _ st, where s = s' and f = "inserted_semicolon_flag x"]) (use op c in simp_all)
    then show "yields (Some (make_lexeme_advance (x\<lparr>level_stack := s'\<rparr>) k 1)) (good_token x)" by simp
  qed
qed

lemma close_good:
  assumes inv: "lex_inv x" and d: "drop (cur x) (src x) = c # rest" and c: "c = c0" and op: "longest_op (c0 # rest) k 1"
  shows "good_token x (lex_close (x\<lparr>inserted_semicolon_flag := f\<rparr>) k)"
proof -
  have "stack_ok (x\<lparr>inserted_semicolon_flag := f, level_stack := level_stack_pop (level_stack x), cur := cur x + 1\<rparr>)"
    using inv by (auto simp: lex_inv_def stack_ok_def Let_def level_stack_pop_def)
  then show ?thesis
    unfolding lex_close_def by (intro op_good [OF inv d]) (use op c in simp_all)
qed

text \<open>A semicolon of no characters, put in at the end, at a newline or at a closing brace.\<close>

lemma fake_good:
  assumes inv: "lex_inv x" and f: "\<not> inserted_semicolon_flag x"
    and at: "drop (cur x) (src x) = [] \<or> hd (drop (cur x) (src x)) = nl \<or> hd (drop (cur x) (src x)) = CHR ''}''"
  shows "good_token x (fake_semicolon (x\<lparr>inserted_semicolon_flag := True\<rparr>))"
proof -
  let ?x = "x\<lparr>inserted_semicolon_flag := True\<rparr>"
  have e: "fake_semicolon ?x = (make_lexeme ?x LK_SEMICOLON (cur x), ?x)"
    by (cases x) (simp add: fake_semicolon_def make_lexeme_advance_def Let_def)
  have "lex_inv ?x" using inv by (simp add: lex_inv_def lines_ok_def)
  moreover have "lexeme_ok (src x) (make_lexeme ?x LK_SEMICOLON (cur x))"
    using at by (simp add: lexeme_ok_def make_lexeme_def)
  moreover have "pos_ok (src x) (make_lexeme ?x LK_SEMICOLON (cur x))"
    using inv by (simp add: pos_ok_def make_lexeme_def lex_inv_def lines_ok_def)
  ultimately have "step_ok x (make_lexeme ?x LK_SEMICOLON (cur x)) ?x"
    by (simp add: step_ok_def make_lexeme_def)
  then show ?thesis
    unfolding e by (intro good_tokenI conjI) (use f in \<open>simp_all add: lex_measure_def\<close>)
qed

lemma unexpected_good:
  assumes inv: "lex_inv x" and d: "drop (cur x) (src x) = c # rest" and c: "\<not> starts_lexeme c" "c \<noteq> nl"
  shows "good_token x (make_error_advance x msg 1)"
proof -
  let ?x = "x\<lparr>err_msg := Some msg, cur := cur x + 1\<rparr>"
  have e: "make_error_advance x msg 1 = (make_lexeme ?x LK_ERROR (cur x), ?x)"
    by (simp add: make_error_advance_def make_lexeme_advance_def Let_def)
  have "step_ok x (make_lexeme ?x LK_ERROR (cur x)) ?x \<and> lex_measure ?x < lex_measure x"
    by (rule step_okI [OF inv, of "[c]" rest])
      (use d c inv in \<open>auto simp: lexeme_ok_def lex_inv_def stack_ok_def Let_def\<close>)
  moreover have "c \<noteq> CHR 0x22" using c(1) by (auto simp: starts_lexeme_def)
  then have "error_ok (src x) (cur x) (make_lexeme ?x LK_ERROR (cur x))"
    using d c by (simp add: error_ok_def make_lexeme_def)
  ultimately show ?thesis
    unfolding e by (simp add: make_lexeme_def comes_from_def)
qed

section \<open>The loop\<close>

lemma starts_op: "(k, w) \<in> set op_spellings \<Longrightarrow> hd w = c \<Longrightarrow> c \<in> set ''!%&|()*+-,.@/:;<=>[]^{~}''"
  by (auto simp: op_spellings_def)

lemma token_good:
  assumes inv: "lex_inv x" and d: "drop (cur x) (src x) = c # rest" and c: "c \<noteq> nl"
  shows "yields (token x) (good_token x)"
proof -
  have at: "char_at x (cur x) = Some c"
    using d by (metis char_at_def drop_all hd_drop_conv_nth list.distinct(1) list.sel(1) not_le)
  have push: "yields (lex_open x (level_stack_push_blocky (level_stack x)) LK_LBRACE) (good_token x)" if "c = CHR ''{''"
  proof -
    obtain s l where "level_stack_push_blocky (level_stack x) = level_stack_push s l"
      "ls_data s = ls_data (level_stack x)" "ls_capacity s = ls_capacity (level_stack x)"
      unfolding level_stack_push_blocky_def by (cases "ls_blocky_level (level_stack x) = length (ls_data (level_stack x))") auto
    then show ?thesis
      by (rule open_good [OF inv d that longest_op_single(9)])
  qed
  have brace: "good_token x (fake_semicolon (snd (insert_semicolon x)))" if "c = CHR ''}''" "fst (insert_semicolon x)"
    using insert_semicolon_cases [of x] fake_good [OF inv] d that by auto
  have brace': "good_token x (lex_close (snd (insert_semicolon x)) LK_RBRACE)" if c: "c = CHR ''}''" and f: "\<not> fst (insert_semicolon x)"
  proof -
    obtain f where "snd (insert_semicolon x) = x\<lparr>inserted_semicolon_flag := f\<rparr>"
      using insert_semicolon_cases [of x] f by auto
    then show ?thesis using close_good [OF inv d c longest_op_single(10)] by simp
  qed
  have close: "good_token x (lex_close x k)" if "c = c0" "longest_op (c0 # rest) k 1" for c0 k
    using close_good [OF inv d that, of "inserted_semicolon_flag x"] by simp
  have string: "yields (lex_string x) (good_token x)" if "c = CHR 0x22"
    using lex_string_yields [OF inv] d that by simp
  have unexpected: "good_token x (make_error_advance x msg 1)"
    if "\<not> is_digit c" "\<not> is_ident_start c" "c \<noteq> CHR 0x22" "c \<notin> set ''!%&|()*+-,.@/:;<=>[]^{~}''" for msg
    by (rule unexpected_good [OF inv d]) (use that c in \<open>auto simp only: starts_lexeme_def dest: starts_op\<close>)
  define G where "G = good_token x"
  note words = lex_number_yields [OF inv d, folded G_def] lex_identifier_yields [OF inv d, folded G_def]
    string [folded G_def] push [folded G_def] brace [folded G_def] brace' [folded G_def]
  note ops = choice_good [OF inv d, folded G_def] single_good [OF inv d, folded G_def]
    open_good [OF inv d _ _ refl refl refl, folded G_def]
    close [folded G_def]
  show ?thesis
    unfolding token_def at G_def [symmetric]
    by (simp only: yields_bind yields_Some yields_if split_beta Let_def if_distrib [of Some] if_distrib [of "\<lambda>p. yields p _"],
        intro conjI impI;
        ((erule words; assumption) | (rule ops, assumption, rule longest_op_choice longest_op_single)
         | (rule unexpected [folded G_def]; simp))?)
qed

text \<open>What lies between lexemes: blanks, ends of lines and comments up to the end of their line.\<close>

inductive gap :: "string \<Rightarrow> nat \<Rightarrow> nat \<Rightarrow> bool" for s where
  gap_refl: "gap s i i"
| gap_blank: "i < length s \<Longrightarrow> s ! i \<in> {CHR '' '', CHR 0x09, nl} \<Longrightarrow> gap s (i + 1) j \<Longrightarrow> gap s i j"
| gap_comment: "i < length s \<Longrightarrow> s ! i = CHR ''#'' \<Longrightarrow>
    gap s (i + length (takeWhile (\<lambda>c. c \<noteq> nl) (drop i s))) j \<Longrightarrow> gap s i j"

lemma gap_trans: "gap s i j \<Longrightarrow> gap s j k \<Longrightarrow> gap s i k"
  by (induction rule: gap.induct) (auto intro: gap.intros)

definition next_ok :: "lexer \<Rightarrow> lexeme \<times> lexer \<Rightarrow> bool" where
  "next_ok x = (\<lambda>(l, x'). step_ok x l x' \<and>
     (if lk_kind l = LK_EOF then cur x' = lex_end x else lex_measure x' < lex_measure x) \<and>
     (\<exists>k. gap (src x) (cur x) k \<and> comes_from (src x) k l) \<and> (lk_kind l = LK_ERROR \<longrightarrow> err_msg x' \<noteq> None))"

lemma next_ok_good: "good_token x p \<Longrightarrow> next_ok x p"
  by (cases p) (auto simp: next_ok_def intro: gap_refl)

text \<open>The next iteration of the loop starts further on.\<close>

definition skips_to :: "lexer \<Rightarrow> lexer \<Rightarrow> bool" where
  "skips_to x y \<longleftrightarrow> lex_inv y \<and> src y = src x \<and> cur x < cur y \<and> gap (src x) (cur x) (cur y)"

lemma next_ok_skips:
  assumes xy: "skips_to x y" and p: "next_ok y p"
  shows "next_ok x p"
proof -
  have "cur y \<le> lex_end x" using xy unfolding skips_to_def lex_inv_def by metis
  moreover have "(if inserted_semicolon_flag y then 0 else 1) \<le> (1 :: nat)" by simp
  moreover have "src y = src x" "cur x < cur y" using xy by (simp_all add: skips_to_def)
  ultimately have "lex_measure y \<le> lex_measure x" unfolding lex_measure_def by simp
  then show ?thesis
    using xy p by (auto simp: next_ok_def step_ok_def skips_to_def split: if_splits intro: gap_trans)
qed

lemma skips_to_line:
  assumes inv: "lex_inv x" and n: "0 < n" "cur x + n \<le> lex_end x" "nl \<notin> set (take n (drop (cur x) (src x)))"
    and g: "gap (src x) (cur x) (cur x + n)"
  shows "skips_to x (x\<lparr>cur := cur x + n\<rparr>)"
proof -
  have "lines_ok (x\<lparr>cur := cur x + n\<rparr>)"
    using inv lines_advance [OF n(3)] n(2) by (simp add: lex_inv_def lines_ok_def)
  then show ?thesis
    using inv n g stack_ok_advance [of x n] by (simp add: skips_to_def lex_inv_def)
qed

lemma skips_to_newline:
  assumes inv: "lex_inv x" and i: "cur x < lex_end x" "src x ! cur x = nl"
  shows "skips_to x (x\<lparr>inserted_semicolon_flag := f, cur := cur x + 1, line_num := line_num x + 1, line_start := cur x + 1\<rparr>)"
proof -
  let ?y = "x\<lparr>inserted_semicolon_flag := f, cur := cur x + 1, line_num := line_num x + 1, line_start := cur x + 1\<rparr>"
  have "gap (src x) (cur x) (cur x + 1)" using i by (intro gap_blank [OF _ _ gap_refl]) auto
  moreover have "lines_ok ?y"
    using inv lines_newline [OF i] by (simp add: lex_inv_def lines_ok_def)
  moreover have "stack_ok ?y"
    using inv stack_ok_advance [of x 1] by (simp add: lex_inv_def stack_ok_def)
  ultimately show ?thesis
    using inv i by (simp add: skips_to_def lex_inv_def)
qed

lemma eof_ok:
  assumes inv: "lex_inv x" and e: "cur x = lex_end x"
  shows "next_ok x (make_lexeme_advance (x\<lparr>inserted_semicolon_flag := f\<rparr>) LK_EOF 0)"
proof -
  let ?x = "x\<lparr>inserted_semicolon_flag := f\<rparr>"
  have m: "make_lexeme_advance ?x LK_EOF 0 = (make_lexeme ?x LK_EOF (cur x), ?x)"
    by (cases x) (simp add: make_lexeme_advance_def Let_def)
  have "lex_inv ?x" using inv by (simp add: lex_inv_def lines_ok_def)
  then show ?thesis
    unfolding m using inv e
    by (auto simp: next_ok_def step_ok_def make_lexeme_def comes_from_def lexeme_ok_def pos_ok_def lex_inv_def lines_ok_def
        intro: gap_refl)
qed

lemma lexer_next_ok: "lex_inv x \<Longrightarrow> yields (lexer_next x) (next_ok x)"
proof (induction "lex_end x - cur x" arbitrary: x rule: less_induct)
  case less
  have IH: "yields (lexer_next y) (next_ok x)" if "skips_to x y" for y
  proof (rule yields_conseq)
    show "yields (lexer_next y) (next_ok y)"
      using that by (intro less.hyps) (auto simp: skips_to_def lex_inv_def)
  qed (rule next_ok_skips [OF that])
  have le: "cur x \<le> lex_end x" using less.prems by (simp add: lex_inv_def)
  consider "insert_semicolon x = (True, x\<lparr>inserted_semicolon_flag := True\<rparr>)" "\<not> inserted_semicolon_flag x"
    | f where "insert_semicolon x = (False, x\<lparr>inserted_semicolon_flag := f\<rparr>)"
    using insert_semicolon_cases [of x] by blast
  note ins = this
  note fake = next_ok_good [OF fake_good [OF less.prems]]
  show ?case
  proof (cases "drop (cur x) (src x)")
    case Nil
    then have e: "cur x = lex_end x" using le by simp
    show ?thesis
      by (cases rule: ins) (use e fake Nil eof_ok [OF less.prems e] in \<open>simp_all add: lexer_next.simps [of x]\<close>)
  next
    case (Cons c rest)
    then have i: "cur x < lex_end x" by (metis drop_all list.distinct(1) not_le)
    then have c: "src x ! cur x = c" using Cons by (metis hd_drop_conv_nth list.sel(1))
    have run: "lexer_next x =
        (if c = CHR '' '' \<or> c = CHR 0x09 then lexer_next (x\<lparr>cur := cur x + 1\<rparr>)
         else if c = nl then
           (let (ins, x) = insert_semicolon x in
            if ins then Some (fake_semicolon x)
            else lexer_next (x\<lparr>cur := cur x + 1, line_num := line_num x + 1, line_start := cur x + 1\<rparr>))
         else if c = CHR ''#'' then
           lexer_next (x\<lparr>cur := cur x + (1 + length (takeWhile (\<lambda>c. c \<noteq> nl) (drop (cur x + 1) (src x))))\<rparr>)
         else token x)"
      using i c by (subst lexer_next.simps) (simp add: char_at_def skip_comment_eq [OF i] Let_def split_beta)
    consider "c = CHR '' '' \<or> c = CHR 0x09" | "c = nl" | "c = CHR ''#''"
      | "\<not> (c = CHR '' '' \<or> c = CHR 0x09)" "c \<noteq> nl" "c \<noteq> CHR ''#''" by blast
    then show ?thesis
    proof cases
      case 1
      have "gap (src x) (cur x) (cur x + 1)" using i c 1 by (intro gap_blank [OF _ _ gap_refl]) auto
      then have "skips_to x (x\<lparr>cur := cur x + 1\<rparr>)"
        using i 1 Cons by (intro skips_to_line [OF less.prems]) auto
      with run 1 IH show ?thesis by simp
    next
      case 2
      show ?thesis
        by (cases rule: ins)
          (use run 2 fake Cons IH [OF skips_to_newline [OF less.prems i c [unfolded 2]]] in \<open>simp_all add: Let_def\<close>)
    next
      case 3
      let ?t = "takeWhile (\<lambda>c. c \<noteq> nl) (drop (cur x + 1) (src x))"
      let ?n = "1 + length ?t"
      have d1: "drop (cur x + 1) (src x) = rest" using Cons by (metis Suc_eq_plus1 drop_Suc list.sel(3) tl_drop)
      have t: "take ?n (drop (cur x) (src x)) = c # ?t"
        unfolding d1 unfolding Cons by (simp add: takeWhile_eq_take [symmetric])
      have "gap (src x) (cur x) (cur x + ?n)"
        by (rule gap_comment) (use i c 3 in \<open>simp_all add: d1 [simplified] Cons gap_refl\<close>)
      moreover have "cur x + ?n \<le> lex_end x"
        using arg_cong [OF t, of length] i by simp
      moreover have "nl \<notin> set (c # ?t)" using 3 by (auto dest: set_takeWhileD)
      ultimately have "skips_to x (x\<lparr>cur := cur x + ?n\<rparr>)"
        by (intro skips_to_line [OF less.prems]) (simp_all only: t, simp)
      with run 3 IH show ?thesis by simp
    next
      case 4
      then show ?thesis
        using yields_conseq [OF token_good [OF less.prems Cons 4(2)] next_ok_good] run by simp
    qed
  qed
qed

section \<open>A whole source\<close>

text \<open>A client that asks for lexemes until the end: at most \<open>n\<close> calls.\<close>

fun lex_all :: "nat \<Rightarrow> lexer \<Rightarrow> lexeme list option" where
  "lex_all 0 x = None"
| "lex_all (Suc n) x =
     do {
       (l, x) \<leftarrow> lexer_next x;
       if lk_kind l = LK_EOF then Some [l] else map_option (Cons l) (lex_all n x)
     }"

definition lex_source :: "string \<Rightarrow> lexeme list option" where
  "lex_source s = do { x \<leftarrow> lexer_new s; lex_all (2 * length s + 2) x }"

text \<open>The lexemes with the gaps between them make up the source from index \<open>i\<close> on.\<close>

fun tiled :: "string \<Rightarrow> nat \<Rightarrow> lexeme list \<Rightarrow> bool" where
  "tiled s i [] \<longleftrightarrow> i = length s"
| "tiled s i (l # ls) \<longleftrightarrow> (\<exists>k. gap s i k \<and> comes_from s k l) \<and> i \<le> lk_start l \<and> lexeme_ok s l \<and>
     tiled s (lk_start l + lk_size l) ls"

definition ends_at_eof :: "lexeme list \<Rightarrow> bool" where
  "ends_at_eof ls \<longleftrightarrow> ls \<noteq> [] \<and> lk_kind (last ls) = LK_EOF \<and> (\<forall>l \<in> set (butlast ls). lk_kind l \<noteq> LK_EOF)"

lemma lexer_new_yields:
  assumes "2 * length s \<le> SIZE_MAX"
  shows "yields (lexer_new s) (\<lambda>x. lex_inv x \<and> src x = s \<and> cur x = 0 \<and> lex_measure x = 2 * length s + 1)"
  unfolding lexer_new_def
  by (rule yields_bindI [OF make_keywords_ht_yields])
    (use assms in \<open>simp add: lex_inv_def stack_ok_def lines_ok_def lineno_def linestart_def level_stack_new_def lex_measure_def\<close>)

lemma lex_all_yields:
  "lex_inv x \<Longrightarrow> lex_measure x < n \<Longrightarrow>
   yields (lex_all n x) (\<lambda>ls. tiled (src x) (cur x) ls \<and> ends_at_eof ls \<and> (\<forall>l \<in> set ls. pos_ok (src x) l))"
proof (induction n arbitrary: x)
  case (Suc n)
  obtain l x' where run: "lexer_next x = Some (l, x')" and ok: "next_ok x (l, x')"
    using lexer_next_ok [OF Suc.prems(1)] by (auto simp: yields_iff_ex)
  have step: "lex_inv x'" "src x' = src x" "cur x \<le> lk_start l" "lk_start l + lk_size l = cur x'"
      "lexeme_ok (src x) l" "pos_ok (src x) l" "\<exists>k. gap (src x) (cur x) k \<and> comes_from (src x) k l"
    using ok by (simp_all add: next_ok_def step_ok_def)
  show ?case
  proof (cases "lk_kind l = LK_EOF")
    case True
    then show ?thesis using run step ok by (simp add: next_ok_def ends_at_eof_def)
  next
    case False
    then have "lex_measure x' < n" using ok Suc.prems(2) by (simp add: next_ok_def)
    from Suc.IH [OF step(1) this] False show ?thesis
      using run step by (auto simp: ends_at_eof_def elim!: yields_conseq)
  qed
qed simp

lemma lex_source_yields:
  "2 * length s \<le> SIZE_MAX \<Longrightarrow>
   yields (lex_source s) (\<lambda>ls. tiled s 0 ls \<and> ends_at_eof ls \<and> (\<forall>l \<in> set ls. pos_ok s l))"
  unfolding lex_source_def
  by (rule yields_bindI [OF lexer_new_yields]) (use lex_all_yields in \<open>force+\<close>)

lemma tiled_lexeme_ok: "tiled s i ls \<Longrightarrow> l \<in> set ls \<Longrightarrow> lexeme_ok s l"
  by (induction ls arbitrary: i) auto

section \<open>The properties of the lexer\<close>

text \<open>
  C20: Every call of \<open>lexer_next\<close> returns, keeps the invariant of the lexer and the source, and either is at the
  end of the source or gets closer to it; the semicolon that it may insert without reading is inserted once.
\<close>

theorem lexer_next_progress:
  assumes "lex_inv x"
  shows "yields (lexer_next x) (\<lambda>(l, x'). lex_inv x' \<and> src x' = src x \<and> cur x \<le> cur x' \<and>
    (if lk_kind l = LK_EOF then cur x' = length (src x) else lex_measure x' < lex_measure x))"
  by (rule yields_conseq [OF lexer_next_ok [OF assms]]) (auto simp: next_ok_def step_ok_def)

theorem lexer_next_progress_witness:
  "yields (lexer_new ''x'') (\<lambda>x. yields (lexer_next x) (\<lambda>(l, x'). cur x' \<le> 1 \<and> src x' = ''x''))"
proof (rule yields_conseq [OF lexer_new_yields])
  fix x
  assume x: "lex_inv x \<and> src x = ''x'' \<and> cur x = 0 \<and> lex_measure x = 2 * length ''x'' + 1"
  show "yields (lexer_next x) (\<lambda>(l, x'). cur x' \<le> 1 \<and> src x' = ''x'')"
    by (rule yields_conseq [OF lexer_next_progress [of x]]) (use x in \<open>auto simp: lex_inv_def\<close>)
qed (simp add: SIZE_MAX_def)

text \<open>
  C19: Lexing a source ends with its end of file, after at most two calls per character and two more. The
  lexemes are what they must be (the longest operator, a whole word with its keyword, a number that
  \<open>number_parse_base_validate\<close> accepts, a string up to its closing quote, a semicolon before a newline, a
  brace or the end) and, with blanks and comments between them, make up the source.
\<close>

theorem lexing_exact:
  assumes "2 * length s \<le> SIZE_MAX"
  shows "yields (lex_source s) (\<lambda>ls. ends_at_eof ls \<and> tiled s 0 ls)"
  by (rule yields_conseq [OF lex_source_yields [OF assms]]) simp

theorem lexing_exact_witness:
  "yields (lex_source ''a <<= 1'000.5 # shift'') (\<lambda>ls. ends_at_eof ls \<and> tiled ''a <<= 1'000.5 # shift'' 0 ls)"
  by (rule lexing_exact) (simp add: SIZE_MAX_def)

text \<open>
  C21: The line of a lexeme is one more than the number of ends of lines before it and its column counts from
  the last of them, in every source without a backslash at the end of a line.
\<close>

theorem positions_exact:
  assumes "2 * length s \<le> SIZE_MAX" and "\<not> bs_nl s"
  shows "yields (lex_source s) (\<lambda>ls. \<forall>l \<in> set ls.
    lk_pos l = \<lparr>line = lineno s (lk_start l), column = lk_start l - linestart s (lk_start l) + 1\<rparr>)"
  by (rule yields_conseq [OF lex_source_yields [OF assms(1)]]) (use assms(2) in \<open>simp add: pos_ok_def\<close>)

theorem positions_exact_witness:
  "yields (lex_source [CHR ''1'', nl, CHR ''2'']) (\<lambda>ls. \<forall>l \<in> set ls. lk_start l = 2 \<longrightarrow> lk_pos l = \<lparr>line = 2, column = 1\<rparr>)"
proof -
  have "\<not> bs_nl [CHR ''1'', nl, CHR ''2'']"
    by (auto simp: bs_nl_def Cons_eq_append_conv)
  moreover have "lineno [CHR ''1'', nl, CHR ''2''] 2 = 2" "linestart [CHR ''1'', nl, CHR ''2''] 2 = 2"
    by (simp_all add: lineno_def linestart_def)
  ultimately show ?thesis
    using positions_exact [of "[CHR ''1'', nl, CHR ''2'']"] by (auto simp: SIZE_MAX_def elim!: yields_conseq)
qed




text \<open>
  Every number of a source is parsed by \<open>number_parse\<close>, to a well-formed number of exactly the value of
  its text.
\<close>

theorem lexed_numbers_parse:
  assumes "2 * length s \<le> SIZE_MAX" and "deci_ok D" and "fits D (length s)"
  shows "yields (lex_source s) (\<lambda>ls. \<forall>l \<in> set ls. lk_kind l = LK_NUMBER \<longrightarrow>
    yields (number_parse D (take (lk_size l) (drop (lk_start l) s)))
      (\<lambda>r. num_ok D r \<and> num_val D r = text_val 10 (take (lk_size l) (drop (lk_start l) s))))"
proof (rule yields_conseq [OF lex_source_yields [OF assms(1)]], intro ballI impI)
  fix ls and l :: lexeme
  let ?t = "take (lk_size l) (drop (lk_start l) s)"
  assume "tiled s 0 ls \<and> ends_at_eof ls \<and> (\<forall>l \<in> set ls. pos_ok s l)" and l: "l \<in> set ls" "lk_kind l = LK_NUMBER"
  then have "lexeme_ok s l" using tiled_lexeme_ok by blast
  then have "number_parse_base_validate ?t 10"
    using l(2) by (auto simp: lexeme_ok_def number_ok_def Let_def split: if_splits)
  moreover have "fits D (length ?t)" by (rule fits_mono [OF assms(3)]) simp
  ultimately show "yields (number_parse D ?t) (\<lambda>r. num_ok D r \<and> num_val D r = text_val 10 ?t)"
    by (rule number_parse_yields [OF assms(2)])
qed

theorem lexed_numbers_parse_witness:
  "yields (lex_source ''2.50'') (\<lambda>ls. \<forall>l \<in> set ls. lk_kind l = LK_NUMBER \<longrightarrow> lk_start l = 0 \<longrightarrow> lk_size l = 4 \<longrightarrow>
     yields (number_parse deci_ref ''2.50'') (\<lambda>r. num_val deci_ref r = 5/2))"
proof -
  have "fits deci_ref (length ''2.50'')" by (simp add: fits_def SIZEOF_NUMBER_def SIZE_MAX_def)
  moreover have "text_val 10 ''2.50'' = 5/2" by (simp add: text_val_def decode_def)
  moreover have "2 * length ''2.50'' \<le> SIZE_MAX" by (simp add: SIZE_MAX_def)
  ultimately show ?thesis
    using lexed_numbers_parse [OF _ deci_ref_ok, of "''2.50''"] by (force elim!: yields_conseq)
qed

end
