(* ===== verification/Values.thy ===== *)
theory Values
  imports Dict Number_Round Number_Compare Number_Print "HOL-Library.Signed_Division"
begin

text \<open>
  The values of the language (\<open>vm.h\<close>, \<open>list.h\<close>) and the operators on them (\<open>vm.c\<close>). Numbers, flags,
  strings and \<open>nil\<close> are immutable and stand for themselves; lists, dictionaries and functions are objects
  of a heap, which a value refers to by its index there. Two values are the same pointer when they are
  equal. Reference counts decide only when memory is freed and when an operation may work in place, and
  the heap of the model is never freed; weak references depend on them and are left uninterpreted.

  An operation of type \<open>(string + 'a) option\<close> may have no result at all (out of memory, or undefined
  behaviour), may fail with a message prepared for \<open>state_throw\<close> (\<open>Inl\<close>), or succeed (\<open>Inr\<close>).
\<close>

section \<open>Values and the heap\<close>

datatype kind = VK_NUM | VK_FLAG | VK_STR | VK_NIL | VK_LIST | VK_DICT | VK_FUNC | VK_CFUNC | VK_WREF

datatype val =
    V_Num number
  | V_Flag bool
  | V_Str cstring
  | V_Nil
  | V_List nat
  | V_Dict nat
  | V_Func nat
  | V_CFunc nat
  | V_Wref nat

fun val_kind :: "val \<Rightarrow> kind" where
  "val_kind (V_Num _) = VK_NUM"
| "val_kind (V_Flag _) = VK_FLAG"
| "val_kind (V_Str _) = VK_STR"
| "val_kind V_Nil = VK_NIL"
| "val_kind (V_List _) = VK_LIST"
| "val_kind (V_Dict _) = VK_DICT"
| "val_kind (V_Func _) = VK_FUNC"
| "val_kind (V_CFunc _) = VK_CFUNC"
| "val_kind (V_Wref _) = VK_WREF"

fun value_kind_name :: "kind \<Rightarrow> string" where
  "value_kind_name VK_NUM = ''number''"
| "value_kind_name VK_FLAG = ''flag''"
| "value_kind_name VK_NIL = ''nil''"
| "value_kind_name VK_STR = ''string''"
| "value_kind_name VK_LIST = ''list''"
| "value_kind_name VK_DICT = ''dict''"
| "value_kind_name VK_WREF = ''weakref''"
| "value_kind_name VK_FUNC = ''function''"
| "value_kind_name VK_CFUNC = ''function''"

fun value_kind_name_long :: "kind \<Rightarrow> string" where
  "value_kind_name_long VK_NUM = ''number''"
| "value_kind_name_long VK_FLAG = ''flag''"
| "value_kind_name_long VK_NIL = ''nil''"
| "value_kind_name_long VK_STR = ''string''"
| "value_kind_name_long VK_LIST = ''list''"
| "value_kind_name_long VK_DICT = ''dict''"
| "value_kind_name_long VK_WREF = ''weakref''"
| "value_kind_name_long VK_FUNC = ''function (bytecode)''"
| "value_kind_name_long VK_CFUNC = ''function (native code)''"

abbreviation kind_name :: "val \<Rightarrow> string" where
  "kind_name v \<equiv> value_kind_name (val_kind v)"

text \<open>Lists; the list of weak references of the object is left out.\<close>

record vlist =
  l_data :: "val list"
  l_capacity :: nat

definition list_new_steal :: "val list \<Rightarrow> vlist" where
  "list_new_steal data = \<lparr>l_data = data, l_capacity = length data\<rparr>"

text \<open>\<open>list_pop\<close> decrements \<open>size\<close>, which is not checked to be positive.\<close>

definition list_pop :: "vlist \<Rightarrow> (vlist \<times> val) option" where
  "list_pop l = (if l_data l = [] then None else Some (l\<lparr>l_data := butlast (l_data l)\<rparr>, last (l_data l)))"

definition list_append_steal :: "vlist \<Rightarrow> val \<Rightarrow> vlist option" where
  "list_append_steal l v =
     do {
       l \<leftarrow> (if length (l_data l) = l_capacity l then do {
              c \<leftarrow> uu_x2realloc (l_capacity l) 8;
              Some (l\<lparr>l_capacity := c\<rparr>)
            } else Some l);
       Some (l\<lparr>l_data := l_data l @ [v]\<rparr>)
     }"

text \<open>
  The heap, for any type \<open>'f\<close> of function objects. An address outside it, or of an object of another
  kind than the value says, has no result.
\<close>

datatype 'f obj = O_List vlist | O_Dict "val dict" | O_Func 'f

type_synonym 'f heap = "'f obj list"

definition heap_list :: "'f heap \<Rightarrow> nat \<Rightarrow> vlist option" where
  "heap_list h a = (if a < length h then (case h ! a of O_List l \<Rightarrow> Some l | _ \<Rightarrow> None) else None)"

definition heap_dict :: "'f heap \<Rightarrow> nat \<Rightarrow> val dict option" where
  "heap_dict h a = (if a < length h then (case h ! a of O_Dict d \<Rightarrow> Some d | _ \<Rightarrow> None) else None)"

definition heap_func :: "'f heap \<Rightarrow> nat \<Rightarrow> 'f option" where
  "heap_func h a = (if a < length h then (case h ! a of O_Func f \<Rightarrow> Some f | _ \<Rightarrow> None) else None)"

definition heap_alloc :: "'f heap \<Rightarrow> 'f obj \<Rightarrow> 'f heap \<times> nat" where
  "heap_alloc h x = (h @ [x], length h)"

section \<open>Operators\<close>

definition value_is_truthy :: "val \<Rightarrow> bool" where
  "value_is_truthy v \<longleftrightarrow> v \<noteq> V_Nil \<and> v \<noteq> V_Flag False"

definition values_equal :: "deci \<Rightarrow> val \<Rightarrow> val \<Rightarrow> bool option" where
  "values_equal D a b =
     (if val_kind a \<noteq> val_kind b then Some False
      else case (a, b) of
        (V_Num m, V_Num n) \<Rightarrow> map_option (\<lambda>c. c = COMPARE_EQ) (number_compare D m n)
      | (V_Str s, V_Str t) \<Rightarrow> Some (string_equal s t)
      | _ \<Rightarrow> Some (a = b))"

text \<open>The spelling of the operator; the printing of a code that is not in the table is undefined.\<close>

definition cmp_repr :: "nat \<Rightarrow> string option" where
  "cmp_repr a =
     (if a = COMPARE_LESS then Some ''<''
      else if a = COMPARE_LESS OR COMPARE_EQ then Some ''<=''
      else if a = COMPARE_GREATER then Some ''>''
      else if a = COMPARE_GREATER OR COMPARE_EQ then Some ''>=''
      else None)"

fun perform_cmp_3way :: "deci \<Rightarrow> val \<Rightarrow> val \<Rightarrow> nat \<Rightarrow> (string + val) option" where
  "perform_cmp_3way D (V_Num m) (V_Num n) a =
     do { c \<leftarrow> number_compare D m n; Some (Inr (V_Flag (a AND c \<noteq> 0))) }"
| "perform_cmp_3way D (V_Str s) (V_Str t) a = Some (Inr (V_Flag (a AND string_compare s t \<noteq> 0)))"
| "perform_cmp_3way D left right a =
     do {
       op \<leftarrow> cmp_repr a;
       Some (Inl (''attempt to compute '' @ kind_name left @ '' '' @ op @ '' '' @ kind_name right))
     }"

fun append_string_repr :: "deci \<Rightarrow> cstring \<Rightarrow> val \<Rightarrow> cstring option" where
  "append_string_repr D s (V_Num n) =
     (let maxsz = number_tostring_size D n in
      if maxsz = SIZE_MAX then None
      else do {
        s \<leftarrow> string_hot_append_begin s maxsz;
        t \<leftarrow> number_tostring D n maxsz;
        string_hot_append_end s t
      })"
| "append_string_repr D s (V_Str t) = string_append s (s_data t)"
| "append_string_repr D s (V_Flag b) = string_append s (if b then ''true'' else ''false'')"
| "append_string_repr D s v =
     do {
       s \<leftarrow> string_append s ''<'';
       s \<leftarrow> string_append s (kind_name v);
       string_append s ''>''
     }"

datatype aop = AOP_AND | AOP_BIT_AND | AOP_SUB | AOP_OR | AOP_BIT_OR | AOP_BIT_XOR | AOP_LSHIFT | AOP_RSHIFT |
  AOP_MOD | AOP_ADD | AOP_DIV | AOP_IDIV | AOP_MUL | AOP_POW | AOP_CONCAT

fun aop_repr :: "aop \<Rightarrow> string" where
  "aop_repr AOP_AND = ''&&''"
| "aop_repr AOP_BIT_AND = ''&''"
| "aop_repr AOP_SUB = ''-''"
| "aop_repr AOP_OR = ''||''"
| "aop_repr AOP_BIT_OR = ''|''"
| "aop_repr AOP_BIT_XOR = ''^''"
| "aop_repr AOP_LSHIFT = ''<<''"
| "aop_repr AOP_RSHIFT = ''>>''"
| "aop_repr AOP_MOD = ''%''"
| "aop_repr AOP_ADD = ''+''"
| "aop_repr AOP_DIV = ''/''"
| "aop_repr AOP_IDIV = ''//''"
| "aop_repr AOP_MUL = ''*''"
| "aop_repr AOP_POW = ''**''"
| "aop_repr AOP_CONCAT = ''~''"

text \<open>The operators on two numbers; \<open>same\<close> says that the operands are the same object.\<close>

definition ok_num :: "number option \<Rightarrow> (string + val) option" where
  "ok_num m = map_option (\<lambda>r. Inr (V_Num r)) m"

definition div_by_zero :: "(string + val) option" where
  "div_by_zero = Some (Inl ''division by zero'')"

fun number_aop :: "deci \<Rightarrow> ntp \<Rightarrow> bool \<Rightarrow> aop \<Rightarrow> number \<Rightarrow> number \<Rightarrow> (string + val) option" where
  "number_aop D ntp same AOP_ADD a b = ok_num (number_add D a b)"
| "number_aop D ntp same AOP_SUB a b = ok_num (number_sub D a b)"
| "number_aop D ntp same AOP_MUL a b = ok_num (number_mul D same a b)"
| "number_aop D ntp same AOP_DIV a b =
     (if number_is_zero D b then div_by_zero else ok_num (number_div D a b ntp))"
| "number_aop D ntp same AOP_POW a b = map_option (map_sum id V_Num) (do_pow D a b)"
| "number_aop D ntp same AOP_IDIV a b = (if number_is_izero b then div_by_zero else ok_num (number_idiv D a b))"
| "number_aop D ntp same AOP_MOD a b = (if number_is_izero b then div_by_zero else ok_num (number_imod D a b))"
| "number_aop D ntp same AOP_BIT_AND a b = ok_num (number_bit_and D a b)"
| "number_aop D ntp same AOP_BIT_OR a b = ok_num (number_bit_or D a b)"
| "number_aop D ntp same AOP_BIT_XOR a b = ok_num (number_bit_xor D a b)"
| "number_aop D ntp same AOP_LSHIFT a b = ok_num (number_bit_shl D a b)"
| "number_aop D ntp same AOP_RSHIFT a b = ok_num (number_bit_lshr D a b)"
| "number_aop D ntp same _ a b = None"

definition perform_aop :: "deci \<Rightarrow> ntp \<Rightarrow> bool \<Rightarrow> aop \<Rightarrow> val \<Rightarrow> val \<Rightarrow> (string + val) option" where
  "perform_aop D ntp same aop left right =
     (if aop = AOP_CONCAT then
        (case left of
           V_Str s \<Rightarrow> map_option (\<lambda>s. Inr (V_Str s)) (append_string_repr D s right)
         | _ \<Rightarrow> do {
             s \<leftarrow> string_new [];
             s \<leftarrow> append_string_repr D s left;
             s \<leftarrow> append_string_repr D s right;
             Some (Inr (V_Str s))
           })
      else if aop = AOP_AND then Some (Inr (if value_is_truthy left then right else left))
      else if aop = AOP_OR then Some (Inr (if value_is_truthy left then left else right))
      else case (left, right) of
        (V_Num a, V_Num b) \<Rightarrow> number_aop D ntp same aop a b
      | _ \<Rightarrow> Some (Inl (''attempt to compute '' @ kind_name left @ '' '' @ aop_repr aop @ '' '' @ kind_name right)))"

fun perform_neg :: "deci \<Rightarrow> val \<Rightarrow> (string + val) option" where
  "perform_neg D (V_Num a) = ok_num (number_negate D a)"
| "perform_neg D v = Some (Inl (''attempt to negate '' @ kind_name v))"

fun perform_len :: "deci \<Rightarrow> 'f heap \<Rightarrow> val \<Rightarrow> (string + val) option" where
  "perform_len D h (V_List a) = do { l \<leftarrow> heap_list h a; ok_num (number_new_from_zu D (length (l_data l))) }"
| "perform_len D h (V_Dict a) = do { d \<leftarrow> heap_dict h a; ok_num (number_new_from_zu D (xht_size d)) }"
| "perform_len D h (V_Str s) = ok_num (number_new_from_zu D (s_size s))"
| "perform_len D h v = Some (Inl (''attempt to compute length of '' @ kind_name v))"

section \<open>Elements of lists, dictionaries and strings\<close>

fun get_elem_at :: "deci \<Rightarrow> 'f heap \<Rightarrow> val \<Rightarrow> val \<Rightarrow> (string + val) option" where
  "get_elem_at D h (V_List a) i =
     (case i of
        V_Num n \<Rightarrow> do {
          let idx = number_to_zu D n;
          l \<leftarrow> heap_list h a;
          Some (Inr (if idx \<ge> length (l_data l) then V_Nil else l_data l ! idx))
        }
      | _ \<Rightarrow> Some (Inl (''attempt to index list with '' @ kind_name i @ '' (expected number)'')))"
| "get_elem_at D h (V_Dict a) i =
     (case i of
        V_Str key \<Rightarrow> do {
          d \<leftarrow> heap_dict h a;
          r \<leftarrow> dict_get d key;
          Some (Inr (case r of Some v \<Rightarrow> v | None \<Rightarrow> V_Nil))
        }
      | _ \<Rightarrow> Some (Inl (''attempt to index dict with '' @ kind_name i @ '' (expected string)'')))"
| "get_elem_at D h (V_Str s) i =
     (case i of
        V_Num n \<Rightarrow>
          (let idx = number_to_zu D n in
           if idx \<ge> s_size s then Some (Inr V_Nil)
           else map_option (\<lambda>t. Inr (V_Str t)) (string_new [s_data s ! idx]))
      | _ \<Rightarrow> Some (Inl (''attempt to index string with '' @ kind_name i @ '' (expected number)'')))"
| "get_elem_at D h c i = Some (Inl (''attempt to index '' @ kind_name c @ '' value''))"

text \<open>A pointer to an element: of the data of a list, or to the value of an entry of a dictionary.\<close>

datatype elem_ptr = List_Elem nat nat | Dict_Elem nat nat

fun get_elem_ptr_at :: "deci \<Rightarrow> 'f heap \<Rightarrow> val \<Rightarrow> val \<Rightarrow> ('f heap \<times> (string + elem_ptr)) option" where
  "get_elem_ptr_at D h (V_List a) i =
     (case i of
        V_Num n \<Rightarrow> do {
          let idx = number_to_zu D n;
          l \<leftarrow> heap_list h a;
          let nlist = length (l_data l);
          if idx = nlist then do {
            l \<leftarrow> list_append_steal l V_Nil;
            Some (h[a := O_List l], Inr (List_Elem a idx))
          }
          else if idx > nlist then Some (h, Inl ''attempt to insert past the end of the list'')
          else Some (h, Inr (List_Elem a idx))
        }
      | _ \<Rightarrow> Some (h, Inl (''attempt to index list with '' @ kind_name i @ '' (expected number)'')))"
| "get_elem_ptr_at D h (V_Dict a) i =
     (case i of
        V_Str key \<Rightarrow> do {
          d \<leftarrow> heap_dict h a;
          (d, r) \<leftarrow> dict_get_ptr V_Nil d key;
          Some (h[a := O_Dict d], Inr (Dict_Elem a r))
        }
      | _ \<Rightarrow> Some (h, Inl (''attempt to index dict with '' @ kind_name i @ '' (expected string)'')))"
| "get_elem_ptr_at D h (V_Str s) i = Some (h, Inl ''strings are immutable'')"
| "get_elem_ptr_at D h c i = Some (h, Inl (''attempt to index '' @ kind_name c @ '' value''))"

fun elem_load :: "'f heap \<Rightarrow> elem_ptr \<Rightarrow> val option" where
  "elem_load h (List_Elem a i) =
     do { l \<leftarrow> heap_list h a; if i < length (l_data l) then Some (l_data l ! i) else None }"
| "elem_load h (Dict_Elem a p) = do { d \<leftarrow> heap_dict h a; v \<leftarrow> xht_load d p; v }"

fun elem_store :: "'f heap \<Rightarrow> elem_ptr \<Rightarrow> val \<Rightarrow> 'f heap option" where
  "elem_store h (List_Elem a i) v =
     do {
       l \<leftarrow> heap_list h a;
       if i < length (l_data l) then Some (h[a := O_List (l\<lparr>l_data := (l_data l)[i := v]\<rparr>)]) else None
     }"
| "elem_store h (Dict_Elem a p) v = do { d \<leftarrow> heap_dict h a; d \<leftarrow> xht_store d p (Some v); Some (h[a := O_Dict d]) }"

fun check_dict_keys :: "(val \<times> val) list \<Rightarrow> string option" where
  "check_dict_keys [] = None"
| "check_dict_keys ((k, _) # kv) =
     (if val_kind k \<noteq> VK_STR then Some (''attempt to create dict with '' @ kind_name k @ '' key (expected string)'')
      else check_dict_keys kv)"

section \<open>The operators on numbers\<close>

text \<open>What the operators compute, on rational numbers; the bitwise ones use the integer part modulo \<open>2 ^ 32\<close>.\<close>

definition trunc_zero :: "rat \<Rightarrow> int" where
  "trunc_zero x = (if x < 0 then \<lceil>x\<rceil> else \<lfloor>x\<rfloor>)"

definition word_of_rat :: "rat \<Rightarrow> 32 word" where
  "word_of_rat x = of_int (trunc_zero x)"

fun num_spec :: "nat \<Rightarrow> aop \<Rightarrow> rat \<Rightarrow> rat \<Rightarrow> string + rat" where
  "num_spec prec AOP_ADD x y = Inr (x + y)"
| "num_spec prec AOP_SUB x y = Inr (x - y)"
| "num_spec prec AOP_MUL x y = Inr (x * y)"
| "num_spec prec AOP_DIV x y = (if y = 0 then Inl ''division by zero'' else Inr (trunc_to prec (x / y)))"
| "num_spec prec AOP_POW x y =
     (if y < 0 then Inl ''exponent is negative''
      else if y \<notin> \<int> then Inl ''fraction part of exponent is non-zero''
      else Inr (x ^ nat \<lfloor>y\<rfloor>))"
| "num_spec prec AOP_IDIV x y =
     (if trunc_zero y = 0 then Inl ''division by zero'' else Inr (of_int (trunc_zero x sdiv trunc_zero y)))"
| "num_spec prec AOP_MOD x y =
     (if trunc_zero y = 0 then Inl ''division by zero'' else Inr (of_int (trunc_zero x smod trunc_zero y)))"
| "num_spec prec AOP_BIT_AND x y = Inr (of_nat (unat (word_of_rat x AND word_of_rat y)))"
| "num_spec prec AOP_BIT_OR x y = Inr (of_nat (unat (word_of_rat x OR word_of_rat y)))"
| "num_spec prec AOP_BIT_XOR x y = Inr (of_nat (unat (word_of_rat x XOR word_of_rat y)))"
| "num_spec prec AOP_LSHIFT x y = Inr (of_nat (unat (word_of_rat x) * 2 ^ unat (word_of_rat y) mod 2 ^ 32))"
| "num_spec prec AOP_RSHIFT x y = Inr (of_nat (unat (word_of_rat x) div 2 ^ unat (word_of_rat y)))"
| "num_spec prec _ x y = Inl []"

text \<open>The memory that the operators need for their results.\<close>

fun aop_room :: "deci \<Rightarrow> ntp \<Rightarrow> aop \<Rightarrow> number \<Rightarrow> number \<Rightarrow> bool" where
  "aop_room D ntp AOP_ADD a b = fits D (sum_words a b)"
| "aop_room D ntp AOP_SUB a b = fits D (sum_words a b)"
| "aop_room D ntp AOP_MUL a b = fits D (nwords a + nwords b)"
| "aop_room D ntp AOP_DIV a b = fits D (div_words a b ntp)"
| "aop_room D ntp AOP_POW a b =
     (if num_int D b < SIZE_MAX then fits D (nwords a * num_int D b)
      else num_val D a = 0 \<or> \<bar>num_val D a\<bar> = 1)"
| "aop_room D ntp _ a b = True"

definition arithmetic :: "aop \<Rightarrow> bool" where
  "arithmetic op \<longleftrightarrow> op \<notin> {AOP_AND, AOP_OR, AOP_CONCAT}"

text \<open>A result of an operation on numbers against the specified one.\<close>

definition num_result :: "deci \<Rightarrow> string + rat \<Rightarrow> string + val \<Rightarrow> bool" where
  "num_result D x r \<longleftrightarrow> (case x of
     Inl m \<Rightarrow> r = Inl m
   | Inr x \<Rightarrow> \<exists>c. r = Inr (V_Num c) \<and> num_ok D c \<and> num_val D c = x)"

lemma num_result_simps [simp]:
  "num_result D (Inl m) r \<longleftrightarrow> r = Inl m"
  "num_result D (Inr x) r \<longleftrightarrow> (\<exists>c. r = Inr (V_Num c) \<and> num_ok D c \<and> num_val D c = x)"
  by (simp_all add: num_result_def)

lemma ok_num_yields:
  "yields m (\<lambda>r. num_ok D r \<and> num_val D r = x) \<Longrightarrow> yields (ok_num m) (num_result D (Inr x))"
  by (auto simp: ok_num_def elim!: yields_conseq)

lemma trunc_zero_num: "num_ok D a \<Longrightarrow> trunc_zero (num_val D a) = trunc_int D a"
  by (simp add: trunc_zero_def trunc_int_eq)

lemma word_of_num: "num_ok D a \<Longrightarrow> word_of_rat (num_val D a) = number_to_u32 D a"
  by (simp add: word_of_rat_def trunc_zero_num trunc_int_def number_to_u32_eq)

lemma izero_iff:
  assumes D: "deci_ok D" and a: "num_ok D a"
  shows "number_is_izero a \<longleftrightarrow> trunc_int D a = 0"
proof -
  have "trunc_int D a = 0 \<longleftrightarrow> wval (DECI_BASE D) (drop (scale a) (words a)) = 0"
    by (simp add: trunc_int_def num_int_def)
  also have "\<dots> \<longleftrightarrow> drop (scale a) (words a) = []"
    by (rule normalized_0_iff [OF num_okD(3) [OF a] DECI_BASE_pos])
  finally show ?thesis using num_okD(2) [OF a] by (auto simp: number_is_izero_def)
qed

lemma idiv_imod_signed:
  assumes D: "deci_ok D" and a: "num_ok D a" and b: "num_ok D b" and nz: "trunc_int D b \<noteq> 0"
  shows "yields (number_idiv D a b) (\<lambda>r. num_ok D r \<and> num_val D r = of_int (trunc_int D a sdiv trunc_int D b))"
    and "yields (number_imod D a b) (\<lambda>r. num_ok D r \<and> num_val D r = of_int (trunc_int D a smod trunc_int D b))"
proof -
  have nb: "num_int D b \<noteq> 0" using nz by (auto simp: trunc_int_def split: if_splits)
  note qm = idiv_imod_yields [OF D a b nb]
  have q: "(if sign a \<noteq> sign b then -1 else 1) * int (num_int D a div num_int D b) = trunc_int D a sdiv trunc_int D b"
    using nb by (auto simp: trunc_int_def signed_divide_int_def zdiv_int sgn_if)
  have m: "(if sign a then -1 else 1) * int (num_int D a mod num_int D b) = trunc_int D a smod trunc_int D b"
    using nb by (auto simp: trunc_int_def signed_modulo_int_def signed_divide_int_def zdiv_int zmod_int sgn_if
        minus_div_mult_eq_mod [symmetric])
  show "yields (number_idiv D a b) (\<lambda>r. num_ok D r \<and> num_val D r = of_int (trunc_int D a sdiv trunc_int D b))"
    by (rule yields_conseq [OF qm(1)]) (auto simp: num_val_def q [symmetric])
  show "yields (number_imod D a b) (\<lambda>r. num_ok D r \<and> num_val D r = of_int (trunc_int D a smod trunc_int D b))"
    by (rule yields_conseq [OF qm(2)]) (auto simp: num_val_def m [symmetric])
qed

lemma do_pow_result:
  assumes D: "deci_ok D" and a: "num_ok D a" and b: "num_ok D b" and room: "aop_room D ntp AOP_POW a b"
  shows "yields (map_option (map_sum id V_Num) (do_pow D a b))
    (num_result D (num_spec prec AOP_POW (num_val D a) (num_val D b)))"
proof -
  have "yields (do_pow D a b) (\<lambda>r.
    if num_val D b < 0 then r = Inl ''exponent is negative''
    else if num_val D b \<notin> \<int> then r = Inl ''fraction part of exponent is non-zero''
    else \<exists>p. r = Inr p \<and> num_ok D p \<and> num_val D p = num_val D a ^ nat \<lfloor>num_val D b\<rfloor>)"
    by (rule do_pow_yields [OF D a b]) (use room in \<open>auto split: if_splits\<close>)
  then show ?thesis
    by (simp only: yields_map, elim yields_conseq) (auto split: if_splits)
qed

lemma number_aop_yields:
  assumes D: "deci_ok D" and a: "num_ok D a" and b: "num_ok D b" and same: "same \<Longrightarrow> a = b"
    and ntp: "ntp_ok D ntp prec" and room: "aop_room D ntp op a b" and op: "arithmetic op"
  shows "yields (number_aop D ntp same op a b) (num_result D (num_spec prec op (num_val D a) (num_val D b)))"
proof (cases op)
  case AOP_ADD
  show ?thesis
    unfolding AOP_ADD number_aop.simps num_spec.simps number_add_def
    by (rule ok_num_yields, rule yields_conseq [OF do_add_or_sub_yields [OF D a b]]) (use room AOP_ADD in simp_all)
next
  case AOP_SUB
  show ?thesis
    unfolding AOP_SUB number_aop.simps num_spec.simps number_sub_def
    by (rule ok_num_yields, rule yields_conseq [OF do_add_or_sub_yields [OF D a b]]) (use room AOP_SUB in simp_all)
next
  case AOP_MUL
  show ?thesis
    unfolding AOP_MUL number_aop.simps num_spec.simps
    by (rule ok_num_yields, rule yields_conseq [OF number_mul_yields [OF D a b same]]) (use room AOP_MUL in simp_all)
next
  case AOP_DIV
  have "yields (ok_num (number_div D a b ntp)) (num_result D (Inr (trunc_to prec (num_val D a / num_val D b))))"
    if "num_val D b \<noteq> 0"
    by (rule ok_num_yields, rule yields_conseq [OF number_div_yields [OF D a b that ntp]]) (use room AOP_DIV in simp_all)
  then show ?thesis
    by (simp add: AOP_DIV number_is_zero_iff [OF D b] div_by_zero_def)
next
  case AOP_IDIV
  then show ?thesis
    using ok_num_yields [OF idiv_imod_signed(1) [OF D a b]]
    by (simp add: izero_iff [OF D b] trunc_zero_num [OF a] trunc_zero_num [OF b] div_by_zero_def)
next
  case AOP_MOD
  then show ?thesis
    using ok_num_yields [OF idiv_imod_signed(2) [OF D a b]]
    by (simp add: izero_iff [OF D b] trunc_zero_num [OF a] trunc_zero_num [OF b] div_by_zero_def)
next
  case AOP_POW
  then show ?thesis using do_pow_result [OF D a b] room by simp
qed (use op bit_operations_yield [OF D, of a b] in
  \<open>simp_all add: arithmetic_def word_of_num [OF a] word_of_num [OF b] ok_num_yields\<close>)

section \<open>Well-formed values\<close>

definition str_good :: "cstring \<Rightarrow> bool" where
  "str_good s \<longleftrightarrow> str_ok s \<and> s_capacity s + SIZEOF_STRING \<le> SIZE_MAX"

definition list_good :: "vlist \<Rightarrow> bool" where
  "list_good l \<longleftrightarrow> length (l_data l) \<le> l_capacity l \<and> 8 * l_capacity l \<le> SIZE_MAX"

text \<open>A value is well formed in a heap: what it refers to is there, and of its kind.\<close>

fun val_ok :: "deci \<Rightarrow> 'f heap \<Rightarrow> val \<Rightarrow> bool" where
  "val_ok D h (V_Num n) = num_ok D n"
| "val_ok D h (V_Str s) = str_good s"
| "val_ok D h (V_List a) = (heap_list h a \<noteq> None)"
| "val_ok D h (V_Dict a) = (heap_dict h a \<noteq> None)"
| "val_ok D h (V_Func a) = (heap_func h a \<noteq> None)"
| "val_ok D h _ = True"

fun obj_ok :: "deci \<Rightarrow> ('f \<Rightarrow> bool) \<Rightarrow> 'f heap \<Rightarrow> 'f obj \<Rightarrow> bool" where
  "obj_ok D P h (O_List l) = (list_good l \<and> (\<forall>v\<in>set (l_data l). val_ok D h v))"
| "obj_ok D P h (O_Dict d) = (dict_ok d \<and> (\<forall>v\<in>ran (dict_map d). val_ok D h v))"
| "obj_ok D P h (O_Func f) = P f"

definition heap_ok :: "deci \<Rightarrow> ('f \<Rightarrow> bool) \<Rightarrow> 'f heap \<Rightarrow> bool" where
  "heap_ok D P h \<longleftrightarrow> (\<forall>x\<in>set h. obj_ok D P h x)"

text \<open>Growing the heap and changing objects to others of their kind keeps all values well formed.\<close>

fun same_kind :: "'f obj \<Rightarrow> 'f obj \<Rightarrow> bool" where
  "same_kind (O_List _) (O_List _) = True"
| "same_kind (O_Dict _) (O_Dict _) = True"
| "same_kind (O_Func f) (O_Func g) = (f = g)"
| "same_kind _ _ = False"

definition heap_le :: "'f heap \<Rightarrow> 'f heap \<Rightarrow> bool" where
  "heap_le h h' \<longleftrightarrow> length h \<le> length h' \<and> (\<forall>a < length h. same_kind (h ! a) (h' ! a))"

lemma same_kind_refl [simp]: "same_kind x x"
  by (cases x) simp_all

lemma same_kind_trans: "same_kind x y \<Longrightarrow> same_kind y z \<Longrightarrow> same_kind x z"
  by (cases x; cases y; cases z) simp_all

lemma heap_le_refl [simp]: "heap_le h h"
  by (simp add: heap_le_def)

lemma heap_le_trans: "heap_le h h' \<Longrightarrow> heap_le h' h'' \<Longrightarrow> heap_le h h''"
  by (auto simp: heap_le_def intro: same_kind_trans)

lemma heap_le_append: "heap_le h (h @ xs)"
  by (auto simp: heap_le_def nth_append)

lemma heap_lookup_iff:
  "heap_list h a = Some l \<longleftrightarrow> a < length h \<and> h ! a = O_List l"
  "heap_dict h a = Some d \<longleftrightarrow> a < length h \<and> h ! a = O_Dict d"
  "heap_func h a = Some f \<longleftrightarrow> a < length h \<and> h ! a = O_Func f"
  by (auto simp: heap_list_def heap_dict_def heap_func_def split: obj.splits)

lemma heap_le_update:
  "heap_list h a \<noteq> None \<Longrightarrow> heap_le h (h[a := O_List l])"
  "heap_dict h a \<noteq> None \<Longrightarrow> heap_le h (h[a := O_Dict d])"
  by (auto simp: heap_le_def nth_list_update heap_lookup_iff)

lemma val_ok_mono:
  assumes "heap_le h h'" and "val_ok D h v"
  shows "val_ok D h' v"
proof -
  have "a < length h' \<and> same_kind (h ! a) (h' ! a)" if "a < length h" for a
    using assms(1) that by (auto simp: heap_le_def)
  note k = this
  show ?thesis
  proof (cases v)
    case (V_List a)
    with assms(2) k [of a] show ?thesis by (cases "h' ! a") (auto simp: heap_lookup_iff)
  next
    case (V_Dict a)
    with assms(2) k [of a] show ?thesis by (cases "h' ! a") (auto simp: heap_lookup_iff)
  next
    case (V_Func a)
    with assms(2) k [of a] show ?thesis by (cases "h' ! a") (auto simp: heap_lookup_iff)
  qed (use assms(2) in auto)
qed

lemma obj_ok_mono:
  assumes "heap_le h h'" and "obj_ok D P h x"
  shows "obj_ok D P h' x"
  using assms(2) val_ok_mono [OF assms(1)] by (cases x) auto

lemma heap_ok_append:
  assumes "heap_ok D P h" and "obj_ok D P h x"
  shows "heap_ok D P (h @ [x])"
  using assms obj_ok_mono [OF heap_le_append [of h "[x]"]] by (auto simp: heap_ok_def)

lemma heap_ok_update:
  assumes h: "heap_ok D P h" and le: "heap_le h (h[a := x])" and x: "obj_ok D P h x"
  shows "heap_ok D P (h[a := x])"
proof -
  have "\<forall>y\<in>set (h[a := x]). obj_ok D P h y"
    using h x set_update_subset_insert [of h a x] unfolding heap_ok_def by blast
  then show ?thesis
    using obj_ok_mono [OF le] unfolding heap_ok_def by blast
qed

lemma heap_ok_list: "heap_ok D P h \<Longrightarrow> heap_list h a = Some l \<Longrightarrow> list_good l \<and> (\<forall>v\<in>set (l_data l). val_ok D h v)"
  by (force simp: heap_ok_def heap_lookup_iff in_set_conv_nth dest: bspec [of _ _ "h ! a"])

lemma heap_ok_dict: "heap_ok D P h \<Longrightarrow> heap_dict h a = Some d \<Longrightarrow> dict_ok d \<and> (\<forall>v\<in>ran (dict_map d). val_ok D h v)"
  by (force simp: heap_ok_def heap_lookup_iff in_set_conv_nth dest: bspec [of _ _ "h ! a"])

lemma heap_ok_func: "heap_ok D P h \<Longrightarrow> heap_func h a = Some f \<Longrightarrow> P f"
  by (force simp: heap_ok_def heap_lookup_iff in_set_conv_nth dest: bspec [of _ _ "h ! a"])

section \<open>Concatenation\<close>

text \<open>The text of a value, and the room that the code makes for it.\<close>

fun repr_of :: "deci \<Rightarrow> val \<Rightarrow> string \<Rightarrow> bool" where
  "repr_of D (V_Num n) t = canonical 10 t (num_val D n)"
| "repr_of D (V_Str s) t = (t = s_data s)"
| "repr_of D (V_Flag b) t = (t = (if b then ''true'' else ''false''))"
| "repr_of D v t = (t = ''<'' @ kind_name v @ ''>'')"

fun repr_size :: "deci \<Rightarrow> val \<Rightarrow> nat" where
  "repr_size D (V_Num n) = DECI_BASE_LOG D * nwords n + 3"
| "repr_size D (V_Str s) = s_size s"
| "repr_size D v = 10"

lemma str_good_append:
  assumes "str_good s" and "2 * (s_size s + n) + SIZEOF_STRING \<le> SIZE_MAX" and "length x \<le> n"
  shows "yields (string_append s x) (\<lambda>t. str_good t \<and> s_data t = s_data s @ x)"
  by (rule yields_conseq [OF string_append_yields]) (use assms in \<open>auto simp: str_good_def\<close>)

lemma append_string_repr_yields:
  assumes s: "str_good s" and v: "val_ok D h v" and room: "2 * (s_size s + repr_size D v) + SIZEOF_STRING \<le> SIZE_MAX"
  shows "yields (append_string_repr D s v) (\<lambda>t. str_good t \<and>
    (\<exists>x. repr_of D v x \<and> s_data t = s_data s @ x \<and> length x \<le> repr_size D v))"
proof -
  have short: "yields (do { s \<leftarrow> string_append s ''<''; s \<leftarrow> string_append s x; string_append s ''>'' })
      (\<lambda>t. str_good t \<and> s_data t = s_data s @ ''<'' @ x @ ''>'')"
    if x: "length x \<le> 8" and r: "2 * (s_size s + 10) + SIZEOF_STRING \<le> SIZE_MAX" for x
  proof (rule yields_bindI [OF str_good_append [OF s, of 1]])
    fix s1
    assume s1: "str_good s1 \<and> s_data s1 = s_data s @ ''<''"
    show "yields (do { s \<leftarrow> string_append s1 x; string_append s ''>'' }) (\<lambda>t. str_good t \<and> s_data t = s_data s @ ''<'' @ x @ ''>'')"
    proof (rule yields_bindI [OF str_good_append [of s1 8]])
      fix s2
      assume s2: "str_good s2 \<and> s_data s2 = s_data s1 @ x"
      show "yields (string_append s2 ''>'') (\<lambda>t. str_good t \<and> s_data t = s_data s @ ''<'' @ x @ ''>'')"
        by (rule yields_conseq [OF str_good_append [of s2 1]]) (use s1 s2 x r in auto)
    qed (use s1 x r in auto)
  qed (use r in simp_all)
  show ?thesis
  proof (cases v)
    case (V_Num n)
    have n: "num_ok D n" using v V_Num by simp
    have cap: "DECI_BASE_LOG D * nwords n + 3 \<le> SIZE_MAX" "number_tostring_size D n \<noteq> SIZE_MAX"
      using room V_Num number_tostring_yields(1) [OF n] by (auto simp: SIZEOF_STRING_def SIZE_MAX_def)
    note size = number_tostring_yields(1) [OF n cap(1)]
    have "yields (string_hot_append_begin s (number_tostring_size D n))
        (\<lambda>t. str_good t \<and> s_data t = s_data s \<and> s_size s + number_tostring_size D n \<le> s_capacity t)"
      by (rule yields_conseq [OF string_hot_append_begin_yields]) (use s room V_Num size in \<open>auto simp: str_good_def\<close>)
    then obtain t where t: "string_hot_append_begin s (number_tostring_size D n) = Some t" "str_good t"
        "s_data t = s_data s" "s_size s + number_tostring_size D n \<le> s_capacity t"
      by (auto simp: yields_iff_ex)
    obtain x where x: "number_tostring D n (number_tostring_size D n) = Some x" "canonical 10 x (num_val D n)"
        "length x \<le> number_tostring_size D n"
      using number_tostring_yields(2) [OF n cap(1)] by (auto simp: yields_iff_ex)
    show ?thesis
      using V_Num t x cap(2) size
      by (auto simp: Let_def string_hot_append_end_def str_good_def str_ok_def hash_str_append)
  next
    case (V_Str t)
    then show ?thesis using str_good_append [OF s, of "s_size t" "s_data t"] room by simp
  next
    case (V_Flag b)
    then show ?thesis using str_good_append [OF s, of 10 "if b then ''true'' else ''false''"] room by auto
  qed (use short [of "kind_name v"] room in auto)
qed

lemma concat_yields:
  assumes l: "val_ok D h l" and r: "val_ok D h r" and room: "2 * (repr_size D l + repr_size D r) + SIZEOF_STRING \<le> SIZE_MAX"
  shows "yields (perform_aop D ntp same AOP_CONCAT l r)
    (\<lambda>v. \<exists>s x y. v = Inr (V_Str s) \<and> str_good s \<and> s_data s = x @ y \<and> repr_of D l x \<and> repr_of D r y)"
proof (cases "\<exists>s. l = V_Str s")
  case True
  then obtain s where s: "l = V_Str s" by blast
  show ?thesis
    using append_string_repr_yields [of s D h r] l r room
    by (auto simp: s perform_aop_def elim!: yields_conseq)
next
  case False
  let ?P = "\<lambda>v. \<exists>s x y. v = Inr (V_Str s) \<and> str_good s \<and> s_data s = x @ y \<and> repr_of D l x \<and> repr_of D r y"
  have "yields (do { s \<leftarrow> string_new []; s \<leftarrow> append_string_repr D s l; s \<leftarrow> append_string_repr D s r; Some (Inr (V_Str s)) }) ?P"
  proof (rule yields_bindI [OF string_new_with_capacity_yields [of "[]" 0, folded string_new_def [of "[]", simplified]]])
    fix s
    assume "str_ok s \<and> s_data s = [] \<and> s_capacity s = 0 \<and> s_nrefs s = 1"
    then have s: "str_good s" "s_data s = []" by (auto simp: str_good_def SIZEOF_STRING_def SIZE_MAX_def)
    show "yields (do { s \<leftarrow> append_string_repr D s l; s \<leftarrow> append_string_repr D s r; Some (Inr (V_Str s)) }) ?P"
    proof (rule yields_bindI [OF append_string_repr_yields [OF s(1) l]])
      fix t
      assume "str_good t \<and> (\<exists>x. repr_of D l x \<and> s_data t = s_data s @ x \<and> length x \<le> repr_size D l)"
      then obtain x where t: "str_good t" "repr_of D l x" "s_data t = x" "length x \<le> repr_size D l" using s by auto
      show "yields (do { s \<leftarrow> append_string_repr D t r; Some (Inr (V_Str s)) }) ?P"
        by (rule yields_bindI [OF append_string_repr_yields [OF t(1) r]]) (use t room in auto)
    qed (use s room in simp)
  qed (simp_all add: SIZEOF_STRING_def SIZE_MAX_def)
  then show ?thesis using False by (cases l) (auto simp: perform_aop_def)
qed

section \<open>Comparison\<close>

definition cmp_holds :: "nat \<Rightarrow> 'a :: linorder \<Rightarrow> 'a \<Rightarrow> bool" where
  "cmp_holds a x y \<longleftrightarrow> a AND compare_code x y \<noteq> 0"

lemma cmp_holds_simps:
  "cmp_holds COMPARE_LESS x y \<longleftrightarrow> x < y"
  "cmp_holds (COMPARE_LESS OR COMPARE_EQ) x y \<longleftrightarrow> x \<le> y"
  "cmp_holds COMPARE_GREATER x y \<longleftrightarrow> y < x"
  "cmp_holds (COMPARE_GREATER OR COMPARE_EQ) x y \<longleftrightarrow> y \<le> x"
  by (auto simp: cmp_holds_def compare_code_def compare_codes)

lemma values_equal_num:
  assumes "deci_ok D" and "num_ok D m" and "num_ok D n"
  shows "values_equal D (V_Num m) (V_Num n) = Some (num_val D m = num_val D n)"
  using number_compare_eq [OF assms] by (simp add: values_equal_def compare_code_def)

section \<open>Access to elements\<close>

text \<open>The index that a number stands for.\<close>

definition index_of :: "rat \<Rightarrow> nat" where
  "index_of x = (if x < 0 \<or> of_nat SIZE_MAX \<le> x then SIZE_MAX else nat \<lfloor>x\<rfloor>)"

lemma number_to_zu_index: "deci_ok D \<Longrightarrow> num_ok D n \<Longrightarrow> number_to_zu D n = index_of (num_val D n)"
  unfolding index_of_def by (rule number_to_zu_val)

definition list_room :: "vlist \<Rightarrow> bool" where
  "list_room l \<longleftrightarrow> 16 * length (l_data l) + 8 \<le> SIZE_MAX"

lemma list_append_steal_yields:
  assumes "list_good l" and "list_room l"
  shows "yields (list_append_steal l v) (\<lambda>l'. list_good l' \<and> l_data l' = l_data l @ [v])"
proof (cases "length (l_data l) = l_capacity l")
  case True
  have "yields (uu_x2realloc (l_capacity l) 8) (\<lambda>n'. n' = max 1 (2 * l_capacity l))"
    by (rule yields_uu_x2realloc) (use assms(2) True in \<open>auto simp: list_room_def\<close>)
  then show ?thesis
    using True assms(2) by (auto simp: list_append_steal_def list_good_def list_room_def max_def elim!: yields_conseq)
qed (use assms(1) in \<open>simp add: list_append_steal_def list_good_def\<close>)

lemma heap_lookup_update:
  "heap_list h a \<noteq> None \<Longrightarrow> heap_list (h[a := O_List l]) b = (if b = a then Some l else heap_list h b)"
  "heap_list h a \<noteq> None \<Longrightarrow> heap_dict (h[a := O_List l]) b = heap_dict h b"
  "heap_list h a \<noteq> None \<Longrightarrow> heap_func (h[a := O_List l]) b = heap_func h b"
  "heap_dict h a \<noteq> None \<Longrightarrow> heap_list (h[a := O_Dict d]) b = heap_list h b"
  "heap_dict h a \<noteq> None \<Longrightarrow> heap_dict (h[a := O_Dict d]) b = (if b = a then Some d else heap_dict h b)"
  "heap_dict h a \<noteq> None \<Longrightarrow> heap_func (h[a := O_Dict d]) b = heap_func h b"
  by (auto simp: heap_list_def heap_dict_def heap_func_def nth_list_update split: obj.splits if_splits)

text \<open>A pointer to an element that is there.\<close>

fun ptr_ok :: "'f heap \<Rightarrow> elem_ptr \<Rightarrow> bool" where
  "ptr_ok h (List_Elem a i) = (\<exists>l. heap_list h a = Some l \<and> i < length (l_data l))"
| "ptr_ok h (Dict_Elem a p) = (\<exists>d k. heap_dict h a = Some d \<and> points_to d p k \<and> length k + SIZEOF_STRING \<le> SIZE_MAX)"

text \<open>What an element pointer does to a list and to a dictionary.\<close>

lemma list_ptr_yields:
  assumes D: "deci_ok D" and h: "heap_ok D P h" and l: "heap_list h a = Some l" and n: "num_ok D n" and room: "list_room l"
  shows "yields (get_elem_ptr_at D h (V_List a) (V_Num n)) (\<lambda>(h', r).
    let i = index_of (num_val D n); nil = (if i = length (l_data l) then [V_Nil] else []) in
    if i > length (l_data l) then h' = h \<and> r = Inl ''attempt to insert past the end of the list''
    else r = Inr (List_Elem a i) \<and> (\<exists>l'. h' = h[a := O_List l'] \<and> l_data l' = l_data l @ nil \<and> list_good l'))"
proof -
  have g: "list_good l" using heap_ok_list [OF h l] by simp
  have same: "h[a := O_List l] = h" using l by (metis heap_lookup_iff(1) list_update_id)
  let ?i = "index_of (num_val D n)"
  consider "?i = length (l_data l)" | "length (l_data l) < ?i" | "?i < length (l_data l)" by linarith
  then show ?thesis
  proof cases
    case 1
    with list_append_steal_yields [OF g room, of V_Nil] show ?thesis
      by (auto simp: l number_to_zu_index [OF D n] Let_def elim!: yields_conseq)
  next
    case 3
    then show ?thesis
      using g same by (auto simp: l number_to_zu_index [OF D n] Let_def intro!: exI [of _ l])
  qed (simp add: l number_to_zu_index [OF D n] Let_def)
qed

lemma list_ptr_cases:
  assumes D: "deci_ok D" and h: "heap_ok D P h" and l: "heap_list h a = Some l" and n: "num_ok D n" and room: "list_room l"
  obtains (past) "length (l_data l) < index_of (num_val D n)"
      "get_elem_ptr_at D h (V_List a) (V_Num n) = Some (h, Inl ''attempt to insert past the end of the list'')"
    | (elem) l' where "index_of (num_val D n) \<le> length (l_data l)"
      "get_elem_ptr_at D h (V_List a) (V_Num n) = Some (h[a := O_List l'], Inr (List_Elem a (index_of (num_val D n))))"
      "l_data l' = l_data l @ (if index_of (num_val D n) = length (l_data l) then [V_Nil] else [])" "list_good l'"
  using list_ptr_yields [OF assms] by (auto simp: yields_iff_ex Let_def split: if_splits)

lemma dict_ptr_yields:
  assumes h: "heap_ok D P h" and d: "heap_dict h a = Some d" and s: "str_good s" and room: "xht_room d"
  shows "yields (get_elem_ptr_at D h (V_Dict a) (V_Str s)) (\<lambda>(h', r). \<exists>d' p.
    h' = h[a := O_Dict d'] \<and> r = Inr (Dict_Elem a p) \<and> dict_ok d' \<and> points_to d' p (s_data s) \<and>
    dict_map d' = (dict_map d)(s_data s \<mapsto> (case dict_map d (s_data s) of None \<Rightarrow> V_Nil | Some v \<Rightarrow> v)))"
proof -
  have "dict_ok d" using heap_ok_dict [OF h d] by simp
  moreover have "key_ok s" using s by (auto simp: str_good_def key_ok_def str_ok_def)
  ultimately show ?thesis
    using dict_get_ptr_yields [of d s V_Nil] room d by (auto elim!: yields_conseq)
qed

lemma dict_store_yields:
  assumes d: "dict_ok d" and p: "points_to d p k" and k: "length k + SIZEOF_STRING \<le> SIZE_MAX"
  shows "yields (xht_store d p (Some v)) (\<lambda>d'. dict_ok d' \<and> dict_map d' = (dict_map d)(k \<mapsto> v))"
  by (rule yields_conseq [OF xht_store_yields [OF dict_okD [OF d] p]]) (use dict_ok_store [OF d _ _ k] in auto)

lemma list_obj_set:
  assumes "\<forall>v\<in>set (l_data l). val_ok D h v" and "val_ok D h v" and "list_good l"
  shows "obj_ok D P h (O_List (l\<lparr>l_data := (l_data l)[i := v]\<rparr>))"
  using assms set_update_subset_insert [of "l_data l" i v] by (auto simp: list_good_def)

lemma elem_load_yields:
  assumes h: "heap_ok D P h" and p: "ptr_ok h p"
  shows "yields (elem_load h p) (val_ok D h)"
proof (cases p)
  case (List_Elem a i)
  with p heap_ok_list [OF h] show ?thesis by force
next
  case (Dict_Elem a r)
  with p obtain d k where d: "heap_dict h a = Some d" "points_to d r k" by auto
  note ok = heap_ok_dict [OF h d(1)]
  have "xht_load d r = xht_map d k" using ok d(2) by (simp add: xht_load_eq dict_okD)
  moreover obtain v where "xht_map d k = Some v"
    using d(2) xht_map_nth [OF dict_okD, of d r] ok by (auto simp: points_to_def)
  moreover from this obtain w where "v = Some w" using ok by (auto simp: dict_ok_def)
  ultimately have "xht_load d r = Some (Some w)" "dict_map d k = Some w" by (simp_all add: dict_map_def)
  then show ?thesis
    using ok d(1) Dict_Elem ranI [of "dict_map d" k w] by simp
qed

lemma elem_store_yields:
  assumes h: "heap_ok D P h" and p: "ptr_ok h p" and v: "val_ok D h v"
  shows "yields (elem_store h p v) (\<lambda>h'. heap_ok D P h' \<and> heap_le h h' \<and> length h' = length h)"
proof (cases p)
  case (List_Elem a i)
  with p obtain l where l: "heap_list h a = Some l" "i < length (l_data l)" by auto
  have le: "heap_le h (h[a := O_List (l\<lparr>l_data := (l_data l)[i := v]\<rparr>)])" by (rule heap_le_update) (simp add: l)
  show ?thesis
    using heap_ok_update [OF h le list_obj_set] heap_ok_list [OF h l(1)] v l le List_Elem by simp
next
  case (Dict_Elem a r)
  with p obtain d k where d: "heap_dict h a = Some d" "points_to d r k" "length k + SIZEOF_STRING \<le> SIZE_MAX" by auto
  note ok = heap_ok_dict [OF h d(1)]
  have "yields (xht_store d r (Some v)) (\<lambda>d'. heap_ok D P (h[a := O_Dict d']) \<and> heap_le h (h[a := O_Dict d']))"
  proof (rule yields_conseq [OF dict_store_yields [OF _ d(2,3)]])
    fix d'
    assume d': "dict_ok d' \<and> dict_map d' = (dict_map d)(k \<mapsto> v)"
    have le: "heap_le h (h[a := O_Dict d'])" by (rule heap_le_update) (simp add: d)
    moreover have "obj_ok D P h (O_Dict d')" using d' ok v by (auto simp: ran_def)
    ultimately show "heap_ok D P (h[a := O_Dict d']) \<and> heap_le h (h[a := O_Dict d'])"
      using heap_ok_update [OF h] by blast
  qed (use ok in simp)
  then show ?thesis using d Dict_Elem by (auto elim!: yields_conseq)
qed

section \<open>Results are well formed\<close>

definition result_ok :: "deci \<Rightarrow> 'f heap \<Rightarrow> string + val \<Rightarrow> bool" where
  "result_ok D h r \<longleftrightarrow> (\<forall>v. r = Inr v \<longrightarrow> val_ok D h v)"

lemma result_ok_simps [simp]: "result_ok D h (Inl m)" "result_ok D h (Inr v) \<longleftrightarrow> val_ok D h v"
  by (simp_all add: result_ok_def)

lemma num_result_ok: "num_result D x r \<Longrightarrow> result_ok D h r"
  by (auto simp: num_result_def split: sum.splits)

definition aop_space :: "deci \<Rightarrow> ntp \<Rightarrow> aop \<Rightarrow> val \<Rightarrow> val \<Rightarrow> bool" where
  "aop_space D ntp op l r \<longleftrightarrow>
     (if op = AOP_CONCAT then 2 * (repr_size D l + repr_size D r) + SIZEOF_STRING \<le> SIZE_MAX
      else case (l, r) of (V_Num a, V_Num b) \<Rightarrow> aop_room D ntp op a b | _ \<Rightarrow> True)"

lemma perform_aop_nums:
  "arithmetic op \<Longrightarrow> perform_aop D ntp same op (V_Num a) (V_Num b) = number_aop D ntp same op a b"
  by (simp add: perform_aop_def arithmetic_def)

lemma perform_aop_kinds:
  "arithmetic op \<Longrightarrow> \<not> (val_kind l = VK_NUM \<and> val_kind r = VK_NUM) \<Longrightarrow>
   perform_aop D ntp same op l r =
     Some (Inl (''attempt to compute '' @ kind_name l @ '' '' @ aop_repr op @ '' '' @ kind_name r))"
  by (cases l; cases r) (simp_all add: perform_aop_def arithmetic_def)

lemma perform_aop_logic:
  "perform_aop D ntp same AOP_AND l r = Some (Inr (if value_is_truthy l then r else l))"
  "perform_aop D ntp same AOP_OR l r = Some (Inr (if value_is_truthy l then l else r))"
  by (simp_all add: perform_aop_def)

lemma perform_aop_ok:
  assumes D: "deci_ok D" and l: "val_ok D h l" and r: "val_ok D h r" and same: "same \<Longrightarrow> l = r"
    and ntp: "ntp_ok D ntp prec" and space: "aop_space D ntp op l r"
  shows "yields (perform_aop D ntp same op l r) (result_ok D h)"
proof (cases "arithmetic op")
  case True
  show ?thesis
  proof (cases "val_kind l = VK_NUM \<and> val_kind r = VK_NUM")
    case nums: True
    then obtain a b where ab: "l = V_Num a" "r = V_Num b" by (cases l; cases r) auto
    then have "yields (number_aop D ntp same op a b) (num_result D (num_spec prec op (num_val D a) (num_val D b)))"
      using l r same space True
      by (intro number_aop_yields [OF D _ _ _ ntp]) (auto simp: aop_space_def arithmetic_def)
    then show ?thesis
      unfolding ab perform_aop_nums [OF True] by (rule yields_conseq) (rule num_result_ok)
  next
    case False
    then show ?thesis by (simp add: perform_aop_kinds [OF True])
  qed
next
  case False
  then consider "op = AOP_AND" | "op = AOP_OR" | "op = AOP_CONCAT" by (auto simp: arithmetic_def)
  then show ?thesis
  proof cases
    case 3
    show ?thesis
      unfolding 3 by (rule yields_conseq [OF concat_yields [OF l r]]) (use space 3 in \<open>auto simp: aop_space_def\<close>)
  qed (use l r in \<open>simp_all add: perform_aop_logic\<close>)
qed

lemma perform_cmp_3way_ok:
  assumes D: "deci_ok D" and l: "val_ok D h l" and r: "val_ok D h r" and a: "cmp_repr a \<noteq> None"
  shows "yields (perform_cmp_3way D l r a) (result_ok D h)"
  using a l r number_compare_eq [OF D] by (cases l; cases r) auto

lemma values_equal_ok:
  assumes "deci_ok D" and "val_ok D h l" and "val_ok D h r"
  shows "values_equal D l r \<noteq> None"
  using assms number_compare_eq [OF assms(1)] by (cases l; cases r) (auto simp: values_equal_def)

lemma new_from_zu_ok:
  assumes "deci_ok D" and "x \<le> SIZE_MAX"
  shows "yields (ok_num (number_new_from_zu D x)) (num_result D (Inr (of_nat x)))"
  by (rule ok_num_yields, rule yields_conseq [OF number_new_from_zu_yields [OF assms]]) simp

lemma perform_neg_ok:
  assumes "deci_ok D" and "val_ok D h v"
  shows "yields (perform_neg D v) (result_ok D h)"
proof (cases v)
  case (V_Num a)
  then have "yields (ok_num (number_negate D a)) (num_result D (Inr (- num_val D a)))"
    using assms by (intro ok_num_yields yields_conseq [OF number_negate_yields]) auto
  then show ?thesis unfolding V_Num perform_neg.simps by (rule yields_conseq) (rule num_result_ok)
qed simp_all

lemma heap_sizes:
  assumes "heap_ok D P h"
  shows "heap_list h a = Some l \<Longrightarrow> length (l_data l) \<le> SIZE_MAX"
    and "heap_dict h a = Some d \<Longrightarrow> xht_size d \<le> SIZE_MAX"
proof -
  show "length (l_data l) \<le> SIZE_MAX" if "heap_list h a = Some l"
    using heap_ok_list [OF assms that] by (simp add: list_good_def)
  show "xht_size d \<le> SIZE_MAX" if "heap_dict h a = Some d"
    using heap_ok_dict [OF assms that] xht_inv_size [OF dict_okD, of d] UINT32_MAX_less_SIZE_MAX by (simp add: xht_size_def)
qed

lemma perform_len_ok:
  assumes D: "deci_ok D" and h: "heap_ok D P h" and v: "val_ok D h v"
  shows "yields (perform_len D h v) (result_ok D h)"
proof -
  have new: "yields (ok_num (number_new_from_zu D x)) (result_ok D h)" if "x \<le> SIZE_MAX" for x
    by (rule yields_conseq [OF new_from_zu_ok [OF D that]]) (rule num_result_ok)
  show ?thesis
    using v heap_sizes [OF h] new by (cases v) (auto simp: str_good_def str_ok_def)
qed

lemma get_elem_at_ok:
  assumes D: "deci_ok D" and h: "heap_ok D P h" and c: "val_ok D h c" and i: "val_ok D h i"
  shows "yields (get_elem_at D h c i) (result_ok D h)"
proof (cases c)
  case (V_List a)
  then obtain l where "heap_list h a = Some l" using c by auto
  with V_List heap_ok_list [OF h this] show ?thesis by (cases i) (auto simp: Let_def)
next
  case (V_Dict a)
  then obtain d where d: "heap_dict h a = Some d" using c by auto
  note ok = heap_ok_dict [OF h d]
  have "dict_get d s = Some (dict_map d (s_data s))" if "str_good s" for s
    using that ok by (intro dict_get_eq) (auto simp: str_good_def key_ok_def str_ok_def)
  then show ?thesis
    using V_Dict d ok i by (cases i) (auto simp: ran_def split: option.splits)
next
  case (V_Str s)
  have "yields (map_option (\<lambda>t. Inr (V_Str t)) (string_new [s_data s ! k])) (result_ok D h)" for k
    unfolding string_new_def
    by (simp only: yields_map, rule yields_conseq [OF string_new_with_capacity_yields])
      (auto simp: SIZEOF_STRING_def SIZE_MAX_def str_good_def)
  with V_Str show ?thesis by (cases i) (auto simp: Let_def)
qed auto

definition elem_room :: "'f heap \<Rightarrow> val \<Rightarrow> bool" where
  "elem_room h c \<longleftrightarrow> (case c of
     V_List a \<Rightarrow> (\<forall>l. heap_list h a = Some l \<longrightarrow> list_room l)
   | V_Dict a \<Rightarrow> (\<forall>d. heap_dict h a = Some d \<longrightarrow> xht_room d)
   | _ \<Rightarrow> True)"

lemma get_elem_ptr_at_ok:
  assumes D: "deci_ok D" and h: "heap_ok D P h" and c: "val_ok D h c" and i: "val_ok D h i" and room: "elem_room h c"
  shows "yields (get_elem_ptr_at D h c i) (\<lambda>(h', r). heap_ok D P h' \<and> heap_le h h' \<and> (\<forall>p. r = Inr p \<longrightarrow> ptr_ok h' p))"
proof (cases c)
  case (V_List a)
  then obtain l where l: "heap_list h a = Some l" using c by auto
  note ok = heap_ok_list [OF h l]
  show ?thesis
  proof (cases i)
    case (V_Num n)
    have ok': "heap_ok D P (h[a := O_List l']) \<and> heap_le h (h[a := O_List l'])"
      if "l_data l' = l_data l @ nil" "list_good l'" "set nil \<subseteq> {V_Nil}" for l' nil
    proof -
      have le: "heap_le h (h[a := O_List l'])" by (rule heap_le_update) (simp add: l)
      moreover have "obj_ok D P h (O_List l')" using ok that by auto
      ultimately show ?thesis using heap_ok_update [OF h] by blast
    qed
    have n: "num_ok D n" "list_room l" using i V_Num room V_List l by (simp_all add: elem_room_def)
    show ?thesis
      by (rule list_ptr_cases [OF D h l n])
        (use V_List V_Num h l ok' in \<open>auto simp: heap_lookup_update simp del: get_elem_ptr_at.simps\<close>)
  qed (use V_List h in auto)
next
  case (V_Dict a)
  then obtain d where d: "heap_dict h a = Some d" using c by auto
  note ok = heap_ok_dict [OF h d]
  show ?thesis
  proof (cases i)
    case (V_Str s)
    have s: "str_good s" "xht_room d" using i V_Str room V_Dict d by (simp_all add: elem_room_def)
    have k: "s_size s + SIZEOF_STRING \<le> SIZE_MAX" using s by (auto simp: str_good_def str_ok_def)
    have ok': "heap_ok D P (h[a := O_Dict d']) \<and> heap_le h (h[a := O_Dict d'])"
      if "dict_ok d'" "dict_map d' = (dict_map d)(k \<mapsto> v)" "val_ok D h v" for d' k v
    proof -
      have le: "heap_le h (h[a := O_Dict d'])" by (rule heap_le_update) (simp add: d)
      moreover have "obj_ok D P h (O_Dict d')" using ok that by (auto simp: ran_def)
      ultimately show ?thesis using heap_ok_update [OF h] by blast
    qed
    have v: "val_ok D h (case dict_map d (s_data s) of None \<Rightarrow> V_Nil | Some v \<Rightarrow> v)"
      using ok by (auto simp: ran_def split: option.splits)
    show ?thesis
      unfolding V_Dict V_Str
      by (rule yields_conseq [OF dict_ptr_yields [OF h d s]]) (use ok' v k d in \<open>force simp: heap_lookup_update\<close>)
  qed (use V_Dict h in auto)
qed (use h in auto)

section \<open>Properties\<close>

text \<open>
  C30: The arithmetic and bitwise operators on two numbers of the language compute the specified rational
  function, exactly except that a quotient is truncated to the precision of the state, or fail with the
  specified message: division by zero (by an integer part of zero, for the integer operators), a negative
  or a fractional exponent.
\<close>

theorem arithmetic_exact:
  assumes "deci_ok D" and "num_ok D a" and "num_ok D b" and "same \<longrightarrow> a = b" and "arithmetic op"
    and "aop_room D (ntp_from_prec D prec) op a b"
  shows "yields (perform_aop D (ntp_from_prec D prec) same op (V_Num a) (V_Num b)) (\<lambda>r.
    case num_spec prec op (num_val D a) (num_val D b) of
      Inl m \<Rightarrow> r = Inl m
    | Inr x \<Rightarrow> \<exists>c. r = Inr (V_Num c) \<and> num_ok D c \<and> num_val D c = x)"
  unfolding perform_aop_nums [OF assms(5)] num_result_def [symmetric]
  by (rule number_aop_yields) (use assms ntp_from_prec_ok in auto)

theorem arithmetic_exact_witness:
  "let a = \<lparr>nrefs = 1, sign = True, scale = 1, words = [500, 1]\<rparr>; b = \<lparr>nrefs = 1, sign = False, scale = 0, words = [3]\<rparr> in
   yields (perform_aop deci_ref (ntp_from_prec deci_ref 2) False AOP_DIV (V_Num a) (V_Num b))
     (\<lambda>r. \<exists>c. r = Inr (V_Num c) \<and> num_val deci_ref c = -1/2)"
proof -
  let ?a = "\<lparr>nrefs = 1, sign = True, scale = 1, words = [500, 1]\<rparr>" and ?b = "\<lparr>nrefs = 1, sign = False, scale = 0, words = [3]\<rparr>"
  have room: "aop_room deci_ref (ntp_from_prec deci_ref 2) AOP_DIV ?a ?b"
    by (simp add: div_words_def ntp_from_prec_def fits_def SIZEOF_NUMBER_def SIZE_MAX_def)
  have "trunc_to 2 (-3/2 / 3) = -1/2" by (simp add: trunc_to_def)
  with arithmetic_exact [OF deci_ref_ok sample_ok(1,2) _ _ room, of False] show ?thesis
    unfolding sample_val Let_def by (auto simp: arithmetic_def elim!: yields_conseq)
qed

text \<open>
  C31: The comparison operators order numbers by their values and strings by their bytes, equality is that of
  the values and of the bytes, and values of different kinds are never equal.
\<close>

theorem comparisons_exact:
  assumes D: "deci_ok D" and m: "num_ok D m" and n: "num_ok D n" and s: "str_ok s" and t: "str_ok t"
  shows "(\<forall>(a, rel) \<in> set [(COMPARE_LESS, (<)), (COMPARE_LESS OR COMPARE_EQ, (\<le>)),
                        (COMPARE_GREATER, (>)), (COMPARE_GREATER OR COMPARE_EQ, (\<ge>))].
      perform_cmp_3way D (V_Num m) (V_Num n) a = Some (Inr (V_Flag (rel (num_val D m) (num_val D n))))) \<and>
    (\<forall>(a, rel) \<in> set [(COMPARE_LESS, (<)), (COMPARE_LESS OR COMPARE_EQ, (\<le>)),
                   (COMPARE_GREATER, (>)), (COMPARE_GREATER OR COMPARE_EQ, (\<ge>))].
      perform_cmp_3way D (V_Str s) (V_Str t) a = Some (Inr (V_Flag (rel (s_data s) (s_data t))))) \<and>
    values_equal D (V_Num m) (V_Num n) = Some (num_val D m = num_val D n) \<and>
    values_equal D (V_Str s) (V_Str t) = Some (s_data s = s_data t) \<and>
    (\<forall>v w. val_kind v \<noteq> val_kind w \<longrightarrow> values_equal D v w = Some False)"
proof (intro conjI)
  have nums: "perform_cmp_3way D (V_Num m) (V_Num n) a = Some (Inr (V_Flag (cmp_holds a (num_val D m) (num_val D n))))" for a
    by (simp add: number_compare_eq [OF D m n] cmp_holds_def)
  have strs: "perform_cmp_3way D (V_Str s) (V_Str t) a = Some (Inr (V_Flag (cmp_holds a (s_data s) (s_data t))))" for a
    by (simp add: string_compare_eq cmp_holds_def)
  show "\<forall>(a, rel) \<in> set [(COMPARE_LESS, (<)), (COMPARE_LESS OR COMPARE_EQ, (\<le>)),
                        (COMPARE_GREATER, (>)), (COMPARE_GREATER OR COMPARE_EQ, (\<ge>))].
      perform_cmp_3way D (V_Num m) (V_Num n) a = Some (Inr (V_Flag (rel (num_val D m) (num_val D n))))"
    by (simp add: nums cmp_holds_simps del: perform_cmp_3way.simps)
  show "\<forall>(a, rel) \<in> set [(COMPARE_LESS, (<)), (COMPARE_LESS OR COMPARE_EQ, (\<le>)),
                   (COMPARE_GREATER, (>)), (COMPARE_GREATER OR COMPARE_EQ, (\<ge>))].
      perform_cmp_3way D (V_Str s) (V_Str t) a = Some (Inr (V_Flag (rel (s_data s) (s_data t))))"
    by (simp add: strs cmp_holds_simps del: perform_cmp_3way.simps)
  show "values_equal D (V_Num m) (V_Num n) = Some (num_val D m = num_val D n)"
    by (rule values_equal_num [OF D m n])
  show "values_equal D (V_Str s) (V_Str t) = Some (s_data s = s_data t)"
    by (simp add: values_equal_def string_equal_iff [OF s t])
qed (simp add: values_equal_def)

theorem comparisons_exact_witness:
  "let m = \<lparr>nrefs = 1, sign = True, scale = 1, words = [500, 1]\<rparr>; n = \<lparr>nrefs = 1, sign = False, scale = 0, words = [3]\<rparr> in
   perform_cmp_3way deci_ref (V_Num m) (V_Num n) COMPARE_LESS = Some (Inr (V_Flag True))"
proof -
  have "str_ok \<lparr>s_nrefs = 1, s_capacity = 0, s_hash = hash_str [], s_data = []\<rparr>" by (simp add: str_ok_def)
  from comparisons_exact [OF deci_ref_ok sample_ok(1,2) this this, of 1 True 1 False] show ?thesis
    unfolding sample_val Let_def by simp
qed

text \<open>
  C32: The concatenation of two values is the string of their texts: the canonical decimal text of a number,
  the bytes of a string, \<open>true\<close> or \<open>false\<close>, and the name of the kind in angle brackets for the rest; the
  hash of the result is the hash of its bytes.
\<close>

theorem concat_exact:
  assumes "val_ok D h l" and "val_ok D h r" and "2 * (repr_size D l + repr_size D r) + SIZEOF_STRING \<le> SIZE_MAX"
  shows "yields (perform_aop D ntp same AOP_CONCAT l r) (\<lambda>v. \<exists>s x y. v = Inr (V_Str s) \<and>
    repr_of D l x \<and> repr_of D r y \<and> s_data s = x @ y \<and> s_hash s = hash_str (x @ y))"
  by (rule yields_conseq [OF concat_yields [OF assms]]) (use str_good_def str_ok_def in fastforce)

theorem concat_exact_witness:
  "yields (perform_aop deci_ref (ntp_from_prec deci_ref 20) False AOP_CONCAT (V_Flag True) V_Nil)
    (\<lambda>v. \<exists>s. v = Inr (V_Str s) \<and> s_data s = ''true<nil>'')"
  using concat_exact [of deci_ref "[] :: nat heap" "V_Flag True" V_Nil "ntp_from_prec deci_ref 20" False]
  by (auto simp: SIZEOF_STRING_def SIZE_MAX_def elim!: yields_conseq)

text \<open>
  C33: Assignment to an element of a list. A number that is not negative stands for its integer part, saturated to a
  \<open>size_t\<close>, and a negative number for an index past the end of any list (\<open>index_of\<close>). Within the list the element is
  replaced, at its end the list grows by one, and past it the assignment fails. Reading the element back gives the
  value, no other object changes, and the heap stays well formed. Left out are numbers between -1 and 0 with an
  empty list, where the README says that the integer part 0 is meant, and the code fails.
\<close>

theorem list_assignment:
  assumes D: "deci_ok D" and h: "heap_ok D P h" and l: "heap_list h a = Some l" and n: "num_ok D n"
    and v: "val_ok D h v" and room: "list_room l" and frac: "l_data l = [] \<Longrightarrow> num_val D n \<le> -1 \<or> 0 \<le> num_val D n"
  shows "yields (do {
      (h1, r) \<leftarrow> get_elem_ptr_at D h (V_List a) (V_Num n);
      case r of Inl m \<Rightarrow> Some (Inl m) | Inr p \<Rightarrow> do {
        h2 \<leftarrow> elem_store h1 p v;
        x \<leftarrow> get_elem_at D h2 (V_List a) (V_Num n);
        Some (Inr (h2, x))
      }
    }) (\<lambda>r. let i = index_of (num_val D n); k = length (l_data l) in
      if i > k then r = Inl ''attempt to insert past the end of the list''
      else \<exists>h2. r = Inr (h2, Inr v) \<and> heap_ok D P h2 \<and> (\<forall>b. b \<noteq> a \<longrightarrow> h2 ! b = h ! b) \<and>
        map_option l_data (heap_list h2 a) = Some (if i = k then l_data l @ [v] else (l_data l)[i := v]))"
proof (rule list_ptr_cases [OF D h l n room])
  let ?i = "index_of (num_val D n)"
  fix l'
  assume i: "?i \<le> length (l_data l)"
    and run: "get_elem_ptr_at D h (V_List a) (V_Num n) = Some (h[a := O_List l'], Inr (List_Elem a ?i))"
    and l': "l_data l' = l_data l @ (if ?i = length (l_data l) then [V_Nil] else [])" "list_good l'"
  define l2 where "l2 = l'\<lparr>l_data := (l_data l')[?i := v]\<rparr>"
  have data: "l_data l2 = (if ?i = length (l_data l) then l_data l @ [v] else (l_data l)[?i := v])"
    using l' i by (simp add: l2_def list_update_append)
  have ok: "heap_ok D P (h[a := O_List l2])"
  proof (rule heap_ok_update [OF h])
    show "heap_le h (h[a := O_List l2])" by (rule heap_le_update) (simp add: l)
    show "obj_ok D P h (O_List l2)"
      unfolding l2_def by (rule list_obj_set) (use heap_ok_list [OF h l] v l' in auto)
  qed
  have store: "elem_store (h[a := O_List l']) (List_Elem a ?i) v = Some (h[a := O_List l2])"
    using l l' i by (simp add: heap_lookup_update l2_def)
  have get: "get_elem_at D (h[a := O_List l2]) (V_List a) (V_Num n) = Some (Inr v)"
    using l l' i by (simp add: heap_lookup_update number_to_zu_index [OF D n] Let_def l2_def)
  show ?thesis
    using i ok data l
    by (simp add: run store get Let_def heap_lookup_update del: elem_store.simps get_elem_at.simps get_elem_ptr_at.simps)
qed (simp add: Let_def)

theorem list_assignment_witness:
  "let h = [O_List \<lparr>l_data = [V_Nil, V_Nil, V_Nil], l_capacity = 3\<rparr>] :: nat heap;
       n = \<lparr>nrefs = 1, sign = False, scale = 0, words = [3]\<rparr> in
   yields (do {
      (h1, r) \<leftarrow> get_elem_ptr_at deci_ref h (V_List 0) (V_Num n);
      case r of Inl m \<Rightarrow> Some (Inl m) | Inr p \<Rightarrow> do {
        h2 \<leftarrow> elem_store h1 p (V_Flag True);
        x \<leftarrow> get_elem_at deci_ref h2 (V_List 0) (V_Num n);
        Some (Inr (h2, x))
      }
    }) (\<lambda>r. \<exists>h2. r = Inr (h2, Inr (V_Flag True)) \<and>
      map_option l_data (heap_list h2 0) = Some [V_Nil, V_Nil, V_Nil, V_Flag True])"
proof -
  let ?h = "[O_List \<lparr>l_data = [V_Nil, V_Nil, V_Nil], l_capacity = 3\<rparr>] :: nat heap"
  have "heap_ok deci_ref (\<lambda>_. True) ?h" "heap_list ?h 0 = Some \<lparr>l_data = [V_Nil, V_Nil, V_Nil], l_capacity = 3\<rparr>"
    by (simp_all add: heap_ok_def list_good_def heap_list_def SIZE_MAX_def)
  note h = this
  have "index_of 3 = 3" by (simp add: index_of_def SIZE_MAX_def)
  then show ?thesis
    using list_assignment [OF deci_ref_ok h sample_ok(2) [of 1 False], of "V_Flag True"]
    unfolding Let_def sample_val by (auto simp: list_room_def SIZE_MAX_def elim!: yields_conseq)
qed

end
