(* ===== verification/Output.thy ===== *)
theory Output
  imports Values
begin

text \<open>
  Writing values to the standard output (\<open>vm.c\<close>). The output is the text written so far. The address that
  \<open>%p\<close> prints is up to the C library, a parameter.
\<close>

definition HEX_CHARS :: string where
  "HEX_CHARS = ''0123456789ABCDEF''"

definition write_char_escaped :: "char \<Rightarrow> string" where
  "write_char_escaped c =
     (if c = CHR 0x00 then [CHR 0x5C, CHR ''0'']
      else if c = CHR 0x07 then [CHR 0x5C, CHR ''a'']
      else if c = CHR 0x08 then [CHR 0x5C, CHR ''b'']
      else if c = CHR 0x09 then [CHR 0x5C, CHR ''t'']
      else if c = CHR 0x0A then [CHR 0x5C, CHR ''n'']
      else if c = CHR 0x0B then [CHR 0x5C, CHR ''v'']
      else if c = CHR 0x0C then [CHR 0x5C, CHR ''f'']
      else if c = CHR 0x0D then [CHR 0x5C, CHR ''r'']
      else if c = CHR 0x1B then [CHR 0x5C, CHR ''e'']
      else if c = CHR 0x5C then [CHR 0x5C, CHR 0x5C]
      else if c = CHR 0x22 then [CHR 0x5C, CHR 0x22]
      else [CHR 0x5C, CHR ''x'', HEX_CHARS ! (of_char c div 16), HEX_CHARS ! (of_char c mod 16)])"

text \<open>
  The loop of \<open>write_string_escaped\<close>: \<open>run\<close> is what lies between \<open>prev\<close> and \<open>s\<close>, still to be written.
\<close>

fun escape_loop :: "string \<Rightarrow> string \<Rightarrow> string \<Rightarrow> string" where
  "escape_loop out run [] = (if run \<noteq> [] then out @ run else out)"
| "escape_loop out run (c # s) =
     (if of_char c < (32 :: nat) \<or> c = CHR 0x5C \<or> c = CHR 0x22
      then escape_loop ((out @ run) @ write_char_escaped c) [] s
      else escape_loop out (run @ [c]) s)"

definition write_string_escaped :: "string \<Rightarrow> string \<Rightarrow> string" where
  "write_string_escaped out s = escape_loop (out @ [CHR 0x22]) [] s @ [CHR 0x22]"

text \<open>The loops over the elements of a list and over the entries of a dictionary; \<open>write\<close> writes a value.\<close>

fun list_write :: "(val \<Rightarrow> string \<Rightarrow> string option) \<Rightarrow> val list \<Rightarrow> bool \<Rightarrow> string \<Rightarrow> string option" where
  "list_write write [] first out = Some out"
| "list_write write (v # vs) first out =
     do {
       out \<leftarrow> write v (if first then out else out @ '', '');
       list_write write vs False out
     }"

fun dict_write :: "(val \<Rightarrow> string \<Rightarrow> string option) \<Rightarrow> val option xitem list \<Rightarrow> bool \<Rightarrow> string \<Rightarrow> string option" where
  "dict_write write [] first out = Some out"
| "dict_write write (item # its) first out =
     do {
       let out = (if first then out else out @ '', '');
       let out = write_string_escaped out (it_key item);
       v \<leftarrow> it_value item;
       out \<leftarrow> write v (out @ '': '');
       dict_write write its False out
     }"

text \<open>\<open>reclimit\<close> is decremented on entry, and zero cuts the value off.\<close>

primrec value_write :: "deci \<Rightarrow> (val \<Rightarrow> string) \<Rightarrow> 'f heap \<Rightarrow> val \<Rightarrow> bool \<Rightarrow> nat \<Rightarrow> string \<Rightarrow> string option" where
  "value_write D addr h v esc 0 out = Some (out @ ''...'')"
| "value_write D addr h v esc (Suc reclimit) out =
     (case v of
        V_Num n \<Rightarrow> Some (number_write D n out (@))
      | V_Flag b \<Rightarrow> Some (out @ (if b then ''true'' else ''false''))
      | V_Nil \<Rightarrow> Some (out @ ''nil'')
      | V_Str s \<Rightarrow> Some (if esc then write_string_escaped out (s_data s) else out @ s_data s)
      | V_List a \<Rightarrow> do {
          l \<leftarrow> heap_list h a;
          out \<leftarrow> list_write (\<lambda>v. value_write D addr h v True reclimit) (l_data l) True (out @ ''['');
          Some (out @ '']'')
        }
      | V_Dict a \<Rightarrow> do {
          d \<leftarrow> heap_dict h a;
          out \<leftarrow> dict_write (\<lambda>v. value_write D addr h v True reclimit) (items d) True (out @ ''{'');
          Some (out @ ''}'')
        }
      | V_Func a \<Rightarrow> Some (out @ ''<function at '' @ addr v @ ''>'')
      | V_CFunc f \<Rightarrow> Some (out @ ''<function at '' @ addr v @ ''>'')
      | V_Wref w \<Rightarrow> Some (out @ ''<weakref at '' @ addr v @ ''>''))"

definition value_print :: "deci \<Rightarrow> (val \<Rightarrow> string) \<Rightarrow> 'f heap \<Rightarrow> val \<Rightarrow> string \<Rightarrow> string option" where
  "value_print D addr h v out =
     (if val_kind v \<noteq> VK_NIL then do {
        out \<leftarrow> value_write D addr h v False 3 out;
        Some (out @ [CHR 0x0A])
      } else Some out)"

section \<open>Writing always ends\<close>

lemma list_write_yields:
  "(\<And>v out. v \<in> set vs \<Longrightarrow> write v out \<noteq> None) \<Longrightarrow> list_write write vs first out \<noteq> None"
proof (induction vs arbitrary: first out)
  case (Cons v vs)
  then obtain out' where "write v (if first then out else out @ '', '') = Some out'" by fastforce
  with Cons show ?case by simp
qed simp

lemma dict_write_yields:
  "(\<And>item. item \<in> set its \<Longrightarrow> \<exists>v. it_value item = Some v \<and> (\<forall>out. write v out \<noteq> None)) \<Longrightarrow>
   dict_write write its first out \<noteq> None"
proof (induction its arbitrary: first out)
  case (Cons item its)
  obtain v where v: "it_value item = Some v" "\<forall>out. write v out \<noteq> None" using Cons.prems [of item] by auto
  let ?out = "write_string_escaped (if first then out else out @ '', '') (it_key item) @ '': ''"
  obtain out' where "write v ?out = Some out'" using v(2) by blast
  with Cons v(1) show ?case by (simp add: Let_def)
qed simp

lemma dict_items_values:
  assumes "heap_ok D P h" and "heap_dict h a = Some d" and "item \<in> set (items d)"
  shows "\<exists>v. it_value item = Some v \<and> val_ok D h v"
proof -
  note ok = heap_ok_dict [OF assms(1,2)]
  obtain i where i: "i < items_size d" "item = items d ! i" using assms(3) by (auto simp: in_set_conv_nth)
  have x: "xht_map d (it_key item) = Some (it_value item)"
    using xht_map_nth [OF dict_okD i(1)] ok i(2) by simp
  with ok have "it_value item \<noteq> None" unfolding dict_ok_def by blast
  then obtain v where v: "it_value item = Some v" by blast
  with x have "dict_map d (it_key item) = Some v" by (simp add: dict_map_def)
  with ok v show ?thesis by (blast intro: ranI)
qed

lemma value_write_yields: "heap_ok D P h \<Longrightarrow> val_ok D h v \<Longrightarrow> value_write D addr h v esc n out \<noteq> None"
proof (induction n arbitrary: v esc out)
  case (Suc n)
  note IH = Suc.IH [OF Suc.prems(1)]
  show ?case
  proof (cases v)
    case (V_List a)
    then obtain l where l: "heap_list h a = Some l" using Suc.prems by auto
    have "list_write (\<lambda>v. value_write D addr h v True n) (l_data l) True (out @ ''['') \<noteq> None"
      by (rule list_write_yields) (use IH heap_ok_list [OF Suc.prems(1) l] in blast)
    then show ?thesis using V_List l by auto
  next
    case (V_Dict a)
    then obtain d where d: "heap_dict h a = Some d" using Suc.prems by auto
    have "dict_write (\<lambda>v. value_write D addr h v True n) (items d) True (out @ ''{'') \<noteq> None"
      by (rule dict_write_yields) (use IH dict_items_values [OF Suc.prems(1) d] in blast)
    then show ?thesis using V_Dict d by auto
  qed simp_all
qed simp

lemma value_print_yields:
  assumes "heap_ok D P h" and "val_ok D h v"
  shows "value_print D addr h v out \<noteq> None"
  using value_write_yields [OF assms, of addr False 3 out] by (auto simp: value_print_def)

end
