(* ===== verification/Literals.thy ===== *)
theory Literals
  imports Lexer Output
begin

text \<open>
  The constants of the source (\<open>parse.c\<close>): escapes in string literals and the values of literals. The text of a
  literal is a string with its quotes, and pointers into it are indices; reading after its end has no result.
\<close>

section \<open>Escapes\<close>

definition decode_hex :: "char \<Rightarrow> int" where
  "decode_hex c =
     (let n = int (of_char c) in
      if 48 \<le> n \<and> n \<le> 57 then n - 48
      else if 97 \<le> n \<and> n \<le> 102 then n - 97 + 10
      else if 65 \<le> n \<and> n \<le> 70 then n - 65 + 10
      else -1)"

definition text_at :: "string \<Rightarrow> nat \<Rightarrow> char option" where
  "text_at t i = (if i < length t then Some (t ! i) else None)"

text \<open>The code of the character, or \<open>-1\<close>, and the place after what was read.\<close>

definition unescape :: "string \<Rightarrow> nat \<Rightarrow> (int \<times> nat) option" where
  "unescape t s =
     do {
       c \<leftarrow> text_at t s;
       let s = s + 1;
       if c = CHR 0x5C then Some (0x5C, s)
       else if c = CHR ''a'' then Some (0x07, s)
       else if c = CHR ''b'' then Some (0x08, s)
       else if c = CHR ''e'' then Some (0x1B, s)
       else if c = CHR ''f'' then Some (0x0C, s)
       else if c = CHR ''n'' then Some (0x0A, s)
       else if c = CHR ''r'' then Some (0x0D, s)
       else if c = CHR ''t'' then Some (0x09, s)
       else if c = CHR ''v'' then Some (0x0B, s)
       else if c = CHR 0x22 then Some (0x22, s)
       else if c = CHR ''0'' then Some (0, s)
       else if c = CHR ''x'' then do {
         h \<leftarrow> text_at t s;
         let (hi, s) = (decode_hex h, s + 1);
         if hi < 0 then Some (-1, s)
         else do {
           l \<leftarrow> text_at t s;
           let (lo, s) = (decode_hex l, s + 1);
           if lo < 0 then Some (-1, s) else Some (hi * 16 + lo, s)
         }
       }
       else Some (-1, s)
     }"

text \<open>The loop of \<open>add_string_const\<close>: the place of an invalid escape, or the value.\<close>

partial_function (option) string_loop :: "string \<Rightarrow> nat \<Rightarrow> nat \<Rightarrow> cstring \<Rightarrow> (nat + cstring) option" where
  "string_loop t ptr e s =
     (if ptr = e then Some (Inr s)
      else if e < ptr then None
      else case span_memchr (take (e - ptr) (drop ptr t)) CHR 0x5C of
        None \<Rightarrow> do { s \<leftarrow> string_append s (take (e - ptr) (drop ptr t)); Some (Inr s) }
      | Some n \<Rightarrow> do {
          let esc = ptr + n;
          s \<leftarrow> string_append s (take (esc - ptr) (drop ptr t));
          (v, esc) \<leftarrow> unescape t (esc + 1);
          (if v < 0 then Some (Inl (esc - 1))
           else do { s \<leftarrow> string_append s [char_of (nat v)]; string_loop t esc e s })
        })"

definition string_value :: "string \<Rightarrow> (nat + cstring) option" where
  "string_value t =
     do {
       s \<leftarrow> string_new_with_capacity [] (length t - 2);
       string_loop t 1 (length t - 1) s
     }"

section \<open>What the output escapes\<close>

definition special :: "char \<Rightarrow> bool" where
  "special c \<longleftrightarrow> of_char c < (32 :: nat) \<or> c = CHR 0x5C \<or> c = CHR 0x22"

definition escaped :: "string \<Rightarrow> string" where
  "escaped s = concat (map (\<lambda>c. if special c then write_char_escaped c else [c]) s)"

lemma escaped_simps [simp]:
  "escaped [] = []"
  "escaped (c # s) = (if special c then write_char_escaped c else [c]) @ escaped s"
  "escaped (s @ u) = escaped s @ escaped u"
  by (simp_all add: escaped_def)

lemma escape_loop_eq: "escape_loop out r s = out @ r @ escaped s"
  by (induction s arbitrary: out r) (auto simp: special_def)

lemma write_string_escaped_eq: "write_string_escaped out s = out @ CHR 0x22 # escaped s @ [CHR 0x22]"
  by (simp add: write_string_escaped_def escape_loop_eq)

text \<open>An escape is a backslash, a character that is no newline, and hexadecimal digits.\<close>

lemma hex_digit: "k < 16 \<Longrightarrow> decode_hex (HEX_CHARS ! k) = int k \<and> \<not> special (HEX_CHARS ! k)"
proof -
  assume "k < 16"
  then have "k = 0 \<or> k = 1 \<or> k = 2 \<or> k = 3 \<or> k = 4 \<or> k = 5 \<or> k = 6 \<or> k = 7 \<or> k = 8 \<or> k = 9 \<or> k = 10 \<or>
    k = 11 \<or> k = 12 \<or> k = 13 \<or> k = 14 \<or> k = 15" by presburger
  then show ?thesis by (auto simp: HEX_CHARS_def decode_hex_def special_def)
qed

lemma special_cases:
  assumes "special c"
  obtains e where "write_char_escaped c = [CHR 0x5C, e]" and "e \<noteq> CHR 0x0A"
    "\<forall>t s. text_at t s = Some e \<longrightarrow> unescape t s = Some (int (of_char c), s + 1)"
  | k l where "write_char_escaped c = [CHR 0x5C, CHR ''x'', HEX_CHARS ! k, HEX_CHARS ! l]" and "k < 16" and "l < 16"
    and "of_char c = k * 16 + l"
proof (cases "c \<in> set [CHR 0x00, CHR 0x07, CHR 0x08, CHR 0x09, CHR 0x0A, CHR 0x0B, CHR 0x0C, CHR 0x0D, CHR 0x1B, CHR 0x5C, CHR 0x22]")
  case True
  then show thesis by (auto simp: write_char_escaped_def unescape_def intro!: that(1))
next
  case False
  have "of_char c < (256 :: nat)" by (rule nat_of_char_less_256)
  with False that(2) [of "of_char c div 16" "of_char c mod 16"] show thesis
    by (simp add: write_char_escaped_def)
qed

lemma unescape_escaped:
  assumes c: "special c" and t: "t = p @ write_char_escaped c @ q"
  shows "unescape t (length p + 1) = Some (int (of_char c), length p + length (write_char_escaped c))"
  using c
proof (cases rule: special_cases)
  case (1 e)
  then show ?thesis using t 1(3) [rule_format, of t "length p + 1"] by (simp add: text_at_def nth_append)
next
  case (2 k l)
  have "text_at t (length p + 1) = Some CHR ''x''" "text_at t (length p + 1 + 1) = Some (HEX_CHARS ! k)"
    "text_at t (length p + 1 + 1 + 1) = Some (HEX_CHARS ! l)"
    using t 2(1) by (simp_all add: text_at_def nth_append)
  then show ?thesis
    using hex_digit [OF 2(2)] hex_digit [OF 2(3)] 2(1,4) by (simp add: unescape_def Let_def)
qed

lemma length_escaped: "length (escaped s) \<le> 4 * length s"
  by (induction s) (auto simp: write_char_escaped_def)

lemma split_special:
  obtains p where "s = p" and "\<forall>c \<in> set p. \<not> special c"
  | p c q where "s = p @ c # q" and "\<forall>c \<in> set p. \<not> special c" and "special c"
  using split_list_first_prop [of s special] by blast

lemma escaped_plain: "\<forall>c \<in> set p. \<not> special c \<Longrightarrow> escaped p = p"
  by (induction p) auto

lemma char_of_code: "char_of (nat (int (of_char c))) = c"
  by simp

text \<open>The loop reads back what was escaped.\<close>

lemma string_loop_escaped:
  assumes "t = p @ escaped s @ q" and "e = length p + length (escaped s)" and "str_good u"
    and "2 * (length (s_data u) + length (escaped s)) + SIZEOF_STRING \<le> SIZE_MAX"
  shows "yields (string_loop t (length p) e u) (\<lambda>r. \<exists>w. r = Inr w \<and> str_good w \<and> s_data w = s_data u @ s)"
  using assms
proof (induction "length s" arbitrary: s p u rule: less_induct)
  case less
  note app = str_good_append [OF less.prems(3)]
  show ?case
  proof (cases "escaped s = []")
    case True
    then have "s = []" by (cases s) (auto simp: write_char_escaped_def split: if_splits)
    then show ?thesis using less.prems by (simp add: string_loop.simps)
  next
    case False
    show ?thesis
    proof (cases s rule: split_special)
      case (1 x)
      then have esc: "escaped s = s" "span_memchr s CHR 0x5C = None"
        by (auto simp: escaped_plain span_memchr_None special_def)
      show ?thesis
        by (subst string_loop.simps) (use less.prems esc False app [of "length s" s] in \<open>auto elim!: yields_conseq\<close>)
    next
      case (2 x c y)
      have x: "escaped s = x @ write_char_escaped c @ escaped y" using 2 by (simp add: escaped_plain)
      obtain z where z: "write_char_escaped c = CHR 0x5C # z" by (cases rule: special_cases [OF 2(3)]) auto
      have pos: "length p \<noteq> e" "\<not> e < length p" using less.prems(2) False by auto
      have mem: "span_memchr (take (e - length p) (drop (length p) t)) CHR 0x5C = Some (length x)"
        using less.prems(1,2) x z 2(2) by (auto simp: special_def intro!: span_memchr_append)
      obtain u1 where u1: "string_append u x = Some u1" "str_good u1" "s_data u1 = s_data u @ x"
        using app [of "length x" x] less.prems(4) x by (auto simp: yields_iff_ex)
      obtain u2 where u2: "string_append u1 [c] = Some u2" "str_good u2" "s_data u2 = s_data u1 @ [c]"
        using str_good_append [OF u1(2), of 1 "[c]"] less.prems(4) x z u1(3) by (auto simp: yields_iff_ex)
      let ?p = "p @ x @ write_char_escaped c"
      have esc: "unescape t (length (p @ x) + 1) = Some (int (of_char c), length ?p)"
        using unescape_escaped [OF 2(3), of t "p @ x" "escaped y @ q"] less.prems(1) x by simp
      have IH: "yields (string_loop t (length ?p) e u2) (\<lambda>r. \<exists>w. r = Inr w \<and> str_good w \<and> s_data w = s_data u2 @ y)"
      proof (rule less.hyps)
        show "length y < length s" using 2(1) by simp
        show "t = ?p @ escaped y @ q" "e = length ?p + length (escaped y)" using less.prems(1,2) unfolding x by simp_all
        show "2 * (length (s_data u2) + length (escaped y)) + SIZEOF_STRING \<le> SIZE_MAX"
          using less.prems(4) u1(3) u2(3) unfolding x z by simp
      qed (rule u2(2))
      have "take (length p + length x - length p) (drop (length p) t) = x" using less.prems(1) x by simp
      then show ?thesis
        by (subst string_loop.simps)
          (use pos mem u1 u2 esc IH 2(1) in \<open>auto simp: Let_def elim!: yields_conseq\<close>)
    qed
  qed
qed

text \<open>The lexer sees one string.\<close>

lemma string_tail_escaped: "string_tail (escaped s @ CHR 0x22 # q) = (None, length (escaped s) + 1)"
proof (induction s)
  case (Cons c s)
  show ?case
  proof (cases "special c")
    case True
    then show ?thesis
    proof (cases rule: special_cases)
      case (2 k l)
      then show ?thesis
        using Cons True hex_digit [OF 2(2)] hex_digit [OF 2(3)] by (auto simp: special_def)
    qed (use Cons True in simp)
  qed (use Cons in \<open>auto simp: special_def\<close>)
qed simp

lemma lexer_string:
  assumes x: "lexer_new t = Some x" and t: "t = CHR 0x22 # escaped s @ [CHR 0x22]"
  shows "\<exists>x'. lexer_next x = Some (\<lparr>lk_kind = LK_STRING, lk_start = 0, lk_size = length t, lk_pos = \<lparr>line = 1, column = 1\<rparr>\<rparr>, x')"
proof -
  from x obtain ht where x: "x = \<lparr>src = t, cur = 0, line_num = 1, line_start = 0, level_stack = level_stack_new,
      inserted_semicolon_flag = False, keywords_ht = ht, err_msg = None\<rparr>"
    by (auto simp: lexer_new_def split: Option.bind_splits)
  have "scan_string t 0 = Some (None, length t)"
    using scan_string_eq [of 0 t] string_tail_escaped [of s "[]"] by (simp add: t)
  then have "lex_string x = Some (make_lexeme (x\<lparr>cur := length t\<rparr>) LK_STRING 0, x\<lparr>cur := length t\<rparr>)"
    by (simp add: lex_string_def x Let_def)
  then show ?thesis
    by (subst lexer_next.simps) (simp add: x t char_at_def token_def is_digit_def is_ident_start_def make_lexeme_def)
qed

section \<open>The value of any string literal\<close>

lemma decode_hex_body: "0 \<le> decode_hex c \<Longrightarrow> c \<noteq> CHR 0x5C \<and> c \<noteq> CHR 0x22"
  by (auto simp: decode_hex_def)

lemma text_at_append: "text_at (p @ c # q) (length p) = Some c"
  by (simp add: text_at_def)

lemma unescape_body:
  assumes t: "t = p @ c # rest @ [CHR 0x22]" and r: "string_body rest"
  shows "yields (unescape t (length p)) (\<lambda>(v, s). v < 0 \<or>
    (\<exists>y z. rest = y @ z \<and> s = length p + 1 + length y \<and> string_body z))"
proof (cases "c = CHR ''x''")
  case False
  have "text_at t (length p) = Some c" using text_at_append [of p c "rest @ [CHR 0x22]"] t by simp
  then show ?thesis using False r by (auto simp: unescape_def Let_def)
next
  case True
  have c: "text_at t (length p) = Some CHR ''x''" using text_at_append [of p c "rest @ [CHR 0x22]"] t True by simp
  show ?thesis
  proof (cases rest)
    case Nil
    then have "text_at t (length p + 1) = Some CHR 0x22" using t by (simp add: text_at_def nth_append)
    then show ?thesis using c decode_hex_body [of "CHR 0x22"] by (auto simp: unescape_def Let_def not_le)
  next
    case (Cons h rest1)
    have h: "text_at t (length p + 1) = Some h" using t Cons by (simp add: text_at_def nth_append)
    show ?thesis
    proof (cases "decode_hex h < 0")
      case True
      then show ?thesis using c h by (simp add: unescape_def Let_def)
    next
      case hi: False
      then have body: "string_body rest1" using r Cons decode_hex_body [of h] by (auto split: if_splits)
      show ?thesis
      proof (cases rest1)
        case Nil
        then have "text_at t (length p + 1 + 1) = Some CHR 0x22" using t Cons by (simp add: text_at_def nth_append)
        then show ?thesis using c h decode_hex_body [of "CHR 0x22"] by (auto simp: unescape_def Let_def not_le)
      next
        case (Cons l rest2)
        then have l: "text_at t (length p + 1 + 1) = Some l" using t \<open>rest = h # rest1\<close> by (simp add: text_at_def nth_append)
        show ?thesis
        proof (cases "decode_hex l < 0")
          case False
          then have "string_body rest2" using body Cons decode_hex_body [of l] by (auto split: if_splits)
          then have "\<exists>y z. rest = y @ z \<and> Suc (Suc (Suc (length p))) = length p + 1 + length y \<and> string_body z"
            using \<open>rest = h # rest1\<close> Cons by (intro exI [of _ "[h, l]"] exI [of _ rest2]) simp
          then show ?thesis using c h l hi False by (simp add: unescape_def Let_def)
        qed (use c h l hi in \<open>simp add: unescape_def Let_def\<close>)
      qed
    qed
  qed
qed

lemma string_body_split:
  assumes "string_body s"
  obtains "CHR 0x5C \<notin> set s" | x c rest where "s = x @ CHR 0x5C # c # rest" and "CHR 0x5C \<notin> set x" and "string_body rest"
  using assms
proof (induction s arbitrary: thesis rule: string_body.induct)
  case (2 c s)
  show ?case
  proof (cases "c = CHR 0x5C")
    case True
    then obtain e t where "s = e # t" "string_body t" using 2(5) by (cases s) auto
    with True 2(4) [of "[]" e t] show ?thesis by simp
  next
    case False
    then have s: "string_body s" using 2(5) by simp
    show ?thesis
    proof (rule 2(2) [OF False _ _ s])
      assume "CHR 0x5C \<notin> set s"
      then show thesis using False 2(3) by simp
    next
      fix x d rest
      assume "s = x @ CHR 0x5C # d # rest" "CHR 0x5C \<notin> set x" "string_body rest"
      then show thesis using False 2(4) [of "c # x" d rest] by simp
    qed
  qed
qed simp

lemma string_loop_body:
  assumes "t = p @ s @ [CHR 0x22]" and "e = length p + length s" and "string_body s" and "str_good u"
    and "2 * (length (s_data u) + length s) + SIZEOF_STRING \<le> SIZE_MAX"
  shows "yields (string_loop t (length p) e u) (\<lambda>r. case r of Inl n \<Rightarrow> True | Inr w \<Rightarrow> str_good w)"
  using assms
proof (induction "length s" arbitrary: s p u rule: less_induct)
  case less
  note app = str_good_append [OF less.prems(4)]
  have span: "take (e - length p) (drop (length p) t) = s" using less.prems(1,2) by simp
  show ?case
  proof (cases "s = []")
    case True
    then show ?thesis using less.prems by (simp add: string_loop.simps)
  next
    case False
    then have pos: "length p \<noteq> e" "\<not> e < length p" using less.prems(2) by auto
    from less.prems(3) show ?thesis
    proof (cases rule: string_body_split)
      case 1
      then have "span_memchr s CHR 0x5C = None" by (auto simp: span_memchr_None)
      then show ?thesis
        by (subst string_loop.simps)
          (use less.prems(5) pos span app [of "length s" s] in \<open>auto elim!: yields_conseq\<close>)
    next
      case (2 x c rest)
      have mem: "span_memchr s CHR 0x5C = Some (length x)" using 2 by (auto intro!: span_memchr_append)
      obtain u1 where u1: "string_append u x = Some u1" "str_good u1" "s_data u1 = s_data u @ x"
        using app [of "length x" x] less.prems(5) 2(1) by (auto simp: yields_iff_ex)
      have x: "take (length p + length x - length p) (drop (length p) t) = x" using less.prems(1) 2(1) by simp
      have tt: "t = (p @ x @ [CHR 0x5C]) @ c # rest @ [CHR 0x22]" using less.prems(1) 2(1) by simp
      obtain v k where vk: "unescape t (length (p @ x @ [CHR 0x5C])) = Some (v, k)"
        "v < 0 \<or> (\<exists>y z. rest = y @ z \<and> k = length (p @ x @ [CHR 0x5C]) + 1 + length y \<and> string_body z)"
        using unescape_body [OF tt 2(3)] by (auto simp: yields_iff_ex)
      have vk': "unescape t (length p + length x + 1) = Some (v, k)" using vk(1) by simp
      show ?thesis
      proof (cases "v < 0")
        case True
        then show ?thesis by (subst string_loop.simps) (use pos span mem u1 x vk' in \<open>simp add: Let_def\<close>)
      next
        case False
        then obtain y z where yz: "rest = y @ z" "k = length (p @ x @ [CHR 0x5C, c] @ y)" "string_body z" using vk(2) by auto
        obtain u2 where u2: "string_append u1 [char_of (nat v)] = Some u2" "str_good u2" "s_data u2 = s_data u1 @ [char_of (nat v)]"
          using str_good_append [OF u1(2), of 1 "[char_of (nat v)]"] less.prems(5) 2(1) u1(3) by (auto simp: yields_iff_ex)
        have "yields (string_loop t (length (p @ x @ [CHR 0x5C, c] @ y)) e u2) (\<lambda>r. case r of Inl n \<Rightarrow> True | Inr w \<Rightarrow> str_good w)"
          by (rule less.hyps [OF _ _ _ yz(3) u2(2)]) (use less.prems(1,2,5) 2(1) yz(1) u1(3) u2(3) in simp_all)
        then show ?thesis
          by (subst string_loop.simps) (use pos span mem u1 u2 x vk' False yz(2) in \<open>simp add: Let_def\<close>)
      qed
    qed
  qed
qed

lemma string_value_yields:
  assumes t: "t = CHR 0x22 # body @ [CHR 0x22]" and b: "string_body body" and n: "2 * length body + SIZEOF_STRING \<le> SIZE_MAX"
  shows "yields (string_value t) (\<lambda>r. case r of Inl n \<Rightarrow> True | Inr w \<Rightarrow> str_good w)"
proof -
  obtain u where u: "string_new_with_capacity [] (length t - 2) = Some u" "str_good u" "s_data u = []"
    using string_new_with_capacity_yields [of "[]" "length t - 2"] n t by (auto simp: yields_iff_ex str_good_def)
  have "yields (string_loop t (length [CHR 0x22]) (length t - 1) u) (\<lambda>r. case r of Inl n \<Rightarrow> True | Inr w \<Rightarrow> str_good w)"
    by (rule string_loop_body [OF _ _ b u(2)]) (use t n u(3) in simp_all)
  then show ?thesis using u(1) by (simp add: string_value_def)
qed

section \<open>Printing and reading\<close>

text \<open>
  C37: Printed strings read back. For every string of any bytes, what \<open>write_string_escaped\<close> writes for it is, for
  the lexer, a single string literal, and the value that the parser gives this literal is the string.
\<close>

theorem string_print_read:
  assumes "8 * length s + 4 + SIZEOF_STRING \<le> SIZE_MAX"
  shows "yields (do {
      let t = write_string_escaped [] s;
      x \<leftarrow> lexer_new t;
      (l, _) \<leftarrow> lexer_next x;
      v \<leftarrow> string_value (take (lk_size l) (drop (lk_start l) t));
      Some (lk_kind l, lk_size l, v)
    }) (\<lambda>(k, n, v). k = LK_STRING \<and> n = length (write_string_escaped [] s) \<and> (\<exists>u. v = Inr u \<and> str_good u \<and> s_data u = s))"
proof -
  let ?t = "CHR 0x22 # escaped s @ [CHR 0x22]"
  have t: "write_string_escaped [] s = ?t" by (simp add: write_string_escaped_eq)
  have len: "2 * length (escaped s) + SIZEOF_STRING \<le> SIZE_MAX" "2 * length ?t \<le> SIZE_MAX"
    using assms length_escaped [of s] by simp_all
  obtain x where x: "lexer_new ?t = Some x" using lexer_new_yields [OF len(2)] by (auto simp: yields_iff_ex)
  obtain x' where nx: "lexer_next x = Some (\<lparr>lk_kind = LK_STRING, lk_start = 0, lk_size = length ?t,
      lk_pos = \<lparr>line = 1, column = 1\<rparr>\<rparr>, x')"
    using lexer_string [OF x refl] by blast
  obtain u where u: "string_new_with_capacity [] (length ?t - 2) = Some u" "str_good u" "s_data u = []"
    using string_new_with_capacity_yields [of "[]" "length ?t - 2"] len(1) by (auto simp: yields_iff_ex str_good_def)
  have "yields (string_loop ?t (length [CHR 0x22]) (length ?t - 1) u) (\<lambda>r. \<exists>w. r = Inr w \<and> str_good w \<and> s_data w = s_data u @ s)"
    by (rule string_loop_escaped [where q = "[CHR 0x22]"]) (use u len(1) in simp_all)
  then have "yields (string_value ?t) (\<lambda>v. \<exists>w. v = Inr w \<and> str_good w \<and> s_data w = s)"
    using u by (simp add: string_value_def)
  then show ?thesis using x nx by (auto simp: t yields_iff_ex)
qed

theorem string_print_read_witness:
  "yields (do {
      let t = write_string_escaped [] [CHR ''a'', CHR 0x22, CHR 0x01];
      x \<leftarrow> lexer_new t;
      (l, _) \<leftarrow> lexer_next x;
      v \<leftarrow> string_value (take (lk_size l) (drop (lk_start l) t));
      Some (lk_kind l, lk_size l, v)
    }) (\<lambda>(k, n, v). \<exists>u. v = Inr u \<and> s_data u = [CHR ''a'', CHR 0x22, CHR 0x01])"
  by (rule yields_conseq [OF string_print_read]) (auto simp: SIZEOF_STRING_def SIZE_MAX_def)

end
