(* ===== verification/Vm.thy ===== *)
theory Vm
  imports Output Globals
begin

text \<open>
  The virtual machine (\<open>vm.h\<close>, \<open>vm.c\<close>): compiled code, the value stack and the call stack, and one
  instruction of \<open>state_eval\<close> as a step. A pointer to an instruction is its chunk with an index. The value
  stack is unchecked in the code, so a push past its capacity, a pop below its bottom and an access outside
  of it have no result. Its buffer moves when it grows: \<open>v_buf\<close> counts the moves, and the pointer
  \<open>locals\<close> into it carries the number of the buffer that it points into; using it after a move has no
  result.
\<close>

section \<open>Compiled code\<close>

datatype opcode =
    OP_LOAD_CONST | OP_LOAD_LOCAL | OP_LOAD_AT | OP_LOAD_GLOBAL
  | OP_STORE_LOCAL | OP_STORE_AT | OP_STORE_GLOBAL
  | OP_MODIFY_LOCAL | OP_MODIFY_AT | OP_MODIFY_GLOBAL
  | OP_PRINT | OP_RETURN | OP_JUMP | OP_JUMP_UNLESS | OP_CALL | OP_FUNCTION
  | OP_NEG | OP_NOT | OP_AOP | OP_CMP_2WAY | OP_CMP_3WAY | OP_LIST | OP_DICT | OP_LEN
  | OP_LOAD_SYMBOLIC | OP_MODIFY_SYMBOLIC | OP_STORE_SYMBOLIC

record instr =
  opcode :: opcode
  in_a :: nat
  in_b :: nat
  in_c :: "32 word"

text \<open>The enumeration of the arithmetic operators, which an instruction holds as a number.\<close>

definition all_aops :: "aop list" where
  "all_aops = [AOP_AND, AOP_BIT_AND, AOP_SUB, AOP_OR, AOP_BIT_OR, AOP_BIT_XOR, AOP_LSHIFT, AOP_RSHIFT,
    AOP_MOD, AOP_ADD, AOP_DIV, AOP_IDIV, AOP_MUL, AOP_POW, AOP_CONCAT]"

definition aop_of_code :: "nat \<Rightarrow> aop option" where
  "aop_of_code a = (if a < length all_aops then Some (all_aops ! a) else None)"

record quark =
  q_instr :: nat
  q_line :: nat

record shape =
  nargs_encoded :: "32 word"
  nlocals :: nat
  sh_offset :: nat
  maxstack :: nat

record chunk =
  code :: "instr list"
  constants :: "val list"
  quarks :: "quark list"
  shapes :: "shape list"
  origin :: string
  source :: string

record func =
  f_chunk :: chunk
  f_ip :: nat

text \<open>The instruction at a pointer, and the shape that the instruction \<open>OP_FUNCTION\<close> of a function names.\<close>

definition fetch :: "chunk \<Rightarrow> nat \<Rightarrow> instr option" where
  "fetch C ip = (if ip < length (code C) then Some (code C ! ip) else None)"

definition chunk_shape :: "chunk \<Rightarrow> 32 word \<Rightarrow> shape option" where
  "chunk_shape C c = (if unat c < length (shapes C) then Some (shapes C ! unat c) else None)"

definition func_shape :: "func \<Rightarrow> shape option" where
  "func_shape f = do { i \<leftarrow> fetch (f_chunk f) (f_ip f); chunk_shape (f_chunk f) (in_c i) }"

section \<open>The state\<close>

record value_stack =
  v_data :: "val list"
  v_cap :: nat
  v_buf :: nat

record call_site =
  call_ip :: "(chunk \<times> nat) option"
  callee :: func
  prev_consts :: "val list"
  prev_locals_offset :: nat

record call_stack =
  c_sites :: "call_site list"
  c_cap :: nat

text \<open>The registers of the loop are the fields that \<open>FLUSH\<close> and \<open>UNFLUSH\<close> copy them to and from.\<close>

record runtime_info =
  r_vs :: value_stack
  r_cs :: call_stack
  r_ip :: "chunk \<times> nat"
  r_locals :: "nat \<times> nat"
  r_consts :: "val list"

text \<open>\<open>vm_out\<close> is what has been printed; \<open>vm_reads\<close> counts what natives have read of the outside world.\<close>

record vm_state =
  vm_globals :: "val globals"
  vm_heap :: "func heap"
  vm_ntp :: ntp
  vm_out :: string
  vm_reads :: nat

text \<open>
  What the machine depends on: the library of digits; whether two operands are the same object; what
  \<open>%p\<close> prints; and the native functions, which change the state and return a value or throw a message.
\<close>

record env =
  e_deci :: deci
  e_same :: "val \<Rightarrow> val \<Rightarrow> bool"
  e_addr :: "val \<Rightarrow> string"
  e_native :: "nat \<Rightarrow> vm_state \<Rightarrow> val list \<Rightarrow> (vm_state \<times> (string + val)) option"

text \<open>A new machine.\<close>

definition state_new :: "deci \<Rightarrow> vm_state option" where
  "state_new D =
     do {
       g \<leftarrow> globals_new;
       Some \<lparr>vm_globals = g, vm_heap = [], vm_ntp = ntp_from_prec D 20, vm_out = [], vm_reads = 0\<rparr>
     }"

section \<open>The stacks\<close>

definition vs_push :: "value_stack \<Rightarrow> val \<Rightarrow> value_stack option" where
  "vs_push vs v = (if length (v_data vs) < v_cap vs then Some (vs\<lparr>v_data := v_data vs @ [v]\<rparr>) else None)"

definition vs_pop :: "value_stack \<Rightarrow> (val \<times> value_stack) option" where
  "vs_pop vs = (if v_data vs = [] then None else Some (last (v_data vs), vs\<lparr>v_data := butlast (v_data vs)\<rparr>))"

definition popn :: "value_stack \<Rightarrow> nat \<Rightarrow> value_stack option" where
  "popn vs n = (if n \<le> length (v_data vs) then Some (vs\<lparr>v_data := take (length (v_data vs) - n) (v_data vs)\<rparr>) else None)"

definition pushn :: "value_stack \<Rightarrow> nat \<Rightarrow> value_stack option" where
  "pushn vs n =
     (if length (v_data vs) + n \<le> v_cap vs then Some (vs\<lparr>v_data := v_data vs @ replicate n V_Nil\<rparr>) else None)"

definition value_stack_new :: "nat \<Rightarrow> value_stack option" where
  "value_stack_new capacity = do { _ \<leftarrow> uu_xrealloc 8 capacity; Some \<lparr>v_data = [], v_cap = capacity, v_buf = 0\<rparr> }"

text \<open>The loop that doubles the capacity until \<open>n\<close> more values fit above the \<open>sz\<close> there are.\<close>

partial_function (option) grow_stack :: "nat \<Rightarrow> nat \<Rightarrow> nat \<Rightarrow> nat option" where
  "grow_stack capacity sz n =
     do {
       capacity \<leftarrow> uu_x2realloc capacity 8;
       if capacity - sz < n then grow_stack capacity sz n else Some capacity
     }"

definition value_stack_ensure :: "value_stack \<Rightarrow> nat \<Rightarrow> value_stack option" where
  "value_stack_ensure vs n =
     (let sz = length (v_data vs) in
      if v_cap vs - sz \<ge> n then Some vs
      else do {
        capacity \<leftarrow> grow_stack (v_cap vs) sz n;
        Some (vs\<lparr>v_cap := capacity, v_buf := v_buf vs + 1\<rparr>)
      })"

definition call_stack_new :: "nat \<Rightarrow> call_stack option" where
  "call_stack_new capacity = do { _ \<leftarrow> uu_xrealloc 32 capacity; Some \<lparr>c_sites = [], c_cap = capacity\<rparr> }"

definition call_stack_push :: "call_stack \<Rightarrow> call_site \<Rightarrow> call_stack option" where
  "call_stack_push cs v =
     do {
       cs \<leftarrow> (if length (c_sites cs) = c_cap cs then do {
               c \<leftarrow> uu_x2realloc (c_cap cs) 32;
               Some (cs\<lparr>c_cap := c\<rparr>)
             } else Some cs);
       Some (cs\<lparr>c_sites := v # c_sites cs\<rparr>)
     }"

text \<open>The address of local variable \<open>c\<close>, as an index from the bottom of the stack.\<close>

definition local_ix :: "runtime_info \<Rightarrow> 32 word \<Rightarrow> nat option" where
  "local_ix r c =
     (let i = snd (r_locals r) + unat c in
      if fst (r_locals r) = v_buf (r_vs r) \<and> i < length (v_data (r_vs r)) then Some i else None)"

section \<open>Calls\<close>

text \<open>A result of an operation that may throw; on success, the state, the registers and a value.\<close>

type_synonym 'a thrown = "(string + 'a) option"

definition value_stack_push_copies :: "value_stack \<Rightarrow> val list \<Rightarrow> value_stack option" where
  "value_stack_push_copies vs src =
     do {
       vs \<leftarrow> value_stack_ensure vs (length src);
       Some (vs\<lparr>v_data := v_data vs @ src\<rparr>)
     }"

definition do_call_scatter :: "vm_state \<Rightarrow> runtime_info \<Rightarrow> (runtime_info \<times> nat) thrown" where
  "do_call_scatter st r =
     do {
       (v, vs) \<leftarrow> vs_pop (r_vs r);
       case v of
         V_List a \<Rightarrow> do {
           l \<leftarrow> heap_list (vm_heap st) a;
           vs \<leftarrow> value_stack_push_copies vs (l_data l);
           Some (Inr (r\<lparr>r_vs := vs\<rparr>, length (l_data l)))
         }
       | _ \<Rightarrow> Some (Inl (''cannot scatter '' @ kind_name v @ '' value (expected list)''))
     }"

definition do_call_gather :: "vm_state \<Rightarrow> runtime_info \<Rightarrow> nat \<Rightarrow> (vm_state \<times> runtime_info) option" where
  "do_call_gather st r n =
     do {
       vs \<leftarrow> (if n = 0 then value_stack_ensure (r_vs r) 1 else Some (r_vs r));
       if n > length (v_data vs) then None
       else do {
         let list = list_new_steal (drop (length (v_data vs) - n) (v_data vs));
         let (h, a) = heap_alloc (vm_heap st) (O_List list);
         vs \<leftarrow> vs_push (vs\<lparr>v_data := take (length (v_data vs) - n) (v_data vs)\<rparr>) (V_List a);
         Some (st\<lparr>vm_heap := h\<rparr>, r\<lparr>r_vs := vs\<rparr>)
       }
     }"

text \<open>The numbers in the messages, as \<open>%zu\<close> prints them.\<close>

fun dec_loop :: "nat \<Rightarrow> nat \<Rightarrow> string \<Rightarrow> string" where
  "dec_loop 0 n acc = acc"
| "dec_loop (Suc k) n acc =
     (let acc = digit_char (n mod 10) # acc in if n div 10 = 0 then acc else dec_loop k (n div 10) acc)"

definition show_zu :: "nat \<Rightarrow> string" where
  "show_zu n = dec_loop 20 n []"

definition do_call_coerce :: "vm_state \<Rightarrow> runtime_info \<Rightarrow> 32 word \<Rightarrow> nat \<Rightarrow> (vm_state \<times> runtime_info \<times> nat) thrown" where
  "do_call_coerce st r nargs_enc nargs =
     (if 0 \<le> sint nargs_enc then
        (if nargs \<noteq> unat nargs_enc then
           Some (Inl (''wrong number of arguments: expected '' @ show_zu (unat nargs_enc) @ '', got '' @ show_zu nargs))
         else Some (Inr (st, r, nargs)))
      else
        let nargs_enc = NOT nargs_enc in
        if nargs < unat nargs_enc then
          Some (Inl (''wrong number of arguments: expected at least '' @ show_zu (unat nargs_enc) @ '', got '' @ show_zu nargs))
        else do {
          (st, r) \<leftarrow> do_call_gather st r (nargs - unat nargs_enc);
          Some (Inr (st, r, unat nargs_enc + 1))
        })"

text \<open>
  \<open>cur_locals_offset\<close> is the difference of \<open>locals\<close> and the bottom of the stack, which is defined only
  when both point into the same buffer.
\<close>

definition do_call_func :: "vm_state \<Rightarrow> runtime_info \<Rightarrow> func \<Rightarrow> nat \<Rightarrow> (vm_state \<times> (string + runtime_info)) option" where
  "do_call_func st r f nargs =
     do {
       shape \<leftarrow> func_shape f;
       res \<leftarrow> do_call_coerce st r (nargs_encoded shape) nargs;
       (case res of Inl m \<Rightarrow> Some (st, Inl m) | Inr (st, r, nargs) \<Rightarrow> do {
         cur_locals_offset \<leftarrow> (if fst (r_locals r) = v_buf (r_vs r) then Some (snd (r_locals r)) else None);
         let nvars = nat ((int (nlocals shape) - int nargs) mod 2 ^ 32);
         vs \<leftarrow> value_stack_ensure (r_vs r) (maxstack shape + nvars);
         cs \<leftarrow> call_stack_push (r_cs r) \<lparr>call_ip = Some (r_ip r), callee = f, prev_consts = r_consts r,
                 prev_locals_offset = cur_locals_offset\<rparr>;
         vs \<leftarrow> pushn vs nvars;
         if nlocals shape > length (v_data vs) then None
         else Some (st, Inr (r\<lparr>r_vs := vs, r_cs := cs, r_consts := constants (f_chunk f),
                r_locals := (v_buf vs, length (v_data vs) - nlocals shape), r_ip := (f_chunk f, f_ip f)\<rparr>))
       })
     }"

text \<open>The parameter of a native function that holds the number of its arguments has 32 bits.\<close>

definition native_args :: "nat \<Rightarrow> 'a list \<Rightarrow> 'a list" where
  "native_args nargs data = take (nargs mod 2 ^ 32) (drop (length data - nargs) data)"

lemma native_args_subset: "set (native_args n xs) \<subseteq> set xs"
  by (auto simp: native_args_def dest: in_set_takeD in_set_dropD)

definition do_call_native :: "env \<Rightarrow> vm_state \<Rightarrow> runtime_info \<Rightarrow> nat \<Rightarrow> nat \<Rightarrow> (vm_state \<times> (string + runtime_info)) option" where
  "do_call_native E st r f nargs =
     do {
       let data = v_data (r_vs r);
       (st, res) \<leftarrow> e_native E f st (native_args nargs data);
       (case res of Inl m \<Rightarrow> Some (st, Inl m) | Inr v \<Rightarrow> do {
         vs \<leftarrow> popn (r_vs r) (nargs + 1);
         vs \<leftarrow> vs_push vs v;
         Some (st, Inr (r\<lparr>r_vs := vs\<rparr>))
       })
     }"

text \<open>The arguments after the scattering, and their number.\<close>

definition scatter_args :: "vm_state \<Rightarrow> runtime_info \<Rightarrow> bool \<Rightarrow> nat \<Rightarrow> (runtime_info \<times> nat) thrown" where
  "scatter_args st r scatter nargs =
     (if scatter then do {
        res \<leftarrow> do_call_scatter st r;
        (case res of Inl m \<Rightarrow> Some (Inl m)
         | Inr (r, n) \<Rightarrow> (if nargs + n = 0 then None else Some (Inr (r, nargs + n - 1))))
      } else Some (Inr (r, nargs)))"

definition do_call :: "env \<Rightarrow> vm_state \<Rightarrow> runtime_info \<Rightarrow> bool \<Rightarrow> nat \<Rightarrow> (vm_state \<times> (string + runtime_info)) option" where
  "do_call E st r scatter nargs =
     do {
       res \<leftarrow> scatter_args st r scatter nargs;
       (case res of Inl m \<Rightarrow> Some (st, Inl m)
        | Inr (r, nargs) \<Rightarrow>
            (let data = v_data (r_vs r) in
             if length data < nargs + 1 then None
             else case data ! (length data - nargs - 1) of
               V_Func a \<Rightarrow> do { f \<leftarrow> heap_func (vm_heap st) a; do_call_func st r f nargs }
             | V_CFunc f \<Rightarrow> do_call_native E st r f nargs
             | v \<Rightarrow> Some (st, Inl (''attempt to call '' @ kind_name v @ '' value''))))
     }"

section \<open>One instruction\<close>

text \<open>The loop goes on, has returned from its first function, or a message was thrown.\<close>

datatype outcome = Running runtime_info | Done val | Thrown string

text \<open>Goes on after the instruction with another stack, or at a relative position.\<close>

definition advance_ip :: "runtime_info \<Rightarrow> int \<Rightarrow> runtime_info option" where
  "advance_ip r d =
     (let ip = int (snd (r_ip r)) + d in if 0 \<le> ip then Some (r\<lparr>r_ip := (fst (r_ip r), nat ip)\<rparr>) else None)"

definition next_with :: "vm_state \<Rightarrow> runtime_info \<Rightarrow> value_stack \<Rightarrow> (vm_state \<times> outcome) option" where
  "next_with st r vs = do { r \<leftarrow> advance_ip (r\<lparr>r_vs := vs\<rparr>) 1; Some (st, Running r) }"

text \<open>Pushes the result of an operation, or throws its message.\<close>

definition push_result :: "vm_state \<Rightarrow> runtime_info \<Rightarrow> value_stack \<Rightarrow> (string + val) option \<Rightarrow> (vm_state \<times> outcome) option" where
  "push_result st r vs res =
     do {
       res \<leftarrow> res;
       (case res of Inl m \<Rightarrow> Some (st, Thrown m)
        | Inr v \<Rightarrow> do { vs \<leftarrow> vs_push vs v; next_with st r vs })
     }"

definition op_load_global :: "vm_state \<Rightarrow> runtime_info \<Rightarrow> nat \<Rightarrow> (vm_state \<times> outcome) option" where
  "op_load_global st r c =
     do {
       v \<leftarrow> global_load (vm_globals st) c;
       (case v of
          None \<Rightarrow> do { m \<leftarrow> missing_global (vm_globals st) c; Some (st, Thrown m) }
        | Some v \<Rightarrow> do { vs \<leftarrow> vs_push (r_vs r) v; next_with st r vs })
     }"

definition op_return :: "vm_state \<Rightarrow> runtime_info \<Rightarrow> (vm_state \<times> outcome) option" where
  "op_return st r =
     (case c_sites (r_cs r) of
        [] \<Rightarrow> None
      | site # sites \<Rightarrow> do {
          let r = r\<lparr>r_cs := (r_cs r)\<lparr>c_sites := sites\<rparr>, r_consts := prev_consts site,
                    r_locals := (v_buf (r_vs r), prev_locals_offset site)\<rparr>;
          (v, vs) \<leftarrow> vs_pop (r_vs r);
          shape \<leftarrow> func_shape (callee site);
          vs \<leftarrow> popn vs (nlocals shape + 1);
          vs \<leftarrow> vs_push vs v;
          (case call_ip site of
             None \<Rightarrow> (if length (v_data vs) = 1 then Some (st, Done v) else None)
           | Some ip \<Rightarrow> do { r \<leftarrow> advance_ip (r\<lparr>r_vs := vs, r_ip := ip\<rparr>) 1; Some (st, Running r) })
        })"

definition op_call :: "env \<Rightarrow> vm_state \<Rightarrow> runtime_info \<Rightarrow> bool \<Rightarrow> nat \<Rightarrow> (vm_state \<times> outcome) option" where
  "op_call E st r scatter nargs =
     do {
       (st, res) \<leftarrow> do_call E st r scatter nargs;
       (case res of Inl m \<Rightarrow> Some (st, Thrown m)
        | Inr r \<Rightarrow> do { r \<leftarrow> advance_ip r 1; Some (st, Running r) })
     }"

definition op_store_at :: "env \<Rightarrow> vm_state \<Rightarrow> runtime_info \<Rightarrow> aop option \<Rightarrow> (vm_state \<times> outcome) option" where
  "op_store_at E st r modify =
     do {
       (v, vs) \<leftarrow> vs_pop (r_vs r);
       (i, vs) \<leftarrow> vs_pop vs;
       (c, vs) \<leftarrow> vs_pop vs;
       (h, res) \<leftarrow> get_elem_ptr_at (e_deci E) (vm_heap st) c i;
       let st = st\<lparr>vm_heap := h\<rparr>;
       (case res of Inl m \<Rightarrow> Some (st, Thrown m)
        | Inr p \<Rightarrow> do {
            res \<leftarrow> (case modify of
                      None \<Rightarrow> Some (Inr v)
                    | Some aop \<Rightarrow> do {
                        w \<leftarrow> elem_load h p;
                        perform_aop (e_deci E) (vm_ntp st) (e_same E w v) aop w v
                      });
            (case res of Inl m \<Rightarrow> Some (st, Thrown m)
             | Inr x \<Rightarrow> do {
                 h \<leftarrow> elem_store h p x;
                 next_with (st\<lparr>vm_heap := h\<rparr>) r vs
               })
          })
     }"

definition op_modify_local :: "env \<Rightarrow> vm_state \<Rightarrow> runtime_info \<Rightarrow> aop \<Rightarrow> 32 word \<Rightarrow> (vm_state \<times> outcome) option" where
  "op_modify_local E st r aop c =
     do {
       (v, vs) \<leftarrow> vs_pop (r_vs r);
       i \<leftarrow> local_ix (r\<lparr>r_vs := vs\<rparr>) c;
       let w = v_data vs ! i;
       res \<leftarrow> perform_aop (e_deci E) (vm_ntp st) (e_same E w v) aop w v;
       (case res of Inl m \<Rightarrow> Some (st, Thrown m)
        | Inr x \<Rightarrow> next_with st r (vs\<lparr>v_data := (v_data vs)[i := x]\<rparr>))
     }"

definition op_modify_global :: "env \<Rightarrow> vm_state \<Rightarrow> runtime_info \<Rightarrow> aop \<Rightarrow> nat \<Rightarrow> (vm_state \<times> outcome) option" where
  "op_modify_global E st r aop c =
     do {
       w \<leftarrow> global_load (vm_globals st) c;
       (case w of
          None \<Rightarrow> do { m \<leftarrow> missing_global (vm_globals st) c; Some (st, Thrown m) }
        | Some w \<Rightarrow> do {
            (v, vs) \<leftarrow> vs_pop (r_vs r);
            res \<leftarrow> perform_aop (e_deci E) (vm_ntp st) (e_same E w v) aop w v;
            (case res of Inl m \<Rightarrow> Some (st, Thrown m)
             | Inr x \<Rightarrow> do {
                 g \<leftarrow> global_store (vm_globals st) c x;
                 next_with (st\<lparr>vm_globals := g\<rparr>) r vs
               })
          })
     }"

definition op_function :: "vm_state \<Rightarrow> runtime_info \<Rightarrow> 32 word \<Rightarrow> (vm_state \<times> outcome) option" where
  "op_function st r c =
     (case c_sites (r_cs r) of
        [] \<Rightarrow> None
      | site # _ \<Rightarrow> do {
          let cur = f_chunk (callee site);
          let (h, a) = heap_alloc (vm_heap st) (O_Func \<lparr>f_chunk = cur, f_ip = snd (r_ip r)\<rparr>);
          vs \<leftarrow> vs_push (r_vs r) (V_Func a);
          shape \<leftarrow> chunk_shape cur c;
          r \<leftarrow> advance_ip (r\<lparr>r_vs := vs\<rparr>) (int (sh_offset shape));
          Some (st\<lparr>vm_heap := h\<rparr>, Running r)
        })"

text \<open>The pairs of keys and values on the top of the stack, and the dictionary made of them.\<close>

fun pairs :: "val list \<Rightarrow> (val \<times> val) list" where
  "pairs (k # v # kv) = (k, v) # pairs kv"
| "pairs _ = []"

fun string_keys :: "(val \<times> val) list \<Rightarrow> (cstring \<times> val) list option" where
  "string_keys [] = Some []"
| "string_keys ((V_Str s, v) # kv) = map_option (Cons (s, v)) (string_keys kv)"
| "string_keys _ = None"

definition op_dict :: "vm_state \<Rightarrow> runtime_info \<Rightarrow> nat \<Rightarrow> (vm_state \<times> outcome) option" where
  "op_dict st r c =
     (let data = v_data (r_vs r) in
      if length data < c * 2 then None
      else
        let kv = pairs (drop (length data - c * 2) data) in
        case check_dict_keys kv of
          Some m \<Rightarrow> Some (st, Thrown m)
        | None \<Rightarrow> do {
            kv \<leftarrow> string_keys kv;
            d \<leftarrow> dict_new_steal kv;
            let (h, a) = heap_alloc (vm_heap st) (O_Dict d);
            vs \<leftarrow> vs_push ((r_vs r)\<lparr>v_data := take (length data - c * 2) data\<rparr>) (V_Dict a);
            next_with (st\<lparr>vm_heap := h\<rparr>) r vs
          })"

definition op_list :: "vm_state \<Rightarrow> runtime_info \<Rightarrow> nat \<Rightarrow> (vm_state \<times> outcome) option" where
  "op_list st r n =
     (let data = v_data (r_vs r) in
      if length data < n then None
      else do {
        let (h, a) = heap_alloc (vm_heap st) (O_List (list_new_steal (drop (length data - n) data)));
        vs \<leftarrow> vs_push ((r_vs r)\<lparr>v_data := take (length data - n) data\<rparr>) (V_List a);
        next_with (st\<lparr>vm_heap := h\<rparr>) r vs
      })"

text \<open>The symbolic instructions have no entry in the jump table.\<close>

definition step :: "env \<Rightarrow> vm_state \<Rightarrow> runtime_info \<Rightarrow> (vm_state \<times> outcome) option" where
  "step E st r =
     do {
       instr \<leftarrow> fetch (fst (r_ip r)) (snd (r_ip r));
       let c = in_c instr;
       (case opcode instr of
          OP_LOAD_CONST \<Rightarrow>
            (if unat c < length (r_consts r) then do {
               vs \<leftarrow> vs_push (r_vs r) (r_consts r ! unat c);
               next_with st r vs
             } else None)
        | OP_LOAD_LOCAL \<Rightarrow> do {
            i \<leftarrow> local_ix r c;
            vs \<leftarrow> vs_push (r_vs r) (v_data (r_vs r) ! i);
            next_with st r vs
          }
        | OP_LOAD_GLOBAL \<Rightarrow> op_load_global st r (unat c)
        | OP_LOAD_AT \<Rightarrow> do {
            (i, vs) \<leftarrow> vs_pop (r_vs r);
            (v, vs) \<leftarrow> vs_pop vs;
            push_result st r vs (get_elem_at (e_deci E) (vm_heap st) v i)
          }
        | OP_AOP \<Rightarrow> do {
            aop \<leftarrow> aop_of_code (in_a instr);
            (v, vs) \<leftarrow> vs_pop (r_vs r);
            (w, vs) \<leftarrow> vs_pop vs;
            push_result st r vs (perform_aop (e_deci E) (vm_ntp st) (e_same E w v) aop w v)
          }
        | OP_CMP_2WAY \<Rightarrow> do {
            (v, vs) \<leftarrow> vs_pop (r_vs r);
            (w, vs) \<leftarrow> vs_pop vs;
            eq \<leftarrow> values_equal (e_deci E) w v;
            vs \<leftarrow> vs_push vs (V_Flag (eq = (in_a instr \<noteq> 0)));
            next_with st r vs
          }
        | OP_CMP_3WAY \<Rightarrow> do {
            (v, vs) \<leftarrow> vs_pop (r_vs r);
            (w, vs) \<leftarrow> vs_pop vs;
            push_result st r vs (perform_cmp_3way (e_deci E) w v (in_a instr))
          }
        | OP_JUMP \<Rightarrow> do { r \<leftarrow> advance_ip r (sint c); Some (st, Running r) }
        | OP_JUMP_UNLESS \<Rightarrow> do {
            (v, vs) \<leftarrow> vs_pop (r_vs r);
            r \<leftarrow> advance_ip (r\<lparr>r_vs := vs\<rparr>) (if value_is_truthy v then 1 else sint c);
            Some (st, Running r)
          }
        | OP_RETURN \<Rightarrow> op_return st r
        | OP_CALL \<Rightarrow> op_call E st r (in_a instr \<noteq> 0) (unat c)
        | OP_NOT \<Rightarrow> do {
            (v, vs) \<leftarrow> vs_pop (r_vs r);
            vs \<leftarrow> vs_push vs (V_Flag (\<not> value_is_truthy v));
            next_with st r vs
          }
        | OP_LEN \<Rightarrow> do { (v, vs) \<leftarrow> vs_pop (r_vs r); push_result st r vs (perform_len (e_deci E) (vm_heap st) v) }
        | OP_STORE_LOCAL \<Rightarrow> do {
            (v, vs) \<leftarrow> vs_pop (r_vs r);
            i \<leftarrow> local_ix (r\<lparr>r_vs := vs\<rparr>) c;
            next_with st r (vs\<lparr>v_data := (v_data vs)[i := v]\<rparr>)
          }
        | OP_STORE_GLOBAL \<Rightarrow> do {
            (v, vs) \<leftarrow> vs_pop (r_vs r);
            g \<leftarrow> global_store (vm_globals st) (unat c) v;
            next_with (st\<lparr>vm_globals := g\<rparr>) r vs
          }
        | OP_STORE_AT \<Rightarrow> op_store_at E st r None
        | OP_MODIFY_LOCAL \<Rightarrow> do { aop \<leftarrow> aop_of_code (in_a instr); op_modify_local E st r aop c }
        | OP_MODIFY_GLOBAL \<Rightarrow> do { aop \<leftarrow> aop_of_code (in_a instr); op_modify_global E st r aop (unat c) }
        | OP_MODIFY_AT \<Rightarrow> do { aop \<leftarrow> aop_of_code (in_a instr); op_store_at E st r (Some aop) }
        | OP_PRINT \<Rightarrow> do {
            (v, vs) \<leftarrow> vs_pop (r_vs r);
            out \<leftarrow> value_print (e_deci E) (e_addr E) (vm_heap st) v (vm_out st);
            next_with (st\<lparr>vm_out := out\<rparr>) r vs
          }
        | OP_FUNCTION \<Rightarrow> op_function st r c
        | OP_NEG \<Rightarrow> do { (v, vs) \<leftarrow> vs_pop (r_vs r); push_result st r vs (perform_neg (e_deci E) v) }
        | OP_DICT \<Rightarrow> op_dict st r (unat c)
        | OP_LIST \<Rightarrow> op_list st r (unat c)
        | _ \<Rightarrow> None)
     }"

section \<open>Evaluation\<close>

definition scratch_pad_new :: "runtime_info option" where
  "scratch_pad_new =
     do {
       vs \<leftarrow> value_stack_new 0;
       cs \<leftarrow> call_stack_new 1;
       Some \<lparr>r_vs = vs, r_cs = cs, r_ip = (\<lparr>code = [], constants = [], quarks = [], shapes = [], origin = [], source = []\<rparr>, 0),
         r_locals = (0, 0), r_consts = []\<rparr>
     }"

definition setup_for_eval :: "runtime_info \<Rightarrow> func \<Rightarrow> nat \<Rightarrow> runtime_info thrown" where
  "setup_for_eval pad f a =
     do {
       shape \<leftarrow> func_shape f;
       if nargs_encoded shape \<noteq> 0 then
         Some (Inl ''You are not supposed to call functions with args this way! >_~'')
       else do {
         vs \<leftarrow> value_stack_ensure (r_vs pad) (maxstack shape + nlocals shape + 1);
         vs \<leftarrow> vs_push vs (V_Func a);
         vs \<leftarrow> pushn vs (nlocals shape);
         cs \<leftarrow> call_stack_push (r_cs pad) \<lparr>call_ip = None, callee = f, prev_consts = [], prev_locals_offset = SIZE_MAX\<rparr>;
         Some (Inr (pad\<lparr>r_vs := vs, r_cs := cs\<rparr>))
       }
     }"

text \<open>The registers at the start of the loop.\<close>

definition eval_start :: "func \<Rightarrow> nat \<Rightarrow> runtime_info thrown" where
  "eval_start f a =
     do {
       pad \<leftarrow> scratch_pad_new;
       res \<leftarrow> setup_for_eval pad f a;
       Some (map_sum id (\<lambda>r. r\<lparr>r_ip := (f_chunk f, f_ip f + 1), r_locals := (v_buf (r_vs r), 1),
         r_consts := constants (f_chunk f)\<rparr>) res)
     }"

partial_function (option) eval_loop :: "env \<Rightarrow> vm_state \<Rightarrow> runtime_info \<Rightarrow> (vm_state \<times> (string + val)) option" where
  "eval_loop E st r =
     do {
       (st, out) \<leftarrow> step E st r;
       (case out of
          Running r \<Rightarrow> eval_loop E st r
        | Done v \<Rightarrow> Some (st, Inr v)
        | Thrown m \<Rightarrow> Some (st, Inl m))
     }"

text \<open>The message of the error that \<open>state_eval\<close> prints before it returns \<open>NULL\<close>, or the value.\<close>

definition state_eval :: "env \<Rightarrow> vm_state \<Rightarrow> nat \<Rightarrow> (vm_state \<times> (string + val)) option" where
  "state_eval E st a =
     do {
       f \<leftarrow> heap_func (vm_heap st) a;
       res \<leftarrow> eval_start f a;
       (case res of Inl m \<Rightarrow> Some (st, Inl m) | Inr r \<Rightarrow> eval_loop E st r)
     }"

end
