(* ===== verification/Parser_State.thy ===== *)
theory Parser_State
  imports Literals Vm
begin

text \<open>
  The state of the parser (\<open>parse.c\<close>), which is a one-pass compiler, and the operations on it: emitting code,
  scopes, the resolution of names, functions and jumps. The arrays of the parser are lists: growing them fails
  only when memory is exhausted, which ends the program and is not represented here. The scopes, ranges and
  instructions have their last element on top, the stacks of pending jumps their first.

  An operation returns a value or throws a parse error, with the state at that point (the global variables that
  were interned stay); it has no result where the C code aborts or is undefined.
\<close>

section \<open>State\<close>

record tagged_instr =
  ti_instr :: instr
  ti_line :: nat

record code_range =
  scope_index :: nat
  range_begin :: nat
  range_end :: nat

record parse_error =
  pe_pos :: position
  pe_size :: nat
  pe_msg :: string
  need_more :: bool

record parser =
  ps_lexer :: lexer
  ps_globals :: "val globals"
  ps_cur :: lexeme
  prog :: "tagged_instr list"
  ps_consts :: "val list"
  ps_shapes :: "shape list"
  scopes :: "nat xht list"
  ranges :: "code_range list"
  idents :: "string list"
  s_if :: "nat list"
  s_break :: "nat list"
  s_continue :: "nat list"

definition parser_new :: "string \<Rightarrow> val globals \<Rightarrow> parser option" where
  "parser_new txt state =
     do {
       lexer \<leftarrow> lexer_new txt;
       Some \<lparr>ps_lexer = lexer, ps_globals = state,
         ps_cur = \<lparr>lk_kind = LK_AND, lk_start = 0, lk_size = 0, lk_pos = \<lparr>line = 0, column = 0\<rparr>\<rparr>,
         prog = [], ps_consts = [], ps_shapes = [], scopes = [], ranges = [], idents = [],
         s_if = [], s_break = [], s_continue = []\<rparr>
     }"

section \<open>Results\<close>

type_synonym 'a res = "((parse_error + 'a) \<times> parser) option"

definition ok :: "'a \<Rightarrow> parser \<Rightarrow> 'a res" where
  "ok x p = Some (Inr x, p)"

text \<open>Goes on when nothing was thrown.\<close>

definition andthen :: "'a res \<Rightarrow> ('a \<Rightarrow> parser \<Rightarrow> 'b res) \<Rightarrow> 'b res" where
  "andthen r f = (case r of None \<Rightarrow> None | Some (Inl e, p) \<Rightarrow> Some (Inl e, p) | Some (Inr x, p) \<Rightarrow> f x p)"

lemma andthen_simps [simp]:
  "andthen None f = None" "andthen (Some (Inl e, p)) f = Some (Inl e, p)" "andthen (Some (Inr x, p)) f = f x p"
  "andthen (ok x p) f = f x p"
  by (simp_all add: andthen_def ok_def)

text \<open>\<open>(size_t) -1\<close> is \<open>SIZE_MAX\<close>; the position of \<open>throw_error\<close> is zero.\<close>

definition throw_error :: "parser \<Rightarrow> string \<Rightarrow> 'a res" where
  "throw_error p msg =
     Some (Inl \<lparr>pe_pos = \<lparr>line = 0, column = 0\<rparr>, pe_size = SIZE_MAX, pe_msg = msg, need_more = False\<rparr>, p)"

definition throw_error_at :: "parser \<Rightarrow> string \<Rightarrow> lexeme \<Rightarrow> 'a res" where
  "throw_error_at p msg lx =
     Some (Inl \<lparr>pe_pos = lk_pos lx, pe_size = lk_size lx, pe_msg = msg, need_more = (lk_kind lx = LK_EOF)\<rparr>, p)"

definition throw_error_precise :: "parser \<Rightarrow> string \<Rightarrow> position \<Rightarrow> nat \<Rightarrow> 'a res" where
  "throw_error_precise p msg pos n =
     Some (Inl \<lparr>pe_pos = pos, pe_size = n, pe_msg = msg, need_more = False\<rparr>, p)"

abbreviation cur_kind :: "parser \<Rightarrow> lexeme_kind" where
  "cur_kind p \<equiv> lk_kind (ps_cur p)"

definition lexeme_text :: "parser \<Rightarrow> lexeme \<Rightarrow> string" where
  "lexeme_text p l = take (lk_size l) (drop (lk_start l) (src (ps_lexer p)))"

text \<open>A spelling between apostrophes, in messages.\<close>

definition quoted :: "string \<Rightarrow> string" where
  "quoted s = CHR 0x27 # s @ [CHR 0x27]"

section \<open>Lists of the program\<close>

definition add_shape :: "parser \<Rightarrow> nat res" where
  "add_shape p =
     (let i = length (ps_shapes p) mod 2 ^ 32 in
      if i = UINT32_MAX then throw_error p ''too many functions''
      else ok i (p\<lparr>ps_shapes := ps_shapes p @ [\<lparr>nargs_encoded = 0, nlocals = 0, sh_offset = 0, maxstack = 0\<rparr>]\<rparr>))"

definition add_const_steal :: "parser \<Rightarrow> val \<Rightarrow> nat res" where
  "add_const_steal p v =
     (let i = length (ps_consts p) mod 2 ^ 32 in
      if i = UINT32_MAX then throw_error p ''too many constants''
      else ok i (p\<lparr>ps_consts := ps_consts p @ [v]\<rparr>))"

definition push_range :: "parser \<Rightarrow> code_range \<Rightarrow> parser" where
  "push_range p v = p\<lparr>ranges := ranges p @ [v]\<rparr>"

definition mk_instr :: "opcode \<Rightarrow> nat \<Rightarrow> nat \<Rightarrow> instr" where
  "mk_instr op a c = \<lparr>opcode = op, in_a = a, in_b = 0, in_c = of_nat c\<rparr>"

definition emit_at_line :: "parser \<Rightarrow> instr \<Rightarrow> nat \<Rightarrow> parser" where
  "emit_at_line p ins l = p\<lparr>prog := prog p @ [\<lparr>ti_instr = ins, ti_line = l\<rparr>]\<rparr>"

definition unemit :: "parser \<Rightarrow> (instr \<times> parser) option" where
  "unemit p = (if prog p = [] then None else Some (ti_instr (last (prog p)), p\<lparr>prog := butlast (prog p)\<rparr>))"

definition emit :: "parser \<Rightarrow> instr \<Rightarrow> parser" where
  "emit p ins = emit_at_line p ins SIZE_MAX"

definition emit_at :: "parser \<Rightarrow> instr \<Rightarrow> lexeme \<Rightarrow> parser" where
  "emit_at p ins lx = emit_at_line p ins (line (lk_pos lx))"

definition here :: "parser \<Rightarrow> nat" where
  "here p = length (prog p)"

definition advance :: "parser \<Rightarrow> unit res" where
  "advance p =
     do {
       (l, lexer) \<leftarrow> lexer_next (ps_lexer p);
       let p = p\<lparr>ps_cur := l, ps_lexer := lexer\<rparr>;
       (if lk_kind l = LK_ERROR then do { m \<leftarrow> lexer_error_msg lexer; throw_error_at p m l } else ok () p)
     }"

definition slurp :: "parser \<Rightarrow> lexeme_kind \<Rightarrow> string \<Rightarrow> unit res" where
  "slurp p k msg = (if cur_kind p \<noteq> k then throw_error_at p msg (ps_cur p) else advance p)"

section \<open>Names\<close>

definition load :: "parser \<Rightarrow> lexeme \<Rightarrow> instr res" where
  "load p ident =
     (let i = length (idents p) mod 2 ^ 32 in
      if i = UINT32_MAX then throw_error p ''too many identifiers''
      else ok (mk_instr OP_LOAD_SYMBOLIC 0 i) (p\<lparr>idents := idents p @ [lexeme_text p ident]\<rparr>))"

definition ident_of :: "parser \<Rightarrow> instr \<Rightarrow> string option" where
  "ident_of p ins = (if unat (in_c ins) < length (idents p) then Some (idents p ! unat (in_c ins)) else None)"

text \<open>The number of a name in the table of the innermost scope, where it is put if it is not there.\<close>

definition put_local :: "parser \<Rightarrow> string \<Rightarrow> (nat \<times> parser) option" where
  "put_local p name =
     (if scopes p = [] then None
      else do {
        let locals = last (scopes p);
        (locals, r) \<leftarrow> xht_put locals name (hash_str name) (xht_size locals);
        idx \<leftarrow> xht_load locals r;
        Some (idx, p\<lparr>scopes := butlast (scopes p) @ [locals]\<rparr>)
      })"

definition load_to_store :: "parser \<Rightarrow> instr \<Rightarrow> bool \<Rightarrow> lexeme \<Rightarrow> instr res" where
  "load_to_store p ins local scapegoat =
     (if opcode ins = OP_LOAD_SYMBOLIC then
        (if local then do {
           ident \<leftarrow> ident_of p ins;
           (idx, p) \<leftarrow> put_local p ident;
           ok (mk_instr OP_STORE_LOCAL 0 idx) p
         } else ok (mk_instr OP_STORE_SYMBOLIC 0 (unat (in_c ins))) p)
      else if opcode ins = OP_LOAD_AT \<and> \<not> local then ok (mk_instr OP_STORE_AT 0 0) p
      else throw_error_at p ''invalid assignment'' scapegoat)"

definition code_of_aop :: "aop \<Rightarrow> nat" where
  "code_of_aop a = length (takeWhile (\<lambda>b. b \<noteq> a) all_aops)"

definition load_to_modify :: "parser \<Rightarrow> instr \<Rightarrow> aop \<Rightarrow> lexeme \<Rightarrow> instr res" where
  "load_to_modify p ins aop scapegoat =
     (if opcode ins = OP_LOAD_SYMBOLIC then ok (mk_instr OP_MODIFY_SYMBOLIC (code_of_aop aop) (unat (in_c ins))) p
      else if opcode ins = OP_LOAD_AT then ok (mk_instr OP_MODIFY_AT (code_of_aop aop) 0) p
      else throw_error_at p ''invalid compound assignment'' scapegoat)"

section \<open>Scopes\<close>

definition fixup_last_range_end :: "parser \<Rightarrow> nat \<Rightarrow> parser option" where
  "fixup_last_range_end p new_end =
     (if ranges p = [] then None
      else Some (p\<lparr>ranges := butlast (ranges p) @ [(last (ranges p))\<lparr>range_end := new_end\<rparr>]\<rparr>))"

definition open_scope :: "parser \<Rightarrow> parser option" where
  "open_scope p =
     do {
       let pos = here p;
       p \<leftarrow> (if ranges p \<noteq> [] then fixup_last_range_end p pos else Some p);
       let i = length (scopes p);
       ht \<leftarrow> xht_new 0;
       let p = p\<lparr>scopes := scopes p @ [ht]\<rparr>;
       Some (push_range p \<lparr>scope_index = i, range_begin = pos, range_end = SIZE_MAX\<rparr>)
     }"

text \<open>A local variable where the scope has one of the name, a global variable otherwise.\<close>

definition resolve_symbolic :: "parser \<Rightarrow> nat xht \<Rightarrow> instr \<Rightarrow> opcode \<Rightarrow> opcode \<Rightarrow> (instr \<times> parser) option" where
  "resolve_symbolic p locals ins op_local op_global =
     do {
       ident \<leftarrow> ident_of p ins;
       local_idx \<leftarrow> xht_get locals ident (hash_str ident) UINT32_MAX;
       if local_idx \<noteq> UINT32_MAX then Some (mk_instr op_local (in_a ins) local_idx, p)
       else do {
         (g, global_idx) \<leftarrow> state_intern_global (ps_globals p) ident;
         Some (mk_instr op_global (in_a ins) global_idx, p\<lparr>ps_globals := g\<rparr>)
       }
     }"

definition nranges_for_scope_index :: "code_range list \<Rightarrow> nat \<Rightarrow> nat" where
  "nranges_for_scope_index rs i = length (takeWhile (\<lambda>r. scope_index r = i) (rev rs))"

text \<open>How many values an instruction leaves on the stack, less those that it takes.\<close>

fun actions :: "opcode \<Rightarrow> int" where
  "actions OP_LOAD_CONST = 1"
| "actions OP_LOAD_LOCAL = 1"
| "actions OP_LOAD_AT = -1"
| "actions OP_LOAD_GLOBAL = 1"
| "actions OP_MODIFY_LOCAL = -1"
| "actions OP_MODIFY_AT = -3"
| "actions OP_MODIFY_GLOBAL = -1"
| "actions OP_STORE_LOCAL = -1"
| "actions OP_STORE_AT = -3"
| "actions OP_STORE_GLOBAL = -1"
| "actions OP_PRINT = -1"
| "actions OP_RETURN = -1"
| "actions OP_JUMP = 0"
| "actions OP_JUMP_UNLESS = -1"
| "actions OP_CALL = 0"
| "actions OP_FUNCTION = 1"
| "actions OP_NEG = 0"
| "actions OP_NOT = 0"
| "actions OP_AOP = -1"
| "actions OP_CMP_2WAY = -1"
| "actions OP_CMP_3WAY = -1"
| "actions OP_LIST = 1"
| "actions OP_DICT = 1"
| "actions OP_LEN = 0"
| "actions OP_LOAD_SYMBOLIC = 1"
| "actions OP_MODIFY_SYMBOLIC = -1"
| "actions OP_STORE_SYMBOLIC = -1"

definition resolve_instr :: "parser \<Rightarrow> nat xht \<Rightarrow> instr \<Rightarrow> (instr \<times> parser) option" where
  "resolve_instr p locals ins =
     (case opcode ins of
        OP_LOAD_SYMBOLIC \<Rightarrow> resolve_symbolic p locals ins OP_LOAD_LOCAL OP_LOAD_GLOBAL
      | OP_STORE_SYMBOLIC \<Rightarrow> resolve_symbolic p locals ins OP_STORE_LOCAL OP_STORE_GLOBAL
      | OP_MODIFY_SYMBOLIC \<Rightarrow> resolve_symbolic p locals ins OP_MODIFY_LOCAL OP_MODIFY_GLOBAL
      | _ \<Rightarrow> Some (ins, p))"

text \<open>\<open>curstack\<close> is a \<open>size_t\<close>, and so wraps.\<close>

definition stack_after :: "instr \<Rightarrow> 64 word \<Rightarrow> 64 word" where
  "stack_after ins curstack =
     (let curstack = curstack + of_int (actions (opcode ins)) in
      case opcode ins of
        OP_CALL \<Rightarrow> curstack - of_nat (unat (in_c ins))
      | OP_LIST \<Rightarrow> curstack - of_nat (unat (in_c ins))
      | OP_DICT \<Rightarrow> curstack - 2 * of_nat (unat (in_c ins))
      | _ \<Rightarrow> curstack)"

text \<open>The loops of \<open>close_scope\<close>, over the positions of a range and over the ranges of the scope.\<close>

fun close_positions :: "nat xht \<Rightarrow> nat list \<Rightarrow> parser \<Rightarrow> 64 word \<Rightarrow> 64 word \<Rightarrow> (parser \<times> 64 word \<times> 64 word) option" where
  "close_positions locals [] p curstack mx = Some (p, curstack, mx)"
| "close_positions locals (j # js) p curstack mx =
     (if length (prog p) \<le> j then None
      else do {
        let ins = ti_instr (prog p ! j);
        let curstack = stack_after ins curstack;
        (ins, p) \<leftarrow> resolve_instr p locals ins;
        let p = p\<lparr>prog := (prog p)[j := (prog p ! j)\<lparr>ti_instr := ins\<rparr>]\<rparr>;
        close_positions locals js p curstack (max mx curstack)
      })"

fun close_ranges :: "nat xht \<Rightarrow> code_range list \<Rightarrow> parser \<Rightarrow> 64 word \<Rightarrow> 64 word \<Rightarrow> (parser \<times> 64 word \<times> 64 word) option" where
  "close_ranges locals [] p curstack mx = Some (p, curstack, mx)"
| "close_ranges locals (r # rs) p curstack mx =
     do {
       (p, curstack, mx) \<leftarrow> close_positions locals [range_begin r..<range_end r] p curstack mx;
       close_ranges locals rs p curstack mx
     }"

text \<open>The bound of the stack and the number of local variables of the scope.\<close>

definition close_scope :: "parser \<Rightarrow> (nat \<times> nat) res" where
  "close_scope p =
     do {
       let pos = here p;
       p \<leftarrow> fixup_last_range_end p pos;
       (if scopes p = [] then None
        else do {
          let scope_idx = length (scopes p) - 1;
          let locals = last (scopes p);
          let n = length (ranges p) - nranges_for_scope_index (ranges p) scope_idx;
          (p, _, mx) \<leftarrow> close_ranges locals (drop n (ranges p)) p 0 0;
          let p = p\<lparr>ranges := take n (ranges p)\<rparr>;
          let nl = xht_size locals mod 2 ^ 32;
          if unat mx > SIZE_MAX div 2 then throw_error p ''program is too big''
          else if nl > UINT32_MAX div 2 then throw_error p ''too many locals''
          else do {
            let p = p\<lparr>scopes := butlast (scopes p)\<rparr>;
            let p = (if scopes p \<noteq> [] then
                       push_range p \<lparr>scope_index = length (scopes p) - 1, range_begin = pos, range_end = SIZE_MAX\<rparr>
                     else p);
            ok (unat mx, nl) p
          }
        })
     }"

section \<open>Functions\<close>

text \<open>The index of the shape of the function at a position.\<close>

definition fun_shape_ptr :: "parser \<Rightarrow> nat \<Rightarrow> nat option" where
  "fun_shape_ptr p begin_pos =
     (if length (prog p) \<le> begin_pos then None
      else
        let ins = ti_instr (prog p ! begin_pos) in
        if opcode ins = OP_FUNCTION \<and> unat (in_c ins) < length (ps_shapes p) then Some (unat (in_c ins)) else None)"

definition fun_begin :: "parser \<Rightarrow> nat res" where
  "fun_begin p =
     (let pos = here p in
      andthen (add_shape p) (\<lambda>shape_idx p.
        let p = emit p (mk_instr OP_FUNCTION 0 shape_idx) in
        do {
          p \<leftarrow> open_scope p;
          ok pos (p\<lparr>s_if := SIZE_MAX # s_if p, s_break := SIZE_MAX # s_break p, s_continue := SIZE_MAX # s_continue p\<rparr>)
        }))"

definition fun_param :: "parser \<Rightarrow> nat \<Rightarrow> lexeme \<Rightarrow> bool \<Rightarrow> unit res" where
  "fun_param p begin_pos name gather =
     (if scopes p = [] then None
      else do {
        let old_size = xht_size (last (scopes p)) mod 2 ^ 32;
        (idx, p) \<leftarrow> put_local p (lexeme_text p name);
        if idx \<noteq> old_size then throw_error_at p ''duplicate parameter'' name
        else do {
          i \<leftarrow> fun_shape_ptr p begin_pos;
          let sh = ps_shapes p ! i;
          let n = (if gather then NOT (nargs_encoded sh) else nargs_encoded sh + 1);
          ok () (p\<lparr>ps_shapes := (ps_shapes p)[i := sh\<lparr>nargs_encoded := n\<rparr>]\<rparr>)
        }
      })"

definition fun_end :: "parser \<Rightarrow> nat \<Rightarrow> unit res" where
  "fun_end p begin_pos =
     andthen (add_const_steal p V_Nil) (\<lambda>i p.
       let p = emit p (mk_instr OP_LOAD_CONST 0 i);
           p = emit p (mk_instr OP_RETURN 0 0);
           pos = here p in
       do {
         i \<leftarrow> fun_shape_ptr p begin_pos;
         andthen (close_scope p) (\<lambda>(m, n) p.
           let sh = ps_shapes p ! i;
               p = p\<lparr>ps_shapes := (ps_shapes p)[i := sh\<lparr>nlocals := n, maxstack := m\<rparr>]\<rparr>;
               offset = pos - begin_pos in
           if offset > UINT32_MAX div 2 then throw_error p ''function body is too long''
           else
             let sh = ps_shapes p ! i;
                 p = p\<lparr>ps_shapes := (ps_shapes p)[i := sh\<lparr>sh_offset := offset\<rparr>]\<rparr> in
             if s_if p = [] \<or> s_break p = [] \<or> s_continue p = [] then None
             else ok () (p\<lparr>s_if := tl (s_if p), s_break := tl (s_break p), s_continue := tl (s_continue p)\<rparr>))
       })"

section \<open>Jumps\<close>

definition postpone_jump :: "parser \<Rightarrow> nat \<times> parser" where
  "postpone_jump p = (here p, emit p (mk_instr OP_JUMP 0 0))"

definition postpone_jump_unless :: "parser \<Rightarrow> nat \<times> parser" where
  "postpone_jump_unless p = (here p, emit p (mk_instr OP_JUMP_UNLESS 0 0))"

text \<open>The distance is truncated to the 32 bits of the operand.\<close>

definition fixup_jump :: "parser \<Rightarrow> nat \<Rightarrow> nat \<Rightarrow> parser option" where
  "fixup_jump p frm to =
     (if length (prog p) \<le> frm then None
      else
        let t = prog p ! frm in
        if opcode (ti_instr t) = OP_JUMP \<or> opcode (ti_instr t) = OP_JUMP_UNLESS then
          Some (p\<lparr>prog := (prog p)[frm := t\<lparr>ti_instr := (ti_instr t)\<lparr>in_c := of_int (int to - int frm)\<rparr>\<rparr>]\<rparr>)
        else None)"

definition emit_jump_to :: "parser \<Rightarrow> nat \<Rightarrow> parser option" where
  "emit_jump_to p to = (let (frm, p) = postpone_jump p in fixup_jump p frm to)"

text \<open>
  A segment of a stack of pending jumps ends with \<open>(size_t) -2\<close>; \<open>(size_t) -1\<close> below it is the begin of the
  function.
\<close>

definition SEGMENT :: nat where
  "SEGMENT = SIZE_MAX - 1"

text \<open>The top of the stack is looked at, and popped, without a check that there is one.\<close>

definition stack_segment_emit_jump_and_push :: "parser \<Rightarrow> nat list \<Rightarrow> (nat list \<times> parser) option option" where
  "stack_segment_emit_jump_and_push p stack =
     (case stack of
        [] \<Rightarrow> None
      | x # _ \<Rightarrow> Some (if x = SIZE_MAX then None else let (pos, p) = postpone_jump p in Some (pos # stack, p)))"

fun stack_segment_end_fixup :: "parser \<Rightarrow> nat list \<Rightarrow> nat \<Rightarrow> (nat list \<times> parser) option" where
  "stack_segment_end_fixup p [] to = None"
| "stack_segment_end_fixup p (pos # stack) to =
     (if pos = SEGMENT then Some (stack, p)
      else do { p \<leftarrow> fixup_jump p pos to; stack_segment_end_fixup p stack to })"

end
