(* ===== verification/Parser_Expr.thy ===== *)
theory Parser_Expr
  imports Parser_State
begin

text \<open>
  Parsing of expressions (\<open>parse.c\<close>): operators with priorities, calls, lists, dictionaries and indexing. The
  functions recur through \<open>expr\<close>, which is a parameter \<open>ex\<close> of the others, and contain loops; the recursion and
  every loop take fuel, and have no result when it runs out.
\<close>

section \<open>Operators\<close>

definition unary_table :: "lexeme_kind \<Rightarrow> (opcode \<times> int) option" where
  "unary_table k =
     (if k = LK_MINUS then Some (OP_NEG, 50)
      else if k = LK_BANG then Some (OP_NOT, 50)
      else if k = LK_AT then Some (OP_LEN, 60)
      else None)"

definition unary_operator :: "(int \<Rightarrow> parser \<Rightarrow> unit res) \<Rightarrow> parser \<Rightarrow> unit res" where
  "unary_operator ex p =
     (let lx = ps_cur p in
      case unary_table (lk_kind lx) of
        None \<Rightarrow> throw_error_at p ''syntax error'' lx
      | Some (op, priority) \<Rightarrow>
          andthen (advance p) (\<lambda>_ p.
          andthen (ex priority p) (\<lambda>_ p.
          ok () (emit_at p (mk_instr op 0 0) lx))))"

text \<open>The opcode and its operand, the priority, and \<open>1\<close> for the operators that associate to the left.\<close>

definition binary_table :: "lexeme_kind \<Rightarrow> (opcode \<times> nat \<times> int \<times> int) option" where
  "binary_table k =
     (let aop = (\<lambda>a prio assoc. Some (OP_AOP, code_of_aop a, prio, assoc)) in
      if k = LK_TILDE then aop AOP_CONCAT 10 1
      else if k = LK_OR_OR then aop AOP_OR 11 1
      else if k = LK_AND_AND then aop AOP_AND 12 1
      else if k = LK_OR then aop AOP_BIT_OR 13 1
      else if k = LK_HAT then aop AOP_BIT_XOR 14 1
      else if k = LK_AND then aop AOP_BIT_AND 15 1
      else if k = LK_BANG_EQ then Some (OP_CMP_2WAY, 0, 16, 1)
      else if k = LK_EQ_EQ then Some (OP_CMP_2WAY, COMPARE_EQ, 16, 1)
      else if k = LK_GREATER_EQ then Some (OP_CMP_3WAY, COMPARE_GREATER OR COMPARE_EQ, 17, 1)
      else if k = LK_GREATER then Some (OP_CMP_3WAY, COMPARE_GREATER, 17, 1)
      else if k = LK_LESS_EQ then Some (OP_CMP_3WAY, COMPARE_LESS OR COMPARE_EQ, 17, 1)
      else if k = LK_LESS then Some (OP_CMP_3WAY, COMPARE_LESS, 17, 1)
      else if k = LK_GREATER_GREATER then aop AOP_RSHIFT 18 1
      else if k = LK_LESS_LESS then aop AOP_LSHIFT 18 1
      else if k = LK_MINUS then aop AOP_SUB 19 1
      else if k = LK_PLUS then aop AOP_ADD 19 1
      else if k = LK_PERCENT then aop AOP_MOD 20 1
      else if k = LK_SLASH then aop AOP_DIV 20 1
      else if k = LK_SLASH_SLASH then aop AOP_IDIV 20 1
      else if k = LK_STAR then aop AOP_MUL 20 1
      else if k = LK_STAR_STAR then aop AOP_POW 21 0
      else None)"

definition binary_operator :: "(int \<Rightarrow> parser \<Rightarrow> unit res) \<Rightarrow> int \<Rightarrow> parser \<Rightarrow> bool res" where
  "binary_operator ex min_priority p =
     (let lx = ps_cur p in
      case binary_table (lk_kind lx) of
        None \<Rightarrow> throw_error_at p ''syntax error'' lx
      | Some (op, a, priority, is_left_assoc) \<Rightarrow>
          if priority < min_priority then ok False p
          else
            andthen (advance p) (\<lambda>_ p.
            andthen (ex (priority + is_left_assoc) p) (\<lambda>_ p.
            ok True (emit_at p (mk_instr op a 0) lx))))"

section \<open>Calls, lists and dictionaries\<close>

text \<open>The number of arguments, and whether the last is scattered.\<close>

primrec funcall_loop :: "(int \<Rightarrow> parser \<Rightarrow> unit res) \<Rightarrow> nat \<Rightarrow> nat \<Rightarrow> bool \<Rightarrow> parser \<Rightarrow> (nat \<times> bool) res" where
  "funcall_loop ex 0 nargs is_scatter p = None"
| "funcall_loop ex (Suc k) nargs is_scatter p =
     andthen (if cur_kind p = LK_STAR then andthen (advance p) (\<lambda>_ p. ok True p) else ok is_scatter p) (\<lambda>is_scatter p.
     andthen (ex (-1) p) (\<lambda>_ p.
       if cur_kind p = LK_RPAREN then andthen (advance p) (\<lambda>_ p. ok (nargs, is_scatter) p)
       else if cur_kind p = LK_COMMA then
         andthen (advance p) (\<lambda>_ p.
           if is_scatter then throw_error_at p ''scatter argument is not the last one'' (ps_cur p)
           else if nargs = UINT32_MAX then throw_error_at p ''too many arguments'' (ps_cur p)
           else funcall_loop ex k (nargs + 1) is_scatter p)
       else throw_error_at p (''expected '' @ quoted '','' @ '' or '' @ quoted '')'') (ps_cur p)))"

definition funcall :: "(int \<Rightarrow> parser \<Rightarrow> unit res) \<Rightarrow> nat \<Rightarrow> parser \<Rightarrow> (nat \<times> bool) res" where
  "funcall ex k p =
     andthen (advance p) (\<lambda>_ p.
       if cur_kind p = LK_RPAREN then andthen (advance p) (\<lambda>_ p. ok (0, False) p)
       else funcall_loop ex k 1 False p)"

primrec newlist_loop :: "(int \<Rightarrow> parser \<Rightarrow> unit res) \<Rightarrow> nat \<Rightarrow> nat \<Rightarrow> parser \<Rightarrow> nat res" where
  "newlist_loop ex 0 nelems p = None"
| "newlist_loop ex (Suc k) nelems p =
     andthen (ex (-1) p) (\<lambda>_ p.
       if cur_kind p = LK_RBRACKET then andthen (advance p) (\<lambda>_ p. ok nelems p)
       else if cur_kind p = LK_COMMA then
         andthen (advance p) (\<lambda>_ p.
           if nelems = UINT32_MAX then throw_error_at p ''too many list elements'' (ps_cur p)
           else newlist_loop ex k (nelems + 1) p)
       else throw_error_at p (''expected '' @ quoted '','' @ '' or '' @ quoted '']'') (ps_cur p))"

definition newlist :: "(int \<Rightarrow> parser \<Rightarrow> unit res) \<Rightarrow> nat \<Rightarrow> parser \<Rightarrow> nat res" where
  "newlist ex k p =
     andthen (advance p) (\<lambda>_ p.
       if cur_kind p = LK_RBRACKET then andthen (advance p) (\<lambda>_ p. ok 0 p)
       else newlist_loop ex k 1 p)"

primrec newdict_loop :: "(int \<Rightarrow> parser \<Rightarrow> unit res) \<Rightarrow> nat \<Rightarrow> nat \<Rightarrow> parser \<Rightarrow> nat res" where
  "newdict_loop ex 0 nelems p = None"
| "newdict_loop ex (Suc k) nelems p =
     andthen (ex (-1) p) (\<lambda>_ p.
     andthen (slurp p LK_COLON (''expected '' @ quoted '':'')) (\<lambda>_ p.
     andthen (ex (-1) p) (\<lambda>_ p.
       if cur_kind p = LK_RBRACE then andthen (advance p) (\<lambda>_ p. ok nelems p)
       else if cur_kind p = LK_COMMA then
         andthen (advance p) (\<lambda>_ p.
           if nelems = UINT32_MAX then throw_error_at p ''too many dict entries'' (ps_cur p)
           else newdict_loop ex k (nelems + 1) p)
       else throw_error_at p (''expected '' @ quoted '','' @ '' or '' @ quoted ''}'') (ps_cur p))))"

definition newdict :: "(int \<Rightarrow> parser \<Rightarrow> unit res) \<Rightarrow> nat \<Rightarrow> parser \<Rightarrow> nat res" where
  "newdict ex k p =
     andthen (advance p) (\<lambda>_ p.
       if cur_kind p = LK_RBRACE then andthen (advance p) (\<lambda>_ p. ok 0 p)
       else newdict_loop ex k 1 p)"

section \<open>Constants\<close>

definition add_number_const :: "deci \<Rightarrow> parser \<Rightarrow> lexeme \<Rightarrow> nat res" where
  "add_number_const D p tok = do { n \<leftarrow> number_parse D (lexeme_text p tok); add_const_steal p (V_Num n) }"

definition add_string_const :: "parser \<Rightarrow> lexeme \<Rightarrow> nat res" where
  "add_string_const p tok =
     do {
       v \<leftarrow> string_value (lexeme_text p tok);
       (case v of
          Inl esc \<Rightarrow> throw_error_precise p ''invalid escape''
            \<lparr>line = line (lk_pos tok), column = column (lk_pos tok) + esc\<rparr> 1
        | Inr s \<Rightarrow> add_const_steal p (V_Str s))
     }"

section \<open>Expressions\<close>

text \<open>The kinds of lexemes that are the end of an expression.\<close>

definition ends_expr :: "lexeme_kind \<Rightarrow> bool" where
  "ends_expr k \<longleftrightarrow> k \<in> set [LK_AND_AND_EQ, LK_AND_EQ, LK_COMMA, LK_EOF, LK_EQ, LK_COLON, LK_HAT_EQ, LK_MINUS_EQ, LK_OR_EQ,
     LK_OR_OR_EQ, LK_PERCENT_EQ, LK_PLUS_EQ, LK_SEMICOLON, LK_SLASH_EQ, LK_SLASH_SLASH_EQ, LK_STAR_EQ, LK_STAR_STAR_EQ,
     LK_TILDE_EQ, LK_COLON_EQ, LK_RPAREN, LK_RBRACKET, LK_RBRACE, LK_GREATER_GREATER_EQ, LK_LESS_LESS_EQ]"

definition this_is_expr :: "parser \<Rightarrow> bool \<Rightarrow> unit res" where
  "this_is_expr p expect_expr =
     (if \<not> expect_expr then throw_error_at p ''unexpected expression'' (ps_cur p) else ok () p)"

definition after_expr :: "parser \<Rightarrow> bool \<Rightarrow> unit res" where
  "after_expr p expect_expr =
     (if expect_expr then throw_error_at p ''expected expression'' (ps_cur p) else ok () p)"

text \<open>A constant: its instruction, and the next lexeme.\<close>

definition emit_const :: "parser \<Rightarrow> bool \<Rightarrow> (parser \<Rightarrow> lexeme \<Rightarrow> nat res) \<Rightarrow> bool option res" where
  "emit_const p expect_expr add =
     (let lx = ps_cur p in
      andthen (this_is_expr p expect_expr) (\<lambda>_ p.
      andthen (add p lx) (\<lambda>i p.
      andthen (advance (emit_at p (mk_instr OP_LOAD_CONST 0 i) lx)) (\<lambda>_ p.
      ok (Some False) p))))"

text \<open>A turn of the loop of \<open>expr\<close>: the new value of \<open>expect_expr\<close>, or \<open>None\<close> to return.\<close>

definition expr_turn :: "deci \<Rightarrow> (int \<Rightarrow> parser \<Rightarrow> unit res) \<Rightarrow> nat \<Rightarrow> int \<Rightarrow> bool \<Rightarrow> parser \<Rightarrow> bool option res" where
  "expr_turn D ex k min_priority expect_expr p =
     (let lx = ps_cur p; kind = lk_kind lx in
      if kind = LK_NUMBER then emit_const p expect_expr (add_number_const D)
      else if kind = LK_TRUE then emit_const p expect_expr (\<lambda>p _. add_const_steal p (V_Flag True))
      else if kind = LK_FALSE then emit_const p expect_expr (\<lambda>p _. add_const_steal p (V_Flag False))
      else if kind = LK_NIL then emit_const p expect_expr (\<lambda>p _. add_const_steal p V_Nil)
      else if kind = LK_STRING then emit_const p expect_expr add_string_const
      else if kind = LK_IDENT then
        andthen (this_is_expr p expect_expr) (\<lambda>_ p.
        andthen (load p lx) (\<lambda>ins p.
        andthen (advance (emit_at p ins lx)) (\<lambda>_ p. ok (Some False) p)))
      else if kind = LK_LBRACKET then
        (if expect_expr then
           andthen (newlist ex k p) (\<lambda>nelems p. ok (Some False) (emit_at p (mk_instr OP_LIST 0 nelems) lx))
         else
           andthen (advance p) (\<lambda>_ p.
           andthen (ex (-1) p) (\<lambda>_ p.
           andthen (slurp p LK_RBRACKET (''expected '' @ quoted '']'')) (\<lambda>_ p.
           ok (Some False) (emit_at p (mk_instr OP_LOAD_AT 0 0) lx)))))
      else if kind = LK_LBRACE then
        andthen (this_is_expr p expect_expr) (\<lambda>_ p.
        andthen (newdict ex k p) (\<lambda>nentries p. ok (Some False) (emit_at p (mk_instr OP_DICT 0 nentries) lx)))
      else if kind = LK_LPAREN then
        (if expect_expr then
           andthen (advance p) (\<lambda>_ p.
           andthen (ex (-1) p) (\<lambda>_ p.
           andthen (slurp p LK_RPAREN (''expected '' @ quoted '')'')) (\<lambda>_ p.
           ok (Some False) p)))
         else
           andthen (funcall ex k p) (\<lambda>(nargs, is_scatter) p.
           ok (Some False) (emit_at p (mk_instr OP_CALL (if is_scatter then 1 else 0) nargs) lx)))
      else if kind = LK_DOT then
        andthen (after_expr p expect_expr) (\<lambda>_ p.
        andthen (advance p) (\<lambda>_ p.
          let field = ps_cur p in
          if lk_kind field \<noteq> LK_IDENT then throw_error_at p ''expected identifier (field name)'' field
          else do {
            s \<leftarrow> string_new (lexeme_text p field);
            andthen (add_const_steal p (V_Str s)) (\<lambda>const_idx p.
              let p = emit_at p (mk_instr OP_LOAD_CONST 0 const_idx) field;
                  p = emit_at p (mk_instr OP_LOAD_AT 0 0) field in
              andthen (advance p) (\<lambda>_ p. ok (Some False) p))
          }))
      else if ends_expr kind then andthen (after_expr p expect_expr) (\<lambda>_ p. ok None p)
      else if expect_expr then andthen (unary_operator ex p) (\<lambda>_ p. ok (Some False) p)
      else andthen (binary_operator ex min_priority p) (\<lambda>more p. ok (if more then Some False else None) p))"

primrec expr_loop :: "deci \<Rightarrow> (int \<Rightarrow> parser \<Rightarrow> unit res) \<Rightarrow> nat \<Rightarrow> nat \<Rightarrow> int \<Rightarrow> bool \<Rightarrow> parser \<Rightarrow> unit res" where
  "expr_loop D ex k 0 min_priority expect_expr p = None"
| "expr_loop D ex k (Suc n) min_priority expect_expr p =
     andthen (expr_turn D ex k min_priority expect_expr p) (\<lambda>r p.
       case r of None \<Rightarrow> ok () p | Some expect_expr \<Rightarrow> expr_loop D ex k n min_priority expect_expr p)"

primrec expr :: "deci \<Rightarrow> nat \<Rightarrow> int \<Rightarrow> parser \<Rightarrow> unit res" where
  "expr D 0 min_priority p = None"
| "expr D (Suc k) min_priority p = expr_loop D (expr D k) k (Suc k) min_priority True p"

end
