(* ===== verification/Parser_Stmt.thy ===== *)
theory Parser_Stmt
  imports Parser_Expr
begin

text \<open>
  Parsing of statements, and of a whole source (\<open>parse.c\<close>). The functions recur through \<open>stmt\<close>, a parameter
  \<open>st\<close> of the others; \<open>ex\<close> parses expressions. The recursion and the loops take fuel.
\<close>

section \<open>Blocks and conditions\<close>

primrec block_loop :: "(parser \<Rightarrow> unit res) \<Rightarrow> nat \<Rightarrow> parser \<Rightarrow> unit res" where
  "block_loop st 0 p = None"
| "block_loop st (Suc k) p =
     andthen (st p) (\<lambda>_ p.
       if cur_kind p = LK_EOF then throw_error_at p (''expected '' @ quoted ''}'') (ps_cur p)
       else if cur_kind p = LK_RBRACE then advance p
       else block_loop st k p)"

definition block :: "(parser \<Rightarrow> unit res) \<Rightarrow> nat \<Rightarrow> parser \<Rightarrow> unit res" where
  "block st k p = andthen (slurp p LK_LBRACE (''expected '' @ quoted ''{'')) (\<lambda>_ p. block_loop st k p)"

definition if_or_elif_clause ::
    "(int \<Rightarrow> parser \<Rightarrow> unit res) \<Rightarrow> (parser \<Rightarrow> unit res) \<Rightarrow> nat \<Rightarrow> parser \<Rightarrow> nat res" where
  "if_or_elif_clause ex st k p =
     andthen (advance p) (\<lambda>_ p.
     andthen (slurp p LK_LPAREN (''expected '' @ quoted ''('')) (\<lambda>_ p.
     andthen (ex (-1) p) (\<lambda>_ p.
       let (jump_pos, p) = postpone_jump_unless p in
       andthen (slurp p LK_RPAREN (''expected '' @ quoted '')'')) (\<lambda>_ p.
       andthen (block st k p) (\<lambda>_ p.
       ok jump_pos p)))))"

definition else_clause :: "(parser \<Rightarrow> unit res) \<Rightarrow> nat \<Rightarrow> parser \<Rightarrow> unit res" where
  "else_clause st k p = andthen (advance p) (\<lambda>_ p. block st k p)"

text \<open>A jump over the rest of the statement, and the end of the clause before it.\<close>

definition next_clause :: "parser \<Rightarrow> nat \<Rightarrow> parser option" where
  "next_clause p prev_jump_unless =
     do {
       let (pos, p) = postpone_jump p;
       let p = p\<lparr>s_if := pos # s_if p\<rparr>;
       fixup_jump p prev_jump_unless (here p)
     }"

primrec elif_loop ::
    "(int \<Rightarrow> parser \<Rightarrow> unit res) \<Rightarrow> (parser \<Rightarrow> unit res) \<Rightarrow> nat \<Rightarrow> nat \<Rightarrow> nat \<Rightarrow> parser \<Rightarrow> nat res" where
  "elif_loop ex st k 0 prev_jump_unless p = None"
| "elif_loop ex st k (Suc n) prev_jump_unless p =
     (if cur_kind p \<noteq> LK_ELIF then ok prev_jump_unless p
      else do {
        p \<leftarrow> next_clause p prev_jump_unless;
        andthen (if_or_elif_clause ex st k p) (\<lambda>prev_jump_unless p. elif_loop ex st k n prev_jump_unless p)
      })"

definition if_stmt :: "(int \<Rightarrow> parser \<Rightarrow> unit res) \<Rightarrow> (parser \<Rightarrow> unit res) \<Rightarrow> nat \<Rightarrow> parser \<Rightarrow> unit res" where
  "if_stmt ex st k p =
     andthen (if_or_elif_clause ex st k (p\<lparr>s_if := SEGMENT # s_if p\<rparr>)) (\<lambda>prev_jump_unless p.
     andthen (elif_loop ex st k k prev_jump_unless p) (\<lambda>prev_jump_unless p.
     andthen
       (if cur_kind p = LK_ELSE then do {
          p \<leftarrow> next_clause p prev_jump_unless;
          else_clause st k p
        } else do {
          p \<leftarrow> fixup_jump p prev_jump_unless (here p);
          ok () p
        }) (\<lambda>_ p.
       do {
         (s, p) \<leftarrow> stack_segment_end_fixup p (s_if p) (here p);
         ok () (p\<lparr>s_if := s\<rparr>)
       })))"

section \<open>Loops\<close>

text \<open>The ends of the pending jumps of a loop.\<close>

definition end_loop :: "parser \<Rightarrow> nat \<Rightarrow> nat \<Rightarrow> parser option" where
  "end_loop p break_to continue_to =
     do {
       (s, p) \<leftarrow> stack_segment_end_fixup p (s_break p) break_to;
       let p = p\<lparr>s_break := s\<rparr>;
       (s, p) \<leftarrow> stack_segment_end_fixup p (s_continue p) continue_to;
       Some (p\<lparr>s_continue := s\<rparr>)
     }"

definition while_stmt :: "(int \<Rightarrow> parser \<Rightarrow> unit res) \<Rightarrow> (parser \<Rightarrow> unit res) \<Rightarrow> nat \<Rightarrow> parser \<Rightarrow> unit res" where
  "while_stmt ex st k p =
     andthen (advance (p\<lparr>s_break := SEGMENT # s_break p, s_continue := SEGMENT # s_continue p\<rparr>)) (\<lambda>_ p.
     andthen (slurp p LK_LPAREN (''expected '' @ quoted ''('')) (\<lambda>_ p.
       let begin_pos = here p in
       andthen (ex (-1) p) (\<lambda>_ p.
         let (jump_pos, p) = postpone_jump_unless p in
         andthen (slurp p LK_RPAREN (''expected '' @ quoted '')'')) (\<lambda>_ p.
         andthen (block st k p) (\<lambda>_ p.
         do {
           p \<leftarrow> emit_jump_to p begin_pos;
           p \<leftarrow> fixup_jump p jump_pos (here p);
           p \<leftarrow> end_loop p (here p) begin_pos;
           ok () p
         })))))"

section \<open>Assignments\<close>

definition assign_table :: "lexeme_kind \<Rightarrow> aop option" where
  "assign_table k =
     (if k = LK_AND_AND_EQ then Some AOP_AND
      else if k = LK_AND_EQ then Some AOP_BIT_AND
      else if k = LK_HAT_EQ then Some AOP_BIT_XOR
      else if k = LK_GREATER_GREATER_EQ then Some AOP_RSHIFT
      else if k = LK_LESS_LESS_EQ then Some AOP_LSHIFT
      else if k = LK_MINUS_EQ then Some AOP_SUB
      else if k = LK_OR_OR_EQ then Some AOP_OR
      else if k = LK_OR_EQ then Some AOP_BIT_OR
      else if k = LK_PERCENT_EQ then Some AOP_MOD
      else if k = LK_PLUS_EQ then Some AOP_ADD
      else if k = LK_SLASH_EQ then Some AOP_DIV
      else if k = LK_SLASH_SLASH_EQ then Some AOP_IDIV
      else if k = LK_STAR_EQ then Some AOP_MUL
      else if k = LK_STAR_STAR_EQ then Some AOP_POW
      else if k = LK_TILDE_EQ then Some AOP_CONCAT
      else None)"

definition expr_or_assignment :: "(int \<Rightarrow> parser \<Rightarrow> unit res) \<Rightarrow> parser \<Rightarrow> unit res" where
  "expr_or_assignment ex p =
     andthen (ex (-1) p) (\<lambda>_ p.
       let barrier = ps_cur p; kind = lk_kind barrier in
       if kind = LK_EQ \<or> kind = LK_COLON_EQ then do {
         (load_instr, p) \<leftarrow> unemit p;
         andthen (advance p) (\<lambda>_ p.
         andthen (ex (-1) p) (\<lambda>_ p.
         andthen (load_to_store p load_instr (kind = LK_COLON_EQ) barrier) (\<lambda>store_instr p.
         ok () (emit_at p store_instr barrier))))
       }
       else if kind = LK_SEMICOLON then ok () (emit_at p (mk_instr OP_PRINT 0 0) barrier)
       else case assign_table kind of
         None \<Rightarrow> throw_error_at p (''expected '' @ quoted '';'' @ '' or assignment'') barrier
       | Some aop \<Rightarrow> do {
           (load_instr, p) \<leftarrow> unemit p;
           andthen (advance p) (\<lambda>_ p.
           andthen (ex (-1) p) (\<lambda>_ p.
           andthen (load_to_modify p load_instr aop barrier) (\<lambda>modify_instr p.
           ok () (emit_at p modify_instr barrier))))
         })"

section \<open>Functions\<close>

primrec param_loop :: "nat \<Rightarrow> nat \<Rightarrow> parser \<Rightarrow> unit res" where
  "param_loop fun_pos 0 p = None"
| "param_loop fun_pos (Suc k) p =
     (if cur_kind p = LK_STAR then
        andthen (advance p) (\<lambda>_ p.
          let lxm = ps_cur p in
          if lk_kind lxm \<noteq> LK_IDENT then throw_error_at p ''expected gather parameter name'' lxm
          else
            andthen (fun_param p fun_pos lxm True) (\<lambda>_ p.
            andthen (advance p) (\<lambda>_ p.
              if cur_kind p \<noteq> LK_RPAREN then throw_error_at p (''expected '' @ quoted '')'' @ '' after gather parameter'') lxm
              else ok () p)))
      else
        let lxm = ps_cur p in
        if lk_kind lxm \<noteq> LK_IDENT then throw_error_at p ''expected parameter name'' lxm
        else
          andthen (fun_param p fun_pos lxm False) (\<lambda>_ p.
          andthen (advance p) (\<lambda>_ p.
            if cur_kind p = LK_RPAREN then ok () p
            else andthen (slurp p LK_COMMA (''expected '' @ quoted '','' @ '' or '' @ quoted '')'')) (\<lambda>_ p. param_loop fun_pos k p))))"

definition fun_stmt :: "(parser \<Rightarrow> unit res) \<Rightarrow> nat \<Rightarrow> parser \<Rightarrow> unit res" where
  "fun_stmt st k p =
     andthen (advance p) (\<lambda>_ p.
       let name = ps_cur p in
       if lk_kind name \<noteq> LK_IDENT then throw_error_at p ''expected function name'' name
       else
         andthen (advance p) (\<lambda>_ p.
         andthen (slurp p LK_LPAREN (''expected '' @ quoted ''('')) (\<lambda>_ p.
         andthen (fun_begin p) (\<lambda>fun_pos p.
         andthen (if cur_kind p \<noteq> LK_RPAREN then param_loop fun_pos k p else ok () p) (\<lambda>_ p.
         andthen (advance p) (\<lambda>_ p.
         andthen (block st k p) (\<lambda>_ p.
         andthen (fun_end p fun_pos) (\<lambda>_ p.
         andthen (load p name) (\<lambda>load_instr p.
         andthen (load_to_store p load_instr False name) (\<lambda>store_instr p.
         ok () (emit p store_instr)))))))))))"

section \<open>Loops with a counter\<close>

text \<open>The code of the statement after the body is compiled before the body, and moved behind it.\<close>

definition ti_reverse :: "'a list \<Rightarrow> 'a list" where
  "ti_reverse mem = reverse_loop (length mem div 2) 0 (length mem) mem"

definition ti_rotate_left :: "'a list \<Rightarrow> nat \<Rightarrow> 'a list" where
  "ti_rotate_left mem nrotate =
     (let d = length mem - nrotate;
          mem = ti_reverse mem;
          mem = ti_reverse (take d mem) @ drop d mem in
      take d mem @ ti_reverse (drop d mem))"

definition for_stmt :: "(int \<Rightarrow> parser \<Rightarrow> unit res) \<Rightarrow> (parser \<Rightarrow> unit res) \<Rightarrow> nat \<Rightarrow> parser \<Rightarrow> unit res" where
  "for_stmt ex st k p =
     andthen (advance (p\<lparr>s_break := SEGMENT # s_break p, s_continue := SEGMENT # s_continue p\<rparr>)) (\<lambda>_ p.
     andthen (slurp p LK_LPAREN (''expected '' @ quoted ''('')) (\<lambda>_ p.
     andthen (if cur_kind p \<noteq> LK_SEMICOLON then expr_or_assignment ex p else ok () p) (\<lambda>_ p.
     andthen (slurp p LK_SEMICOLON (''expected '' @ quoted '';'')) (\<lambda>_ p.
       let begin_pos = here p in
       andthen (if cur_kind p \<noteq> LK_SEMICOLON then
                  andthen (ex (-1) p) (\<lambda>_ p. let (pos, p) = postpone_jump_unless p in ok (Some pos) p)
                else ok None p) (\<lambda>jump_pos p.
       andthen (slurp p LK_SEMICOLON (''expected '' @ quoted '';'')) (\<lambda>_ p.
         let i1 = here p in
         andthen (if cur_kind p \<noteq> LK_RPAREN then expr_or_assignment ex p else ok () p) (\<lambda>_ p.
         andthen (slurp p LK_RPAREN (''expected '' @ quoted '')'')) (\<lambda>_ p.
           let i2 = here p in
           andthen (block st k p) (\<lambda>_ p.
             let i3 = here p; nrotate = i2 - i1; ctnue_pos = i3 - nrotate in
             do {
               p \<leftarrow> emit_jump_to p begin_pos;
               let end_pos = here p;
               p \<leftarrow> (case jump_pos of Some pos \<Rightarrow> fixup_jump p pos end_pos | None \<Rightarrow> Some p);
               p \<leftarrow> end_loop p (end_pos + nrotate) (ctnue_pos + nrotate);
               let mem = take (i3 - i1) (drop i1 (prog p));
               ok () (p\<lparr>prog := take i1 (prog p) @ ti_rotate_left mem nrotate @ drop i3 (prog p)\<rparr>)
             })))))))))"

section \<open>Statements\<close>

definition jump_stmt :: "parser \<Rightarrow> nat list \<Rightarrow> (nat list \<Rightarrow> parser \<Rightarrow> parser) \<Rightarrow> string \<Rightarrow> unit res" where
  "jump_stmt p stack upd name =
     do {
       r \<leftarrow> stack_segment_emit_jump_and_push p stack;
       (case r of
          None \<Rightarrow> throw_error_at p (quoted name @ '' outside of a loop'') (ps_cur p)
        | Some (s, p) \<Rightarrow>
            andthen (advance (upd s p)) (\<lambda>_ p. slurp p LK_SEMICOLON (''expected '' @ quoted '';'')))
     }"

definition return_stmt :: "(int \<Rightarrow> parser \<Rightarrow> unit res) \<Rightarrow> parser \<Rightarrow> unit res" where
  "return_stmt ex p =
     andthen (advance p) (\<lambda>_ p.
     andthen
       (if cur_kind p = LK_SEMICOLON then
          andthen (advance p) (\<lambda>_ p.
          andthen (add_const_steal p V_Nil) (\<lambda>i p.
          ok () (emit p (mk_instr OP_LOAD_CONST 0 i))))
        else andthen (ex (-1) p) (\<lambda>_ p. slurp p LK_SEMICOLON (''expected '' @ quoted '';''))) (\<lambda>_ p.
     ok () (emit p (mk_instr OP_RETURN 0 0))))"

definition stmt_body :: "(int \<Rightarrow> parser \<Rightarrow> unit res) \<Rightarrow> (parser \<Rightarrow> unit res) \<Rightarrow> nat \<Rightarrow> parser \<Rightarrow> unit res" where
  "stmt_body ex st k p =
     (let kind = cur_kind p in
      if kind = LK_IF then if_stmt ex st k p
      else if kind = LK_WHILE then while_stmt ex st k p
      else if kind = LK_FOR then for_stmt ex st k p
      else if kind = LK_FUN then fun_stmt st k p
      else if kind = LK_SEMICOLON then advance p
      else if kind = LK_RETURN then return_stmt ex p
      else if kind = LK_BREAK then jump_stmt p (s_break p) (\<lambda>s p. p\<lparr>s_break := s\<rparr>) ''break''
      else if kind = LK_CONTINUE then jump_stmt p (s_continue p) (\<lambda>s p. p\<lparr>s_continue := s\<rparr>) ''continue''
      else if kind = LK_EOF \<or> kind = LK_RBRACE then ok () p
      else andthen (expr_or_assignment ex p) (\<lambda>_ p. slurp p LK_SEMICOLON (''expected '' @ quoted '';'')))"

primrec stmt :: "deci \<Rightarrow> nat \<Rightarrow> parser \<Rightarrow> unit res" where
  "stmt D 0 p = None"
| "stmt D (Suc k) p = stmt_body (expr D k) (stmt D k) k p"

section \<open>The whole source\<close>

fun to_quarks :: "tagged_instr list \<Rightarrow> nat \<Rightarrow> nat \<Rightarrow> quark list" where
  "to_quarks [] i cur_line = []"
| "to_quarks (ti # tis) i cur_line =
     (if ti_line ti \<noteq> SIZE_MAX \<and> ti_line ti \<noteq> cur_line
      then \<lparr>q_instr = i, q_line = ti_line ti\<rparr> # to_quarks tis (i + 1) (ti_line ti)
      else to_quarks tis (i + 1) cur_line)"

definition to_chunk :: "parser \<Rightarrow> string \<Rightarrow> string \<Rightarrow> chunk" where
  "to_chunk p txt orig =
     \<lparr>code = map ti_instr (prog p), constants = ps_consts p, quarks = to_quarks (prog p) 0 SIZE_MAX,
      shapes = ps_shapes p, origin = orig, source = txt\<rparr>"

primrec parse_loop :: "deci \<Rightarrow> nat \<Rightarrow> nat \<Rightarrow> parser \<Rightarrow> unit res" where
  "parse_loop D k 0 p = None"
| "parse_loop D k (Suc n) p =
     andthen (stmt D k p) (\<lambda>_ p.
       if cur_kind p = LK_RBRACE then throw_error_at p (''extra '' @ quoted ''}'') (ps_cur p)
       else if cur_kind p = LK_EOF then ok () p
       else parse_loop D k n p)"

text \<open>The function of the source, or the error, and the global variables.\<close>

definition parse :: "deci \<Rightarrow> nat \<Rightarrow> val globals \<Rightarrow> string \<Rightarrow> string \<Rightarrow> ((parse_error + func) \<times> val globals) option" where
  "parse D k state txt orig =
     do {
       p \<leftarrow> parser_new txt state;
       (r, p) \<leftarrow>
         andthen (fun_begin p) (\<lambda>fun_pos p.
         andthen (advance p) (\<lambda>_ p.
         andthen (parse_loop D k k p) (\<lambda>_ p.
         andthen (fun_end p fun_pos) (\<lambda>_ p.
         ok () p))));
       Some (map_sum id (\<lambda>_. \<lparr>f_chunk = to_chunk p txt orig, f_ip = 0\<rparr>) r, ps_globals p)
     }"

end
