(* ===== verification/Vm_Safety.thy ===== *)
theory Vm_Safety
  imports Vm
begin

text \<open>
  Why the machine needs no checks on its stacks: code that a verifier accepts. The verifier gives every
  instruction the function it belongs to and the number of temporaries on the stack before it; the function's
  \<open>maxstack\<close> bounds them. Accepted code never pops below its frame, never pushes past the capacity that
  \<open>do_call\<close> ensures, and never leaves its function but by \<open>OP_RETURN\<close>.
\<close>

section \<open>The verifier\<close>

text \<open>For each instruction the number of its function's shape and the height of the stack; \<open>None\<close> if it is not reached.\<close>

type_synonym annotation = "(nat \<times> nat) option list"

definition at_depth :: "annotation \<Rightarrow> int \<Rightarrow> nat \<Rightarrow> nat \<Rightarrow> bool" where
  "at_depth A j c d \<longleftrightarrow> 0 \<le> j \<and> nat j < length A \<and> A ! nat j = Some (c, d)"

text \<open>How many values an instruction takes from the stack, and how many it leaves there.\<close>

fun stack_effect :: "instr \<Rightarrow> (nat \<times> nat) option" where
  "stack_effect ins = (case opcode ins of
     OP_LOAD_CONST \<Rightarrow> Some (0, 1) | OP_LOAD_LOCAL \<Rightarrow> Some (0, 1) | OP_LOAD_GLOBAL \<Rightarrow> Some (0, 1)
   | OP_LOAD_AT \<Rightarrow> Some (2, 1)
   | OP_STORE_LOCAL \<Rightarrow> Some (1, 0) | OP_STORE_GLOBAL \<Rightarrow> Some (1, 0) | OP_STORE_AT \<Rightarrow> Some (3, 0)
   | OP_MODIFY_LOCAL \<Rightarrow> Some (1, 0) | OP_MODIFY_GLOBAL \<Rightarrow> Some (1, 0) | OP_MODIFY_AT \<Rightarrow> Some (3, 0)
   | OP_PRINT \<Rightarrow> Some (1, 0) | OP_RETURN \<Rightarrow> Some (1, 0)
   | OP_JUMP \<Rightarrow> Some (0, 0) | OP_JUMP_UNLESS \<Rightarrow> Some (1, 0)
   | OP_CALL \<Rightarrow> Some (unat (in_c ins) + 1, 1) | OP_FUNCTION \<Rightarrow> Some (0, 1)
   | OP_NEG \<Rightarrow> Some (1, 1) | OP_NOT \<Rightarrow> Some (1, 1) | OP_LEN \<Rightarrow> Some (1, 1)
   | OP_AOP \<Rightarrow> Some (2, 1) | OP_CMP_2WAY \<Rightarrow> Some (2, 1) | OP_CMP_3WAY \<Rightarrow> Some (2, 1)
   | OP_LIST \<Rightarrow> Some (unat (in_c ins), 1) | OP_DICT \<Rightarrow> Some (2 * unat (in_c ins), 1)
   | _ \<Rightarrow> None)"

text \<open>The formal parameters of a function, the one that gathers the rest included, are local variables.\<close>

definition shape_ok :: "shape \<Rightarrow> bool" where
  "shape_ok sh \<longleftrightarrow>
     (if 0 \<le> sint (nargs_encoded sh) then unat (nargs_encoded sh) \<le> nlocals sh
      else unat (NOT (nargs_encoded sh)) + 1 \<le> nlocals sh) \<and> nlocals sh < 2 ^ 31"

text \<open>\<open>G\<close> is the number of global variables.\<close>

fun operands_ok :: "nat \<Rightarrow> chunk \<Rightarrow> shape \<Rightarrow> instr \<Rightarrow> bool" where
  "operands_ok G C sh ins = (case opcode ins of
     OP_LOAD_CONST \<Rightarrow> unat (in_c ins) < length (constants C)
   | OP_LOAD_LOCAL \<Rightarrow> unat (in_c ins) < nlocals sh
   | OP_STORE_LOCAL \<Rightarrow> unat (in_c ins) < nlocals sh
   | OP_MODIFY_LOCAL \<Rightarrow> unat (in_c ins) < nlocals sh \<and> aop_of_code (in_a ins) \<noteq> None
   | OP_LOAD_GLOBAL \<Rightarrow> unat (in_c ins) < G
   | OP_STORE_GLOBAL \<Rightarrow> unat (in_c ins) < G
   | OP_MODIFY_GLOBAL \<Rightarrow> unat (in_c ins) < G \<and> aop_of_code (in_a ins) \<noteq> None
   | OP_MODIFY_AT \<Rightarrow> aop_of_code (in_a ins) \<noteq> None
   | OP_AOP \<Rightarrow> aop_of_code (in_a ins) \<noteq> None
   | OP_CMP_3WAY \<Rightarrow> cmp_repr (in_a ins) \<noteq> None
   | OP_CALL \<Rightarrow> in_a ins \<noteq> 0 \<longrightarrow> unat (in_c ins) \<noteq> 0
   | OP_FUNCTION \<Rightarrow> unat (in_c ins) < length (shapes C) \<and> shape_ok (shapes C ! unat (in_c ins))
   | _ \<Rightarrow> True)"

text \<open>Where control goes within the function.\<close>

fun successors :: "chunk \<Rightarrow> instr \<Rightarrow> int list" where
  "successors C ins = (case opcode ins of
     OP_RETURN \<Rightarrow> []
   | OP_JUMP \<Rightarrow> [sint (in_c ins)]
   | OP_JUMP_UNLESS \<Rightarrow> [1, sint (in_c ins)]
   | OP_FUNCTION \<Rightarrow> [int (sh_offset (shapes C ! unat (in_c ins)))]
   | _ \<Rightarrow> [1])"

definition instr_ok :: "nat \<Rightarrow> chunk \<Rightarrow> annotation \<Rightarrow> nat \<Rightarrow> nat \<Rightarrow> nat \<Rightarrow> bool" where
  "instr_ok G C A i c d \<longleftrightarrow> (let ins = code C ! i; sh = shapes C ! c in
     case stack_effect ins of None \<Rightarrow> False | Some (p, q) \<Rightarrow>
       p \<le> d \<and> d - p + q \<le> maxstack sh \<and> operands_ok G C sh ins \<and>
       (\<forall>j \<in> set (successors C ins). at_depth A (int i + j) c (d - p + q)) \<and>
       (opcode ins = OP_RETURN \<longrightarrow> d = 1) \<and>
       (opcode ins = OP_FUNCTION \<longrightarrow> at_depth A (int i + 1) (unat (in_c ins)) 0))"

definition typed :: "deci \<Rightarrow> nat \<Rightarrow> chunk \<Rightarrow> annotation \<Rightarrow> bool" where
  "typed D G C A \<longleftrightarrow> length A = length (code C) \<and> (\<forall>v \<in> set (constants C). val_ok D ([] :: func heap) v) \<and>
     (\<forall>i < length A. case A ! i of None \<Rightarrow> True | Some (c, d) \<Rightarrow>
        c < length (shapes C) \<and> shape_ok (shapes C ! c) \<and> d \<le> maxstack (shapes C ! c) \<and> instr_ok G C A i c d)"

section \<open>The invariant of the machine\<close>

text \<open>\<open>T\<close> gives the annotation of every chunk. The number of a function's shape:\<close>

definition own :: "func \<Rightarrow> nat" where
  "own f = unat (in_c (code (f_chunk f) ! f_ip f))"

definition sh_of :: "func \<Rightarrow> shape" where
  "sh_of f = shapes (f_chunk f) ! own f"

definition func_ok :: "deci \<Rightarrow> (chunk \<Rightarrow> annotation) \<Rightarrow> nat \<Rightarrow> func \<Rightarrow> bool" where
  "func_ok D T G f \<longleftrightarrow> typed D G (f_chunk f) (T (f_chunk f)) \<and> f_ip f < length (code (f_chunk f)) \<and>
     own f < length (shapes (f_chunk f)) \<and> shape_ok (sh_of f) \<and>
     at_depth (T (f_chunk f)) (int (f_ip f) + 1) (own f) 0"

text \<open>
  The frames below the current one, whose locals begin at \<open>l\<close>: the return address is in the caller's code at
  the height that the caller will have with the result on its stack.
\<close>

fun frames_ok :: "(chunk \<Rightarrow> annotation) \<Rightarrow> nat \<Rightarrow> call_site list \<Rightarrow> nat \<Rightarrow> bool" where
  "frames_ok T cap [] l = False"
| "frames_ok T cap [s] l \<longleftrightarrow> call_ip s = None \<and> l = 1"
| "frames_ok T cap (s # s' # sites) l \<longleftrightarrow>
     (\<exists>j d. call_ip s = Some (f_chunk (callee s'), j) \<and> prev_consts s = constants (f_chunk (callee s')) \<and>
        at_depth (T (f_chunk (callee s'))) (int j + 1) (own (callee s')) d \<and> 1 \<le> d \<and>
        l = prev_locals_offset s + nlocals (sh_of (callee s')) + d) \<and>
     prev_locals_offset s + nlocals (sh_of (callee s')) + maxstack (sh_of (callee s')) \<le> cap \<and>
     frames_ok T cap (s' # sites) (prev_locals_offset s)"

abbreviation nglobals :: "vm_state \<Rightarrow> nat" where
  "nglobals st \<equiv> length (g_data (vm_globals st))"

definition state_ok :: "deci \<Rightarrow> (chunk \<Rightarrow> annotation) \<Rightarrow> vm_state \<Rightarrow> bool" where
  "state_ok D T st \<longleftrightarrow> heap_ok D (func_ok D T (nglobals st)) (vm_heap st) \<and> globals_ok (vm_globals st) \<and>
     (\<forall>v. Some v \<in> set (g_data (vm_globals st)) \<longrightarrow> val_ok D (vm_heap st) v) \<and> (\<exists>prec. ntp_ok D (vm_ntp st) prec)"

text \<open>The registers, in function \<open>f\<close> at instruction \<open>i\<close> with \<open>d\<close> temporaries.\<close>

definition regs_at :: "(chunk \<Rightarrow> annotation) \<Rightarrow> runtime_info \<Rightarrow> func \<Rightarrow> nat \<Rightarrow> nat \<Rightarrow> bool" where
  "regs_at T r f i d \<longleftrightarrow> r_ip r = (f_chunk f, i) \<and> r_consts r = constants (f_chunk f) \<and>
     fst (r_locals r) = v_buf (r_vs r) \<and> at_depth (T (f_chunk f)) (int i) (own f) d \<and>
     length (v_data (r_vs r)) = snd (r_locals r) + nlocals (sh_of f) + d \<and>
     snd (r_locals r) + nlocals (sh_of f) + maxstack (sh_of f) \<le> v_cap (r_vs r) \<and>
     length (c_sites (r_cs r)) \<le> c_cap (r_cs r) \<and>
     (\<exists>s sites. c_sites (r_cs r) = s # sites \<and> callee s = f) \<and>
     frames_ok T (v_cap (r_vs r)) (c_sites (r_cs r)) (snd (r_locals r))"

definition stack_ok :: "deci \<Rightarrow> vm_state \<Rightarrow> runtime_info \<Rightarrow> bool" where
  "stack_ok D st r \<longleftrightarrow> (\<forall>v \<in> set (v_data (r_vs r)). val_ok D (vm_heap st) v)"

definition vm_inv :: "deci \<Rightarrow> (chunk \<Rightarrow> annotation) \<Rightarrow> vm_state \<Rightarrow> runtime_info \<Rightarrow> bool" where
  "vm_inv D T st r \<longleftrightarrow> state_ok D T st \<and> stack_ok D st r \<and> (\<exists>f i d. regs_at T r f i d) \<and>
     (\<forall>s \<in> set (c_sites (r_cs r)). func_ok D T (nglobals st) (callee s))"

definition outcome_ok :: "deci \<Rightarrow> (chunk \<Rightarrow> annotation) \<Rightarrow> vm_state \<times> outcome \<Rightarrow> bool" where
  "outcome_ok D T = (\<lambda>(st, out). state_ok D T st \<and>
     (case out of Running r \<Rightarrow> vm_inv D T st r | Done v \<Rightarrow> val_ok D (vm_heap st) v | Thrown m \<Rightarrow> True))"

lemma outcome_ok_simps [simp]:
  "outcome_ok D T (st, Running r) \<longleftrightarrow> vm_inv D T st r"
  "outcome_ok D T (st, Done v) \<longleftrightarrow> state_ok D T st \<and> val_ok D (vm_heap st) v"
  "outcome_ok D T (st, Thrown m) \<longleftrightarrow> state_ok D T st"
  by (auto simp: outcome_ok_def vm_inv_def)

section \<open>More global variables and a larger heap\<close>

lemma operands_ok_mono: "operands_ok G C sh ins \<Longrightarrow> G \<le> G' \<Longrightarrow> operands_ok G' C sh ins"
  by (cases "opcode ins") auto

lemma instr_ok_mono:
  assumes "instr_ok G C A i c d" and "G \<le> G'"
  shows "instr_ok G' C A i c d"
  using assms(1) operands_ok_mono [OF _ assms(2), of C "shapes C ! c" "code C ! i"]
  by (auto simp: instr_ok_def Let_def split: option.splits)

lemma typed_mono:
  assumes "typed D G C A" and "G \<le> G'"
  shows "typed D G' C A"
  using assms(1) instr_ok_mono [OF _ assms(2)] unfolding typed_def by (fastforce split: option.splits)

lemma func_ok_mono: "func_ok D T G f \<Longrightarrow> G \<le> G' \<Longrightarrow> func_ok D T G' f"
  using typed_mono by (auto simp: func_ok_def)

lemma heap_ok_mono:
  assumes "heap_ok D (func_ok D T G) h" and "G \<le> G'"
  shows "heap_ok D (func_ok D T G') h"
proof -
  have "obj_ok D (func_ok D T G') h x" if "obj_ok D (func_ok D T G) h x" for x
    using that func_ok_mono [OF _ assms(2)] by (cases x) auto
  with assms(1) show ?thesis by (auto simp: heap_ok_def)
qed

lemma state_ok_heap:
  assumes "state_ok D T st" and "heap_ok D (func_ok D T (nglobals st)) h" and "heap_le (vm_heap st) h"
  shows "state_ok D T (st\<lparr>vm_heap := h\<rparr>)"
  using assms val_ok_mono [OF assms(3)] by (auto simp: state_ok_def)

lemma state_ok_out: "state_ok D T st \<Longrightarrow> state_ok D T (st\<lparr>vm_out := out\<rparr>)"
  by (simp add: state_ok_def)

section \<open>The current instruction\<close>

lemma func_shape_ok:
  assumes "func_ok D T G f"
  shows "func_shape f = Some (sh_of f)" and "shape_ok (sh_of f)"
  using assms by (auto simp: func_ok_def func_shape_def fetch_def chunk_shape_def own_def sh_of_def)

lemma current_instr:
  assumes r: "regs_at T r f i d" and f: "func_ok D T G f"
  shows "fetch (fst (r_ip r)) (snd (r_ip r)) = Some (code (f_chunk f) ! i)"
    and "instr_ok G (f_chunk f) (T (f_chunk f)) i (own f) d" and "d \<le> maxstack (sh_of f)"
proof -
  let ?A = "T (f_chunk f)"
  have A: "i < length ?A" "?A ! i = Some (own f, d)" using r by (simp_all add: regs_at_def at_depth_def)
  have ty: "typed D G (f_chunk f) ?A" using f by (simp add: func_ok_def)
  then show "fetch (fst (r_ip r)) (snd (r_ip r)) = Some (code (f_chunk f) ! i)"
    using A r by (simp add: regs_at_def fetch_def typed_def)
  have "case ?A ! i of None \<Rightarrow> True | Some (c, d) \<Rightarrow> c < length (shapes (f_chunk f)) \<and> shape_ok (shapes (f_chunk f) ! c) \<and>
      d \<le> maxstack (shapes (f_chunk f) ! c) \<and> instr_ok G (f_chunk f) ?A i c d"
    using ty A(1) unfolding typed_def by blast
  then show "instr_ok G (f_chunk f) ?A i (own f) d" "d \<le> maxstack (sh_of f)"
    by (simp_all add: A(2) sh_of_def)
qed

lemma vm_invE:
  assumes "vm_inv D T st r"
  obtains f i d where "regs_at T r f i d" and "func_ok D T (nglobals st) f" and "state_ok D T st" and "stack_ok D st r"
proof -
  from assms obtain f i d where r: "regs_at T r f i d" by (auto simp: vm_inv_def)
  then obtain s sites where "c_sites (r_cs r) = s # sites" "callee s = f" unfolding regs_at_def by blast
  with assms have "func_ok D T (nglobals st) f" by (auto simp: vm_inv_def)
  with that r assms show thesis by (auto simp: vm_inv_def)
qed

text \<open>A jump within the function, with a stack of another height.\<close>

lemma advance_inv:
  assumes inv: "vm_inv D T st r" and r: "regs_at T r f i d" and st': "state_ok D T st'"
    and G: "nglobals st \<le> nglobals st'"
    and vs: "v_cap vs = v_cap (r_vs r)" "v_buf vs = v_buf (r_vs r)" "\<forall>v \<in> set (v_data vs). val_ok D (vm_heap st') v"
    and len: "length (v_data vs) = snd (r_locals r) + nlocals (sh_of f) + d'"
    and to: "at_depth (T (f_chunk f)) (int i + j) (own f) d'"
  shows "yields (do { r \<leftarrow> advance_ip (r\<lparr>r_vs := vs\<rparr>) j; Some (st', Running r) }) (outcome_ok D T)"
proof -
  have ip: "r_ip r = (f_chunk f, i)" using r by (simp add: regs_at_def)
  have j: "0 \<le> int i + j" using to by (simp add: at_depth_def)
  let ?r = "r\<lparr>r_vs := vs, r_ip := (f_chunk f, nat (int i + j))\<rparr>"
  have "regs_at T ?r f (nat (int i + j)) d'"
    using r vs(1,2) len to j by (simp add: regs_at_def)
  moreover have "\<forall>s \<in> set (c_sites (r_cs r)). func_ok D T (nglobals st') (callee s)"
    using inv func_ok_mono [OF _ G] by (auto simp: vm_inv_def)
  ultimately have "vm_inv D T st' ?r"
    using st' vs(3) by (auto simp: vm_inv_def stack_ok_def)
  then show ?thesis using ip j by (simp add: advance_ip_def)
qed

lemma next_inv:
  assumes "vm_inv D T st r" and "regs_at T r f i d" and "state_ok D T st'" and "nglobals st \<le> nglobals st'"
    and "v_cap vs = v_cap (r_vs r)" and "v_buf vs = v_buf (r_vs r)" and "\<forall>v \<in> set (v_data vs). val_ok D (vm_heap st') v"
    and "length (v_data vs) = snd (r_locals r) + nlocals (sh_of f) + d'"
    and "at_depth (T (f_chunk f)) (int i + 1) (own f) d'"
  shows "yields (next_with st' r vs) (outcome_ok D T)"
  unfolding next_with_def by (rule advance_inv [OF assms])

text \<open>A push onto a stack with fewer values than the function may have.\<close>

lemma push_inv:
  assumes inv: "vm_inv D T st r" and r: "regs_at T r f i d" and st': "state_ok D T st'" and G: "nglobals st \<le> nglobals st'"
    and vs: "v_cap vs = v_cap (r_vs r)" "v_buf vs = v_buf (r_vs r)" "\<forall>v \<in> set (v_data vs). val_ok D (vm_heap st') v"
    and v: "val_ok D (vm_heap st') v"
    and len: "length (v_data vs) = snd (r_locals r) + nlocals (sh_of f) + d'" and max: "d' + 1 \<le> maxstack (sh_of f)"
    and to: "at_depth (T (f_chunk f)) (int i + 1) (own f) (d' + 1)"
  shows "yields (do { vs \<leftarrow> vs_push vs v; next_with st' r vs }) (outcome_ok D T)"
proof -
  have "length (v_data vs) < v_cap vs" using r len max vs(1) by (simp add: regs_at_def)
  then have push: "vs_push vs v = Some (vs\<lparr>v_data := v_data vs @ [v]\<rparr>)" by (simp add: vs_push_def)
  have "yields (next_with st' r (vs\<lparr>v_data := v_data vs @ [v]\<rparr>)) (outcome_ok D T)"
    by (rule next_inv [OF inv r st' G]) (use vs v len to in auto)
  then show ?thesis by (simp add: push)
qed

lemma push_result_inv:
  assumes "vm_inv D T st r" and "regs_at T r f i d" and st: "state_ok D T st"
    and "v_cap vs = v_cap (r_vs r)" and "v_buf vs = v_buf (r_vs r)" and "\<forall>v \<in> set (v_data vs). val_ok D (vm_heap st) v"
    and res: "yields res (result_ok D (vm_heap st))"
    and "length (v_data vs) = snd (r_locals r) + nlocals (sh_of f) + d'" and "d' + 1 \<le> maxstack (sh_of f)"
    and "at_depth (T (f_chunk f)) (int i + 1) (own f) (d' + 1)"
  shows "yields (push_result st r vs res) (outcome_ok D T)"
proof -
  obtain x where x: "res = Some x" "result_ok D (vm_heap st) x" using res by (auto simp: yields_iff_ex)
  show ?thesis
  proof (cases x)
    case (Inr v)
    with x show ?thesis
      using push_inv [OF assms(1-3) le_refl assms(4-6) _ assms(8-10)] by (simp add: push_result_def)
  qed (use x st in \<open>simp add: push_result_def\<close>)
qed

section \<open>Straight-line instructions\<close>

lemma vs_pop_snoc: "v_data vs = ds @ [v] \<Longrightarrow> vs_pop vs = Some (v, vs\<lparr>v_data := ds\<rparr>)"
  by (simp add: vs_pop_def)

lemma stack_split:
  assumes r: "regs_at T r f i d" and p: "p \<le> d"
  obtains ds ts where "v_data (r_vs r) = ds @ ts" and "length ts = p"
    and "length ds = snd (r_locals r) + nlocals (sh_of f) + (d - p)"
proof
  let ?n = "snd (r_locals r) + nlocals (sh_of f) + (d - p)"
  show "v_data (r_vs r) = take ?n (v_data (r_vs r)) @ drop ?n (v_data (r_vs r))" by simp
qed (use r p in \<open>auto simp: regs_at_def\<close>)

text \<open>What holds when the machine is at an instruction of accepted code.\<close>

definition at_instr :: "deci \<Rightarrow> (chunk \<Rightarrow> annotation) \<Rightarrow> vm_state \<Rightarrow> runtime_info \<Rightarrow> func \<Rightarrow> nat \<Rightarrow> nat \<Rightarrow> instr \<Rightarrow> bool" where
  "at_instr D T st r f i d ins \<longleftrightarrow> vm_inv D T st r \<and> regs_at T r f i d \<and> func_ok D T (nglobals st) f \<and>
     state_ok D T st \<and> stack_ok D st r \<and> code (f_chunk f) ! i = ins"

lemma at_instrD:
  assumes "at_instr D T st r f i d ins"
  shows "vm_inv D T st r" and "regs_at T r f i d" and "func_ok D T (nglobals st) f" and "state_ok D T st"
    and "stack_ok D st r" and "instr_ok (nglobals st) (f_chunk f) (T (f_chunk f)) i (own f) d"
    and "code (f_chunk f) ! i = ins" and "fetch (fst (r_ip r)) (snd (r_ip r)) = Some ins"
  using assms current_instr [of T r f i d D "nglobals st"] by (auto simp: at_instr_def)

lemma at_effect:
  assumes a: "at_instr D T st r f i d ins" and e: "stack_effect ins = Some (p, q)"
  shows "p \<le> d" and "d - p + q \<le> maxstack (sh_of f)" and "operands_ok (nglobals st) (f_chunk f) (sh_of f) ins"
    and "j \<in> set (successors (f_chunk f) ins) \<Longrightarrow> at_depth (T (f_chunk f)) (int i + j) (own f) (d - p + q)"
    and "opcode ins = OP_RETURN \<Longrightarrow> d = 1"
    and "opcode ins = OP_FUNCTION \<Longrightarrow> at_depth (T (f_chunk f)) (int i + 1) (unat (in_c ins)) 0"
proof -
  have "p \<le> d \<and> d - p + q \<le> maxstack (sh_of f) \<and> operands_ok (nglobals st) (f_chunk f) (sh_of f) ins \<and>
      (\<forall>j \<in> set (successors (f_chunk f) ins). at_depth (T (f_chunk f)) (int i + j) (own f) (d - p + q)) \<and>
      (opcode ins = OP_RETURN \<longrightarrow> d = 1) \<and>
      (opcode ins = OP_FUNCTION \<longrightarrow> at_depth (T (f_chunk f)) (int i + 1) (unat (in_c ins)) 0)"
    using at_instrD(6) [OF a] unfolding instr_ok_def at_instrD(7) [OF a] Let_def sh_of_def [symmetric] e option.case prod.case .
  then show "p \<le> d" "d - p + q \<le> maxstack (sh_of f)" "operands_ok (nglobals st) (f_chunk f) (sh_of f) ins"
    "j \<in> set (successors (f_chunk f) ins) \<Longrightarrow> at_depth (T (f_chunk f)) (int i + j) (own f) (d - p + q)"
    "opcode ins = OP_RETURN \<Longrightarrow> d = 1"
    "opcode ins = OP_FUNCTION \<Longrightarrow> at_depth (T (f_chunk f)) (int i + 1) (unat (in_c ins)) 0"
    by blast+
qed

lemma heap_of: "state_ok D T st \<Longrightarrow> heap_ok D (func_ok D T (nglobals st)) (vm_heap st)"
  by (simp add: state_ok_def)

text \<open>Pops, then the result of an operation on what was popped.\<close>

lemma op1_inv:
  assumes a: "at_instr D T st r f i d ins" and e: "stack_effect ins = Some (1, 1)" and j: "successors (f_chunk f) ins = [1]"
    and op: "\<And>v. val_ok D (vm_heap st) v \<Longrightarrow> yields (op v) (result_ok D (vm_heap st))"
  shows "yields (do { (v, vs) \<leftarrow> vs_pop (r_vs r); push_result st r vs (op v) }) (outcome_ok D T)"
proof -
  note A = at_instrD [OF a]
  obtain ds ts where ds: "v_data (r_vs r) = ds @ ts" "length ts = 1"
      "length ds = snd (r_locals r) + nlocals (sh_of f) + (d - 1)"
    by (rule stack_split [OF A(2) at_effect(1) [OF a e]])
  then obtain v where v: "ts = [v]" by (auto simp: length_Suc_conv)
  have ok: "val_ok D (vm_heap st) v" "\<forall>v \<in> set ds. val_ok D (vm_heap st) v"
    using A(5) ds v by (auto simp: stack_ok_def)
  have "yields (push_result st r ((r_vs r)\<lparr>v_data := ds\<rparr>) (op v)) (outcome_ok D T)"
    using at_effect(2,4) [OF a e] j ok op ds by (intro push_result_inv [OF A(1,2,4)]) auto
  then show ?thesis using vs_pop_snoc [of "r_vs r" ds v] ds(1) v by simp
qed

lemma op2_inv:
  assumes a: "at_instr D T st r f i d ins" and e: "stack_effect ins = Some (2, 1)" and j: "successors (f_chunk f) ins = [1]"
    and op: "\<And>ds w v. v_data (r_vs r) = ds @ [w, v] \<Longrightarrow> val_ok D (vm_heap st) w \<Longrightarrow> val_ok D (vm_heap st) v \<Longrightarrow>
      yields (op w v) (result_ok D (vm_heap st))"
  shows "yields (do { (v, vs) \<leftarrow> vs_pop (r_vs r); (w, vs) \<leftarrow> vs_pop vs; push_result st r vs (op w v) }) (outcome_ok D T)"
proof -
  note A = at_instrD [OF a]
  obtain ds ts where ds: "v_data (r_vs r) = ds @ ts" "length ts = 2"
      "length ds = snd (r_locals r) + nlocals (sh_of f) + (d - 2)"
    by (rule stack_split [OF A(2) at_effect(1) [OF a e]])
  then obtain w v where v: "ts = [w, v]" by (auto simp: length_Suc_conv numeral_2_eq_2)
  have ok: "val_ok D (vm_heap st) w" "val_ok D (vm_heap st) v" "\<forall>v \<in> set ds. val_ok D (vm_heap st) v"
    using A(5) ds v by (auto simp: stack_ok_def)
  have "yields (push_result st r ((r_vs r)\<lparr>v_data := ds\<rparr>) (op w v)) (outcome_ok D T)"
    using at_effect(2,4) [OF a e] j ok op ds v by (intro push_result_inv [OF A(1,2,4)]) auto
  then show ?thesis
    using vs_pop_snoc [of "r_vs r" "ds @ [w]" v] vs_pop_snoc [of "(r_vs r)\<lparr>v_data := ds @ [w]\<rparr>" ds w] ds(1) v by simp
qed

text \<open>A push of a value.\<close>

lemma push1_inv:
  assumes a: "at_instr D T st r f i d ins" and e: "stack_effect ins = Some (0, 1)" and j: "1 \<in> set (successors (f_chunk f) ins)"
    and v: "val_ok D (vm_heap st) v"
  shows "yields (do { vs \<leftarrow> vs_push (r_vs r) v; next_with st r vs }) (outcome_ok D T)"
proof -
  note A = at_instrD [OF a]
  show ?thesis
    using at_effect(2,4) [OF a e] j v A(2,5)
    by (intro push_inv [OF A(1,2,4) le_refl, of _ _ d]) (auto simp: stack_ok_def regs_at_def)
qed

text \<open>A pop, and the rest of the instruction with a state that may have changed.\<close>

lemma pop1_inv:
  assumes a: "at_instr D T st r f i d ins" and e: "stack_effect ins = Some (1, 0)" and j: "1 \<in> set (successors (f_chunk f) ins)"
    and op: "\<And>ds v. v_data (r_vs r) = ds @ [v] \<Longrightarrow> length ds = snd (r_locals r) + nlocals (sh_of f) + (d - 1) \<Longrightarrow>
      val_ok D (vm_heap st) v \<Longrightarrow> \<forall>v \<in> set ds. val_ok D (vm_heap st) v \<Longrightarrow>
      (\<And>st' ds'. state_ok D T st' \<Longrightarrow> nglobals st' = nglobals st \<Longrightarrow> length ds' = length ds \<Longrightarrow>
        \<forall>v \<in> set ds'. val_ok D (vm_heap st') v \<Longrightarrow> yields (next_with st' r ((r_vs r)\<lparr>v_data := ds'\<rparr>)) (outcome_ok D T)) \<Longrightarrow>
      yields (op v ((r_vs r)\<lparr>v_data := ds\<rparr>)) (outcome_ok D T)"
  shows "yields (do { (v, vs) \<leftarrow> vs_pop (r_vs r); op v vs }) (outcome_ok D T)"
proof -
  note A = at_instrD [OF a]
  obtain ds ts where ds: "v_data (r_vs r) = ds @ ts" "length ts = 1"
      "length ds = snd (r_locals r) + nlocals (sh_of f) + (d - 1)"
    by (rule stack_split [OF A(2) at_effect(1) [OF a e]])
  then obtain v where v: "ts = [v]" by (auto simp: length_Suc_conv)
  have ok: "val_ok D (vm_heap st) v" "\<forall>v \<in> set ds. val_ok D (vm_heap st) v"
    using A(5) ds v by (auto simp: stack_ok_def)
  have go: "yields (next_with st' r ((r_vs r)\<lparr>v_data := ds'\<rparr>)) (outcome_ok D T)"
    if "state_ok D T st'" "nglobals st' = nglobals st" "length ds' = length ds" "\<forall>v \<in> set ds'. val_ok D (vm_heap st') v" for st' ds'
    using at_effect(4) [OF a e] j ds that by (intro next_inv [OF A(1,2) that(1)]) auto
  have "yields (op v ((r_vs r)\<lparr>v_data := ds\<rparr>)) (outcome_ok D T)"
    using op [OF _ ds(3) ok go] ds(1) v by blast
  then show ?thesis using vs_pop_snoc [of "r_vs r" ds v] ds(1) v by simp
qed

section \<open>Room and the environment\<close>

text \<open>The environment: nothing is assumed of when natives return, only of what they do then.\<close>

definition env_ok :: "env \<Rightarrow> (chunk \<Rightarrow> annotation) \<Rightarrow> bool" where
  "env_ok E T \<longleftrightarrow> deci_ok (e_deci E) \<and> (\<forall>w v. e_same E w v \<longrightarrow> w = v) \<and>
     (\<forall>f st args st' res. state_ok (e_deci E) T st \<longrightarrow> (\<forall>v \<in> set args. val_ok (e_deci E) (vm_heap st) v) \<longrightarrow>
        e_native E f st args = Some (st', res) \<longrightarrow>
        state_ok (e_deci E) T st' \<and> heap_le (vm_heap st) (vm_heap st') \<and> nglobals st \<le> nglobals st' \<and>
        result_ok (e_deci E) (vm_heap st') res)"

definition top_val :: "runtime_info \<Rightarrow> nat \<Rightarrow> val" where
  "top_val r k = rev (v_data (r_vs r)) ! k"

text \<open>The memory that a call needs, and that a native function returns.\<close>

definition call_room :: "env \<Rightarrow> vm_state \<Rightarrow> runtime_info \<Rightarrow> bool \<Rightarrow> nat \<Rightarrow> bool" where
  "call_room E st r scatter nargs \<longleftrightarrow>
     64 * length (c_sites (r_cs r)) + 32 \<le> SIZE_MAX \<and>
     (\<forall>r' n. scatter_args st r scatter nargs = Some (Inr (r', n)) \<longrightarrow>
        (case top_val r' n of
           V_Func a \<Rightarrow> (\<forall>f. heap_func (vm_heap st) a = Some f \<longrightarrow>
             16 * (length (v_data (r_vs r')) + maxstack (sh_of f) + nlocals (sh_of f) + 1) + 8 \<le> SIZE_MAX \<and> 8 * n \<le> SIZE_MAX)
         | V_CFunc f \<Rightarrow> e_native E f st (native_args n (v_data (r_vs r'))) \<noteq> None
         | _ \<Rightarrow> True))"

text \<open>
  That is not enough: \<open>do_call\<close> uses \<open>locals\<close> after it has scattered or gathered the arguments, and when the stack was
  moved for them, \<open>locals\<close> still points into the old one. These are the calls that do not move it then: the elements
  of the list that is scattered fit into the capacity, and so does the empty list that is pushed when there is nothing
  to gather.
\<close>

definition call_still :: "vm_state \<Rightarrow> runtime_info \<Rightarrow> bool \<Rightarrow> nat \<Rightarrow> bool" where
  "call_still st r scatter nargs \<longleftrightarrow>
     (scatter \<longrightarrow> (\<forall>a l. top_val r 0 = V_List a \<longrightarrow> heap_list (vm_heap st) a = Some l \<longrightarrow>
        length (v_data (r_vs r)) - 1 + length (l_data l) \<le> v_cap (r_vs r))) \<and>
     (\<forall>r' n a f. scatter_args st r scatter nargs = Some (Inr (r', n)) \<longrightarrow> top_val r' n = V_Func a \<longrightarrow>
        heap_func (vm_heap st) a = Some f \<longrightarrow> sint (nargs_encoded (sh_of f)) < 0 \<longrightarrow>
        n = unat (NOT (nargs_encoded (sh_of f))) \<longrightarrow> length (v_data (r_vs r')) < v_cap (r_vs r'))"

definition step_room :: "env \<Rightarrow> vm_state \<Rightarrow> runtime_info \<Rightarrow> instr \<Rightarrow> bool" where
  "step_room E st r ins =
     (let D = e_deci E; aop = the (aop_of_code (in_a ins)) in
      case opcode ins of
        OP_AOP \<Rightarrow> aop_space D (vm_ntp st) aop (top_val r 1) (top_val r 0)
      | OP_MODIFY_LOCAL \<Rightarrow>
          (\<forall>i. local_ix r (in_c ins) = Some i \<longrightarrow> aop_space D (vm_ntp st) aop (v_data (r_vs r) ! i) (top_val r 0))
      | OP_MODIFY_GLOBAL \<Rightarrow>
          (\<forall>w. global_load (vm_globals st) (unat (in_c ins)) = Some (Some w) \<longrightarrow> aop_space D (vm_ntp st) aop w (top_val r 0))
      | OP_STORE_AT \<Rightarrow> elem_room (vm_heap st) (top_val r 2)
      | OP_MODIFY_AT \<Rightarrow> elem_room (vm_heap st) (top_val r 2) \<and>
          (\<forall>h p w. get_elem_ptr_at D (vm_heap st) (top_val r 2) (top_val r 1) = Some (h, Inr p) \<longrightarrow>
             elem_load h p = Some w \<longrightarrow> aop_space D (vm_ntp st) aop w (top_val r 0))
      | OP_DICT \<Rightarrow> unat (in_c ins) \<le> 3 * 2 ^ 29
      | OP_CALL \<Rightarrow> call_room E st r (in_a ins \<noteq> 0) (unat (in_c ins))
      | _ \<Rightarrow> True)"

definition step_still :: "vm_state \<Rightarrow> runtime_info \<Rightarrow> instr \<Rightarrow> bool" where
  "step_still st r ins \<longleftrightarrow> (opcode ins = OP_CALL \<longrightarrow> call_still st r (in_a ins \<noteq> 0) (unat (in_c ins)))"

lemma aop_inv:
  assumes E: "env_ok E T" and st: "state_ok (e_deci E) T st"
    and "val_ok (e_deci E) h w" and "val_ok (e_deci E) h v" and "aop_space (e_deci E) (vm_ntp st) op w v"
  shows "yields (perform_aop (e_deci E) (vm_ntp st) (e_same E w v) op w v) (result_ok (e_deci E) h)"
proof -
  obtain prec where "ntp_ok (e_deci E) (vm_ntp st) prec" using st by (auto simp: state_ok_def)
  then show ?thesis
    by (rule perform_aop_ok [rotated 4]) (use E assms(3-5) in \<open>auto simp: env_ok_def\<close>)
qed

lemma local_ix_frame:
  assumes r: "regs_at T r f i d" and c: "unat c < nlocals (sh_of f)"
    and len: "snd (r_locals r) + nlocals (sh_of f) \<le> length (v_data vs)" and buf: "v_buf vs = v_buf (r_vs r)"
  shows "local_ix (r\<lparr>r_vs := vs\<rparr>) c = Some (snd (r_locals r) + unat c)"
  using r c len buf by (simp add: local_ix_def Let_def regs_at_def)

lemma jump_inv:
  assumes a: "at_instr D T st r f i d ins" and op: "opcode ins = OP_JUMP"
  shows "yields (do { r \<leftarrow> advance_ip r (sint (in_c ins)); Some (st, Running r) }) (outcome_ok D T)"
proof -
  note A = at_instrD [OF a]
  have "yields (do { r \<leftarrow> advance_ip (r\<lparr>r_vs := r_vs r\<rparr>) (sint (in_c ins)); Some (st, Running r) }) (outcome_ok D T)"
    using at_effect(4) [OF a, of 0 0] A(2,5) op
    by (intro advance_inv [OF A(1,2,4) le_refl, where d' = d]) (auto simp: stack_ok_def regs_at_def)
  then show ?thesis by simp
qed

lemma jump_unless_inv:
  assumes a: "at_instr D T st r f i d ins" and op: "opcode ins = OP_JUMP_UNLESS"
  shows "yields (do { (v, vs) \<leftarrow> vs_pop (r_vs r);
      r \<leftarrow> advance_ip (r\<lparr>r_vs := vs\<rparr>) (if value_is_truthy v then 1 else sint (in_c ins)); Some (st, Running r) }) (outcome_ok D T)"
proof -
  note A = at_instrD [OF a]
  have e: "stack_effect ins = Some (1, 0)" using op by simp
  obtain ds ts where ds: "v_data (r_vs r) = ds @ ts" "length ts = 1"
      "length ds = snd (r_locals r) + nlocals (sh_of f) + (d - 1)"
    by (rule stack_split [OF A(2) at_effect(1) [OF a e]])
  then obtain v where v: "ts = [v]" by (auto simp: length_Suc_conv)
  have "yields (do { r \<leftarrow> advance_ip (r\<lparr>r_vs := (r_vs r)\<lparr>v_data := ds\<rparr>\<rparr>) j; Some (st, Running r) }) (outcome_ok D T)"
    if "j \<in> set (successors (f_chunk f) ins)" for j
    using at_effect(4) [OF a e that] A(5) ds
    by (intro advance_inv [OF A(1,2,4) le_refl, where d' = "d - 1"]) (auto simp: stack_ok_def)
  then show ?thesis
    using vs_pop_snoc [of "r_vs r" ds v] ds(1) v op by simp
qed

lemma consts_ok: "func_ok D T G f \<Longrightarrow> k < length (constants (f_chunk f)) \<Longrightarrow> val_ok D h (constants (f_chunk f) ! k)"
proof -
  assume f: "func_ok D T G f" and k: "k < length (constants (f_chunk f))"
  then have "val_ok D ([] :: func heap) (constants (f_chunk f) ! k)" by (simp add: func_ok_def typed_def)
  then show ?thesis by (cases "constants (f_chunk f) ! k") (auto simp: heap_list_def heap_dict_def heap_func_def)
qed

lemma local_val:
  assumes a: "at_instr D T st r f i d ins" and c: "unat c < nlocals (sh_of f)"
  shows "local_ix r c = Some (snd (r_locals r) + unat c)" and "val_ok D (vm_heap st) (v_data (r_vs r) ! (snd (r_locals r) + unat c))"
proof -
  note A = at_instrD [OF a]
  have len: "snd (r_locals r) + nlocals (sh_of f) \<le> length (v_data (r_vs r))" using A(2) by (simp add: regs_at_def)
  show "local_ix r c = Some (snd (r_locals r) + unat c)"
    using local_ix_frame [OF A(2) c len refl] by simp
  show "val_ok D (vm_heap st) (v_data (r_vs r) ! (snd (r_locals r) + unat c))"
    using A(5) len c by (auto simp: stack_ok_def)
qed

text \<open>The instructions that only compute with the stack.\<close>

lemma step_compute:
  assumes a: "at_instr D T st r f i d ins" and E: "env_ok E T" and D: "D = e_deci E" and room: "step_room E st r ins"
    and op: "opcode ins \<in> {OP_LOAD_CONST, OP_LOAD_LOCAL, OP_LOAD_AT, OP_AOP, OP_CMP_2WAY, OP_CMP_3WAY, OP_NEG, OP_NOT, OP_LEN,
      OP_JUMP, OP_JUMP_UNLESS}"
  shows "yields (step E st r) (outcome_ok D T)"
proof -
  note A = at_instrD [OF a]
  have dk: "deci_ok D" using E D by (simp add: env_ok_def)
  note h = heap_of [OF A(4)]
  consider "opcode ins = OP_LOAD_CONST" | "opcode ins = OP_LOAD_LOCAL" | "opcode ins = OP_LOAD_AT" | "opcode ins = OP_AOP"
    | "opcode ins = OP_CMP_2WAY" | "opcode ins = OP_CMP_3WAY" | "opcode ins = OP_NEG" | "opcode ins = OP_NOT" | "opcode ins = OP_LEN"
    | "opcode ins = OP_JUMP" | "opcode ins = OP_JUMP_UNLESS"
    using op by blast
  then show ?thesis
  proof cases
    case 1
    have k: "unat (in_c ins) < length (constants (f_chunk f))" using at_effect(3) [OF a, of 0 1] 1 by simp
    have "r_consts r = constants (f_chunk f)" using A(2) by (simp add: regs_at_def)
    with push1_inv [OF a _ _ consts_ok [OF A(3) k]] k 1 A(8) show ?thesis by (simp add: step_def Let_def)
  next
    case 2
    have c: "unat (in_c ins) < nlocals (sh_of f)" using at_effect(3) [OF a, of 0 1] 2 by simp
    note loc = local_val [OF a c]
    show ?thesis using push1_inv [OF a _ _ loc(2)] loc(1) 2 A(8) by (simp add: step_def Let_def)
  next
    case 3
    show ?thesis
      using op2_inv [OF a, of "\<lambda>w v. get_elem_at D (vm_heap st) w v"] get_elem_at_ok [OF dk h] 3 A(8)
      by (simp add: step_def Let_def D)
  next
    case 4
    then obtain aop where aop: "aop_of_code (in_a ins) = Some aop" using at_effect(3) [OF a, of 2 1] by auto
    have "yields (perform_aop D (vm_ntp st) (e_same E w v) aop w v) (result_ok D (vm_heap st))"
      if "v_data (r_vs r) = ds @ [w, v]" "val_ok D (vm_heap st) w" "val_ok D (vm_heap st) v" for ds w v
      using aop_inv [OF E A(4) [unfolded D]] room that 4 aop by (simp add: step_room_def top_val_def D)
    with op2_inv [OF a, of "\<lambda>w v. perform_aop D (vm_ntp st) (e_same E w v) aop w v"] 4 A(8) aop show ?thesis
      by (simp add: step_def Let_def D)
  next
    case 5
    have "yields (map_option (\<lambda>eq. Inr (V_Flag (eq = (in_a ins \<noteq> 0)))) (values_equal D w v)) (result_ok D (vm_heap st))"
      if "val_ok D (vm_heap st) w" "val_ok D (vm_heap st) v" for w v
      using values_equal_ok [OF dk that] by auto
    with op2_inv [OF a, of "\<lambda>w v. map_option (\<lambda>eq. Inr (V_Flag (eq = (in_a ins \<noteq> 0)))) (values_equal D w v)"] 5 A(8)
    show ?thesis by (simp add: step_def Let_def D push_result_def split_def)
  next
    case 6
    then have c: "cmp_repr (in_a ins) \<noteq> None" using at_effect(3) [OF a, of 2 1] by simp
    have "yields (do { (v, vs) \<leftarrow> vs_pop (r_vs r); (w, vs) \<leftarrow> vs_pop vs;
        push_result st r vs (perform_cmp_3way D w v (in_a ins)) }) (outcome_ok D T)"
      by (rule op2_inv [OF a]) (use 6 perform_cmp_3way_ok [OF dk _ _ c] in simp_all)
    with 6 A(8) show ?thesis by (simp add: step_def Let_def D)
  next
    case 7
    have "yields (do { (v, vs) \<leftarrow> vs_pop (r_vs r); push_result st r vs (perform_neg D v) }) (outcome_ok D T)"
      by (rule op1_inv [OF a]) (use 7 perform_neg_ok [OF dk] in simp_all)
    with 7 A(8) show ?thesis by (simp add: step_def Let_def D)
  next
    case 8
    show ?thesis
      using op1_inv [OF a, of "\<lambda>v. Some (Inr (V_Flag (\<not> value_is_truthy v)))"] 8 A(8)
      by (simp add: step_def Let_def push_result_def)
  next
    case 9
    have "yields (do { (v, vs) \<leftarrow> vs_pop (r_vs r); push_result st r vs (perform_len D (vm_heap st) v) }) (outcome_ok D T)"
      by (rule op1_inv [OF a]) (use 9 perform_len_ok [OF dk h] in simp_all)
    with 9 A(8) show ?thesis by (simp add: step_def Let_def D)
  next
    case 10
    show ?thesis using jump_inv [OF a 10] 10 A(8) by (simp add: step_def Let_def)
  next
    case 11
    show ?thesis using jump_unless_inv [OF a 11] 11 A(8) by (simp add: step_def Let_def)
  qed
qed

section \<open>Variables\<close>

lemma missing_global_defined:
  assumes "globals_ok g" and "c < length (g_data g)"
  shows "missing_global g c \<noteq> None"
  using assms by (simp add: missing_global_def xht_indexed_key_def globals_ok_def)

lemma global_store_state:
  assumes st: "state_ok D T st" and c: "c < nglobals st" and v: "val_ok D (vm_heap st) v"
  obtains g where "global_store (vm_globals st) c v = Some g" and "state_ok D T (st\<lparr>vm_globals := g\<rparr>)"
    and "length (g_data g) = nglobals st"
proof
  let ?g = "(vm_globals st)\<lparr>g_data := (g_data (vm_globals st))[c := Some v]\<rparr>"
  show "global_store (vm_globals st) c v = Some ?g" using c by (simp add: global_store_def)
  have "val_ok D (vm_heap st) w" if "Some w \<in> set ((g_data (vm_globals st))[c := Some v])" for w
    using that st v set_update_subset_insert [of "g_data (vm_globals st)" c "Some v"] by (auto simp: state_ok_def)
  moreover have "globals_ok ?g" using st by (simp add: state_ok_def globals_ok_def)
  ultimately show "state_ok D T (st\<lparr>vm_globals := ?g\<rparr>)" using st by (simp add: state_ok_def)
qed simp

lemma global_load_state:
  assumes st: "state_ok D T st" and c: "c < nglobals st"
  obtains "global_load (vm_globals st) c = Some None"
    | w where "global_load (vm_globals st) c = Some (Some w)" and "val_ok D (vm_heap st) w"
  using assms nth_mem [OF c] by (cases "g_data (vm_globals st) ! c") (auto simp: global_load_def state_ok_def)

lemma set_update_ok: "\<forall>v \<in> set ds. P v \<Longrightarrow> P v \<Longrightarrow> \<forall>v \<in> set (ds[i := v]). P v"
  using set_update_subset_insert [of ds i v] by auto

lemma step_variable:
  assumes a: "at_instr D T st r f i d ins" and E: "env_ok E T" and D: "D = e_deci E" and room: "step_room E st r ins"
    and op: "opcode ins \<in> {OP_LOAD_GLOBAL, OP_STORE_LOCAL, OP_STORE_GLOBAL, OP_MODIFY_LOCAL, OP_MODIFY_GLOBAL, OP_PRINT}"
  shows "yields (step E st r) (outcome_ok D T)"
proof -
  note A = at_instrD [OF a]
  have gok: "globals_ok (vm_globals st)" using A(4) by (simp add: state_ok_def)
  consider "opcode ins = OP_LOAD_GLOBAL" | "opcode ins = OP_STORE_LOCAL" | "opcode ins = OP_STORE_GLOBAL"
    | "opcode ins = OP_MODIFY_LOCAL" | "opcode ins = OP_MODIFY_GLOBAL" | "opcode ins = OP_PRINT"
    using op by blast
  then show ?thesis
  proof cases
    case 1
    have c: "unat (in_c ins) < nglobals st" using at_effect(3) [OF a, of 0 1] 1 by simp
    have "yields (op_load_global st r (unat (in_c ins))) (outcome_ok D T)"
    proof (rule global_load_state [OF A(4) c])
      fix w
      assume "global_load (vm_globals st) (unat (in_c ins)) = Some (Some w)" "val_ok D (vm_heap st) w"
      then show ?thesis using push1_inv [OF a, of w] 1 by (simp add: op_load_global_def)
    qed (use missing_global_defined [OF gok c] A(4) in \<open>auto simp: op_load_global_def\<close>)
    with 1 A(8) show ?thesis by (simp add: step_def Let_def)
  next
    case 2
    have c: "unat (in_c ins) < nlocals (sh_of f)" using at_effect(3) [OF a, of 1 0] 2 by simp
    have "yields (do { (v, vs) \<leftarrow> vs_pop (r_vs r); i \<leftarrow> local_ix (r\<lparr>r_vs := vs\<rparr>) (in_c ins);
        next_with st r (vs\<lparr>v_data := (v_data vs)[i := v]\<rparr>) }) (outcome_ok D T)"
    proof (rule pop1_inv [OF a])
      fix ds v
      assume ds: "length ds = snd (r_locals r) + nlocals (sh_of f) + (d - 1)" "val_ok D (vm_heap st) v"
          "\<forall>v \<in> set ds. val_ok D (vm_heap st) v"
        and go: "\<And>st' ds'. state_ok D T st' \<Longrightarrow> nglobals st' = nglobals st \<Longrightarrow> length ds' = length ds \<Longrightarrow>
          \<forall>v \<in> set ds'. val_ok D (vm_heap st') v \<Longrightarrow> yields (next_with st' r ((r_vs r)\<lparr>v_data := ds'\<rparr>)) (outcome_ok D T)"
      have ix: "local_ix (r\<lparr>r_vs := (r_vs r)\<lparr>v_data := ds\<rparr>\<rparr>) (in_c ins) = Some (snd (r_locals r) + unat (in_c ins))"
        by (rule local_ix_frame [OF A(2) c]) (use ds in simp_all)
      show "yields (do { i \<leftarrow> local_ix (r\<lparr>r_vs := (r_vs r)\<lparr>v_data := ds\<rparr>\<rparr>) (in_c ins);
          next_with st r ((r_vs r)\<lparr>v_data := ds\<rparr>\<lparr>v_data := (v_data ((r_vs r)\<lparr>v_data := ds\<rparr>))[i := v]\<rparr>) }) (outcome_ok D T)"
        using go [OF A(4) refl _ set_update_ok [OF ds(3,2)]] by (simp add: ix)
    qed (use 2 in simp_all)
    with 2 A(8) show ?thesis by (simp add: step_def Let_def)
  next
    case 3
    have c: "unat (in_c ins) < nglobals st" using at_effect(3) [OF a, of 1 0] 3 by simp
    have "yields (do { (v, vs) \<leftarrow> vs_pop (r_vs r); g \<leftarrow> global_store (vm_globals st) (unat (in_c ins)) v;
        next_with (st\<lparr>vm_globals := g\<rparr>) r vs }) (outcome_ok D T)"
    proof (rule pop1_inv [OF a])
      fix ds v
      assume ds: "val_ok D (vm_heap st) v" "\<forall>v \<in> set ds. val_ok D (vm_heap st) v"
        and go: "\<And>st' ds'. state_ok D T st' \<Longrightarrow> nglobals st' = nglobals st \<Longrightarrow> length ds' = length ds \<Longrightarrow>
          \<forall>v \<in> set ds'. val_ok D (vm_heap st') v \<Longrightarrow> yields (next_with st' r ((r_vs r)\<lparr>v_data := ds'\<rparr>)) (outcome_ok D T)"
      obtain g where "global_store (vm_globals st) (unat (in_c ins)) v = Some g" "state_ok D T (st\<lparr>vm_globals := g\<rparr>)"
          "length (g_data g) = nglobals st"
        by (rule global_store_state [OF A(4) c ds(1)])
      then show "yields (do { g \<leftarrow> global_store (vm_globals st) (unat (in_c ins)) v;
          next_with (st\<lparr>vm_globals := g\<rparr>) r ((r_vs r)\<lparr>v_data := ds\<rparr>) }) (outcome_ok D T)"
        using go [of "st\<lparr>vm_globals := g\<rparr>" ds] ds(2) by simp
    qed (use 3 in simp_all)
    with 3 A(8) show ?thesis by (simp add: step_def Let_def)
  next
    case 4
    have c: "unat (in_c ins) < nlocals (sh_of f)" using at_effect(3) [OF a, of 1 0] 4 by simp
    obtain aop where aop: "aop_of_code (in_a ins) = Some aop" using at_effect(3) [OF a, of 1 0] 4 by auto
    note loc = local_val [OF a c]
    have "yields (op_modify_local E st r aop (in_c ins)) (outcome_ok D T)"
      unfolding op_modify_local_def
    proof (rule pop1_inv [OF a])
      fix ds v
      let ?vs = "(r_vs r)\<lparr>v_data := ds\<rparr>" and ?i = "snd (r_locals r) + unat (in_c ins)"
      assume ds: "v_data (r_vs r) = ds @ [v]" "length ds = snd (r_locals r) + nlocals (sh_of f) + (d - 1)"
          "val_ok D (vm_heap st) v" "\<forall>v \<in> set ds. val_ok D (vm_heap st) v"
        and go: "\<And>st' ds'. state_ok D T st' \<Longrightarrow> nglobals st' = nglobals st \<Longrightarrow> length ds' = length ds \<Longrightarrow>
          \<forall>v \<in> set ds'. val_ok D (vm_heap st') v \<Longrightarrow> yields (next_with st' r ((r_vs r)\<lparr>v_data := ds'\<rparr>)) (outcome_ok D T)"
      have ix: "local_ix (r\<lparr>r_vs := ?vs\<rparr>) (in_c ins) = Some ?i"
        by (rule local_ix_frame [OF A(2) c]) (use ds in simp_all)
      have i: "?i < length ds" using c ds(2) by simp
      then have w: "v_data (r_vs r) ! ?i = ds ! ?i" by (simp add: ds(1) nth_append)
      have "yields (perform_aop (e_deci E) (vm_ntp st) (e_same E (ds ! ?i) v) aop (ds ! ?i) v) (result_ok (e_deci E) (vm_heap st))"
        by (rule aop_inv [OF E A(4) [unfolded D]])
          (use room 4 aop loc w ds i D in \<open>auto simp: step_room_def top_val_def Let_def\<close>)
      then obtain x where x: "perform_aop (e_deci E) (vm_ntp st) (e_same E (ds ! ?i) v) aop (ds ! ?i) v = Some x"
          "result_ok D (vm_heap st) x" by (auto simp: yields_iff_ex D)
      show "yields (do { i \<leftarrow> local_ix (r\<lparr>r_vs := ?vs\<rparr>) (in_c ins); let w = v_data ?vs ! i;
          res \<leftarrow> perform_aop (e_deci E) (vm_ntp st) (e_same E w v) aop w v;
          (case res of Inl m \<Rightarrow> Some (st, Thrown m) | Inr x \<Rightarrow> next_with st r (?vs\<lparr>v_data := (v_data ?vs)[i := x]\<rparr>)) })
        (outcome_ok D T)"
      proof (cases x)
        case (Inr y)
        then show ?thesis using x go [OF A(4) refl _ set_update_ok [OF ds(4)]] by (simp add: ix Let_def)
      qed (use x A(4) in \<open>simp add: ix Let_def\<close>)
    qed (use 4 in simp_all)
    with 4 A(8) aop show ?thesis by (simp add: step_def Let_def)
  next
    case 5
    have c: "unat (in_c ins) < nglobals st" using at_effect(3) [OF a, of 1 0] 5 by simp
    obtain aop where aop: "aop_of_code (in_a ins) = Some aop" using at_effect(3) [OF a, of 1 0] 5 by auto
    have "yields (op_modify_global E st r aop (unat (in_c ins))) (outcome_ok D T)"
    proof (rule global_load_state [OF A(4) c])
      fix w
      assume w: "global_load (vm_globals st) (unat (in_c ins)) = Some (Some w)" "val_ok D (vm_heap st) w"
      have "yields (do { (v, vs) \<leftarrow> vs_pop (r_vs r);
          res \<leftarrow> perform_aop (e_deci E) (vm_ntp st) (e_same E w v) aop w v;
          (case res of Inl m \<Rightarrow> Some (st, Thrown m)
           | Inr x \<Rightarrow> do { g \<leftarrow> global_store (vm_globals st) (unat (in_c ins)) x; next_with (st\<lparr>vm_globals := g\<rparr>) r vs }) })
        (outcome_ok D T)"
      proof (rule pop1_inv [OF a])
        fix ds v
        assume ds: "v_data (r_vs r) = ds @ [v]" "val_ok D (vm_heap st) v" "\<forall>v \<in> set ds. val_ok D (vm_heap st) v"
          and go: "\<And>st' ds'. state_ok D T st' \<Longrightarrow> nglobals st' = nglobals st \<Longrightarrow> length ds' = length ds \<Longrightarrow>
            \<forall>v \<in> set ds'. val_ok D (vm_heap st') v \<Longrightarrow> yields (next_with st' r ((r_vs r)\<lparr>v_data := ds'\<rparr>)) (outcome_ok D T)"
        have "yields (perform_aop (e_deci E) (vm_ntp st) (e_same E w v) aop w v) (result_ok (e_deci E) (vm_heap st))"
          by (rule aop_inv [OF E A(4) [unfolded D]])
            (use room 5 aop w ds D in \<open>auto simp: step_room_def top_val_def Let_def\<close>)
        then obtain x where x: "perform_aop (e_deci E) (vm_ntp st) (e_same E w v) aop w v = Some x" "result_ok D (vm_heap st) x"
          by (auto simp: yields_iff_ex D)
        show "yields (do { res \<leftarrow> perform_aop (e_deci E) (vm_ntp st) (e_same E w v) aop w v;
          (case res of Inl m \<Rightarrow> Some (st, Thrown m)
           | Inr x \<Rightarrow> do { g \<leftarrow> global_store (vm_globals st) (unat (in_c ins)) x;
               next_with (st\<lparr>vm_globals := g\<rparr>) r ((r_vs r)\<lparr>v_data := ds\<rparr>) }) }) (outcome_ok D T)"
        proof (cases x)
          case (Inr y)
          then have "val_ok D (vm_heap st) y" using x by simp
          then obtain g where "global_store (vm_globals st) (unat (in_c ins)) y = Some g" "state_ok D T (st\<lparr>vm_globals := g\<rparr>)"
              "length (g_data g) = nglobals st"
            by (rule global_store_state [OF A(4) c])
          then show ?thesis using go [of "st\<lparr>vm_globals := g\<rparr>" ds] ds(3) x Inr by simp
        qed (use x A(4) in simp)
      qed (use 5 in simp_all)
      then show ?thesis by (simp add: op_modify_global_def w)
    qed (use missing_global_defined [OF gok c] A(4) in \<open>auto simp: op_modify_global_def\<close>)
    with 5 A(8) aop show ?thesis by (simp add: step_def Let_def)
  next
    case 6
    have "yields (do { (v, vs) \<leftarrow> vs_pop (r_vs r);
        out \<leftarrow> value_print (e_deci E) (e_addr E) (vm_heap st) v (vm_out st); next_with (st\<lparr>vm_out := out\<rparr>) r vs }) (outcome_ok D T)"
    proof (rule pop1_inv [OF a])
      fix ds v
      assume ds: "val_ok D (vm_heap st) v" "\<forall>v \<in> set ds. val_ok D (vm_heap st) v"
        and go: "\<And>st' ds'. state_ok D T st' \<Longrightarrow> nglobals st' = nglobals st \<Longrightarrow> length ds' = length ds \<Longrightarrow>
          \<forall>v \<in> set ds'. val_ok D (vm_heap st') v \<Longrightarrow> yields (next_with st' r ((r_vs r)\<lparr>v_data := ds'\<rparr>)) (outcome_ok D T)"
      obtain out where "value_print (e_deci E) (e_addr E) (vm_heap st) v (vm_out st) = Some out"
        using value_print_yields [OF heap_of [OF A(4)] ds(1)] D by fastforce
      then show "yields (do { out \<leftarrow> value_print (e_deci E) (e_addr E) (vm_heap st) v (vm_out st);
          next_with (st\<lparr>vm_out := out\<rparr>) r ((r_vs r)\<lparr>v_data := ds\<rparr>) }) (outcome_ok D T)"
        using go [OF state_ok_out [OF A(4)], of out ds] ds(2) by simp
    qed (use 6 in simp_all)
    with 6 A(8) show ?thesis by (simp add: step_def Let_def)
  qed
qed

end
