(* ===== verification/Parser_Code.thy ===== *)
theory Parser_Code
  imports Parser_Stmt Vm_Safety
begin

text \<open>
  Fragments of compiled code. The parser appends code to the function that it is in; the functions that it has
  finished lie inside this code. A fragment is code with the annotation of the verifier, where the function that is
  not finished may have instructions with symbolic operands. Fragments are put together and their jumps set, and
  when the function ends its fragment becomes code that the verifier accepts.
\<close>

section \<open>Fragments\<close>

text \<open>What the operands refer to: the function that is not finished, and the lists of the program.\<close>

record limits =
  k_own :: nat
  k_consts :: "val list"
  k_idents :: nat
  k_locals :: nat
  k_globals :: nat
  k_shapes :: "shape list"

definition k_chunk :: "limits \<Rightarrow> chunk" where
  "k_chunk K = \<lparr>code = [], constants = k_consts K, quarks = [], shapes = k_shapes K, origin = [], source = []\<rparr>"

lemma k_chunk_simps [simp]: "constants (k_chunk K) = k_consts K" "shapes (k_chunk K) = k_shapes K"
  by (simp_all add: k_chunk_def)

definition grows :: "limits \<Rightarrow> limits \<Rightarrow> bool" where
  "grows K L \<longleftrightarrow> k_own L = k_own K \<and> prefix (k_consts K) (k_consts L) \<and> k_idents K \<le> k_idents L \<and>
     k_locals K \<le> k_locals L \<and> k_globals K \<le> k_globals L \<and> prefix (k_shapes K) (k_shapes L)"

lemma grows_refl [simp]: "grows K K" by (simp add: grows_def)

lemma grows_trans: "grows K L \<Longrightarrow> grows L M \<Longrightarrow> grows K M"
  by (auto simp: grows_def intro: prefix_order.trans)

fun effect :: "instr \<Rightarrow> nat \<times> nat" where
  "effect ins = (case opcode ins of
     OP_LOAD_SYMBOLIC \<Rightarrow> (0, 1) | OP_STORE_SYMBOLIC \<Rightarrow> (1, 0) | OP_MODIFY_SYMBOLIC \<Rightarrow> (1, 0)
   | _ \<Rightarrow> the (stack_effect ins))"

declare effect.simps [simp del]

definition after :: "instr \<Rightarrow> nat \<Rightarrow> nat" where
  "after ins d = d - fst (effect ins) + snd (effect ins)"

text \<open>An instruction with the function it belongs to and the height of the stack before it.\<close>

type_synonym item = "instr \<times> nat \<times> nat"

text \<open>The annotation at an index; \<open>e\<close> is the one at the end.\<close>

definition ann :: "item list \<Rightarrow> nat \<times> nat \<Rightarrow> nat \<Rightarrow> (nat \<times> nat) option" where
  "ann F e j = (if j < length F then Some (snd (F ! j)) else if j = length F then Some e else None)"

definition at_ann :: "item list \<Rightarrow> nat \<times> nat \<Rightarrow> int \<Rightarrow> nat \<times> nat \<Rightarrow> bool" where
  "at_ann F e j a \<longleftrightarrow> 0 \<le> j \<and> ann F e (nat j) = Some a"

abbreviation no_shape :: shape where
  "no_shape \<equiv> \<lparr>nargs_encoded = 0, nlocals = 0, sh_offset = 0, maxstack = 0\<rparr>"

fun raw_ok :: "limits \<Rightarrow> instr \<Rightarrow> bool" where
  "raw_ok K ins = (case opcode ins of
     OP_LOAD_SYMBOLIC \<Rightarrow> unat (in_c ins) < k_idents K
   | OP_STORE_SYMBOLIC \<Rightarrow> unat (in_c ins) < k_idents K
   | OP_MODIFY_SYMBOLIC \<Rightarrow> unat (in_c ins) < k_idents K \<and> aop_of_code (in_a ins) \<noteq> None
   | OP_STORE_LOCAL \<Rightarrow> unat (in_c ins) < k_locals K
   | _ \<Rightarrow> operands_ok 0 (k_chunk K) no_shape ins)"

declare raw_ok.simps [simp del]

definition fin_ok :: "limits \<Rightarrow> nat \<Rightarrow> instr \<Rightarrow> nat \<Rightarrow> bool" where
  "fin_ok K c ins d \<longleftrightarrow> stack_effect ins \<noteq> None \<and> c < length (k_shapes K) \<and> shape_ok (k_shapes K ! c) \<and>
     operands_ok (k_globals K) (k_chunk K) (k_shapes K ! c) ins \<and>
     d \<le> maxstack (k_shapes K ! c) \<and> after ins d \<le> maxstack (k_shapes K ! c)"

definition item_ok :: "limits \<Rightarrow> item list \<Rightarrow> nat \<times> nat \<Rightarrow> nat \<Rightarrow> bool" where
  "item_ok K F e i \<longleftrightarrow> (case F ! i of (ins, c, d) \<Rightarrow>
     fst (effect ins) \<le> d \<and> (\<forall>j \<in> set (successors (k_chunk K) ins). at_ann F e (int i + j) (c, after ins d)) \<and>
     (opcode ins = OP_RETURN \<longrightarrow> d = 1) \<and>
     (opcode ins = OP_FUNCTION \<longrightarrow> at_ann F e (int i + 1) (unat (in_c ins), 0) \<and> k_own K < unat (in_c ins)) \<and>
     k_own K \<le> c \<and> (if c = k_own K then raw_ok K ins else fin_ok K c ins d))"

text \<open>The heights along the instructions of a function.\<close>

fun walk :: "nat \<Rightarrow> nat \<Rightarrow> item list \<Rightarrow> nat option" where
  "walk c d [] = Some d"
| "walk c d ((ins, c', d') # F) =
     (if c' = c then (if d' = d then walk c (after ins d) F else None) else walk c d F)"

text \<open>A fragment that starts at height \<open>d0\<close> and ends at height \<open>d1\<close>.\<close>

definition frag :: "limits \<Rightarrow> nat \<Rightarrow> item list \<Rightarrow> nat \<Rightarrow> bool" where
  "frag K d0 F d1 \<longleftrightarrow> (\<forall>i < length F. item_ok K F (k_own K, d1) i) \<and>
     ann F (k_own K, d1) 0 = Some (k_own K, d0) \<and> walk (k_own K) d0 F = Some d1"

lemma frag_Nil [simp]: "frag K d [] d" by (simp add: frag_def ann_def)

lemma walk_append: "walk c d (F @ G) = Option.bind (walk c d F) (\<lambda>d. walk c d G)"
  by (induction F arbitrary: d) auto

lemma ann_append1:
  assumes "ann F e j = Some a" and "ann G e' 0 = Some e"
  shows "ann (F @ G) e' j = Some a"
  using assms by (auto simp: ann_def nth_append split: if_splits)

lemma ann_append2: "ann G e j = Some a \<Longrightarrow> ann (F @ G) e (length F + j) = Some a"
  by (auto simp: ann_def nth_append split: if_splits)

lemma at_ann_append1: "at_ann F e j a \<Longrightarrow> ann G e' 0 = Some e \<Longrightarrow> at_ann (F @ G) e' j a"
  using ann_append1 [of F e "nat j" a G e'] by (simp add: at_ann_def)

lemma at_ann_append2: "at_ann G e j a \<Longrightarrow> at_ann (F @ G) e (int (length F) + j) a"
  by (simp add: at_ann_def nat_add_distrib ann_append2)

lemma item_ok_append1:
  assumes "item_ok K F e i" and "i < length F" and "ann G e' 0 = Some e"
  shows "item_ok K (F @ G) e' i"
  using assms(1,2) at_ann_append1 [OF _ assms(3), of F]
  by (cases "F ! i") (simp add: item_ok_def nth_append del: successors.simps)

lemma item_ok_append2:
  assumes "item_ok K G e i"
  shows "item_ok K (F @ G) e (length F + i)"
proof -
  obtain ins c d where i: "G ! i = (ins, c, d)" "(F @ G) ! (length F + i) = (ins, c, d)" by (cases "G ! i") simp
  have "at_ann (F @ G) e (int (length F + i) + j) a" if "at_ann G e (int i + j) a" for j a
    using at_ann_append2 [OF that, of F] by (simp add: add.assoc)
  then show ?thesis using assms by (simp add: item_ok_def i del: successors.simps)
qed

lemma frag_append:
  assumes F: "frag K d0 F d1" and G: "frag K d1 G d2"
  shows "frag K d0 (F @ G) d2"
  unfolding frag_def
proof (intro conjI allI impI)
  fix i
  assume "i < length (F @ G)"
  then consider "i < length F" | k where "i = length F + k" "k < length G"
    by (metis add_diff_inverse_nat length_append nat_add_left_cancel_less)
  then show "item_ok K (F @ G) (k_own K, d2) i"
  proof cases
    case 1
    with F G show ?thesis by (intro item_ok_append1) (simp_all add: frag_def)
  next
    case 2
    with G show ?thesis by (auto simp: frag_def intro: item_ok_append2)
  qed
next
  show "ann (F @ G) (k_own K, d2) 0 = Some (k_own K, d0)"
    using F G by (intro ann_append1) (auto simp: frag_def)
  show "walk (k_own K) d0 (F @ G) = Some d2" using F G by (simp add: frag_def walk_append)
qed

section \<open>Growth of the program\<close>

lemma operands_ok_grows:
  assumes "grows K L" and "operands_ok G (k_chunk K) sh ins" and "G \<le> G'"
  shows "operands_ok G' (k_chunk L) sh ins"
proof -
  have "length (k_consts K) \<le> length (k_consts L)" "length (k_shapes K) \<le> length (k_shapes L)"
    using assms(1) by (auto simp: grows_def dest: prefix_length_le)
  moreover have "k_shapes L ! i = k_shapes K ! i" if "i < length (k_shapes K)" for i
    using assms(1) that by (auto simp: grows_def prefix_def nth_append)
  ultimately show ?thesis using assms(2,3) by (auto split: opcode.splits)
qed

lemma grows_shape: "grows K L \<Longrightarrow> c < length (k_shapes K) \<Longrightarrow> c < length (k_shapes L) \<and> k_shapes L ! c = k_shapes K ! c"
  by (auto simp: grows_def prefix_def nth_append)

lemma raw_ok_grows: "grows K L \<Longrightarrow> raw_ok K ins \<Longrightarrow> raw_ok L ins"
  using operands_ok_grows [of K L 0 no_shape ins 0]
  by (cases "opcode ins") (simp_all add: raw_ok.simps grows_def del: operands_ok.simps)

lemma fin_ok_grows: "grows K L \<Longrightarrow> fin_ok K c ins d \<Longrightarrow> fin_ok L c ins d"
  using operands_ok_grows [of K L "k_globals K" "k_shapes K ! c" ins "k_globals L"] grows_shape [of K L c]
  by (auto simp: fin_ok_def grows_def simp del: operands_ok.simps)

lemma successors_grows:
  "grows K L \<Longrightarrow> (opcode ins = OP_FUNCTION \<Longrightarrow> unat (in_c ins) < length (k_shapes K)) \<Longrightarrow>
   successors (k_chunk L) ins = successors (k_chunk K) ins"
  using grows_shape [of K L "unat (in_c ins)"] by (auto split: opcode.splits)

lemma raw_ok_shape: "raw_ok K ins \<Longrightarrow> opcode ins = OP_FUNCTION \<Longrightarrow> unat (in_c ins) < length (k_shapes K)"
  by (simp add: raw_ok.simps)

lemma fin_ok_shape: "fin_ok K c ins d \<Longrightarrow> opcode ins = OP_FUNCTION \<Longrightarrow> unat (in_c ins) < length (k_shapes K)"
  by (simp add: fin_ok_def)

lemma item_ok_grows: "grows K L \<Longrightarrow> item_ok K F e i \<Longrightarrow> item_ok L F e i"
  using successors_grows [of K L "fst (F ! i)"] raw_ok_shape [of K "fst (F ! i)"] fin_ok_shape [of K _ "fst (F ! i)"]
    raw_ok_grows [of K L "fst (F ! i)"] fin_ok_grows [of K L _ "fst (F ! i)"]
  by (cases "F ! i") (auto simp: item_ok_def grows_def simp del: successors.simps split: if_splits)

lemma frag_grows: "grows K L \<Longrightarrow> frag K d0 F d1 \<Longrightarrow> frag L d0 F d1"
  using item_ok_grows [of K L F] by (auto simp: frag_def grows_def)

section \<open>Single instructions\<close>

lemma frag_single:
  assumes "raw_ok K ins" and "fst (effect ins) \<le> d" and "successors (k_chunk K) ins = [1]"
    and "opcode ins \<noteq> OP_FUNCTION" and "opcode ins \<noteq> OP_RETURN"
  shows "frag K d [(ins, k_own K, d)] (after ins d)"
  using assms by (simp add: frag_def item_ok_def at_ann_def ann_def del: successors.simps)

lemma frag_return:
  assumes "opcode ins = OP_RETURN"
  shows "frag K 1 [(ins, k_own K, 1)] 0"
  using assms by (simp add: frag_def item_ok_def at_ann_def ann_def effect.simps raw_ok.simps after_def)

lemma frag_jump:
  assumes "opcode ins = OP_JUMP" and "in_c ins = 0"
  shows "frag K 0 [(ins, k_own K, 0)] 0"
  using assms by (simp add: frag_def item_ok_def at_ann_def ann_def effect.simps raw_ok.simps after_def)

section \<open>Code of expressions\<close>

text \<open>Instructions that take some values from the stack and leave one.\<close>

definition pure_ins :: "limits \<Rightarrow> instr \<Rightarrow> bool" where
  "pure_ins K ins \<longleftrightarrow> raw_ok K ins \<and> opcode ins \<in> {OP_LOAD_CONST, OP_LOAD_SYMBOLIC, OP_LOAD_AT, OP_CALL, OP_NEG, OP_NOT, OP_LEN,
     OP_AOP, OP_CMP_2WAY, OP_CMP_3WAY, OP_LIST, OP_DICT}"

fun pure :: "limits \<Rightarrow> nat \<Rightarrow> instr list \<Rightarrow> nat \<Rightarrow> bool" where
  "pure K h [] h' \<longleftrightarrow> h' = h"
| "pure K h (ins # is) h' \<longleftrightarrow> pure_ins K ins \<and> fst (effect ins) \<le> h \<and> pure K (after ins h) is h'"

lemma pure_append: "pure K h (is @ js) h' \<longleftrightarrow> (\<exists>m. pure K h is m \<and> pure K m js h')"
  by (induction "is" arbitrary: h) auto

lemma pure_ins_grows: "grows K L \<Longrightarrow> pure_ins K ins \<Longrightarrow> pure_ins L ins"
  by (auto simp: pure_ins_def raw_ok_grows)

lemma pure_grows: "grows K L \<Longrightarrow> pure K h is h' \<Longrightarrow> pure L h is h'"
  by (induction "is" arbitrary: h) (auto simp: pure_ins_grows)

lemma after_lift: "fst (effect ins) \<le> h \<Longrightarrow> after ins (h + k) = after ins h + k"
  by (simp add: after_def)

lemma pure_lift: "pure K h is h' \<Longrightarrow> pure K (h + k) is (h' + k)"
  by (induction "is" arbitrary: h) (auto simp: after_lift)

lemma pure_effect:
  assumes "pure_ins K ins"
  shows "snd (effect ins) = 1" and "successors (k_chunk K) ins = [1]" and "opcode ins \<noteq> OP_FUNCTION" and "opcode ins \<noteq> OP_RETURN"
  using assms by (auto simp: pure_ins_def effect.simps)

lemma pure_pos: "pure K h is h' \<Longrightarrow> is \<noteq> [] \<or> 1 \<le> h \<Longrightarrow> 1 \<le> h'"
  by (induction "is" arbitrary: h) (fastforce simp: after_def dest: pure_effect(1))+

fun annot :: "nat \<Rightarrow> nat \<Rightarrow> instr list \<Rightarrow> item list" where
  "annot c d [] = []"
| "annot c d (ins # is) = (ins, c, d) # annot c (after ins d) is"

lemma annot_code [simp]: "map fst (annot c d is) = is"
  by (induction "is" arbitrary: d) simp_all

lemma annot_own: "x \<in> set (annot c d is) \<Longrightarrow> fst (snd x) = c"
  by (induction "is" arbitrary: d) auto

lemma frag_pure: "pure K d is d' \<Longrightarrow> frag K d (annot (k_own K) d is) d'"
proof (induction "is" arbitrary: d)
  case (Cons ins "is")
  then have "frag K d [(ins, k_own K, d)] (after ins d)" by (intro frag_single) (auto simp: pure_effect pure_ins_def)
  from frag_append [OF this Cons.IH] Cons.prems show ?case by simp
qed simp

section \<open>Jumps\<close>

definition jump_by :: "instr \<Rightarrow> int \<Rightarrow> instr" where
  "jump_by ins n = ins\<lparr>in_c := of_int n\<rparr>"

lemma sint_small: "- (2 ^ 31) \<le> n \<Longrightarrow> n < 2 ^ 31 \<Longrightarrow> sint (of_int n :: 32 word) = n"
  by (simp add: sint_sbintrunc' signed_take_bit_int_eq_self)

text \<open>A jump of the function, which can be set, and what setting it does.\<close>

definition pend :: "limits \<Rightarrow> item list \<Rightarrow> nat \<Rightarrow> bool" where
  "pend K F i \<longleftrightarrow> i < length F \<and> snd (F ! i) = (k_own K, 0) \<and> opcode (fst (F ! i)) = OP_JUMP"

definition set_jump :: "item list \<Rightarrow> nat \<Rightarrow> int \<Rightarrow> item list" where
  "set_jump F i t = F[i := (jump_by (fst (F ! i)) (t - int i), snd (F ! i))]"

lemma length_set_jump [simp]: "length (set_jump F i t) = length F"
  by (simp add: set_jump_def)

lemma snd_set_jump: "i < length F \<Longrightarrow> map snd (set_jump F i t) = map snd F"
  by (simp add: set_jump_def map_update list_update_same_conv)

lemma ann_snd: "ann F e j = (if j < length F then Some (map snd F ! j) else if j = length F then Some e else None)"
  by (simp add: ann_def)

lemma ann_cong: "map snd F = map snd G \<Longrightarrow> ann F = ann G"
  by (intro ext) (simp add: ann_snd, metis length_map)

lemma walk_cong:
  "map snd F = map snd G \<Longrightarrow> map (effect \<circ> fst) F = map (effect \<circ> fst) G \<Longrightarrow> walk c d F = walk c d G"
proof (induction F arbitrary: G d)
  case (Cons x F)
  then obtain y H where G: "G = y # H" by (cases G) auto
  with Cons show ?case by (cases x; cases y) (auto simp: after_def)
qed simp

lemma set_jump_nth:
  "i < length F \<Longrightarrow> set_jump F i t ! j = (if j = i then (jump_by (fst (F ! i)) (t - int i), snd (F ! i)) else F ! j)"
  by (simp add: set_jump_def nth_list_update)

lemma jump_by_simps [simp]: "opcode (jump_by ins n) = opcode ins" "in_c (jump_by ins n) = of_int n"
  "opcode ins = OP_JUMP \<Longrightarrow> effect (jump_by ins n) = effect ins"
  by (simp_all add: jump_by_def effect.simps)

lemma pend_set_jump: "pend K F i \<Longrightarrow> pend K (set_jump F i t) j \<longleftrightarrow> pend K F j"
  by (auto simp: pend_def set_jump_nth)

lemma frag_set_jump:
  assumes F: "frag K d0 F d1" and i: "pend K F i" and t: "ann F (k_own K, d1) t = Some (k_own K, 0)" and n: "length F < 2 ^ 31"
  shows "frag K d0 (set_jump F i (int t)) d1"
  unfolding frag_def
proof (intro conjI allI impI)
  have il: "i < length F" using i by (simp add: pend_def)
  have eq: "ann (set_jump F i (int t)) = ann F" by (rule ann_cong [OF snd_set_jump [OF il]])
  then have at: "at_ann (set_jump F i (int t)) = at_ann F" by (intro ext) (simp add: at_ann_def)
  have "t \<le> length F" using t by (auto simp: ann_def split: if_splits)
  then have sint: "sint (of_int (int t - int i) :: 32 word) = int t - int i" using n il by (intro sint_small) simp_all
  fix j
  assume j: "j < length (set_jump F i (int t))"
  then have ok: "item_ok K F (k_own K, d1) j" using F by (simp add: frag_def)
  show "item_ok K (set_jump F i (int t)) (k_own K, d1) j"
  proof (cases "j = i")
    case False
    then show ?thesis using ok il by (simp add: item_ok_def set_jump_nth at del: successors.simps)
  next
    case True
    obtain ins where ins: "F ! i = (ins, k_own K, 0)" "opcode ins = OP_JUMP" using i by (cases "F ! i") (auto simp: pend_def)
    have "at_ann F (k_own K, d1) (int t) (k_own K, 0)" using t by (simp add: at_ann_def)
    then show ?thesis using il ins True sint
      by (simp add: item_ok_def set_jump_nth at effect.simps after_def raw_ok.simps)
  qed
next
  have il: "i < length F" "opcode (fst (F ! i)) = OP_JUMP" using i by (simp_all add: pend_def)
  show "ann (set_jump F i (int t)) (k_own K, d1) 0 = Some (k_own K, d0)"
    using F ann_cong [OF snd_set_jump [OF il(1)]] by (simp add: frag_def)
  have "map (effect \<circ> fst) (set_jump F i (int t)) = map (effect \<circ> fst) F"
    using il by (intro nth_equalityI) (simp_all add: set_jump_nth)
  then show "walk (k_own K) d0 (set_jump F i (int t)) = Some d1"
    using F walk_cong [OF snd_set_jump [OF il(1)]] by (simp add: frag_def)
qed

text \<open>Several jumps to the same place.\<close>

definition set_jumps :: "item list \<Rightarrow> nat list \<Rightarrow> int \<Rightarrow> item list" where
  "set_jumps F is t = foldl (\<lambda>F i. set_jump F i t) F is"

lemma set_jumps_simps [simp]: "set_jumps F [] t = F" "set_jumps F (i # is) t = set_jumps (set_jump F i t) is t"
  by (simp_all add: set_jumps_def)

lemma pend_set_jumps: "list_all (pend K F) is \<Longrightarrow> pend K (set_jumps F is t) j \<longleftrightarrow> pend K F j"
proof (induction "is" arbitrary: F)
  case (Cons i "is")
  then have "list_all (pend K (set_jump F i t)) is" by (auto simp: list_all_iff pend_set_jump)
  with Cons show ?case by (simp add: pend_set_jump)
qed simp

lemma snd_set_jumps: "list_all (pend K F) is \<Longrightarrow> map snd (set_jumps F is t) = map snd F"
proof (induction "is" arbitrary: F)
  case (Cons i "is")
  then have "i < length F" by (simp add: pend_def)
  from snd_set_jump [OF this, of t] Cons show ?case by (simp add: pend_set_jump)
qed simp

lemma length_set_jumps: "list_all (pend K F) is \<Longrightarrow> length (set_jumps F is t) = length F"
  using snd_set_jumps by (metis length_map)

lemma frag_set_jumps:
  "frag K d0 F d1 \<Longrightarrow> list_all (pend K F) is \<Longrightarrow> ann F (k_own K, d1) t = Some (k_own K, 0) \<Longrightarrow> length F < 2 ^ 31 \<Longrightarrow>
   frag K d0 (set_jumps F is (int t)) d1"
proof (induction "is" arbitrary: F)
  case (Cons i "is")
  then have i: "pend K F i" "i < length F" by (auto simp: pend_def)
  have "ann (set_jump F i (int t)) = ann F" by (rule ann_cong [OF snd_set_jump [OF i(2)]])
  then show ?case using Cons i(1) by (simp add: frag_set_jump pend_set_jump)
qed simp

lemma pend_append1: "pend K F i \<Longrightarrow> pend K (F @ G) i"
  by (auto simp: pend_def nth_append)

lemma pend_append2: "pend K G i \<Longrightarrow> pend K (F @ G) (length F + i)"
  by (auto simp: pend_def nth_append)

lemma pend_grows: "grows K L \<Longrightarrow> pend K F i = pend L F i"
  by (simp add: pend_def grows_def)

text \<open>A condition, the jump over what depends on it, and what depends on it.\<close>

lemma frag_unless:
  assumes C: "frag K d0 C 1" and B: "frag K 0 B 0" and t: "t \<le> length B" "ann B (k_own K, 0) t = Some (k_own K, 0)"
    and op: "opcode ins = OP_JUMP_UNLESS" and n: "length B < 2 ^ 31 - 1"
  shows "frag K d0 (C @ (jump_by ins (int t + 1), k_own K, 1) # B) 0"
proof -
  let ?j = "(jump_by ins (int t + 1), k_own K, 1)" and ?e = "(k_own K, 0)"
  have sint: "sint (of_int (int t + 1) :: 32 word) = int t + 1" using n t(1) by (intro sint_small) simp_all
  have at: "at_ann (C @ ?j # B) ?e (int (length C) + 1 + int k) a" if "ann B ?e k = Some a" for k a
  proof -
    have "nat (int (length C) + 1 + int k) = length (C @ [?j]) + k" by simp
    then show ?thesis using ann_append2 [OF that, of "C @ [?j]"] by (simp add: at_ann_def)
  qed
  have 0: "ann B ?e 0 = Some ?e" using B by (simp add: frag_def)
  have J: "item_ok K (C @ ?j # B) ?e (length C)"
    using op sint at [OF 0] at [OF t(2)] by (simp add: item_ok_def effect.simps raw_ok.simps after_def algebra_simps)
  have ann: "ann (?j # B) ?e 0 = Some (k_own K, 1)" by (simp add: ann_def)
  show ?thesis
    unfolding frag_def
  proof (intro conjI allI impI)
    fix i
    assume "i < length (C @ ?j # B)"
    then have "i < length C \<or> i = length C \<or> i = length (C @ [?j]) + (i - length C - 1) \<and> i - length C - 1 < length B"
      by simp linarith
    then consider "i < length C" | "i = length C" | k where "i = length (C @ [?j]) + k" "k < length B" by blast
    then show "item_ok K (C @ ?j # B) ?e i"
    proof cases
      case 1
      with C ann show ?thesis by (intro item_ok_append1) (simp_all add: frag_def)
    next
      case 3
      then show ?thesis using B item_ok_append2 [of K B ?e k "C @ [?j]"] by (simp add: frag_def)
    qed (use J in simp)
  next
    show "ann (C @ ?j # B) ?e 0 = Some (k_own K, d0)" using C by (intro ann_append1 [OF _ ann]) (simp add: frag_def)
    show "walk (k_own K) d0 (C @ ?j # B) = Some 0"
      using C B op by (simp add: frag_def walk_append after_def effect.simps jump_by_def)
  qed
qed

section \<open>The end of a function\<close>

text \<open>Code that does not go on behind its end.\<close>

definition sealed :: "limits \<Rightarrow> item list \<Rightarrow> bool" where
  "sealed K F \<longleftrightarrow> (\<forall>e. \<forall>i < length F. item_ok K F e i)"

lemma sealed_return:
  assumes B: "frag K 0 B 0" and l: "pure_ins K l" "effect l = (0, 1)" and r: "opcode r = OP_RETURN"
  shows "sealed K (B @ [(l, k_own K, 0), (r, k_own K, 1)])"
  unfolding sealed_def
proof (intro allI impI)
  fix e i
  let ?T = "[(l, k_own K, 0), (r, k_own K, 1)]"
  assume "i < length (B @ ?T)"
  then consider "i < length B" | k where "i = length B + k" "k < 2" by (metis add_diff_inverse_nat length_append
        length_Cons list.size(3) nat_add_left_cancel_less numeral_2_eq_2)
  then show "item_ok K (B @ ?T) e i"
  proof cases
    case 1
    have "ann ?T e 0 = Some (k_own K, 0)" by (simp add: ann_def)
    with 1 B show ?thesis by (intro item_ok_append1) (simp_all add: frag_def)
  next
    case 2
    then consider "k = 0" | "k = 1" by linarith
    then have "item_ok K ?T e k"
      using l r pure_effect [OF l(1)]
      by cases (auto simp: item_ok_def at_ann_def ann_def after_def pure_ins_def effect.simps raw_ok.simps simp del: successors.simps,
        simp_all)
    then show ?thesis unfolding 2(1) by (rule item_ok_append2)
  qed
qed

text \<open>The instruction that a symbolic one becomes.\<close>

fun resolved :: "limits \<Rightarrow> instr \<Rightarrow> instr \<Rightarrow> bool" where
  "resolved L ins ins' \<longleftrightarrow> (case opcode ins of
     OP_LOAD_SYMBOLIC \<Rightarrow> opcode ins' = OP_LOAD_LOCAL \<and> unat (in_c ins') < k_locals L \<or>
       opcode ins' = OP_LOAD_GLOBAL \<and> unat (in_c ins') < k_globals L
   | OP_STORE_SYMBOLIC \<Rightarrow> opcode ins' = OP_STORE_LOCAL \<and> unat (in_c ins') < k_locals L \<or>
       opcode ins' = OP_STORE_GLOBAL \<and> unat (in_c ins') < k_globals L
   | OP_MODIFY_SYMBOLIC \<Rightarrow> in_a ins' = in_a ins \<and> (opcode ins' = OP_MODIFY_LOCAL \<and> unat (in_c ins') < k_locals L \<or>
       opcode ins' = OP_MODIFY_GLOBAL \<and> unat (in_c ins') < k_globals L)
   | _ \<Rightarrow> ins' = ins)"

declare resolved.simps [simp del]

definition closes :: "limits \<Rightarrow> nat \<Rightarrow> item \<Rightarrow> item \<Rightarrow> bool" where
  "closes L mx x y \<longleftrightarrow> snd y = snd x \<and>
     (if fst (snd x) = k_own L then resolved L (fst x) (fst y) \<and> snd (snd x) \<le> mx \<and> after (fst x) (snd (snd x)) \<le> mx
      else fst y = fst x)"

lemma resolved_facts:
  assumes "resolved L ins ins'" and "raw_ok K ins"
  shows "effect ins' = effect ins" and "opcode ins' = OP_FUNCTION \<longleftrightarrow> opcode ins = OP_FUNCTION"
    and "opcode ins' = OP_RETURN \<longleftrightarrow> opcode ins = OP_RETURN" and "successors C ins' = successors C ins"
    and "opcode ins = OP_FUNCTION \<Longrightarrow> in_c ins' = in_c ins" and "stack_effect ins' \<noteq> None"
  using assms by (auto simp: resolved.simps effect.simps raw_ok.simps split: opcode.splits)

text \<open>Finished code of functions with numbers from \<open>m\<close> on.\<close>

definition closed :: "limits \<Rightarrow> nat \<Rightarrow> item list \<Rightarrow> bool" where
  "closed K m F \<longleftrightarrow> (\<forall>e. \<forall>i < length F. case F ! i of (ins, c, d) \<Rightarrow>
     fst (effect ins) \<le> d \<and> (\<forall>j \<in> set (successors (k_chunk K) ins). at_ann F e (int i + j) (c, after ins d)) \<and>
     (opcode ins = OP_RETURN \<longrightarrow> d = 1) \<and>
     (opcode ins = OP_FUNCTION \<longrightarrow> at_ann F e (int i + 1) (unat (in_c ins), 0) \<and> m < unat (in_c ins)) \<and>
     m \<le> c \<and> fin_ok K c ins d)"

lemma closedD:
  assumes "closed K m F" and "i < length F" and "F ! i = (ins, c, d)"
  shows "fst (effect ins) \<le> d \<and> (\<forall>j \<in> set (successors (k_chunk K) ins). at_ann F e (int i + j) (c, after ins d)) \<and>
     (opcode ins = OP_RETURN \<longrightarrow> d = 1) \<and>
     (opcode ins = OP_FUNCTION \<longrightarrow> at_ann F e (int i + 1) (unat (in_c ins), 0) \<and> m < unat (in_c ins)) \<and>
     m \<le> c \<and> fin_ok K c ins d"
  using assms(1) [unfolded closed_def, THEN spec, of e, THEN spec, of i] assms(2,3) by (simp del: successors.simps)

lemma closed_sealed:
  assumes "closed K m F" and "k_own K < m"
  shows "sealed K F" and "x \<in> set F \<Longrightarrow> fst (snd x) \<noteq> k_own K"
proof -
  show "sealed K F"
    unfolding sealed_def
  proof (intro allI impI)
    fix e i
    assume i: "i < length F"
    obtain ins c d where x: "F ! i = (ins, c, d)" by (cases "F ! i") auto
    then show "item_ok K F e i"
      using closedD [OF assms(1) i x, of e] assms(2) by (auto simp: item_ok_def simp del: successors.simps)
  qed
  assume "x \<in> set F"
  then obtain i where i: "i < length F" "F ! i = x" by (auto simp: in_set_conv_nth)
  obtain ins c d where x: "x = (ins, c, d)" by (cases x) auto
  then show "fst (snd x) \<noteq> k_own K"
    using closedD [OF assms(1) i(1), of ins c d "(0, 0)"] i assms(2) by simp
qed

lemma closed_typed:
  assumes "closed K m F" and C: "code C = ins # map fst F" "constants C = k_consts K" "shapes C = k_shapes K"
    and v: "\<forall>v \<in> set (k_consts K). val_ok D ([] :: func heap) v"
  shows "typed D (k_globals K) C (None # map (Some \<circ> snd) F)"
proof -
  let ?A = "None # map (Some \<circ> snd) F"
  have "(case ?A ! i of None \<Rightarrow> True | Some (c, d) \<Rightarrow> c < length (shapes C) \<and> shape_ok (shapes C ! c) \<and>
      d \<le> maxstack (shapes C ! c) \<and> instr_ok (k_globals K) C ?A i c d)" if i: "i < length ?A" for i
  proof (cases i)
    case (Suc k)
    obtain ji c d where x: "F ! k = (ji, c, d)" by (cases "F ! k") auto
    have k: "k < length F" using i Suc by simp
    have ok: "fst (effect ji) \<le> d" "opcode ji = OP_RETURN \<longrightarrow> d = 1" "fin_ok K c ji d"
      "\<And>e. \<forall>j \<in> set (successors (k_chunk K) ji). at_ann F e (int k + j) (c, after ji d)"
      "\<And>e. opcode ji = OP_FUNCTION \<longrightarrow> at_ann F e (int k + 1) (unat (in_c ji), 0)"
      using closedD [OF assms(1) k x] by (simp_all del: successors.simps)
    obtain p q where se: "stack_effect ji = Some (p, q)" "effect ji = (p, q)"
      using ok(3) by (cases "stack_effect ji") (auto simp: fin_ok_def effect.simps split: opcode.splits)
    have at: "at_depth ?A (int i + j) c' d'" if "\<And>e. at_ann F e (int k + j) (c', d')" for j c' d'
    proof -
      have j: "0 \<le> int k + j" "nat (int k + j) < length F" "snd (F ! nat (int k + j)) = (c', d')"
        using that [of "(c' + 1, 0)"] by (auto simp: at_ann_def ann_def split: if_splits)
      moreover have "nat (int i + j) = Suc (nat (int k + j))" using j(1) Suc by simp
      ultimately show ?thesis by (simp add: at_depth_def)
    qed
    have "successors C ji = successors (k_chunk K) ji" using C by (simp cong: opcode.case_cong)
    moreover have "operands_ok (k_globals K) C (shapes C ! c) ji"
      using ok(3) C by (simp add: fin_ok_def cong: opcode.case_cong)
    moreover have "\<forall>j \<in> set (successors (k_chunk K) ji). at_depth ?A (int i + j) c (after ji d)" using at ok(4) by blast
    moreover have "opcode ji = OP_FUNCTION \<longrightarrow> at_depth ?A (int i + 1) (unat (in_c ji)) 0" using at ok(5) by blast
    moreover have "after ji d = d - p + q" using se(2) by (simp add: after_def)
    ultimately have "instr_ok (k_globals K) C ?A i c d"
      using ok(1-3) se Suc k x C unfolding instr_ok_def fin_ok_def
      by (simp del: successors.simps operands_ok.simps stack_effect.simps)
    then show ?thesis using ok(3) Suc k x C(3) by (simp add: fin_ok_def)
  qed simp
  then show ?thesis using C v by (simp add: typed_def)
qed

lemma closed_closes:
  assumes F: "sealed K F" and cl: "list_all2 (closes L mx) F F'" and own: "k_own L = k_own K"
    and lim: "prefix (k_consts K) (k_consts K2)" "k_globals L \<le> k_globals K2" "k_globals K \<le> k_globals K2" "k_locals K \<le> k_locals L"
    and shs: "\<And>c. k_own K < c \<Longrightarrow> c < length (k_shapes K) \<Longrightarrow> c < length (k_shapes K2) \<and> k_shapes K2 ! c = k_shapes K ! c"
    and sh: "k_own K < length (k_shapes K2)" "shape_ok (k_shapes K2 ! k_own K)" "nlocals (k_shapes K2 ! k_own K) = k_locals L"
      "maxstack (k_shapes K2 ! k_own K) = mx"
  shows "closed K2 (k_own K) F'"
  unfolding closed_def
proof (intro allI impI)
  fix e i
  assume i': "i < length F'"
  have len: "length F = length F'" using cl by (rule list_all2_lengthD)
  have "map snd F' = map snd F"
    using cl by (intro nth_equalityI) (auto simp: list_all2_conv_all_nth closes_def)
  then have "ann F' = ann F" by (rule ann_cong)
  then have at: "at_ann F' = at_ann F" by (intro ext) (simp add: at_ann_def)
  obtain ins c d where x: "F ! i = (ins, c, d)" by (cases "F ! i") auto
  obtain ins' where y: "F' ! i = (ins', c, d)" and cli: "closes L mx (ins, c, d) (ins', c, d)"
  proof -
    have "closes L mx (F ! i) (F' ! i)" using cl i' by (simp add: list_all2_conv_all_nth)
    then show thesis using that by (cases "F' ! i") (auto simp: closes_def x)
  qed
  have ok: "item_ok K F e i" using F i' len unfolding sealed_def by metis
  have cons: "length (k_consts K) \<le> length (k_consts K2)" using lim(1) by (rule prefix_length_le)
  have "effect ins' = effect ins" "opcode ins' = OP_FUNCTION \<longleftrightarrow> opcode ins = OP_FUNCTION"
      "opcode ins' = OP_RETURN \<longleftrightarrow> opcode ins = OP_RETURN" "successors (k_chunk K2) ins' = successors (k_chunk K) ins"
      "opcode ins = OP_FUNCTION \<Longrightarrow> in_c ins' = in_c ins" "fin_ok K2 c ins' d"
  proof -
    have f: "k_own K < unat (in_c ins) \<and> unat (in_c ins) < length (k_shapes K)" if "opcode ins = OP_FUNCTION"
      using ok that by (auto simp: item_ok_def x raw_ok.simps fin_ok_def split: if_splits)
    have su: "successors (k_chunk K2) ins = successors (k_chunk K) ins"
      using f shs [of "unat (in_c ins)"] by (auto split: opcode.splits)
    show "successors (k_chunk K2) ins' = successors (k_chunk K) ins" "effect ins' = effect ins"
        "opcode ins' = OP_FUNCTION \<longleftrightarrow> opcode ins = OP_FUNCTION" "opcode ins' = OP_RETURN \<longleftrightarrow> opcode ins = OP_RETURN"
        "opcode ins = OP_FUNCTION \<Longrightarrow> in_c ins' = in_c ins"
      using ok cli resolved_facts [of L ins ins' K] su own
      by (auto simp: item_ok_def x closes_def simp del: successors.simps split: if_splits)
    show "fin_ok K2 c ins' d"
    proof (cases "c = k_own K")
      case True
      then have r: "resolved L ins ins'" "raw_ok K ins" "d \<le> mx" "after ins d \<le> mx" using ok cli own
        by (auto simp: item_ok_def x closes_def)
      have "operands_ok (k_globals K2) (k_chunk K2) (k_shapes K2 ! c) ins'"
        using r(1,2) f shs [of "unat (in_c ins)"] sh(3) lim cons True
        by (auto simp: resolved.simps raw_ok.simps split: opcode.splits)
      then show ?thesis
        using True sh r resolved_facts(1,6) [OF r(1,2)] by (simp add: fin_ok_def after_def del: operands_ok.simps)
    next
      case False
      then have r: "ins' = ins" "fin_ok K c ins d" "k_own K < c" using ok cli own
        by (auto simp: item_ok_def x closes_def)
      then have c: "c < length (k_shapes K2)" "k_shapes K2 ! c = k_shapes K ! c" using shs [of c] by (auto simp: fin_ok_def)
      have "operands_ok (k_globals K2) (k_chunk K2) (k_shapes K2 ! c) ins"
        using r(2) f shs [of "unat (in_c ins)"] lim cons c by (auto simp: fin_ok_def split: opcode.splits)
      then show ?thesis using r c by (simp add: fin_ok_def del: operands_ok.simps)
    qed
  qed
  moreover have "after ins' d = after ins d" using calculation(1) by (simp add: after_def)
  ultimately show "case F' ! i of (ins, c, d) \<Rightarrow>
     fst (effect ins) \<le> d \<and> (\<forall>j \<in> set (successors (k_chunk K2) ins). at_ann F' e (int i + j) (c, after ins d)) \<and>
     (opcode ins = OP_RETURN \<longrightarrow> d = 1) \<and>
     (opcode ins = OP_FUNCTION \<longrightarrow> at_ann F' e (int i + 1) (unat (in_c ins), 0) \<and> k_own K < unat (in_c ins)) \<and>
     k_own K \<le> c \<and> fin_ok K2 c ins d"
    using ok by (simp add: item_ok_def x y at del: successors.simps)
qed

lemma frag_function:
  assumes F: "sealed K F" "F \<noteq> []" "snd (hd F) = (unat (in_c ins), 0)" and fin: "\<And>x. x \<in> set F \<Longrightarrow> fst (snd x) \<noteq> k_own K"
    and op: "opcode ins = OP_FUNCTION" "k_own K < unat (in_c ins)" and sh: "unat (in_c ins) < length (k_shapes K)"
      "shape_ok (k_shapes K ! unat (in_c ins))" "sh_offset (k_shapes K ! unat (in_c ins)) = length F + 1"
  shows "frag K d ((ins, k_own K, d) # F) (d + 1)"
  unfolding frag_def
proof (intro conjI allI impI)
  let ?F = "(ins, k_own K, d) # F" and ?e = "(k_own K, d + 1)"
  fix i
  assume i: "i < length ?F"
  show "item_ok K ?F ?e i"
  proof (cases i)
    case 0
    have "ann ?F ?e 1 = Some (unat (in_c ins), 0)" using F by (simp add: ann_def hd_conv_nth)
    then show ?thesis using 0 op sh
      by (simp add: item_ok_def effect.simps raw_ok.simps after_def at_ann_def ann_def nat_add_distrib)
  next
    case (Suc k)
    then show ?thesis using i F(1) item_ok_append2 [of K F ?e k "[(ins, k_own K, d)]"] by (simp add: sealed_def)
  qed
next
  have "walk (k_own K) m F = Some m" if "\<forall>x \<in> set F. fst (snd x) \<noteq> k_own K" for m using that by (induction F) auto
  then show "walk (k_own K) d ((ins, k_own K, d) # F) = Some (d + 1)"
    using fin op(1) by (simp add: after_def effect.simps)
qed (simp add: ann_def)

end
