(* ===== verification/Parser_Inv.thy ===== *)
theory Parser_Inv
  imports Parser_Code
begin

text \<open>
  The invariant of the parser and what its basic operations do to it: reading lexemes, emitting code, adding constants
  and names. \<open>runs\<close> is total correctness: the operation returns, and either what it returns satisfies the
  postcondition, or it has thrown and the global variables are as they must be.
\<close>

section \<open>Lexemes to come\<close>

definition rest_kinds :: "lexer \<Rightarrow> lexeme_kind list" where
  "rest_kinds x = map lk_kind (the (lex_all (Suc (lex_measure x)) x))"

definition ahead :: "parser \<Rightarrow> lexeme_kind list" where
  "ahead p = cur_kind p # (if cur_kind p = LK_EOF then [] else rest_kinds (ps_lexer p))"

lemma lex_all_more: "lex_all n x = Some ls \<Longrightarrow> n \<le> m \<Longrightarrow> lex_all m x = Some ls"
proof (induction n arbitrary: m x ls)
  case (Suc n)
  then obtain k where m: "m = Suc k" "n \<le> k" by (cases m) auto
  obtain l x' where nx: "lexer_next x = Some (l, x')" using Suc.prems(1) by (cases "lexer_next x") auto
  show ?case
  proof (cases "lk_kind l = LK_EOF")
    case False
    then obtain ls' where ls': "lex_all n x' = Some ls'" "ls = l # ls'" using Suc.prems(1) nx by (cases "lex_all n x'") auto
    with Suc.IH [OF ls'(1) m(2)] nx False m(1) show ?thesis by simp
  qed (use Suc.prems(1) nx m in simp)
qed simp

lemma rest_kinds_next:
  assumes x: "lex_inv x" and nx: "lexer_next x = Some (l, x')"
  shows "rest_kinds x = lk_kind l # (if lk_kind l = LK_EOF then [] else rest_kinds x')"
proof (cases "lk_kind l = LK_EOF")
  case False
  have ok: "next_ok x (l, x')" using lexer_next_ok [OF x] nx by simp
  then have x': "lex_inv x'" "lex_measure x' < lex_measure x" using False by (auto simp: next_ok_def Lexer.step_ok_def)
  obtain ls where ls: "lex_all (Suc (lex_measure x')) x' = Some ls"
    using lex_all_yields [OF x'(1), of "Suc (lex_measure x')"] by (auto simp: yields_iff_ex)
  have "lex_all (lex_measure x) x' = Some ls" by (rule lex_all_more [OF ls]) (use x'(2) in simp)
  then show ?thesis using nx False ls by (simp add: rest_kinds_def)
qed (use nx in \<open>simp add: rest_kinds_def\<close>)

text \<open>
  \<open>quiet n ks\<close>: no function is defined before the \<open>n\<close>-th brace that closes a block around the lexemes \<open>ks\<close>. A source
  is calm when none is defined after a \<open>for\<close> in the same block.
\<close>

fun quiet :: "nat \<Rightarrow> lexeme_kind list \<Rightarrow> bool" where
  "quiet 0 ks = True"
| "quiet (Suc n) [] = True"
| "quiet (Suc n) (k # ks) \<longleftrightarrow>
     k \<noteq> LK_FUN \<and> quiet (if k = LK_LBRACE then Suc (Suc n) else if k = LK_RBRACE then n else Suc n) ks"

fun calm :: "lexeme_kind list \<Rightarrow> bool" where
  "calm [] = True"
| "calm (k # ks) \<longleftrightarrow> (k = LK_FOR \<longrightarrow> quiet 1 ks) \<and> calm ks"

definition no_fun :: "nat \<Rightarrow> parser \<Rightarrow> bool" where
  "no_fun n p \<longleftrightarrow> quiet (Suc n) (ahead p)"

text \<open>No function is defined in the block, and what \<open>p\<close> excludes \<open>p'\<close> does.\<close>

definition silent :: "parser \<Rightarrow> bool" where
  "silent p \<longleftrightarrow> (\<exists>n. no_fun n p)"

definition hushed :: "parser \<Rightarrow> parser \<Rightarrow> bool" where
  "hushed p p' \<longleftrightarrow> (\<forall>n. no_fun n p \<longrightarrow> no_fun n p')"

lemma hushed_refl [simp]: "hushed p p"
  by (simp add: hushed_def)

lemma hushed_trans: "hushed p q \<Longrightarrow> hushed q r \<Longrightarrow> hushed p r"
  by (simp add: hushed_def)

lemma hushed_silent: "hushed p q \<Longrightarrow> silent p \<Longrightarrow> silent q"
  by (auto simp: hushed_def silent_def)

lemma loud_hushed: "\<not> silent p \<Longrightarrow> hushed p q"
  by (auto simp: hushed_def silent_def)

lemma silent_not_fun: "cur_kind p = LK_FUN \<Longrightarrow> \<not> silent p"
  by (simp add: silent_def no_fun_def ahead_def)

lemma ahead_same: "ahead q = ahead p \<Longrightarrow> silent q = silent p" "ahead q = ahead p \<Longrightarrow> hushed p q" "ahead q = ahead p \<Longrightarrow> hushed r q = hushed r p"
    "ahead q = ahead p \<Longrightarrow> hushed q r = hushed p r"
  by (simp_all add: silent_def hushed_def no_fun_def)

text \<open>How many lexemes there are left at most.\<close>

definition pm :: "parser \<Rightarrow> nat" where
  "pm p = (if cur_kind p = LK_EOF then 0 else Suc (lex_measure (ps_lexer p)))"

section \<open>The invariant\<close>

text \<open>The source, the numbers, and the global variables before.\<close>

record setting =
  w_deci :: deci
  w_src :: string
  w_globals :: "val globals"

definition setting_ok :: "setting \<Rightarrow> bool" where
  "setting_ok W \<longleftrightarrow> deci_ok (w_deci W) \<and> fits (w_deci W) (length (w_src W)) \<and> length (w_src W) \<le> 2 ^ 26 \<and>
     globals_ok (w_globals W) \<and> length (g_data (w_globals W)) \<le> 2 ^ 29"

text \<open>The global variables: those that the parser adds have names of the source, and no value.\<close>

definition glob :: "setting \<Rightarrow> parser \<Rightarrow> bool" where
  "glob W p \<longleftrightarrow> globals_ok (ps_globals p) \<and> genv (ps_globals p) = genv (w_globals W) \<and>
     (\<forall>a i. slot (w_globals W) a = Some i \<longrightarrow> slot (ps_globals p) a = Some i) \<and>
     dom (slot (ps_globals p)) \<subseteq> dom (slot (w_globals W)) \<union> set (idents p)"

definition table_ok :: "nat xht \<Rightarrow> bool" where
  "table_ok t \<longleftrightarrow> xht_inv t \<and> (\<forall>a i. xht_map t a = Some i \<longrightarrow> i < xht_size t)"

definition core :: "setting \<Rightarrow> parser \<Rightarrow> bool" where
  "core W p \<longleftrightarrow> setting_ok W \<and> (\<forall>v \<in> set (ps_consts p). val_ok (w_deci W) ([] :: func heap) v) \<and> glob W p \<and>
     (\<forall>t \<in> set (scopes p). table_ok t)"

definition lexing :: "setting \<Rightarrow> parser \<Rightarrow> bool" where
  "lexing W p \<longleftrightarrow> lex_inv (ps_lexer p) \<and> src (ps_lexer p) = w_src W \<and> lexeme_ok (w_src W) (ps_cur p) \<and>
     cur_kind p \<noteq> LK_ERROR \<and> calm (ahead p)"

text \<open>All sizes are paid for by lexemes that have been read, two units each; \<open>M\<close> is what there is in all.\<close>

definition bounded :: "int \<Rightarrow> parser \<Rightarrow> bool" where
  "bounded M p \<longleftrightarrow> 2 * int (pm p) \<le> M \<and> int (length (ps_consts p)) + 2 * int (pm p) \<le> M \<and>
     int (length (idents p)) + 2 * int (pm p) \<le> M \<and> int (length (ps_shapes p)) + 2 * int (pm p) \<le> M \<and>
     int (length (prog p)) + 2 * int (pm p) \<le> M \<and> (\<forall>t \<in> set (scopes p). int (xht_size t) + 2 * int (pm p) \<le> M)"

definition pinv :: "setting \<Rightarrow> int \<Rightarrow> parser \<Rightarrow> bool" where
  "pinv W M p \<longleftrightarrow> core W p \<and> lexing W p \<and> bounded M p"

lemma pinv_mono: "pinv W M p \<Longrightarrow> M \<le> N \<Longrightarrow> pinv W N p"
  by (fastforce simp: bounded_def pinv_def)

lemma pinv_glob [dest]: "pinv W M p \<Longrightarrow> glob W p"
  by (simp add: pinv_def core_def)

section \<open>Total correctness\<close>

definition runs :: "setting \<Rightarrow> 'a res \<Rightarrow> ('a \<Rightarrow> parser \<Rightarrow> bool) \<Rightarrow> bool" where
  "runs W r Q \<longleftrightarrow> yields r (\<lambda>(x, p). case x of Inl e \<Rightarrow> glob W p | Inr v \<Rightarrow> Q v p)"

lemma runs_ok [simp]: "runs W (ok x p) Q \<longleftrightarrow> Q x p"
  by (simp add: runs_def ok_def)

lemma runs_bind [simp]: "runs W (Option.bind m f) Q \<longleftrightarrow> yields m (\<lambda>x. runs W (f x) Q)"
  by (simp add: runs_def)

lemma runs_throw [simp]:
  "runs W (throw_error p m) Q \<longleftrightarrow> glob W p"
  "runs W (throw_error_at p m l) Q \<longleftrightarrow> glob W p"
  "runs W (throw_error_precise p m pos n) Q \<longleftrightarrow> glob W p"
  by (simp_all add: runs_def throw_error_def throw_error_at_def throw_error_precise_def)

lemma runs_andthen:
  "runs W r Q \<Longrightarrow> (\<And>x p. Q x p \<Longrightarrow> runs W (f x p) R) \<Longrightarrow> runs W (andthen r f) R"
  by (cases r; cases "the r"; cases "fst (the r)") (auto simp: runs_def)

lemma runs_conseq: "runs W r Q \<Longrightarrow> (\<And>x p. Q x p \<Longrightarrow> R x p) \<Longrightarrow> runs W r R"
  unfolding runs_def by (erule yields_conseq) (auto split: sum.splits)

lemma runs_if: "(b \<Longrightarrow> runs W r Q) \<Longrightarrow> (\<not> b \<Longrightarrow> runs W s Q) \<Longrightarrow> runs W (if b then r else s) Q"
  by simp

section \<open>Reading\<close>

text \<open>A step over a lexeme; the braces change the level of the block.\<close>

definition moves :: "parser \<Rightarrow> parser \<Rightarrow> bool" where
  "moves p p' \<longleftrightarrow> (\<exists>l x. p' = p\<lparr>ps_cur := l, ps_lexer := x\<rparr>) \<and> pm p' < pm p"

definition reads :: "parser \<Rightarrow> parser \<Rightarrow> bool" where
  "reads p p' \<longleftrightarrow> moves p p' \<and> hushed p p' \<and> (cur_kind p = LK_FOR \<longrightarrow> calm (ahead p) \<longrightarrow> silent p')"

definition enters :: "parser \<Rightarrow> parser \<Rightarrow> bool" where
  "enters p p' \<longleftrightarrow> moves p p' \<and> (\<forall>n. no_fun n p \<longrightarrow> no_fun (Suc n) p')"

definition leaves :: "parser \<Rightarrow> parser \<Rightarrow> bool" where
  "leaves p p' \<longleftrightarrow> moves p p' \<and> (\<forall>n. no_fun (Suc n) p \<longrightarrow> no_fun n p')"

definition steps_over :: "parser \<Rightarrow> parser \<Rightarrow> bool" where
  "steps_over p p' \<longleftrightarrow> (if cur_kind p = LK_LBRACE then enters p p' else if cur_kind p = LK_RBRACE then leaves p p' else reads p p')"

lemma core_reads: "core W (p\<lparr>ps_cur := l, ps_lexer := x\<rparr>) = core W p"
  by (simp add: core_def glob_def)

lemma advance_core:
  assumes core: "core W p" and x: "lex_inv (ps_lexer p)" "src (ps_lexer p) = w_src W" and k: "cur_kind p \<noteq> LK_EOF"
    and calm: "calm (ahead p)" and b: "bounded M p"
  shows "runs W (advance p) (\<lambda>_ p'. pinv W (M - 2) p' \<and> steps_over p p')"
proof -
  obtain l x' where nx: "lexer_next (ps_lexer p) = Some (l, x')" and ok: "next_ok (ps_lexer p) (l, x')"
    using lexer_next_ok [OF x(1)] by (auto simp: yields_iff_ex)
  let ?p = "p\<lparr>ps_cur := l, ps_lexer := x'\<rparr>"
  have x': "lex_inv x'" "src x' = w_src W" "lexeme_ok (w_src W) l" using ok x(2) by (auto simp: next_ok_def Lexer.step_ok_def)
  have glob: "glob W p" using core by (simp add: core_def)
  show ?thesis
  proof (cases "lk_kind l = LK_ERROR")
    case True
    then have "lexer_error_msg x' \<noteq> None" using ok by (simp add: next_ok_def lexer_error_msg_def)
    then show ?thesis using nx True glob by (auto simp: advance_def glob_def)
  next
    case False
    have ah: "ahead p = cur_kind p # ahead ?p" using rest_kinds_next [OF x(1) nx] k by (simp add: ahead_def)
    have pm: "pm ?p < pm p" using ok k by (auto simp: pm_def next_ok_def)
    then have "bounded (M - 2) ?p" using b by (fastforce simp: bounded_def)
    moreover have "lexing W ?p" using x' False calm ah by (simp add: lexing_def)
    moreover have "moves p ?p" using pm unfolding moves_def by blast
    then have "steps_over p ?p"
      using ah by (auto simp: steps_over_def reads_def enters_def leaves_def hushed_def silent_def no_fun_def intro: exI [of _ 0])
    ultimately show ?thesis using nx False core by (simp add: advance_def pinv_def core_reads)
  qed
qed

text \<open>A lexeme that is no brace.\<close>

abbreviation inner :: "lexeme_kind \<Rightarrow> bool" where
  "inner k \<equiv> k \<notin> {LK_EOF, LK_LBRACE, LK_RBRACE}"

lemma advance_steps:
  assumes "pinv W M p" and "cur_kind p \<noteq> LK_EOF"
  shows "runs W (advance p) (\<lambda>_ p'. pinv W (M - 2) p' \<and> steps_over p p')"
  using advance_core [of W p M] assms by (simp add: pinv_def lexing_def)

lemma advance_ok:
  assumes "pinv W M p" and "inner (cur_kind p)"
  shows "runs W (advance p) (\<lambda>_ p'. pinv W (M - 2) p' \<and> reads p p')"
  using advance_steps [OF assms(1)] assms(2) by (simp add: steps_over_def)

lemma advance_enters:
  assumes "pinv W M p" and "cur_kind p = LK_LBRACE"
  shows "runs W (advance p) (\<lambda>_ p'. pinv W (M - 2) p' \<and> enters p p')"
  using advance_steps [OF assms(1)] assms(2) by (simp add: steps_over_def)

lemma advance_leaves:
  assumes "pinv W M p" and "cur_kind p = LK_RBRACE"
  shows "runs W (advance p) (\<lambda>_ p'. pinv W (M - 2) p' \<and> leaves p p')"
  using advance_steps [OF assms(1)] assms(2) by (simp add: steps_over_def)

lemma slurp_ok:
  assumes "pinv W M p" and "inner k"
  shows "runs W (slurp p k msg) (\<lambda>_ p'. pinv W (M - 2) p' \<and> reads p p' \<and> cur_kind p = k)"
  unfolding slurp_def
  by (rule runs_if) (use assms in \<open>auto simp: pinv_def core_def intro!: runs_conseq [OF advance_ok [OF assms(1)]]\<close>)

lemma moves_pm: "moves p p' \<Longrightarrow> pm p' < pm p"
  by (simp add: moves_def)

section \<open>Emitting code\<close>

definition lims :: "nat \<Rightarrow> parser \<Rightarrow> limits" where
  "lims c p = \<lparr>k_own = c, k_consts = ps_consts p, k_idents = length (idents p),
     k_locals = (if scopes p = [] then 0 else xht_size (last (scopes p))), k_globals = length (g_data (ps_globals p)),
     k_shapes = ps_shapes p\<rparr>"

text \<open>Everything but the lexer, the lists of constants and names, and the end of the code is as it was.\<close>

definition emits :: "parser \<Rightarrow> instr list \<Rightarrow> parser \<Rightarrow> bool" where
  "emits p is p' \<longleftrightarrow> ps_globals p' = ps_globals p \<and> ps_shapes p' = ps_shapes p \<and> scopes p' = scopes p \<and>
     ranges p' = ranges p \<and> s_if p' = s_if p \<and> s_break p' = s_break p \<and> s_continue p' = s_continue p \<and>
     prefix (ps_consts p) (ps_consts p') \<and> prefix (idents p) (idents p') \<and>
     (\<exists>ts. prog p' = prog p @ ts \<and> map ti_instr ts = is) \<and> hushed p p' \<and> pm p' \<le> pm p"

lemma emits_refl [simp]: "emits p [] p" by (simp add: emits_def)

lemma emits_trans [trans]: "emits p is q \<Longrightarrow> emits q js r \<Longrightarrow> emits p (is @ js) r"
  by (force simp: emits_def intro: prefix_order.trans hushed_trans)

lemma emits_trans0: "emits p [] q \<Longrightarrow> emits q js r \<Longrightarrow> emits p js r"
  using emits_trans [of p "[]" q js r] by simp

lemma emits_grows: "emits p is p' \<Longrightarrow> grows (lims c p) (lims c p')"
  by (auto simp: emits_def grows_def lims_def prefix_length_le)

lemma reads_emits: "reads p p' \<Longrightarrow> emits p [] p'"
  by (auto simp: reads_def moves_def emits_def)

lemma reads_pm: "reads p p' \<Longrightarrow> pm p' < pm p"
  by (simp add: reads_def moves_def)

lemma leaves_lims: "leaves r s \<Longrightarrow> lims c s = lims c r"
  by (auto simp: leaves_def moves_def lims_def)

text \<open>What is emitted between two braces.\<close>

lemma emits_braces:
  assumes "enters p q" and "emits q is r" and "leaves r s"
  shows "emits p is s"
  using assms by (auto simp: enters_def leaves_def moves_def emits_def hushed_def)

lemma pm_emit [simp]: "pm (emit_at p ins lx) = pm p" "pm (emit p ins) = pm p"
  by (simp_all add: emit_at_def emit_def emit_at_line_def pm_def)

lemma emits_emit: "emits p [ins] (emit_at p ins lx)" "emits p [ins] (emit p ins)"
  by (simp_all add: emits_def emit_at_def emit_def emit_at_line_def hushed_def no_fun_def ahead_def pm_def)

lemma pinv_emit:
  assumes "pinv W M p"
  shows "pinv W (M + 1) (emit_at p ins lx)" and "pinv W (M + 1) (emit p ins)"
  using assms by (fastforce simp: pinv_def core_def glob_def lexing_def bounded_def emit_at_def emit_def emit_at_line_def ahead_def pm_def)+

text \<open>The values that may be constants need no heap.\<close>

lemma add_const_ok:
  assumes p: "pinv W M p" and v: "val_ok (w_deci W) ([] :: func heap) v" and M: "M \<le> 2 ^ 30"
  shows "runs W (add_const_steal p v) (\<lambda>i p'. pinv W (M + 1) p' \<and> emits p [] p' \<and> pm p' = pm p \<and> i \<le> UINT32_MAX \<and> i < length (ps_consts p') \<and> ps_cur p' = ps_cur p)"
proof -
  have n: "length (ps_consts p) \<le> 2 ^ 30" using p M by (simp add: pinv_def bounded_def)
  then have "length (ps_consts p) mod 2 ^ 32 = length (ps_consts p)" by simp
  moreover have "core W (p\<lparr>ps_consts := ps_consts p @ [v]\<rparr>)" using p v by (auto simp: pinv_def core_def glob_def)
  then have "pinv W (M + 1) (p\<lparr>ps_consts := ps_consts p @ [v]\<rparr>)"
    using p by (fastforce simp: pinv_def lexing_def bounded_def ahead_def pm_def)
  ultimately show ?thesis using n
    by (simp add: add_const_steal_def Let_def UINT32_MAX_def emits_def hushed_def no_fun_def ahead_def pm_def)
qed

lemma load_ok:
  assumes p: "pinv W M p" and M: "M \<le> 2 ^ 30"
  shows "runs W (load p l) (\<lambda>ins p'. pinv W (M + 1) p' \<and> emits p [] p' \<and> pm p' = pm p \<and> opcode ins = OP_LOAD_SYMBOLIC \<and>
    unat (in_c ins) < length (idents p') \<and> idents p' ! unat (in_c ins) = lexeme_text p l \<and> ps_cur p' = ps_cur p)"
proof -
  have n: "length (idents p) \<le> 2 ^ 30" using p M by (simp add: pinv_def bounded_def)
  then have "length (idents p) mod 2 ^ 32 = length (idents p)" "unat (of_nat (length (idents p)) :: 32 word) = length (idents p)"
    by (simp_all add: unat_of_nat take_bit_nat_eq_self)
  moreover have "core W (p\<lparr>idents := idents p @ [lexeme_text p l]\<rparr>)" using p by (auto simp: pinv_def core_def glob_def)
  then have "pinv W (M + 1) (p\<lparr>idents := idents p @ [lexeme_text p l]\<rparr>)"
    using p by (fastforce simp: pinv_def lexing_def bounded_def ahead_def pm_def)
  ultimately show ?thesis using n
    by (simp add: load_def Let_def UINT32_MAX_def emits_def hushed_def no_fun_def ahead_def pm_def mk_instr_def)
qed

lemma mk_instr_simps [simp]:
  "opcode (mk_instr op a c) = op" "in_a (mk_instr op a c) = a" "in_c (mk_instr op a c) = of_nat c"
  by (simp_all add: mk_instr_def)

lemma unat_small: "c < 2 ^ 32 \<Longrightarrow> unat (of_nat c :: 32 word) = c"
  by (simp add: unat_of_nat take_bit_nat_eq_self)

lemma pure_one:
  assumes "pure_ins K ins" and "effect ins = (p, 1)" and "p \<le> h"
  shows "pure K h [ins] (Suc h - p)"
  using assms by (simp add: after_def)

section \<open>Constants\<close>

lemma number_lexeme: "lexeme_ok S l \<Longrightarrow> lk_kind l = LK_NUMBER \<Longrightarrow>
  number_parse_base_validate (take (lk_size l) (drop (lk_start l) S)) 10"
  by (auto simp: lexeme_ok_def number_ok_def Let_def split: if_splits)

lemma string_lexeme: "lexeme_ok S l \<Longrightarrow> lk_kind l = LK_STRING \<Longrightarrow>
  \<exists>body. take (lk_size l) (drop (lk_start l) S) = CHR 0x22 # body @ [CHR 0x22] \<and> string_body body"
  by (auto simp: lexeme_ok_def Let_def split: if_splits)

lemma pinv_text: "pinv W M p \<Longrightarrow> lexeme_text p l = take (lk_size l) (drop (lk_start l) (w_src W))"
  by (simp add: lexeme_text_def pinv_def lexing_def)

abbreviation const_ok :: "setting \<Rightarrow> int \<Rightarrow> parser \<Rightarrow> nat res \<Rightarrow> bool" where
  "const_ok W M p r \<equiv> runs W r
     (\<lambda>i p'. pinv W (M + 1) p' \<and> emits p [] p' \<and> pm p' = pm p \<and> i \<le> UINT32_MAX \<and> i < length (ps_consts p') \<and> ps_cur p' = ps_cur p)"

lemma add_number_const_ok:
  assumes p: "pinv W M p" and k: "cur_kind p = LK_NUMBER" and M: "M \<le> 2 ^ 30"
  shows "const_ok W M p (add_number_const (w_deci W) p (ps_cur p))"
proof -
  let ?t = "lexeme_text p (ps_cur p)"
  have w: "deci_ok (w_deci W)" "fits (w_deci W) (length ?t)"
    using p fits_mono [of "w_deci W" "length (w_src W)" "length ?t"] by (simp_all add: pinv_def core_def setting_ok_def lexeme_text_def lexing_def)
  have "number_parse_base_validate ?t 10"
    using p k number_lexeme [of "w_src W" "ps_cur p"] by (simp add: pinv_text) (simp add: pinv_def lexing_def)
  from number_parse_yields [OF w(1) this w(2)] show ?thesis
    by (auto simp: add_number_const_def elim!: yields_conseq intro!: add_const_ok [OF p _ M])
qed

lemma add_string_const_ok:
  assumes p: "pinv W M p" and k: "cur_kind p = LK_STRING" and M: "M \<le> 2 ^ 30"
  shows "const_ok W M p (add_string_const p (ps_cur p))"
proof -
  obtain body where b: "lexeme_text p (ps_cur p) = CHR 0x22 # body @ [CHR 0x22]" "string_body body"
    using p k string_lexeme [of "w_src W" "ps_cur p"] by (auto simp: pinv_text) (auto simp: pinv_def lexing_def)
  have "length (lexeme_text p (ps_cur p)) \<le> 2 ^ 26" using p unfolding pinv_text [OF p] by (auto simp: pinv_def core_def setting_ok_def)
  then have "yields (string_value (lexeme_text p (ps_cur p))) (\<lambda>r. case r of Inl n \<Rightarrow> True | Inr w \<Rightarrow> str_good w)"
    by (intro string_value_yields [OF b]) (simp add: b(1) SIZEOF_STRING_def SIZE_MAX_def)
  then show ?thesis
    using p by (auto simp: add_string_const_def elim!: yields_conseq split: sum.splits intro!: add_const_ok [OF p _ M])
qed

lemma string_new_good: "2 * length x + SIZEOF_STRING \<le> SIZE_MAX \<Longrightarrow> yields (string_new x) str_good"
  unfolding string_new_def by (rule yields_conseq [OF string_new_with_capacity_yields]) (auto simp: str_good_def)

end
