(* ===== verification/Parser_Expr_Types.thy ===== *)
theory Parser_Expr_Types
  imports Parser_Inv
begin

text \<open>
  Expressions compile to straight-line code that leaves one value: total correctness of \<open>expr\<close> and of the
  functions it calls, by induction on the fuel, of which the number of lexemes to come is enough.
\<close>

section \<open>Code that changes the height of the stack\<close>

definition does :: "parser \<Rightarrow> nat \<Rightarrow> nat \<Rightarrow> parser \<Rightarrow> bool" where
  "does p a b p' \<longleftrightarrow> (\<exists>is. emits p is p' \<and> (\<forall>c. pure (lims c p') a is b))"

lemma does_skip: "emits p [] p' \<Longrightarrow> does p a a p'"
  by (auto simp: does_def)

lemma does_trans [trans]:
  assumes "does p a b q" and "does q b d r"
  shows "does p a d r"
proof -
  obtain "is" js where "emits p is q" "\<forall>c. pure (lims c q) a is b" "emits q js r" "\<forall>c. pure (lims c r) b js d"
    using assms by (auto simp: does_def)
  then have "emits p (is @ js) r \<and> (\<forall>c. pure (lims c r) a (is @ js) d)"
    using emits_trans pure_grows [OF emits_grows] by (fastforce simp: pure_append)
  then show ?thesis unfolding does_def by blast
qed

lemma does_lift: "does p a b p' \<Longrightarrow> does p (a + k) (b + k) p'"
  by (auto simp: does_def pure_lift)

lemma does_reads: "reads p q \<Longrightarrow> does q a b r \<Longrightarrow> does p a b r"
  using does_trans [OF does_skip [OF reads_emits]] .

lemma does_then_reads: "does p a b q \<Longrightarrow> reads q r \<Longrightarrow> does p a b r"
  using does_trans [OF _ does_skip [OF reads_emits]] .

lemma does_braces: "enters p q \<Longrightarrow> does q a b r \<Longrightarrow> leaves r s \<Longrightarrow> does p a b s"
  using emits_braces leaves_lims by (fastforce simp: does_def)

lemma does_emit:
  assumes "\<And>c. pure_ins (lims c p) ins" and "effect ins = (n, 1)" and "n \<le> a"
  shows "does p a (Suc a - n) (emit_at p ins lx)"
proof -
  have "grows (lims c p) (lims c (emit_at p ins lx))" for c by (rule emits_grows [OF emits_emit(1)])
  then have "pure (lims c (emit_at p ins lx)) a [ins] (Suc a - n)" for c
    using assms pure_ins_grows by (intro pure_one) blast+
  then show ?thesis using emits_emit(1) unfolding does_def by blast
qed

lemma aop_code: "aop_of_code (code_of_aop a) = Some a"
  by (cases a) (simp_all add: aop_of_code_def code_of_aop_def all_aops_def)

lemma pure_ins_simps:
  "i \<le> UINT32_MAX \<Longrightarrow> pure_ins K (mk_instr OP_LOAD_CONST 0 i) \<longleftrightarrow> i < length (k_consts K)"
  "pure_ins K (mk_instr OP_LOAD_AT 0 0)" "pure_ins K (mk_instr OP_NEG 0 0)" "pure_ins K (mk_instr OP_NOT 0 0)"
  "pure_ins K (mk_instr OP_LEN 0 0)" "pure_ins K (mk_instr OP_AOP (code_of_aop a) 0)" "pure_ins K (mk_instr OP_CMP_2WAY b 0)"
  "pure_ins K (mk_instr OP_CMP_3WAY b 0) \<longleftrightarrow> cmp_repr b \<noteq> None" "pure_ins K (mk_instr OP_LIST 0 i)" "pure_ins K (mk_instr OP_DICT 0 i)"
  "i \<le> UINT32_MAX \<Longrightarrow> pure_ins K (mk_instr OP_CALL b i) \<longleftrightarrow> (b \<noteq> 0 \<longrightarrow> i \<noteq> 0)"
  by (simp_all add: pure_ins_def raw_ok.simps UINT32_MAX_def unat_small aop_code)

lemma effect_simps:
  "effect (mk_instr OP_LOAD_CONST a i) = (0, 1)" "effect (mk_instr OP_LOAD_AT a i) = (2, 1)" "effect (mk_instr OP_NEG a i) = (1, 1)"
  "effect (mk_instr OP_NOT a i) = (1, 1)" "effect (mk_instr OP_LEN a i) = (1, 1)" "effect (mk_instr OP_AOP a i) = (2, 1)"
  "effect (mk_instr OP_CMP_2WAY a i) = (2, 1)" "effect (mk_instr OP_CMP_3WAY a i) = (2, 1)"
  "i \<le> UINT32_MAX \<Longrightarrow> effect (mk_instr OP_LIST a i) = (i, 1)" "i \<le> UINT32_MAX \<Longrightarrow> effect (mk_instr OP_DICT a i) = (2 * i, 1)"
  "i \<le> UINT32_MAX \<Longrightarrow> effect (mk_instr OP_CALL a i) = (i + 1, 1)"
  by (simp_all add: effect.simps UINT32_MAX_def unat_small)

lemma lims_consts [simp]: "k_consts (lims c p) = ps_consts p" "k_idents (lims c p) = length (idents p)" "k_own (lims c p) = c"
  "k_shapes (lims c p) = ps_shapes p" "k_globals (lims c p) = length (g_data (ps_globals p))"
  by (simp_all add: lims_def)

section \<open>The specification of \<open>expr\<close>\<close>

definition post :: "setting \<Rightarrow> int \<Rightarrow> nat \<Rightarrow> nat \<Rightarrow> parser \<Rightarrow> parser \<Rightarrow> bool" where
  "post W M a b p p' \<longleftrightarrow> pinv W M p' \<and> pm p' < pm p \<and> does p a b p'"

definition expr_spec :: "setting \<Rightarrow> (int \<Rightarrow> parser \<Rightarrow> unit res) \<Rightarrow> nat \<Rightarrow> bool" where
  "expr_spec W ex m \<longleftrightarrow> (\<forall>M q p. M \<le> 2 ^ 29 \<longrightarrow> pinv W M p \<longrightarrow> pm p < m \<longrightarrow> runs W (ex q p) (\<lambda>_. post W M 0 1 p))"

lemma expr_specD:
  "expr_spec W ex m \<Longrightarrow> M \<le> 2 ^ 29 \<Longrightarrow> pinv W M p \<Longrightarrow> pm p < m \<Longrightarrow> runs W (ex q p) (\<lambda>_. post W M 0 1 p)"
  by (simp add: expr_spec_def)

lemma unary_table_cases:
  assumes "unary_table k = Some (op, q)"
  shows "inner k" and "pure_ins K (mk_instr op 0 0)" and "effect (mk_instr op 0 0) = (1, 1)"
  using assms by (auto simp: unary_table_def pure_ins_simps effect_simps split: if_splits)

lemma binary_table_cases:
  assumes "binary_table k = Some (op, a, q, l)"
  shows "inner k" and "pure_ins K (mk_instr op a 0)" and "effect (mk_instr op a 0) = (2, 1)"
proof -
  have c: "cmp_repr COMPARE_GREATER \<noteq> None" "cmp_repr COMPARE_LESS \<noteq> None" "cmp_repr (COMPARE_GREATER OR COMPARE_EQ) \<noteq> None"
    "cmp_repr (COMPARE_LESS OR COMPARE_EQ) \<noteq> None"
    by (simp_all add: cmp_repr_def COMPARE_GREATER_def COMPARE_LESS_def COMPARE_EQ_def)
  show "inner k" "pure_ins K (mk_instr op a 0)" "effect (mk_instr op a 0) = (2, 1)"
    using assms c unfolding binary_table_def Let_def
    by (auto simp only: option.inject prod.inject option.distinct pure_ins_simps effect_simps lexeme_kind.distinct split: if_splits)
qed

lemma unary_operator_ok:
  assumes ex: "expr_spec W ex m" and M: "M \<le> 2 ^ 29" and p: "pinv W M p" "pm p \<le> m"
  shows "runs W (unary_operator ex p) (\<lambda>_. post W M 0 1 p)"
proof (cases "unary_table (cur_kind p)")
  case None
  with p show ?thesis by (auto simp: unary_operator_def)
next
  case (Some e)
  obtain op q where e: "e = (op, q)" by (cases e)
  note u = unary_table_cases [OF Some [unfolded e]]
  have "runs W (andthen (advance p) (\<lambda>_ p'. andthen (ex q p') (\<lambda>_ p'. ok () (emit_at p' (mk_instr op 0 0) (ps_cur p)))))
      (\<lambda>_. post W M 0 1 p)"
  proof (rule runs_andthen [OF advance_ok [OF p(1) u(1)]], elim conjE)
    fix p1 assume p1: "pinv W (M - 2) p1" "reads p p1"
    have "runs W (ex q p1) (\<lambda>_. post W (M - 2) 0 1 p1)"
      using p p1 M reads_pm [OF p1(2)] by (intro expr_specD [OF ex]) simp_all
    then show "runs W (andthen (ex q p1) (\<lambda>_ p'. ok () (emit_at p' (mk_instr op 0 0) (ps_cur p)))) (\<lambda>_. post W M 0 1 p)"
    proof (rule runs_andthen)
      fix p2 assume p2: "post W (M - 2) 0 1 p1 p2"
      have "does p2 1 1 (emit_at p2 (mk_instr op 0 0) (ps_cur p))" using does_emit [OF u(2,3), of 1 p2] by simp
      then have "does p 0 1 (emit_at p2 (mk_instr op 0 0) (ps_cur p))"
        using p2 p1(2) by (auto simp: post_def intro: does_reads does_trans)
      then show "runs W (ok () (emit_at p2 (mk_instr op 0 0) (ps_cur p))) (\<lambda>_. post W M 0 1 p)"
        using p2 pinv_mono [OF pinv_emit(1), of W "M - 2" p2 M] reads_pm [OF p1(2)] by (auto simp: post_def)
    qed
  qed
  then show ?thesis by (simp add: unary_operator_def Some e Let_def)
qed

section \<open>Rules for the steps\<close>

lemma advance_then:
  assumes "pinv W M p" and "inner (cur_kind p)" and "\<And>p'. pinv W (M - 2) p' \<Longrightarrow> reads p p' \<Longrightarrow> runs W (f () p') Q"
  shows "runs W (andthen (advance p) f) Q"
  using assms(3) by (intro runs_andthen [OF advance_ok [OF assms(1,2)]]) simp

lemma slurp_then:
  assumes "pinv W M p" and "inner k" and "\<And>p'. pinv W (M - 2) p' \<Longrightarrow> reads p p' \<Longrightarrow> cur_kind p = k \<Longrightarrow> runs W (f () p') Q"
  shows "runs W (andthen (slurp p k msg) f) Q"
  using assms(3) by (intro runs_andthen [OF slurp_ok [OF assms(1,2)]]) simp

lemma expr_then:
  assumes "expr_spec W ex m" and "M \<le> 2 ^ 29" and "pinv W M p" and "pm p < m"
    and "\<And>p'. post W M 0 1 p p' \<Longrightarrow> runs W (f () p') Q"
  shows "runs W (andthen (ex q p) f) Q"
  using assms(5) by (intro runs_andthen [OF expr_specD [OF assms(1-4)]]) simp

lemma post_reads: "reads p q \<Longrightarrow> post W M a b q r \<Longrightarrow> post W M a b p r"
  by (auto simp: post_def dest: reads_pm intro: does_reads)

lemma post_then_reads: "post W M a b p q \<Longrightarrow> pinv W N r \<Longrightarrow> reads q r \<Longrightarrow> post W N a b p r"
  by (auto simp: post_def dest: reads_pm intro: does_then_reads)

lemma post_read: "pinv W M q \<Longrightarrow> reads p q \<Longrightarrow> post W M a a p q"
  by (simp add: post_def reads_pm does_skip reads_emits)

text \<open>The end of a part between braces, where the closing brace has been read.\<close>

definition closed_post :: "setting \<Rightarrow> int \<Rightarrow> nat \<Rightarrow> nat \<Rightarrow> parser \<Rightarrow> parser \<Rightarrow> bool" where
  "closed_post W M a b p p' \<longleftrightarrow> pinv W M p' \<and> (\<exists>q. pm q \<le> pm p \<and> does p a b q \<and> leaves q p')"

lemma leaves_pm: "leaves p q \<Longrightarrow> pm q < pm p" "enters p q \<Longrightarrow> pm q < pm p"
  by (simp_all add: leaves_def enters_def moves_pm)

lemma post_braces: "enters p q \<Longrightarrow> closed_post W M a b q r \<Longrightarrow> post W M a b p r"
  by (fastforce simp: closed_post_def post_def dest: leaves_pm intro: does_braces)

lemma closed_post_before: "post W N a b p q \<Longrightarrow> closed_post W M b d q r \<Longrightarrow> closed_post W M a d p r"
  unfolding closed_post_def post_def using does_trans by (meson less_imp_le order_trans)

lemma advance_closed:
  assumes "pinv W M q" and "cur_kind q = LK_RBRACE" and "does p a b q" and "pm q \<le> pm p" and "M \<le> N + 2"
  shows "runs W (andthen (advance q) (\<lambda>_. ok x)) (\<lambda>r p'. r = x \<and> closed_post W N a b p p')"
  by (rule runs_andthen [OF advance_leaves [OF assms(1,2)]])
    (use assms(3-5) pinv_mono [of W "M - 2" _ N] in \<open>auto simp: closed_post_def\<close>)

lemma post_mono: "post W M a b p q \<Longrightarrow> M \<le> N \<Longrightarrow> post W N a b p q"
  by (auto simp: post_def intro: pinv_mono)

lemma post_trans: "post W M a b p q \<Longrightarrow> post W N b d q r \<Longrightarrow> post W N a d p r"
  by (auto simp: post_def intro: does_trans)

lemma post_lift: "post W M a b p q \<Longrightarrow> post W M (a + k) (b + k) p q"
  by (simp add: post_def does_lift)

lemma post_pinv [dest]: "post W M a b p q \<Longrightarrow> pinv W M q"
  by (simp add: post_def)

lemma post_pm: "post W M a b p q \<Longrightarrow> pm q < pm p"
  by (simp add: post_def)

lemma post_emit:
  assumes p: "post W M a b p q" and ins: "\<And>c. pure_ins (lims c q) ins" "effect ins = (n, 1)" "n \<le> b" and d: "d = Suc b - n"
  shows "post W (M + 1) a d p (emit_at q ins lx)"
  using p pinv_emit(1) [of W M q] does_trans [OF _ does_emit [OF ins], of p a lx] d by (auto simp: post_def)

lemma binary_operator_ok:
  assumes ex: "expr_spec W ex m" and M: "M \<le> 2 ^ 29" and p: "pinv W M p" "pm p \<le> m"
  shows "runs W (binary_operator ex q p) (\<lambda>more p'. if more then post W M 1 1 p p' else p' = p)"
proof (cases "binary_table (cur_kind p)")
  case None
  with p show ?thesis by (auto simp: binary_operator_def)
next
  case (Some e)
  obtain op a r l where e: "e = (op, a, r, l)" by (cases e)
  note u = binary_table_cases [OF Some [unfolded e]]
  have "runs W (andthen (advance p) (\<lambda>_ p'. andthen (ex (r + l) p') (\<lambda>_ p'. ok True (emit_at p' (mk_instr op a 0) (ps_cur p)))))
      (\<lambda>more p'. if more then post W M 1 1 p p' else p' = p)"
  proof (rule advance_then [OF p(1) u(1)], rule expr_then [OF ex])
    fix p1 p2 assume p1: "reads p p1" and p2: "post W (M - 2) 0 1 p1 p2"
    have "post W (M - 2) 1 2 p p2" using post_lift [OF post_reads [OF p1 p2], of 1] by (simp add: numeral_2_eq_2)
    from post_mono [OF post_emit [OF this u(2,3), of 1], of M]
    show "runs W (ok True (emit_at p2 (mk_instr op a 0) (ps_cur p))) (\<lambda>more p'. if more then post W M 1 1 p p' else p' = p)" by simp
  qed (use p M reads_pm in \<open>fastforce+\<close>)
  then show ?thesis by (simp add: binary_operator_def Some e Let_def)
qed

section \<open>Calls, lists and dictionaries\<close>

lemma newlist_loop_ok:
  assumes ex: "expr_spec W ex m" and M: "M \<le> 2 ^ 29"
  shows "pinv W M p \<Longrightarrow> pm p < m \<Longrightarrow> pm p < k \<Longrightarrow> n \<le> UINT32_MAX \<Longrightarrow> 1 \<le> n \<Longrightarrow>
    runs W (newlist_loop ex k n p) (\<lambda>r p'. post W M (n - 1) r p p' \<and> r \<le> UINT32_MAX)"
proof (induction k arbitrary: n p)
  case (Suc k)
  show ?case
    unfolding newlist_loop.simps
  proof (rule expr_then [OF ex M Suc.prems(1,2)])
    fix p1 assume "post W M 0 1 p p1"
    from post_lift [OF this, of "n - 1"] have p1: "post W M (n - 1) n p p1" using Suc.prems(5) by simp
    have inv: "pinv W M p1" using p1 by blast
    show "runs W (if cur_kind p1 = LK_RBRACKET then andthen (advance p1) (\<lambda>_. ok n)
        else if cur_kind p1 = LK_COMMA then andthen (advance p1) (\<lambda>_ p.
            if n = UINT32_MAX then throw_error_at p ''too many list elements'' (ps_cur p) else newlist_loop ex k (n + 1) p)
        else throw_error_at p1 (''expected '' @ quoted '','' @ '' or '' @ quoted '']'') (ps_cur p1))
      (\<lambda>r p'. post W M (n - 1) r p p' \<and> r \<le> UINT32_MAX)"
    proof (intro runs_if)
      assume "cur_kind p1 = LK_RBRACKET"
      then show "runs W (andthen (advance p1) (\<lambda>_. ok n)) (\<lambda>r p'. post W M (n - 1) r p p' \<and> r \<le> UINT32_MAX)"
        using post_then_reads [OF p1 pinv_mono] Suc.prems(4) by (intro advance_then [OF inv]) auto
    next
      assume "cur_kind p1 = LK_COMMA"
      then show "runs W (andthen (advance p1) (\<lambda>_ p.
            if n = UINT32_MAX then throw_error_at p ''too many list elements'' (ps_cur p) else newlist_loop ex k (n + 1) p))
          (\<lambda>r p'. post W M (n - 1) r p p' \<and> r \<le> UINT32_MAX)"
      proof (intro advance_then [OF inv] runs_if)
        fix p2 assume p2: "pinv W (M - 2) p2" "reads p1 p2" and n: "n \<noteq> UINT32_MAX"
        have p2': "post W M (n - 1) n p p2" using post_then_reads [OF p1 pinv_mono [OF p2(1)] p2(2)] by simp
        have "runs W (newlist_loop ex k (n + 1) p2) (\<lambda>r p'. post W M (n + 1 - 1) r p2 p' \<and> r \<le> UINT32_MAX)"
          using pinv_mono [OF p2(1), of M] Suc.prems post_pm [OF p2'] n by (intro Suc.IH) simp_all
        then show "runs W (newlist_loop ex k (n + 1) p2) (\<lambda>r p'. post W M (n - 1) r p p' \<and> r \<le> UINT32_MAX)"
          by (rule runs_conseq) (use post_trans [OF p2'] in auto)
      qed auto
    qed (use inv in auto)
  qed
qed simp

lemma newlist_ok:
  assumes ex: "expr_spec W ex m" and M: "M \<le> 2 ^ 29" and p: "pinv W M p" "pm p \<le> m" "pm p \<le> k" "inner (cur_kind p)"
  shows "runs W (newlist ex k p) (\<lambda>r p'. post W (M - 2) 0 r p p' \<and> r \<le> UINT32_MAX)"
  unfolding newlist_def
proof (intro advance_then [OF p(1,4)] runs_if)
  fix p1 assume p1: "pinv W (M - 2) p1" "reads p p1"
  {
    assume "cur_kind p1 = LK_RBRACKET"
    then show "runs W (andthen (advance p1) (\<lambda>_. ok 0)) (\<lambda>r p'. post W (M - 2) 0 r p p' \<and> r \<le> UINT32_MAX)"
      using post_then_reads [OF post_read [OF p1] pinv_mono] by (intro advance_then [OF p1(1)]) auto
  next
    have "runs W (newlist_loop ex k 1 p1) (\<lambda>r p'. post W (M - 2) (1 - 1) r p1 p' \<and> r \<le> UINT32_MAX)"
      using M p reads_pm [OF p1(2)] by (intro newlist_loop_ok [OF ex _ p1(1)]) (simp_all add: UINT32_MAX_def)
    then show "runs W (newlist_loop ex k 1 p1) (\<lambda>r p'. post W (M - 2) 0 r p p' \<and> r \<le> UINT32_MAX)"
      by (rule runs_conseq) (use post_reads [OF p1(2)] in auto)
  }
qed

lemma newdict_loop_ok:
  assumes ex: "expr_spec W ex m" and M: "M \<le> 2 ^ 29"
  shows "pinv W M p \<Longrightarrow> pm p < m \<Longrightarrow> pm p < k \<Longrightarrow> n \<le> UINT32_MAX \<Longrightarrow> 1 \<le> n \<Longrightarrow>
    runs W (newdict_loop ex k n p) (\<lambda>r p'. closed_post W M (2 * (n - 1)) (2 * r) p p' \<and> r \<le> UINT32_MAX)"
proof (induction k arbitrary: n p)
  case (Suc k)
  let ?Q = "\<lambda>r p'. closed_post W M (2 * (n - 1)) (2 * r) p p' \<and> r \<le> UINT32_MAX"
  show ?case
    unfolding newdict_loop.simps
  proof (rule expr_then [OF ex M Suc.prems(1,2)], rule slurp_then, blast, simp, rule expr_then [OF ex])
    fix p1 p2 p3
    assume p1: "post W M 0 1 p p1" and p2: "pinv W (M - 2) p2" "reads p1 p2" and p3: "post W (M - 2) 0 1 p2 p3"
    have "post W M (2 * (n - 1)) (2 * n - 1) p p1" using post_lift [OF p1, of "2 * (n - 1)"] Suc.prems(5) by (cases n) simp_all
    from post_then_reads [OF this p2] have "post W (M - 2) (2 * (n - 1)) (2 * n - 1) p p2" .
    moreover have "post W (M - 2) (2 * n - 1) (2 * n) p2 p3" using post_lift [OF p3, of "2 * n - 1"] Suc.prems(5) by simp
    ultimately have p3: "post W M (2 * (n - 1)) (2 * n) p p3" by (auto intro: post_trans post_mono)
    have inv: "pinv W M p3" using p3 by blast
    show "runs W (if cur_kind p3 = LK_RBRACE then andthen (advance p3) (\<lambda>_. ok n)
        else if cur_kind p3 = LK_COMMA then andthen (advance p3) (\<lambda>_ p.
            if n = UINT32_MAX then throw_error_at p ''too many dict entries'' (ps_cur p) else newdict_loop ex k (n + 1) p)
        else throw_error_at p3 (''expected '' @ quoted '','' @ '' or '' @ quoted ''}'') (ps_cur p3)) ?Q"
    proof (intro runs_if)
      assume brace: "cur_kind p3 = LK_RBRACE"
      show "runs W (andthen (advance p3) (\<lambda>_. ok n)) ?Q"
        by (rule runs_conseq [OF advance_closed [OF inv brace, where N = M]]) (use p3 Suc.prems(4) in \<open>auto simp: post_def\<close>)
    next
      assume "cur_kind p3 = LK_COMMA"
      then show "runs W (andthen (advance p3) (\<lambda>_ p.
            if n = UINT32_MAX then throw_error_at p ''too many dict entries'' (ps_cur p) else newdict_loop ex k (n + 1) p)) ?Q"
      proof (intro advance_then [OF inv] runs_if)
        fix p4 assume p4: "pinv W (M - 2) p4" "reads p3 p4" and n: "n \<noteq> UINT32_MAX"
        have p4': "post W M (2 * (n - 1)) (2 * n) p p4" using post_then_reads [OF p3 pinv_mono [OF p4(1)] p4(2)] by simp
        have "runs W (newdict_loop ex k (n + 1) p4) (\<lambda>r p'. closed_post W M (2 * (n + 1 - 1)) (2 * r) p4 p' \<and> r \<le> UINT32_MAX)"
          using pinv_mono [OF p4(1), of M] Suc.prems post_pm [OF p4'] n by (intro Suc.IH) simp_all
        then show "runs W (newdict_loop ex k (n + 1) p4) ?Q"
          by (rule runs_conseq) (use closed_post_before [OF p4'] in auto)
      qed auto
    qed (use inv in auto)
  qed (use Suc.prems M in \<open>auto dest!: post_pm reads_pm\<close>)
qed simp

lemma newdict_ok:
  assumes ex: "expr_spec W ex m" and M: "M \<le> 2 ^ 29" and p: "pinv W M p" "pm p \<le> m" "pm p \<le> k" "cur_kind p = LK_LBRACE"
  shows "runs W (newdict ex k p) (\<lambda>r p'. post W (M - 2) 0 (2 * r) p p' \<and> r \<le> UINT32_MAX)"
  unfolding newdict_def
proof (rule runs_andthen [OF advance_enters [OF p(1,4)]], elim conjE)
  fix p1 assume p1: "pinv W (M - 2) p1" "enters p p1"
  let ?Q = "\<lambda>r p'. closed_post W (M - 2) 0 (2 * r) p1 p' \<and> r \<le> UINT32_MAX"
  have "runs W (if cur_kind p1 = LK_RBRACE then andthen (advance p1) (\<lambda>_ p. ok 0 p) else newdict_loop ex k 1 p1) ?Q"
  proof (intro runs_if)
    assume "cur_kind p1 = LK_RBRACE"
    then show "runs W (andthen (advance p1) (\<lambda>_ p. ok 0 p)) ?Q"
      by (intro runs_conseq [OF advance_closed [OF p1(1)]]) (auto intro: does_skip)
  next
    have "runs W (newdict_loop ex k 1 p1) (\<lambda>r p'. closed_post W (M - 2) (2 * (1 - 1)) (2 * r) p1 p' \<and> r \<le> UINT32_MAX)"
      using M p leaves_pm(2) [OF p1(2)] by (intro newdict_loop_ok [OF ex _ p1(1)]) (simp_all add: UINT32_MAX_def)
    then show "runs W (newdict_loop ex k 1 p1) ?Q" by simp
  qed
  then show "runs W (if cur_kind p1 = LK_RBRACE then andthen (advance p1) (\<lambda>_ p. ok 0 p) else newdict_loop ex k 1 p1)
      (\<lambda>r p'. post W (M - 2) 0 (2 * r) p p' \<and> r \<le> UINT32_MAX)"
    by (rule runs_conseq) (use post_braces [OF p1(2)] in blast)
qed

text \<open>The number of arguments is not zero when the last is scattered.\<close>

lemma funcall_loop_ok:
  assumes ex: "expr_spec W ex m" and M: "M \<le> 2 ^ 29"
  shows "pinv W M p \<Longrightarrow> pm p < m \<Longrightarrow> pm p < k \<Longrightarrow> n \<le> UINT32_MAX \<Longrightarrow> 1 \<le> n \<Longrightarrow>
    runs W (funcall_loop ex k n sc p) (\<lambda>(r, _) p'. post W M n (r + 1) p p' \<and> 1 \<le> r \<and> r \<le> UINT32_MAX)"
proof (induction k arbitrary: n sc p)
  case (Suc k)
  let ?Q = "\<lambda>(r, _ :: bool) p'. post W M n (r + 1) p p' \<and> 1 \<le> r \<and> r \<le> UINT32_MAX"
  have star: "runs W (if cur_kind p = LK_STAR then andthen (advance p) (\<lambda>_. ok True) else ok sc p)
    (\<lambda>_ p'. pinv W M p' \<and> (p' = p \<or> reads p p'))"
    using Suc.prems(1) by (intro runs_if advance_then [OF Suc.prems(1)]) (auto intro: pinv_mono)
  show ?case
    unfolding funcall_loop.simps
  proof (rule runs_andthen [OF star], rule expr_then [OF ex M], blast)
    fix sc p1 p2
    assume p1: "pinv W M p1 \<and> (p1 = p \<or> reads p p1)" and p2: "post W M 0 1 p1 p2"
    from post_lift [OF p2, of n] p1 have p2: "post W M n (n + 1) p p2" by (auto intro: post_reads)
    have inv: "pinv W M p2" using p2 by blast
    show "runs W (if cur_kind p2 = LK_RPAREN then andthen (advance p2) (\<lambda>_. ok (n, sc))
        else if cur_kind p2 = LK_COMMA then andthen (advance p2) (\<lambda>_ p.
            if sc then throw_error_at p ''scatter argument is not the last one'' (ps_cur p)
            else if n = UINT32_MAX then throw_error_at p ''too many arguments'' (ps_cur p) else funcall_loop ex k (n + 1) sc p)
        else throw_error_at p2 (''expected '' @ quoted '','' @ '' or '' @ quoted '')'') (ps_cur p2)) ?Q"
    proof (intro runs_if)
      assume "cur_kind p2 = LK_RPAREN"
      then show "runs W (andthen (advance p2) (\<lambda>_. ok (n, sc))) ?Q"
        using post_then_reads [OF p2 pinv_mono] Suc.prems(4,5) by (intro advance_then [OF inv]) auto
    next
      assume "cur_kind p2 = LK_COMMA"
      then show "runs W (andthen (advance p2) (\<lambda>_ p.
            if sc then throw_error_at p ''scatter argument is not the last one'' (ps_cur p)
            else if n = UINT32_MAX then throw_error_at p ''too many arguments'' (ps_cur p) else funcall_loop ex k (n + 1) sc p)) ?Q"
      proof (intro advance_then [OF inv] runs_if)
        fix p3 assume p3: "pinv W (M - 2) p3" "reads p2 p3" and n: "n \<noteq> UINT32_MAX"
        have p3': "post W M n (n + 1) p p3" using post_then_reads [OF p2 pinv_mono [OF p3(1)] p3(2)] by simp
        have "runs W (funcall_loop ex k (n + 1) sc p3) (\<lambda>(r, _) p'. post W M (n + 1) (r + 1) p3 p' \<and> 1 \<le> r \<and> r \<le> UINT32_MAX)"
          using pinv_mono [OF p3(1), of M] Suc.prems post_pm [OF p3'] n by (intro Suc.IH) simp_all
        then show "runs W (funcall_loop ex k (n + 1) sc p3) ?Q"
          by (rule runs_conseq) (use post_trans [OF p3'] in auto)
      qed auto
    qed (use inv in auto)
  qed (use Suc.prems M in \<open>auto dest!: reads_pm\<close>)
qed simp

lemma funcall_ok:
  assumes ex: "expr_spec W ex m" and M: "M \<le> 2 ^ 29" and p: "pinv W M p" "pm p \<le> m" "pm p \<le> k" "inner (cur_kind p)"
  shows "runs W (funcall ex k p) (\<lambda>(r, sc) p'. post W (M - 2) 1 (r + 1) p p' \<and> r \<le> UINT32_MAX \<and> (sc \<longrightarrow> r \<noteq> 0))"
  unfolding funcall_def
proof (intro advance_then [OF p(1,4)] runs_if)
  fix p1 assume p1: "pinv W (M - 2) p1" "reads p p1"
  {
    assume "cur_kind p1 = LK_RPAREN"
    then show "runs W (andthen (advance p1) (\<lambda>_. ok (0, False))) (\<lambda>(r, sc) p'. post W (M - 2) 1 (r + 1) p p' \<and> r \<le> UINT32_MAX \<and> (sc \<longrightarrow> r \<noteq> 0))"
      using post_then_reads [OF post_read [OF p1] pinv_mono] by (intro advance_then [OF p1(1)]) auto
  next
    have "runs W (funcall_loop ex k 1 False p1) (\<lambda>(r, _) p'. post W (M - 2) 1 (r + 1) p1 p' \<and> 1 \<le> r \<and> r \<le> UINT32_MAX)"
      using M p reads_pm [OF p1(2)] by (intro funcall_loop_ok [OF ex _ p1(1)]) (simp_all add: UINT32_MAX_def)
    then show "runs W (funcall_loop ex k 1 False p1) (\<lambda>(r, sc) p'. post W (M - 2) 1 (r + 1) p p' \<and> r \<le> UINT32_MAX \<and> (sc \<longrightarrow> r \<noteq> 0))"
      by (rule runs_conseq) (use post_reads [OF p1(2)] in auto)
  }
qed

section \<open>A turn of the loop\<close>

lemma pm_pos: "0 < pm p \<longleftrightarrow> cur_kind p \<noteq> LK_EOF"
  by (simp add: pm_def)

lemma emits_kind: "emits p is q \<Longrightarrow> pm q = pm p \<Longrightarrow> cur_kind p \<noteq> LK_EOF \<Longrightarrow> cur_kind q \<noteq> LK_EOF"
  using pm_pos by metis

definition turn_post :: "setting \<Rightarrow> int \<Rightarrow> bool \<Rightarrow> parser \<Rightarrow> bool option \<Rightarrow> parser \<Rightarrow> bool" where
  "turn_post W M e p r p' \<longleftrightarrow> (case r of
     None \<Rightarrow> \<not> e \<and> p' = p
   | Some b \<Rightarrow> \<not> b \<and> post W M (if e then 0 else 1) 1 p p')"

lemma turn_None [simp]: "turn_post W M e p None p' \<longleftrightarrow> \<not> e \<and> p' = p"
  by (simp add: turn_post_def)

lemma turn_SomeI: "post W M (if e then 0 else 1) 1 p p' \<Longrightarrow> turn_post W M e p (Some False) p'"
  by (simp add: turn_post_def)

lemma cur_emit: "ps_cur (emit_at p ins lx) = ps_cur p" "ps_cur (emit p ins) = ps_cur p"
  by (simp_all add: emit_at_def emit_def emit_at_line_def)

lemma this_is_expr_then:
  assumes "pinv W M p" and "e \<Longrightarrow> runs W (f () p) Q"
  shows "runs W (andthen (this_is_expr p e) f) Q"
  using assms by (auto simp: this_is_expr_def intro!: runs_andthen [where Q = "\<lambda>_ p'. p' = p \<and> e"])

lemma after_expr_then:
  assumes "pinv W M p" and "\<not> e \<Longrightarrow> runs W (f () p) Q"
  shows "runs W (andthen (after_expr p e) f) Q"
  using assms by (auto simp: after_expr_def intro!: runs_andthen [where Q = "\<lambda>_ p'. p' = p \<and> \<not> e"])

lemma emit_const_ok:
  assumes p: "pinv W M p" "inner (cur_kind p)" and add: "e \<Longrightarrow> const_ok W M p (add p (ps_cur p))"
  shows "runs W (emit_const p e add) (turn_post W M e p)"
  unfolding emit_const_def Let_def
proof (rule this_is_expr_then [OF p(1)], rule runs_andthen [OF add], assumption, elim conjE)
  fix i p1
  assume e: e and p1: "pinv W (M + 1) p1" "emits p [] p1" "pm p1 = pm p" "i \<le> UINT32_MAX" "i < length (ps_consts p1)" "ps_cur p1 = ps_cur p"
  let ?p = "emit_at p1 (mk_instr OP_LOAD_CONST 0 i) (ps_cur p)"
  have "does p1 0 1 ?p"
    using does_emit [of p1 "mk_instr OP_LOAD_CONST 0 i" 0 0 "ps_cur p"] p1 by (simp add: pure_ins_simps effect_simps)
  then have d: "does p 0 1 ?p" using does_skip [OF p1(2)] does_trans by blast
  have q: "pinv W (M + 2) ?p" using pinv_emit(1) [OF p1(1)] by (simp add: add.assoc)
  have k: "inner (cur_kind ?p)" using p(2) p1(6) by (simp add: cur_emit)
  show "runs W (andthen (advance ?p) (\<lambda>_. ok (Some False))) (turn_post W M e p)"
  proof (rule advance_then [OF q k])
    fix p2 assume "pinv W (M + 2 - 2) p2" "reads ?p p2"
    then have "post W M 0 1 p p2" using does_then_reads [OF d] p1(3) reads_pm [of ?p p2] by (simp add: post_def)
    then show "runs W (ok (Some False) p2) (turn_post W M e p)" using e by (simp add: turn_SomeI)
  qed
qed

lemma name_turn:
  assumes p: "pinv W M p" "inner (cur_kind p)" and M: "M \<le> 2 ^ 30"
  shows "runs W (andthen (this_is_expr p e) (\<lambda>_ p'. andthen (load p' (ps_cur p)) (\<lambda>ins p'.
      andthen (advance (emit_at p' ins (ps_cur p))) (\<lambda>_ p'. ok (Some False) p')))) (turn_post W M e p)"
proof (rule this_is_expr_then [OF p(1)], rule runs_andthen [OF load_ok [OF p(1) M]], elim conjE)
  fix ins :: instr and p1
  assume e: e and p1: "pinv W (M + 1) p1" "emits p [] p1" "pm p1 = pm p" "opcode ins = OP_LOAD_SYMBOLIC" "unat (in_c ins) < length (idents p1)" "ps_cur p1 = ps_cur p"
  let ?p = "emit_at p1 ins (ps_cur p)"
  have "does p1 0 1 ?p"
    using does_emit [of p1 ins 0 0 "ps_cur p"] p1 by (simp add: pure_ins_def raw_ok.simps effect.simps)
  then have d: "does p 0 1 ?p" using does_skip [OF p1(2)] does_trans by blast
  have q: "pinv W (M + 2) ?p" using pinv_emit(1) [OF p1(1)] by (simp add: add.assoc)
  have k: "inner (cur_kind ?p)" using p(2) p1(6) by (simp add: cur_emit)
  show "runs W (andthen (advance ?p) (\<lambda>_. ok (Some False))) (turn_post W M e p)"
  proof (rule advance_then [OF q k])
    fix p2 assume "pinv W (M + 2 - 2) p2" "reads ?p p2"
    then have "post W M 0 1 p p2" using does_then_reads [OF d] p1(3) reads_pm [of ?p p2] by (simp add: post_def)
    then show "runs W (ok (Some False) p2) (turn_post W M e p)" using e by (simp add: turn_SomeI)
  qed
qed

lemma index_turn:
  assumes ex: "expr_spec W ex m" and M: "M \<le> 2 ^ 29" and p: "pinv W M p" "pm p \<le> m" "inner (cur_kind p)"
  shows "runs W (andthen (advance p) (\<lambda>_ p'. andthen (ex (-1) p') (\<lambda>_ p'. andthen (slurp p' LK_RBRACKET msg) (\<lambda>_ p'.
      ok (Some False) (emit_at p' (mk_instr OP_LOAD_AT 0 0) (ps_cur p)))))) (turn_post W M False p)"
proof (rule advance_then [OF p(1,3)], rule expr_then [OF ex], rule_tac [4] slurp_then)
  fix p1 p2 p3
  assume p1: "reads p p1" and p2: "post W (M - 2) 0 1 p1 p2" and p3: "pinv W (M - 2 - 2) p3" "reads p2 p3"
  have "post W (M - 2 - 2) 1 2 p p3"
    using post_lift [OF post_reads [OF p1 post_then_reads [OF p2 p3]], of 1] by (simp add: numeral_2_eq_2)
  from post_mono [OF post_emit [OF this, of "mk_instr OP_LOAD_AT 0 0" 2 1 "ps_cur p"], of M]
  show "runs W (ok (Some False) (emit_at p3 (mk_instr OP_LOAD_AT 0 0) (ps_cur p))) (turn_post W M False p)"
    by (simp add: pure_ins_simps effect_simps turn_SomeI)
qed (use p M reads_pm in \<open>fastforce+\<close>)

lemma paren_turn:
  assumes ex: "expr_spec W ex m" and M: "M \<le> 2 ^ 29" and p: "pinv W M p" "pm p \<le> m" "inner (cur_kind p)"
  shows "runs W (andthen (advance p) (\<lambda>_ p'. andthen (ex (-1) p') (\<lambda>_ p'. andthen (slurp p' LK_RPAREN msg) (\<lambda>_ p'.
      ok (Some False) p')))) (turn_post W M True p)"
proof (rule advance_then [OF p(1,3)], rule expr_then [OF ex], rule_tac [4] slurp_then)
  fix p1 p2 p3
  assume p1: "reads p p1" and p2: "post W (M - 2) 0 1 p1 p2" and p3: "pinv W (M - 2 - 2) p3" "reads p2 p3"
  have "post W M 0 1 p p3" by (rule post_mono [OF post_reads [OF p1 post_then_reads [OF p2 p3]]]) simp
  then show "runs W (ok (Some False) p3) (turn_post W M True p)" by (simp add: turn_SomeI)
qed (use p M reads_pm in \<open>fastforce+\<close>)

lemma field_turn:
  assumes M: "M \<le> 2 ^ 29" and p: "pinv W M p" "inner (cur_kind p)"
  shows "runs W (andthen (after_expr p e) (\<lambda>_ p. andthen (advance p) (\<lambda>_ p.
      let field = ps_cur p in
      if lk_kind field \<noteq> LK_IDENT then throw_error_at p msg field
      else do {
        s \<leftarrow> string_new (lexeme_text p field);
        andthen (add_const_steal p (V_Str s)) (\<lambda>const_idx p.
          let p = emit_at p (mk_instr OP_LOAD_CONST 0 const_idx) field;
              p = emit_at p (mk_instr OP_LOAD_AT 0 0) field in
          andthen (advance p) (\<lambda>_ p. ok (Some False) p))
      }))) (turn_post W M e p)"
proof (rule after_expr_then [OF p(1)], rule advance_then [OF p])
  fix p1 assume e: "\<not> e" and p1: "pinv W (M - 2) p1" "reads p p1"
  have "length (lexeme_text p1 (ps_cur p1)) \<le> 2 ^ 26"
    using p1(1) unfolding pinv_text [OF p1(1)] by (auto simp: pinv_def core_def setting_ok_def)
  then have "yields (string_new (lexeme_text p1 (ps_cur p1))) str_good"
    by (intro string_new_good) (simp add: SIZEOF_STRING_def SIZE_MAX_def)
  then obtain s where s: "string_new (lexeme_text p1 (ps_cur p1)) = Some s" "str_good s" by (auto simp: yields_iff_ex)
  show "runs W (let field = ps_cur p1 in if lk_kind field \<noteq> LK_IDENT then throw_error_at p1 msg field
      else do {
        s \<leftarrow> string_new (lexeme_text p1 field);
        andthen (add_const_steal p1 (V_Str s)) (\<lambda>const_idx p.
          let p = emit_at p (mk_instr OP_LOAD_CONST 0 const_idx) field;
              p = emit_at p (mk_instr OP_LOAD_AT 0 0) field in
          andthen (advance p) (\<lambda>_ p. ok (Some False) p))
      }) (turn_post W M e p)"
  proof (cases "cur_kind p1 = LK_IDENT")
    case True
    have k1: "inner (cur_kind p1)" using True by simp
    have M': "M - 2 \<le> 2 ^ 30" using M by simp
    have "runs W (andthen (add_const_steal p1 (V_Str s)) (\<lambda>i p.
        andthen (advance (emit_at (emit_at p (mk_instr OP_LOAD_CONST 0 i) (ps_cur p1)) (mk_instr OP_LOAD_AT 0 0) (ps_cur p1))) (\<lambda>_ p. ok (Some False) p)))
      (turn_post W M e p)"
    proof (rule runs_andthen [OF add_const_ok [OF p1(1) _ M']], use s in simp, elim conjE)
      fix i p2 assume p2: "pinv W (M - 2 + 1) p2" "emits p1 [] p2" "pm p2 = pm p1" "i \<le> UINT32_MAX" "i < length (ps_consts p2)" "ps_cur p2 = ps_cur p1"
      let ?q = "emit_at p2 (mk_instr OP_LOAD_CONST 0 i) (ps_cur p1)"
      let ?p = "emit_at ?q (mk_instr OP_LOAD_AT 0 0) (ps_cur p1)"
      have "does p2 1 2 ?q"
        using does_emit [of p2 "mk_instr OP_LOAD_CONST 0 i" 0 1 "ps_cur p1"] p2 by (simp add: pure_ins_simps effect_simps numeral_2_eq_2)
      moreover have "does ?q 2 1 ?p"
        using does_emit [of ?q "mk_instr OP_LOAD_AT 0 0" 2 2 "ps_cur p1"] by (simp add: pure_ins_simps effect_simps)
      moreover have "does p 1 1 p2" by (rule does_reads [OF p1(2) does_skip [OF p2(2)]])
      ultimately have d: "does p 1 1 ?p" using does_trans by blast
      have q: "pinv W (M + 1) ?p" using pinv_emit(1) [OF pinv_emit(1) [OF p2(1)]] by simp
      have k: "inner (cur_kind ?p)" using k1 p2(6) by (simp add: cur_emit)
      show "runs W (andthen (advance ?p) (\<lambda>_ p. ok (Some False) p)) (turn_post W M e p)"
      proof (rule advance_then [OF q k])
        fix p3 assume "pinv W (M + 1 - 2) p3" "reads ?p p3"
        then have "post W M 1 1 p p3" using does_then_reads [OF d] p2(3) reads_pm [of ?p p3] reads_pm [OF p1(2)] pinv_mono [of W "M + 1 - 2" p3 M]
          by (simp add: post_def)
        then show "runs W (ok (Some False) p3) (turn_post W M e p)" using e by (simp add: turn_SomeI)
      qed
    qed
    then show ?thesis using True s by (simp add: Let_def)
  qed (use p1 in auto)
qed

section \<open>Expressions\<close>

lemma list_turn:
  assumes ex: "expr_spec W ex m" and M: "M \<le> 2 ^ 29" and p: "pinv W M p" "pm p \<le> m" "pm p \<le> k" "inner (cur_kind p)"
  shows "runs W (andthen (newlist ex k p) (\<lambda>n p'. ok (Some False) (emit_at p' (mk_instr OP_LIST 0 n) (ps_cur p)))) (turn_post W M True p)"
proof (rule runs_andthen [OF newlist_ok [OF ex M p]], elim conjE)
  fix n p1 assume p1: "post W (M - 2) 0 n p p1" "n \<le> UINT32_MAX"
  from post_mono [OF post_emit [OF p1(1), of "mk_instr OP_LIST 0 n" n 1 "ps_cur p"], of M]
  show "runs W (ok (Some False) (emit_at p1 (mk_instr OP_LIST 0 n) (ps_cur p))) (turn_post W M True p)"
    using p1(2) by (simp add: pure_ins_simps effect_simps turn_SomeI)
qed

lemma dict_turn:
  assumes ex: "expr_spec W ex m" and M: "M \<le> 2 ^ 29" and p: "pinv W M p" "pm p \<le> m" "pm p \<le> k" "cur_kind p = LK_LBRACE"
  shows "runs W (andthen (this_is_expr p e) (\<lambda>_ p'. andthen (newdict ex k p') (\<lambda>n p'.
      ok (Some False) (emit_at p' (mk_instr OP_DICT 0 n) (ps_cur p))))) (turn_post W M e p)"
proof (rule this_is_expr_then [OF p(1)], rule runs_andthen [OF newdict_ok [OF ex M p]], elim conjE)
  fix n p1 assume e: e and p1: "post W (M - 2) 0 (2 * n) p p1" "n \<le> UINT32_MAX"
  from post_mono [OF post_emit [OF p1(1), of "mk_instr OP_DICT 0 n" "2 * n" 1 "ps_cur p"], of M]
  show "runs W (ok (Some False) (emit_at p1 (mk_instr OP_DICT 0 n) (ps_cur p))) (turn_post W M e p)"
    using e p1(2) by (simp add: pure_ins_simps effect_simps turn_SomeI)
qed

lemma call_turn:
  assumes ex: "expr_spec W ex m" and M: "M \<le> 2 ^ 29" and p: "pinv W M p" "pm p \<le> m" "pm p \<le> k" "inner (cur_kind p)"
  shows "runs W (andthen (funcall ex k p) (\<lambda>(n, sc) p'.
      ok (Some False) (emit_at p' (mk_instr OP_CALL (if sc then 1 else 0) n) (ps_cur p)))) (turn_post W M False p)"
proof (rule runs_andthen [OF funcall_ok [OF ex M p]])
  fix x p1 assume "(case x of (n, sc) \<Rightarrow> \<lambda>p1. post W (M - 2) 1 (n + 1) p p1 \<and> n \<le> UINT32_MAX \<and> (sc \<longrightarrow> n \<noteq> 0)) p1"
  then obtain n sc where x: "x = (n, sc)" and p1: "post W (M - 2) 1 (n + 1) p p1" "n \<le> UINT32_MAX" "sc \<longrightarrow> n \<noteq> 0" by (cases x) auto
  show "runs W ((case x of (n, sc) \<Rightarrow> \<lambda>p'. ok (Some False) (emit_at p' (mk_instr OP_CALL (if sc then 1 else 0) n) (ps_cur p))) p1)
      (turn_post W M False p)"
    using post_mono [OF post_emit [OF p1(1), of "mk_instr OP_CALL (if sc then 1 else 0) n" "n + 1" 1 "ps_cur p"], of M] p1(2,3) x
    by (simp add: pure_ins_simps effect_simps turn_SomeI)
qed

lemma expr_turn_ok:
  assumes ex: "expr_spec W ex m" and M: "M \<le> 2 ^ 29" and p: "pinv W M p" "pm p \<le> m" "pm p \<le> k"
  shows "runs W (expr_turn (w_deci W) ex k q e p) (turn_post W M e p)"
proof -
  have M': "M \<le> 2 ^ 30" using M by simp
  have unary: "runs W (andthen (unary_operator ex p) (\<lambda>_ p. ok (Some False) p)) (turn_post W M True p)"
    by (rule runs_andthen [OF unary_operator_ok [OF ex M p(1,2)]]) (simp add: turn_SomeI)
  have binary: "runs W (andthen (binary_operator ex q p) (\<lambda>more p. ok (if more then Some False else None) p)) (turn_post W M False p)"
    by (rule runs_andthen [OF binary_operator_ok [OF ex M p(1,2), of q]]) (auto simp: turn_SomeI split: if_splits)
  have ends: "runs W (andthen (after_expr p e) (\<lambda>_ p. ok None p)) (turn_post W M e p)"
    by (rule after_expr_then [OF p(1)]) simp
  have flag: "val_ok (w_deci W) ([] :: func heap) (V_Flag b)" "val_ok (w_deci W) ([] :: func heap) V_Nil" for b by simp_all
  note cst = emit_const_ok [OF p(1)] add_number_const_ok [OF p(1) _ M'] add_string_const_ok [OF p(1) _ M'] add_const_ok [OF p(1) flag(1) M']
    add_const_ok [OF p(1) flag(2) M']
  show ?thesis
    unfolding expr_turn_def Let_def
  proof (intro runs_if)
    assume k: "cur_kind p = LK_LBRACKET"
    then show "e \<Longrightarrow> runs W (andthen (newlist ex k p) (\<lambda>n p'. ok (Some False) (emit_at p' (mk_instr OP_LIST 0 n) (ps_cur p)))) (turn_post W M e p)"
      using list_turn [OF ex M p] by simp
    from k show "\<not> e \<Longrightarrow> runs W (andthen (advance p) (\<lambda>_ p'. andthen (ex (-1) p') (\<lambda>_ p'. andthen (slurp p' LK_RBRACKET (''expected '' @ quoted '']'')) (\<lambda>_ p'.
      ok (Some False) (emit_at p' (mk_instr OP_LOAD_AT 0 0) (ps_cur p)))))) (turn_post W M e p)"
      using index_turn [OF ex M p(1,2)] by simp
  next
    assume k: "cur_kind p = LK_LPAREN"
    then show "e \<Longrightarrow> runs W (andthen (advance p) (\<lambda>_ p'. andthen (ex (-1) p') (\<lambda>_ p'. andthen (slurp p' LK_RPAREN (''expected '' @ quoted '')'')) (\<lambda>_ p'.
      ok (Some False) p')))) (turn_post W M e p)"
      using paren_turn [OF ex M p(1,2)] by simp
    from k show "\<not> e \<Longrightarrow> runs W (andthen (funcall ex k p) (\<lambda>(n, sc) p'.
      ok (Some False) (emit_at p' (mk_instr OP_CALL (if sc then 1 else 0) n) (ps_cur p)))) (turn_post W M e p)"
      using call_turn [OF ex M p] by simp
  qed (use cst name_turn [OF p(1) _ M'] dict_turn [OF ex M p] field_turn [OF M p(1), unfolded Let_def] ends unary binary in \<open>simp_all add: Let_def\<close>)
qed

lemma expr_loop_ok:
  assumes ex: "expr_spec W ex m" and M: "M \<le> 2 ^ 29"
  shows "pinv W M p \<Longrightarrow> pm p \<le> m \<Longrightarrow> pm p \<le> k \<Longrightarrow> pm p < n \<Longrightarrow>
    runs W (expr_loop (w_deci W) ex k n q e p) (\<lambda>_ p'. if e then post W M 0 1 p p' else p' = p \<or> post W M 1 1 p p')"
proof (induction n arbitrary: e p)
  case (Suc n)
  show ?case
    unfolding expr_loop.simps
  proof (rule runs_andthen [OF expr_turn_ok [OF ex M Suc.prems(1-3)]])
    fix r p1 assume r: "turn_post W M e p r p1"
    show "runs W (case r of None \<Rightarrow> ok () p1 | Some e \<Rightarrow> expr_loop (w_deci W) ex k n q e p1)
      (\<lambda>_ p'. if e then post W M 0 1 p p' else p' = p \<or> post W M 1 1 p p')"
    proof (cases r)
      case (Some b)
      then have p1: "\<not> b" "post W M (if e then 0 else 1) 1 p p1" using r by (simp_all add: turn_post_def)
      have "runs W (expr_loop (w_deci W) ex k n q b p1) (\<lambda>_ p'. if b then post W M 0 1 p1 p' else p' = p1 \<or> post W M 1 1 p1 p')"
        using p1 Suc.prems post_pm [OF p1(2)] by (intro Suc.IH) auto
      then show ?thesis unfolding Some option.case
        by (rule runs_conseq) (use p1 post_trans [OF p1(2)] in \<open>auto split: if_splits\<close>)
    qed (use r in simp)
  qed
qed simp

lemma expr_ok: "expr_spec W (expr (w_deci W) k) k"
proof (induction k)
  case (Suc k)
  show ?case
    unfolding expr_spec_def
  proof (intro allI impI)
    fix M q p assume M: "M \<le> (2 ^ 29 :: int)" and p: "pinv W M p" "pm p < Suc k"
    have "runs W (expr_loop (w_deci W) (expr (w_deci W) k) k (Suc k) q True p) (\<lambda>_ p'. if True then post W M 0 1 p p' else p' = p \<or> post W M 1 1 p p')"
      by (rule expr_loop_ok [OF Suc.IH M p(1)]) (use p(2) in simp_all)
    then show "runs W (expr (w_deci W) (Suc k) q p) (\<lambda>_. post W M 0 1 p)" by simp
  qed
qed (simp add: expr_spec_def)

end
