(* ===== verification/Parser_Scopes.thy ===== *)
theory Parser_Scopes
  imports Parser_Expr_Types
begin

text \<open>
  Scopes: the tables of local variables, the ranges of the code that belong to a function, and the end of a function,
  where its symbolic instructions are resolved and the height that its stack reaches is computed.
\<close>

section \<open>Tables of local variables\<close>

lemma table_ok_new: "yields (xht_new 0) (\<lambda>t. table_ok t \<and> xht_size t = 0)"
  by (rule yields_conseq [OF xht_new_yields]) (auto simp: table_ok_def xht_size_def)

lemma table_put:
  assumes t: "table_ok t" and n: "xht_size t < 3 * 2 ^ 29"
  shows "yields (xht_put t name (hash_str name) (xht_size t)) (\<lambda>(t', r). table_ok t' \<and> xht_size t \<le> xht_size t' \<and>
    xht_size t' \<le> xht_size t + 1 \<and> (\<exists>i. xht_load t' r = Some i \<and> i < xht_size t' \<and> (i = xht_size t \<longrightarrow> xht_size t' = xht_size t + 1)))"
proof (cases "xht_map t name")
  case None
  have "xht_room t" "xht_inv t" using n t by (simp_all add: xht_room_def xht_size_def table_ok_def)
  from xht_put_fresh [OF this(2,1) None, of "xht_size t"] show ?thesis
    by (rule yields_conseq) (use t in \<open>force simp: table_ok_def xht_size_def split: if_splits\<close>)
next
  case (Some w)
  then have "xht_inv t" "w < xht_size t" using t by (auto simp: table_ok_def)
  from xht_put_known [OF this(1) Some, of "xht_size t"] show ?thesis
    by (rule yields_conseq) (use t \<open>w < xht_size t\<close> in auto)
qed

lemma bounded_scope: "bounded M p \<Longrightarrow> t \<in> set (scopes p) \<Longrightarrow> int (xht_size t) + 2 * int (pm p) \<le> M"
  by (simp add: bounded_def)

text \<open>The innermost scope is replaced by one with more names.\<close>

lemma put_local_ok:
  assumes p: "pinv W M p" and sc: "scopes p \<noteq> []" and M: "M \<le> 2 ^ 30"
  shows "yields (put_local p name) (\<lambda>(idx, p'). \<exists>t. p' = p\<lparr>scopes := butlast (scopes p) @ [t]\<rparr> \<and> pinv W (M + 1) p' \<and>
    idx < xht_size t \<and> xht_size (last (scopes p)) \<le> xht_size t \<and> xht_size t \<le> xht_size (last (scopes p)) + 1 \<and>
    (idx = xht_size (last (scopes p)) \<longrightarrow> xht_size t = xht_size (last (scopes p)) + 1))"
proof -
  let ?t = "last (scopes p)"
  have t: "table_ok ?t" "int (xht_size ?t) + 2 * int (pm p) \<le> M" using p sc bounded_scope [of M p ?t] by (auto simp: pinv_def core_def)
  then have "xht_size ?t < 3 * 2 ^ 29" using M by simp
  from table_put [OF t(1) this, of name] obtain t' r where r:
    "xht_put ?t name (hash_str name) (xht_size ?t) = Some (t', r)" and t': "table_ok t'" "xht_size ?t \<le> xht_size t'" "xht_size t' \<le> xht_size ?t + 1"
    and "\<exists>i. xht_load t' r = Some i \<and> i < xht_size t' \<and> (i = xht_size ?t \<longrightarrow> xht_size t' = xht_size ?t + 1)"
    by (auto simp: yields_iff_ex)
  then obtain i where i: "xht_load t' r = Some i" "i < xht_size t'" "i = xht_size ?t \<longrightarrow> xht_size t' = xht_size ?t + 1" by blast
  let ?p = "p\<lparr>scopes := butlast (scopes p) @ [t']\<rparr>"
  have "core W ?p" using p t'(1) by (auto simp: pinv_def core_def glob_def dest: in_set_butlastD)
  moreover have "ahead ?p = ahead p" by (simp add: ahead_def)
  then have "lexing W ?p" using p by (simp add: pinv_def lexing_def)
  moreover have "bounded (M + 1) ?p" using p t(2) t'(3) by (auto simp: pinv_def bounded_def pm_def dest!: in_set_butlastD)
  ultimately have "pinv W (M + 1) ?p" by (simp add: pinv_def)
  then show ?thesis using r i t' sc by (auto simp: put_local_def)
qed

section \<open>Names of global variables\<close>

lemma slot_card:
  assumes g: "globals_ok g"
  shows "finite (dom (slot g))" and "card (dom (slot g)) = length (g_data g)"
proof -
  let ?k = "\<lambda>i. it_key (items (g_table g) ! i)"
  have dom: "dom (slot g) = ?k ` {0..<length (g_data g)}"
    using slot_iff [OF g] by (auto simp: dom_def image_iff)
  have "inj_on ?k {0..<length (g_data g)}"
    using slot_iff [OF g] by (intro inj_onI) (metis atLeastLessThan_iff option.inject)
  then show "finite (dom (slot g))" "card (dom (slot g)) = length (g_data g)"
    unfolding dom by (simp_all add: card_image)
qed

lemma glob_size:
  assumes "glob W p" and "setting_ok W"
  shows "length (g_data (ps_globals p)) \<le> 2 ^ 29 + length (idents p)"
proof -
  have g: "globals_ok (ps_globals p)" "globals_ok (w_globals W)" "length (g_data (w_globals W)) \<le> 2 ^ 29"
    "dom (slot (ps_globals p)) \<subseteq> dom (slot (w_globals W)) \<union> set (idents p)"
    using assms by (simp_all add: glob_def setting_ok_def)
  have "card (dom (slot (ps_globals p))) \<le> card (dom (slot (w_globals W)) \<union> set (idents p))"
    using slot_card(1) [OF g(2)] by (intro card_mono [OF _ g(4)]) simp
  also have "\<dots> \<le> card (dom (slot (w_globals W))) + card (set (idents p))" by (rule card_Un_le)
  also have "\<dots> \<le> 2 ^ 29 + length (idents p)" using slot_card(2) [OF g(2)] g(3) card_length [of "idents p"] by simp
  finally show ?thesis using slot_card(2) [OF g(1)] by simp
qed

lemma intern_ok:
  assumes W: "glob W p" "setting_ok W" and n: "length (idents p) < 2 ^ 30" and name: "name \<in> set (idents p)"
  shows "yields (state_intern_global (ps_globals p) name) (\<lambda>(g, idx). glob W (p\<lparr>ps_globals := g\<rparr>) \<and>
    length (g_data (ps_globals p)) \<le> length (g_data g) \<and> idx < length (g_data g))"
proof -
  have g: "globals_ok (ps_globals p)" using W by (simp add: glob_def)
  have "xht_room (g_table (ps_globals p))" using glob_size [OF W] n g by (simp add: xht_room_def globals_ok_def)
  from state_intern_global_yields [OF g this, of name] show ?thesis
  proof (rule yields_conseq, clarify)
    fix g' idx
    assume g': "globals_ok g'" "idx < length (g_data g')" "slot g' = (slot (ps_globals p))(name \<mapsto> idx)" "genv g' = genv (ps_globals p)"
      "\<forall>i. slot (ps_globals p) name = Some i \<longrightarrow> g' = ps_globals p"
      "slot (ps_globals p) name = None \<longrightarrow> idx = length (g_data (ps_globals p)) \<and> g_data g' = g_data (ps_globals p) @ [None]"
    have "slot g' a = Some i" if "slot (ps_globals p) a = Some i" for a i
      using that g'(3,5) by (cases "a = name") auto
    then have "glob W (p\<lparr>ps_globals := g'\<rparr>)"
      using W(1) g'(1,4) name unfolding glob_def g'(3) by (auto simp: g'(3))
    then show "glob W (p\<lparr>ps_globals := g'\<rparr>) \<and> length (g_data (ps_globals p)) \<le> length (g_data g') \<and> idx < length (g_data g')"
      using g'(2,5,6) by (cases "slot (ps_globals p) name") auto
  qed
qed

section \<open>The end of a scope\<close>

abbreviation pcode :: "parser \<Rightarrow> instr list" where
  "pcode p \<equiv> map ti_instr (prog p)"

text \<open>The indices of the instructions of a function, in code that starts at \<open>b\<close>.\<close>

fun own_at :: "nat \<Rightarrow> nat \<Rightarrow> item list \<Rightarrow> nat list" where
  "own_at c b [] = []"
| "own_at c b (x # F) = (if fst (snd x) = c then [b] else []) @ own_at c (Suc b) F"

lemma own_at_append: "own_at c b (F @ G) = own_at c b F @ own_at c (b + length F) G"
  by (induction F arbitrary: b) simp_all

lemma own_at_all: "\<forall>x \<in> set F. fst (snd x) = c \<Longrightarrow> own_at c b F = [b..<b + length F]"
  by (induction F arbitrary: b) (simp_all add: upt_rec)

lemma own_at_none: "\<forall>x \<in> set F. fst (snd x) \<noteq> c \<Longrightarrow> own_at c b F = []"
  by (induction F arbitrary: b) simp_all

lemma own_at_snd: "map snd F = map snd G \<Longrightarrow> own_at c b F = own_at c b G"
proof (induction F arbitrary: G b)
  case (Cons x F)
  then obtain y H where "G = y # H" "snd y = snd x" "map snd F = map snd H" by (cases G) auto
  with Cons.IH show ?case by simp
qed simp

lemma stack_after_ok:
  assumes "fst (effect ins) \<le> d"
  shows "stack_after ins (of_nat d) = of_nat (after ins d)"
  using assms by (cases "opcode ins") (simp_all add: stack_after_def Let_def effect.simps after_def of_nat_diff)

lemma max_of_nat:
  assumes "a < 2 ^ 63" and "b < 2 ^ 63"
  shows "max (of_nat a) (of_nat b :: 64 word) = of_nat (max a b)"
proof -
  have "unat (of_nat a :: 64 word) = a" "unat (of_nat b :: 64 word) = b"
    using assms by (simp_all add: unat_of_nat take_bit_nat_eq_self)
  then show ?thesis by (auto simp: max_def word_le_nat_alt)
qed

lemma resolve_symbolic_ok:
  assumes W: "glob W p" "setting_ok W" and n: "length (idents p) < 2 ^ 30" and t: "table_ok t" "xht_size t < 2 ^ 31"
    and i: "unat (in_c ins) < length (idents p)"
  shows "yields (resolve_symbolic p t ins ol og) (\<lambda>(ins', p'). \<exists>g. p' = p\<lparr>ps_globals := g\<rparr> \<and> glob W p' \<and>
    length (g_data (ps_globals p)) \<le> length (g_data g) \<and> in_a ins' = in_a ins \<and>
    (opcode ins' = ol \<and> unat (in_c ins') < xht_size t \<or> opcode ins' = og \<and> unat (in_c ins') < length (g_data g)))"
proof -
  let ?name = "idents p ! unat (in_c ins)"
  have id: "ident_of p ins = Some ?name" using i by (simp add: ident_of_def)
  have get: "xht_get t ?name (hash_str ?name) UINT32_MAX = Some (case xht_map t ?name of None \<Rightarrow> UINT32_MAX | Some v \<Rightarrow> v)"
    using t(1) by (simp add: xht_get_eq table_ok_def)
  obtain g idx where g: "state_intern_global (ps_globals p) ?name = Some (g, idx)" "glob W (p\<lparr>ps_globals := g\<rparr>)"
    "length (g_data (ps_globals p)) \<le> length (g_data g)" "idx < length (g_data g)"
    using intern_ok [OF W n, of ?name] i by (auto simp: yields_iff_ex)
  show ?thesis
  proof (cases "xht_map t ?name")
    case None
    have "length (g_data g) < 2 ^ 32" using glob_size [OF g(2) W(2)] n by simp
    then have "unat (of_nat idx :: 32 word) = idx" using g(4) by (intro unat_small) simp
    then show ?thesis using id get None g by (auto simp: resolve_symbolic_def mk_instr_def intro!: exI [of _ g])
  next
    case (Some v)
    then have v: "v < xht_size t" using t(1) by (simp add: table_ok_def)
    moreover have "unat (of_nat v :: 32 word) = v" using v t(2) by (intro unat_small) simp
    moreover have "v \<noteq> UINT32_MAX" using v t(2) by (simp add: UINT32_MAX_def)
    ultimately show ?thesis using id get Some W(1)
      by (auto simp: resolve_symbolic_def mk_instr_def intro!: exI [of _ "ps_globals p"])
  qed
qed

lemma resolve_instr_ok:
  assumes W: "glob W p" "setting_ok W" and n: "length (idents p) < 2 ^ 30" and t: "table_ok t" "xht_size t < 2 ^ 31"
    and ins: "raw_ok (lims c p) ins"
  shows "yields (resolve_instr p t ins) (\<lambda>(ins', p'). \<exists>g. p' = p\<lparr>ps_globals := g\<rparr> \<and> glob W p' \<and>
    length (g_data (ps_globals p)) \<le> length (g_data g) \<and>
    (\<forall>L. k_locals L = xht_size t \<longrightarrow> length (g_data g) \<le> k_globals L \<longrightarrow> resolved L ins ins'))"
proof -
  have same: "\<exists>g. p = p\<lparr>ps_globals := g\<rparr> \<and> glob W p \<and> length (g_data (ps_globals p)) \<le> length (g_data g) \<and> R g"
    if "R (ps_globals p)" for R using W(1) that by (intro exI [of _ "ps_globals p"]) simp
  have id: "unat (in_c ins) < length (idents p)" if "opcode ins \<in> {OP_LOAD_SYMBOLIC, OP_STORE_SYMBOLIC, OP_MODIFY_SYMBOLIC}"
    using ins that by (auto simp: raw_ok.simps)
  note sym = resolve_symbolic_ok [OF W n t id, THEN yields_conseq]
  consider "opcode ins = OP_LOAD_SYMBOLIC" | "opcode ins = OP_STORE_SYMBOLIC" | "opcode ins = OP_MODIFY_SYMBOLIC"
    | "opcode ins \<notin> {OP_LOAD_SYMBOLIC, OP_STORE_SYMBOLIC, OP_MODIFY_SYMBOLIC}" by blast
  then show ?thesis
  proof cases
    case 4
    then have "resolve_instr p t ins = Some (ins, p)" "resolved L ins ins" for L
      by (auto simp: resolve_instr_def resolved.simps split: opcode.splits)
    then show ?thesis using same [of "\<lambda>_. True"] by simp
  qed (auto simp: resolve_instr_def resolved.simps intro!: sym)
qed

lemma closes_other: "fst (snd x) \<noteq> k_own L \<Longrightarrow> closes L m x x"
  by (simp add: closes_def)

lemma closes_mono: "closes L m x y \<Longrightarrow> m \<le> n \<Longrightarrow> closes L n x y"
  by (auto simp: closes_def split: if_splits)

text \<open>What the loops of \<open>close_scope\<close> make of the code \<open>F\<close> of a function.\<close>

definition closed_up ::
    "setting \<Rightarrow> nat \<Rightarrow> nat \<Rightarrow> parser \<Rightarrow> instr list \<Rightarrow> item list \<Rightarrow> instr list \<Rightarrow> nat \<Rightarrow> nat \<Rightarrow> parser \<times> 64 word \<times> 64 word \<Rightarrow> bool" where
  "closed_up W c nloc p X F Z d1 m = (\<lambda>(p', w, u). \<exists>F' n g. w = of_nat d1 \<and> u = of_nat n \<and> m \<le> n \<and> n \<le> m + length F \<and>
     pcode p' = X @ map fst F' @ Z \<and> p' = p\<lparr>prog := prog p', ps_globals := g\<rparr> \<and> length (prog p') = length (prog p) \<and> glob W p' \<and>
     length (g_data (ps_globals p)) \<le> length (g_data g) \<and>
     (\<forall>L. k_own L = c \<longrightarrow> k_locals L = nloc \<longrightarrow> length (g_data g) \<le> k_globals L \<longrightarrow> list_all2 (closes L n) F F'))"

lemma closed_upE:
  assumes "closed_up W c nloc p X F Z d1 m (p', w, u)"
  obtains F' n g where "w = of_nat d1" and "u = of_nat n" and "m \<le> n" and "n \<le> m + length F"
    and "pcode p' = X @ map fst F' @ Z" and "p' = p\<lparr>prog := prog p', ps_globals := g\<rparr>"
    and "length (prog p') = length (prog p)" and "glob W p'" and "length (g_data (ps_globals p)) \<le> length (g_data g)"
    and "\<forall>L. k_own L = c \<longrightarrow> k_locals L = nloc \<longrightarrow> length (g_data g) \<le> k_globals L \<longrightarrow> list_all2 (closes L n) F F'"
  using assms unfolding closed_up_def prod.case by blast

lemma glob_prog: "glob W (p\<lparr>prog := x\<rparr>) = glob W p"
  by (simp add: glob_def)

lemma close_positions_ok:
  assumes "pcode p = X @ map fst F @ Z" and "walk c d F = Some d1" and "setting_ok W" and "glob W p" and "length (idents p) < 2 ^ 30"
    and "table_ok t" and "xht_size t < 2 ^ 31" and "d \<le> m" and "m + length F < 2 ^ 62"
    and "\<forall>x \<in> set F. fst (snd x) = c \<longrightarrow> raw_ok (lims c p) (fst x) \<and> fst (effect (fst x)) \<le> snd (snd x) \<and> snd (effect (fst x)) \<le> 1"
  shows "yields (close_positions t (own_at c (length X) F) p (of_nat d) (of_nat m)) (closed_up W c (xht_size t) p X F Z d1 m)"
  using assms
proof (induction F arbitrary: X p d m)
  case Nil
  then show ?case by (auto simp: closed_up_def intro!: exI [of _ m] exI [of _ "ps_globals p"])
next
  case (Cons x F)
  obtain ins c' d' where x: "x = (ins, c', d')" by (cases x)
  show ?case
  proof (cases "c' = c")
    case False
    have "yields (close_positions t (own_at c (length (X @ [ins])) F) p (of_nat d) (of_nat m)) (closed_up W c (xht_size t) p (X @ [ins]) F Z d1 m)"
      by (rule Cons.IH) (use Cons.prems False in \<open>simp_all add: x\<close>)
    moreover have "closed_up W c (xht_size t) p X (x # F) Z d1 m r" if "closed_up W c (xht_size t) p (X @ [ins]) F Z d1 m r" for r
    proof -
      obtain p' w u where r: "r = (p', w, u)" by (cases r)
      from that [unfolded r] show ?thesis
      proof (cases rule: closed_upE)
        case h: (1 F' n g)
        then show ?thesis unfolding closed_up_def r prod.case
          by (intro exI [of _ "x # F'"] exI [of _ n] exI [of _ g]) (simp add: x False closes_other)
      qed
    qed
    ultimately show ?thesis using False by (simp add: x yields_conseq)
  next
    case True
    have ok: "raw_ok (lims c p) ins" "fst (effect ins) \<le> d" "snd (effect ins) \<le> 1" "d' = d" "walk c (after ins d) F = Some d1"
      using Cons.prems(2,10) True by (auto simp: x split: if_splits)
    have aft: "after ins d \<le> d + 1" using ok(3) by (simp add: after_def)
    obtain ins' g where r: "resolve_instr p t ins = Some (ins', p\<lparr>ps_globals := g\<rparr>)" and g: "glob W (p\<lparr>ps_globals := g\<rparr>)"
      "length (g_data (ps_globals p)) \<le> length (g_data g)"
      and res: "\<And>L. k_locals L = xht_size t \<Longrightarrow> length (g_data g) \<le> k_globals L \<Longrightarrow> resolved L ins ins'"
      using resolve_instr_ok [OF Cons.prems(4,3,5,6,7) ok(1)] by (auto simp: yields_iff_ex)
    have lenX: "length X < length (prog p)" using arg_cong [OF Cons.prems(1), of length] by simp
    have at: "ti_instr (prog p ! length X) = ins"
      using arg_cong [OF Cons.prems(1), of "\<lambda>l. l ! length X"] lenX by (simp add: x nth_append)
    let ?p = "p\<lparr>ps_globals := g, prog := (prog p)[length X := (prog p ! length X)\<lparr>ti_instr := ins'\<rparr>]\<rparr>"
    have code: "pcode ?p = (X @ [ins']) @ map fst F @ Z"
      using Cons.prems(1) by (simp add: map_update x)
    let ?m = "max m (after ins d)"
    have w: "stack_after ins (of_nat d) = of_nat (after ins d)" "max (of_nat m) (of_nat (after ins d) :: 64 word) = of_nat ?m"
      using ok(2) aft Cons.prems(8,9) by (simp_all add: stack_after_ok max_of_nat)
    have idents: "length (idents ?p) < 2 ^ 30" using Cons.prems(5) by simp
    have gl: "glob W ?p" using g(1) by (simp add: glob_def)
    have raw: "\<forall>x \<in> set F. fst (snd x) = c \<longrightarrow> raw_ok (lims c ?p) (fst x) \<and> fst (effect (fst x)) \<le> snd (snd x) \<and> snd (effect (fst x)) \<le> 1"
    proof -
      have "grows (lims c p) (lims c ?p)" using g(2) by (simp add: grows_def lims_def)
      then show ?thesis using Cons.prems(10) raw_ok_grows by (simp add: x)
    qed
    have "yields (close_positions t (own_at c (length (X @ [ins'])) F) ?p (of_nat (after ins d)) (of_nat ?m))
        (closed_up W c (xht_size t) ?p (X @ [ins']) F Z d1 ?m)"
      by (rule Cons.IH [OF code ok(5) Cons.prems(3) gl idents Cons.prems(6,7) _ _ raw]) (use Cons.prems(8,9) aft in simp_all)
    moreover have "closed_up W c (xht_size t) p X (x # F) Z d1 m r" if "closed_up W c (xht_size t) ?p (X @ [ins']) F Z d1 ?m r" for r
    proof -
      obtain p' w u where rr: "r = (p', w, u)" by (cases r)
      from that [unfolded rr] show ?thesis
      proof (cases rule: closed_upE)
        case h: (1 F' n g')
        have "closes L n x (ins', c, d)" if "k_own L = c" "k_locals L = xht_size t" "length (g_data g') \<le> k_globals L" for L
          using res [of L] that h(3,9) ok(4) True Cons.prems(8) by (simp add: closes_def x)
        then show ?thesis unfolding closed_up_def rr prod.case
          by (intro exI [of _ "(ins', c, d) # F'"] exI [of _ n] exI [of _ g']) (use h g(2) aft Cons.prems(8) in simp)
      qed
    qed
    moreover have "close_positions t (own_at c (length X) (x # F)) p (of_nat d) (of_nat m) =
        close_positions t (own_at c (length (X @ [ins'])) F) ?p (of_nat (after ins d)) (of_nat ?m)"
      using True lenX r w by (simp add: x at Let_def)
    ultimately show ?thesis by (simp add: yields_conseq)
  qed
qed

section \<open>Ranges\<close>

text \<open>The ranges of the scopes around the innermost, its own that are finished, and its last.\<close>

definition rstate :: "parser \<Rightarrow> code_range list \<Rightarrow> code_range list \<Rightarrow> code_range \<Rightarrow> bool" where
  "rstate p rb rs r \<longleftrightarrow> scopes p \<noteq> [] \<and> ranges p = rb @ rs @ [r] \<and> (\<forall>x \<in> set rb. scope_index x < length (scopes p) - 1) \<and>
     (\<forall>x \<in> set (rs @ [r]). scope_index x = length (scopes p) - 1) \<and> range_begin r \<le> here p"

definition opos :: "code_range list \<Rightarrow> code_range \<Rightarrow> nat \<Rightarrow> nat list" where
  "opos rs r m = concat (map (\<lambda>x. [range_begin x..<range_end x]) rs) @ [range_begin r..<m]"

lemma opos_more: "range_begin r \<le> m \<Longrightarrow> m \<le> n \<Longrightarrow> opos rs r n = opos rs r m @ [m..<n]"
  using upt_add_eq_append [of "range_begin r" m "n - m"] by (simp add: opos_def)

lemma opos_close: "range_begin r' = m \<Longrightarrow> opos (rs @ [r\<lparr>range_end := n\<rparr>]) r' k = opos rs r n @ [m..<k]"
  by (simp add: opos_def)

definition new_range :: "nat \<Rightarrow> nat \<Rightarrow> code_range" where
  "new_range i b = \<lparr>scope_index = i, range_begin = b, range_end = SIZE_MAX\<rparr>"

lemma new_range_simps [simp]: "scope_index (new_range i b) = i" "range_begin (new_range i b) = b"
  by (simp_all add: new_range_def)

lemma open_scope_first:
  assumes "ranges p = []" and "scopes p = []"
  shows "yields (open_scope p) (\<lambda>p'. \<exists>t. table_ok t \<and> xht_size t = 0 \<and> p' = p\<lparr>scopes := [t], ranges := [new_range 0 (here p)]\<rparr>)"
  unfolding open_scope_def Let_def
  using assms by (auto simp: push_range_def new_range_def here_def intro!: yields_conseq [OF table_ok_new])

lemma open_scope_next:
  assumes "rstate p rb rs r"
  shows "yields (open_scope p) (\<lambda>p'. \<exists>t. table_ok t \<and> xht_size t = 0 \<and> p' = p\<lparr>scopes := scopes p @ [t],
    ranges := rb @ rs @ [r\<lparr>range_end := here p\<rparr>] @ [new_range (length (scopes p)) (here p)]\<rparr>)"
  unfolding open_scope_def Let_def
  using assms by (auto simp: push_range_def new_range_def here_def rstate_def fixup_last_range_end_def butlast_append
      intro!: yields_conseq [OF table_ok_new])

lemma close_positions_append:
  "close_positions t (is @ js) p c m =
     do { (p, c, m) \<leftarrow> close_positions t is p c m; close_positions t js p c m }"
  by (induction "is" arbitrary: p c m) (simp_all add: Let_def split: Option.bind_split)

lemma close_ranges_eq:
  "close_ranges t rs p c m = close_positions t (concat (map (\<lambda>r. [range_begin r..<range_end r]) rs)) p c m"
  by (induction rs arbitrary: p c m) (simp_all add: close_positions_append case_prod_beta')

lemma close_scope_ok:
  assumes W: "setting_ok W" "glob W p" and r: "rstate p rb rs r" and F: "pcode p = X @ map fst F" "walk c 0 F = Some d1"
    and pos: "opos rs r (here p) = own_at c (length X) F"
    and n: "length (idents p) < 2 ^ 30" "xht_size (last (scopes p)) < 2 ^ 31" "length F < 2 ^ 31" and t: "table_ok (last (scopes p))"
    and raw: "\<forall>x \<in> set F. fst (snd x) = c \<longrightarrow> raw_ok (lims c p) (fst x) \<and> fst (effect (fst x)) \<le> snd (snd x) \<and> snd (effect (fst x)) \<le> 1"
  shows "runs W (close_scope p) (\<lambda>(mx, nloc) p'. nloc = xht_size (last (scopes p)) \<and> mx \<le> length F \<and> glob W p' \<and> (\<exists>F' ts g.
    map ti_instr ts = X @ map fst F' \<and> length ts = length (prog p) \<and> length (g_data (ps_globals p)) \<le> length (g_data g) \<and>
    (\<forall>L. k_own L = c \<longrightarrow> k_locals L = nloc \<longrightarrow> length (g_data g) \<le> k_globals L \<longrightarrow> list_all2 (closes L mx) F F') \<and>
    p' = p\<lparr>prog := ts, ps_globals := g, scopes := butlast (scopes p),
      ranges := rb @ (if butlast (scopes p) = [] then [] else [new_range (length (scopes p) - 2) (here p)])\<rparr>))"
proof -
  let ?t = "last (scopes p)" and ?n = "length (scopes p) - 1" and ?r = "r\<lparr>range_end := here p\<rparr>"
  define R where "R = rb @ rs @ [?r]"
  have sc: "scopes p \<noteq> []" "ranges p = rb @ rs @ [r]" using r by (simp_all add: rstate_def)
  let ?p = "p\<lparr>ranges := R\<rparr>"
  have upd: "fixup_last_range_end p (here p) = Some ?p" using sc by (simp add: fixup_last_range_end_def butlast_append R_def)
  have "takeWhile (\<lambda>r. scope_index r = ?n) (rev R) = rev (rs @ [?r])"
  proof -
    have "\<And>x. x \<in> set (rev (rs @ [?r])) \<Longrightarrow> scope_index x = ?n" using r by (auto simp: rstate_def)
    then have "takeWhile (\<lambda>r. scope_index r = ?n) (rev (rs @ [?r]) @ rev rb) = rev (rs @ [?r]) @ takeWhile (\<lambda>r. scope_index r = ?n) (rev rb)"
      by (rule takeWhile_append2)
    moreover have "takeWhile (\<lambda>r. scope_index r = ?n) (rev rb) = []"
      using r by (cases rb rule: rev_cases) (auto simp: rstate_def)
    ultimately show ?thesis by (simp add: R_def)
  qed
  then have nr: "length R - nranges_for_scope_index R ?n = length rb"
    by (simp add: nranges_for_scope_index_def R_def)
  have R: "take (length rb) R = rb" "drop (length rb) R = rs @ [?r]" by (simp_all add: R_def)
  have "concat (map (\<lambda>r. [range_begin r..<range_end r]) (rs @ [?r])) = own_at c (length X) F"
    using pos by (simp add: opos_def)
  moreover have "yields (close_positions ?t (own_at c (length X) F) ?p (of_nat 0) (of_nat 0)) (closed_up W c (xht_size ?t) ?p X F [] d1 0)"
  proof (rule close_positions_ok [OF _ F(2) W(1) _ _ t n(2)])
    have "lims c ?p = lims c p" by (simp add: lims_def)
    then show "\<forall>x \<in> set F. fst (snd x) = c \<longrightarrow> raw_ok (lims c ?p) (fst x) \<and> fst (effect (fst x)) \<le> snd (snd x) \<and> snd (effect (fst x)) \<le> 1"
      using raw by simp
  qed (use F(1) W(2) n in \<open>simp_all add: glob_def\<close>)
  ultimately have "yields (close_ranges ?t (drop (length rb) R) ?p 0 0) (closed_up W c (xht_size ?t) ?p X F [] d1 0)"
    by (simp add: close_ranges_eq R(2))
  then obtain p' w u where run: "close_ranges ?t (drop (length rb) R) ?p 0 0 = Some (p', w, u)"
    and cl: "closed_up W c (xht_size ?t) ?p X F [] d1 0 (p', w, u)" by (auto simp: yields_iff_ex)
  from cl show ?thesis
  proof (cases rule: closed_upE)
    case h: (1 F' k g)
    have k: "k < 2 ^ 31" "unat (of_nat k :: 64 word) = k" using h(4) n(3) by (simp_all add: unat_of_nat take_bit_nat_eq_self)
    have nl: "xht_size ?t mod 2 ^ 32 = xht_size ?t" using n(2) by simp
    define ts where "ts = prog p'"
    have p': "p' = p\<lparr>prog := ts, ps_globals := g, ranges := R\<rparr>" using h(6) [folded ts_def] by simp
    let ?q = "p\<lparr>prog := ts, ps_globals := g, scopes := butlast (scopes p),
      ranges := rb @ (if butlast (scopes p) = [] then [] else [new_range (length (scopes p) - 2) (here p)])\<rparr>"
    have "close_scope p = ok (k, xht_size ?t) ?q"
    proof -
      have "\<not> SIZE_MAX div 2 < k" "\<not> UINT32_MAX div 2 < xht_size ?t" using k(1) n(2) by (simp_all add: SIZE_MAX_def UINT32_MAX_def)
      moreover have "length (scopes p) - Suc (Suc 0) = length (scopes p) - 2" by simp
      ultimately show ?thesis
        using sc upd nr run nl k(2) h(2) by (simp add: close_scope_def p' R(1) push_range_def new_range_def Let_def) (cases p, simp)
    qed
    moreover have "glob W ?q" using h(8) by (simp add: p' glob_def)
    ultimately show ?thesis
      using h(4,5,7,9,10) by (auto simp: ts_def intro!: exI [of _ F'] exI [of _ g])
  qed
qed

end
