(* ===== verification/Parser_Stmt_Types.thy ===== *)
theory Parser_Stmt_Types
  imports Parser_Scopes
begin

text \<open>
  Statements append fragments that start and end with an empty stack, with the pending jumps of \<open>break\<close> and
  \<open>continue\<close>; a source compiles to code that the verifier accepts. As before this is total correctness.
\<close>

section \<open>What a part of a statement adds\<close>

text \<open>
  Code \<open>F\<close> of the function \<open>c\<close> is appended; \<open>js\<close>, \<open>bs\<close> and \<open>cs\<close> are the indices in \<open>F\<close> of the pending jumps that are
  pushed. The scopes around are as they were, and the ranges of the scope grow by the code of the function.
\<close>

definition frame :: "nat \<Rightarrow> item list \<Rightarrow> nat list \<Rightarrow> nat list \<Rightarrow> nat list \<Rightarrow> parser \<Rightarrow> parser \<Rightarrow> bool" where
  "frame c F js bs cs p p' \<longleftrightarrow> pcode p' = pcode p @ map fst F \<and> grows (lims c p) (lims c p') \<and>
     s_if p' = map ((+) (here p)) js @ s_if p \<and> s_break p' = map ((+) (here p)) bs @ s_break p \<and>
     s_continue p' = map ((+) (here p)) cs @ s_continue p \<and> list_all (pend (lims c p') F) (js @ bs @ cs) \<and>
     (hd (s_break p) = SIZE_MAX \<longrightarrow> bs = []) \<and> (hd (s_continue p) = SIZE_MAX \<longrightarrow> cs = []) \<and>
     length (scopes p') = length (scopes p) \<and> butlast (scopes p') = butlast (scopes p) \<and>
     (\<forall>rb rs r. rstate p rb rs r \<longrightarrow> (\<exists>rs' r'. rstate p' rb rs' r' \<and> opos rs' r' (here p') = opos rs r (here p) @ own_at c (here p) F)) \<and>
     hushed p p' \<and> (silent p \<longrightarrow> ranges p' = ranges p \<and> (\<forall>x \<in> set F. fst (snd x) = c)) \<and> pm p' \<le> pm p"

definition ctx :: "nat \<Rightarrow> parser \<Rightarrow> bool" where
  "ctx c p \<longleftrightarrow> s_if p \<noteq> [] \<and> s_break p \<noteq> [] \<and> s_continue p \<noteq> [] \<and> c < length (ps_shapes p) \<and> (\<exists>rb rs r. rstate p rb rs r)"

lemma frame_here: "frame c F js bs cs p p' \<Longrightarrow> here p' = here p + length F"
  unfolding frame_def here_def by (metis length_append length_map)

lemma frame_refl [simp]: "frame c [] [] [] [] p p"
  unfolding frame_def by auto

lemma frame_grows: "frame c F js bs cs p p' \<Longrightarrow> grows (lims c p) (lims c p')"
  by (simp add: frame_def)

lemma frame_ctx: "frame c F js bs cs p p' \<Longrightarrow> ctx c p \<Longrightarrow> ctx c p'"
proof -
  assume f: "frame c F js bs cs p p'" and x: "ctx c p"
  have "\<exists>rb rs r. rstate p' rb rs r" using f x unfolding frame_def ctx_def by blast
  moreover have "length (ps_shapes p) \<le> length (ps_shapes p')"
    using frame_grows [OF f] by (auto simp: grows_def dest: prefix_length_le)
  ultimately show ?thesis using f x by (simp add: frame_def ctx_def)
qed

lemma frame_pm: "frame c F js bs cs p p' \<Longrightarrow> pm p' \<le> pm p"
  by (simp add: frame_def)

lemma list_all_map_plus: "list_all P (map ((+) n) xs) \<longleftrightarrow> list_all (\<lambda>i. P (n + i)) xs"
  by (simp add: list.pred_map comp_def)

lemma frame_trans:
  assumes pq: "frame c F js bs cs p q" and qr: "frame c G js' bs' cs' q r"
  shows "frame c (F @ G) (map ((+) (length F)) js' @ js) (map ((+) (length F)) bs' @ bs) (map ((+) (length F)) cs' @ cs) p r"
proof -
  note h = frame_here [OF pq]
  have eq: "map ((+) (here q)) xs @ map ((+) (here p)) ys @ zs = map ((+) (here p)) (map ((+) (length F)) xs @ ys) @ zs" for xs ys zs
    by (simp add: h add.assoc comp_def)
  have "list_all (pend (lims c r) F) (js @ bs @ cs)"
  proof -
    have "pend (lims c r) F = pend (lims c q) F" using pend_grows [OF frame_grows [OF qr]] by auto
    then show ?thesis using pq by (simp add: frame_def)
  qed
  then have "list_all (pend (lims c r) (F @ G)) (js @ bs @ cs)" by (auto simp: list_all_iff intro: pend_append1)
  moreover have "list_all (\<lambda>i. pend (lims c r) (F @ G) (length F + i)) (js' @ bs' @ cs')"
    using qr by (auto simp: frame_def list_all_iff intro: pend_append2)
  moreover have "\<exists>rs' r'. rstate r rb rs' r' \<and> opos rs' r' (here r) = opos rs x (here p) @ own_at c (here p) (F @ G)"
    if x: "rstate p rb rs x" for rb rs x
  proof -
    obtain rs1 x1 where 1: "rstate q rb rs1 x1" "opos rs1 x1 (here q) = opos rs x (here p) @ own_at c (here p) F"
      using pq x unfolding frame_def by blast
    obtain rs2 x2 where 2: "rstate r rb rs2 x2" "opos rs2 x2 (here r) = opos rs1 x1 (here q) @ own_at c (here q) G"
      using qr 1(1) unfolding frame_def by blast
    show ?thesis using 1 2 h by (auto simp: own_at_append)
  qed
  moreover have "hd (s_break p) = SIZE_MAX \<longrightarrow> bs' = [] \<and> bs = []" "hd (s_continue p) = SIZE_MAX \<longrightarrow> cs' = [] \<and> cs = []"
    using pq qr by (auto simp: frame_def)
  moreover have h: "hushed p q" "hushed q r" using pq qr by (simp_all add: frame_def)
  then have "hushed p r" by (rule hushed_trans)
  moreover have "ranges r = ranges p \<and> (\<forall>x \<in> set (F @ G). fst (snd x) = c)" if "silent p"
    using pq qr that hushed_silent [OF h(1) that] unfolding frame_def by auto
  moreover have "pm r \<le> pm p" using frame_pm [OF pq] frame_pm [OF qr] by simp
  moreover note grows_trans [OF frame_grows [OF pq] frame_grows [OF qr]]
  moreover have "pcode r = pcode p @ map fst (F @ G)" "length (scopes r) = length (scopes p)" "butlast (scopes r) = butlast (scopes p)"
    "s_if r = map ((+) (here p)) (map ((+) (length F)) js' @ js) @ s_if p"
    "s_break r = map ((+) (here p)) (map ((+) (length F)) bs' @ bs) @ s_break p"
    "s_continue r = map ((+) (here p)) (map ((+) (length F)) cs' @ cs) @ s_continue p"
    using pq qr unfolding frame_def by (simp_all only: eq map_append append_assoc)
  ultimately show ?thesis
    unfolding frame_def by (intro conjI allI impI) (simp_all add: list_all_map_plus)
qed

text \<open>Changing operands of jumps.\<close>

lemma frame_code:
  assumes f: "frame c F js bs cs p q" and ts: "map ti_instr ts = pcode p @ map fst G" and snd: "map snd G = map snd F"
    and pend: "list_all (pend (lims c q) G) (js @ bs @ cs)"
  shows "frame c G js bs cs p (q\<lparr>prog := ts\<rparr>)"
proof -
  let ?q = "q\<lparr>prog := ts\<rparr>"
  have "length G = length F" using snd by (metis length_map)
  moreover have "length ts = length (pcode p @ map fst G)" by (metis length_map ts)
  ultimately have len: "here ?q = here q" using frame_here [OF f] by (simp add: here_def)
  have lims: "lims c ?q = lims c q" by (simp add: lims_def)
  have "(\<forall>x \<in> set G. fst (snd x) = c) \<longleftrightarrow> (\<forall>x \<in> set F. fst (snd x) = c)"
    using snd by (metis (mono_tags, lifting) image_iff list.set_map)
  moreover have "rstate ?q rb rs r = rstate q rb rs r" for rb rs r using len by (simp add: rstate_def)
  moreover have "hushed p ?q = hushed p q" by (rule ahead_same) (simp add: ahead_def)
  moreover have "pm ?q = pm q" by (simp add: pm_def)
  moreover have "own_at c (here p) G = own_at c (here p) F" using snd by (rule own_at_snd)
  ultimately show ?thesis using f ts pend len lims by (simp add: frame_def)
qed

lemma rstate_emits:
  assumes "emits p is p'" and "rstate p rb rs r"
  shows "rstate p' rb rs r" and "here p' = here p + length is" and "range_begin r \<le> here p"
  using assms by (auto simp: emits_def rstate_def here_def)

lemma emits_frame:
  assumes e: "emits p (map fst F) p'" and own: "\<forall>x \<in> set F. fst (snd x) = c"
  shows "frame c F [] [] [] p p'"
proof -
  have r: "\<exists>rs' r'. rstate p' rb rs' r' \<and> opos rs' r' (here p') = opos rs r (here p) @ own_at c (here p) F"
    if "rstate p rb rs r" for rb rs r
  proof (intro exI conjI)
    show "rstate p' rb rs r" by (rule rstate_emits(1) [OF e that])
    show "opos rs r (here p') = opos rs r (here p) @ own_at c (here p) F"
      using rstate_emits(2,3) [OF e that] opos_more [of r "here p" "here p'" rs] by (simp add: own_at_all [OF own])
  qed
  show ?thesis
    unfolding frame_def using e own emits_grows [OF e, of c] by (intro conjI allI impI r) (auto simp: emits_def)
qed

lemma reads_frame: "reads p p' \<Longrightarrow> frame c [] [] [] [] p p'"
  by (rule emits_frame) (simp_all add: reads_emits)

text \<open>A part of a statement: its code is a fragment, and the jumps of \<open>if\<close> are set.\<close>

definition ext :: "nat \<Rightarrow> nat \<Rightarrow> item list \<Rightarrow> nat list \<Rightarrow> nat list \<Rightarrow> nat \<Rightarrow> parser \<Rightarrow> parser \<Rightarrow> bool" where
  "ext c d0 F bs cs d1 p p' \<longleftrightarrow> frame c F [] bs cs p p' \<and> frag (lims c p') d0 F d1"

lemma ext_trans:
  "ext c a F bs cs b p q \<Longrightarrow> ext c b G bs' cs' d q r \<Longrightarrow>
   ext c a (F @ G) (map ((+) (length F)) bs' @ bs) (map ((+) (length F)) cs' @ cs) d p r"
  using frame_trans [of c F "[]" bs cs p q G "[]" bs' cs' r] frag_append frag_grows [OF frame_grows]
  unfolding ext_def by fastforce

lemma post_ext: "post W M a b p p' \<Longrightarrow> \<exists>F. ext c a F [] [] b p p'"
proof -
  assume "post W M a b p p'"
  then obtain "is" where "emits p is p'" "pure (lims c p') a is b" by (auto simp: post_def does_def)
  then have "ext c a (annot c a is) [] [] b p p'"
    using frag_pure [of "lims c p'" a "is" b] annot_own by (auto simp: ext_def intro!: emits_frame)
  then show ?thesis by blast
qed

section \<open>Setting jumps\<close>

lemma fixup_jump_ok:
  assumes code: "pcode p = X @ map fst F @ Z" and i: "i < length F" and op: "opcode (fst (F ! i)) \<in> {OP_JUMP, OP_JUMP_UNLESS}"
  obtains ts where "fixup_jump p (length X + i) t = Some (p\<lparr>prog := ts\<rparr>)"
    and "map ti_instr ts = X @ map fst (set_jump F i (int t - int (length X))) @ Z"
proof
  let ?j = "length X + i" and ?n = "of_int (int t - int (length X + i)) :: 32 word"
  have len: "?j < length (prog p)" using arg_cong [OF code, of length] i by simp
  have at: "ti_instr (prog p ! ?j) = fst (F ! i)"
    using arg_cong [OF code, of "\<lambda>l. l ! ?j"] len i by (simp add: nth_append)
  let ?ts = "(prog p)[?j := (prog p ! ?j)\<lparr>ti_instr := (fst (F ! i))\<lparr>in_c := ?n\<rparr>\<rparr>]"
  show "fixup_jump p ?j t = Some (p\<lparr>prog := ?ts\<rparr>)"
    using len op by (auto simp: fixup_jump_def Let_def at)
  have "fst (F ! i)\<lparr>in_c := ?n\<rparr> = jump_by (fst (F ! i)) (int t - int (length X) - int i)"
    by (simp add: jump_by_def)
  then show "map ti_instr ?ts = X @ map fst (set_jump F i (int t - int (length X))) @ Z"
    using code i by (simp add: map_update set_jump_def list_update_append)
qed

lemma fixup_jumps_ok:
  assumes "pcode p = X @ map fst F" and "list_all (pend K F) is" and "length X + length F \<le> SEGMENT"
  shows "\<exists>ts. stack_segment_end_fixup p (map ((+) (length X)) is @ SEGMENT # rest) t = Some (rest, p\<lparr>prog := ts\<rparr>) \<and>
    map ti_instr ts = X @ map fst (set_jumps F is (int t - int (length X)))"
  using assms
proof (induction "is" arbitrary: p F)
  case Nil
  then show ?case by (intro exI [of _ "prog p"]) simp
next
  case (Cons i "is")
  let ?t = "int t - int (length X)"
  have i: "i < length F" "opcode (fst (F ! i)) \<in> {OP_JUMP, OP_JUMP_UNLESS}" "pend K F i" using Cons.prems(2) by (auto simp: pend_def)
  obtain ts where f: "fixup_jump p (length X + i) t = Some (p\<lparr>prog := ts\<rparr>)" "map ti_instr ts = X @ map fst (set_jump F i ?t)"
    by (rule fixup_jump_ok [of p X F "[]", simplified, OF Cons.prems(1) i(1)]) (use i(2) in auto)
  have "list_all (pend K (set_jump F i ?t)) is" using Cons.prems(2) i(3) by (simp add: list_all_iff pend_set_jump)
  from Cons.IH [of "p\<lparr>prog := ts\<rparr>", OF _ this] f(2) Cons.prems(3) f(1) i(1) show ?case by auto
qed

lemma set_jumps_append:
  "list_all (\<lambda>i. i < length F) is \<Longrightarrow> set_jumps (F @ G) is t = set_jumps F is t @ G"
  by (induction "is" arbitrary: F) (simp_all add: set_jump_def list_update_append nth_append)

lemma set_jumps_shift:
  "list_all (\<lambda>i. i < length G) is \<Longrightarrow>
   set_jumps (F @ G) (map ((+) (length F)) is) t = F @ set_jumps G is (t - int (length F))"
  by (induction "is" arbitrary: G) (simp_all add: set_jump_def list_update_append nth_append algebra_simps)

lemma pend_length: "list_all (pend K F) is \<Longrightarrow> list_all (\<lambda>i. i < length F) is"
  by (auto simp: list_all_iff pend_def)

lemma ext_pend: "ext c a F bs cs d p p' \<Longrightarrow> list_all (pend (lims c p') F) bs \<and> list_all (pend (lims c p') F) cs"
  by (simp add: ext_def frame_def)

section \<open>The specification of \<open>stmt\<close>\<close>

definition stmts :: "nat \<Rightarrow> parser \<Rightarrow> parser \<Rightarrow> bool" where
  "stmts c p p' \<longleftrightarrow> (\<exists>F bs cs. ext c 0 F bs cs 0 p p')"

lemma stmts_refl [simp]: "stmts c p p"
  unfolding stmts_def ext_def by (intro exI [of _ "[]"]) simp

lemma stmts_trans [trans]: "stmts c p q \<Longrightarrow> stmts c q r \<Longrightarrow> stmts c p r"
  unfolding stmts_def using ext_trans by blast

lemma stmts_ctx: "stmts c p q \<Longrightarrow> ctx c p \<Longrightarrow> ctx c q"
  by (auto simp: stmts_def ext_def intro: frame_ctx)

lemma stmts_pm: "stmts c p q \<Longrightarrow> pm q \<le> pm p"
  by (auto simp: stmts_def ext_def dest: frame_pm)

text \<open>Statements between braces.\<close>

lemma frame_moves:
  assumes "frame c F js bs cs q r" and "moves p q" and "moves r s" and h: "hushed q r \<Longrightarrow> hushed p s" "silent p \<Longrightarrow> silent q"
  shows "frame c F js bs cs p s"
proof -
  obtain l x l' x' where q: "q = p\<lparr>ps_cur := l, ps_lexer := x\<rparr>" and s: "s = r\<lparr>ps_cur := l', ps_lexer := x'\<rparr>"
    using assms(2,3) by (auto simp: moves_def)
  have "lims c q = lims c p" "here q = here p" "lims c s = lims c r" "here s = here r" "rstate q = rstate p" "rstate s = rstate r"
    by (auto simp: q s lims_def here_def rstate_def fun_eq_iff)
  then show ?thesis
    using assms(1) moves_pm [OF assms(2)] moves_pm [OF assms(3)] h unfolding frame_def by (auto simp: q s)
qed

lemma stmts_braces:
  assumes p: "enters p q" and q: "stmts c q r" and r: "leaves r s"
  shows "stmts c p s"
proof -
  obtain F bs cs where F: "frame c F [] bs cs q r" "frag (lims c r) 0 F 0" using q by (auto simp: stmts_def ext_def)
  have "frame c F [] bs cs p s" using p r by (intro frame_moves [OF F(1)]) (auto simp: enters_def leaves_def hushed_def silent_def)
  then show ?thesis using F(2) leaves_lims [OF r] by (auto simp: stmts_def ext_def)
qed

lemma reads_stmts: "reads p q \<Longrightarrow> stmts c p q"
  unfolding stmts_def ext_def using reads_frame by (intro exI [of _ "[]"]) simp

lemma ctx_reads: "reads p q \<Longrightarrow> ctx c p \<Longrightarrow> ctx c q"
  by (rule stmts_ctx [OF reads_stmts])

definition stmt_spec :: "setting \<Rightarrow> (parser \<Rightarrow> unit res) \<Rightarrow> nat \<Rightarrow> bool" where
  "stmt_spec W st m \<longleftrightarrow> (\<forall>M c p. M \<le> 2 ^ 29 \<longrightarrow> pinv W M p \<longrightarrow> ctx c p \<longrightarrow> pm p < m \<longrightarrow>
     runs W (st p) (\<lambda>_ p'. pinv W M p' \<and> stmts c p p' \<and> (if cur_kind p \<in> {LK_EOF, LK_RBRACE} then p' = p else pm p' < pm p)))"

lemma stmt_specD:
  "stmt_spec W st m \<Longrightarrow> M \<le> 2 ^ 29 \<Longrightarrow> pinv W M p \<Longrightarrow> ctx c p \<Longrightarrow> pm p < m \<Longrightarrow>
   runs W (st p) (\<lambda>_ p'. pinv W M p' \<and> stmts c p p' \<and> (if cur_kind p \<in> {LK_EOF, LK_RBRACE} then p' = p else pm p' < pm p))"
  by (simp add: stmt_spec_def)

section \<open>Blocks\<close>

definition closed_stmts :: "nat \<Rightarrow> parser \<Rightarrow> parser \<Rightarrow> bool" where
  "closed_stmts c p p' \<longleftrightarrow> (\<exists>q. stmts c p q \<and> leaves q p')"

lemma closed_stmts_pm: "closed_stmts c p p' \<Longrightarrow> pm p' < pm p"
  using stmts_pm leaves_pm(1) less_le_trans unfolding closed_stmts_def by blast

lemma closed_stmts_before: "stmts c p q \<Longrightarrow> closed_stmts c q r \<Longrightarrow> closed_stmts c p r"
  by (auto simp: closed_stmts_def intro: stmts_trans)

lemma closed_stmts_braces: "enters p q \<Longrightarrow> closed_stmts c q r \<Longrightarrow> stmts c p r"
  by (auto simp: closed_stmts_def intro: stmts_braces)

lemma block_loop_ok:
  assumes st: "stmt_spec W st m" and M: "M \<le> 2 ^ 29"
  shows "pinv W M p \<Longrightarrow> ctx c p \<Longrightarrow> pm p < m \<Longrightarrow> pm p < k \<Longrightarrow>
    runs W (block_loop st k p) (\<lambda>_ p'. pinv W M p' \<and> closed_stmts c p p')"
proof (induction k arbitrary: p)
  case (Suc k)
  let ?Q = "\<lambda>_ p'. pinv W M p' \<and> closed_stmts c p p'"
  show ?case
    unfolding block_loop.simps
  proof (rule runs_andthen [OF stmt_specD [OF st M Suc.prems(1,2,3)]], elim conjE)
    fix p1
    assume p1: "pinv W M p1" "stmts c p p1" and pm: "if cur_kind p \<in> {LK_EOF, LK_RBRACE} then p1 = p else pm p1 < pm p"
    show "runs W (if cur_kind p1 = LK_EOF then throw_error_at p1 (''expected '' @ quoted ''}'') (ps_cur p1)
       else if cur_kind p1 = LK_RBRACE then advance p1 else block_loop st k p1) ?Q"
    proof (intro runs_if)
      assume "cur_kind p1 = LK_RBRACE"
      then show "runs W (advance p1) ?Q"
        by (intro runs_conseq [OF advance_leaves [OF p1(1)]])
          (use p1(2) pinv_mono in \<open>auto simp: closed_stmts_def\<close>)
    next
      assume "cur_kind p1 \<noteq> LK_EOF" "cur_kind p1 \<noteq> LK_RBRACE"
      then have "pm p1 < pm p" using pm by (auto split: if_splits)
      then show "runs W (block_loop st k p1) ?Q"
        using Suc.prems closed_stmts_before [OF p1(2)]
        by (intro runs_conseq [OF Suc.IH [OF p1(1) stmts_ctx [OF p1(2)]]]) auto
    qed (use p1 in auto)
  qed
qed simp

text \<open>The opening brace, which enters a level.\<close>

lemma slurp_brace:
  assumes "pinv W M p" and "\<And>p'. pinv W (M - 2) p' \<Longrightarrow> enters p p' \<Longrightarrow> runs W (f () p') Q"
  shows "runs W (andthen (slurp p LK_LBRACE msg) f) Q"
proof (rule runs_andthen)
  show "runs W (slurp p LK_LBRACE msg) (\<lambda>_ p'. pinv W (M - 2) p' \<and> enters p p')"
    unfolding slurp_def
    by (rule runs_if) (use assms(1) in \<open>auto simp: pinv_def core_def intro!: runs_conseq [OF advance_enters [OF assms(1)]]\<close>)
  show "runs W (f x p') Q" if "pinv W (M - 2) p' \<and> enters p p'" for x p' using assms(2) that by (cases x) simp
qed

lemma block_ok:
  assumes st: "stmt_spec W st m" and M: "M \<le> 2 ^ 29" and p: "pinv W M p" "ctx c p" "pm p \<le> m" "pm p \<le> k"
  shows "runs W (block st k p) (\<lambda>_ p'. pinv W (M - 2) p' \<and> stmts c p p' \<and> pm p' < pm p)"
  unfolding block_def
proof (rule slurp_brace [OF p(1)])
  fix p1 assume p1: "pinv W (M - 2) p1" "enters p p1"
  obtain l x where "p1 = p\<lparr>ps_cur := l, ps_lexer := x\<rparr>" using p1(2) by (auto simp: enters_def moves_def)
  then have ctx: "ctx c p1" using p(2) by (simp add: ctx_def rstate_def here_def)
  have "runs W (block_loop st k p1) (\<lambda>_ p'. pinv W (M - 2) p' \<and> closed_stmts c p1 p')"
    using M p leaves_pm(2) [OF p1(2)] by (intro block_loop_ok [OF st _ p1(1) ctx]) simp_all
  then show "runs W (block_loop st k p1) (\<lambda>_ p'. pinv W (M - 2) p' \<and> stmts c p p' \<and> pm p' < pm p)"
    by (rule runs_conseq) (use closed_stmts_braces [OF p1(2)] less_trans [OF closed_stmts_pm leaves_pm(2) [OF p1(2)]] in auto)
qed

section \<open>Conditions\<close>

lemma stacks_update [simp]:
  "pinv W M (p\<lparr>s_if := x\<rparr>) = pinv W M p" "pinv W M (p\<lparr>s_break := x\<rparr>) = pinv W M p" "pinv W M (p\<lparr>s_continue := x\<rparr>) = pinv W M p"
  "here (p\<lparr>s_if := x\<rparr>) = here p" "here (p\<lparr>s_break := x\<rparr>) = here p" "here (p\<lparr>s_continue := x\<rparr>) = here p"
  "lims c (p\<lparr>s_if := x\<rparr>) = lims c p" "lims c (p\<lparr>s_break := x\<rparr>) = lims c p" "lims c (p\<lparr>s_continue := x\<rparr>) = lims c p"
  "rstate (p\<lparr>s_if := x\<rparr>) rb rs r = rstate p rb rs r" "rstate (p\<lparr>s_break := x\<rparr>) rb rs r = rstate p rb rs r"
  "rstate (p\<lparr>s_continue := x\<rparr>) rb rs r = rstate p rb rs r"
  "silent (p\<lparr>s_if := x\<rparr>) = silent p" "silent (p\<lparr>s_break := x\<rparr>) = silent p" "silent (p\<lparr>s_continue := x\<rparr>) = silent p"
  "hushed (p\<lparr>s_if := x\<rparr>) q = hushed p q" "hushed (p\<lparr>s_break := x\<rparr>) q = hushed p q" "hushed (p\<lparr>s_continue := x\<rparr>) q = hushed p q"
  "hushed q (p\<lparr>s_if := x\<rparr>) = hushed q p" "hushed q (p\<lparr>s_break := x\<rparr>) = hushed q p" "hushed q (p\<lparr>s_continue := x\<rparr>) = hushed q p"
  "pm (p\<lparr>s_if := x\<rparr>) = pm p" "pm (p\<lparr>s_break := x\<rparr>) = pm p" "pm (p\<lparr>s_continue := x\<rparr>) = pm p"
  by (simp_all add: pinv_def core_def glob_def lexing_def bounded_def here_def lims_def rstate_def silent_def hushed_def no_fun_def ahead_def pm_def)

lemma pinv_prog:
  assumes "pinv W M p" and "length ts = length (prog p)"
  shows "pinv W M (p\<lparr>prog := ts\<rparr>)"
proof -
  have "pm (p\<lparr>prog := ts\<rparr>) = pm p" "ahead (p\<lparr>prog := ts\<rparr>) = ahead p" by (simp_all add: pm_def ahead_def)
  then show ?thesis using assms by (simp add: pinv_def core_def glob_def lexing_def bounded_def)
qed

definition clause :: "nat \<Rightarrow> nat \<Rightarrow> parser \<Rightarrow> parser \<Rightarrow> bool" where
  "clause c pos p p' \<longleftrightarrow> (\<exists>C ins B bs cs. frame c (C @ (ins, c, 1) # B) [] bs cs p p' \<and> frag (lims c p') 0 C 1 \<and>
     frag (lims c p') 0 B 0 \<and> opcode ins = OP_JUMP_UNLESS \<and> pos = here p + length C)"

lemma clauseI:
  assumes C: "ext c 0 C [] [] 1 p q" and e: "emits q [ins] q'" and op: "opcode ins = OP_JUMP_UNLESS" and B: "stmts c q' r"
  shows "clause c (here q) p r"
proof -
  obtain B bs cs where B: "ext c 0 B bs cs 0 q' r" using B by (auto simp: stmts_def)
  have "frame c [(ins, c, 1)] [] [] [] q q'" by (rule emits_frame) (use e in simp_all)
  then have "frame c (C @ [(ins, c, 1)]) [] [] [] p q'"
    using frame_trans [of c C "[]" "[]" "[]" p q] C by (fastforce simp: ext_def)
  then obtain bs' cs' where "frame c (C @ (ins, c, 1) # B) [] bs' cs' p r"
    using frame_trans [of c "C @ [(ins, c, 1)]" "[]" "[]" "[]" p q' B "[]" bs cs r] B by (simp add: ext_def)
  moreover have "frag (lims c r) 0 C 1"
    using C B e by (auto simp: ext_def intro: frag_grows [OF grows_trans [OF emits_grows frame_grows]])
  moreover have "here q = here p + length C" using C by (auto simp: ext_def dest: frame_here)
  ultimately show ?thesis using op B unfolding clause_def ext_def by blast
qed

lemma reads_here: "reads p q \<Longrightarrow> here q = here p"
  by (auto simp: reads_def moves_def here_def)

lemma clause_reads:
  assumes "reads p q" and "clause c pos q r"
  shows "clause c pos p r"
proof -
  obtain C ins B bs cs where "frame c (C @ (ins, c, 1) # B) [] bs cs q r" "frag (lims c r) 0 C 1"
    "frag (lims c r) 0 B 0" "opcode ins = OP_JUMP_UNLESS" "pos = here q + length C"
    using assms(2) by (auto simp: clause_def)
  then show ?thesis
    using frame_trans [OF reads_frame [OF assms(1), of c], of "C @ (ins, c, 1) # B" "[]" bs cs r] reads_here [OF assms(1)]
    unfolding clause_def by simp blast
qed

text \<open>A condition and the block that depends on it.\<close>

lemma cond_block_then:
  assumes ex: "expr_spec W ex m" and st: "stmt_spec W st m" and M: "M \<le> 2 ^ 29" and p: "pinv W M p" "ctx c p" "pm p < m" "pm p < k"
    and f: "\<And>pos p'. pinv W (M - 3) p' \<Longrightarrow> clause c pos p p' \<Longrightarrow> pm p' < pm p \<Longrightarrow> runs W (f pos p') Q"
  shows "runs W (andthen (ex (-1) p) (\<lambda>_ p. let (jump_pos, p) = postpone_jump_unless p in
       andthen (slurp p LK_RPAREN msg) (\<lambda>_ p. andthen (block st k p) (\<lambda>_ p. f jump_pos p)))) Q"
proof (rule expr_then [OF ex M p(1,3)])
  fix q assume q: "post W M 0 1 p q"
  then obtain C where C: "ext c 0 C [] [] 1 p q" using post_ext by blast
  let ?ins = "mk_instr OP_JUMP_UNLESS 0 0"
  let ?q = "emit q ?ins"
  have inv: "pinv W (M + 1) ?q" using q by (intro pinv_emit(2)) blast
  show "runs W (let (jump_pos, p) = postpone_jump_unless q in
       andthen (slurp p LK_RPAREN msg) (\<lambda>_ p. andthen (block st k p) (\<lambda>_ p. f jump_pos p))) Q"
    unfolding postpone_jump_unless_def Let_def prod.case
  proof (rule slurp_then [OF inv])
    fix q1 assume q1: "pinv W (M + 1 - 2) q1" "reads ?q q1"
    have "frame c [(?ins, c, 1)] [] [] [] q ?q" by (rule emits_frame) (simp_all add: emits_emit)
    then have ctx: "ctx c q1"
      using C p(2) ctx_reads [OF q1(2)] by (auto simp: ext_def dest: frame_ctx)
    have pm: "pm q1 < pm p" using post_pm [OF q] reads_pm [OF q1(2)] by simp
    have "runs W (block st k q1) (\<lambda>_ p'. pinv W (M + 1 - 2 - 2) p' \<and> stmts c q1 p' \<and> pm p' < pm q1)"
      using M p pm by (intro block_ok [OF st _ q1(1) ctx]) simp_all
    then show "runs W (andthen (block st k q1) (\<lambda>_ p. f (here q) p)) Q"
    proof (rule runs_andthen, elim conjE)
      fix q2 assume q2: "pinv W (M + 1 - 2 - 2) q2" "stmts c q1 q2" "pm q2 < pm q1"
      have "clause c (here q) p q2"
        using clauseI [OF C emits_emit(2) _ stmts_trans [OF reads_stmts [OF q1(2)] q2(2)]] by simp
      then show "runs W (f (here q) q2) Q" using q2 pm by (intro f) simp_all
    qed
  qed simp
qed

lemma if_or_elif_clause_ok:
  assumes ex: "expr_spec W ex m" and st: "stmt_spec W st m" and M: "M \<le> 2 ^ 29" and p: "pinv W M p" "ctx c p" "pm p \<le> m" "pm p \<le> k"
    and eof: "inner (cur_kind p)"
  shows "runs W (if_or_elif_clause ex st k p) (\<lambda>pos p'. pinv W (M - 7) p' \<and> clause c pos p p' \<and> pm p' < pm p)"
  unfolding if_or_elif_clause_def
proof (rule advance_then [OF p(1) eof], rule slurp_then, assumption, simp, rule cond_block_then [OF ex st])
  fix p1 p2 pos p3
  assume p1: "reads p p1" and p2: "reads p1 p2"
  then show "pm p2 < m" "pm p2 < k" using p by (auto dest!: reads_pm)
  show "ctx c p2" by (rule ctx_reads [OF p2 ctx_reads [OF p1 p(2)]])
  assume "pinv W (M - 2 - 2 - 3) p3" "clause c pos p2 p3" "pm p3 < pm p2"
  then show "runs W (ok pos p3) (\<lambda>pos p'. pinv W (M - 7) p' \<and> clause c pos p p' \<and> pm p' < pm p)"
    using clause_reads [OF p1 clause_reads [OF p2]] reads_pm [OF p1] reads_pm [OF p2] by simp
qed (use M in simp_all)

text \<open>The jump over what depends on a condition.\<close>

lemma pend_unless: "pend K (C @ (ins, c, 1) # B) i \<Longrightarrow> pend K (C @ (ins', c, 1) # B) i"
  by (auto simp: pend_def nth_append nth_Cons' split: if_splits)

lemma unless_fix:
  assumes f: "frame c (C @ (ins, c, 1) # B) js bs cs p q" and op: "opcode ins = OP_JUMP_UNLESS"
  obtains ts where "fixup_jump q (here p + length C) (here q) = Some (q\<lparr>prog := ts\<rparr>)"
    and "frame c (C @ (jump_by ins (int (length B) + 1), c, 1) # B) js bs cs p (q\<lparr>prog := ts\<rparr>)" and "length ts = length (prog q)"
proof -
  let ?F = "C @ (ins, c, 1) # B" and ?G = "C @ (jump_by ins (int (length B) + 1), c, 1) # B"
  have q: "pcode q = pcode p @ map fst ?F" "here q = here p + length ?F" using f frame_here [OF f] by (simp_all add: frame_def)
  have len: "length (pcode p) = here p" by (simp add: here_def)
  obtain ts where ts: "fixup_jump q (length (pcode p) + length C) (here q) = Some (q\<lparr>prog := ts\<rparr>)"
    "map ti_instr ts = pcode p @ map fst (set_jump ?F (length C) (int (here q) - int (length (pcode p))))"
    by (rule fixup_jump_ok [of q "pcode p" ?F "[]" "length C" "here q", simplified]) (use q(1) op in \<open>auto simp: nth_append\<close>)
  have "set_jump ?F (length C) (int (here q) - int (length (pcode p))) = ?G"
    unfolding len q(2) by (simp add: set_jump_def nth_append add.commute)
  with ts(2) have ts2: "map ti_instr ts = pcode p @ map fst ?G" by simp
  have pend: "list_all (pend (lims c q) ?G) (js @ bs @ cs)"
    using f pend_unless [of "lims c q" C ins c B] unfolding frame_def list_all_iff by blast
  have "frame c ?G js bs cs p (q\<lparr>prog := ts\<rparr>)" by (rule frame_code [OF f ts2 _ pend]) simp
  moreover have "length ts = length (prog q)" using arg_cong [OF ts2, of length] arg_cong [OF q(1), of length] by simp
  ultimately show thesis using ts(1) by (intro that [of ts]) (simp_all add: here_def)
qed

lemma unless_ok:
  assumes f: "frame c (C @ (ins, c, 1) # B) js bs cs p q" and C: "frag (lims c q) 0 C 1" and B: "frag (lims c q) 0 B 0"
    and op: "opcode ins = OP_JUMP_UNLESS" and n: "here q < 2 ^ 31"
  obtains ts where "fixup_jump q (here p + length C) (here q) = Some (q\<lparr>prog := ts\<rparr>)"
    and "frame c (C @ (jump_by ins (int (length B) + 1), c, 1) # B) js bs cs p (q\<lparr>prog := ts\<rparr>)"
    and "frag (lims c q) 0 (C @ (jump_by ins (int (length B) + 1), c, 1) # B) 0" and "length ts = length (prog q)"
proof (rule unless_fix [OF f op])
  fix ts
  let ?G = "C @ (jump_by ins (int (length B) + 1), c, 1) # B"
  assume "fixup_jump q (here p + length C) (here q) = Some (q\<lparr>prog := ts\<rparr>)" "frame c ?G js bs cs p (q\<lparr>prog := ts\<rparr>)"
    "length ts = length (prog q)"
  moreover have "frag (lims c q) 0 ?G 0"
    using frag_unless [of "lims c q" 0 C B "length B", OF C B _ _ op] n frame_here [OF f] by (simp add: ann_def)
  ultimately show thesis by (intro that)
qed

text \<open>A jump that is pending.\<close>

lemma frame_jump:
  defines "ins \<equiv> mk_instr OP_JUMP 0 0"
  shows "frame c [(ins, c, 0)] [0] [] [] p ((emit p ins)\<lparr>s_if := here p # s_if p\<rparr>)"
    and "hd (s_break p) \<noteq> SIZE_MAX \<Longrightarrow> frame c [(ins, c, 0)] [] [0] [] p ((emit p ins)\<lparr>s_break := here p # s_break p\<rparr>)"
    and "hd (s_continue p) \<noteq> SIZE_MAX \<Longrightarrow> frame c [(ins, c, 0)] [] [] [0] p ((emit p ins)\<lparr>s_continue := here p # s_continue p\<rparr>)"
proof -
  have f: "frame c [(ins, c, 0)] [] [] [] p (emit p ins)" by (rule emits_frame) (simp_all add: emits_emit ins_def)
  have "pend (lims c (emit p ins)) [(ins, c, 0)] 0" by (simp add: pend_def ins_def)
  with f show "frame c [(ins, c, 0)] [0] [] [] p ((emit p ins)\<lparr>s_if := here p # s_if p\<rparr>)"
    "hd (s_break p) \<noteq> SIZE_MAX \<Longrightarrow> frame c [(ins, c, 0)] [] [0] [] p ((emit p ins)\<lparr>s_break := here p # s_break p\<rparr>)"
    "hd (s_continue p) \<noteq> SIZE_MAX \<Longrightarrow> frame c [(ins, c, 0)] [] [] [0] p ((emit p ins)\<lparr>s_continue := here p # s_continue p\<rparr>)"
    unfolding frame_def by simp_all
qed

definition chain :: "nat \<Rightarrow> parser \<Rightarrow> parser \<Rightarrow> bool" where
  "chain c p p' \<longleftrightarrow> (\<exists>F js bs cs. frame c F js bs cs p p' \<and> frag (lims c p') 0 F 0)"

lemma chain_trans [trans]:
  assumes "chain c p q" and "chain c q r"
  shows "chain c p r"
proof -
  obtain F js bs cs G js' bs' cs' where a: "frame c F js bs cs p q" "frag (lims c q) 0 F 0" and b: "frame c G js' bs' cs' q r" "frag (lims c r) 0 G 0"
    using assms by (auto simp: chain_def)
  have "frag (lims c r) 0 (F @ G) 0" using frag_append [OF frag_grows [OF frame_grows [OF b(1)] a(2)] b(2)] .
  then show ?thesis using frame_trans [OF a(1) b(1)] unfolding chain_def by blast
qed

lemma stmts_chain: "stmts c p q \<Longrightarrow> chain c p q"
  unfolding stmts_def chain_def ext_def by blast

lemma chain_ctx: "chain c p q \<Longrightarrow> ctx c p \<Longrightarrow> ctx c q"
  by (auto simp: chain_def intro: frame_ctx)

lemma pinv_here: "pinv W M p \<Longrightarrow> int (here p) \<le> M"
  by (auto simp: pinv_def bounded_def here_def)

lemma next_clause_ok:
  assumes cl: "clause c pos p q" and q: "pinv W M q" and M: "M \<le> 2 ^ 29"
  shows "yields (next_clause q pos) (\<lambda>r. pinv W (M + 1) r \<and> chain c p r \<and> pm r = pm q)"
proof -
  let ?j = "mk_instr OP_JUMP 0 0"
  let ?q = "(emit q ?j)\<lparr>s_if := here q # s_if (emit q ?j)\<rparr>"
  obtain C ins B bs cs where f: "frame c (C @ (ins, c, 1) # B) [] bs cs p q" and C: "frag (lims c q) 0 C 1"
    and B: "frag (lims c q) 0 B 0" and op: "opcode ins = OP_JUMP_UNLESS" "pos = here p + length C"
    using cl by (auto simp: clause_def)
  have j: "frame c [(?j, c, 0)] [0] [] [] q ?q" using frame_jump(1) [of c q] by (simp add: emit_def emit_at_line_def)
  note g = frame_grows [OF j]
  have inv: "pinv W (M + 1) ?q" using pinv_emit(2) [OF q] by simp
  have "frag (lims c ?q) 0 [(?j, c, 0)] 0" using frag_jump [of ?j "lims c ?q"] by simp
  then have B': "frag (lims c ?q) 0 (B @ [(?j, c, 0)]) 0" by (rule frag_append [OF frag_grows [OF g B]])
  obtain js bs cs where f': "frame c (C @ (ins, c, 1) # B @ [(?j, c, 0)]) js bs cs p ?q"
    using frame_trans [OF f j] by simp
  obtain ts where "fixup_jump ?q pos (here ?q) = Some (?q\<lparr>prog := ts\<rparr>)" "length ts = length (prog ?q)"
    and "chain c p (?q\<lparr>prog := ts\<rparr>)"
  proof (rule unless_ok [OF f' frag_grows [OF g C] B' op(1)])
    show "here ?q < 2 ^ 31" using pinv_here [OF inv] M by simp
    fix ts
    let ?F = "C @ (jump_by ins (int (length (B @ [(?j, c, 0)])) + 1), c, 1) # B @ [(?j, c, 0)]"
    assume ts: "fixup_jump ?q (here p + length C) (here ?q) = Some (?q\<lparr>prog := ts\<rparr>)" "frame c ?F js bs cs p (?q\<lparr>prog := ts\<rparr>)"
      "frag (lims c ?q) 0 ?F 0" "length ts = length (prog ?q)"
    have "lims c (?q\<lparr>prog := ts\<rparr>) = lims c ?q" by (simp add: lims_def)
    then have "chain c p (?q\<lparr>prog := ts\<rparr>)" using ts(2,3) unfolding chain_def by metis
    then show thesis using that ts op(2) by simp
  qed
  moreover have "pm (?q\<lparr>prog := ts\<rparr>) = pm q" by (simp add: pm_def emit_def emit_at_line_def)
  ultimately show ?thesis using pinv_prog [OF inv] by (simp add: next_clause_def postpone_jump_def)
qed

lemma fixup_jump_cur: "fixup_jump p i t = Some q \<Longrightarrow> ps_cur q = ps_cur p"
  by (auto simp: fixup_jump_def Let_def split: if_splits)

lemma next_clause_kind:
  assumes "next_clause p pos = Some q"
  shows "cur_kind q = cur_kind p"
proof -
  let ?r = "(emit p (mk_instr OP_JUMP 0 0))\<lparr>s_if := here p # s_if p\<rparr>"
  have "fixup_jump ?r pos (here ?r) = Some q"
    using assms by (simp add: next_clause_def postpone_jump_def emit_def emit_at_line_def)
  from fixup_jump_cur [OF this] show ?thesis by (simp add: emit_def emit_at_line_def)
qed

lemma elif_loop_ok:
  assumes ex: "expr_spec W ex m" and st: "stmt_spec W st m" and M: "M \<le> 2 ^ 29"
  shows "clause c pos p0 p \<Longrightarrow> ctx c p0 \<Longrightarrow> pinv W (M - 1) p \<Longrightarrow> pm p < m \<Longrightarrow> pm p < k \<Longrightarrow> pm p < n \<Longrightarrow>
    runs W (elif_loop ex st k n pos p) (\<lambda>pos' p'. pinv W (M - 1) p' \<and> (\<exists>q. chain c p0 q \<and> clause c pos' q p') \<and> pm p' \<le> pm p)"
proof (induction n arbitrary: pos p0 p)
  case (Suc n)
  let ?Q = "\<lambda>pos' p'. pinv W (M - 1) p' \<and> (\<exists>q. chain c p0 q \<and> clause c pos' q p') \<and> pm p' \<le> pm p"
  have refl: "chain c p0 p0" by (rule stmts_chain) simp
  show ?case
  proof (cases "cur_kind p = LK_ELIF")
    case True
    obtain p1 where p1: "next_clause p pos = Some p1" "pinv W M p1" "chain c p0 p1" "pm p1 = pm p"
      using next_clause_ok [OF Suc.prems(1,3)] M by (auto simp: yields_iff_ex)
    have kind: "inner (cur_kind p1)" using next_clause_kind [OF p1(1)] True by simp
    have "runs W (if_or_elif_clause ex st k p1) (\<lambda>pos p'. pinv W (M - 7) p' \<and> clause c pos p1 p' \<and> pm p' < pm p1)"
      using Suc.prems M p1(4) by (intro if_or_elif_clause_ok [OF ex st _ p1(2) chain_ctx [OF p1(3)] _ _ kind]) simp_all
    then have "runs W (andthen (if_or_elif_clause ex st k p1) (\<lambda>pos p. elif_loop ex st k n pos p)) ?Q"
    proof (rule runs_andthen)
      fix pos' p2 assume p2: "pinv W (M - 7) p2 \<and> clause c pos' p1 p2 \<and> pm p2 < pm p1"
      have "runs W (elif_loop ex st k n pos' p2) (\<lambda>pos'' p'. pinv W (M - 1) p' \<and> (\<exists>q. chain c p1 q \<and> clause c pos'' q p') \<and> pm p' \<le> pm p2)"
        using p2 p1(4) pinv_mono [of W "M - 7" p2 "M - 1"] Suc.prems(4-6)
        by (intro Suc.IH [OF _ chain_ctx [OF p1(3) Suc.prems(2)]]) simp_all
      then show "runs W (elif_loop ex st k n pos' p2) ?Q"
      proof (rule runs_conseq)
        fix x r assume r: "pinv W (M - 1) r \<and> (\<exists>q. chain c p1 q \<and> clause c x q r) \<and> pm r \<le> pm p2"
        then have "\<exists>q. chain c p0 q \<and> clause c x q r" using chain_trans [OF p1(3)] by blast
        moreover have "pm r \<le> pm p" using r p2 p1(4) by linarith
        ultimately show "pinv W (M - 1) r \<and> (\<exists>q. chain c p0 q \<and> clause c x q r) \<and> pm r \<le> pm p" using r by blast
      qed
    qed
    then show ?thesis using True p1(1) by simp
  next
    case False
    have "\<exists>q. chain c p0 q \<and> clause c pos q p" using refl Suc.prems(1) by blast
    then show ?thesis using False Suc.prems(3) by simp
  qed
qed simp

text \<open>The end of a statement with conditions: the jumps at the ends of the clauses are set.\<close>

lemma end_if_ok:
  assumes ch: "chain c (p\<lparr>s_if := SEGMENT # s_if p\<rparr>) q" and q: "pinv W M q" and M: "M \<le> 2 ^ 29"
  shows "yields (stack_segment_end_fixup q (s_if q) (here q)) (\<lambda>(s, r). pinv W M (r\<lparr>s_if := s\<rparr>) \<and> stmts c p (r\<lparr>s_if := s\<rparr>) \<and>
    pm (r\<lparr>s_if := s\<rparr>) = pm q)"
proof -
  let ?p = "p\<lparr>s_if := SEGMENT # s_if p\<rparr>"
  obtain F js bs cs where f: "frame c F js bs cs ?p q" and F: "frag (lims c q) 0 F 0" using ch by (auto simp: chain_def)
  have q2: "pcode q = pcode p @ map fst F" "s_if q = map ((+) (length (pcode p))) js @ SEGMENT # s_if p"
    "list_all (pend (lims c q) F) js" using f by (simp_all add: frame_def here_def)
  have h: "here q = length (pcode p) + length F" using frame_here [OF f] by (simp add: here_def)
  have small: "here q < 2 ^ 31" "length (pcode p) + length F \<le> SEGMENT"
    using pinv_here [OF q] M h by (simp_all add: SEGMENT_def SIZE_MAX_def)
  let ?G = "set_jumps F js (int (length F))"
  obtain ts where ts: "stack_segment_end_fixup q (s_if q) (here q) = Some (s_if p, q\<lparr>prog := ts\<rparr>)"
    "map ti_instr ts = pcode p @ map fst ?G"
    using fixup_jumps_ok [OF q2(1,3) small(2), of "s_if p" "here q"] by (auto simp: q2(2) h)
  have pend: "list_all (pend (lims c q) ?G) (js @ bs @ cs)"
    using f pend_set_jumps [OF q2(3)] unfolding frame_def list_all_iff by blast
  have "frame c ?G js bs cs ?p (q\<lparr>prog := ts\<rparr>)"
    by (rule frame_code [OF f _ snd_set_jumps [OF q2(3)] pend]) (use ts(2) in simp)
  then have "frame c ?G [] bs cs p (q\<lparr>prog := ts, s_if := s_if p\<rparr>)" by (simp add: frame_def)
  moreover have "frag (lims c q) 0 ?G 0" using h small(1) by (intro frag_set_jumps [OF F q2(3)]) (simp_all add: ann_def)
  moreover have "lims c (q\<lparr>prog := ts, s_if := s_if p\<rparr>) = lims c q" by (simp add: lims_def)
  ultimately have "stmts c p (q\<lparr>prog := ts, s_if := s_if p\<rparr>)" unfolding stmts_def ext_def by metis
  moreover have "length ts = length (prog q)"
    using arg_cong [OF ts(2), of length] arg_cong [OF q2(1), of length] length_set_jumps [OF q2(3)] by simp
  then have "pinv W M (q\<lparr>prog := ts\<rparr>)" by (rule pinv_prog [OF q])
  then have "pinv W M (q\<lparr>prog := ts, s_if := s_if p\<rparr>)" by simp
  ultimately show ?thesis using ts(1) by (simp add: pm_def)
qed

lemma no_else_ok:
  assumes cl: "clause c pos p q" and q: "pinv W M q" and M: "M \<le> 2 ^ 29"
  shows "yields (fixup_jump q pos (here q)) (\<lambda>r. pinv W M r \<and> chain c p r \<and> pm r = pm q)"
proof -
  obtain C ins B bs cs where f: "frame c (C @ (ins, c, 1) # B) [] bs cs p q" and C: "frag (lims c q) 0 C 1"
    and B: "frag (lims c q) 0 B 0" and op: "opcode ins = OP_JUMP_UNLESS" "pos = here p + length C"
    using cl by (auto simp: clause_def)
  show ?thesis
  proof (rule unless_ok [OF f C B op(1)])
    fix ts
    let ?F = "C @ (jump_by ins (int (length B) + 1), c, 1) # B"
    assume ts: "fixup_jump q (here p + length C) (here q) = Some (q\<lparr>prog := ts\<rparr>)" "frame c ?F [] bs cs p (q\<lparr>prog := ts\<rparr>)"
      "frag (lims c q) 0 ?F 0" "length ts = length (prog q)"
    have "lims c (q\<lparr>prog := ts\<rparr>) = lims c q" by (simp add: lims_def)
    then have "chain c p (q\<lparr>prog := ts\<rparr>)" using ts(2,3) unfolding chain_def by metis
    then show ?thesis using ts(1,4) op(2) pinv_prog [OF q] by (simp add: pm_def)
  qed (use pinv_here [OF q] M in simp)
qed

lemma if_stmt_ok:
  assumes ex: "expr_spec W ex m" and st: "stmt_spec W st m" and M: "M \<le> 2 ^ 29" and p: "pinv W M p" "ctx c p" "pm p \<le> m" "pm p \<le> k"
    and eof: "inner (cur_kind p)"
  shows "runs W (if_stmt ex st k p) (\<lambda>_ p'. pinv W M p' \<and> stmts c p p' \<and> pm p' < pm p)"
  unfolding if_stmt_def
proof (rule runs_andthen [OF if_or_elif_clause_ok [OF ex st M]])
  let ?p = "p\<lparr>s_if := SEGMENT # s_if p\<rparr>"
  have ctx: "ctx c ?p" using p(2) by (simp add: ctx_def)
  then show "pinv W M ?p" "ctx c ?p" "pm ?p \<le> m" "pm ?p \<le> k" "inner (cur_kind ?p)" using p eof by simp_all
  fix pos p1
  assume p1: "pinv W (M - 7) p1 \<and> clause c pos ?p p1 \<and> pm p1 < pm ?p"
  have "runs W (elif_loop ex st k k pos p1) (\<lambda>pos' p'. pinv W (M - 1) p' \<and> (\<exists>q. chain c ?p q \<and> clause c pos' q p') \<and> pm p' \<le> pm p1)"
    using p1 p(3,4) by (intro elif_loop_ok [OF ex st M _ ctx]) (auto intro: pinv_mono)
  then show "runs W (andthen (elif_loop ex st k k pos p1) (\<lambda>pos p. andthen
      (if cur_kind p = LK_ELSE then do { p \<leftarrow> next_clause p pos; else_clause st k p }
       else do { p \<leftarrow> fixup_jump p pos (here p); ok () p })
      (\<lambda>_ p. do { (s, p) \<leftarrow> stack_segment_end_fixup p (s_if p) (here p); ok () (p\<lparr>s_if := s\<rparr>) })))
    (\<lambda>_ p'. pinv W M p' \<and> stmts c p p' \<and> pm p' < pm p)"
  proof (rule runs_andthen, elim conjE exE)
    fix pos p2 q
    assume p2: "pinv W (M - 1) p2" "pm p2 \<le> pm p1" "chain c ?p q" "clause c pos q p2"
    have pm: "pm p2 < pm p" using p1 p2(2) by simp
    have "runs W (if cur_kind p2 = LK_ELSE then do { p \<leftarrow> next_clause p2 pos; else_clause st k p }
        else do { p \<leftarrow> fixup_jump p2 pos (here p2); ok () p }) (\<lambda>_ p'. pinv W M p' \<and> chain c ?p p' \<and> pm p' < pm p)"
    proof (rule runs_if)
      assume kind: "cur_kind p2 = LK_ELSE"
      obtain p3 where p3: "next_clause p2 pos = Some p3" "pinv W M p3" "chain c q p3" "pm p3 = pm p2"
        using next_clause_ok [OF p2(4,1)] M by (auto simp: yields_iff_ex)
      have kind3: "inner (cur_kind p3)" using next_clause_kind [OF p3(1)] kind by simp
      have ch: "chain c ?p p3" by (rule chain_trans [OF p2(3) p3(3)])
      have "runs W (else_clause st k p3) (\<lambda>_ p'. pinv W M p' \<and> chain c ?p p' \<and> pm p' < pm p)"
        unfolding else_clause_def
      proof (rule advance_then [OF p3(2) kind3])
        fix p4 assume p4: "pinv W (M - 2) p4" "reads p3 p4"
        have ch4: "chain c ?p p4" by (rule chain_trans [OF ch stmts_chain [OF reads_stmts [OF p4(2)]]])
        have pm4: "pm p4 < pm p" using pm reads_pm [OF p4(2)] p3(4) by simp
        have "runs W (block st k p4) (\<lambda>_ p'. pinv W (M - 2 - 2) p' \<and> stmts c p4 p' \<and> pm p' < pm p4)"
          using M pm4 p(3,4) by (intro block_ok [OF st _ p4(1) chain_ctx [OF ch4 ctx]]) simp_all
        then show "runs W (block st k p4) (\<lambda>_ p'. pinv W M p' \<and> chain c ?p p' \<and> pm p' < pm p)"
          by (rule runs_conseq) (use pm4 chain_trans [OF ch4 stmts_chain] in \<open>auto intro: pinv_mono\<close>)
      qed
      then show "runs W (do { p \<leftarrow> next_clause p2 pos; else_clause st k p }) (\<lambda>_ p'. pinv W M p' \<and> chain c ?p p' \<and> pm p' < pm p)"
        using p3(1) by simp
    next
      show "runs W (do { p \<leftarrow> fixup_jump p2 pos (here p2); ok () p }) (\<lambda>_ p'. pinv W M p' \<and> chain c ?p p' \<and> pm p' < pm p)"
        using no_else_ok [OF p2(4,1)] M pm chain_trans [OF p2(3)] by (auto elim!: yields_conseq intro: pinv_mono)
    qed
    then show "runs W (andthen (if cur_kind p2 = LK_ELSE then do { p \<leftarrow> next_clause p2 pos; else_clause st k p }
        else do { p \<leftarrow> fixup_jump p2 pos (here p2); ok () p })
      (\<lambda>_ p. do { (s, p) \<leftarrow> stack_segment_end_fixup p (s_if p) (here p); ok () (p\<lparr>s_if := s\<rparr>) }))
      (\<lambda>_ p'. pinv W M p' \<and> stmts c p p' \<and> pm p' < pm p)"
    proof (rule runs_andthen, elim conjE)
      fix r assume r: "pinv W M r" "chain c ?p r" "pm r < pm p"
      show "runs W (do { (s, p) \<leftarrow> stack_segment_end_fixup r (s_if r) (here r); ok () (p\<lparr>s_if := s\<rparr>) })
        (\<lambda>_ p'. pinv W M p' \<and> stmts c p p' \<and> pm p' < pm p)"
        using end_if_ok [OF r(2,1) M] r(3) by (auto elim!: yields_conseq)
    qed
  qed
qed

end
