(* ===== verification/Parser_Loops.thy ===== *)
theory Parser_Loops
  imports Parser_Stmt_Types
begin

text \<open>
  Loops: the code of a loop is a fragment when the jumps of \<open>break\<close> and \<open>continue\<close> have been set. The code of a
  \<open>for\<close> is rotated, which keeps it a fragment when no function is defined in the loop.
\<close>

section \<open>Code of loops\<close>

lemma loop_frag:
  assumes C: "frag K 0 C 1" and B: "frag K 0 B 0" and op: "opcode ins = OP_JUMP_UNLESS"
    and n: "length C + length B + 2 < 2 ^ 31" and j: "j = mk_instr OP_JUMP 0 0"
  shows "frag K 0 (C @ (jump_by ins (int (length B) + 2), k_own K, 1) # B @ [(jump_by j (- int (length C + 1 + length B)), k_own K, 0)]) 0"
proof -
  let ?B = "B @ [(j, k_own K, 0)]"
  let ?F = "C @ (jump_by ins (int (length ?B) + 1), k_own K, 1) # ?B" and ?i = "length C + 1 + length B"
  have B': "frag K 0 ?B 0" by (rule frag_append [OF B frag_jump]) (simp_all add: j)
  have F: "frag K 0 ?F 0" using frag_unless [OF C B' _ _ op, of "length ?B"] n by (simp add: ann_def)
  moreover have "pend K ?F ?i" by (simp add: pend_def nth_append j)
  moreover have "ann ?F (k_own K, 0) 0 = Some (k_own K, 0)" using F by (simp add: frag_def)
  ultimately have "frag K 0 (set_jump ?F ?i (int 0)) 0" using n by (intro frag_set_jump) simp_all
  moreover have "set_jump ?F ?i (int 0) =
      C @ (jump_by ins (int (length B) + 2), k_own K, 1) # B @ [(jump_by j (- int (length C + 1 + length B)), k_own K, 0)]"
    by (simp add: set_jump_def nth_append list_update_append add.commute)
  ultimately show ?thesis by simp
qed

lemma end_loop_ok:
  assumes f: "frame c F [] bs cs (p\<lparr>s_break := SEGMENT # s_break p, s_continue := SEGMENT # s_continue p\<rparr>) q"
    and q: "pinv W M q" and M: "M \<le> 2 ^ 30"
  shows "\<exists>ts. end_loop q (here p + u) (here p + v) = Some (q\<lparr>prog := ts, s_break := s_break p, s_continue := s_continue p\<rparr>) \<and>
    map ti_instr ts = pcode p @ map fst (set_jumps (set_jumps F bs (int u)) cs (int v))"
proof -
  let ?X = "pcode p" and ?F = "set_jumps F bs (int u)"
  have q2: "pcode q = ?X @ map fst F" "s_break q = map ((+) (length ?X)) bs @ SEGMENT # s_break p" "list_all (pend (lims c q) F) bs"
    "s_continue q = map ((+) (length ?X)) cs @ SEGMENT # s_continue p" "list_all (pend (lims c q) F) cs"
    using f by (simp_all add: frame_def here_def)
  have h: "here q = length ?X + length F" "here p = length ?X" using frame_here [OF f] by (simp_all add: here_def)
  have small: "length ?X + length F \<le> SEGMENT" using pinv_here [OF q] M h by (simp add: SEGMENT_def SIZE_MAX_def)
  obtain ts where ts: "stack_segment_end_fixup q (s_break q) (here p + u) = Some (s_break p, q\<lparr>prog := ts\<rparr>)"
    "map ti_instr ts = ?X @ map fst ?F"
    using fixup_jumps_ok [OF q2(1,3) small, of "s_break p" "here p + u"] by (auto simp: q2(2) h(2))
  let ?q = "q\<lparr>prog := ts, s_break := s_break p\<rparr>"
  have len: "length ?F = length F" by (rule length_set_jumps [OF q2(3)])
  have "list_all (pend (lims c q) ?F) cs" using q2(5) pend_set_jumps [OF q2(3)] by (simp add: list_all_iff)
  then obtain ts' where "stack_segment_end_fixup ?q (s_continue ?q) (here p + v) = Some (s_continue p, ?q\<lparr>prog := ts'\<rparr>)"
    "map ti_instr ts' = ?X @ map fst (set_jumps ?F cs (int v))"
    using fixup_jumps_ok [of ?q ?X ?F "lims c q" cs "s_continue p" "here p + v"] ts(2) small by (auto simp: q2(4) h(2) len)
  then show ?thesis using ts(1) by (intro exI [of _ ts']) (simp add: end_loop_def Let_def)
qed

text \<open>A loop as a statement: its code, with all jumps set, is a fragment.\<close>

lemma loop_stmts:
  assumes f: "frame c F [] bs cs (p\<lparr>s_break := SEGMENT # s_break p, s_continue := SEGMENT # s_continue p\<rparr>) q"
    and G: "frag (lims c q) 0 G 0" "map snd G = map snd F" and ts: "map ti_instr ts = pcode p @ map fst G"
    and pend: "list_all (pend (lims c q) G) (bs @ cs)"
  shows "stmts c p (q\<lparr>prog := ts, s_break := s_break p, s_continue := s_continue p\<rparr>)"
proof -
  let ?p = "p\<lparr>s_break := SEGMENT # s_break p, s_continue := SEGMENT # s_continue p\<rparr>"
  have "frame c G [] bs cs ?p (q\<lparr>prog := ts\<rparr>)"
    by (rule frame_code [OF f _ G(2)]) (use ts pend in simp_all)
  then have "frame c G [] [] [] p (q\<lparr>prog := ts, s_break := s_break p, s_continue := s_continue p\<rparr>)" by (simp add: frame_def)
  moreover have "lims c (q\<lparr>prog := ts, s_break := s_break p, s_continue := s_continue p\<rparr>) = lims c q" by (simp add: lims_def)
  ultimately show ?thesis using G(1) unfolding stmts_def ext_def by metis
qed

text \<open>The jumps of \<open>break\<close> to the end, those of \<open>continue\<close> to some place.\<close>

lemma loop_jumps:
  assumes F: "frag K 0 F 0" and bs: "list_all (pend K F) bs" and cs: "list_all (pend K F) cs"
    and v: "ann F (k_own K, 0) v = Some (k_own K, 0)" and n: "length F < 2 ^ 31"
  defines "G \<equiv> set_jumps (set_jumps F bs (int (length F))) cs (int v)"
  shows "frag K 0 G 0" and "map snd G = map snd F" and "list_all (pend K G) (bs @ cs)"
proof -
  let ?G = "set_jumps F bs (int (length F))"
  have 1: "frag K 0 ?G 0" by (rule frag_set_jumps [OF F bs]) (simp_all add: ann_def n [simplified])
  have cs': "list_all (pend K ?G) cs" using cs pend_set_jumps [OF bs] by (simp add: list_all_iff)
  have "ann ?G = ann F" by (rule ann_cong [OF snd_set_jumps [OF bs]])
  then show "frag K 0 G 0" unfolding G_def using v n by (intro frag_set_jumps [OF 1 cs']) (simp_all add: length_set_jumps [OF bs])
  show "map snd G = map snd F" unfolding G_def using snd_set_jumps [OF cs'] snd_set_jumps [OF bs] by simp
  show "list_all (pend K G) (bs @ cs)"
    unfolding G_def using bs cs by (auto simp: list_all_iff pend_set_jumps [OF cs'] pend_set_jumps [OF bs])
qed

text \<open>The jump back.\<close>

lemma back_jump:
  assumes f: "frame c F [] bs cs p q"
  defines "j \<equiv> mk_instr OP_JUMP 0 0"
  obtains ts where "emit_jump_to q (here p) = Some ((emit q j)\<lparr>prog := ts\<rparr>)"
    and "frame c (F @ [(jump_by j (- int (length F)), c, 0)]) [] bs cs p ((emit q j)\<lparr>prog := ts\<rparr>)"
    and "length ts = length (prog (emit q j))"
proof -
  let ?q = "emit q j" and ?F = "F @ [(j, c, 0)]" and ?G = "F @ [(jump_by j (- int (length F)), c, 0)]"
  have e: "frame c [(j, c, 0)] [] [] [] q ?q" by (rule emits_frame) (simp_all add: emits_emit)
  have f1: "frame c ?F [] bs cs p ?q" using frame_trans [OF f e] by simp
  then have code: "pcode ?q = pcode p @ map fst ?F" by (simp add: frame_def)
  have G: "set_jump ?F (length F) 0 = ?G" by (simp add: set_jump_def nth_append list_update_append)
  obtain ts where ts: "fixup_jump ?q (length (pcode p) + length F) (length (pcode p)) = Some (?q\<lparr>prog := ts\<rparr>)"
    "map ti_instr ts = pcode p @ map fst (set_jump ?F (length F) 0)"
    by (rule fixup_jump_ok [of ?q "pcode p" ?F "[]" "length F" "length (pcode p)", simplified]) (use code in \<open>auto simp: j_def\<close>)
  have "frame c ?G [] bs cs p (?q\<lparr>prog := ts\<rparr>)"
  proof (rule frame_code [OF f1])
    have i: "pend (lims c ?q) ?F (length F)" by (simp add: pend_def j_def)
    then show "list_all (pend (lims c ?q) ?G) ([] @ bs @ cs)"
      using f1 unfolding G [symmetric] by (simp add: frame_def list_all_iff pend_set_jump)
    show "map ti_instr ts = pcode p @ map fst ?G" using ts(2) unfolding G .
  qed simp
  moreover have "here q = length (pcode p) + length F" using frame_here [OF f] by (simp add: here_def)
  moreover have "length ts = length (prog ?q)" using arg_cong [OF code, of length] arg_cong [OF ts(2), of length] by simp
  ultimately show thesis using ts(1)
    by (intro that [of ts]) (simp_all add: emit_jump_to_def postpone_jump_def j_def here_def)
qed

section \<open>While\<close>

lemma while_end_ok:
  assumes f: "frame c (C @ (ins, c, 1) # B) [] bs cs (p\<lparr>s_break := SEGMENT # s_break p, s_continue := SEGMENT # s_continue p\<rparr>) q"
    and C: "frag (lims c q) 0 C 1" and B: "frag (lims c q) 0 B 0" and op: "opcode ins = OP_JUMP_UNLESS"
    and q: "pinv W M q" and M: "M \<le> 2 ^ 29"
  shows "runs W (do { p1 \<leftarrow> emit_jump_to q (here p); p1 \<leftarrow> fixup_jump p1 (here p + length C) (here p1);
      p1 \<leftarrow> end_loop p1 (here p1) (here p); ok () p1 }) (\<lambda>_ r. pinv W (M + 1) r \<and> stmts c p r \<and> pm r = pm q)"
proof -
  let ?p = "p\<lparr>s_break := SEGMENT # s_break p, s_continue := SEGMENT # s_continue p\<rparr>"
  define j where "j = mk_instr OP_JUMP 0 0"
  let ?q = "emit q j"
  have inv: "pinv W (M + 1) ?q" by (rule pinv_emit(2) [OF q])
  obtain ts1 where ts1: "emit_jump_to q (here p) = Some (?q\<lparr>prog := ts1\<rparr>)" "length ts1 = length (prog ?q)"
    and f1: "frame c (C @ (ins, c, 1) # B @ [(jump_by j (- int (length C + 1 + length B)), c, 0)]) [] bs cs ?p (?q\<lparr>prog := ts1\<rparr>)"
    by (rule back_jump [OF f, folded j_def]) simp
  let ?F = "C @ (jump_by ins (int (length B) + 2), c, 1) # B @ [(jump_by j (- int (length C + 1 + length B)), c, 0)]"
  obtain ts2 where ts2: "fixup_jump (?q\<lparr>prog := ts1\<rparr>) (here p + length C) (here (?q\<lparr>prog := ts1\<rparr>)) = Some (?q\<lparr>prog := ts2\<rparr>)"
      "length ts2 = length (prog ?q)"
    and f2: "frame c ?F [] bs cs ?p (?q\<lparr>prog := ts2\<rparr>)"
    by (rule unless_fix [OF f1 op]) (simp add: ts1(2) add.commute)
  let ?q2 = "?q\<lparr>prog := ts2\<rparr>"
  have h: "here (?q\<lparr>prog := ts1\<rparr>) = here p + length ?F" "here ?q2 = here p + length ?F" "here ?q = here p + length ?F"
    using frame_here [OF f2] ts1(2) ts2(2) by (simp_all add: here_def)
  have inv2: "pinv W (M + 1) ?q2" by (rule pinv_prog [OF inv ts2(2)])
  have g: "grows (lims c q) (lims c ?q)" by (rule emits_grows [OF emits_emit(2)])
  have small: "length ?F < 2 ^ 31" using pinv_here [OF inv] M h(3) by simp
  have F: "frag (lims c ?q) 0 ?F 0"
    using loop_frag [OF frag_grows [OF g C] frag_grows [OF g B] op _ j_def] small by simp
  have lims: "lims c ?q2 = lims c ?q" by (simp add: lims_def)
  have pend: "list_all (pend (lims c ?q) ?F) bs" "list_all (pend (lims c ?q) ?F) cs" using f2 by (simp_all add: frame_def lims)
  have v: "ann ?F (k_own (lims c ?q), 0) 0 = Some (k_own (lims c ?q), 0)" using F by (simp add: frag_def)
  note G = loop_jumps [OF F pend v small]
  obtain ts where ts: "end_loop ?q2 (here p + length ?F) (here p + 0) = Some (?q2\<lparr>prog := ts, s_break := s_break p, s_continue := s_continue p\<rparr>)"
    "map ti_instr ts = pcode p @ map fst (set_jumps (set_jumps ?F bs (int (length ?F))) cs (int 0))"
    using end_loop_ok [OF f2 inv2, of "length ?F" 0] M by auto
  have "stmts c p (?q2\<lparr>prog := ts, s_break := s_break p, s_continue := s_continue p\<rparr>)"
    using loop_stmts [OF f2 _ G(2) ts(2)] G(1,3) lims by simp
  moreover have "length ts = length (prog ?q)" using arg_cong [OF ts(2), of length] arg_cong [OF G(2), of length] h(3) by (simp add: here_def)
  then have "pinv W (M + 1) (?q2\<lparr>prog := ts, s_break := s_break p, s_continue := s_continue p\<rparr>)" using pinv_prog [OF inv] by simp
  moreover have "pm (?q2\<lparr>prog := ts, s_break := s_break p, s_continue := s_continue p\<rparr>) = pm q"
    by (simp add: pm_def emit_def emit_at_line_def)
  moreover have "end_loop ?q2 (here ?q2) (here p) = Some (?q2\<lparr>prog := ts, s_break := s_break p, s_continue := s_continue p\<rparr>)"
    using ts(1) h(2) by simp
  ultimately show ?thesis using ts1(1) ts2(1) by simp
qed

lemma while_stmt_ok:
  assumes ex: "expr_spec W ex m" and st: "stmt_spec W st m" and M: "M \<le> 2 ^ 29" and p: "pinv W M p" "ctx c p" "pm p \<le> m" "pm p \<le> k"
    and eof: "inner (cur_kind p)"
  shows "runs W (while_stmt ex st k p) (\<lambda>_ p'. pinv W M p' \<and> stmts c p p' \<and> pm p' < pm p)"
proof -
  let ?p = "p\<lparr>s_break := SEGMENT # s_break p, s_continue := SEGMENT # s_continue p\<rparr>"
  have p0: "pinv W M ?p" "inner (cur_kind ?p)" using p(1) eof by simp_all
  show ?thesis
    unfolding while_stmt_def
  proof (rule advance_then [OF p0], rule slurp_then, assumption, simp)
    fix p1 p2
    assume p1: "reads ?p p1" and p2: "pinv W (M - 2 - 2) p2" "reads p1 p2"
    have ctx: "ctx c p2" using p(2) by (intro ctx_reads [OF p2(2) ctx_reads [OF p1]]) (simp add: ctx_def)
    have h: "here p2 = here p" using reads_here [OF p1] reads_here [OF p2(2)] by simp
    have pm: "pm p2 < pm p" using reads_pm [OF p1] reads_pm [OF p2(2)] by simp
    show "runs W (let begin_pos = here p2 in andthen (ex (-1) p2) (\<lambda>_ p. let (jump_pos, p) = postpone_jump_unless p in
        andthen (slurp p LK_RPAREN (''expected '' @ quoted '')'')) (\<lambda>_ p. andthen (block st k p) (\<lambda>_ p. do {
          p \<leftarrow> emit_jump_to p begin_pos;
          p \<leftarrow> fixup_jump p jump_pos (here p);
          p \<leftarrow> end_loop p (here p) begin_pos;
          ok () p })))) (\<lambda>_ p'. pinv W M p' \<and> stmts c p p' \<and> pm p' < pm p)"
      unfolding Let_def [of "here p2"]
    proof (rule cond_block_then [OF ex st _ p2(1) ctx])
      fix pos q
      assume q: "pinv W (M - 2 - 2 - 3) q" "clause c pos p2 q" "pm q < pm p2"
      have "clause c pos ?p q" by (rule clause_reads [OF p1 clause_reads [OF p2(2) q(2)]])
      then obtain C ins B bs cs where cl: "frame c (C @ (ins, c, 1) # B) [] bs cs ?p q" "frag (lims c q) 0 C 1"
        "frag (lims c q) 0 B 0" "opcode ins = OP_JUMP_UNLESS" and pos: "pos = here p + length C" by (auto simp: clause_def)
      show "runs W (do { p \<leftarrow> emit_jump_to q (here p2); p \<leftarrow> fixup_jump p pos (here p); p \<leftarrow> end_loop p (here p) (here p2); ok () p })
          (\<lambda>_ p'. pinv W M p' \<and> stmts c p p' \<and> pm p' < pm p)"
        unfolding h pos
        by (rule runs_conseq [OF while_end_ok [OF cl q(1)]]) (use M q(3) pm in \<open>auto intro: pinv_mono\<close>)
    qed (use M p pm in simp_all)
  qed
qed

section \<open>Jumps out of a loop\<close>

lemma jump_stmt_ok:
  assumes p: "pinv W M p" "ctx c p"
    and stack: "stack \<noteq> []" and upd: "\<And>q s. pinv W (M + 1) (upd s q) = pinv W (M + 1) q" "\<And>q s. pm (upd s q) = pm q" "\<And>q s. cur_kind (upd s q) = cur_kind q"
    and eof: "inner (cur_kind p)"
    and f: "hd stack \<noteq> SIZE_MAX \<Longrightarrow> \<exists>bs cs. frame c [(mk_instr OP_JUMP 0 0, c, 0)] [] bs cs p (upd (here p # stack) (emit p (mk_instr OP_JUMP 0 0)))"
  shows "runs W (jump_stmt p stack upd msg) (\<lambda>_ p'. pinv W M p' \<and> stmts c p p' \<and> pm p' < pm p)"
proof (cases "hd stack = SIZE_MAX")
  case True
  then show ?thesis using stack p(1) by (cases stack) (auto simp: jump_stmt_def stack_segment_emit_jump_and_push_def)
next
  case False
  let ?q = "emit p (mk_instr OP_JUMP 0 0)"
  let ?r = "upd (here p # stack) ?q"
  have "frag (lims c ?r) 0 [(mk_instr OP_JUMP 0 0, c, 0)] 0" using frag_jump [of "mk_instr OP_JUMP 0 0" "lims c ?r"] by simp
  then have s: "stmts c p ?r" using f [OF False] unfolding stmts_def ext_def by blast
  have r: "pinv W (M + 1) ?r" "pm ?r = pm p" using pinv_emit(2) [OF p(1)] by (simp_all add: upd)
  have k: "inner (cur_kind ?r)" using eof by (simp add: upd emit_def emit_at_line_def)
  have "runs W (andthen (advance ?r) (\<lambda>_ p. slurp p LK_SEMICOLON (''expected '' @ quoted '';'')))
      (\<lambda>_ p'. pinv W M p' \<and> stmts c p p' \<and> pm p' < pm p)"
  proof (rule advance_then [OF r(1) k])
    fix p1 assume p1: "pinv W (M + 1 - 2) p1" "reads ?r p1"
    show "runs W (slurp p1 LK_SEMICOLON (''expected '' @ quoted '';'')) (\<lambda>_ p'. pinv W M p' \<and> stmts c p p' \<and> pm p' < pm p)"
      using stmts_trans [OF stmts_trans [OF s reads_stmts [OF p1(2)]] reads_stmts] reads_pm [OF p1(2)] r(2)
      by (intro runs_conseq [OF slurp_ok [OF p1(1)]]) (auto intro: pinv_mono dest!: reads_pm)
  qed
  moreover have "stack_segment_emit_jump_and_push p stack = Some (Some (here p # stack, ?q))"
    using False stack by (cases stack) (auto simp: stack_segment_emit_jump_and_push_def postpone_jump_def)
  ultimately show ?thesis by (simp add: jump_stmt_def)
qed

section \<open>Returns\<close>

lemma ext_emit:
  assumes q: "ext c a F bs cs b p q" and e: "emits q [ins] r" and ins: "raw_ok (lims c q) ins" "fst (effect ins) \<le> b"
    "successors (k_chunk (lims c r)) ins = [1]" "opcode ins \<noteq> OP_FUNCTION" "opcode ins \<noteq> OP_RETURN"
  shows "ext c a (F @ [(ins, c, b)]) bs cs (after ins b) p r"
proof -
  have "frame c [(ins, c, b)] [] [] [] q r" by (rule emits_frame) (use e in simp_all)
  moreover have "frag (lims c r) b [(ins, c, b)] (after ins b)"
    using frag_single [of "lims c r" ins b] raw_ok_grows [OF emits_grows [OF e] ins(1)] ins(2-) by (simp del: successors.simps)
  ultimately show ?thesis using ext_trans [OF q, of "[(ins, c, b)]" "[]" "[]"] by (simp add: ext_def)
qed

lemma ext_return:
  assumes q: "ext c 0 F bs cs 1 p q"
  shows "stmts c p (emit q (mk_instr OP_RETURN 0 0))"
proof -
  let ?ins = "mk_instr OP_RETURN 0 0"
  have "frame c [(?ins, c, 1)] [] [] [] q (emit q ?ins)" by (rule emits_frame) (simp_all add: emits_emit)
  moreover have "frag (lims c (emit q ?ins)) 1 [(?ins, c, 1)] 0" using frag_return [of ?ins "lims c (emit q ?ins)"] by simp
  ultimately have "ext c 0 (F @ [(?ins, c, 1)]) bs cs 0 p (emit q ?ins)"
    using ext_trans [OF q, of "[(?ins, c, 1)]" "[]" "[]"] by (simp add: ext_def)
  then show ?thesis unfolding stmts_def by blast
qed

lemma return_stmt_ok:
  assumes ex: "expr_spec W ex m" and M: "M \<le> 2 ^ 29" and p: "pinv W M p" "pm p \<le> m" and eof: "inner (cur_kind p)"
  shows "runs W (return_stmt ex p) (\<lambda>_ p'. pinv W M p' \<and> stmts c p p' \<and> pm p' < pm p)"
  unfolding return_stmt_def
proof (rule advance_then [OF p(1) eof])
  fix p1 assume p1: "pinv W (M - 2) p1" "reads p p1"
  have "runs W (if cur_kind p1 = LK_SEMICOLON then
          andthen (advance p1) (\<lambda>_ p. andthen (add_const_steal p V_Nil) (\<lambda>i p. ok () (emit p (mk_instr OP_LOAD_CONST 0 i))))
        else andthen (ex (-1) p1) (\<lambda>_ p. slurp p LK_SEMICOLON (''expected '' @ quoted '';''))) (\<lambda>_ p'. post W (M - 1) 0 1 p p')"
  proof (rule runs_if)
    assume "cur_kind p1 = LK_SEMICOLON"
    then show "runs W (andthen (advance p1) (\<lambda>_ p. andthen (add_const_steal p V_Nil) (\<lambda>i p. ok () (emit p (mk_instr OP_LOAD_CONST 0 i)))))
        (\<lambda>_ p'. post W (M - 1) 0 1 p p')"
    proof (intro advance_then [OF p1(1)])
      fix p2 assume p2: "pinv W (M - 2 - 2) p2" "reads p1 p2"
      have "const_ok W (M - 2 - 2) p2 (add_const_steal p2 V_Nil)" by (rule add_const_ok [OF p2(1)]) (use M in simp_all)
      then show "runs W (andthen (add_const_steal p2 V_Nil) (\<lambda>i p. ok () (emit p (mk_instr OP_LOAD_CONST 0 i)))) (\<lambda>_ p'. post W (M - 1) 0 1 p p')"
      proof (rule runs_andthen, elim conjE)
        fix i p3 assume p3: "pinv W (M - 2 - 2 + 1) p3" "emits p2 [] p3" "pm p3 = pm p2" "i \<le> UINT32_MAX" "i < length (ps_consts p3)"
        have "does p3 0 1 (emit p3 (mk_instr OP_LOAD_CONST 0 i))"
        proof -
          have "pure (lims c' p3) 0 [mk_instr OP_LOAD_CONST 0 i] 1" for c'
            using p3(4,5) by (simp add: pure_ins_simps effect_simps after_def)
          then show ?thesis unfolding does_def using emits_emit(2) pure_grows [OF emits_grows [OF emits_emit(2)]] by blast
        qed
        then have "does p 0 1 (emit p3 (mk_instr OP_LOAD_CONST 0 i))"
          using does_trans [OF does_skip [OF p3(2)]] does_reads [OF p1(2) does_reads [OF p2(2)]] by blast
        then show "runs W (ok () (emit p3 (mk_instr OP_LOAD_CONST 0 i))) (\<lambda>_ p'. post W (M - 1) 0 1 p p')"
          using pinv_mono [OF pinv_emit(2) [OF p3(1)], of "M - 1"] reads_pm [OF p1(2)] reads_pm [OF p2(2)] p3(3) by (simp add: post_def)
      qed
    qed simp
  next
    have "pm p1 < m" using reads_pm [OF p1(2)] p(2) by simp
    then show "runs W (andthen (ex (-1) p1) (\<lambda>_ p. slurp p LK_SEMICOLON (''expected '' @ quoted '';''))) (\<lambda>_ p'. post W (M - 1) 0 1 p p')"
    proof (intro expr_then [OF ex _ p1(1)])
      fix p2 assume p2: "post W (M - 2) 0 1 p1 p2"
      then have "pinv W (M - 2) p2" by blast
      then show "runs W (slurp p2 LK_SEMICOLON (''expected '' @ quoted '';'')) (\<lambda>_ p'. post W (M - 1) 0 1 p p')"
        using post_then_reads [OF post_reads [OF p1(2) p2] pinv_mono]
        by (intro runs_conseq [OF slurp_ok]) auto
    qed (use M in simp_all)
  qed
  then show "runs W (andthen (if cur_kind p1 = LK_SEMICOLON then
          andthen (advance p1) (\<lambda>_ p. andthen (add_const_steal p V_Nil) (\<lambda>i p. ok () (emit p (mk_instr OP_LOAD_CONST 0 i))))
        else andthen (ex (-1) p1) (\<lambda>_ p. slurp p LK_SEMICOLON (''expected '' @ quoted '';''))) (\<lambda>_ p. ok () (emit p (mk_instr OP_RETURN 0 0))))
      (\<lambda>_ p'. pinv W M p' \<and> stmts c p p' \<and> pm p' < pm p)"
  proof (rule runs_andthen)
    fix p2 assume p2: "post W (M - 1) 0 1 p p2"
    then obtain F where "ext c 0 F [] [] 1 p p2" using post_ext by blast
    then show "runs W (ok () (emit p2 (mk_instr OP_RETURN 0 0))) (\<lambda>_ p'. pinv W M p' \<and> stmts c p p' \<and> pm p' < pm p)"
      using p2 pinv_emit(2) [of W "M - 1" p2] by (auto simp: post_def intro: ext_return)
  qed
qed

section \<open>Assignments\<close>

text \<open>The last instruction of an expression, which is taken back when the expression is assigned to.\<close>

lemma pinv_less_code:
  assumes "pinv W M p" and "length ts \<le> length (prog p)"
  shows "pinv W M (p\<lparr>prog := ts\<rparr>)"
proof -
  have "pm (p\<lparr>prog := ts\<rparr>) = pm p" "ahead (p\<lparr>prog := ts\<rparr>) = ahead p" by (simp_all add: pm_def ahead_def)
  then show ?thesis using assms by (simp add: pinv_def core_def glob_def lexing_def bounded_def)
qed

lemma unemit_ok:
  assumes q: "post W M 0 1 p q"
  shows "\<exists>ins r n. unemit q = Some (ins, r) \<and> post W M 0 n p r \<and> (\<forall>c. pure_ins (lims c r) ins) \<and> fst (effect ins) \<le> n \<and>
    after ins n = 1 \<and> ps_cur r = ps_cur q"
proof -
  obtain "is" where e: "emits p is q" and pure: "\<And>c. pure (lims c q) 0 is 1" using q by (auto simp: post_def does_def)
  have "is \<noteq> []" using pure [of 0] by auto
  then obtain js ins where js: "is = js @ [ins]" by (metis append_butlast_last_id)
  obtain ts where ts: "prog q = prog p @ ts" "map ti_instr ts = js @ [ins]" using e js by (auto simp: emits_def)
  then obtain us t where us: "ts = us @ [t]" "map ti_instr us = js" "ti_instr t = ins" by (cases ts rule: rev_cases) auto
  let ?r = "q\<lparr>prog := prog p @ us\<rparr>"
  have r: "unemit q = Some (ins, ?r)" using ts us by (simp add: unemit_def butlast_append)
  have lims: "lims c ?r = lims c q" for c by (simp add: lims_def)
  have m: "\<exists>n. pure (lims c q) 0 js n \<and> pure_ins (lims c q) ins \<and> fst (effect ins) \<le> n \<and> after ins n = 1" for c
    using pure [of c] by (auto simp: js pure_append)
  have unique: "pure K h js n \<Longrightarrow> n = foldl (\<lambda>d i. after i d) h js" for K h n
    by (induction js arbitrary: h) auto
  define n where "n = foldl (\<lambda>d i. after i d) 0 js"
  have n: "pure (lims c q) 0 js n \<and> pure_ins (lims c q) ins \<and> fst (effect ins) \<le> n \<and> after ins n = 1" for c
    using m [of c] unique unfolding n_def by metis
  have "emits p js ?r" using e us by (auto simp: emits_def hushed_def no_fun_def ahead_def pm_def)
  moreover have "pinv W M ?r" using q by (intro pinv_less_code) (auto simp: ts us)
  moreover have "pm ?r = pm q" by (simp add: pm_def)
  ultimately have "post W M 0 n p ?r" using q n unfolding post_def does_def lims by auto
  then show ?thesis using r n by (intro exI [of _ ins] exI [of _ ?r] exI [of _ n]) (simp add: lims)
qed

text \<open>A name in the table of the function.\<close>

lemma put_local_frame:
  assumes sc: "scopes p \<noteq> []" and t: "xht_size (last (scopes p)) \<le> xht_size t"
  shows "frame c [] [] [] [] p (p\<lparr>scopes := butlast (scopes p) @ [t]\<rparr>)"
proof -
  let ?p = "p\<lparr>scopes := butlast (scopes p) @ [t]\<rparr>"
  have "length (butlast (scopes p) @ [t]) = length (scopes p)" using sc by simp
  then have r: "rstate p rb rs r \<Longrightarrow> rstate ?p rb rs r" for rb rs r by (simp add: rstate_def here_def)
  have h: "here ?p = here p" by (simp add: here_def)
  have g: "grows (lims c p) (lims c ?p)" using sc t by (simp add: grows_def lims_def)
  have "\<exists>rs' r'. rstate ?p rb rs' r' \<and> opos rs' r' (here ?p) = opos rs r (here p) @ own_at c (here p) []"
    if "rstate p rb rs r" for rb rs r using r [OF that] by (intro exI [of _ rs] exI [of _ r]) (simp add: h)
  then show ?thesis using sc g unfolding frame_def by (auto simp: hushed_def no_fun_def ahead_def pm_def)
qed

text \<open>The instruction that stores, and what it takes from the stack: the value, and what the instruction that loads takes.\<close>

definition stores :: "nat \<Rightarrow> parser \<Rightarrow> instr \<Rightarrow> instr \<Rightarrow> bool" where
  "stores c p ld ins \<longleftrightarrow> raw_ok (lims c p) ins \<and> effect ins = (fst (effect ld) + 1, 0) \<and> successors (k_chunk (lims c p)) ins = [1] \<and>
     opcode ins \<noteq> OP_FUNCTION \<and> opcode ins \<noteq> OP_RETURN"

lemma load_to_store_ok:
  assumes p: "pinv W M p" and M: "M \<le> 2 ^ 30" and sc: "scopes p \<noteq> []" and ld: "pure_ins (lims c p) ld"
  shows "runs W (load_to_store p ld local lx) (\<lambda>ins p'. pinv W (M + 1) p' \<and> frame c [] [] [] [] p p' \<and> pm p' = pm p \<and> stores c p' ld ins)"
proof -
  have i: "unat (in_c ld) < length (idents p)" if "opcode ld = OP_LOAD_SYMBOLIC"
    using ld that by (simp add: pure_ins_def raw_ok.simps)
  have put: "yields (put_local p name) (\<lambda>(idx, p'). pinv W (M + 1) p' \<and> frame c [] [] [] [] p p' \<and> pm p' = pm p \<and> idx < 2 ^ 32 \<and>
      idx < k_locals (lims c p'))" for name
  proof (rule yields_conseq [OF put_local_ok [OF p sc M]])
    fix r :: "nat \<times> parser"
    assume "case r of (idx, p') \<Rightarrow> \<exists>t. p' = p\<lparr>scopes := butlast (scopes p) @ [t]\<rparr> \<and> pinv W (M + 1) p' \<and>
      idx < xht_size t \<and> xht_size (last (scopes p)) \<le> xht_size t \<and> xht_size t \<le> xht_size (last (scopes p)) + 1 \<and>
      (idx = xht_size (last (scopes p)) \<longrightarrow> xht_size t = xht_size (last (scopes p)) + 1)"
    then obtain idx t where r: "r = (idx, p\<lparr>scopes := butlast (scopes p) @ [t]\<rparr>)"
      and t: "pinv W (M + 1) (p\<lparr>scopes := butlast (scopes p) @ [t]\<rparr>)" "idx < xht_size t" "xht_size (last (scopes p)) \<le> xht_size t"
      by (cases r) auto
    have "int (xht_size t) \<le> M + 1" using bounded_scope [of "M + 1" "p\<lparr>scopes := butlast (scopes p) @ [t]\<rparr>" t] t(1) by (simp add: pinv_def)
    then show "case r of (idx, p') \<Rightarrow> pinv W (M + 1) p' \<and> frame c [] [] [] [] p p' \<and> pm p' = pm p \<and> idx < 2 ^ 32 \<and> idx < k_locals (lims c p')"
      using t M put_local_frame [OF sc t(3)] by (simp add: r lims_def pm_def)
  qed
  show ?thesis
  proof (cases "opcode ld = OP_LOAD_SYMBOLIC")
    case True
    have "effect ld = (0, 1)" using True by (simp add: effect.simps)
    then show ?thesis
      using True p i [OF True] put [of "idents p ! unat (in_c ld)"] pinv_mono [OF p, of "M + 1"]
      by (auto simp: load_to_store_def ident_of_def stores_def effect.simps raw_ok.simps unat_small elim!: yields_conseq)
  next
    case False
    then show ?thesis
      using p pinv_mono [OF p, of "M + 1"] by (auto simp: load_to_store_def stores_def effect.simps raw_ok.simps)
  qed
qed

lemma load_to_modify_ok:
  assumes p: "pinv W M p" and ld: "pure_ins (lims c p) ld"
  shows "runs W (load_to_modify p ld aop lx) (\<lambda>ins p'. p' = p \<and> stores c p' ld ins)"
  using ld p by (auto simp: load_to_modify_def stores_def effect.simps raw_ok.simps pure_ins_def aop_code)

definition plain :: "nat \<Rightarrow> parser \<Rightarrow> parser \<Rightarrow> bool" where
  "plain c p p' \<longleftrightarrow> (\<exists>F. ext c 0 F [] [] 0 p p')"

lemma plain_stmts: "plain c p p' \<Longrightarrow> stmts c p p'"
  by (auto simp: plain_def stmts_def)

lemma ext_store:
  assumes F: "ext c 0 F [] [] (Suc n) p q" and f: "frame c [] [] [] [] q r" and st: "stores c r ld ins" and n: "n = fst (effect ld)"
    and e: "emits r [ins] r'"
  shows "plain c p r'"
proof -
  have r: "ext c 0 F [] [] (Suc n) p r" using ext_trans [OF F, of "[]" "[]" "[]" "Suc n" r] f by (simp add: ext_def)
  have "successors (k_chunk (lims c r')) ins = successors (k_chunk (lims c r)) ins"
    using st by (cases "opcode ins") (simp_all add: stores_def)
  then have "ext c 0 (F @ [(ins, c, Suc n)]) [] [] (after ins (Suc n)) p r'"
    using st n by (intro ext_emit [OF r e]) (simp_all add: stores_def del: successors.simps)
  moreover have "after ins (Suc n) = 0" using st n by (simp add: stores_def after_def)
  ultimately show ?thesis by (auto simp: plain_def)
qed

lemma assign_ok:
  assumes ex: "expr_spec W ex m" and M: "M \<le> 2 ^ 29" and p: "ctx c p" "pm p \<le> m" and q: "post W M 0 1 p q" and eof: "inner (cur_kind q)"
    and conv: "\<And>N r ld. pinv W N r \<Longrightarrow> N \<le> 2 ^ 30 \<Longrightarrow> scopes r \<noteq> [] \<Longrightarrow> pure_ins (lims c r) ld \<Longrightarrow>
      runs W (conv r ld) (\<lambda>ins r'. pinv W (N + 1) r' \<and> frame c [] [] [] [] r r' \<and> pm r' = pm r \<and> stores c r' ld ins)"
  shows "runs W (do { (ld, p) \<leftarrow> unemit q; andthen (advance p) (\<lambda>_ p. andthen (ex (-1) p) (\<lambda>_ p.
      andthen (conv p ld) (\<lambda>ins p. ok () (emit_at p ins lx)))) }) (\<lambda>_ p'. pinv W (M + 1) p' \<and> plain c p p' \<and> pm p' < pm p)"
proof -
  let ?Q = "\<lambda>_ p'. pinv W (M + 1) p' \<and> plain c p p' \<and> pm p' < pm p"
  obtain ld r n where r: "unemit q = Some (ld, r)" "post W M 0 n p r" "\<And>c. pure_ins (lims c r) ld" "fst (effect ld) \<le> n"
    "after ld n = 1" "ps_cur r = ps_cur q" using unemit_ok [OF q] by blast
  have n: "n = fst (effect ld)" using r(4,5) pure_effect(1) [OF r(3)] by (simp add: after_def)
  have inv: "pinv W M r" "inner (cur_kind r)" using r(2,6) eof by auto
  have "runs W (andthen (advance r) (\<lambda>_ p. andthen (ex (-1) p) (\<lambda>_ p. andthen (conv p ld) (\<lambda>ins p. ok () (emit_at p ins lx))))) ?Q"
  proof (rule advance_then [OF inv], rule expr_then [OF ex])
    fix r1 r2 assume r1: "reads r r1" and r2: "post W (M - 2) 0 1 r1 r2"
    have "post W (M - 2) 0 1 r r2" by (rule post_reads [OF r1 r2])
    from post_trans [OF r(2) post_lift [OF this, of n, simplified]]
    have r2': "post W (M - 2) 0 (Suc n) p r2" .
    then obtain F where F: "ext c 0 F [] [] (Suc n) p r2" using post_ext by blast
    have "does r n (Suc n) r2" using does_reads [OF r1] does_lift [of r1 0 1 r2 n] r2 by (simp add: post_def)
    then have "grows (lims c r) (lims c r2)" by (auto simp: does_def intro: emits_grows)
    then have ld: "pure_ins (lims c r2) ld" using pure_ins_grows r(3) by blast
    have "ctx c r2" using F p(1) by (auto simp: ext_def intro: frame_ctx)
    then have sc: "scopes r2 \<noteq> []" by (auto simp: ctx_def rstate_def)
    have "runs W (conv r2 ld) (\<lambda>ins r'. pinv W (M - 2 + 1) r' \<and> frame c [] [] [] [] r2 r' \<and> pm r' = pm r2 \<and> stores c r' ld ins)"
      using r2 M by (intro conv sc ld) auto
    then show "runs W (andthen (conv r2 ld) (\<lambda>ins p. ok () (emit_at p ins lx))) ?Q"
    proof (rule runs_andthen, elim conjE)
      fix ins r3 assume r3: "pinv W (M - 2 + 1) r3" "frame c [] [] [] [] r2 r3" "pm r3 = pm r2" "stores c r3 ld ins"
      have "plain c p (emit_at r3 ins lx)"
        by (rule ext_store [OF F r3(2,4) n emits_emit(1)])
      then show "runs W (ok () (emit_at r3 ins lx)) ?Q"
        using pinv_mono [OF pinv_emit(1) [OF r3(1)], of "M + 1"] post_pm [OF r2'] r3(3) by simp
    qed
  qed (use M p(2) post_pm [OF r(2)] in \<open>auto dest!: reads_pm\<close>)
  then show ?thesis using r(1) by simp
qed

lemma expr_or_assignment_ok:
  assumes ex: "expr_spec W ex m" and M: "M \<le> 2 ^ 29" and p: "pinv W M p" "ctx c p" "pm p < m"
  shows "runs W (expr_or_assignment ex p) (\<lambda>_ p'. pinv W (M + 1) p' \<and> plain c p p' \<and> pm p' < pm p)"
  unfolding expr_or_assignment_def
proof (rule expr_then [OF ex M p(1,3)])
  fix q assume q: "post W M 0 1 p q"
  let ?k = "cur_kind q" and ?Q = "\<lambda>_ p'. pinv W (M + 1) p' \<and> plain c p p' \<and> pm p' < pm p"
  note assign = assign_ok [OF ex M p(2) less_imp_le [OF p(3)] q]
  have inv: "pinv W M q" using q by blast
  show "runs W (let barrier = ps_cur q; kind = lk_kind barrier in
       if kind = LK_EQ \<or> kind = LK_COLON_EQ then do {
         (load_instr, p) \<leftarrow> unemit q;
         andthen (advance p) (\<lambda>_ p. andthen (ex (-1) p) (\<lambda>_ p.
         andthen (load_to_store p load_instr (kind = LK_COLON_EQ) barrier) (\<lambda>store_instr p. ok () (emit_at p store_instr barrier))))
       }
       else if kind = LK_SEMICOLON then ok () (emit_at q (mk_instr OP_PRINT 0 0) barrier)
       else case assign_table kind of
         None \<Rightarrow> throw_error_at q (''expected '' @ quoted '';'' @ '' or assignment'') barrier
       | Some aop \<Rightarrow> do {
           (load_instr, p) \<leftarrow> unemit q;
           andthen (advance p) (\<lambda>_ p. andthen (ex (-1) p) (\<lambda>_ p.
           andthen (load_to_modify p load_instr aop barrier) (\<lambda>modify_instr p. ok () (emit_at p modify_instr barrier))))
         }) ?Q"
    unfolding Let_def
  proof (intro runs_if)
    assume "?k = LK_EQ \<or> ?k = LK_COLON_EQ"
    then show "runs W (do {
         (load_instr, p) \<leftarrow> unemit q;
         andthen (advance p) (\<lambda>_ p. andthen (ex (-1) p) (\<lambda>_ p.
         andthen (load_to_store p load_instr (?k = LK_COLON_EQ) (ps_cur q)) (\<lambda>store_instr p. ok () (emit_at p store_instr (ps_cur q)))))
       }) ?Q"
      by (intro assign load_to_store_ok) auto
  next
    let ?ins = "mk_instr OP_PRINT 0 0"
    obtain F where "ext c 0 F [] [] 1 p q" using post_ext [OF q] by blast
    from ext_emit [OF this emits_emit(1) [of q ?ins "ps_cur q"]]
    have "ext c 0 (F @ [(?ins, c, 1)]) [] [] 0 p (emit_at q ?ins (ps_cur q))"
      by (simp add: raw_ok.simps effect.simps after_def)
    then show "runs W (ok () (emit_at q ?ins (ps_cur q))) ?Q"
      using pinv_emit(1) [OF inv] post_pm [OF q] by (auto simp: plain_def)
  next
    show "runs W (case assign_table ?k of
         None \<Rightarrow> throw_error_at q (''expected '' @ quoted '';'' @ '' or assignment'') (ps_cur q)
       | Some aop \<Rightarrow> do {
           (load_instr, p) \<leftarrow> unemit q;
           andthen (advance p) (\<lambda>_ p. andthen (ex (-1) p) (\<lambda>_ p.
           andthen (load_to_modify p load_instr aop (ps_cur q)) (\<lambda>modify_instr p. ok () (emit_at p modify_instr (ps_cur q)))))
         }) ?Q"
    proof (cases "assign_table ?k")
      case (Some aop)
      have "inner ?k" using Some by (auto simp: assign_table_def)
      moreover have "runs W (load_to_modify r ld aop lx) (\<lambda>ins r'. pinv W (N + 1) r' \<and> frame c [] [] [] [] r r' \<and> pm r' = pm r \<and> stores c r' ld ins)"
        if "pinv W N r" "pure_ins (lims c r) ld" for N r ld lx
        by (rule runs_conseq [OF load_to_modify_ok [OF that]]) (use pinv_mono [OF that(1), of "N + 1"] in auto)
      ultimately show ?thesis unfolding Some option.case by (intro assign) auto
    qed (use inv in auto)
  qed
qed

end
