(* ===== verification/Parser_Functions.thy ===== *)
theory Parser_Functions
  imports Parser_Loops
begin

text \<open>
  Functions: the scope that a function opens, its parameters, and its end, where its code becomes code that the
  verifier accepts, inside the code of the function around it.
\<close>

section \<open>The begin of a function\<close>

lemma pinv_shapes:
  assumes "pinv W M p" and "length shs = length (ps_shapes p)"
  shows "pinv W M (p\<lparr>ps_shapes := shs\<rparr>)"
proof -
  have "pm (p\<lparr>ps_shapes := shs\<rparr>) = pm p" "ahead (p\<lparr>ps_shapes := shs\<rparr>) = ahead p" by (simp_all add: pm_def ahead_def)
  then show ?thesis using assms by (simp add: pinv_def core_def glob_def lexing_def bounded_def)
qed

text \<open>The function with the number \<open>i\<close> begins; \<open>rs\<close> are the ranges of the scopes around.\<close>

definition begun :: "code_range list \<Rightarrow> nat xht \<Rightarrow> parser \<Rightarrow> parser" where
  "begun rs t p = (emit p (mk_instr OP_FUNCTION 0 (length (ps_shapes p))))
     \<lparr>ps_shapes := ps_shapes p @ [no_shape], scopes := scopes p @ [t], ranges := rs @ [new_range (length (scopes p)) (here p + 1)],
      s_if := SIZE_MAX # s_if p, s_break := SIZE_MAX # s_break p, s_continue := SIZE_MAX # s_continue p\<rparr>"

lemma begun_simps [simp]:
  "here (begun rs t p) = here p + 1" "pcode (begun rs t p) = pcode p @ [mk_instr OP_FUNCTION 0 (length (ps_shapes p))]"
  "ps_shapes (begun rs t p) = ps_shapes p @ [no_shape]" "scopes (begun rs t p) = scopes p @ [t]"
  "ranges (begun rs t p) = rs @ [new_range (length (scopes p)) (here p + 1)]" "s_if (begun rs t p) = SIZE_MAX # s_if p"
  "s_break (begun rs t p) = SIZE_MAX # s_break p" "s_continue (begun rs t p) = SIZE_MAX # s_continue p"
  "ps_consts (begun rs t p) = ps_consts p" "idents (begun rs t p) = idents p" "ps_globals (begun rs t p) = ps_globals p"
  "ps_lexer (begun rs t p) = ps_lexer p" "ps_cur (begun rs t p) = ps_cur p" "pm (begun rs t p) = pm p" "ahead (begun rs t p) = ahead p"
  by (simp_all add: begun_def here_def emit_def emit_at_line_def pm_def ahead_def)

lemma core_begun: "core W p \<Longrightarrow> table_ok t \<Longrightarrow> core W (begun rs t p)"
  by (auto simp: core_def glob_def)

lemma pinv_begun:
  assumes p: "pinv W M p" and t: "table_ok t" "xht_size t = 0"
  shows "pinv W (M + 1) (begun rs t p)"
proof -
  have "length (prog (begun rs t p)) = length (prog p) + 1" by (simp add: begun_def emit_def emit_at_line_def)
  then have "bounded (M + 1) (begun rs t p)" using p t(2) by (fastforce simp: pinv_def bounded_def)
  moreover have "core W (begun rs t p)" using p t(1) by (simp add: pinv_def core_begun)
  moreover have "lexing W (begun rs t p)" using p by (simp add: pinv_def lexing_def)
  ultimately show ?thesis by (simp add: pinv_def)
qed

lemma fun_begin_run:
  assumes n: "length (ps_shapes p) < UINT32_MAX"
    and op: "\<And>q. scopes q = scopes p \<Longrightarrow> ranges q = ranges p \<Longrightarrow> here q = here p + 1 \<Longrightarrow>
      yields (open_scope q) (\<lambda>p'. \<exists>t. table_ok t \<and> xht_size t = 0 \<and>
        p' = q\<lparr>scopes := scopes p @ [t], ranges := rs @ [new_range (length (scopes p)) (here p + 1)]\<rparr>)"
  shows "runs W (fun_begin p) (\<lambda>pos p'. pos = here p \<and> (\<exists>t. table_ok t \<and> xht_size t = 0 \<and> p' = begun rs t p))"
proof -
  have m: "length (ps_shapes p) mod 2 ^ 32 = length (ps_shapes p)" using n by (simp add: UINT32_MAX_def)
  let ?q = "emit (p\<lparr>ps_shapes := ps_shapes p @ [no_shape]\<rparr>) (mk_instr OP_FUNCTION 0 (length (ps_shapes p)))"
  have "yields (open_scope ?q) (\<lambda>p'. \<exists>t. table_ok t \<and> xht_size t = 0 \<and>
      p' = ?q\<lparr>scopes := scopes p @ [t], ranges := rs @ [new_range (length (scopes p)) (here p + 1)]\<rparr>)"
    by (rule op) (simp_all add: emit_def emit_at_line_def here_def)
  then show ?thesis using n m
    by (auto simp: fun_begin_def add_shape_def Let_def begun_def emit_def emit_at_line_def elim!: yields_conseq)
qed

lemma fun_begin_ok:
  assumes r: "rstate p rb rs r" and n: "length (ps_shapes p) < UINT32_MAX"
  shows "runs W (fun_begin p) (\<lambda>pos p'. pos = here p \<and> (\<exists>t. table_ok t \<and> xht_size t = 0 \<and>
    p' = begun (rb @ rs @ [r\<lparr>range_end := here p + 1\<rparr>]) t p))"
proof (rule fun_begin_run [OF n])
  fix q assume q: "scopes q = scopes p" "ranges q = ranges p" "here q = here p + 1"
  then have "rstate q rb rs r" using r by (simp add: rstate_def)
  from open_scope_next [OF this] show "yields (open_scope q) (\<lambda>p'. \<exists>t. table_ok t \<and> xht_size t = 0 \<and>
      p' = q\<lparr>scopes := scopes p @ [t], ranges := (rb @ rs @ [r\<lparr>range_end := here p + 1\<rparr>]) @ [new_range (length (scopes p)) (here p + 1)]\<rparr>)"
    by (simp add: q)
qed

lemma fun_begin_first:
  assumes r: "ranges p = []" "scopes p = []" and n: "length (ps_shapes p) < UINT32_MAX"
  shows "runs W (fun_begin p) (\<lambda>pos p'. pos = here p \<and> (\<exists>t. table_ok t \<and> xht_size t = 0 \<and> p' = begun [] t p))"
proof (rule fun_begin_run [OF n])
  fix q assume q: "scopes q = scopes p" "ranges q = ranges p" "here q = here p + 1"
  from open_scope_first [of q] show "yields (open_scope q) (\<lambda>p'. \<exists>t. table_ok t \<and> xht_size t = 0 \<and>
      p' = q\<lparr>scopes := scopes p @ [t], ranges := [] @ [new_range (length (scopes p)) (here p + 1)]\<rparr>)"
    using r by (simp add: q)
qed

section \<open>Parameters\<close>

text \<open>The encoded number of parameters, where there are \<open>n\<close> local variables.\<close>

definition args_ok :: "32 word \<Rightarrow> nat \<Rightarrow> bool" where
  "args_ok a n \<longleftrightarrow> (if 0 \<le> sint a then unat a \<le> n else unat (NOT a) + 1 \<le> n)"

lemma args_ok_mono: "args_ok a m \<Longrightarrow> m \<le> n \<Longrightarrow> args_ok a n"
  by (auto simp: args_ok_def)

lemma sint_of_nat_small: "n < 2 ^ 31 \<Longrightarrow> sint (of_nat n :: 32 word) = int n"
  using sint_small [of "int n"] by simp

lemma args_ok_exact:
  assumes "n < 2 ^ 30"
  shows "args_ok (of_nat n) n" and "args_ok (NOT (of_nat n)) (n + 1)"
proof -
  have n: "sint (of_nat n :: 32 word) = int n" using assms by (intro sint_of_nat_small) simp
  have u: "unat (of_nat n :: 32 word) = n" using assms by (intro unat_small) simp
  show "args_ok (of_nat n) n" using n u by (simp add: args_ok_def)
  have "NOT (of_nat n :: 32 word) = of_int (- int n - 1)" by (simp add: not_eq_complement)
  then have "sint (NOT (of_nat n :: 32 word)) = - int n - 1" using assms sint_small [of "- int n - 1"] by simp
  then show "args_ok (NOT (of_nat n)) (n + 1)" using u by (simp add: args_ok_def)
qed

text \<open>Parameters are read: the innermost scope and the shape of the function change.\<close>

definition params :: "nat \<Rightarrow> parser \<Rightarrow> parser \<Rightarrow> bool" where
  "params i p q \<longleftrightarrow> (\<exists>l x t a. q = p\<lparr>ps_cur := l, ps_lexer := x, scopes := butlast (scopes p) @ [t],
     ps_shapes := (ps_shapes p)[i := (ps_shapes p ! i)\<lparr>nargs_encoded := a\<rparr>]\<rparr>)"

lemma params_refl: "scopes p \<noteq> [] \<Longrightarrow> params i p p"
  unfolding params_def
  by (intro exI [of _ "ps_cur p"] exI [of _ "ps_lexer p"] exI [of _ "last (scopes p)"] exI [of _ "nargs_encoded (ps_shapes p ! i)"]) simp

lemma params_trans:
  assumes "params i p q" and "params i q r" and "i < length (ps_shapes p)"
  shows "params i p r"
proof -
  obtain l x t a where q: "q = p\<lparr>ps_cur := l, ps_lexer := x, scopes := butlast (scopes p) @ [t],
     ps_shapes := (ps_shapes p)[i := (ps_shapes p ! i)\<lparr>nargs_encoded := a\<rparr>]\<rparr>" using assms(1) unfolding params_def by blast
  obtain l' x' t' a' where "r = q\<lparr>ps_cur := l', ps_lexer := x', scopes := butlast (scopes q) @ [t'],
     ps_shapes := (ps_shapes q)[i := (ps_shapes q ! i)\<lparr>nargs_encoded := a'\<rparr>]\<rparr>" using assms(2) unfolding params_def by blast
  then have "r = p\<lparr>ps_cur := l', ps_lexer := x', scopes := butlast (scopes p) @ [t'],
     ps_shapes := (ps_shapes p)[i := (ps_shapes p ! i)\<lparr>nargs_encoded := a'\<rparr>]\<rparr>" using assms(3) by (simp add: q)
  then show ?thesis unfolding params_def by blast
qed

lemma params_reads: "reads p q \<Longrightarrow> scopes p \<noteq> [] \<Longrightarrow> params i p q"
proof -
  assume "reads p q" and sc: "scopes p \<noteq> []"
  then obtain l x where "q = p\<lparr>ps_cur := l, ps_lexer := x\<rparr>" by (auto simp: reads_def moves_def)
  then show ?thesis using sc unfolding params_def
    by (intro exI [of _ l] exI [of _ x] exI [of _ "last (scopes p)"] exI [of _ "nargs_encoded (ps_shapes p ! i)"]) simp
qed

lemma params_shape_ptr: "params i p q \<Longrightarrow> fun_shape_ptr q pos = fun_shape_ptr p pos"
  by (auto simp: params_def fun_shape_ptr_def)

lemma fun_param_ok:
  assumes p: "pinv W M p" and sc: "scopes p \<noteq> []" and M: "M \<le> 2 ^ 29" and ptr: "fun_shape_ptr p pos = Some i"
    and a: "nargs_encoded (ps_shapes p ! i) = of_nat (xht_size (last (scopes p)))"
  shows "runs W (fun_param p pos name g) (\<lambda>_ q. pinv W (M + 1) q \<and> params i p q \<and> pm q = pm p \<and> cur_kind q = cur_kind p \<and>
    ahead q = ahead p \<and> (if g then args_ok (nargs_encoded (ps_shapes q ! i)) (xht_size (last (scopes q)))
     else nargs_encoded (ps_shapes q ! i) = of_nat (xht_size (last (scopes q)))))"
proof -
  let ?n = "xht_size (last (scopes p))" and ?sh = "ps_shapes p ! i"
  have "int ?n \<le> M" using bounded_scope [of M p "last (scopes p)"] p sc by (simp add: pinv_def)
  then have n: "?n < 2 ^ 30" "?n mod 2 ^ 32 = ?n" using M by simp_all
  have i: "i < length (ps_shapes p)" using ptr by (auto simp: fun_shape_ptr_def Let_def split: if_splits)
  obtain idx t where put: "put_local p (lexeme_text p name) = Some (idx, p\<lparr>scopes := butlast (scopes p) @ [t]\<rparr>)"
    and t: "pinv W (M + 1) (p\<lparr>scopes := butlast (scopes p) @ [t]\<rparr>)" "idx = ?n \<longrightarrow> xht_size t = ?n + 1"
    using put_local_ok [OF p sc, of "lexeme_text p name"] M by (auto simp: yields_iff_ex)
  let ?p = "p\<lparr>scopes := butlast (scopes p) @ [t]\<rparr>" and ?a = "if g then NOT (nargs_encoded ?sh) else nargs_encoded ?sh + 1"
  let ?q = "?p\<lparr>ps_shapes := (ps_shapes p)[i := ?sh\<lparr>nargs_encoded := ?a\<rparr>]\<rparr>"
  have "fun_shape_ptr ?p pos = fun_shape_ptr p pos" by (simp add: fun_shape_ptr_def)
  with ptr have ptr': "fun_shape_ptr ?p pos = Some i" by simp
  show ?thesis
  proof (cases "idx = ?n")
    case True
    then have run: "fun_param p pos name g = ok () ?q"
      using sc put n ptr' by (simp add: fun_param_def Let_def)
    have "pinv W (M + 1) ?q" by (rule pinv_shapes [OF t(1)]) simp
    moreover have "?q = p\<lparr>ps_cur := ps_cur p, ps_lexer := ps_lexer p, scopes := butlast (scopes p) @ [t],
        ps_shapes := (ps_shapes p)[i := ?sh\<lparr>nargs_encoded := ?a\<rparr>]\<rparr>" by simp
    then have "params i p ?q" unfolding params_def by blast
    ultimately show ?thesis unfolding run
      using t(2) True i a args_ok_exact(2) [OF n(1)] by (simp add: pm_def ahead_def)
  qed (use sc put n t(1) in \<open>auto simp: fun_param_def Let_def\<close>)
qed

lemma params_scopes: "params i p q \<Longrightarrow> scopes q \<noteq> []"
  by (auto simp: params_def)

lemma reads_same: "reads p q \<Longrightarrow> scopes q = scopes p \<and> ps_shapes q = ps_shapes p"
  by (auto simp: reads_def moves_def)

lemma reads_shape_ptr: "reads p q \<Longrightarrow> fun_shape_ptr q pos = fun_shape_ptr p pos"
  by (auto simp: reads_def moves_def fun_shape_ptr_def)

definition params_done :: "setting \<Rightarrow> int \<Rightarrow> nat \<Rightarrow> parser \<Rightarrow> parser \<Rightarrow> bool" where
  "params_done W M i p q \<longleftrightarrow> pinv W M q \<and> params i p q \<and> pm q \<le> pm p \<and> cur_kind q = LK_RPAREN \<and>
     args_ok (nargs_encoded (ps_shapes q ! i)) (xht_size (last (scopes q)))"

lemma param_then:
  assumes p: "pinv W M p" and sc: "scopes p \<noteq> []" and M: "M \<le> 2 ^ 29" and ptr: "fun_shape_ptr p pos = Some i"
    and a: "nargs_encoded (ps_shapes p ! i) = of_nat (xht_size (last (scopes p)))" and k: "inner (cur_kind p)"
    and f: "\<And>q. pinv W (M - 1) q \<Longrightarrow> params i p q \<Longrightarrow> pm q < pm p \<Longrightarrow> (if g then args_ok (nargs_encoded (ps_shapes q ! i)) (xht_size (last (scopes q)))
      else nargs_encoded (ps_shapes q ! i) = of_nat (xht_size (last (scopes q)))) \<Longrightarrow> runs W (f () q) Q"
  shows "runs W (andthen (fun_param p pos name g) (\<lambda>_ p. andthen (advance p) f)) Q"
proof (rule runs_andthen [OF fun_param_ok [OF p sc M ptr a]], elim conjE)
  fix q assume q: "pinv W (M + 1) q" "params i p q" "pm q = pm p" "cur_kind q = cur_kind p"
    "if g then args_ok (nargs_encoded (ps_shapes q ! i)) (xht_size (last (scopes q)))
     else nargs_encoded (ps_shapes q ! i) = of_nat (xht_size (last (scopes q)))"
  have i: "i < length (ps_shapes p)" using ptr by (auto simp: fun_shape_ptr_def Let_def split: if_splits)
  have "inner (cur_kind q)" using q(4) k by simp
  then show "runs W (andthen (advance q) f) Q"
  proof (rule advance_then [OF q(1)])
    fix r assume r: "pinv W (M + 1 - 2) r" "reads q r"
    have "params i p r" by (rule params_trans [OF q(2) params_reads [OF r(2) params_scopes [OF q(2)]] i])
    then show "runs W (f () r) Q"
      using r q(3,5) reads_pm [OF r(2)] reads_same [OF r(2)] by (intro f) simp_all
  qed
qed

lemma param_loop_ok:
  assumes M: "M \<le> 2 ^ 29"
  shows "pinv W M p \<Longrightarrow> scopes p \<noteq> [] \<Longrightarrow> fun_shape_ptr p pos = Some i \<Longrightarrow>
    nargs_encoded (ps_shapes p ! i) = of_nat (xht_size (last (scopes p))) \<Longrightarrow> pm p < k \<Longrightarrow>
    runs W (param_loop pos k p) (\<lambda>_. params_done W M i p)"
proof (induction k arbitrary: p)
  case (Suc k)
  have i: "i < length (ps_shapes p)" using Suc.prems(3) by (auto simp: fun_shape_ptr_def Let_def split: if_splits)
  show ?case
  proof (cases "cur_kind p = LK_STAR")
    case True
    then have eof: "inner (cur_kind p)" by simp
    have "runs W (andthen (advance p) (\<lambda>_ p. let lxm = ps_cur p in
          if lk_kind lxm \<noteq> LK_IDENT then throw_error_at p ''expected gather parameter name'' lxm
          else andthen (fun_param p pos lxm True) (\<lambda>_ p. andthen (advance p) (\<lambda>_ p.
              if cur_kind p \<noteq> LK_RPAREN then throw_error_at p (''expected '' @ quoted '')'' @ '' after gather parameter'') lxm
              else ok () p)))) (\<lambda>_. params_done W M i p)"
      unfolding Let_def
    proof (rule advance_then [OF Suc.prems(1) eof], intro runs_if)
      fix q assume q: "pinv W (M - 2) q" "reads p q"
      note same = reads_same [OF q(2)]
      have pq: "params i p q" by (rule params_reads [OF q(2) Suc.prems(2)])
      show "runs W (throw_error_at q ''expected gather parameter name'' (ps_cur q)) (\<lambda>_. params_done W M i p)" using q(1) by auto
      assume "\<not> cur_kind q \<noteq> LK_IDENT"
      then show "runs W (andthen (fun_param q pos (ps_cur q) True) (\<lambda>_ p. andthen (advance p) (\<lambda>_ p.
              if cur_kind p \<noteq> LK_RPAREN then throw_error_at p (''expected '' @ quoted '')'' @ '' after gather parameter'') (ps_cur q)
              else ok () p))) (\<lambda>_. params_done W M i p)"
        using q(1) M same Suc.prems reads_shape_ptr [OF q(2)] params_trans [OF pq _ i] reads_pm [OF q(2)]
        by (intro param_then [OF q(1)]) (auto simp: params_done_def intro: pinv_mono)
    qed
    then show ?thesis using True by simp
  next
    case False
    have "runs W (andthen (fun_param p pos (ps_cur p) False) (\<lambda>_ p. andthen (advance p) (\<lambda>_ p.
            if cur_kind p = LK_RPAREN then ok () p
            else andthen (slurp p LK_COMMA (''expected '' @ quoted '','' @ '' or '' @ quoted '')'')) (\<lambda>_ p. param_loop pos k p))))
          (\<lambda>_. params_done W M i p)" if "cur_kind p = LK_IDENT"
    proof (rule param_then [OF Suc.prems(1,2) M Suc.prems(3,4)], simp add: that, intro runs_if)
      fix q assume q: "pinv W (M - 1) q" "params i p q" "pm q < pm p" and
        a: "if False then args_ok (nargs_encoded (ps_shapes q ! i)) (xht_size (last (scopes q)))
          else nargs_encoded (ps_shapes q ! i) = of_nat (xht_size (last (scopes q)))"
      {
        assume "cur_kind q = LK_RPAREN"
        moreover have "xht_size (last (scopes q)) < 2 ^ 30"
          using bounded_scope [of "M - 1" q "last (scopes q)"] q(1) params_scopes [OF q(2)] M by (simp add: pinv_def)
        ultimately show "runs W (ok () q) (\<lambda>_. params_done W M i p)"
          using q a args_ok_exact(1) by (auto simp: params_done_def intro: pinv_mono)
      next
        show "runs W (andthen (slurp q LK_COMMA (''expected '' @ quoted '','' @ '' or '' @ quoted '')'')) (\<lambda>_ p. param_loop pos k p))
          (\<lambda>_. params_done W M i p)"
        proof (rule slurp_then [OF q(1)])
          fix r assume r: "pinv W (M - 1 - 2) r" "reads q r"
          note same = reads_same [OF r(2)]
          have pr: "params i p r" by (rule params_trans [OF q(2) params_reads [OF r(2) params_scopes [OF q(2)]] i])
          have "runs W (param_loop pos k r) (\<lambda>_. params_done W M i r)"
            using r(1) same params_scopes [OF q(2)] params_shape_ptr [OF pr] Suc.prems(3,5) a q(3) reads_pm [OF r(2)]
            by (intro Suc.IH) (auto intro: pinv_mono)
          then show "runs W (param_loop pos k r) (\<lambda>_. params_done W M i p)"
            by (rule runs_conseq) (use params_trans [OF pr _ i] reads_pm [OF r(2)] q(3) in \<open>auto simp: params_done_def\<close>)
        qed simp
      }
    qed
    then show ?thesis using False Suc.prems(1) by (auto simp: Let_def)
  qed
qed simp

section \<open>The end of a function\<close>

lemma sealed_raw:
  assumes F: "sealed K F" and x: "x \<in> set F" "fst (snd x) = k_own K"
  shows "raw_ok K (fst x) \<and> fst (effect (fst x)) \<le> snd (snd x) \<and> snd (effect (fst x)) \<le> 1"
proof -
  obtain j where j: "j < length F" "F ! j = x" using x(1) by (auto simp: in_set_conv_nth)
  have "item_ok K F (k_own K, 0) j" using F j(1) by (simp add: sealed_def)
  then have "raw_ok K (fst x)" "fst (effect (fst x)) \<le> snd (snd x)" using x(2) j(2) by (cases x; simp add: item_ok_def)+
  moreover have "snd (effect (fst x)) \<le> 1" by (cases "opcode (fst x)") (simp_all add: effect.simps)
  ultimately show ?thesis by simp
qed

text \<open>The record after the end of a scope.\<close>

lemma pinv_closed:
  assumes p: "pinv W M p" and g: "glob W (p\<lparr>ps_globals := g\<rparr>)"
    and n: "length ts = length (prog p)" "length shs = length (ps_shapes p)"
  shows "pinv W M (p\<lparr>prog := ts, ps_globals := g, scopes := butlast (scopes p), ranges := rs, ps_shapes := shs,
    s_if := a, s_break := b, s_continue := d\<rparr>)" (is "pinv W M ?q")
proof -
  have "pm ?q = pm p" "ahead ?q = ahead p" by (simp_all add: pm_def ahead_def)
  then show ?thesis using p g n by (auto simp: pinv_def core_def glob_def lexing_def bounded_def dest: in_set_butlastD)
qed

definition ended :: "nat \<Rightarrow> instr list \<Rightarrow> instr \<Rightarrow> code_range list \<Rightarrow> parser \<Rightarrow> parser \<Rightarrow> bool" where
  "ended i X ins R p q \<longleftrightarrow> (\<exists>F sh. pcode q = X @ ins # map fst F \<and> F \<noteq> [] \<and> snd (hd F) = (i, 0) \<and> (\<forall>c. closed (lims c q) i F) \<and>
     ps_shapes q = (ps_shapes p)[i := sh] \<and> nargs_encoded sh = nargs_encoded (ps_shapes p ! i) \<and> shape_ok sh \<and> sh_offset sh = length F + 1 \<and>
     maxstack sh \<le> length F) \<and>
     scopes q = butlast (scopes p) \<and>
     ranges q = R @ (if butlast (scopes p) = [] then [] else [new_range (length (scopes p) - 2) (here q)]) \<and>
     s_if q = tl (s_if p) \<and> s_break q = tl (s_break p) \<and> s_continue q = tl (s_continue p) \<and>
     prefix (ps_consts p) (ps_consts q) \<and> idents q = idents p \<and> length (g_data (ps_globals p)) \<le> length (g_data (ps_globals q))"

lemma frag_hd: "frag K d F e \<Longrightarrow> F \<noteq> [] \<Longrightarrow> snd (hd F) = (k_own K, d)"
  by (simp add: frag_def ann_def hd_conv_nth)

lemma fun_shape_ptr_at:
  assumes "pcode p = X @ ins # Z" and "opcode ins = OP_FUNCTION" and "unat (in_c ins) < length (ps_shapes p)"
  shows "fun_shape_ptr p (length X) = Some (unat (in_c ins))"
proof -
  have n: "length X < length (prog p)" using arg_cong [OF assms(1), of length] by simp
  then have "ti_instr (prog p ! length X) = ins" using arg_cong [OF assms(1), of "\<lambda>l. l ! length X"] by simp
  then show ?thesis using assms n by (simp add: fun_shape_ptr_def Let_def)
qed

lemma fun_end_code:
  assumes p: "pinv W M p" and M: "M < 2 ^ 30" and code: "pcode p = X @ ins # map fst F" and ins: "opcode ins = OP_FUNCTION" "unat (in_c ins) = i"
    and i: "i < length (ps_shapes p)" and F: "sealed (lims i p) F" "F \<noteq> []" "snd (hd F) = (i, 0)" "walk i 0 F = Some d1"
    and r: "rstate p R rs r" and pos: "opos rs r (here p) = own_at i (length X + 1) F"
    and args: "args_ok (nargs_encoded (ps_shapes p ! i)) (xht_size (last (scopes p)))"
    and s: "s_if p \<noteq> []" "s_break p \<noteq> []" "s_continue p \<noteq> []"
  shows "runs W (andthen (close_scope p) (\<lambda>(m, n) q.
           let sh = ps_shapes q ! i;
               q = q\<lparr>ps_shapes := (ps_shapes q)[i := sh\<lparr>nlocals := n, maxstack := m\<rparr>]\<rparr>;
               offset = here p - length X in
           if offset > UINT32_MAX div 2 then throw_error q ''function body is too long''
           else
             let sh = ps_shapes q ! i;
                 q = q\<lparr>ps_shapes := (ps_shapes q)[i := sh\<lparr>sh_offset := offset\<rparr>]\<rparr> in
             if s_if q = [] \<or> s_break q = [] \<or> s_continue q = [] then None
             else ok () (q\<lparr>s_if := tl (s_if q), s_break := tl (s_break q), s_continue := tl (s_continue q)\<rparr>)))
     (\<lambda>_ q. pinv W M q \<and> pm q = pm p \<and> ended i X ins R p q)"
proof -
  have sc: "scopes p \<noteq> []" using r by (simp add: rstate_def)
  let ?n = "xht_size (last (scopes p))"
  have bd: "bounded M p" using p by (simp add: pinv_def)
  have "int ?n + 2 * int (pm p) \<le> M" by (rule bounded_scope [OF bd last_in_set [OF sc]])
  then have small: "?n < 2 ^ 30" "length (idents p) < 2 ^ 30" "here p < 2 ^ 30"
    using bd M by (simp_all add: bounded_def here_def)
  have h: "here p = length X + 1 + length F" using arg_cong [OF code, of length] by (simp add: here_def)
  have W: "setting_ok W" "glob W p" "table_ok (last (scopes p))" using p sc by (auto simp: pinv_def core_def)
  have raw: "\<forall>x \<in> set F. fst (snd x) = i \<longrightarrow> raw_ok (lims i p) (fst x) \<and> fst (effect (fst x)) \<le> snd (snd x) \<and> snd (effect (fst x)) \<le> 1"
    using sealed_raw [OF F(1)] by simp
  show ?thesis
  proof (rule runs_andthen [OF close_scope_ok [OF W(1,2) r _ F(4) _ small(2) _ _ W(3) raw, of "X @ [ins]"]], goal_cases)
    case (5 mn q)
    obtain mx nloc where mn: "mn = (mx, nloc)" by (cases mn)
    with 5 obtain F' ts g where nloc: "nloc = ?n" and mx: "mx \<le> length F" and gl: "glob W q"
      and ts: "map ti_instr ts = (X @ [ins]) @ map fst F'" "length ts = length (prog p)" and g: "length (g_data (ps_globals p)) \<le> length (g_data g)"
      and cl: "\<And>L. k_own L = i \<Longrightarrow> k_locals L = nloc \<Longrightarrow> length (g_data g) \<le> k_globals L \<Longrightarrow> list_all2 (closes L mx) F F'"
      and q: "q = p\<lparr>prog := ts, ps_globals := g, scopes := butlast (scopes p),
        ranges := R @ (if butlast (scopes p) = [] then [] else [new_range (length (scopes p) - 2) (here p)])\<rparr>" by auto
    let ?off = "here p - length X"
    define sh where "sh = (ps_shapes p ! i)\<lparr>nlocals := nloc, maxstack := mx, sh_offset := ?off\<rparr>"
    let ?q = "q\<lparr>ps_shapes := (ps_shapes p)[i := sh], s_if := tl (s_if p), s_break := tl (s_break p), s_continue := tl (s_continue p)\<rparr>"
    have off: "?off = length F + 1" "\<not> ?off > UINT32_MAX div 2" using h small(3) by (simp_all add: UINT32_MAX_def)
    define L where "L = (lims i p)\<lparr>k_globals := length (g_data g)\<rparr>"
    have L: "list_all2 (closes L mx) F F'"
      by (rule cl) (use sc nloc in \<open>simp_all add: L_def lims_def\<close>)
    have len: "length F' = length F" using list_all2_lengthD [OF L] by simp
    have shape: "shape_ok sh" using args small(1) nloc
      by (cases "0 \<le> sint (nargs_encoded (ps_shapes p ! i))") (simp_all add: shape_ok_def sh_def args_ok_def)
    have closed: "closed (lims c ?q) i F'" for c
    proof -
      have "closed (lims c ?q) (k_own (lims i p)) F'"
        by (rule closed_closes [OF F(1) L]) (use g i shape nloc sc in \<open>auto simp: q L_def sh_def lims_def\<close>)
      then show ?thesis by simp
    qed
    have "glob W (p\<lparr>ps_globals := g\<rparr>)" using gl by (simp add: q glob_def)
    then have inv: "pinv W M ?q" using pinv_closed [OF p _ ts(2), of g "(ps_shapes p)[i := sh]"] by (simp add: q)
    have hd: "F' \<noteq> []" "snd (hd F') = (i, 0)"
      using L F(2,3) by (cases F; cases F'; auto simp: closes_def)+
    have "ended i X ins R p ?q"
      unfolding ended_def using ts hd closed shape off(1) len g mx
      by (intro conjI exI [of _ F'] exI [of _ sh]) (simp_all add: q sh_def here_def)
    moreover have "pm ?q = pm p" by (simp add: q pm_def)
    moreover have "ps_shapes q = ps_shapes p" "s_if q = s_if p" "s_break q = s_break p" "s_continue q = s_continue p" by (simp_all add: q)
    ultimately show ?case using s inv i off(2) by (simp add: mn Let_def sh_def)
  qed (use code pos h small in simp_all)
qed

lemma fun_end_ok:
  assumes p: "pinv W M p" and M: "M \<le> 2 ^ 29" and code: "pcode p = X @ ins # map fst F" and ins: "opcode ins = OP_FUNCTION" "unat (in_c ins) = i"
    and i: "i < length (ps_shapes p)" and F: "frag (lims i p) 0 F 0"
    and r: "rstate p R rs r" and pos: "opos rs r (here p) = own_at i (length X + 1) F"
    and args: "args_ok (nargs_encoded (ps_shapes p ! i)) (xht_size (last (scopes p)))"
    and s: "s_if p \<noteq> []" "s_break p \<noteq> []" "s_continue p \<noteq> []"
  shows "runs W (fun_end p (length X)) (\<lambda>_ q. pinv W (M + 3) q \<and> pm q = pm p \<and> (\<exists>is p1. emits p is p1 \<and> ended i X ins R p1 q))"
  unfolding fun_end_def
proof (rule runs_andthen [OF add_const_ok [OF p, of V_Nil]], simp, use M in simp, elim conjE)
  fix n p1 assume p1: "pinv W (M + 1) p1" "emits p [] p1" "pm p1 = pm p" "n \<le> UINT32_MAX" "n < length (ps_consts p1)"
  let ?l = "mk_instr OP_LOAD_CONST 0 n" and ?r = "mk_instr OP_RETURN 0 0"
  let ?p = "emit (emit p1 ?l) ?r" and ?F = "F @ [(?l, i, 0), (?r, i, 1)]"
  have e: "emits p [?l, ?r] ?p" using emits_trans [OF emits_trans [OF p1(2) emits_emit(2)] emits_emit(2), of ?l ?r] by simp
  have inv: "pinv W (M + 3) ?p" using pinv_emit(2) [OF pinv_emit(2) [OF p1(1)], of ?l ?r] by (simp add: add.commute)
  have same: "ps_shapes ?p = ps_shapes p" "scopes ?p = scopes p" "s_if ?p = s_if p" "s_break ?p = s_break p" "s_continue ?p = s_continue p"
    using e by (simp_all add: emits_def)
  have code': "pcode ?p = X @ ins # map fst ?F" using e code by (auto simp: emits_def)
  have h: "here ?p = here p + 2" "here p = length X + 1 + length F" "here p \<le> here ?p" "range_begin r \<le> here p"
    using rstate_emits(2,3) [OF e r] arg_cong [OF code, of length] by (simp_all add: here_def)
  have "opos rs r (here ?p) = own_at i (length X + 1) ?F"
    using pos opos_more [of r "here p" "here ?p" rs] h by (simp add: own_at_append upt_rec)
  moreover have "sealed (lims i ?p) ?F"
  proof -
    have "pure_ins (lims i ?p) ?l" using p1(4,5) by (simp add: pure_ins_simps emit_def emit_at_line_def)
    from sealed_return [OF frag_grows [OF emits_grows [OF e] F] this, of ?r] show ?thesis by (simp add: effect_simps)
  qed
  moreover have "snd (hd ?F) = (i, 0)" using frag_hd [OF F] by (cases F) simp_all
  moreover have "walk i 0 ?F = Some 0" using F by (simp add: frag_def walk_append after_def effect.simps)
  ultimately have "runs W (andthen (close_scope ?p) (\<lambda>(m, n) q.
           let sh = ps_shapes q ! i;
               q = q\<lparr>ps_shapes := (ps_shapes q)[i := sh\<lparr>nlocals := n, maxstack := m\<rparr>]\<rparr>;
               offset = here ?p - length X in
           if offset > UINT32_MAX div 2 then throw_error q ''function body is too long''
           else
             let sh = ps_shapes q ! i;
                 q = q\<lparr>ps_shapes := (ps_shapes q)[i := sh\<lparr>sh_offset := offset\<rparr>]\<rparr> in
             if s_if q = [] \<or> s_break q = [] \<or> s_continue q = [] then None
             else ok () (q\<lparr>s_if := tl (s_if q), s_break := tl (s_break q), s_continue := tl (s_continue q)\<rparr>)))
     (\<lambda>_ q. pinv W (M + 3) q \<and> pm q = pm ?p \<and> ended i X ins R ?p q)"
    using M i same args s ins rstate_emits(1) [OF e r] by (intro fun_end_code [OF inv _ code']) simp_all
  moreover have "fun_shape_ptr ?p (length X) = Some i"
    using fun_shape_ptr_at [OF code'] ins i same(1) by simp
  moreover have "pm ?p = pm p" using p1(3) by simp
  ultimately show "runs W (let p = emit p1 ?l; p = emit p ?r; pos = here p in do {
         i \<leftarrow> fun_shape_ptr p (length X);
         andthen (close_scope p) (\<lambda>(m, n) p.
           let sh = ps_shapes p ! i;
               p = p\<lparr>ps_shapes := (ps_shapes p)[i := sh\<lparr>nlocals := n, maxstack := m\<rparr>]\<rparr>;
               offset = pos - length X in
           if offset > UINT32_MAX div 2 then throw_error p ''function body is too long''
           else
             let sh = ps_shapes p ! i;
                 p = p\<lparr>ps_shapes := (ps_shapes p)[i := sh\<lparr>sh_offset := offset\<rparr>]\<rparr> in
             if s_if p = [] \<or> s_break p = [] \<or> s_continue p = [] then None
             else ok () (p\<lparr>s_if := tl (s_if p), s_break := tl (s_break p), s_continue := tl (s_continue p)\<rparr>)) })
      (\<lambda>_ q. pinv W (M + 3) q \<and> pm q = pm p \<and> (\<exists>is p1. emits p is p1 \<and> ended i X ins R p1 q))"
    unfolding Let_def [of "emit p1 ?l"] Let_def [of ?p] Let_def [of "here ?p"]
    using e by (auto elim!: runs_conseq)
qed

section \<open>Definitions of functions\<close>

text \<open>The code of a function, in the code of the function around it.\<close>

lemma fun_frame:
  assumes r: "rstate p rb rs r" and nf: "\<not> silent p" and i: "c < i" "i = length (ps_shapes p)" "i < 2 ^ 32"
    and e: "ended i (pcode p) (mk_instr OP_FUNCTION 0 i) (rb @ rs @ [r\<lparr>range_end := here p + 1\<rparr>]) m q"
    and m: "scopes m \<noteq> []" "butlast (scopes m) = scopes p" "tl (s_if m) = s_if p" "tl (s_break m) = s_break p" "tl (s_continue m) = s_continue p"
      "prefix (ps_consts p) (ps_consts m)" "length (idents p) \<le> length (idents m)" "prefix (ps_shapes p) (ps_shapes m)" "i < length (ps_shapes m)"
      "length (g_data (ps_globals p)) \<le> length (g_data (ps_globals m))"
    and pm: "pm q \<le> pm p"
  shows "\<exists>G. ext c 0 G [] [] 1 p q"
proof -
  let ?ins = "mk_instr OP_FUNCTION 0 i" and ?r = "r\<lparr>range_end := here p + 1\<rparr>"
  have sc: "scopes p \<noteq> []" using r by (simp add: rstate_def)
  obtain F sh where F: "pcode q = pcode p @ ?ins # map fst F" "F \<noteq> []" "snd (hd F) = (i, 0)" "\<And>c. closed (lims c q) i F"
    "ps_shapes q = (ps_shapes m)[i := sh]" "shape_ok sh" "sh_offset sh = length F + 1"
    and q: "scopes q = butlast (scopes m)" "ranges q = (rb @ rs @ [?r]) @ (if butlast (scopes m) = [] then [] else [new_range (length (scopes m) - 2) (here q)])"
      "s_if q = tl (s_if m)" "s_break q = tl (s_break m)" "s_continue q = tl (s_continue m)" "prefix (ps_consts m) (ps_consts q)"
      "idents q = idents m" "length (g_data (ps_globals m)) \<le> length (g_data (ps_globals q))"
    using e unfolding ended_def by blast
  let ?G = "(?ins, c, 0) # F" and ?new = "new_range (length (scopes p) - 1) (here q)"
  have u: "unat (in_c ?ins) = i" using i(3) by (simp add: unat_small)
  note sealed = closed_sealed [OF F(4), of c]
  have own: "\<And>x. x \<in> set F \<Longrightarrow> fst (snd x) \<noteq> c" using sealed(2) i(1) by simp
  have len: "length (scopes m) - 2 = length (scopes p) - 1" using m(1,2) by (metis diff_diff_left length_butlast one_add_one)
  have rq: "ranges q = rb @ (rs @ [?r]) @ [?new]" using q(2) m(2) sc len by simp
  have h: "here q = here p + 1 + length F" using arg_cong [OF F(1), of length] by (simp add: here_def)
  have g: "grows (lims c p) (lims c q)"
  proof -
    have "prefix (ps_shapes p) ((ps_shapes m)[i := sh])" using m(8) i(2) by (auto simp: prefix_def list_update_append)
    moreover have "prefix (ps_consts p) (ps_consts q)" using m(6) q(6) by (rule prefix_order.trans)
    ultimately show ?thesis using q(1,7,8) m(2,7,10) F(5) by (simp add: grows_def lims_def)
  qed
  have st: "rstate q rb (rs @ [?r]) ?new" using r rq q(1) m(2) by (simp add: rstate_def)
  have po: "opos (rs @ [?r]) ?new (here q) = opos rs r (here p) @ own_at c (here p) ?G"
  proof -
    have "own_at c b F = []" for b by (rule own_at_none) (use own in blast)
    moreover have "range_begin r \<le> here p" using r by (simp add: rstate_def)
    ultimately show ?thesis using opos_close [of ?new "here q" rs "here p + 1" r "here q"] opos_more [of r "here p" "here p + 1" rs] by simp
  qed
  have "frame c ?G [] [] [] p q"
    unfolding frame_def
  proof (intro conjI allI impI)
    fix rb' rs' r' assume r': "rstate p rb' rs' r'"
    have "rb' = rb \<and> rs' @ [r'] = rs @ [r]"
    proof -
      have "rb' @ rs' @ [r'] = rb @ rs @ [r]" using r r' by (simp add: rstate_def)
      moreover have "filter (\<lambda>x. scope_index x < length (scopes p) - 1) (a @ b @ [d]) = a" if "rstate p a b d" for a b d
        using that by (auto simp: rstate_def intro!: filter_True filter_False)
      ultimately show ?thesis using r r' by (metis same_append_eq)
    qed
    then show "\<exists>rs'' r''. rstate q rb' rs'' r'' \<and> opos rs'' r'' (here q) = opos rs' r' (here p) @ own_at c (here p) ?G"
      using st po by auto
  qed (use F(1) g q m nf loud_hushed [OF nf] pm in simp_all)
  moreover have "frag (lims c q) 0 ?G 1"
  proof -
    have "frag (lims c q) 0 ((?ins, k_own (lims c q), 0) # F) (0 + 1)"
      using i m(9) F u own by (intro frag_function sealed(1)) simp_all
    then show ?thesis by simp
  qed
  ultimately show ?thesis unfolding ext_def by blast
qed

text \<open>The end of a function that has begun with the state \<open>p\<close>, after its statements.\<close>

definition fun_done :: "nat \<Rightarrow> instr list \<Rightarrow> instr \<Rightarrow> code_range list \<Rightarrow> parser \<Rightarrow> parser \<Rightarrow> bool" where
  "fun_done i X ins R p q \<longleftrightarrow> (\<exists>m. ended i X ins R m q \<and> scopes m \<noteq> [] \<and> butlast (scopes m) = butlast (scopes p) \<and>
     s_if m = s_if p \<and> s_break m = s_break p \<and> s_continue m = s_continue p \<and> grows (lims i p) (lims i m))"

lemma fun_body_end:
  assumes M: "M \<le> 2 ^ 29" and p1: "pinv W M p1" "stmts i p p1"
    and code: "pcode p = X @ [ins]" and ins: "opcode ins = OP_FUNCTION" "unat (in_c ins) = i" and i: "i < length (ps_shapes p)"
    and r: "rstate p R [] (new_range b (length X + 1))" and args: "args_ok (nargs_encoded (ps_shapes p ! i)) (xht_size (last (scopes p)))"
    and s: "s_if p \<noteq> []" "hd (s_break p) = SIZE_MAX" "s_break p \<noteq> []" "hd (s_continue p) = SIZE_MAX" "s_continue p \<noteq> []"
  shows "runs W (fun_end p1 (length X)) (\<lambda>_ q. pinv W (M + 3) q \<and> pm q = pm p1 \<and> fun_done i X ins R p q)"
proof -
  obtain F bs cs where F: "frame i F [] bs cs p p1" "frag (lims i p1) 0 F 0" using p1(2) by (auto simp: stmts_def ext_def)
  have jumps: "bs = []" "cs = []" using F(1) s(2,4) by (simp_all add: frame_def)
  then have same: "s_if p1 = s_if p" "s_break p1 = s_break p" "s_continue p1 = s_continue p" "butlast (scopes p1) = butlast (scopes p)"
      "pcode p1 = X @ ins # map fst F"
    using F(1) code by (simp_all add: frame_def)
  note g = frame_grows [OF F(1)]
  have shape: "i < length (ps_shapes p1)" "ps_shapes p1 ! i = ps_shapes p ! i" using grows_shape [OF g, of i] i by simp_all
  have sc: "scopes p \<noteq> []" "scopes p1 \<noteq> []" using r F(1) unfolding frame_def by (auto simp: rstate_def)
  have h: "here p = length X + 1" using arg_cong [OF code, of length] by (simp add: here_def)
  obtain rs r' where r': "rstate p1 R rs r'" "opos rs r' (here p1) = opos [] (new_range b (length X + 1)) (here p) @ own_at i (here p) F"
    using F(1) r unfolding frame_def by blast
  have "args_ok (nargs_encoded (ps_shapes p1 ! i)) (xht_size (last (scopes p1)))"
    using args_ok_mono [OF args] g sc by (simp add: shape(2) grows_def lims_def)
  then have "runs W (fun_end p1 (length X)) (\<lambda>_ q. pinv W (M + 3) q \<and> pm q = pm p1 \<and> (\<exists>is p2. emits p1 is p2 \<and> ended i X ins R p2 q))"
    using M s same shape(1) r'(2) h by (intro fun_end_ok [OF p1(1) _ same(5) ins shape(1) F(2) r'(1)]) (simp_all add: opos_def)
  then show ?thesis
  proof (rule runs_conseq, elim conjE exE)
    fix q "is" p2 assume q: "pinv W (M + 3) q" "pm q = pm p1" and e: "emits p1 is p2" "ended i X ins R p2 q"
    have "grows (lims i p) (lims i p2)" by (rule grows_trans [OF g emits_grows [OF e(1)]])
    then have "fun_done i X ins R p q" unfolding fun_done_def using e sc(2) same by (intro exI [of _ p2]) (auto simp: emits_def)
    then show "pinv W (M + 3) q \<and> pm q = pm p1 \<and> fun_done i X ins R p q" using q by simp
  qed
qed

lemma fun_body_ok:
  assumes st: "stmt_spec W st m" and M: "M \<le> 2 ^ 29" and p: "pinv W M p" "pm p \<le> m" "pm p \<le> k"
    and code: "pcode p = X @ [ins]" and ins: "opcode ins = OP_FUNCTION" "unat (in_c ins) = i" and i: "i < length (ps_shapes p)"
    and r: "rstate p R [] (new_range b (length X + 1))" and args: "args_ok (nargs_encoded (ps_shapes p ! i)) (xht_size (last (scopes p)))"
    and s: "s_if p \<noteq> []" "hd (s_break p) = SIZE_MAX" "s_break p \<noteq> []" "hd (s_continue p) = SIZE_MAX" "s_continue p \<noteq> []"
  shows "runs W (andthen (block st k p) (\<lambda>_ p. fun_end p (length X))) (\<lambda>_ q. pinv W (M + 1) q \<and> pm q < pm p \<and> fun_done i X ins R p q)"
proof (rule runs_andthen [OF block_ok [OF st M p(1) _ p(2,3), of i]], goal_cases)
  case 1
  show ?case using r i s unfolding ctx_def by blast
next
  case (2 u p1)
  have "runs W (fun_end p1 (length X)) (\<lambda>_ q. pinv W (M - 2 + 3) q \<and> pm q = pm p1 \<and> fun_done i X ins R p q)"
    by (rule fun_body_end [OF _ _ _ code ins i r args s]) (use M 2 in simp_all)
  then show ?case by (rule runs_conseq) (use 2 in \<open>simp add: add.commute\<close>)
qed

text \<open>The state when the body of a function begins.\<close>

lemma params_begun:
  assumes p: "params (length (ps_shapes p)) (begun R t p) q" and r: "rstate p rb rs r"
    and R: "R = rb @ rs @ [r\<lparr>range_end := here p + 1\<rparr>]"
  defines "i \<equiv> length (ps_shapes p)"
  shows "pcode q = pcode p @ [mk_instr OP_FUNCTION 0 i]" and "rstate q R [] (new_range (length (scopes p)) (here p + 1))"
    and "butlast (scopes q) = scopes p" and "s_if q = SIZE_MAX # s_if p" and "s_break q = SIZE_MAX # s_break p"
    and "s_continue q = SIZE_MAX # s_continue p" and "\<exists>sh. ps_shapes q = ps_shapes p @ [sh]"
    and "ps_consts q = ps_consts p" and "idents q = idents p" and "ps_globals q = ps_globals p"
proof -
  obtain l x u a where q: "q = (begun R t p)\<lparr>ps_cur := l, ps_lexer := x, scopes := butlast (scopes (begun R t p)) @ [u],
     ps_shapes := (ps_shapes (begun R t p))[i := (ps_shapes (begun R t p) ! i)\<lparr>nargs_encoded := a\<rparr>]\<rparr>"
    using p unfolding params_def i_def by blast
  show "pcode q = pcode p @ [mk_instr OP_FUNCTION 0 i]" "butlast (scopes q) = scopes p" "s_if q = SIZE_MAX # s_if p"
    "s_break q = SIZE_MAX # s_break p" "s_continue q = SIZE_MAX # s_continue p" "ps_consts q = ps_consts p" "idents q = idents p"
    "ps_globals q = ps_globals p"
    by (simp_all add: q i_def)
  show "\<exists>sh. ps_shapes q = ps_shapes p @ [sh]" by (simp add: q i_def)
  have "here q = here p + 1" by (simp add: q here_def begun_def emit_def emit_at_line_def)
  moreover have "scopes p \<noteq> []" "\<forall>x \<in> set R. scope_index x < length (scopes p)"
    using r by (auto simp: rstate_def R)
  ultimately show "rstate q R [] (new_range (length (scopes p)) (here p + 1))" by (simp add: rstate_def q)
qed

lemma fun_body_frame:
  assumes st: "stmt_spec W st m" and M: "M \<le> 2 ^ 29" and q: "pinv W M q" "pm q \<le> m" "pm q \<le> k"
    and p: "rstate p rb rs r" "c < length (ps_shapes p)" "length (ps_shapes p) < 2 ^ 30" "\<not> silent p" "pm q < pm p"
    and R: "R = rb @ rs @ [r\<lparr>range_end := here p + 1\<rparr>]" and b: "params (length (ps_shapes p)) (begun R t p) q"
    and args: "args_ok (nargs_encoded (ps_shapes q ! length (ps_shapes p))) (xht_size (last (scopes q)))"
  shows "runs W (andthen (block st k q) (\<lambda>_ q. fun_end q (here p))) (\<lambda>_ q. pinv W (M + 1) q \<and> pm q < pm p \<and> (\<exists>G. ext c 0 G [] [] 1 p q))"
proof -
  note q' = params_begun [OF b p(1) R]
  let ?i = "length (ps_shapes p)" and ?ins = "mk_instr OP_FUNCTION 0 (length (ps_shapes p))"
  have h: "length (pcode p) = here p" by (simp add: here_def)
  obtain sh where sh: "ps_shapes q = ps_shapes p @ [sh]" using q'(7) by blast
  have "runs W (andthen (block st k q) (\<lambda>_ p'. fun_end p' (length (pcode p)))) (\<lambda>_ r. pinv W (M + 1) r \<and> pm r < pm q \<and>
    fun_done ?i (pcode p) ?ins R q r)"
  proof (rule fun_body_ok [OF st M q q'(1)])
    show "rstate q R [] (new_range (length (scopes p)) (length (pcode p) + 1))" using q'(2) by (simp only: h)
  qed (use p(3) args q'(4,5,6) in \<open>simp_all add: sh unat_small\<close>)
  then show ?thesis
    unfolding h fun_done_def
  proof (rule runs_conseq, elim conjE exE)
    fix s m assume s: "pinv W (M + 1) s" "pm s < pm q" and e: "ended ?i (pcode p) ?ins R m s"
      and m: "scopes m \<noteq> []" "butlast (scopes m) = butlast (scopes q)" "s_if m = s_if q" "s_break m = s_break q" "s_continue m = s_continue q"
      and g: "grows (lims ?i q) (lims ?i m)"
    have "prefix (ps_shapes p) (ps_shapes m)" "?i < length (ps_shapes m)"
      using g prefix_length_le [of "ps_shapes q" "ps_shapes m"] by (auto simp: grows_def sh prefix_def)
    then have "\<exists>G. ext c 0 G [] [] 1 p s"
      using m q' p(3,5) s(2) g by (intro fun_frame [OF p(1,4,2) refl _ e [unfolded R]]) (simp_all add: grows_def)
    then show "pinv W (M + 1) s \<and> pm s < pm p \<and> (\<exists>G. ext c 0 G [] [] 1 p s)" using s p(5) by simp
  qed
qed

lemma andthen_assoc: "andthen (andthen r f) g = andthen r (\<lambda>x p. andthen (f x p) g)"
  by (cases r; cases "the r"; cases "fst (the r)") auto

lemma params_begun_reads: "p' = p\<lparr>ps_cur := l, ps_lexer := x\<rparr> \<Longrightarrow> params i (begun R t p') q \<Longrightarrow> params i (begun R t p) q"
  by (simp add: params_def begun_def emit_def emit_at_line_def here_def)

lemma reads_trans_eq: "reads p q \<Longrightarrow> q = p\<lparr>ps_cur := ps_cur q, ps_lexer := ps_lexer q\<rparr>"
  by (auto simp: reads_def moves_def)

lemma store_name_ok:
  assumes p: "pinv W M s" and M: "M \<le> 2 ^ 29" and G: "ext c 0 G [] [] 1 p s" and ctx: "ctx c p"
  shows "runs W (andthen (load s name) (\<lambda>ld p. andthen (load_to_store p ld False name) (\<lambda>ins p. ok () (emit p ins))))
    (\<lambda>_ q. pinv W (M + 3) q \<and> plain c p q \<and> pm q = pm s)"
proof -
  have "runs W (load s name) (\<lambda>ins s1. pinv W (M + 1) s1 \<and> emits s [] s1 \<and> pm s1 = pm s \<and> opcode ins = OP_LOAD_SYMBOLIC \<and>
    unat (in_c ins) < length (idents s1) \<and> idents s1 ! unat (in_c ins) = lexeme_text s name \<and> ps_cur s1 = ps_cur s)" by (rule load_ok [OF p]) (use M in simp)
  then show ?thesis
  proof (rule runs_andthen, elim conjE)
    fix ld :: instr and s1 assume s1: "pinv W (M + 1) s1" "emits s [] s1" "pm s1 = pm s" and ld: "opcode ld = OP_LOAD_SYMBOLIC" "unat (in_c ld) < length (idents s1)"
    have G1: "ext c 0 G [] [] (Suc 0) p s1"
      using ext_trans [OF G, of "[]" "[]" "[]" 1 s1] emits_frame [of s "[]" s1 c] s1(2) by (simp add: ext_def)
    then have "ctx c s1" using ctx by (auto simp: ext_def intro: frame_ctx)
    then have sc: "scopes s1 \<noteq> []" by (auto simp: ctx_def rstate_def)
    have "pure_ins (lims c s1) ld" using ld by (simp add: pure_ins_def raw_ok.simps)
    from load_to_store_ok [OF s1(1) _ sc this, of False name]
    have "runs W (load_to_store s1 ld False name) (\<lambda>ins s2. pinv W (M + 1 + 1) s2 \<and> frame c [] [] [] [] s1 s2 \<and> pm s2 = pm s1 \<and> stores c s2 ld ins)"
      using M by simp
    then show "runs W (andthen (load_to_store s1 ld False name) (\<lambda>ins p. ok () (emit p ins))) (\<lambda>_ q. pinv W (M + 3) q \<and> plain c p q \<and> pm q = pm s)"
    proof (rule runs_andthen, elim conjE)
      fix ins s2 assume s2: "pinv W (M + 1 + 1) s2" "frame c [] [] [] [] s1 s2" "pm s2 = pm s1" "stores c s2 ld ins"
      have "plain c p (emit s2 ins)"
        by (rule ext_store [OF G1 s2(2,4) _ emits_emit(2)]) (simp add: ld(1) effect.simps)
      then show "runs W (ok () (emit s2 ins)) (\<lambda>_ q. pinv W (M + 3) q \<and> plain c p q \<and> pm q = pm s)"
        using pinv_mono [OF pinv_emit(2) [OF s2(1)], of "M + 3"] s1(3) s2(3) by simp
    qed
  qed
qed

text \<open>The statement from the parenthesis on.\<close>

lemma fun_rest_ok:
  assumes st: "stmt_spec W st m" and M: "M \<le> 2 ^ 29" and p: "pinv W M p" "ctx c p" "pm p \<le> m" "pm p \<le> k" and kind: "cur_kind p = LK_FUN"
    and p3: "pinv W (M - 6) p3" "p3 = p\<lparr>ps_cur := l, ps_lexer := x\<rparr>" "pm p3 < pm p"
  shows "runs W (andthen (fun_begin p3) (\<lambda>fun_pos p. andthen (if cur_kind p \<noteq> LK_RPAREN then param_loop fun_pos k p else ok () p) (\<lambda>_ p.
         andthen (advance p) (\<lambda>_ p. andthen (block st k p) (\<lambda>_ p. andthen (fun_end p fun_pos) (\<lambda>_ p.
         andthen (load p name) (\<lambda>load_instr p. andthen (load_to_store p load_instr False name) (\<lambda>store_instr p. ok () (emit p store_instr))))))))) (\<lambda>_ p'. pinv W M p' \<and> stmts c p p' \<and> pm p' < pm p)"
proof -
  let ?Q = "\<lambda>_ p'. pinv W M p' \<and> stmts c p p' \<and> pm p' < pm p"
  let ?i = "length (ps_shapes p)"
  obtain rb rs r where r: "rstate p rb rs r" and c: "c < ?i" using p(2) by (auto simp: ctx_def)
  define R where "R = rb @ rs @ [r\<lparr>range_end := here p + 1\<rparr>]"
  have nf: "\<not> silent p" by (rule silent_not_fun [OF kind])
  have n: "?i < 2 ^ 30" using p(1) M by (simp add: pinv_def bounded_def)
  have r3: "rstate p3 rb rs r" "here p3 = here p" "ps_shapes p3 = ps_shapes p" "scopes p3 = scopes p" using r by (simp_all add: p3(2) rstate_def here_def)
  show ?thesis
  proof (rule runs_andthen [OF fun_begin_ok [OF r3(1)]], use n r3 in \<open>simp add: UINT32_MAX_def\<close>, elim conjE exE)
    fix pos p4 t assume pos: "pos = here p3" and t: "table_ok t" "xht_size t = 0" and "p4 = begun (rb @ rs @ [r\<lparr>range_end := here p3 + 1\<rparr>]) t p3"
    then have p4: "p4 = begun R t p3" by (simp add: R_def r3)
    have inv4: "pinv W (M - 5) p4" using pinv_begun [OF p3(1) t, of R] by (simp add: p4)
    have ptr: "fun_shape_ptr p4 pos = Some ?i"
      using fun_shape_ptr_at [of p4 "pcode p3" "mk_instr OP_FUNCTION 0 ?i" "[]"] n by (simp add: p4 r3 pos here_def unat_small)
    have "runs W (if cur_kind p4 \<noteq> LK_RPAREN then param_loop pos k p4 else ok () p4) (\<lambda>_. params_done W (M - 5) ?i p4)"
    proof (rule runs_if)
      show "runs W (param_loop pos k p4) (\<lambda>_. params_done W (M - 5) ?i p4)"
        using M t p(4) p3(3) r3(3) by (intro param_loop_ok [OF _ inv4 _ ptr]) (simp_all add: p4)
      show "\<not> cur_kind p4 \<noteq> LK_RPAREN \<Longrightarrow> runs W (ok () p4) (\<lambda>_. params_done W (M - 5) ?i p4)"
        using inv4 t r3(3) args_ok_exact(1) [of 0] by (auto simp: params_done_def p4 intro!: params_refl)
    qed
    then show "runs W (andthen (if cur_kind p4 \<noteq> LK_RPAREN then param_loop pos k p4 else ok () p4) (\<lambda>_ p.
       andthen (advance p) (\<lambda>_ p. andthen (block st k p) (\<lambda>_ p. andthen (fun_end p pos) (\<lambda>_ p.
       andthen (load p name) (\<lambda>load_instr p. andthen (load_to_store p load_instr False name) (\<lambda>store_instr p. ok () (emit p store_instr)))))))) ?Q"
    proof (rule runs_andthen)
      fix p5 assume p5: "params_done W (M - 5) ?i p4 p5"
      then have inv5: "pinv W (M - 5) p5" and eof5: "inner (cur_kind p5)" by (simp_all add: params_done_def)
      show "runs W (andthen (advance p5) (\<lambda>_ p. andthen (block st k p) (\<lambda>_ p. andthen (fun_end p pos) (\<lambda>_ p.
       andthen (load p name) (\<lambda>load_instr p. andthen (load_to_store p load_instr False name) (\<lambda>store_instr p. ok () (emit p store_instr))))))) ?Q"
      proof (rule advance_then [OF inv5 eof5])
        fix p6 assume p6: "pinv W (M - 5 - 2) p6" "reads p5 p6"
        note same = reads_same [OF p6(2)]
        have p5': "params ?i p4 p5" using p5 by (simp add: params_done_def)
        have i4: "?i < length (ps_shapes p4)" by (simp add: p4 r3)
        have "params ?i (begun R t p3) p6"
          using params_trans [OF p5' params_reads [OF p6(2) params_scopes [OF p5']] i4] by (simp add: p4)
        then have b: "params ?i (begun R t p) p6" by (rule params_begun_reads [OF p3(2)])
        have pm: "pm p6 < pm p" using reads_pm [OF p6(2)] p5 p3(3) by (simp add: params_done_def p4)
        have "runs W (andthen (block st k p6) (\<lambda>_ q. fun_end q (here p))) (\<lambda>_ q. pinv W (M - 5 - 2 + 1) q \<and> pm q < pm p \<and> (\<exists>G. ext c 0 G [] [] 1 p q))"
          using M p pm p5 same by (intro fun_body_frame [OF st _ p6(1) _ _ r c n nf pm R_def b]) (simp_all add: params_done_def)
        then have "runs W (andthen (andthen (block st k p6) (\<lambda>_ q. fun_end q (here p))) (\<lambda>_ p.
            andthen (load p name) (\<lambda>load_instr p. andthen (load_to_store p load_instr False name) (\<lambda>store_instr p. ok () (emit p store_instr))))) ?Q"
        proof (rule runs_andthen, elim conjE exE)
          fix p7 G assume p7: "pinv W (M - 5 - 2 + 1) p7" "pm p7 < pm p" "ext c 0 G [] [] 1 p p7"
          show "runs W (andthen (load p7 name) (\<lambda>load_instr p. andthen (load_to_store p load_instr False name) (\<lambda>store_instr p. ok () (emit p store_instr)))) ?Q"
            using M p7(2) by (intro runs_conseq [OF store_name_ok [OF p7(1) _ p7(3) p(2)]]) (auto intro: pinv_mono plain_stmts)
        qed
        then show "runs W (andthen (block st k p6) (\<lambda>_ p. andthen (fun_end p pos) (\<lambda>_ p.
            andthen (load p name) (\<lambda>load_instr p. andthen (load_to_store p load_instr False name) (\<lambda>store_instr p. ok () (emit p store_instr)))))) ?Q"
          by (simp add: andthen_assoc pos r3(2))
      qed
    qed
  qed
qed

lemma fun_stmt_ok:
  assumes st: "stmt_spec W st m" and M: "M \<le> 2 ^ 29" and p: "pinv W M p" "ctx c p" "pm p \<le> m" "pm p \<le> k" and kind: "cur_kind p = LK_FUN"
  shows "runs W (fun_stmt st k p) (\<lambda>_ p'. pinv W M p' \<and> stmts c p p' \<and> pm p' < pm p)"
proof -
  let ?Q = "\<lambda>_ p'. pinv W M p' \<and> stmts c p p' \<and> pm p' < pm p"
  have eof: "inner (cur_kind p)" using kind by simp
  show ?thesis
    unfolding fun_stmt_def Let_def
  proof (rule advance_then [OF p(1) eof], intro runs_if)
    fix p1 assume p1: "pinv W (M - 2) p1" "reads p p1"
    show "runs W (throw_error_at p1 ''expected function name'' (ps_cur p1)) ?Q" using p1(1) by auto
    assume "\<not> cur_kind p1 \<noteq> LK_IDENT"
    then have eof1: "inner (cur_kind p1)" by simp
    show "runs W (andthen (advance p1) (\<lambda>_ p. andthen (slurp p LK_LPAREN (''expected '' @ quoted ''('')) (\<lambda>_ p. andthen (fun_begin p) (\<lambda>fun_pos p.
         andthen (if cur_kind p \<noteq> LK_RPAREN then param_loop fun_pos k p else ok () p) (\<lambda>_ p. andthen (advance p) (\<lambda>_ p. andthen (block st k p) (\<lambda>_ p.
         andthen (fun_end p fun_pos) (\<lambda>_ p. andthen (load p (ps_cur p1)) (\<lambda>load_instr p. andthen (load_to_store p load_instr False (ps_cur p1)) (\<lambda>store_instr p.
         ok () (emit p store_instr))))))))))) ?Q"
    proof (rule advance_then [OF p1(1) eof1], rule slurp_then, assumption, simp)
      fix p2 p3 assume p2: "reads p1 p2" and p3: "pinv W (M - 2 - 2 - 2) p3" "reads p2 p3"
      have "p3 = p\<lparr>ps_cur := ps_cur p3, ps_lexer := ps_lexer p3\<rparr>"
        using reads_trans_eq [OF p1(2)] reads_trans_eq [OF p2] reads_trans_eq [OF p3(2)] by (cases p; cases p1; cases p2; cases p3) simp
      then show "runs W (andthen (fun_begin p3) (\<lambda>fun_pos p.
         andthen (if cur_kind p \<noteq> LK_RPAREN then param_loop fun_pos k p else ok () p) (\<lambda>_ p. andthen (advance p) (\<lambda>_ p. andthen (block st k p) (\<lambda>_ p.
         andthen (fun_end p fun_pos) (\<lambda>_ p. andthen (load p (ps_cur p1)) (\<lambda>load_instr p. andthen (load_to_store p load_instr False (ps_cur p1)) (\<lambda>store_instr p.
         ok () (emit p store_instr))))))))) ?Q"
        using p3(1) reads_pm [OF p1(2)] reads_pm [OF p2] reads_pm [OF p3(2)] by (intro fun_rest_ok [OF st M p kind]) simp_all
    qed
  qed
qed

end
