(* ===== verification/Parser_For.thy ===== *)
theory Parser_For
  imports Parser_Functions
begin

text \<open>
  Loops with a counter. The statement that follows the body is compiled before it, and the two are exchanged by a
  rotation. The jumps out of the body have been set for their places after the rotation. What is rotated belongs to
  one function when no function is defined after the \<open>for\<close> in the same block.
\<close>

section \<open>Rotation\<close>

lemma ti_reverse_eq: "ti_reverse xs = rev xs"
  by (simp add: ti_reverse_def span_reverse_eq [unfolded span_reverse_def])

lemma ti_rotate_left_eq:
  assumes "n \<le> length xs"
  shows "ti_rotate_left xs n = drop n xs @ take n xs"
proof -
  have "rev (take (length xs - n) (rev xs)) = drop n xs" "rev (drop (length xs - n) (rev xs)) = take n xs"
    using assms by (simp_all add: rev_take rev_drop)
  then show ?thesis using assms by (simp add: ti_rotate_left_def ti_reverse_eq Let_def)
qed

lemma map_ti_rotate_left: "n \<le> length xs \<Longrightarrow> map f (ti_rotate_left xs n) = ti_rotate_left (map f xs) n"
  by (simp add: ti_rotate_left_eq drop_map take_map)

section \<open>The code of the loop\<close>

text \<open>The condition with its jump, or nothing.\<close>

definition is_head :: "limits \<Rightarrow> parser \<Rightarrow> item list \<Rightarrow> nat option \<Rightarrow> bool" where
  "is_head K p H pos \<longleftrightarrow> (case pos of None \<Rightarrow> H = [] | Some x \<Rightarrow> \<exists>C ins. H = C @ [(ins, k_own K, 1)] \<and> x = here p + length C \<and>
     opcode ins = OP_JUMP_UNLESS \<and> frag K 0 C 1)"

lemma is_head_grows: "is_head K p H pos \<Longrightarrow> grows K L \<Longrightarrow> is_head L p H pos"
  by (auto simp: is_head_def grows_def split: option.splits intro: frag_grows [unfolded grows_def])

lemma back_frag:
  assumes D: "frag K 0 D 0" and n: "length D + 2 < 2 ^ 31" and j: "j = mk_instr OP_JUMP 0 0"
  shows "frag K 0 (D @ [(jump_by j (- int (length D)), k_own K, 0)]) 0"
proof -
  let ?F = "D @ [(j, k_own K, 0)]"
  have F: "frag K 0 ?F 0" by (rule frag_append [OF D frag_jump]) (simp_all add: j)
  moreover have "pend K ?F (length D)" by (simp add: pend_def j)
  moreover have "ann ?F (k_own K, 0) 0 = Some (k_own K, 0)" using F by (simp add: frag_def)
  ultimately have "frag K 0 (set_jump ?F (length D) (int 0)) 0" using n by (intro frag_set_jump) simp_all
  moreover have "set_jump ?F (length D) (int 0) = D @ [(jump_by j (- int (length D)), k_own K, 0)]"
    by (simp add: set_jump_def nth_append list_update_append)
  ultimately show ?thesis by simp
qed

lemma head_fix:
  assumes f: "frame c (H @ B) [] bs cs p q" and head: "is_head (lims c q) p H pos"
  obtains ts H' where "(case pos of Some x \<Rightarrow> fixup_jump q x (here q) | None \<Rightarrow> Some q) = Some (q\<lparr>prog := ts\<rparr>)"
    and "frame c (H' @ B) [] bs cs p (q\<lparr>prog := ts\<rparr>)" and "length ts = length (prog q)" and "map snd H' = map snd H"
    and "\<And>D j. frag (lims c q) 0 D 0 \<Longrightarrow> length D + 1 = length B \<Longrightarrow> length H + length B + 2 < 2 ^ 31 \<Longrightarrow> j = mk_instr OP_JUMP 0 0 \<Longrightarrow>
      frag (lims c q) 0 (H' @ D @ [(jump_by j (- int (length H + length D)), c, 0)]) 0"
proof (cases pos)
  case None
  then have "H = []" using head by (simp add: is_head_def)
  then show thesis
    by (intro that [of "prog q" "[]"]) (use None f back_frag [of "lims c q"] in simp_all)
next
  case (Some x)
  then obtain C ins where H: "H = C @ [(ins, c, 1)]" "x = here p + length C" "opcode ins = OP_JUMP_UNLESS" "frag (lims c q) 0 C 1"
    using head by (auto simp: is_head_def)
  have f': "frame c (C @ (ins, c, 1) # B) [] bs cs p q" using f H(1) by simp
  show thesis
  proof (rule unless_fix [OF f' H(3)])
    fix ts
    let ?H = "C @ [(jump_by ins (int (length B) + 1), c, 1)]"
    assume ts: "fixup_jump q (here p + length C) (here q) = Some (q\<lparr>prog := ts\<rparr>)"
      "frame c (C @ (jump_by ins (int (length B) + 1), c, 1) # B) [] bs cs p (q\<lparr>prog := ts\<rparr>)" "length ts = length (prog q)"
    have "frag (lims c q) 0 (?H @ D @ [(jump_by j (- int (length H + length D)), c, 0)]) 0"
      if D: "frag (lims c q) 0 D 0" "length D + 1 = length B" "length H + length B + 2 < 2 ^ 31" "j = mk_instr OP_JUMP 0 0" for D j
    proof -
      have eq: "int (length B) + 1 = int (length D) + 2" using D(2) by simp
      show ?thesis unfolding eq using loop_frag [OF H(4) D(1) H(3) _ D(4)] D(2,3) by (simp add: H(1))
    qed
    then show thesis by (intro that [of ts ?H]) (use ts H Some in simp_all)
  qed
qed

lemma frame_own: "frame c F js bs cs p q \<Longrightarrow> silent p \<Longrightarrow> x \<in> set F \<Longrightarrow> fst (snd x) = c"
  by (simp add: frame_def)

text \<open>A loop whose code has been rotated, as a statement.\<close>

lemma loop_stmts_rotated:
  assumes f: "frame c F [] bs cs (p\<lparr>s_break := SEGMENT # s_break p, s_continue := SEGMENT # s_continue p\<rparr>) q" and nf: "silent p"
    and G: "frag (lims c q) 0 G 0" "length G = length F" "\<forall>x \<in> set G. fst (snd x) = c" and ts: "map ti_instr ts = pcode p @ map fst G"
  shows "stmts c p (q\<lparr>prog := ts, s_break := s_break p, s_continue := s_continue p\<rparr>)"
proof -
  let ?q = "q\<lparr>prog := ts, s_break := s_break p, s_continue := s_continue p\<rparr>"
  have own: "\<forall>x \<in> set F. fst (snd x) = c" using f nf by (simp add: frame_def)
  have at: "own_at c (here p) G = own_at c (here p) F" using own_at_all [OF own] own_at_all [OF G(3)] G(2) by simp
  have lims: "lims c ?q = lims c q" by (simp add: lims_def)
  have h: "here ?q = here q" using frame_here [OF f] arg_cong [OF ts, of length] G(2) by (simp add: here_def)
  have "rstate ?q rb rs r = rstate q rb rs r" for rb rs r using h by (simp add: rstate_def)
  moreover have "hushed p ?q = hushed p q" "pm ?q = pm q" by (rule ahead_same) (simp_all add: ahead_def pm_def)
  ultimately have "frame c G [] [] [] p ?q" using f ts G(3) h at lims by (simp add: frame_def)
  then show ?thesis using G(1) lims unfolding stmts_def ext_def by metis
qed

lemma set_jumps_inside:
  assumes "list_all (\<lambda>i. i < length B) is"
  shows "set_jumps (P @ B @ Q) (map ((+) (length P)) is) t = P @ set_jumps B is (t - int (length P)) @ Q"
proof -
  have "list_all (\<lambda>i. i < length (B @ Q)) is" using assms by (auto simp: list_all_iff)
  then show ?thesis using assms by (simp add: set_jumps_shift set_jumps_append)
qed

text \<open>Setting the jumps of the body commutes with the rotation.\<close>

lemma rotated_jumps:
  fixes P :: "item list"
  assumes bs: "list_all (pend K B) bs" and cs: "list_all (pend K B) cs" and H: "length H' = length H"
  defines "a \<equiv> length H + length P"
  defines "B' \<equiv> set_jumps (set_jumps B bs (int (length P + length B + 1))) cs (int (length B))"
  shows "set_jumps (set_jumps (H' @ P @ B @ J) (map ((+) a) bs) (int (a + length B + 1 + length P))) (map ((+) a) cs) (int (a + length B)) = H' @ P @ B' @ J"
    and "set_jumps (set_jumps (H' @ (B @ P) @ J) (map ((+) (length H)) bs) (int (length H + (length B + length P) + 1)))
      (map ((+) (length H)) cs) (int (length H + length B)) = H' @ B' @ P @ J"
    and "length B' = length B" and "map snd B' = map snd B"
proof -
  let ?B = "set_jumps B bs (int (length P + length B + 1))"
  have snd: "map snd ?B = map snd B" by (rule snd_set_jumps [OF bs])
  have len: "length ?B = length B" by (rule length_set_jumps [OF bs])
  have cs': "list_all (pend K ?B) cs" using cs pend_set_jumps [OF bs] by (simp add: list_all_iff)
  show "length B' = length B" "map snd B' = map snd B"
    using length_set_jumps [OF cs'] snd_set_jumps [OF cs'] len snd by (simp_all add: B'_def)
  have a: "length (H' @ P) = a" by (simp add: a_def H)
  have 1: "set_jumps ((H' @ P) @ B @ J) (map ((+) a) bs) (int (a + length B + 1 + length P)) = (H' @ P) @ ?B @ J"
    using set_jumps_inside [OF pend_length [OF bs], of "H' @ P" J] unfolding a by (simp add: add.commute)
  have 2: "set_jumps ((H' @ P) @ ?B @ J) (map ((+) a) cs) (int (a + length B)) = (H' @ P) @ B' @ J"
    using set_jumps_inside [OF pend_length [OF cs'], of "H' @ P" J] unfolding a by (simp add: B'_def)
  from 1 2 show "set_jumps (set_jumps (H' @ P @ B @ J) (map ((+) a) bs) (int (a + length B + 1 + length P))) (map ((+) a) cs) (int (a + length B)) = H' @ P @ B' @ J"
    by simp
  have 3: "set_jumps (H' @ B @ P @ J) (map ((+) (length H)) bs) (int (length H + (length B + length P) + 1)) = H' @ ?B @ P @ J"
    using set_jumps_inside [OF pend_length [OF bs], of H' "P @ J"] unfolding H by (simp add: algebra_simps)
  have 4: "set_jumps (H' @ ?B @ P @ J) (map ((+) (length H)) cs) (int (length H + length B)) = H' @ B' @ P @ J"
    using set_jumps_inside [OF pend_length [OF cs'], of H' "P @ J"] unfolding H by (simp add: B'_def)
  from 3 4 show "set_jumps (set_jumps (H' @ (B @ P) @ J) (map ((+) (length H)) bs) (int (length H + (length B + length P) + 1)))
      (map ((+) (length H)) cs) (int (length H + length B)) = H' @ B' @ P @ J"
    by simp
qed

text \<open>The rotation of the code between two positions.\<close>

lemma rotate_code:
  assumes "map ti_instr ts = X @ P @ B @ Z"
  defines "i1 \<equiv> length X" and "i3 \<equiv> length X + length P + length B"
  shows "map ti_instr (take i1 ts @ ti_rotate_left (take (i3 - i1) (drop i1 ts)) (length P) @ drop i3 ts) = X @ B @ P @ Z"
proof -
  let ?mem = "take (i3 - i1) (drop i1 ts)"
  have "length ts = length X + length P + length B + length Z" using arg_cong [OF assms(1), of length] by simp
  then have n: "length P \<le> length ?mem" by (simp add: i1_def i3_def)
  have m: "take i1 (map ti_instr ts) = X" "take (i3 - i1) (drop i1 (map ti_instr ts)) = P @ B" "drop i3 (map ti_instr ts) = Z"
    unfolding assms(1) by (simp_all add: i1_def i3_def)
  then have "map ti_instr ?mem = P @ B" "map ti_instr (take i1 ts) = X" "map ti_instr (drop i3 ts) = Z"
    by (simp_all add: take_map drop_map)
  then show ?thesis using map_ti_rotate_left [OF n, of ti_instr] ti_rotate_left_eq [of "length P" "P @ B"] by simp
qed

lemma for_end_ok:
  assumes f: "frame c (H @ P @ B) [] (map ((+) (length H + length P)) bs) (map ((+) (length H + length P)) cs)
      (p\<lparr>s_break := SEGMENT # s_break p, s_continue := SEGMENT # s_continue p\<rparr>) q"
    and head: "is_head (lims c q) p H pos" and P: "frag (lims c q) 0 P 0" and B: "frag (lims c q) 0 B 0"
    and pend: "list_all (pend (lims c q) B) bs" "list_all (pend (lims c q) B) cs"
    and nf: "silent p" and q: "pinv W M q" and M: "M \<le> 2 ^ 29" and i: "i1 = here p + length H" "i2 = i1 + length P" "i3 = here q"
  shows "runs W (do {
       r \<leftarrow> emit_jump_to q (here p);
       let end_pos = here r;
       r \<leftarrow> (case pos of Some x \<Rightarrow> fixup_jump r x end_pos | None \<Rightarrow> Some r);
       r \<leftarrow> end_loop r (end_pos + (i2 - i1)) (i3 - (i2 - i1) + (i2 - i1));
       let mem = take (i3 - i1) (drop i1 (prog r));
       ok () (r\<lparr>prog := take i1 (prog r) @ ti_rotate_left mem (i2 - i1) @ drop i3 (prog r)\<rparr>)
     }) (\<lambda>_ r. pinv W (M + 1) r \<and> stmts c p r \<and> pm r = pm q)"
proof -
  let ?p = "p\<lparr>s_break := SEGMENT # s_break p, s_continue := SEGMENT # s_continue p\<rparr>"
  define j where "j = mk_instr OP_JUMP 0 0"
  let ?q = "emit q j" and ?a = "length H + length P" and ?J = "[(jump_by j (- int (length (H @ P @ B))), c, 0)]"
  have inv: "pinv W (M + 1) ?q" by (rule pinv_emit(2) [OF q])
  have g: "grows (lims c q) (lims c ?q)" by (rule emits_grows [OF emits_emit(2)])
  obtain ts1 where ts1: "emit_jump_to q (here p) = Some (?q\<lparr>prog := ts1\<rparr>)" "length ts1 = length (prog ?q)"
    and f1: "frame c (H @ P @ B @ ?J) [] (map ((+) ?a) bs) (map ((+) ?a) cs) ?p (?q\<lparr>prog := ts1\<rparr>)"
    by (rule back_jump [OF f, folded j_def]) simp
  let ?q1 = "?q\<lparr>prog := ts1\<rparr>"
  have lims: "lims c (?q\<lparr>prog := ts\<rparr>) = lims c ?q" for ts by (simp add: lims_def)
  have "is_head (lims c ?q1) ?p H pos = is_head (lims c ?q) p H pos" by (simp add: lims is_head_def cong: option.case_cong)
  with is_head_grows [OF head g] have head1: "is_head (lims c ?q1) ?p H pos" by simp
  obtain ts2 H' where ts2: "(case pos of Some x \<Rightarrow> fixup_jump ?q1 x (here ?q1) | None \<Rightarrow> Some ?q1) = Some (?q\<lparr>prog := ts2\<rparr>)"
      "length ts2 = length (prog ?q)"
    and f2: "frame c (H' @ P @ B @ ?J) [] (map ((+) ?a) bs) (map ((+) ?a) cs) ?p (?q\<lparr>prog := ts2\<rparr>)" and H': "map snd H' = map snd H"
    and code: "\<And>D. frag (lims c ?q) 0 D 0 \<Longrightarrow> length D = length P + length B \<Longrightarrow> ?a + length B + 3 < 2 ^ 31 \<Longrightarrow>
      frag (lims c ?q) 0 (H' @ D @ [(jump_by j (- int (length H + length D)), c, 0)]) 0"
  proof (rule head_fix [OF f1 head1], goal_cases)
    case (1 ts H')
    have "frag (lims c ?q) 0 (H' @ D @ [(jump_by j (- int (length H + length D)), c, 0)]) 0"
      if "frag (lims c ?q) 0 D 0" "length D = length P + length B" "?a + length B + 3 < 2 ^ 31" for D
      using 1(6) [unfolded lims, of D j] that by (simp add: j_def)
    then show ?case using 1(2-5) ts1(2) by (intro 1(1) [of ts H']) simp_all
  qed
  let ?q2 = "?q\<lparr>prog := ts2\<rparr>" and ?F = "H' @ (B @ P) @ ?J"
  have lenH: "length H' = length H" using arg_cong [OF H', of length] by simp
  have h: "here ?q1 = here p + (?a + length B + 1)" "here ?q2 = here p + (?a + length B + 1)" "here ?q = here p + (?a + length B + 1)"
      "here q = here p + (?a + length B)"
    using frame_here [OF f2] frame_here [OF f] ts1(2) ts2(2) lenH by (simp_all add: here_def)
  have inv2: "pinv W (M + 1) ?q2" by (rule pinv_prog [OF inv ts2(2)])
  have small: "?a + length B + 3 < 2 ^ 31" using pinv_here [OF inv] M h(3) by simp
  have BP: "frag (lims c ?q) 0 (B @ P) 0" by (rule frag_append [OF frag_grows [OF g B] frag_grows [OF g P]])
  have F: "frag (lims c ?q) 0 ?F 0" using code [OF BP] small by (simp add: algebra_simps)
  let ?K = "lims c ?q"
  have pend': "list_all (pend ?K B) bs" "list_all (pend ?K B) cs" using pend pend_grows [OF g] by (simp_all add: list_all_iff)
  note rot = rotated_jumps(1,2) [OF pend' lenH, where P = P and J = ?J] rotated_jumps(3,4) [OF pend' lenH, where P = P]
  let ?B = "set_jumps (set_jumps B bs (int (length P + length B + 1))) cs (int (length B))"
  obtain ts3 where ts3: "end_loop ?q2 (here p + (?a + length B + 1 + length P)) (here p + (?a + length B)) =
      Some (?q2\<lparr>prog := ts3, s_break := s_break p, s_continue := s_continue p\<rparr>)" "map ti_instr ts3 = pcode p @ map fst (H' @ P @ ?B @ ?J)"
    using end_loop_ok [OF f2 inv2, of "?a + length B + 1 + length P" "?a + length B"] M unfolding rot(1) by auto
  have code3: "map ti_instr ts3 = (pcode p @ map fst H') @ map fst P @ map fst ?B @ map fst ?J" using ts3(2) by simp
  let ?ts = "take i1 ts3 @ ti_rotate_left (take (i3 - i1) (drop i1 ts3)) (i2 - i1) @ drop i3 ts3"
  let ?G = "H' @ ?B @ P @ ?J"
  have i': "i1 = length (pcode p @ map fst H')" "i2 - i1 = length (map fst P)" "i3 = length (pcode p @ map fst H') + length (map fst P) + length (map fst ?B)"
    using i h(4) lenH rot(3) by (simp_all add: here_def)
  have ts: "map ti_instr ?ts = pcode p @ map fst ?G" using rotate_code [OF code3] unfolding i'(2) unfolding i'(1,3) by simp
  have own: "\<forall>x \<in> set ?G. fst (snd x) = c"
  proof -
    have "silent ?p" using nf by simp
    then have 1: "\<forall>x \<in> set (map snd (H' @ P @ B @ ?J)). fst x = c" using frame_own [OF f2] unfolding set_map by blast
    have "set (map snd ?G) = set (map snd (H' @ P @ B @ ?J))" unfolding map_append set_append rot(4) by blast
    then have "\<forall>x \<in> set (map snd ?G). fst x = c" using 1 by (simp only:)
    then show ?thesis unfolding set_map by blast
  qed
  have G: "frag ?K 0 ?G 0"
  proof -
    have p1: "list_all (pend ?K ?F) (map ((+) (length H)) xs)" if "list_all (pend ?K B) xs" for xs
      using that pend_append2 [OF pend_append1 [of ?K B _ "P @ ?J"], of _ H'] by (auto simp: list_all_iff lenH)
    have "ann ([] @ P @ ?J) (c, 0) 0 = Some (c, 0)" using P by (cases P) (simp_all add: frag_def ann_def)
    from ann_append2 [OF this, of "H' @ B"] have v: "ann ?F (k_own ?K, 0) (length H + length B) = Some (k_own ?K, 0)" by (simp add: lenH)
    have len: "length ?F = length H + (length B + length P) + 1" using lenH by simp
    have "length ?F < 2 ^ 31" using small len by simp
    from loop_jumps(1) [OF F p1 [OF pend'(1)] p1 [OF pend'(2)] v this] show ?thesis unfolding len rot(2) .
  qed
  let ?r = "?q2\<lparr>prog := ts3, s_break := s_break p, s_continue := s_continue p, prog := ?ts\<rparr>"
  have r: "?r = ?q2\<lparr>prog := ?ts, s_break := s_break p, s_continue := s_continue p\<rparr>" by simp
  have "length ?G = length (H' @ P @ B @ ?J)" using rot(3) by simp
  then have st: "stmts c p ?r" using loop_stmts_rotated [OF f2 nf _ _ own ts] G unfolding r by (simp add: lims)
  have "length ?ts = length (prog ?q)"
    using arg_cong [OF ts, of length] rot(3) h(3) lenH by (simp add: here_def)
  then have "pinv W (M + 1) (?q\<lparr>prog := ?ts\<rparr>)" by (rule pinv_prog [OF inv])
  then have inv3: "pinv W (M + 1) ?r" unfolding r by simp
  have pm: "pm ?r = pm q" by (simp add: pm_def emit_def emit_at_line_def)
  have "here ?q1 + (i2 - i1) = here p + (?a + length B + 1 + length P)" "i3 - (i2 - i1) + (i2 - i1) = here p + (?a + length B)"
    using h(1,4) i by simp_all
  with ts3(1) have "end_loop ?q2 (here ?q1 + (i2 - i1)) (i3 - (i2 - i1) + (i2 - i1)) =
      Some (?q2\<lparr>prog := ts3, s_break := s_break p, s_continue := s_continue p\<rparr>)" by (simp only:)
  then show ?thesis using ts1(1) ts2(1) st inv3 pm by (simp add: Let_def)
qed

section \<open>The parts of the loop\<close>

lemma plain_refl [simp]: "plain c p p"
  unfolding plain_def ext_def by (intro exI [of _ "[]"]) simp

lemma plain_trans: "plain c p q \<Longrightarrow> plain c q r \<Longrightarrow> plain c p r"
  unfolding plain_def using ext_trans [of c 0 _ "[]" "[]" 0 p q _ "[]" "[]" 0 r] by fastforce

lemma plain_reads: "reads p q \<Longrightarrow> plain c p q"
  unfolding plain_def ext_def using reads_frame by (intro exI [of _ "[]"]) simp

lemma plain_ctx: "plain c p q \<Longrightarrow> ctx c p \<Longrightarrow> ctx c q"
  by (rule stmts_ctx [OF plain_stmts])

lemma plain_silent: "plain c p q \<Longrightarrow> silent p \<Longrightarrow> silent q"
  using hushed_silent [of p q] by (auto simp: plain_def ext_def frame_def)

lemma reads_silent: "reads p q \<Longrightarrow> silent p \<Longrightarrow> silent q"
  using hushed_silent [of p q] by (simp add: reads_def)

lemma optional_ok:
  assumes ex: "expr_spec W ex m" and M: "M \<le> 2 ^ 29" and p: "pinv W M p" "ctx c p" "pm p < m"
  shows "runs W (if cur_kind p \<noteq> k then expr_or_assignment ex p else ok () p) (\<lambda>_ q. pinv W (M + 1) q \<and> plain c p q \<and> pm q \<le> pm p)"
proof (rule runs_if)
  show "runs W (expr_or_assignment ex p) (\<lambda>_ q. pinv W (M + 1) q \<and> plain c p q \<and> pm q \<le> pm p)"
    by (rule runs_conseq [OF expr_or_assignment_ok [OF ex M p]]) auto
qed (use p(1) in \<open>auto intro: pinv_mono\<close>)

lemma for_cond_ok:
  assumes ex: "expr_spec W ex m" and M: "M \<le> 2 ^ 29" and p: "pinv W M p" "pm p < m"
  shows "runs W (if cur_kind p \<noteq> LK_SEMICOLON then
        andthen (ex (-1) p) (\<lambda>_ p. let (pos, p) = postpone_jump_unless p in ok (Some pos) p) else ok None p)
    (\<lambda>pos q. pinv W (M + 1) q \<and> pm q \<le> pm p \<and> (\<exists>H. frame c H [] [] [] p q \<and> is_head (lims c q) p H pos))"
proof (rule runs_if, rule expr_then [OF ex M p])
  fix q assume q: "post W M 0 1 p q"
  obtain C where C: "ext c 0 C [] [] 1 p q" using post_ext [OF q] by blast
  let ?ins = "mk_instr OP_JUMP_UNLESS 0 0"
  let ?q = "emit q ?ins" and ?H = "C @ [(mk_instr OP_JUMP_UNLESS 0 0, c, 1)]"
  have e: "frame c [(?ins, c, 1)] [] [] [] q ?q" by (rule emits_frame) (simp_all add: emits_emit)
  have "frame c ?H [] [] [] p ?q" using frame_trans [of c C "[]" "[]" "[]" p q, OF _ e] C by (simp add: ext_def)
  moreover have "frag (lims c ?q) 0 C 1" using C frag_grows [OF frame_grows [OF e]] by (simp add: ext_def)
  moreover have "here q = here p + length C" using C by (auto simp: ext_def dest: frame_here)
  ultimately have "\<exists>H. frame c H [] [] [] p ?q \<and> is_head (lims c ?q) p H (Some (here q))"
    by (intro exI [of _ ?H]) (simp add: is_head_def)
  moreover have "pinv W (M + 1) ?q" using q by (intro pinv_emit(2)) blast
  ultimately show "runs W (let (pos, p) = postpone_jump_unless q in ok (Some pos) p)
      (\<lambda>pos q. pinv W (M + 1) q \<and> pm q \<le> pm p \<and> (\<exists>H. frame c H [] [] [] p q \<and> is_head (lims c q) p H pos))"
    using post_pm [OF q] by (simp add: postpone_jump_unless_def)
qed (use p(1) in \<open>auto intro: pinv_mono simp: is_head_def\<close>)

text \<open>The part of the statement from the condition on.\<close>

lemma for_tail_ok:
  assumes ex: "expr_spec W ex m" and st: "stmt_spec W st m" and M: "M \<le> 2 ^ 29" and q: "pinv W M q" "ctx c q" "pm q < m" "pm q < k" "silent q"
    and s: "q = p\<lparr>s_break := SEGMENT # s_break p, s_continue := SEGMENT # s_continue p\<rparr>"
  shows "runs W (let begin_pos = here q in
       andthen (if cur_kind q \<noteq> LK_SEMICOLON then
                  andthen (ex (-1) q) (\<lambda>_ p. let (pos, p) = postpone_jump_unless p in ok (Some pos) p)
                else ok None q) (\<lambda>jump_pos p.
       andthen (slurp p LK_SEMICOLON (''expected '' @ quoted '';'')) (\<lambda>_ p.
         let i1 = here p in
         andthen (if cur_kind p \<noteq> LK_RPAREN then expr_or_assignment ex p else ok () p) (\<lambda>_ p.
         andthen (slurp p LK_RPAREN (''expected '' @ quoted '')'')) (\<lambda>_ p.
           let i2 = here p in
           andthen (block st k p) (\<lambda>_ p.
             let i3 = here p; nrotate = i2 - i1; ctnue_pos = i3 - nrotate in
             do {
               p \<leftarrow> emit_jump_to p begin_pos;
               let end_pos = here p;
               p \<leftarrow> (case jump_pos of Some pos \<Rightarrow> fixup_jump p pos end_pos | None \<Rightarrow> Some p);
               p \<leftarrow> end_loop p (end_pos + nrotate) (ctnue_pos + nrotate);
               let mem = take (i3 - i1) (drop i1 (prog p));
               ok () (p\<lparr>prog := take i1 (prog p) @ ti_rotate_left mem nrotate @ drop i3 (prog p)\<rparr>)
             })))))) (\<lambda>_ r. pinv W M r \<and> stmts c p r \<and> pm r < pm q)"
  unfolding Let_def [of "here q"]
proof (rule runs_andthen [OF for_cond_ok [OF ex M q(1,3)]], elim conjE exE)
  fix pos q1 H assume q1: "pinv W (M + 1) q1" "pm q1 \<le> pm q" and H: "frame c H [] [] [] q q1" "is_head (lims c q1) q H pos"
  show "runs W (andthen (slurp q1 LK_SEMICOLON (''expected '' @ quoted '';'')) (\<lambda>_ p.
         let i1 = here p in
         andthen (if cur_kind p \<noteq> LK_RPAREN then expr_or_assignment ex p else ok () p) (\<lambda>_ p.
         andthen (slurp p LK_RPAREN (''expected '' @ quoted '')'')) (\<lambda>_ p.
           let i2 = here p in
           andthen (block st k p) (\<lambda>_ p.
             let i3 = here p; nrotate = i2 - i1; ctnue_pos = i3 - nrotate in
             do {
               p \<leftarrow> emit_jump_to p (here q);
               let end_pos = here p;
               p \<leftarrow> (case pos of Some pos \<Rightarrow> fixup_jump p pos end_pos | None \<Rightarrow> Some p);
               p \<leftarrow> end_loop p (end_pos + nrotate) (ctnue_pos + nrotate);
               let mem = take (i3 - i1) (drop i1 (prog p));
               ok () (p\<lparr>prog := take i1 (prog p) @ ti_rotate_left mem nrotate @ drop i3 (prog p)\<rparr>)
             }))))) (\<lambda>_ r. pinv W M r \<and> stmts c p r \<and> pm r < pm q)"
  proof (rule slurp_then [OF q1(1)], simp)
    fix q2 assume q2: "pinv W (M + 1 - 2) q2" "reads q1 q2"
    have pm2: "pm q2 < pm q" using q1(2) reads_pm [OF q2(2)] by simp
    have ctx2: "ctx c q2" by (rule ctx_reads [OF q2(2) frame_ctx [OF H(1) q(2)]])
    have opt: "runs W (if cur_kind q2 \<noteq> LK_RPAREN then expr_or_assignment ex q2 else ok () q2) (\<lambda>_ q. pinv W (M + 1 - 2 + 1) q \<and> plain c q2 q \<and> pm q \<le> pm q2)"
      by (rule optional_ok [OF ex _ q2(1) ctx2]) (use M pm2 q(3) in simp_all)
    show "runs W (let i1 = here q2 in
         andthen (if cur_kind q2 \<noteq> LK_RPAREN then expr_or_assignment ex q2 else ok () q2) (\<lambda>_ p.
         andthen (slurp p LK_RPAREN (''expected '' @ quoted '')'')) (\<lambda>_ p.
           let i2 = here p in
           andthen (block st k p) (\<lambda>_ p.
             let i3 = here p; nrotate = i2 - i1; ctnue_pos = i3 - nrotate in
             do {
               p \<leftarrow> emit_jump_to p (here q);
               let end_pos = here p;
               p \<leftarrow> (case pos of Some pos \<Rightarrow> fixup_jump p pos end_pos | None \<Rightarrow> Some p);
               p \<leftarrow> end_loop p (end_pos + nrotate) (ctnue_pos + nrotate);
               let mem = take (i3 - i1) (drop i1 (prog p));
               ok () (p\<lparr>prog := take i1 (prog p) @ ti_rotate_left mem nrotate @ drop i3 (prog p)\<rparr>)
             })))) (\<lambda>_ r. pinv W M r \<and> stmts c p r \<and> pm r < pm q)"
      unfolding Let_def [of "here q2"]
    proof (rule runs_andthen [OF opt], elim conjE, rule slurp_then, assumption, simp)
      fix q3 q4 assume q3: "plain c q2 q3" "pm q3 \<le> pm q2" and q4: "pinv W (M + 1 - 2 + 1 - 2) q4" "reads q3 q4"
      have "plain c q2 q4" by (rule plain_trans [OF q3(1) plain_reads [OF q4(2)]])
      then obtain P where P: "frame c P [] [] [] q2 q4" "frag (lims c q4) 0 P 0" by (auto simp: plain_def ext_def)
      have pm4: "pm q4 < pm q" using pm2 q3(2) reads_pm [OF q4(2)] by simp
      have "runs W (block st k q4) (\<lambda>_ p'. pinv W (M + 1 - 2 + 1 - 2 - 2) p' \<and> stmts c q4 p' \<and> pm p' < pm q4)"
        using M pm4 q(3,4) by (intro block_ok [OF st _ q4(1) frame_ctx [OF P(1) ctx2]]) simp_all
      then show "runs W (let i2 = here q4 in
           andthen (block st k q4) (\<lambda>_ p.
             let i3 = here p; nrotate = i2 - here q2; ctnue_pos = i3 - nrotate in
             do {
               p \<leftarrow> emit_jump_to p (here q);
               let end_pos = here p;
               p \<leftarrow> (case pos of Some pos \<Rightarrow> fixup_jump p pos end_pos | None \<Rightarrow> Some p);
               p \<leftarrow> end_loop p (end_pos + nrotate) (ctnue_pos + nrotate);
               let mem = take (i3 - here q2) (drop (here q2) (prog p));
               ok () (p\<lparr>prog := take (here q2) (prog p) @ ti_rotate_left mem nrotate @ drop i3 (prog p)\<rparr>)
             })) (\<lambda>_ r. pinv W M r \<and> stmts c p r \<and> pm r < pm q)"
        unfolding Let_def [of "here q4"]
      proof (rule runs_andthen, elim conjE)
        fix q5 assume q5: "pinv W (M + 1 - 2 + 1 - 2 - 2) q5" "stmts c q4 q5" "pm q5 < pm q4"
        then obtain B bs cs where B: "frame c B [] bs cs q4 q5" "frag (lims c q5) 0 B 0" by (auto simp: stmts_def ext_def)
        have f2: "frame c H [] [] [] q q2" using frame_trans [OF H(1) reads_frame [OF q2(2)]] by simp
        have f: "frame c (H @ P @ B) [] (map ((+) (length H + length P)) bs) (map ((+) (length H + length P)) cs) q q5"
          using frame_trans [OF frame_trans [OF f2 P(1)] B(1)] by simp
        have g: "grows (lims c q1) (lims c q5)" "grows (lims c q4) (lims c q5)"
          using frame_grows [OF reads_frame [OF q2(2)], of c] frame_grows [OF P(1)] frame_grows [OF B(1)] by (auto intro: grows_trans)
        have hd: "is_head (lims c q5) p H pos"
          using is_head_grows [OF H(2) g(1)] by (simp add: is_head_def s cong: option.case_cong)
        have pend: "list_all (pend (lims c q5) B) bs" "list_all (pend (lims c q5) B) cs" using B(1) by (simp_all add: frame_def)
        have h: "here q2 = here p + length H" "here q4 = here q2 + length P" "here q = here p"
          using frame_here [OF f2] frame_here [OF P(1)] by (simp_all add: s)
        have nf: "silent p" using q(5) by (simp add: s)
        note en = for_end_ok [OF f [unfolded s] hd frag_grows [OF g(2) P(2)] B(2) pend nf q5(1) _ h(1,2) refl]
        show "runs W (let i3 = here q5; nrotate = here q4 - here q2; ctnue_pos = i3 - nrotate in
             do {
               p \<leftarrow> emit_jump_to q5 (here q);
               let end_pos = here p;
               p \<leftarrow> (case pos of Some pos \<Rightarrow> fixup_jump p pos end_pos | None \<Rightarrow> Some p);
               p \<leftarrow> end_loop p (end_pos + nrotate) (ctnue_pos + nrotate);
               let mem = take (i3 - here q2) (drop (here q2) (prog p));
               ok () (p\<lparr>prog := take (here q2) (prog p) @ ti_rotate_left mem nrotate @ drop i3 (prog p)\<rparr>)
             }) (\<lambda>_ r. pinv W M r \<and> stmts c p r \<and> pm r < pm q)"
          unfolding h(3) Let_def [of "here q5"] Let_def [of "here q4 - here q2"] Let_def [of "here q5 - (here q4 - here q2)"]
          by (rule runs_conseq [OF en]) (use M q5(3) pm4 in \<open>auto intro: pinv_mono\<close>)
      qed
    qed
  qed
qed

lemma plain_stacks:
  assumes pq: "plain c (p\<lparr>s_break := x # s_break p, s_continue := y # s_continue p\<rparr>) q"
  shows "q = q\<lparr>s_break := s_break p, s_continue := s_continue p\<rparr>\<lparr>s_break := x # s_break p, s_continue := y # s_continue p\<rparr>"
    and "stmts c p (q\<lparr>s_break := s_break p, s_continue := s_continue p\<rparr>)"
proof -
  let ?q = "q\<lparr>s_break := s_break p, s_continue := s_continue p\<rparr>"
  obtain F where F: "frame c F [] [] [] (p\<lparr>s_break := x # s_break p, s_continue := y # s_continue p\<rparr>) q" "frag (lims c q) 0 F 0"
    using pq by (auto simp: plain_def ext_def)
  then show "q = ?q\<lparr>s_break := x # s_break p, s_continue := y # s_continue p\<rparr>" by (simp add: frame_def)
  have "frame c F [] [] [] p ?q" using F(1) by (simp add: frame_def)
  then show "stmts c p ?q" using F(2) unfolding stmts_def ext_def by fastforce
qed

lemma for_stmt_ok:
  assumes ex: "expr_spec W ex m" and st: "stmt_spec W st m" and M: "M \<le> 2 ^ 29" and p: "pinv W M p" "ctx c p" "pm p \<le> m" "pm p \<le> k"
    and kind: "cur_kind p = LK_FOR"
  shows "runs W (for_stmt ex st k p) (\<lambda>_ p'. pinv W M p' \<and> stmts c p p' \<and> pm p' < pm p)"
proof -
  let ?p = "p\<lparr>s_break := SEGMENT # s_break p, s_continue := SEGMENT # s_continue p\<rparr>"
  have p0: "pinv W M ?p" "inner (cur_kind ?p)" "ctx c ?p" using p(1,2) kind by (simp_all add: ctx_def)
  have calm: "calm (ahead ?p)" using p0(1) by (simp add: pinv_def lexing_def)
  show ?thesis
    unfolding for_stmt_def
  proof (rule advance_then [OF p0(1,2)], rule slurp_then, assumption, simp)
    fix p1 p2 assume p1: "reads ?p p1" and p2: "pinv W (M - 2 - 2) p2" "reads p1 p2"
    have "silent p1" using p1 calm kind by (simp add: reads_def moves_def)
    then have nf: "silent p2" by (rule reads_silent [OF p2(2)])
    have pl2: "plain c ?p p2" by (rule plain_trans [OF plain_reads [OF p1] plain_reads [OF p2(2)]])
    have pm: "pm p2 < pm p" using reads_pm [OF p1] reads_pm [OF p2(2)] by simp
    have opt: "runs W (if cur_kind p2 \<noteq> LK_SEMICOLON then expr_or_assignment ex p2 else ok () p2)
        (\<lambda>_ q. pinv W (M - 2 - 2 + 1) q \<and> plain c p2 q \<and> pm q \<le> pm p2)"
      by (rule optional_ok [OF ex _ p2(1) plain_ctx [OF pl2 p0(3)]]) (use M pm p(3) in simp_all)
    show "runs W (andthen (if cur_kind p2 \<noteq> LK_SEMICOLON then expr_or_assignment ex p2 else ok () p2) (\<lambda>_ p.
       andthen (slurp p LK_SEMICOLON (''expected '' @ quoted '';'')) (\<lambda>_ p.
       let begin_pos = here p in
       andthen (if cur_kind p \<noteq> LK_SEMICOLON then
                  andthen (ex (-1) p) (\<lambda>_ p. let (pos, p) = postpone_jump_unless p in ok (Some pos) p)
                else ok None p) (\<lambda>jump_pos p.
       andthen (slurp p LK_SEMICOLON (''expected '' @ quoted '';'')) (\<lambda>_ p.
         let i1 = here p in
         andthen (if cur_kind p \<noteq> LK_RPAREN then expr_or_assignment ex p else ok () p) (\<lambda>_ p.
         andthen (slurp p LK_RPAREN (''expected '' @ quoted '')'')) (\<lambda>_ p.
           let i2 = here p in
           andthen (block st k p) (\<lambda>_ p.
             let i3 = here p; nrotate = i2 - i1; ctnue_pos = i3 - nrotate in
             do {
               p \<leftarrow> emit_jump_to p begin_pos;
               let end_pos = here p;
               p \<leftarrow> (case jump_pos of Some pos \<Rightarrow> fixup_jump p pos end_pos | None \<Rightarrow> Some p);
               p \<leftarrow> end_loop p (end_pos + nrotate) (ctnue_pos + nrotate);
               let mem = take (i3 - i1) (drop i1 (prog p));
               ok () (p\<lparr>prog := take i1 (prog p) @ ti_rotate_left mem nrotate @ drop i3 (prog p)\<rparr>)
             })))))))) (\<lambda>_ p'. pinv W M p' \<and> stmts c p p' \<and> pm p' < pm p)"
    proof (rule runs_andthen [OF opt], elim conjE, rule slurp_then, assumption, simp)
      fix p3 p4 assume p3: "plain c p2 p3" "pm p3 \<le> pm p2" and p4: "pinv W (M - 2 - 2 + 1 - 2) p4" "reads p3 p4"
      have pl: "plain c ?p p4" by (rule plain_trans [OF pl2 plain_trans [OF p3(1) plain_reads [OF p4(2)]]])
      note b = plain_stacks [OF pl]
      have nf4: "silent p4" by (rule reads_silent [OF p4(2) plain_silent [OF p3(1) nf]])
      have pm4: "pm p4 < pm p" using pm p3(2) reads_pm [OF p4(2)] by simp
      have eq: "p4 = (p4\<lparr>s_break := s_break p, s_continue := s_continue p\<rparr>)
        \<lparr>s_break := SEGMENT # s_break (p4\<lparr>s_break := s_break p, s_continue := s_continue p\<rparr>),
         s_continue := SEGMENT # s_continue (p4\<lparr>s_break := s_break p, s_continue := s_continue p\<rparr>)\<rparr>" using b(1) by simp
      show "runs W (let begin_pos = here p4 in
       andthen (if cur_kind p4 \<noteq> LK_SEMICOLON then
                  andthen (ex (-1) p4) (\<lambda>_ p. let (pos, p) = postpone_jump_unless p in ok (Some pos) p)
                else ok None p4) (\<lambda>jump_pos p.
       andthen (slurp p LK_SEMICOLON (''expected '' @ quoted '';'')) (\<lambda>_ p.
         let i1 = here p in
         andthen (if cur_kind p \<noteq> LK_RPAREN then expr_or_assignment ex p else ok () p) (\<lambda>_ p.
         andthen (slurp p LK_RPAREN (''expected '' @ quoted '')'')) (\<lambda>_ p.
           let i2 = here p in
           andthen (block st k p) (\<lambda>_ p.
             let i3 = here p; nrotate = i2 - i1; ctnue_pos = i3 - nrotate in
             do {
               p \<leftarrow> emit_jump_to p begin_pos;
               let end_pos = here p;
               p \<leftarrow> (case jump_pos of Some pos \<Rightarrow> fixup_jump p pos end_pos | None \<Rightarrow> Some p);
               p \<leftarrow> end_loop p (end_pos + nrotate) (ctnue_pos + nrotate);
               let mem = take (i3 - i1) (drop i1 (prog p));
               ok () (p\<lparr>prog := take i1 (prog p) @ ti_rotate_left mem nrotate @ drop i3 (prog p)\<rparr>)
             })))))) (\<lambda>_ p'. pinv W M p' \<and> stmts c p p' \<and> pm p' < pm p)"
        by (rule runs_conseq [OF for_tail_ok [OF ex st _ p4(1) plain_ctx [OF pl p0(3)] _ _ nf4 eq]])
          (use M pm4 p(3,4) stmts_trans [OF b(2)] in \<open>auto intro: pinv_mono\<close>)
    qed
  qed
qed

section \<open>Statements\<close>

lemma expr_spec_mono: "expr_spec W ex m \<Longrightarrow> n \<le> m \<Longrightarrow> expr_spec W ex n"
  by (auto simp: expr_spec_def)

lemma stmt_body_ok:
  assumes ex': "expr_spec W ex (Suc m)" and st: "stmt_spec W st m" and M: "M \<le> 2 ^ 29" and p: "pinv W M p" "ctx c p" "pm p \<le> m" "pm p \<le> k"
  shows "runs W (stmt_body ex st k p) (\<lambda>_ p'. pinv W M p' \<and> stmts c p p' \<and> (if cur_kind p \<in> {LK_EOF, LK_RBRACE} then p' = p else pm p' < pm p))"
proof -
  let ?Q = "\<lambda>_ p'. pinv W M p' \<and> stmts c p p' \<and> (if cur_kind p \<in> {LK_EOF, LK_RBRACE} then p' = p else pm p' < pm p)"
  have ex: "expr_spec W ex m" using ex' by (rule expr_spec_mono) simp
  have less: "runs W r (\<lambda>_ p'. pinv W M p' \<and> stmts c p p' \<and> pm p' < pm p) \<Longrightarrow> cur_kind p \<notin> {LK_EOF, LK_RBRACE} \<Longrightarrow> runs W r ?Q" for r
    by (erule runs_conseq) auto
  show ?thesis
    unfolding stmt_body_def Let_def
  proof (intro runs_if)
    assume k: "cur_kind p = LK_IF"
    show "runs W (if_stmt ex st k p) ?Q" by (rule less [OF if_stmt_ok [OF ex st M p]]) (simp_all add: k)
  next
    assume k: "cur_kind p = LK_WHILE"
    show "runs W (while_stmt ex st k p) ?Q" by (rule less [OF while_stmt_ok [OF ex st M p]]) (simp_all add: k)
  next
    assume k: "cur_kind p = LK_FOR"
    show "runs W (for_stmt ex st k p) ?Q" by (rule less [OF for_stmt_ok [OF ex st M p]]) (simp_all add: k)
  next
    assume k: "cur_kind p = LK_FUN"
    show "runs W (fun_stmt st k p) ?Q" by (rule less [OF fun_stmt_ok [OF st M p]]) (simp_all add: k)
  next
    assume k: "cur_kind p = LK_SEMICOLON"
    have "runs W (advance p) (\<lambda>_ p'. pinv W M p' \<and> stmts c p p' \<and> pm p' < pm p)"
      by (rule runs_conseq [OF advance_ok [OF p(1)]]) (use k reads_stmts reads_pm in \<open>auto intro: pinv_mono\<close>)
    then show "runs W (advance p) ?Q" by (rule less) (simp add: k)
  next
    assume k: "cur_kind p = LK_RETURN"
    show "runs W (return_stmt ex p) ?Q" by (rule less [OF return_stmt_ok [OF ex M p(1,3)]]) (simp_all add: k)
  next
    assume k: "cur_kind p = LK_BREAK"
    have "runs W (jump_stmt p (s_break p) (\<lambda>s p. p\<lparr>s_break := s\<rparr>) ''break'') (\<lambda>_ p'. pinv W M p' \<and> stmts c p p' \<and> pm p' < pm p)"
      using p frame_jump(2) [of p c] k by (intro jump_stmt_ok) (auto simp: ctx_def)
    then show "runs W (jump_stmt p (s_break p) (\<lambda>s p. p\<lparr>s_break := s\<rparr>) ''break'') ?Q" by (rule less) (simp add: k)
  next
    assume k: "cur_kind p = LK_CONTINUE"
    have "runs W (jump_stmt p (s_continue p) (\<lambda>s p. p\<lparr>s_continue := s\<rparr>) ''continue'') (\<lambda>_ p'. pinv W M p' \<and> stmts c p p' \<and> pm p' < pm p)"
      using p frame_jump(3) [of p c] k by (intro jump_stmt_ok) (auto simp: ctx_def)
    then show "runs W (jump_stmt p (s_continue p) (\<lambda>s p. p\<lparr>s_continue := s\<rparr>) ''continue'') ?Q" by (rule less) (simp add: k)
  next
    assume "cur_kind p = LK_EOF \<or> cur_kind p = LK_RBRACE"
    then show "runs W (ok () p) ?Q" using p(1) by auto
  next
    assume k: "\<not> (cur_kind p = LK_EOF \<or> cur_kind p = LK_RBRACE)"
    have "runs W (andthen (expr_or_assignment ex p) (\<lambda>_ p. slurp p LK_SEMICOLON (''expected '' @ quoted '';'')))
        (\<lambda>_ p'. pinv W M p' \<and> stmts c p p' \<and> pm p' < pm p)"
    proof (rule runs_andthen [OF expr_or_assignment_ok [OF ex' M p(1,2)]], use p(3) in simp, elim conjE)
      fix q assume q: "pinv W (M + 1) q" "plain c p q" "pm q < pm p"
      show "runs W (slurp q LK_SEMICOLON (''expected '' @ quoted '';'')) (\<lambda>_ p'. pinv W M p' \<and> stmts c p p' \<and> pm p' < pm p)"
        by (rule runs_conseq [OF slurp_ok [OF q(1)]])
          (use q(3) stmts_trans [OF plain_stmts [OF q(2)] reads_stmts] in \<open>auto intro: pinv_mono dest!: reads_pm\<close>)
    qed
    then show "runs W (andthen (expr_or_assignment ex p) (\<lambda>_ p. slurp p LK_SEMICOLON (''expected '' @ quoted '';''))) ?Q"
      by (rule less) (use k in simp)
  qed
qed

lemma stmt_ok: "stmt_spec W (stmt (w_deci W) k) (k - 1)"
proof (induction k)
  case (Suc k)
  show ?case
  proof (cases k)
    case (Suc j)
    then have "k - 1 = j" by simp
    with Suc.IH have st: "stmt_spec W (stmt (w_deci W) k) j" by (simp only:)
    have ex: "expr_spec W (expr (w_deci W) k) (Suc j)" using expr_ok [of W k] Suc by simp
    show ?thesis
      unfolding stmt_spec_def
    proof (intro allI impI)
      fix M c p assume "M \<le> (2 ^ 29 :: int)" "pinv W M p" "ctx c p" "pm p < Suc k - 1"
      then show "runs W (stmt (w_deci W) (Suc k) p) (\<lambda>_ p'. pinv W M p' \<and> stmts c p p' \<and>
          (if cur_kind p \<in> {LK_EOF, LK_RBRACE} then p' = p else pm p' < pm p))"
        using stmt_body_ok [OF ex st, of M p c k] Suc by simp
    qed
  qed (simp add: stmt_spec_def)
qed (simp add: stmt_spec_def)

lemma parse_loop_ok:
  assumes M: "M \<le> 2 ^ 29"
  shows "pinv W M p \<Longrightarrow> ctx c p \<Longrightarrow> pm p < k - 1 \<Longrightarrow> pm p < n \<Longrightarrow>
    runs W (parse_loop (w_deci W) k n p) (\<lambda>_ p'. pinv W M p' \<and> stmts c p p' \<and> pm p' \<le> pm p)"
proof (induction n arbitrary: p)
  case (Suc n)
  let ?Q = "\<lambda>_ p'. pinv W M p' \<and> stmts c p p' \<and> pm p' \<le> pm p"
  show ?case
    unfolding parse_loop.simps
  proof (rule runs_andthen [OF stmt_specD [OF stmt_ok M Suc.prems(1,2,3)]], elim conjE)
    fix q assume q: "pinv W M q" "stmts c p q" and pm: "if cur_kind p \<in> {LK_EOF, LK_RBRACE} then q = p else pm q < pm p"
    show "runs W (if cur_kind q = LK_RBRACE then throw_error_at q (''extra '' @ quoted ''}'') (ps_cur q)
       else if cur_kind q = LK_EOF then ok () q else parse_loop (w_deci W) k n q) ?Q"
    proof (intro runs_if)
      assume "cur_kind q \<noteq> LK_RBRACE" "cur_kind q \<noteq> LK_EOF"
      then have less: "pm q < pm p" using pm by (auto split: if_splits)
      have "runs W (parse_loop (w_deci W) k n q) (\<lambda>_ p'. pinv W M p' \<and> stmts c q p' \<and> pm p' \<le> pm q)"
        using Suc.prems less by (intro Suc.IH q(1) stmts_ctx [OF q(2)]) simp_all
      then show "runs W (parse_loop (w_deci W) k n q) ?Q"
        by (rule runs_conseq) (use stmts_trans [OF q(2)] less in auto)
    qed (use q stmts_pm [OF q(2)] in auto)
  qed
qed simp

section \<open>Properties\<close>

text \<open>
  C40: The code of the part of a \<open>for\<close> that follows the body is moved behind it by reversing three spans in place;
  this is the rotation of the list, for every length of the two parts.
\<close>

theorem for_rotation:
  assumes "n \<le> length xs"
  shows "ti_rotate_left xs n = rotate n xs"
  using assms by (cases "n = length xs") (simp_all add: ti_rotate_left_eq rotate_drop_take)

theorem for_rotation_witness: "ti_rotate_left [1, 2, 3, 4, 5 :: nat] 2 = [3, 4, 5, 1, 2]"
  using for_rotation [of 2 "[1, 2, 3, 4, 5 :: nat]"] by (simp add: rotate_drop_take)

end
