(* ===== verification/Vm_Calls.thy ===== *)
theory Vm_Calls
  imports Vm_Safety
begin

text \<open>
  The instructions that make objects, change their elements, call functions and return from them; with
  them, every instruction of accepted code keeps the invariant of the machine.
\<close>

section \<open>New objects\<close>

lemma alloc_inv:
  assumes a: "at_instr D T st r f i d ins" and e: "stack_effect ins = Some (p, 1)"
    and j: "j \<in> set (successors (f_chunk f) ins)"
    and ds: "v_data (r_vs r) = ds @ ts" "length ds = snd (r_locals r) + nlocals (sh_of f) + (d - p)"
    and x: "obj_ok D (func_ok D T (nglobals st)) (vm_heap st) x" and v: "val_ok D (vm_heap st @ [x]) v"
  shows "yields (do { vs \<leftarrow> vs_push ((r_vs r)\<lparr>v_data := ds\<rparr>) v; r \<leftarrow> advance_ip (r\<lparr>r_vs := vs\<rparr>) j;
      Some (st\<lparr>vm_heap := vm_heap st @ [x]\<rparr>, Running r) }) (outcome_ok D T)"
proof -
  note A = at_instrD [OF a]
  let ?h = "vm_heap st @ [x]"
  have st: "state_ok D T (st\<lparr>vm_heap := ?h\<rparr>)"
    by (rule state_ok_heap [OF A(4) heap_ok_append [OF heap_of [OF A(4)] x] heap_le_append])
  have "\<forall>v \<in> set ds. val_ok D (vm_heap st) v" using A(5) ds(1) by (auto simp: stack_ok_def)
  then have ok: "\<forall>v \<in> set (ds @ [v]). val_ok D ?h v"
    using v val_ok_mono [OF heap_le_append [of "vm_heap st" "[x]"]] by auto
  have "length ds < v_cap (r_vs r)" using A(2) ds(2) at_effect(2) [OF a e] by (simp add: regs_at_def)
  then have push: "vs_push ((r_vs r)\<lparr>v_data := ds\<rparr>) v = Some ((r_vs r)\<lparr>v_data := ds @ [v]\<rparr>)" by (simp add: vs_push_def)
  have "yields (do { r \<leftarrow> advance_ip (r\<lparr>r_vs := (r_vs r)\<lparr>v_data := ds @ [v]\<rparr>\<rparr>) j;
      Some (st\<lparr>vm_heap := ?h\<rparr>, Running r) }) (outcome_ok D T)"
    by (rule advance_inv [OF A(1,2) st _ _ _ _ _ at_effect(4) [OF a e j]]) (use ok ds(2) in simp_all)
  then show ?thesis by (simp add: push)
qed

text \<open>The values above position \<open>p\<close> from the top, as the code addresses them.\<close>

lemma stack_top:
  assumes a: "at_instr D T st r f i d ins" and p: "p \<le> d"
  obtains ds ts where "v_data (r_vs r) = ds @ ts" and "length ts = p"
    and "length ds = snd (r_locals r) + nlocals (sh_of f) + (d - p)"
    and "\<forall>v \<in> set ds. val_ok D (vm_heap st) v" and "\<forall>v \<in> set ts. val_ok D (vm_heap st) v"
proof -
  note A = at_instrD [OF a]
  obtain ds ts where ds: "v_data (r_vs r) = ds @ ts" "length ts = p"
      "length ds = snd (r_locals r) + nlocals (sh_of f) + (d - p)"
    by (rule stack_split [OF A(2) p])
  then show thesis using that [of ds ts] A(5) by (simp add: stack_ok_def)
qed

lemma list_size:
  assumes "unat (c :: 32 word) = length ts"
  shows "list_good (list_new_steal ts)"
proof -
  have "unat c < 2 ^ LENGTH(32)" by (rule unsigned_less)
  then show ?thesis using assms by (simp add: list_good_def list_new_steal_def SIZE_MAX_def)
qed

lemma step_list:
  assumes a: "at_instr D T st r f i d ins" and op: "opcode ins = OP_LIST"
  shows "yields (step E st r) (outcome_ok D T)"
proof -
  let ?n = "unat (in_c ins)"
  have e: "stack_effect ins = Some (?n, 1)" using op by simp
  obtain ds ts where ds: "v_data (r_vs r) = ds @ ts" "length ts = ?n"
      "length ds = snd (r_locals r) + nlocals (sh_of f) + (d - ?n)" and ok: "\<forall>v \<in> set ts. val_ok D (vm_heap st) v"
    by (rule stack_top [OF a at_effect(1) [OF a e]])
  have x: "obj_ok D (func_ok D T (nglobals st)) (vm_heap st) (O_List (list_new_steal ts))"
    using list_size [of "in_c ins" ts] ds(2) ok by (simp add: list_new_steal_def)
  have "yields (op_list st r ?n) (outcome_ok D T)"
    using alloc_inv [OF a e _ ds(1,3) x, of 1 "V_List (length (vm_heap st))"] op ds(1,2)
    by (simp add: op_list_def Let_def heap_alloc_def heap_list_def next_with_def)
  then show ?thesis using op at_instrD(8) [OF a] by (simp add: step_def Let_def)
qed

section \<open>Dictionaries\<close>

lemma set_pairs: "(k, v) \<in> set (pairs vs) \<Longrightarrow> k \<in> set vs \<and> v \<in> set vs"
  by (induction vs rule: pairs.induct) auto

lemma length_pairs: "2 * length (pairs vs) \<le> length vs"
  by (induction vs rule: pairs.induct) auto

lemma string_keys_ok:
  assumes "check_dict_keys kv = None"
  obtains kv' where "string_keys kv = Some kv'" and "kv = map (\<lambda>(k, v). (V_Str k, v)) kv'"
proof -
  have "\<exists>kv'. string_keys kv = Some kv' \<and> kv = map (\<lambda>(k, v). (V_Str k, v)) kv'"
    using assms
  proof (induction kv)
    case (Cons kv kvs)
    obtain k v where kv: "kv = (k, v)" by (cases kv)
    then obtain s where k: "k = V_Str s" using Cons.prems by (cases k) (simp_all split: if_splits)
    with Cons kv obtain kv' where "string_keys kvs = Some kv'" "kvs = map (\<lambda>(k, v). (V_Str k, v)) kv'" by auto
    then show ?case using kv k by (intro exI [of _ "(s, v) # kv'"]) simp
  qed simp
  then show thesis using that by blast
qed

lemma dict_obj_ok:
  assumes kv: "string_keys (pairs ts) = Some kv" "pairs ts = map (\<lambda>(k, v). (V_Str k, v)) kv"
    and ok: "\<forall>v \<in> set ts. val_ok D h v" and room: "length ts \<le> 2 * (3 * 2 ^ 29)"
  shows "yields (dict_new_steal kv) (\<lambda>d. obj_ok D P h (O_Dict d))"
proof -
  have mem: "str_good k \<and> val_ok D h v" if "(k, v) \<in> set kv" for k v
  proof -
    have "(V_Str k, v) \<in> set (pairs ts)" using that by (force simp: kv(2))
    then show ?thesis using set_pairs ok by fastforce
  qed
  have "length kv \<le> 3 * 2 ^ 29" using length_pairs [of ts] room by (simp add: kv(2))
  moreover have "\<forall>(k, v) \<in> set kv. key_ok k" using mem by (fastforce simp: str_good_def key_ok_def str_ok_def)
  moreover have "ran (map_of (rev (map (\<lambda>kv. (s_data (fst kv), snd kv)) kv))) \<subseteq> snd ` set kv"
    by (force dest!: map_of_SomeD simp: ran_def)
  ultimately show ?thesis
    using mem by (intro yields_conseq [OF dict_new_steal_yields]) fastforce+
qed

lemma step_dict:
  assumes a: "at_instr D T st r f i d ins" and room: "step_room E st r ins" and op: "opcode ins = OP_DICT"
  shows "yields (step E st r) (outcome_ok D T)"
proof -
  let ?n = "unat (in_c ins) * 2"
  have e: "stack_effect ins = Some (?n, 1)" using op by simp
  obtain ds ts where ds: "v_data (r_vs r) = ds @ ts" "length ts = ?n"
      "length ds = snd (r_locals r) + nlocals (sh_of f) + (d - ?n)" and ok: "\<forall>v \<in> set ts. val_ok D (vm_heap st) v"
    by (rule stack_top [OF a at_effect(1) [OF a e]])
  have take: "take (length ds + length ts - ?n) (ds @ ts) = ds" "drop (length ds + length ts - ?n) (ds @ ts) = ts"
    using ds(2) by simp_all
  have "yields (op_dict st r (unat (in_c ins))) (outcome_ok D T)"
  proof (cases "check_dict_keys (pairs ts)")
    case (Some m)
    then show ?thesis using ds at_instrD(4) [OF a] by (simp add: op_dict_def Let_def)
  next
    case None
    obtain kv where kv: "string_keys (pairs ts) = Some kv" "pairs ts = map (\<lambda>(k, v). (V_Str k, v)) kv"
      by (rule string_keys_ok [OF None])
    have "length ts \<le> 2 * (3 * 2 ^ 29)" using room op ds(2) by (simp add: step_room_def Let_def)
    then have "yields (dict_new_steal kv) (\<lambda>d. obj_ok D (func_ok D T (nglobals st)) (vm_heap st) (O_Dict d))"
      by (rule dict_obj_ok [OF kv ok])
    then obtain x where x: "dict_new_steal kv = Some x" "obj_ok D (func_ok D T (nglobals st)) (vm_heap st) (O_Dict x)"
      by (auto simp: yields_iff_ex)
    show ?thesis
      using alloc_inv [OF a e _ ds(1,3) x(2), of 1 "V_Dict (length (vm_heap st))"] op ds(1,2) None kv(1) x(1)
      by (simp add: op_dict_def Let_def heap_alloc_def heap_dict_def next_with_def take)
  qed
  then show ?thesis using op at_instrD(8) [OF a] by (simp add: step_def Let_def)
qed

section \<open>Functions\<close>

lemma regs_callee:
  assumes "regs_at T r f i d"
  obtains s sites where "c_sites (r_cs r) = s # sites" and "callee s = f"
  using assms unfolding regs_at_def by blast

lemma shape_at:
  assumes a: "at_instr D T st r f i d ins" and op: "opcode ins = OP_FUNCTION"
  shows "chunk_shape (f_chunk f) (in_c ins) = Some (shapes (f_chunk f) ! unat (in_c ins))"
    and "func_ok D T (nglobals st) \<lparr>f_chunk = f_chunk f, f_ip = i\<rparr>"
proof -
  note A = at_instrD [OF a]
  have e: "stack_effect ins = Some (0, 1)" using op by simp
  have o: "unat (in_c ins) < length (shapes (f_chunk f))" "shape_ok (shapes (f_chunk f) ! unat (in_c ins))"
    using at_effect(3) [OF a e] op by simp_all
  then show "chunk_shape (f_chunk f) (in_c ins) = Some (shapes (f_chunk f) ! unat (in_c ins))"
    by (simp add: chunk_shape_def)
  have "i < length (code (f_chunk f))"
    using A(2,3) by (simp add: regs_at_def func_ok_def typed_def at_depth_def)
  with o A(3) at_effect(6) [OF a e op] show "func_ok D T (nglobals st) \<lparr>f_chunk = f_chunk f, f_ip = i\<rparr>"
    by (simp add: func_ok_def own_def sh_of_def A(7))
qed

lemma step_function:
  assumes a: "at_instr D T st r f i d ins" and op: "opcode ins = OP_FUNCTION"
  shows "yields (step E st r) (outcome_ok D T)"
proof -
  note A = at_instrD [OF a]
  have e: "stack_effect ins = Some (0, 1)" using op by simp
  obtain s sites where s: "c_sites (r_cs r) = s # sites" "callee s = f" by (rule regs_callee [OF A(2)])
  have ip: "r_ip r = (f_chunk f, i)" using A(2) by (simp add: regs_at_def)
  have "yields (do { vs \<leftarrow> vs_push ((r_vs r)\<lparr>v_data := v_data (r_vs r)\<rparr>) (V_Func (length (vm_heap st)));
      r \<leftarrow> advance_ip (r\<lparr>r_vs := vs\<rparr>) (int (sh_offset (shapes (f_chunk f) ! unat (in_c ins))));
      Some (st\<lparr>vm_heap := vm_heap st @ [O_Func \<lparr>f_chunk = f_chunk f, f_ip = i\<rparr>]\<rparr>, Running r) }) (outcome_ok D T)"
    by (rule alloc_inv [OF a e, where ts = "[]"])
      (use op A(2) shape_at(2) [OF a op] in \<open>simp_all add: regs_at_def heap_func_def\<close>)
  then have "yields (op_function st r (in_c ins)) (outcome_ok D T)"
    using shape_at(1) [OF a op] by (simp add: op_function_def s ip heap_alloc_def Let_def)
  then show ?thesis using op A(8) by (simp add: step_def Let_def)
qed

section \<open>Elements\<close>

lemma step_element:
  assumes a: "at_instr D T st r f i d ins" and E: "env_ok E T" and D: "D = e_deci E" and room: "step_room E st r ins"
    and e: "stack_effect ins = Some (3, 0)" and j: "1 \<in> set (successors (f_chunk f) ins)"
    and mod: "modify = None \<and> opcode ins = OP_STORE_AT \<or> (\<exists>aop. aop_of_code (in_a ins) = Some aop \<and> modify = Some aop \<and> opcode ins = OP_MODIFY_AT)"
  shows "yields (op_store_at E st r modify) (outcome_ok D T)"
proof -
  note A = at_instrD [OF a]
  have dk: "deci_ok D" using E D by (simp add: env_ok_def)
  obtain ds ts where ds: "v_data (r_vs r) = ds @ ts" "length ts = 3"
      "length ds = snd (r_locals r) + nlocals (sh_of f) + (d - 3)"
    and ok: "\<forall>v \<in> set ds. val_ok D (vm_heap st) v" "\<forall>v \<in> set ts. val_ok D (vm_heap st) v"
    by (rule stack_top [OF a at_effect(1) [OF a e]])
  then obtain c k v where ts: "ts = [c, k, v]" by (auto simp: length_Suc_conv numeral_3_eq_3)
  have top: "top_val r 0 = v" "top_val r 1 = k" "top_val r 2 = c" by (simp_all add: top_val_def ds(1) ts)
  have pops: "vs_pop (r_vs r) = Some (v, (r_vs r)\<lparr>v_data := ds @ [c, k]\<rparr>)"
      "vs_pop ((r_vs r)\<lparr>v_data := ds @ [c, k]\<rparr>) = Some (k, (r_vs r)\<lparr>v_data := ds @ [c]\<rparr>)"
      "vs_pop ((r_vs r)\<lparr>v_data := ds @ [c]\<rparr>) = Some (c, (r_vs r)\<lparr>v_data := ds\<rparr>)"
    by (simp_all add: vs_pop_def ds(1) ts butlast_append)
  have "elem_room (vm_heap st) c" using room mod top by (auto simp: step_room_def Let_def)
  then obtain h res where p: "get_elem_ptr_at D (vm_heap st) c k = Some (h, res)"
      "heap_ok D (func_ok D T (nglobals st)) h" "heap_le (vm_heap st) h" "\<forall>p. res = Inr p \<longrightarrow> ptr_ok h p"
    using get_elem_ptr_at_ok [OF dk heap_of [OF A(4)], of c k] ok(2) ts by (auto simp: yields_iff_ex)
  have st1: "state_ok D T (st\<lparr>vm_heap := h\<rparr>)" by (rule state_ok_heap [OF A(4) p(2,3)])
  show ?thesis
  proof (cases res)
    case (Inl m)
    then show ?thesis using p(1) st1 by (simp add: op_store_at_def pops D)
  next
    case (Inr q)
    then have q: "ptr_ok h q" using p(4) by simp
    have v: "val_ok D h v" using ok(2) ts val_ok_mono [OF p(3)] by simp
    let ?new = "case modify of None \<Rightarrow> Some (Inr v) | Some aop \<Rightarrow>
        do { w \<leftarrow> elem_load h q; perform_aop (e_deci E) (vm_ntp st) (e_same E w v) aop w v }"
    have "yields ?new (result_ok D h)"
    proof (cases modify)
      case (Some aop)
      obtain w where w: "elem_load h q = Some w" "val_ok D h w"
        using elem_load_yields [OF p(2) q] by (auto simp: yields_iff_ex)
      have "aop_space D (vm_ntp st) aop w v"
        using room mod Some p(1) Inr w(1) top D by (simp add: step_room_def Let_def)
      then show ?thesis using aop_inv [OF E A(4) [unfolded D]] w v Some D by simp
    qed (use v in simp)
    then obtain x where x: "?new = Some x" "result_ok D h x" by (auto simp: yields_iff_ex)
    show ?thesis
    proof (cases x)
      case (Inl m)
      then show ?thesis using p(1) st1 Inr x(1) by (simp add: op_store_at_def pops D Let_def cong: option.case_cong)
    next
      case y: (Inr y)
      then obtain h' where h': "elem_store h q y = Some h'" "heap_ok D (func_ok D T (nglobals st)) h'" "heap_le h h'"
        using elem_store_yields [OF p(2) q] x(2) by (auto simp: yields_iff_ex)
      have le: "heap_le (vm_heap st) h'" by (rule heap_le_trans [OF p(3) h'(3)])
      have st2: "state_ok D T (st\<lparr>vm_heap := h'\<rparr>)" by (rule state_ok_heap [OF A(4) h'(2) le])
      have "yields (next_with (st\<lparr>vm_heap := h'\<rparr>) r ((r_vs r)\<lparr>v_data := ds\<rparr>)) (outcome_ok D T)"
        using at_effect(4) [OF a e j] ds(3) ok(1) val_ok_mono [OF le] by (intro next_inv [OF A(1,2) st2]) auto
      then show ?thesis using p(1) Inr x(1) y h'(1)
        by (simp add: op_store_at_def pops D Let_def cong: option.case_cong)
    qed
  qed
qed

lemma step_at:
  assumes a: "at_instr D T st r f i d ins" and E: "env_ok E T" and D: "D = e_deci E" and room: "step_room E st r ins"
    and op: "opcode ins = OP_STORE_AT \<or> opcode ins = OP_MODIFY_AT"
  shows "yields (step E st r) (outcome_ok D T)"
proof -
  have e: "stack_effect ins = Some (3, 0)" using op by auto
  have j: "1 \<in> set (successors (f_chunk f) ins)" using op by auto
  from op show ?thesis
  proof
    assume op: "opcode ins = OP_STORE_AT"
    then show ?thesis using step_element [OF a E D room e j, of None] at_instrD(8) [OF a] by (simp add: step_def Let_def)
  next
    assume op: "opcode ins = OP_MODIFY_AT"
    then obtain aop where aop: "aop_of_code (in_a ins) = Some aop" using at_effect(3) [OF a e] by auto
    then show ?thesis
      using op step_element [OF a E D room e j, of "Some aop"] at_instrD(8) [OF a] by (simp add: step_def Let_def)
  qed
qed

section \<open>Returns\<close>

lemma frames_ok_pos: "frames_ok T cap sites l \<Longrightarrow> 1 \<le> l"
  by (induction T cap sites l rule: frames_ok.induct) auto

text \<open>Back in the caller: the frame below becomes the current one.\<close>

lemma return_regs:
  assumes fr: "frames_ok T (v_cap vs) (s # s' # sites) l" and len: "length (v_data vs) = l"
    and cs: "c_sites cs = s' # sites" "length (c_sites cs) \<le> c_cap cs"
  obtains ip j d where "call_ip s = Some (f_chunk (callee s'), j)"
    and "regs_at T \<lparr>r_vs = vs, r_cs = cs, r_ip = (f_chunk (callee s'), j + 1),
      r_locals = (v_buf vs, prev_locals_offset s), r_consts = prev_consts s\<rparr> (callee s') (j + 1) d"
proof -
  from fr obtain j d where j: "call_ip s = Some (f_chunk (callee s'), j)" "prev_consts s = constants (f_chunk (callee s'))"
      "at_depth (T (f_chunk (callee s'))) (int j + 1) (own (callee s')) d"
      "l = prev_locals_offset s + nlocals (sh_of (callee s')) + d"
    and rest: "prev_locals_offset s + nlocals (sh_of (callee s')) + maxstack (sh_of (callee s')) \<le> v_cap vs"
      "frames_ok T (v_cap vs) (s' # sites) (prev_locals_offset s)" by auto
  have "at_depth (T (f_chunk (callee s'))) (int (j + 1)) (own (callee s')) d" using j(3) by (simp add: add.commute)
  with j rest show thesis using cs len by (intro that) (auto simp: regs_at_def)
qed

lemma return_stack:
  assumes r: "regs_at T r f i 1" and f: "func_ok D T G f"
  obtains ds v ts where "vs_pop (r_vs r) = Some (v, (r_vs r)\<lparr>v_data := ds @ ts\<rparr>)" and "v_data (r_vs r) = ds @ ts @ [v]"
    and "Suc (length ds) = snd (r_locals r)" and "Suc (length ds) \<le> v_cap (r_vs r)"
    and "popn ((r_vs r)\<lparr>v_data := ds @ ts\<rparr>) (Suc (nlocals (sh_of f))) = Some ((r_vs r)\<lparr>v_data := ds\<rparr>)"
proof -
  have pos: "1 \<le> snd (r_locals r)" using r frames_ok_pos unfolding regs_at_def by blast
  let ?L = "snd (r_locals r) - 1" and ?xs = "v_data (r_vs r)"
  have len: "length ?xs = ?L + 1 + nlocals (sh_of f) + 1" using r pos by (simp add: regs_at_def)
  have xs: "?xs = take ?L ?xs @ butlast (drop ?L ?xs) @ [last (drop ?L ?xs)]"
    using len append_butlast_last_id [of "drop ?L ?xs"] append_take_drop_id [of ?L ?xs] by simp
  show thesis
  proof (rule that [of "last (drop ?L ?xs)" "take ?L ?xs" "butlast (drop ?L ?xs)", OF _ xs])
    show "vs_pop (r_vs r) = Some (last (drop ?L ?xs), (r_vs r)\<lparr>v_data := take ?L ?xs @ butlast (drop ?L ?xs)\<rparr>)"
      by (rule vs_pop_snoc) (use xs in simp)
    show "popn ((r_vs r)\<lparr>v_data := take ?L ?xs @ butlast (drop ?L ?xs)\<rparr>) (Suc (nlocals (sh_of f)))
        = Some ((r_vs r)\<lparr>v_data := take ?L ?xs\<rparr>)"
      using len pos by (simp add: popn_def)
  qed (use r pos len in \<open>auto simp: regs_at_def\<close>)
qed

lemma step_return:
  assumes a: "at_instr D T st r f i d ins" and op: "opcode ins = OP_RETURN"
  shows "yields (step E st r) (outcome_ok D T)"
proof -
  note A = at_instrD [OF a]
  have "d = 1" using at_effect(5) [OF a, of 1 0] op by simp
  then have r: "regs_at T r f i 1" using A(2) by simp
  obtain s sites where s: "c_sites (r_cs r) = s # sites" "callee s = f" by (rule regs_callee [OF r])
  obtain ds v ts where ds: "vs_pop (r_vs r) = Some (v, (r_vs r)\<lparr>v_data := ds @ ts\<rparr>)" "v_data (r_vs r) = ds @ ts @ [v]"
      "Suc (length ds) = snd (r_locals r)" "Suc (length ds) \<le> v_cap (r_vs r)"
      "popn ((r_vs r)\<lparr>v_data := ds @ ts\<rparr>) (Suc (nlocals (sh_of f))) = Some ((r_vs r)\<lparr>v_data := ds\<rparr>)"
    by (rule return_stack [OF r A(3)])
  let ?vs = "(r_vs r)\<lparr>v_data := ds @ [v]\<rparr>"
  have push: "vs_push ((r_vs r)\<lparr>v_data := ds\<rparr>) v = Some ?vs" using ds(4) by (simp add: vs_push_def)
  have ok: "\<forall>v \<in> set (v_data ?vs). val_ok D (vm_heap st) v" using A(5) ds(2) by (simp add: stack_ok_def)
  have fr: "frames_ok T (v_cap ?vs) (s # sites) (snd (r_locals r))" using r s by (simp add: regs_at_def)
  have "yields (op_return st r) (outcome_ok D T)"
  proof (cases sites)
    case Nil
    then have "call_ip s = None" "length ds = 0" using fr ds(3) by simp_all
    then show ?thesis
      using s ds(1,5) push ok A(4) func_shape_ok(1) [OF A(3)] by (simp add: op_return_def)
  next
    case (Cons s' sites')
    let ?cs = "(r_cs r)\<lparr>c_sites := s' # sites'\<rparr>"
    have cs: "c_sites ?cs = s' # sites'" "length (c_sites ?cs) \<le> c_cap ?cs"
      using r s Cons by (simp_all add: regs_at_def)
    obtain j e where j: "call_ip s = Some (f_chunk (callee s'), j)"
      and at: "regs_at T \<lparr>r_vs = ?vs, r_cs = ?cs, r_ip = (f_chunk (callee s'), j + 1),
        r_locals = (v_buf ?vs, prev_locals_offset s), r_consts = prev_consts s\<rparr> (callee s') (j + 1) e"
      by (rule return_regs [OF fr [unfolded Cons], of ?cs]) (use cs ds(3) in auto)
    have "vm_inv D T st \<lparr>r_vs = ?vs, r_cs = ?cs, r_ip = (f_chunk (callee s'), j + 1),
        r_locals = (v_buf ?vs, prev_locals_offset s), r_consts = prev_consts s\<rparr>"
      unfolding vm_inv_def using A(1,4) ok at s Cons by (auto simp: stack_ok_def vm_inv_def)
    then show ?thesis
      using s ds(1,5) push j Cons func_shape_ok(1) [OF A(3)]
      by (cases r) (simp add: op_return_def advance_ip_def nat_add_distrib)
  qed
  then show ?thesis using op A(8) by (simp add: step_def Let_def)
qed

section \<open>Room on the stack\<close>

lemma grow_stack_yields:
  assumes "sz \<le> capacity" and "capacity < sz + n" and "16 * (sz + n) \<le> SIZE_MAX"
  shows "yields (grow_stack capacity sz n) (\<lambda>c. sz + n \<le> c)"
  using assms(1,2)
proof (induction "sz + n - capacity" arbitrary: capacity rule: less_induct)
  case less
  let ?c = "max 1 (2 * capacity)"
  have "8 * ?c \<le> SIZE_MAX" using less.prems assms(3) by (auto simp: max_def)
  then have "uu_x2realloc capacity 8 = Some ?c" using yields_uu_x2realloc [of 8 capacity] by (auto simp: yields_iff_ex)
  moreover have "yields (grow_stack ?c sz n) (\<lambda>c. sz + n \<le> c)" if "?c - sz < n"
    by (rule less.hyps) (use less.prems that in \<open>auto simp: max_def\<close>)
  moreover have "sz \<le> ?c" using less.prems by (auto simp: max_def)
  ultimately show ?case by (subst grow_stack.simps) auto
qed

lemma value_stack_ensure_yields:
  assumes "length (v_data vs) \<le> v_cap vs" and "16 * (length (v_data vs) + n) \<le> SIZE_MAX"
  shows "yields (value_stack_ensure vs n) (\<lambda>vs'. v_data vs' = v_data vs \<and> v_cap vs \<le> v_cap vs' \<and>
    length (v_data vs) + n \<le> v_cap vs')"
proof (cases "n \<le> v_cap vs - length (v_data vs)")
  case False
  have "yields (grow_stack (v_cap vs) (length (v_data vs)) n) (\<lambda>c. length (v_data vs) + n \<le> c)"
    by (rule grow_stack_yields) (use assms False in auto)
  then show ?thesis using False assms(1) by (auto simp: value_stack_ensure_def Let_def yields_iff_ex)
qed (use assms in \<open>auto simp: value_stack_ensure_def Let_def\<close>)

text \<open>With enough room the stack stays where it is.\<close>

lemma value_stack_ensure_stays:
  "length (v_data vs) + n \<le> v_cap vs \<Longrightarrow> value_stack_ensure vs n = Some vs"
  using le_diff_conv2 [of "length (v_data vs)" "v_cap vs" n] by (simp add: value_stack_ensure_def Let_def add.commute)

lemma call_stack_push_yields:
  assumes "length (c_sites cs) \<le> c_cap cs" and "64 * length (c_sites cs) + 32 \<le> SIZE_MAX"
  shows "yields (call_stack_push cs s) (\<lambda>cs'. c_sites cs' = s # c_sites cs \<and> length (c_sites cs') \<le> c_cap cs')"
proof (cases "length (c_sites cs) = c_cap cs")
  case True
  have "yields (uu_x2realloc (c_cap cs) 32) (\<lambda>n'. n' = max 1 (2 * c_cap cs))"
    by (rule yields_uu_x2realloc) (use assms(2) True in \<open>auto simp: max_def\<close>)
  then show ?thesis using True by (auto simp: call_stack_push_def yields_iff_ex)
qed (use assms(1) in \<open>simp add: call_stack_push_def\<close>)

lemma frames_ok_mono: "frames_ok T cap sites l \<Longrightarrow> cap \<le> cap' \<Longrightarrow> frames_ok T cap' sites l"
  by (induction T cap sites l rule: frames_ok.induct) auto

section \<open>Calls\<close>

text \<open>
  The stack of a call: above the \<open>k\<close> temporaries that stay, the function and its \<open>n\<close> arguments. It has not
  moved since the instruction began.
\<close>

definition ready :: "deci \<Rightarrow> vm_state \<Rightarrow> runtime_info \<Rightarrow> func \<Rightarrow> nat \<Rightarrow> value_stack \<Rightarrow> val \<Rightarrow> nat \<Rightarrow> bool" where
  "ready D st r f k vs fn n \<longleftrightarrow> v_cap vs = v_cap (r_vs r) \<and> v_buf vs = v_buf (r_vs r) \<and>
     (\<exists>ds args. v_data vs = ds @ fn # args \<and> length args = n \<and> length ds = snd (r_locals r) + nlocals (sh_of f) + k) \<and>
     (\<forall>v \<in> set (v_data vs). val_ok D (vm_heap st) v) \<and> length (v_data vs) \<le> v_cap vs"

lemma readyI:
  assumes "v_cap vs = v_cap (r_vs r)" and "v_buf vs = v_buf (r_vs r)" and "v_data vs = ds @ fn # args" and "length args = n"
    and "length ds = snd (r_locals r) + nlocals (sh_of f) + k" and "\<forall>v \<in> set (ds @ fn # args). val_ok D (vm_heap st) v"
    and "length (ds @ fn # args) \<le> v_cap vs"
  shows "ready D st r f k vs fn n"
  using assms unfolding ready_def by metis

lemma ready_top: "ready D st r f k vs fn n \<Longrightarrow> top_val (r\<lparr>r_vs := vs\<rparr>) n = fn"
  by (auto simp: ready_def top_val_def nth_append)

lemma ready_nth: "ready D st r f k vs fn n \<Longrightarrow> Suc n \<le> length (v_data vs) \<and> v_data vs ! (length (v_data vs) - n - 1) = fn"
  by (auto simp: ready_def nth_append)

lemma scatter_ready:
  assumes a: "at_instr D T st r f i d ins" and op: "opcode ins = OP_CALL"
    and still: "call_still st r (in_a ins \<noteq> 0) (unat (in_c ins))"
  shows "yields (scatter_args st r (in_a ins \<noteq> 0) (unat (in_c ins)))
    (\<lambda>res. case res of Inl m \<Rightarrow> True | Inr (r', n) \<Rightarrow>
      \<exists>vs fn. r' = r\<lparr>r_vs := vs\<rparr> \<and> ready D st r f (d - Suc (unat (in_c ins))) vs fn n)"
proof -
  let ?c = "unat (in_c ins)"
  note A = at_instrD [OF a]
  have e: "stack_effect ins = Some (Suc ?c, 1)" using op by simp
  obtain ds ts where ds: "v_data (r_vs r) = ds @ ts" "length ts = Suc ?c"
      "length ds = snd (r_locals r) + nlocals (sh_of f) + (d - Suc ?c)"
    and ok: "\<forall>v \<in> set ds. val_ok D (vm_heap st) v" "\<forall>v \<in> set ts. val_ok D (vm_heap st) v"
    by (rule stack_top [OF a at_effect(1) [OF a e]])
  then obtain fn args where ts: "ts = fn # args" "length args = ?c" by (auto simp: length_Suc_conv)
  have cap: "length (v_data (r_vs r)) \<le> v_cap (r_vs r)" using A(2) current_instr(3) [OF A(2,3)] by (simp add: regs_at_def)
  show ?thesis
  proof (cases "in_a ins = 0")
    case True
    have "ready D st r f (d - Suc ?c) (r_vs r) fn ?c"
      by (rule readyI [where ds = ds and args = args]) (use ds ts ok cap in auto)
    moreover have "r = r\<lparr>r_vs := r_vs r\<rparr>" by simp
    ultimately have "\<exists>vs fn. r = r\<lparr>r_vs := vs\<rparr> \<and> ready D st r f (d - Suc ?c) vs fn ?c" by blast
    then show ?thesis using True by (simp add: scatter_args_def)
  next
    case False
    then have "?c \<noteq> 0" using at_effect(3) [OF a e] op by simp
    with ts obtain as v where as: "args = as @ [v]" by (cases args rule: rev_cases) auto
    have pop: "vs_pop (r_vs r) = Some (v, (r_vs r)\<lparr>v_data := ds @ fn # as\<rparr>)"
      by (rule vs_pop_snoc) (simp add: ds(1) ts(1) as)
    show ?thesis
    proof (cases "\<exists>a. v = V_List a")
      case True
      then obtain a l where v: "v = V_List a" and l: "heap_list (vm_heap st) a = Some l" using ok(2) ts(1) as by auto
      let ?vs = "(r_vs r)\<lparr>v_data := (ds @ fn # as) @ l_data l\<rparr>"
      have len: "length (ds @ fn # as) + length (l_data l) \<le> v_cap (r_vs r)"
        using still False v l by (simp add: call_still_def top_val_def ds(1) ts(1) as)
      then have "value_stack_push_copies ((r_vs r)\<lparr>v_data := ds @ fn # as\<rparr>) (l_data l) = Some ?vs"
        by (simp add: value_stack_push_copies_def value_stack_ensure_stays)
      then have "scatter_args st r True ?c = Some (Inr (r\<lparr>r_vs := ?vs\<rparr>, length (as @ l_data l)))"
        using pop v l ts(2) as by (simp add: scatter_args_def do_call_scatter_def)
      moreover have "ready D st r f (d - Suc ?c) ?vs fn (length (as @ l_data l))"
        by (rule readyI [where ds = ds and args = "as @ l_data l"])
          (use ds(3) ok ts(1) as len heap_ok_list [OF heap_of [OF A(4)] l] in auto)
      ultimately show ?thesis using False by auto
    next
      case no_list: False
      then have "do_call_scatter st r = Some (Inl (''cannot scatter '' @ kind_name v @ '' value (expected list)''))"
        using pop by (cases v) (simp_all add: do_call_scatter_def)
      then show ?thesis using False by (simp add: scatter_args_def)
    qed
  qed
qed

text \<open>What the arguments are when the number of them has been checked.\<close>

lemma gather_ready:
  assumes st: "state_ok D T st" and rd: "ready D st r f k vs fn n" and g: "m \<le> n" and big: "8 * n \<le> SIZE_MAX"
    and room: "m = n \<longrightarrow> length (v_data vs) < v_cap vs"
  shows "yields (do_call_gather st (r\<lparr>r_vs := vs\<rparr>) (n - m)) (\<lambda>(st', r'). state_ok D T st' \<and> nglobals st' = nglobals st \<and>
    heap_le (vm_heap st) (vm_heap st') \<and> (\<exists>vs'. r' = r\<lparr>r_vs := vs'\<rparr> \<and> ready D st' r f k vs' fn (m + 1) \<and>
      length (v_data vs') \<le> length (v_data vs) + 1))"
proof -
  from rd obtain ds args where ds: "v_data vs = ds @ fn # args" "length args = n"
      "length ds = snd (r_locals r) + nlocals (sh_of f) + k" by (auto simp: ready_def)
  let ?l = "list_new_steal (drop m args)" and ?x = "O_List (list_new_steal (drop m args))"
  have ok: "\<forall>v \<in> set (v_data vs). val_ok D (vm_heap st) v" using rd by (simp add: ready_def)
  have x: "obj_ok D (func_ok D T (nglobals st)) (vm_heap st) ?x"
    using ok ds(1,2) big set_drop_subset [of m args] by (auto simp: list_good_def list_new_steal_def)
  let ?h = "vm_heap st @ [?x]" and ?vs = "vs\<lparr>v_data := ds @ fn # take m args @ [V_List (length (vm_heap st))]\<rparr>"
  have st': "state_ok D T (st\<lparr>vm_heap := ?h\<rparr>)"
    by (rule state_ok_heap [OF st heap_ok_append [OF heap_of [OF st] x] heap_le_append])
  have ens: "m = n \<Longrightarrow> value_stack_ensure vs (Suc 0) = Some vs"
    using room by (auto intro!: value_stack_ensure_stays)
  have len: "length (ds @ fn # take m args) < v_cap vs"
    using room g rd ds(1,2) by (cases "m = n") (auto simp: ready_def)
  have cut: "length (v_data vs) - (n - m) = length (ds @ fn # take m args)" using g ds(1,2) by simp
  have "do_call_gather st (r\<lparr>r_vs := vs\<rparr>) (n - m) = Some (st\<lparr>vm_heap := ?h\<rparr>, r\<lparr>r_vs := ?vs\<rparr>)"
    using ens len ds(2) g by (cases "m = n") (simp_all add: do_call_gather_def heap_alloc_def vs_push_def Let_def cut ds(1))
  moreover have "\<forall>v \<in> set (v_data ?vs). val_ok D ?h v"
    using ok ds(1) val_ok_mono [OF heap_le_append [of "vm_heap st" "[?x]"]] set_take_subset [of m args]
    by (auto simp: heap_list_def)
  then have "ready D (st\<lparr>vm_heap := ?h\<rparr>) r f k ?vs fn (m + 1)"
    using rd len ds(2,3) g
    by (intro readyI [where ds = ds and args = "take m args @ [V_List (length (vm_heap st))]"]) (auto simp: ready_def)
  ultimately show ?thesis using st' ds(1,2) g by (auto simp: heap_le_append)
qed

text \<open>The formal parameters of the function, filled from the arguments: at most its local variables.\<close>

lemma coerce_ready:
  assumes st: "state_ok D T st" and rd: "ready D st r f k vs fn n" and sh: "shape_ok sh" and big: "8 * n \<le> SIZE_MAX"
    and room: "sint (nargs_encoded sh) < 0 \<and> n = unat (NOT (nargs_encoded sh)) \<longrightarrow> length (v_data vs) < v_cap vs"
  shows "yields (do_call_coerce st (r\<lparr>r_vs := vs\<rparr>) (nargs_encoded sh) n) (\<lambda>res. case res of Inl m \<Rightarrow> True
    | Inr (st', r', n') \<Rightarrow> state_ok D T st' \<and> nglobals st' = nglobals st \<and> heap_le (vm_heap st) (vm_heap st') \<and>
        (\<exists>vs'. r' = r\<lparr>r_vs := vs'\<rparr> \<and> ready D st' r f k vs' fn n' \<and> n' \<le> nlocals sh \<and> length (v_data vs') \<le> length (v_data vs) + 1))"
proof (cases "0 \<le> sint (nargs_encoded sh)")
  case True
  show ?thesis
  proof (cases "n = unat (nargs_encoded sh)")
    case n: True
    have "\<exists>vs'. r\<lparr>r_vs := vs\<rparr> = r\<lparr>r_vs := vs'\<rparr> \<and> ready D st r f k vs' fn n \<and> n \<le> nlocals sh \<and>
        length (v_data vs') \<le> length (v_data vs) + 1"
      using rd sh True n by (intro exI [of _ vs]) (simp add: shape_ok_def)
    then show ?thesis using True n st by (simp add: do_call_coerce_def)
  qed (simp add: do_call_coerce_def True)
next
  case False
  let ?m = "unat (NOT (nargs_encoded sh))"
  have m: "?m + 1 \<le> nlocals sh" using sh False by (simp add: shape_ok_def)
  show ?thesis
  proof (cases "n < ?m")
    case n: False
    have "yields (do_call_gather st (r\<lparr>r_vs := vs\<rparr>) (n - ?m)) (\<lambda>(st', r'). state_ok D T st' \<and> nglobals st' = nglobals st \<and>
      heap_le (vm_heap st) (vm_heap st') \<and> (\<exists>vs'. r' = r\<lparr>r_vs := vs'\<rparr> \<and> ready D st' r f k vs' fn (?m + 1) \<and>
        length (v_data vs') \<le> length (v_data vs) + 1))"
      by (rule gather_ready [OF st rd _ big]) (use n room False in auto)
    then show ?thesis using False n m by (auto simp: do_call_coerce_def Let_def yields_iff_ex)
  qed (simp add: do_call_coerce_def False Let_def)
qed

text \<open>The frame of the function that is called.\<close>

lemma call_frame:
  assumes r: "regs_at T r f i d" and rd: "ready D st r f k vs fn n" and n: "n \<le> nlocals (sh_of g)"
    and g: "func_ok D T G g" and to: "at_depth (T (f_chunk f)) (int i + 1) (own f) (k + 1)"
    and vs': "v_data vs' = v_data vs @ replicate (nlocals (sh_of g) - n) V_Nil" "v_cap vs \<le> v_cap vs'"
      "length (v_data vs') + maxstack (sh_of g) \<le> v_cap vs'"
    and cs: "c_sites cs = \<lparr>call_ip = Some (r_ip r), callee = g, prev_consts = r_consts r,
        prev_locals_offset = snd (r_locals r)\<rparr> # c_sites (r_cs r)" "length (c_sites cs) \<le> c_cap cs"
  shows "regs_at T \<lparr>r_vs = vs', r_cs = cs, r_ip = (f_chunk g, f_ip g + 1),
    r_locals = (v_buf vs', length (v_data vs') - nlocals (sh_of g)), r_consts = constants (f_chunk g)\<rparr> g (f_ip g + 1) 0"
proof -
  from rd obtain ds args where ds: "v_data vs = ds @ fn # args" "length args = n"
      "length ds = snd (r_locals r) + nlocals (sh_of f) + k" and cap: "v_cap vs = v_cap (r_vs r)" by (auto simp: ready_def)
  obtain s sites where s: "c_sites (r_cs r) = s # sites" "callee s = f" by (rule regs_callee [OF r])
  have off: "length (v_data vs') - nlocals (sh_of g) = snd (r_locals r) + nlocals (sh_of f) + (k + 1)"
    and len: "length (v_data vs') = snd (r_locals r) + nlocals (sh_of f) + (k + 1) + nlocals (sh_of g)"
    using ds n by (simp_all add: vs'(1))
  have le: "v_cap (r_vs r) \<le> v_cap vs'" using vs'(2) cap by simp
  have "frames_ok T (v_cap vs') (c_sites (r_cs r)) (snd (r_locals r))"
    using r frames_ok_mono [OF _ le] unfolding regs_at_def by blast
  moreover have "snd (r_locals r) + nlocals (sh_of f) + maxstack (sh_of f) \<le> v_cap vs'"
    using r le by (simp add: regs_at_def)
  moreover have "r_ip r = (f_chunk f, i)" "r_consts r = constants (f_chunk f)" using r by (simp_all add: regs_at_def)
  ultimately have "frames_ok T (v_cap vs') (c_sites cs) (snd (r_locals r) + nlocals (sh_of f) + (k + 1))"
    using to by (simp add: cs(1) s)
  moreover have "at_depth (T (f_chunk g)) (int (f_ip g + 1)) (own g) 0" using g by (simp add: func_ok_def add.commute)
  ultimately show ?thesis using off len vs'(3) cs by (simp add: regs_at_def add.assoc)
qed

lemma do_call_func_inv:
  assumes a: "at_instr D T st r f i d ins" and st: "state_ok D T st'" and G: "nglobals st \<le> nglobals st'"
    and rd: "ready D st' r f k vs fn n" and g: "func_ok D T (nglobals st) g"
    and to: "at_depth (T (f_chunk f)) (int i + 1) (own f) (k + 1)"
    and room: "16 * (length (v_data vs) + maxstack (sh_of g) + nlocals (sh_of g) + 1) + 8 \<le> SIZE_MAX" "8 * n \<le> SIZE_MAX"
      "sint (nargs_encoded (sh_of g)) < 0 \<and> n = unat (NOT (nargs_encoded (sh_of g))) \<longrightarrow> length (v_data vs) < v_cap vs"
      "64 * length (c_sites (r_cs r)) + 32 \<le> SIZE_MAX"
  shows "yields (do_call_func st' (r\<lparr>r_vs := vs\<rparr>) g n) (\<lambda>(st'', res). case res of Inl m \<Rightarrow> state_ok D T st''
    | Inr r' \<Rightarrow> yields (do { r' \<leftarrow> advance_ip r' 1; Some (st'', Running r') }) (outcome_ok D T))"
proof -
  note A = at_instrD [OF a]
  note sh = func_shape_ok [OF g]
  have "yields (do_call_coerce st' (r\<lparr>r_vs := vs\<rparr>) (nargs_encoded (sh_of g)) n) (\<lambda>res. case res of Inl m \<Rightarrow> True
    | Inr (st2, r2, n2) \<Rightarrow> state_ok D T st2 \<and> nglobals st2 = nglobals st' \<and> heap_le (vm_heap st') (vm_heap st2) \<and>
        (\<exists>vs2. r2 = r\<lparr>r_vs := vs2\<rparr> \<and> ready D st2 r f k vs2 fn n2 \<and> n2 \<le> nlocals (sh_of g) \<and> length (v_data vs2) \<le> length (v_data vs) + 1))"
    by (rule coerce_ready [OF st rd sh(2) room(2,3)])
  then obtain res where res: "do_call_coerce st' (r\<lparr>r_vs := vs\<rparr>) (nargs_encoded (sh_of g)) n = Some res"
    and ok: "case res of Inl m \<Rightarrow> True
    | Inr (st2, r2, n2) \<Rightarrow> state_ok D T st2 \<and> nglobals st2 = nglobals st' \<and> heap_le (vm_heap st') (vm_heap st2) \<and>
        (\<exists>vs2. r2 = r\<lparr>r_vs := vs2\<rparr> \<and> ready D st2 r f k vs2 fn n2 \<and> n2 \<le> nlocals (sh_of g) \<and> length (v_data vs2) \<le> length (v_data vs) + 1)"
    by (auto simp: yields_iff_ex)
  show ?thesis
  proof (cases res)
    case (Inl m)
    then show ?thesis using res st by (simp add: do_call_func_def sh)
  next
    case (Inr p)
    then obtain st2 vs2 n2 where p: "res = Inr (st2, r\<lparr>r_vs := vs2\<rparr>, n2)" "state_ok D T st2" "nglobals st2 = nglobals st'"
        "ready D st2 r f k vs2 fn n2" "n2 \<le> nlocals (sh_of g)" "length (v_data vs2) \<le> length (v_data vs) + 1"
      using ok by (cases p) auto
    let ?nv = "nlocals (sh_of g) - n2"
    have nv: "nat ((int (nlocals (sh_of g)) - int n2) mod 2 ^ 32) = ?nv"
    proof -
      have "(int (nlocals (sh_of g)) - int n2) mod 2 ^ 32 = int (nlocals (sh_of g)) - int n2"
        by (rule mod_pos_pos_trivial) (use p(5) sh(2) in \<open>simp_all add: shape_ok_def\<close>)
      then show ?thesis by simp
    qed
    have buf: "v_buf vs2 = v_buf (r_vs r)" "length (v_data vs2) \<le> v_cap vs2" using p(4) by (simp_all add: ready_def)
    have "16 * (length (v_data vs2) + (maxstack (sh_of g) + ?nv)) \<le> SIZE_MAX" using room(1) p(6) by simp
    from value_stack_ensure_yields [OF buf(2) this]
    obtain vs3 where vs3: "value_stack_ensure vs2 (maxstack (sh_of g) + ?nv) = Some vs3" "v_data vs3 = v_data vs2"
        "v_cap vs2 \<le> v_cap vs3" "length (v_data vs2) + (maxstack (sh_of g) + ?nv) \<le> v_cap vs3"
      by (auto simp: yields_iff_ex)
    let ?site = "\<lparr>call_ip = Some (r_ip r), callee = g, prev_consts = r_consts r, prev_locals_offset = snd (r_locals r)\<rparr>"
    obtain cs where cs: "call_stack_push (r_cs r) ?site = Some cs" "c_sites cs = ?site # c_sites (r_cs r)"
        "length (c_sites cs) \<le> c_cap cs"
      using call_stack_push_yields [OF _ room(4), of ?site] A(2) by (auto simp: yields_iff_ex regs_at_def)
    let ?vs = "vs3\<lparr>v_data := v_data vs2 @ replicate ?nv V_Nil\<rparr>"
    have push: "pushn vs3 ?nv = Some ?vs" using vs3 by (simp add: pushn_def)
    have loc: "fst (r_locals r) = v_buf (r_vs r)" using A(2) by (simp add: regs_at_def)
    have nl: "nlocals (sh_of g) \<le> length (v_data ?vs)" using p(4,5) by (auto simp: ready_def)
    let ?r = "\<lparr>r_vs = ?vs, r_cs = cs, r_ip = (f_chunk g, f_ip g + 1),
      r_locals = (v_buf ?vs, length (v_data ?vs) - nlocals (sh_of g)), r_consts = constants (f_chunk g)\<rparr>"
    have "regs_at T ?r g (f_ip g + 1) 0"
      by (rule call_frame [OF A(2) p(4,5) g to]) (use vs3 cs in simp_all)
    moreover have "\<forall>s \<in> set (c_sites (r_cs r)). func_ok D T (nglobals st2) (callee s)"
      using A(1) func_ok_mono [OF _ G] p(3) by (auto simp: vm_inv_def)
    moreover have "\<forall>v \<in> set (v_data ?vs). val_ok D (vm_heap st2) v" using p(4) by (auto simp: ready_def)
    ultimately have "vm_inv D T st2 ?r"
      using p(2,3) cs(2) func_ok_mono [OF g] G by (auto simp: vm_inv_def stack_ok_def)
    moreover have "do_call_func st' (r\<lparr>r_vs := vs\<rparr>) g n = Some (st2, Inr (?r\<lparr>r_ip := (f_chunk g, f_ip g)\<rparr>))"
      using res p(1) nv vs3 cs(1) push loc buf(1) nl
      by (cases r) (simp add: do_call_func_def sh Let_def)
    ultimately show ?thesis by (simp add: advance_ip_def nat_add_distrib)
  qed
qed

lemma env_native:
  assumes "env_ok E T" and "e_native E g st args = Some (st', res)" and "state_ok (e_deci E) T st"
    and "\<forall>v \<in> set args. val_ok (e_deci E) (vm_heap st) v"
  shows "state_ok (e_deci E) T st'" and "heap_le (vm_heap st) (vm_heap st')" and "nglobals st \<le> nglobals st'"
    and "result_ok (e_deci E) (vm_heap st') res"
  using assms unfolding env_ok_def by blast+

lemma do_call_native_inv:
  assumes a: "at_instr D T st r f i d ins" and E: "env_ok E T" and D: "D = e_deci E"
    and rd: "ready D st r f k vs fn n" and max: "k + 1 \<le> maxstack (sh_of f)"
    and to: "at_depth (T (f_chunk f)) (int i + 1) (own f) (k + 1)"
    and ret: "e_native E g st (native_args n (v_data vs)) \<noteq> None"
  shows "yields (do_call_native E st (r\<lparr>r_vs := vs\<rparr>) g n) (\<lambda>(st', res). case res of Inl m \<Rightarrow> state_ok D T st'
    | Inr r' \<Rightarrow> yields (do { r' \<leftarrow> advance_ip r' 1; Some (st', Running r') }) (outcome_ok D T))"
proof -
  note A = at_instrD [OF a]
  from rd obtain ds args where ds: "v_data vs = ds @ fn # args" "length args = n"
      "length ds = snd (r_locals r) + nlocals (sh_of f) + k" and cap: "v_cap vs = v_cap (r_vs r)" "v_buf vs = v_buf (r_vs r)"
    and ok: "\<forall>v \<in> set (v_data vs). val_ok D (vm_heap st) v" by (auto simp: ready_def)
  from ret obtain st' res where nat: "e_native E g st (native_args n (v_data vs)) = Some (st', res)" by auto
  have "\<forall>v \<in> set (native_args n (v_data vs)). val_ok D (vm_heap st) v"
    by (rule ballI, rule bspec [OF ok], rule subsetD [OF native_args_subset])
  then have st': "state_ok D T st'" "heap_le (vm_heap st) (vm_heap st')" "nglobals st \<le> nglobals st'"
      "result_ok D (vm_heap st') res"
    using env_native [OF E nat] A(4) by (simp_all add: D)
  show ?thesis
  proof (cases res)
    case (Inl m)
    then show ?thesis using nat st'(1) ds by (simp add: do_call_native_def)
  next
    case (Inr v)
    let ?vs = "vs\<lparr>v_data := ds @ [v]\<rparr>"
    have pop: "popn vs (Suc n) = Some (vs\<lparr>v_data := ds\<rparr>)" using ds(1,2) by (simp add: popn_def)
    have "length ds < v_cap vs" using A(2) ds(3) max cap by (simp add: regs_at_def)
    then have push: "vs_push (vs\<lparr>v_data := ds\<rparr>) v = Some ?vs" by (simp add: vs_push_def)
    have "yields (do { r' \<leftarrow> advance_ip (r\<lparr>r_vs := ?vs\<rparr>) 1; Some (st', Running r') }) (outcome_ok D T)"
      by (rule advance_inv [OF A(1,2) st'(1,3) _ _ _ _ to])
        (use cap ok ds(1,3) st'(4) Inr val_ok_mono [OF st'(2)] in auto)
    then show ?thesis using nat Inr ds pop push by (simp add: do_call_native_def)
  qed
qed

lemma do_call_inv:
  assumes a: "at_instr D T st r f i d ins" and E: "env_ok E T" and D: "D = e_deci E" and op: "opcode ins = OP_CALL"
    and room: "call_room E st r (in_a ins \<noteq> 0) (unat (in_c ins))"
    and still: "call_still st r (in_a ins \<noteq> 0) (unat (in_c ins))"
  shows "yields (do_call E st r (in_a ins \<noteq> 0) (unat (in_c ins))) (\<lambda>(st', res). case res of Inl m \<Rightarrow> state_ok D T st'
    | Inr r' \<Rightarrow> yields (do { r' \<leftarrow> advance_ip r' 1; Some (st', Running r') }) (outcome_ok D T))"
proof -
  note A = at_instrD [OF a]
  let ?k = "d - Suc (unat (in_c ins))"
  have e: "stack_effect ins = Some (Suc (unat (in_c ins)), 1)" using op by simp
  have to: "at_depth (T (f_chunk f)) (int i + 1) (own f) (?k + 1)" and max: "?k + 1 \<le> maxstack (sh_of f)"
    using at_effect(2,4) [OF a e] op by simp_all
  obtain res where res: "scatter_args st r (in_a ins \<noteq> 0) (unat (in_c ins)) = Some res"
    and ok: "case res of Inl m \<Rightarrow> True | Inr (r', n) \<Rightarrow> \<exists>vs fn. r' = r\<lparr>r_vs := vs\<rparr> \<and> ready D st r f ?k vs fn n"
    using scatter_ready [OF a op still] by (auto simp: yields_iff_ex)
  show ?thesis
  proof (cases res)
    case (Inl m)
    then show ?thesis using res A(4) by (simp add: do_call_def)
  next
    case (Inr p)
    then obtain vs fn n where p: "res = Inr (r\<lparr>r_vs := vs\<rparr>, n)" and rd: "ready D st r f ?k vs fn n"
      using ok by (cases p) auto
    note top = ready_top [OF rd] and nth = ready_nth [OF rd]
    have rooms: "64 * length (c_sites (r_cs r)) + 32 \<le> SIZE_MAX"
      "case fn of V_Func a \<Rightarrow> (\<forall>f. heap_func (vm_heap st) a = Some f \<longrightarrow>
             16 * (length (v_data vs) + maxstack (sh_of f) + nlocals (sh_of f) + 1) + 8 \<le> SIZE_MAX \<and> 8 * n \<le> SIZE_MAX)
         | V_CFunc g \<Rightarrow> e_native E g st (native_args n (v_data vs)) \<noteq> None
         | _ \<Rightarrow> True"
      using room res [unfolded p] top by (simp_all add: call_room_def cong: val.case_cong)
    have stays: "length (v_data vs) < v_cap vs"
      if "fn = V_Func b" "heap_func (vm_heap st) b = Some g" "sint (nargs_encoded (sh_of g)) < 0"
        "n = unat (NOT (nargs_encoded (sh_of g)))" for b g
      using still res [unfolded p] top that by (simp add: call_still_def)
    show ?thesis
    proof (cases "(\<exists>a. fn = V_Func a) \<or> (\<exists>g. fn = V_CFunc g)")
      case True
      then show ?thesis
      proof (elim disjE exE)
        fix a'
        assume fn: "fn = V_Func a'"
        have "val_ok D (vm_heap st) fn" using rd by (auto simp: ready_def)
        then obtain g where g: "heap_func (vm_heap st) a' = Some g" by (auto simp: fn)
        have gok: "func_ok D T (nglobals st) g" using heap_ok_func [OF heap_of [OF A(4)] g] .
        have "yields (do_call_func st (r\<lparr>r_vs := vs\<rparr>) g n) (\<lambda>(st', res). case res of Inl m \<Rightarrow> state_ok D T st'
          | Inr r' \<Rightarrow> yields (do { r' \<leftarrow> advance_ip r' 1; Some (st', Running r') }) (outcome_ok D T))"
          by (rule do_call_func_inv [OF a A(4) le_refl rd gok to]) (use rooms stays fn g in auto)
        then show ?thesis using res p nth fn g by (simp add: do_call_def Let_def)
      next
        fix g
        assume fn: "fn = V_CFunc g"
        have "yields (do_call_native E st (r\<lparr>r_vs := vs\<rparr>) g n) (\<lambda>(st', res). case res of Inl m \<Rightarrow> state_ok D T st'
          | Inr r' \<Rightarrow> yields (do { r' \<leftarrow> advance_ip r' 1; Some (st', Running r') }) (outcome_ok D T))"
          by (rule do_call_native_inv [OF a E D rd max to]) (use rooms fn in simp)
        then show ?thesis using res p nth fn by (simp add: do_call_def Let_def)
      qed
    next
      case False
      then show ?thesis using res p nth A(4) by (cases fn) (simp_all add: do_call_def Let_def)
    qed
  qed
qed

lemma step_call:
  assumes a: "at_instr D T st r f i d ins" and E: "env_ok E T" and D: "D = e_deci E" and room: "step_room E st r ins"
    and still: "step_still st r ins" and op: "opcode ins = OP_CALL"
  shows "yields (step E st r) (outcome_ok D T)"
proof -
  have "call_room E st r (in_a ins \<noteq> 0) (unat (in_c ins))" "call_still st r (in_a ins \<noteq> 0) (unat (in_c ins))"
    using room still op by (simp_all add: step_room_def step_still_def Let_def)
  from yieldsE [OF do_call_inv [OF a E D op this]]
  obtain st' res where res: "do_call E st r (in_a ins \<noteq> 0) (unat (in_c ins)) = Some (st', res)"
    and ok: "case res of Inl m \<Rightarrow> state_ok D T st'
      | Inr r' \<Rightarrow> yields (do { r' \<leftarrow> advance_ip r' 1; Some (st', Running r') }) (outcome_ok D T)"
    by (metis (no_types, lifting) case_prodE)
  have "yields (op_call E st r (in_a ins \<noteq> 0) (unat (in_c ins))) (outcome_ok D T)"
    using res ok by (cases res) (simp_all add: op_call_def)
  then show ?thesis using op at_instrD(8) [OF a] by (simp add: step_def Let_def)
qed

section \<open>Every instruction\<close>

lemma step_ok:
  assumes inv: "vm_inv D T st r" and E: "env_ok E T" and D: "D = e_deci E"
    and room: "\<And>ins. fetch (fst (r_ip r)) (snd (r_ip r)) = Some ins \<Longrightarrow> step_room E st r ins"
    and still: "\<And>ins. fetch (fst (r_ip r)) (snd (r_ip r)) = Some ins \<Longrightarrow> step_still st r ins"
  shows "yields (step E st r) (outcome_ok D T)"
proof -
  obtain f i d where reg: "regs_at T r f i d" "func_ok D T (nglobals st) f" "state_ok D T st" "stack_ok D st r"
    by (rule vm_invE [OF inv])
  define ins where "ins = code (f_chunk f) ! i"
  have a: "at_instr D T st r f i d ins" using inv reg by (simp add: at_instr_def ins_def)
  have rm: "step_room E st r ins" using room at_instrD(8) [OF a] .
  have stl: "step_still st r ins" using still at_instrD(8) [OF a] .
  have "stack_effect ins \<noteq> None"
    using at_instrD(6) [OF a] unfolding instr_ok_def at_instrD(7) [OF a] Let_def by (cases "stack_effect ins") simp_all
  then consider "opcode ins \<in> {OP_LOAD_CONST, OP_LOAD_LOCAL, OP_LOAD_AT, OP_AOP, OP_CMP_2WAY, OP_CMP_3WAY, OP_NEG, OP_NOT, OP_LEN,
      OP_JUMP, OP_JUMP_UNLESS}"
    | "opcode ins \<in> {OP_LOAD_GLOBAL, OP_STORE_LOCAL, OP_STORE_GLOBAL, OP_MODIFY_LOCAL, OP_MODIFY_GLOBAL, OP_PRINT}"
    | "opcode ins = OP_STORE_AT \<or> opcode ins = OP_MODIFY_AT" | "opcode ins = OP_RETURN" | "opcode ins = OP_CALL"
    | "opcode ins = OP_FUNCTION" | "opcode ins = OP_LIST" | "opcode ins = OP_DICT"
    by (cases "opcode ins") simp_all
  then show ?thesis
    by cases (use step_compute [OF a E D rm] step_variable [OF a E D rm] step_at [OF a E D rm] step_return [OF a]
      step_call [OF a E D rm stl] step_function [OF a] step_list [OF a] step_dict [OF a rm] in blast)+
qed

end
