(* ===== verification/Vm_Runs.thy ===== *)
theory Vm_Runs
  imports Vm_Calls
begin

text \<open>
  Runs of the machine: evaluation starts in the invariant, every state that is reached keeps it, and what
  calls and returns do with the frames.
\<close>

section \<open>The start\<close>

lemma state_new_ok:
  assumes "deci_ok D"
  shows "yields (state_new D) (\<lambda>st. state_ok D T st \<and> vm_heap st = [] \<and> nglobals st = 0)"
  unfolding state_new_def
  by (rule yields_bindI [OF globals_new_yields])
    (use ntp_from_prec_ok [OF assms, of 20] in \<open>auto simp: state_ok_def heap_ok_def\<close>)

lemma eval_start_ok:
  assumes st: "state_ok D T st" and f: "heap_func (vm_heap st) a = Some f"
    and room: "16 * (maxstack (sh_of f) + nlocals (sh_of f) + 1) \<le> SIZE_MAX"
  shows "yields (eval_start f a) (\<lambda>res. case res of Inl m \<Rightarrow> nargs_encoded (sh_of f) \<noteq> 0 | Inr r \<Rightarrow>
    vm_inv D T st r \<and> r_ip r = (f_chunk f, f_ip f + 1) \<and> v_data (r_vs r) = V_Func a # replicate (nlocals (sh_of f)) V_Nil \<and>
    (\<exists>s. c_sites (r_cs r) = [s] \<and> call_ip s = None \<and> callee s = f))"
proof -
  have g: "func_ok D T (nglobals st) f" using heap_ok_func [OF heap_of [OF st] f] .
  note sh = func_shape_ok [OF g]
  let ?n = "maxstack (sh_of f) + nlocals (sh_of f) + 1"
  have "yields (value_stack_ensure \<lparr>v_data = [], v_cap = 0, v_buf = 0\<rparr> ?n) (\<lambda>vs'. v_data vs' = [] \<and> ?n \<le> v_cap vs')"
    by (rule yields_conseq, rule value_stack_ensure_yields) (use room in simp_all)
  then obtain vs where vs: "value_stack_ensure \<lparr>v_data = [], v_cap = 0, v_buf = 0\<rparr> ?n = Some vs" "v_data vs = []" "?n \<le> v_cap vs"
    by (auto simp: yields_iff_ex)
  let ?s = "\<lparr>call_ip = None, callee = f, prev_consts = [], prev_locals_offset = SIZE_MAX\<rparr>"
  let ?cs = "\<lparr>c_sites = [?s], c_cap = 1\<rparr>" and ?vs = "vs\<lparr>v_data := V_Func a # replicate (nlocals (sh_of f)) V_Nil\<rparr>"
  have push: "vs_push vs (V_Func a) = Some (vs\<lparr>v_data := [V_Func a]\<rparr>)"
    "pushn (vs\<lparr>v_data := [V_Func a]\<rparr>) (nlocals (sh_of f)) = Some ?vs"
    using vs(2,3) by (simp_all add: vs_push_def pushn_def)
  let ?r = "\<lparr>r_vs = ?vs, r_cs = ?cs, r_ip = (f_chunk f, f_ip f + 1), r_locals = (v_buf ?vs, 1), r_consts = constants (f_chunk f)\<rparr>"
  have start: "eval_start f a = Some (if nargs_encoded (sh_of f) \<noteq> 0
      then Inl ''You are not supposed to call functions with args this way! >_~'' else Inr ?r)"
    using vs(1) push by (simp add: eval_start_def scratch_pad_new_def value_stack_new_def call_stack_new_def uu_xrealloc_def
      setup_for_eval_def sh call_stack_push_def Let_def SIZE_MAX_def)
  have "at_depth (T (f_chunk f)) (int (f_ip f + 1)) (own f) 0" using g by (simp add: func_ok_def add.commute)
  then have "regs_at T ?r f (f_ip f + 1) 0" using vs(3) by (simp add: regs_at_def)
  then have "vm_inv D T st ?r" using st g f by (auto simp: vm_inv_def stack_ok_def)
  then show ?thesis by (simp add: start)
qed

section \<open>Every state that is reached\<close>

text \<open>There is memory for the next instruction, and a native function that it calls returns.\<close>

definition roomy :: "env \<Rightarrow> vm_state \<times> runtime_info \<Rightarrow> bool" where
  "roomy E = (\<lambda>(st, r). case fetch (fst (r_ip r)) (snd (r_ip r)) of None \<Rightarrow> True | Some ins \<Rightarrow> step_room E st r ins)"

text \<open>It is not a call that moves the stack while it scatters or gathers its arguments.\<close>

definition still :: "vm_state \<times> runtime_info \<Rightarrow> bool" where
  "still = (\<lambda>(st, r). case fetch (fst (r_ip r)) (snd (r_ip r)) of None \<Rightarrow> True | Some ins \<Rightarrow> step_still st r ins)"

text \<open>
  \<open>run E c c'\<close>: instructions take the machine from \<open>c\<close> to \<open>c'\<close>. For each of them there is memory, the native function
  that it calls returns, and it does not move the stack while it scatters or gathers arguments.
\<close>

inductive run :: "env \<Rightarrow> vm_state \<times> runtime_info \<Rightarrow> vm_state \<times> runtime_info \<Rightarrow> bool" for E where
  run_refl: "run E c c"
| run_step: "run E c (st, r) \<Longrightarrow> roomy E (st, r) \<Longrightarrow> still (st, r) \<Longrightarrow> step E st r = Some (st', Running r') \<Longrightarrow> run E c (st', r')"

lemma step_roomy:
  assumes "vm_inv (e_deci E) T st r" and "env_ok E T" and "roomy E (st, r)" and "still (st, r)"
  shows "yields (step E st r) (outcome_ok (e_deci E) T)"
  by (rule step_ok [OF assms(1,2) refl]) (use assms(3,4) in \<open>simp_all add: roomy_def still_def\<close>)

lemma run_inv:
  assumes "run E c c'" and "vm_inv (e_deci E) T (fst c) (snd c)" and E: "env_ok E T"
  shows "vm_inv (e_deci E) T (fst c') (snd c')"
  using assms(1,2)
proof (induction rule: run.induct)
  case (run_step c st r st' r')
  then have "vm_inv (e_deci E) T st r" by simp
  from step_roomy [OF this E run_step.hyps(2,3)] run_step.hyps(4) show ?case by simp
qed simp

text \<open>What the invariant says of the registers, without the verifier's annotation.\<close>

definition in_bounds :: "runtime_info \<Rightarrow> bool" where
  "in_bounds r \<longleftrightarrow> length (v_data (r_vs r)) \<le> v_cap (r_vs r) \<and> fst (r_locals r) = v_buf (r_vs r) \<and>
     1 \<le> snd (r_locals r) \<and> snd (r_locals r) \<le> length (v_data (r_vs r)) \<and>
     fetch (fst (r_ip r)) (snd (r_ip r)) \<noteq> None \<and> c_sites (r_cs r) \<noteq> [] \<and> length (c_sites (r_cs r)) \<le> c_cap (r_cs r)"

lemma vm_inv_in_bounds:
  assumes "vm_inv D T st r"
  shows "in_bounds r"
proof -
  obtain f i d where r: "regs_at T r f i d" "func_ok D T (nglobals st) f" by (rule vm_invE [OF assms])
  have "frames_ok T (v_cap (r_vs r)) (c_sites (r_cs r)) (snd (r_locals r))" using r(1) by (simp add: regs_at_def)
  then show ?thesis
    using r(1) current_instr(1,3) [OF r] frames_ok_pos by (auto simp: in_bounds_def regs_at_def)
qed

section \<open>A program\<close>

text \<open>\<open>return (fun(x) return x)(true)\<close> as the compiler lays it out, with its annotation.\<close>

definition ins_of :: "opcode \<Rightarrow> nat \<Rightarrow> 32 word \<Rightarrow> instr" where
  "ins_of op a c = \<lparr>opcode = op, in_a = a, in_b = 0, in_c = c\<rparr>"

definition sample_chunk :: chunk where
  "sample_chunk = \<lparr>code = [ins_of OP_FUNCTION 0 0, ins_of OP_FUNCTION 0 1, ins_of OP_LOAD_LOCAL 0 0, ins_of OP_RETURN 0 0,
      ins_of OP_LOAD_CONST 0 0, ins_of OP_CALL 0 1, ins_of OP_RETURN 0 0],
    constants = [V_Flag True], quarks = [],
    shapes = [\<lparr>nargs_encoded = 0, nlocals = 0, sh_offset = 7, maxstack = 2\<rparr>,
      \<lparr>nargs_encoded = 1, nlocals = 1, sh_offset = 3, maxstack = 1\<rparr>],
    origin = ''sample'', source = []\<rparr>"

definition sample_types :: "chunk \<Rightarrow> annotation" where
  "sample_types C = [None, Some (0, 0), Some (1, 0), Some (1, 1), Some (0, 1), Some (0, 2), Some (0, 1)]"

definition sample_env :: env where
  "sample_env = \<lparr>e_deci = deci_ref, e_same = (\<lambda>w v. False), e_addr = (\<lambda>v. ''0x0''), e_native = (\<lambda>f st args. None)\<rparr>"

lemma sample_env_ok: "env_ok sample_env T" "e_deci sample_env = deci_ref"
  by (simp_all add: env_ok_def sample_env_def deci_ref_ok)

lemma sample_typed: "typed deci_ref G sample_chunk (sample_types sample_chunk)"
proof -
  define A where "A = sample_types sample_chunk"
  have A: "A = [None, Some (0, 0), Some (1, 0), Some (1, 1), Some (0, 1), Some (0, 2), Some (0, 1)]"
    by (simp add: A_def sample_types_def)
  have "instr_ok G sample_chunk A i c d" if "i < 7" "A ! i = Some (c, d)" for i c d
  proof -
    from that(1) consider "i = 0" | "i = 1" | "i = 2" | "i = 3" | "i = 4" | "i = 5" | "i = 6" by linarith
    then show ?thesis
      by cases (use that(2) in \<open>auto simp: A instr_ok_def sample_chunk_def ins_of_def at_depth_def shape_ok_def\<close>)
  qed
  moreover have "c < 2 \<and> shape_ok (shapes sample_chunk ! c) \<and> d \<le> maxstack (shapes sample_chunk ! c)"
    if "i < 7" "A ! i = Some (c, d)" for i c d
  proof -
    from that(1) consider "i = 0" | "i = 1" | "i = 2" | "i = 3" | "i = 4" | "i = 5" | "i = 6" by linarith
    then show ?thesis
      by cases (use that(2) in \<open>auto simp: A sample_chunk_def shape_ok_def\<close>)
  qed
  moreover have "length A = 7" "length (code sample_chunk) = 7" "length (shapes sample_chunk) = 2" "constants sample_chunk = [V_Flag True]"
    by (simp_all add: sample_chunk_def A)
  ultimately have "typed deci_ref G sample_chunk A" unfolding typed_def by (auto split: option.split)
  then show ?thesis by (simp add: A_def)
qed

text \<open>The function of the program, and the one inside it.\<close>

lemma sample_func_ok:
  "func_ok deci_ref sample_types G \<lparr>f_chunk = sample_chunk, f_ip = 0\<rparr>"
  "func_ok deci_ref sample_types G \<lparr>f_chunk = sample_chunk, f_ip = 1\<rparr>"
  using sample_typed
  by (simp_all add: func_ok_def sample_types_def own_def sh_of_def at_depth_def shape_ok_def)
    (simp_all add: sample_chunk_def ins_of_def shape_ok_def)

definition sample_func :: func where
  "sample_func = \<lparr>f_chunk = sample_chunk, f_ip = 0\<rparr>"

text \<open>A machine whose heap holds the function.\<close>

definition sample_state :: "vm_state" where
  "sample_state = \<lparr>vm_globals = the globals_new, vm_heap = [O_Func sample_func], vm_ntp = ntp_from_prec deci_ref 20, vm_out = [], vm_reads = 0\<rparr>"

lemma sample_state_ok: "state_ok deci_ref sample_types sample_state" "heap_func (vm_heap sample_state) 0 = Some sample_func"
proof -
  have "globals_ok (the globals_new :: val globals)" "g_data (the globals_new :: val globals) = []"
    using globals_new_yields [where ?'a = val] unfolding yields_iff_ex by (metis option.sel)+
  then show "state_ok deci_ref sample_types sample_state"
    using ntp_from_prec_ok [OF deci_ref_ok, of 20] sample_func_ok
    by (auto simp: state_ok_def sample_state_def heap_ok_def sample_func_def)
qed (simp add: sample_state_def heap_func_def)

lemma sample_shape: "sh_of sample_func = \<lparr>nargs_encoded = 0, nlocals = 0, sh_offset = 7, maxstack = 2\<rparr>"
  by (simp add: sample_func_def sh_of_def own_def sample_chunk_def ins_of_def)

text \<open>From the start of a function on.\<close>

lemma machine_runs:
  assumes "state_ok (e_deci E) T st" and "env_ok E T" and "heap_func (vm_heap st) a = Some f"
    and "16 * (maxstack (sh_of f) + nlocals (sh_of f) + 1) \<le> SIZE_MAX" and "nargs_encoded (sh_of f) = 0"
  shows "yields (eval_start f a) (\<lambda>res. \<exists>r. res = Inr r \<and> (\<forall>st' r'. run E (st, r) (st', r') \<longrightarrow> in_bounds r' \<and>
    (roomy E (st', r') \<and> still (st', r') \<longrightarrow> yields (step E st' r') (\<lambda>(st'', out). state_ok (e_deci E) T st'' \<and>
       (case out of Running r'' \<Rightarrow> in_bounds r'' | Done v \<Rightarrow> val_ok (e_deci E) (vm_heap st'') v | Thrown m \<Rightarrow> True)))))"
proof -
  obtain res where res: "eval_start f a = Some res" "case res of Inl m \<Rightarrow> nargs_encoded (sh_of f) \<noteq> 0 | Inr r \<Rightarrow>
    vm_inv (e_deci E) T st r \<and> r_ip r = (f_chunk f, f_ip f + 1) \<and> v_data (r_vs r) = V_Func a # replicate (nlocals (sh_of f)) V_Nil \<and>
    (\<exists>s. c_sites (r_cs r) = [s] \<and> call_ip s = None \<and> callee s = f)"
    by (rule yieldsE [OF eval_start_ok [OF assms(1,3,4)]])
  then obtain r where r: "eval_start f a = Some (Inr r)" "vm_inv (e_deci E) T st r"
    using assms(5) by (cases res) auto
  have "in_bounds r' \<and> (roomy E (st', r') \<and> still (st', r') \<longrightarrow> yields (step E st' r') (\<lambda>(st'', out). state_ok (e_deci E) T st'' \<and>
       (case out of Running r'' \<Rightarrow> in_bounds r'' | Done v \<Rightarrow> val_ok (e_deci E) (vm_heap st'') v | Thrown m \<Rightarrow> True)))"
    if "run E (st, r) (st', r')" for st' r'
  proof -
    have inv: "vm_inv (e_deci E) T st' r'" using run_inv [OF that _ assms(2)] r(2) by simp
    have "yields (step E st' r') (outcome_ok (e_deci E) T)" if "roomy E (st', r')" "still (st', r')"
      by (rule step_roomy [OF inv assms(2) that])
    then show ?thesis
      using vm_inv_in_bounds [OF inv] vm_inv_in_bounds [of "e_deci E" T]
      by (auto simp: outcome_ok_def elim!: yields_conseq split: outcome.splits)
  qed
  with r(1) show ?thesis by simp
qed

section \<open>Properties\<close>

text \<open>
  C34: The machine needs no checks on its stacks, but one. Starting from a function of code that the verifier
  accepts, consider the states that are reached by instructions for which there is memory and whose native functions
  return (\<open>roomy\<close>), and that do not move the value stack while they scatter or gather the arguments of a call (\<open>still\<close>;
  the code does not check this, and then uses a stale pointer). In all of them the value stack is within its
  capacity, \<open>locals\<close> points into it, and the instruction pointer is in the code; and if the next instruction is
  \<open>roomy\<close> and \<open>still\<close>, too, it is executed, and it returns a value, throws, or goes on in such a state: there is no
  pop of an empty stack, no push past the capacity, no access to a missing constant, local variable or global
  variable, and no jump out of the code.
\<close>

theorem machine_safe:
  assumes "state_ok (e_deci E) T st" and "env_ok E T" and "heap_func (vm_heap st) a = Some f"
    and "16 * (maxstack (sh_of f) + nlocals (sh_of f) + 1) \<le> SIZE_MAX" and "nargs_encoded (sh_of f) = 0"
  shows "yields (eval_start f a) (\<lambda>res. \<exists>r. res = Inr r \<and> (\<forall>st' r'. run E (st, r) (st', r') \<longrightarrow> in_bounds r' \<and>
    (roomy E (st', r') \<and> still (st', r') \<longrightarrow> yields (step E st' r') (\<lambda>(st'', out). state_ok (e_deci E) T st'' \<and>
       (case out of Running r'' \<Rightarrow> in_bounds r'' | Done v \<Rightarrow> val_ok (e_deci E) (vm_heap st'') v | Thrown m \<Rightarrow> True)))))"
  by (rule machine_runs [OF assms])

theorem machine_safe_witness:
  "yields (eval_start sample_func 0) (\<lambda>res. \<exists>r. res = Inr r \<and>
    (\<forall>st' r'. run sample_env (sample_state, r) (st', r') \<longrightarrow> in_bounds r'))"
  using machine_safe [where E = sample_env and T = sample_types and st = sample_state and a = 0 and f = sample_func] sample_state_ok sample_env_ok(2) sample_env_ok(1) [of sample_types]
  by (auto simp: sample_shape SIZE_MAX_def elim!: yields_conseq)

text \<open>
  C36: A call that moves the stack while it scatters its arguments uses a pointer into the old stack. When the
  list does not fit in the capacity, the stack is moved, but \<open>locals\<close> is not: for a function of the machine
  \<open>cur_locals_offset\<close> is then the difference of pointers into two buffers, which has no value.
\<close>

theorem scatter_leaves_locals_behind:
  assumes ds: "v_data (r_vs r) = ds @ V_Func b # args @ [V_List a]" and loc: "fst (r_locals r) = v_buf (r_vs r)"
    and cap: "length (v_data (r_vs r)) \<le> v_cap (r_vs r)"
    and l: "heap_list (vm_heap st) a = Some l" and g: "heap_func (vm_heap st) b = Some g" "func_shape g = Some sh"
    and n: "0 \<le> sint (nargs_encoded sh)" "unat (nargs_encoded sh) = length args + length (l_data l)"
    and full: "v_cap (r_vs r) < length (v_data (r_vs r)) - 1 + length (l_data l)"
    and room: "16 * (length (v_data (r_vs r)) + length (l_data l)) \<le> SIZE_MAX"
  shows "yields (do_call_scatter st r) (\<lambda>res. \<exists>r'. res = Inr (r', length (l_data l)) \<and> fst (r_locals r') \<noteq> v_buf (r_vs r') \<and>
      length (v_data (r_vs r')) \<le> v_cap (r_vs r')) \<and> do_call E st r True (length args + 1) = None"
proof -
  let ?ds = "ds @ V_Func b # args"
  have pop: "vs_pop (r_vs r) = Some (V_List a, (r_vs r)\<lparr>v_data := ?ds\<rparr>)" by (rule vs_pop_snoc) (simp add: ds)
  obtain c where c: "grow_stack (v_cap (r_vs r)) (length ?ds) (length (l_data l)) = Some c" "length ?ds + length (l_data l) \<le> c"
    using yieldsE [OF grow_stack_yields [of "length ?ds" "v_cap (r_vs r)" "length (l_data l)"]] cap full room ds by auto
  let ?vs = "(r_vs r)\<lparr>v_data := ?ds @ l_data l, v_cap := c, v_buf := v_buf (r_vs r) + 1\<rparr>"
  have "\<not> length (l_data l) \<le> v_cap (r_vs r) - length ?ds" using full cap ds by simp
  then have "value_stack_push_copies ((r_vs r)\<lparr>v_data := ?ds\<rparr>) (l_data l) = Some ?vs"
    using c(1) by (cases "r_vs r") (simp add: value_stack_push_copies_def value_stack_ensure_def Let_def)
  then have scatter: "do_call_scatter st r = Some (Inr (r\<lparr>r_vs := ?vs\<rparr>, length (l_data l)))"
    using pop l by (simp add: do_call_scatter_def)
  have nth: "(?ds @ l_data l) ! (length (?ds @ l_data l) - (length args + length (l_data l)) - 1) = V_Func b"
    by (simp add: nth_append)
  have "do_call_func st (r\<lparr>r_vs := ?vs\<rparr>) g (length args + length (l_data l)) = None"
    using g(2) n loc by (simp add: do_call_func_def do_call_coerce_def)
  then have "do_call E st r True (length args + 1) = None"
    using scatter nth g(1) by (simp add: do_call_def scatter_args_def Let_def)
  then show ?thesis using scatter loc c(2) by simp
qed

theorem scatter_leaves_locals_behind_witness:
  "let f = \<lparr>f_chunk = sample_chunk\<lparr>shapes := [\<lparr>nargs_encoded = 2, nlocals = 2, sh_offset = 7, maxstack = 1\<rparr>]\<rparr>, f_ip = 0\<rparr>;
       l = \<lparr>l_data = [V_Nil, V_Nil], l_capacity = 2\<rparr>; st = sample_state\<lparr>vm_heap := [O_Func f, O_List l]\<rparr>;
       r = \<lparr>r_vs = \<lparr>v_data = [V_Func 0, V_List 1], v_cap = 2, v_buf = 0\<rparr>, r_cs = \<lparr>c_sites = [], c_cap = 1\<rparr>,
         r_ip = (sample_chunk, 5), r_locals = (0, 0), r_consts = []\<rparr>
   in do_call_scatter st r \<noteq> None \<and> do_call sample_env st r True 1 = None"
proof -
  define f where "f = \<lparr>f_chunk = sample_chunk\<lparr>shapes := [\<lparr>nargs_encoded = 2, nlocals = 2, sh_offset = 7, maxstack = 1\<rparr>]\<rparr>, f_ip = 0\<rparr>"
  define st where "st = sample_state\<lparr>vm_heap := [O_Func f, O_List \<lparr>l_data = [V_Nil, V_Nil], l_capacity = 2\<rparr>]\<rparr>"
  define r where "r = \<lparr>r_vs = \<lparr>v_data = [V_Func 0, V_List 1], v_cap = 2, v_buf = 0\<rparr>, r_cs = \<lparr>c_sites = [], c_cap = 1\<rparr>,
         r_ip = (sample_chunk, 5), r_locals = (0, 0), r_consts = []\<rparr>"
  have "func_shape f = Some \<lparr>nargs_encoded = 2, nlocals = 2, sh_offset = 7, maxstack = 1\<rparr>"
    by (simp add: f_def func_shape_def fetch_def chunk_shape_def sample_chunk_def ins_of_def)
  then have "do_call_scatter st r \<noteq> None \<and> do_call sample_env st r True 1 = None"
    using scatter_leaves_locals_behind [of r "[]" 0 "[]" 1 st "\<lparr>l_data = [V_Nil, V_Nil], l_capacity = 2\<rparr>" f _ sample_env]
    by (auto simp: st_def r_def heap_list_def heap_func_def SIZE_MAX_def yields_iff_ex)
  then show ?thesis unfolding f_def st_def r_def Let_def .
qed

text \<open>The frame of a function with a fixed number of parameters.\<close>

lemma call_enters:
  assumes r: "regs_at T r f i d" and d: "d \<le> maxstack (sh_of f)" and ds: "v_data (r_vs r) = ds @ V_Func b # args"
    and g: "func_ok D T G g" and n: "0 \<le> sint (nargs_encoded (sh_of g))" "length args = unat (nargs_encoded (sh_of g))"
    and room: "16 * (length (v_data (r_vs r)) + maxstack (sh_of g) + nlocals (sh_of g)) \<le> SIZE_MAX"
      "64 * length (c_sites (r_cs r)) + 32 \<le> SIZE_MAX"
  obtains vs cs where "do_call_func st r g (length args) = Some (st, Inr (r\<lparr>r_vs := vs, r_cs := cs,
      r_consts := constants (f_chunk g), r_locals := (v_buf vs, length ds + 1), r_ip := (f_chunk g, f_ip g)\<rparr>))"
    and "v_data vs = ds @ V_Func b # args @ replicate (nlocals (sh_of g) - length args) V_Nil"
    and "length args \<le> nlocals (sh_of g)" and "nlocals (sh_of g) < 2 ^ 31"
    and "length (v_data vs) + maxstack (sh_of g) \<le> v_cap vs"
    and "c_sites cs = \<lparr>call_ip = Some (r_ip r), callee = g, prev_consts = r_consts r, prev_locals_offset = snd (r_locals r)\<rparr> #
      c_sites (r_cs r)"
proof -
  note sh = func_shape_ok [OF g]
  have le: "length args \<le> nlocals (sh_of g)" "nlocals (sh_of g) < 2 ^ 31" using sh(2) n by (simp_all add: shape_ok_def)
  let ?nv = "nlocals (sh_of g) - length args"
  have "(int (nlocals (sh_of g)) - int (length args)) mod 2 ^ 32 = int (nlocals (sh_of g)) - int (length args)"
    by (rule mod_pos_pos_trivial) (use le in simp_all)
  then have nv: "nat ((int (nlocals (sh_of g)) - int (length args)) mod 2 ^ 32) = ?nv" by simp
  have len: "length (v_data (r_vs r)) \<le> v_cap (r_vs r)" using r d by (simp add: regs_at_def)
  have "16 * (length (v_data (r_vs r)) + (maxstack (sh_of g) + ?nv)) \<le> SIZE_MAX" using room(1) by simp
  from value_stack_ensure_yields [OF len this] obtain vs where vs:
      "value_stack_ensure (r_vs r) (maxstack (sh_of g) + ?nv) = Some vs" "v_data vs = v_data (r_vs r)"
      "length (v_data (r_vs r)) + (maxstack (sh_of g) + ?nv) \<le> v_cap vs"
    by (auto simp: yields_iff_ex)
  let ?s = "\<lparr>call_ip = Some (r_ip r), callee = g, prev_consts = r_consts r, prev_locals_offset = snd (r_locals r)\<rparr>"
  obtain cs where cs: "call_stack_push (r_cs r) ?s = Some cs" "c_sites cs = ?s # c_sites (r_cs r)"
    using call_stack_push_yields [OF _ room(2), of ?s] r by (auto simp: yields_iff_ex regs_at_def)
  let ?vs = "vs\<lparr>v_data := v_data (r_vs r) @ replicate ?nv V_Nil\<rparr>"
  have push: "pushn vs ?nv = Some ?vs" using vs by (simp add: pushn_def)
  have loc: "fst (r_locals r) = v_buf (r_vs r)" using r by (simp add: regs_at_def)
  have off: "length (v_data ?vs) - nlocals (sh_of g) = length ds + 1" "nlocals (sh_of g) \<le> length (v_data ?vs)"
    using le(1) ds by simp_all
  have "do_call_func st r g (length args) = Some (st, Inr (r\<lparr>r_vs := ?vs, r_cs := cs,
      r_consts := constants (f_chunk g), r_locals := (v_buf ?vs, length ds + 1), r_ip := (f_chunk g, f_ip g)\<rparr>))"
    using n nv vs(1) cs(1) push loc off
    by (cases r) (simp add: do_call_func_def sh do_call_coerce_def Let_def)
  with le vs cs(2) show thesis by (intro that [of ?vs cs]) (auto simp: ds)
qed

text \<open>
  C35: Calls bind the parameters and returns restore the caller. When a function with a fixed number of parameters
  is called with as many arguments, the machine goes on behind its \<open>OP_FUNCTION\<close> with the constants of its
  chunk; the first local variables are the arguments and the others are \<open>nil\<close>. When it then returns \<open>w\<close>, the
  caller goes on behind its \<open>OP_CALL\<close> with its own constants and local variables, and \<open>w\<close> on the stack in place
  of the function and the arguments. With another number of arguments the call throws.
\<close>

theorem call_and_return:
  assumes inv: "vm_inv D T st r" and ds: "v_data (r_vs r) = ds @ V_Func b # args" and g: "heap_func (vm_heap st) b = Some g"
    and n: "0 \<le> sint (nargs_encoded (sh_of g))"
    and room: "16 * (length (v_data (r_vs r)) + maxstack (sh_of g) + nlocals (sh_of g)) \<le> SIZE_MAX"
      "64 * length (c_sites (r_cs r)) + 32 \<le> SIZE_MAX" and max: "1 \<le> maxstack (sh_of g)"
  shows "if length args = unat (nargs_encoded (sh_of g)) then
      yields (op_call E st r False (length args)) (\<lambda>(st', out). st' = st \<and> (\<exists>r'. out = Running r' \<and>
        r_ip r' = (f_chunk g, f_ip g + 1) \<and> r_consts r' = constants (f_chunk g) \<and>
        (\<forall>k < nlocals (sh_of g). map_option (\<lambda>i. v_data (r_vs r') ! i) (local_ix r' (of_nat k)) =
           Some (if k < length args then args ! k else V_Nil)) \<and>
        (\<forall>w. \<exists>r2. do { vs \<leftarrow> vs_push (r_vs r') w; op_return st (r'\<lparr>r_vs := vs\<rparr>) } = Some (st, Running r2) \<and>
           r_ip r2 = (fst (r_ip r), snd (r_ip r) + 1) \<and> r_consts r2 = r_consts r \<and> snd (r_locals r2) = snd (r_locals r) \<and>
           v_data (r_vs r2) = ds @ [w] \<and> c_sites (r_cs r2) = c_sites (r_cs r))))
    else op_call E st r False (length args) = Some (st, Thrown (''wrong number of arguments: expected '' @
      show_zu (unat (nargs_encoded (sh_of g))) @ '', got '' @ show_zu (length args)))"
proof -
  obtain f i d where r: "regs_at T r f i d" "func_ok D T (nglobals st) f" and st: "state_ok D T st" by (rule vm_invE [OF inv])
  have gok: "func_ok D T (nglobals st) g" using heap_ok_func [OF heap_of [OF st] g] .
  note sh = func_shape_ok [OF gok]
  have nth: "(ds @ V_Func b # args) ! (length (ds @ V_Func b # args) - length args - 1) = V_Func b" by (simp add: nth_append)
  have call: "do_call E st r False (length args) = do_call_func st r g (length args)"
    using g nth by (simp add: do_call_def scatter_args_def Let_def ds)
  show ?thesis
  proof (cases "length args = unat (nargs_encoded (sh_of g))")
    case False
    then have "do_call_func st r g (length args) = Some (st, Inl (''wrong number of arguments: expected '' @
        show_zu (unat (nargs_encoded (sh_of g))) @ '', got '' @ show_zu (length args)))"
      using n by (simp add: do_call_func_def sh do_call_coerce_def)
    then show ?thesis using False call by (simp add: op_call_def)
  next
    case True
    obtain vs cs where c: "do_call_func st r g (length args) = Some (st, Inr (r\<lparr>r_vs := vs, r_cs := cs,
        r_consts := constants (f_chunk g), r_locals := (v_buf vs, length ds + 1), r_ip := (f_chunk g, f_ip g)\<rparr>))"
      "v_data vs = ds @ V_Func b # args @ replicate (nlocals (sh_of g) - length args) V_Nil"
      "length args \<le> nlocals (sh_of g)" "nlocals (sh_of g) < 2 ^ 31" "length (v_data vs) + maxstack (sh_of g) \<le> v_cap vs"
      "c_sites cs = \<lparr>call_ip = Some (r_ip r), callee = g, prev_consts = r_consts r, prev_locals_offset = snd (r_locals r)\<rparr> #
        c_sites (r_cs r)"
      by (rule call_enters [OF r(1) current_instr(3) [OF r] ds gok n True room])
    let ?r = "r\<lparr>r_vs := vs, r_cs := cs, r_consts := constants (f_chunk g), r_locals := (v_buf vs, length ds + 1),
      r_ip := (f_chunk g, f_ip g + 1)\<rparr>"
    have "op_call E st r False (length args) = Some (st, Running ?r)"
      using call c(1) by (simp add: op_call_def advance_ip_def nat_add_distrib)
    moreover have "map_option (\<lambda>i. v_data vs ! i) (local_ix ?r (of_nat k)) = Some (if k < length args then args ! k else V_Nil)"
      if "k < nlocals (sh_of g)" for k
    proof -
      have "unat (of_nat k :: 32 word) = k" using that c(4) by (simp add: unat_of_nat take_bit_nat_eq_self)
      then show ?thesis using that c(2,3) by (simp add: local_ix_def Let_def nth_append)
    qed
    moreover have "\<exists>r2. do { vs \<leftarrow> vs_push vs w; op_return st (?r\<lparr>r_vs := vs\<rparr>) } = Some (st, Running r2) \<and>
           r_ip r2 = (fst (r_ip r), snd (r_ip r) + 1) \<and> r_consts r2 = r_consts r \<and> snd (r_locals r2) = snd (r_locals r) \<and>
           v_data (r_vs r2) = ds @ [w] \<and> c_sites (r_cs r2) = c_sites (r_cs r)" for w
    proof -
      have "length (v_data vs) < v_cap vs" "length ds < v_cap vs" using c(2,5) max by simp_all
      then show ?thesis using c(2,3,6)
        by (simp add: vs_push_def op_return_def vs_pop_def popn_def sh advance_ip_def nat_add_distrib butlast_append)
    qed
    ultimately show ?thesis using True by simp
  qed
qed

text \<open>The program where it calls.\<close>

definition sample_call_state :: vm_state where
  "sample_call_state = sample_state\<lparr>vm_heap := [O_Func sample_func, O_Func \<lparr>f_chunk = sample_chunk, f_ip = 1\<rparr>]\<rparr>"

definition sample_call_regs :: runtime_info where
  "sample_call_regs = \<lparr>r_vs = \<lparr>v_data = [V_Func 0, V_Func 1, V_Flag True], v_cap = 3, v_buf = 1\<rparr>,
     r_cs = \<lparr>c_sites = [\<lparr>call_ip = None, callee = sample_func, prev_consts = [], prev_locals_offset = SIZE_MAX\<rparr>], c_cap = 1\<rparr>,
     r_ip = (sample_chunk, 5), r_locals = (1, 1), r_consts = [V_Flag True]\<rparr>"

lemma sample_call_inv: "vm_inv deci_ref sample_types sample_call_state sample_call_regs"
proof -
  have "heap_ok deci_ref (func_ok deci_ref sample_types (nglobals sample_state))
      [O_Func sample_func, O_Func \<lparr>f_chunk = sample_chunk, f_ip = 1\<rparr>]"
    using sample_func_ok by (simp add: heap_ok_def sample_func_def)
  then have "state_ok deci_ref sample_types sample_call_state"
    unfolding sample_call_state_def
    by (rule state_ok_heap [OF sample_state_ok(1)]) (simp add: sample_state_def heap_le_def)
  moreover have "regs_at sample_types sample_call_regs sample_func 5 2"
    by (simp add: regs_at_def sample_call_regs_def sample_shape) (simp add: sample_func_def at_depth_def sample_types_def own_def sample_chunk_def ins_of_def)
  moreover have "stack_ok deci_ref sample_call_state sample_call_regs"
    by (simp add: stack_ok_def sample_call_regs_def sample_call_state_def heap_func_def)
  moreover have "\<forall>s \<in> set (c_sites (r_cs sample_call_regs)). func_ok deci_ref sample_types (nglobals sample_call_state) (callee s)"
    using sample_func_ok(1) by (simp add: sample_call_regs_def sample_func_def)
  ultimately show ?thesis unfolding vm_inv_def by blast
qed

theorem call_and_return_witness:
  "yields (op_call sample_env sample_call_state sample_call_regs False 1) (\<lambda>(st', out). st' = sample_call_state \<and>
     (\<exists>r'. out = Running r' \<and> r_ip r' = (sample_chunk, 2)))"
proof -
  define g where "g = \<lparr>f_chunk = sample_chunk, f_ip = 1\<rparr>"
  have sh: "sh_of g = \<lparr>nargs_encoded = 1, nlocals = 1, sh_offset = 3, maxstack = 1\<rparr>"
    by (simp add: g_def sh_of_def own_def sample_chunk_def ins_of_def)
  have heap: "heap_func (vm_heap sample_call_state) 1 = Some g" by (simp add: g_def sample_call_state_def heap_func_def)
  have "f_chunk g = sample_chunk" "f_ip g + 1 = 2" by (simp_all add: g_def)
  note g = this
  show ?thesis
    using call_and_return [OF sample_call_inv _ heap, of "[V_Func 0]" "[V_Flag True]" sample_env] unfolding sh g
    by (auto simp: sample_call_regs_def SIZE_MAX_def elim!: yields_conseq)
qed

end
