(* ===== verification/Compiled.thy ===== *)
theory Compiled
  imports Parser_For Vm_Runs
begin

text \<open>
  Parsing of a whole source: it always returns, what it has compiled is accepted by the verifier, and so the
  machine executes it without getting stuck.
\<close>

section \<open>Sources\<close>

lemma andthen_runs_parse:
  assumes "runs W r Q" and "\<And>e p. glob W p \<Longrightarrow> R (Inl e) p" and "\<And>x p. Q x p \<Longrightarrow> R (Inr x) p"
  shows "yields r (\<lambda>(x, p). R x p)"
  using assms(1) unfolding runs_def
proof (rule yields_conseq, clarify)
  fix x :: "parse_error + 'a" and p
  assume "case x of Inl e \<Rightarrow> glob W p | Inr v \<Rightarrow> Q v p"
  then show "R x p" using assms(2,3) by (cases x) simp_all
qed

text \<open>The state of a new parser.\<close>

lemma parser_new_ok:
  assumes W: "setting_ok W"
  shows "yields (parser_new (w_src W) (w_globals W)) (\<lambda>p. core W p \<and> lex_inv (ps_lexer p) \<and> src (ps_lexer p) = w_src W \<and>
    lex_measure (ps_lexer p) = 2 * length (w_src W) + 1 \<and> lexer_new (w_src W) = Some (ps_lexer p) \<and> cur_kind p = LK_AND \<and>
    prog p = [] \<and> ps_consts p = [] \<and> ps_shapes p = [] \<and> scopes p = [] \<and> ranges p = [] \<and> idents p = [])"
proof -
  have n: "2 * length (w_src W) \<le> SIZE_MAX" using W by (simp add: setting_ok_def SIZE_MAX_def)
  obtain x where x: "lexer_new (w_src W) = Some x" "lex_inv x" "src x = w_src W" "lex_measure x = 2 * length (w_src W) + 1"
    using lexer_new_yields [OF n] by (auto simp: yields_iff_ex)
  then show ?thesis using W by (auto simp: parser_new_def core_def glob_def setting_ok_def)
qed

definition calm_source :: "string \<Rightarrow> bool" where
  "calm_source txt \<longleftrightarrow> (case lex_source txt of None \<Rightarrow> False | Some ls \<Rightarrow> calm (map lk_kind ls))"

lemma calm_source_rest:
  assumes "calm_source txt" and "lexer_new txt = Some x" and "lex_measure x = 2 * length txt + 1"
  shows "calm (rest_kinds x)"
  using assms by (auto simp: calm_source_def lex_source_def rest_kinds_def split: option.splits)

section \<open>The compiled function\<close>

text \<open>The code at the end of the parser is accepted, with the annotation of its items.\<close>

lemma to_chunk_simps [simp]:
  "code (to_chunk p txt orig) = pcode p" "constants (to_chunk p txt orig) = ps_consts p" "shapes (to_chunk p txt orig) = ps_shapes p"
  by (simp_all add: to_chunk_def)

definition accepted :: "deci \<Rightarrow> nat \<Rightarrow> func \<Rightarrow> bool" where
  "accepted D G f \<longleftrightarrow> (\<exists>A. func_ok D (\<lambda>_. A) G f) \<and> nargs_encoded (sh_of f) = 0 \<and>
     16 * (maxstack (sh_of f) + nlocals (sh_of f) + 1) \<le> SIZE_MAX"

lemma ended_accepted:
  assumes e: "ended 0 [] (mk_instr OP_FUNCTION 0 0) [] m p" and n: "nargs_encoded (ps_shapes m ! 0) = 0" "0 < length (ps_shapes m)"
    and p: "pinv W M p" and M: "M \<le> 2 ^ 30"
  shows "accepted (w_deci W) (length (g_data (ps_globals p))) \<lparr>f_chunk = to_chunk p txt orig, f_ip = 0\<rparr>"
proof -
  let ?f = "\<lparr>f_chunk = to_chunk p txt orig, f_ip = 0\<rparr>" and ?ins = "mk_instr OP_FUNCTION 0 0"
  obtain F sh where F: "pcode p = ?ins # map fst F" "F \<noteq> []" "snd (hd F) = (0, 0)" "\<And>c. closed (lims c p) 0 F"
    and sh: "ps_shapes p = (ps_shapes m)[0 := sh]" "nargs_encoded sh = 0" "shape_ok sh" "maxstack sh \<le> length F"
    using e n(1) unfolding ended_def by auto
  let ?A = "None # map (Some \<circ> snd) F"
  have "\<forall>v \<in> set (ps_consts p). val_ok (w_deci W) ([] :: func heap) v" using p by (simp add: pinv_def core_def)
  then have "typed (w_deci W) (k_globals (lims 0 p)) (to_chunk p txt orig) ?A" by (intro closed_typed [OF F(4)]) (simp_all add: F(1))
  then have "typed (w_deci W) (length (g_data (ps_globals p))) (to_chunk p txt orig) ?A" by simp
  moreover have own: "own ?f = 0" using F(1) by (simp add: own_def)
  moreover have shp: "sh_of ?f = sh" using sh(1) n(2) by (simp add: sh_of_def own)
  moreover have "at_depth ?A 1 0 0" using F(2,3) by (cases F) (simp_all add: at_depth_def)
  ultimately have "func_ok (w_deci W) (\<lambda>_. ?A) (length (g_data (ps_globals p))) ?f"
    using sh(1,3) n(2) F(1) by (simp add: func_ok_def)
  moreover have "length F < 2 ^ 30" using pinv_here [OF p] M arg_cong [OF F(1), of length] by (simp add: here_def)
  then have "16 * (maxstack (sh_of ?f) + nlocals (sh_of ?f) + 1) \<le> SIZE_MAX"
    using sh(3,4) by (simp add: shp shape_ok_def SIZE_MAX_def)
  ultimately show ?thesis using sh(2) shp by (auto simp: accepted_def)
qed

lemma parse_ok:
  assumes W: "setting_ok W" and calm: "calm_source (w_src W)" and k: "2 * length (w_src W) + 3 \<le> k"
  shows "yields (parse (w_deci W) k (w_globals W) (w_src W) orig) (\<lambda>(r, g). globals_ok g \<and> genv g = genv (w_globals W) \<and>
    (\<forall>a i. slot (w_globals W) a = Some i \<longrightarrow> slot g a = Some i) \<and> length (g_data (w_globals W)) \<le> length (g_data g) \<and>
    (case r of Inl e \<Rightarrow> True | Inr f \<Rightarrow> accepted (w_deci W) (length (g_data g)) f))"
proof -
  let ?n = "length (w_src W)" and ?Q = "\<lambda>_ p. glob W p \<and> accepted (w_deci W) (length (g_data (ps_globals p))) \<lparr>f_chunk = to_chunk p (w_src W) orig, f_ip = 0\<rparr>"
  obtain p where p: "parser_new (w_src W) (w_globals W) = Some p" "core W p" "lex_inv (ps_lexer p)" "src (ps_lexer p) = w_src W"
      "lex_measure (ps_lexer p) = 2 * ?n + 1" "lexer_new (w_src W) = Some (ps_lexer p)" "cur_kind p = LK_AND"
    and empty: "prog p = []" "ps_consts p = []" "ps_shapes p = []" "scopes p = []" "ranges p = []" "idents p = []"
    using parser_new_ok [OF W] by (auto simp: yields_iff_ex)
  have n: "?n \<le> 2 ^ 26" using W by (simp add: setting_ok_def)
  define M where "M = 4 * int ?n + 4"
  have M: "M + 10 \<le> 2 ^ 29" using n by (simp add: M_def)
  have pm: "pm p = 2 * ?n + 2" using p(5,7) by (simp add: pm_def)
  have calm: "calm (ahead p)" using calm_source_rest [OF calm p(6,5)] p(7) by (simp add: ahead_def)
  have "runs W (andthen (fun_begin p) (\<lambda>fun_pos p. andthen (advance p) (\<lambda>_ p. andthen (parse_loop (w_deci W) k k p) (\<lambda>_ p.
          andthen (fun_end p fun_pos) (\<lambda>_ p. ok () p))))) ?Q"
  proof (rule runs_andthen [OF fun_begin_first], goal_cases)
    case (4 pos p1)
    then obtain t where t: "table_ok t" "xht_size t = 0" and p1: "p1 = begun [] t p" "pos = 0" using empty by (auto simp: here_def)
    have core1: "core W p1" using core_begun [OF p(2) t(1)] by (simp add: p1)
    have "length (prog p1) = 1" by (simp add: p1 begun_def emit_def emit_at_line_def empty)
    then have bd: "bounded (M + 1) p1" using pm t(2) by (simp add: bounded_def p1 empty M_def)
    have "runs W (advance p1) (\<lambda>_ p'. pinv W (M + 1 - 2) p' \<and> steps_over p1 p')"
      by (rule advance_core [OF core1 _ _ _ _ bd]) (use p calm in \<open>simp_all add: p1\<close>)
    then have "runs W (advance p1) (\<lambda>_ p'. pinv W (M + 1 - 2) p' \<and> reads p1 p')"
      using p(7) by (simp add: steps_over_def p1)
    then show ?case
    proof (rule runs_andthen, elim conjE)
      fix p2 assume p2: "pinv W (M + 1 - 2) p2" "reads p1 p2"
      have code2: "pcode p2 = [] @ [mk_instr OP_FUNCTION 0 0]" using p2(2) empty by (auto simp: reads_def moves_def p1)
      have r2: "rstate p2 [] [] (new_range 0 (length ([] :: instr list) + 1))"
        using p2(2) empty arg_cong [OF code2, of length] by (auto simp: reads_def moves_def p1 rstate_def here_def)
      have same: "ps_shapes p2 = [no_shape]" "scopes p2 = [t]" "s_if p2 = SIZE_MAX # s_if p" "s_break p2 = SIZE_MAX # s_break p"
        "s_continue p2 = SIZE_MAX # s_continue p" using p2(2) empty by (auto simp: reads_def moves_def p1)
      have ctx: "ctx 0 p2" unfolding ctx_def using same r2 by auto
      have pm2: "pm p2 < 2 * ?n + 2" using reads_pm [OF p2(2)] pm by (simp add: p1)
      have "runs W (parse_loop (w_deci W) k k p2) (\<lambda>_ p'. pinv W (M + 1 - 2) p' \<and> stmts 0 p2 p' \<and> pm p' \<le> pm p2)"
        using M k pm2 by (intro parse_loop_ok [OF _ p2(1) ctx]) simp_all
      then show "runs W (andthen (parse_loop (w_deci W) k k p2) (\<lambda>_ p. andthen (fun_end p pos) (\<lambda>_ p. ok () p))) ?Q"
      proof (rule runs_andthen, elim conjE)
        fix p3 assume p3: "pinv W (M + 1 - 2) p3" "stmts 0 p2 p3"
        have "runs W (fun_end p3 (length ([] :: instr list))) (\<lambda>_ q. pinv W (M + 1 - 2 + 3) q \<and> pm q = pm p3 \<and> fun_done 0 [] (mk_instr OP_FUNCTION 0 0) [] p2 q)"
          by (rule fun_body_end [OF _ p3 code2 _ _ _ r2]) (use M same t args_ok_exact(1) [of 0] in simp_all)
        then show "runs W (andthen (fun_end p3 pos) (\<lambda>_ p. ok () p)) ?Q"
          unfolding list.size p1(2)
        proof (rule runs_andthen, elim conjE)
          fix p4 assume p4: "pinv W (M + 1 - 2 + 3) p4" "fun_done 0 [] (mk_instr OP_FUNCTION 0 0) [] p2 p4"
          then obtain m where m: "ended 0 [] (mk_instr OP_FUNCTION 0 0) [] m p4" "grows (lims 0 p2) (lims 0 m)"
            by (auto simp: fun_done_def)
          have "0 < length (ps_shapes m)" "ps_shapes m ! 0 = no_shape" using grows_shape [OF m(2), of 0] same(1) by simp_all
          then show "runs W (ok () p4) ?Q"
            using ended_accepted [OF m(1) _ _ p4(1)] p4(1) M by auto
        qed
      qed
    qed
  qed (use empty in \<open>simp_all add: UINT32_MAX_def\<close>)
  then have "yields (andthen (fun_begin p) (\<lambda>fun_pos p. andthen (advance p) (\<lambda>_ p. andthen (parse_loop (w_deci W) k k p) (\<lambda>_ p.
          andthen (fun_end p fun_pos) (\<lambda>_ p. ok () p)))))
     (\<lambda>(r, p). glob W p \<and> (case r of Inl e \<Rightarrow> True | Inr u \<Rightarrow> accepted (w_deci W) (length (g_data (ps_globals p))) \<lparr>f_chunk = to_chunk p (w_src W) orig, f_ip = 0\<rparr>))"
    by (rule andthen_runs_parse) auto
  then obtain r q where run: "andthen (fun_begin p) (\<lambda>fun_pos p. andthen (advance p) (\<lambda>_ p. andthen (parse_loop (w_deci W) k k p) (\<lambda>_ p.
          andthen (fun_end p fun_pos) (\<lambda>_ p. ok () p)))) = Some (r, q)" and q: "glob W q"
    and r: "case r of Inl e \<Rightarrow> True | Inr u \<Rightarrow> accepted (w_deci W) (length (g_data (ps_globals q))) \<lparr>f_chunk = to_chunk q (w_src W) orig, f_ip = 0\<rparr>"
    by (auto simp: yields_iff_ex)
  have "length (g_data (w_globals W)) \<le> length (g_data (ps_globals q))"
  proof -
    have g: "globals_ok (ps_globals q)" "globals_ok (w_globals W)" using q W by (simp_all add: glob_def setting_ok_def)
    have "dom (slot (w_globals W)) \<subseteq> dom (slot (ps_globals q))" using q by (force simp: glob_def)
    from card_mono [OF slot_card(1) [OF g(1)] this] show ?thesis by (simp add: slot_card(2) [OF g(1)] slot_card(2) [OF g(2)])
  qed
  then show ?thesis using run q r by (cases r) (simp_all add: parse_def p(1) glob_def)
qed

section \<open>A compiled function in the machine\<close>

text \<open>The state in which the function \<open>f\<close> of a source is run, which had the global variables \<open>g\<close> at its end.\<close>

definition loaded :: "vm_state \<Rightarrow> val globals \<Rightarrow> func \<Rightarrow> vm_state" where
  "loaded st g f = st\<lparr>vm_globals := g, vm_heap := vm_heap st @ [O_Func f]\<rparr>"

lemma genv_values:
  assumes g: "globals_ok g" "globals_ok g0" and eq: "genv g = genv g0" and v: "Some v \<in> set (g_data g)"
  shows "Some v \<in> set (g_data g0)"
proof -
  obtain i where i: "i < length (g_data g)" "g_data g ! i = Some v" using v by (auto simp: in_set_conv_nth)
  let ?a = "it_key (items (g_table g) ! i)"
  have "slot g ?a = Some i" using slot_iff [OF g(1), of ?a i] i(1) by simp
  then have "genv g ?a = Some v" using i(2) by (simp add: genv_def)
  then have "genv g0 ?a = Some v" by (simp only: eq)
  then obtain j where "slot g0 ?a = Some j" "g_data g0 ! j = Some v" by (auto simp: genv_def split: option.splits)
  then show ?thesis using slot_iff [OF g(2), of ?a j] by (metis nth_mem)
qed

text \<open>
  An annotation for every chunk, of those that accept its code the one with which the fewest global variables
  are enough.
\<close>

definition verified :: "deci \<Rightarrow> chunk \<Rightarrow> annotation" where
  "verified D C = (let P = (\<lambda>G A. func_ok D (\<lambda>_. A) G \<lparr>f_chunk = C, f_ip = 0\<rparr>) in SOME A. P (LEAST G. \<exists>A. P G A) A)"

lemma func_ok_annotation: "func_ok D T G f \<longleftrightarrow> func_ok D (\<lambda>_. T (f_chunk f)) G f"
  by (simp add: func_ok_def)

lemma verified_ok:
  assumes f: "accepted D G f" and ip: "f_ip f = 0"
  shows "func_ok D (verified D) G f"
proof -
  let ?P = "\<lambda>G A. func_ok D (\<lambda>_. A) G f"
  have eq: "\<lparr>f_chunk = f_chunk f, f_ip = 0\<rparr> = f" using ip by simp
  have ex: "\<exists>A. ?P G A" using f by (simp add: accepted_def)
  from LeastI [of "\<lambda>G. \<exists>A. ?P G A", OF ex] have "?P (LEAST G. \<exists>A. ?P G A) (verified D (f_chunk f))"
    unfolding verified_def eq Let_def by (rule someI_ex)
  then have "?P G (verified D (f_chunk f))" using Least_le [of "\<lambda>G. \<exists>A. ?P G A", OF ex] by (rule func_ok_mono)
  then show ?thesis by (subst func_ok_annotation)
qed

lemma parse_ip: "parse D k g inp orig = Some (Inr f, g') \<Longrightarrow> f_ip f = 0"
  by (auto simp: parse_def map_sum_def split: bind_splits sum.splits)

lemma loaded_ok:
  assumes st: "state_ok D (verified D) st" and g: "globals_ok g" "genv g = genv (vm_globals st)" "nglobals st \<le> length (g_data g)"
    and f: "accepted D (length (g_data g)) f" "f_ip f = 0"
  shows "state_ok D (verified D) (loaded st g f)"
proof -
  let ?P = "func_ok D (verified D) (length (g_data g))"
  have "heap_ok D ?P (vm_heap st)" using st heap_ok_mono [OF _ g(3)] by (simp add: state_ok_def)
  then have "heap_ok D ?P (vm_heap st @ [O_Func f])" by (rule heap_ok_append) (simp add: verified_ok [OF f])
  moreover have "val_ok D (vm_heap st @ [O_Func f]) v" if "Some v \<in> set (g_data g)" for v
  proof (rule val_ok_mono [OF heap_le_append])
    have "globals_ok (vm_globals st)" using st by (simp add: state_ok_def)
    from genv_values [OF g(1) this g(2) that] show "val_ok D (vm_heap st) v" using st by (simp add: state_ok_def)
  qed
  ultimately show ?thesis using st g(1) by (simp add: state_ok_def loaded_def)
qed

section \<open>Sessions\<close>

text \<open>
  The sources that the results below speak of, with fuel \<open>k\<close> for the parser: there is memory for their numbers, they
  have at most \<open>2 ^ 26\<close> characters, there are at most \<open>2 ^ 29\<close> global variables, and no function is defined after a
  \<open>for\<close> in the same block, because of the ranges that \<open>for_stmt\<close> does not move.
\<close>

definition admitted :: "deci \<Rightarrow> vm_state \<Rightarrow> string \<Rightarrow> nat \<Rightarrow> bool" where
  "admitted D st inp k \<longleftrightarrow> nglobals st \<le> 2 ^ 29 \<and> fits D (length inp) \<and> length inp \<le> 2 ^ 26 \<and> calm_source inp \<and> 2 * length inp + 3 \<le> k"

lemma admitted_parse:
  assumes E: "deci_ok D" and st: "state_ok D (verified D) st" and inp: "admitted D st inp k"
  shows "yields (parse D k (vm_globals st) inp orig) (\<lambda>(r, g). globals_ok g \<and> genv g = genv (vm_globals st) \<and>
    nglobals st \<le> length (g_data g) \<and> (case r of Inl e \<Rightarrow> state_ok D (verified D) (st\<lparr>vm_globals := g\<rparr>)
     | Inr f \<Rightarrow> accepted D (length (g_data g)) f \<and> state_ok D (verified D) (loaded st g f)))"
proof -
  define W where "W = \<lparr>w_deci = D, w_src = inp, w_globals = vm_globals st\<rparr>"
  have g0: "globals_ok (vm_globals st)" using st by (simp add: state_ok_def)
  have W: "setting_ok W" "length (w_src W) \<le> 2 ^ 26" "calm_source (w_src W)" "2 * length (w_src W) + 3 \<le> k"
    using E g0 inp by (simp_all add: W_def setting_ok_def admitted_def)
  obtain r g where r: "parse D k (vm_globals st) inp orig = Some (r, g)" "globals_ok g" "genv g = genv (vm_globals st)"
      "nglobals st \<le> length (g_data g)" "case r of Inl e \<Rightarrow> True | Inr f \<Rightarrow> accepted D (length (g_data g)) f"
    using parse_ok [OF W(1), of k orig] W(2-)
    by (auto simp: W_def yields_iff_ex simp del: split_paired_Ex cong: sum.case_cong)
  have "state_ok D (verified D) (st\<lparr>vm_globals := g\<rparr>)"
    using st r(2) heap_ok_mono [OF _ r(4)] genv_values [OF r(2) g0 r(3)] by (auto simp: state_ok_def)
  then show ?thesis
    using r loaded_ok [OF st r(2-4)] parse_ip [of D k "vm_globals st" inp orig] by (cases r) simp_all
qed

text \<open>
  What can happen to a machine that begins in \<open>st0\<close>: a source does not compile, or it does and is run until it
  returns or throws.
\<close>

inductive session :: "env \<Rightarrow> vm_state \<Rightarrow> vm_state \<Rightarrow> bool" for E st0 where
  session_start: "session E st0 st0"
| session_error: "session E st0 st \<Longrightarrow> admitted (e_deci E) st inp k \<Longrightarrow>
    parse (e_deci E) k (vm_globals st) inp orig = Some (Inl e, g) \<Longrightarrow> session E st0 (st\<lparr>vm_globals := g\<rparr>)"
| session_eval: "session E st0 st \<Longrightarrow> admitted (e_deci E) st inp k \<Longrightarrow>
    parse (e_deci E) k (vm_globals st) inp orig = Some (Inr f, g) \<Longrightarrow> eval_start f (length (vm_heap st)) = Some (Inr r) \<Longrightarrow>
    run E (loaded st g f, r) (st', r') \<Longrightarrow> roomy E (st', r') \<Longrightarrow> still (st', r') \<Longrightarrow> step E st' r' = Some (st'', out) \<Longrightarrow>
    (\<forall>r''. out \<noteq> Running r'') \<Longrightarrow> session E st0 st''"

lemma loaded_runs:
  assumes E: "env_ok E (verified (e_deci E))" and st: "state_ok (e_deci E) (verified (e_deci E)) st" and inp: "admitted (e_deci E) st inp k"
    and parse: "parse (e_deci E) k (vm_globals st) inp orig = Some (Inr f, g)"
  shows "yields (eval_start f (length (vm_heap st))) (\<lambda>res. \<exists>r. res = Inr r \<and> (\<forall>st' r'. run E (loaded st g f, r) (st', r') \<longrightarrow> in_bounds r' \<and>
    (roomy E (st', r') \<and> still (st', r') \<longrightarrow> yields (step E st' r') (\<lambda>(st'', out). state_ok (e_deci E) (verified (e_deci E)) st'' \<and>
       (case out of Running r'' \<Rightarrow> in_bounds r'' | Done v \<Rightarrow> val_ok (e_deci E) (vm_heap st'') v | Thrown m \<Rightarrow> True)))))"
proof -
  have "deci_ok (e_deci E)" using E unfolding env_ok_def by (elim conjE)
  from admitted_parse [OF this st inp, of orig] have f: "accepted (e_deci E) (length (g_data g)) f"
    and ok: "state_ok (e_deci E) (verified (e_deci E)) (loaded st g f)" using parse by simp_all
  have at: "heap_func (vm_heap (loaded st g f)) (length (vm_heap st)) = Some f" by (simp add: loaded_def heap_func_def)
  have room: "16 * (maxstack (sh_of f) + nlocals (sh_of f) + 1) \<le> SIZE_MAX" "nargs_encoded (sh_of f) = 0"
    using f by (simp_all add: accepted_def)
  show ?thesis by (rule machine_runs [OF ok E at room])
qed

lemma session_ok:
  assumes "session E st0 st" and E: "env_ok E (verified (e_deci E))" and "state_ok (e_deci E) (verified (e_deci E)) st0"
  shows "state_ok (e_deci E) (verified (e_deci E)) st"
  using assms(1,3)
proof (induction rule: session.induct)
  case (session_error st inp k orig e g)
  have "deci_ok (e_deci E)" using E unfolding env_ok_def by (elim conjE)
  from admitted_parse [OF this session_error.IH session_error.hyps(2), of orig] session_error show ?case by simp
next
  case (session_eval st inp k orig f g r st' r' st'' out)
  from loaded_runs [OF E session_eval.IH session_eval.hyps(2,3)] session_eval.prems session_eval.hyps(4)
  have "run E (loaded st g f, r) (st', r') \<Longrightarrow> roomy E (st', r') \<Longrightarrow> still (st', r') \<Longrightarrow>
      yields (step E st' r') (\<lambda>(st'', out). state_ok (e_deci E) (verified (e_deci E)) st'' \<and>
       (case out of Running r'' \<Rightarrow> in_bounds r'' | Done v \<Rightarrow> val_ok (e_deci E) (vm_heap st'') v | Thrown m \<Rightarrow> True))"
    by simp
  from this [OF session_eval.hyps(5-7)] show ?case using session_eval.hyps(8) by simp
qed simp

section \<open>A small source\<close>

text \<open>The lexemes of the source \<open>1\<close>, and what the parser makes of it.\<close>

lemma small_lexemes:
  obtains x x1 x2 x3 l1 l2 l3 where "lexer_new ''1'' = Some x" and "src x = ''1''"
    and "lexer_next x = Some (l1, x1)" and "lk_kind l1 = LK_NUMBER" and "lk_start l1 = 0" and "lk_size l1 = 1" and "src x1 = ''1''"
    and "lexer_next x1 = Some (l2, x2)" and "lk_kind l2 = LK_SEMICOLON"
    and "lexer_next x2 = Some (l3, x3)" and "lk_kind l3 = LK_EOF"
proof -
  obtain ht where ht: "make_keywords_ht = Some ht"
    using make_keywords_ht_yields by (auto simp: yields_iff_ex)
  define x where "x = the (lexer_new ''1'')"
  define r1 where "r1 = the (lexer_next x)"
  define r2 where "r2 = the (lexer_next (snd r1))"
  define r3 where "r3 = the (lexer_next (snd r2))"
  note defs = lexer_next.simps char_at_def token_def is_digit_def is_ident_start_def lex_string_def
        lex_number_def scan_string.simps scan_number.simps make_lexeme_def insert_semicolon_def fake_semicolon_def make_lexeme_advance_def level_stack_new_def
  have x: "lexer_new ''1'' = Some x" "src x = ''1''"
    by (simp_all add: x_def lexer_new_def ht)
  have 1: "lexer_next x = Some r1"  "lk_kind (fst r1) = LK_NUMBER" "lk_start (fst r1) = 0" "lk_size (fst r1) = 1" "src (snd r1) = ''1''"
    by (simp_all add: r1_def x_def lexer_new_def ht defs)
  have 2: "lexer_next (snd r1) = Some r2"  "lk_kind (fst r2) = LK_SEMICOLON"
    by (simp_all add: r2_def r1_def x_def lexer_new_def ht defs)
  have 3: "lexer_next (snd r2) = Some r3"  "lk_kind (fst r3) = LK_EOF"
    by (simp_all add: r3_def r2_def r1_def x_def lexer_new_def ht defs)
  show thesis
    by (rule that [of x "fst r1" "snd r1" "fst r2" "snd r2" "fst r3" "snd r3"]) (use x 1 2 3 in simp_all)
qed



text \<open>The parser, step by step.\<close>

lemma small_parse:
  assumes n: "number_parse D ''1'' = Some n"
  shows "\<exists>f. parse D 5 g ''1'' orig = Some (Inr f, g) \<and> fetch (f_chunk f) (f_ip f + 1) = Some (mk_instr OP_LOAD_CONST 0 0)"
proof -
  obtain x x1 x2 x3 l1 l2 l3 where x: "lexer_new ''1'' = Some x" "src x = ''1''"
    "lexer_next x = Some (l1, x1)" "lk_kind l1 = LK_NUMBER" "lk_start l1 = 0" "lk_size l1 = 1" "src x1 = ''1''"
    "lexer_next x1 = Some (l2, x2)" "lk_kind l2 = LK_SEMICOLON"
    "lexer_next x2 = Some (l3, x3)" "lk_kind l3 = LK_EOF"
    by (rule small_lexemes)
  obtain t where t: "xht_new 0 = Some t" "xht_size (t :: nat xht) = 0"
    using table_ok_new by (auto simp: yields_iff_ex)
  define st where "st l x is cs = \<lparr>ps_lexer = x, ps_globals = g, ps_cur = l, prog = is, ps_consts = cs, ps_shapes = [no_shape],
    scopes = [t], ranges = [new_range 0 1], idents = [], s_if = [SIZE_MAX], s_break = [SIZE_MAX], s_continue = [SIZE_MAX]\<rparr>" for l x "is" cs
  define l0 where "l0 = \<lparr>lk_kind = LK_AND, lk_start = 0, lk_size = 0, lk_pos = \<lparr>line = 0, column = 0\<rparr>\<rparr>"
  define f where "f = \<lparr>ti_instr = mk_instr OP_FUNCTION 0 0, ti_line = SIZE_MAX\<rparr>"
  define i1 where "i1 = \<lparr>ti_instr = mk_instr OP_LOAD_CONST 0 0, ti_line = line (lk_pos l1)\<rparr>"
  define i2 where "i2 = \<lparr>ti_instr = mk_instr OP_PRINT 0 0, ti_line = line (lk_pos l2)\<rparr>"
  have adv: "lexer_next y = Some (l, y') \<Longrightarrow> lk_kind l \<noteq> LK_ERROR \<Longrightarrow> advance (st k y is cs) = ok () (st l y' is cs)" for y l y' k "is" cs
    by (simp add: advance_def st_def)
  obtain p where p: "parser_new ''1'' g = Some p" "fun_begin p = ok 0 (st l0 x [f] [])"
    by (simp add: parser_new_def x(1) fun_begin_def add_shape_def open_scope_def push_range_def emit_def emit_at_line_def here_def t(1)
        st_def l0_def f_def UINT32_MAX_def new_range_def ok_def Let_def)
  have 1: "advance (st l0 x [f] []) = ok () (st l1 x1 [f] [])" using x by (simp add: adv)
  have num: "add_number_const D (st l1 x1 [f] []) l1 = ok 0 (st l1 x1 [f] [V_Num n])"
    using x n by (simp add: add_number_const_def lexeme_text_def add_const_steal_def st_def UINT32_MAX_def)
  have "expr_turn D ex k q True (st l1 x1 [f] []) = ok (Some False) (st l2 x2 [f, i1] [V_Num n])" for ex k q
  proof -
    have "emit_at (st l1 x1 [f] [V_Num n]) (mk_instr OP_LOAD_CONST 0 0) l1 = st l1 x1 [f, i1] [V_Num n]"
      by (simp add: emit_at_def emit_at_line_def st_def i1_def)
    moreover have "ps_cur (st l1 x1 [f] []) = l1" by (simp add: st_def)
    ultimately show ?thesis using num adv [OF x(8)] x(4,9) by (simp add: expr_turn_def emit_const_def this_is_expr_def)
  qed
  moreover have "expr_turn D ex k q False (st l2 x2 is cs) = ok None (st l2 x2 is cs)" for ex k q "is" cs
  proof -
    have "cur_kind (st l2 x2 is cs) = LK_SEMICOLON" by (simp add: st_def x(9))
    then show ?thesis by (simp add: expr_turn_def ends_expr_def after_expr_def)
  qed
  ultimately have 2: "expr D (Suc (Suc k)) q (st l1 x1 [f] []) = ok () (st l2 x2 [f, i1] [V_Num n])" for k q by simp
  have 3: "stmt D (Suc (Suc (Suc k))) (st l1 x1 [f] []) = ok () (st l3 x3 [f, i1, i2] [V_Num n])" for k
  proof -
    have "cur_kind (st l1 x1 [f] []) = LK_NUMBER" "ps_cur (st l2 x2 [f, i1] [V_Num n]) = l2" "ps_cur (st l2 x2 [f, i1, i2] [V_Num n]) = l2"
      "emit_at (st l2 x2 [f, i1] [V_Num n]) (mk_instr OP_PRINT 0 0) l2 = st l2 x2 [f, i1, i2] [V_Num n]"
      by (simp_all add: st_def x emit_at_def emit_at_line_def i2_def)
    then show ?thesis using x(9,11) adv [OF x(10)] by (simp add: stmt_body_def expr_or_assignment_def slurp_def 2 Let_def del: expr.simps)
  qed
  have 4: "parse_loop D (Suc (Suc (Suc k))) (Suc m) (st l1 x1 [f] []) = ok () (st l3 x3 [f, i1, i2] [V_Num n])" for k m
  proof -
    have "cur_kind (st l3 x3 [f, i1, i2] [V_Num n]) = LK_EOF" by (simp add: st_def x)
    then show ?thesis by (simp add: 3 del: stmt.simps)
  qed
  define i3 where "i3 = \<lparr>ti_instr = mk_instr OP_LOAD_CONST 0 1, ti_line = SIZE_MAX\<rparr>"
  define i4 where "i4 = \<lparr>ti_instr = mk_instr OP_RETURN 0 0, ti_line = SIZE_MAX\<rparr>"
  let ?p = "st l3 x3 [f, i1, i2, i3, i4] [V_Num n, V_Nil]"
  have op: "opcode (ti_instr f) = OP_FUNCTION" "in_c (ti_instr f) = 0" "opcode (ti_instr i1) = OP_LOAD_CONST" "opcode (ti_instr i2) = OP_PRINT" "opcode (ti_instr i3) = OP_LOAD_CONST" "opcode (ti_instr i4) = OP_RETURN"
    by (simp_all add: f_def i1_def i2_def i3_def i4_def)
  have upd: "st l x is cs\<lparr>prog := js\<rparr> = st l x js cs" "prog (st l x is cs) = is" for l x "is" js cs by (simp_all add: st_def)
  have pos: "[Suc 0..<5] = [1, 2, 3, 4]" by (simp add: upt_rec)
  have five: "Suc (Suc (Suc (Suc (Suc 0)))) = 5" by simp
  have ranges: "close_ranges t [(new_range 0 1)\<lparr>range_end := 5\<rparr>] (?p\<lparr>ranges := [(new_range 0 1)\<lparr>range_end := 5\<rparr>]\<rparr>) 0 0 =
      Some (?p\<lparr>ranges := [(new_range 0 1)\<lparr>range_end := 5\<rparr>]\<rparr>, 0, 1)"
    by (simp add: pos new_range_def resolve_instr_def stack_after_def op st_def)
  have "close_scope ?p = ok (1, 0) (?p\<lparr>ranges := [], scopes := []\<rparr>)"
    using ranges t(2)
    by (simp add: close_scope_def fixup_last_range_end_def here_def st_def new_range_def nranges_for_scope_index_def UINT32_MAX_def SIZE_MAX_def ok_def five
        del: close_ranges.simps)
  moreover have "add_const_steal (st l3 x3 [f, i1, i2] [V_Num n]) V_Nil = ok 1 (st l3 x3 [f, i1, i2] [V_Num n, V_Nil])"
    by (simp add: add_const_steal_def st_def UINT32_MAX_def)
  moreover have "emit (emit (st l3 x3 [f, i1, i2] [V_Num n, V_Nil]) (mk_instr OP_LOAD_CONST 0 1)) (mk_instr OP_RETURN 0 0) = ?p"
    by (simp add: st_def emit_def emit_at_line_def i3_def i4_def)
  moreover have "fun_shape_ptr ?p 0 = Some 0" by (simp add: fun_shape_ptr_def st_def op)
  moreover have "here ?p = 5" by (simp add: here_def st_def)
  moreover have proj: "ps_shapes ?p = [no_shape]" "s_if ?p = [SIZE_MAX]" "s_break ?p = [SIZE_MAX]" "s_continue ?p = [SIZE_MAX]" "ps_globals ?p = g"
    by (simp_all add: st_def)
  ultimately have "\<exists>q. fun_end (st l3 x3 [f, i1, i2] [V_Num n]) 0 = ok () q \<and> ps_globals q = g \<and> (\<exists>f'. prog q = [f', i1, i2, i3, i4])"
    by (simp add: fun_end_def Let_def UINT32_MAX_def proj) (simp add: ok_def proj upd)
  then obtain q f' where 5: "fun_end (st l3 x3 [f, i1, i2] [V_Num n]) 0 = ok () q" "ps_globals q = g" "prog q = [f', i1, i2, i3, i4]" by blast
  have "fetch (to_chunk q ''1'' orig) 1 = Some (mk_instr OP_LOAD_CONST 0 0)" by (simp add: fetch_def to_chunk_def 5 i1_def)
  then show ?thesis
    using 5 by (simp add: parse_def p 1 4 eval_nat_numeral ok_def del: parse_loop.simps)
qed

lemma lexeme_for:
  assumes "lexeme_ok s l" and "lk_kind l = LK_FOR"
  shows "take 3 (drop (lk_start l) s) = ''for''"
proof -
  let ?t = "take (lk_size l) (drop (lk_start l) s)"
  have "(LK_FOR, w) \<notin> set op_spellings" for w by (auto simp: op_spellings_def)
  then have "word_ok LK_FOR ?t (drop (lk_start l + lk_size l) s)"
    using assms by (auto simp: lexeme_ok_def Let_def longest_op_def split: if_splits)
  then obtain b where "map_of keyword_list ?t = Some (LK_FOR, b)" by (auto simp: word_ok_def split: option.splits)
  from map_of_SomeD [OF this] have t: "?t = ''for''" by (auto simp: keyword_list_def)
  then have "length ?t = 3" by simp
  then have "3 \<le> lk_size l" by simp
  then have "take 3 (drop (lk_start l) s) = take 3 ?t" by simp
  with t show ?thesis by simp
qed

lemma calm_without_for:
  assumes "2 * length s \<le> SIZE_MAX" and "\<And>i. i < length s \<Longrightarrow> take 3 (drop i s) \<noteq> ''for''"
  shows "calm_source s"
proof -
  obtain ls where ls: "lex_source s = Some ls" "tiled s 0 ls" using lex_source_yields [OF assms(1)] by (auto simp: yields_iff_ex)
  have "lk_kind l \<noteq> LK_FOR" if "l \<in> set ls" for l
  proof
    assume "lk_kind l = LK_FOR"
    from lexeme_for [OF tiled_lexeme_ok [OF ls(2) that] this] have w: "take 3 (drop (lk_start l) s) = ''for''" .
    then have "lk_start l < length s" by (metis drop_all leI list.distinct(1) take_Nil)
    with assms(2) w show False by blast
  qed
  then have "calm (map lk_kind ls)" by (induction ls) auto
  then show ?thesis by (simp add: calm_source_def ls(1))
qed

definition small_state :: vm_state where
  "small_state = \<lparr>vm_globals = the globals_new, vm_heap = [], vm_ntp = ntp_from_prec deci_ref 20, vm_out = [], vm_reads = 0\<rparr>"

lemma small_state_ok: "state_ok deci_ref T small_state" "nglobals small_state = 0" "globals_ok (vm_globals small_state)"
proof -
  obtain g where g: "globals_new = Some g" "globals_ok g" "g_data (g :: val globals) = []"
    using globals_new_yields by (auto simp: yields_iff_ex)
  then show "state_ok deci_ref T small_state" "nglobals small_state = 0" "globals_ok (vm_globals small_state)"
    using ntp_from_prec_ok [OF deci_ref_ok, of 20] by (auto simp: state_ok_def small_state_def heap_ok_def g)
qed

lemma small_calm: "calm_source ''1''"
  by (rule calm_without_for) (simp_all add: SIZE_MAX_def)

lemma small_fits: "fits deci_ref (length ''1'')"
  by (simp add: fits_def SIZEOF_NUMBER_def SIZE_MAX_def)

lemma small_program:
  "\<exists>f. parse deci_ref 5 g ''1'' orig = Some (Inr f, g) \<and> fetch (f_chunk f) (f_ip f + 1) = Some (mk_instr OP_LOAD_CONST 0 0)"
proof -
  have "number_parse_base_validate ''1'' 10" by (simp add: number_parse_base_validate_def decode_def)
  from number_parse_yields [OF deci_ref_ok this small_fits] obtain n where "number_parse deci_ref ''1'' = Some n"
    by (auto simp: yields_iff_ex)
  then show ?thesis by (rule small_parse)
qed

lemma small_admitted: "admitted deci_ref small_state ''1'' 5"
  using small_fits small_calm small_state_ok(2) by (simp add: admitted_def)

lemma small_start:
  assumes "parse deci_ref 5 (vm_globals small_state) ''1'' ''test'' = Some (Inr f, vm_globals small_state)"
  obtains r where "eval_start f 0 = Some (Inr r)"
  using loaded_runs [of sample_env small_state "''1''" 5 "''test''" f "vm_globals small_state"] assms small_state_ok(1) small_admitted that
  by (auto simp: sample_env_ok yields_iff_ex small_state_def)

section \<open>Properties\<close>

text \<open>
  C4: Compiled code is well typed. Parsing a source, with functions, loops, conditions and assignments of any
  nesting, always returns; and when it does not report an error, the code of every function of the source is
  accepted by the verifier of the machine: along all its paths the stack has one height at every instruction,
  never falls below what an instruction takes nor rises above the \<open>maxstack\<close> that \<open>close_scope\<close> computes, jumps
  stay within the function, and operands refer to constants, variables and functions that there are. The sources
  have at most \<open>2 ^ 26\<close> characters and define no function after a \<open>for\<close> in the same block, and there are at most
  \<open>2 ^ 29\<close> global variables.
\<close>

theorem compiled_code_accepted:
  assumes "deci_ok D" and "fits D (length inp)" and "length inp \<le> 2 ^ 26" and "globals_ok g" and "length (g_data g) \<le> 2 ^ 29"
    and "calm_source inp" and "2 * length inp + 3 \<le> k"
  shows "yields (parse D k g inp orig) (\<lambda>(r, g'). case r of Inl e \<Rightarrow> True | Inr f \<Rightarrow> accepted D (length (g_data g')) f)"
  using parse_ok [of "\<lparr>w_deci = D, w_src = inp, w_globals = g\<rparr>" k orig] assms
  by (auto simp: setting_ok_def elim!: yields_conseq split: sum.splits)

theorem compiled_code_accepted_witness:
  "\<exists>f. parse deci_ref 5 (vm_globals small_state) ''1'' ''test'' = Some (Inr f, vm_globals small_state) \<and> accepted deci_ref 0 f"
proof -
  obtain f where f: "parse deci_ref 5 (vm_globals small_state) ''1'' ''test'' = Some (Inr f, vm_globals small_state)"
    using small_program by blast
  then show ?thesis
    using compiled_code_accepted [OF deci_ref_ok small_fits _ small_state_ok(3) _ small_calm, of 5 "''test''"] small_state_ok(2) by auto
qed

text \<open>
  C39: Parsing leaves the global variables as they are, also when it reports an error: every variable keeps its value
  and its number, on which code compiled before relies, and those that are added have no value yet. The sources are
  those of at most \<open>2 ^ 26\<close> characters that define no function after a \<open>for\<close> in the same block, with at most
  \<open>2 ^ 29\<close> global variables.
\<close>

theorem parse_keeps_globals:
  assumes "deci_ok D" and "fits D (length inp)" and "length inp \<le> 2 ^ 26" and "globals_ok g" and "length (g_data g) \<le> 2 ^ 29"
    and "calm_source inp" and "2 * length inp + 3 \<le> k"
  shows "yields (parse D k g inp orig) (\<lambda>(r, g'). globals_ok g' \<and> genv g' = genv g \<and> (\<forall>a i. slot g a = Some i \<longrightarrow> slot g' a = Some i))"
  using parse_ok [of "\<lparr>w_deci = D, w_src = inp, w_globals = g\<rparr>" k orig] assms
  by (auto simp: setting_ok_def elim!: yields_conseq)

theorem parse_keeps_globals_witness:
  "yields (parse deci_ref 107 (vm_globals small_state) ''fun f(n) { while (n > 0) { n -= 1; } return n + x; }'' ''test'')
     (\<lambda>(r, g'). globals_ok g' \<and> genv g' = genv (vm_globals small_state))"
proof -
  let ?s = "''fun f(n) { while (n > 0) { n -= 1; } return n + x; }''"
  have "calm_source ?s"
  proof (rule calm_without_for)
    fix i assume "i < length ?s"
    then have "i \<in> set [0..<length ?s]" by (simp only: set_upt atLeastLessThan_iff) simp
    moreover have "list_all (\<lambda>i. take 3 (drop i ?s) \<noteq> ''for'') [0..<length ?s]" by code_simp
    ultimately show "take 3 (drop i ?s) \<noteq> ''for''" unfolding list_all_iff by (rule bspec [rotated])
  qed (simp add: SIZE_MAX_def)
  moreover have "fits deci_ref (length ?s)" by (simp add: fits_def SIZEOF_NUMBER_def SIZE_MAX_def)
  ultimately show ?thesis
    using parse_keeps_globals [OF deci_ref_ok _ _ small_state_ok(3), of ?s 107 "''test''"] small_state_ok(2) by (auto elim!: yields_conseq)
qed

text \<open>
  C3: Compiled programs run safely. In a machine in which any \<open>admitted\<close> sources have been compiled and run (at most
  \<open>2 ^ 26\<close> characters, at most \<open>2 ^ 29\<close> global variables, no function defined after a \<open>for\<close> in the same block), an
  admitted source that compiles starts. In every state that it reaches by instructions with memory (\<open>roomy\<close>) that do
  not move the value stack while they scatter or gather the arguments of a call (\<open>still\<close>), the value stack is within
  its capacity, \<open>locals\<close> points into it and the instruction pointer is in the code, although the machine checks none
  of this. Native functions are arbitrary, as long as they keep the state well formed.
\<close>

theorem compiled_program_safe:
  assumes "env_ok E (verified (e_deci E))" and "state_ok (e_deci E) (verified (e_deci E)) st0" and "session E st0 st"
    and "admitted (e_deci E) st inp k" and "parse (e_deci E) k (vm_globals st) inp orig = Some (Inr f, g)"
  shows "yields (eval_start f (length (vm_heap st))) (\<lambda>res. \<exists>r. res = Inr r \<and>
    (\<forall>st' r'. run E (loaded st g f, r) (st', r') \<longrightarrow> in_bounds r'))"
  using loaded_runs [OF assms(1) session_ok [OF assms(3,1,2)] assms(4,5)] by (rule yields_conseq) blast

theorem compiled_program_safe_witness:
  "\<exists>f. parse deci_ref 5 (vm_globals small_state) ''1'' ''test'' = Some (Inr f, vm_globals small_state) \<and>
     yields (eval_start f 0) (\<lambda>res. \<exists>r. res = Inr r \<and>
       (\<forall>st' r'. run sample_env (loaded small_state (vm_globals small_state) f, r) (st', r') \<longrightarrow> in_bounds r'))"
proof -
  obtain f where f: "parse deci_ref 5 (vm_globals small_state) ''1'' ''test'' = Some (Inr f, vm_globals small_state)"
    using small_program by blast
  have "yields (eval_start f (length (vm_heap small_state))) (\<lambda>res. \<exists>r. res = Inr r \<and>
       (\<forall>st' r'. run sample_env (loaded small_state (vm_globals small_state) f, r) (st', r') \<longrightarrow> in_bounds r'))"
    by (rule compiled_program_safe [OF _ _ session_start])
      (use f small_state_ok(1) small_admitted in \<open>simp_all add: sample_env_ok\<close>)
  then show ?thesis using f by (auto simp: small_state_def)
qed

text \<open>
  C5: Compiled programs do not get stuck but where they run out of memory or move the value stack while they scatter
  or gather the arguments of a call. In every state that an \<open>admitted\<close> source (at most \<open>2 ^ 26\<close> characters, at most
  \<open>2 ^ 29\<close> global variables, no function defined after a \<open>for\<close> in the same block) reaches without either, if there is
  memory for the next instruction and the native function that it calls returns (\<open>roomy\<close>), and it does not move the
  stack in this way (\<open>still\<close>), the machine executes it: it returns a value, throws an error of the language, or goes
  on, and then the same holds again. No such instruction pops an empty stack, pushes past the capacity or reads a
  variable, constant or instruction that is not there.
\<close>

theorem compiled_program_progress:
  assumes "env_ok E (verified (e_deci E))" and "state_ok (e_deci E) (verified (e_deci E)) st0" and "session E st0 st"
    and "admitted (e_deci E) st inp k" and "parse (e_deci E) k (vm_globals st) inp orig = Some (Inr f, g)"
    and "eval_start f (length (vm_heap st)) = Some (Inr r)" and "run E (loaded st g f, r) (st', r')" and "roomy E (st', r')" and "still (st', r')"
  shows "yields (step E st' r') (\<lambda>(st'', out). case out of
    Running r'' \<Rightarrow> run E (loaded st g f, r) (st'', r'') | Done v \<Rightarrow> val_ok (e_deci E) (vm_heap st'') v | Thrown m \<Rightarrow> True)"
proof -
  have "run E (loaded st g f, r) (st', r') \<Longrightarrow> roomy E (st', r') \<Longrightarrow> still (st', r') \<Longrightarrow>
      yields (step E st' r') (\<lambda>(st'', out). state_ok (e_deci E) (verified (e_deci E)) st'' \<and>
       (case out of Running r'' \<Rightarrow> in_bounds r'' | Done v \<Rightarrow> val_ok (e_deci E) (vm_heap st'') v | Thrown m \<Rightarrow> True))"
    using loaded_runs [OF assms(1) session_ok [OF assms(3,1,2)] assms(4,5)] assms(6) by simp
  from this [OF assms(7-9)] obtain st'' out where "step E st' r' = Some (st'', out)"
    "case out of Running r'' \<Rightarrow> in_bounds r'' | Done v \<Rightarrow> val_ok (e_deci E) (vm_heap st'') v | Thrown m \<Rightarrow> True"
    by (auto simp: yields_iff_ex)
  then show ?thesis using run_step [OF assms(7-9)] by (cases out) simp_all
qed

theorem compiled_program_progress_witness:
  "\<exists>f r. parse deci_ref 5 (vm_globals small_state) ''1'' ''test'' = Some (Inr f, vm_globals small_state) \<and> eval_start f 0 = Some (Inr r) \<and>
     step sample_env (loaded small_state (vm_globals small_state) f) r \<noteq> None"
proof -
  obtain f where f: "parse deci_ref 5 (vm_globals small_state) ''1'' ''test'' = Some (Inr f, vm_globals small_state)"
    and ins: "fetch (f_chunk f) (f_ip f + 1) = Some (mk_instr OP_LOAD_CONST 0 0)"
    using small_program by blast
  have heap: "vm_heap small_state = []" by (simp add: small_state_def)
  obtain r where r: "eval_start f 0 = Some (Inr r)" by (rule small_start [OF f])
  have "r_ip r = (f_chunk f, f_ip f + 1)" using r by (auto simp: eval_start_def map_sum_def split: option.splits sum.splits bind_splits)
  then have room: "roomy sample_env (loaded small_state (vm_globals small_state) f, r)" "still (loaded small_state (vm_globals small_state) f, r)"
    using ins by (simp_all add: roomy_def still_def step_room_def step_still_def Let_def)
  have "yields (step sample_env (loaded small_state (vm_globals small_state) f) r) (\<lambda>(st'', out). case out of
      Running r'' \<Rightarrow> run sample_env (loaded small_state (vm_globals small_state) f, r) (st'', r'')
      | Done v \<Rightarrow> val_ok (e_deci sample_env) (vm_heap st'') v | Thrown m \<Rightarrow> True)"
    by (rule compiled_program_progress [OF _ _ session_start])
      (use f small_state_ok(1) small_admitted r room in \<open>simp_all add: sample_env_ok heap run_refl\<close>)
  then show ?thesis using f r by (auto simp: yields_iff_ex)
qed

end
