(* ===== verification/Natives.thy ===== *)
theory Natives
  imports Compiled
begin

text \<open>
  The native functions of \<open>main.c\<close>. What they take from outside is a parameter: a \<open>host\<close> gives the lines, bytes,
  files, times and random words that they read, each as a function of how many reads there were before. The guards
  \<open>guardn\<close>, \<open>guardv\<close> and the like throw with \<open>longjmp\<close>, here \<open>Inl\<close>. What goes to \<open>stderr\<close> is not part of the
  state.
\<close>

section \<open>The host\<close>

text \<open>
  \<open>h_line\<close> is \<open>prompt_read_line\<close>, \<open>h_clock\<close> is \<open>clock_gettime\<close> with the seconds and nanoseconds, \<open>h_getchar\<close> is
  \<open>getchar\<close> with \<open>None\<close> for \<open>EOF\<close>, \<open>h_random\<close> reads \<open>/dev/urandom\<close> or fails with a message, \<open>h_file\<close> reads a
  file, \<open>h_stdin\<close> reads the standard input to its end, and \<open>h_path\<close> is the variable \<open>calx_path\<close>. \<open>h_wref\<close> is the identity of a new weak reference, and \<open>h_target\<close>
  the object that a weak reference refers to, as long as it has not been freed.
\<close>

record host =
  h_line :: "nat \<Rightarrow> string option"
  h_clock :: "nat \<Rightarrow> (nat \<times> nat) option"
  h_getchar :: "nat \<Rightarrow> char option"
  h_random :: "nat \<Rightarrow> string + nat"
  h_file :: "nat \<Rightarrow> string \<Rightarrow> string option"
  h_stdin :: "nat \<Rightarrow> string option"
  h_path :: "string option"
  h_wref :: "vm_state \<Rightarrow> nat \<Rightarrow> nat"
  h_target :: "vm_state \<Rightarrow> nat \<Rightarrow> nat option"

type_synonym reply = "(vm_state \<times> (string + val)) option"

definition after_read :: "vm_state \<Rightarrow> vm_state" where
  "after_read st = st\<lparr>vm_reads := vm_reads st + 1\<rparr>"

section \<open>Guards\<close>

text \<open>\<open>guarded st m f\<close>: the call \<open>m\<close> throws, or gives the value with which \<open>f\<close> goes on.\<close>

definition guarded :: "vm_state \<Rightarrow> 'a thrown \<Rightarrow> ('a \<Rightarrow> reply) \<Rightarrow> reply" where
  "guarded st m f = (case m of None \<Rightarrow> None | Some (Inl e) \<Rightarrow> Some (st, Inl e) | Some (Inr a) \<Rightarrow> f a)"

definition returns :: "vm_state \<Rightarrow> val option \<Rightarrow> reply" where
  "returns st v = map_option (\<lambda>v. (st, Inr v)) v"

definition guardn :: "nat \<Rightarrow> nat \<Rightarrow> unit thrown" where
  "guardn actual expect =
     Some (if actual \<noteq> expect then Inl (''# of arguments: expected '' @ show_zu expect @ '', got '' @ show_zu actual)
           else Inr ())"

definition guardn_range :: "nat \<Rightarrow> nat \<Rightarrow> nat \<Rightarrow> unit thrown" where
  "guardn_range actual expect_min expect_max =
     Some (if actual < expect_min \<or> actual > expect_max
           then Inl (''# of arguments: expected '' @ show_zu expect_min @ '' to '' @ show_zu expect_max @ '', got '' @ show_zu actual)
           else Inr ())"

text \<open>The arguments are not looked at before their number has been checked.\<close>

definition guardv :: "val list \<Rightarrow> nat \<Rightarrow> kind \<Rightarrow> val thrown" where
  "guardv args i kind =
     (if length args \<le> i then None
      else let v = args ! i in
        Some (if val_kind v \<noteq> kind
              then Inl (''argument #'' @ show_zu (i + 1) @ '': expected '' @ value_kind_name_long kind @ '', got '' @
                        value_kind_name_long (val_kind v))
              else Inr v))"

definition guardv_opt :: "val list \<Rightarrow> nat \<Rightarrow> kind \<Rightarrow> val option thrown" where
  "guardv_opt args i kind =
     (if length args \<le> i then None
      else let v = args ! i in
        Some (if val_kind v = VK_NIL then Inr None
              else if val_kind v \<noteq> kind
              then Inl (''argument #'' @ show_zu (i + 1) @ '': expected '' @ value_kind_name_long kind @ '' or nil, got '' @
                        value_kind_name_long (val_kind v))
              else Inr (Some v)))"

text \<open>The casts \<open>(Number *)\<close> and \<open>(String *)\<close> of a checked argument.\<close>

fun as_number :: "val \<Rightarrow> number option" where
  "as_number (V_Num n) = Some n"
| "as_number _ = None"

fun as_string :: "val \<Rightarrow> cstring option" where
  "as_string (V_Str s) = Some s"
| "as_string _ = None"

definition guarded_number :: "vm_state \<Rightarrow> val list \<Rightarrow> nat \<Rightarrow> (number \<Rightarrow> reply) \<Rightarrow> reply" where
  "guarded_number st args i f = guarded st (guardv args i VK_NUM) (\<lambda>v. do { n \<leftarrow> as_number v; f n })"

definition guarded_string :: "vm_state \<Rightarrow> val list \<Rightarrow> nat \<Rightarrow> (cstring \<Rightarrow> reply) \<Rightarrow> reply" where
  "guarded_string st args i f = guarded st (guardv args i VK_STR) (\<lambda>v. do { s \<leftarrow> as_string v; f s })"

definition guard_scale :: "deci \<Rightarrow> number \<Rightarrow> nat thrown" where
  "guard_scale D x =
     (let r = number_to_zu D x in
      Some (if r = SIZE_MAX then Inl (if sign x then ''scale is negative'' else ''scale is too big'') else Inr r))"

definition guard_base :: "deci \<Rightarrow> number \<Rightarrow> nat thrown" where
  "guard_base D x =
     (let r = number_to_zu D x in Some (if r < 2 \<or> r > 36 then Inl ''invalid base'' else Inr r))"

definition guard_magnitude :: "deci \<Rightarrow> number \<Rightarrow> nat thrown" where
  "guard_magnitude D x =
     (let r = number_to_zu D x in
      Some (if r = SIZE_MAX then Inl (if sign x then ''scale magnitude is negative'' else ''scale magnitude is too big'')
            else Inr r))"

section \<open>Values and lists\<close>

text \<open>\<open>Dasm\<close> prints to \<open>stderr\<close>, and so does \<open>Where\<close>.\<close>

definition X_Dasm :: "vm_state \<Rightarrow> val list \<Rightarrow> reply" where
  "X_Dasm st args =
     guarded st (guardn (length args) 1) (\<lambda>_.
     guarded st (guardv args 0 VK_FUNC) (\<lambda>_. returns st (Some V_Nil)))"

definition X_Where :: "vm_state \<Rightarrow> val list \<Rightarrow> reply" where
  "X_Where st args = guarded st (guardn (length args) 0) (\<lambda>_. returns st (Some V_Nil))"

definition X_Kind :: "vm_state \<Rightarrow> val list \<Rightarrow> reply" where
  "X_Kind st args =
     guarded st (guardn (length args) 1) (\<lambda>_.
       returns st (map_option V_Str (string_new (value_kind_name (val_kind (args ! 0))))))"

definition X_Pop :: "vm_state \<Rightarrow> val list \<Rightarrow> reply" where
  "X_Pop st args =
     guarded st (guardn (length args) 1) (\<lambda>_.
     guarded st (guardv args 0 VK_LIST) (\<lambda>v.
       case v of
         V_List a \<Rightarrow> do {
           l \<leftarrow> heap_list (vm_heap st) a;
           if l_data l = [] then Some (st, Inl ''the list is empty'')
           else do {
             (l, r) \<leftarrow> list_pop l;
             Some (st\<lparr>vm_heap := (vm_heap st)[a := O_List l]\<rparr>, Inr r)
           }
         }
       | _ \<Rightarrow> None))"

definition X_RemoveKey :: "vm_state \<Rightarrow> val list \<Rightarrow> reply" where
  "X_RemoveKey st args =
     guarded st (guardn (length args) 2) (\<lambda>_.
     guarded st (guardv args 0 VK_DICT) (\<lambda>v.
     guarded_string st args 1 (\<lambda>s.
       case v of
         V_Dict a \<Rightarrow> do {
           d \<leftarrow> heap_dict (vm_heap st) a;
           (d, _) \<leftarrow> dict_remove d s;
           Some (st\<lparr>vm_heap := (vm_heap st)[a := O_Dict d]\<rparr>, Inr V_Nil)
         }
       | _ \<Rightarrow> None)))"

definition X_NextKey_native :: "vm_state \<Rightarrow> val list \<Rightarrow> reply" where
  "X_NextKey_native st args =
     guarded st (guardn (length args) 2) (\<lambda>_.
     guarded st (guardv args 0 VK_DICT) (\<lambda>v.
     guarded st (guardv_opt args 1 VK_STR) (\<lambda>s.
       case v of
         V_Dict a \<Rightarrow> do {
           d \<leftarrow> heap_dict (vm_heap st) a;
           s \<leftarrow> (case s of None \<Rightarrow> Some None | Some v \<Rightarrow> map_option Some (as_string v));
           r \<leftarrow> X_NextKey d s;
           returns st (Some (case r of None \<Rightarrow> V_Nil | Some k \<Rightarrow> V_Str k))
         }
       | _ \<Rightarrow> None)))"

definition value_kind_is_wrefable :: "kind \<Rightarrow> bool" where
  "value_kind_is_wrefable k \<longleftrightarrow> k = VK_DICT \<or> k = VK_LIST"

definition X_Wref :: "host \<Rightarrow> vm_state \<Rightarrow> val list \<Rightarrow> reply" where
  "X_Wref H st args =
     guarded st (guardn (length args) 1) (\<lambda>_.
       let v = args ! 0 in
       if \<not> value_kind_is_wrefable (val_kind v)
       then Some (st, Inl (''cannot make weakref to '' @ value_kind_name (val_kind v) @ '' value''))
       else case v of
         V_List a \<Rightarrow> returns st (Some (V_Wref (h_wref H st a)))
       | V_Dict a \<Rightarrow> returns st (Some (V_Wref (h_wref H st a)))
       | _ \<Rightarrow> None)"

definition X_Wvalue :: "host \<Rightarrow> vm_state \<Rightarrow> val list \<Rightarrow> reply" where
  "X_Wvalue H st args =
     guarded st (guardn (length args) 1) (\<lambda>_.
     guarded st (guardv args 0 VK_WREF) (\<lambda>v.
       case v of
         V_Wref w \<Rightarrow>
           (case h_target H st w of
              None \<Rightarrow> returns st (Some V_Nil)
            | Some a \<Rightarrow> returns st (if heap_list (vm_heap st) a \<noteq> None then Some (V_List a)
                else if heap_dict (vm_heap st) a \<noteq> None then Some (V_Dict a) else None))
       | _ \<Rightarrow> None))"

section \<open>Input and output\<close>

definition X_Input :: "host \<Rightarrow> vm_state \<Rightarrow> val list \<Rightarrow> reply" where
  "X_Input H st args =
     guarded st (guardn (length args) 0) (\<lambda>_.
       let r = string_new (case h_line H (vm_reads st) of None \<Rightarrow> [] | Some s \<Rightarrow> s) in
       returns (after_read st) (map_option V_Str r))"

text \<open>
  \<open>L\<close> and \<open>s\<close> pass \<open>getline\<close> two variables that have not been initialised, so that what it does, which frees or
  writes to the buffer, is undefined.
\<close>

definition X_RawRead :: "host \<Rightarrow> vm_state \<Rightarrow> val list \<Rightarrow> reply" where
  "X_RawRead H st args =
     guarded st (guardn (length args) 1) (\<lambda>_.
     guarded_string st args 0 (\<lambda>s.
       let invalid_arg = Some (st, Inl (''invalid argument; expected either of: '' @ [CHR 0x22] @ ''L'' @ [CHR 0x22] @ '', '' @
             [CHR 0x22] @ ''s'' @ [CHR 0x22] @ '', '' @ [CHR 0x22] @ ''B'' @ [CHR 0x22])) in
       if s_size s \<noteq> 1 then invalid_arg
       else let c = hd (s_data s) in
         if c = CHR ''L'' then None
         else if c = CHR ''s'' then None
         else if c = CHR ''B'' then
           returns (after_read st) (map_option V_Str
             (case h_getchar H (vm_reads st) of None \<Rightarrow> string_new [] | Some c \<Rightarrow> string_new [c]))
         else invalid_arg))"

definition X_RawWrite :: "vm_state \<Rightarrow> val list \<Rightarrow> reply" where
  "X_RawWrite st args =
     guarded st (guardn (length args) 1) (\<lambda>_.
     guarded_string st args 0 (\<lambda>s. returns (st\<lparr>vm_out := vm_out st @ s_data s\<rparr>) (Some V_Nil)))"

text \<open>\<open>%09u\<close> of the nanoseconds.\<close>

definition pad9 :: "nat \<Rightarrow> string" where
  "pad9 n = (let s = show_zu n in replicate (9 - length s) (CHR ''0'') @ s)"

definition X_Clock :: "deci \<Rightarrow> host \<Rightarrow> vm_state \<Rightarrow> val list \<Rightarrow> reply" where
  "X_Clock D H st args =
     guarded st (guardn (length args) 0) (\<lambda>_.
       case h_clock H (vm_reads st) of
         None \<Rightarrow> Some (after_read st, Inl ''clock_gettime() failed'')
       | Some (tv_sec, tv_nsec) \<Rightarrow>
           returns (after_read st) (map_option V_Num
             (number_parse D (show_zu (tv_sec mod 2 ^ 64) @ ''.'' @ pad9 (tv_nsec mod 2 ^ 32)))))"

text \<open>The words come from a buffer that is read ahead, in order.\<close>

definition X_Random32 :: "deci \<Rightarrow> host \<Rightarrow> vm_state \<Rightarrow> val list \<Rightarrow> reply" where
  "X_Random32 D H st args =
     guarded st (guardn (length args) 0) (\<lambda>_.
       case h_random H (vm_reads st) of
         Inl e \<Rightarrow> Some (after_read st, Inl e)
       | Inr w \<Rightarrow> returns (after_read st) (map_option V_Num (number_new_from_zu D (w mod 2 ^ 32))))"

section \<open>Strings\<close>

definition X_Ord :: "deci \<Rightarrow> vm_state \<Rightarrow> val list \<Rightarrow> reply" where
  "X_Ord D st args =
     guarded st (guardn (length args) 1) (\<lambda>_.
     guarded_string st args 0 (\<lambda>s.
       if s_size s \<noteq> 1 then Some (st, Inl ''can only be applied to a single-character string'')
       else returns st (map_option V_Num (number_new_from_zu D (of_char (hd (s_data s)))))))"

text \<open>The conversion to \<open>char\<close> keeps the lowest byte.\<close>

definition X_Chr :: "deci \<Rightarrow> vm_state \<Rightarrow> val list \<Rightarrow> reply" where
  "X_Chr D st args =
     guarded st (guardn (length args) 1) (\<lambda>_.
     guarded_number st args 0 (\<lambda>n.
       returns st (map_option V_Str (string_new [char_of (unat (number_to_u32 D n))]))))"

text \<open>\<open>%.*s\<close> stops at a zero byte.\<close>

definition X_Error :: "vm_state \<Rightarrow> val list \<Rightarrow> reply" where
  "X_Error st args =
     guarded st (guardn (length args) 1) (\<lambda>_.
     guarded_string st args 0 (\<lambda>s.
       let ns = (if s_size s > 8192 then 8192 else s_size s) in
       Some (st, Inl (takeWhile (\<lambda>c. c \<noteq> CHR 0x00) (take ns (s_data s))))))"

section \<open>Numbers\<close>

definition X_Scale :: "deci \<Rightarrow> vm_state \<Rightarrow> val list \<Rightarrow> reply" where
  "X_Scale D st args =
     guarded st (guardn_range (length args) 0 1) (\<lambda>_.
       if length args = 0 then do {
         p \<leftarrow> ntp_to_prec D (vm_ntp st);
         returns st (map_option V_Num (number_new_from_zu D p))
       } else
         guarded_number st args 0 (\<lambda>n.
         guarded st (guard_scale D n) (\<lambda>p.
           returns (st\<lparr>vm_ntp := ntp_from_prec D p\<rparr>) (Some V_Nil))))"

text \<open>\<open>X_Trunc\<close>, \<open>X_Floor\<close>, \<open>X_Ceil\<close>, \<open>X_Round\<close> and \<open>X_Frac\<close> differ in the operation only.\<close>

definition X_unary :: "(number \<Rightarrow> number option) \<Rightarrow> vm_state \<Rightarrow> val list \<Rightarrow> reply" where
  "X_unary f st args =
     guarded st (guardn (length args) 1) (\<lambda>_. guarded_number st args 0 (\<lambda>n. returns st (map_option V_Num (f n))))"

definition X_Trunc :: "deci \<Rightarrow> vm_state \<Rightarrow> val list \<Rightarrow> reply" where
  "X_Trunc D = X_unary (number_trunc D)"

definition X_Floor :: "deci \<Rightarrow> vm_state \<Rightarrow> val list \<Rightarrow> reply" where
  "X_Floor D = X_unary (number_floor D)"

definition X_Ceil :: "deci \<Rightarrow> vm_state \<Rightarrow> val list \<Rightarrow> reply" where
  "X_Ceil D = X_unary (number_ceil D)"

definition X_Round :: "deci \<Rightarrow> vm_state \<Rightarrow> val list \<Rightarrow> reply" where
  "X_Round D = X_unary (number_round D)"

definition X_Frac :: "deci \<Rightarrow> vm_state \<Rightarrow> val list \<Rightarrow> reply" where
  "X_Frac D = X_unary (number_frac D)"

definition X_ToNumber :: "deci \<Rightarrow> vm_state \<Rightarrow> val list \<Rightarrow> reply" where
  "X_ToNumber D st args =
     guarded st (guardn (length args) 1) (\<lambda>_.
     guarded_string st args 0 (\<lambda>s.
       if \<not> number_parse_base_validate (s_data s) 10 then Some (st, Inl ''invalid number format'')
       else returns st (map_option V_Num (number_parse D (s_data s)))))"

definition X_Encode :: "deci \<Rightarrow> vm_state \<Rightarrow> val list \<Rightarrow> reply" where
  "X_Encode D st args =
     guarded st (guardn_range (length args) 2 3) (\<lambda>_.
     guarded_number st args 0 (\<lambda>a.
     guarded_number st args 1 (\<lambda>b.
     guarded st (if length args = 3 then guardv_opt args 2 VK_NUM else Some (Inr None)) (\<lambda>s.
     guarded st (case s of None \<Rightarrow> Some (Inr 0) | Some v \<Rightarrow> do { n \<leftarrow> as_number v; guard_scale D n }) (\<lambda>scale.
     guarded st (guard_base D b) (\<lambda>base. do {
       nr \<leftarrow> number_tostring_base_size D a base scale;
       if nr = SIZE_MAX then None
       else do {
         r \<leftarrow> string_new [];
         r \<leftarrow> string_hot_append_begin r nr;
         x \<leftarrow> number_tostring_base D a base scale nr;
         r \<leftarrow> string_hot_append_end r x;
         returns st (Some (V_Str r))
       }
     }))))))"

definition X_Decode :: "deci \<Rightarrow> vm_state \<Rightarrow> val list \<Rightarrow> reply" where
  "X_Decode D st args =
     guarded st (guardn (length args) 2) (\<lambda>_.
     guarded_string st args 0 (\<lambda>s.
     guarded_number st args 1 (\<lambda>b.
     guarded st (guard_base D b) (\<lambda>base.
       if \<not> number_parse_base_validate (s_data s) base then Some (st, Inl ''invalid number format'')
       else returns st (map_option V_Num (number_parse_base D (s_data s) base (vm_ntp st)))))))"

definition X_NumDigits :: "deci \<Rightarrow> vm_state \<Rightarrow> val list \<Rightarrow> reply" where
  "X_NumDigits D st args =
     guarded st (guardn (length args) 2) (\<lambda>_.
     guarded_number st args 0 (\<lambda>x.
     guarded_string st args 1 (\<lambda>s.
       let invalid_str = Some (st, Inl (''invalid second argument; expected either of: '' @ [CHR 0x22] @ ''i'' @ [CHR 0x22] @ '', '' @
             [CHR 0x22] @ ''f'' @ [CHR 0x22] @ '', '' @ [CHR 0x22] @ ''+'' @ [CHR 0x22]));
           digits = (\<lambda>n. if n = SIZE_MAX then Some (st, Inl ''overflow (result >= SIZE_MAX)'')
                         else returns st (map_option V_Num (number_new_from_zu D n))) in
       if s_size s \<noteq> 1 then invalid_str
       else let c = hd (s_data s) in
         if c = CHR ''i'' then digits (number_nintdigits D x)
         else if c = CHR ''f'' then do { n \<leftarrow> number_nfracdigits D x; digits n }
         else if c = CHR ''+'' then do {
           n2 \<leftarrow> number_nfracdigits D x;
           digits (uu_add_zu_or_saturate (number_nintdigits D x) n2)
         } else invalid_str)))"

definition X_DownScale :: "deci \<Rightarrow> vm_state \<Rightarrow> val list \<Rightarrow> reply" where
  "X_DownScale D st args =
     guarded st (guardn (length args) 2) (\<lambda>_.
     guarded_number st args 0 (\<lambda>x.
     guarded_number st args 1 (\<lambda>m.
     guarded st (guard_magnitude D m) (\<lambda>mag. returns st (map_option V_Num (number_scale_down D x mag))))))"

definition X_UpScale :: "deci \<Rightarrow> vm_state \<Rightarrow> val list \<Rightarrow> reply" where
  "X_UpScale D st args =
     guarded st (guardn (length args) 2) (\<lambda>_.
     guarded_number st args 0 (\<lambda>x.
     guarded_number st args 1 (\<lambda>m.
     guarded st (guard_magnitude D m) (\<lambda>mag. returns st (map_option V_Num (number_scale_up D x mag))))))"

section \<open>Compiling at run time\<close>

text \<open>
  \<open>load_string\<close>, with the compiled function as a new object, or the parse error that it prints and the state in
  which the variables that it met exist. Fuel for the parser is taken from the length of the source.
\<close>

definition parse_fuel :: "string \<Rightarrow> nat" where
  "parse_fuel txt = 2 * length txt + 3"

definition load_string :: "deci \<Rightarrow> vm_state \<Rightarrow> string \<Rightarrow> string \<Rightarrow> (vm_state \<times> (parse_error + nat)) option" where
  "load_string D st txt orig =
     do {
       (r, g) \<leftarrow> parse D (parse_fuel txt) (vm_globals st) txt orig;
       let st = st\<lparr>vm_globals := g\<rparr>;
       Some (case r of
         Inl e \<Rightarrow> (st, Inl e)
       | Inr f \<Rightarrow> let (h, a) = heap_alloc (vm_heap st) (O_Func f) in (st\<lparr>vm_heap := h\<rparr>, Inr a))
     }"

definition X_LoadString :: "deci \<Rightarrow> vm_state \<Rightarrow> val list \<Rightarrow> reply" where
  "X_LoadString D st args =
     guarded st (guardn (length args) 1) (\<lambda>_.
     guarded_string st args 0 (\<lambda>s. do {
       (st, r) \<leftarrow> load_string D st (s_data s) ''(LoadString() arg)'';
       Some (st, case r of Inl _ \<Rightarrow> Inl ''compilation failed'' | Inr a \<Rightarrow> Inr (V_Func a))
     }))"

text \<open>\<open>load_fd\<close>: what has been read of a file, and how it is called. A file that cannot be read gives no function.\<close>

definition load_fd :: "deci \<Rightarrow> vm_state \<Rightarrow> string option \<Rightarrow> string \<Rightarrow> (vm_state \<times> nat option) option" where
  "load_fd D st buf orig =
     (case buf of
        None \<Rightarrow> Some (after_read st, None)
      | Some txt \<Rightarrow> do {
          (st, r) \<leftarrow> load_string D (after_read st) txt orig;
          Some (st, case r of Inl _ \<Rightarrow> None | Inr a \<Rightarrow> Some a)
        })"

definition load_file :: "deci \<Rightarrow> host \<Rightarrow> vm_state \<Rightarrow> string \<Rightarrow> (vm_state \<times> nat option) option" where
  "load_file D H st file = load_fd D st (h_file H (vm_reads st) file) file"

text \<open>The module is evaluated by \<open>ev\<close>, which is \<open>state_eval\<close>.\<close>

definition X_Require :: "deci \<Rightarrow> host \<Rightarrow> (vm_state \<Rightarrow> nat \<Rightarrow> reply) \<Rightarrow> vm_state \<Rightarrow> val list \<Rightarrow> reply" where
  "X_Require D H ev st args =
     guarded st (guardn (length args) 1) (\<lambda>_.
     guarded_string st args 0 (\<lambda>s.
       case h_path H of
         None \<Rightarrow> Some (st, Inl ''cannot Require(): CALX_PATH was not set'')
       | Some calx_path \<Rightarrow>
           if s_size s = 0 then Some (st, Inl ''empty string passed'')
           else if \<exists>c \<in> set (s_data s). c \<in> {CHR 0x00, CHR ''.'', CHR ''/''}
           then Some (st, Inl ''module name contains prohibited symbol'')
           else if s_size s > 8192 then Some (st, Inl ''module name is too long'')
           else do {
             (st, f) \<leftarrow> load_file D H st (calx_path @ ''/'' @ s_data s @ ''.calx'');
             (case f of
                None \<Rightarrow> Some (st, Inl ''cannot load module'')
              | Some a \<Rightarrow> do {
                  (st, r) \<leftarrow> ev st a;
                  Some (st, case r of Inl _ \<Rightarrow> Inl ''module evaluation failed'' | Inr v \<Rightarrow> Inr v)
                })
           }))"

section \<open>The table of natives\<close>

text \<open>What \<open>make_state\<close> puts into the global variables; a \<open>V_CFunc\<close> carries the place in this list.\<close>

definition natives :: "deci \<Rightarrow> host \<Rightarrow> (vm_state \<Rightarrow> nat \<Rightarrow> reply) \<Rightarrow> (string \<times> (vm_state \<Rightarrow> val list \<Rightarrow> reply)) list" where
  "natives D H ev =
     [(''Dasm'', X_Dasm), (''Kind'', X_Kind), (''Pop'', X_Pop), (''RemoveKey'', X_RemoveKey), (''Input'', X_Input H),
      (''Ord'', X_Ord D), (''Chr'', X_Chr D), (''Error'', X_Error), (''RawRead'', X_RawRead H), (''RawWrite'', X_RawWrite),
      (''Clock'', X_Clock D H), (''Scale'', X_Scale D), (''Where'', X_Where), (''Random32'', X_Random32 D H),
      (''trunc'', X_Trunc D), (''floor'', X_Floor D), (''ceil'', X_Ceil D), (''round'', X_Round D), (''frac'', X_Frac D),
      (''LoadString'', X_LoadString D), (''Require'', X_Require D H ev), (''NextKey'', X_NextKey_native),
      (''ToNumber'', X_ToNumber D), (''Encode'', X_Encode D), (''Decode'', X_Decode D), (''NumDigits'', X_NumDigits D),
      (''DownScale'', X_DownScale D), (''UpScale'', X_UpScale D), (''Wref'', X_Wref H), (''Wvalue'', X_Wvalue H)]"

definition native :: "deci \<Rightarrow> host \<Rightarrow> (vm_state \<Rightarrow> nat \<Rightarrow> reply) \<Rightarrow> nat \<Rightarrow> vm_state \<Rightarrow> val list \<Rightarrow> reply" where
  "native D H ev i st args =
     (let fs = natives D H ev in if i < length fs then snd (fs ! i) st args else None)"

fun inject :: "val globals \<Rightarrow> string list \<Rightarrow> nat \<Rightarrow> val globals option" where
  "inject g [] i = Some g"
| "inject g (name # names) i = do { g \<leftarrow> state_steal_global g name (V_CFunc i); inject g names (i + 1) }"

end
