(* ===== verification/Natives_Ok.thy ===== *)
theory Natives_Ok
  imports Natives
begin

text \<open>
  Every native function returns, as long as there is memory for what it makes, and keeps the state well formed:
  what the machine relies on when it calls one.
\<close>

section \<open>Replies\<close>

definition replies :: "deci \<Rightarrow> (chunk \<Rightarrow> annotation) \<Rightarrow> vm_state \<Rightarrow> reply \<Rightarrow> bool" where
  "replies D T st r \<longleftrightarrow> yields r (\<lambda>(st', res). state_ok D T st' \<and> heap_le (vm_heap st) (vm_heap st') \<and> nglobals st \<le> nglobals st' \<and>
     result_ok D (vm_heap st') res)"

named_theorems reply_intros

lemma replies_throws [reply_intros]: "state_ok D T st \<Longrightarrow> replies D T st (Some (st, Inl e))"
  by (simp add: replies_def)

lemma replies_value: "state_ok D T st \<Longrightarrow> val_ok D (vm_heap st) v \<Longrightarrow> replies D T st (Some (st, Inr v))"
  by (simp add: replies_def)

lemma replies_returns:
  assumes "state_ok D T st'" and "vm_heap st' = vm_heap st" and "vm_globals st' = vm_globals st" and "yields v (val_ok D (vm_heap st))"
  shows "replies D T st (returns st' v)"
  using assms by (auto simp: replies_def returns_def yields_iff_ex)

lemma replies_same [reply_intros]:
  "state_ok D T st \<Longrightarrow> yields v (val_ok D (vm_heap st)) \<Longrightarrow> replies D T st (returns st v)"
  by (rule replies_returns) simp_all

lemma replies_guarded:
  assumes "state_ok D T st" and "m \<noteq> None" and "\<And>a. m = Some (Inr a) \<Longrightarrow> replies D T st (f a)"
  shows "replies D T st (guarded st m f)"
  using assms by (auto simp: guarded_def replies_throws split: sum.splits)

lemma replies_guardn [reply_intros]:
  assumes "state_ok D T st" and "length args = n \<Longrightarrow> replies D T st (f ())"
  shows "replies D T st (guarded st (guardn (length args) n) f)"
  by (rule replies_guarded) (use assms in \<open>auto simp: guardn_def split: if_splits\<close>)

lemma replies_guardn_range:
  assumes "state_ok D T st" and "m \<le> length args \<Longrightarrow> length args \<le> n \<Longrightarrow> replies D T st (f ())"
  shows "replies D T st (guarded st (guardn_range (length args) m n) f)"
  by (rule replies_guarded) (use assms in \<open>auto simp: guardn_range_def split: if_splits\<close>)

lemma guardv_SomeD: "guardv args i k = Some (Inr v) \<Longrightarrow> v = args ! i \<and> val_kind v = k"
  by (auto simp: guardv_def Let_def split: if_splits)

lemma kind_cases:
  "val_kind v = VK_NUM \<Longrightarrow> \<exists>n. v = V_Num n" "val_kind v = VK_STR \<Longrightarrow> \<exists>s. v = V_Str s"
  "val_kind v = VK_LIST \<Longrightarrow> \<exists>a. v = V_List a" "val_kind v = VK_DICT \<Longrightarrow> \<exists>a. v = V_Dict a"
  "val_kind v = VK_WREF \<Longrightarrow> \<exists>a. v = V_Wref a"
  by (cases v; simp)+

lemma replies_guardv [reply_intros]:
  assumes "state_ok D T st" and "i < length args" and "val_kind (args ! i) = k \<Longrightarrow> replies D T st (f (args ! i))"
  shows "replies D T st (guarded st (guardv args i k) f)"
proof (rule replies_guarded)
  show "guardv args i k \<noteq> None" using assms(2) by (simp add: guardv_def Let_def)
  show "replies D T st (f a)" if "guardv args i k = Some (Inr a)" for a using guardv_SomeD [OF that] assms(3) by auto
qed (rule assms(1))

definition good_args :: "deci \<Rightarrow> vm_state \<Rightarrow> val list \<Rightarrow> bool" where
  "good_args D st args \<longleftrightarrow> (\<forall>v \<in> set args. val_ok D (vm_heap st) v)"

lemma good_argsD: "good_args D st args \<Longrightarrow> i < length args \<Longrightarrow> val_ok D (vm_heap st) (args ! i)"
  by (simp add: good_args_def)

lemma replies_number [reply_intros]:
  assumes "state_ok D T st" and "i < length args" and "good_args D st args"
    and "\<And>n. args ! i = V_Num n \<Longrightarrow> num_ok D n \<Longrightarrow> replies D T st (f n)"
  shows "replies D T st (guarded_number st args i f)"
  unfolding guarded_number_def
proof (rule replies_guardv [OF assms(1,2)])
  assume "val_kind (args ! i) = VK_NUM"
  then obtain n where "args ! i = V_Num n" using kind_cases(1) by blast
  then show "replies D T st (do { n \<leftarrow> as_number (args ! i); f n })" using assms(4) good_argsD [OF assms(3,2)] by simp
qed

lemma replies_string [reply_intros]:
  assumes "state_ok D T st" and "i < length args" and "good_args D st args"
    and "\<And>s. args ! i = V_Str s \<Longrightarrow> str_good s \<Longrightarrow> replies D T st (f s)"
  shows "replies D T st (guarded_string st args i f)"
  unfolding guarded_string_def
proof (rule replies_guardv [OF assms(1,2)])
  assume "val_kind (args ! i) = VK_STR"
  then obtain s where "args ! i = V_Str s" using kind_cases(2) by blast
  then show "replies D T st (do { s \<leftarrow> as_string (args ! i); f s })" using assms(4) good_argsD [OF assms(3,2)] by simp
qed

lemma replies_if [reply_intros]:
  "(b \<Longrightarrow> replies D T st r) \<Longrightarrow> (\<not> b \<Longrightarrow> replies D T st r') \<Longrightarrow> replies D T st (if b then r else r')"
  by simp

lemma new_string_ok: "length x + SIZEOF_STRING \<le> SIZE_MAX \<Longrightarrow> yields (map_option V_Str (string_new x)) (val_ok D h)"
  by (simp add: string_new_def string_new_with_capacity_def str_unsafe_reallocate_def str_good_def str_ok_def)

lemma zu_value_ok: "deci_ok D \<Longrightarrow> n \<le> SIZE_MAX \<Longrightarrow> yields (map_option V_Num (number_new_from_zu D n)) (val_ok D h)"
  by (drule (1) number_new_from_zu_yields) (auto simp: yields_iff_ex)

lemma number_value_ok: "yields m (\<lambda>r. num_ok D r \<and> Q r) \<Longrightarrow> yields (map_option V_Num m) (val_ok D h)"
  by (auto simp: yields_iff_ex)

section \<open>Values and lists\<close>

lemma X_Dasm_ok: "state_ok D T st \<Longrightarrow> replies D T st (X_Dasm st args)"
  unfolding X_Dasm_def by (intro reply_intros) simp_all

lemma X_Where_ok: "state_ok D T st \<Longrightarrow> replies D T st (X_Where st args)"
  unfolding X_Where_def by (intro reply_intros) simp_all

lemma value_kind_name_length: "length (value_kind_name k) \<le> 8"
  by (cases k) simp_all

lemma X_Kind_ok: "state_ok D T st \<Longrightarrow> replies D T st (X_Kind st args)"
  unfolding X_Kind_def
  by (intro reply_intros new_string_ok)
    (use value_kind_name_length [of "val_kind (args ! 0)"] in \<open>simp_all add: SIZEOF_STRING_def SIZE_MAX_def\<close>)

lemma replies_heap:
  assumes st: "state_ok D T st" and le: "heap_le (vm_heap st) ((vm_heap st)[a := x])"
    and x: "obj_ok D (func_ok D T (nglobals st)) (vm_heap st) x" and v: "val_ok D (vm_heap st) v"
  shows "replies D T st (Some (st\<lparr>vm_heap := (vm_heap st)[a := x]\<rparr>, Inr v))"
proof -
  have "heap_ok D (func_ok D T (nglobals st)) (vm_heap st)" using st by (simp add: state_ok_def)
  from heap_ok_update [OF this le x] show ?thesis
    using state_ok_heap [OF st _ le] val_ok_mono [OF le v] le by (simp add: replies_def)
qed

lemma X_Pop_ok:
  assumes st: "state_ok D T st" and args: "good_args D st args"
  shows "replies D T st (X_Pop st args)"
  unfolding X_Pop_def
proof (intro reply_intros st)
  assume n: "length args = 1" and "val_kind (args ! 0) = VK_LIST"
  then obtain a where a: "args ! 0 = V_List a" using kind_cases(3) by blast
  then obtain l where l: "heap_list (vm_heap st) a = Some l" using good_argsD [OF args, of 0] n by auto
  have ok: "list_good l" "\<forall>v \<in> set (l_data l). val_ok D (vm_heap st) v"
    using heap_ok_list [OF _ l] st by (auto simp: state_ok_def)
  have "replies D T st (Some (st\<lparr>vm_heap := (vm_heap st)[a := O_List (l\<lparr>l_data := butlast (l_data l)\<rparr>)]\<rparr>, Inr (last (l_data l))))"
    if "l_data l \<noteq> []"
    by (rule replies_heap [OF st]) (use ok that l in \<open>auto simp: heap_le_update list_good_def dest: in_set_butlastD\<close>)
  then show "replies D T st (case args ! 0 of V_List a \<Rightarrow> do {
           l \<leftarrow> heap_list (vm_heap st) a;
           if l_data l = [] then Some (st, Inl ''the list is empty'')
           else do { (l, r) \<leftarrow> list_pop l; Some (st\<lparr>vm_heap := (vm_heap st)[a := O_List l]\<rparr>, Inr r) } }
       | _ \<Rightarrow> None)"
    using a l st by (simp add: list_pop_def replies_throws)
qed simp

lemma X_RemoveKey_ok:
  assumes st: "state_ok D T st" and args: "good_args D st args"
  shows "replies D T st (X_RemoveKey st args)"
  unfolding X_RemoveKey_def
proof (intro reply_intros st args)
  fix s assume n: "length args = 2" and "val_kind (args ! 0) = VK_DICT" and s: "args ! 1 = V_Str s" "str_good s"
  then obtain a where a: "args ! 0 = V_Dict a" using kind_cases(4) by blast
  then obtain d where d: "heap_dict (vm_heap st) a = Some d" using good_argsD [OF args, of 0] n by auto
  have ok: "dict_ok d" "\<forall>v \<in> ran (dict_map d). val_ok D (vm_heap st) v"
    using heap_ok_dict [OF _ d] st by (auto simp: state_ok_def)
  have "key_ok s" using s(2) by (simp add: str_good_def str_ok_def key_ok_def)
  from dict_remove_yields [OF ok(1) this] obtain d' b where d': "dict_remove d s = Some (d', b)" "dict_ok d'"
    "dict_map d' = (dict_map d)(s_data s := None)" by (auto simp: yields_iff_ex)
  have "ran (dict_map d') \<subseteq> ran (dict_map d)" using d'(3) by (auto simp: ran_def)
  then have "replies D T st (Some (st\<lparr>vm_heap := (vm_heap st)[a := O_Dict d']\<rparr>, Inr V_Nil))"
    by (intro replies_heap [OF st]) (use ok d' d in \<open>auto simp: heap_le_update\<close>)
  then show "replies D T st (case args ! 0 of
         V_Dict a \<Rightarrow> do { d \<leftarrow> heap_dict (vm_heap st) a; (d, _) \<leftarrow> dict_remove d s; Some (st\<lparr>vm_heap := (vm_heap st)[a := O_Dict d]\<rparr>, Inr V_Nil) }
       | _ \<Rightarrow> None)"
    using a d d'(1) by simp
qed simp_all

lemma string_new_is_good: "string_new x = Some r \<Longrightarrow> str_good r"
  by (auto simp: string_new_def string_new_with_capacity_def str_unsafe_reallocate_def str_good_def str_ok_def split: bind_splits if_splits)

lemma X_NextKey_returns:
  assumes d: "dict_ok d" and k: "\<And>s. q = Some s \<Longrightarrow> key_ok s"
  shows "yields (X_NextKey d q) (\<lambda>r. \<forall>s. r = Some s \<longrightarrow> str_good s)"
proof -
  have "X_NextKey d q \<noteq> None"
  proof (cases q)
    case None
    obtain ks where "yields (X_NextKey d None) (\<lambda>r. map_option s_data r = (if ks = [] then None else Some (hd ks)) \<and> (\<forall>s. r = Some s \<longrightarrow> key_ok s))"
      by (rule X_NextKey_yields [OF d])
    then show ?thesis using None by (auto simp: yields_iff_ex)
  next
    case (Some s)
    show ?thesis
    proof (cases "s_data s \<in> dom (dict_map d)")
      case True
      show ?thesis
      proof (rule X_NextKey_yields [OF d])
        fix ks assume "set ks = dom (dict_map d)" and ks: "\<And>i s. i < length ks \<Longrightarrow> key_ok s \<Longrightarrow> s_data s = ks ! i \<Longrightarrow>
           yields (X_NextKey d (Some s)) (\<lambda>r. map_option s_data r = (if Suc i < length ks then Some (ks ! Suc i) else None) \<and>
             (\<forall>s. r = Some s \<longrightarrow> key_ok s))"
        then obtain i where "i < length ks" "s_data s = ks ! i" using True by (metis in_set_conv_nth)
        from ks [OF this(1) k [OF Some] this(2)] show ?thesis using Some by (auto simp: yields_iff_ex)
      qed
    next
      case False
      then have "xht_map d (s_data s) = None" using dom_dict_map [OF d] by auto
      from chain_find_absent [OF dict_okD [OF d] this] show ?thesis
        using Some by (simp add: X_NextKey_def xht_indexed_next_def Let_def)
    qed
  qed
  moreover have "str_good s" if "X_NextKey d q = Some (Some s)" for s
    using that string_new_is_good by (auto simp: X_NextKey_def split: bind_splits if_splits option.splits)
  ultimately show ?thesis by (auto simp: yields_iff_ex)
qed

lemma X_NextKey_ok:
  assumes st: "state_ok D T st" and args: "good_args D st args"
  shows "replies D T st (X_NextKey_native st args)"
  unfolding X_NextKey_native_def
proof (intro reply_intros st)
  assume n: "length args = 2" and "val_kind (args ! 0) = VK_DICT"
  then obtain a where a: "args ! 0 = V_Dict a" using kind_cases(4) by blast
  then obtain d where d: "heap_dict (vm_heap st) a = Some d" using good_argsD [OF args, of 0] n by auto
  have ok: "dict_ok d" using heap_ok_dict [OF _ d] st by (auto simp: state_ok_def)
  show "replies D T st (guarded st (guardv_opt args 1 VK_STR) (\<lambda>s. case args ! 0 of
         V_Dict a \<Rightarrow> do { d \<leftarrow> heap_dict (vm_heap st) a;
           s \<leftarrow> (case s of None \<Rightarrow> Some None | Some v \<Rightarrow> map_option Some (as_string v));
           r \<leftarrow> X_NextKey d s; returns st (Some (case r of None \<Rightarrow> V_Nil | Some k \<Rightarrow> V_Str k)) }
       | _ \<Rightarrow> None))"
  proof (rule replies_guarded [OF st])
    show "guardv_opt args 1 VK_STR \<noteq> None" using n by (simp add: guardv_opt_def Let_def)
    fix s assume s: "guardv_opt args 1 VK_STR = Some (Inr s)"
    have "s = None \<or> (\<exists>k. s = Some (V_Str k) \<and> key_ok k)"
      using s good_argsD [OF args, of 1] n kind_cases(2) [of "args ! 1"]
      by (auto simp: guardv_opt_def Let_def str_good_def key_ok_def str_ok_def split: if_splits)
    then obtain q where q: "(case s of None \<Rightarrow> Some None | Some v \<Rightarrow> map_option Some (as_string v)) = Some q" "\<And>k. q = Some k \<Longrightarrow> key_ok k"
      by auto
    from X_NextKey_returns [OF ok q(2)] obtain r where r: "X_NextKey d q = Some r" "\<And>k. r = Some k \<Longrightarrow> str_good k" by (auto simp: yields_iff_ex)
    have "replies D T st (returns st (Some (case r of None \<Rightarrow> V_Nil | Some k \<Rightarrow> V_Str k)))"
      by (intro reply_intros st) (use r(2) in \<open>auto split: option.split\<close>)
    then show "replies D T st (case args ! 0 of
         V_Dict a \<Rightarrow> do { d \<leftarrow> heap_dict (vm_heap st) a;
           s \<leftarrow> (case s of None \<Rightarrow> Some None | Some v \<Rightarrow> map_option Some (as_string v));
           r \<leftarrow> X_NextKey d s; returns st (Some (case r of None \<Rightarrow> V_Nil | Some k \<Rightarrow> V_Str k)) }
       | _ \<Rightarrow> None)"
      using a d q(1) r(1) by simp
  qed
qed simp

lemma X_Wref_ok:
  assumes st: "state_ok D T st"
  shows "replies D T st (X_Wref H st args)"
  unfolding X_Wref_def Let_def
proof (intro reply_intros st)
  assume "\<not> \<not> value_kind_is_wrefable (val_kind (args ! 0))"
  then obtain a where "args ! 0 = V_Dict a \<or> args ! 0 = V_List a"
    using kind_cases(3,4) [of "args ! 0"] by (auto simp: value_kind_is_wrefable_def)
  then show "replies D T st (case args ! 0 of
         V_List a \<Rightarrow> returns st (Some (V_Wref (h_wref H st a)))
       | V_Dict a \<Rightarrow> returns st (Some (V_Wref (h_wref H st a)))
       | _ \<Rightarrow> None)"
    using st by (auto intro!: reply_intros)
qed

definition targets_ok :: "host \<Rightarrow> bool" where
  "targets_ok H \<longleftrightarrow> (\<forall>st w a. h_target H st w = Some a \<longrightarrow> heap_list (vm_heap st) a \<noteq> None \<or> heap_dict (vm_heap st) a \<noteq> None)"

lemma X_Wvalue_ok:
  assumes st: "state_ok D T st" and H: "targets_ok H"
  shows "replies D T st (X_Wvalue H st args)"
  unfolding X_Wvalue_def
proof (intro reply_intros st)
  assume "val_kind (args ! 0) = VK_WREF"
  then obtain w where w: "args ! 0 = V_Wref w" using kind_cases(5) by blast
  have "replies D T st (returns st (if heap_list (vm_heap st) a \<noteq> None then Some (V_List a)
                else if heap_dict (vm_heap st) a \<noteq> None then Some (V_Dict a) else None))"
    if "h_target H st w = Some a" for a
    by (intro reply_intros st) (use H that in \<open>auto simp: targets_ok_def simp del: not_None_eq\<close>)
  then show "replies D T st (case args ! 0 of
         V_Wref w \<Rightarrow> (case h_target H st w of
              None \<Rightarrow> returns st (Some V_Nil)
            | Some a \<Rightarrow> returns st (if heap_list (vm_heap st) a \<noteq> None then Some (V_List a)
                else if heap_dict (vm_heap st) a \<noteq> None then Some (V_Dict a) else None))
       | _ \<Rightarrow> None)"
    using w st by (auto intro!: reply_intros split: option.split)
qed simp

section \<open>Input and output\<close>

lemma state_ok_read: "state_ok D T (after_read st) = state_ok D T st" "vm_heap (after_read st) = vm_heap st"
    "vm_globals (after_read st) = vm_globals st" "vm_ntp (after_read st) = vm_ntp st"
  by (simp_all add: after_read_def state_ok_def)

lemma X_Input_ok:
  assumes st: "state_ok D T st" and room: "\<And>s. h_line H (vm_reads st) = Some s \<Longrightarrow> length s + SIZEOF_STRING \<le> SIZE_MAX"
  shows "replies D T st (X_Input H st args)"
  unfolding X_Input_def Let_def
  by (intro reply_intros st replies_returns new_string_ok)
    (use st room in \<open>auto simp: state_ok_read SIZEOF_STRING_def SIZE_MAX_def split: option.split\<close>)

text \<open>A read of a byte; a read of a line has no defined behaviour.\<close>

lemma X_RawRead_ok:
  assumes st: "state_ok D T st" and args: "good_args D st args"
    and byte: "\<And>s. args ! 0 = V_Str s \<Longrightarrow> s_data s \<noteq> ''L'' \<and> s_data s \<noteq> ''s''"
  shows "replies D T st (X_RawRead H st args)"
  unfolding X_RawRead_def Let_def
proof (intro reply_intros st args)
  fix s assume "args ! 0 = V_Str s" and "\<not> s_size s \<noteq> 1"
  then have no: "hd (s_data s) \<noteq> CHR ''L''" "hd (s_data s) \<noteq> CHR ''s''" using byte [of s] by (auto simp: length_Suc_conv)
  show "replies D T st None" if "hd (s_data s) = CHR ''L''" using no(1) that by simp
  show "replies D T st None" if "hd (s_data s) = CHR ''s''" using no(2) that by simp
  have "yields (map_option V_Str (case h_getchar H (vm_reads st) of None \<Rightarrow> string_new [] | Some c \<Rightarrow> string_new [c])) (val_ok D (vm_heap st))"
    using new_string_ok by (simp add: SIZEOF_STRING_def SIZE_MAX_def split: option.split)
  then show "replies D T st (returns (after_read st)
      (map_option V_Str (case h_getchar H (vm_reads st) of None \<Rightarrow> string_new [] | Some c \<Rightarrow> string_new [c])))"
    by (intro replies_returns) (use st in \<open>simp_all add: state_ok_read\<close>)
qed simp

lemma X_RawWrite_ok: "state_ok D T st \<Longrightarrow> good_args D st args \<Longrightarrow> replies D T st (X_RawWrite st args)"
  unfolding X_RawWrite_def by (intro reply_intros replies_returns) (simp_all add: state_ok_out)

lemma X_Error_ok: "state_ok D T st \<Longrightarrow> good_args D st args \<Longrightarrow> replies D T st (X_Error st args)"
  unfolding X_Error_def Let_def by (intro reply_intros) simp_all

lemma X_Random32_ok:
  assumes D: "deci_ok D" and st: "state_ok D T st"
  shows "replies D T st (X_Random32 D H st args)"
  unfolding X_Random32_def
proof (intro reply_intros st)
  have "w mod 2 ^ 32 \<le> SIZE_MAX" for w :: nat using mod_less_divisor [of "2 ^ 32" w] by (simp add: SIZE_MAX_def)
  then have "replies D T st (returns (after_read st) (map_option V_Num (number_new_from_zu D (w mod 2 ^ 32))))" for w
    by (intro replies_returns zu_value_ok D) (use st in \<open>simp_all add: state_ok_read\<close>)
  moreover have "replies D T st (Some (after_read st, Inl e))" for e using st by (simp add: replies_def state_ok_read)
  ultimately show "replies D T st (case h_random H (vm_reads st) of Inl e \<Rightarrow> Some (after_read st, Inl e)
       | Inr w \<Rightarrow> returns (after_read st) (map_option V_Num (number_new_from_zu D (w mod 2 ^ 32))))"
    by (simp split: sum.split)
qed

section \<open>Strings and numbers\<close>

lemma X_Ord_ok: "deci_ok D \<Longrightarrow> state_ok D T st \<Longrightarrow> good_args D st args \<Longrightarrow> replies D T st (X_Ord D st args)"
  unfolding X_Ord_def
proof (intro reply_intros zu_value_ok)
  fix s :: cstring
  have "(of_char (hd (s_data s)) :: nat) < 256" by (cases "hd (s_data s)") (auto split: if_splits)
  then show "of_char (hd (s_data s)) \<le> SIZE_MAX" by (rule order_trans [OF less_imp_le]) (simp add: SIZE_MAX_def)
qed simp_all

lemma X_Chr_ok: "state_ok D T st \<Longrightarrow> good_args D st args \<Longrightarrow> replies D T st (X_Chr D st args)"
  unfolding X_Chr_def by (intro reply_intros new_string_ok) (simp_all add: SIZEOF_STRING_def SIZE_MAX_def)

lemma X_unary_ok:
  assumes "state_ok D T st" and "good_args D st args"
    and "\<And>n. args = [V_Num n] \<Longrightarrow> num_ok D n \<Longrightarrow> yields (f n) (\<lambda>r. num_ok D r \<and> Q n r)"
  shows "replies D T st (X_unary f st args)"
  unfolding X_unary_def by (intro reply_intros assms(1,2) number_value_ok [OF assms(3)]) (auto simp: length_Suc_conv)

lemma X_rounding_ok:
  assumes D: "deci_ok D" and st: "state_ok D T st" and args: "good_args D st args"
    and room: "\<And>n. args = [V_Num n] \<Longrightarrow> fits D (Suc (nwords n))"
  shows "replies D T st (X_Trunc D st args)" "replies D T st (X_Floor D st args)" "replies D T st (X_Ceil D st args)" "replies D T st (X_Round D st args)"
proof -
  have "yields (number_trunc D n) (\<lambda>r. num_ok D r \<and> True)" "yields (number_floor D n) (\<lambda>r. num_ok D r \<and> True)"
      "yields (number_ceil D n) (\<lambda>r. num_ok D r \<and> True)" "yields (number_round D n) (\<lambda>r. num_ok D r \<and> True)"
    if "args = [V_Num n]" "num_ok D n" for n
    using rounding_yields [OF D that(2) room [OF that(1)]] by (auto elim!: yields_conseq)
  note r = X_unary_ok [OF st args this(1)] X_unary_ok [OF st args this(2)] X_unary_ok [OF st args this(3)] X_unary_ok [OF st args this(4)]
  show "replies D T st (X_Trunc D st args)" "replies D T st (X_Floor D st args)" "replies D T st (X_Ceil D st args)" "replies D T st (X_Round D st args)"
    unfolding X_Trunc_def X_Floor_def X_Ceil_def X_Round_def by (rule r; assumption)+
qed

lemma X_Frac_ok: "deci_ok D \<Longrightarrow> state_ok D T st \<Longrightarrow> good_args D st args \<Longrightarrow> replies D T st (X_Frac D st args)"
  unfolding X_Frac_def by (rule X_unary_ok, assumption+, rule frac_exact)

lemma replies_ok_guarded [reply_intros]:
  assumes "state_ok D T st" and "\<And>a. r = Inr a \<Longrightarrow> replies D T st (f a)"
  shows "replies D T st (guarded st (Some r) f)"
  by (rule replies_guarded) (use assms in auto)

lemma ntp_ok_state: "deci_ok D \<Longrightarrow> state_ok D T st \<Longrightarrow> state_ok D T (st\<lparr>vm_ntp := ntp_from_prec D p\<rparr>)"
  using ntp_from_prec_ok by (auto simp: state_ok_def)

lemma ntp_to_prec_ok:
  assumes D: "deci_ok D" and p: "ntp_ok D p prec"
  shows "ntp_to_prec D p = Some prec" "prec \<le> ntp_scale p * DECI_BASE_LOG D"
proof -
  let ?n = "ntp_scale p * DECI_BASE_LOG D"
  have eq: "submod p * 10 ^ prec = 10 ^ ?n" and pos: "0 < submod p"
    using p by (simp_all add: ntp_ok_def DECI_BASE_def power_mult [symmetric] mult.commute)
  then have "(10 :: nat) ^ prec \<le> 10 ^ ?n" by (metis One_nat_def Suc_leI mult_le_mono1 nat_mult_1)
  then show le: "prec \<le> ?n" by simp
  have "submod p * 10 ^ prec = 10 ^ (?n - prec) * 10 ^ prec" using eq le by (simp add: power_add [symmetric])
  then have "submod p = 10 ^ (?n - prec)" by simp
  then show "ntp_to_prec D p = Some prec" using le by (simp add: ntp_to_prec_def word_ctz_pow10)
qed

lemma X_Scale_ok:
  assumes D: "deci_ok D" and st: "state_ok D T st" and args: "good_args D st args"
    and room: "ntp_scale (vm_ntp st) * DECI_BASE_LOG D \<le> SIZE_MAX"
  shows "replies D T st (X_Scale D st args)"
  unfolding X_Scale_def guard_scale_def Let_def
proof (intro replies_guardn_range reply_intros st args)
  obtain prec where "ntp_ok D (vm_ntp st) prec" using st by (auto simp: state_ok_def)
  note p = ntp_to_prec_ok [OF D this]
  show "replies D T st (do { p \<leftarrow> ntp_to_prec D (vm_ntp st); returns st (map_option V_Num (number_new_from_zu D p)) })"
    unfolding p(1) bind.bind_lunit by (intro reply_intros st zu_value_ok D) (use p(2) room in linarith)
  show "replies D T st (returns (st\<lparr>vm_ntp := ntp_from_prec D a\<rparr>) (Some V_Nil))" for a
    by (rule replies_returns) (use ntp_ok_state [OF D st] in simp_all)
qed simp_all

text \<open>The time.\<close>

lemma show_zu_digits: "digit_text 10 (show_zu n)" "show_zu n \<noteq> []" "length (show_zu n) \<le> 20"
proof -
  have "(digit_text 10 acc \<longrightarrow> digit_text 10 (dec_loop k n acc)) \<and> length (dec_loop k n acc) \<le> k + length acc \<and> (k \<noteq> 0 \<or> acc \<noteq> [] \<longrightarrow> dec_loop k n acc \<noteq> [])"
    for k acc and n :: nat
  proof (induction k arbitrary: n acc)
    case (Suc k)
    show ?case using Suc [of "digit_char (n mod 10) # acc" "n div 10"] digit_char_in [of n] by (auto simp: Let_def digit_text_def)
  qed simp
  from this [of "[]" 20 n] show "digit_text 10 (show_zu n)" "show_zu n \<noteq> []" "length (show_zu n) \<le> 20"
    by (simp_all add: show_zu_def digit_text_def del: dec_loop.simps)
qed

lemma validate_digits:
  assumes "digit_text 10 s"
  shows "validate_loop 10 (s @ t) d g = validate_loop 10 t d (g \<or> s \<noteq> [])"
  using assms
proof (induction s arbitrary: g)
  case (Cons c s)
  then have "c \<in> set (take 10 CHARS)" by (simp add: digit_text_def)
  from digit_charD [OF this] Cons show ?case by (auto simp: digit_text_def)
qed simp

lemma X_Clock_ok:
  assumes D: "deci_ok D" and st: "state_ok D T st" and room: "fits D 64"
  shows "replies D T st (X_Clock D H st args)"
  unfolding X_Clock_def
proof (intro reply_intros st)
  have "yields (map_option V_Num (number_parse D (show_zu (x mod 2 ^ 64) @ ''.'' @ pad9 (y mod 2 ^ 32)))) (val_ok D (vm_heap st))" for x y
  proof -
    let ?s = "show_zu (x mod 2 ^ 64)" and ?t = "pad9 (y mod 2 ^ 32)"
    have t: "digit_text 10 ?t" "length ?t \<le> 29"
      using show_zu_digits [of "y mod 2 ^ 32"] by (auto simp: pad9_def Let_def digit_text_def CHARS_def)
    have "hd ?s \<noteq> CHR ''-''"
      using show_zu_digits(1,2) [of "x mod 2 ^ 64"] digit_charD(4) [of "hd ?s" 10] by (cases ?s) (auto simp: digit_text_def)
    then have "number_parse_base_validate (?s @ ''.'' @ ?t) 10"
      using validate_digits [OF show_zu_digits(1), of "x mod 2 ^ 64" "CHR ''.'' # ?t" False False] validate_digits [OF t(1), of "[]"]
        show_zu_digits(2) [of "x mod 2 ^ 64"]
      by (simp add: number_parse_base_validate_def)
    moreover have "fits D (length (?s @ ''.'' @ ?t))" by (rule fits_mono [OF room]) (use t(2) show_zu_digits(3) [of "x mod 2 ^ 64"] in simp)
    ultimately show ?thesis by (intro number_value_ok [OF number_parse_yields [OF D]])
  qed
  then show "replies D T st (case h_clock H (vm_reads st) of None \<Rightarrow> Some (after_read st, Inl ''clock_gettime() failed'')
       | Some (tv_sec, tv_nsec) \<Rightarrow> returns (after_read st) (map_option V_Num
             (number_parse D (show_zu (tv_sec mod 2 ^ 64) @ ''.'' @ pad9 (tv_nsec mod 2 ^ 32)))))"
    using st replies_returns [of D T "after_read st" st] by (auto simp: state_ok_read replies_def split: option.split)
qed

section \<open>Texts in a base\<close>

lemma X_ToNumber_ok:
  assumes D: "deci_ok D" and st: "state_ok D T st" and args: "good_args D st args"
    and room: "\<And>s. args = [V_Str s] \<Longrightarrow> fits D (s_size s)"
  shows "replies D T st (X_ToNumber D st args)"
  unfolding X_ToNumber_def
  by (intro reply_intros st args number_value_ok [OF number_parse_yields [OF D _ room]]) (auto simp: length_Suc_conv)

lemma replies_base [reply_intros]:
  assumes "state_ok D T st" and "\<And>r. r = number_to_zu D b \<Longrightarrow> 2 \<le> r \<Longrightarrow> r \<le> 36 \<Longrightarrow> replies D T st (f r)"
  shows "replies D T st (guarded st (guard_base D b) f)"
  unfolding guard_base_def Let_def by (intro reply_intros assms(1)) (use assms(2) in \<open>auto split: if_splits\<close>)

lemma replies_magnitude [reply_intros]:
  assumes "state_ok D T st" and "replies D T st (f (number_to_zu D m))"
  shows "replies D T st (guarded st (guard_magnitude D m) f)"
  unfolding guard_magnitude_def Let_def by (intro reply_intros assms(1)) (use assms(2) in \<open>auto split: if_splits\<close>)

lemma two_args: "length args = 2 \<longleftrightarrow> (\<exists>v w. args = [v, w])"
  by (auto simp: numeral_2_eq_2 length_Suc_conv)

lemma X_scaling_ok:
  assumes D: "deci_ok D" and st: "state_ok D T st" and args: "good_args D st args"
    and room: "\<And>x m. args = [V_Num x, V_Num m] \<Longrightarrow> fits D (Suc (nwords x + number_to_zu D m div DECI_BASE_LOG D))"
  shows "replies D T st (X_DownScale D st args)" "replies D T st (X_UpScale D st args)"
proof -
  have "yields (number_scale_down D x (number_to_zu D m)) (\<lambda>r. num_ok D r \<and> num_val D r = num_val D x / 10 ^ number_to_zu D m)"
    "yields (number_scale_up D x (number_to_zu D m)) (\<lambda>r. num_ok D r \<and> num_val D r = num_val D x * 10 ^ number_to_zu D m)"
    if "args = [V_Num x, V_Num m]" "num_ok D x" for x m
    using scale_exact [OF D that(2) room [OF that(1)]] by blast+
  note num = this [THEN number_value_ok]
  show "replies D T st (X_DownScale D st args)"
    unfolding X_DownScale_def by (intro reply_intros st args num(1)) (auto simp: two_args)
  show "replies D T st (X_UpScale D st args)"
    unfolding X_UpScale_def by (intro reply_intros st args num(2)) (auto simp: two_args)
qed

lemma X_Decode_ok:
  assumes D: "deci_ok D" and st: "state_ok D T st" and args: "good_args D st args"
    and ntp: "vm_ntp st = ntp_from_prec D prec"
    and room: "\<And>s b. args = [V_Str s, V_Num b] \<Longrightarrow> fits D (2 * s_size s + ntp_scale (vm_ntp st) + 2)"
  shows "replies D T st (X_Decode D st args)"
  unfolding X_Decode_def
  by (intro reply_intros st args)
    (use number_value_ok [OF number_parse_base_yields [OF D]] room ntp in \<open>auto simp: two_args\<close>)

lemma X_NumDigits_ok:
  assumes D: "deci_ok D" and st: "state_ok D T st" and args: "good_args D st args"
  shows "replies D T st (X_NumDigits D st args)"
  unfolding X_NumDigits_def Let_def
proof (intro reply_intros st args)
  fix x s assume "num_ok D x"
  from digit_counts_yields [OF D this] obtain i f where n: "number_nintdigits D x = min i SIZE_MAX" "number_nfracdigits D x = Some (min f SIZE_MAX)"
    by blast
  have one: "replies D T st (if n = SIZE_MAX then Some (st, Inl ''overflow (result >= SIZE_MAX)'')
      else returns st (map_option V_Num (number_new_from_zu D n)))" if "n \<le> SIZE_MAX" for n
    by (intro reply_intros st zu_value_ok D that)
  show "replies D T st (do { n \<leftarrow> number_nfracdigits D x; if n = SIZE_MAX then Some (st, Inl ''overflow (result >= SIZE_MAX)'')
      else returns st (map_option V_Num (number_new_from_zu D n)) })"
    unfolding n(2) bind.bind_lunit by (rule one) simp
  show "replies D T st (do { n2 \<leftarrow> number_nfracdigits D x; if uu_add_zu_or_saturate (number_nintdigits D x) n2 = SIZE_MAX
      then Some (st, Inl ''overflow (result >= SIZE_MAX)'')
      else returns st (map_option V_Num (number_new_from_zu D (uu_add_zu_or_saturate (number_nintdigits D x) n2))) })"
    unfolding n(2) bind.bind_lunit by (rule one) (simp add: uu_add_zu_or_saturate_def Let_def)
  show "yields (map_option V_Num (number_new_from_zu D (number_nintdigits D x))) (val_ok D (vm_heap st))"
    by (rule zu_value_ok [OF D]) (simp add: n(1))
qed simp_all

lemma put_length: "put cap c p = Some q \<Longrightarrow> length q \<le> cap"
  by (auto simp: put_def split: if_splits)

lemma put_frac_length: "put_frac D cap base n wx p = Some q \<Longrightarrow> length p \<le> cap \<Longrightarrow> length q \<le> cap"
  by (induction n arbitrary: wx p) (auto simp: Let_def split: prod.splits bind_splits dest: put_length)

lemma chop_zeros_length: "chop_zeros p = Some q \<Longrightarrow> length q \<le> length p"
proof (induction p arbitrary: q rule: chop_zeros.induct)
  case (1 p)
  show ?case using "1.prems" "1.IH" [of q] by (subst (asm) chop_zeros.simps) (auto split: if_splits)
qed

lemma tostring_base_length:
  assumes "number_tostring_base D a base nfrac cap = Some s"
  shows "length s \<le> cap"
proof -
  obtain p q r t where p: "put cap CHR ''.'' p = Some q" and q: "put_frac D cap base nfrac (take (scale a) (words a)) q = Some r"
    and r: "chop_zeros r = Some t" and t: "chop_dot t \<noteq> None" "s = finalize_tostring (the (chop_dot t))"
    using assms by (auto simp: number_tostring_base_def split: bind_splits)
  have "length s \<le> length t" using t by (auto simp: finalize_tostring_def chop_dot_def Let_def split: if_splits)
  also have "\<dots> \<le> length r" by (rule chop_zeros_length [OF r])
  also have "\<dots> \<le> cap" by (rule put_frac_length [OF q put_length [OF p]])
  finally show ?thesis .
qed

lemma hot_append_good:
  assumes "2 * n + SIZEOF_STRING \<le> SIZE_MAX" and "length x \<le> n"
  shows "yields (do { r \<leftarrow> string_new []; r \<leftarrow> string_hot_append_begin r n; string_hot_append_end r x })
    (\<lambda>r. str_good r \<and> s_data r = x)"
proof -
  obtain r where r: "string_new [] = Some r" "str_ok r" "s_data r = []" "s_capacity r + SIZEOF_STRING \<le> SIZE_MAX"
    using string_new_yields [of "[]"] assms(1) string_new_is_good [of "[]"] by (auto simp: yields_iff_ex str_good_def)
  from string_hot_append_begin_yields [OF r(2) _ r(4), of n] assms(1) r(3)
  obtain t where t: "string_hot_append_begin r n = Some t" "str_ok t" "s_data t = []" "n \<le> s_capacity t" "s_capacity t + SIZEOF_STRING \<le> SIZE_MAX"
    by (auto simp: yields_iff_ex)
  then show ?thesis using r(1) assms(2)
    by (auto simp: string_hot_append_end_def str_good_def str_ok_def hash_str_append [of "[]", simplified])
qed

text \<open>\<open>Encode\<close> makes room for the whole text, at the scale that it is asked for.\<close>

definition encode_scale :: "deci \<Rightarrow> val list \<Rightarrow> nat" where
  "encode_scale D rest = (case rest of [V_Num s] \<Rightarrow> number_to_zu D s | _ \<Rightarrow> 0)"

lemma X_Encode_ok:
  assumes D: "deci_ok D" and st: "state_ok D T st" and args: "good_args D st args"
    and room: "\<And>a b rest nr. args = V_Num a # V_Num b # rest \<Longrightarrow>
      number_tostring_base_size D a (number_to_zu D b) (encode_scale D rest) = Some nr \<Longrightarrow> 2 * nr + SIZEOF_STRING \<le> SIZE_MAX"
  shows "replies D T st (X_Encode D st args)"
  unfolding X_Encode_def
proof (intro replies_guardn_range reply_intros st args)
  fix a b assume n: "2 \<le> length args" "length args \<le> 3" and a: "args ! 0 = V_Num a" "num_ok D a" and b: "args ! 1 = V_Num b"
  obtain rest where rest: "args = V_Num a # V_Num b # rest" "length rest \<le> 1"
    using n a(1) b by (cases args; cases "tl args") auto
  let ?body = "\<lambda>base scale. do {
       nr \<leftarrow> number_tostring_base_size D a base scale;
       if nr = SIZE_MAX then None
       else do {
         r \<leftarrow> string_new [];
         r \<leftarrow> string_hot_append_begin r nr;
         x \<leftarrow> number_tostring_base D a base scale nr;
         r \<leftarrow> string_hot_append_end r x;
         returns st (Some (V_Str r))
       }
     }"
  have body: "replies D T st (?body base nfrac)"
    if base: "2 \<le> base" "base \<le> 36" "base = number_to_zu D b" and nfrac: "nfrac = encode_scale D rest" for base nfrac
  proof -
    obtain nr where nr: "number_tostring_base_size D a base nfrac = Some nr" "nr < SIZE_MAX \<longrightarrow> number_tostring_base D a base nfrac nr \<noteq> None"
      using number_tostring_base_yields [OF D a(2) base(1,2), of nfrac] by (auto simp: yields_iff_ex)
    have big: "2 * nr + SIZEOF_STRING \<le> SIZE_MAX" by (rule room [OF rest(1)]) (use nr(1) nfrac base(3) in simp)
    then have less: "nr < SIZE_MAX" by (simp add: SIZEOF_STRING_def)
    then obtain x where x: "number_tostring_base D a base nfrac nr = Some x" using nr(2) by auto
    obtain r where "do { r \<leftarrow> string_new []; r \<leftarrow> string_hot_append_begin r nr; string_hot_append_end r x } = Some r" "str_good r"
      using hot_append_good [OF big tostring_base_length [OF x]] by (auto simp: yields_iff_ex)
    then show ?thesis using nr(1) x less st by (auto simp: returns_def replies_def split: bind_splits)
  qed
  let ?tail = "\<lambda>s. guarded st (case s of None \<Rightarrow> Some (Inr 0) | Some v \<Rightarrow> do { n \<leftarrow> as_number v; guard_scale D n })
     (\<lambda>scale. guarded st (guard_base D b) (\<lambda>base. ?body base scale))"
  have none: "replies D T st (?tail None)" if "encode_scale D rest = 0"
    unfolding option.case by (intro reply_intros st body) (use that in simp_all)
  have some: "replies D T st (?tail (Some (V_Num m)))" if "rest = [V_Num m]" for m
    unfolding option.case as_number.simps bind.bind_lunit guard_scale_def Let_def
    by (intro reply_intros st body) (use that in \<open>auto simp: encode_scale_def split: if_splits\<close>)
  show "replies D T st (guarded st (if length args = 3 then guardv_opt args 2 VK_NUM else Some (Inr None)) ?tail)"
  proof (rule replies_guarded [OF st])
    show "(if length args = 3 then guardv_opt args 2 VK_NUM else Some (Inr None)) \<noteq> None" by (simp add: guardv_opt_def Let_def)
    fix s assume "(if length args = 3 then guardv_opt args 2 VK_NUM else Some (Inr None)) = Some (Inr s)"
    then consider "s = None" "encode_scale D rest = 0" | m where "s = Some (V_Num m)" "rest = [V_Num m]"
      using kind_cases(1) [of "hd rest"] rest
      by (cases rest; cases "hd rest") (auto simp: guardv_opt_def Let_def encode_scale_def split: if_splits)
    then show "replies D T st (?tail s)" using none some by cases auto
  qed
qed auto

section \<open>Compiling at run time\<close>

abbreviation source_room :: "deci \<Rightarrow> vm_state \<Rightarrow> string \<Rightarrow> bool" where
  "source_room D st txt \<equiv> admitted D st txt (parse_fuel txt)"

lemma load_string_ok:
  assumes D: "deci_ok D" and st: "state_ok D (verified D) st" and room: "source_room D st inp"
  obtains e g where "load_string D st inp orig = Some (st\<lparr>vm_globals := g\<rparr>, Inl e)" and "state_ok D (verified D) (st\<lparr>vm_globals := g\<rparr>)"
      and "nglobals st \<le> length (g_data g)"
  | f g where "load_string D st inp orig = Some (loaded st g f, Inr (length (vm_heap st)))" and "state_ok D (verified D) (loaded st g f)"
      and "nglobals st \<le> length (g_data g)" and "accepted D (length (g_data g)) f"
proof -
  obtain r g where r: "parse D (parse_fuel inp) (vm_globals st) inp orig = Some (r, g)" "nglobals st \<le> length (g_data g)"
    "case r of Inl e \<Rightarrow> state_ok D (verified D) (st\<lparr>vm_globals := g\<rparr>)
     | Inr f \<Rightarrow> accepted D (length (g_data g)) f \<and> state_ok D (verified D) (loaded st g f)"
    using admitted_parse [OF D st room, of orig] by (auto simp: yields_iff_ex simp del: split_paired_Ex cong: sum.case_cong)
  show thesis
  proof (cases r)
    case (Inl e)
    then show thesis by (intro that(1) [of g e]) (use r in \<open>simp_all add: load_string_def\<close>)
  next
    case (Inr f)
    then show thesis by (intro that(2) [of g f]) (use r in \<open>simp_all add: load_string_def heap_alloc_def loaded_def\<close>)
  qed
qed

lemma loaded_grows: "heap_le (vm_heap st) (vm_heap (loaded st g f))" "heap_func (vm_heap (loaded st g f)) (length (vm_heap st)) = Some f"
  by (simp_all add: loaded_def heap_le_append heap_func_def)

lemma loaded_globals [simp]: "vm_globals (loaded st g f) = g"
  by (simp add: loaded_def)

lemma X_LoadString_ok:
  assumes D: "deci_ok D" and st: "state_ok D (verified D) st" and args: "good_args D st args"
    and room: "\<And>s. args = [V_Str s] \<Longrightarrow> source_room D st (s_data s)"
  shows "replies D (verified D) st (X_LoadString D st args)"
  unfolding X_LoadString_def
proof (intro reply_intros st args)
  fix s assume "length args = 1" and "args ! 0 = V_Str s"
  then have "args = [V_Str s]" by (auto simp: length_Suc_conv)
  then have "source_room D st (s_data s)" by (rule room)
  then show "replies D (verified D) st (do { (st, r) \<leftarrow> load_string D st (s_data s) ''(LoadString() arg)'';
       Some (st, case r of Inl _ \<Rightarrow> Inl ''compilation failed'' | Inr a \<Rightarrow> Inr (V_Func a)) })"
    by (rule load_string_ok [OF D st, where orig = "''(LoadString() arg)''"]) (simp_all add: replies_def loaded_grows)
qed simp

text \<open>A native function that evaluates a module may not return; \<open>keeps\<close> says what holds when it does.\<close>

definition keeps :: "deci \<Rightarrow> (chunk \<Rightarrow> annotation) \<Rightarrow> vm_state \<Rightarrow> reply \<Rightarrow> bool" where
  "keeps D T st r \<longleftrightarrow> (r \<noteq> None \<longrightarrow> replies D T st r)"

lemma keeps_trans:
  assumes "heap_le (vm_heap st) (vm_heap st')" and "nglobals st \<le> nglobals st'" and "keeps D T st' r"
  shows "keeps D T st r"
  using assms heap_le_trans [OF assms(1)] by (auto simp: keeps_def replies_def)

lemma keeps_guarded:
  assumes "state_ok D T st" and "\<And>a. m = Some (Inr a) \<Longrightarrow> keeps D T st (f a)"
  shows "keeps D T st (guarded st m f)"
  using assms by (auto simp: guarded_def keeps_def replies_throws split: option.splits sum.splits)

definition module_text :: "host \<Rightarrow> vm_state \<Rightarrow> cstring \<Rightarrow> string option" where
  "module_text H st s = do { calx_path \<leftarrow> h_path H; h_file H (vm_reads st) (calx_path @ ''/'' @ s_data s @ ''.calx'') }"

lemma X_Require_ok:
  assumes D: "deci_ok D" and st: "state_ok D (verified D) st"
    and room: "\<And>s inp. args = [V_Str s] \<Longrightarrow> module_text H st s = Some inp \<Longrightarrow> source_room D st inp"
    and ev: "\<And>st g f. state_ok D (verified D) (loaded st g f) \<Longrightarrow> accepted D (length (g_data g)) f \<Longrightarrow>
      keeps D (verified D) (loaded st g f) (ev (loaded st g f) (length (vm_heap st)))"
  shows "keeps D (verified D) st (X_Require D H ev st args)"
proof -
  let ?V = "verified D" and ?st = "after_read st"
  have read: "state_ok D ?V ?st" "vm_heap ?st = vm_heap st" "vm_globals ?st = vm_globals st" using st by (simp_all add: state_ok_read)
  let ?rest = "\<lambda>fname. do {
             (st, f) \<leftarrow> load_file D H st fname;
             (case f of
                None \<Rightarrow> Some (st, Inl ''cannot load module'')
              | Some a \<Rightarrow> do { (st, r) \<leftarrow> ev st a; Some (st, case r of Inl _ \<Rightarrow> Inl ''module evaluation failed'' | Inr v \<Rightarrow> Inr v) }) }"
  have rest: "keeps D ?V st (?rest fname)" if here: "\<And>inp. h_file H (vm_reads st) fname = Some inp \<Longrightarrow> source_room D st inp" for fname
  proof (cases "h_file H (vm_reads st) fname")
    case None
    then show ?thesis using read by (simp add: load_file_def load_fd_def keeps_def replies_def)
  next
    case (Some inp)
    have "source_room D ?st inp" using here [OF Some] by (simp add: admitted_def read(3))
    then show ?thesis
    proof (rule load_string_ok [OF D read(1), where orig = fname])
      fix e g assume "load_string D ?st inp fname = Some (?st\<lparr>vm_globals := g\<rparr>, Inl e)" "state_ok D ?V (?st\<lparr>vm_globals := g\<rparr>)"
        "nglobals ?st \<le> length (g_data g)"
      then show ?thesis using Some read by (simp add: load_file_def load_fd_def keeps_def replies_def)
    next
      fix f g assume a: "load_string D ?st inp fname = Some (loaded ?st g f, Inr (length (vm_heap ?st)))" "state_ok D ?V (loaded ?st g f)"
        "nglobals ?st \<le> length (g_data g)" "accepted D (length (g_data g)) f"
      let ?r = "ev (loaded ?st g f) (length (vm_heap ?st))"
      have "keeps D ?V (loaded ?st g f) (do { (st, r) \<leftarrow> ?r; Some (st, case r of Inl _ \<Rightarrow> Inl ''module evaluation failed'' | Inr v \<Rightarrow> Inr v) })"
        using ev [OF a(2,4)] by (cases ?r) (auto simp: keeps_def replies_def split: sum.split)
      from keeps_trans [OF _ _ this, of st] show ?thesis
        using Some a(1,3) loaded_grows(1) [of ?st g f] by (simp add: load_file_def load_fd_def read)
    qed
  qed
  have one: "keeps D ?V st (?rest (calx_path @ ''/'' @ s_data s @ ''.calx''))" if "args = [V_Str s]" "h_path H = Some calx_path" for calx_path s
    by (rule rest) (use room [OF that(1)] that(2) in \<open>simp add: module_text_def\<close>)
  show ?thesis
    unfolding X_Require_def guarded_string_def
  proof (intro keeps_guarded st)
    fix u v assume "guardn (length args) 1 = Some (Inr u)" and "guardv args 0 VK_STR = Some (Inr v)"
    then obtain y where y: "args = [y]" "v = y" "val_kind y = VK_STR"
      using guardv_SomeD [of args 0 VK_STR v] by (auto simp: guardn_def length_Suc_conv split: if_splits)
    then obtain s where "args = [V_Str s]" "v = V_Str s" using kind_cases(2) [OF y(3)] by auto
    then show "keeps D ?V st (do { s \<leftarrow> as_string v; case h_path H of
         None \<Rightarrow> Some (st, Inl ''cannot Require(): CALX_PATH was not set'')
       | Some calx_path \<Rightarrow>
           if s_size s = 0 then Some (st, Inl ''empty string passed'')
           else if \<exists>c \<in> set (s_data s). c \<in> {CHR 0x00, CHR ''.'', CHR ''/''}
           then Some (st, Inl ''module name contains prohibited symbol'')
           else if s_size s > 8192 then Some (st, Inl ''module name is too long'')
           else ?rest (calx_path @ ''/'' @ s_data s @ ''.calx'') })"
      using one [of s] replies_throws [OF st] unfolding keeps_def by (simp split: option.split)
  qed
qed

lemma ntp_ok_unique:
  assumes D: "deci_ok D" and p: "ntp_ok D p prec"
  shows "p = ntp_from_prec D prec"
proof -
  let ?L = "DECI_BASE_LOG D"
  have *: "\<exists>e < ?L. ntp_scale q * ?L = prec + e \<and> submod q = 10 ^ e" if q: "ntp_ok D q prec" for q
  proof -
    have eq: "submod q * 10 ^ prec = 10 ^ (ntp_scale q * ?L)" and less: "submod q < 10 ^ ?L"
      using q by (simp_all add: ntp_ok_def DECI_BASE_def power_mult [symmetric] mult.commute)
    have le: "prec \<le> ntp_scale q * ?L" by (rule ntp_to_prec_ok(2) [OF D q])
    have "submod q * 10 ^ prec = 10 ^ (ntp_scale q * ?L - prec) * 10 ^ prec" using eq le by (simp add: power_add [symmetric])
    then have "submod q = 10 ^ (ntp_scale q * ?L - prec)" by simp
    then show ?thesis using less le by (intro exI [of _ "ntp_scale q * ?L - prec"]) simp
  qed
  obtain e where e: "e < ?L" "ntp_scale p * ?L = prec + e" "submod p = 10 ^ e" using * [OF p] by blast
  obtain e' where e': "e' < ?L" "ntp_scale (ntp_from_prec D prec) * ?L = prec + e'" "submod (ntp_from_prec D prec) = 10 ^ e'"
    using * [OF ntp_from_prec_ok [OF D]] by blast
  have "ntp_scale p = ntp_scale (ntp_from_prec D prec)"
  proof (rule ccontr)
    assume "\<not> ?thesis"
    then consider "ntp_scale p + 1 \<le> ntp_scale (ntp_from_prec D prec)" | "ntp_scale (ntp_from_prec D prec) + 1 \<le> ntp_scale p" by linarith
    then show False
    proof cases
      case 1
      from mult_le_mono1 [OF this, of ?L] e e' show False by (simp add: algebra_simps)
    next
      case 2
      from mult_le_mono1 [OF this, of ?L] e e' show False by (simp add: algebra_simps)
    qed
  qed
  then show ?thesis using e e' by simp
qed

section \<open>Round trips\<close>

lemma guards_pass:
  "n = m \<Longrightarrow> guarded st (guardn n m) f = f ()"
  "k \<le> n \<Longrightarrow> n \<le> m \<Longrightarrow> guarded st (guardn_range n k m) f = f ()"
  "i < length args \<Longrightarrow> args ! i = V_Num a \<Longrightarrow> guarded_number st args i h = h a"
  "i < length args \<Longrightarrow> args ! i = V_Str t \<Longrightarrow> guarded_string st args i l = l t"
  by (simp_all add: guarded_def guardn_def guardn_range_def guarded_number_def guarded_string_def guardv_def)

lemma guard_base_pass: "2 \<le> number_to_zu D b \<Longrightarrow> number_to_zu D b \<le> 36 \<Longrightarrow> guarded st (guard_base D b) f = f (number_to_zu D b)"
  by (simp add: guarded_def guard_base_def Let_def)

text \<open>The texts that \<open>Encode\<close> makes and what \<open>Decode\<close> makes of them.\<close>

lemma Encode_yields:
  assumes D: "deci_ok D" and a: "num_ok D a" and b: "2 \<le> number_to_zu D b" "number_to_zu D b \<le> 36"
    and s: "number_to_zu D s < SIZE_MAX"
    and size: "number_tostring_base_size D a (number_to_zu D b) (number_to_zu D s) = Some nr" "2 * nr + SIZEOF_STRING \<le> SIZE_MAX"
  shows "\<exists>t. X_Encode D st [V_Num a, V_Num b, V_Num s] = Some (st, Inr (V_Str t)) \<and> str_good t \<and> s_size t \<le> nr \<and>
    canonical (number_to_zu D b) (s_data t) (trunc_base (number_to_zu D b) (number_to_zu D s) (num_val D a))"
proof -
  let ?b = "number_to_zu D b" and ?s = "number_to_zu D s"
  have less: "nr < SIZE_MAX" using size(2) by (simp add: SIZEOF_STRING_def)
  then obtain x where x: "number_tostring_base D a ?b ?s nr = Some x" "canonical ?b x (trunc_base ?b ?s (num_val D a))"
    using number_tostring_base_yields [OF D a b, of ?s] size(1) by (auto simp: yields_iff_ex)
  have len: "length x \<le> nr" by (rule tostring_base_length [OF x(1)])
  obtain t where "do { r \<leftarrow> string_new []; r \<leftarrow> string_hot_append_begin r nr; string_hot_append_end r x } = Some t" "str_good t" "s_data t = x"
    using hot_append_good [OF size(2) len] by (auto simp: yields_iff_ex)
  moreover have "guarded st (guardv_opt [V_Num a, V_Num b, V_Num s] 2 VK_NUM) f = f (Some (V_Num s))" for f
    by (simp add: guarded_def guardv_opt_def)
  moreover have "guarded st (guard_scale D s) f = f ?s" for f using s by (simp add: guarded_def guard_scale_def Let_def)
  ultimately show ?thesis
    using size(1) less x len by (auto simp: X_Encode_def guards_pass guard_base_pass [OF b] returns_def split: bind_splits)
qed

lemma Decode_yields:
  assumes D: "deci_ok D" and b: "2 \<le> number_to_zu D b" "number_to_zu D b \<le> 36"
    and t: "number_parse_base_validate (s_data t) (number_to_zu D b)" and p: "vm_ntp st = ntp_from_prec D prec"
    and fits: "fits D (2 * s_size t + ntp_scale (vm_ntp st) + 2)"
  shows "\<exists>x. X_Decode D st [V_Str t, V_Num b] = Some (st, Inr (V_Num x)) \<and> num_ok D x \<and>
    num_val D x = trunc_to prec (text_val (number_to_zu D b) (s_data t))"
proof -
  obtain x where "number_parse_base D (s_data t) (number_to_zu D b) (vm_ntp st) = Some x" "num_ok D x"
      "num_val D x = trunc_to prec (text_val (number_to_zu D b) (s_data t))"
    using number_parse_base_yields [OF D b t] fits unfolding p by (auto simp: yields_iff_ex)
  then show ?thesis using t by (simp add: X_Decode_def guards_pass guard_base_pass [OF b] returns_def)
qed

text \<open>
  C38: \<open>Encode\<close> and \<open>Decode\<close> are inverse to each other. For a well-formed number, a base from 2 to 36 and a number
  of digits, \<open>Encode\<close> returns the canonical text of the number, truncated to so many digits of the base after the
  point; \<open>Decode\<close> accepts that text in the same base, and returns a number of exactly the value of the text,
  truncated to the precision of division. So an integer is encoded and decoded without loss.
\<close>

theorem encode_decode:
  assumes "deci_ok D" and "num_ok D a" and "2 \<le> number_to_zu D b" and "number_to_zu D b \<le> 36" and "number_to_zu D s < SIZE_MAX"
    and "number_tostring_base_size D a (number_to_zu D b) (number_to_zu D s) = Some nr" and "2 * nr + SIZEOF_STRING \<le> SIZE_MAX"
    and "vm_ntp st = ntp_from_prec D prec" and "fits D (2 * nr + ntp_scale (vm_ntp st) + 2)"
  shows "\<exists>t x. X_Encode D st [V_Num a, V_Num b, V_Num s] = Some (st, Inr (V_Str t)) \<and>
    canonical (number_to_zu D b) (s_data t) (trunc_base (number_to_zu D b) (number_to_zu D s) (num_val D a)) \<and>
    X_Decode D st [V_Str t, V_Num b] = Some (st, Inr (V_Num x)) \<and> num_ok D x \<and>
    num_val D x = trunc_to prec (trunc_base (number_to_zu D b) (number_to_zu D s) (num_val D a))"
proof -
  obtain t where t: "X_Encode D st [V_Num a, V_Num b, V_Num s] = Some (st, Inr (V_Str t))" "s_size t \<le> nr"
      "canonical (number_to_zu D b) (s_data t) (trunc_base (number_to_zu D b) (number_to_zu D s) (num_val D a))"
    using Encode_yields [OF assms(1-7), of st] by blast
  note v = canonical_validates [OF t(3)]
  have "fits D (2 * s_size t + ntp_scale (vm_ntp st) + 2)" by (rule fits_mono [OF assms(9)]) (use t(2) in simp)
  from Decode_yields [OF assms(1,3,4) v(1) assms(8) this] v(2) t(1,3) assms(3) show ?thesis by auto
qed

lemma sample_encode_size:
  "number_tostring_base_size deci_ref \<lparr>nrefs = 1, sign = True, scale = 1, words = [500, 1]\<rparr> 2 3 = Some 26"
proof -
  have "digits_per_word deci_ref 2 1 0 = Some 10"
    by (subst digits_per_word.simps, simp add: ref_base_def)+
  then show ?thesis
    by (simp add: number_tostring_base_size_def uu_add_zu_or_saturate_eq uu_mul_zu_or_saturate_eq SIZE_MAX_def)
qed

theorem encode_decode_witness:
  "\<exists>t x. X_Encode deci_ref small_state [V_Num \<lparr>nrefs = 1, sign = True, scale = 1, words = [500, 1]\<rparr>,
        V_Num \<lparr>nrefs = 1, sign = False, scale = 0, words = [2]\<rparr>, V_Num \<lparr>nrefs = 1, sign = False, scale = 0, words = [3]\<rparr>] =
      Some (small_state, Inr (V_Str t)) \<and>
    X_Decode deci_ref small_state [V_Str t, V_Num \<lparr>nrefs = 1, sign = False, scale = 0, words = [2]\<rparr>] =
      Some (small_state, Inr (V_Num x)) \<and> num_val deci_ref x = -3/2"
proof -
  let ?a = "\<lparr>nrefs = 1, sign = True, scale = 1, words = [500, 1]\<rparr>"
    and ?b = "\<lparr>nrefs = 1, sign = False, scale = 0, words = [2]\<rparr>" and ?s = "\<lparr>nrefs = 1, sign = False, scale = 0, words = [3]\<rparr>"
  have zu: "number_to_zu deci_ref ?b = 2" "number_to_zu deci_ref ?s = 3"
    by (simp_all add: number_to_zu_def ref_base_def SIZE_MAX_def)
  have fits: "fits deci_ref (2 * 26 + ntp_scale (vm_ntp small_state) + 2)"
    by (simp add: sample_ok(4) small_state_def ntp_from_prec_def SIZE_MAX_def)
  have val: "trunc_to 20 (trunc_base 2 3 (- 3 / 2)) = - 3 / 2" by (simp add: trunc_base_def trunc_to_def)
  have ntp: "vm_ntp small_state = ntp_from_prec deci_ref 20" by (simp add: small_state_def)
  have "\<exists>t x. X_Encode deci_ref small_state [V_Num ?a, V_Num ?b, V_Num ?s] = Some (small_state, Inr (V_Str t)) \<and>
    canonical (number_to_zu deci_ref ?b) (s_data t) (trunc_base (number_to_zu deci_ref ?b) (number_to_zu deci_ref ?s) (num_val deci_ref ?a)) \<and>
    X_Decode deci_ref small_state [V_Str t, V_Num ?b] = Some (small_state, Inr (V_Num x)) \<and> num_ok deci_ref x \<and>
    num_val deci_ref x = trunc_to 20 (trunc_base (number_to_zu deci_ref ?b) (number_to_zu deci_ref ?s) (num_val deci_ref ?a))"
    by (rule encode_decode [OF deci_ref_ok sample_ok(1) _ _ _ _ _ ntp fits])
      (simp_all only: zu sample_encode_size, simp_all add: SIZE_MAX_def SIZEOF_STRING_def)
  then show ?thesis unfolding zu sample_val by (simp only: if_True val) blast
qed

text \<open>
  \<open>Ord\<close> and \<open>Chr\<close> are inverse to each other on single bytes: \<open>Ord\<close> gives the value of the byte from 0 to 255, and
  \<open>Chr\<close> of that number the string of that byte.
\<close>

theorem ord_chr:
  assumes D: "deci_ok D" and t: "s_data t = [c]"
  shows "\<exists>n s. X_Ord D st [V_Str t] = Some (st, Inr (V_Num n)) \<and> num_ok D n \<and> num_val D n = of_nat (of_char c) \<and>
    X_Chr D st [V_Num n] = Some (st, Inr (V_Str s)) \<and> str_good s \<and> s_data s = [c]"
proof -
  have c: "(of_char c :: nat) < 256" by (cases c) (auto split: if_splits)
  then have "of_char c \<le> SIZE_MAX" by (rule order_trans [OF less_imp_le]) (simp add: SIZE_MAX_def)
  with machine_integers [OF D _ this] obtain n where n: "number_new_from_zu D (of_char c) = Some n" "num_ok D n"
      "num_val D n = of_nat (of_char c)" "number_to_u32 D n = of_nat (of_char c)"
    using number_new_from_zu_yields [OF D] by (fastforce simp: yields_iff_ex)
  have "unat (of_nat (of_char c) :: 32 word) = of_char c"
    using less_trans [OF c, of "2 ^ 32"] mod_less [of "of_char c" "2 ^ 32"] by (simp only: unsigned_of_nat take_bit_eq_mod) simp
  then have "char_of (unat (number_to_u32 D n)) = c" using n(4) by simp
  moreover obtain s where "string_new [c] = Some s" "s_data s = [c]"
    using string_new_yields [of "[c]"] by (auto simp: yields_iff_ex SIZEOF_STRING_def SIZE_MAX_def)
  ultimately show ?thesis
    using n t string_new_is_good [of "[c]"] by (simp add: X_Ord_def X_Chr_def guards_pass returns_def)
qed

theorem ord_chr_witness:
  "\<exists>t n. string_new ''A'' = Some t \<and> X_Ord deci_ref small_state [V_Str t] = Some (small_state, Inr (V_Num n)) \<and> num_val deci_ref n = 65"
proof -
  obtain t where t: "string_new ''A'' = Some t" "s_data t = ''A''"
    using string_new_yields [of "''A''"] by (auto simp: yields_iff_ex SIZEOF_STRING_def SIZE_MAX_def)
  from ord_chr [OF deci_ref_ok t(2), of small_state] t(1) show ?thesis by auto
qed

end
