(* ===== verification/Program.thy ===== *)
theory Program
  imports Natives_Ok
begin

text \<open>
  The program of \<open>main.c\<close>: the machine with its native functions, the state that \<open>make_state\<close> makes, and the modes
  that run a source. Compiled programs run safely in it.
\<close>

section \<open>What evaluation never takes back\<close>

text \<open>Objects stay where they are and keep their kind; variables keep their numbers.\<close>

definition grown :: "vm_state \<Rightarrow> vm_state \<Rightarrow> bool" where
  "grown st st' \<longleftrightarrow> heap_le (vm_heap st) (vm_heap st') \<and> nglobals st \<le> nglobals st'"

lemma grown_refl [simp]: "grown st st"
  by (simp add: grown_def)

lemma grown_trans: "grown st st' \<Longrightarrow> grown st' st'' \<Longrightarrow> grown st st''"
  by (auto simp: grown_def intro: heap_le_trans)

lemma elem_store_grows: "elem_store h p v = Some h' \<Longrightarrow> heap_le h h'"
  by (cases p) (auto simp: heap_le_update split: bind_splits if_splits)

lemma get_elem_ptr_at_grows: "get_elem_ptr_at D h c i = Some (h', res) \<Longrightarrow> heap_le h h'"
  by (cases c) (auto simp: heap_le_update Let_def split: val.splits bind_splits if_splits)

named_theorems grown_ops \<open>operations of the machine that do not shrink the state\<close>

lemma next_with_grows: "next_with st r vs = Some (st', out) \<Longrightarrow> grown st st'"
  by (auto simp: next_with_def split: bind_splits)

lemma push_result_grows [grown_ops]: "push_result st r vs res = Some (st', out) \<Longrightarrow> grown st st'"
  by (auto simp: push_result_def split: bind_splits sum.splits dest: next_with_grows)

lemma op_load_global_grows [grown_ops]: "op_load_global st r c = Some (st', out) \<Longrightarrow> grown st st'"
  by (auto simp: op_load_global_def split: bind_splits option.splits dest: next_with_grows)

lemma op_return_grows [grown_ops]: "op_return st r = Some (st', out) \<Longrightarrow> grown st st'"
  by (auto simp: op_return_def Let_def split: bind_splits option.splits list.splits if_splits)

lemma next_heap_grows: "next_with (st\<lparr>vm_heap := h\<rparr>) r vs = Some (st', out) \<Longrightarrow> heap_le (vm_heap st) h \<Longrightarrow> grown st st'"
  by (drule next_with_grows) (auto simp: grown_def intro: heap_le_trans)

lemma op_store_at_grows [grown_ops]: "op_store_at E st r m = Some (st', out) \<Longrightarrow> grown st st'"
  by (auto simp: op_store_at_def Let_def grown_def [of st "st\<lparr>vm_heap := _\<rparr>"] split: bind_splits sum.splits option.splits
      dest!: get_elem_ptr_at_grows elem_store_grows)
    (erule next_heap_grows, erule (1) heap_le_trans)+

lemma op_modify_local_grows [grown_ops]: "op_modify_local E st r aop c = Some (st', out) \<Longrightarrow> grown st st'"
  by (auto simp: op_modify_local_def Let_def split: bind_splits sum.splits dest: next_with_grows)

lemma global_store_length: "global_store g c x = Some g' \<Longrightarrow> length (g_data g') = length (g_data g)"
  by (auto simp: global_store_def split: if_splits)

lemma next_globals_grows:
  "next_with (st\<lparr>vm_globals := g\<rparr>) r vs = Some (st', out) \<Longrightarrow> global_store (vm_globals st) c x = Some g \<Longrightarrow> grown st st'"
  by (drule next_with_grows, drule global_store_length) (simp add: grown_def)

lemma op_modify_global_grows [grown_ops]: "op_modify_global E st r aop c = Some (st', out) \<Longrightarrow> grown st st'"
  by (auto simp: op_modify_global_def Let_def split: bind_splits sum.splits option.splits intro: next_globals_grows)

lemma op_function_grows [grown_ops]: "op_function st r c = Some (st', out) \<Longrightarrow> grown st st'"
  by (auto simp: op_function_def Let_def heap_alloc_def grown_def heap_le_append split: bind_splits list.splits)

lemma op_dict_grows [grown_ops]: "op_dict st r c = Some (st', out) \<Longrightarrow> grown st st'"
  by (auto simp: op_dict_def Let_def heap_alloc_def heap_le_append split: bind_splits option.splits if_splits intro: next_heap_grows)

lemma op_list_grows [grown_ops]: "op_list st r c = Some (st', out) \<Longrightarrow> grown st st'"
  by (auto simp: op_list_def Let_def heap_alloc_def heap_le_append split: bind_splits if_splits intro: next_heap_grows)

lemma do_call_func_grows: "do_call_func st r f n = Some (st', res) \<Longrightarrow> grown st st'"
  by (auto simp: do_call_func_def do_call_coerce_def do_call_gather_def Let_def heap_alloc_def grown_def heap_le_append
      split: bind_splits sum.splits if_splits)

lemma do_call_grows:
  assumes a: "at_instr (e_deci E) T st r f i d ins" and E: "env_ok E T" and op: "opcode ins = OP_CALL"
    and still: "call_still st r (in_a ins \<noteq> 0) (unat (in_c ins))"
    and call: "do_call E st r (in_a ins \<noteq> 0) (unat (in_c ins)) = Some (st', res)"
  shows "grown st st'"
proof -
  obtain x where x: "scatter_args st r (in_a ins \<noteq> 0) (unat (in_c ins)) = Some x"
    and ok: "case x of Inl m \<Rightarrow> True | Inr (r', n) \<Rightarrow> \<exists>vs fn. r' = r\<lparr>r_vs := vs\<rparr> \<and>
      ready (e_deci E) st r f (d - Suc (unat (in_c ins))) vs fn n"
    using scatter_ready [OF a op still] by (auto simp: yields_iff_ex)
  show ?thesis
  proof (cases x)
    case (Inr p)
    then obtain vs fn n where p: "x = Inr (r\<lparr>r_vs := vs\<rparr>, n)" and good: "\<forall>v \<in> set (v_data vs). val_ok (e_deci E) (vm_heap st) v"
      using ok by (cases p) (auto simp: ready_def)
    have native: "grown st st'" if "e_native E g st (native_args k (v_data vs)) = Some (st', r')" for g k st' r'
    proof -
      have "\<forall>v \<in> set (native_args k (v_data vs)). val_ok (e_deci E) (vm_heap st) v"
        by (rule ballI, rule bspec [OF good], rule subsetD [OF native_args_subset])
      from env_native [OF E that at_instrD(4) [OF a] this] show ?thesis by (simp add: grown_def)
    qed
    show ?thesis
      using call x p by (auto simp: do_call_def do_call_native_def Let_def split: bind_splits sum.splits if_splits val.splits
          intro: do_call_func_grows native)
  qed (use call x in \<open>simp add: do_call_def\<close>)
qed

lemma next_out_grows: "next_with (st\<lparr>vm_out := x\<rparr>) r vs = Some (st', out) \<Longrightarrow> grown st st'"
  by (drule next_with_grows) (simp add: grown_def)

text \<open>Every instruction.\<close>

lemma step_grows:
  assumes inv: "vm_inv (e_deci E) T st r" and E: "env_ok E T" and still: "still (st, r)" and step: "step E st r = Some (st', out)"
  shows "grown st st'"
proof -
  obtain f i d where reg: "regs_at T r f i d" "func_ok (e_deci E) T (nglobals st) f" "state_ok (e_deci E) T st" "stack_ok (e_deci E) st r"
    by (rule vm_invE [OF inv])
  define ins where "ins = code (f_chunk f) ! i"
  have a: "at_instr (e_deci E) T st r f i d ins" using inv reg by (simp add: at_instr_def ins_def)
  note ins = at_instrD(8) [OF a]
  have call: "grown st s" if op: "opcode ins = OP_CALL" and "op_call E st r (in_a ins \<noteq> 0) (unat (in_c ins)) = Some (s, out)" for s out
  proof -
    have "call_still st r (in_a ins \<noteq> 0) (unat (in_c ins))"
      using still op ins by (simp add: still_def step_still_def)
    note do_call_grows [OF a E op this]
    then show ?thesis using that(2) by (auto simp: op_call_def split: bind_splits sum.splits)
  qed
  show ?thesis
    using step unfolding step_def ins bind.bind_lunit Let_def
    by (cases "opcode ins")
      (auto split: bind_splits if_splits intro: grown_ops call next_globals_grows next_out_grows elim!: next_with_grows)
qed

section \<open>The native functions\<close>

text \<open>
  The memory that a native function needs for its result, from its arguments and what the host gives it. The functions
  that are not named need none.
\<close>

definition native_room :: "deci \<Rightarrow> host \<Rightarrow> string \<Rightarrow> vm_state \<Rightarrow> val list \<Rightarrow> bool" where
  "native_room D H name st args \<longleftrightarrow>
     (name = ''Input'' \<longrightarrow> (case h_line H (vm_reads st) of None \<Rightarrow> True | Some s \<Rightarrow> length s + SIZEOF_STRING \<le> SIZE_MAX)) \<and>
     (name = ''Clock'' \<longrightarrow> fits D 64) \<and>
     (name = ''Scale'' \<longrightarrow> ntp_scale (vm_ntp st) * DECI_BASE_LOG D \<le> SIZE_MAX) \<and>
     (name \<in> {''trunc'', ''floor'', ''ceil'', ''round''} \<longrightarrow> (case args of [V_Num n] \<Rightarrow> fits D (Suc (nwords n)) | _ \<Rightarrow> True)) \<and>
     (name = ''ToNumber'' \<longrightarrow> (case args of [V_Str s] \<Rightarrow> fits D (s_size s) | _ \<Rightarrow> True)) \<and>
     (name = ''Encode'' \<longrightarrow> (case args of
        V_Num a # V_Num b # rest \<Rightarrow>
          (case number_tostring_base_size D a (number_to_zu D b) (encode_scale D rest) of
             None \<Rightarrow> True | Some nr \<Rightarrow> 2 * nr + SIZEOF_STRING \<le> SIZE_MAX) | _ \<Rightarrow> True)) \<and>
     (name = ''Decode'' \<longrightarrow> (case args of [V_Str s, V_Num b] \<Rightarrow> fits D (2 * s_size s + ntp_scale (vm_ntp st) + 2) | _ \<Rightarrow> True)) \<and>
     (name \<in> {''DownScale'', ''UpScale''} \<longrightarrow> (case args of
        [V_Num x, V_Num m] \<Rightarrow> fits D (Suc (nwords x + number_to_zu D m div DECI_BASE_LOG D)) | _ \<Rightarrow> True))"

text \<open>
  The functions that compile: the sources that they get are among those that the results on the compiler speak of, the
  restriction on \<open>for\<close> included.
\<close>

definition native_sources :: "deci \<Rightarrow> host \<Rightarrow> string \<Rightarrow> vm_state \<Rightarrow> val list \<Rightarrow> bool" where
  "native_sources D H name st args \<longleftrightarrow>
     (name = ''LoadString'' \<longrightarrow> (case args of [V_Str s] \<Rightarrow> source_room D st (s_data s) | _ \<Rightarrow> True)) \<and>
     (name = ''Require'' \<longrightarrow> (case args of
        [V_Str s] \<Rightarrow> (case module_text H st s of None \<Rightarrow> True | Some inp \<Rightarrow> source_room D st inp) | _ \<Rightarrow> True))"

text \<open>The reads of \<open>RawRead\<close> that the code leaves undefined.\<close>

definition reads_byte :: "val list \<Rightarrow> bool" where
  "reads_byte args \<longleftrightarrow> (case args of [V_Str s] \<Rightarrow> s_data s \<noteq> ''L'' \<and> s_data s \<noteq> ''s'' | _ \<Rightarrow> True)"

lemma X_RawRead_wrong_args: "length args \<noteq> 1 \<Longrightarrow> state_ok D T st \<Longrightarrow> replies D T st (X_RawRead H st args)"
  by (simp add: X_RawRead_def guardn_def guarded_def replies_throws)

lemma native_returns:
  assumes D: "deci_ok D" and H: "targets_ok H" and st: "state_ok D (verified D) st" and args: "good_args D st args"
    and mem: "(name, f) \<in> set (natives D H ev)"
    and room: "native_room D H name st args" and sources: "native_sources D H name st args"
    and name: "name \<noteq> ''Require''" "name = ''RawRead'' \<longrightarrow> reads_byte args"
  shows "replies D (verified D) st (f st args)"
proof -
  let ?R = "\<lambda>r. replies D (verified D) st r"
  note r = room [unfolded native_room_def]
  obtain prec where "ntp_ok D (vm_ntp st) prec" using st by (auto simp: state_ok_def)
  note ntp = ntp_ok_unique [OF D this]
  have raw: "?R (X_RawRead H st args)" if "name = ''RawRead''"
  proof (cases "length args = 1")
    case True
    then show ?thesis
      using name(2) that by (intro X_RawRead_ok st args) (auto simp: reads_byte_def length_Suc_conv)
  qed (rule X_RawRead_wrong_args [OF _ st])
  have num: "?R (X_Trunc D st args)" "?R (X_Floor D st args)" "?R (X_Ceil D st args)" "?R (X_Round D st args)"
    if "name \<in> {''trunc'', ''floor'', ''ceil'', ''round''}"
  proof -
    have "fits D (Suc (nwords n))" if "args = [V_Num n]" for n using r that \<open>name \<in> _\<close> by auto
    note ok = X_rounding_ok [OF D st args this]
    show "?R (X_Trunc D st args)" "?R (X_Floor D st args)" "?R (X_Ceil D st args)" "?R (X_Round D st args)" by (rule ok; assumption)+
  qed
  have scaling: "?R (X_DownScale D st args)" "?R (X_UpScale D st args)" if "name \<in> {''DownScale'', ''UpScale''}"
  proof -
    have "fits D (Suc (nwords x + number_to_zu D m div DECI_BASE_LOG D))" if "args = [V_Num x, V_Num m]" for x m
      using r that \<open>name \<in> _\<close> by auto
    note ok = X_scaling_ok [OF D st args this]
    show "?R (X_DownScale D st args)" "?R (X_UpScale D st args)" by (rule ok; assumption)+
  qed
  have inp: "?R (X_Input H st args)" if "name = ''Input''" by (rule X_Input_ok [OF st]) (use r that in simp)
  have clock: "?R (X_Clock D H st args)" if "name = ''Clock''" by (rule X_Clock_ok [OF D st]) (use r that in simp)
  have sc: "?R (X_Scale D st args)" if "name = ''Scale''" by (rule X_Scale_ok [OF D st args]) (use r that in simp)
  have load: "?R (X_LoadString D st args)" if "name = ''LoadString''" by (rule X_LoadString_ok [OF D st args]) (use sources that in \<open>simp add: native_sources_def\<close>)
  have tonum: "?R (X_ToNumber D st args)" if "name = ''ToNumber''" by (rule X_ToNumber_ok [OF D st args]) (use r that in simp)
  have enc: "?R (X_Encode D st args)" if "name = ''Encode''" by (rule X_Encode_ok [OF D st args]) (use r that in simp)
  have dec: "?R (X_Decode D st args)" if "name = ''Decode''" by (rule X_Decode_ok [OF D st args ntp]) (use r that in simp)
  note easy = X_Dasm_ok [OF st] X_Kind_ok [OF st] X_Pop_ok [OF st args] X_RemoveKey_ok [OF st args] X_Ord_ok [OF D st args]
    X_Chr_ok [OF st args] X_Error_ok [OF st args] X_RawWrite_ok [OF st args] X_Where_ok [OF st] X_Random32_ok [OF D st]
    X_Frac_ok [OF D st args] X_NextKey_ok [OF st args] X_NumDigits_ok [OF D st args] X_Wref_ok [OF st] X_Wvalue_ok [OF st H]
  show ?thesis
    using mem name(1) unfolding natives_def set_simps insert_iff empty_iff prod.inject simp_thms
    by (elim disjE conjE) (simp_all only: easy raw num scaling inp clock sc load tonum enc dec simp_thms insert_iff)
qed

text \<open>Whatever the arguments are, what a native function returns keeps the state well formed.\<close>

lemma X_RawRead_keeps:
  assumes st: "state_ok D T st" and args: "good_args D st args"
  shows "keeps D T st (X_RawRead H st args)"
proof (cases "length args = 1 \<longrightarrow> reads_byte args")
  case True
  have "replies D T st (X_RawRead H st args)"
  proof (cases "length args = 1")
    case one: True
    then show ?thesis using True by (intro X_RawRead_ok st args) (auto simp: reads_byte_def length_Suc_conv)
  qed (rule X_RawRead_wrong_args [OF _ st])
  then show ?thesis by (simp add: keeps_def)
next
  case False
  then obtain s where "args = [V_Str s]" "s_data s = ''L'' \<or> s_data s = ''s''"
    by (auto simp: reads_byte_def length_Suc_conv split: list.splits val.splits)
  then have "X_RawRead H st args = None"
    by (auto simp: X_RawRead_def guardn_def guarded_def guarded_string_def guardv_def)
  then show ?thesis by (simp add: keeps_def)
qed

definition modules_keep :: "deci \<Rightarrow> (vm_state \<Rightarrow> nat \<Rightarrow> reply) \<Rightarrow> bool" where
  "modules_keep D ev \<longleftrightarrow> (\<forall>st g f. state_ok D (verified D) (loaded st g f) \<longrightarrow> accepted D (length (g_data g)) f \<longrightarrow>
     keeps D (verified D) (loaded st g f) (ev (loaded st g f) (length (vm_heap st))))"

lemma native_keeps:
  assumes D: "deci_ok D" and H: "targets_ok H" and ev: "modules_keep D ev"
    and st: "state_ok D (verified D) st" and args: "good_args D st args"
    and mem: "(name, f) \<in> set (natives D H ev)"
    and room: "native_room D H name st args" and sources: "native_sources D H name st args"
  shows "keeps D (verified D) st (f st args)"
proof -
  consider "name \<noteq> ''Require''" "name \<noteq> ''RawRead''" | "name = ''Require''" | "name = ''RawRead''" by blast
  then show ?thesis
  proof cases
    case 1
    then show ?thesis using native_returns [OF D H st args mem room sources] by (simp add: keeps_def)
  next
    case 2
    then have "f = X_Require D H ev" using mem by (simp add: natives_def)
    moreover have "keeps D (verified D) st (X_Require D H ev st args)"
    proof (rule X_Require_ok [OF D st])
      show "source_room D st inp" if "args = [V_Str s]" "module_text H st s = Some inp" for s inp
        using sources 2 that by (simp add: native_sources_def)
    qed (use ev in \<open>simp add: modules_keep_def\<close>)
    ultimately show ?thesis by simp
  next
    case 3
    then have "f = X_RawRead H" using mem by (simp add: natives_def)
    then show ?thesis using X_RawRead_keeps [OF st args] by simp
  qed
qed

section \<open>The machine with its natives\<close>

text \<open>
  A native function that has the memory that it needs and compiles none but the sources above, and evaluation as long
  as there is memory for the next instruction and it does not move the stack while it scatters or gathers arguments.
  Where they return, they return what the functions of the program do.
\<close>

definition native_in_room :: "deci \<Rightarrow> host \<Rightarrow> (vm_state \<Rightarrow> nat \<Rightarrow> reply) \<Rightarrow> nat \<Rightarrow> vm_state \<Rightarrow> val list \<Rightarrow> reply" where
  "native_in_room D H ev i st args =
     (let fs = natives D H ev in
      if i < length fs \<and> native_room D H (fst (fs ! i)) st args \<and> native_sources D H (fst (fs ! i)) st args
      then native D H ev i st args else None)"

partial_function (option) loop_in_room :: "env \<Rightarrow> vm_state \<Rightarrow> runtime_info \<Rightarrow> reply" where
  "loop_in_room E st r =
     (if \<not> roomy E (st, r) \<or> \<not> still (st, r) then None
      else do {
        (st, out) \<leftarrow> step E st r;
        (case out of
           Running r \<Rightarrow> loop_in_room E st r
         | Done v \<Rightarrow> Some (st, Inr v)
         | Thrown m \<Rightarrow> Some (st, Inl m))
      })"

definition eval_in_room :: "env \<Rightarrow> vm_state \<Rightarrow> nat \<Rightarrow> reply" where
  "eval_in_room E st a =
     do {
       f \<leftarrow> heap_func (vm_heap st) a;
       res \<leftarrow> eval_start f a;
       (case res of Inl m \<Rightarrow> Some (st, Inl m) | Inr r \<Rightarrow> loop_in_room E st r)
     }"

text \<open>
  \<open>Require\<close> evaluates a module inside of an evaluation; \<open>n\<close> bounds how deep they are nested, as the stack of the
  program does.
\<close>

fun machine :: "deci \<Rightarrow> host \<Rightarrow> (val \<Rightarrow> val \<Rightarrow> bool) \<Rightarrow> (val \<Rightarrow> string) \<Rightarrow> nat \<Rightarrow> env" where
  "machine D H same addr 0 =
     \<lparr>e_deci = D, e_same = same, e_addr = addr, e_native = native_in_room D H (\<lambda>st a. None)\<rparr>"
| "machine D H same addr (Suc n) =
     \<lparr>e_deci = D, e_same = same, e_addr = addr, e_native = native_in_room D H (eval_in_room (machine D H same addr n))\<rparr>"

lemma machine_simps [simp]: "e_deci (machine D H same addr n) = D" "e_same (machine D H same addr n) = same"
  by (cases n; simp)+

text \<open>When an evaluation returns, the last instruction of a run did.\<close>

lemma run_trans: "run E d e \<Longrightarrow> run E c d \<Longrightarrow> run E c e"
  by (induction rule: run.induct) (auto intro: run.intros)

definition last_step :: "env \<Rightarrow> vm_state \<Rightarrow> runtime_info \<Rightarrow> vm_state \<Rightarrow> string + val \<Rightarrow> bool" where
  "last_step E st r st'' res \<longleftrightarrow> (\<exists>st' r' out. run E (st, r) (st', r') \<and> roomy E (st', r') \<and> still (st', r') \<and> step E st' r' = Some (st'', out) \<and>
     (case res of Inl m \<Rightarrow> out = Thrown m | Inr v \<Rightarrow> out = Done v))"

lemma loop_in_room_steps:
  assumes "loop_in_room E st r = Some y"
  shows "last_step E st r (fst y) (snd y)"
  using _ assms
proof (rule loop_in_room.raw_induct)
  fix loop E st r y
  assume IH: "\<And>E st r y. loop E st r = Some y \<Longrightarrow> last_step E st r (fst y) (snd y)"
    and y: "(if \<not> roomy E (st, r) \<or> \<not> still (st, r) then None else do { (st, out) \<leftarrow> step E st r; (case out of Running r \<Rightarrow> loop E st r
       | Done v \<Rightarrow> Some (st, Inr v) | Thrown m \<Rightarrow> Some (st, Inl m)) }) = Some y"
  from y obtain st1 out where step: "roomy E (st, r)" "still (st, r)" "step E st r = Some (st1, out)"
    and rest: "(case out of Running r \<Rightarrow> loop E st1 r | Done v \<Rightarrow> Some (st1, Inr v) | Thrown m \<Rightarrow> Some (st1, Inl m)) = Some y"
    by (auto split: if_splits bind_splits)
  show "last_step E st r (fst y) (snd y)"
  proof (cases out)
    case (Running r1)
    then have "run E (st, r) (st1, r1)" using step run_step [OF run_refl] by simp
    with IH [of E st1 r1 y] rest Running show ?thesis by (auto simp: last_step_def intro: run_trans)
  qed (use step rest run_refl [of E "(st, r)"] in \<open>fastforce simp: last_step_def\<close>)+
qed

lemma run_grows:
  assumes "run E c c'" and "vm_inv (e_deci E) T (fst c) (snd c)" and E: "env_ok E T"
  shows "grown (fst c) (fst c')"
  using assms(1,2)
proof (induction rule: run.induct)
  case (run_step c st r st' r')
  have "vm_inv (e_deci E) T st r" using run_inv [OF run_step.hyps(1) run_step.prems E] by simp
  from step_grows [OF this E run_step.hyps(3,4)] run_step.IH [OF run_step.prems] show ?case by (auto intro: grown_trans)
qed simp

lemma last_step_keeps:
  assumes last: "last_step E st r st'' res" and inv: "vm_inv (e_deci E) T st r" and E: "env_ok E T"
  shows "grown st st''" "state_ok (e_deci E) T st''" "result_ok (e_deci E) (vm_heap st'') res"
proof -
  from last obtain st' r' out where run: "run E (st, r) (st', r')" and room: "roomy E (st', r')" "still (st', r')" and step: "step E st' r' = Some (st'', out)"
    and res: "case res of Inl m \<Rightarrow> out = Thrown m | Inr v \<Rightarrow> out = Done v" unfolding last_step_def by blast
  have inv': "vm_inv (e_deci E) T st' r'" using run_inv [OF run _ E] inv by simp
  show "grown st st''" using run_grows [OF run _ E] inv step_grows [OF inv' E room(2) step] by (auto intro: grown_trans)
  show "state_ok (e_deci E) T st''" "result_ok (e_deci E) (vm_heap st'') res"
    using step_roomy [OF inv' E room] step res by (cases res; simp)+
qed

lemma eval_in_room_keeps:
  assumes E: "env_ok E (verified (e_deci E))" shows "modules_keep (e_deci E) (eval_in_room E)"
  unfolding modules_keep_def
proof (intro allI impI)
  fix st g f
  let ?D = "e_deci E" and ?st = "loaded st g f" and ?a = "length (vm_heap st)"
  assume st: "state_ok ?D (verified ?D) ?st" and f: "accepted ?D (length (g_data g)) f"
  have at: "heap_func (vm_heap ?st) ?a = Some f" by (rule loaded_grows)
  have room: "16 * (maxstack (sh_of f) + nlocals (sh_of f) + 1) \<le> SIZE_MAX" "nargs_encoded (sh_of f) = 0"
    using f by (simp_all add: accepted_def)
  obtain res where res: "eval_start f ?a = Some res" and ok: "case res of Inl m \<Rightarrow> nargs_encoded (sh_of f) \<noteq> 0 | Inr r \<Rightarrow>
      vm_inv ?D (verified ?D) ?st r"
    by (rule yieldsE [OF eval_start_ok [OF st at room(1)]]) (auto split: sum.splits)
  then obtain r where r: "eval_start f ?a = Some (Inr r)" "vm_inv ?D (verified ?D) ?st r"
    using room(2) by (cases res) auto
  have "replies ?D (verified ?D) ?st (Some y)" if "eval_in_room E ?st ?a = Some y" for y
  proof -
    have "loop_in_room E ?st r = Some y" using that at r(1) by (simp add: eval_in_room_def)
    from last_step_keeps [OF loop_in_room_steps [OF this] r(2) E] show ?thesis by (simp add: replies_def grown_def split_def)
  qed
  then show "keeps ?D (verified ?D) ?st (eval_in_room E ?st ?a)" by (auto simp: keeps_def)
qed

lemma native_in_room_keeps:
  assumes "deci_ok D" and "targets_ok H" and "modules_keep D ev" and "state_ok D (verified D) st" and "good_args D st args"
  shows "keeps D (verified D) st (native_in_room D H ev i st args)"
proof -
  let ?fs = "natives D H ev"
  have "keeps D (verified D) st (native D H ev i st args)" if i: "i < length ?fs"
    and room: "native_room D H (fst (?fs ! i)) st args" "native_sources D H (fst (?fs ! i)) st args"
  proof -
    have "(fst (?fs ! i), snd (?fs ! i)) \<in> set ?fs" using i by simp
    from native_keeps [OF assms this room] show ?thesis using i by (simp add: native_def Let_def)
  qed
  then show ?thesis by (simp add: native_in_room_def Let_def keeps_def)
qed

text \<open>Its natives keep the state well formed, at any depth.\<close>

lemma machine_ok:
  assumes D: "deci_ok D" and H: "targets_ok H" and same: "\<forall>w v. same w v \<longrightarrow> w = v"
  shows "env_ok (machine D H same addr n) (verified D)"
proof (induction n)
  have env: "env_ok E (verified D)"
    if E: "e_deci E = D" "e_same E = same" "e_native E = native_in_room D H ev" and ev: "modules_keep D ev" for E ev
    unfolding env_ok_def E
  proof (intro conjI allI impI D)
    fix f st args st' res
    assume "state_ok D (verified D) st" and "\<forall>v \<in> set args. val_ok D (vm_heap st) v"
      and "native_in_room D H ev f st args = Some (st', res)"
    then have "replies D (verified D) st (Some (st', res))"
      using native_in_room_keeps [OF D H ev, of st args f] by (simp add: good_args_def keeps_def)
    then show "state_ok D (verified D) st'" "heap_le (vm_heap st) (vm_heap st')" "nglobals st \<le> nglobals st'" "result_ok D (vm_heap st') res"
      by (simp_all add: replies_def)
  qed (use same in blast)
  case 0
  have "keeps D T st None" for T st by (simp add: keeps_def)
  then have "modules_keep D (\<lambda>st a. None)" unfolding modules_keep_def by blast
  then show ?case by (rule env [rotated 3]) simp_all
  case (Suc n)
  then have "modules_keep D (eval_in_room (machine D H same addr n))" using eval_in_room_keeps [of "machine D H same addr n"] by simp
  then show ?case by (rule env [rotated 3]) simp_all
qed

section \<open>The modes of the program\<close>

text \<open>\<open>make_state\<close>: the native functions become global variables, and the library in the language itself is run.\<close>

definition with_natives :: "deci \<Rightarrow> host \<Rightarrow> vm_state option" where
  "with_natives D H =
     do {
       st \<leftarrow> state_new D;
       g \<leftarrow> inject (vm_globals st) (map fst (natives D H (\<lambda>st a. None))) 0;
       Some (st\<lparr>vm_globals := g\<rparr>)
     }"

definition inject_stdlib :: "deci \<Rightarrow> (vm_state \<Rightarrow> nat \<Rightarrow> reply) \<Rightarrow> string \<Rightarrow> vm_state \<Rightarrow> vm_state option" where
  "inject_stdlib D ev stdlib st =
     do {
       (st, f) \<leftarrow> load_string D st stdlib ''(stdlib)'';
       (case f of
          Inl _ \<Rightarrow> None
        | Inr a \<Rightarrow> do {
            (st, r) \<leftarrow> ev st a;
            (case r of Inl _ \<Rightarrow> None | Inr _ \<Rightarrow> Some st)
          })
     }"

definition make_state :: "deci \<Rightarrow> host \<Rightarrow> (vm_state \<Rightarrow> nat \<Rightarrow> reply) \<Rightarrow> string \<Rightarrow> vm_state option" where
  "make_state D H ev stdlib = do { st \<leftarrow> with_natives D H; inject_stdlib D ev stdlib st }"

text \<open>\<open>calx -c CODE\<close>: the state at the end, and whether the code compiled and did not throw.\<close>

definition inline_mode :: "deci \<Rightarrow> host \<Rightarrow> (vm_state \<Rightarrow> nat \<Rightarrow> reply) \<Rightarrow> string \<Rightarrow> string \<Rightarrow> (vm_state \<times> bool) option" where
  "inline_mode D H ev stdlib inp =
     do {
       st \<leftarrow> make_state D H ev stdlib;
       (st, f) \<leftarrow> load_string D st inp ''('-c' argument)'';
       (case f of
          Inl _ \<Rightarrow> Some (st, False)
        | Inr a \<Rightarrow> do { (st, r) \<leftarrow> ev st a; Some (st, case r of Inl _ \<Rightarrow> False | Inr _ \<Rightarrow> True) })
     }"

text \<open>\<open>calx FILE\<close>, where \<open>-\<close> is the standard input.\<close>

definition file_mode :: "deci \<Rightarrow> host \<Rightarrow> (vm_state \<Rightarrow> nat \<Rightarrow> reply) \<Rightarrow> string \<Rightarrow> string \<Rightarrow> (vm_state \<times> bool) option" where
  "file_mode D H ev stdlib path_arg =
     do {
       st \<leftarrow> make_state D H ev stdlib;
       (st, f) \<leftarrow> (if path_arg = ''-'' then load_fd D st (h_stdin H (vm_reads st)) ''(stdin)'' else load_file D H st path_arg);
       (case f of
          None \<Rightarrow> Some (st, False)
        | Some a \<Rightarrow> do { (st, r) \<leftarrow> ev st a; Some (st, case r of Inl _ \<Rightarrow> False | Inr _ \<Rightarrow> True) })
     }"

text \<open>
  The interactive mode. A line that ends too early is continued by further lines; \<open>None\<close> of \<open>h_line\<close> is the end of the
  input. Fuel \<open>k\<close> bounds the number of lines.
\<close>

fun read_and_run :: "deci \<Rightarrow> host \<Rightarrow> (vm_state \<Rightarrow> nat \<Rightarrow> reply) \<Rightarrow> nat \<Rightarrow> string \<Rightarrow> vm_state \<Rightarrow> vm_state option" where
  "read_and_run D H ev 0 buf st = None"
| "read_and_run D H ev (Suc k) buf st =
     do {
       (st, f) \<leftarrow> load_string D st buf ''(input)'';
       (case f of
          Inl e \<Rightarrow>
            (if need_more e
             then case h_line H (vm_reads st) of
                    None \<Rightarrow> Some (after_read st)
                  | Some cont \<Rightarrow> read_and_run D H ev k (buf @ [CHR 0x0A] @ cont) (after_read st)
             else Some st)
        | Inr a \<Rightarrow> do { (st, r) \<leftarrow> ev st a; Some st })
     }"

fun interactive_loop :: "deci \<Rightarrow> host \<Rightarrow> (vm_state \<Rightarrow> nat \<Rightarrow> reply) \<Rightarrow> nat \<Rightarrow> vm_state \<Rightarrow> vm_state option" where
  "interactive_loop D H ev 0 st = None"
| "interactive_loop D H ev (Suc k) st =
     (case h_line H (vm_reads st) of
        None \<Rightarrow> Some (after_read st)
      | Some inp \<Rightarrow> do { st \<leftarrow> read_and_run D H ev k inp (after_read st); interactive_loop D H ev k st })"

definition maybe_load_rc :: "deci \<Rightarrow> host \<Rightarrow> (vm_state \<Rightarrow> nat \<Rightarrow> reply) \<Rightarrow> vm_state \<Rightarrow> vm_state option" where
  "maybe_load_rc D H ev st =
     (case h_path H of
        None \<Rightarrow> Some st
      | Some calx_path \<Rightarrow> do {
          (st, f) \<leftarrow> load_file D H st (calx_path @ ''/rc.calx'');
          (case f of None \<Rightarrow> Some st | Some a \<Rightarrow> do { (st, r) \<leftarrow> ev st a; Some st })
        })"

definition interactive_mode :: "deci \<Rightarrow> host \<Rightarrow> (vm_state \<Rightarrow> nat \<Rightarrow> reply) \<Rightarrow> nat \<Rightarrow> string \<Rightarrow> vm_state option" where
  "interactive_mode D H ev k stdlib =
     do {
       st \<leftarrow> make_state D H ev stdlib;
       st \<leftarrow> maybe_load_rc D H ev st;
       interactive_loop D H ev k st
     }"

text \<open>Every native function becomes the value of the variable of its name.\<close>

lemma steal_length: "state_steal_global g name v = Some g' \<Longrightarrow> length (g_data g') \<le> Suc (length (g_data g))"
  by (auto simp: state_steal_global_def state_intern_global_def Let_def dest!: global_store_length split: bind_splits if_splits)

lemma inject_yields:
  assumes "globals_ok g" and "length (g_data g) + length names \<le> 2 ^ 20" and "distinct names"
  shows "yields (inject g names i) (\<lambda>g'. globals_ok g' \<and> length (g_data g') \<le> length (g_data g) + length names \<and>
    genv g' = genv g ++ map_of (zip names (map V_CFunc [i..<i + length names])))"
  using assms
proof (induction names arbitrary: g i)
  case (Cons name names)
  have "xht_room (g_table g)" using Cons.prems(1,2) by (simp add: xht_room_def globals_ok_def)
  then obtain g' where g': "state_steal_global g name (V_CFunc i) = Some g'" "globals_ok g'" "genv g' = (genv g)(name \<mapsto> V_CFunc i)"
    using state_steal_global_yields [OF Cons.prems(1), of name "V_CFunc i"] by (auto simp: yields_iff_ex)
  have len: "length (g_data g') \<le> Suc (length (g_data g))" by (rule steal_length [OF g'(1)])
  have up: "[i..<Suc (i + length names)] = i # [Suc i..<Suc i + length names]" by (simp add: upt_rec)
  have "name \<notin> dom (map_of (zip names (map V_CFunc [Suc i..<Suc i + length names])))" using Cons.prems(3) by simp
  then have "genv g' ++ map_of (zip names (map V_CFunc [Suc i..<Suc i + length names])) =
      genv g ++ map_of (zip (name # names) (map V_CFunc [i..<i + length (name # names)]))"
    unfolding g'(3) by (simp add: up map_add_upd_left del: upt_Suc)
  moreover have "yields (inject g' names (i + 1)) (\<lambda>g''. globals_ok g'' \<and> length (g_data g'') \<le> length (g_data g') + length names \<and>
    genv g'' = genv g' ++ map_of (zip names (map V_CFunc [i + 1..<i + 1 + length names])))"
    by (rule Cons.IH [OF g'(2)]) (use Cons.prems len in simp_all)
  ultimately show ?case using g'(1) len by (auto simp: yields_iff_ex)
qed simp

lemma natives_names: "distinct (map fst (natives D H ev))" "length (natives D H ev) = 30"
  by (simp_all add: natives_def)

lemma genv_complete:
  assumes g: "globals_ok g" and v: "Some v \<in> set (g_data g)"
  shows "v \<in> ran (genv g)"
proof -
  obtain i where i: "i < length (g_data g)" "g_data g ! i = Some v" using v by (auto simp: in_set_conv_nth)
  have "slot g (it_key (items (g_table g) ! i)) = Some i" using slot_iff [OF g, of "it_key (items (g_table g) ! i)" i] i(1) by simp
  then have "genv g (it_key (items (g_table g) ! i)) = Some v" using i(2) by (simp add: genv_def)
  then show ?thesis by (rule ranI)
qed

lemma with_natives_yields:
  assumes D: "deci_ok D"
  shows "yields (with_natives D H) (\<lambda>st. state_ok D T st \<and> nglobals st \<le> 30 \<and> vm_heap st = [] \<and>
    genv (vm_globals st) = map_of (zip (map fst (natives D H (\<lambda>st a. None))) (map V_CFunc [0..<30])))"
proof -
  let ?names = "map fst (natives D H (\<lambda>st a. None))"
  obtain g where g: "globals_new = Some g" "globals_ok g" "g_data (g :: val globals) = []" and env: "genv g = Map.empty"
    using globals_new_yields by (auto simp: yields_iff_ex)
  obtain g' where g': "inject g ?names 0 = Some g'" "globals_ok g'" "length (g_data g') \<le> 30"
      "genv g' = map_of (zip ?names (map V_CFunc [0..<30]))"
    using inject_yields [OF g(2), of ?names 0] natives_names [of D H "\<lambda>st a. None"] g(3) env by (auto simp: yields_iff_ex)
  have "val_ok D h v" if v: "Some v \<in> set (g_data g')" for h v
  proof -
    obtain a where "map_of (zip ?names (map V_CFunc [0..<30])) a = Some v"
      using genv_complete [OF g'(2) v] unfolding g'(4) ran_def by blast
    from set_zip_rightD [OF map_of_SomeD [OF this]] show ?thesis by (auto simp del: upt_rec_numeral)
  qed
  moreover have "with_natives D H = Some \<lparr>vm_globals = g', vm_heap = [], vm_ntp = ntp_from_prec D 20, vm_out = [], vm_reads = 0\<rparr>"
    by (simp add: with_natives_def state_new_def g(1) g'(1))
  ultimately show ?thesis using g'(2-4) ntp_from_prec_ok [OF D, of 20] by (auto simp: state_ok_def heap_ok_def)
qed

text \<open>What the modes do with a source is what a session does.\<close>

lemma load_session:
  assumes "session E st0 st" and "admitted (e_deci E) st inp (parse_fuel inp)"
    and "load_string (e_deci E) st inp orig = Some (st', Inl e)"
  shows "session E st0 st'"
proof -
  obtain g where "parse (e_deci E) (parse_fuel inp) (vm_globals st) inp orig = Some (Inl e, g)" "st' = st\<lparr>vm_globals := g\<rparr>"
    using assms(3) by (auto simp: load_string_def heap_alloc_def Let_def split: bind_splits sum.splits)
  then show ?thesis using session_error [OF assms(1,2)] by simp
qed

lemma eval_session:
  assumes E: "env_ok E (verified (e_deci E))" and st: "state_ok (e_deci E) (verified (e_deci E)) st0"
    and s: "session E st0 st" and inp: "admitted (e_deci E) st inp (parse_fuel inp)"
    and load: "load_string (e_deci E) st inp orig = Some (st', Inr a)" and ev: "eval_in_room E st' a = Some (st'', res)"
  shows "session E st0 st''"
proof -
  obtain f g where f: "parse (e_deci E) (parse_fuel inp) (vm_globals st) inp orig = Some (Inr f, g)"
    and st': "st' = loaded st g f" "a = length (vm_heap st)"
    using load by (auto simp: load_string_def loaded_def heap_alloc_def Let_def split: bind_splits sum.splits)
  obtain r where r: "eval_start f a = Some (Inr r)"
    using loaded_runs [OF E session_ok [OF s E st] inp f] st'(2) by (auto simp: yields_iff_ex simp del: split_paired_Ex)
  have "heap_func (vm_heap st') a = Some f" unfolding st' by (rule loaded_grows)
  then have "loop_in_room E st' r = Some (st'', res)" using ev r by (simp add: eval_in_room_def)
  from loop_in_room_steps [OF this] obtain s' r' out where
    "run E (st', r) (s', r')" "roomy E (s', r')" "still (s', r')" "step E s' r' = Some (st'', out)" "\<forall>r''. out \<noteq> Running r''"
    by (cases res) (auto simp: last_step_def)
  then show ?thesis using session_eval [OF s inp f] r st' by auto
qed

lemma make_state_session:
  assumes D: "deci_ok D" and H: "targets_ok H" and same: "\<forall>w v. same w v \<longrightarrow> w = v"
    and stdlib: "fits D (length stdlib)" "length stdlib \<le> 2 ^ 26" "calm_source stdlib"
    and st: "make_state D H (eval_in_room (machine D H same addr n)) stdlib = Some st"
  obtains st0 where "with_natives D H = Some st0" "session (machine D H same addr n) st0 st"
proof -
  let ?M = "machine D H same addr n"
  obtain st0 where st0: "with_natives D H = Some st0" "state_ok D (verified D) st0" "nglobals st0 \<le> 30"
    using with_natives_yields [OF D, of H "verified D"] by (auto simp: yields_iff_ex)
  have E: "env_ok ?M (verified (e_deci ?M))" using machine_ok [OF D H same] by simp
  have adm: "admitted (e_deci ?M) st0 stdlib (parse_fuel stdlib)" using stdlib st0(3) by (simp add: admitted_def parse_fuel_def)
  from st st0(1) obtain st1 a r where "load_string D st0 stdlib ''(stdlib)'' = Some (st1, Inr a)"
      "eval_in_room ?M st1 a = Some (st, Inr r)"
    by (auto simp: make_state_def inject_stdlib_def split: bind_splits sum.splits)
  with eval_session [OF E _ session_start adm] st0(2) have "session ?M st0 st" by simp
  with st0(1) show thesis by (rule that)
qed

section \<open>Properties\<close>

text \<open>
  C2: The native functions return. Called with any number of well-formed values of any kinds, in a well-formed
  state, when there is memory for what it makes (\<open>native_room\<close>), each function of the table of \<open>make_state\<close> but
  \<open>Require\<close> returns a value or throws, and leaves the state well formed: numbers have no superfluous words, strings
  their hash, dictionaries their chains, what refers to an object refers to one of its kind, and functions have code
  that the verifier accepts. The text given to \<open>LoadString\<close> is restricted (\<open>native_sources\<close>): it has at most
  \<open>2 ^ 26\<close> characters, there are at most \<open>2 ^ 29\<close> global variables, and it defines no function after a \<open>for\<close> in the
  same block; the functions that are compiled from such a text are accepted too. The reads of \<open>RawRead\<close> that pass
  uninitialised pointers are left out, and of the object of a weak reference, which the host chooses, it is assumed
  that it is a list or a dictionary of the heap (\<open>targets_ok\<close>). The output of \<open>Where\<close> and \<open>Dasm\<close> is not modelled.
\<close>

theorem natives_return:
  assumes "deci_ok D" and "targets_ok H" and "state_ok D (verified D) st" and "\<forall>v \<in> set args. val_ok D (vm_heap st) v"
    and "(name, f) \<in> set (natives D H ev)" and "native_room D H name st args" and "native_sources D H name st args"
    and "name \<noteq> ''Require''" and "name = ''RawRead'' \<longrightarrow> reads_byte args"
  shows "yields (f st args) (\<lambda>(st', res). state_ok D (verified D) st' \<and> result_ok D (vm_heap st') res \<and>
    heap_le (vm_heap st) (vm_heap st') \<and> nglobals st \<le> nglobals st')"
  using native_returns [OF assms(1-3) _ assms(5-9)] assms(4) by (auto simp: replies_def good_args_def elim!: yields_conseq)

definition sample_host :: host where
  "sample_host = \<lparr>h_line = (\<lambda>n. None), h_clock = (\<lambda>n. None), h_getchar = (\<lambda>n. None), h_random = (\<lambda>n. Inr 7), h_file = (\<lambda>n s. None),
     h_stdin = (\<lambda>n. None), h_path = None, h_wref = (\<lambda>st a. a), h_target = (\<lambda>st w. None)\<rparr>"

lemma sample_targets: "targets_ok sample_host"
  by (simp add: targets_ok_def sample_host_def)

theorem natives_return_witness:
  "\<exists>s. string_new ''12.5'' = Some s \<and> yields (X_ToNumber deci_ref small_state [V_Str s]) (\<lambda>(st', res). result_ok deci_ref (vm_heap st') res)"
proof -
  obtain s where s: "string_new ''12.5'' = Some s" "str_good s" "s_data s = ''12.5''"
    using string_new_yields [of "''12.5''"] string_new_is_good [of "''12.5''"] by (auto simp: yields_iff_ex SIZEOF_STRING_def SIZE_MAX_def)
  have room: "native_room deci_ref sample_host ''ToNumber'' small_state [V_Str s]"
      "native_sources deci_ref sample_host ''ToNumber'' small_state [V_Str s]"
    using s(3) by (simp_all add: native_room_def native_sources_def fits_def SIZEOF_NUMBER_def SIZE_MAX_def)
  have "yields (X_ToNumber deci_ref small_state [V_Str s]) (\<lambda>(st', res). state_ok deci_ref (verified deci_ref) st' \<and>
      result_ok deci_ref (vm_heap st') res \<and> heap_le (vm_heap small_state) (vm_heap st') \<and> nglobals small_state \<le> nglobals st')"
    by (rule natives_return [OF deci_ref_ok sample_targets small_state_ok(1) _ _ room, where ev = "\<lambda>st a. None"])
      (simp_all add: s(2) natives_def)
  with s(1) show ?thesis by (auto elim!: yields_conseq)
qed

text \<open>
  C1: Compiled programs run safely with the native functions of \<open>main.c\<close>, from the state with these functions that
  \<open>make_state\<close> begins with, whatever the host gives them to read. The sources are those that \<open>admitted\<close> describes: at
  most \<open>2 ^ 26\<close> characters with at most \<open>2 ^ 29\<close> global variables, and no function defined after a \<open>for\<close> in the same
  block. Whatever such sources have been compiled and run before, a source of this kind that compiles starts.
  Consider the states that it reaches by instructions for which there is memory (\<open>roomy\<close>) and which do not move the
  value stack while they scatter or gather the arguments of a call (\<open>still\<close>), where the code uses a pointer into the
  stack that has been moved; native functions are run when they have memory and compile only such sources. All
  these states are within the bounds of the stacks and of the code; and if the next instruction has memory, too, the
  native function that it calls returns, and it does not move the stack in this way, then it is executed, and it
  returns a well-formed value, throws, or goes on in such a state.
\<close>

theorem program_safe:
  assumes "deci_ok D" and "targets_ok H" and "\<forall>w v. same w v \<longrightarrow> w = v" and "with_natives D H = Some st0"
    and "session (machine D H same addr n) st0 st" and "admitted D st inp k" and "parse D k (vm_globals st) inp orig = Some (Inr f, g)"
  shows "yields (eval_start f (length (vm_heap st))) (\<lambda>res. \<exists>r. res = Inr r \<and>
    (\<forall>st' r'. run (machine D H same addr n) (loaded st g f, r) (st', r') \<longrightarrow> in_bounds r' \<and>
      (roomy (machine D H same addr n) (st', r') \<and> still (st', r') \<longrightarrow>
       yields (step (machine D H same addr n) st' r') (\<lambda>(st'', out). state_ok D (verified D) st'' \<and>
         (case out of Running r'' \<Rightarrow> in_bounds r'' | Done v \<Rightarrow> val_ok D (vm_heap st'') v | Thrown m \<Rightarrow> True)))))"
proof -
  let ?M = "machine D H same addr n"
  have E: "env_ok ?M (verified (e_deci ?M))" using machine_ok [OF assms(1-3)] by simp
  have "state_ok D (verified D) st0" using with_natives_yields [OF assms(1), of H "verified D"] assms(4) by simp
  then have "state_ok D (verified D) st" using session_ok [OF assms(5) E] by simp
  then show ?thesis by (rule loaded_runs [OF E, unfolded machine_simps, OF _ assms(6,7)])
qed

theorem program_safe_witness:
  "\<exists>st0 f g. with_natives deci_ref sample_host = Some st0 \<and> parse deci_ref 5 (vm_globals st0) ''1'' ''test'' = Some (Inr f, g) \<and>
     yields (eval_start f 0) (\<lambda>res. \<exists>r. res = Inr r \<and>
       (\<forall>st' r'. run (machine deci_ref sample_host (\<lambda>w v. False) (\<lambda>v. ''0x0'') 3) (loaded st0 g f, r) (st', r') \<longrightarrow> in_bounds r'))"
proof -
  obtain st0 where st0: "with_natives deci_ref sample_host = Some st0" "nglobals st0 \<le> 30" "vm_heap st0 = []"
    using with_natives_yields [OF deci_ref_ok, of sample_host "verified deci_ref"] by (auto simp: yields_iff_ex)
  obtain f where f: "parse deci_ref 5 (vm_globals st0) ''1'' ''test'' = Some (Inr f, vm_globals st0)" using small_program by blast
  have "admitted deci_ref st0 ''1'' 5" using st0(2) small_calm small_fits by (simp add: admitted_def)
  from program_safe [OF deci_ref_ok sample_targets _ st0(1) session_start this f, of "\<lambda>w v. False" "\<lambda>v. ''0x0''" 3]
  have "yields (eval_start f 0) (\<lambda>res. \<exists>r. res = Inr r \<and> (\<forall>st' r'.
      run (machine deci_ref sample_host (\<lambda>w v. False) (\<lambda>v. ''0x0'') 3) (loaded st0 (vm_globals st0) f, r) (st', r') \<longrightarrow> in_bounds r'))"
    using st0(3) by (auto elim!: yields_conseq)
  with st0(1) f show ?thesis by blast
qed

end
